(* ===== verification/Prelude.thy ===== *)
theory Prelude
  imports Main "HOL-Library.Word" "HOL-Library.Monad_Syntax"
begin

text \<open>
  Shared vocabulary of the KeblaOS development: the C integer types as fixed-width
  words, byte buffers as lists, buffer bslices and in-place writes, the little-endian
  views of 16, 32 and 64 bit fields inside a buffer, and the arithmetic facts on words
  that every component uses to leave the word level.

  A C buffer of known size is a \<open>u8 list\<close>. \<open>bslice off n b\<close> is the memory
  \<open>b + off .. b + off + n\<close>, \<open>overwrite b off d\<close> is \<open>memcpy (b + off, d, length d)\<close>
  inside the buffer.
\<close>

unbundle bit_operations_syntax

type_synonym u8 = "8 word"
type_synonym u16 = "16 word"
type_synonym u32 = "32 word"
type_synonym u64 = "64 word"
type_synonym bytes = "u8 list"

named_theorems buf_simps \<open>rewriting of bslices and overwrites of buffers\<close>
named_theorems le_simps \<open>rewriting of little-endian field accesses\<close>

section \<open>Machine words as numbers\<close>

lemma unat_u8_lt: "unat (x :: u8) < 256" using unsigned_less [of x] by simp
lemma unat_u16_lt: "unat (x :: u16) < 2 ^ 16" using unsigned_less [of x] by simp
lemma unat_u32_lt: "unat (x :: u32) < 2 ^ 32" using unsigned_less [of x] by simp
lemma unat_u64_lt: "unat (x :: u64) < 2 ^ 64" using unsigned_less [of x] by simp

lemma unat_eqI: "unat a = unat b \<Longrightarrow> a = b"
  by (rule unsigned_word_eqI)

lemma unat_plus_u32: "unat (a :: u32) + unat b < 2 ^ 32 \<Longrightarrow> unat (a + b) = unat a + unat b"
  by (simp add: unat_word_ariths)

lemma unat_times_u32: "unat (a :: u32) * unat b < 2 ^ 32 \<Longrightarrow> unat (a * b) = unat a * unat b"
  by (simp add: unat_word_ariths)

lemma unat_minus_u32: "unat (b :: u32) \<le> unat a \<Longrightarrow> unat (a - b) = unat a - unat b"
  by (simp add: unat_sub_if_size)

lemma unat_plus_u64: "unat (a :: u64) + unat b < 2 ^ 64 \<Longrightarrow> unat (a + b) = unat a + unat b"
  by (simp add: unat_word_ariths)

lemma round_up_div:
  "0 < (n::nat) \<Longrightarrow> (h + (n - 1)) div n * n = h div n * n + (if h mod n = 0 then 0 else n)"
proof -
  assume n: "0 < n"
  have "(h + (n - 1)) div n = h div n + (h mod n + (n - 1)) div n"
  proof -
    have "h + (n - 1) = (h mod n + (n - 1)) + h div n * n"
      using div_mult_mod_eq [of h n] by linarith
    then have "(h + (n - 1)) div n = ((h mod n + (n - 1)) + h div n * n) div n" by (rule arg_cong)
    also have "\<dots> = h div n + (h mod n + (n - 1)) div n" using n by (intro div_mult_self1) simp
    finally show ?thesis .
  qed
  moreover have "(h mod n + (n - 1)) div n = (if h mod n = 0 then 0 else 1)"
  proof (cases "h mod n = 0")
    case False
    then have eq: "h mod n + (n - 1) = n + (h mod n - 1)" and lt: "h mod n - 1 < n"
      using n mod_less_divisor [OF n, of h] by linarith+
    show ?thesis unfolding eq using False n lt by (simp only: div_add_self1) simp
  qed (use n in auto)
  ultimately show ?thesis by (simp add: add_mult_distrib)
qed

section \<open>Failures\<close>

text \<open>
  What C code does when it does not return a value: an \<open>assert\<close> or \<open>halt_kernel\<close> that
  stops the machine, an access outside an allocation, a shift by at least the width of the
  shifted type, a NULL dereference.
\<close>

datatype kfault = Halted | BadAccess | UndefinedShift | NullDeref

definition sum_bind :: "'e + 'a \<Rightarrow> ('a \<Rightarrow> 'e + 'b) \<Rightarrow> 'e + 'b" where
  "sum_bind m f = (case m of Inl e \<Rightarrow> Inl e | Inr x \<Rightarrow> f x)"

lemma sum_bind_simps [simp]: "sum_bind (Inl e) f = Inl e" "sum_bind (Inr x) f = f x"
  by (simp_all add: sum_bind_def)

lemma sum_bind_Inr_iff: "sum_bind m f = Inr y \<longleftrightarrow> (\<exists>x. m = Inr x \<and> f x = Inr y)"
  by (cases m) auto

section \<open>Buffers\<close>

definition bslice :: "nat \<Rightarrow> nat \<Rightarrow> 'a list \<Rightarrow> 'a list" where
  "bslice off n b = take n (drop off b)"

definition overwrite :: "'a list \<Rightarrow> nat \<Rightarrow> 'a list \<Rightarrow> 'a list" where
  "overwrite b off d = take off b @ d @ drop (off + length d) b"

lemma length_bslice [simp, buf_simps]: "length (bslice off n b) = min n (length b - off)"
  by (simp add: bslice_def)

lemma length_overwrite [simp, buf_simps]:
  "off + length d \<le> length b \<Longrightarrow> length (overwrite b off d) = length b"
  by (simp add: overwrite_def)

lemma nth_bslice: "i < n \<Longrightarrow> off + i < length b \<Longrightarrow> bslice off n b ! i = b ! (off + i)"
  by (simp add: bslice_def)

lemma nth_overwrite:
  assumes "off + length d \<le> length b" "i < length b"
  shows "overwrite b off d ! i =
    (if off \<le> i \<and> i < off + length d then d ! (i - off) else b ! i)"
proof -
  have "min (length b) off = off" using assms by simp
  then show ?thesis
    using assms by (auto simp: overwrite_def nth_append)
qed

lemma bslice_overwrite_same [buf_simps]:
  "off + length d \<le> length b \<Longrightarrow> n = length d \<Longrightarrow> bslice off n (overwrite b off d) = d"
  by (simp add: bslice_def overwrite_def)

lemma bslice_overwrite_other [buf_simps]:
  assumes "off + length d \<le> length b" "o2 + n \<le> length b" "o2 + n \<le> off \<or> off + length d \<le> o2"
  shows "bslice o2 n (overwrite b off d) = bslice o2 n b"
  by (rule nth_equalityI) (use assms in \<open>auto simp: nth_bslice nth_overwrite\<close>)

lemma overwrite_bslice_id [buf_simps]:
  "off + n \<le> length b \<Longrightarrow> overwrite b off (bslice off n b) = b"
  by (rule nth_equalityI) (auto simp: nth_bslice nth_overwrite)

lemma bslice_whole [simp]: "n = length b \<Longrightarrow> bslice 0 n b = b"
  by (simp add: bslice_def)

lemma bslice_0 [simp]: "bslice off 0 b = []"
  by (simp add: bslice_def)

lemma bslice_append_adj: "bslice off n b @ bslice (off + n) m b = bslice off (n + m) b"
  by (simp add: bslice_def take_add add.commute [of off n])

lemma bslice_bslice:
  "i + m \<le> n \<Longrightarrow> bslice i m (bslice off n b) = bslice (off + i) m b"
  by (simp add: bslice_def drop_take min_def add.commute)

lemma overwrite_0_full [simp]: "length d = length b \<Longrightarrow> overwrite b 0 d = d"
  by (simp add: overwrite_def)

lemma overwrite_Nil [simp]: "overwrite b off [] = b"
  by (simp add: overwrite_def)

lemma overwrite_adj:
  assumes "off + length d + length e \<le> length b"
  shows "overwrite (overwrite b off d) (off + length d) e = overwrite b off (d @ e)"
  by (rule nth_equalityI) (use assms in \<open>auto simp: nth_overwrite nth_append\<close>)

lemma bslice_concat_map:
  assumes "\<And>i. i < n \<Longrightarrow> length (f i) = w" "i < n"
  shows "bslice (i * w) w (concat (map f [0..<n])) = f i"
  using assms
proof (induction n)
  case (Suc n)
  have len: "length (concat (map f [0..<n])) = n * w"
    using Suc.prems(1) by (induction n) (auto simp: )
  show ?case
  proof (cases "i = n")
    case True
    then show ?thesis using Suc.prems len by (simp add: bslice_def)
  next
    case False
    then have "i < n" using Suc.prems by simp
    then have "Suc i * w \<le> n * w" by (intro mult_le_mono1) simp
    then have le: "i * w + w \<le> n * w" by simp
    have "bslice (i * w) w (concat (map f [0..<n])) = f i"
      using Suc.IH Suc.prems(1) \<open>i < n\<close> by simp
    then show ?thesis using len le by (simp add: bslice_def)
  qed
qed simp

section \<open>Little-endian fields of a buffer\<close>

text \<open>
  The kernel reads and writes packed fields through pointer casts on a little-endian
  machine: \<open>*(uint32_t *)&buf[off]\<close> is \<open>rd32 buf off\<close> and the assignment to it is
  \<open>wr32 buf off v\<close>.
\<close>

definition le_bytes :: "nat \<Rightarrow> 'w::len word \<Rightarrow> bytes" where
  "le_bytes k v = map (\<lambda>i. ucast (drop_bit (8 * i) v)) [0..<k]"

definition le16 :: "u16 \<Rightarrow> bytes" where "le16 v = le_bytes 2 v"
definition le32 :: "u32 \<Rightarrow> bytes" where "le32 v = le_bytes 4 v"
definition le64 :: "u64 \<Rightarrow> bytes" where "le64 v = le_bytes 8 v"

definition of_le :: "bytes \<Rightarrow> 'w::len word" where
  "of_le bs = foldr (\<lambda>b acc. ucast b OR push_bit 8 acc) bs 0"

definition rd8 :: "bytes \<Rightarrow> nat \<Rightarrow> u8" where "rd8 b off = b ! off"
definition rd16 :: "bytes \<Rightarrow> nat \<Rightarrow> u16" where "rd16 b off = of_le (bslice off 2 b)"
definition rd32 :: "bytes \<Rightarrow> nat \<Rightarrow> u32" where "rd32 b off = of_le (bslice off 4 b)"
definition rd64 :: "bytes \<Rightarrow> nat \<Rightarrow> u64" where "rd64 b off = of_le (bslice off 8 b)"

definition wr8 :: "bytes \<Rightarrow> nat \<Rightarrow> u8 \<Rightarrow> bytes" where "wr8 b off v = overwrite b off [v]"
definition wr16 :: "bytes \<Rightarrow> nat \<Rightarrow> u16 \<Rightarrow> bytes" where "wr16 b off v = overwrite b off (le16 v)"
definition wr32 :: "bytes \<Rightarrow> nat \<Rightarrow> u32 \<Rightarrow> bytes" where "wr32 b off v = overwrite b off (le32 v)"
definition wr64 :: "bytes \<Rightarrow> nat \<Rightarrow> u64 \<Rightarrow> bytes" where "wr64 b off v = overwrite b off (le64 v)"

lemma length_le_bytes [simp]: "length (le_bytes k v) = k"
  by (simp add: le_bytes_def)

lemma length_le [simp]: "length (le16 v) = 2" "length (le32 w) = 4" "length (le64 x) = 8"
  by (simp_all add: le16_def le32_def le64_def)

lemma bit_of_le:
  "bit (of_le bs :: 'w::len word) n \<longleftrightarrow>
     n < LENGTH('w) \<and> n div 8 < length bs \<and> bit (bs ! (n div 8)) (n mod 8)"
proof (induction bs arbitrary: n)
  case Nil
  then show ?case by (simp add: of_le_def)
next
  case (Cons b bs)
  have eq: "(of_le (b # bs) :: 'w word) = ucast b OR push_bit 8 (of_le bs)"
    by (simp add: of_le_def)
  show ?case
  proof (cases "n < 8")
    case True
    then show ?thesis by (auto simp: eq bit_simps)
  next
    case False
    then have "n div 8 = Suc ((n - 8) div 8)" "n mod 8 = (n - 8) mod 8"
      by (auto simp: div_if mod_if)
    then show ?thesis using False Cons.IH [of "n - 8"]
      by (auto simp: eq bit_simps dest: bit_imp_le_length)
  qed
qed

lemma of_le_bytes: "of_le (le_bytes k v) = (take_bit (8 * k) v :: 'w::len word)"
proof (rule bit_word_eqI)
  fix n assume "n < LENGTH('w)"
  have "n div 8 < k \<longleftrightarrow> n < 8 * k" by (simp add: div_less_iff_less_mult mult.commute)
  then show "bit (of_le (le_bytes k v) :: 'w word) n = bit (take_bit (8 * k) v) n"
    using \<open>n < LENGTH('w)\<close> by (auto simp: bit_of_le le_bytes_def bit_simps)
qed

lemma of_le_le16 [simp, le_simps]: "of_le (le16 v) = v"
  by (simp add: le16_def of_le_bytes take_bit_word_eq_self)

lemma of_le_le32 [simp, le_simps]: "of_le (le32 v) = v"
  by (simp add: le32_def of_le_bytes take_bit_word_eq_self)

lemma of_le_le64 [simp, le_simps]: "of_le (le64 v) = v"
  by (simp add: le64_def of_le_bytes take_bit_word_eq_self)

lemma length_wr [simp]:
  "off + 1 \<le> length b \<Longrightarrow> length (wr8 b off v) = length b"
  "off + 2 \<le> length b \<Longrightarrow> length (wr16 b off w) = length b"
  "off + 4 \<le> length b \<Longrightarrow> length (wr32 b off x) = length b"
  "off + 8 \<le> length b \<Longrightarrow> length (wr64 b off y) = length b"
  by (simp_all add: wr8_def wr16_def wr32_def wr64_def)

lemma rd16_wr16 [le_simps]: "off + 2 \<le> length b \<Longrightarrow> rd16 (wr16 b off v) off = v"
  by (simp add: rd16_def wr16_def bslice_overwrite_same)

lemma rd32_wr32 [le_simps]: "off + 4 \<le> length b \<Longrightarrow> rd32 (wr32 b off v) off = v"
  by (simp add: rd32_def wr32_def bslice_overwrite_same)

lemma rd64_wr64 [le_simps]: "off + 8 \<le> length b \<Longrightarrow> rd64 (wr64 b off v) off = v"
  by (simp add: rd64_def wr64_def bslice_overwrite_same)

lemma rd32_overwrite_other [le_simps]:
  "off + length d \<le> length b \<Longrightarrow> o2 + 4 \<le> length b \<Longrightarrow> o2 + 4 \<le> off \<or> off + length d \<le> o2 \<Longrightarrow>
   rd32 (overwrite b off d) o2 = rd32 b o2"
  by (simp add: rd32_def bslice_overwrite_other)

lemma rd32_wr32_other [le_simps]:
  "off + 4 \<le> length b \<Longrightarrow> o2 + 4 \<le> length b \<Longrightarrow> o2 + 4 \<le> off \<or> off + 4 \<le> o2 \<Longrightarrow>
   rd32 (wr32 b off v) o2 = rd32 b o2"
  by (simp add: wr32_def rd32_overwrite_other)

end
