(* ===== verification/LibString.thy ===== *)
theory LibString
  imports Prelude
begin

text \<open>
  The kernel's C library on memory: \<open>lib/string.c\<close>, \<open>lib/ctype.c\<close> and the conversion, sorting and searching
  functions of \<open>lib/stdlib.c\<close>.

  Memory is a set of objects, each a sequence of bytes; a pointer is an object and an offset in it. An access
  outside an object is undefined behaviour, as is a signed overflow, and makes the function's result \<open>None\<close>. A
  null pointer in a result or argument is \<open>None\<close> of type \<open>ptr option\<close>. \<open>size_t\<close> counts are natural numbers,
  \<open>int\<close> values are integers kept in 32-bit range, \<open>char\<close> is signed.
\<close>

section \<open>Objects and pointers\<close>

type_synonym ptr = "nat \<times> nat"
type_synonym cmem = "nat \<Rightarrow> bytes option"

definition padd :: "ptr \<Rightarrow> nat \<Rightarrow> ptr" where "padd p n = (fst p, snd p + n)"

definition ld :: "cmem \<Rightarrow> ptr \<Rightarrow> u8 option" where
  "ld m p = Option.bind (m (fst p)) (\<lambda>b. if snd p < length b then Some (b ! snd p) else None)"

definition st :: "cmem \<Rightarrow> ptr \<Rightarrow> u8 \<Rightarrow> cmem option" where
  "st m p v = Option.bind (m (fst p)) (\<lambda>b. if snd p < length b then Some (m(fst p \<mapsto> b[snd p := v])) else None)"

definition osize :: "cmem \<Rightarrow> ptr \<Rightarrow> nat" where
  "osize m p = (case m (fst p) of None \<Rightarrow> 0 | Some b \<Rightarrow> length b)"

definition int_ok :: "int \<Rightarrow> bool" where "int_ok x \<longleftrightarrow> - (2 ^ 31) \<le> x \<and> x < 2 ^ 31"

text \<open>The increment of an \<open>int\<close> loop index.\<close>

definition cinc :: "nat \<Rightarrow> nat option" where
  "cinc i = (if int_ok (int i + 1) then Some (i + 1) else None)"

lemma ld_SomeD: "ld m p = Some b \<Longrightarrow> snd p < osize m p"
  by (auto simp: ld_def osize_def bind_eq_Some_conv split: if_splits)

lemma st_SomeD: "st m p v = Some m' \<Longrightarrow> snd p < osize m p \<and> osize m' = osize m"
  by (auto simp: st_def osize_def bind_eq_Some_conv intro!: ext split: if_splits)

lemma cinc_SomeD: "cinc i = Some j \<Longrightarrow> j = Suc i"
  by (auto simp: cinc_def split: if_splits)

lemma padd_sel [simp]: "fst (padd p n) = fst p" "snd (padd p n) = snd p + n"
  by (simp_all add: padd_def)

lemma padd_padd [simp]: "padd (padd p i) j = padd p (i + j)"
  by (simp add: padd_def add.assoc)

lemma padd_0 [simp]: "padd p 0 = p"
  by (simp add: padd_def)

lemma osize_padd [simp]: "osize m (padd p n) = osize m p"
  by (simp add: osize_def)

section \<open>Memory blocks\<close>

fun memcpy_loop :: "nat \<Rightarrow> ptr \<Rightarrow> ptr \<Rightarrow> cmem \<Rightarrow> cmem option" where
  "memcpy_loop 0 d s m = Some m"
| "memcpy_loop (Suc n) d s m = do { b \<leftarrow> ld m s; m \<leftarrow> st m d b; memcpy_loop n (padd d 1) (padd s 1) m }"

definition memcpy :: "ptr \<Rightarrow> ptr \<Rightarrow> nat \<Rightarrow> cmem \<Rightarrow> (ptr \<times> cmem) option" where
  "memcpy dest src n m = do { m \<leftarrow> memcpy_loop n dest src m; Some (dest, m) }"

fun memset_loop :: "nat \<Rightarrow> ptr \<Rightarrow> u8 \<Rightarrow> cmem \<Rightarrow> cmem option" where
  "memset_loop 0 p c m = Some m"
| "memset_loop (Suc n) p c m = do { m \<leftarrow> st m p c; memset_loop n (padd p 1) c m }"

definition memset :: "ptr \<Rightarrow> int \<Rightarrow> nat \<Rightarrow> cmem \<Rightarrow> (ptr \<times> cmem) option" where
  "memset s c n m = do { m \<leftarrow> memset_loop n s (of_int c) m; Some (s, m) }"

text \<open>
  \<open>memmove\<close> moves \<open>uint32_t\<close> elements. Pointers into different objects are compared by their objects; which of
  the two loops runs makes no difference for them.
\<close>

definition ld_word :: "cmem \<Rightarrow> ptr \<Rightarrow> bytes option" where
  "ld_word m p = do { a \<leftarrow> ld m p; b \<leftarrow> ld m (padd p 1); c \<leftarrow> ld m (padd p 2); d \<leftarrow> ld m (padd p 3); Some [a, b, c, d] }"

definition st_word :: "cmem \<Rightarrow> ptr \<Rightarrow> bytes \<Rightarrow> cmem option" where
  "st_word m p w = do { m \<leftarrow> st m p (w ! 0); m \<leftarrow> st m (padd p 1) (w ! 1); m \<leftarrow> st m (padd p 2) (w ! 2); st m (padd p 3) (w ! 3) }"

definition ptr_less :: "ptr \<Rightarrow> ptr \<Rightarrow> bool" where
  "ptr_less p q \<longleftrightarrow> fst p < fst q \<or> fst p = fst q \<and> snd p < snd q"

fun move_up :: "nat \<Rightarrow> ptr \<Rightarrow> ptr \<Rightarrow> cmem \<Rightarrow> cmem option" where
  "move_up 0 pdest psrc m = Some m"
| "move_up (Suc n) pdest psrc m = do { w \<leftarrow> ld_word m psrc; m \<leftarrow> st_word m pdest w; move_up n (padd pdest 4) (padd psrc 4) m }"

fun move_down :: "nat \<Rightarrow> ptr \<Rightarrow> ptr \<Rightarrow> cmem \<Rightarrow> cmem option" where
  "move_down 0 pdest psrc m = Some m"
| "move_down (Suc i) pdest psrc m =
     do { w \<leftarrow> ld_word m (padd psrc (4 * i)); m \<leftarrow> st_word m (padd pdest (4 * i)) w; move_down i pdest psrc m }"

definition memmove :: "ptr \<Rightarrow> ptr \<Rightarrow> nat \<Rightarrow> cmem \<Rightarrow> (ptr \<times> cmem) option" where
  "memmove dest src n m =
     do { m \<leftarrow> (if ptr_less dest src then move_up n dest src m
               else if ptr_less src dest then move_down n dest src m
               else Some m);
          Some (dest, m) }"

fun memcmp :: "ptr \<Rightarrow> ptr \<Rightarrow> nat \<Rightarrow> cmem \<Rightarrow> int option" where
  "memcmp p1 p2 0 m = Some 0"
| "memcmp p1 p2 (Suc n) m =
     do { a \<leftarrow> ld m p1; b \<leftarrow> ld m p2;
          if a \<noteq> b then Some (if a < b then -1 else 1) else memcmp (padd p1 1) (padd p2 1) n m }"

fun memchr_loop :: "nat \<Rightarrow> ptr \<Rightarrow> u8 \<Rightarrow> cmem \<Rightarrow> ptr option option" where
  "memchr_loop 0 p c m = Some None"
| "memchr_loop (Suc n) p c m = do { b \<leftarrow> ld m p; if b = c then Some (Some p) else memchr_loop n (padd p 1) c m }"

definition memchr :: "ptr \<Rightarrow> int \<Rightarrow> nat \<Rightarrow> cmem \<Rightarrow> ptr option option" where
  "memchr s c n m = memchr_loop n s (of_int c) m"

section \<open>Strings\<close>

function strlen_loop :: "ptr \<Rightarrow> nat \<Rightarrow> cmem \<Rightarrow> nat option" where
  "strlen_loop s i m =
     do { b \<leftarrow> ld m (padd s i); if b \<noteq> 0 then do { j \<leftarrow> cinc i; strlen_loop s j m } else Some i }"
  by pat_completeness auto
termination
  by (relation "measure (\<lambda>(s, i, m). osize m s - (snd s + i))") (auto dest!: ld_SomeD cinc_SomeD)

definition strlen :: "ptr \<Rightarrow> cmem \<Rightarrow> nat option" where
  "strlen s m = strlen_loop s 0 m"

text \<open>\<open>i\<close> and \<open>j\<close> are signed: for the empty string \<open>j\<close> starts at -1.\<close>

function reverse_loop :: "ptr \<Rightarrow> int \<Rightarrow> int \<Rightarrow> cmem \<Rightarrow> cmem option" where
  "reverse_loop s i j m =
     (if i < j then do { a \<leftarrow> ld m (padd s (nat i)); b \<leftarrow> ld m (padd s (nat j));
                         m \<leftarrow> st m (padd s (nat i)) b; m \<leftarrow> st m (padd s (nat j)) a;
                         reverse_loop s (i + 1) (j - 1) m }
      else Some m)"
  by pat_completeness auto
termination
  by (relation "measure (\<lambda>(s, i, j, m). nat (j - i))") auto

definition reverse :: "ptr \<Rightarrow> cmem \<Rightarrow> cmem option" where
  "reverse s m = do { n \<leftarrow> strlen s m; reverse_loop s 0 (int n - 1) m }"

text \<open>The C function \<open>append\<close>.\<close>

definition append_c :: "ptr \<Rightarrow> u8 \<Rightarrow> cmem \<Rightarrow> cmem option" where
  "append_c s c m = do { len \<leftarrow> strlen s m; m \<leftarrow> st m (padd s len) c; st m (padd s (len + 1)) 0 }"

definition backspace :: "ptr \<Rightarrow> cmem \<Rightarrow> cmem option" where
  "backspace s m = do { len \<leftarrow> strlen s m;
     if snd s + len = 0 then None else st m (fst s, snd s + len - 1) 0 }"

function strcmp_loop :: "ptr \<Rightarrow> ptr \<Rightarrow> nat \<Rightarrow> cmem \<Rightarrow> int option" where
  "strcmp_loop s1 s2 i m =
     do { a \<leftarrow> ld m (padd s1 i); b \<leftarrow> ld m (padd s2 i);
          if a = b then if a = 0 then Some 0 else do { j \<leftarrow> cinc i; strcmp_loop s1 s2 j m }
          else Some (sint a - sint b) }"
  by pat_completeness auto
termination
  by (relation "measure (\<lambda>(s1, s2, i, m). osize m s1 - (snd s1 + i))") (auto dest!: ld_SomeD cinc_SomeD)

definition strcmp :: "ptr \<Rightarrow> ptr \<Rightarrow> cmem \<Rightarrow> int option" where
  "strcmp s1 s2 m = strcmp_loop s1 s2 0 m"

function strcpy_loop :: "ptr \<Rightarrow> ptr \<Rightarrow> cmem \<Rightarrow> cmem option" where
  "strcpy_loop dest src m =
     do { b \<leftarrow> ld m src; m \<leftarrow> st m dest b;
          if b \<noteq> 0 then strcpy_loop (padd dest 1) (padd src 1) m else Some m }"
  by pat_completeness auto
termination
  by (relation "measure (\<lambda>(dest, src, m). osize m src - snd src)") (auto dest!: ld_SomeD st_SomeD)

definition strcpy :: "ptr \<Rightarrow> ptr \<Rightarrow> cmem \<Rightarrow> (ptr \<times> cmem) option" where
  "strcpy dest src m = do { m \<leftarrow> strcpy_loop dest src m; Some (dest, m) }"

fun strncpy_loop :: "nat \<Rightarrow> ptr \<Rightarrow> ptr \<Rightarrow> cmem \<Rightarrow> cmem option" where
  "strncpy_loop 0 dest src m = Some m"
| "strncpy_loop (Suc n) dest src m =
     do { b \<leftarrow> ld m src;
          if b \<noteq> 0 then do { m \<leftarrow> st m dest b; strncpy_loop n (padd dest 1) (padd src 1) m }
          else memset_loop (Suc n) dest 0 m }"

definition strncpy :: "ptr \<Rightarrow> ptr \<Rightarrow> nat \<Rightarrow> cmem \<Rightarrow> (ptr \<times> cmem) option" where
  "strncpy dest src n m = do { m \<leftarrow> strncpy_loop n dest src m; Some (dest, m) }"

fun strncmp :: "ptr \<Rightarrow> ptr \<Rightarrow> nat \<Rightarrow> cmem \<Rightarrow> int option" where
  "strncmp s1 s2 0 m = Some 0"
| "strncmp s1 s2 (Suc n) m =
     do { a \<leftarrow> ld m s1; b \<leftarrow> ld m s2;
          if a \<noteq> b then Some (uint a - uint b)
          else if a = 0 then Some 0 else strncmp (padd s1 1) (padd s2 1) n m }"

function str_end :: "ptr \<Rightarrow> cmem \<Rightarrow> ptr option" where
  "str_end p m = do { b \<leftarrow> ld m p; if b \<noteq> 0 then str_end (padd p 1) m else Some p }"
  by pat_completeness auto
termination
  by (relation "measure (\<lambda>(p, m). osize m p - snd p)") (auto dest!: ld_SomeD)

function strcat_loop :: "ptr \<Rightarrow> ptr \<Rightarrow> cmem \<Rightarrow> cmem option" where
  "strcat_loop dest src m =
     do { b \<leftarrow> ld m src;
          if b \<noteq> 0 then do { m \<leftarrow> st m dest b; strcat_loop (padd dest 1) (padd src 1) m }
          else st m dest 0 }"
  by pat_completeness auto
termination
  by (relation "measure (\<lambda>(dest, src, m). osize m src - snd src)") (auto dest!: ld_SomeD st_SomeD)

definition strcat :: "ptr \<Rightarrow> ptr \<Rightarrow> cmem \<Rightarrow> (ptr \<times> cmem) option" where
  "strcat dest src m = do { e \<leftarrow> str_end dest m; m \<leftarrow> strcat_loop e src m; Some (dest, m) }"

fun strncat_loop :: "nat \<Rightarrow> ptr \<Rightarrow> ptr \<Rightarrow> cmem \<Rightarrow> cmem option" where
  "strncat_loop 0 dest src m = st m dest 0"
| "strncat_loop (Suc n) dest src m =
     do { b \<leftarrow> ld m src;
          if b \<noteq> 0 then do { m \<leftarrow> st m dest b; strncat_loop n (padd dest 1) (padd src 1) m }
          else st m dest 0 }"

definition strncat :: "ptr \<Rightarrow> ptr \<Rightarrow> nat \<Rightarrow> cmem \<Rightarrow> (ptr \<times> cmem) option" where
  "strncat dest src n m = do { e \<leftarrow> str_end dest m; m \<leftarrow> strncat_loop n e src m; Some (dest, m) }"

text \<open>The length is a \<open>size_t\<close>, converted to \<open>int\<close> on return.\<close>

fun strnlen_loop :: "nat \<Rightarrow> ptr \<Rightarrow> nat \<Rightarrow> cmem \<Rightarrow> nat option" where
  "strnlen_loop 0 str len m = Some len"
| "strnlen_loop (Suc n) str len m =
     do { b \<leftarrow> ld m (padd str len); if b \<noteq> 0 then strnlen_loop n str (len + 1) m else Some len }"

definition strnlen :: "ptr \<Rightarrow> nat \<Rightarrow> cmem \<Rightarrow> int option" where
  "strnlen str maxlen m = do { len \<leftarrow> strnlen_loop maxlen str 0 m; Some (sint (of_nat len :: u32)) }"

function strrchr_loop :: "ptr \<Rightarrow> u8 \<Rightarrow> ptr option \<Rightarrow> cmem \<Rightarrow> (ptr option \<times> ptr) option" where
  "strrchr_loop str c lst m =
     do { b \<leftarrow> ld m str;
          if b \<noteq> 0 then strrchr_loop (padd str 1) c (if b = c then Some str else lst) m else Some (lst, str) }"
  by pat_completeness auto
termination
  by (relation "measure (\<lambda>(str, c, lst, m). osize m str - snd str)") (auto dest!: ld_SomeD)

definition strrchr :: "ptr \<Rightarrow> int \<Rightarrow> cmem \<Rightarrow> ptr option option" where
  "strrchr str c m = do { (lst, e) \<leftarrow> strrchr_loop str (of_int c) None m; Some (if c = 0 then Some e else lst) }"

function strchr_loop :: "ptr \<Rightarrow> u8 \<Rightarrow> cmem \<Rightarrow> (ptr option \<times> ptr) option" where
  "strchr_loop str c m =
     do { b \<leftarrow> ld m str;
          if b \<noteq> 0 then if b = c then Some (Some str, str) else strchr_loop (padd str 1) c m else Some (None, str) }"
  by pat_completeness auto
termination
  by (relation "measure (\<lambda>(str, c, m). osize m str - snd str)") (auto dest!: ld_SomeD)

definition strchr :: "ptr \<Rightarrow> int \<Rightarrow> cmem \<Rightarrow> ptr option option" where
  "strchr str c m = do { (r, e) \<leftarrow> strchr_loop str (of_int c) m;
     Some (if r \<noteq> None then r else if c = 0 then Some e else None) }"

text \<open>The allocator is a parameter: it answers a fresh block, or none, and the memory that has it.\<close>

definition strdup :: "(nat \<Rightarrow> cmem \<Rightarrow> ptr option \<times> cmem) \<Rightarrow> ptr option \<Rightarrow> cmem \<Rightarrow> (ptr option \<times> cmem) option" where
  "strdup alloc str m =
     (case str of None \<Rightarrow> Some (None, m)
      | Some p \<Rightarrow> do { n \<leftarrow> strlen p m;
          let (r, m) = alloc (n + 1) m
          in case r of None \<Rightarrow> Some (None, m)
             | Some q \<Rightarrow> do { (_, m) \<leftarrow> memset q 0 (n + 1) m; (_, m) \<leftarrow> memcpy q p (n + 1) m; Some (Some q, m) } })"

definition clear_buffer :: "ptr \<Rightarrow> nat \<Rightarrow> cmem \<Rightarrow> cmem option" where
  "clear_buffer buffer n m = do { (_, m) \<leftarrow> memset buffer 0 n m; Some m }"

text \<open>\<open>strtok\<close> keeps its place in the static variable \<open>next_token\<close>.\<close>

function skip_delim :: "ptr \<Rightarrow> ptr \<Rightarrow> cmem \<Rightarrow> ptr option" where
  "skip_delim start delim m =
     do { b \<leftarrow> ld m start;
          if b = 0 then Some start
          else do { r \<leftarrow> strchr delim (sint b) m; if r \<noteq> None then skip_delim (padd start 1) delim m else Some start } }"
  by pat_completeness auto
termination
  by (relation "measure (\<lambda>(start, delim, m). osize m start - snd start)") (auto dest!: ld_SomeD)

function token_end :: "ptr \<Rightarrow> ptr \<Rightarrow> cmem \<Rightarrow> ptr option" where
  "token_end e delim m =
     do { b \<leftarrow> ld m e;
          if b = 0 then Some e
          else do { r \<leftarrow> strchr delim (sint b) m; if r = None then token_end (padd e 1) delim m else Some e } }"
  by pat_completeness auto
termination
  by (relation "measure (\<lambda>(e, delim, m). osize m e - snd e)") (auto dest!: ld_SomeD)

definition strtok :: "ptr option \<Rightarrow> ptr \<Rightarrow> ptr option \<Rightarrow> cmem \<Rightarrow> (ptr option \<times> ptr option \<times> cmem) option" where
  "strtok str delim next_token m =
     (case (if str \<noteq> None then str else next_token) of
        None \<Rightarrow> Some (None, next_token, m)
      | Some next_token \<Rightarrow>
          do { start \<leftarrow> skip_delim next_token delim m;
               b \<leftarrow> ld m start;
               if b = 0 then Some (None, None, m)
               else do { e \<leftarrow> token_end start delim m;
                         c \<leftarrow> ld m e;
                         if c \<noteq> 0 then do { m \<leftarrow> st m e 0; Some (Some start, Some (padd e 1), m) }
                         else Some (Some start, None, m) } })"

declare strlen_loop.simps [simp del] strcmp_loop.simps [simp del] strcpy_loop.simps [simp del] str_end.simps [simp del]
  strcat_loop.simps [simp del] strrchr_loop.simps [simp del] strchr_loop.simps [simp del] skip_delim.simps [simp del]
  token_end.simps [simp del] reverse_loop.simps [simp del]

section \<open>Numbers and text\<close>

function digits_loop :: "int \<Rightarrow> ptr \<Rightarrow> nat \<Rightarrow> cmem \<Rightarrow> (nat \<times> cmem) option" where
  "digits_loop n str i m =
     do { m \<leftarrow> st m (padd str i) (of_int (n mod 10 + 48));
          if n div 10 > 0 then digits_loop (n div 10) str (i + 1) m else Some (i + 1, m) }"
  by pat_completeness auto
termination
  by (relation "measure (\<lambda>(n, str, i, m). nat n)") auto

definition int_to_ascii :: "int \<Rightarrow> ptr \<Rightarrow> cmem \<Rightarrow> cmem option" where
  "int_to_ascii n str m =
     (if n < 0 \<and> \<not> int_ok (- n) then None
      else do { (i, m) \<leftarrow> digits_loop (if n < 0 then - n else n) str 0 m;
                (i, m) \<leftarrow> (if n < 0 then do { m \<leftarrow> st m (padd str i) 45; Some (i + 1, m) } else Some (i, m));
                m \<leftarrow> st m (padd str i) 0;
                reverse str m })"

text \<open>The number is not negative here.\<close>

function str_digits_loop :: "int \<Rightarrow> ptr \<Rightarrow> nat \<Rightarrow> cmem \<Rightarrow> (nat \<times> cmem) option" where
  "str_digits_loop num buffer i m =
     (if num > 0 then do { m \<leftarrow> st m (padd buffer i) (of_int (num mod 10 + 48)); str_digits_loop (num div 10) buffer (i + 1) m }
      else Some (i, m))"
  by pat_completeness auto
termination
  by (relation "measure (\<lambda>(num, buffer, i, m). nat num)") auto

fun flip_loop :: "nat \<Rightarrow> nat \<Rightarrow> ptr \<Rightarrow> nat \<Rightarrow> cmem \<Rightarrow> cmem option" where
  "flip_loop 0 j buffer i m = Some m"
| "flip_loop (Suc n) j buffer i m =
     do { a \<leftarrow> ld m (padd buffer j); b \<leftarrow> ld m (padd buffer (i - j - 1));
          m \<leftarrow> st m (padd buffer j) b; m \<leftarrow> st m (padd buffer (i - j - 1)) a;
          flip_loop n (j + 1) buffer i m }"

definition int_to_str :: "int \<Rightarrow> ptr \<Rightarrow> cmem \<Rightarrow> cmem option" where
  "int_to_str num buffer m =
     (if num = 0 then do { m \<leftarrow> st m buffer 48; st m (padd buffer 1) 0 }
      else if num < 0 \<and> \<not> int_ok (- num) then None
      else do { (i, m) \<leftarrow> str_digits_loop (if num < 0 then - num else num) buffer 0 m;
                (i, m) \<leftarrow> (if num < 0 then do { m \<leftarrow> st m (padd buffer i) 45; Some (i + 1, m) } else Some (i, m));
                m \<leftarrow> st m (padd buffer i) 0;
                flip_loop (i div 2) 0 buffer i m })"

text \<open>
  The digits of \<open>int_to_base_str\<close>, with the terminating null character of the literal. Division by zero is
  undefined; with base 1 the loop runs on until it leaves the buffer.
\<close>

definition base_digits :: bytes where
  "base_digits = [48, 49, 50, 51, 52, 53, 54, 55, 56, 57, 65, 66, 67, 68, 69, 70, 0]"

function base_digits_loop :: "u32 \<Rightarrow> ptr \<Rightarrow> u32 \<Rightarrow> nat \<Rightarrow> cmem \<Rightarrow> (nat \<times> cmem) option" where
  "base_digits_loop num buffer base i m =
     (if num \<noteq> 0
      then if base = 0 then None
           else let k = unat (num mod base)
                in if k < length base_digits
                   then do { m \<leftarrow> st m (padd buffer i) (base_digits ! k); base_digits_loop (num div base) buffer base (i + 1) m }
                   else None
      else Some (i, m))"
  by pat_completeness auto
termination
  by (relation "measure (\<lambda>(num, buffer, base, i, m). osize m buffer - (snd buffer + i))") (auto dest!: st_SomeD)

definition int_to_base_str :: "u32 \<Rightarrow> ptr \<Rightarrow> u32 \<Rightarrow> cmem \<Rightarrow> cmem option" where
  "int_to_base_str num buffer base m =
     (if num = 0 then do { m \<leftarrow> st m buffer 48; st m (padd buffer 1) 0 }
      else do { (i, m) \<leftarrow> base_digits_loop num buffer base 0 m;
                m \<leftarrow> st m (padd buffer i) 0;
                flip_loop (i div 2) 0 buffer i m })"

text \<open>\<open>atoi\<close> and \<open>atol\<close> differ in the width \<open>w\<close> of the result.\<close>

definition width_ok :: "nat \<Rightarrow> int \<Rightarrow> bool" where
  "width_ok w x \<longleftrightarrow> - (2 ^ (w - 1)) \<le> x \<and> x < 2 ^ (w - 1)"

function skip_blanks :: "ptr \<Rightarrow> cmem \<Rightarrow> ptr option" where
  "skip_blanks str m = do { b \<leftarrow> ld m str; if b = 32 \<or> b = 9 \<or> b = 10 then skip_blanks (padd str 1) m else Some str }"
  by pat_completeness auto
termination
  by (relation "measure (\<lambda>(str, m). osize m str - snd str)") (auto dest!: ld_SomeD)

function parse_digits :: "nat \<Rightarrow> int \<Rightarrow> ptr \<Rightarrow> cmem \<Rightarrow> int option" where
  "parse_digits w result str m =
     do { b \<leftarrow> ld m str;
          if 48 \<le> sint b \<and> sint b \<le> 57
          then if width_ok w (result * 10) \<and> width_ok w (result * 10 + (sint b - 48))
               then parse_digits w (result * 10 + (sint b - 48)) (padd str 1) m
               else None
          else Some result }"
  by pat_completeness auto
termination
  by (relation "measure (\<lambda>(w, result, str, m). osize m str - snd str)") (auto dest!: ld_SomeD)

definition ato :: "nat \<Rightarrow> ptr \<Rightarrow> cmem \<Rightarrow> int option" where
  "ato w str m =
     do { str \<leftarrow> skip_blanks str m;
          b \<leftarrow> ld m str;
          let (sign, str) = (if b = 45 then (-1, padd str 1) else if b = 43 then (1, padd str 1) else (1, str))
          in do { result \<leftarrow> parse_digits w 0 str m; Some (result * sign) } }"

definition atoi :: "ptr \<Rightarrow> cmem \<Rightarrow> int option" where "atoi str m = ato 32 str m"

definition atol :: "ptr \<Rightarrow> cmem \<Rightarrow> int option" where "atol str m = ato 64 str m"

text \<open>The absolute values; the most negative number has none.\<close>

definition abs_c :: "int \<Rightarrow> int option" where
  "abs_c v = (if v < 0 then if width_ok 32 (- v) then Some (- v) else None else Some v)"

definition labs :: "int \<Rightarrow> int option" where
  "labs v = (if v < 0 then if width_ok 64 (- v) then Some (- v) else None else Some v)"

definition llabs :: "int \<Rightarrow> int option" where
  "llabs v = (if v < 0 then if width_ok 64 (- v) then Some (- v) else None else Some v)"

text \<open>The random number generator; its state is \<open>rand_next\<close>.\<close>

definition rand :: "u64 \<Rightarrow> int \<times> u64" where
  "rand rand_next = (let rand_next = rand_next * 1103515245 + 12345
     in (sint (ucast ((rand_next div 65536) mod 32768) :: u32), rand_next))"

definition srand :: "u32 \<Rightarrow> u64" where "srand seed = ucast seed"

section \<open>Character classes\<close>

definition isalpha :: "int \<Rightarrow> bool" where "isalpha c \<longleftrightarrow> c \<ge> 65 \<and> c \<le> 90 \<or> c \<ge> 97 \<and> c \<le> 122"
definition isdigit :: "int \<Rightarrow> bool" where "isdigit c \<longleftrightarrow> c \<ge> 48 \<and> c \<le> 57"
definition isalnum :: "int \<Rightarrow> bool" where "isalnum c \<longleftrightarrow> isalpha c \<or> isdigit c"
definition isspace :: "int \<Rightarrow> bool" where "isspace c \<longleftrightarrow> c = 32 \<or> c = 9 \<or> c = 10 \<or> c = 11 \<or> c = 12 \<or> c = 13"
definition isupper :: "int \<Rightarrow> bool" where "isupper c \<longleftrightarrow> c \<ge> 65 \<and> c \<le> 90"
definition islower :: "int \<Rightarrow> bool" where "islower c \<longleftrightarrow> c \<ge> 97 \<and> c \<le> 122"
definition tolower :: "int \<Rightarrow> int" where "tolower c = (if c \<ge> 65 \<and> c \<le> 90 then c + (97 - 65) else c)"
definition toupper :: "int \<Rightarrow> int" where "toupper c = (if c \<ge> 97 \<and> c \<le> 122 then c - (97 - 65) else c)"

declare digits_loop.simps [simp del] str_digits_loop.simps [simp del] base_digits_loop.simps [simp del]
  skip_blanks.simps [simp del] parse_digits.simps [simp del]

section \<open>Blocks of memory\<close>

definition bytes_at :: "cmem \<Rightarrow> ptr \<Rightarrow> nat \<Rightarrow> bytes option" where
  "bytes_at m p n = Option.bind (m (fst p)) (\<lambda>b. if snd p + n \<le> length b then Some (bslice (snd p) n b) else None)"

definition put_bytes :: "cmem \<Rightarrow> ptr \<Rightarrow> bytes \<Rightarrow> cmem option" where
  "put_bytes m p d = Option.bind (m (fst p)) (\<lambda>b. if snd p + length d \<le> length b then Some (m(fst p \<mapsto> overwrite b (snd p) d)) else None)"

text \<open>Two memory areas that do not overlap.\<close>

definition apart :: "ptr \<Rightarrow> nat \<Rightarrow> ptr \<Rightarrow> nat \<Rightarrow> bool" where
  "apart p n q k \<longleftrightarrow> fst p \<noteq> fst q \<or> snd p + n \<le> snd q \<or> snd q + k \<le> snd p"

lemma put_bytes_Nil: "put_bytes m p [] = (if m (fst p) \<noteq> None \<and> snd p \<le> osize m p then Some m else None)"
  by (auto simp: put_bytes_def osize_def fun_upd_idem split: option.splits)

lemma overwrite_Cons_list_update:
  "off < length b \<Longrightarrow> overwrite (b[off := x]) (Suc off) xs = overwrite b off (x # xs)"
  by (simp add: overwrite_def upd_conv_take_nth_drop take_Suc_conv_app_nth drop_Suc add.commute)

lemma put_bytes_Cons: "put_bytes m p (x # xs) = Option.bind (st m p x) (\<lambda>m. put_bytes m (padd p 1) xs)"
  by (cases "m (fst p)") (auto simp: put_bytes_def st_def overwrite_Cons_list_update)

lemma bytes_at_Suc: "bytes_at m p (Suc n) = Option.bind (ld m p) (\<lambda>b. map_option ((#) b) (bytes_at m (padd p 1) n))"
  by (cases "m (fst p)") (auto simp: bytes_at_def ld_def bslice_def Cons_nth_drop_Suc [symmetric])

lemma ld_st: "st m p v = Some m' \<Longrightarrow> ld m' q = (if q = p then Some v else ld m q)"
  by (cases p; cases q) (auto simp: st_def ld_def bind_eq_Some_conv split: if_splits)

lemma st_exists: "ld m p = Some b \<Longrightarrow> \<exists>m'. st m p v = Some m'"
  by (auto simp: st_def ld_def bind_eq_Some_conv split: if_splits)

lemma ld_put_bytes:
  assumes "put_bytes m p d = Some m'"
  shows "ld m' q = (if fst q = fst p \<and> snd p \<le> snd q \<and> snd q < snd p + length d then Some (d ! (snd q - snd p)) else ld m q)"
  using assms by (auto simp: put_bytes_def ld_def nth_overwrite bind_eq_Some_conv split: if_splits)

lemma ld_put_bytes_apart: "put_bytes m p d = Some m' \<Longrightarrow> apart q 1 p (length d) \<Longrightarrow> ld m' q = ld m q"
  by (auto simp: ld_put_bytes apart_def)

lemma put_bytes_exists: "snd p + length d \<le> osize m p \<Longrightarrow> m (fst p) \<noteq> None \<Longrightarrow> \<exists>m'. put_bytes m p d = Some m'"
  by (auto simp: put_bytes_def osize_def)

lemma put_bytes_append:
  "put_bytes m p (xs @ ys) = Option.bind (put_bytes m p xs) (\<lambda>m. put_bytes m (padd p (length xs)) ys)"
proof (induction xs arbitrary: m p)
  case Nil
  then show ?case by (cases "m (fst p)") (auto simp: put_bytes_Nil osize_def put_bytes_def)
next
  case (Cons x xs)
  then show ?case by (simp add: put_bytes_Cons)
qed

text \<open>What stays the same: the objects and their sizes, and the memory outside an area.\<close>

definition same_objects :: "cmem \<Rightarrow> cmem \<Rightarrow> bool" where
  "same_objects m m' \<longleftrightarrow> (\<forall>k. map_option length (m' k) = map_option length (m k))"

definition only_changed :: "ptr \<Rightarrow> nat \<Rightarrow> cmem \<Rightarrow> cmem \<Rightarrow> bool" where
  "only_changed p n m m' \<longleftrightarrow> same_objects m m' \<and> (\<forall>q. apart q 1 p n \<longrightarrow> ld m' q = ld m q)"

lemma same_objects_refl [simp]: "same_objects m m" by (simp add: same_objects_def)

lemma same_objects_trans: "same_objects m m1 \<Longrightarrow> same_objects m1 m2 \<Longrightarrow> same_objects m m2"
  by (simp add: same_objects_def)

lemma same_objects_osize: "same_objects m m' \<Longrightarrow> osize m' p = osize m p"
proof -
  assume "same_objects m m'"
  then have "map_option length (m' (fst p)) = map_option length (m (fst p))" by (simp add: same_objects_def)
  then show ?thesis by (cases "m (fst p)"; cases "m' (fst p)") (simp_all add: osize_def)
qed

lemma st_keeps: "st m p v = Some m' \<Longrightarrow> same_objects m m'"
  by (auto simp: st_def same_objects_def bind_eq_Some_conv split: if_splits)

lemma put_bytes_only: "put_bytes m p d = Some m' \<Longrightarrow> only_changed p (length d) m m'"
  unfolding only_changed_def using ld_put_bytes_apart
  by (auto simp: put_bytes_def same_objects_def bind_eq_Some_conv split: if_splits)

section \<open>Null-terminated strings\<close>

fun cstr :: "cmem \<Rightarrow> ptr \<Rightarrow> bytes \<Rightarrow> bool" where
  "cstr m p [] \<longleftrightarrow> ld m p = Some 0"
| "cstr m p (x # s) \<longleftrightarrow> ld m p = Some x \<and> x \<noteq> 0 \<and> cstr m (padd p 1) s"

lemma cstr_cong: "(\<And>i. i \<le> length s \<Longrightarrow> ld m' (padd p i) = ld m (padd p i)) \<Longrightarrow> cstr m' p s = cstr m p s"
proof (induction s arbitrary: p)
  case (Cons x s)
  have "cstr m' (padd p 1) s = cstr m (padd p 1) s" using Cons.prems by (intro Cons.IH) (metis Suc_le_mono length_Cons padd_padd plus_1_eq_Suc)
  then show ?case using Cons.prems [of 0] by simp
next
  case Nil
  then show ?case using Nil [of 0] by simp
qed

lemma only_changed_ld: "only_changed p n m m' \<Longrightarrow> apart q 1 p n \<Longrightarrow> ld m' q = ld m q"
  by (auto simp: only_changed_def simp del: split_paired_All)

lemma cstr_only_changed: "only_changed p n m m' \<Longrightarrow> apart q (length s + 1) p n \<Longrightarrow> cstr m' q s = cstr m q s"
  by (rule cstr_cong) (auto intro!: only_changed_ld simp: apart_def)

lemma cstr_st: "st m p v = Some m' \<Longrightarrow> apart q (length s + 1) p 1 \<Longrightarrow> cstr m' q s = cstr m q s"
  by (rule cstr_cong) (auto simp: ld_st apart_def padd_def)

lemma cstr_put_bytes: "put_bytes m p (s @ [0]) = Some m' \<Longrightarrow> 0 \<notin> set s \<Longrightarrow> cstr m' p s"
proof (induction s arbitrary: m p)
  case Nil
  then show ?case by (simp add: ld_put_bytes)
next
  case (Cons x s)
  then obtain m1 where m1: "st m p x = Some m1" "put_bytes m1 (padd p 1) (s @ [0]) = Some m'" by (auto simp: put_bytes_Cons bind_eq_Some_conv)
  have "ld m' p = ld m1 p" by (rule ld_put_bytes_apart [OF m1(2)]) (simp add: apart_def)
  then show ?case using Cons m1 by (simp add: ld_st)
qed

lemma cstr_room: "cstr m p s \<Longrightarrow> m (fst p) \<noteq> None \<and> snd p + length s < osize m p \<and> 0 \<notin> set s"
proof (induction s arbitrary: p)
  case Nil
  then show ?case using ld_SomeD [of m p 0] by (auto simp: ld_def bind_eq_Some_conv)
next
  case (Cons x s)
  then show ?case using Cons.IH [of "padd p 1"] by simp
qed

lemma cstr_append: "cstr m p (s @ t) \<longleftrightarrow> (\<forall>i < length s. ld m (padd p i) = Some (s ! i) \<and> s ! i \<noteq> 0) \<and> cstr m (padd p (length s)) t"
proof (induction s arbitrary: p)
  case (Cons x s)
  have "(\<forall>i < length (x # s). ld m (padd p i) = Some ((x # s) ! i) \<and> (x # s) ! i \<noteq> 0)
    \<longleftrightarrow> ld m p = Some x \<and> x \<noteq> 0 \<and> (\<forall>i < length s. ld m (padd (padd p 1) i) = Some (s ! i) \<and> s ! i \<noteq> 0)"
    by (auto simp: less_Suc_eq_0_disj)
  then show ?case using Cons.IH [of "padd p 1"] by auto
qed simp

lemma cinc_ok: "int i + 1 < 2 ^ 31 \<Longrightarrow> cinc i = Some (Suc i)"
  by (simp add: cinc_def int_ok_def)

lemma strlen_loop_ok: "cstr m (padd p i) s \<Longrightarrow> int (i + length s) < 2 ^ 31 \<Longrightarrow> strlen_loop p i m = Some (i + length s)"
proof (induction s arbitrary: i)
  case Nil
  then show ?case by (subst strlen_loop.simps) simp
next
  case (Cons x s)
  then show ?case using Cons.IH [of "Suc i"] by (subst strlen_loop.simps) (simp add: cinc_ok)
qed

lemma strlen_ok: "cstr m p s \<Longrightarrow> int (length s) < 2 ^ 31 \<Longrightarrow> strlen p m = Some (length s)"
  using strlen_loop_ok [of m p 0 s] by (simp add: strlen_def)

lemma str_end_ok: "cstr m p s \<Longrightarrow> str_end p m = Some (padd p (length s))"
proof (induction s arbitrary: p)
  case Nil
  then show ?case by (subst str_end.simps) simp
next
  case (Cons x s)
  then show ?case using Cons.IH [of "padd p 1"] by (subst str_end.simps) simp
qed

lemma put_bytes_single: "put_bytes m p [x] = st m p x"
  by (cases "m (fst p)") (auto simp: put_bytes_def st_def overwrite_def upd_conv_take_nth_drop)

lemma strcpy_loop_ok:
  "cstr m src s \<Longrightarrow> apart dest (length s + 1) src (length s + 1) \<Longrightarrow> strcpy_loop dest src m = put_bytes m dest (s @ [0])"
proof (induction s arbitrary: dest src m)
  case Nil
  then show ?case by (subst strcpy_loop.simps) (simp add: put_bytes_single)
next
  case (Cons x s)
  have "strcpy_loop (padd dest 1) (padd src 1) m1 = put_bytes m1 (padd dest 1) (s @ [0])" if "st m dest x = Some m1" for m1
    using cstr_st [OF that, of "padd src 1" s] Cons.prems by (intro Cons.IH) (auto simp: apart_def)
  then show ?case using Cons.prems by (subst strcpy_loop.simps) (auto simp: put_bytes_Cons intro!: bind_option_cong)
qed

lemma strcat_loop_ok:
  "cstr m src s \<Longrightarrow> apart dest (length s + 1) src (length s + 1) \<Longrightarrow> strcat_loop dest src m = put_bytes m dest (s @ [0])"
proof (induction s arbitrary: dest src m)
  case Nil
  then show ?case by (subst strcat_loop.simps) (simp add: put_bytes_single)
next
  case (Cons x s)
  have "strcat_loop (padd dest 1) (padd src 1) m1 = put_bytes m1 (padd dest 1) (s @ [0])" if "st m dest x = Some m1" for m1
    using cstr_st [OF that, of "padd src 1" s] Cons.prems by (intro Cons.IH) (auto simp: apart_def)
  then show ?case using Cons.prems by (subst strcat_loop.simps) (auto simp: put_bytes_Cons intro!: bind_option_cong)
qed

section \<open>Reversing and decimal numbers\<close>

text \<open>The bytes \<open>xs\<close> are in memory from \<open>p\<close> on.\<close>

definition area :: "cmem \<Rightarrow> ptr \<Rightarrow> bytes \<Rightarrow> bool" where
  "area m p xs \<longleftrightarrow> (\<forall>i < length xs. ld m (padd p i) = Some (xs ! i))"

lemma area_append: "area m p (xs @ ys) \<longleftrightarrow> area m p xs \<and> area m (padd p (length xs)) ys"
  by (auto simp: area_def nth_append) (metis (no_types) add_diff_inverse_nat add_less_cancel_left)

lemma area_put_bytes: "put_bytes m p d = Some m' \<Longrightarrow> area m' p d"
  by (auto simp: area_def ld_put_bytes)

lemma cstr_area: "cstr m p s \<longleftrightarrow> area m p (s @ [0]) \<and> 0 \<notin> set s"
proof (induction s arbitrary: p)
  case Nil
  then show ?case by (simp add: area_def)
next
  case (Cons x s)
  have "area m p ([x] @ (s @ [0])) \<longleftrightarrow> ld m p = Some x \<and> area m (padd p 1) (s @ [0])"
    unfolding area_append [of m p "[x]"] by (simp add: area_def [of m p])
  then show ?case using Cons by auto
qed

lemma only_changed_trans: "only_changed p n m m1 \<Longrightarrow> only_changed p n m1 m2 \<Longrightarrow> only_changed p n m m2"
  by (auto simp: only_changed_def intro: same_objects_trans simp del: split_paired_All)

lemma only_changed_mono: "only_changed p n m m' \<Longrightarrow> n \<le> k \<Longrightarrow> only_changed p k m m'"
  by (auto simp: only_changed_def apart_def simp del: split_paired_All)

lemma st_only: "st m (padd p i) v = Some m' \<Longrightarrow> i < n \<Longrightarrow> only_changed p n m m'"
  unfolding only_changed_def using ld_st [of m "padd p i" v m'] st_keeps [of m "padd p i" v m']
  by (auto simp: apart_def padd_def)

text \<open>One exchange of the reversal.\<close>

lemma swap_area:
  assumes A: "area m p xs" and ij: "i < length xs" "j < length xs" "i \<noteq> j"
  shows "\<exists>m1 m2. st m (padd p i) (xs ! j) = Some m1 \<and> st m1 (padd p j) (xs ! i) = Some m2
    \<and> area m2 p (xs[i := xs ! j, j := xs ! i]) \<and> only_changed p (length xs) m m2"
proof -
  have l: "ld m (padd p i) = Some (xs ! i)" "ld m (padd p j) = Some (xs ! j)" using A ij by (simp_all add: area_def)
  obtain m1 where m1: "st m (padd p i) (xs ! j) = Some m1" using st_exists [OF l(1)] by blast
  have "ld m1 (padd p j) = Some (xs ! j)" using ld_st [OF m1] l(2) ij(3) by (simp add: padd_def)
  then obtain m2 where m2: "st m1 (padd p j) (xs ! i) = Some m2" using st_exists by blast
  have "area m2 p (xs[i := xs ! j, j := xs ! i])"
    using A ij by (auto simp: area_def ld_st [OF m2] ld_st [OF m1] nth_list_update padd_def)
  moreover have "only_changed p (length xs) m m2"
    using only_changed_trans [OF st_only [OF m1 ij(1)] st_only [OF m2 ij(2)]] .
  ultimately show ?thesis using m1 m2 by blast
qed

definition mirror :: "nat \<Rightarrow> 'a list \<Rightarrow> 'a list" where
  "mirror i xs = map (\<lambda>k. if i \<le> k \<and> k + i < length xs then xs ! (length xs - 1 - k) else xs ! k) [0..<length xs]"

lemma mirror_0: "mirror 0 xs = rev xs"
  by (rule nth_equalityI) (auto simp: mirror_def rev_nth)

lemma mirror_done: "length xs \<le> 2 * i + 1 \<Longrightarrow> mirror i xs = xs"
proof (rule nth_equalityI)
  fix k assume a: "length xs \<le> 2 * i + 1" "k < length (mirror i xs)"
  have "length xs - 1 - k = k" if "i \<le> k" "k + i < length xs" using a that by (auto simp: mirror_def)
  then show "mirror i xs ! k = xs ! k" using a by (auto simp: mirror_def)
qed (simp add: mirror_def)

lemma mirror_step:
  assumes i: "2 * i + 1 < length xs" and j: "j = length xs - 1 - i"
  shows "mirror (Suc i) (xs[i := xs ! j, j := xs ! i]) = mirror i xs"
proof (rule nth_equalityI)
  fix k assume "k < length (mirror (Suc i) (xs[i := xs ! j, j := xs ! i]))"
  then have k: "k < length xs" by (simp add: mirror_def)
  define xs' where "xs' = xs[i := xs ! j, j := xs ! i]"
  have ij: "i < length xs" "j < length xs" "i \<noteq> j" using i j by auto
  have n: "length xs' = length xs" "xs' ! i = xs ! j" "xs' ! j = xs ! i" "\<And>q. q \<noteq> i \<Longrightarrow> q \<noteq> j \<Longrightarrow> xs' ! q = xs ! q"
    using ij by (simp_all add: xs'_def)
  have l: "mirror (Suc i) xs' ! k = (if Suc i \<le> k \<and> k + Suc i < length xs then xs' ! (length xs - 1 - k) else xs' ! k)"
    "mirror i xs ! k = (if i \<le> k \<and> k + i < length xs then xs ! (length xs - 1 - k) else xs ! k)"
    using k n(1) by (simp_all add: mirror_def)
  consider "k = i" | "k = j" | "k \<noteq> i" "k \<noteq> j" by blast
  then have "mirror (Suc i) xs' ! k = mirror i xs ! k"
  proof cases
    case 3
    have "length xs - 1 - k \<noteq> i" "length xs - 1 - k \<noteq> j" "Suc i \<le> k \<and> k + Suc i < length xs \<longleftrightarrow> i \<le> k \<and> k + i < length xs"
      using 3 i j k by linarith+
    then show ?thesis unfolding l using 3 n(4) by auto
  next
    case 1
    then show ?thesis unfolding l using n(2) i j by simp
  next
    case 2
    have "length xs - 1 - j = i" "\<not> j + Suc i < length xs" "i \<le> j \<and> j + i < length xs" using i j by linarith+
    then show ?thesis unfolding l using n(3) 2 by simp
  qed
  then show "mirror (Suc i) (xs[i := xs ! j, j := xs ! i]) ! k = mirror i xs ! k" by (simp add: xs'_def)
qed (simp add: mirror_def)

lemma reverse_loop_ok:
  "area m p xs \<Longrightarrow> \<exists>m'. reverse_loop p (int i) (int (length xs) - 1 - int i) m = Some m'
     \<and> area m' p (mirror i xs) \<and> only_changed p (length xs) m m'"
proof (induction "length xs - 2 * i" arbitrary: i xs m rule: less_induct)
  case less
  show ?case
  proof (cases "2 * i + 1 < length xs")
    case False
    then show ?thesis using less.prems by (subst reverse_loop.simps) (auto simp: mirror_done only_changed_def)
  next
    case True
    define j where "j = length xs - 1 - i"
    have ij: "i < length xs" "j < length xs" "i \<noteq> j" "nat (int (length xs) - 1 - int i) = j" using True by (auto simp: j_def)
    obtain m1 m2 where m: "st m (padd p i) (xs ! j) = Some m1" "st m1 (padd p j) (xs ! i) = Some m2"
      "area m2 p (xs[i := xs ! j, j := xs ! i])" "only_changed p (length xs) m m2"
      using swap_area [OF less.prems ij(1-3)] by blast
    have l: "ld m (padd p i) = Some (xs ! i)" "ld m (padd p j) = Some (xs ! j)" using less.prems ij by (simp_all add: area_def)
    have "reverse_loop p (int i) (int (length xs) - 1 - int i) m = reverse_loop p (int (Suc i)) (int (length xs) - 1 - int (Suc i)) m2"
      using True m(1,2) l ij(4) by (subst reverse_loop.simps) (simp add: algebra_simps)
    moreover have "length (xs[i := xs ! j, j := xs ! i]) - 2 * Suc i < length xs - 2 * i" using True by simp
    then obtain m' where "reverse_loop p (int (Suc i)) (int (length xs) - 1 - int (Suc i)) m2 = Some m'"
      "area m' p (mirror i xs)" "only_changed p (length xs) m2 m'"
      using less.hyps [OF _ m(3), of "Suc i"] mirror_step [OF True j_def] by auto
    ultimately show ?thesis using only_changed_trans [OF m(4)] by auto
  qed
qed

lemma flip_loop_reverse: "n + j = i div 2 \<Longrightarrow> flip_loop n j p i m = reverse_loop p (int j) (int i - 1 - int j) m"
proof (induction n arbitrary: j m)
  case 0
  then show ?case by (subst reverse_loop.simps) auto
next
  case (Suc n)
  have e: "int j < int i - 1 - int j" "nat (int i - 1 - int j) = i - j - 1" "int i - 1 - int j - 1 = int i - 1 - int (Suc j)"
    "int j + 1 = int (Suc j)" using Suc.prems by linarith+
  have "flip_loop n (j + 1) p i = reverse_loop p (int (Suc j)) (int i - 1 - int (Suc j))" using Suc by (intro ext) simp
  then show ?case by (subst reverse_loop.simps) (simp add: e del: of_nat_Suc)
qed

lemma reverse_ok:
  assumes "cstr m p s" "int (length s) < 2 ^ 31"
  shows "\<exists>m'. reverse p m = Some m' \<and> cstr m' p (rev s) \<and> only_changed p (length s) m m'"
proof -
  have A: "area m p s" "ld m (padd p (length s)) = Some 0" "0 \<notin> set s" using assms(1) by (auto simp: cstr_area area_append) (simp add: area_def)
  obtain m' where m': "reverse_loop p 0 (int (length s) - 1) m = Some m'" "area m' p (rev s)" "only_changed p (length s) m m'"
    using reverse_loop_ok [OF A(1), of 0] by (auto simp: mirror_0)
  have "ld m' (padd p (length s)) = Some 0" using only_changed_ld [OF m'(3), of "padd p (length s)"] A(2) by (simp add: apart_def)
  then have "cstr m' p (rev s)" using m'(2) A(3) by (auto simp: cstr_area area_append) (simp add: area_def)
  then show ?thesis using m' strlen_ok [OF assms] by (auto simp: reverse_def)
qed

text \<open>The decimal digits of a number, last one first, and the text of a number.\<close>

function dec_rev :: "int \<Rightarrow> bytes" where
  "dec_rev n = of_int (n mod 10 + 48) # (if n div 10 > 0 then dec_rev (n div 10) else [])"
  by pat_completeness auto
termination
  by (relation "measure nat") auto

definition decimal :: "int \<Rightarrow> bytes" where
  "decimal n = (if n < 0 then 45 # rev (dec_rev (- n)) else rev (dec_rev n))"

declare dec_rev.simps [simp del]

lemma digits_loop_ok: "digits_loop n p i m = map_option (\<lambda>m. (i + length (dec_rev n), m)) (put_bytes m (padd p i) (dec_rev n))"
proof (induction n arbitrary: i m rule: dec_rev.induct)
  case (1 n)
  show ?case
  proof (cases "n div 10 > 0")
    case True
    then show ?thesis using 1
      by (subst digits_loop.simps, subst (1 2) dec_rev.simps)
        (cases "st m (padd p i) (word_of_int (n mod 10) + 48)"; simp add: put_bytes_Cons)
  next
    case False
    then show ?thesis
      by (subst digits_loop.simps, subst (1 2) dec_rev.simps) (cases "st m (padd p i) (word_of_int (n mod 10) + 48)"; simp add: put_bytes_single)
  qed
qed

lemma str_digits_loop_ok:
  "0 < n \<Longrightarrow> str_digits_loop n p i m = map_option (\<lambda>m. (i + length (dec_rev n), m)) (put_bytes m (padd p i) (dec_rev n))"
proof (induction n arbitrary: i m rule: dec_rev.induct)
  case (1 n)
  show ?case
  proof (cases "n div 10 > 0")
    case True
    then show ?thesis using 1
      by (subst str_digits_loop.simps, subst (1 2) dec_rev.simps)
        (cases "st m (padd p i) (word_of_int (n mod 10) + 48)"; simp add: put_bytes_Cons)
  next
    case False
    have "str_digits_loop (n div 10) p k m1 = Some (k, m1)" for k m1 using False by (subst str_digits_loop.simps) simp
    then show ?thesis using False 1(2)
      by (subst str_digits_loop.simps, subst (1 2) dec_rev.simps) (cases "st m (padd p i) (word_of_int (n mod 10) + 48)"; simp add: put_bytes_single)
  qed
qed

lemma digit_byte: "0 \<le> d \<Longrightarrow> d < 10 \<Longrightarrow> sint (of_int (d + 48) :: u8) = d + 48 \<and> of_int (d + 48) \<noteq> (0 :: u8)"
proof -
  assume "0 \<le> d" "d < 10"
  then have "d = 0 \<or> d = 1 \<or> d = 2 \<or> d = 3 \<or> d = 4 \<or> d = 5 \<or> d = 6 \<or> d = 7 \<or> d = 8 \<or> d = 9" by presburger
  then show ?thesis by (elim disjE) simp_all
qed

definition is_digit :: "u8 \<Rightarrow> bool" where "is_digit b \<longleftrightarrow> 48 \<le> sint b \<and> sint b \<le> 57"

lemma dec_rev_digits: "0 \<le> n \<Longrightarrow> \<forall>b \<in> set (dec_rev n). is_digit b \<and> b \<noteq> 0"
proof (induction n rule: dec_rev.induct)
  case (1 n)
  have d: "0 \<le> n mod 10" "n mod 10 < 10" by simp_all
  show ?case using 1 digit_byte [OF d] by (subst dec_rev.simps) (auto simp: is_digit_def)
qed

lemma dec_rev_length: "0 \<le> n \<Longrightarrow> n < 10 ^ k \<Longrightarrow> 0 < k \<Longrightarrow> length (dec_rev n) \<le> k"
proof (induction k arbitrary: n)
  case (Suc k)
  show ?case
  proof (cases "n div 10 > 0")
    case True
    then have "n div 10 < 10 ^ k" using Suc.prems by auto
    moreover have "0 < k" using True Suc.prems by (cases k) auto
    ultimately show ?thesis using Suc.IH [of "n div 10"] True by (subst dec_rev.simps) auto
  qed (subst dec_rev.simps, simp)
qed simp

definition value_of :: "int \<Rightarrow> bytes \<Rightarrow> int" where
  "value_of acc ds = foldl (\<lambda>a b. a * 10 + (sint b - 48)) acc ds"

lemma value_of_dec_rev: "0 \<le> n \<Longrightarrow> value_of 0 (rev (dec_rev n)) = n"
proof (induction n rule: dec_rev.induct)
  case (1 n)
  have d: "0 \<le> n mod 10" "n mod 10 < 10" by simp_all
  show ?case
  proof (cases "n div 10 > 0")
    case True
    then have "value_of 0 (rev (dec_rev (n div 10))) = n div 10" using 1 by simp
    then show ?thesis using True digit_byte [OF d] by (subst dec_rev.simps) (simp add: value_of_def mult.commute)
  next
    case False
    then have "n mod 10 = n" using 1(2) by (simp add: not_less)
    then show ?thesis using False digit_byte [OF d] by (subst dec_rev.simps) (simp add: value_of_def)
  qed
qed

lemma value_of_mono: "\<forall>b \<in> set ds. is_digit b \<Longrightarrow> 0 \<le> acc \<Longrightarrow> acc \<le> value_of acc ds"
proof (induction ds arbitrary: acc)
  case (Cons b ds)
  have "acc \<le> acc * 10 + (sint b - 48)" using Cons.prems by (simp add: is_digit_def)
  also have "\<dots> \<le> value_of acc (b # ds)" using Cons.IH [of "acc * 10 + (sint b - 48)"] Cons.prems by (simp add: value_of_def is_digit_def)
  finally show ?case .
qed (simp add: value_of_def)

lemma parse_digits_ok:
  assumes "cstr m p ds" "\<forall>b \<in> set ds. is_digit b" "0 \<le> acc" "value_of acc ds < 2 ^ (w - 1)"
  shows "parse_digits w acc p m = Some (value_of acc ds)"
  using assms
proof (induction ds arbitrary: acc p)
  case Nil
  then show ?case by (subst parse_digits.simps) (simp add: value_of_def)
next
  case (Cons b ds)
  let ?a = "acc * 10 + (sint b - 48)"
  have b: "48 \<le> sint b" "sint b \<le> 57" using Cons.prems(2) by (simp_all add: is_digit_def)
  have v: "value_of acc (b # ds) = value_of ?a ds" by (simp add: value_of_def)
  have a: "0 \<le> ?a" "?a < 2 ^ (w - 1)"
    using value_of_mono [of ds ?a] Cons.prems b v by auto
  moreover have "(0::int) < 2 ^ (w - 1)" by simp
  ultimately have "width_ok w ?a" "width_ok w (acc * 10)" unfolding width_ok_def using b Cons.prems(3) by linarith+
  then show ?case using Cons.IH [of "padd p 1" ?a] Cons.prems a v b by (subst parse_digits.simps) auto
qed

section \<open>Tokens\<close>

text \<open>The maximal runs of bytes that are no delimiters.\<close>

function tokens :: "bytes \<Rightarrow> bytes \<Rightarrow> bytes list" where
  "tokens ds s = (let s' = dropWhile (\<lambda>b. b \<in> set ds) s
     in if s' = [] then [] else takeWhile (\<lambda>b. b \<notin> set ds) s' # tokens ds (dropWhile (\<lambda>b. b \<notin> set ds) s'))"
  by pat_completeness auto
termination
proof (relation "measure (\<lambda>(ds, s). length s)", simp, goal_cases)
  case (1 ds s s')
  obtain x xs where x: "s' = x # xs" using 1(2) by (cases s') auto
  have "x \<notin> set ds" using hd_dropWhile [of "\<lambda>b. b \<in> set ds" s] 1 x by (metis list.sel(1))
  then have "length (dropWhile (\<lambda>b. b \<notin> set ds) s') < length s'" using x length_dropWhile_le [of _ xs] by (simp add: le_imp_less_Suc)
  then show ?case using 1(1) length_dropWhile_le [of "\<lambda>b. b \<in> set ds" s] by simp
qed

declare tokens.simps [simp del]

lemma strchr_loop_ok:
  "cstr m d ds \<Longrightarrow> \<exists>r e. strchr_loop d c m = Some (r, e) \<and> (r \<noteq> None \<longleftrightarrow> c \<in> set ds)"
proof (induction ds arbitrary: d)
  case Nil
  then show ?case by (subst strchr_loop.simps) simp
next
  case (Cons x ds)
  then show ?case using Cons.IH [of "padd d 1"] by (subst strchr_loop.simps) auto
qed

lemma strchr_ok: "cstr m d ds \<Longrightarrow> b \<noteq> 0 \<Longrightarrow> \<exists>r. strchr d (sint b) m = Some r \<and> (r \<noteq> None \<longleftrightarrow> b \<in> set ds)"
  using strchr_loop_ok [of m d ds b] by (auto simp: strchr_def signed_eq_0_iff)

lemma skip_delim_ok:
  "cstr m p s \<Longrightarrow> cstr m d ds \<Longrightarrow> skip_delim p d m = Some (padd p (length (takeWhile (\<lambda>b. b \<in> set ds) s)))"
proof (induction s arbitrary: p)
  case Nil
  then show ?case by (subst skip_delim.simps) simp
next
  case (Cons x s)
  have "x \<noteq> 0" using Cons.prems(1) by simp
  then obtain r where "strchr d (sint x) m = Some r" "r \<noteq> None \<longleftrightarrow> x \<in> set ds" using strchr_ok [OF Cons.prems(2)] by blast
  then show ?case using Cons.IH [of "padd p 1"] Cons.prems by (subst skip_delim.simps) auto
qed

lemma token_end_ok:
  "cstr m p s \<Longrightarrow> cstr m d ds \<Longrightarrow> token_end p d m = Some (padd p (length (takeWhile (\<lambda>b. b \<notin> set ds) s)))"
proof (induction s arbitrary: p)
  case Nil
  then show ?case by (subst token_end.simps) simp
next
  case (Cons x s)
  have "x \<noteq> 0" using Cons.prems(1) by simp
  then obtain r where "strchr d (sint x) m = Some r" "r \<noteq> None \<longleftrightarrow> x \<in> set ds" using strchr_ok [OF Cons.prems(2)] by blast
  then show ?case using Cons.IH [of "padd p 1"] Cons.prems by (subst token_end.simps) auto
qed

lemma cstr_suffix: "cstr m p (s @ t) \<Longrightarrow> cstr m (padd p (length s)) t"
  by (simp add: cstr_append)

lemma cstr_ld0: "cstr m p s \<Longrightarrow> ld m p = Some (if s = [] then 0 else hd s) \<and> (s \<noteq> [] \<longrightarrow> hd s \<noteq> 0)"
  by (cases s) auto

lemma cstr_cut:
  assumes "cstr m p (t @ c # u)" "st m (padd p (length t)) 0 = Some m'"
  shows "cstr m' p t" "cstr m' (padd p (length t + 1)) u"
proof -
  have A: "\<forall>i < length t. ld m (padd p i) = Some (t ! i) \<and> t ! i \<noteq> 0" "cstr m (padd p (length t + 1)) u"
    using assms(1) by (simp_all add: cstr_append)
  show "cstr m' (padd p (length t + 1)) u" using cstr_st [OF assms(2), of "padd p (length t + 1)" u] A(2) by (simp add: apart_def)
  have "cstr m' p (t @ [])" unfolding cstr_append using A(1) ld_st [OF assms(2)] by (simp add: padd_def)
  then show "cstr m' p t" by simp
qed

text \<open>One call of \<open>strtok\<close> on the text that is left.\<close>

lemma strtok_step:
  assumes p: "cstr m p s" and d: "cstr m d ds" and ap: "apart d (length ds + 1) p (length s + 1)"
    and nt: "(if str \<noteq> None then str else next_token) = Some p"
  shows "case tokens ds s of
      [] \<Rightarrow> strtok str d next_token m = Some (None, None, m)
    | t # ts \<Rightarrow> \<exists>i nt' m'. strtok str d next_token m = Some (Some (padd p i), nt', m') \<and> cstr m' (padd p i) t \<and> cstr m' d ds
        \<and> i + length t \<le> length s \<and> only_changed p (length s + 1) m m'
        \<and> (case nt' of None \<Rightarrow> ts = []
           | Some q \<Rightarrow> \<exists>k u. q = padd p k \<and> i + length t < k \<and> cstr m' q u \<and> k + length u = length s \<and> tokens ds u = ts)"
proof -
  define a where "a = takeWhile (\<lambda>b. b \<in> set ds) s"
  define s' where "s' = dropWhile (\<lambda>b. b \<in> set ds) s"
  have s: "s = a @ s'" by (simp add: a_def s'_def)
  define q where "q = padd p (length a)"
  have q: "skip_delim p d m = Some q" "cstr m q s'"
    using skip_delim_ok [OF p d] cstr_suffix [of m p a s'] p [unfolded s] unfolding q_def a_def by simp_all
  show ?thesis
  proof (cases "s' = []")
    case True
    then have "tokens ds s = []" by (subst tokens.simps) (simp add: s'_def)
    moreover have "strtok str d next_token m = Some (None, None, m)" unfolding strtok_def nt using q True by simp
    ultimately show ?thesis by simp
  next
    case False
    define t where "t = takeWhile (\<lambda>b. b \<notin> set ds) s'"
    define w where "w = dropWhile (\<lambda>b. b \<notin> set ds) s'"
    have s': "s' = t @ w" by (simp add: t_def w_def)
    have T: "tokens ds s = t # tokens ds w" using False by (subst tokens.simps) (simp add: s'_def [symmetric] t_def w_def)
    define e where "e = padd q (length t)"
    have e: "token_end q d m = Some e" "cstr m e w"
      using token_end_ok [OF q(2) d] cstr_suffix [of m q t w] q(2) [unfolded s'] unfolding e_def t_def by simp_all
    have b: "\<exists>b. ld m q = Some b \<and> b \<noteq> 0" using cstr_ld0 [OF q(2)] False by auto
    show ?thesis
    proof (cases w)
      case Nil
      have "tokens ds w = []" using Nil by (subst tokens.simps) simp
      moreover have "strtok str d next_token m = Some (Some q, None, m)" unfolding strtok_def nt using q(1) b e Nil by auto
      moreover have "cstr m q t" using q(2) s' Nil by simp
      ultimately show ?thesis using T d s s' by (auto simp: q_def only_changed_def)
    next
      case (Cons c u)
      have l: "ld m e = Some c" "c \<noteq> 0" "c \<in> set ds" using e(2) Cons hd_dropWhile [of "\<lambda>b. b \<notin> set ds" s'] by (auto simp: w_def)
      obtain m' where m': "st m e 0 = Some m'" using st_exists [OF l(1)] by blast
      have K: "strtok str d next_token m = Some (Some q, Some (padd e 1), m')" unfolding strtok_def nt using q(1) b e(1) l m' by auto
      have c: "cstr m' q t" "cstr m' (padd q (length t + 1)) u"
        using cstr_cut [of m q t c u m'] q(2) s' Cons m' by (simp_all add: e_def)
      have o: "only_changed p (length s + 1) m m'"
        using st_only [of m p "length a + length t" 0 m' "length s + 1"] m' s s' Cons by (simp add: e_def q_def)
      have cd: "cstr m' d ds" using cstr_only_changed [OF o ap] d by simp
      have "tokens ds w = tokens ds u" using l(3) Cons by (subst (1 2) tokens.simps) simp
      then have "\<exists>k v. padd e 1 = padd p k \<and> length a + length t < k \<and> cstr m' (padd e 1) v \<and> k + length v = length s \<and> tokens ds v = tokens ds w"
        using c(2) s s' Cons by (intro exI [of _ "length a + length t + 1"] exI [of _ u]) (simp add: e_def q_def)
      then have "strtok str d next_token m = Some (Some (padd p (length a)), Some (padd e 1), m') \<and> cstr m' (padd p (length a)) t \<and> cstr m' d ds
        \<and> length a + length t \<le> length s \<and> only_changed p (length s + 1) m m'
        \<and> (case Some (padd e 1) of None \<Rightarrow> tokens ds w = []
           | Some q \<Rightarrow> \<exists>k v. q = padd p k \<and> length a + length t < k \<and> cstr m' q v \<and> k + length v = length s \<and> tokens ds v = tokens ds w)"
        using K c(1) cd o s s' by (simp add: q_def)
      then show ?thesis unfolding T list.case by blast
    qed
  qed
qed

text \<open>
  The loop in which the kernel calls \<open>strtok\<close>: once with the text and then with a null pointer until it answers
  one. The result is the list of the tokens' addresses.
\<close>

partial_function (option) strtok_rest :: "ptr \<Rightarrow> ptr option \<Rightarrow> cmem \<Rightarrow> (ptr list \<times> cmem) option" where
  "strtok_rest delim next_token m =
     Option.bind (strtok None delim next_token m) (\<lambda>(r, next_token, m).
       case r of None \<Rightarrow> Some ([], m)
       | Some t \<Rightarrow> Option.bind (strtok_rest delim next_token m) (\<lambda>(ts, m). Some (t # ts, m)))"

definition strtok_all :: "ptr \<Rightarrow> ptr \<Rightarrow> ptr option \<Rightarrow> cmem \<Rightarrow> (ptr list \<times> cmem) option" where
  "strtok_all str delim next_token m =
     Option.bind (strtok (Some str) delim next_token m) (\<lambda>(r, next_token, m).
       case r of None \<Rightarrow> Some ([], m)
       | Some t \<Rightarrow> Option.bind (strtok_rest delim next_token m) (\<lambda>(ts, m). Some (t # ts, m)))"

lemma only_changed_sub:
  "only_changed (padd p k) n m m' \<Longrightarrow> k + n \<le> l \<Longrightarrow> only_changed p l m m'"
  unfolding only_changed_def by (auto simp: apart_def simp del: split_paired_All)

lemma strtok_first_then_rest:
  assumes p: "cstr m p s" and d: "cstr m d ds" and ap: "apart d (length ds + 1) p (length s + 1)"
    and nt: "(if str \<noteq> None then str else next_token) = Some p"
    and rest: "\<And>k u m'. 0 < k \<Longrightarrow> k + length u = length s \<Longrightarrow> cstr m' (padd p k) u \<Longrightarrow> cstr m' d ds \<Longrightarrow>
      \<exists>ts m''. strtok_rest d (Some (padd p k)) m' = Some (ts, m'') \<and> list_all2 (cstr m'') ts (tokens ds u) \<and> only_changed (padd p k) (length u + 1) m' m''"
  shows "\<exists>ts m'. Option.bind (strtok str d next_token m) (\<lambda>(r, next_token, m).
       case r of None \<Rightarrow> Some ([], m)
       | Some t \<Rightarrow> Option.bind (strtok_rest d next_token m) (\<lambda>(ts, m). Some (t # ts, m))) = Some (ts, m')
     \<and> list_all2 (cstr m') ts (tokens ds s) \<and> only_changed p (length s + 1) m m'"
proof (cases "tokens ds s")
  case Nil
  then show ?thesis using strtok_step [OF p d ap nt] by (simp add: only_changed_def)
next
  case (Cons t ts)
  obtain i nt' m1 where K: "strtok str d next_token m = Some (Some (padd p i), nt', m1)" "cstr m1 (padd p i) t" "cstr m1 d ds"
    "i + length t \<le> length s" "only_changed p (length s + 1) m m1"
    and nx: "case nt' of None \<Rightarrow> ts = []
       | Some q \<Rightarrow> \<exists>k u. q = padd p k \<and> i + length t < k \<and> cstr m1 q u \<and> k + length u = length s \<and> tokens ds u = ts"
    using strtok_step [OF p d ap nt] unfolding Cons list.case by (elim exE conjE) (rule that; assumption)
  show ?thesis
  proof (cases nt')
    case None
    have "strtok_rest d None m1 = Some ([], m1)" by (subst strtok_rest.simps) (simp add: strtok_def)
    then show ?thesis using K nx None Cons by simp
  next
    case (Some q)
    then obtain k u where q: "q = padd p k" "i + length t < k" "cstr m1 q u" "k + length u = length s" "tokens ds u = ts" using nx by auto
    then obtain rs m2 where r: "strtok_rest d (Some q) m1 = Some (rs, m2)" "list_all2 (cstr m2) rs ts" "only_changed q (length u + 1) m1 m2"
      using rest [of k u m1] K(3) by auto
    have "cstr m2 (padd p i) t" using cstr_only_changed [OF r(3), of "padd p i" t] K(2) q(1,2) by (simp add: apart_def)
    moreover have "only_changed p (length s + 1) m1 m2" using only_changed_sub [OF r(3) [unfolded q(1)]] q(4) by simp
    ultimately show ?thesis using K(1) r Some Cons only_changed_trans [OF K(5)] by auto
  qed
qed

lemma strtok_rest_ok:
  "cstr m p s \<Longrightarrow> cstr m d ds \<Longrightarrow> apart d (length ds + 1) p (length s + 1) \<Longrightarrow>
   \<exists>ts m'. strtok_rest d (Some p) m = Some (ts, m') \<and> list_all2 (cstr m') ts (tokens ds s) \<and> only_changed p (length s + 1) m m'"
proof (induction "length s" arbitrary: p s m rule: less_induct)
  case less
  have "\<exists>ts m''. strtok_rest d (Some (padd p k)) m' = Some (ts, m'') \<and> list_all2 (cstr m'') ts (tokens ds u) \<and> only_changed (padd p k) (length u + 1) m' m''"
    if "0 < k" "k + length u = length s" "cstr m' (padd p k) u" "cstr m' d ds" for k u m'
  proof -
    have "apart d (length ds + 1) (padd p k) (length u + 1)" using that(1,2) less.prems(3) by (auto simp: apart_def)
    then show ?thesis using less.hyps [OF _ that(3,4)] that(1,2) by simp
  qed
  then show ?case unfolding strtok_rest.simps [of d "Some p" m] by (intro strtok_first_then_rest less.prems) auto
qed

lemma strtok_all_tokens:
  assumes "cstr m p s" "cstr m d ds" "apart d (length ds + 1) p (length s + 1)"
  shows "\<exists>ts m'. strtok_all p d next_token m = Some (ts, m') \<and> list_all2 (cstr m') ts (tokens ds s)
     \<and> only_changed p (length s + 1) m m'"
proof -
  have "\<exists>ts m''. strtok_rest d (Some (padd p k)) m' = Some (ts, m'') \<and> list_all2 (cstr m'') ts (tokens ds u) \<and> only_changed (padd p k) (length u + 1) m' m''"
    if "0 < k" "k + length u = length s" "cstr m' (padd p k) u" "cstr m' d ds" for k u m'
    by (rule strtok_rest_ok [OF that(3,4)]) (use that(1,2) assms(3) in \<open>auto simp: apart_def\<close>)
  then show ?thesis unfolding strtok_all_def by (intro strtok_first_then_rest assms) auto
qed

section \<open>Numbers as text\<close>

definition rtext :: "int \<Rightarrow> bytes" where
  "rtext n = (if n < 0 then dec_rev (- n) @ [45] else dec_rev n)"

lemma decimal_rtext: "decimal n = rev (rtext n)"
  by (simp add: decimal_def rtext_def)

lemma dec_rev_nonempty: "dec_rev n \<noteq> []"
  by (subst dec_rev.simps) simp

lemma rtext_length:
  assumes "int_ok n" "n \<noteq> - (2 ^ 31)"
  shows "length (rtext n) \<le> 11" "0 \<notin> set (rtext n)"
proof -
  have "length (dec_rev \<bar>n\<bar>) \<le> 10" using assms by (intro dec_rev_length) (auto simp: int_ok_def)
  then show "length (rtext n) \<le> 11" by (auto simp: rtext_def split: if_splits)
  have "0 \<notin> set (dec_rev \<bar>n\<bar>)" using dec_rev_digits [of "\<bar>n\<bar>"] by auto
  then show "0 \<notin> set (rtext n)" by (auto simp: rtext_def split: if_splits)
qed

lemma atoi_decimal:
  assumes n: "int_ok n" "n \<noteq> - (2 ^ 31)" and c: "cstr m p (decimal n)"
  shows "atoi p m = Some n"
proof -
  define ds where "ds = rev (dec_rev \<bar>n\<bar>)"
  have D: "\<forall>b \<in> set ds. is_digit b" using dec_rev_digits [of "\<bar>n\<bar>"] by (simp add: ds_def)
  have V: "value_of 0 ds = \<bar>n\<bar>" by (simp add: ds_def value_of_dec_rev)
  have P: "parse_digits 32 0 q m = Some \<bar>n\<bar>" if "cstr m q ds" for q
    using parse_digits_ok [OF that D, of 0 32] V n by (auto simp: int_ok_def)
  obtain b bs where b: "decimal n = b # bs" "ds \<noteq> []" using dec_rev_nonempty by (cases "decimal n") (auto simp: decimal_def ds_def split: if_splits)
  have l: "ld m p = Some b" using c b by simp
  have nb: "\<not> is_digit 32" "\<not> is_digit 9" "\<not> is_digit 10" "\<not> is_digit 45" "\<not> is_digit 43" by (simp_all add: is_digit_def)
  show ?thesis
  proof (cases "n < 0")
    case True
    then have d: "decimal n = 45 # ds" by (simp add: decimal_def ds_def)
    then have "skip_blanks p m = Some p" using c by (subst skip_blanks.simps) simp
    then show ?thesis using c d P [of "padd p 1"] True by (simp add: atoi_def ato_def)
  next
    case False
    then have d: "decimal n = ds" by (simp add: decimal_def ds_def)
    then have "is_digit b" using D b by (metis list.set_intros(1))
    then have q: "b \<noteq> 32" "b \<noteq> 9" "b \<noteq> 10" "b \<noteq> 45" "b \<noteq> 43" using nb by metis+
    then have "skip_blanks p m = Some p" using l by (subst skip_blanks.simps) simp
    then show ?thesis using c d P [of p] False l q by (simp add: atoi_def ato_def)
  qed
qed

text \<open>The digits and the terminator are in place and only have to be reversed.\<close>

lemma text_in_place:
  assumes n: "int_ok n" "n \<noteq> - (2 ^ 31)" and p: "m (fst p) \<noteq> None" "snd p + 12 \<le> osize m p"
  obtains m1 m' where "put_bytes m p (rtext n @ [0]) = Some m1" "reverse p m1 = Some m'"
    "cstr m' p (decimal n)" "atoi p m' = Some n" "only_changed p 12 m m'"
proof -
  note r = rtext_length [OF n]
  obtain m1 where m1: "put_bytes m p (rtext n @ [0]) = Some m1" using put_bytes_exists [of p "rtext n @ [0]" m] p r(1) by auto
  have c: "cstr m1 p (rtext n)" by (rule cstr_put_bytes [OF m1 r(2)])
  obtain m' where m': "reverse p m1 = Some m'" "cstr m' p (decimal n)" "only_changed p (length (rtext n)) m1 m'"
    using reverse_ok [OF c] r(1) by (auto simp: decimal_rtext)
  have "only_changed p 12 m m'"
    using only_changed_trans [OF only_changed_mono [OF put_bytes_only [OF m1]] only_changed_mono [OF m'(3)]] r(1) by simp
  then show ?thesis using that m1 m' atoi_decimal [OF n m'(2)] by blast
qed

lemma int_to_ascii_text:
  assumes n: "int_ok n" "n \<noteq> - (2 ^ 31)" and p: "m (fst p) \<noteq> None" "snd p + 12 \<le> osize m p"
  shows "\<exists>m'. int_to_ascii n p m = Some m' \<and> cstr m' p (decimal n) \<and> atoi p m' = Some n \<and> only_changed p 12 m m'"
proof -
  obtain m1 m' where t: "put_bytes m p (rtext n @ [0]) = Some m1" "reverse p m1 = Some m'"
    "cstr m' p (decimal n)" "atoi p m' = Some n" "only_changed p 12 m m'" by (rule text_in_place [OF n p])
  have "int_ok (- n)" if "n < 0" using n that by (simp add: int_ok_def)
  then have "int_to_ascii n p m = Some m'"
    using t(1,2) by (auto simp: int_to_ascii_def digits_loop_ok rtext_def put_bytes_append put_bytes_single bind_eq_Some_conv split: if_splits)
  then show ?thesis using t by blast
qed

lemma int_to_str_text:
  assumes n: "int_ok n" "n \<noteq> - (2 ^ 31)" and p: "m (fst p) \<noteq> None" "snd p + 12 \<le> osize m p"
  shows "\<exists>m'. int_to_str n p m = Some m' \<and> cstr m' p (decimal n) \<and> atoi p m' = Some n \<and> only_changed p 12 m m'"
proof -
  obtain m1 m' where t: "put_bytes m p (rtext n @ [0]) = Some m1" "reverse p m1 = Some m'"
    "cstr m' p (decimal n)" "atoi p m' = Some n" "only_changed p 12 m m'" by (rule text_in_place [OF n p])
  note r = rtext_length [OF n]
  have c: "cstr m1 p (rtext n)" by (rule cstr_put_bytes [OF t(1) r(2)])
  have F: "flip_loop (length (rtext n) div 2) 0 p (length (rtext n)) m1 = Some m'"
    using t(2) strlen_ok [OF c] r(1) by (simp add: reverse_def flip_loop_reverse)
  have "int_to_str n p m = Some m'"
  proof (cases "n = 0")
    case True
    then have z: "rtext n = [48]" by (simp add: rtext_def dec_rev.simps)
    then have "m1 = m'" using F by simp
    then show ?thesis using t(1) True z by (simp add: int_to_str_def put_bytes_Cons [of m p] put_bytes_single)
  next
    case False
    have "int_ok (- n)" if "n < 0" using n that by (simp add: int_ok_def)
    then show ?thesis
      using t(1) F False
      by (auto simp: int_to_str_def str_digits_loop_ok rtext_def put_bytes_append put_bytes_single bind_eq_Some_conv split: if_splits)
  qed
  then show ?thesis using t by blast
qed

section \<open>Copying and concatenating\<close>

lemma strcpy_ok:
  assumes "cstr m src s" "apart dest (length s + 1) src (length s + 1)" "m (fst dest) \<noteq> None" "snd dest + length s + 1 \<le> osize m dest"
  shows "\<exists>m'. strcpy dest src m = Some (dest, m') \<and> cstr m' dest s \<and> only_changed dest (length s + 1) m m'"
proof -
  obtain m' where m': "put_bytes m dest (s @ [0]) = Some m'" using put_bytes_exists [of dest "s @ [0]" m] assms by auto
  then show ?thesis
    using strcpy_loop_ok [OF assms(1,2)] cstr_put_bytes [OF m'] cstr_room [OF assms(1)] put_bytes_only [OF m'] by (auto simp: strcpy_def)
qed

lemma strcat_ok:
  assumes d: "cstr m dest t" and s: "cstr m src s" and ap: "apart dest (length t + length s + 1) src (length s + 1)"
    and room: "snd dest + length t + length s + 1 \<le> osize m dest"
  shows "\<exists>m'. strcat dest src m = Some (dest, m') \<and> cstr m' dest (t @ s) \<and> only_changed dest (length t + length s + 1) m m'"
proof -
  define e where "e = padd dest (length t)"
  have ap': "apart e (length s + 1) src (length s + 1)" using ap by (auto simp: apart_def e_def)
  obtain m' where m': "put_bytes m e (s @ [0]) = Some m'"
    using put_bytes_exists [of e "s @ [0]" m] room cstr_room [OF d] by (auto simp: e_def)
  have k: "strcat dest src m = Some (dest, m')" using str_end_ok [OF d] strcat_loop_ok [OF s ap'] m' by (simp add: strcat_def e_def)
  have o: "only_changed e (length s + 1) m m'" using put_bytes_only [OF m'] by simp
  have "\<forall>i < length t. ld m (padd dest i) = Some (t ! i) \<and> t ! i \<noteq> 0" using d cstr_append [of m dest t "[]"] by simp
  moreover have "ld m' (padd dest i) = ld m (padd dest i)" if "i < length t" for i
    by (rule only_changed_ld [OF o]) (use that in \<open>simp add: apart_def e_def\<close>)
  ultimately have "cstr m' dest (t @ s)" using cstr_put_bytes [OF m'] cstr_room [OF s] by (simp add: cstr_append e_def)
  moreover have "only_changed dest (length t + length s + 1) m m'" using only_changed_sub [OF o [unfolded e_def]] by simp
  ultimately show ?thesis using k by blast
qed

lemma strcmp_loop_same:
  "cstr m (padd p i) s \<Longrightarrow> cstr m (padd q i) s \<Longrightarrow> int (i + length s) < 2 ^ 31 \<Longrightarrow> strcmp_loop p q i m = Some 0"
proof (induction s arbitrary: i)
  case Nil
  then show ?case by (subst strcmp_loop.simps) simp
next
  case (Cons x s)
  then show ?case using Cons.IH [of "Suc i"] by (subst strcmp_loop.simps) (simp add: cinc_ok)
qed

lemma strcmp_loop_diff:
  "cstr m (padd p i) s \<Longrightarrow> cstr m (padd q i) t \<Longrightarrow> int (i + length s) < 2 ^ 31 \<Longrightarrow> s \<noteq> t \<Longrightarrow> \<exists>r. strcmp_loop p q i m = Some r \<and> r \<noteq> 0"
proof (induction s arbitrary: i t)
  case Nil
  then obtain y t' where "t = y # t'" by (cases t) auto
  then show ?case using Nil by (subst strcmp_loop.simps) (auto simp: signed_eq_0_iff)
next
  case (Cons x s)
  show ?case
  proof (cases t)
    case Nil
    then show ?thesis using Cons.prems by (subst strcmp_loop.simps) (auto simp: signed_eq_0_iff)
  next
    case (Cons y t')
    then show ?thesis using Cons.prems Cons.IH [of "Suc i" t'] by (subst strcmp_loop.simps) (auto simp: cinc_ok dest: signed_word_eqI)
  qed
qed

lemma strcmp_zero_iff: "cstr m p s \<Longrightarrow> cstr m q t \<Longrightarrow> int (length s) < 2 ^ 31 \<Longrightarrow> \<exists>r. strcmp p q m = Some r \<and> (r = 0 \<longleftrightarrow> s = t)"
  using strcmp_loop_same [of m p 0 s q] strcmp_loop_diff [of m p 0 s q t] by (cases "s = t") (auto simp: strcmp_def)

section \<open>Moving\<close>

lemma ld_word_bytes_at: "ld_word m p = bytes_at m p 4"
  by (cases "m (fst p)") (auto simp: ld_word_def bytes_at_def ld_def bslice_def numeral_eq_Suc take_Suc_conv_app_nth take_drop add.commute)

lemma st_word_put_bytes: "length w = 4 \<Longrightarrow> st_word m p w = put_bytes m p w"
proof -
  assume "length w = 4"
  then obtain a b c d where w: "w = [a, b, c, d]" by (auto simp: numeral_eq_Suc length_Suc_conv)
  show ?thesis unfolding w by (simp add: st_word_def put_bytes_Cons [of _ _ _ "[_, _, _]"] put_bytes_Cons [of _ _ _ "[_, _]"] put_bytes_Cons [of _ _ _ "[_]"] put_bytes_single numeral_eq_Suc)
qed

lemma bytes_at_add: "bytes_at m p (k + n) = Option.bind (bytes_at m p k) (\<lambda>a. map_option ((@) a) (bytes_at m (padd p k) n))"
  by (cases "m (fst p)") (auto simp: bytes_at_def bslice_append_adj)

lemma bytes_at_length: "bytes_at m p n = Some xs \<Longrightarrow> length xs = n"
  by (auto simp: bytes_at_def bind_eq_Some_conv split: if_splits)

lemma bytes_at_put: "put_bytes m d w = Some m' \<Longrightarrow> fst p \<noteq> fst d \<Longrightarrow> bytes_at m' p n = bytes_at m p n"
  by (auto simp: put_bytes_def bytes_at_def bind_eq_Some_conv split: if_splits)

lemma put_bytes_append_rev:
  "put_bytes m p (xs @ ys) = Option.bind (put_bytes m (padd p (length xs)) ys) (\<lambda>m. put_bytes m p xs)"
proof (cases "m (fst p)")
  case (Some b)
  have "overwrite b (snd p) (xs @ ys) = overwrite (overwrite b (snd p + length xs) ys) (snd p) xs" if "snd p + length xs + length ys \<le> length b"
    by (rule nth_equalityI) (use that in \<open>auto simp: nth_overwrite nth_append\<close>)
  then show ?thesis using Some by (auto simp: put_bytes_def add.assoc)
qed (simp add: put_bytes_def)

lemma move_up_ok:
  "fst d \<noteq> fst s \<Longrightarrow> bytes_at m s (4 * n) = Some xs \<Longrightarrow> m (fst d) \<noteq> None \<Longrightarrow> snd d \<le> osize m d \<Longrightarrow> move_up n d s m = put_bytes m d xs"
proof (induction n arbitrary: d s m xs)
  case 0
  then show ?case using bytes_at_length [OF 0(2)] by (simp add: put_bytes_Nil)
next
  case (Suc n)
  obtain a zs where a: "bytes_at m s 4 = Some a" "bytes_at m (padd s 4) (4 * n) = Some zs" "xs = a @ zs"
    using Suc.prems(2) bytes_at_add [of m s 4 "4 * n"] by (auto simp: bind_eq_Some_conv)
  have la: "length a = 4" by (rule bytes_at_length [OF a(1)])
  have "move_up n (padd d 4) (padd s 4) m1 = put_bytes m1 (padd d 4) zs" if p: "put_bytes m d a = Some m1" for m1
  proof -
    have "snd d + 4 \<le> osize m d \<and> osize m1 d = osize m d \<and> m1 (fst d) \<noteq> None"
      using p la by (auto simp: put_bytes_def osize_def bind_eq_Some_conv split: if_splits)
    then show ?thesis using Suc.IH [of "padd d 4" "padd s 4" m1 zs] bytes_at_put [OF p, of "padd s 4"] a(2) Suc.prems(1) by simp
  qed
  then show ?case using a la by (cases "put_bytes m d a") (simp_all add: ld_word_bytes_at st_word_put_bytes put_bytes_append)
qed

lemma move_down_ok:
  "fst d \<noteq> fst s \<Longrightarrow> bytes_at m s (4 * n) = Some xs \<Longrightarrow> m (fst d) \<noteq> None \<Longrightarrow> snd d \<le> osize m d \<Longrightarrow> move_down n d s m = put_bytes m d xs"
proof (induction n arbitrary: m xs)
  case 0
  then show ?case using bytes_at_length [OF 0(2)] by (simp add: put_bytes_Nil)
next
  case (Suc n)
  obtain zs a where a: "bytes_at m s (4 * n) = Some zs" "bytes_at m (padd s (4 * n)) 4 = Some a" "xs = zs @ a"
    using Suc.prems(2) bytes_at_add [of m s "4 * n" 4] unfolding mult_Suc_right add.commute [of 4] by (auto simp: bind_eq_Some_conv)
  have la: "length a = 4" "length zs = 4 * n" using bytes_at_length a(1,2) by blast+
  have "move_down n d s m1 = put_bytes m1 d zs" if p: "put_bytes m (padd d (4 * n)) a = Some m1" for m1
  proof -
    have "osize m1 d = osize m d \<and> m1 (fst d) \<noteq> None" using p by (auto simp: put_bytes_def osize_def bind_eq_Some_conv split: if_splits)
    then show ?thesis using Suc.IH [of m1 zs] bytes_at_put [OF p, of s] a(1) Suc.prems by simp
  qed
  then show ?case using a la
    by (cases "put_bytes m (padd d (4 * n)) a") (simp_all add: ld_word_bytes_at st_word_put_bytes put_bytes_append_rev)
qed

section \<open>Properties\<close>

text \<open>
  C33. Bounds of the decimal conversion: for every \<open>int\<close> but the most negative one, \<open>int_to_ascii\<close> and
  \<open>int_to_str\<close> need at most twelve bytes (eleven characters and the terminator), write nothing outside them,
  leave the same decimal text, and \<open>atoi\<close> reads back the number.
\<close>

theorem int_to_ascii_needs_twelve_bytes:
  assumes n: "int_ok n" "n \<noteq> - (2 ^ 31)" and p: "m (fst p) \<noteq> None" "snd p + 12 \<le> osize m p"
  shows "length (decimal n) \<le> 11
    \<and> (\<exists>m'. int_to_ascii n p m = Some m' \<and> cstr m' p (decimal n) \<and> atoi p m' = Some n \<and> only_changed p 12 m m')
    \<and> (\<exists>m'. int_to_str n p m = Some m' \<and> cstr m' p (decimal n) \<and> atoi p m' = Some n \<and> only_changed p 12 m m')"
proof -
  have "length (decimal n) \<le> 11" using rtext_length [OF n] by (simp add: decimal_rtext)
  then show ?thesis using int_to_ascii_text [where n = n, OF n p] int_to_str_text [where n = n, OF n p] by blast
qed

theorem int_to_ascii_needs_twelve_bytes_witness:
  "\<exists>m'. int_to_ascii (- 2147483647) (0, 0) [0 \<mapsto> replicate 12 255] = Some m' \<and> atoi (0, 0) m' = Some (- 2147483647)"
  using int_to_ascii_needs_twelve_bytes [of "- 2147483647" "[0 \<mapsto> replicate 12 255]" "(0, 0)"]
  by (auto simp: int_ok_def osize_def)

text \<open>
  C34. Copying and concatenating: with room for both texts, \<open>strcpy\<close> and then \<open>strcat\<close> leave the concatenation in
  the destination and change nothing outside it; \<open>strlen\<close> gives the sum of the lengths, and \<open>strcmp\<close> of the
  result with any other string is 0 exactly when the texts are equal.
\<close>

theorem strcpy_strcat_concatenate:
  assumes a: "cstr m a s" "cstr m b t" and d: "m (fst d) \<noteq> None" "snd d + length s + length t + 1 \<le> osize m d"
    and ap: "apart d (length s + length t + 1) a (length s + 1)" "apart d (length s + length t + 1) b (length t + 1)"
    and q: "cstr m q u" "apart q (length u + 1) d (length s + length t + 1)" and len: "int (length s + length t) < 2 ^ 31"
  shows "\<exists>m1 m2 r. strcpy d a m = Some (d, m1) \<and> strcat d b m1 = Some (d, m2) \<and> cstr m2 d (s @ t)
     \<and> only_changed d (length s + length t + 1) m m2
     \<and> strlen d m2 = Some (length s + length t) \<and> strcmp d q m2 = Some r \<and> (r = 0 \<longleftrightarrow> s @ t = u)"
proof -
  obtain m1 where m1: "strcpy d a m = Some (d, m1)" "cstr m1 d s" "only_changed d (length s + 1) m m1"
    using strcpy_ok [OF a(1) _ d(1)] ap(1) d(2) by (auto simp: apart_def)
  have "cstr m1 b t" using cstr_only_changed [OF m1(3), of b t] a(2) ap(2) by (auto simp: apart_def)
  moreover have "osize m1 d = osize m d" using m1(3) by (simp add: only_changed_def same_objects_osize)
  ultimately obtain m2 where m2: "strcat d b m1 = Some (d, m2)" "cstr m2 d (s @ t)" "only_changed d (length s + length t + 1) m1 m2"
    using strcat_ok [OF m1(2), of b t] ap(2) d(2) by auto
  have o: "only_changed d (length s + length t + 1) m m2"
    using only_changed_trans [OF only_changed_mono [OF m1(3)] m2(3)] by simp
  have "cstr m2 q u" using cstr_only_changed [OF o q(2)] q(1) by simp
  then obtain r where "strcmp d q m2 = Some r" "r = 0 \<longleftrightarrow> s @ t = u" using strcmp_zero_iff [OF m2(2), of q u] len by auto
  then show ?thesis using m1(1) m2(1,2) o strlen_ok [OF m2(2)] len by auto
qed

theorem strcpy_strcat_concatenate_witness:
  "\<exists>m1 m2. strcpy (0, 0) (1, 0) [0 \<mapsto> replicate 4 7, 1 \<mapsto> [97, 0], 2 \<mapsto> [98, 99, 0]] = Some ((0, 0), m1)
     \<and> strcat (0, 0) (2, 0) m1 = Some ((0, 0), m2) \<and> cstr m2 (0, 0) [97, 98, 99] \<and> strlen (0, 0) m2 = Some 3"
proof -
  let ?m = "[0 \<mapsto> replicate 4 7, 1 \<mapsto> [97, 0], 2 \<mapsto> [98, 99, 0]] :: cmem"
  have c: "cstr ?m (1, 0) [97]" "cstr ?m (2, 0) [98, 99]" by (simp_all add: ld_def padd_def)
  show ?thesis using strcpy_strcat_concatenate [OF c _ _ _ _ c(1), of "(0, 0)"] by (auto simp: apart_def osize_def)
qed

text \<open>
  \<open>memmove\<close> moves four bytes per count: between different objects \<open>memmove(dest, src, n)\<close> copies \<open>4 * n\<close>
  bytes, and is undefined as soon as the destination has fewer, although the caller asked for \<open>n\<close> bytes.
\<close>

theorem memmove_moves_four_times_n:
  assumes "fst dest \<noteq> fst src" "bytes_at m src (4 * n) = Some xs" "m (fst dest) = Some b" "snd dest \<le> length b"
  shows "memmove dest src n m =
    (if snd dest + 4 * n \<le> length b then Some (dest, m(fst dest \<mapsto> overwrite b (snd dest) xs)) else None)"
proof -
  have "length xs = 4 * n" by (rule bytes_at_length [OF assms(2)])
  then have "put_bytes m dest xs = (if snd dest + 4 * n \<le> length b then Some (m(fst dest \<mapsto> overwrite b (snd dest) xs)) else None)"
    using assms(3) by (simp add: put_bytes_def)
  moreover have "osize m dest = length b" using assms(3) by (simp add: osize_def)
  ultimately show ?thesis using move_up_ok [OF assms(1,2)] move_down_ok [OF assms(1,2)] assms(1,3,4) by (auto simp: memmove_def ptr_less_def)
qed

theorem memmove_moves_four_times_n_witness:
  "memmove (0, 0) (1, 0) 2 [0 \<mapsto> replicate 8 0, 1 \<mapsto> [1, 2, 3, 4, 5, 6, 7, 8]]
     = Some ((0, 0), [0 \<mapsto> [1, 2, 3, 4, 5, 6, 7, 8], 1 \<mapsto> [1, 2, 3, 4, 5, 6, 7, 8]])
   \<and> memmove (0, 0) (1, 0) 2 [0 \<mapsto> replicate 2 0, 1 \<mapsto> [1, 2, 3, 4, 5, 6, 7, 8]] = None"
proof -
  have b: "bytes_at [0 \<mapsto> x, 1 \<mapsto> [1, 2, 3, 4, 5, 6, 7, 8]] (1, 0) (4 * 2) = Some [1, 2, 3, 4, 5, 6, 7, 8]" for x
    by (simp add: bytes_at_def)
  show ?thesis using memmove_moves_four_times_n [OF _ b, of "(0, 0)"] by (simp add: overwrite_def fun_upd_twist)
qed

end
