(* ===== verification/LibFormat.thy ===== *)
theory LibFormat
  imports LibString
begin

text \<open>
  Formatted output (kernel/src/lib/stdio.c): \<open>vprintf\<close> to the terminal, \<open>vsprintf\<close> and \<open>vsnprintf\<close> into memory, on the
  memory of the string library.

  A format is the list of its bytes with the terminator; a function that steps over the terminator has no
  result. Arguments are a list of typed values and \<open>va_arg\<close> takes the first one: a type that does not fit is undefined,
  except that signed and unsigned integers of the same width may stand for each other when both can represent the
  value. What goes to the terminal is the list of bytes handed to \<open>putchar\<close>. Floating-point arithmetic is the
  parameter \<open>fp_ops\<close>, with one field for each operation on doubles the code uses.
\<close>

section \<open>Arguments\<close>

record 'd fp_ops =
  fp_negative :: "'d \<Rightarrow> bool"
  fp_uminus :: "'d \<Rightarrow> 'd"
  fp_to_u64 :: "'d \<Rightarrow> u64"
  fp_of_u64 :: "u64 \<Rightarrow> 'd"
  fp_minus :: "'d \<Rightarrow> 'd \<Rightarrow> 'd"
  fp_times10 :: "'d \<Rightarrow> 'd"
  fp_to_int :: "'d \<Rightarrow> int"
  fp_of_int :: "int \<Rightarrow> 'd"

datatype 'd varg = AInt int | AUInt u32 | ALong int | AULong u64 | AStr "ptr option" | APtr u64 | ADouble 'd

fun va_int :: "'d varg list \<Rightarrow> (int \<times> 'd varg list) option" where
  "va_int (AInt i # as) = (if int_ok i then Some (i, as) else None)"
| "va_int (AUInt u # as) = (if uint u < 2 ^ 31 then Some (uint u, as) else None)"
| "va_int _ = None"

fun va_uint :: "'d varg list \<Rightarrow> (u32 \<times> 'd varg list) option" where
  "va_uint (AUInt u # as) = Some (u, as)"
| "va_uint (AInt i # as) = (if 0 \<le> i \<and> int_ok i then Some (of_int i, as) else None)"
| "va_uint _ = None"

fun va_long :: "'d varg list \<Rightarrow> (int \<times> 'd varg list) option" where
  "va_long (ALong i # as) = (if width_ok 64 i then Some (i, as) else None)"
| "va_long (AULong u # as) = (if uint u < 2 ^ 63 then Some (uint u, as) else None)"
| "va_long _ = None"

fun va_ulong :: "'d varg list \<Rightarrow> (u64 \<times> 'd varg list) option" where
  "va_ulong (AULong u # as) = Some (u, as)"
| "va_ulong (ALong i # as) = (if 0 \<le> i \<and> width_ok 64 i then Some (of_int i, as) else None)"
| "va_ulong _ = None"

fun va_str :: "'d varg list \<Rightarrow> (ptr option \<times> 'd varg list) option" where
  "va_str (AStr p # as) = Some (p, as)"
| "va_str _ = None"

fun va_ptr :: "'d varg list \<Rightarrow> (u64 \<times> 'd varg list) option" where
  "va_ptr (APtr a # as) = Some (a, as)"
| "va_ptr _ = None"

fun va_double :: "'d varg list \<Rightarrow> ('d \<times> 'd varg list) option" where
  "va_double (ADouble x # as) = Some (x, as)"
| "va_double _ = None"

section \<open>Digits\<close>

text \<open>
  The digit loops fill a local array, least significant digit first; \<open>dec_rev\<close> of the string library is the decimal one.
\<close>

definition hex_digit :: "bool \<Rightarrow> u64 \<Rightarrow> u8" where
  "hex_digit upper d = (if d < 10 then 48 + ucast d else (if upper then 65 else 97) + ucast (d - 10))"

function hex_rev :: "bool \<Rightarrow> u64 \<Rightarrow> bytes" where
  "hex_rev upper v = hex_digit upper (v AND 0xF) # (if drop_bit 4 v > 0 then hex_rev upper (drop_bit 4 v) else [])"
  by pat_completeness auto
termination
proof (relation "measure (\<lambda>(u, v). unat v)")
  fix v :: u64
  assume "0 < drop_bit 4 v"
  then have "0 < unat v div 16" by (simp add: word_less_nat_alt drop_bit_eq_div unat_div)
  then show "((u, drop_bit 4 v), u, v) \<in> measure (\<lambda>(u, v). unat v)" for u :: bool
    by (simp add: drop_bit_eq_div unat_div)
qed simp

function bin_rev :: "u64 \<Rightarrow> bytes" where
  "bin_rev v = (if v > 0 then (if bit v 0 then 49 else 48) # bin_rev (drop_bit 1 v) else [])"
  by pat_completeness auto
termination
proof (relation "measure unat")
  fix v :: u64
  assume "0 < v"
  then show "(drop_bit 1 v, v) \<in> measure unat"
    by (simp add: word_less_nat_alt drop_bit_eq_div unat_div)
qed simp

declare hex_rev.simps [simp del] bin_rev.simps [simp del]

section \<open>Printing on the terminal\<close>

definition print_udec :: "u64 \<Rightarrow> bytes" where
  "print_udec v = (if v = 0 then [48] else rev (dec_rev (uint v)))"

definition print_dec :: "int \<Rightarrow> bytes option" where
  "print_dec v = (if v < 0 then (if width_ok 64 (- v) then Some (45 # print_udec (of_int (- v))) else None)
     else Some (print_udec (of_int v)))"

fun frac_digits :: "'d fp_ops \<Rightarrow> nat \<Rightarrow> 'd \<Rightarrow> bytes" where
  "frac_digits fp 0 f = []"
| "frac_digits fp (Suc n) f = (let f = fp_times10 fp f; digit = fp_to_int fp f
     in of_int (48 + digit) # frac_digits fp n (fp_minus fp f (fp_of_int fp digit)))"

definition print_float :: "'d fp_ops \<Rightarrow> 'd \<Rightarrow> nat \<Rightarrow> bytes option" where
  "print_float fp num precision =
     (let sign = (if fp_negative fp num then [45] else []);
          num = (if fp_negative fp num then fp_uminus fp num else num);
          int_part = fp_to_u64 fp num;
          frac_part = fp_minus fp num (fp_of_u64 fp int_part)
      in do { ip \<leftarrow> print_dec (sint int_part);
              Some (sign @ ip @ [46] @ frac_digits fp precision frac_part) })"

fun bin_loop :: "nat \<Rightarrow> bool \<Rightarrow> u64 \<Rightarrow> bytes" where
  "bin_loop 0 started v = []"
| "bin_loop (Suc i) started v = (let started = (started \<or> bit v i)
     in (if started then [if bit v i then 49 else 48] else []) @ bin_loop i started v)"

definition print_bin :: "u64 \<Rightarrow> bytes" where
  "print_bin v = (if v = 0 then [48] else bin_loop 64 False v)"

text \<open>The loop of \<open>print_hex\<close> runs over the nibbles \<open>n - 1\<close> to 0 with the flag \<open>leading_zero\<close>.\<close>

fun hex_loop :: "nat \<Rightarrow> bool \<Rightarrow> u64 \<Rightarrow> bytes" where
  "hex_loop 0 leading_zero v = []"
| "hex_loop (Suc i) leading_zero v =
     (let digit = hex_digit True (drop_bit (4 * i) v AND 0xF)
      in if digit \<noteq> 48 \<or> \<not> leading_zero \<or> i = 0 then digit # hex_loop i False v else hex_loop i leading_zero v)"

definition print_hex :: "u64 \<Rightarrow> bytes" where
  "print_hex v = [48, 120] @ hex_loop 16 True v"

text \<open>\<open>print_hex_padded\<close> pads inside an array of 32 bytes.\<close>

definition print_hex_padded :: "u64 \<Rightarrow> int \<Rightarrow> bool \<Rightarrow> bytes option" where
  "print_hex_padded v width upper =
     (let buf = hex_rev upper v
      in if int (length buf) < width \<and> width > 32 then None
         else Some (rev (buf @ replicate (nat width - length buf) 48)))"

function str_text :: "ptr \<Rightarrow> cmem \<Rightarrow> bytes option" where
  "str_text p m = do { b \<leftarrow> ld m p; if b = 0 then Some [] else map_option ((#) b) (str_text (padd p 1) m) }"
  by pat_completeness auto
termination
  by (relation "measure (\<lambda>(p, m). osize m p - snd p)") (auto dest!: ld_SomeD)

declare str_text.simps [simp del]

definition puts :: "ptr option \<Rightarrow> cmem \<Rightarrow> bytes option" where
  "puts s m = (case s of None \<Rightarrow> Some (map of_char ''(null)'') | Some p \<Rightarrow> str_text p m)"

section \<open>vprintf\<close>

fun width_loop :: "int \<Rightarrow> bytes \<Rightarrow> (int \<times> bytes) option" where
  "width_loop w [] = None"
| "width_loop w (c # cs) = (if 48 \<le> sint c \<and> sint c \<le> 57
     then (if int_ok (w * 10) \<and> int_ok (w * 10 + (sint c - 48)) then width_loop (w * 10 + (sint c - 48)) cs else None)
     else Some (w, c # cs))"

lemma width_loop_length: "width_loop w cs = Some (w', ds) \<Longrightarrow> length ds \<le> length cs"
  by (induction w cs rule: width_loop.induct) (fastforce split: if_splits)+

text \<open>One conversion of \<open>vprintf\<close> after flag and width, without the \<open>l\<close> forms.\<close>

definition print_conv :: "'d fp_ops \<Rightarrow> bool \<Rightarrow> int \<Rightarrow> u8 \<Rightarrow> 'd varg list \<Rightarrow> cmem \<Rightarrow> (bytes \<times> 'd varg list) option" where
  "print_conv fp zero_pad width c args m =
     (if c = of_char (CHR ''d'') then do { (v, as) \<leftarrow> va_int args; t \<leftarrow> print_dec v; Some (t, as) }
      else if c = of_char (CHR ''u'') then do { (v, as) \<leftarrow> va_uint args; Some (print_udec (ucast v), as) }
      else if c = of_char (CHR ''x'') \<or> c = of_char (CHR ''X'') then do {
        (v, as) \<leftarrow> va_uint args;
        t \<leftarrow> (if width > 0 \<and> zero_pad then print_hex_padded (ucast v) width (c = of_char (CHR ''X''))
             else Some (print_hex (ucast v)));
        Some (t, as) }
      else if c = of_char (CHR ''b'') then do { (v, as) \<leftarrow> va_uint args; Some (print_bin (ucast v), as) }
      else if c = of_char (CHR ''c'') then do { (v, as) \<leftarrow> va_int args; Some ([of_int v], as) }
      else if c = of_char (CHR ''s'') then do { (s, as) \<leftarrow> va_str args; p \<leftarrow> s; t \<leftarrow> str_text p m; Some (t, as) }
      else if c = of_char (CHR ''f'') then do { (x, as) \<leftarrow> va_double args; t \<leftarrow> print_float fp x 6; Some (t, as) }
      else if c = of_char (CHR ''p'') then do { (a, as) \<leftarrow> va_ptr args; Some (print_hex a, as) }
      else Some ([37, c], args))"

text \<open>The conversions that begin with \<open>l\<close>; the second component is the rest of the format.\<close>

definition print_long :: "bytes \<Rightarrow> 'd varg list \<Rightarrow> (bytes \<times> bytes \<times> 'd varg list) option" where
  "print_long cs args =
     (case cs of [] \<Rightarrow> None
      | c # cs \<Rightarrow>
        if c = of_char (CHR ''d'') then do { (v, as) \<leftarrow> va_long args; t \<leftarrow> print_dec v; Some (t, cs, as) }
        else if c = of_char (CHR ''u'') then do { (v, as) \<leftarrow> va_ulong args; Some (print_udec v, cs, as) }
        else if c = of_char (CHR ''l'') then (case cs of [] \<Rightarrow> None
          | e # es \<Rightarrow>
            if e = of_char (CHR ''d'') then do { (v, as) \<leftarrow> va_long args; t \<leftarrow> print_dec v; Some (t, es, as) }
            else if e = of_char (CHR ''u'') then do { (v, as) \<leftarrow> va_ulong args; Some (print_udec v, es, as) }
            else Some ([37, 108, 108, e], es, args))
        else Some ([37, 108, c], cs, args))"

lemma print_long_length: "print_long cs args = Some (t, ds, as) \<Longrightarrow> length ds < length cs"
  by (auto simp: print_long_def bind_eq_Some_conv split: list.splits if_splits)

text \<open>What follows the percent sign: the zero flag, the width, then one conversion.\<close>

definition print_spec :: "'d fp_ops \<Rightarrow> bytes \<Rightarrow> 'd varg list \<Rightarrow> cmem \<Rightarrow> (bytes \<times> bytes \<times> 'd varg list) option" where
  "print_spec fp cs args m =
     (case cs of [] \<Rightarrow> None
      | c # cs' \<Rightarrow> do {
          let zero_pad = (c = 48);
          (width, ds) \<leftarrow> width_loop 0 (if zero_pad then cs' else cs);
          case ds of [] \<Rightarrow> None
          | d # ds \<Rightarrow>
            if d = 37 then Some ([37], ds, args)
            else if d = of_char (CHR ''l'') then print_long ds args
            else do { (t, as) \<leftarrow> print_conv fp zero_pad width d args m; Some (t, ds, as) } })"

lemma print_spec_length:
  assumes "print_spec fp cs args m = Some (t, ds, as)"
  shows "length ds < length cs"
proof -
  obtain c cs' where cs: "cs = c # cs'" using assms by (cases cs) (simp_all add: print_spec_def)
  obtain w es where w: "width_loop 0 (if c = 48 then cs' else c # cs') = Some (w, es)"
    using assms by (auto simp: print_spec_def cs bind_eq_Some_conv Let_def)
  have "length es \<le> length cs" using width_loop_length [OF w] by (auto simp: cs split: if_splits)
  moreover have "length ds < length es"
    using assms w by (auto simp: print_spec_def cs bind_eq_Some_conv Let_def dest!: print_long_length split: list.splits if_splits)
  ultimately show ?thesis by simp
qed

function vprintf :: "'d fp_ops \<Rightarrow> bytes \<Rightarrow> 'd varg list \<Rightarrow> cmem \<Rightarrow> bytes option" where
  "vprintf fp fmt args m =
     (case fmt of [] \<Rightarrow> None
      | c # cs \<Rightarrow>
        if c = 0 then Some []
        else if c = 37 then do {
          (t, ds, as) \<leftarrow> print_spec fp cs args m;
          map_option ((@) t) (vprintf fp ds as m) }
        else map_option ((#) c) (vprintf fp cs args m))"
  by pat_completeness auto
termination
  by (relation "measure (\<lambda>(fp, fmt, args, m). length fmt)") (auto dest!: print_spec_length)

declare vprintf.simps [simp del]

section \<open>Formatting into memory\<close>

text \<open>
  \<open>vsprintf\<close> and \<open>vsnprintf\<close> recognise conversions in the same way: an ordinary character, one of the 64-bit conversions
  \<open>%ld\<close>, \<open>%lu\<close>, \<open>%lld\<close>, \<open>%llu\<close>, another combination with \<open>l\<close> (which writes nothing), or a single character after the percent
  sign. \<open>scan_spec\<close> returns it with the rest of the format.
\<close>

datatype conv = Literal u8 | LongDec | LongUDec | LongOther | Conv u8

fun scan_spec :: "bytes \<Rightarrow> (conv \<times> bytes) option" where
  "scan_spec [] = None"
| "scan_spec (c # cs) =
     (if c \<noteq> 37 then Some (Literal c, cs)
      else case cs of [] \<Rightarrow> None
      | d # ds \<Rightarrow>
        if d = of_char (CHR ''l'') then (case ds of [] \<Rightarrow> None
          | e # es \<Rightarrow>
            if e = of_char (CHR ''d'') then Some (LongDec, es)
            else if e = of_char (CHR ''u'') then Some (LongUDec, es)
            else if e = of_char (CHR ''l'') then (case es of [] \<Rightarrow> None
              | f # fs \<Rightarrow> Some (if f = of_char (CHR ''d'') then LongDec
                  else if f = of_char (CHR ''u'') then LongUDec else LongOther, fs))
            else Some (LongOther, es))
        else Some (Conv d, ds))"

lemma scan_spec_length: "scan_spec cs = Some (k, ds) \<Longrightarrow> length ds < length cs"
  by (cases cs) (auto split: list.splits if_splits)

definition sput :: "u8 \<Rightarrow> ptr \<Rightarrow> cmem \<Rightarrow> (ptr \<times> cmem) option" where
  "sput c out m = do { m \<leftarrow> st m out c; Some (padd out 1, m) }"

fun sputs :: "bytes \<Rightarrow> ptr \<Rightarrow> cmem \<Rightarrow> (ptr \<times> cmem) option" where
  "sputs [] out m = Some (out, m)"
| "sputs (c # cs) out m = do { (out, m) \<leftarrow> sput c out m; sputs cs out m }"

text \<open>The signed conversions negate in the width of the argument.\<close>

definition sdec :: "nat \<Rightarrow> int \<Rightarrow> ptr \<Rightarrow> cmem \<Rightarrow> (ptr \<times> cmem) option" where
  "sdec w v out m = (if v < 0
     then do { (out, m) \<leftarrow> sput 45 out m; if width_ok w (- v) then sputs (rev (dec_rev (- v))) out m else None }
     else sputs (rev (dec_rev v)) out m)"

function sprint_str :: "ptr \<Rightarrow> ptr \<Rightarrow> cmem \<Rightarrow> (ptr \<times> cmem) option" where
  "sprint_str buffer s m = do { b \<leftarrow> ld m s;
     if b \<noteq> 0 then do { m \<leftarrow> st m buffer b; sprint_str (padd buffer 1) (padd s 1) m } else Some (buffer, m) }"
  by pat_completeness auto
termination
  by (relation "measure (\<lambda>(b, s, m). osize m s - snd s)") (auto dest!: ld_SomeD st_SomeD)

declare sprint_str.simps [simp del]

definition float_text :: "'d fp_ops \<Rightarrow> 'd \<Rightarrow> bytes" where
  "float_text fp num =
     (let sign = (if fp_negative fp num then [45] else []);
          num = (if fp_negative fp num then fp_uminus fp num else num);
          int_part = fp_to_u64 fp num;
          frac_part = fp_minus fp num (fp_of_u64 fp int_part)
      in sign @ rev (dec_rev (uint int_part)) @ [46] @ frac_digits fp 6 frac_part)"

definition sconv :: "'d fp_ops \<Rightarrow> conv \<Rightarrow> 'd varg list \<Rightarrow> ptr \<Rightarrow> cmem \<Rightarrow> ('d varg list \<times> ptr \<times> cmem) option" where
  "sconv fp k args out m = (case k of
       Literal c \<Rightarrow> map_option (Pair args) (sput c out m)
     | LongDec \<Rightarrow> do { (v, as) \<leftarrow> va_long args; map_option (Pair as) (sdec 64 v out m) }
     | LongUDec \<Rightarrow> do { (v, as) \<leftarrow> va_ulong args; map_option (Pair as) (sputs (rev (dec_rev (uint v))) out m) }
     | LongOther \<Rightarrow> Some (args, out, m)
     | Conv c \<Rightarrow>
        if c = of_char (CHR ''d'') then do { (v, as) \<leftarrow> va_int args; map_option (Pair as) (sdec 32 v out m) }
        else if c = of_char (CHR ''u'') then do { (v, as) \<leftarrow> va_uint args; map_option (Pair as) (sputs (rev (dec_rev (uint v))) out m) }
        else if c = of_char (CHR ''c'') then do { (v, as) \<leftarrow> va_int args; map_option (Pair as) (sput (of_int v) out m) }
        else if c = of_char (CHR ''s'') then do { (s, as) \<leftarrow> va_str args; p \<leftarrow> s; map_option (Pair as) (sprint_str out p m) }
        else if c = of_char (CHR ''f'') then do { (x, as) \<leftarrow> va_double args; map_option (Pair as) (sputs (float_text fp x) out m) }
        else if c = of_char (CHR ''p'') then do { (a, as) \<leftarrow> va_ptr args; map_option (Pair as) (sputs (rev (hex_rev False a)) out m) }
        else if c = of_char (CHR ''x'') then do { (v, as) \<leftarrow> va_uint args; map_option (Pair as) (sputs (rev (hex_rev False (ucast v))) out m) }
        else if c = of_char (CHR ''X'') then do { (v, as) \<leftarrow> va_uint args; map_option (Pair as) (sputs (rev (hex_rev True (ucast v))) out m) }
        else if c = of_char (CHR ''b'') then do { (v, as) \<leftarrow> va_uint args;
          map_option (Pair as) (sputs (if v = 0 then [48] else rev (bin_rev (ucast v))) out m) }
        else map_option (Pair args) (sputs [37, c] out m))"

function vsprintf_loop :: "'d fp_ops \<Rightarrow> bytes \<Rightarrow> 'd varg list \<Rightarrow> ptr \<Rightarrow> cmem \<Rightarrow> cmem option" where
  "vsprintf_loop fp fmt args out m =
     (case fmt of [] \<Rightarrow> None
      | c # _ \<Rightarrow> if c = 0 then st m out 0
        else do { (k, rest) \<leftarrow> scan_spec fmt; (args, out, m) \<leftarrow> sconv fp k args out m; vsprintf_loop fp rest args out m })"
  by pat_completeness auto
termination
  by (relation "measure (\<lambda>(fp, fmt, _). length fmt)") (auto dest!: scan_spec_length simp del: scan_spec.simps)

declare vsprintf_loop.simps [simp del]

definition vsprintf :: "'d fp_ops \<Rightarrow> ptr \<Rightarrow> bytes \<Rightarrow> 'd varg list \<Rightarrow> cmem \<Rightarrow> cmem option" where
  "vsprintf fp buf fmt args m = vsprintf_loop fp fmt args buf m"

definition sprintf :: "'d fp_ops \<Rightarrow> ptr \<Rightarrow> bytes \<Rightarrow> 'd varg list \<Rightarrow> cmem \<Rightarrow> cmem option" where
  "sprintf fp buf fmt args m = vsprintf fp buf fmt args m"

text \<open>
  \<open>vsnprintf\<close> keeps the space that remains and the length of the whole text, an \<open>int\<close>. Its state while it runs is the
  output pointer, \<open>remaining\<close>, \<open>total\<close> and the memory.
\<close>

type_synonym sn_state = "ptr \<times> nat \<times> nat \<times> cmem"

definition sprint_char_limit :: "u8 \<Rightarrow> sn_state \<Rightarrow> sn_state option" where
  "sprint_char_limit c s = (case s of (out, remaining, tot, m) \<Rightarrow>
     if remaining > 1 then do { m \<leftarrow> st m out c; Some (padd out 1, remaining - 1, tot, m) } else Some s)"

fun slputs :: "bytes \<Rightarrow> sn_state \<Rightarrow> sn_state option" where
  "slputs [] s = Some s"
| "slputs (c # cs) s = do { s \<leftarrow> sprint_char_limit c s; slputs cs s }"

definition count :: "nat \<Rightarrow> sn_state \<Rightarrow> sn_state option" where
  "count n s = (case s of (out, remaining, tot, m) \<Rightarrow>
     if int_ok (int (tot + n)) then Some (out, remaining, tot + n, m) else None)"

definition sldec :: "nat \<Rightarrow> int \<Rightarrow> sn_state \<Rightarrow> sn_state option" where
  "sldec w v s = (if v < 0
     then do { s \<leftarrow> count 1 s; s \<leftarrow> sprint_char_limit 45 s;
               if width_ok w (- v) then do { s \<leftarrow> count (length (dec_rev (- v))) s; slputs (rev (dec_rev (- v))) s } else None }
     else do { s \<leftarrow> count (length (dec_rev v)) s; slputs (rev (dec_rev v)) s })"

function sprint_str_limit :: "ptr \<Rightarrow> ptr \<Rightarrow> nat \<Rightarrow> cmem \<Rightarrow> (ptr \<times> nat \<times> cmem) option" where
  "sprint_str_limit buffer s remaining m = do { b \<leftarrow> ld m s;
     if b \<noteq> 0 \<and> remaining > 1
     then do { m \<leftarrow> st m buffer b; sprint_str_limit (padd buffer 1) (padd s 1) (remaining - 1) m }
     else Some (buffer, remaining, m) }"
  by pat_completeness auto
termination
  by (relation "measure (\<lambda>(b, s, r, m). r)") auto

declare sprint_str_limit.simps [simp del]

definition slstr :: "ptr option \<Rightarrow> sn_state \<Rightarrow> sn_state option" where
  "slstr s st0 = (case s of
       None \<Rightarrow> do { st0 \<leftarrow> count 6 st0; slputs (map of_char ''(null)'') st0 }
     | Some p \<Rightarrow> (case st0 of (out, remaining, tot, m) \<Rightarrow> do {
         t \<leftarrow> str_text p m;
         (out, remaining, tot, m) \<leftarrow> count (length t) st0;
         (out, remaining, m) \<leftarrow> sprint_str_limit out p remaining m;
         Some (out, remaining, tot, m) }))"

definition slconv :: "conv \<Rightarrow> 'd varg list \<Rightarrow> sn_state \<Rightarrow> ('d varg list \<times> sn_state) option" where
  "slconv k args s = (case k of
       Literal c \<Rightarrow> do { s \<leftarrow> count 1 s; map_option (Pair args) (sprint_char_limit c s) }
     | LongDec \<Rightarrow> do { (v, as) \<leftarrow> va_long args; map_option (Pair as) (sldec 64 v s) }
     | LongUDec \<Rightarrow> do { (v, as) \<leftarrow> va_ulong args; s \<leftarrow> count (length (dec_rev (uint v))) s;
         map_option (Pair as) (slputs (rev (dec_rev (uint v))) s) }
     | LongOther \<Rightarrow> Some (args, s)
     | Conv c \<Rightarrow>
        if c = of_char (CHR ''d'') then do { (v, as) \<leftarrow> va_int args; map_option (Pair as) (sldec 32 v s) }
        else if c = of_char (CHR ''u'') then do { (v, as) \<leftarrow> va_uint args; s \<leftarrow> count (length (dec_rev (uint v))) s;
          map_option (Pair as) (slputs (rev (dec_rev (uint v))) s) }
        else if c = of_char (CHR ''c'') then do { s \<leftarrow> count 1 s; (v, as) \<leftarrow> va_int args; map_option (Pair as) (sprint_char_limit (of_int v) s) }
        else if c = of_char (CHR ''s'') then do { (p, as) \<leftarrow> va_str args; map_option (Pair as) (slstr p s) }
        else do { s \<leftarrow> count 2 s; s \<leftarrow> sprint_char_limit 37 s; map_option (Pair args) (sprint_char_limit c s) })"

function vsnprintf_loop :: "bytes \<Rightarrow> 'd varg list \<Rightarrow> sn_state \<Rightarrow> sn_state option" where
  "vsnprintf_loop fmt args s =
     (case fmt of [] \<Rightarrow> None
      | c # _ \<Rightarrow> if c = 0 then Some s
        else do { (k, rest) \<leftarrow> scan_spec fmt; (args, s) \<leftarrow> slconv k args s; vsnprintf_loop rest args s })"
  by pat_completeness auto
termination
  by (relation "measure (\<lambda>(fmt, _). length fmt)") (auto dest!: scan_spec_length simp del: scan_spec.simps)

declare vsnprintf_loop.simps [simp del]

definition vsnprintf :: "ptr \<Rightarrow> nat \<Rightarrow> bytes \<Rightarrow> 'd varg list \<Rightarrow> cmem \<Rightarrow> (nat \<times> cmem) option" where
  "vsnprintf buf sz fmt args m = do {
     (out, remaining, tot, m) \<leftarrow> vsnprintf_loop fmt args (buf, sz, 0, m);
     m \<leftarrow> (if remaining > 0 then st m out 0 else if sz > 0 then st m (padd buf (sz - 1)) 0 else Some m);
     Some (tot, m) }"

definition snprintf :: "ptr \<Rightarrow> nat \<Rightarrow> bytes \<Rightarrow> 'd varg list \<Rightarrow> cmem \<Rightarrow> cmem option" where
  "snprintf buf sz fmt args m = map_option snd (vsnprintf buf sz fmt args m)"

section \<open>The text of a format\<close>

text \<open>
  The reference for both functions: the text of one conversion, in which memory is only read for the strings among the
  arguments, and the text of a whole format.
\<close>

definition dec_text :: "nat \<Rightarrow> int \<Rightarrow> bytes option" where
  "dec_text w v = (if v < 0 then (if width_ok w (- v) then Some (45 # rev (dec_rev (- v))) else None) else Some (rev (dec_rev v)))"

definition with_arg :: "('a \<times> 'd varg list) option \<Rightarrow> ('a \<Rightarrow> bytes option) \<Rightarrow> (bytes \<times> 'd varg list) option" where
  "with_arg va f = do { (v, as) \<leftarrow> va; t \<leftarrow> f v; Some (t, as) }"

definition sn_text :: "conv \<Rightarrow> 'd varg list \<Rightarrow> cmem \<Rightarrow> (bytes \<times> 'd varg list) option" where
  "sn_text k args m = (case k of
       Literal c \<Rightarrow> Some ([c], args)
     | LongDec \<Rightarrow> with_arg (va_long args) (dec_text 64)
     | LongUDec \<Rightarrow> with_arg (va_ulong args) (\<lambda>v. Some (rev (dec_rev (uint v))))
     | LongOther \<Rightarrow> Some ([], args)
     | Conv c \<Rightarrow>
        if c = of_char (CHR ''d'') then with_arg (va_int args) (dec_text 32)
        else if c = of_char (CHR ''u'') then with_arg (va_uint args) (\<lambda>v. Some (rev (dec_rev (uint v))))
        else if c = of_char (CHR ''c'') then with_arg (va_int args) (\<lambda>v. Some [of_int v])
        else if c = of_char (CHR ''s'') then with_arg (va_str args) (\<lambda>p. puts p m)
        else Some ([37, c], args))"

definition sp_text :: "'d fp_ops \<Rightarrow> conv \<Rightarrow> 'd varg list \<Rightarrow> cmem \<Rightarrow> (bytes \<times> 'd varg list) option" where
  "sp_text fp k args m = (case k of
       Conv c \<Rightarrow>
        if c = of_char (CHR ''s'') then with_arg (va_str args) (\<lambda>s. Option.bind s (\<lambda>p. str_text p m))
        else if c = of_char (CHR ''f'') then with_arg (va_double args) (\<lambda>x. Some (float_text fp x))
        else if c = of_char (CHR ''p'') then with_arg (va_ptr args) (\<lambda>a. Some (rev (hex_rev False a)))
        else if c = of_char (CHR ''x'') then with_arg (va_uint args) (\<lambda>v. Some (rev (hex_rev False (ucast v))))
        else if c = of_char (CHR ''X'') then with_arg (va_uint args) (\<lambda>v. Some (rev (hex_rev True (ucast v))))
        else if c = of_char (CHR ''b'') then with_arg (va_uint args) (\<lambda>v. Some (if v = 0 then [48] else rev (bin_rev (ucast v))))
        else sn_text k args m
     | _ \<Rightarrow> sn_text k args m)"

function fmt_text :: "(conv \<Rightarrow> 'd varg list \<Rightarrow> cmem \<Rightarrow> (bytes \<times> 'd varg list) option) \<Rightarrow> bytes \<Rightarrow> 'd varg list \<Rightarrow> cmem \<Rightarrow> bytes option" where
  "fmt_text tx fmt args m =
     (case fmt of [] \<Rightarrow> None
      | c # _ \<Rightarrow> if c = 0 then Some []
        else do { (k, rest) \<leftarrow> scan_spec fmt; (t, as) \<leftarrow> tx k args m; map_option ((@) t) (fmt_text tx rest as m) })"
  by pat_completeness auto
termination
  by (relation "measure (\<lambda>(tx, fmt, _). length fmt)") (auto dest!: scan_spec_length simp del: scan_spec.simps)

declare fmt_text.simps [simp del]

text \<open>The strings among the arguments lie in other objects than \<open>b\<close>.\<close>

definition strs_apart :: "nat \<Rightarrow> 'd varg list \<Rightarrow> bool" where
  "strs_apart b args \<longleftrightarrow> (\<forall>p. AStr (Some p) \<in> set args \<longrightarrow> fst p \<noteq> b)"

lemma va_suffix:
  "va_int args = Some (i, as) \<Longrightarrow> \<exists>a. args = a # as" "va_uint args = Some (u, as) \<Longrightarrow> \<exists>a. args = a # as"
  "va_long args = Some (i, as) \<Longrightarrow> \<exists>a. args = a # as" "va_ulong args = Some (v, as) \<Longrightarrow> \<exists>a. args = a # as"
  "va_str args = Some (p, as) \<Longrightarrow> args = AStr p # as" "va_ptr args = Some (v, as) \<Longrightarrow> \<exists>a. args = a # as"
  "va_double args = Some (x, as) \<Longrightarrow> \<exists>a. args = a # as"
  by (auto elim!: va_int.elims va_uint.elims va_long.elims va_ulong.elims va_str.elims va_ptr.elims va_double.elims split: if_splits)

lemma with_arg_Some: "with_arg va f = Some (t, as) \<longleftrightarrow> (\<exists>v. va = Some (v, as) \<and> f v = Some t)"
  by (auto simp: with_arg_def bind_eq_Some_conv)

lemma sn_text_args: "sn_text k args m = Some (t, as) \<Longrightarrow> set as \<subseteq> set args"
  by (auto simp: sn_text_def with_arg_Some dest!: va_suffix split: conv.splits if_splits)

lemma sp_text_args: "sp_text fp k args m = Some (t, as) \<Longrightarrow> set as \<subseteq> set args"
  by (auto simp: sp_text_def with_arg_Some dest!: va_suffix dest: sn_text_args split: conv.splits if_splits)

lemma str_text_cong: "m' (fst p) = m (fst p) \<Longrightarrow> str_text p m' = str_text p m"
proof (induction p m rule: str_text.induct)
  case (1 p m)
  have "ld m' p = ld m p" using 1(2) by (simp add: ld_def)
  then show ?case using 1 by (subst (1 2) str_text.simps) (auto intro!: bind_option_cong)
qed

lemma strs_apart_arg: "strs_apart b args \<Longrightarrow> va_str args = Some (Some p, as) \<Longrightarrow> fst p \<noteq> b"
  unfolding strs_apart_def by (drule va_suffix(5)) (metis list.set_intros(1))

lemma with_str_cong:
  assumes "strs_apart b args" "f None = g None" "\<And>p. fst p \<noteq> b \<Longrightarrow> f (Some p) = g (Some p)"
  shows "with_arg (va_str args) f = with_arg (va_str args) g"
proof (cases "va_str args")
  case (Some x)
  then show ?thesis using assms strs_apart_arg [OF assms(1)] by (cases x; cases "fst x") (auto simp: with_arg_def)
qed (simp add: with_arg_def)

lemma sn_text_cong:
  assumes "strs_apart b args" "\<And>k. k \<noteq> b \<Longrightarrow> m' k = m k"
  shows "sn_text k args m' = sn_text k args m"
proof -
  have "with_arg (va_str args) (\<lambda>p. puts p m') = with_arg (va_str args) (\<lambda>p. puts p m)"
    by (rule with_str_cong [OF assms(1)]) (auto simp: puts_def intro!: str_text_cong assms(2))
  then show ?thesis unfolding sn_text_def by (simp only:)
qed

lemma sp_text_cong:
  assumes "strs_apart b args" "\<And>k. k \<noteq> b \<Longrightarrow> m' k = m k"
  shows "sp_text fp k args m' = sp_text fp k args m"
proof -
  have "with_arg (va_str args) (\<lambda>s. Option.bind s (\<lambda>p. str_text p m')) = with_arg (va_str args) (\<lambda>s. Option.bind s (\<lambda>p. str_text p m))"
    by (rule with_str_cong [OF assms(1)]) (auto intro!: str_text_cong assms(2))
  moreover have "sn_text k args m' = sn_text k args m" by (rule sn_text_cong [OF assms])
  ultimately show ?thesis unfolding sp_text_def by (simp only:)
qed

text \<open>What holds of both text functions and is all the loops need.\<close>

definition text_fun :: "(conv \<Rightarrow> 'd varg list \<Rightarrow> cmem \<Rightarrow> (bytes \<times> 'd varg list) option) \<Rightarrow> bool" where
  "text_fun tx \<longleftrightarrow> (\<forall>k args m t as. tx k args m = Some (t, as) \<longrightarrow> set as \<subseteq> set args)
     \<and> (\<forall>k args m m' b. strs_apart b args \<longrightarrow> (\<forall>k. k \<noteq> b \<longrightarrow> m' k = m k) \<longrightarrow> tx k args m' = tx k args m)"

lemma text_funs: "text_fun sn_text" "text_fun (sp_text fp)"
  unfolding text_fun_def by (intro conjI allI impI; (erule sn_text_args sp_text_args | rule sn_text_cong sp_text_cong; blast))+

lemma fmt_text_cong:
  "text_fun tx \<Longrightarrow> strs_apart b args \<Longrightarrow> (\<And>k. k \<noteq> b \<Longrightarrow> m' k = m k) \<Longrightarrow> fmt_text tx fmt args m' = fmt_text tx fmt args m"
proof (induction tx fmt args m rule: fmt_text.induct)
  case (1 tx fmt args m)
  have tx': "strs_apart b args \<Longrightarrow> \<forall>k. k \<noteq> b \<longrightarrow> m' k = m k \<Longrightarrow> tx k args m' = tx k args m"
    "tx k args m = Some (t, as) \<Longrightarrow> set as \<subseteq> set args" for k args m m' b t as
    using 1(2) unfolding text_fun_def by blast+
  show ?case
  proof (cases "scan_spec fmt")
    case None
    then show ?thesis by (subst (1 2) fmt_text.simps) (simp split: list.split)
  next
    case (Some kr)
    obtain k rest where kr: "scan_spec fmt = Some (k, rest)" using Some by (cases kr) simp
    then obtain c cs where f: "fmt = c # cs" by (cases fmt) auto
    have t: "tx k args m' = tx k args m" using 1(3,4) tx'(1) by blast
    show ?thesis
    proof (cases "c = 0 \<or> tx k args m = None")
      case False
      then obtain t as where ta: "tx k args m = Some (t, as)" by auto
      have "strs_apart b as" using 1(3) tx'(2) [OF ta] unfolding strs_apart_def by blast
      then have "fmt_text tx rest as m' = fmt_text tx rest as m" using 1 f kr ta False by auto
      then show ?thesis using kr f ta t by (subst (1 2) fmt_text.simps) simp
    qed (use kr f t in \<open>subst (1 2) fmt_text.simps, auto\<close>)
  qed
qed

section \<open>The functions write the text\<close>

lemma put_bytes_other: "put_bytes m p d = Some m' \<Longrightarrow> k \<noteq> fst p \<Longrightarrow> m' k = m k"
  by (auto simp: put_bytes_def bind_eq_Some_conv split: if_splits)

lemma put_bytes_appendE:
  assumes "put_bytes m p (xs @ ys) = Some m'"
  obtains m1 where "put_bytes m p xs = Some m1" "put_bytes m1 (padd p (length xs)) ys = Some m'"
  using assms by (auto simp: put_bytes_append bind_eq_Some_conv)

lemma put_bytes_NilD: "put_bytes m p [] = Some m' \<Longrightarrow> m' = m"
  by (simp add: put_bytes_Nil split: if_splits)

lemma sputs_ok: "put_bytes m out cs = Some m' \<Longrightarrow> sputs cs out m = Some (padd out (length cs), m')"
proof (induction cs arbitrary: m out)
  case (Cons c cs)
  then obtain m1 where "st m out c = Some m1" "put_bytes m1 (padd out 1) cs = Some m'"
    by (auto simp: put_bytes_Cons bind_eq_Some_conv)
  then show ?case using Cons.IH by (simp add: sput_def)
qed (auto dest: put_bytes_NilD)

lemma bin_rev_0 [simp]: "bin_rev 0 = []"
  by (subst bin_rev.simps) simp

lemma sput_ok: "put_bytes m out [c] = Some m' \<Longrightarrow> sput c out m = Some (padd out 1, m')"
  by (simp add: put_bytes_single sput_def)

lemma sdec_ok: "dec_text w v = Some t \<Longrightarrow> put_bytes m out t = Some m' \<Longrightarrow> sdec w v out m = Some (padd out (length t), m')"
  by (auto simp: sdec_def dec_text_def sput_def put_bytes_Cons bind_eq_Some_conv sputs_ok split: if_splits)

lemma str_text_Some: "str_text p m = Some t \<longleftrightarrow> cstr m p t"
proof (induction t arbitrary: p)
  case Nil
  then show ?case by (subst str_text.simps) (auto simp: bind_eq_Some_conv split: if_splits)
next
  case (Cons c t)
  then show ?case by (subst str_text.simps) (auto simp: bind_eq_Some_conv split: if_splits)
qed

lemma sprint_str_ok:
  "cstr m s t \<Longrightarrow> fst s \<noteq> fst out \<Longrightarrow> put_bytes m out t = Some m' \<Longrightarrow> sprint_str out s m = Some (padd out (length t), m')"
proof (induction t arbitrary: out s m)
  case Nil
  then show ?case by (subst sprint_str.simps) (auto dest: put_bytes_NilD)
next
  case (Cons c t)
  then obtain m1 where m1: "st m out c = Some m1" "put_bytes m1 (padd out 1) t = Some m'"
    by (auto simp: put_bytes_Cons bind_eq_Some_conv)
  have "cstr m1 (padd s 1) t" using Cons.prems m1(1) cstr_st [OF m1(1), of "padd s 1" t] by (simp add: apart_def)
  then show ?case using Cons m1 by (subst sprint_str.simps) simp
qed

lemma sconv_ok:
  assumes "sp_text fp k args m = Some (t, as)" "strs_apart (fst out) args" "put_bytes m out t = Some m'"
  shows "sconv fp k args out m = Some (as, padd out (length t), m')"
proof (cases "\<exists>s. k = Conv (of_char CHR ''s'') \<and> va_str args = Some (s, as)")
  case True
  then obtain p where p: "va_str args = Some (Some p, as)" "cstr m p t" "k = Conv (of_char CHR ''s'')"
    using assms(1) by (auto simp: sp_text_def with_arg_Some bind_eq_Some_conv str_text_Some)
  then have "sprint_str out p m = Some (padd out (length t), m')"
    using sprint_str_ok [OF p(2) strs_apart_arg [OF assms(2) p(1)] assms(3)] by simp
  then show ?thesis using p by (simp add: sconv_def)
next
  case False
  then show ?thesis using assms(1,3)
    by (auto simp: sp_text_def sn_text_def sconv_def with_arg_Some sputs_ok sdec_ok sput_ok dest: put_bytes_NilD
        split: conv.splits if_splits simp del: split_paired_Ex sputs.simps)
qed

lemma vsprintf_loop_ok:
  "fmt_text (sp_text fp) fmt args m = Some t \<Longrightarrow> strs_apart (fst out) args \<Longrightarrow> put_bytes m out (t @ [0]) = Some m'
   \<Longrightarrow> vsprintf_loop fp fmt args out m = Some m'"
proof (induction fp fmt args out m arbitrary: t m' rule: vsprintf_loop.induct)
  case (1 fp fmt args out m)
  obtain c cs where f: "fmt = c # cs" using 1(2) by (subst (asm) fmt_text.simps) (cases fmt, auto)
  show ?case
  proof (cases "c = 0")
    case True
    then have "t = []" using 1(2) f by (subst (asm) fmt_text.simps) simp
    then show ?thesis using True 1(4) f by (subst vsprintf_loop.simps) (simp add: put_bytes_single)
  next
    case False
    then obtain k rest t1 as t2 where k: "scan_spec fmt = Some (k, rest)" "sp_text fp k args m = Some (t1, as)"
      "fmt_text (sp_text fp) rest as m = Some t2" "t = t1 @ t2"
      using 1(2) f by (subst (asm) fmt_text.simps) (auto simp: bind_eq_Some_conv simp del: scan_spec.simps)
    obtain m1 where m1: "put_bytes m out t1 = Some m1" "put_bytes m1 (padd out (length t1)) (t2 @ [0]) = Some m'"
      using 1(4) k(4) put_bytes_appendE [of m out t1 "t2 @ [0]" m'] by auto
    have a: "strs_apart (fst out) as" using sp_text_args [OF k(2)] 1(3) by (auto simp: strs_apart_def)
    have "fmt_text (sp_text fp) rest as m1 = Some t2"
      using fmt_text_cong [OF text_funs(2) a, of m1 m] put_bytes_other [OF m1(1)] k(3) by simp
    then have "vsprintf_loop fp rest as (padd out (length t1)) m1 = Some m'"
      using "1.IH" [OF f False k(1) refl, of "(as, padd out (length t1), m1)" as "(padd out (length t1), m1)"]
        sconv_ok [OF k(2) 1(3) m1(1)] a m1(2) by simp
    then show ?thesis using f False k(1) sconv_ok [OF k(2) 1(3) m1(1)]
      by (subst vsprintf_loop.simps) (simp del: scan_spec.simps)
  qed
qed

text \<open>
  The limited functions: from a state with \<open>r\<close> bytes left, of which one is kept for the terminator, a text \<open>t\<close> leaves the state
  \<open>after\<close>, provided the part of it that fits is stored.
\<close>

definition after :: "bytes \<Rightarrow> nat \<Rightarrow> sn_state \<Rightarrow> cmem \<Rightarrow> sn_state" where
  "after t n s m' = (case s of (out, r, tot, m) \<Rightarrow> (padd out (min (length t) (r - 1)), r - min (length t) (r - 1), tot + n, m'))"

lemma sprint_char_limit_ok:
  "0 < r \<Longrightarrow> put_bytes m out (take (r - 1) [c]) = Some m' \<Longrightarrow> sprint_char_limit c (out, r, tot, m) = Some (after [c] 0 (out, r, tot, m) m')"
  by (cases "r = 1") (auto simp: sprint_char_limit_def after_def put_bytes_single take_Cons' dest: put_bytes_NilD)

lemma take_room: "1 < r \<Longrightarrow> take (r - 1) (c # t) = c # take (r - 2) t"
  by (simp add: take_Cons' numeral_2_eq_2)

lemma slputs_ok:
  "0 < r \<Longrightarrow> put_bytes m out (take (r - 1) t) = Some m' \<Longrightarrow> slputs t (out, r, tot, m) = Some (after t 0 (out, r, tot, m) m')"
proof (induction t arbitrary: r m out)
  case Nil
  then show ?case by (auto simp: after_def dest: put_bytes_NilD)
next
  case (Cons c t)
  show ?case
  proof (cases "r = 1")
    case True
    then have "m' = m" using Cons.prems by (auto dest: put_bytes_NilD)
    moreover have "put_bytes m out [] = Some m" using Cons.prems True by (auto dest: put_bytes_NilD)
    ultimately show ?thesis using Cons.IH [of 1 m out] True by (simp add: sprint_char_limit_def after_def)
  next
    case False
    then have "take (r - 1) (c # t) = c # take (r - 2) t" using Cons.prems(1) by (intro take_room) simp
    then obtain m1 where m1: "st m out c = Some m1" "put_bytes m1 (padd out 1) (take (r - 2) t) = Some m'"
      using Cons.prems(2) by (auto simp: put_bytes_Cons bind_eq_Some_conv)
    have "slputs t (padd out 1, r - 1, tot, m1) = Some (after t 0 (padd out 1, r - 1, tot, m1) m')"
      using Cons.IH [of "r - 1" m1 "padd out 1"] m1(2) False Cons.prems(1) by (simp add: numeral_2_eq_2)
    moreover have "after t 0 (padd out 1, r - 1, tot, m1) m' = after (c # t) 0 (out, r, tot, m) m'"
      using False Cons.prems(1) by (auto simp: after_def min_def padd_def)
    ultimately show ?thesis using m1(1) False Cons.prems(1) by (simp add: sprint_char_limit_def)
  qed
qed

lemma count_ok: "int_ok (int (tot + n)) \<Longrightarrow> count n (out, r, tot, m) = Some (out, r, tot + n, m)"
  by (simp add: count_def)

lemma int_ok_le: "int_ok (int n) \<Longrightarrow> k \<le> n \<Longrightarrow> int_ok (int k)"
  by (auto simp: int_ok_def)

lemma sldec_ok:
  assumes "dec_text w v = Some t" "0 < r" "put_bytes m out (take (r - 1) t) = Some m'" "int_ok (int (tot + length t))"
  shows "sldec w v (out, r, tot, m) = Some (after t (length t) (out, r, tot, m) m')"
proof (cases "v < 0")
  case True
  then have t: "t = 45 # rev (dec_rev (- v))" "width_ok w (- v)" using assms(1) by (simp_all add: dec_text_def split: if_splits)
  have c: "count 1 (out, r, tot, m) = Some (out, r, tot + 1, m)" using int_ok_le [OF assms(4), of "tot + 1"] by (simp add: count_ok t)
  have p: "slputs t (out, r, tot + length t, m) = Some (after t 0 (out, r, tot + length t, m) m')" by (rule slputs_ok [OF assms(2,3)])
  obtain out1 r1 m1 where s1: "sprint_char_limit 45 (out, r, tot + 1, m) = Some (out1, r1, tot + 1, m1)"
      "sprint_char_limit 45 (out, r, tot + length t, m) = Some (out1, r1, tot + length t, m1)"
    using p unfolding t by (auto simp: sprint_char_limit_def bind_eq_Some_conv split: if_splits)
  have "count (length (dec_rev (- v))) (out1, r1, tot + 1, m1) = Some (out1, r1, tot + length t, m1)"
    using assms(4) by (simp add: count_def t ac_simps)
  then show ?thesis using c s1 p True t by (auto simp: sldec_def after_def)
next
  case False
  then have t: "t = rev (dec_rev v)" using assms(1) by (simp add: dec_text_def)
  have "slputs t (out, r, tot + length t, m) = Some (after t 0 (out, r, tot + length t, m) m')" by (rule slputs_ok [OF assms(2,3)])
  then show ?thesis using False assms(4) by (simp add: sldec_def t count_def after_def)
qed

lemma sprint_str_limit_ok:
  "cstr m s t \<Longrightarrow> fst s \<noteq> fst out \<Longrightarrow> 0 < r \<Longrightarrow> put_bytes m out (take (r - 1) t) = Some m'
   \<Longrightarrow> sprint_str_limit out s r m = Some (padd out (min (length t) (r - 1)), r - min (length t) (r - 1), m')"
proof (induction t arbitrary: out s m r)
  case Nil
  then show ?case by (subst sprint_str_limit.simps) (auto dest: put_bytes_NilD)
next
  case (Cons c t)
  show ?case
  proof (cases "r = 1")
    case True
    then show ?thesis using Cons.prems by (subst sprint_str_limit.simps) (auto dest: put_bytes_NilD)
  next
    case False
    then have "take (r - 1) (c # t) = c # take (r - 2) t" using Cons.prems(3) by (intro take_room) simp
    then obtain m1 where m1: "st m out c = Some m1" "put_bytes m1 (padd out 1) (take (r - 2) t) = Some m'"
      using Cons.prems(4) by (auto simp: put_bytes_Cons bind_eq_Some_conv)
    have "cstr m1 (padd s 1) t" using Cons.prems m1(1) cstr_st [OF m1(1), of "padd s 1" t] by (simp add: apart_def)
    then have "sprint_str_limit (padd out 1) (padd s 1) (r - 1) m1
        = Some (padd (padd out 1) (min (length t) (r - 1 - 1)), r - 1 - min (length t) (r - 1 - 1), m')"
      using Cons.prems False m1(2) by (intro Cons.IH) (auto simp: numeral_2_eq_2)
    moreover have "padd (padd out 1) (min (length t) (r - 1 - 1)) = padd out (min (length (c # t)) (r - 1))"
      "r - 1 - min (length t) (r - 1 - 1) = r - min (length (c # t)) (r - 1)"
      using Cons.prems(3) False by (auto simp: padd_def)
    ultimately show ?thesis using Cons.prems False m1(1) by (subst sprint_str_limit.simps) simp
  qed
qed

lemma slputs_two:
  "do { s \<leftarrow> sprint_char_limit c s; map_option f (sprint_char_limit d s) } = map_option f (slputs [c, d] s)"
  by (cases "sprint_char_limit c s"; cases "sprint_char_limit d (the (sprint_char_limit c s))") simp_all

lemma slstr_ok:
  assumes "puts p m = Some t" "\<forall>q. p = Some q \<longrightarrow> fst q \<noteq> fst out" "0 < r" "put_bytes m out (take (r - 1) t) = Some m'"
    "int_ok (int (tot + length t))"
  shows "slstr p (out, r, tot, m) = Some (after t (length t) (out, r, tot, m) m')"
proof (cases p)
  case None
  then have t: "t = map of_char ''(null)''" using assms(1) by (simp add: puts_def)
  have "slputs t (out, r, tot + 6, m) = Some (after t 0 (out, r, tot + 6, m) m')" by (rule slputs_ok [OF assms(3,4)])
  then show ?thesis using None assms(5) t by (simp add: slstr_def count_def after_def add.commute del: slputs.simps)
next
  case (Some q)
  then have "cstr m q t" using assms(1) by (simp add: puts_def str_text_Some)
  then show ?thesis using Some assms by (simp add: slstr_def puts_def count_def after_def sprint_str_limit_ok)
qed

lemma slconv_ok:
  assumes "sn_text k args m = Some (t, as)" "strs_apart (fst out) args" "0 < r" "put_bytes m out (take (r - 1) t) = Some m'"
    "int_ok (int (tot + length t))"
  shows "slconv k args (out, r, tot, m) = Some (as, after t (length t) (out, r, tot, m) m')"
proof -
  have p: "slputs t (out, r, tot + length t, m) = Some (after t (length t) (out, r, tot, m) m')"
    using slputs_ok [OF assms(3,4), of "tot + length t"] by (simp add: after_def)
  have c: "count (length t) (out, r, tot, m) = Some (out, r, tot + length t, m)" by (rule count_ok [OF assms(5)])
  note dec = sldec_ok [OF _ assms(3-5)]
  show ?thesis
  proof (cases k)
    case (Literal x)
    then show ?thesis using assms(1) p c by (cases "sprint_char_limit x (out, r, tot + 1, m)") (auto simp: sn_text_def slconv_def)
  next
    case LongOther
    then show ?thesis using assms(1,4) by (auto simp: sn_text_def slconv_def after_def dest: put_bytes_NilD)
  next
    case (Conv x)
    consider "x = of_char CHR ''d''" | "x = of_char CHR ''u''" | "x = of_char CHR ''c''" | "x = of_char CHR ''s''"
      | "x \<noteq> of_char CHR ''d''" "x \<noteq> of_char CHR ''u''" "x \<noteq> of_char CHR ''c''" "x \<noteq> of_char CHR ''s''" by blast
    then show ?thesis
    proof cases
      case 1
      then show ?thesis using Conv assms(1) dec by (auto simp: sn_text_def slconv_def with_arg_Some)
    next
      case 2
      then show ?thesis using Conv assms(1) p c by (auto simp: sn_text_def slconv_def with_arg_Some)
    next
      case 3
      then obtain v where v: "va_int args = Some (v, as)" "t = [of_int v]" using Conv assms(1) by (auto simp: sn_text_def with_arg_Some)
      then show ?thesis using 3 Conv p c by (cases "sprint_char_limit (of_int v) (out, r, tot + 1, m)") (auto simp: slconv_def)
    next
      case 4
      then obtain q where q: "va_str args = Some (q, as)" "puts q m = Some t" using Conv assms(1) by (auto simp: sn_text_def with_arg_Some)
      have "\<forall>y. q = Some y \<longrightarrow> fst y \<noteq> fst out" using strs_apart_arg [OF assms(2)] q(1) by blast
      then show ?thesis using 4 Conv q slstr_ok [OF q(2) _ assms(3-5)] by (simp add: slconv_def)
    next
      case 5
      then have t: "t = [37, x]" "as = args" using Conv assms(1) by (simp_all add: sn_text_def)
      have "slconv k args (out, r, tot, m) = do { s \<leftarrow> count 2 (out, r, tot, m); map_option (Pair args) (slputs [37, x] s) }"
        using 5 Conv by (simp add: slconv_def slputs_two)
      then show ?thesis using p c t by (simp add: numeral_2_eq_2 del: slputs.simps)
    qed
  qed (use assms(1) p c dec in \<open>auto simp: sn_text_def slconv_def with_arg_Some\<close>)
qed

lemma after_after:
  "0 < r \<Longrightarrow> after t2 (length t2) (after t1 (length t1) (out, r, tot, m) m1) m2 = after (t1 @ t2) (length (t1 @ t2)) (out, r, tot, m) m2"
  by (auto simp: after_def min_def padd_def)

lemma vsnprintf_loop_ok:
  "fmt_text sn_text fmt args m = Some t \<Longrightarrow> strs_apart (fst out) args \<Longrightarrow> 0 < r \<Longrightarrow> put_bytes m out (take (r - 1) t) = Some m'
   \<Longrightarrow> int_ok (int (tot + length t))
   \<Longrightarrow> vsnprintf_loop fmt args (out, r, tot, m) = Some (after t (length t) (out, r, tot, m) m')"
proof (induction "length fmt" arbitrary: fmt args out r tot m t m' rule: less_induct)
  case (less fmt args out r tot m t m')
  note prems = less.prems
  obtain c cs where f: "fmt = c # cs" using prems(1) by (subst (asm) fmt_text.simps) (cases fmt, auto)
  show ?case
  proof (cases "c = 0")
    case True
    then have "t = []" using prems(1) f by (subst (asm) fmt_text.simps) simp
    then show ?thesis using True prems(4) f by (subst vsnprintf_loop.simps) (auto simp: after_def dest: put_bytes_NilD)
  next
    case False
    then obtain k rest t1 as t2 where k: "scan_spec fmt = Some (k, rest)" "sn_text k args m = Some (t1, as)"
      "fmt_text sn_text rest as m = Some t2" "t = t1 @ t2"
      using prems(1) f by (subst (asm) fmt_text.simps) (auto simp: bind_eq_Some_conv simp del: scan_spec.simps)
    obtain m1 where m1: "put_bytes m out (take (r - 1) t1) = Some m1"
      "put_bytes m1 (padd out (length (take (r - 1) t1))) (take (r - 1 - length t1) t2) = Some m'"
      using prems(4) k(4) put_bytes_appendE [of m out "take (r - 1) t1" "take (r - 1 - length t1) t2" m'] by auto
    have a: "strs_apart (fst out) as" using sn_text_args [OF k(2)] prems(2) by (auto simp: strs_apart_def)
    have x: "fmt_text sn_text rest as m1 = Some t2"
      using fmt_text_cong [OF text_funs(1) a, of m1 m] put_bytes_other [OF m1(1)] k(3) by simp
    have c1: "slconv k args (out, r, tot, m) = Some (as, after t1 (length t1) (out, r, tot, m) m1)"
      using prems(3,5) k(4) int_ok_le [OF prems(5), of "tot + length t1"] by (intro slconv_ok [OF k(2) prems(2) _ m1(1)]) simp_all
    let ?n = "min (length t1) (r - 1)"
    have "vsnprintf_loop rest as (padd out ?n, r - ?n, tot + length t1, m1)
        = Some (after t2 (length t2) (padd out ?n, r - ?n, tot + length t1, m1) m')"
    proof (rule less.hyps [OF _ x])
      show "length rest < length fmt" by (rule scan_spec_length [OF k(1)])
      show "strs_apart (fst (padd out ?n)) as" using a by simp
      show "0 < r - ?n" using prems(3) by (auto simp: min_def)
      have "r - ?n - 1 = r - 1 - length t1" by (simp add: min_def)
      then show "put_bytes m1 (padd out ?n) (take (r - ?n - 1) t2) = Some m'" using m1(2) by simp
      show "int_ok (int (tot + length t1 + length t2))" using prems(5) k(4) by (simp add: add.assoc)
    qed
    moreover have "after t1 (length t1) (out, r, tot, m) m1 = (padd out ?n, r - ?n, tot + length t1, m1)" by (simp add: after_def)
    ultimately show ?thesis using f False k(1,4) c1 after_after [OF prems(3), of t2 t1 out tot m m1 m']
      by (subst vsnprintf_loop.simps) (simp del: scan_spec.simps)
  qed
qed

text \<open>Formats whose conversions both functions know.\<close>

function shared_format :: "bytes \<Rightarrow> bool" where
  "shared_format fmt = (case fmt of [] \<Rightarrow> True | c # _ \<Rightarrow> c = 0 \<or> (case scan_spec fmt of None \<Rightarrow> True
     | Some (k, rest) \<Rightarrow> k \<notin> Conv ` set (map of_char ''fpxXb'') \<and> shared_format rest))"
  by pat_completeness auto
termination
  by (relation "measure length") (auto dest!: scan_spec_length simp del: scan_spec.simps)

declare shared_format.simps [simp del]

lemma sn_text_sp_text:
  "sp_text fp k args m = Some r \<Longrightarrow> k \<notin> Conv ` set (map of_char ''fpxXb'') \<Longrightarrow> sn_text k args m = Some r"
  by (auto simp: sp_text_def sn_text_def with_arg_def puts_def bind_eq_Some_conv split: conv.splits if_splits)

lemma shared_text:
  "shared_format fmt \<Longrightarrow> fmt_text (sp_text fp) fmt args m = Some t \<Longrightarrow> fmt_text sn_text fmt args m = Some t"
proof (induction "length fmt" arbitrary: fmt args t rule: less_induct)
  case (less fmt args t)
  obtain c cs where f: "fmt = c # cs" using less.prems(2) by (subst (asm) fmt_text.simps) (cases fmt, auto)
  show ?case
  proof (cases "c = 0")
    case True
    then show ?thesis using less.prems(2) f by (subst (asm) fmt_text.simps, subst fmt_text.simps) simp
  next
    case False
    then obtain k rest t1 as t2 where k: "scan_spec fmt = Some (k, rest)" "sp_text fp k args m = Some (t1, as)"
      "fmt_text (sp_text fp) rest as m = Some t2" "t = t1 @ t2"
      using less.prems(2) f by (subst (asm) fmt_text.simps) (auto simp: bind_eq_Some_conv simp del: scan_spec.simps)
    have "k \<notin> Conv ` set (map of_char ''fpxXb'')" "shared_format rest"
      using less.prems(1) False f k(1) by (subst (asm) shared_format.simps, simp del: scan_spec.simps)+
    then have "sn_text k args m = Some (t1, as)" "fmt_text sn_text rest as m = Some t2"
      using sn_text_sp_text [OF k(2)] less.hyps [OF scan_spec_length [OF k(1)] _ k(3)] by auto
    then show ?thesis using False f k(1,4) by (subst fmt_text.simps) (simp del: scan_spec.simps)
  qed
qed

lemma vsprintf_ok:
  assumes "fmt_text (sp_text fp) fmt args m = Some t" "strs_apart (fst buf) args" "snd buf + length t < osize m buf"
  shows "\<exists>m'. vsprintf fp buf fmt args m = Some m' \<and> area m' buf (t @ [0]) \<and> only_changed buf (length t + 1) m m'"
proof -
  have "m (fst buf) \<noteq> None" using assms(3) by (auto simp: osize_def split: option.splits)
  then obtain m' where m': "put_bytes m buf (t @ [0]) = Some m'" using put_bytes_exists [of buf "t @ [0]" m] assms(3) by auto
  then show ?thesis using vsprintf_loop_ok [OF assms(1,2) m'] area_put_bytes [OF m'] put_bytes_only [OF m']
    by (simp add: vsprintf_def)
qed

lemma vsnprintf_ok:
  assumes t: "fmt_text sn_text fmt args m = Some t" and a: "strs_apart (fst buf) args"
    and r: "0 < sz" "snd buf + sz \<le> osize m buf" "length t < 2 ^ 31"
  shows "\<exists>m'. vsnprintf buf sz fmt args m = Some (length t, m') \<and> area m' buf (take (sz - 1) t @ [0]) \<and> only_changed buf sz m m'"
proof -
  have "m (fst buf) \<noteq> None" using r by (auto simp: osize_def split: option.splits)
  moreover have l: "length (take (sz - 1) t @ [0]) \<le> sz" using r(1) by simp
  ultimately obtain m' where m': "put_bytes m buf (take (sz - 1) t @ [0]) = Some m'"
    using put_bytes_exists [of buf "take (sz - 1) t @ [0]" m] r(2) by auto
  then obtain m1 where m1: "put_bytes m buf (take (sz - 1) t) = Some m1" "st m1 (padd buf (min (length t) (sz - 1))) 0 = Some m'"
    by (auto elim!: put_bytes_appendE simp: put_bytes_single)
  have "vsnprintf_loop fmt args (buf, sz, 0, m) = Some (after t (length t) (buf, sz, 0, m) m1)"
    using r(3) by (intro vsnprintf_loop_ok [OF t a r(1) m1(1)]) (simp add: int_ok_def)
  moreover have "0 < sz - min (length t) (sz - 1)" using r(1) by (auto simp: min_def)
  ultimately have "vsnprintf buf sz fmt args m = Some (length t, m')" using m1(2) by (simp add: vsnprintf_def after_def)
  then show ?thesis using area_put_bytes [OF m'] only_changed_mono [OF put_bytes_only [OF m'] l] by blast
qed

section \<open>Properties\<close>

text \<open>
  C25. For formats with the conversions that both functions know (\<open>shared_format\<close>: none of \<open>%x\<close>, \<open>%X\<close>, \<open>%p\<close>, \<open>%b\<close> and \<open>%f\<close>, which
  \<open>vsnprintf\<close> copies as text), \<open>vsnprintf\<close> with a buffer of \<open>sz\<close> bytes writes what \<open>vsprintf\<close> writes,
  cut to its first \<open>sz - 1\<close> bytes, always terminates it, changes nothing outside the \<open>sz\<close> bytes, and returns the length of the
  whole text, less than \<open>2 ^ 31\<close>; \<open>vsprintf\<close> writes the whole text and needs one byte more than it. The buffers do not hold the string arguments.
\<close>

theorem vsnprintf_truncates_vsprintf:
  assumes "fmt_text (sp_text fp) fmt args m = Some t" "shared_format fmt" "length t < 2 ^ 31"
    "strs_apart (fst big) args" "snd big + length t < osize m big"
    "strs_apart (fst buf) args" "0 < sz" "snd buf + sz \<le> osize m buf"
  shows "\<exists>m1 m2. vsprintf fp big fmt args m = Some m1 \<and> area m1 big (t @ [0]) \<and> only_changed big (length t + 1) m m1
    \<and> vsnprintf buf sz fmt args m = Some (length t, m2) \<and> area m2 buf (take (sz - 1) t @ [0]) \<and> only_changed buf sz m m2"
  using vsprintf_ok [OF assms(1,4,5)] vsnprintf_ok [OF shared_text [OF assms(2,1)] assms(6-8,3)] by blast

text \<open>A memory with a 40-byte buffer, an 8-byte buffer and the string \<open>KeblaOS\<close>.\<close>

definition sample_fp :: "unit fp_ops" where
  "sample_fp = \<lparr>fp_negative = (\<lambda>_. False), fp_uminus = (\<lambda>x. x), fp_to_u64 = (\<lambda>_. 0), fp_of_u64 = (\<lambda>_. ()),
     fp_minus = (\<lambda>_ _. ()), fp_times10 = (\<lambda>x. x), fp_to_int = (\<lambda>_. 0), fp_of_int = (\<lambda>_. ())\<rparr>"

definition sample_mem :: cmem where
  "sample_mem = [0 \<mapsto> replicate 40 9, 1 \<mapsto> replicate 8 9, 2 \<mapsto> map of_char ''KeblaOS'' @ [0]]"

lemma sample_text:
  "fmt_text (sp_text sample_fp) (map of_char ''%s pid=%d'' @ [0]) [AStr (Some (2, 0)), AInt (- 42)] sample_mem
     = Some (map of_char ''KeblaOS pid=-42'')"
  by code_simp

theorem vsnprintf_truncates_vsprintf_witness:
  "\<exists>m1 m2. vsprintf sample_fp (0, 0) (map of_char ''%s pid=%d'' @ [0]) [AStr (Some (2, 0)), AInt (- 42)] sample_mem = Some m1
    \<and> area m1 (0, 0) (map of_char ''KeblaOS pid=-42'' @ [0])
    \<and> vsnprintf (1, 0) 8 (map of_char ''%s pid=%d'' @ [0]) [AStr (Some (2, 0)), AInt (- 42) :: unit varg] sample_mem = Some (15, m2)
    \<and> area m2 (1, 0) (map of_char ''KeblaOS'' @ [0])"
proof -
  have "shared_format (map of_char ''%s pid=%d'' @ [0])" by code_simp
  moreover have "osize sample_mem (0, 0) = 40" "osize sample_mem (1, 0) = 8" by (simp_all add: osize_def sample_mem_def)
  ultimately show ?thesis
    using vsnprintf_truncates_vsprintf [OF sample_text, of "(0, 0)" "(1, 0)" 8] by (auto simp: strs_apart_def)
qed

section \<open>GUID strings\<close>

text \<open>
  \<open>guid_to_string\<close> of fs/fat32_fs/src/partition/guid.c: sixteen \<open>%x\<close> conversions, the first three groups in reverse.
\<close>

definition guid_format :: bytes where
  "guid_format = map of_char ''%x%x%x%x-%x%x-%x%x-%x%x-%x%x%x%x%x%x'' @ [0]"

definition guid_order :: "nat list" where
  "guid_order = [3, 2, 1, 0, 5, 4, 7, 6, 8, 9, 10, 11, 12, 13, 14, 15]"

definition guid_to_string :: "'d fp_ops \<Rightarrow> bytes \<Rightarrow> ptr \<Rightarrow> cmem \<Rightarrow> cmem option" where
  "guid_to_string fp guid out m = sprintf fp out guid_format (map (\<lambda>i. AInt (uint (guid ! i))) guid_order) m"

text \<open>Without a width the digits of a byte run together: two different GUIDs have the same string.\<close>

lemma guid_to_string_not_injective:
  assumes "snd out + 40 \<le> osize m out"
  shows "\<exists>g h t m1 m2. length g = 16 \<and> length h = 16 \<and> g \<noteq> h
    \<and> guid_to_string fp g out m = Some m1 \<and> guid_to_string fp h out m = Some m2 \<and> area m1 out (t @ [0]) \<and> area m2 out (t @ [0])"
proof -
  let ?g = "[0x23, 0x01, 1, 1, 1, 1, 1, 1, 1, 1, 1, 1, 1, 1, 1, 1] :: bytes"
  let ?h = "[0x03, 0x12, 1, 1, 1, 1, 1, 1, 1, 1, 1, 1, 1, 1, 1, 1] :: bytes"
  let ?a = "\<lambda>g. map (\<lambda>i. AInt (uint ((g :: bytes) ! i))) guid_order"
  define t :: bytes where "t = map of_char ''11123-11-11-11-111111''"
  have t: "fmt_text (sp_text fp) guid_format (?a ?g) m = Some t" "fmt_text (sp_text fp) guid_format (?a ?h) m = Some t"
    unfolding t_def by code_simp+
  have "strs_apart (fst out) (?a g)" for g by (auto simp: strs_apart_def)
  moreover have "snd out + length t < osize m out" using assms by (simp add: t_def)
  ultimately show ?thesis
    using vsprintf_ok [OF t(1), of out] vsprintf_ok [OF t(2), of out] unfolding guid_to_string_def sprintf_def
    by (intro exI [of _ ?g] exI [of _ ?h] exI [of _ t]) auto
qed

end
