(* ===== verification/Vga.thy ===== *)
theory Vga
  imports LibFormat
begin

text \<open>
  Drawing into the framebuffer: \<open>driver/vga/vga.c\<close>. The framebuffer is an array of 32-bit pixels at \<open>fb0_address\<close>, with its
  width and height in pixels and the distance of its rows in bytes (\<open>fb0_pitch\<close>), as the boot loader describes it. Coordinates are
  C \<open>int\<close>s. \<open>None\<close> is what C leaves undefined: an access outside the array or through a misaligned or null address, and a signed
  overflow.
\<close>

section \<open>Loops over integers\<close>

text \<open>\<open>for_rounds n i f\<close> is \<open>n\<close> rounds of a counting loop that starts at \<open>i\<close>; \<open>for_int a b f\<close> is \<open>for (i = a; i < b; i++)\<close>.\<close>

fun for_rounds :: "nat \<Rightarrow> int \<Rightarrow> (int \<Rightarrow> 's \<Rightarrow> 's option) \<Rightarrow> 's \<Rightarrow> 's option" where
  "for_rounds 0 i f s = Some s"
| "for_rounds (Suc n) i f s = do { s \<leftarrow> f i s; for_rounds n (i + 1) f s }"

definition for_int :: "int \<Rightarrow> int \<Rightarrow> (int \<Rightarrow> 's \<Rightarrow> 's option) \<Rightarrow> 's \<Rightarrow> 's option" where
  "for_int a b f s = for_rounds (nat (b - a)) a f s"

text \<open>The conversion of a 64-bit value to \<open>int\<close>.\<close>

definition c_int :: "u64 \<Rightarrow> int" where "c_int w = sint (ucast w :: u32)"

section \<open>Pixels\<close>

record screen =
  fb0_address :: "u32 list option"
  fb0_width :: u64
  fb0_height :: u64
  fb0_pitch :: u64

text \<open>The pixel at a byte offset from \<open>fb0_address\<close>, or at an index of the array.\<close>

definition poke :: "nat \<Rightarrow> u32 \<Rightarrow> ('a screen_scheme) \<Rightarrow> 'a screen_scheme option" where
  "poke i color s = (case fb0_address s of None \<Rightarrow> None
     | Some p \<Rightarrow> if i < length p then Some (s\<lparr>fb0_address := Some (p[i := color])\<rparr>) else None)"

definition peek :: "nat \<Rightarrow> ('a screen_scheme) \<Rightarrow> u32 option" where
  "peek i s = (case fb0_address s of None \<Rightarrow> None | Some p \<Rightarrow> if i < length p then Some (p ! i) else None)"

definition off_screen :: "int \<Rightarrow> int \<Rightarrow> ('a screen_scheme) \<Rightarrow> bool" where
  "off_screen x y s \<longleftrightarrow> x < 0 \<or> of_int x \<ge> fb0_width s \<or> y < 0 \<or> of_int y \<ge> fb0_height s"

definition pixel_index :: "int \<Rightarrow> int \<Rightarrow> ('a screen_scheme) \<Rightarrow> nat option" where
  "pixel_index x y s = (let a = of_int y * fb0_pitch s + of_int (x * 4)
     in if int_ok (x * 4) \<and> unat a mod 4 = 0 then Some (unat a div 4) else None)"

definition set_pixel :: "int \<Rightarrow> int \<Rightarrow> u32 \<Rightarrow> ('a screen_scheme) \<Rightarrow> 'a screen_scheme option" where
  "set_pixel x y color s =
     (if off_screen x y s then Some s else do { i \<leftarrow> pixel_index x y s; poke i color s })"

definition get_pixel :: "int \<Rightarrow> int \<Rightarrow> ('a screen_scheme) \<Rightarrow> u32 option" where
  "get_pixel x y s =
     (if off_screen x y s then Some 0 else do { i \<leftarrow> pixel_index x y s; peek i s })"

definition cls_color :: "u32 \<Rightarrow> ('a screen_scheme) \<Rightarrow> 'a screen_scheme option" where
  "cls_color color s = for_int 0 (uint (fb0_height s)) (\<lambda>y.
     for_int 0 (uint (fb0_width s)) (\<lambda>x. set_pixel (c_int (of_int x)) (c_int (of_int y)) color)) s"

text \<open>The arguments of a call are \<open>int\<close> expressions.\<close>

definition px :: "int \<Rightarrow> int \<Rightarrow> u32 \<Rightarrow> ('a screen_scheme) \<Rightarrow> 'a screen_scheme option" where
  "px x y color s = (if int_ok x \<and> int_ok y then set_pixel x y color s else None)"

section \<open>Lines\<close>

text \<open>\<open>draw_line\<close> ends when it meets its end point.\<close>

partial_function (option) line_loop ::
  "int \<Rightarrow> int \<Rightarrow> int \<Rightarrow> int \<Rightarrow> int \<Rightarrow> int \<Rightarrow> u32 \<Rightarrow> int \<Rightarrow> int \<Rightarrow> int \<Rightarrow> ('a screen_scheme) \<Rightarrow> 'a screen_scheme option" where
  "line_loop x2 y2 dx dy sx sy color x1 y1 err s = do {
     s \<leftarrow> set_pixel x1 y1 color s;
     if x1 = x2 \<and> y1 = y2 then Some s
     else if int_ok (2 * err) then do {
       let e2 = 2 * err;
       (err, x1) \<leftarrow> (if e2 > - dy
          then if int_ok (err - dy) \<and> int_ok (x1 + sx) then Some (err - dy, x1 + sx) else None
          else Some (err, x1));
       (err, y1) \<leftarrow> (if e2 < dx
          then if int_ok (err + dx) \<and> int_ok (y1 + sy) then Some (err + dx, y1 + sy) else None
          else Some (err, y1));
       line_loop x2 y2 dx dy sx sy color x1 y1 err s }
     else None }"

definition draw_line :: "int \<Rightarrow> int \<Rightarrow> int \<Rightarrow> int \<Rightarrow> u32 \<Rightarrow> ('a screen_scheme) \<Rightarrow> 'a screen_scheme option" where
  "draw_line x1 y1 x2 y2 color s = (if int_ok (x2 - x1) \<and> int_ok (y2 - y1) then do {
     dx \<leftarrow> abs_c (x2 - x1);
     dy \<leftarrow> abs_c (y2 - y1);
     let sx = (if x1 < x2 then 1 else - 1);
     let sy = (if y1 < y2 then 1 else - 1);
     let err = dx - dy;
     line_loop x2 y2 dx dy sx sy color x1 y1 err s } else None)"

text \<open>The straight lines index the array with the width as the length of a row and do not test their coordinates.\<close>

definition draw_vertical_line :: "int \<Rightarrow> int \<Rightarrow> int \<Rightarrow> u32 \<Rightarrow> ('a screen_scheme) \<Rightarrow> 'a screen_scheme option" where
  "draw_vertical_line x y len color s = (if int_ok (y + len)
     then for_int y (y + len) (\<lambda>i s. poke (unat (of_int i * fb0_width s + of_int x)) color s) s else None)"

definition draw_horizontal_line :: "int \<Rightarrow> int \<Rightarrow> int \<Rightarrow> u32 \<Rightarrow> ('a screen_scheme) \<Rightarrow> 'a screen_scheme option" where
  "draw_horizontal_line x y len color s = (if int_ok (x + len)
     then for_int x (x + len) (\<lambda>i s. poke (unat (of_int y * fb0_width s + of_int i)) color s) s else None)"

definition draw_rectangle :: "int \<Rightarrow> int \<Rightarrow> int \<Rightarrow> int \<Rightarrow> u32 \<Rightarrow> ('a screen_scheme) \<Rightarrow> 'a screen_scheme option" where
  "draw_rectangle x y width height color s = (if int_ok (y + height) \<and> int_ok (x + width) then do {
     s \<leftarrow> draw_horizontal_line x y width color s;
     s \<leftarrow> draw_horizontal_line x (y + height) width color s;
     s \<leftarrow> draw_vertical_line x y height color s;
     draw_vertical_line (x + width) y height color s } else None)"

definition draw_filled_rectangle :: "int \<Rightarrow> int \<Rightarrow> int \<Rightarrow> int \<Rightarrow> u32 \<Rightarrow> ('a screen_scheme) \<Rightarrow> 'a screen_scheme option" where
  "draw_filled_rectangle x y width height color s = (if int_ok (y + height) \<and> (height \<le> 0 \<or> int_ok (x + width))
     then for_int y (y + height) (\<lambda>i. for_int x (x + width) (\<lambda>j. set_pixel j i color)) s else None)"

definition draw_triangle :: "int \<Rightarrow> int \<Rightarrow> int \<Rightarrow> int \<Rightarrow> int \<Rightarrow> int \<Rightarrow> u32 \<Rightarrow> ('a screen_scheme) \<Rightarrow> 'a screen_scheme option" where
  "draw_triangle x1 y1 x2 y2 x3 y3 color s = do {
     s \<leftarrow> draw_line x1 y1 x2 y2 color s;
     s \<leftarrow> draw_line x2 y2 x3 y3 color s;
     draw_line x3 y3 x1 y1 color s }"

section \<open>Circles\<close>

definition circle_points :: "int \<Rightarrow> int \<Rightarrow> int \<Rightarrow> int \<Rightarrow> u32 \<Rightarrow> ('a screen_scheme) \<Rightarrow> 'a screen_scheme option" where
  "circle_points cx cy x y color s = do {
     s \<leftarrow> px (cx + x) (cy + y) color s;
     s \<leftarrow> px (cx - x) (cy + y) color s;
     s \<leftarrow> px (cx + x) (cy - y) color s;
     s \<leftarrow> px (cx - x) (cy - y) color s;
     s \<leftarrow> px (cx + y) (cy + x) color s;
     s \<leftarrow> px (cx - y) (cy + x) color s;
     s \<leftarrow> px (cx + y) (cy - x) color s;
     px (cx - y) (cy - x) color s }"

function circle_loop :: "int \<Rightarrow> int \<Rightarrow> u32 \<Rightarrow> int \<Rightarrow> int \<Rightarrow> int \<Rightarrow> ('a screen_scheme) \<Rightarrow> 'a screen_scheme option" where
  "circle_loop cx cy color x y decision s = (if x \<ge> y then do {
     s \<leftarrow> circle_points cx cy x y color s;
     let y = y + 1;
     if decision \<le> 0
     then if int_ok y \<and> int_ok (2 * y) \<and> int_ok (2 * y + 1) \<and> int_ok (decision + (2 * y + 1))
       then circle_loop cx cy color x y (decision + (2 * y + 1)) s else None
     else if int_ok y \<and> int_ok (2 * (y - (x - 1)) + 1) \<and> int_ok (decision + (2 * (y - (x - 1)) + 1))
       then circle_loop cx cy color (x - 1) y (decision + (2 * (y - (x - 1)) + 1)) s else None }
   else Some s)"
  by pat_completeness auto
termination
  by (relation "measure (\<lambda>(cx, cy, c, x, y, d, s). nat (x - y + 1))") auto

declare circle_loop.simps [simp del]

definition draw_circle :: "int \<Rightarrow> int \<Rightarrow> int \<Rightarrow> u32 \<Rightarrow> ('a screen_scheme) \<Rightarrow> 'a screen_scheme option" where
  "draw_circle cx cy radius color s = (if int_ok (1 - radius) then circle_loop cx cy color radius 0 (1 - radius) s else None)"

definition draw_filled_circle :: "int \<Rightarrow> int \<Rightarrow> int \<Rightarrow> u32 \<Rightarrow> ('a screen_scheme) \<Rightarrow> 'a screen_scheme option" where
  "draw_filled_circle cx cy radius color s = (if int_ok (- radius) \<and> int_ok (radius + 1)
     then for_int (- radius) (radius + 1) (\<lambda>y. for_int (- radius) (radius + 1) (\<lambda>x s.
       if int_ok (x * x + y * y) \<and> int_ok (radius * radius)
       then if x * x + y * y \<le> radius * radius then px (cx + x) (cy + y) color s else Some s
       else None)) s else None)"

section \<open>Areas\<close>

definition draw_gradient :: "u64 \<Rightarrow> u64 \<Rightarrow> ('a screen_scheme) \<Rightarrow> 'a screen_scheme option" where
  "draw_gradient start_color end_color s = for_int 0 (uint (fb0_height s)) (\<lambda>y s.
     let color = ucast (start_color + of_int y * ((end_color - start_color) div fb0_height s))
     in for_int 0 (uint (fb0_width s)) (\<lambda>x. set_pixel (c_int (of_int x)) (c_int (of_int y)) color) s) s"

text \<open>An image is an array of 64-bit colours; the lower half is used.\<close>

definition image_color :: "u64 list \<Rightarrow> int \<Rightarrow> u32 option" where
  "image_color img i = (if int_ok i \<and> 0 \<le> i \<and> nat i < length img then Some (ucast (img ! nat i)) else None)"

definition display_image :: "int \<Rightarrow> int \<Rightarrow> u64 list \<Rightarrow> int \<Rightarrow> int \<Rightarrow> ('a screen_scheme) \<Rightarrow> 'a screen_scheme option" where
  "display_image x y img w h s = for_int 0 h (\<lambda>i. for_int 0 w (\<lambda>j s. do {
     color \<leftarrow> image_color img (i * w + j);
     px (x + j) (y + i) color s })) s"

definition draw_image_with_transparency :: "int \<Rightarrow> int \<Rightarrow> u64 list \<Rightarrow> int \<Rightarrow> int \<Rightarrow> ('a screen_scheme) \<Rightarrow> 'a screen_scheme option" where
  "draw_image_with_transparency x y img w h s = for_int 0 h (\<lambda>row. for_int 0 w (\<lambda>col s. do {
     color \<leftarrow> image_color img (row * w + col);
     if color \<noteq> 0 then px (x + col) (y + row) color s else Some s })) s"

section \<open>What drawing does\<close>

text \<open>
  A framebuffer as the boot loader hands it over: rows of whole pixels that lie inside the array, and coordinates within \<open>int\<close>.
\<close>

definition row_pixels :: "('a screen_scheme) \<Rightarrow> nat" where
  "row_pixels s = unat (fb0_pitch s) div 4"

definition screen_ok :: "('a screen_scheme) \<Rightarrow> bool" where
  "screen_ok s \<longleftrightarrow> (case fb0_address s of None \<Rightarrow> False | Some p \<Rightarrow> row_pixels s * unat (fb0_height s) \<le> length p)
     \<and> unat (fb0_pitch s) mod 4 = 0 \<and> unat (fb0_width s) \<le> row_pixels s
     \<and> unat (fb0_width s) < 2 ^ 29 \<and> unat (fb0_height s) < 2 ^ 31 \<and> unat (fb0_pitch s) * unat (fb0_height s) < 2 ^ 64"

definition on_screen :: "int \<Rightarrow> int \<Rightarrow> ('a screen_scheme) \<Rightarrow> bool" where
  "on_screen x y s \<longleftrightarrow> 0 \<le> x \<and> x < uint (fb0_width s) \<and> 0 \<le> y \<and> y < uint (fb0_height s)"

definition pixel_at :: "('a screen_scheme) \<Rightarrow> int \<Rightarrow> int \<Rightarrow> u32" where
  "pixel_at s x y = the (fb0_address s) ! (nat y * row_pixels s + nat x)"

text \<open>Two screens that differ in nothing but the pixels.\<close>

definition same_geometry :: "('a screen_scheme) \<Rightarrow> 'a screen_scheme \<Rightarrow> bool" where
  "same_geometry s s' \<longleftrightarrow> (\<exists>p q. fb0_address s = Some p \<and> length q = length p \<and> s' = s\<lparr>fb0_address := Some q\<rparr>)"

lemma same_geometry_refl: "screen_ok s \<Longrightarrow> same_geometry s s"
  by (auto simp: same_geometry_def screen_ok_def split: option.splits intro!: screen.equality)

lemma same_geometry_trans [trans]: "same_geometry s s' \<Longrightarrow> same_geometry s' s'' \<Longrightarrow> same_geometry s s''"
  by (auto simp: same_geometry_def)

lemma same_geometryD:
  assumes "same_geometry s s'"
  shows "fb0_width s' = fb0_width s" "fb0_height s' = fb0_height s" "fb0_pitch s' = fb0_pitch s" "row_pixels s' = row_pixels s"
    "screen_ok s' \<longleftrightarrow> screen_ok s" "on_screen x y s' \<longleftrightarrow> on_screen x y s" "screen.more s' = screen.more s"
  using assms by (auto simp: same_geometry_def screen_ok_def row_pixels_def on_screen_def)

lemma of_int_ge_iff:
  fixes w :: u64
  assumes "0 \<le> x" "int_ok x"
  shows "of_int x \<ge> w \<longleftrightarrow> uint w \<le> x"
proof -
  have "x < 2 ^ 64" using assms by (simp add: int_ok_def)
  then show ?thesis using assms by (simp add: word_le_def uint_word_of_int_eq take_bit_int_eq_self)
qed

lemma unat_of_int_u64: "0 \<le> k \<Longrightarrow> k < 2 ^ 64 \<Longrightarrow> unat (of_int k :: u64) = nat k"
  by (subst nat_uint_eq [symmetric]) (simp add: uint_word_of_int_eq take_bit_int_eq_self)

lemma nat_less_unat: "0 \<le> x \<Longrightarrow> x < uint w \<Longrightarrow> nat x < unat w"
  by (metis nat_uint_eq nat_mono_iff order_le_less_trans)

lemma off_screen_iff: "int_ok x \<Longrightarrow> int_ok y \<Longrightarrow> off_screen x y s \<longleftrightarrow> \<not> on_screen x y s"
  by (cases "x < 0"; cases "y < 0") (auto simp: off_screen_def on_screen_def of_int_ge_iff)

lemma on_screen_nat:
  assumes "screen_ok s" "on_screen x y s"
  shows "nat x < row_pixels s" "nat y < unat (fb0_height s)" "nat x < unat (fb0_width s)" "int_ok (x * 4)" "int_ok x" "int_ok y"
    "nat y * row_pixels s + nat x < length (the (fb0_address s))"
proof -
  have w: "nat x < unat (fb0_width s)" and h: "nat y < unat (fb0_height s)"
    using assms(2) by (simp_all add: on_screen_def nat_less_unat)
  show "nat y < unat (fb0_height s)" "nat x < unat (fb0_width s)" using w h by simp_all
  show r: "nat x < row_pixels s" using assms(1) w by (simp add: screen_ok_def)
  have "nat x < 2 ^ 29" "nat y < 2 ^ 31" using assms(1) w h by (simp_all add: screen_ok_def)
  then have "x < 2 ^ 29" "y < 2 ^ 31" using assms(2) by (simp_all add: on_screen_def)
  then show "int_ok (x * 4)" "int_ok x" "int_ok y" using assms(2) by (simp_all add: int_ok_def on_screen_def)
  have "Suc (nat y) * row_pixels s \<le> unat (fb0_height s) * row_pixels s" using h by (intro mult_le_mono) simp_all
  then have "nat y * row_pixels s + nat x < row_pixels s * unat (fb0_height s)" using r by (simp add: algebra_simps)
  then show "nat y * row_pixels s + nat x < length (the (fb0_address s))"
    using assms(1) by (auto simp: screen_ok_def split: option.splits)
qed

lemma pixel_index_on_screen:
  assumes "screen_ok s" "on_screen x y s"
  shows "pixel_index x y s = Some (nat y * row_pixels s + nat x)"
proof -
  note n = on_screen_nat [OF assms]
  have p4: "unat (fb0_pitch s) = 4 * row_pixels s"
    using assms(1) by (auto simp: screen_ok_def row_pixels_def)
  have x: "unat (of_int (x * 4) :: u64) = 4 * nat x"
    using assms(2) n(4) by (subst unat_of_int_u64) (simp_all add: int_ok_def on_screen_def)
  have y: "unat (of_int y :: u64) = nat y"
    using assms(2) n(6) by (subst unat_of_int_u64) (simp_all add: int_ok_def on_screen_def)
  have "Suc (nat y) * unat (fb0_pitch s) \<le> unat (fb0_height s) * unat (fb0_pitch s)" using n(2) by (intro mult_le_mono) simp_all
  also have "\<dots> < 2 ^ 64" using assms(1) by (simp add: screen_ok_def mult.commute)
  finally have lt: "nat y * unat (fb0_pitch s) + unat (fb0_pitch s) < 2 ^ 64" by simp
  have "nat y * unat (fb0_pitch s) < 2 ^ 64" using lt by linarith
  then have "unat (of_int y * fb0_pitch s) = nat y * unat (fb0_pitch s)" using y by (simp add: unat_word_ariths)
  moreover have "nat y * unat (fb0_pitch s) + 4 * nat x < 2 ^ 64" using lt n(1) p4 by linarith
  ultimately have "unat (of_int y * fb0_pitch s + of_int (x * 4)) = 4 * (nat y * row_pixels s + nat x)"
    using x p4 by (subst unat_plus_u64) simp_all
  then show ?thesis using n(4) by (simp add: pixel_index_def Let_def del: of_int_mult)
qed

text \<open>The update of one pixel, if it is on the screen.\<close>

definition put_pixel :: "int \<Rightarrow> int \<Rightarrow> u32 \<Rightarrow> ('a screen_scheme) \<Rightarrow> 'a screen_scheme" where
  "put_pixel x y color s = (if on_screen x y s
     then s\<lparr>fb0_address := Some ((the (fb0_address s))[nat y * row_pixels s + nat x := color])\<rparr> else s)"

lemma screen_ok_address: "screen_ok s \<Longrightarrow> fb0_address s = Some (the (fb0_address s))"
  by (simp add: screen_ok_def split: option.splits)

lemma set_pixel_ok:
  assumes "screen_ok s" "int_ok x" "int_ok y"
  shows "set_pixel x y color s = Some (put_pixel x y color s)"
proof (cases "on_screen x y s")
  case True
  obtain p where p: "fb0_address s = Some p" using screen_ok_address [OF assms(1)] by blast
  show ?thesis
    using p True assms on_screen_nat(7) [OF assms(1) True] pixel_index_on_screen [OF assms(1) True]
    by (simp add: set_pixel_def off_screen_iff put_pixel_def poke_def)
qed (use assms in \<open>simp add: set_pixel_def off_screen_iff put_pixel_def\<close>)

lemma get_pixel_ok:
  assumes "screen_ok s" "on_screen x y s"
  shows "get_pixel x y s = Some (pixel_at s x y)"
  using on_screen_nat [OF assms] screen_ok_address [OF assms(1)] pixel_index_on_screen [OF assms] assms
  by (auto simp: get_pixel_def off_screen_iff pixel_at_def peek_def split: option.splits)

lemma put_pixel_geometry: "screen_ok s \<Longrightarrow> same_geometry s (put_pixel x y color s)"
  using screen_ok_address [of s]
  by (cases "on_screen x y s") (simp_all add: put_pixel_def same_geometry_refl, simp add: same_geometry_def, metis length_list_update)

lemma row_index_inj:
  "a < (n :: nat) \<Longrightarrow> b < n \<Longrightarrow> i * n + a = j * n + b \<longleftrightarrow> i = j \<and> a = b"
  by (metis add_left_imp_eq div_less div_mult_self3 add.right_neutral add.commute gr_implies_not0)

lemma put_pixel_at:
  assumes "screen_ok s" "on_screen x' y' s"
  shows "pixel_at (put_pixel x y color s) x' y' = (if x' = x \<and> y' = y then color else pixel_at s x' y')"
proof (cases "on_screen x y s")
  case True
  note n = on_screen_nat [OF assms] and m = on_screen_nat [OF assms(1) True]
  have "nat y * row_pixels s + nat x = nat y' * row_pixels s + nat x' \<longleftrightarrow> x = x' \<and> y = y'"
    using row_index_inj [OF m(1) n(1)] True assms(2) by (auto simp: on_screen_def)
  moreover have "row_pixels (put_pixel x y color s) = row_pixels s" by (simp add: put_pixel_def row_pixels_def)
  ultimately show ?thesis using n(7) m(7) True by (auto simp: pixel_at_def put_pixel_def nth_list_update)
qed (use assms in \<open>auto simp: put_pixel_def\<close>)

text \<open>The drawing of a list of points.\<close>

definition plot :: "(int \<times> int) list \<Rightarrow> u32 \<Rightarrow> ('a screen_scheme) \<Rightarrow> 'a screen_scheme" where
  "plot ps color s = fold (\<lambda>(x, y). put_pixel x y color) ps s"

lemma plot_simps [simp]: "plot [] color s = s" "plot ((x, y) # ps) color s = plot ps color (put_pixel x y color s)"
  by (simp_all add: plot_def)

lemma put_pixel_ok [simp]: "screen_ok s \<Longrightarrow> screen_ok (put_pixel x y color s)"
  using put_pixel_geometry same_geometryD(5) by blast

lemma plot_geometry: "screen_ok s \<Longrightarrow> same_geometry s (plot ps color s)"
proof (induction ps arbitrary: s)
  case (Cons p ps)
  show ?case
    using same_geometry_trans [OF put_pixel_geometry Cons.IH] Cons.prems by (cases p) simp
qed (simp add: same_geometry_refl)

lemma plot_at:
  assumes "screen_ok s" "on_screen x y s"
  shows "pixel_at (plot ps color s) x y = (if (x, y) \<in> set ps then color else pixel_at s x y)"
  using assms
proof (induction ps arbitrary: s)
  case (Cons p ps)
  obtain a b where p: "p = (a, b)" by (cases p)
  have "on_screen x y (put_pixel a b color s)"
    using Cons.prems same_geometryD(6) [OF put_pixel_geometry [OF Cons.prems(1)]] by blast
  then show ?case using Cons.IH [of "put_pixel a b color s"] Cons.prems by (auto simp: p put_pixel_at)
qed simp

section \<open>The digital line\<close>

text \<open>
  After \<open>a\<close> steps to the side and \<open>b\<close> steps up or down on the way over \<open>dx\<close> columns and \<open>dy\<close> rows, the deviation from the
  straight line is \<open>b * dx - a * dy\<close>. It stays within half of the longer side, and the loop moves along the longer side in every
  round, so that it meets the end point.
\<close>

definition near_line :: "int \<Rightarrow> int \<Rightarrow> int \<Rightarrow> int \<Rightarrow> bool" where
  "near_line dx dy a b \<longleftrightarrow> 0 \<le> a \<and> a \<le> dx \<and> 0 \<le> b \<and> b \<le> dy \<and> 2 * \<bar>b * dx - a * dy\<bar> \<le> max dx dy"

lemma near_line_sym: "near_line dx dy a b \<longleftrightarrow> near_line dy dx b a"
  by (auto simp: near_line_def max.commute abs_minus_commute)

lemma near_line_end_long:
  assumes "near_line dx dy a b" "dy \<le> dx" "a = dx"
  shows "b = dy"
proof (rule ccontr)
  assume ne: "b \<noteq> dy"
  have n: "0 \<le> b" "b \<le> dy" "2 * \<bar>b * dx - dx * dy\<bar> \<le> dx" using assms by (auto simp: near_line_def)
  have "b * dx - dx * dy = (b - dy) * dx" by (simp add: algebra_simps)
  moreover have "1 * dx \<le> \<bar>b - dy\<bar> * \<bar>dx\<bar>" using ne assms n by (intro mult_mono) auto
  ultimately have "2 * dx \<le> dx" using n by (simp add: abs_mult)
  then show False using ne assms n by linarith
qed

lemma near_line_step_long:
  assumes n: "near_line dx dy a b" and le: "dy \<le> dx" and a: "a < dx"
    and b': "b' = (if 2 * (b * dx - a * dy + dx - dy) < dx then b + 1 else b)"
  shows "near_line dx dy (a + 1) b'" "2 * (b * dx - a * dy + dx - dy) > - dy"
proof -
  define D where "D = b * dx - a * dy"
  have D: "2 * \<bar>D\<bar> \<le> dx" and pos: "0 \<le> dy" "0 < dx" "0 \<le> b" "b \<le> dy" "0 \<le> a"
    using n le a by (auto simp: near_line_def D_def)
  have D': "b' * dx - (a + 1) * dy = (if 2 * (D + dx - dy) < dx then D - dy + dx else D - dy)"
    by (simp add: b' D_def algebra_simps)
  have bd: "2 * \<bar>b' * dx - (a + 1) * dy\<bar> \<le> dx" 
  proof (cases "2 * (D + dx - dy) < dx")
    case True
    then show ?thesis unfolding D' using D pos le by (simp only: if_True) arith
  next
    case False
    then show ?thesis unfolding D' using D pos le by (simp only: if_False) arith
  qed
  have "(a + 1) * dy \<le> dx * dy" using a pos by (intro mult_right_mono) auto
  moreover have "B < A + C" if "2 * \<bar>B - E\<bar> \<le> A" "E \<le> C" "0 < A" for A B C E :: int using that by arith
  ultimately have "b' * dx < dx + dx * dy" using bd pos(2) by blast
  then have "b' * dx < (dy + 1) * dx" by (simp add: algebra_simps)
  then have "b' \<le> dy" using pos by simp
  then show "near_line dx dy (a + 1) b'" using bd pos a le b' by (auto simp: near_line_def max_def split: if_splits)
  show "2 * (b * dx - a * dy + dx - dy) > - dy"
  proof (cases "dx = dy")
    case True
    then have "D = (b - a) * dx" by (simp add: D_def algebra_simps)
    then have "2 * (\<bar>b - a\<bar> * dx) \<le> 1 * dx" using D pos by (simp add: abs_mult)
    then have "2 * \<bar>b - a\<bar> \<le> 1" using pos by (simp add: mult.assoc [symmetric] del: mult_le_cancel_right1)
    then have "b = a" by arith
    then have "D = 0" using \<open>D = (b - a) * dx\<close> by simp
    then show ?thesis using pos True by (simp add: D_def)
  next
    case False
    then have "- dx > dy - 2 * dx" using le by simp
    then show ?thesis using D unfolding D_def [symmetric] by arith
  qed
qed

lemma near_line_step_wide:
  assumes n: "near_line dx dy a b" and lt: "dx < dy" and b: "b < dy"
    and a': "a' = (if 2 * (b * dx - a * dy + dx - dy) > - dy then a + 1 else a)"
  shows "near_line dx dy a' (b + 1)" "2 * (b * dx - a * dy + dx - dy) < dx"
proof -
  have "2 * (b * dx - a * dy + dx - dy) > - dy \<longleftrightarrow> 2 * (a * dy - b * dx + dy - dx) < dy"
  proof -
    have "- dy < 2 * (E + dx - dy) \<longleftrightarrow> 2 * (- E + dy - dx) < dy" for E :: int by auto
    from this [of "b * dx - a * dy"] show ?thesis by simp
  qed
  then have a'': "a' = (if 2 * (a * dy - b * dx + dy - dx) < dy then a + 1 else a)" using a' by simp
  have "near_line dy dx b a" "dx \<le> dy" using n lt near_line_sym by auto
  note st = near_line_step_long [OF this b a'']
  show "near_line dx dy a' (b + 1)" using st(1) near_line_sym by blast
  have "2 * (E + dx - dy) < dx" if "- dx < 2 * (- E + dy - dx)" for E :: int using that by arith
  from this [of "b * dx - a * dy"] show "2 * (b * dx - a * dy + dx - dy) < dx" using st(2) by simp
qed

text \<open>The points of a path: each is a neighbour of the one before.\<close>

definition neighbours :: "int \<times> int \<Rightarrow> int \<times> int \<Rightarrow> bool" where
  "neighbours p q \<longleftrightarrow> p \<noteq> q \<and> \<bar>fst p - fst q\<bar> \<le> 1 \<and> \<bar>snd p - snd q\<bar> \<le> 1"

text \<open>One round of the loop in terms of the steps taken: it goes one step along the longer side.\<close>

definition rounds_left :: "int \<Rightarrow> int \<Rightarrow> int \<Rightarrow> int \<Rightarrow> nat" where
  "rounds_left dx dy a b = nat (if dy \<le> dx then dx - a else dy - b)"

lemma near_line_round:
  assumes n: "near_line dx dy a b" and ne: "\<not> (a = dx \<and> b = dy)"
    and e: "e = b * dx - a * dy + dx - dy"
    and a': "a' = (if 2 * e > - dy then a + 1 else a)" and b': "b' = (if 2 * e < dx then b + 1 else b)"
  shows "near_line dx dy a' b'" "rounds_left dx dy a b = Suc (rounds_left dx dy a' b')" "a' \<noteq> a \<or> b' \<noteq> b"
proof -
  have "near_line dx dy a' b' \<and> rounds_left dx dy a b = Suc (rounds_left dx dy a' b') \<and> (a' \<noteq> a \<or> b' \<noteq> b)"
  proof (cases "dy \<le> dx")
    case True
    have "a < dx" using ne near_line_end_long [OF n True] n by (auto simp: near_line_def)
    moreover note near_line_step_long [OF n True this b' [unfolded e]]
    ultimately show ?thesis using True by (auto simp: a' e rounds_left_def)
  next
    case False
    then have lt: "dx < dy" by simp
    have "near_line dy dx b a" "dx \<le> dy" using n lt near_line_sym by auto
    moreover have "b \<le> dy" using n unfolding near_line_def by blast
    ultimately have "b < dy" using ne near_line_end_long [of dy dx b a] by (cases "b = dy") auto
    moreover note near_line_step_wide [OF n lt this a' [unfolded e]]
    ultimately show ?thesis using lt by (auto simp: b' e rounds_left_def)
  qed
  then show "near_line dx dy a' b'" "rounds_left dx dy a b = Suc (rounds_left dx dy a' b')" "a' \<noteq> a \<or> b' \<noteq> b" by simp_all
qed

lemma near_line_done: "near_line dx dy a b \<Longrightarrow> rounds_left dx dy a b = 0 \<longleftrightarrow> a = dx \<and> b = dy"
  using near_line_end_long [of dx dy a b] near_line_end_long [of dy dx b a] near_line_sym [of dx dy a b]
  by (auto simp: rounds_left_def near_line_def)

lemma near_line_err:
  assumes "near_line dx dy a b" "dx \<le> 2 ^ 29" "dy \<le> 2 ^ 29" "e = b * dx - a * dy + dx - dy"
  shows "int_ok (2 * e)" "int_ok (e - dy)" "2 * e > - dy \<Longrightarrow> int_ok (e - dy + dx)" "int_ok (e + dx)"
proof -
  have "max dx dy \<le> 2 ^ 29" using assms by simp
  then have "2 * \<bar>b * dx - a * dy\<bar> \<le> 2 ^ 29" "0 \<le> dx" "0 \<le> dy" using assms(1) unfolding near_line_def by linarith+
  then have "2 * \<bar>E\<bar> \<le> 2 ^ 29 \<Longrightarrow> e = E + dx - dy \<Longrightarrow>
      int_ok (2 * e) \<and> int_ok (e - dy) \<and> int_ok (e - dy + dx) \<and> int_ok (e + dx)" for E
    using assms(2,3) unfolding int_ok_def by simp arith
  from this [of "b * dx - a * dy"] assms(4) \<open>2 * \<bar>b * dx - a * dy\<bar> \<le> 2 ^ 29\<close>
  show "int_ok (2 * e)" "int_ok (e - dy)" "2 * e > - dy \<Longrightarrow> int_ok (e - dy + dx)" "int_ok (e + dx)" by blast+
qed

lemma int_ok_between:
  assumes "int_ok x1" "int_ok (x1 + sx * dx)" "\<bar>sx\<bar> = 1" "0 \<le> a" "a \<le> dx"
  shows "int_ok (x1 + sx * a)"
proof -
  have "sx = 1 \<or> sx = - 1" using assms(3) by arith
  then show ?thesis using assms by (auto simp: int_ok_def)
qed

lemma line_loop_round:
  assumes "set_pixel (x1 + sx * a) (y1 + sy * b) color s = Some s'" "\<not> (a = dx \<and> b = dy)" "\<bar>sx\<bar> = 1" "\<bar>sy\<bar> = 1"
    and e: "e = b * dx - a * dy + dx - dy" "int_ok (2 * e)" "int_ok (e - dy)" "2 * e > - dy \<Longrightarrow> int_ok (e - dy + dx)" "int_ok (e + dx)"
    and a': "a' = (if 2 * e > - dy then a + 1 else a)" "int_ok (x1 + sx * a')"
    and b': "b' = (if 2 * e < dx then b + 1 else b)" "int_ok (y1 + sy * b')"
  shows "line_loop (x1 + sx * dx) (y1 + sy * dy) dx dy sx sy color (x1 + sx * a) (y1 + sy * b) e s
    = line_loop (x1 + sx * dx) (y1 + sy * dy) dx dy sx sy color (x1 + sx * a') (y1 + sy * b') (b' * dx - a' * dy + dx - dy) s'"
proof -
  have "sx \<noteq> 0" "sy \<noteq> 0" using assms(3,4) by auto
  then have "x1 + sx * a = x1 + sx * dx \<longleftrightarrow> a = dx" "y1 + sy * b = y1 + sy * dy \<longleftrightarrow> b = dy" by auto
  then have ne: "\<not> (x1 + sx * a = x1 + sx * dx \<and> y1 + sy * b = y1 + sy * dy)" using assms(2) by blast
  define e' where "e' = (if 2 * e > - dy then e - dy else e)"
  have 1: "(if 2 * e > - dy then if int_ok (e - dy) \<and> int_ok (x1 + sx * a + sx) then Some (e - dy, x1 + sx * a + sx) else None
      else Some (e, x1 + sx * a)) = Some (e', x1 + sx * a')"
    using e a' by (auto simp: e'_def algebra_simps)
  have 2: "(if 2 * e < dx then if int_ok (e' + dx) \<and> int_ok (y1 + sy * b + sy) then Some (e' + dx, y1 + sy * b + sy) else None
      else Some (e', y1 + sy * b)) = Some (b' * dx - a' * dy + dx - dy, y1 + sy * b')"
    using e a' b' by (auto simp: e'_def algebra_simps)
  show ?thesis by (subst line_loop.simps) (simp only: assms(1) Option.bind.bind_lunit ne if_False e(2) if_True Let_def 1 2 prod.case)
qed

lemma line_loop_plot:
  fixes s :: "'a screen_scheme"
  assumes bounds: "dx \<le> 2 ^ 29" "dy \<le> 2 ^ 29" "int_ok x1" "int_ok y1" "int_ok (x1 + sx * dx)" "int_ok (y1 + sy * dy)"
    and unit: "\<bar>sx\<bar> = 1" "\<bar>sy\<bar> = 1"
    and "near_line dx dy a b" "screen_ok s"
  shows "\<exists>ps. line_loop (x1 + sx * dx) (y1 + sy * dy) dx dy sx sy color (x1 + sx * a) (y1 + sy * b) (b * dx - a * dy + dx - dy) s
       = Some (plot ps color s)
     \<and> length ps = Suc (rounds_left dx dy a b) \<and> hd ps = (x1 + sx * a, y1 + sy * b) \<and> last ps = (x1 + sx * dx, y1 + sy * dy)
     \<and> successively neighbours ps \<and> (\<forall>p \<in> set ps. \<exists>a b. p = (x1 + sx * a, y1 + sy * b) \<and> near_line dx dy a b)"
  using assms(9,10)
proof (induction "rounds_left dx dy a b" arbitrary: a b s)
  case 0
  then have "a = dx" "b = dy" using near_line_done by metis+
  moreover have "set_pixel (x1 + sx * dx) (y1 + sy * dy) color s = Some (plot [(x1 + sx * dx, y1 + sy * dy)] color s)"
    using 0 bounds by (simp add: set_pixel_ok)
  ultimately show ?case using 0 by (intro exI [of _ "[(x1 + sx * dx, y1 + sy * dy)]"]) (auto simp: line_loop.simps)
next
  case (Suc n)
  define e where "e = b * dx - a * dy + dx - dy"
  define a' where "a' = (if 2 * e > - dy then a + 1 else a)"
  define b' where "b' = (if 2 * e < dx then b + 1 else b)"
  have ne: "\<not> (a = dx \<and> b = dy)" using Suc near_line_done by (metis nat.distinct(1))
  note r = near_line_round [OF Suc.prems(1) ne e_def a'_def b'_def]
  have ok: "int_ok (x1 + sx * i)" "int_ok (y1 + sy * j)" if "near_line dx dy i j" for i j
    using that bounds unit by (auto simp: near_line_def intro: int_ok_between)
  let ?s = "put_pixel (x1 + sx * a) (y1 + sy * b) color s"
  have "set_pixel (x1 + sx * a) (y1 + sy * b) color s = Some ?s" using Suc.prems ok by (simp add: set_pixel_ok)
  note step = line_loop_round [OF this ne unit e_def near_line_err [OF Suc.prems(1) bounds(1,2) e_def]
      a'_def ok(1) [OF r(1)] b'_def ok(2) [OF r(1)]]
  have "n = rounds_left dx dy a' b'" using Suc.hyps(2) r(2) by simp
  from Suc.hyps(1) [OF this r(1), of ?s] Suc.prems
  obtain ps where ps: "line_loop (x1 + sx * dx) (y1 + sy * dy) dx dy sx sy color (x1 + sx * a') (y1 + sy * b') (b' * dx - a' * dy + dx - dy) ?s
       = Some (plot ps color ?s)" "length ps = Suc (rounds_left dx dy a' b')" "hd ps = (x1 + sx * a', y1 + sy * b')"
    "last ps = (x1 + sx * dx, y1 + sy * dy)" "successively neighbours ps"
    "\<forall>p \<in> set ps. \<exists>a b. p = (x1 + sx * a, y1 + sy * b) \<and> near_line dx dy a b"
    by auto
  have "ps \<noteq> []" using ps(2) by auto
  moreover have "neighbours (x1 + sx * a, y1 + sy * b) (x1 + sx * a', y1 + sy * b')"
  proof -
    have "a' = a \<or> a' = a + 1" "b' = b \<or> b' = b + 1" by (simp_all add: a'_def b'_def)
    then show ?thesis using r(3) unit by (auto simp: neighbours_def algebra_simps)
  qed
  ultimately show ?case
    using ps step r(2) Suc.prems(1)
    by (intro exI [of _ "(x1 + sx * a, y1 + sy * b) # ps"]) (auto simp: e_def successively_Cons)
qed

lemma draw_line_plot:
  assumes "screen_ok s" "int_ok x1" "int_ok y1" "int_ok x2" "int_ok y2" "\<bar>x2 - x1\<bar> \<le> 2 ^ 29" "\<bar>y2 - y1\<bar> \<le> 2 ^ 29"
  shows "\<exists>ps. draw_line x1 y1 x2 y2 color s = Some (plot ps color s) \<and> int (length ps) = max \<bar>x2 - x1\<bar> \<bar>y2 - y1\<bar> + 1
     \<and> hd ps = (x1, y1) \<and> last ps = (x2, y2) \<and> successively neighbours ps
     \<and> (\<forall>(x, y) \<in> set ps. 2 * \<bar>(y - y1) * (x2 - x1) - (x - x1) * (y2 - y1)\<bar> \<le> max \<bar>x2 - x1\<bar> \<bar>y2 - y1\<bar>)"
proof -
  define dx dy where "dx = \<bar>x2 - x1\<bar>" and "dy = \<bar>y2 - y1\<bar>"
  define sx sy where "sx = (if x1 < x2 then 1 else - 1 :: int)" and "sy = (if y1 < y2 then 1 else - 1 :: int)"
  have d: "x2 - x1 = sx * dx" "y2 - y1 = sy * dy" by (auto simp: dx_def dy_def sx_def sy_def)
  then have e: "x1 + sx * dx = x2" "y1 + sy * dy = y2" by simp_all
  have unit: "\<bar>sx\<bar> = 1" "\<bar>sy\<bar> = 1" by (auto simp: sx_def sy_def)
  have "near_line dx dy 0 0" by (auto simp: near_line_def dx_def dy_def)
  with line_loop_plot [of dx dy x1 y1 sx sy 0 0 s color] assms unit
  obtain ps where ps: "line_loop x2 y2 dx dy sx sy color x1 y1 (dx - dy) s = Some (plot ps color s)"
    "length ps = Suc (rounds_left dx dy 0 0)" "hd ps = (x1, y1)" "last ps = (x2, y2)" "successively neighbours ps"
    "\<forall>p \<in> set ps. \<exists>a b. p = (x1 + sx * a, y1 + sy * b) \<and> near_line dx dy a b"
    by (auto simp: e dx_def [symmetric] dy_def [symmetric])
  have "int_ok (x2 - x1)" "int_ok (y2 - y1)" using assms(6,7) by (auto simp: int_ok_def)
  moreover have "abs_c (x2 - x1) = Some dx" "abs_c (y2 - y1) = Some dy"
    using assms(6,7) by (auto simp: abs_c_def dx_def dy_def width_ok_def)
  ultimately have "draw_line x1 y1 x2 y2 color s = Some (plot ps color s)"
    using ps(1) unfolding draw_line_def Let_def sx_def [symmetric] sy_def [symmetric] by (simp only: simp_thms if_True Option.bind.bind_lunit)
  moreover have "2 * \<bar>(y - y1) * (x2 - x1) - (x - x1) * (y2 - y1)\<bar> \<le> max dx dy" if "(x, y) \<in> set ps" for x y
  proof -
    from bspec [OF ps(6) that] obtain a b where ab: "(x, y) = (x1 + sx * a, y1 + sy * b)" "near_line dx dy a b" by (elim exE conjE)
    have xy: "x - x1 = sx * a" "y - y1 = sy * b" using ab(1) by simp_all
    have "(y - y1) * (x2 - x1) - (x - x1) * (y2 - y1) = sx * sy * (b * dx - a * dy)"
      unfolding xy d by (simp add: algebra_simps)
    then show ?thesis using ab(2) unit by (simp add: abs_mult near_line_def)
  qed
  moreover have "int (length ps) = max dx dy + 1" using ps(2) by (auto simp: rounds_left_def dx_def dy_def)
  ultimately show ?thesis using ps(3-5) unfolding dx_def [symmetric] dy_def [symmetric] by blast
qed

text \<open>
  C26. \<open>draw_line\<close> draws a digital line: on a valid framebuffer it ends and changes exactly the pixels of a path that starts in
  \<open>(x1, y1)\<close>, ends in \<open>(x2, y2)\<close>, moves to a neighbouring pixel in each step, has as many points as the longer side asks for and stays
  within half a pixel of the straight line (the cross product of a point with the direction is at most half of the longer side).
  Pixels off the screen are left out.
\<close>

theorem draw_line_is_digital_line:
  assumes "screen_ok s" "int_ok x1" "int_ok y1" "int_ok x2" "int_ok y2" "\<bar>x2 - x1\<bar> \<le> 2 ^ 29" "\<bar>y2 - y1\<bar> \<le> 2 ^ 29"
  shows "\<exists>ps s'. draw_line x1 y1 x2 y2 color s = Some s' \<and> same_geometry s s'
     \<and> (\<forall>x y. on_screen x y s \<longrightarrow> pixel_at s' x y = (if (x, y) \<in> set ps then color else pixel_at s x y))
     \<and> int (length ps) = max \<bar>x2 - x1\<bar> \<bar>y2 - y1\<bar> + 1 \<and> hd ps = (x1, y1) \<and> last ps = (x2, y2) \<and> successively neighbours ps
     \<and> (\<forall>(x, y) \<in> set ps. 2 * \<bar>(y - y1) * (x2 - x1) - (x - x1) * (y2 - y1)\<bar> \<le> max \<bar>x2 - x1\<bar> \<bar>y2 - y1\<bar>)"
  using draw_line_plot [OF assms, of color] plot_geometry [OF assms(1)] plot_at [OF assms(1)] by blast

definition sample_screen :: screen where
  "sample_screen = \<lparr>fb0_address = Some (replicate 20 0), fb0_width = 4, fb0_height = 4, fb0_pitch = 20\<rparr>"

lemma sample_screen_ok: "screen_ok sample_screen"
  by (simp add: screen_ok_def sample_screen_def row_pixels_def)

theorem draw_line_is_digital_line_witness:
  "\<exists>s'. draw_line 0 0 3 1 7 sample_screen = Some s' \<and> pixel_at s' 0 0 = 7 \<and> pixel_at s' 3 1 = 7"
proof -
  obtain ps s' where d: "draw_line 0 0 3 1 7 sample_screen = Some s'" "length ps = 4" "hd ps = (0, 0)" "last ps = (3, 1)"
    "\<forall>x y. on_screen x y sample_screen \<longrightarrow> pixel_at s' x y = (if (x, y) \<in> set ps then 7 else pixel_at sample_screen x y)"
    using draw_line_is_digital_line [OF sample_screen_ok, of 0 0 3 1 7] by (auto simp: int_ok_def)
  have "ps \<noteq> []" using d(2) by auto
  then have "(0, 0) \<in> set ps" "(3, 1) \<in> set ps" using d(3,4) hd_in_set last_in_set by metis+
  moreover have "on_screen 0 0 sample_screen" "on_screen 3 1 sample_screen" by (simp_all add: on_screen_def sample_screen_def)
  ultimately show ?thesis using d(1,5) by auto
qed

section \<open>Areas\<close>

lemma plot_append: "plot (ps @ qs) color s = plot qs color (plot ps color s)"
  by (simp add: plot_def)

lemma plot_screen_ok [simp]: "screen_ok s \<Longrightarrow> screen_ok (plot ps color s)"
  using plot_geometry same_geometryD(5) by blast

lemma for_int_plot_inv:
  assumes "\<And>i s. a \<le> i \<Longrightarrow> i < b \<Longrightarrow> P s \<Longrightarrow> f i s = Some (plot (pts i) color s)" "P s" "\<And>ps s. P s \<Longrightarrow> P (plot ps color s)"
  shows "for_int a b f s = Some (plot (concat (map pts [a..b - 1])) color s)"
proof -
  have "for_rounds n i f s = Some (plot (concat (map pts [i..b - 1])) color s)"
    if "n = nat (b - i)" "a \<le> i" "P s" for n i s
    using that
  proof (induction n arbitrary: i s)
    case (Suc n)
    have i: "i < b" "n = nat (b - (i + 1))" using Suc.prems by auto
    then have "[i..b - 1] = i # [i + 1..b - 1]" by (simp add: upto_rec1)
    moreover have "for_rounds n (i + 1) f (plot (pts i) color s) = Some (plot (concat (map pts [i + 1..b - 1])) color (plot (pts i) color s))"
      using Suc.prems i assms(3) by (intro Suc.IH) simp_all
    ultimately show ?case using assms(1) [OF Suc.prems(2) i(1) Suc.prems(3)] by (simp add: plot_append)
  qed simp
  then show ?thesis using assms(2) by (simp add: for_int_def)
qed

lemma for_int_plot:
  assumes "\<And>i s. a \<le> i \<Longrightarrow> i < b \<Longrightarrow> screen_ok s \<Longrightarrow> f i s = Some (plot (pts i) color s)" "screen_ok s"
  shows "for_int a b f s = Some (plot (concat (map pts [a..b - 1])) color s)"
  using assms by (rule for_int_plot_inv [where P = screen_ok]) simp_all

lemma set_pixel_plot: "screen_ok s \<Longrightarrow> int_ok x \<Longrightarrow> int_ok y \<Longrightarrow> set_pixel x y color s = Some (plot [(x, y)] color s)"
  by (simp add: set_pixel_ok)

lemma int_ok_mid: "int_ok a \<Longrightarrow> int_ok b \<Longrightarrow> a \<le> x \<Longrightarrow> x \<le> b \<Longrightarrow> int_ok x"
  by (auto simp: int_ok_def)

lemma draw_filled_rectangle_plot:
  assumes "screen_ok s" "int_ok x" "int_ok y" "int_ok (x + w)" "int_ok (y + h)"
  shows "\<exists>s'. draw_filled_rectangle x y w h color s = Some s' \<and> same_geometry s s'
    \<and> (\<forall>i j. on_screen i j s \<longrightarrow>
        pixel_at s' i j = (if x \<le> i \<and> i < x + w \<and> y \<le> j \<and> j < y + h then color else pixel_at s i j))"
proof -
  define pts where "pts = concat (map (\<lambda>j. concat (map (\<lambda>i. [(i, j)]) [x..x + w - 1])) [y..y + h - 1])"
  have "for_int x (x + w) (\<lambda>i. set_pixel i j color) s = Some (plot (concat (map (\<lambda>i. [(i, j)]) [x..x + w - 1])) color s)"
    if "y \<le> j" "j < y + h" "screen_ok s" for j and s :: "'a screen_scheme"
  proof (rule for_int_plot [OF set_pixel_plot that(3)])
    show "int_ok j" using that by (intro int_ok_mid [OF assms(3,5)]) simp_all
    show "int_ok i" if "x \<le> i" "i < x + w" for i using that by (intro int_ok_mid [OF assms(2,4)]) simp_all
  qed
  then have "for_int y (y + h) (\<lambda>j. for_int x (x + w) (\<lambda>i. set_pixel i j color)) s = Some (plot pts color s)"
    unfolding pts_def using assms(1) by (rule for_int_plot)
  then have "draw_filled_rectangle x y w h color s = Some (plot pts color s)"
    using assms by (simp add: draw_filled_rectangle_def)
  moreover have "set pts = {(i, j). x \<le> i \<and> i < x + w \<and> y \<le> j \<and> j < y + h}" by (auto simp: pts_def)
  ultimately show ?thesis using plot_geometry [OF assms(1)] plot_at [OF assms(1)] by auto
qed

text \<open>
  The straight lines reach beyond the framebuffer: a rectangle along the bottom edge of the screen writes behind the array.
\<close>

lemma draw_rectangle_leaves_framebuffer:
  defines "s \<equiv> \<lparr>fb0_address = Some (replicate 16 0), fb0_width = 4, fb0_height = 4, fb0_pitch = 16\<rparr>"
  shows "screen_ok s \<and> draw_rectangle 0 0 4 4 7 s = None"
proof
  show "screen_ok s" by (simp add: s_def screen_ok_def row_pixels_def)
  show "draw_rectangle 0 0 4 4 7 s = None" unfolding s_def by code_simp
qed

end
