(* ===== verification/Terminal.thy ===== *)
theory Terminal
  imports Vga
begin

text \<open>
  The text terminal on the framebuffer (\<open>driver/vga/vga_term.c\<close>) with the serial log that mirrors it (\<open>driver/io/serial.c\<close>), and
  \<open>printf\<close> on top of them. The state is the screen extended with the globals of the two files; the two fonts are arrays the kernel
  links in. The serial port itself is not modelled: \<open>serial_putchar\<close> is its log.
\<close>

section \<open>State\<close>

record terminal = screen +
  cur_x :: int
  cur_y :: int
  text_color :: u32
  back_color :: u32
  g_8x8_font :: bytes
  g_8x16_font :: bytes
  cursor_visible :: bool
  prev_cursor_x :: int
  prev_cursor_y :: int
  serial_log :: bytes
  serial_log_index :: nat
  serial_locked :: bool

definition font_width :: u64 where "font_width = 8"
definition font_height :: u64 where "font_height = 16"
definition font_size :: u64 where "font_size = 1"

section \<open>The serial log\<close>

definition SERIAL_LOG_SIZE :: nat where "SERIAL_LOG_SIZE = 8192"

definition serial_putchar :: "u8 \<Rightarrow> terminal \<Rightarrow> terminal" where
  "serial_putchar c t = (if serial_log_index t < SERIAL_LOG_SIZE - 1
     then t\<lparr>serial_log := (serial_log t)[serial_log_index t := c, serial_log_index t + 1 := 0],
            serial_log_index := serial_log_index t + 1\<rparr>
     else t)"

definition serial_print :: "ptr \<Rightarrow> cmem \<Rightarrow> terminal \<Rightarrow> terminal option" where
  "serial_print s m t = do { text \<leftarrow> str_text s m; Some (fold serial_putchar text t) }"

definition serial_clearchar :: "terminal \<Rightarrow> terminal" where
  "serial_clearchar t = serial_putchar 8 (serial_putchar 32 (serial_putchar 8 t))"

definition get_serial_log :: "terminal \<Rightarrow> bytes \<times> terminal" where
  "get_serial_log t =
     (let i = (if serial_log_index t \<ge> SERIAL_LOG_SIZE then SERIAL_LOG_SIZE - 1 else serial_log_index t);
          t = t\<lparr>serial_log_index := i, serial_log := (serial_log t)[i := 0]\<rparr>
      in (serial_log t, t))"

text \<open>\<open>serial_printf\<close> formats into a local buffer of 1024 bytes.\<close>

definition SERIAL_PRINTF_BUF :: nat where "SERIAL_PRINTF_BUF = 1024"

definition serial_printf :: "nat \<Rightarrow> bytes \<Rightarrow> 'd varg list \<Rightarrow> cmem \<Rightarrow> terminal \<Rightarrow> terminal option" where
  "serial_printf fresh fmt args m t = do {
     (n, m) \<leftarrow> vsnprintf (fresh, 0) SERIAL_PRINTF_BUF fmt args (m(fresh \<mapsto> replicate SERIAL_PRINTF_BUF 0));
     serial_print (fresh, 0) m t }"

section \<open>The cursor\<close>

definition clear_screen :: "terminal \<Rightarrow> terminal option" where
  "clear_screen t = do { t \<leftarrow> cls_color (back_color t) t; Some (t\<lparr>cur_x := 0, cur_y := 0\<rparr>) }"

text \<open>\<open>scroll_up\<close> on the pixels: copy every row to the one a text line above, then clear the last text line.\<close>

definition move_rows :: "u64 \<Rightarrow> u64 \<Rightarrow> u64 \<Rightarrow> u32 list \<Rightarrow> u32 list option" where
  "move_rows line_height height pitch_pixels = for_int (uint line_height) (uint height) (\<lambda>row.
     for_int 0 (uint pitch_pixels) (\<lambda>col p.
       let dest_row = of_int row - line_height;
           dest = unat (dest_row * pitch_pixels + of_int col);
           src = unat (of_int row * pitch_pixels + of_int col)
       in if src < length p \<and> dest < length p then Some (p[dest := p ! src]) else None))"

definition clear_last_line :: "u64 \<Rightarrow> u64 \<Rightarrow> u64 \<Rightarrow> u32 \<Rightarrow> u32 list \<Rightarrow> u32 list option" where
  "clear_last_line line_height height pitch_pixels color = for_int 0 (uint (line_height * pitch_pixels)) (\<lambda>i p.
     let a = unat ((height - line_height) * pitch_pixels) + nat i
     in if a < length p then Some (p[a := color]) else None)"

definition scroll_up :: "terminal \<Rightarrow> terminal option" where
  "scroll_up t = (case fb0_address t of None \<Rightarrow> Some t
     | Some p \<Rightarrow> do {
         let pitch_pixels = fb0_pitch t div 4;
         p \<leftarrow> move_rows font_height (fb0_height t) pitch_pixels p;
         p \<leftarrow> clear_last_line font_height (fb0_height t) pitch_pixels (back_color t) p;
         Some (t\<lparr>fb0_address := Some p\<rparr>) })"

definition update_cur_pos :: "terminal \<Rightarrow> terminal option" where
  "update_cur_pos t =
     (let x = cur_x t + c_int font_width div 2
      in if \<not> int_ok x then None
         else let wrap = (x \<ge> c_int (fb0_width t));
                  y = (if wrap then cur_y t + c_int font_height else cur_y t);
                  t = t\<lparr>cur_x := (if wrap then 0 else x), cur_y := y\<rparr>
              in if \<not> int_ok y then None
                 else if y \<ge> c_int (fb0_height t) then do { t \<leftarrow> scroll_up t; Some (t\<lparr>cur_y := y - c_int font_height\<rparr>) }
                 else Some t)"

definition create_newline :: "terminal \<Rightarrow> terminal option" where
  "create_newline t =
     (let t = t\<lparr>cur_x := 0, cur_y := c_int (of_int (cur_y t) + font_height)\<rparr>
      in if of_int (cur_y t) \<ge> fb0_height t - font_height
         then do { t \<leftarrow> scroll_up t; Some (t\<lparr>cur_y := c_int (of_int (cur_y t) - font_height)\<rparr>) }
         else Some t)"

definition backspace_manage :: "terminal \<Rightarrow> terminal option" where
  "backspace_manage t =
     (let t = serial_clearchar t
      in if cur_x t = 0 \<and> cur_y t = 0 then Some t
         else let t = (if cur_x t = 0
                then t\<lparr>cur_x := c_int (fb0_width t - font_width), cur_y := c_int (of_int (cur_y t) - font_height)\<rparr>
                else t\<lparr>cur_x := c_int (of_int (cur_x t) - font_width)\<rparr>)
              in for_int 0 (uint font_height) (\<lambda>row. for_int 0 (uint font_width + 1) (\<lambda>col t.
                   set_pixel (c_int (of_int (cur_x t) + of_int col)) (c_int (of_int (cur_y t) + of_int row)) (back_color t) t)) t)"

definition get_cursor_pos_x :: "terminal \<Rightarrow> u64" where "get_cursor_pos_x t = of_int (cur_x t)"
definition get_cursor_pos_y :: "terminal \<Rightarrow> u64" where "get_cursor_pos_y t = of_int (cur_y t)"
definition set_cursor_pos_x :: "u64 \<Rightarrow> terminal \<Rightarrow> terminal" where "set_cursor_pos_x v t = t\<lparr>cur_x := c_int v\<rparr>"
definition set_cursor_pos_y :: "u64 \<Rightarrow> terminal \<Rightarrow> terminal" where "set_cursor_pos_y v t = t\<lparr>cur_y := c_int v\<rparr>"

definition move_cur_up :: "terminal \<Rightarrow> terminal option" where
  "move_cur_up t = (if int_ok (cur_y t - 1) then Some (t\<lparr>cur_y := cur_y t - 1\<rparr>) else None)"
definition move_cur_down :: "terminal \<Rightarrow> terminal option" where
  "move_cur_down t = (if int_ok (cur_y t + 1) then Some (t\<lparr>cur_y := cur_y t + 1\<rparr>) else None)"
definition move_cur_left :: "terminal \<Rightarrow> terminal option" where
  "move_cur_left t = (if int_ok (cur_x t - 1) then Some (t\<lparr>cur_x := cur_x t - 1\<rparr>) else None)"
definition move_cur_right :: "terminal \<Rightarrow> terminal option" where
  "move_cur_right t = (if int_ok (cur_x t + 1) then Some (t\<lparr>cur_x := cur_x t + 1\<rparr>) else None)"

section \<open>Characters\<close>

text \<open>The set bits of a glyph of \<open>n\<close> rows; \<open>c\<close> is a signed character, the glyph begins \<open>n * c\<close> bytes into the font.\<close>

definition draw_glyph :: "nat \<Rightarrow> bytes \<Rightarrow> int \<Rightarrow> int \<Rightarrow> int \<Rightarrow> u32 \<Rightarrow> terminal \<Rightarrow> terminal option" where
  "draw_glyph n font c x y color t = for_int 0 (int n) (\<lambda>row. for_int 0 8 (\<lambda>col t.
     let i = c * int n + row
     in if 0 \<le> i \<and> nat i < length font
        then if bit (font ! nat i) (nat (7 - col)) then px (x + col) (y + row) color t else Some t
        else None)) t"

definition draw_char_8x8 :: "int \<Rightarrow> int \<Rightarrow> int \<Rightarrow> u32 \<Rightarrow> terminal \<Rightarrow> terminal option" where
  "draw_char_8x8 x y c color t = do { t \<leftarrow> draw_glyph 8 (g_8x8_font t) c x y color t; update_cur_pos t }"

definition draw_char_8x16 :: "int \<Rightarrow> int \<Rightarrow> int \<Rightarrow> u32 \<Rightarrow> terminal \<Rightarrow> terminal option" where
  "draw_char_8x16 x y c color t = do { t \<leftarrow> draw_glyph 16 (g_8x16_font t) c x y color t; update_cur_pos t }"

definition draw_char :: "int \<Rightarrow> int \<Rightarrow> int \<Rightarrow> u32 \<Rightarrow> terminal \<Rightarrow> terminal option" where
  "draw_char x y c color t = (if font_size * font_height = 8 then draw_char_8x8 x y c color t
     else if font_size * font_height = 16 then draw_char_8x16 x y c color t
     else draw_char_8x16 x y c color t)"

fun draw_text :: "int \<Rightarrow> int \<Rightarrow> bytes \<Rightarrow> u32 \<Rightarrow> terminal \<Rightarrow> terminal option" where
  "draw_text x y [] color t = Some t"
| "draw_text x y (c # cs) color t = do {
     t \<leftarrow> draw_char x y (sint c) color t;
     draw_text (c_int (of_int x + font_width div 2)) y cs color t }"

definition draw_string :: "int \<Rightarrow> int \<Rightarrow> ptr \<Rightarrow> u32 \<Rightarrow> cmem \<Rightarrow> terminal \<Rightarrow> terminal option" where
  "draw_string x y s color m t = do { text \<leftarrow> str_text s m; draw_text x y text color t }"

text \<open>\<open>putchar\<close> and \<open>color_putchar\<close> treat the control characters alike.\<close>

definition put_control :: "u8 \<Rightarrow> terminal \<Rightarrow> terminal option" where
  "put_control c t =
     (if c = 9 then if int_ok (cur_x t + 4) then update_cur_pos (t\<lparr>cur_x := (cur_x t + 4) AND NOT 3\<rparr>) else None
      else if c = 13 then update_cur_pos (t\<lparr>cur_x := 0\<rparr>)
      else if c = 10 then do { t \<leftarrow> create_newline t; update_cur_pos t }
      else if c = 8 then backspace_manage t
      else Some t)"

definition put_glyph :: "u8 \<Rightarrow> u32 \<Rightarrow> terminal \<Rightarrow> terminal option" where
  "put_glyph c color t = do {
     t \<leftarrow> draw_char (cur_x t) (cur_y t) (sint c) color t;
     if int_ok (cur_x t + 1) then update_cur_pos (t\<lparr>cur_x := cur_x t + 1\<rparr>) else None }"

definition putchar :: "u8 \<Rightarrow> terminal \<Rightarrow> terminal option" where
  "putchar c t =
     (let t = serial_putchar c t
      in if c \<in> {9, 13, 10, 8, 0} then put_control c t
         else put_glyph (if c \<ge> 128 then 63 else c) (text_color t) t)"

definition color_putchar :: "u8 \<Rightarrow> u32 \<Rightarrow> terminal \<Rightarrow> terminal option" where
  "color_putchar c color t =
     (let t = serial_putchar c t
      in if c \<in> {9, 13, 10, 8, 0} then put_control c t else put_glyph c color t)"

fun putchars :: "bytes \<Rightarrow> terminal \<Rightarrow> terminal option" where
  "putchars [] t = Some t"
| "putchars (c # cs) t = do { t \<leftarrow> putchar c t; putchars cs t }"

definition print :: "ptr \<Rightarrow> cmem \<Rightarrow> terminal \<Rightarrow> terminal option" where
  "print s m t = do { text \<leftarrow> str_text s m; putchars text t }"

fun color_putchars :: "bytes \<Rightarrow> u32 \<Rightarrow> terminal \<Rightarrow> terminal option" where
  "color_putchars [] color t = Some t"
| "color_putchars (c # cs) color t = do { t \<leftarrow> color_putchar c color t; color_putchars cs color t }"

definition color_print :: "ptr \<Rightarrow> u32 \<Rightarrow> cmem \<Rightarrow> terminal \<Rightarrow> terminal option" where
  "color_print s color m t = do { text \<leftarrow> str_text s m; color_putchars text color t }"

text \<open>\<open>printf\<close> holds a lock while it prints; a held lock is never released on one processor, the call does not return.\<close>

definition acquire :: "terminal \<Rightarrow> terminal option" where
  "acquire t = (if serial_locked t then None else Some (t\<lparr>serial_locked := True\<rparr>))"

definition release :: "terminal \<Rightarrow> terminal" where
  "release t = t\<lparr>serial_locked := False\<rparr>"

definition printf :: "'d fp_ops \<Rightarrow> bytes \<Rightarrow> 'd varg list \<Rightarrow> cmem \<Rightarrow> terminal \<Rightarrow> terminal option" where
  "printf fp fmt args m t = do {
     t \<leftarrow> acquire t;
     text \<leftarrow> vprintf fp fmt args m;
     t \<leftarrow> putchars text t;
     Some (release t) }"

section \<open>The drawn cursor\<close>

text \<open>A counting loop that also stops when its guard fails.\<close>

fun for_while :: "nat \<Rightarrow> int \<Rightarrow> (int \<Rightarrow> bool) \<Rightarrow> (int \<Rightarrow> 's \<Rightarrow> 's option) \<Rightarrow> 's \<Rightarrow> 's option" where
  "for_while 0 i g f s = Some s"
| "for_while (Suc n) i g f s = (if g i then do { s \<leftarrow> f i s; for_while n (i + 1) g f s } else Some s)"

definition fill_rect :: "int \<Rightarrow> int \<Rightarrow> int \<Rightarrow> int \<Rightarrow> u32 \<Rightarrow> terminal \<Rightarrow> terminal option" where
  "fill_rect x y width height color t = (if int_ok (y + height) \<and> int_ok (x + width)
     then for_while (nat height) y (\<lambda>row. of_int row < fb0_height t) (\<lambda>row.
       for_while (nat width) x (\<lambda>col. of_int col < fb0_width t) (\<lambda>col. set_pixel col row color)) t
     else None)"

definition draw_cursor :: "terminal \<Rightarrow> terminal option" where
  "draw_cursor t = do {
     t \<leftarrow> (if prev_cursor_x t \<noteq> - 1 \<and> prev_cursor_y t \<noteq> - 1
          then fill_rect (prev_cursor_x t) (prev_cursor_y t) (c_int (font_width div 2)) (c_int font_height) (back_color t) t else Some t);
     t \<leftarrow> (if cursor_visible t then fill_rect (cur_x t) (cur_y t) (c_int (font_width div 2)) (c_int font_height) (text_color t) t
          else Some t);
     Some (t\<lparr>prev_cursor_x := cur_x t, prev_cursor_y := cur_y t\<rparr>) }"

definition toggle_cursor :: "terminal \<Rightarrow> terminal option" where
  "toggle_cursor t = draw_cursor (t\<lparr>cursor_visible := \<not> cursor_visible t\<rparr>)"

section \<open>Scrolling\<close>

lemma c_int_of_int: "int_ok k \<Longrightarrow> c_int (of_int k) = k"
proof -
  assume k: "int_ok k"
  have "(ucast (of_int k :: u64) :: u32) = of_int k" 
    by (rule bit_word_eqI) (simp add: bit_unsigned_iff bit_word_of_int_iff)
  then have "c_int (of_int k) = signed_take_bit 31 k" by (simp add: c_int_def signed_of_int)
  also have "\<dots> = k" using k by (simp add: int_ok_def signed_take_bit_int_eq_self)
  finally show ?thesis .
qed

lemma c_int_small:
  assumes "unat w < 2 ^ 31"
  shows "c_int w = uint w"
proof -
  have "int (unat w) < int (2 ^ 31)" using assms by (simp only: of_nat_less_iff)
  then show ?thesis using c_int_of_int [of "uint w"] by (simp add: int_ok_def order_trans [of _ 0])
qed

lemma font_c_int [simp]: "c_int font_width = 8" "c_int font_height = 16" "uint font_height = 16" "uint font_width = 8"
  by (simp_all add: c_int_def font_width_def font_height_def)

text \<open>The pixels after \<open>k\<close> of the copies over a distance of \<open>d\<close>.\<close>

definition shifted :: "nat \<Rightarrow> nat \<Rightarrow> 'p list \<Rightarrow> 'p list" where
  "shifted d k p = take k (drop d p) @ drop k p"

lemma shifted_step:
  assumes "k + d < length p" "0 < d"
  shows "(shifted d k p)[k := shifted d k p ! (k + d)] = shifted d (Suc k) p"
proof (rule nth_equalityI)
  have len: "length (shifted d j p) = length p" if "j + d \<le> length p" for j using that by (simp add: shifted_def)
  show "length ((shifted d k p)[k := shifted d k p ! (k + d)]) = length (shifted d (Suc k) p)"
    using assms by (simp add: len)
  have nth: "shifted d j p ! i = (if i < j then p ! (i + d) else p ! i)" if "j + d \<le> length p" "i < length p" for i j
  proof -
    have "length (take j (drop d p)) = j" using that by simp
    then show ?thesis using that by (simp add: shifted_def nth_append add.commute del: length_take)
  qed
  show "(shifted d k p)[k := shifted d k p ! (k + d)] ! i = shifted d (Suc k) p ! i"
    if "i < length ((shifted d k p)[k := shifted d k p ! (k + d)])" for i
    using that assms by (auto simp: len nth nth_list_update less_Suc_eq)
qed

lemma length_shifted [simp]: "k + d \<le> length p \<Longrightarrow> length (shifted d k p) = length p"
  by (simp add: shifted_def)

lemma for_int_steps:
  assumes "\<And>i k. a \<le> i \<Longrightarrow> i < b \<Longrightarrow> k = k0 + nat (i - a) * w \<Longrightarrow> f i (g k) = Some (g (k + w))"
  shows "for_int a b f (g k0) = Some (g (k0 + nat (b - a) * w))"
proof -
  have "for_rounds n i f (g (k0 + nat (i - a) * w)) = Some (g (k0 + (nat (i - a) + n) * w))"
    if "a \<le> i" "i + int n \<le> b" for n i
    using that
  proof (induction n arbitrary: i)
    case (Suc n)
    have "f i (g (k0 + nat (i - a) * w)) = Some (g (k0 + nat (i - a) * w + w))" using Suc.prems by (intro assms) auto
    moreover have "nat (i + 1 - a) = Suc (nat (i - a))" using Suc.prems by simp
    ultimately show ?case using Suc.IH [of "i + 1"] Suc.prems by (simp add: algebra_simps)
  qed simp
  from this [of a "nat (b - a)"] show ?thesis by (cases "a \<le> b") (auto simp: for_int_def)
qed

lemma row_index_less: "(y :: nat) < h \<Longrightarrow> x < w \<Longrightarrow> y * w + x < h * w"
proof -
  assume "y < h" "x < w"
  then have "Suc y * w \<le> h * w" by (intro mult_le_mono) simp_all
  then show ?thesis using \<open>x < w\<close> by simp
qed

lemma move_rows_ok:
  assumes len: "unat height * unat pp \<le> length p" and lt: "unat height * unat pp < 2 ^ 64" and h: "16 \<le> unat height"
  shows "move_rows font_height height pp p = Some (shifted (16 * unat pp) ((unat height - 16) * unat pp) p)"
proof -
  let ?w = "unat pp" and ?h = "unat height"
  note cell = row_index_less [of _ ?h _ ?w]
  have index: "unat (of_int row * pp + of_int col) = nat row * ?w + nat col"
    if r: "0 \<le> row" "row < uint height" and c: "0 \<le> col" "col < uint pp" for row col
  proof -
    have "nat row < ?h" "nat col < ?w" using r c by (simp_all add: nat_less_unat)
    then have small: "nat row * ?w + nat col < 2 ^ 64" using cell lt by (meson order_less_trans)
    have "row < 2 ^ 64" "col < 2 ^ 64" using r(2) c(2) uint_lt2p [of height] uint_lt2p [of pp] by simp_all
    then have "unat (of_int row :: u64) = nat row" "unat (of_int col :: u64) = nat col" using r c by (simp_all add: unat_of_int_u64)
    then show ?thesis using small by (simp add: unat_word_ariths)
  qed
  let ?d = "16 * ?w"
  have inner: "for_int 0 (uint pp) (\<lambda>col p. let dest_row = of_int row - font_height;
             dest = unat (dest_row * pp + of_int col); src = unat (of_int row * pp + of_int col)
         in if src < length p \<and> dest < length p then Some (p[dest := p ! src]) else None) (shifted ?d k p)
       = Some (shifted ?d (k + ?w) p)"
    if row: "16 \<le> row" "row < uint height" and k: "k = nat (row - 16) * ?w" for row k
  proof -
    have "for_int 0 (uint pp) (\<lambda>col p. let dest_row = of_int row - font_height;
             dest = unat (dest_row * pp + of_int col); src = unat (of_int row * pp + of_int col)
         in if src < length p \<and> dest < length p then Some (p[dest := p ! src]) else None) (shifted ?d k p)
       = Some (shifted ?d (k + nat (uint pp - 0) * 1) p)"
    proof (rule for_int_steps)
      fix col j assume col: "0 \<le> col" "col < uint pp" and j: "j = k + nat (col - 0) * 1"
      have "of_int row - font_height = of_int (row - 16)" by (simp add: font_height_def)
      then have dest: "unat ((of_int row - font_height) * pp + of_int col) = j"
        using index [of "row - 16" col] row col by (simp add: k j)
      have "nat row = 16 + nat (row - 16)" using row by simp
      then have src: "unat (of_int row * pp + of_int col) = j + ?d"
        using index [of row col] row col by (simp add: k j algebra_simps)
      have "nat row < ?h" "nat col < ?w" using row col by (simp_all add: nat_less_unat)
      then have "j + ?d < length p" using cell [of "nat row" "nat col"] index [of row col] src row col len by simp
      moreover have "0 < ?d" using \<open>nat col < ?w\<close> by simp
      ultimately show "(let dest_row = of_int row - font_height;
             dest = unat (dest_row * pp + of_int col); src = unat (of_int row * pp + of_int col)
         in if src < length (shifted ?d j p) \<and> dest < length (shifted ?d j p)
            then Some ((shifted ?d j p)[dest := shifted ?d j p ! src]) else None) = Some (shifted ?d (j + 1) p)"
        unfolding Let_def dest src using shifted_step [of j ?d p] by simp
    qed
    then show ?thesis by simp
  qed
  have "move_rows font_height height pp (shifted ?d 0 p) = Some (shifted ?d (0 + nat (uint height - 16) * ?w) p)"
    unfolding move_rows_def font_c_int by (rule for_int_steps) (rule inner, simp_all)
  moreover have "nat (uint height - 16) = ?h - 16"
  proof -
    have "int ?h = uint height" by simp
    then show ?thesis by linarith
  qed
  ultimately show ?thesis by (simp add: shifted_def)
qed

lemma clear_last_line_ok:
  assumes len: "unat height * unat pp \<le> length p" and lt: "unat height * unat pp < 2 ^ 64" and h: "16 \<le> unat height"
  shows "\<exists>q. clear_last_line font_height height pp color p = Some q \<and> length q = length p
     \<and> (\<forall>i < length p. q ! i = (if (unat height - 16) * unat pp \<le> i \<and> i < unat height * unat pp then color else p ! i))"
proof -
  let ?w = "unat pp" and ?a = "(unat height - 16) * unat pp"
  have e: "unat height * ?w = ?a + 16 * ?w" using h by (simp add: diff_mult_distrib)
  then have "unat (font_height * pp) = 16 * ?w" using lt by (simp add: unat_word_ariths font_height_def)
  then have n: "uint (font_height * pp) = int (16 * ?w)" by (metis of_nat_unat)
  have "unat (height - font_height) = unat height - 16" using h by (subst unat_sub) (simp_all add: font_height_def word_le_nat_alt)
  then have a: "unat ((height - font_height) * pp) = ?a" using lt e by (simp add: unat_word_ariths)
  define g where "g k = map (\<lambda>i. if ?a \<le> i \<and> i < ?a + k then color else p ! i) [0..<length p]" for k
  have "clear_last_line font_height height pp color (g 0) = Some (g (0 + nat (int (16 * ?w) - 0) * 1))"
    unfolding clear_last_line_def n
  proof (rule for_int_steps)
    fix i k assume i: "0 \<le> i" "i < int (16 * ?w)" and k: "k = 0 + nat (i - 0) * 1"
    have "?a + nat i < length p" using i e len by linarith
    moreover have "(g k)[?a + nat i := color] = g (k + 1)"
      using \<open>?a + nat i < length p\<close> k by (intro nth_equalityI) (auto simp: g_def nth_list_update)
    ultimately show "(let a = unat ((height - font_height) * pp) + nat i
        in if a < length (g k) then Some ((g k)[a := color]) else None) = Some (g (k + 1))"
      unfolding a Let_def by (simp add: g_def)
  qed
  moreover have "g 0 = p" by (intro nth_equalityI) (auto simp: g_def)
  ultimately have "clear_last_line font_height height pp color p = Some (g (16 * ?w))" by (simp only: minus_int_code nat_int mult_1_right add_0)
  then show ?thesis using e by (auto simp: g_def)
qed

section \<open>The cursor stays on the screen\<close>

text \<open>The text on the serial log.\<close>

definition log_text :: "terminal \<Rightarrow> bytes" where
  "log_text t = take (serial_log_index t) (serial_log t)"

definition log_ok :: "terminal \<Rightarrow> bool" where
  "log_ok t \<longleftrightarrow> length (serial_log t) = 8192 \<and> serial_log_index t < 8192 \<and> serial_log t ! serial_log_index t = 0"

lemma serial_putchar_log:
  assumes "log_ok t"
  shows "log_ok (serial_putchar c t)" "log_text (serial_putchar c t) = take 8191 (log_text t @ [c])"
proof -
  show "log_ok (serial_putchar c t)"
    using assms by (auto simp: log_ok_def serial_putchar_def SERIAL_LOG_SIZE_def)
  show "log_text (serial_putchar c t) = take 8191 (log_text t @ [c])"
    using assms by (auto simp: log_ok_def log_text_def serial_putchar_def SERIAL_LOG_SIZE_def take_Suc_conv_app_nth)
qed

text \<open>A terminal with a valid framebuffer that holds a text line, the fonts, and the cursor on the screen.\<close>

definition display_ok :: "terminal \<Rightarrow> bool" where
  "display_ok t \<longleftrightarrow> screen_ok t \<and> 16 \<le> unat (fb0_height t) \<and> unat (fb0_height t) < 2 ^ 30 \<and> 0 < unat (fb0_width t) \<and> length (g_8x16_font t) = 4096"

definition cursor_ok :: "terminal \<Rightarrow> bool" where
  "cursor_ok t \<longleftrightarrow> 0 \<le> cur_x t \<and> cur_x t < uint (fb0_width t) \<and> 0 \<le> cur_y t \<and> cur_y t < uint (fb0_height t)"

text \<open>Two terminals that differ in pixels and cursor only.\<close>

definition redrawn :: "terminal \<Rightarrow> terminal \<Rightarrow> bool" where
  "redrawn t t' \<longleftrightarrow> fb0_address t \<noteq> None \<and> fb0_address t' \<noteq> None \<and> length (the (fb0_address t')) = length (the (fb0_address t))
     \<and> fb0_width t' = fb0_width t \<and> fb0_height t' = fb0_height t \<and> fb0_pitch t' = fb0_pitch t
     \<and> text_color t' = text_color t \<and> back_color t' = back_color t \<and> g_8x8_font t' = g_8x8_font t \<and> g_8x16_font t' = g_8x16_font t
     \<and> cursor_visible t' = cursor_visible t \<and> prev_cursor_x t' = prev_cursor_x t \<and> prev_cursor_y t' = prev_cursor_y t
     \<and> serial_log t' = serial_log t \<and> serial_log_index t' = serial_log_index t \<and> serial_locked t' = serial_locked t"

lemma redrawn_trans [trans]: "redrawn t t' \<Longrightarrow> redrawn t' t'' \<Longrightarrow> redrawn t t''"
  by (simp add: redrawn_def)

lemma redrawnD:
  assumes "redrawn t t'"
  shows "display_ok t' \<longleftrightarrow> display_ok t" "log_ok t' \<longleftrightarrow> log_ok t" "log_text t' = log_text t"
    "fb0_width t' = fb0_width t" "fb0_height t' = fb0_height t" "serial_locked t' = serial_locked t"
    "g_8x16_font t' = g_8x16_font t" "text_color t' = text_color t" "back_color t' = back_color t"
  using assms by (auto simp: redrawn_def display_ok_def screen_ok_def row_pixels_def log_ok_def log_text_def split: option.splits)

lemma display_address: "display_ok t \<Longrightarrow> \<exists>p. fb0_address t = Some p"
  using screen_ok_address by (auto simp: display_ok_def)

lemma redrawn_cursor: "display_ok t \<Longrightarrow> redrawn t (t\<lparr>cur_x := x, cur_y := y\<rparr>)"
  using display_address [of t] by (auto simp: redrawn_def)

lemma display_bounds:
  assumes "display_ok t"
  shows "c_int (fb0_width t) = uint (fb0_width t)" "c_int (fb0_height t) = uint (fb0_height t)"
    "uint (fb0_width t) < 2 ^ 29" "uint (fb0_height t) < 2 ^ 30" "16 \<le> uint (fb0_height t)" "0 < uint (fb0_width t)"
proof -
  have w: "unat (fb0_width t) < 2 ^ 29" "unat (fb0_height t) < 2 ^ 30" "16 \<le> unat (fb0_height t)" "0 < unat (fb0_width t)"
    using assms by (simp_all add: display_ok_def screen_ok_def)
  then show "c_int (fb0_width t) = uint (fb0_width t)" "c_int (fb0_height t) = uint (fb0_height t)" by (simp_all add: c_int_small)
  have "int (unat (fb0_width t)) < int (2 ^ 29)" "int (unat (fb0_height t)) < int (2 ^ 30)" "int 16 \<le> int (unat (fb0_height t))"
    "int 0 < int (unat (fb0_width t))" using w by (simp_all only: of_nat_less_iff of_nat_le_iff)
  then show "uint (fb0_width t) < 2 ^ 29" "uint (fb0_height t) < 2 ^ 30" "16 \<le> uint (fb0_height t)" "0 < uint (fb0_width t)"
    by simp_all
qed

lemma scroll_up_shifts:
  assumes "display_ok t"
  shows "\<exists>q. scroll_up t = Some (t\<lparr>fb0_address := Some q\<rparr>) \<and> length q = length (the (fb0_address t))
    \<and> (\<forall>x y. on_screen x y t \<longrightarrow> pixel_at (t\<lparr>fb0_address := Some q\<rparr>) x y
        = (if y + 16 < uint (fb0_height t) then pixel_at t x (y + 16) else back_color t))"
proof -
  obtain p where p: "fb0_address t = Some p" using display_address [OF assms] by blast
  let ?pp = "fb0_pitch t div 4" and ?h = "unat (fb0_height t)" and ?w = "row_pixels t"
  have pp: "unat ?pp = ?w" by (simp add: row_pixels_def unat_div)
  have ok: "screen_ok t" and h: "16 \<le> ?h" using assms by (simp_all add: display_ok_def)
  have len: "?h * unat ?pp \<le> length p"
    using ok p by (simp add: screen_ok_def pp mult.commute)
  have "?h * unat ?pp \<le> unat (fb0_pitch t) * ?h" by (simp add: pp row_pixels_def)
  also have "\<dots> < 2 ^ 64" using ok by (simp add: screen_ok_def)
  finally have lt: "?h * unat ?pp < 2 ^ 64" .
  note m = move_rows_ok [OF len lt h]
  let ?k = "(?h - 16) * unat ?pp"
  let ?p' = "shifted (16 * unat ?pp) ?k p"
  have kd: "?k + 16 * unat ?pp = ?h * unat ?pp" using h by (simp add: diff_mult_distrib)
  then have l: "length ?p' = length p" using len by (intro length_shifted) simp
  with clear_last_line_ok [OF _ lt h, of ?p' "back_color t"] len
  obtain q where q: "clear_last_line font_height (fb0_height t) ?pp (back_color t) ?p' = Some q" "length q = length p"
    "\<forall>i < length p. q ! i = (if ?k \<le> i \<and> i < ?h * unat ?pp then back_color t else ?p' ! i)" by auto
  have "scroll_up t = Some (t\<lparr>fb0_address := Some q\<rparr>)" unfolding scroll_up_def using m p q(1) by simp
  moreover have "pixel_at (t\<lparr>fb0_address := Some q\<rparr>) x y
      = (if y + 16 < uint (fb0_height t) then pixel_at t x (y + 16) else back_color t)" if on: "on_screen x y t" for x y
  proof -
    note n = on_screen_nat [OF ok on]
    let ?i = "nat y * ?w + nat x"
    have i: "?i < length p" "?i < ?h * ?w" using n(7) p n(1,2) row_index_less [of "nat y" ?h "nat x" ?w] by simp_all
    have y: "y + 16 < uint (fb0_height t) \<longleftrightarrow> nat y < ?h - 16" 
      using on h by (simp add: on_screen_def nat_less_iff less_diff_eq)
    have "pixel_at (t\<lparr>fb0_address := Some q\<rparr>) x y = q ! ?i" by (simp add: pixel_at_def row_pixels_def)
    also have "\<dots> = (if nat y < ?h - 16 then p ! (?i + 16 * ?w) else back_color t)"
    proof (cases "nat y < ?h - 16")
      case True
      then have "?i < ?k" using row_index_less [of "nat y" "?h - 16" "nat x" ?w] n(1) by (simp add: pp)
      then show ?thesis using q(3) i True len kd by (simp add: pp shifted_def nth_append add.commute)
    next
      case False
      then have "(?h - 16) * ?w \<le> nat y * ?w" by (intro mult_le_mono1) simp
      then have "?k \<le> ?i" unfolding pp by (rule trans_le_add1)
      then show ?thesis using q(3) i False by (simp add: pp)
    qed
    also have "?i + 16 * ?w = nat (y + 16) * ?w + nat x" using on by (simp add: on_screen_def nat_add_distrib algebra_simps)
    finally show ?thesis unfolding y by (simp add: pixel_at_def p)
  qed
  ultimately show ?thesis using q(2) p by auto
qed

lemma display_ok_upd [simp]: "display_ok (t\<lparr>cur_x := x\<rparr>) \<longleftrightarrow> display_ok t" "display_ok (t\<lparr>cur_y := y\<rparr>) \<longleftrightarrow> display_ok t"
  by (simp_all add: display_ok_def screen_ok_def row_pixels_def split: option.split)

lemma scroll_up_redrawn:
  assumes "display_ok t"
  shows "\<exists>t'. scroll_up t = Some t' \<and> redrawn t t' \<and> cur_x t' = cur_x t \<and> cur_y t' = cur_y t"
  using scroll_up_shifts [OF assms] display_address [OF assms] by (auto simp: redrawn_def)

lemma redrawn_refl: "display_ok t \<Longrightarrow> redrawn t t"
  using display_address by (auto simp: redrawn_def)

lemma update_cur_pos_ok:
  assumes t: "display_ok t" and c: "0 \<le> cur_x t" "cur_x t < 2 ^ 30" "0 \<le> cur_y t" "cur_y t < uint (fb0_height t)"
  shows "\<exists>t'. update_cur_pos t = Some t' \<and> redrawn t t' \<and> cursor_ok t' \<and> (cur_x t + 4 < uint (fb0_width t) \<longrightarrow> cur_x t' = cur_x t + 4)"
proof -
  note b = display_bounds [OF t]
  define x where "x = cur_x t + 4"
  define y where "y = (if x \<ge> uint (fb0_width t) then cur_y t + 16 else cur_y t)"
  define t1 where "t1 = t\<lparr>cur_x := (if x \<ge> uint (fb0_width t) then 0 else x), cur_y := y\<rparr>"
  have ok: "int_ok x" "int_ok y" using c b(4) by (auto simp: x_def y_def int_ok_def)
  have d1: "display_ok t1" "redrawn t t1" using t redrawn_cursor by (simp_all add: t1_def)
  have x1: "0 \<le> cur_x t1" "cur_x t1 < uint (fb0_width t)" using c b(6) by (auto simp: t1_def x_def)
  have y1: "cur_y t1 = y" "fb0_height t1 = fb0_height t" "fb0_width t1 = fb0_width t" by (simp_all add: t1_def)
  have u: "update_cur_pos t = (if y \<ge> uint (fb0_height t) then do { t' \<leftarrow> scroll_up t1; Some (t'\<lparr>cur_y := y - 16\<rparr>) } else Some t1)"
    using ok b(1,2) by (simp add: update_cur_pos_def Let_def x_def y_def t1_def split: if_splits)
  obtain t2 where t2: "scroll_up t1 = Some t2" "redrawn t1 t2" "cur_x t2 = cur_x t1" "cur_y t2 = cur_y t1"
    using scroll_up_redrawn [OF d1(1)] by blast
  show ?thesis
  proof (cases "y \<ge> uint (fb0_height t)")
    case True
    have "redrawn t t2" using d1(2) t2(2) by (rule redrawn_trans)
    moreover have "redrawn t2 (t2\<lparr>cur_y := y - 16\<rparr>)" using calculation by (simp add: redrawn_def)
    ultimately have "redrawn t (t2\<lparr>cur_y := y - 16\<rparr>)" by (rule redrawn_trans)
    moreover have "cursor_ok (t2\<lparr>cur_y := y - 16\<rparr>)"
      using True x1 t2(3) c b(5) redrawnD(4,5) [OF \<open>redrawn t t2\<close>] by (auto simp: cursor_ok_def y_def)
    ultimately show ?thesis using u True t2(1) c by (auto simp: y_def x_def)
  next
    case False
    then show ?thesis using u d1(2) x1 y1 c by (auto simp: cursor_ok_def y_def x_def t1_def)
  qed
qed

lemma create_newline_ok:
  assumes t: "display_ok t" and c: "cursor_ok t"
  shows "\<exists>t'. create_newline t = Some t' \<and> redrawn t t' \<and> cur_x t' = 0 \<and> 0 \<le> cur_y t' \<and> cur_y t' < uint (fb0_height t)"
proof -
  note b = display_bounds [OF t]
  define y where "y = cur_y t + 16"
  define t1 where "t1 = t\<lparr>cur_x := 0, cur_y := y\<rparr>"
  have y: "int_ok y" "int_ok (y - 16)" "16 \<le> y" "y < uint (fb0_height t) + 16" using c b(4) by (auto simp: y_def int_ok_def cursor_ok_def)
  have "of_int (cur_y t) + font_height = of_int y" by (simp add: y_def font_height_def)
  then have t1: "t\<lparr>cur_x := 0, cur_y := c_int (of_int (cur_y t) + font_height)\<rparr> = t1" using y by (simp add: t1_def c_int_of_int)
  have d1: "display_ok t1" "redrawn t t1" using t redrawn_cursor by (simp_all add: t1_def)
  have "of_int y - font_height = of_int (y - 16)" by (simp add: font_height_def)
  then have dn: "c_int (of_int y - font_height) = y - 16" by (simp only: c_int_of_int [OF y(2)])
  have cmp: "of_int y \<ge> fb0_height t - font_height \<longleftrightarrow> uint (fb0_height t) - 16 \<le> y"
  proof -
    have "uint (fb0_height t - font_height) = uint (fb0_height t) - 16"
      using b(5) by (subst uint_sub_lem [THEN iffD1]) (simp_all add: word_le_def)
    then show ?thesis using y(1,3) by (simp add: of_int_ge_iff)
  qed
  obtain t2 where t2: "scroll_up t1 = Some t2" "redrawn t1 t2" "cur_x t2 = cur_x t1" "cur_y t2 = cur_y t1"
    using scroll_up_redrawn [OF d1(1)] by blast
  have u: "create_newline t = (if uint (fb0_height t) - 16 \<le> y then Some (t2\<lparr>cur_y := y - 16\<rparr>) else Some t1)"
    using cmp t2 dn by (simp add: create_newline_def t1) (simp add: t1_def)
  have "redrawn t t2" using d1(2) t2(2) by (rule redrawn_trans)
  then have "redrawn t (t2\<lparr>cur_y := y - 16\<rparr>)" by (simp add: redrawn_def)
  then show ?thesis using u d1(2) t2 y c by (auto simp: t1_def cursor_ok_def y_def)
qed

text \<open>A glyph is the set bits of its rows, drawn at the given place.\<close>

definition glyph_points :: "nat \<Rightarrow> bytes \<Rightarrow> int \<Rightarrow> int \<Rightarrow> int \<Rightarrow> (int \<times> int) list" where
  "glyph_points n font c x y = concat (map (\<lambda>row. concat (map (\<lambda>col.
     if bit (font ! nat (c * int n + row)) (nat (7 - col)) then [(x + col, y + row)] else []) [0..7])) [0..int n - 1])"

lemma draw_glyph_plot:
  assumes "screen_ok t" "0 \<le> c" "(nat c + 1) * n \<le> length font" "0 \<le> x" "x < 2 ^ 30" "0 \<le> y" "y < 2 ^ 30" "n \<le> 16"
  shows "draw_glyph n font c x y color t = Some (plot (glyph_points n font c x y) color t)"
proof -
  have row: "for_int 0 8 (\<lambda>col t. let i = c * int n + row in if 0 \<le> i \<and> nat i < length font
        then if bit (font ! nat i) (nat (7 - col)) then px (x + col) (y + row) color t else Some t else None) t
     = Some (plot (concat (map (\<lambda>col. if bit (font ! nat (c * int n + row)) (nat (7 - col)) then [(x + col, y + row)] else []) [0..8 - 1])) color t)"
    if r: "0 \<le> row" "row < int n" and "screen_ok t" for row and t :: terminal
  proof (rule for_int_plot [OF _ \<open>screen_ok t\<close>])
    fix col and t :: terminal assume col: "0 \<le> col" "col < (8 :: int)" and ok: "screen_ok t"
    have "nat (c * int n + row) < length font"
    proof -
      have "nat (c * int n + row) = nat c * n + nat row"
        using r assms(2) by (simp add: nat_add_distrib nat_mult_distrib)
      also have "\<dots> < (nat c + 1) * n" using r by simp
      finally show ?thesis using assms(3) by simp
    qed
    moreover have "int_ok (x + col)" "int_ok (y + row)" using assms(4-8) col r by (auto simp: int_ok_def)
    ultimately show "(let i = c * int n + row in if 0 \<le> i \<and> nat i < length font
        then if bit (font ! nat i) (nat (7 - col)) then px (x + col) (y + row) color t else Some t else None)
      = Some (plot (if bit (font ! nat (c * int n + row)) (nat (7 - col)) then [(x + col, y + row)] else []) color t)"
      using r assms(2) ok by (simp add: Let_def px_def set_pixel_ok)
  qed
  have "draw_glyph n font c x y color t = Some (plot (concat (map (\<lambda>row. concat (map (\<lambda>col.
      if bit (font ! nat (c * int n + row)) (nat (7 - col)) then [(x + col, y + row)] else []) [0..8 - 1])) [0..int n - 1])) color t)"
    unfolding draw_glyph_def by (rule for_int_plot [OF row assms(1)])
  then show ?thesis by (simp add: glyph_points_def)
qed

lemma plot_redrawn:
  assumes "display_ok t"
  shows "redrawn t (plot ps color t)" "cur_x (plot ps color t) = cur_x t" "cur_y (plot ps color t) = cur_y t"
proof -
  have "screen_ok t" using assms by (simp add: display_ok_def)
  then obtain p q where "fb0_address t = Some p" "length q = length p" "plot ps color t = t\<lparr>fb0_address := Some q\<rparr>"
    using plot_geometry [of t ps color] by (auto simp: same_geometry_def)
  then show "redrawn t (plot ps color t)" "cur_x (plot ps color t) = cur_x t" "cur_y (plot ps color t) = cur_y t"
    by (simp_all add: redrawn_def)
qed

lemma put_glyph_ok:
  assumes t: "display_ok t" and c: "cursor_ok t" and ch: "c < 128"
  shows "\<exists>t'. put_glyph c color t = Some t' \<and> redrawn t t' \<and> cursor_ok t'"
proof -
  note b = display_bounds [OF t]
  have ok: "screen_ok t" and font: "length (g_8x16_font t) = 4096" using t by (simp_all add: display_ok_def)
  have cur: "0 \<le> cur_x t" "cur_x t < 2 ^ 29" "0 \<le> cur_y t" "cur_y t < 2 ^ 30" using c b by (auto simp: cursor_ok_def)
  have "uint c < 128" using ch by (simp add: word_less_def)
  then have "signed_take_bit 7 (uint c) = uint c" by (intro signed_take_bit_int_eq_self) (simp_all add: order_trans [of _ 0])
  then have "sint c = uint c" by (simp add: sint_uint)
  then have s: "0 \<le> sint c" "sint c < 128" using \<open>uint c < 128\<close> by simp_all
  let ?t1 = "plot (glyph_points 16 (g_8x16_font t) (sint c) (cur_x t) (cur_y t)) color t"
  have g: "draw_glyph 16 (g_8x16_font t) (sint c) (cur_x t) (cur_y t) color t = Some ?t1"
    using ok s cur font by (intro draw_glyph_plot) auto
  note p = plot_redrawn [OF t, of "glyph_points 16 (g_8x16_font t) (sint c) (cur_x t) (cur_y t)" color]
  have d1: "display_ok ?t1" "cur_x ?t1 < 2 ^ 30" "cur_y ?t1 < uint (fb0_height ?t1)"
    using p t c cur redrawnD(1,5) [OF p(1)] by (auto simp: cursor_ok_def)
  obtain t2 where t2: "update_cur_pos ?t1 = Some t2" "redrawn ?t1 t2" "cursor_ok t2"
    using update_cur_pos_ok [OF d1(1)] d1 p cur by auto
  have d2: "display_ok t2" using redrawnD(1) [OF t2(2)] d1(1) by simp
  have "cur_x t2 + 1 < 2 ^ 30" using t2(3) display_bounds(3) [OF d2] by (simp add: cursor_ok_def)
  then obtain t3 where t3: "update_cur_pos (t2\<lparr>cur_x := cur_x t2 + 1\<rparr>) = Some t3" "redrawn (t2\<lparr>cur_x := cur_x t2 + 1\<rparr>) t3" "cursor_ok t3"
    using update_cur_pos_ok [of "t2\<lparr>cur_x := cur_x t2 + 1\<rparr>"] d2 t2(3) by (auto simp: cursor_ok_def)
  have "redrawn t2 (t2\<lparr>cur_x := cur_x t2 + 1\<rparr>)" using redrawn_refl [OF d2] by (simp add: redrawn_def)
  then have "redrawn t t3" using p(1) t2(2) t3(2) redrawn_trans by blast
  moreover have "int_ok (cur_x t2 + 1)" using \<open>cur_x t2 + 1 < 2 ^ 30\<close> t2(3) by (simp add: int_ok_def cursor_ok_def)
  ultimately show ?thesis
    using g t2(1) t3 by (simp add: put_glyph_def draw_char_def draw_char_8x16_def font_size_def font_height_def)
qed

lemma serial_putchar_other:
  "display_ok (serial_putchar c t) \<longleftrightarrow> display_ok t" "cursor_ok (serial_putchar c t) \<longleftrightarrow> cursor_ok t"
  "serial_locked (serial_putchar c t) = serial_locked t" "text_color (serial_putchar c t) = text_color t"
  "cur_x (serial_putchar c t) = cur_x t" "cur_y (serial_putchar c t) = cur_y t"
  "fb0_width (serial_putchar c t) = fb0_width t" "fb0_height (serial_putchar c t) = fb0_height t"
  by (simp_all add: serial_putchar_def display_ok_def cursor_ok_def screen_ok_def row_pixels_def split: option.splits)

lemma put_control_ok:
  assumes t: "display_ok t" and c: "cursor_ok t" and ch: "c \<noteq> 8"
  shows "\<exists>t'. put_control c t = Some t' \<and> redrawn t t' \<and> cursor_ok t'"
proof -
  note b = display_bounds [OF t]
  have move: "\<exists>t'. update_cur_pos (t\<lparr>cur_x := x\<rparr>) = Some t' \<and> redrawn t t' \<and> cursor_ok t'" if "0 \<le> x" "x < 2 ^ 30" for x
  proof -
    obtain t' where "update_cur_pos (t\<lparr>cur_x := x\<rparr>) = Some t'" "redrawn (t\<lparr>cur_x := x\<rparr>) t'" "cursor_ok t'"
      using update_cur_pos_ok [of "t\<lparr>cur_x := x\<rparr>"] t c \<open>0 \<le> x\<close> \<open>x < 2 ^ 30\<close> by (auto simp: cursor_ok_def)
    moreover have "redrawn t (t\<lparr>cur_x := x\<rparr>)" using redrawn_refl [OF t] by (simp add: redrawn_def)
    ultimately show ?thesis using redrawn_trans by blast
  qed
  have newline: "\<exists>t'. (do { t \<leftarrow> create_newline t; update_cur_pos t }) = Some t' \<and> redrawn t t' \<and> cursor_ok t'"
  proof -
    obtain t1 where t1: "create_newline t = Some t1" "redrawn t t1" "cur_x t1 = 0" "0 \<le> cur_y t1" "cur_y t1 < uint (fb0_height t)"
      using create_newline_ok [OF t c] by blast
    moreover obtain t2 where "update_cur_pos t1 = Some t2" "redrawn t1 t2" "cursor_ok t2"
      using update_cur_pos_ok [of t1] t1 t redrawnD(1,5) [OF t1(2)] by auto
    ultimately show ?thesis using redrawn_trans by auto
  qed
  have "0 \<le> (cur_x t + 4) AND NOT 3" "(cur_x t + 4) AND NOT 3 < 2 ^ 30"
    using c b(3) AND_upper1 [of "cur_x t + 4" "NOT 3"] by (simp_all add: cursor_ok_def del: AND_upper1)
  then show ?thesis
    using move [of 0] move [of "(cur_x t + 4) AND NOT 3"] newline ch c redrawn_refl [OF t] b(3)
    by (auto simp: put_control_def cursor_ok_def int_ok_def)
qed

text \<open>What every step of the terminal keeps, and its text on the log.\<close>

definition term_ok :: "terminal \<Rightarrow> bool" where
  "term_ok t \<longleftrightarrow> display_ok t \<and> cursor_ok t \<and> log_ok t"

lemma putchar_ok:
  assumes "term_ok t" "c \<noteq> 8"
  shows "\<exists>t'. putchar c t = Some t' \<and> term_ok t' \<and> log_text t' = take 8191 (log_text t @ [c]) \<and> serial_locked t' = serial_locked t"
proof -
  let ?s = "serial_putchar c t"
  have s: "display_ok ?s" "cursor_ok ?s" "log_ok ?s" "log_text ?s = take 8191 (log_text t @ [c])"
    using assms serial_putchar_log serial_putchar_other by (auto simp: term_ok_def)
  have "(if c \<ge> 128 then 63 else c) < 128" by (simp add: not_le)
  then obtain t' where t': "(if c \<in> {9, 13, 10, 8, 0} then put_control c ?s
      else put_glyph (if c \<ge> 128 then 63 else c) (text_color ?s) ?s) = Some t'" "redrawn ?s t'" "cursor_ok t'"
    using put_control_ok [OF s(1,2) assms(2)] put_glyph_ok [OF s(1,2), of "if c \<ge> 128 then 63 else c" "text_color ?s"]
    by (cases "c \<in> {9, 13, 10, 8, 0}") (simp_all only: if_True if_False, blast+)
  then have "putchar c t = Some t'" by (simp only: putchar_def Let_def)
  then show ?thesis using t' s redrawnD [OF t'(2)] serial_putchar_other by (auto simp: term_ok_def)
qed

lemma take_take_append: "take n (take n a @ b) = take n (a @ b)"
  by (auto simp: min_def)

lemma putchars_ok:
  assumes "term_ok t" "8 \<notin> set cs"
  shows "\<exists>t'. putchars cs t = Some t' \<and> term_ok t' \<and> log_text t' = take 8191 (log_text t @ cs) \<and> serial_locked t' = serial_locked t"
  using assms
proof (induction cs arbitrary: t)
  case Nil
  then show ?case by (simp add: term_ok_def log_ok_def log_text_def)
next
  case (Cons c cs)
  then obtain t1 where t1: "putchar c t = Some t1" "term_ok t1" "log_text t1 = take 8191 (log_text t @ [c])" "serial_locked t1 = serial_locked t"
    using putchar_ok by (metis list.set_intros(1))
  moreover obtain t2 where "putchars cs t1 = Some t2" "term_ok t2" "log_text t2 = take 8191 (log_text t1 @ cs)" "serial_locked t2 = serial_locked t1"
    using Cons.IH [OF t1(2)] Cons.prems by auto
  moreover have "take n (take n (xs @ [c]) @ cs) = take n (xs @ c # cs)" for n xs
    using take_take_append [of n "xs @ [c]" cs] by simp
  ultimately show ?case by auto
qed

text \<open>
  C27. Printing text without backspace characters never leaves the screen: \<open>printf\<close> on a terminal with a valid framebuffer, whose cursor
  is on the screen and whose lock is free, returns, releases the lock, has the cursor on the screen again and keeps the framebuffer, and
  appends the formatted text to the serial log, which holds 8191 bytes and drops what is beyond them. A backspace can move the cursor off the
  screen (\<open>backspace_after_newline_leaves_screen\<close> below).
\<close>

theorem printf_keeps_cursor_on_screen:
  assumes "term_ok t" "\<not> serial_locked t" "vprintf fp fmt args m = Some cs" "8 \<notin> set cs"
  shows "\<exists>t'. printf fp fmt args m t = Some t' \<and> term_ok t' \<and> \<not> serial_locked t'
    \<and> log_text t' = take 8191 (log_text t @ cs)"
proof -
  let ?t = "t\<lparr>serial_locked := True\<rparr>"
  have upd: "term_ok (t\<lparr>serial_locked := l\<rparr>) \<longleftrightarrow> term_ok t" "log_text (t\<lparr>serial_locked := l\<rparr>) = log_text t" for t l
    by (auto simp: term_ok_def display_ok_def cursor_ok_def log_ok_def log_text_def screen_ok_def row_pixels_def split: option.splits)
  obtain t' where "putchars cs ?t = Some t'" "term_ok t'" "log_text t' = take 8191 (log_text ?t @ cs)"
    using putchars_ok [of ?t cs] assms(1,4) upd by auto
  then show ?thesis using assms(2,3) upd by (simp add: printf_def acquire_def release_def)
qed

definition sample_term :: terminal where
  "sample_term = \<lparr>fb0_address = Some (replicate 640 0), fb0_width = 20, fb0_height = 32, fb0_pitch = 80,
     cur_x = 0, cur_y = 0, text_color = 7, back_color = 0, g_8x8_font = replicate 2048 0, g_8x16_font = replicate 4096 0xFF,
     cursor_visible = True, prev_cursor_x = - 1, prev_cursor_y = - 1, serial_log = replicate 8192 0, serial_log_index = 0,
     serial_locked = False\<rparr>"

lemma sample_term_ok: "term_ok sample_term"
  by (simp add: term_ok_def display_ok_def screen_ok_def row_pixels_def cursor_ok_def log_ok_def sample_term_def)

theorem printf_keeps_cursor_on_screen_witness:
  "\<exists>t'. printf sample_fp (map of_char ''%d'' @ [0]) [AInt 42] Map.empty sample_term = Some t' \<and> log_text t' = map of_char ''42''"
proof -
  have "vprintf sample_fp (map of_char ''%d'' @ [0]) [AInt 42] Map.empty = Some (map of_char ''42'')" by code_simp
  then show ?thesis
    using printf_keeps_cursor_on_screen [OF sample_term_ok, of sample_fp "map of_char ''%d'' @ [0]" "[AInt 42]" Map.empty "map of_char ''42''"]
    by (auto simp: sample_term_def log_text_def of_char_def)
qed

section \<open>The backspace\<close>

lemma backspace_erases:
  assumes t: "display_ok t" and c: "0 < cur_x t" "cur_x t < 2 ^ 29" "0 \<le> cur_y t" "cur_y t < 2 ^ 30"
  shows "\<exists>t'. backspace_manage t = Some t' \<and> cur_x t' = cur_x t - 8 \<and> cur_y t' = cur_y t"
proof -
  define s where "s = serial_clearchar t"
  have s: "display_ok s" "cur_x s = cur_x t" "cur_y s = cur_y t"
    using t by (simp_all add: s_def serial_clearchar_def serial_putchar_other)
  define u where "u = s\<lparr>cur_x := cur_x t - 8\<rparr>"
  define P where "P v \<longleftrightarrow> display_ok v \<and> cur_x v = cur_x t - 8 \<and> cur_y v = cur_y t \<and> back_color v = back_color u" for v
  have P: "P u" using s by (simp add: P_def u_def)
  have plot: "P (plot ps color v)" if "P v" for ps color v
    using that plot_redrawn [of v ps color] redrawnD [OF plot_redrawn(1), of v ps color] by (simp add: P_def)
  let ?pts = "\<lambda>row. concat (map (\<lambda>col. [(cur_x t - 8 + col, cur_y t + row)]) [0..9 - 1])"
  have cell: "c_int (of_int (cur_x t - 8) + of_int col) = cur_x t - 8 + col" "c_int (of_int (cur_y t) + of_int row) = cur_y t + row"
      "int_ok (cur_x t - 8 + col)" "int_ok (cur_y t + row)"
    if "0 \<le> col" "col < 9" "0 \<le> row" "row < 16" for col row
  proof -
    show ok: "int_ok (cur_x t - 8 + col)" "int_ok (cur_y t + row)" using that c by (auto simp: int_ok_def)
    show "c_int (of_int (cur_x t - 8) + of_int col) = cur_x t - 8 + col" using c_int_of_int [OF ok(1)] by simp
    show "c_int (of_int (cur_y t) + of_int row) = cur_y t + row" using c_int_of_int [OF ok(2)] by simp
  qed
  have "for_int 0 9 (\<lambda>col v. set_pixel (c_int (of_int (cur_x v) + of_int col)) (c_int (of_int (cur_y v) + of_int row)) (back_color v) v) v
      = Some (plot (?pts row) (back_color u) v)" if "0 \<le> row" "row < 16" "P v" for row v
  proof (rule for_int_plot_inv [where P = P])
    show "set_pixel (c_int (of_int (cur_x w) + of_int col)) (c_int (of_int (cur_y w) + of_int row)) (back_color w) w
        = Some (plot [(cur_x t - 8 + col, cur_y t + row)] (back_color u) w)" if "0 \<le> col" "col < 9" "P w" for col w
      using cell [OF that(1,2) \<open>0 \<le> row\<close> \<open>row < 16\<close>] that(3) unfolding P_def display_ok_def by (simp add: set_pixel_ok)
  qed (use that plot in auto)
  then have "for_int 0 16 (\<lambda>row. for_int 0 9 (\<lambda>col v. set_pixel (c_int (of_int (cur_x v) + of_int col))
      (c_int (of_int (cur_y v) + of_int row)) (back_color v) v)) u = Some (plot (concat (map ?pts [0..16 - 1])) (back_color u) u)"
    using P plot by (rule for_int_plot_inv [where P = P])
  moreover have "P (plot (concat (map ?pts [0..16 - 1])) (back_color u) u)" using plot [OF P] .
  moreover have "c_int (of_int (cur_x t) - font_width) = cur_x t - 8"
    using c_int_of_int [of "cur_x t - 8"] c by (simp add: font_width_def int_ok_def)
  ultimately show ?thesis
    using c s by (simp add: backspace_manage_def Let_def s_def [symmetric] u_def [symmetric] P_def)
qed

text \<open>
  A backspace on a fresh line leaves the screen: after a line feed the cursor is in column 4, and a backspace then moves it to
  column -4, whatever the terminal showed before.
\<close>

theorem backspace_after_newline_leaves_screen:
  assumes "term_ok t" "4 < uint (fb0_width t)"
  shows "\<exists>t1 t2. putchar 10 t = Some t1 \<and> cur_x t1 = 4 \<and> putchar 8 t1 = Some t2 \<and> cur_x t2 = - 4 \<and> \<not> cursor_ok t2"
proof -
  let ?s = "serial_putchar 10 t"
  have s: "display_ok ?s" "cursor_ok ?s" using assms(1) by (simp_all add: term_ok_def serial_putchar_other)
  obtain a where a: "create_newline ?s = Some a" "redrawn ?s a" "cur_x a = 0" "0 \<le> cur_y a" "cur_y a < uint (fb0_height ?s)"
    using create_newline_ok [OF s] by blast
  have "display_ok a" "fb0_height a = fb0_height ?s" "fb0_width a = fb0_width t"
    using redrawnD [OF a(2)] s by (simp_all add: serial_putchar_other)
  then obtain t1 where t1: "update_cur_pos a = Some t1" "redrawn a t1" "cursor_ok t1" "cur_x t1 = 4"
    using update_cur_pos_ok [of a] a assms(2) by auto
  then have p: "putchar 10 t = Some t1" using a(1) by (simp add: putchar_def put_control_def)
  let ?r = "serial_putchar 8 t1"
  have d: "display_ok ?r" "display_ok t1" using redrawnD(1) [OF t1(2)] \<open>display_ok a\<close> by (simp_all add: serial_putchar_other)
  have "cur_y t1 < 2 ^ 30" "0 \<le> cur_y t1" using t1(3) display_bounds(4) [OF d(2)] by (auto simp: cursor_ok_def)
  then obtain t2 where "backspace_manage ?r = Some t2" "cur_x t2 = - 4"
    using backspace_erases [OF d(1)] t1(4) by (auto simp: serial_putchar_other)
  moreover from this have "putchar 8 t1 = Some t2" by (simp add: putchar_def put_control_def)
  ultimately show ?thesis using p t1(4) by (auto simp: cursor_ok_def)
qed

theorem backspace_after_newline_leaves_screen_witness:
  "\<exists>t1 t2. putchar 10 sample_term = Some t1 \<and> putchar 8 t1 = Some t2 \<and> cur_x t2 = - 4"
proof -
  have "4 < uint (fb0_width sample_term)" by (simp add: sample_term_def)
  then show ?thesis using backspace_after_newline_leaves_screen [OF sample_term_ok] by blast
qed

end
