(* ===== verification/RingBuffer.thy ===== *)
theory RingBuffer
  imports Prelude
begin

text \<open>
  The keyboard ring buffer (kernel/src/driver/keyboard/ring_buffer.c): a circular byte
  buffer with a write index, a read index and a full flag; pushing into a full buffer
  drops the oldest byte. The model keeps the C fields. A pointer argument is an option,
  NULL is \<open>None\<close>; the failures C does not define (a store outside the allocation, the
  remainder by a zero capacity) are values of \<open>rb_fault\<close>.

  The contract of a bounded first-in first-out queue that overwrites its oldest element is
  the locale \<open>lossy_queue\<close>; its clients (filling it with a stream of bytes, draining it as
  \<open>uses_of_ring_buffer\<close> does) are verified once there, and the C operations interpret it.
\<close>

section \<open>The contract of a lossy queue\<close>

locale lossy_queue =
  fixes push :: "'q \<Rightarrow> 'a \<Rightarrow> 'q"
    and pop :: "'q \<Rightarrow> ('a \<times> 'q) option"
    and contents :: "'q \<Rightarrow> 'a list"
    and capacity :: "'q \<Rightarrow> nat"
    and invar :: "'q \<Rightarrow> bool"
  assumes push_contents: "invar q \<Longrightarrow> contents (push q x) =
      (if length (contents q) < capacity q then contents q else tl (contents q)) @ [x]"
    and pop_empty: "invar q \<Longrightarrow> contents q = [] \<Longrightarrow> pop q = None"
    and pop_contents: "invar q \<Longrightarrow> contents q \<noteq> [] \<Longrightarrow>
      \<exists>q'. pop q = Some (hd (contents q), q') \<and> contents q' = tl (contents q) \<and>
           invar q' \<and> capacity q' = capacity q"
    and push_invar: "invar q \<Longrightarrow> invar (push q x)"
    and push_capacity: "invar q \<Longrightarrow> capacity (push q x) = capacity q"
    and capacity_pos: "invar q \<Longrightarrow> 0 < capacity q"
    and contents_bound: "invar q \<Longrightarrow> length (contents q) \<le> capacity q"
begin

lemma pushes_contents:
  assumes "invar q"
  shows "contents (foldl push q xs) =
      drop (length (contents q) + length xs - capacity q) (contents q @ xs) \<and>
    invar (foldl push q xs) \<and> capacity (foldl push q xs) = capacity q"
  using assms
proof (induction xs arbitrary: q)
  case Nil
  then show ?case using contents_bound by simp
next
  case (Cons x xs)
  have IH: "contents (foldl push (push q x) xs) =
      drop (length (contents (push q x)) + length xs - capacity q) (contents (push q x) @ xs)
    \<and> invar (foldl push (push q x) xs) \<and> capacity (foldl push (push q x) xs) = capacity q"
    using Cons.IH [of "push q x"] Cons.prems by (simp add: push_invar push_capacity)
  show ?case
  proof (cases "length (contents q) < capacity q")
    case True
    then show ?thesis using IH Cons.prems by (simp add: push_contents)
  next
    case False
    then have full: "length (contents q) = capacity q"
      using contents_bound [OF Cons.prems] by simp
    then have "contents q \<noteq> []" using capacity_pos [OF Cons.prems] by auto
    then obtain y ys where ys: "contents q = y # ys" by (cases "contents q") auto
    then show ?thesis using IH full [symmetric] Cons.prems by (simp add: push_contents)
  qed
qed

end

locale drained_queue = lossy_queue push pop contents capacity invar
  for push :: "'q \<Rightarrow> 'a \<Rightarrow> 'q" and pop :: "'q \<Rightarrow> ('a \<times> 'q) option"
    and contents :: "'q \<Rightarrow> 'a list" and capacity :: "'q \<Rightarrow> nat" and invar :: "'q \<Rightarrow> bool" +
  fixes drain :: "'q \<Rightarrow> 'a list option"
  assumes drain_pop_None: "invar q \<Longrightarrow> pop q = None \<Longrightarrow> drain q = Some []"
    and drain_pop_Some: "invar q \<Longrightarrow> pop q = Some (x, q') \<Longrightarrow> drain q = map_option (Cons x) (drain q')"
begin

lemma drain_contents: "invar q \<Longrightarrow> drain q = Some (contents q)"
proof (induction "contents q" arbitrary: q)
  case Nil
  then show ?case by (simp add: pop_empty drain_pop_None)
next
  case (Cons x xs)
  then have "contents q \<noteq> []" by auto
  then obtain q' where "pop q = Some (hd (contents q), q')" "contents q' = tl (contents q)"
    "invar q'" using pop_contents Cons.prems by blast
  then show ?case using Cons.hyps(1) [of q'] Cons.hyps(2) [symmetric] Cons.prems
    by (simp add: drain_pop_Some)
qed

lemma drain_pushes:
  "invar q \<Longrightarrow> drain (foldl push q xs) =
     Some (drop (length (contents q) + length xs - capacity q) (contents q @ xs))"
  using drain_contents pushes_contents by simp

end

section \<open>The C ring buffer\<close>

datatype rb_fault = OutOfBounds | DivByZero

record ring_buffer =
  rb_buffer :: "bytes option"
  rb_head :: nat
  rb_tail :: nat
  rb_max :: nat
  rb_full :: bool

text \<open>
  \<open>kheap_alloc\<close> is called twice: for the structure (\<open>m1\<close>, non-NULL or not) and for the
  buffer (\<open>m2\<close>, the allocated memory with whatever it holds, or NULL).
\<close>

definition ring_buffer_init :: "bool \<Rightarrow> bytes option \<Rightarrow> nat \<Rightarrow> ring_buffer option" where
  "ring_buffer_init m1 m2 capacity =
     (if \<not> m1 then None
      else case m2 of None \<Rightarrow> None
           | Some b \<Rightarrow> Some \<lparr>rb_buffer = Some b, rb_head = 0, rb_tail = 0, rb_max = capacity,
                             rb_full = False\<rparr>)"

definition is_ring_buffer_empty :: "ring_buffer \<Rightarrow> bool" where
  "is_ring_buffer_empty rb \<longleftrightarrow> \<not> rb_full rb \<and> rb_head rb = rb_tail rb"

definition is_ring_buffer_full :: "ring_buffer \<Rightarrow> bool" where
  "is_ring_buffer_full rb = rb_full rb"

definition advance_pointer :: "ring_buffer \<Rightarrow> rb_fault + ring_buffer" where
  "advance_pointer rb =
     (if rb_max rb = 0 then Inl DivByZero
      else let t = (if rb_full rb then (rb_tail rb + 1) mod rb_max rb else rb_tail rb);
               h = (rb_head rb + 1) mod rb_max rb
           in Inr (rb\<lparr>rb_tail := t, rb_head := h, rb_full := (h = t)\<rparr>))"

definition retreat_pointer :: "ring_buffer \<Rightarrow> rb_fault + ring_buffer" where
  "retreat_pointer rb =
     (if rb_max rb = 0 then Inl DivByZero
      else Inr (rb\<lparr>rb_full := False, rb_tail := (rb_tail rb + 1) mod rb_max rb\<rparr>))"

definition ring_buffer_push :: "ring_buffer option \<Rightarrow> u8 \<Rightarrow> rb_fault + ring_buffer option" where
  "ring_buffer_push p data =
     (case p of None \<Rightarrow> Inr None
      | Some rb \<Rightarrow> (case rb_buffer rb of None \<Rightarrow> Inr (Some rb)
        | Some b \<Rightarrow>
            if rb_head rb < length b
            then map_sum id Some (advance_pointer (rb\<lparr>rb_buffer := Some (b[rb_head rb := data])\<rparr>))
            else Inl OutOfBounds))"

text \<open>The out-parameter \<open>data\<close> is an option (NULL or the byte it points to).\<close>

definition ring_buffer_pop ::
  "ring_buffer option \<Rightarrow> u8 option \<Rightarrow> rb_fault + (int \<times> u8 option \<times> ring_buffer option)" where
  "ring_buffer_pop p data =
     (case p of None \<Rightarrow> Inr (- 1, data, p)
      | Some rb \<Rightarrow> (case rb_buffer rb of None \<Rightarrow> Inr (- 1, data, p)
        | Some b \<Rightarrow>
            if data = None then Inr (- 1, data, p)
            else if is_ring_buffer_empty rb then Inr (- 1, data, p)
            else if rb_tail rb < length b
            then map_sum id (\<lambda>rb'. (0, Some (b ! rb_tail rb), Some rb')) (retreat_pointer rb)
            else Inl OutOfBounds))"

text \<open>
  The two loops of \<open>uses_of_ring_buffer\<close>: pushing a sequence of bytes, and popping until
  the buffer is empty. The second one is a partial function: with a read index that can
  never meet the write index it does not return.
\<close>

fun ring_buffer_pushes :: "ring_buffer option \<Rightarrow> bytes \<Rightarrow> rb_fault + ring_buffer option" where
  "ring_buffer_pushes p [] = Inr p"
| "ring_buffer_pushes p (x # xs) =
     (case ring_buffer_push p x of Inl e \<Rightarrow> Inl e | Inr p' \<Rightarrow> ring_buffer_pushes p' xs)"

partial_function (option) ring_buffer_drain ::
  "ring_buffer option \<Rightarrow> u8 \<Rightarrow> (rb_fault + bytes) option" where
  "ring_buffer_drain p value =
     (case ring_buffer_pop p (Some value) of
        Inl e \<Rightarrow> Some (Inl e)
      | Inr (r, v, p') \<Rightarrow>
          if r = 0
          then do { rest \<leftarrow> ring_buffer_drain p' (case v of Some x \<Rightarrow> x | None \<Rightarrow> value);
                    Some (map_sum id (Cons (case v of Some x \<Rightarrow> x | None \<Rightarrow> value)) rest) }
          else Some (Inr []))"

definition uses_of_ring_buffer :: "bool \<Rightarrow> bytes option \<Rightarrow> u8 \<Rightarrow> (rb_fault + bytes) option" where
  "uses_of_ring_buffer m1 m2 value =
     (case ring_buffer_pushes (ring_buffer_init m1 m2 8) [0, 1, 2, 3, 4, 5, 6, 7, 8, 9] of
        Inl e \<Rightarrow> Some (Inl e)
      | Inr p \<Rightarrow> ring_buffer_drain p value)"

section \<open>Invariant and abstraction\<close>

definition rb_count :: "ring_buffer \<Rightarrow> nat" where
  "rb_count rb = (if rb_full rb then rb_max rb
     else if rb_tail rb \<le> rb_head rb then rb_head rb - rb_tail rb
     else rb_max rb - rb_tail rb + rb_head rb)"

definition rb_contents :: "ring_buffer \<Rightarrow> bytes" where
  "rb_contents rb = (case rb_buffer rb of None \<Rightarrow> []
     | Some b \<Rightarrow> map (\<lambda>i. b ! ((rb_tail rb + i) mod rb_max rb)) [0..<rb_count rb])"

definition rb_wf :: "ring_buffer \<Rightarrow> bool" where
  "rb_wf rb \<longleftrightarrow> (case rb_buffer rb of None \<Rightarrow> False | Some b \<Rightarrow> rb_max rb \<le> length b) \<and>
     0 < rb_max rb \<and> rb_head rb < rb_max rb \<and> rb_tail rb < rb_max rb \<and>
     (rb_full rb \<longrightarrow> rb_head rb = rb_tail rb)"

lemma wrap_mod: "(t::nat) < m \<Longrightarrow> i \<le> m \<Longrightarrow> (t + i) mod m = (if t + i < m then t + i else t + i - m)"
  by (simp add: mod_if)

lemma length_rb_contents [simp]: "rb_wf rb \<Longrightarrow> length (rb_contents rb) = rb_count rb"
  by (auto simp: rb_contents_def rb_wf_def split: option.splits)

lemma rb_count_le: "rb_wf rb \<Longrightarrow> rb_count rb \<le> rb_max rb"
  by (auto simp: rb_wf_def rb_count_def)

lemma rb_full_iff: "rb_wf rb \<Longrightarrow> rb_full rb \<longleftrightarrow> rb_count rb = rb_max rb"
  by (auto simp: rb_wf_def rb_count_def split: if_splits)

lemma rb_empty_iff: "rb_wf rb \<Longrightarrow> is_ring_buffer_empty rb \<longleftrightarrow> rb_contents rb = []"
  unfolding is_ring_buffer_empty_def length_0_conv [symmetric] length_rb_contents
  by (auto simp: rb_wf_def rb_count_def)

lemma nth_rb_contents:
  "rb_buffer rb = Some b \<Longrightarrow> i < rb_count rb \<Longrightarrow>
   rb_contents rb ! i = b ! ((rb_tail rb + i) mod rb_max rb)"
  by (simp add: rb_contents_def)

lemma rb_wf_bounds:
  "rb_wf rb \<Longrightarrow> 0 < rb_max rb \<and> rb_head rb < rb_max rb \<and> rb_tail rb < rb_max rb \<and>
     (rb_full rb \<longrightarrow> rb_head rb = rb_tail rb)"
  by (auto simp: rb_wf_def)

lemma rb_head_eq: "rb_wf rb \<Longrightarrow> (rb_tail rb + rb_count rb) mod rb_max rb = rb_head rb"
  using rb_wf_bounds [of rb] by (auto simp: rb_count_def)

lemma rb_pos_ne_head:
  assumes "rb_wf rb" "j < rb_max rb" "if rb_full rb then 0 < j else j < rb_count rb"
  shows "(rb_tail rb + j) mod rb_max rb \<noteq> rb_head rb"
  using assms rb_wf_bounds [OF assms(1)]
  by (auto simp: wrap_mod rb_count_def split: if_splits)

text \<open>A push is total on a well-formed buffer and appends, dropping the oldest byte when full.\<close>

lemma push_fields:
  assumes "rb_wf rb" "rb_buffer rb = Some b"
  defines "t \<equiv> (if rb_full rb then (rb_tail rb + 1) mod rb_max rb else rb_tail rb)"
    and "h \<equiv> (rb_head rb + 1) mod rb_max rb"
  shows "ring_buffer_push (Some rb) x = Inr (Some (rb\<lparr>rb_buffer := Some (b[rb_head rb := x]),
           rb_tail := t, rb_head := h, rb_full := (h = t)\<rparr>))"
  using assms by (simp add: ring_buffer_push_def advance_pointer_def rb_wf_def Let_def)

lemma push_wf:
  assumes "rb_wf rb"
  shows "\<exists>rb'. ring_buffer_push (Some rb) x = Inr (Some rb') \<and> rb_wf rb' \<and>
    rb_max rb' = rb_max rb \<and>
    rb_count rb' = (if rb_full rb then rb_max rb else rb_count rb + 1) \<and>
    rb_contents rb' = (if rb_full rb then tl (rb_contents rb) else rb_contents rb) @ [x]"
proof -
  obtain b where b: "rb_buffer rb = Some b" "rb_max rb \<le> length b"
    using assms by (auto simp: rb_wf_def split: option.splits)
  define t where "t = (if rb_full rb then (rb_tail rb + 1) mod rb_max rb else rb_tail rb)"
  define h where "h = (rb_head rb + 1) mod rb_max rb"
  define rb' where "rb' = rb\<lparr>rb_buffer := Some (b[rb_head rb := x]), rb_tail := t, rb_head := h,
    rb_full := (h = t)\<rparr>"
  have bnd: "0 < rb_max rb" "rb_head rb < rb_max rb" "rb_tail rb < rb_max rb"
    "rb_full rb \<Longrightarrow> rb_head rb = rb_tail rb"
    using assms by (auto simp: rb_wf_def split: option.splits)
  have t: "t = (if rb_full rb then (if rb_tail rb + 1 < rb_max rb then rb_tail rb + 1 else 0)
      else rb_tail rb)" and h: "h = (if rb_head rb + 1 < rb_max rb then rb_head rb + 1 else 0)"
    using bnd by (auto simp: t_def h_def mod_if)
  have wf': "rb_wf rb'" and cnt: "rb_count rb' = (if rb_full rb then rb_max rb else rb_count rb + 1)"
    using bnd b by (auto simp: rb_wf_def rb'_def t h rb_count_def)
  have "rb_contents rb' = (if rb_full rb then tl (rb_contents rb) else rb_contents rb) @ [x]"
  proof (rule nth_equalityI)
    show "length (rb_contents rb') =
      length ((if rb_full rb then tl (rb_contents rb) else rb_contents rb) @ [x])"
      using wf' assms cnt bnd(1) rb_full_iff [OF assms] by auto
  next
    fix i assume "i < length (rb_contents rb')"
    then have i: "i < rb_count rb'" using wf' by simp
    define d where "d = (if rb_full rb then 1 else 0 :: nat)"
    have "rb_contents rb' ! i = b[rb_head rb := x] ! ((t + i) mod rb_max rb)"
      using i by (subst nth_rb_contents [of rb' "b[rb_head rb := x]"]) (auto simp: rb'_def)
    also have "(t + i) mod rb_max rb = (rb_tail rb + (d + i)) mod rb_max rb"
      by (simp add: t_def d_def mod_simps)
    finally have nth': "rb_contents rb' ! i = b[rb_head rb := x] ! ((rb_tail rb + (d + i)) mod rb_max rb)" .
    show "rb_contents rb' ! i =
      ((if rb_full rb then tl (rb_contents rb) else rb_contents rb) @ [x]) ! i"
    proof (cases "i + 1 = rb_count rb'")
      case True
      then have "d + i = rb_count rb" using cnt rb_full_iff [OF assms] by (auto simp: d_def split: if_splits)
      then show ?thesis using nth' rb_head_eq [OF assms] b bnd True cnt assms rb_full_iff [OF assms]
        by (auto simp: nth_append split: if_splits)
    next
      case False
      then have lt: "d + i < rb_count rb" using i cnt rb_full_iff [OF assms]
        by (auto simp: d_def split: if_splits)
      then have "(rb_tail rb + (d + i)) mod rb_max rb \<noteq> rb_head rb"
        using rb_pos_ne_head [OF assms, of "d + i"] rb_count_le [OF assms] by (auto simp: d_def)
      then show ?thesis using nth' nth_rb_contents [OF b(1) lt] lt assms
        by (auto simp: nth_append nth_tl d_def)
    qed
  qed
  then show ?thesis using push_fields [OF assms b(1), folded t_def h_def rb'_def] wf' cnt
    by (simp add: rb'_def)
qed

lemma pop_wf:
  assumes "rb_wf rb" "rb_contents rb \<noteq> []"
  shows "\<exists>rb'. ring_buffer_pop (Some rb) (Some v) = Inr (0, Some (hd (rb_contents rb)), Some rb') \<and>
    rb_wf rb' \<and> rb_max rb' = rb_max rb \<and> rb_contents rb' = tl (rb_contents rb)"
proof -
  obtain b where b: "rb_buffer rb = Some b" "rb_max rb \<le> length b"
    using assms by (auto simp: rb_wf_def split: option.splits)
  define rb' where "rb' = rb\<lparr>rb_full := False, rb_tail := (rb_tail rb + 1) mod rb_max rb\<rparr>"
  have bnd: "0 < rb_max rb" "rb_head rb < rb_max rb" "rb_tail rb < rb_max rb"
    "rb_full rb \<Longrightarrow> rb_head rb = rb_tail rb" "0 < rb_count rb"
    using rb_wf_bounds [OF assms(1)] assms length_rb_contents [OF assms(1)]
    by (auto simp flip: length_greater_0_conv)
  have t': "rb_tail rb' = (if rb_tail rb + 1 < rb_max rb then rb_tail rb + 1 else 0)"
    using bnd by (auto simp: rb'_def mod_if)
  have wf': "rb_wf rb'" using b bnd by (auto simp: rb_wf_def rb'_def)
  have cnt: "rb_count rb' = rb_count rb - 1"
    using bnd t' by (auto simp: rb_count_def rb'_def split: if_splits)
  have nth: "rb_contents rb ! i = b ! ((rb_tail rb + i) mod rb_max rb)" if "i < rb_count rb" for i
    using that b by (simp add: nth_rb_contents)
  have tl: "rb_contents rb' = tl (rb_contents rb)"
  proof (rule nth_equalityI)
    show "length (rb_contents rb') = length (tl (rb_contents rb))"
      using wf' assms(1) cnt by simp
  next
    fix i assume "i < length (rb_contents rb')"
    then have i: "i < rb_count rb'" using wf' by simp
    have "rb_contents rb' ! i = b ! ((rb_tail rb' + i) mod rb_max rb)"
      using i b by (subst nth_rb_contents [of rb' b]) (auto simp: rb'_def)
    also have "(rb_tail rb' + i) mod rb_max rb = (rb_tail rb + (i + 1)) mod rb_max rb"
      by (simp add: rb'_def mod_simps add.assoc add.commute [of i])
    finally show "rb_contents rb' ! i = tl (rb_contents rb) ! i"
      using i cnt nth [of "i + 1"] assms(1) by (simp add: nth_tl)
  qed
  have "hd (rb_contents rb) = b ! rb_tail rb"
    using nth [of 0] bnd assms(2) by (simp add: hd_conv_nth)
  then have "ring_buffer_pop (Some rb) (Some v) = Inr (0, Some (hd (rb_contents rb)), Some rb')"
    using b bnd assms rb_empty_iff [OF assms(1)]
    by (simp add: ring_buffer_pop_def retreat_pointer_def rb'_def)
  then show ?thesis using wf' tl by (auto simp: rb'_def)
qed

lemma pop_wf_empty:
  assumes "rb_wf rb" "rb_contents rb = []"
  shows "ring_buffer_pop (Some rb) (Some v) = Inr (- 1, Some v, Some rb)"
  using assms rb_empty_iff [OF assms(1)]
  by (auto simp: ring_buffer_pop_def rb_wf_def split: option.splits)

section \<open>The C operations satisfy the contract\<close>

definition rb_push :: "ring_buffer \<Rightarrow> u8 \<Rightarrow> ring_buffer" where
  "rb_push rb x = (case ring_buffer_push (Some rb) x of Inr (Some rb') \<Rightarrow> rb' | _ \<Rightarrow> rb)"

definition rb_pop :: "ring_buffer \<Rightarrow> (u8 \<times> ring_buffer) option" where
  "rb_pop rb = (case ring_buffer_pop (Some rb) (Some 0) of
     Inr (r, Some v, Some rb') \<Rightarrow> (if r = 0 then Some (v, rb') else None) | _ \<Rightarrow> None)"

definition rb_drain :: "ring_buffer \<Rightarrow> bytes option" where
  "rb_drain rb = (case ring_buffer_drain (Some rb) 0 of Some (Inr xs) \<Rightarrow> Some xs | _ \<Rightarrow> None)"

interpretation ringq: lossy_queue rb_push rb_pop rb_contents rb_max rb_wf
proof
  fix q x assume wf: "rb_wf q"
  show "rb_contents (rb_push q x) =
      (if length (rb_contents q) < rb_max q then rb_contents q else tl (rb_contents q)) @ [x]"
    and "rb_wf (rb_push q x)" and "rb_max (rb_push q x) = rb_max q"
    using push_wf [OF wf, of x] wf rb_full_iff [OF wf] rb_count_le [OF wf]
    by (auto simp: rb_push_def)
  show "length (rb_contents q) \<le> rb_max q" and "0 < rb_max q"
    using wf rb_count_le [OF wf] by (auto simp: rb_wf_def)
  show "rb_pop q = None" if "rb_contents q = []"
    using pop_wf_empty [OF wf that] by (simp add: rb_pop_def)
  show "\<exists>q'. rb_pop q = Some (hd (rb_contents q), q') \<and> rb_contents q' = tl (rb_contents q) \<and>
      rb_wf q' \<and> rb_max q' = rb_max q" if "rb_contents q \<noteq> []"
    using pop_wf [OF wf that, of 0] by (auto simp: rb_pop_def)
qed

lemma drain_simps:
  "ring_buffer_pop p (Some v) = Inr (0, Some x, p') \<Longrightarrow>
     ring_buffer_drain p v = map_option (map_sum id (Cons x)) (ring_buffer_drain p' x)"
  "ring_buffer_pop p (Some v) = Inr (- 1, d, p') \<Longrightarrow> ring_buffer_drain p v = Some (Inr [])"
  by (subst ring_buffer_drain.simps, cases "ring_buffer_drain p' x", simp_all)
     (subst ring_buffer_drain.simps, simp)

lemma pop_value_irrelevant:
  "ring_buffer_pop (Some q) (Some v) = Inr (0, Some x, p') \<longleftrightarrow>
   ring_buffer_pop (Some q) (Some w) = Inr (0, Some x, p')"
  by (auto simp: ring_buffer_pop_def retreat_pointer_def split: option.splits if_splits)

lemma drain_value_irrelevant:
  assumes "rb_wf q"
  shows "ring_buffer_drain (Some q) v = ring_buffer_drain (Some q) w"
proof (cases "rb_contents q = []")
  case True
  then show ?thesis using pop_wf_empty [OF assms] by (simp add: drain_simps)
next
  case False
  then obtain q' where "ring_buffer_pop (Some q) (Some v) = Inr (0, Some (hd (rb_contents q)), Some q')"
    using pop_wf [OF assms] by blast
  then show ?thesis by (metis drain_simps(1) pop_value_irrelevant)
qed

interpretation ringd: drained_queue rb_push rb_pop rb_contents rb_max rb_wf rb_drain
proof
  fix q x q' assume wf: "rb_wf q"
  show "rb_drain q = Some []" if "rb_pop q = None"
  proof -
    have "rb_contents q = []" using ringq.pop_contents [OF wf] that by auto
    then show ?thesis using pop_wf_empty [OF wf] by (simp add: rb_drain_def drain_simps)
  qed
  show "rb_drain q = map_option (Cons x) (rb_drain q')" if "rb_pop q = Some (x, q')"
  proof -
    have ne: "rb_contents q \<noteq> []" using ringq.pop_empty [OF wf] that by auto
    then have wf': "rb_wf q'" using ringq.pop_contents [OF wf] that by auto
    have "ring_buffer_pop (Some q) (Some 0) = Inr (0, Some x, Some q')"
      using pop_wf [OF wf ne, of 0] that by (auto simp: rb_pop_def)
    then have "ring_buffer_drain (Some q) 0 = map_option (map_sum id (Cons x)) (ring_buffer_drain (Some q') 0)"
      using drain_value_irrelevant [OF wf', of x 0] by (simp add: drain_simps)
    then show ?thesis
      by (auto simp: rb_drain_def split: option.splits sum.splits)
  qed
qed

lemma ring_buffer_drain_wf:
  assumes "rb_wf q"
  shows "ring_buffer_drain (Some q) v = Some (Inr (rb_contents q))"
proof -
  have "rb_drain q = Some (rb_contents q)" using ringd.drain_contents [OF assms] .
  then show ?thesis
    using drain_value_irrelevant [OF assms, of v 0]
    by (auto simp: rb_drain_def split: option.splits sum.splits)
qed

lemma ring_buffer_pushes_foldl:
  "rb_wf q \<Longrightarrow> ring_buffer_pushes (Some q) xs = Inr (Some (foldl rb_push q xs))"
proof (induction xs arbitrary: q)
  case (Cons x xs)
  obtain q' where q': "ring_buffer_push (Some q) x = Inr (Some q')" "rb_wf q'"
    using push_wf [OF Cons.prems, of x] by blast
  then have "rb_push q x = q'" by (simp add: rb_push_def)
  then show ?case using q' Cons.IH [of q'] by simp
qed simp

lemma ring_buffer_init_wf:
  assumes "0 < cap" "cap \<le> length m" "ring_buffer_init True (Some m) cap = Some q"
  shows "rb_wf q \<and> rb_contents q = [] \<and> rb_max q = cap"
  using assms by (auto simp: ring_buffer_init_def rb_wf_def rb_contents_def rb_count_def)

section \<open>Properties\<close>

lemma pushes_after_init:
  assumes "0 < cap" "cap \<le> length m"
  shows "\<exists>q. ring_buffer_pushes (ring_buffer_init True (Some m) cap) xs = Inr (Some q) \<and> rb_wf q
     \<and> rb_contents q = drop (length xs - cap) xs"
proof -
  obtain q where q: "ring_buffer_init True (Some m) cap = Some q" by (simp add: ring_buffer_init_def)
  then have wf: "rb_wf q" "rb_contents q = []" "rb_max q = cap"
    using ring_buffer_init_wf [OF assms] by auto
  have "rb_contents (foldl rb_push q xs) = drop (length xs - cap) xs"
    using ringq.pushes_contents [OF wf(1), of xs] wf by simp
  moreover have "rb_wf (foldl rb_push q xs)"
    using wf(1) by (induction xs arbitrary: q) (simp_all add: ringq.push_invar)
  ultimately show ?thesis using ring_buffer_pushes_foldl [OF wf(1), of xs] q by simp
qed

text \<open>
  The keyboard's ring buffer is a FIFO that keeps the newest \<open>capacity\<close> bytes: whatever is
  pushed into a fresh buffer, popping until empty terminates and yields exactly the last
  \<open>capacity\<close> bytes pushed, in the order they were pushed, with no access outside the
  allocated memory.
\<close>

theorem ring_buffer_keeps_newest:
  assumes "0 < cap" "cap \<le> length m"
  shows "(case ring_buffer_pushes (ring_buffer_init True (Some m) cap) xs of
            Inl e \<Rightarrow> None | Inr p \<Rightarrow> ring_buffer_drain p value)
       = Some (Inr (drop (length xs - cap) xs))"
  using pushes_after_init [OF assms, of xs] ring_buffer_drain_wf by auto

theorem ring_buffer_keeps_newest_witness:
  "(case ring_buffer_pushes (ring_buffer_init True (Some [0, 0, 0]) 3) [10, 20, 30, 40, 50] of
      Inl e \<Rightarrow> None | Inr p \<Rightarrow> ring_buffer_drain p 0) = Some (Inr [30, 40, 50])"
  using ring_buffer_keeps_newest [of 3 "[0, 0, 0]" 0 "[10, 20, 30, 40, 50]"] by simp

text \<open>
  C30. A push and a pop keep the buffer's invariant (indices in range, the full flag only when the
  indices meet) and do to the contents what a bounded queue does: a push appends, dropping the
  oldest byte when full; a pop on a non-empty buffer returns 0 and the oldest byte, and on an
  empty one returns -1 and changes nothing.
\<close>

theorem ring_buffer_push_pop_refine_queue:
  assumes "rb_wf rb"
  shows "(\<exists>rb'. ring_buffer_push (Some rb) x = Inr (Some rb') \<and> rb_wf rb' \<and> rb_contents rb' =
            (if is_ring_buffer_full rb then tl (rb_contents rb) else rb_contents rb) @ [x])
       \<and> (if is_ring_buffer_empty rb
          then rb_contents rb = [] \<and> ring_buffer_pop (Some rb) (Some v) = Inr (- 1, Some v, Some rb)
          else \<exists>y ys rb'. rb_contents rb = y # ys \<and> rb_wf rb' \<and> rb_contents rb' = ys
                 \<and> ring_buffer_pop (Some rb) (Some v) = Inr (0, Some y, Some rb'))"
proof -
  have "\<exists>y ys rb'. rb_contents rb = y # ys \<and> rb_wf rb' \<and> rb_contents rb' = ys
      \<and> ring_buffer_pop (Some rb) (Some v) = Inr (0, Some y, Some rb')" if "rb_contents rb \<noteq> []"
    using pop_wf [OF assms that, of v] that by (cases "rb_contents rb") auto
  then show ?thesis
    using push_wf [OF assms, of x] pop_wf_empty [OF assms, of v] rb_empty_iff [OF assms]
    by (auto simp: is_ring_buffer_full_def)
qed

theorem ring_buffer_push_pop_refine_queue_witness:
  "\<exists>rb'. ring_buffer_push (Some \<lparr>rb_buffer = Some [1, 2], rb_head = 1, rb_tail = 1, rb_max = 2,
        rb_full = True\<rparr>) 9 = Inr (Some rb') \<and> rb_contents rb' = [1, 9]"
  using ring_buffer_push_pop_refine_queue [of "\<lparr>rb_buffer = Some [1, 2], rb_head = 1, rb_tail = 1,
      rb_max = 2, rb_full = True\<rparr>" 9 0]
  by (auto simp: rb_wf_def is_ring_buffer_full_def rb_contents_def rb_count_def upt_rec)

end
