(* ===== verification/Keyboard.thy ===== *)
theory Keyboard
  imports Terminal RingBuffer
begin

text \<open>
  The PS/2 keyboard driver (\<open>driver/keyboard/keyboard.c\<close>) and the line reader of the shell (\<open>read_command\<close> in \<open>kshell/kshell.c\<close>). The
  interrupt handler turns a scan code into state of the shift and caps-lock keys, echoes characters on the terminal and pushes them into
  the ring buffer, from which the shell reads. A byte of the data port is an argument of the handler; the end-of-interrupt signal and
  the installation of the handler are not modelled.
\<close>

section \<open>Scan codes and characters\<close>

definition UNKNOWN :: u32 where "UNKNOWN = 0xFFFFFFFF"
definition ESC :: u32 where "ESC = 0x01"
definition NUM_1 :: u32 where "NUM_1 = 0x02"
definition NUM_0 :: u32 where "NUM_0 = 0x0B"
definition BACKSPACE :: u32 where "BACKSPACE = 0x0E"
definition ENTER :: u32 where "ENTER = 0x1C"
definition CTRL :: u32 where "CTRL = 0x1D"
definition LSHIFT :: u32 where "LSHIFT = 0x2A"
definition RSHIFT :: u32 where "RSHIFT = 0x36"
definition ALT :: u32 where "ALT = 0x38"
definition CAPS_LOCK :: u32 where "CAPS_LOCK = 0x3A"
definition UP :: u32 where "UP = 0x48"
definition LEFT :: u32 where "LEFT = 0x4B"
definition RIGHT :: u32 where "RIGHT = 0x4D"
definition DOWN :: u32 where "DOWN = 0x50"
definition DELETE :: u32 where "DELETE = 0x53"

text \<open>The function keys \<open>F1\<close> to \<open>F10\<close>, \<open>F11\<close> and \<open>F12\<close>.\<close>

definition function_keys :: "u32 list" where
  "function_keys = [0x3B, 0x3C, 0x3D, 0x3E, 0x3F, 0x40, 0x41, 0x42, 0x43, 0x44, 0x57, 0x58]"

text \<open>
  The two tables: the entries 0x38 to 0x58 are the same in both, a key without a character has its own scan code or \<open>UNKNOWN\<close>.
\<close>

definition chars :: "string \<Rightarrow> u32 list" where "chars s = map of_char s"

definition table_tail :: "u32 list" where
  "table_tail = [ALT, 32, CAPS_LOCK] @ take 10 function_keys @ [0x45, 0x46, 0x47, UP, 0x49] @ chars ''-'' @ [LEFT, UNKNOWN, RIGHT]
     @ chars ''+'' @ [0x4F, DOWN, 0x51, 0x52, DELETE, UNKNOWN, UNKNOWN, UNKNOWN] @ drop 10 function_keys @ replicate 39 UNKNOWN"

definition lowercase :: "u32 list" where
  "lowercase = [UNKNOWN, ESC] @ chars ''1234567890-='' @ [8, 9] @ chars ''qwertyuiop[]'' @ [10, CTRL] @ chars ''asdfghjkl;'' @ [39, 96]
     @ [LSHIFT, 92] @ chars ''zxcvbnm,./'' @ [RSHIFT] @ chars ''*'' @ table_tail"

definition uppercase :: "u32 list" where
  "uppercase = [UNKNOWN, ESC] @ chars ''!@#$%^&*()_+'' @ [8, 9] @ chars ''QWERTYUIOP{}'' @ [10, CTRL] @ chars ''ASDFGHJKL:'' @ [34, 126]
     @ [LSHIFT] @ chars ''|ZXCVBNM<>?'' @ [RSHIFT] @ chars ''*'' @ table_tail"

text \<open>The tables as numbers.\<close>

lemma tables_code [code]:
  "lowercase = [4294967295, 1, 49, 50, 51, 52, 53, 54, 55, 56, 57, 48, 45, 61, 8, 9, 113, 119, 101, 114, 116, 121, 117, 105, 111, 112,
     91, 93, 10, 29, 97, 115, 100, 102, 103, 104, 106, 107, 108, 59, 39, 96, 42, 92, 122, 120, 99, 118, 98, 110, 109, 44,
     46, 47, 54, 42, 56, 32, 58, 59, 60, 61, 62, 63, 64, 65, 66, 67, 68, 69, 70, 71, 72, 73, 45, 75, 4294967295, 77, 43,
     79, 80, 81, 82, 83, 4294967295, 4294967295, 4294967295, 87, 88]
     @ replicate 39 0xFFFFFFFF"
  "uppercase = [4294967295, 1, 33, 64, 35, 36, 37, 94, 38, 42, 40, 41, 95, 43, 8, 9, 81, 87, 69, 82, 84, 89, 85, 73, 79, 80, 123, 125,
     10, 29, 65, 83, 68, 70, 71, 72, 74, 75, 76, 58, 34, 126, 42, 124, 90, 88, 67, 86, 66, 78, 77, 60, 62, 63, 54, 42, 56,
     32, 58, 59, 60, 61, 62, 63, 64, 65, 66, 67, 68, 69, 70, 71, 72, 73, 45, 75, 4294967295, 77, 43, 79, 80, 81, 82, 83,
     4294967295, 4294967295, 4294967295, 87, 88]
     @ replicate 39 0xFFFFFFFF"
  by code_simp+

lemma tables_length: "length lowercase = 128" "length uppercase = 128"
  by code_simp+

section \<open>State and handler\<close>

record keyboard =
  kb_term :: terminal
  keyboard_buffer :: "ring_buffer option"
  shift :: bool
  capsLock :: bool
  entered_keys :: int

definition is_printable :: "u8 \<Rightarrow> bool" where
  "is_printable ch \<longleftrightarrow> sint ch \<ge> 32 \<and> sint ch \<le> 126"

definition table_char :: "u32 list \<Rightarrow> u32 \<Rightarrow> u8 option" where
  "table_char tbl code = (if unat code < length tbl then Some (ucast (tbl ! unat code)) else None)"

definition scanCodeToChar :: "u32 \<Rightarrow> keyboard \<Rightarrow> u8 option" where
  "scanCodeToChar scanCode k =
     (let scanCode = (if scanCode = 0xE0 then scanCode OR 0x100 else scanCode)
      in if scanCode \<ge> NUM_1 \<and> scanCode \<le> NUM_0
         then table_char (if shift k then uppercase else lowercase) scanCode
         else table_char (if capsLock k then uppercase else lowercase) scanCode)"

definition handel_shift_key :: "bool \<Rightarrow> keyboard \<Rightarrow> keyboard" where
  "handel_shift_key keyPressed k = k\<lparr>shift := keyPressed, capsLock := \<not> capsLock k\<rparr>"

definition handel_caps_lock_key :: "bool \<Rightarrow> keyboard \<Rightarrow> keyboard" where
  "handel_caps_lock_key keyPressed k = (if keyPressed then k\<lparr>capsLock := \<not> capsLock k\<rparr> else k)"

definition handel_backspace_key :: "bool \<Rightarrow> keyboard \<Rightarrow> keyboard option" where
  "handel_backspace_key keyPressed k = (if keyPressed \<and> entered_keys k > 0
     then do { t \<leftarrow> backspace_manage (kb_term k); Some (k\<lparr>kb_term := t, entered_keys := entered_keys k - 1\<rparr>) }
     else Some k)"

text \<open>\<open>handel_del_key\<close> only computes a value it does not use.\<close>

definition handel_del_key :: "bool \<Rightarrow> keyboard \<Rightarrow> keyboard" where
  "handel_del_key keyPressed k = k"

definition ignored_keys :: "u32 list" where
  "ignored_keys = [0x60, 0x608, UNKNOWN, CTRL, ALT, ESC, UP, DOWN] @ function_keys"

definition key_ctrl :: "u32 \<Rightarrow> bool \<Rightarrow> keyboard \<Rightarrow> keyboard option" where
  "key_ctrl scanCode keyPress k =
     (if scanCode \<in> set ignored_keys then Some k
      else if scanCode = ENTER then Some (k\<lparr>entered_keys := 0\<rparr>)
      else if scanCode = DELETE then Some (handel_del_key keyPress k)
      else if scanCode = LSHIFT \<or> scanCode = RSHIFT then Some (handel_shift_key keyPress k)
      else if scanCode = CAPS_LOCK then Some (handel_caps_lock_key keyPress k)
      else if scanCode = LEFT then if keyPress then map_option (\<lambda>t. k\<lparr>kb_term := t\<rparr>) (move_cur_left (kb_term k)) else Some k
      else if scanCode = RIGHT then if keyPress then map_option (\<lambda>t. k\<lparr>kb_term := t\<rparr>) (move_cur_right (kb_term k)) else Some k
      else if scanCode = BACKSPACE then handel_backspace_key keyPress k
      else if keyPress then
        if int_ok (entered_keys k + 1) then do {
          let k = k\<lparr>entered_keys := entered_keys k + 1\<rparr>;
          c \<leftarrow> scanCodeToChar scanCode k;
          t \<leftarrow> putchar c (kb_term k);
          Some (k\<lparr>kb_term := t\<rparr>) }
        else None
      else Some k)"

definition keyboardHandler :: "u8 \<Rightarrow> keyboard \<Rightarrow> keyboard option" where
  "keyboardHandler scancode_raw k = do {
     let pressed = (scancode_raw AND 0x80 = 0);
     let scancode = ucast (scancode_raw AND 0x7F);
     k \<leftarrow> key_ctrl scancode pressed k;
     if pressed \<and> keyboard_buffer k \<noteq> None
     then do {
       c \<leftarrow> scanCodeToChar scancode k;
       case ring_buffer_push (keyboard_buffer k) c of Inl e \<Rightarrow> None | Inr b \<Rightarrow> Some (k\<lparr>keyboard_buffer := b\<rparr>) }
     else Some k }"

fun keyboard_events :: "bytes \<Rightarrow> keyboard \<Rightarrow> keyboard option" where
  "keyboard_events [] k = Some k"
| "keyboard_events (r # rs) k = do { k \<leftarrow> keyboardHandler r k; keyboard_events rs k }"

definition initKeyboard :: "bool \<Rightarrow> bytes option \<Rightarrow> keyboard \<Rightarrow> keyboard" where
  "initKeyboard m1 m2 k = k\<lparr>keyboard_buffer := ring_buffer_init m1 m2 2048\<rparr>"

section \<open>The line reader of the shell\<close>

text \<open>
  \<open>read_command\<close> waits while the buffer is empty; without another interrupt the wait does not end (\<open>None\<close>). The command is an array
  of \<open>bufsize\<close> bytes.
\<close>

function command_loop :: "nat \<Rightarrow> nat \<Rightarrow> bytes \<Rightarrow> ring_buffer \<Rightarrow> (nat \<times> bytes \<times> ring_buffer) option" where
  "command_loop bufsize index command rb =
     (if index < bufsize - 1
      then if is_ring_buffer_empty rb then None
        else case ring_buffer_pop (Some rb) (Some 0) of
            Inr (r, Some ch, Some rb') \<Rightarrow>
              if r = 0
              then if ch = 10 \<or> ch = 13 then Some (index, command, rb')
                else if index < length command then command_loop bufsize (index + 1) (command[index := ch]) rb' else None
              else None
          | _ \<Rightarrow> None
      else Some (index, command, rb))"
  by pat_completeness auto
termination
  by (relation "measure (\<lambda>(n, i, c, rb). n - i)") auto

declare command_loop.simps [simp del]

definition read_command :: "bytes \<Rightarrow> nat \<Rightarrow> keyboard \<Rightarrow> (bytes \<times> keyboard) option" where
  "read_command command bufsize k = do {
     rb \<leftarrow> keyboard_buffer k;
     (index, command, rb) \<leftarrow> command_loop bufsize 0 command rb;
     if index < length command then Some (command[index := 0], k\<lparr>keyboard_buffer := Some rb\<rparr>) else None }"

section \<open>What is typed\<close>

text \<open>
  The reference: two flags, whether a shift key is held and whether caps lock is on. A shift key sets or clears the first, caps lock
  toggles the second when it goes down. A pressed key types a byte. For the keys of the US layout that is one of the two characters on the
  key: for the ten digit keys the shift key decides, for the others whether exactly one of shift and caps lock is active. Backspace, Tab and
  Enter type 8, 9 and 10. The driver has no notion of a key without a character: the other keys type their own scan code as well,
  the modifiers included (left shift \<open>*\<close>, right shift \<open>6\<close>, caps lock \<open>:\<close>), and codes without a key type 255.
\<close>

definition us_rows :: "(nat \<times> string \<times> string) list" where
  "us_rows = [(2, ''1234567890-='', ''!@#$%^&*()_+''), (16, ''qwertyuiop[]'', ''QWERTYUIOP{}''),
     (30, ''asdfghjkl;'' @ [CHR 0x27, CHR 0x60], ''ASDFGHJKL:'' @ [CHR 0x22, CHR 0x7E]), (43, [CHR 0x5C] @ ''zxcvbnm,./'', ''|ZXCVBNM<>?''),
     (55, ''*'', ''*''), (57, '' '', '' ''), (74, ''-'', ''-''), (78, ''+'', ''+'')]"

fun row_char :: "bool \<Rightarrow> nat \<Rightarrow> (nat \<times> string \<times> string) list \<Rightarrow> u8 option" where
  "row_char up c [] = None"
| "row_char up c ((k, low, hi) # rows) =
     (if k \<le> c \<and> c < k + length low then Some (of_char ((if up then hi else low) ! (c - k))) else row_char up c rows)"

definition other_keys :: "nat list" where
  "other_keys = [1, 29, 42, 54, 56] @ [58..<74] @ [75, 77] @ [79..<84] @ [87, 88]"

definition key_byte :: "bool \<Rightarrow> nat \<Rightarrow> u8" where
  "key_byte up c = (case row_char up c us_rows of Some b \<Rightarrow> b
     | None \<Rightarrow> if c = 14 then 8 else if c = 15 then 9 else if c = 28 then 10
       else if c \<in> set other_keys then of_nat c else 255)"

definition raw_pressed :: "u8 \<Rightarrow> bool" where "raw_pressed r \<longleftrightarrow> r AND 0x80 = 0"
definition raw_code :: "u8 \<Rightarrow> u32" where "raw_code r = ucast (r AND 0x7F)"

definition is_shift :: "u32 \<Rightarrow> bool" where "is_shift c \<longleftrightarrow> c = LSHIFT \<or> c = RSHIFT"

definition modifiers :: "u8 \<Rightarrow> bool \<times> bool \<Rightarrow> bool \<times> bool" where
  "modifiers r = (\<lambda>(held, locked).
     if is_shift (raw_code r) then (raw_pressed r, locked)
     else if raw_code r = CAPS_LOCK \<and> raw_pressed r then (held, \<not> locked)
     else (held, locked))"

definition typed_char :: "u8 \<Rightarrow> bool \<times> bool \<Rightarrow> u8" where
  "typed_char r = (\<lambda>(held, locked). let upper = (if NUM_1 \<le> raw_code r \<and> raw_code r \<le> NUM_0 then held else held \<noteq> locked)
     in key_byte upper (unat (raw_code r)))"

fun typed :: "bytes \<Rightarrow> bool \<times> bool \<Rightarrow> (bool \<times> bool) \<times> bytes" where
  "typed [] f = (f, [])"
| "typed (r # rs) f = (let f = modifiers r f; (f', cs) = typed rs f
     in (f', (if raw_pressed r then [typed_char r f] else []) @ cs))"

text \<open>
  Events without Backspace and without the cursor keys Left and Right, in which a shift key goes down only while none is held and up only
  while one is: no second shift key, and no repetition of a held one.
\<close>

definition editing_keys :: "u32 list" where "editing_keys = [LEFT, RIGHT, BACKSPACE]"

fun plain_events :: "bytes \<Rightarrow> bool \<times> bool \<Rightarrow> bool" where
  "plain_events [] f \<longleftrightarrow> True"
| "plain_events (r # rs) f \<longleftrightarrow> (is_shift (raw_code r) \<longrightarrow> raw_pressed r \<noteq> fst f) \<and> raw_code r \<notin> set editing_keys
     \<and> plain_events rs (modifiers r f)"

text \<open>The driver's state for the two flags.\<close>

definition kb_state :: "bool \<times> bool \<Rightarrow> keyboard \<Rightarrow> bool" where
  "kb_state f k \<longleftrightarrow> term_ok (kb_term k) \<and> (\<exists>rb. keyboard_buffer k = Some rb \<and> rb_wf rb)
     \<and> shift k = fst f \<and> capsLock k = (fst f \<noteq> snd f)"

definition kb_line :: "keyboard \<Rightarrow> bytes" where
  "kb_line k = (case keyboard_buffer k of None \<Rightarrow> [] | Some rb \<Rightarrow> rb_contents rb)"

definition kb_room :: "keyboard \<Rightarrow> nat" where
  "kb_room k = (case keyboard_buffer k of None \<Rightarrow> 0 | Some rb \<Rightarrow> rb_max rb)"

lemma raw_code_less: "unat (raw_code r) < 128"
proof -
  have "r AND 0x7F = take_bit 7 r" by (simp add: take_bit_eq_mask mask_eq_exp_minus_1)
  then have "unat (raw_code r) = unat r mod 128"
    by (simp add: raw_code_def unsigned_ucast_eq take_bit_eq_mod unat_mod)
  then show ?thesis by simp
qed

lemma raw_code_ne: "raw_code r \<noteq> 0xE0"
  using raw_code_less [of r] by auto

lemma no_backspace_char:
  assumes "unat c < 128" "c \<noteq> BACKSPACE"
  shows "ucast (lowercase ! unat c) \<noteq> (8 :: u8)" "ucast (uppercase ! unat c) \<noteq> (8 :: u8)"
proof -
  have low: "\<forall>(i, x) \<in> set (enumerate 0 lowercase). i = 14 \<or> ucast x \<noteq> (8 :: u8)" by code_simp
  have up: "\<forall>(i, x) \<in> set (enumerate 0 uppercase). i = 14 \<or> ucast x \<noteq> (8 :: u8)" by code_simp
  have "c = BACKSPACE" if "unat c = 14" using that by (intro unat_eqI) (simp add: BACKSPACE_def)
  then have "unat c \<noteq> 14" using assms(2) by blast
  moreover have "(unat c, xs ! unat c) \<in> set (enumerate 0 xs)" if "length xs = 128" for xs :: "u32 list"
    using assms(1) that by (auto simp: in_set_conv_nth nth_enumerate_eq intro: exI [of _ "unat c"])
  ultimately show "ucast (lowercase ! unat c) \<noteq> (8 :: u8)" "ucast (uppercase ! unat c) \<noteq> (8 :: u8)"
    using low up tables_length by fastforce+
qed

lemma tables_layout:
  assumes "c < 128"
  shows "ucast (lowercase ! c) = key_byte False c" "ucast (uppercase ! c) = key_byte True c"
proof -
  have "\<forall>i \<in> set [0..<128]. ucast (lowercase ! i) = key_byte False i" "\<forall>i \<in> set [0..<128]. ucast (uppercase ! i) = key_byte True i"
    by code_simp+
  then show "ucast (lowercase ! c) = key_byte False c" "ucast (uppercase ! c) = key_byte True c" using assms by simp_all
qed

lemma scanCodeToChar_typed:
  assumes "shift k = fst f" "capsLock k = (fst f \<noteq> snd f)"
  shows "scanCodeToChar (raw_code r) k = Some (typed_char r f)"
  using assms raw_code_less [of r] raw_code_ne [of r] tables_length
  by (auto simp: scanCodeToChar_def typed_char_def table_char_def tables_layout Let_def split: prod.splits)

lemmas key_codes = is_shift_def ignored_keys_def function_keys_def editing_keys_def ENTER_def DELETE_def LSHIFT_def RSHIFT_def CAPS_LOCK_def
  UNKNOWN_def CTRL_def ALT_def ESC_def UP_def DOWN_def LEFT_def RIGHT_def BACKSPACE_def

lemma key_ctrl_cases:
  "is_shift c \<Longrightarrow> key_ctrl c p k = Some (handel_shift_key p k)"
  "c = CAPS_LOCK \<Longrightarrow> key_ctrl c p k = Some (handel_caps_lock_key p k)"
  "c \<notin> set editing_keys \<Longrightarrow> \<not> is_shift c \<Longrightarrow> c \<noteq> CAPS_LOCK \<Longrightarrow> key_ctrl c p k =
     (if c = ENTER then Some (k\<lparr>entered_keys := 0\<rparr>)
      else if c \<in> set ignored_keys \<or> c = DELETE \<or> \<not> p then Some k
      else if int_ok (entered_keys k + 1) then do {
        let k = k\<lparr>entered_keys := entered_keys k + 1\<rparr>;
        c \<leftarrow> scanCodeToChar c k;
        t \<leftarrow> putchar c (kb_term k);
        Some (k\<lparr>kb_term := t\<rparr>) }
      else None)"
  by (auto simp: key_ctrl_def handel_del_key_def key_codes)

lemma modifiers_simps:
  "is_shift (raw_code r) \<Longrightarrow> modifiers r f = (raw_pressed r, snd f)"
  "raw_code r = CAPS_LOCK \<Longrightarrow> modifiers r f = (if raw_pressed r then (fst f, \<not> snd f) else f)"
  "\<not> is_shift (raw_code r) \<Longrightarrow> raw_code r \<noteq> CAPS_LOCK \<Longrightarrow> modifiers r f = f"
  by (auto simp: modifiers_def is_shift_def LSHIFT_def RSHIFT_def CAPS_LOCK_def split: prod.splits)

lemma kb_state_upd [simp]: "kb_state f (k\<lparr>entered_keys := n\<rparr>) \<longleftrightarrow> kb_state f k"
  by (simp add: kb_state_def)

lemma typed_char_no_backspace: "raw_code r \<noteq> BACKSPACE \<Longrightarrow> typed_char r f \<noteq> 8"
proof -
  assume "raw_code r \<noteq> BACKSPACE"
  then have "key_byte up (unat (raw_code r)) \<noteq> 8" for up
    using no_backspace_char [OF raw_code_less, of r] tables_layout [OF raw_code_less, of r] by (cases up) auto
  then show ?thesis by (simp add: typed_char_def Let_def split: prod.splits)
qed

lemma key_ctrl_plain:
  assumes k: "kb_state f k" and e: "0 \<le> entered_keys k" "entered_keys k + 1 < 2 ^ 31"
    and r: "is_shift (raw_code r) \<longrightarrow> raw_pressed r \<noteq> fst f" "raw_code r \<notin> set editing_keys"
  shows "\<exists>k'. key_ctrl (raw_code r) (raw_pressed r) k = Some k' \<and> kb_state (modifiers r f) k' \<and> keyboard_buffer k' = keyboard_buffer k
     \<and> 0 \<le> entered_keys k' \<and> entered_keys k' \<le> entered_keys k + 1"
proof -
  consider (shift) "is_shift (raw_code r)" | (caps) "raw_code r = CAPS_LOCK"
    | (other) "\<not> is_shift (raw_code r)" "raw_code r \<noteq> CAPS_LOCK" by blast
  then show ?thesis
  proof cases
    case shift
    then show ?thesis using k e r(1) by (auto simp: key_ctrl_cases(1) modifiers_simps(1) handel_shift_key_def kb_state_def)
  next
    case caps
    then show ?thesis using k e by (auto simp: key_ctrl_cases(2) modifiers_simps(2) handel_caps_lock_key_def kb_state_def)
  next
    case other
    have c: "scanCodeToChar (raw_code r) (k\<lparr>entered_keys := n\<rparr>) = Some (typed_char r f)" for n
      using k by (intro scanCodeToChar_typed) (simp_all add: kb_state_def)
    have "typed_char r f \<noteq> 8" using r(2) by (intro typed_char_no_backspace) (auto simp: editing_keys_def)
    then obtain t where t: "putchar (typed_char r f) (kb_term k) = Some t" "term_ok t"
      using putchar_ok [of "kb_term k"] k by (auto simp: kb_state_def)
    have "int_ok (entered_keys k + 1)" using e by (simp add: int_ok_def)
    then show ?thesis
      using key_ctrl_cases(3) [OF r(2) other, of "raw_pressed r" k] c t k e
      by (auto simp: modifiers_simps(3) [OF other] kb_state_def)
  qed
qed

lemma keyboardHandler_plain:
  assumes k: "kb_state f k" and e: "0 \<le> entered_keys k" "entered_keys k + 1 < 2 ^ 31"
    and r: "is_shift (raw_code r) \<longrightarrow> raw_pressed r \<noteq> fst f" "raw_code r \<notin> set editing_keys"
  shows "\<exists>k'. keyboardHandler r k = Some k' \<and> kb_state (modifiers r f) k' \<and> 0 \<le> entered_keys k' \<and> entered_keys k' \<le> entered_keys k + 1
     \<and> kb_room k' = kb_room k
     \<and> kb_line k' = (if raw_pressed r then (if length (kb_line k) < kb_room k then kb_line k else tl (kb_line k)) @ [typed_char r (modifiers r f)]
          else kb_line k)"
proof -
  obtain k1 where k1: "key_ctrl (raw_code r) (raw_pressed r) k = Some k1" "kb_state (modifiers r f) k1" "keyboard_buffer k1 = keyboard_buffer k"
    "0 \<le> entered_keys k1" "entered_keys k1 \<le> entered_keys k + 1"
    using key_ctrl_plain [OF assms] by blast
  obtain rb where rb: "keyboard_buffer k1 = Some rb" "rb_wf rb" using k1(2) by (auto simp: kb_state_def)
  let ?c = "typed_char r (modifiers r f)"
  obtain rb' where rb': "ring_buffer_push (Some rb) ?c = Inr (Some rb')" using push_wf [OF rb(2)] by blast
  then have q: "rb_push rb ?c = rb'" by (simp add: rb_push_def)
  have c: "scanCodeToChar (raw_code r) k1 = Some ?c"
    using k1(2) by (intro scanCodeToChar_typed) (simp_all add: kb_state_def)
  have "keyboardHandler r k = (if raw_pressed r then Some (k1\<lparr>keyboard_buffer := Some rb'\<rparr>) else Some k1)"
    using k1(1) rb rb' c by (simp add: keyboardHandler_def raw_pressed_def [symmetric] raw_code_def [symmetric] Let_def)
  moreover have "rb_wf rb'" "rb_max rb' = rb_max rb"
    "rb_contents rb' = (if length (rb_contents rb) < rb_max rb then rb_contents rb else tl (rb_contents rb)) @ [?c]"
    using ringq.push_invar [OF rb(2)] ringq.push_capacity [OF rb(2)] ringq.push_contents [OF rb(2)] q by auto
  ultimately show ?thesis using k1 rb by (auto simp: kb_state_def kb_line_def kb_room_def)
qed

text \<open>The newest \<open>n\<close> elements.\<close>

definition newest :: "nat \<Rightarrow> 'x list \<Rightarrow> 'x list" where "newest n xs = drop (length xs - n) xs"

lemma newest_snoc:
  assumes "length xs \<le> n" "0 < n"
  shows "newest n ((if length xs < n then xs else tl xs) @ x # ys) = newest n (xs @ x # ys)"
proof (cases "length xs < n")
  case False
  then have "length xs = n" using assms by simp
  then obtain y zs where "xs = y # zs" using assms(2) by (cases xs) auto
  then show ?thesis using False \<open>length xs = n\<close> by (simp add: newest_def Suc_diff_le)
qed simp

lemma keyboard_events_typed:
  assumes "kb_state f k" "0 \<le> entered_keys k" "entered_keys k + int (length rs) < 2 ^ 31" "plain_events rs f"
  shows "\<exists>k'. keyboard_events rs k = Some k' \<and> kb_state (fst (typed rs f)) k' \<and> kb_room k' = kb_room k
     \<and> kb_line k' = newest (kb_room k) (kb_line k @ snd (typed rs f))"
  using assms
proof (induction rs arbitrary: f k)
  case Nil
  then obtain rb where "keyboard_buffer k = Some rb" "rb_wf rb" by (auto simp: kb_state_def)
  then show ?case using Nil ringq.contents_bound by (simp add: kb_line_def kb_room_def newest_def)
next
  case (Cons r rs)
  obtain k1 where k1: "keyboardHandler r k = Some k1" "kb_state (modifiers r f) k1" "0 \<le> entered_keys k1"
    "entered_keys k1 \<le> entered_keys k + 1" "kb_room k1 = kb_room k"
    "kb_line k1 = (if raw_pressed r then (if length (kb_line k) < kb_room k then kb_line k else tl (kb_line k)) @ [typed_char r (modifiers r f)]
          else kb_line k)"
    using keyboardHandler_plain [OF Cons.prems(1,2), of r] Cons.prems(3,4) by auto
  obtain rb where rb: "keyboard_buffer k = Some rb" "rb_wf rb" using Cons.prems(1) by (auto simp: kb_state_def)
  have "length (kb_line k) \<le> kb_room k" "0 < kb_room k"
    using rb(1) ringq.contents_bound [OF rb(2)] ringq.capacity_pos [OF rb(2)] by (simp_all add: kb_line_def kb_room_def)
  note n = newest_snoc [OF this]
  obtain k2 where "keyboard_events rs k1 = Some k2" "kb_state (fst (typed rs (modifiers r f))) k2" "kb_room k2 = kb_room k1"
    "kb_line k2 = newest (kb_room k1) (kb_line k1 @ snd (typed rs (modifiers r f)))"
    using Cons.IH [OF k1(2,3)] k1(4) Cons.prems(3,4) by auto
  then show ?case using k1 n by (auto simp: Let_def split: prod.splits)
qed

lemma command_loop_line:
  assumes "rb_wf rb" "rb_contents rb = cs @ 10 # rest" "10 \<notin> set cs" "13 \<notin> set cs" "i + length cs < n - 1" "i + length cs \<le> length command"
  shows "\<exists>rb'. command_loop n i command rb = Some (i + length cs, take i command @ cs @ drop (i + length cs) command, rb')
     \<and> rb_wf rb' \<and> rb_contents rb' = rest"
  using assms
proof (induction cs arbitrary: i command rb)
  case Nil
  then obtain rb' where "ring_buffer_pop (Some rb) (Some 0) = Inr (0, Some 10, Some rb')" "rb_wf rb'" "rb_contents rb' = rest"
    using pop_wf [of rb 0] by auto
  then show ?case using Nil rb_empty_iff [of rb] by (subst command_loop.simps) simp
next
  case (Cons c cs)
  then obtain rb' where rb': "ring_buffer_pop (Some rb) (Some 0) = Inr (0, Some c, Some rb')" "rb_wf rb'" "rb_contents rb' = cs @ 10 # rest"
    using pop_wf [of rb 0] by auto
  have "\<not> is_ring_buffer_empty rb" using Cons.prems rb_empty_iff [of rb] by simp
  then have "command_loop n i command rb = command_loop n (i + 1) (command[i := c]) rb'"
    using Cons.prems rb' by (subst command_loop.simps) auto
  moreover obtain rb'' where "command_loop n (i + 1) (command[i := c]) rb' = Some (i + 1 + length cs,
      take (i + 1) (command[i := c]) @ cs @ drop (i + 1 + length cs) (command[i := c]), rb'')" "rb_wf rb''" "rb_contents rb'' = rest"
    using Cons.IH [OF rb'(2,3), of "i + 1" "command[i := c]"] Cons.prems by auto
  moreover have "take (i + 1) (command[i := c]) = take i command @ [c]"
    using Cons.prems(6) by (simp add: take_Suc_conv_app_nth)
  ultimately show ?case by simp
qed

text \<open>
  C7. What is typed is what the shell reads, as long as no editing is needed: from any state of the shift and caps-lock keys, a sequence of
  key events without Backspace, without the cursor keys Left and Right and without a shift key going down while one is held
  is handled without a fault; if it types a line that fits the ring buffer and the command
  array, ended by Enter, then \<open>read_command\<close> returns exactly the bytes of the line, terminated, and leaves the ring buffer empty. The bytes
  are those of \<open>key_byte\<close>: the characters of the US layout by the rule for shift and caps lock, and for every press of a key
  without a character, shift and caps lock included, one more byte, its scan code.
\<close>

theorem typed_line_reaches_shell:
  assumes "kb_state f k" "kb_line k = []" "0 \<le> entered_keys k" "entered_keys k + int (length rs) < 2 ^ 31"
    and "plain_events rs f" "snd (typed rs f) = cs @ [10]" "10 \<notin> set cs" "13 \<notin> set cs"
    and "length cs < kb_room k" "length cs + 1 < n" "length command = n"
  shows "\<exists>k1 k2. keyboard_events rs k = Some k1 \<and> read_command command n k1 = Some (cs @ 0 # drop (length cs + 1) command, k2)
     \<and> kb_state (fst (typed rs f)) k2 \<and> kb_line k2 = []"
proof -
  obtain k1 where k1: "keyboard_events rs k = Some k1" "kb_state (fst (typed rs f)) k1" "kb_line k1 = cs @ [10]"
    using keyboard_events_typed [OF assms(1,3,4,5)] assms(2,6,9) by (auto simp: newest_def)
  obtain rb where rb: "keyboard_buffer k1 = Some rb" "rb_wf rb" using k1(2) by (auto simp: kb_state_def)
  then have "rb_contents rb = cs @ 10 # []" using k1(3) by (simp add: kb_line_def)
  moreover have "0 + length cs < n - 1" "0 + length cs \<le> length command" using assms(10,11) by linarith+
  ultimately have "\<exists>rb'. command_loop n 0 command rb = Some (0 + length cs, take 0 command @ cs @ drop (0 + length cs) command, rb')
      \<and> rb_wf rb' \<and> rb_contents rb' = []"
    by (intro command_loop_line [OF rb(2) _ assms(7,8)])
  then
  obtain rb' where rb': "command_loop n 0 command rb = Some (length cs, cs @ drop (length cs) command, rb')" "rb_wf rb'" "rb_contents rb' = []"
    by auto
  have "(cs @ drop (length cs) command)[length cs := 0] = cs @ 0 # drop (length cs + 1) command"
    using assms(10,11) by (simp add: list_update_append drop_update_swap flip: Cons_nth_drop_Suc)
  then have "read_command command n k1 = Some (cs @ 0 # drop (length cs + 1) command, k1\<lparr>keyboard_buffer := Some rb'\<rparr>)"
    using rb(1) rb'(1) assms(10,11) by (simp add: read_command_def)
  then show ?thesis using k1(1,2) rb' by (auto simp: kb_state_def kb_line_def)
qed

definition sample_kb :: keyboard where
  "sample_kb = \<lparr>kb_term = sample_term,
     keyboard_buffer = Some \<lparr>rb_buffer = Some (replicate 8 0), rb_head = 0, rb_tail = 0, rb_max = 8, rb_full = False\<rparr>,
     shift = False, capsLock = False, entered_keys = 0\<rparr>"

lemma sample_kb_state: "kb_state (False, False) sample_kb" "kb_line sample_kb = []" "kb_room sample_kb = 8"
  using sample_term_ok by (simp_all add: kb_state_def sample_kb_def rb_wf_def kb_line_def kb_room_def rb_contents_def rb_count_def)

theorem typed_line_reaches_shell_witness:
  "\<exists>k1 k2. keyboard_events [0x3A, 0xBA, 0x23, 0xA3, 0x3A, 0x17, 0x1C] sample_kb = Some k1
     \<and> read_command (replicate 10 7) 10 k1 = Some ([58, 72, 58, 105, 0, 7, 7, 7, 7, 7], k2)"
proof -
  have p: "plain_events [0x3A, 0xBA, 0x23, 0xA3, 0x3A, 0x17, 0x1C] (False, False)" by code_simp
  have t: "snd (typed [0x3A, 0xBA, 0x23, 0xA3, 0x3A, 0x17, 0x1C] (False, False)) = [58, 72, 58, 105] @ [10]" by code_simp
  have e: "0 \<le> entered_keys sample_kb" "entered_keys sample_kb + int (length [0x3A, 0xBA, 0x23, 0xA3, 0x3A, 0x17, 0x1C :: u8]) < 2 ^ 31"
    by (simp_all add: sample_kb_def)
  have "10 \<notin> set [58, 72, 58, 105 :: u8]" "13 \<notin> set [58, 72, 58, 105 :: u8]" "length [58, 72, 58, 105 :: u8] < kb_room sample_kb"
    "length [58, 72, 58, 105 :: u8] + 1 < 10" "length (replicate 10 (7 :: u8)) = 10"
    by (simp_all add: sample_kb_state(3))
  note l = typed_line_reaches_shell [OF sample_kb_state(1,2) e p t this]
  have "[58, 72, 58, 105] @ 0 # drop (length [58, 72, 58, 105 :: u8] + 1) (replicate 10 7) = [58, 72, 58, 105, 0, 7, 7, 7, 7, 7 :: u8]"
    by code_simp
  then show ?thesis using l by (simp only:) blast
qed

text \<open>
  The modifier keys type characters of their own, and a held shift key that repeats toggles the case: Shift and A give \<open>*A\<close>, with one
  repetition of the shift key \<open>**a\<close>.
\<close>

lemma shift_types_asterisk:
  "snd (typed [0x2A, 0x1E, 0x9E, 0xAA] (False, False)) = map of_char ''*A''"
  by code_simp

text \<open>What the excluded keys do: Backspace takes a character from the screen and adds the byte 8 to the line.\<close>

lemma backspace_types_8: "scanCodeToChar BACKSPACE k = Some 8"
  by (cases "capsLock k") (simp_all add: scanCodeToChar_def table_char_def BACKSPACE_def NUM_1_def NUM_0_def tables_code)

lemma repeated_shift_toggles_case:
  "capsLock (handel_shift_key True (handel_shift_key True k)) = capsLock k"
  by (simp add: handel_shift_key_def)

end
