(* ===== verification/Satapi.thy ===== *)
theory Satapi
  imports Prelude
begin

text \<open>
  Optical drives behind the packet interface (kernel/src/driver/disk/ahci/satapi.c): the command blocks for
  INQUIRY, READ(12), WRITE(12), READ CAPACITY, TEST UNIT READY and START STOP UNIT and what is done with the answers.

  \<open>runAtapiCommand\<close>, which programs the port and waits, is represented by its effect (its register level is in the
  theory of the controller): the drive gets the 16-byte command and the length of the one region of the
  physical region table, and either fails or delivers the data. The length field of the region has 22 bits,
  so the region is shorter than the transfer the command asks for when that has more than 4 MiB, and
  there is none at all when the 32-bit size has wrapped to 0. The drive is a parameter: \<open>packet_in\<close> for commands that
  return data (or none), \<open>packet_out\<close> for commands with data for the drive. The buffers come from the kernel heap,
  so \<open>vir_to_phys\<close> of them is not 0; a port that is not NULL is the drive behind it.
\<close>

record atapi_drive =
  packet_in :: "bytes \<Rightarrow> nat \<Rightarrow> bytes option"
  packet_out :: "bytes \<Rightarrow> bytes \<Rightarrow> bool"

definition region_len :: "u32 \<Rightarrow> nat" where
  "region_len buf_size = (if buf_size = 0 then 0 else unat ((buf_size - 1) AND 0x3FFFFF) + 1)"

definition acmd :: "bytes \<Rightarrow> bytes" where
  "acmd cdb = take 16 (cdb @ replicate 16 0)"

text \<open>A command with data for the host: \<open>None\<close> when the region is larger than the buffer.\<close>

definition atapi_in :: "atapi_drive \<Rightarrow> bytes \<Rightarrow> u32 \<Rightarrow> bytes \<Rightarrow> (bool \<times> bytes) option" where
  "atapi_in drv cdb buf_size buf =
     (case packet_in drv (acmd cdb) (region_len buf_size) of
        None \<Rightarrow> Some (False, buf)
      | Some d \<Rightarrow> if region_len buf_size \<le> length buf then Some (True, overwrite buf 0 (take (region_len buf_size) d)) else None)"

definition atapi_out :: "atapi_drive \<Rightarrow> bytes \<Rightarrow> u32 \<Rightarrow> bytes \<Rightarrow> bool option" where
  "atapi_out drv cdb buf_size buf =
     (if region_len buf_size \<le> length buf then Some (packet_out drv (acmd cdb) (take (region_len buf_size) buf)) else None)"

definition atapi_plain :: "atapi_drive \<Rightarrow> bytes \<Rightarrow> bool" where
  "atapi_plain drv cdb = (packet_in drv (acmd cdb) 0 \<noteq> None)"

section \<open>Transfers\<close>

text \<open>READ(12) and WRITE(12) carry the block address and the count big endian.\<close>

definition rw12_cdb :: "u8 \<Rightarrow> u32 \<Rightarrow> u32 \<Rightarrow> bytes" where
  "rw12_cdb opcode lba n =
     [opcode, 0, ucast (drop_bit 24 lba AND 0xFF), ucast (drop_bit 16 lba AND 0xFF), ucast (drop_bit 8 lba AND 0xFF), ucast (lba AND 0xFF),
      ucast (drop_bit 24 n AND 0xFF), ucast (drop_bit 16 n AND 0xFF), ucast (drop_bit 8 n AND 0xFF), ucast (n AND 0xFF), 0, 0]"

definition satapi_read :: "atapi_drive \<Rightarrow> u32 \<Rightarrow> u32 \<Rightarrow> bytes \<Rightarrow> (bool \<times> bytes) option" where
  "satapi_read drv lba sector_count buffer =
     (if sector_count = 0 then Some (False, buffer)
      else let transfer_size = sector_count * 2048
           in atapi_in drv (rw12_cdb 0xA8 lba sector_count) transfer_size buffer)"

definition satapi_write :: "atapi_drive \<Rightarrow> u32 \<Rightarrow> u32 \<Rightarrow> bytes \<Rightarrow> bool option" where
  "satapi_write drv lba sector_count buffer =
     (if sector_count = 0 then Some False
      else let transfer_size = sector_count * 2048
           in atapi_out drv (rw12_cdb 0xAA lba sector_count) transfer_size buffer)"

section \<open>Queries and the tray\<close>

definition satapi_check_media :: "atapi_drive \<Rightarrow> bool" where
  "satapi_check_media drv = atapi_plain drv (replicate 12 0)"

definition satapi_eject :: "atapi_drive \<Rightarrow> bool" where
  "satapi_eject drv = atapi_plain drv [0x1B, 0, 0, 0, 0x02, 0, 0, 0, 0, 0, 0, 0]"

definition satapi_load :: "atapi_drive \<Rightarrow> bool" where
  "satapi_load drv = atapi_plain drv [0x1B, 0, 0, 0, 0x03, 0, 0, 0, 0, 0, 0, 0]"

definition bswap32 :: "u32 \<Rightarrow> u32" where "bswap32 x = of_le (rev (le32 x))"

text \<open>
  The answer to READ CAPACITY, in a cleared 8-byte buffer: \<open>None\<close> when \<open>kheap_alloc\<close> fails (\<open>alloc_ok\<close>) or the command
  does.
\<close>

definition read_capacity :: "atapi_drive \<Rightarrow> (nat \<Rightarrow> bool) \<Rightarrow> bytes option" where
  "read_capacity drv alloc_ok =
     (if \<not> alloc_ok 8 then None
      else case atapi_in drv [0x25, 0, 0, 0, 0, 0, 0, 0, 0, 0] 8 (replicate 8 0) of
             Some (True, d) \<Rightarrow> Some d
           | _ \<Rightarrow> None)"

definition satapi_get_bytes_per_sector :: "atapi_drive \<Rightarrow> (nat \<Rightarrow> bool) \<Rightarrow> u16" where
  "satapi_get_bytes_per_sector drv alloc_ok =
     (case read_capacity drv alloc_ok of None \<Rightarrow> 0 | Some d \<Rightarrow> ucast (bswap32 (rd32 d 4)))"

definition satapi_get_total_sectors :: "atapi_drive \<Rightarrow> (nat \<Rightarrow> bool) \<Rightarrow> u64" where
  "satapi_get_total_sectors drv alloc_ok =
     (case read_capacity drv alloc_ok of None \<Rightarrow> 0 | Some d \<Rightarrow> ucast (bswap32 (rd32 d 0) + 1))"

definition satapi_read_capacity :: "atapi_drive \<Rightarrow> (nat \<Rightarrow> bool) \<Rightarrow> (u32 \<times> u32) option" where
  "satapi_read_capacity drv alloc_ok =
     map_option (\<lambda>d. (bswap32 (rd32 d 0), bswap32 (rd32 d 4))) (read_capacity drv alloc_ok)"

text \<open>INQUIRY: the vendor, product and revision strings with their trailing blanks removed, and the device type.\<close>

definition trim_blanks :: "bytes \<Rightarrow> bytes" where
  "trim_blanks b = rev (dropWhile (\<lambda>c. c = 32) (rev b))"

definition satapi_inquiry :: "atapi_drive \<Rightarrow> (nat \<Rightarrow> bool) \<Rightarrow> (bytes \<times> bytes \<times> bytes \<times> u8) option" where
  "satapi_inquiry drv alloc_ok =
     (if \<not> alloc_ok 36 then None
      else case atapi_in drv [0x12, 0, 0, 0, 36, 0, 0, 0, 0, 0, 0, 0] 36 (replicate 36 0) of
             Some (True, resp) \<Rightarrow> Some (trim_blanks (bslice 8 8 resp), trim_blanks (bslice 16 16 resp),
                                        trim_blanks (bslice 32 4 resp), resp ! 0 AND 0x1F)
           | _ \<Rightarrow> None)"

section \<open>A conforming drive\<close>

text \<open>
  The contract of READ(12) as the packet command set states it: a drive with \<open>disc\<close> in it answers with the sectors
  the command names, as far as the region reaches.
\<close>

definition be32 :: "bytes \<Rightarrow> nat \<Rightarrow> u32" where
  "be32 b q = of_le [b ! (q + 3), b ! (q + 2), b ! (q + 1), b ! q]"

definition disc_sectors :: "(nat \<Rightarrow> bytes) \<Rightarrow> nat \<Rightarrow> nat \<Rightarrow> bytes" where
  "disc_sectors disc lba n = concat (map (\<lambda>i. disc (lba + i)) [0..<n])"

definition reads_disc :: "atapi_drive \<Rightarrow> (nat \<Rightarrow> bytes) \<Rightarrow> bool" where
  "reads_disc drv disc \<longleftrightarrow> (\<forall>i. length (disc i) = 2048) \<and>
     (\<forall>cdb n. length cdb = 16 \<longrightarrow> cdb ! 0 = 0xA8 \<longrightarrow>
        packet_in drv cdb n = Some (take n (disc_sectors disc (unat (be32 cdb 2)) (unat (be32 cdb 6)))))"

lemma length_disc_sectors: "(\<And>i. length (disc i) = 2048) \<Longrightarrow> length (disc_sectors disc lba n) = n * 2048"
  by (induction n) (simp_all add: disc_sectors_def)

lemma ucast_low_byte: "ucast (x AND 0xFF) = (ucast x :: u8)" for x :: u32
proof -
  have "x AND 0xFF = take_bit 8 x" by (simp add: take_bit_eq_mask mask_numeral)
  then show ?thesis by (intro bit_word_eqI) (auto simp: bit_simps)
qed

lemma rw12_fields:
  "be32 (acmd (rw12_cdb p lba n)) 2 = lba" "be32 (acmd (rw12_cdb p lba n)) 6 = n"
  "acmd (rw12_cdb p lba n) ! 0 = p" "length (acmd (rw12_cdb p lba n)) = 16"
proof -
  have le: "[ucast x, ucast (drop_bit 8 x), ucast (drop_bit 16 x), ucast (drop_bit 24 x)] = le32 x" for x :: u32
    by (simp add: le32_def le_bytes_def upt_rec)
  show "be32 (acmd (rw12_cdb p lba n)) 2 = lba" "be32 (acmd (rw12_cdb p lba n)) 6 = n"
    by (simp_all add: be32_def acmd_def rw12_cdb_def ucast_low_byte le)
  show "acmd (rw12_cdb p lba n) ! 0 = p" "length (acmd (rw12_cdb p lba n)) = 16"
    by (simp_all add: acmd_def rw12_cdb_def)
qed

lemma region_len_sectors:
  assumes "0 < unat (n :: u32)" "unat n \<le> 2048"
  shows "region_len (n * 2048) = unat n * 2048"
proof -
  have u: "unat (n * 2048) = unat n * 2048" using assms by (subst unat_times_u32) simp_all
  then have nz: "n * 2048 \<noteq> 0" using assms by auto
  have "unat (n * 2048 - 1) = unat n * 2048 - 1" using u assms by (subst unat_minus_u32) simp_all
  moreover have "(n * 2048 - 1) AND 0x3FFFFF = take_bit 22 (n * 2048 - 1)" by (simp add: take_bit_eq_mask mask_numeral)
  ultimately show ?thesis using nz assms
    by (simp add: region_len_def unsigned_take_bit_eq take_bit_nat_eq_self)
qed

lemma satapi_read_disc:
  assumes "reads_disc drv disc" "0 < unat n" "unat n \<le> 2048" "unat n * 2048 \<le> length buf"
  shows "satapi_read drv lba n buf = Some (True, overwrite buf 0 (disc_sectors disc (unat lba) (unat n)))"
proof -
  have "n \<noteq> 0" using assms by auto
  moreover have "length (disc_sectors disc (unat lba) (unat n)) = unat n * 2048"
    using assms(1) by (intro length_disc_sectors) (simp add: reads_disc_def)
  ultimately show ?thesis
    using assms rw12_fields [of "0xA8" lba n]
    by (simp add: satapi_read_def atapi_in_def reads_disc_def region_len_sectors)
qed

text \<open>
  A transfer of 2^21 sectors wraps to size 0: no region is passed to the controller, and the read reports the
  success of a command that moved nothing into the buffer.
\<close>

lemma satapi_read_wraps_to_nothing:
  "packet_in drv (acmd (rw12_cdb 0xA8 lba 0x200000)) 0 = Some d \<Longrightarrow> satapi_read drv lba 0x200000 buf = Some (True, buf)"
  by (simp add: satapi_read_def atapi_in_def region_len_def)

end
