(* ===== verification/Disk.thy ===== *)
theory Disk
  imports Satapi
begin

text \<open>
  The disk stack below the file systems: \<open>sata_read\<close> and \<open>sata_write\<close>
  (kernel/src/driver/disk/ahci/sata_disk.c), the dispatch \<open>kebla_disk_read\<close> and
  \<open>kebla_disk_write\<close> (kernel/src/driver/disk/disk.c).

  A drive is what the controller sees of it: the sectors on its platter, the sector count
  IDENTIFY reports (0 when the command fails), and which commands the controller completes.
  \<open>runCommand\<close>, which programs the AHCI registers and waits, is represented by its effect on
  the drive: on success \<open>count\<close> sectors move between the platter and the buffer. Optical
  drives are reached through the packet commands of the theory below. The code hands the controller the buffer's address less
  the offset of the direct map (\<open>vir_to_phys\<close>); the model has no addresses and takes the transfer to reach the buffer, which is right for
  buffers in the direct map and for no others. NULL buffers are excluded by
  the callers' buffers being lists; a negative disk number or a transfer that overruns its
  buffer has no result (\<open>None\<close>).

  The contract that file systems rely on is the locale \<open>block_device\<close>.
\<close>

section \<open>State\<close>

datatype DiskType = DISK_TYPE_UNKNOWN | DISK_TYPE_IDE_PATA | DISK_TYPE_AHCI_SATA | DISK_TYPE_NVME
  | DISK_TYPE_SCSI | DISK_TYPE_SATAPI | DISK_TYPE_FLOPPY | DISK_TYPE_RAID | DISK_TYPE_SATA_COMPAT
  | DISK_TYPE_SATA_VENDOR | DISK_TYPE_SATA_GENERIC | DISK_TYPE_SAS | DISK_TYPE_IPI

record Disk =
  d_initialized :: bool
  d_type :: DiskType
  d_bytes_per_sector :: u16
  d_total_sectors :: u64
  d_root_directory_sector :: u32
  d_root_directory_size :: u32
  d_pvd_sector :: u32
  d_context :: "nat option"

text \<open>
  \<open>ident_data\<close> is the 512-byte block IDENTIFY DEVICE leaves in the buffer, \<open>None\<close> when the
  buffer cannot be allocated or the command fails; \<open>cmd_ok lba n\<close> says whether \<open>runCommand\<close>
  completes a DMA command for \<open>n\<close> sectors (its physical-region table holds 256 entries, so
  it refuses more than 2048 sectors whatever the controller does).
\<close>

record drive =
  platter :: "nat \<Rightarrow> bytes"
  ident_data :: "bytes option"
  cmd_ok :: "nat \<Rightarrow> nat \<Rightarrow> bool"

record disk_sys =
  disks :: "Disk list option"
  disk_count :: int
  drives :: "nat \<Rightarrow> drive"
  optical :: "nat \<Rightarrow> atapi_drive"
  disk_malloc_ok :: "nat \<Rightarrow> bool"

section \<open>What IDENTIFY reports\<close>

definition id_word :: "bytes \<Rightarrow> nat \<Rightarrow> u16" where
  "id_word d i = rd16 d (2 * i)"

definition sata_get_total_sectors :: "drive \<Rightarrow> u64" where
  "sata_get_total_sectors drv = (case ident_data drv of
     None \<Rightarrow> 0
   | Some d \<Rightarrow>
       if bit (id_word d 83) 10
       then push_bit 48 (ucast (id_word d 103)) OR push_bit 32 (ucast (id_word d 102))
            OR push_bit 16 (ucast (id_word d 101)) OR ucast (id_word d 100)
       else ucast (push_bit 16 (ucast (id_word d 61) :: u32) OR ucast (id_word d 60)))"

definition sata_get_bytes_per_sector :: "drive \<Rightarrow> u16" where
  "sata_get_bytes_per_sector drv = (case ident_data drv of
     None \<Rightarrow> 512
   | Some d \<Rightarrow>
       if bit (id_word d 106) 14
       then let n = push_bit 16 (ucast (id_word d 118) :: u32) OR ucast (id_word d 117)
            in if n \<noteq> 0 then ucast n else 512
       else 512)"

section \<open>SATA transfers\<close>

definition MAX_SECTORS_PER_CMD :: nat where "MAX_SECTORS_PER_CMD = 32"

definition platter_sectors :: "drive \<Rightarrow> nat \<Rightarrow> nat \<Rightarrow> bytes" where
  "platter_sectors drv lba n = concat (map (\<lambda>i. platter drv (lba + i)) [0..<n])"

definition put_sectors :: "drive \<Rightarrow> nat \<Rightarrow> nat \<Rightarrow> bytes \<Rightarrow> drive" where
  "put_sectors drv lba n data = drv\<lparr>platter := (\<lambda>j. if lba \<le> j \<and> j < lba + n
     then bslice ((j - lba) * 512) 512 data else platter drv j)\<rparr>"

text \<open>
  The command loop of \<open>sata_read\<close>: at most 32 sectors per command. A command carries the
  low 48 bits of the block address; since 2^48 divides 2^64, reducing the natural number
  gives the same address as the wrapping 64-bit sum.
\<close>

function sata_read_loop :: "drive \<Rightarrow> nat \<Rightarrow> nat \<Rightarrow> bytes \<Rightarrow> nat \<Rightarrow> bool \<times> bytes" where
  "sata_read_loop drv lba count buf off =
     (if 0 < count
      then let chunk = (if count > MAX_SECTORS_PER_CMD then MAX_SECTORS_PER_CMD else count)
           in if \<not> cmd_ok drv (lba mod 2 ^ 48) chunk then (False, buf)
              else sata_read_loop drv (lba + chunk) (count - chunk)
                     (overwrite buf off (platter_sectors drv (lba mod 2 ^ 48) chunk))
                     (off + chunk * 512)
      else (True, buf))"
  by pat_completeness auto
termination
  by (relation "measure (\<lambda>(drv, lba, count, buf, off). count)")
     (auto simp: MAX_SECTORS_PER_CMD_def)

declare sata_read_loop.simps [simp del]

definition sata_read :: "drive \<Rightarrow> u64 \<Rightarrow> u32 \<Rightarrow> bytes \<Rightarrow> (bool \<times> bytes) option" where
  "sata_read drv lba count buf =
     (let total_sectors = sata_get_total_sectors drv
      in if total_sectors = 0 then Some (False, buf)
         else if lba + ucast count > total_sectors then Some (False, buf)
         else if unat count * 512 \<le> length buf
         then Some (sata_read_loop drv (unat lba) (unat count) buf 0)
         else None)"

definition sata_write :: "drive \<Rightarrow> u64 \<Rightarrow> u32 \<Rightarrow> bytes \<Rightarrow> (bool \<times> drive) option" where
  "sata_write drv lba count buf =
     (let total_sectors = sata_get_total_sectors drv
      in if total_sectors > 0 \<and> lba + ucast count > total_sectors then Some (False, drv)
         else if \<not> cmd_ok drv (unat lba mod 2 ^ 48) (unat count) then Some (False, drv)
         else if unat count * 512 \<le> length buf
         then Some (True, put_sectors drv (unat lba mod 2 ^ 48) (unat count) buf)
         else None)"

section \<open>Dispatch by disk type\<close>

definition get_disk :: "int \<Rightarrow> 'a disk_sys_scheme \<Rightarrow> Disk option" where
  "get_disk disk_no s = (case disks s of None \<Rightarrow> None
     | Some ds \<Rightarrow> if 0 \<le> disk_no \<and> nat disk_no < length ds then Some (ds ! nat disk_no) else None)"

definition kebla_disk_read ::
  "int \<Rightarrow> u64 \<Rightarrow> u32 \<Rightarrow> bytes \<Rightarrow> 'a disk_sys_scheme \<Rightarrow> (bool \<times> bytes) option" where
  "kebla_disk_read disk_no lba count buf s =
     (if disk_no \<ge> disk_count s then Some (False, buf)
      else if disks s = None then Some (False, buf)
      else if count = 0 then Some (False, buf)
      else do {
        disk \<leftarrow> get_disk disk_no s;
        case d_type disk of
          DISK_TYPE_AHCI_SATA \<Rightarrow> (case d_context disk of None \<Rightarrow> Some (False, buf)
            | Some port \<Rightarrow> sata_read (drives s port) lba count buf)
        | DISK_TYPE_SATAPI \<Rightarrow> (case d_context disk of None \<Rightarrow> Some (False, buf)
            | Some port \<Rightarrow> satapi_read (optical s port) (ucast lba) count buf)
        | _ \<Rightarrow> Some (False, buf) })"

definition kebla_disk_write ::
  "int \<Rightarrow> u64 \<Rightarrow> u32 \<Rightarrow> bytes \<Rightarrow> 'a disk_sys_scheme \<Rightarrow> (bool \<times> 'a disk_sys_scheme) option" where
  "kebla_disk_write disk_no lba count buf s =
     (if disk_no \<ge> disk_count s then Some (False, s)
      else if disks s = None then Some (False, s)
      else if count = 0 then Some (False, s)
      else do {
        disk \<leftarrow> get_disk disk_no s;
        if lba + ucast count > d_total_sectors disk then Some (False, s)
        else case d_type disk of
          DISK_TYPE_AHCI_SATA \<Rightarrow> (case d_context disk of None \<Rightarrow> Some (False, s)
            | Some port \<Rightarrow> do {
                (ok, drv) \<leftarrow> sata_write (drives s port) lba count buf;
                Some (ok, s\<lparr>drives := (drives s)(port := drv)\<rparr>) })
        | DISK_TYPE_SATAPI \<Rightarrow> (case d_context disk of None \<Rightarrow> Some (False, s)
            | Some port \<Rightarrow> map_option (\<lambda>ok. (ok, s)) (satapi_write (optical s port) (ucast lba) count buf))
        | _ \<Rightarrow> Some (False, s) })"

section \<open>Initialisation and status\<close>

definition MAX_TOTAL_DISKS :: int where "MAX_TOTAL_DISKS = 2"

definition kebla_disk_status :: "int \<Rightarrow> 'a disk_sys_scheme \<Rightarrow> bool option" where
  "kebla_disk_status disk_no s =
     (if disks s = None then Some False
      else if disk_no > disk_count s then Some False
      else do {
        disk \<leftarrow> get_disk disk_no s;
        Some (d_type disk \<noteq> DISK_TYPE_UNKNOWN \<and> d_bytes_per_sector disk \<noteq> 0
              \<and> d_total_sectors disk \<noteq> 0 \<and> d_context disk \<noteq> None) })"

definition put_disk :: "int \<Rightarrow> Disk \<Rightarrow> 'a disk_sys_scheme \<Rightarrow> 'a disk_sys_scheme" where
  "put_disk disk_no d s = s\<lparr>disks := map_option (\<lambda>ds. ds[nat disk_no := d]) (disks s)\<rparr>"

text \<open>
  On a SATA disk the fields are set in a local copy of the \<open>Disk\<close>, so the table does not
  change; on an optical disk they are set in the table.
\<close>

definition kebla_disk_init :: "int \<Rightarrow> 'a disk_sys_scheme \<Rightarrow> (bool \<times> 'a disk_sys_scheme) option" where
  "kebla_disk_init disk_no s =
     (if disk_no < 0 \<or> disk_no \<ge> MAX_TOTAL_DISKS then Some (False, s)
      else do {
        disk \<leftarrow> get_disk disk_no s;
        case d_context disk of
          None \<Rightarrow> Some (False, s)
        | Some port \<Rightarrow>
            if d_initialized disk then Some (True, s)
            else case d_type disk of
              DISK_TYPE_AHCI_SATA \<Rightarrow>
                if sata_get_bytes_per_sector (drives s port) = 0
                   \<or> sata_get_total_sectors (drives s port) = 0
                then Some (False, s) else Some (True, s)
            | DISK_TYPE_SATAPI \<Rightarrow>
                let bps = satapi_get_bytes_per_sector (optical s port) (disk_malloc_ok s);
                    total = satapi_get_total_sectors (optical s port) (disk_malloc_ok s);
                    disk' = disk\<lparr>d_bytes_per_sector := bps, d_total_sectors := total\<rparr>
                in if bps = 0 \<or> total = 0 then Some (False, put_disk disk_no disk' s)
                   else Some (True, put_disk disk_no
                          (disk'\<lparr>d_root_directory_sector := 0, d_root_directory_size := 0,
                                  d_pvd_sector := 0\<rparr>) s)
            | _ \<Rightarrow> Some (False, s) })"

definition find_disk_type :: "int \<Rightarrow> 'a disk_sys_scheme \<Rightarrow> DiskType option option" where
  "find_disk_type disk_no s =
     (if disk_no > MAX_TOTAL_DISKS \<or> disk_no > disk_count s - 1 then Some None
      else if disks s = None then Some None
      else map_option (\<lambda>d. Some (d_type d)) (get_disk disk_no s))"

definition get_total_disks :: "'a disk_sys_scheme \<Rightarrow> int" where
  "get_total_disks s = disk_count s"

section \<open>Clearing a disk\<close>

definition MAX_BATCH_SIZE :: nat where "MAX_BATCH_SIZE = 256"

text \<open>
  The loop of \<open>clear_disk\<close>. The counter is a 64-bit word that wraps: with a total within 256
  of 2^64 the loop would not end, which \<open>None\<close> stands for. The returned pair is the
  status and the last value stored through \<open>progress\<close>.
\<close>

partial_function (option) clear_loop ::
  "int \<Rightarrow> u64 \<Rightarrow> bytes \<Rightarrow> u64 \<Rightarrow> u64 \<Rightarrow> 'a disk_sys_scheme \<Rightarrow> (int \<times> u64 \<times> 'a disk_sys_scheme) option" where
  "clear_loop disk_no total_n buffer lba progress s =
     (if lba < total_n
      then let progress' = (lba * 100) div total_n;
               n = (if lba + of_nat MAX_BATCH_SIZE \<le> total_n then of_nat MAX_BATCH_SIZE
                    else ucast (total_n - lba)) :: u32
           in Option.bind (kebla_disk_write disk_no lba n buffer s) (\<lambda>(ok, s').
                if \<not> ok then Some (-1, progress', s')
                else clear_loop disk_no total_n buffer (lba + of_nat MAX_BATCH_SIZE) progress' s')
      else Some (0, progress, s))"

definition clear_disk :: "int \<Rightarrow> 'a disk_sys_scheme \<Rightarrow> (int \<times> u64 \<times> 'a disk_sys_scheme) option" where
  "clear_disk disk_no s =
     (if disks s = None \<or> disk_no \<ge> disk_count s \<or> disk_no < 0 then Some (-1, 0, s)
      else do {
        disk \<leftarrow> get_disk disk_no s;
        if d_total_sectors disk = 0 \<or> d_bytes_per_sector disk = 0 then Some (-1, 0, s)
        else if \<not> disk_malloc_ok s (512 * MAX_BATCH_SIZE) then Some (-1, 0, s)
        else clear_loop disk_no (d_total_sectors disk) (replicate (512 * MAX_BATCH_SIZE) 0) 0 0 s })"

section \<open>Facts about transfers\<close>

definition drive_ok :: "drive \<Rightarrow> bool" where
  "drive_ok drv \<longleftrightarrow> (\<forall>lba. length (platter drv lba) = 512) \<and>
     (\<forall>lba n. 0 < n \<and> n \<le> MAX_BATCH_SIZE \<longrightarrow> cmd_ok drv lba n)"

lemma length_concat_const: "(\<And>i. i < n \<Longrightarrow> length (f i) = w) \<Longrightarrow> length (concat (map f [0..<n])) = n * w"
  by (induction n) auto

lemma length_platter_sectors: "drive_ok drv \<Longrightarrow> length (platter_sectors drv lba n) = n * 512"
  by (simp add: platter_sectors_def drive_ok_def length_concat_const)

lemma platter_sectors_add:
  "platter_sectors drv lba (m + n) = platter_sectors drv lba m @ platter_sectors drv (lba + m) n"
  by (induction n) (simp_all add: platter_sectors_def add.assoc)

lemma platter_sectors_1 [simp]: "platter_sectors drv lba 0 = []" "platter_sectors drv lba (Suc 0) = platter drv lba"
  by (simp_all add: platter_sectors_def)

lemma sata_read_loop_spec:
  "drive_ok drv \<Longrightarrow> lba + count \<le> 2 ^ 48 \<Longrightarrow> off + count * 512 \<le> length buf \<Longrightarrow>
   sata_read_loop drv lba count buf off = (True, overwrite buf off (platter_sectors drv lba count))"
proof (induction drv lba count buf off rule: sata_read_loop.induct)
  case (1 drv lba count buf off)
  show ?case
  proof (cases "0 < count")
    case True
    define chunk where "chunk = (if count > MAX_SECTORS_PER_CMD then MAX_SECTORS_PER_CMD else count)"
    have c: "chunk \<le> count" "0 < chunk" "chunk \<le> 256"
      using True by (auto simp: chunk_def MAX_SECTORS_PER_CMD_def)
    have lba: "lba mod 281474976710656 = lba" using "1.prems" True by simp
    have ok: "cmd_ok drv lba chunk"
      using "1.prems" c by (simp add: drive_ok_def MAX_BATCH_SIZE_def)
    have len: "length (platter_sectors drv lba chunk) = chunk * 512"
      using "1.prems" by (simp add: length_platter_sectors)
    have le: "chunk * 512 + (count - chunk) * 512 = count * 512"
      using c by (metis add_mult_distrib le_add_diff_inverse)
    have l: "length (overwrite buf off (platter_sectors drv lba chunk)) = length buf"
      using "1.prems" len le by simp
    have "sata_read_loop drv lba count buf off = sata_read_loop drv (lba + chunk) (count - chunk)
        (overwrite buf off (platter_sectors drv lba chunk)) (off + chunk * 512)"
      using True ok lba by (subst sata_read_loop.simps) (simp add: chunk_def [symmetric] Let_def)
    also have "\<dots> = (True, overwrite (overwrite buf off (platter_sectors drv lba chunk))
        (off + chunk * 512) (platter_sectors drv (lba + chunk) (count - chunk)))"
      using "1.IH" [OF True chunk_def] ok "1.prems" l le lba c by simp
    also have "\<dots> = (True, overwrite buf off (platter_sectors drv lba count))"
    proof -
      have "platter_sectors drv lba count
          = platter_sectors drv lba chunk @ platter_sectors drv (lba + chunk) (count - chunk)"
        using platter_sectors_add [of drv lba chunk "count - chunk"] c by simp
      then show ?thesis
        using overwrite_adj [of off "platter_sectors drv lba chunk"
            "platter_sectors drv (lba + chunk) (count - chunk)" buf] "1.prems" le len
        by (simp add: length_platter_sectors)
    qed
    finally show ?thesis .
  next
    case False
    then show ?thesis by (simp add: sata_read_loop.simps)
  qed
qed

lemma put_sectors_ok:
  "drive_ok drv \<Longrightarrow> n * 512 \<le> length data \<Longrightarrow> drive_ok (put_sectors drv lba n data)"
proof -
  assume a: "drive_ok drv" "n * 512 \<le> length data"
  have "(j - lba) * 512 + 512 \<le> length data" if "lba \<le> j" "j < lba + n" for j
  proof -
    have "Suc (j - lba) * 512 \<le> n * 512" using that by (intro mult_le_mono1) simp
    then show ?thesis using a by simp
  qed
  then show ?thesis using a by (auto simp: drive_ok_def put_sectors_def)
qed

lemma platter_put_sectors:
  "platter (put_sectors drv lba n data) j =
     (if lba \<le> j \<and> j < lba + n then bslice ((j - lba) * 512) 512 data else platter drv j)"
  by (simp add: put_sectors_def)


section \<open>The device a file system sits on\<close>

text \<open>
  \<open>sata_dev no port s\<close>: disk \<open>no\<close> is an initialised SATA disk on a working port whose table
  entry has the geometry the drive reports, as \<open>kebla_get_disks\<close> leaves it.
\<close>

definition sata_dev :: "int \<Rightarrow> 'a disk_sys_scheme \<Rightarrow> nat option" where
  "sata_dev no s = (case get_disk no s of None \<Rightarrow> None
     | Some d \<Rightarrow> if d_type d = DISK_TYPE_AHCI_SATA \<and> no < disk_count s then d_context d else None)"

definition dev_drive :: "int \<Rightarrow> 'a disk_sys_scheme \<Rightarrow> drive" where
  "dev_drive no s = drives s (the (sata_dev no s))"

definition dev_cap :: "int \<Rightarrow> 'a disk_sys_scheme \<Rightarrow> nat" where
  "dev_cap no s = unat (sata_get_total_sectors (dev_drive no s))"

definition dev_sector :: "int \<Rightarrow> 'a disk_sys_scheme \<Rightarrow> nat \<Rightarrow> bytes" where
  "dev_sector no s = platter (dev_drive no s)"

definition dev_ok :: "int \<Rightarrow> 'a disk_sys_scheme \<Rightarrow> bool" where
  "dev_ok no s \<longleftrightarrow> sata_dev no s \<noteq> None \<and> drive_ok (dev_drive no s) \<and> dev_cap no s \<le> 2 ^ 48
     \<and> d_total_sectors (the (get_disk no s)) = sata_get_total_sectors (dev_drive no s)"

definition dev_put :: "int \<Rightarrow> nat \<Rightarrow> nat \<Rightarrow> bytes \<Rightarrow> 'a disk_sys_scheme \<Rightarrow> 'a disk_sys_scheme" where
  "dev_put no lba n data s =
     s\<lparr>drives := (drives s)(the (sata_dev no s) := put_sectors (dev_drive no s) lba n data)\<rparr>"

definition dev_sectors :: "int \<Rightarrow> 'a disk_sys_scheme \<Rightarrow> nat \<Rightarrow> nat \<Rightarrow> bytes" where
  "dev_sectors no s lba n = concat (map (\<lambda>i. dev_sector no s (lba + i)) [0..<n])"

lemma dev_sectors_eq: "dev_sectors no s lba n = platter_sectors (dev_drive no s) lba n"
  by (simp add: dev_sectors_def platter_sectors_def dev_sector_def)

lemma unat_lba_count:
  assumes "unat (lba :: u64) + unat (count :: u32) \<le> 2 ^ 48"
  shows "unat (lba + ucast count) = unat lba + unat count"
proof -
  have "unat (ucast count :: u64) = unat count"
    using unat_u32_lt [of count] by (simp add: unsigned_ucast_eq take_bit_nat_eq_self)
  then show ?thesis using assms by (simp add: unat_plus_u64)
qed

lemma sata_devE:
  assumes "sata_dev no s = Some port"
  obtains d ds where "get_disk no s = Some d" "disks s = Some ds" "d_type d = DISK_TYPE_AHCI_SATA"
    "no < disk_count s" "d_context d = Some port"
  using assms by (auto simp: sata_dev_def get_disk_def split: option.splits if_splits)

lemma dev_okE:
  assumes "dev_ok no s"
  obtains port d ds where "sata_dev no s = Some port" "get_disk no s = Some d" "disks s = Some ds"
    "d_type d = DISK_TYPE_AHCI_SATA" "no < disk_count s" "d_context d = Some port"
    "drive_ok (drives s port)" "unat (sata_get_total_sectors (drives s port)) \<le> 2 ^ 48"
    "d_total_sectors d = sata_get_total_sectors (drives s port)" "dev_drive no s = drives s port"
proof -
  obtain port where p: "sata_dev no s = Some port" using assms by (auto simp: dev_ok_def)
  then obtain d ds where "get_disk no s = Some d" "disks s = Some ds" "d_type d = DISK_TYPE_AHCI_SATA"
    "no < disk_count s" "d_context d = Some port" by (rule sata_devE)
  with p assms that show ?thesis by (simp add: dev_ok_def dev_drive_def dev_cap_def)
qed

lemma kebla_disk_read_ok:
  assumes ok: "dev_ok no s" and c: "0 < unat count" and r: "unat lba + unat count \<le> dev_cap no s"
    and l: "unat count * 512 \<le> length buf"
  shows "kebla_disk_read no lba count buf s
     = Some (True, overwrite buf 0 (dev_sectors no s (unat lba) (unat count)))"
proof (rule dev_okE [OF ok])
  fix port d ds
  assume d: "sata_dev no s = Some port" "get_disk no s = Some d" "disks s = Some ds"
    "d_type d = DISK_TYPE_AHCI_SATA" "no < disk_count s" "d_context d = Some port"
    "drive_ok (drives s port)" "unat (sata_get_total_sectors (drives s port)) \<le> 2 ^ 48"
    "dev_drive no s = drives s port"
  have r': "unat lba + unat count \<le> unat (sata_get_total_sectors (drives s port))"
    using r d by (simp add: dev_cap_def)
  then have "unat (lba + ucast count) = unat lba + unat count" using d by (simp add: unat_lba_count)
  then have "\<not> lba + ucast count > sata_get_total_sectors (drives s port)"
    using r' by (simp add: word_less_nat_alt)
  moreover have "sata_get_total_sectors (drives s port) \<noteq> 0" using r' c by auto
  moreover have "count \<noteq> 0" using c by auto
  ultimately show ?thesis
    using d l r' by (simp add: kebla_disk_read_def sata_read_def Let_def sata_read_loop_spec
        dev_sectors_eq)
qed

lemma kebla_disk_write_ok:
  assumes ok: "dev_ok no s" and c: "0 < unat count" and r: "unat lba + unat count \<le> dev_cap no s"
    and l: "unat count * 512 \<le> length buf" and m: "unat count \<le> 256"
  shows "kebla_disk_write no lba count buf s = Some (True, dev_put no (unat lba) (unat count) buf s)"
proof (rule dev_okE [OF ok])
  fix port d ds
  assume d: "sata_dev no s = Some port" "get_disk no s = Some d" "disks s = Some ds"
    "d_type d = DISK_TYPE_AHCI_SATA" "no < disk_count s" "d_context d = Some port"
    "drive_ok (drives s port)" "unat (sata_get_total_sectors (drives s port)) \<le> 2 ^ 48"
    "d_total_sectors d = sata_get_total_sectors (drives s port)"
    "dev_drive no s = drives s port"
  have r': "unat lba + unat count \<le> unat (sata_get_total_sectors (drives s port))"
    using r d by (simp add: dev_cap_def)
  then have "unat (lba + ucast count) = unat lba + unat count" using d by (simp add: unat_lba_count)
  then have nb: "\<not> lba + ucast count > sata_get_total_sectors (drives s port)"
    using r' by (simp add: word_less_nat_alt)
  have "unat lba mod 281474976710656 = unat lba" using r' d c by simp
  moreover have "cmd_ok (drives s port) (unat lba) (unat count)"
    using d c m by (simp add: drive_ok_def MAX_BATCH_SIZE_def)
  moreover have "count \<noteq> 0" using c by auto
  ultimately show ?thesis
    using d l nb by (simp add: kebla_disk_write_def sata_write_def Let_def dev_put_def)
qed

lemma get_disk_put [simp]: "get_disk k (dev_put no lba n data s) = get_disk k s"
  by (simp add: dev_put_def get_disk_def)

lemma disk_count_put [simp]: "disk_count (dev_put no lba n data s) = disk_count s"
  by (simp add: dev_put_def)

lemma sata_dev_put [simp]: "sata_dev k (dev_put no lba n data s) = sata_dev k s"
  by (simp add: sata_dev_def split: option.split)

lemma dev_drive_put [simp]:
  "dev_drive no (dev_put no lba n data s) = put_sectors (dev_drive no s) lba n data"
  unfolding dev_drive_def sata_dev_put by (simp add: dev_put_def dev_drive_def)

lemma total_sectors_put [simp]:
  "sata_get_total_sectors (put_sectors drv lba n data) = sata_get_total_sectors drv"
  by (simp add: put_sectors_def sata_get_total_sectors_def)

lemma dev_cap_put [simp]: "dev_cap no (dev_put no lba n data s) = dev_cap no s"
  by (simp add: dev_cap_def)

lemma dev_ok_put:
  "dev_ok no s \<Longrightarrow> n * 512 \<le> length data \<Longrightarrow> dev_ok no (dev_put no lba n data s)"
  by (simp add: dev_ok_def put_sectors_ok)

lemma dev_sector_put:
  "dev_sector no (dev_put no lba n data s) j =
     (if lba \<le> j \<and> j < lba + n then bslice ((j - lba) * 512) 512 data else dev_sector no s j)"
  by (simp add: dev_sector_def platter_put_sectors)

lemma length_dev_sector [simp]: "dev_ok no s \<Longrightarrow> length (dev_sector no s j) = 512"
  by (simp add: dev_ok_def drive_ok_def dev_sector_def)

lemma length_dev_sectors [simp]: "dev_ok no s \<Longrightarrow> length (dev_sectors no s lba n) = n * 512"
  by (simp add: dev_sectors_eq dev_ok_def length_platter_sectors)


section \<open>The contract of a block device\<close>

text \<open>
  What a file system relies on: a device has a capacity in 512-byte sectors; a read of a
  range inside it fills the front of the buffer with the sectors, a write replaces
  exactly the sectors of its range. Ranges are natural numbers here; \<open>batch\<close> bounds the
  sectors of one write.
\<close>

locale block_device =
  fixes dev_read :: "'s \<Rightarrow> nat \<Rightarrow> nat \<Rightarrow> bytes \<Rightarrow> (bool \<times> bytes) option"
    and dev_write :: "'s \<Rightarrow> nat \<Rightarrow> nat \<Rightarrow> bytes \<Rightarrow> (bool \<times> 's) option"
    and sector :: "'s \<Rightarrow> nat \<Rightarrow> bytes"
    and capacity :: "'s \<Rightarrow> nat"
    and usable :: "'s \<Rightarrow> bool"
    and batch :: nat
  assumes sector_length: "usable s \<Longrightarrow> length (sector s j) = 512"
    and read_range: "usable s \<Longrightarrow> 0 < n \<Longrightarrow> lba + n \<le> capacity s \<Longrightarrow> n * 512 \<le> length buf \<Longrightarrow> n < 2 ^ 32 \<Longrightarrow>
      dev_read s lba n buf = Some (True, overwrite buf 0 (concat (map (\<lambda>i. sector s (lba + i)) [0..<n])))"
    and write_range: "usable s \<Longrightarrow> 0 < n \<Longrightarrow> lba + n \<le> capacity s \<Longrightarrow> n * 512 \<le> length buf \<Longrightarrow> n \<le> batch \<Longrightarrow>
      \<exists>s'. dev_write s lba n buf = Some (True, s') \<and> usable s' \<and> capacity s' = capacity s
        \<and> (\<forall>j. sector s' j = (if lba \<le> j \<and> j < lba + n
               then bslice ((j - lba) * 512) 512 buf else sector s j))"
begin

lemma concat_written:
  assumes "n * 512 \<le> length buf"
  shows "concat (map (\<lambda>i. bslice (i * 512) 512 buf) [0..<n]) = take (n * 512) buf"
  using assms
proof (induction n)
  case (Suc n)
  have "take (n * 512) buf @ bslice (n * 512) 512 buf = take (Suc n * 512) buf"
    using take_add [of "n * 512" 512 buf] by (simp add: bslice_def add.commute)
  then show ?case using Suc by simp
qed simp

lemma write_then_read:
  assumes u: "usable s" and n: "0 < n" "lba + n \<le> capacity s" "n \<le> batch" "n < 2 ^ 32"
    and l: "length data = n * 512" and b: "length buf = n * 512"
  shows "\<exists>s'. dev_write s lba n data = Some (True, s') \<and> dev_read s' lba n buf = Some (True, data)"
proof -
  obtain s' where w: "dev_write s lba n data = Some (True, s')" and u': "usable s'"
    and c: "capacity s' = capacity s"
    and sec: "\<And>j. sector s' j = (if lba \<le> j \<and> j < lba + n
        then bslice ((j - lba) * 512) 512 data else sector s j)"
    using write_range [OF u n(1,2) _ n(3), of data] l by auto
  have "concat (map (\<lambda>i. sector s' (lba + i)) [0..<n]) = concat (map (\<lambda>i. bslice (i * 512) 512 data) [0..<n])"
    by (intro arg_cong [where f = concat] map_cong) (simp_all add: sec)
  also have "\<dots> = data" using concat_written [of n data] l by simp
  finally have "dev_read s' lba n buf = Some (True, overwrite buf 0 data)"
    using read_range [OF u' n(1) _ _ n(4), of lba buf] n c b by simp
  then show ?thesis using w l b by auto
qed

lemma write_keeps_other_range:
  assumes u: "usable s" and n: "0 < n" "lba + n \<le> capacity s" "n \<le> batch" "n * 512 \<le> length data"
    and m: "0 < m" "lba' + m \<le> capacity s" "m < 2 ^ 32" "m * 512 \<le> length buf"
    and dis: "lba + n \<le> lba' \<or> lba' + m \<le> lba"
  shows "\<exists>s'. dev_write s lba n data = Some (True, s') \<and> dev_read s' lba' m buf = dev_read s lba' m buf"
proof -
  obtain s' where w: "dev_write s lba n data = Some (True, s')" and u': "usable s'"
    and c: "capacity s' = capacity s"
    and sec: "\<And>j. sector s' j = (if lba \<le> j \<and> j < lba + n
        then bslice ((j - lba) * 512) 512 data else sector s j)"
    using write_range [OF u n(1,2,4,3)] by auto
  have eq: "map (\<lambda>i. sector s' (lba' + i)) [0..<m] = map (\<lambda>i. sector s (lba' + i)) [0..<m]"
    using dis by (intro map_cong) (auto simp: sec)
  have "lba' + m \<le> capacity s'" using m c by simp
  from read_range [OF u' m(1) this m(4,3)]
  have "dev_read s' lba' m buf = dev_read s lba' m buf"
    unfolding eq read_range [OF u m(1,2,4,3)] .
  then show ?thesis using w by auto
qed

end

lemma unat_of_nat_le: "n < 2 ^ LENGTH('w::len) \<Longrightarrow> unat (of_nat n :: 'w word) = n"
  by (simp add: unat_of_nat take_bit_nat_eq_self)

interpretation sata_blk: block_device
  "\<lambda>s lba n buf. kebla_disk_read no (of_nat lba) (of_nat n) buf (s :: 'a disk_sys_scheme)"
  "\<lambda>s lba n buf. kebla_disk_write no (of_nat lba) (of_nat n) buf s"
  "dev_sector no" "dev_cap no" "dev_ok no" MAX_BATCH_SIZE
  for no
proof unfold_locales
  fix s :: "'a disk_sys_scheme" and j :: nat
  show "dev_ok no s \<Longrightarrow> length (dev_sector no s j) = 512" by simp
next
  fix s :: "'a disk_sys_scheme" and n lba :: nat and buf :: bytes
  assume a: "dev_ok no s" "0 < n" "lba + n \<le> dev_cap no s" "n * 512 \<le> length buf" "n < 2 ^ 32"
  have "unat (of_nat lba :: u64) = lba" "unat (of_nat n :: u32) = n"
    using a by (auto simp: unat_of_nat_le dev_ok_def)
  then show "kebla_disk_read no (of_nat lba) (of_nat n) buf s
      = Some (True, overwrite buf 0 (concat (map (\<lambda>i. dev_sector no s (lba + i)) [0..<n])))"
    using kebla_disk_read_ok [of no s "of_nat n" "of_nat lba" buf] a by (simp add: dev_sectors_def)
next
  fix s :: "'a disk_sys_scheme" and n lba :: nat and buf :: bytes
  assume a: "dev_ok no s" "0 < n" "lba + n \<le> dev_cap no s" "n * 512 \<le> length buf" "n \<le> MAX_BATCH_SIZE"
  have "unat (of_nat lba :: u64) = lba" "unat (of_nat n :: u32) = n"
    using a by (auto simp: unat_of_nat_le dev_ok_def MAX_BATCH_SIZE_def)
  then have "kebla_disk_write no (of_nat lba) (of_nat n) buf s = Some (True, dev_put no lba n buf s)"
    using kebla_disk_write_ok [of no s "of_nat n" "of_nat lba" buf] a
    by (simp add: MAX_BATCH_SIZE_def)
  then show "\<exists>s'. kebla_disk_write no (of_nat lba) (of_nat n) buf s = Some (True, s') \<and> dev_ok no s'
      \<and> dev_cap no s' = dev_cap no s \<and> (\<forall>j. dev_sector no s' j = (if lba \<le> j \<and> j < lba + n
          then bslice ((j - lba) * 512) 512 buf else dev_sector no s j))"
    using a by (simp add: dev_ok_put dev_sector_put)
qed


section \<open>Properties\<close>

lemma clear_step:
  assumes ok: "dev_ok no s" and lt: "lba < total_n" and cap: "dev_cap no s = unat total_n"
  defines "n \<equiv> (if unat lba + 256 \<le> unat total_n then 256 else unat total_n - unat lba)"
  shows "clear_loop no total_n (replicate 131072 0) lba p s
       = clear_loop no total_n (replicate 131072 0) (lba + 256) (lba * 100 div total_n)
           (dev_put no (unat lba) n (replicate 131072 0) s)"
proof -
  have tot: "unat total_n \<le> 2 ^ 48" using ok cap by (simp add: dev_ok_def)
  have l: "unat lba < unat total_n" using lt by (simp add: word_less_nat_alt)
  have u: "unat (lba + 256) = unat lba + 256" using tot l by (subst unat_plus_u64) simp_all
  define c :: u32 where "c = (if lba + 256 \<le> total_n then 256 else ucast (total_n - lba))"
  have sub: "unat (total_n - lba) = unat total_n - unat lba"
    using l by (simp add: unat_sub_if_size)
  have c: "unat c = n"
  proof (cases "lba + 256 \<le> total_n")
    case True
    then show ?thesis using u by (simp add: c_def n_def word_le_nat_alt)
  next
    case False
    then have f: "unat total_n < unat lba + 256" using u by (simp add: word_le_nat_alt)
    then have "unat (total_n - lba) < 256" using sub l by simp
    then have "unat (ucast (total_n - lba) :: u32) = unat (total_n - lba)"
      by (simp add: unsigned_ucast_eq take_bit_nat_eq_self)
    then show ?thesis using False f sub by (simp add: c_def n_def)
  qed
  have n: "0 < n" "n \<le> 256" "unat lba + n \<le> dev_cap no s" using l cap by (auto simp: n_def)
  have "kebla_disk_write no lba c (replicate 131072 0) s
      = Some (True, dev_put no (unat lba) n (replicate 131072 0) s)"
    using kebla_disk_write_ok [OF ok, of c lba "replicate 131072 0"] n c by simp
  then show ?thesis
    using lt by (subst clear_loop.simps) (simp add: c_def MAX_BATCH_SIZE_def Let_def split: if_splits)
qed

lemma clear_loop_zeroes:
  "dev_ok no s \<Longrightarrow> dev_cap no s = unat total_n \<Longrightarrow> unat lba \<le> unat total_n + 255 \<Longrightarrow>
   \<exists>p' s'. clear_loop no total_n (replicate 131072 0) lba p s = Some (0, p', s') \<and> dev_ok no s'
     \<and> (\<forall>j. dev_sector no s' j = (if unat lba \<le> j \<and> j < unat total_n then replicate 512 0 else dev_sector no s j))"
proof (induction "unat total_n + 255 - unat lba" arbitrary: lba p s rule: less_induct)
  case less
  show ?case
  proof (cases "lba < total_n")
    case False
    then have "\<not> unat lba < unat total_n" by (simp add: word_less_nat_alt)
    then have "\<And>j. \<not> (unat lba \<le> j \<and> j < unat total_n)" by auto
    then show ?thesis using False less.prems by (subst clear_loop.simps) auto
  next
    case True
    then have l: "unat lba < unat total_n" by (simp add: word_less_nat_alt)
    define n where "n = (if unat lba + 256 \<le> unat total_n then 256 else unat total_n - unat lba)"
    define s1 where "s1 = dev_put no (unat lba) n (replicate 131072 0) s"
    have tot: "unat total_n \<le> 2 ^ 48" using less.prems by (simp add: dev_ok_def)
    have u: "unat (lba + 256) = unat lba + 256" using tot l by (subst unat_plus_u64) simp_all
    have "n \<le> 256" using l by (auto simp: n_def)
    then have ok1: "dev_ok no s1" "dev_cap no s1 = unat total_n"
      using less.prems by (auto simp: s1_def dev_ok_put)
    obtain p' s' where r: "clear_loop no total_n (replicate 131072 0) (lba + 256) (lba * 100 div total_n) s1
        = Some (0, p', s')" "dev_ok no s'"
      and sec: "\<And>j. dev_sector no s' j = (if unat lba + 256 \<le> j \<and> j < unat total_n
          then replicate 512 0 else dev_sector no s1 j)"
    proof -
      have "unat total_n + 255 - unat (lba + 256) < unat total_n + 255 - unat lba" using u l by linarith
      moreover have "unat (lba + 256) \<le> unat total_n + 255" using u l by linarith
      ultimately show ?thesis
        using less.hyps [of "lba + 256" s1 "lba * 100 div total_n"] ok1 u that by auto
    qed
    have "dev_sector no s' j = (if unat lba \<le> j \<and> j < unat total_n then replicate 512 0 else dev_sector no s j)" for j
    proof -
      have "(j - unat lba) * 512 + 512 \<le> 131072" if "unat lba \<le> j" "j < unat lba + n"
        using that \<open>n \<le> 256\<close> by simp
      then have z: "bslice ((j - unat lba) * 512) 512 (replicate 131072 (0 :: u8)) = replicate 512 0"
        if "unat lba \<le> j" "j < unat lba + n" using that by (simp add: bslice_def)
      show ?thesis unfolding sec s1_def dev_sector_put
        using z l by (auto simp: n_def)
    qed
    then show ?thesis
      using r clear_step [OF less.prems(1) True less.prems(2)] by (simp add: s1_def n_def)
  qed
qed

text \<open>
  Formatting a disk: on a working SATA disk, with memory for the 128 KiB buffer,
  \<open>clear_disk\<close> returns 0 and afterwards every sector of the disk is zero and every sector
  beyond its end is what it was, whatever the number of sectors (also one that is not a
  multiple of the batch).
\<close>

theorem clear_disk_zeroes_the_disk:
  assumes ok: "dev_ok no s" and "0 < dev_cap no s" "0 \<le> no"
    and "d_bytes_per_sector (the (get_disk no s)) \<noteq> 0" "disk_malloc_ok s (512 * MAX_BATCH_SIZE)"
  shows "\<exists>p s'. clear_disk no s = Some (0, p, s') \<and> dev_ok no s'
     \<and> (\<forall>j. dev_sector no s' j = (if j < dev_cap no s then replicate 512 0 else dev_sector no s j))"
proof (rule dev_okE [OF ok])
  fix port d ds
  assume d: "sata_dev no s = Some port" "get_disk no s = Some d" "disks s = Some ds" "no < disk_count s"
    "d_total_sectors d = sata_get_total_sectors (drives s port)" "dev_drive no s = drives s port"
  have cap: "dev_cap no s = unat (d_total_sectors d)" using d by (simp add: dev_cap_def)
  have "d_total_sectors d \<noteq> 0" using assms(2) cap by auto
  then have "clear_disk no s = clear_loop no (d_total_sectors d) (replicate 131072 0) 0 0 s"
    using assms d by (simp add: clear_disk_def MAX_BATCH_SIZE_def)
  then show ?thesis using clear_loop_zeroes [OF ok cap, of 0 0] cap by simp
qed

text \<open>A machine with one 300-sector SATA disk, its sectors not yet cleared.\<close>

definition sample_drive :: drive where
  "sample_drive = \<lparr>platter = (\<lambda>_. replicate 512 7),
     ident_data = Some (overwrite (replicate 512 0) 120 [44, 1]), cmd_ok = (\<lambda>_ n. n \<le> 256)\<rparr>"

definition sample_disk :: "bool \<Rightarrow> Disk" where
  "sample_disk ini = \<lparr>d_initialized = ini, d_type = DISK_TYPE_AHCI_SATA, d_bytes_per_sector = 512,
     d_total_sectors = 300, d_root_directory_sector = 0, d_root_directory_size = 0,
     d_pvd_sector = 0, d_context = Some 0\<rparr>"

definition sample_sys :: "bool \<Rightarrow> disk_sys" where
  "sample_sys ini = \<lparr>disks = Some [sample_disk ini], disk_count = 1, drives = (\<lambda>_. sample_drive),
     optical = (\<lambda>_. \<lparr>packet_in = (\<lambda>_ _. None), packet_out = (\<lambda>_ _. False)\<rparr>), disk_malloc_ok = (\<lambda>_. True)\<rparr>"

lemma sample_total: "sata_get_total_sectors sample_drive = 300"
  by code_simp

lemma sample_bps: "sata_get_bytes_per_sector sample_drive = 512"
  by code_simp

lemma sample_get_disk: "get_disk 0 (sample_sys ini) = Some (sample_disk ini)"
  by (simp add: get_disk_def sample_sys_def)

lemma sample_dev: "sata_dev 0 (sample_sys ini) = Some 0"
  unfolding sata_dev_def sample_get_disk by (simp add: sample_disk_def sample_sys_def)

lemma sample_dev_drive: "dev_drive 0 (sample_sys ini) = sample_drive"
  unfolding dev_drive_def sample_dev by (simp add: sample_sys_def)

lemma sample_dev_cap: "dev_cap 0 (sample_sys ini) = 300"
  unfolding dev_cap_def sample_dev_drive sample_total by simp

lemma sample_dev_ok: "dev_ok 0 (sample_sys ini)"
  unfolding dev_ok_def sample_dev sample_dev_drive sample_dev_cap sample_total sample_get_disk
  by (simp add: sample_disk_def drive_ok_def sample_drive_def MAX_BATCH_SIZE_def)

theorem clear_disk_zeroes_the_disk_witness:
  "\<exists>p s'. clear_disk 0 (sample_sys True) = Some (0, p, s') \<and> dev_ok 0 s'
     \<and> (\<forall>j. dev_sector 0 s' j = (if j < 300 then replicate 512 0 else dev_sector 0 (sample_sys True) j))"
  using clear_disk_zeroes_the_disk [of 0 "sample_sys True"] sample_dev_ok [of True]
  by (simp add: sample_get_disk sample_dev_cap sample_disk_def sample_sys_def [of True, THEN arg_cong [where f = disk_malloc_ok]])

text \<open>
  Disk transfers: what is written to a range of a working SATA disk is what a later read
  of the range returns, through the dispatch by disk type, the bounds checks and the
  32-sector command loop.
\<close>

theorem disk_write_then_read:
  assumes "dev_ok no s" "0 < n" "lba + n \<le> dev_cap no s" "n \<le> MAX_BATCH_SIZE"
    "length data = n * 512" "length buf = n * 512"
  shows "\<exists>s'. kebla_disk_write no (of_nat lba) (of_nat n) data s = Some (True, s')
     \<and> kebla_disk_read no (of_nat lba) (of_nat n) buf s' = Some (True, data)"
  using sata_blk.write_then_read [OF assms(1-4) _ assms(5,6)] assms(4) by (simp add: MAX_BATCH_SIZE_def)

theorem disk_write_then_read_witness:
  "\<exists>s'. kebla_disk_write 0 10 40 (replicate 20480 9) (sample_sys True) = Some (True, s')
     \<and> kebla_disk_read 0 10 40 (replicate 20480 0) s' = Some (True, replicate 20480 9)"
  using disk_write_then_read [of 0 "sample_sys True" 40 10 "replicate 20480 9" "replicate 20480 0"]
  by (simp add: sample_dev_ok sample_dev_cap MAX_BATCH_SIZE_def)

text \<open>
  \<open>kebla_disk_init\<close> on a SATA disk that is not yet initialised leaves every table entry as
  it is: it records the geometry and the \<open>initialized\<close> flag in a local copy only.
\<close>

theorem disk_init_sata_keeps_table:
  assumes "0 \<le> no" "no < MAX_TOTAL_DISKS" "get_disk no s = Some d" "d_type d = DISK_TYPE_AHCI_SATA"
    "d_context d = Some port" "\<not> d_initialized d"
    "sata_get_bytes_per_sector (drives s port) \<noteq> 0" "sata_get_total_sectors (drives s port) \<noteq> 0"
  shows "kebla_disk_init no s = Some (True, s)"
  using assms by (simp add: kebla_disk_init_def)

theorem disk_init_sata_keeps_table_witness:
  "kebla_disk_init 0 (sample_sys False) = Some (True, sample_sys False)"
  by (rule disk_init_sata_keeps_table [of 0 _ "sample_disk False" 0])
     (simp_all add: MAX_TOTAL_DISKS_def sample_disk_def sample_sys_def get_disk_def sample_total sample_bps)

end
