(* ===== verification/FatBpb.thy ===== *)
theory FatBpb
  imports Disk
begin

text \<open>
  The FAT32 volume: the state the driver keeps in globals, the boot sector
  (kernel/src/fs/fat32_fs/src/fat32_bpb.c and include/fat32_bpb.h), the FSInfo sector
  (fat32_fsinfo.c), the sector access functions (diskio.c, fat32_utility.c) and the geometry
  the helpers of fat32_bpb.c compute.

  A C function that reads or changes the globals takes the state as its last argument and
  returns its value (with the new state when it can change it) as an option: \<open>None\<close> is a
  memory fault, a division by zero or a loop that does not end. Cluster numbers and sector
  numbers are 32-bit words that wrap as in C.
\<close>

section \<open>The boot sector\<close>

record BPB =
  BS_jmpBoot :: bytes
  BS_OEMName :: bytes
  BPB_BytsPerSec :: u16
  BPB_SecPerClus :: u8
  BPB_RsvdSecCnt :: u16
  BPB_NumFATs :: u8
  BPB_RootEntCnt :: u16
  BPB_TotSec16 :: u16
  BPB_Media :: u8
  BPB_FATSz16 :: u16
  BPB_SecPerTrk :: u16
  BPB_NumHeads :: u16
  BPB_HiddSec :: u32
  BPB_TotSec32 :: u32
  BPB_FATSz32 :: u32
  BPB_ExtFlags :: u16
  BPB_FSVer :: u16
  BPB_RootClus :: u32
  BPB_FSInfo :: u16
  BPB_BkBootSec :: u16
  BPB_Reserved :: bytes
  BS_DrvNum :: u8
  BS_Reserved1 :: u8
  BS_BootSig :: u8
  BS_VolID :: u32
  BS_VolLab :: bytes
  BS_FilSysType :: bytes
  boot_code :: bytes
  Signature :: u16

text \<open>The packed structure in memory, in the order of its fields, and its reading back.\<close>

definition bpb_bytes :: "BPB \<Rightarrow> bytes" where
  "bpb_bytes b = concat [BS_jmpBoot b, BS_OEMName b, le16 (BPB_BytsPerSec b), [BPB_SecPerClus b],
     le16 (BPB_RsvdSecCnt b), [BPB_NumFATs b], le16 (BPB_RootEntCnt b), le16 (BPB_TotSec16 b),
     [BPB_Media b], le16 (BPB_FATSz16 b), le16 (BPB_SecPerTrk b), le16 (BPB_NumHeads b),
     le32 (BPB_HiddSec b), le32 (BPB_TotSec32 b), le32 (BPB_FATSz32 b), le16 (BPB_ExtFlags b),
     le16 (BPB_FSVer b), le32 (BPB_RootClus b), le16 (BPB_FSInfo b), le16 (BPB_BkBootSec b),
     BPB_Reserved b, [BS_DrvNum b], [BS_Reserved1 b], [BS_BootSig b], le32 (BS_VolID b),
     BS_VolLab b, BS_FilSysType b, boot_code b, le16 (Signature b)]"

definition bpb_of_bytes :: "bytes \<Rightarrow> BPB" where
  "bpb_of_bytes d = \<lparr>BS_jmpBoot = bslice 0 3 d, BS_OEMName = bslice 3 8 d,
     BPB_BytsPerSec = rd16 d 11, BPB_SecPerClus = rd8 d 13, BPB_RsvdSecCnt = rd16 d 14,
     BPB_NumFATs = rd8 d 16, BPB_RootEntCnt = rd16 d 17, BPB_TotSec16 = rd16 d 19,
     BPB_Media = rd8 d 21, BPB_FATSz16 = rd16 d 22, BPB_SecPerTrk = rd16 d 24,
     BPB_NumHeads = rd16 d 26, BPB_HiddSec = rd32 d 28, BPB_TotSec32 = rd32 d 32,
     BPB_FATSz32 = rd32 d 36, BPB_ExtFlags = rd16 d 40, BPB_FSVer = rd16 d 42,
     BPB_RootClus = rd32 d 44, BPB_FSInfo = rd16 d 48, BPB_BkBootSec = rd16 d 50,
     BPB_Reserved = bslice 52 12 d, BS_DrvNum = rd8 d 64, BS_Reserved1 = rd8 d 65,
     BS_BootSig = rd8 d 66, BS_VolID = rd32 d 67, BS_VolLab = bslice 71 11 d,
     BS_FilSysType = bslice 82 8 d, boot_code = bslice 90 420 d, Signature = rd16 d 510\<rparr>"

definition bpb_sized :: "BPB \<Rightarrow> bool" where
  "bpb_sized b \<longleftrightarrow> length (BS_jmpBoot b) = 3 \<and> length (BS_OEMName b) = 8 \<and> length (BPB_Reserved b) = 12
     \<and> length (BS_VolLab b) = 11 \<and> length (BS_FilSysType b) = 8 \<and> length (boot_code b) = 420"

lemma length_bpb_bytes: "bpb_sized b \<Longrightarrow> length (bpb_bytes b) = 512"
  by (simp add: bpb_bytes_def bpb_sized_def)

lemma bslice_append2: "length a \<le> off \<Longrightarrow> bslice off n (a @ b) = bslice (off - length a) n b"
  by (simp add: bslice_def)

lemma bslice_append1: "off + n \<le> length a \<Longrightarrow> bslice off n (a @ b) = bslice off n a"
  by (simp add: bslice_def)

lemma bslice_Cons: "0 < off \<Longrightarrow> bslice off n (x # b) = bslice (off - 1) n b"
  by (cases off) (simp_all add: bslice_def)

lemma bpb_roundtrip: "bpb_sized b \<Longrightarrow> bpb_of_bytes (bpb_bytes b) = b"
  unfolding bpb_of_bytes_def bpb_bytes_def bpb_sized_def rd8_def rd16_def rd32_def
  by (simp add: bslice_append1 bslice_append2 bslice_Cons nth_append)

definition str_bytes :: "string \<Rightarrow> bytes" where
  "str_bytes cs = map of_char cs"

definition SECTOR_SIZE :: u32 where "SECTOR_SIZE = 512"

text \<open>
  The fields \<open>create_bpb_fat32\<close> fills in after clearing the structure. The sector counts are
  32-bit and wrap; \<open>sectors_per_cluster = 0\<close> divides by zero.
\<close>

definition bpb_fat_size :: "u32 \<Rightarrow> u8 \<Rightarrow> u32" where
  "bpb_fat_size tot_sectors sectors_per_cluster =
     (let spc = ucast sectors_per_cluster;
          tmp_data_sectors = tot_sectors - 32;
          total_clusters = tmp_data_sectors div spc;
          fat_size = (total_clusters * 4 + (SECTOR_SIZE - 1)) div SECTOR_SIZE;
          data_sectors = tot_sectors - 32 - 2 * fat_size;
          total_clusters = data_sectors div spc
      in (total_clusters * 4 + (SECTOR_SIZE - 1)) div SECTOR_SIZE)"

definition create_bpb_fat32 :: "bool \<Rightarrow> u32 \<Rightarrow> u8 \<Rightarrow> u32 \<Rightarrow> BPB option option" where
  "create_bpb_fat32 mem_ok tot_sectors sectors_per_cluster start_sector =
     (if \<not> mem_ok then Some None
      else if sectors_per_cluster = 0 then None
      else Some (Some \<lparr>BS_jmpBoot = [0xEB, 0x58, 0x90], BS_OEMName = str_bytes ''KEBLAOS'' @ [0],
        BPB_BytsPerSec = 512, BPB_SecPerClus = sectors_per_cluster, BPB_RsvdSecCnt = 32,
        BPB_NumFATs = 2, BPB_RootEntCnt = 0, BPB_TotSec16 = 0, BPB_Media = 0xF8, BPB_FATSz16 = 0,
        BPB_SecPerTrk = 63, BPB_NumHeads = 255, BPB_HiddSec = start_sector,
        BPB_TotSec32 = tot_sectors,
        BPB_FATSz32 = bpb_fat_size tot_sectors sectors_per_cluster,
        BPB_ExtFlags = 0, BPB_FSVer = 0, BPB_RootClus = 2, BPB_FSInfo = 1, BPB_BkBootSec = 6,
        BPB_Reserved = replicate 12 0, BS_DrvNum = 0x80, BS_Reserved1 = 0, BS_BootSig = 0x29,
        BS_VolID = 0x12345678, BS_VolLab = str_bytes ''KEBLAOS FAT'',
        BS_FilSysType = str_bytes ''FAT32   '', boot_code = replicate 420 0,
        Signature = 0xAA55\<rparr>))"

record FSInfo =
  FSI_LoadSig :: u32
  fsi_reserved1 :: bytes
  FSI_StrucSig :: u32
  FSI_Free_Count :: u32
  FSI_Nxt_Free :: u32
  fsi_reserved2 :: bytes
  FSI_TrailSig :: u32

definition fsinfo_bytes :: "FSInfo \<Rightarrow> bytes" where
  "fsinfo_bytes f = concat [le32 (FSI_LoadSig f), fsi_reserved1 f, le32 (FSI_StrucSig f),
     le32 (FSI_Free_Count f), le32 (FSI_Nxt_Free f), fsi_reserved2 f, le32 (FSI_TrailSig f)]"

definition create_fsinfo_sector :: "bool \<Rightarrow> FSInfo option" where
  "create_fsinfo_sector mem_ok =
     (if \<not> mem_ok then None
      else Some \<lparr>FSI_LoadSig = 0x41615252, fsi_reserved1 = replicate 480 0,
        FSI_StrucSig = 0x61417272, FSI_Free_Count = 0xFFFFFFFF, FSI_Nxt_Free = 0xFFFFFFFF,
        fsi_reserved2 = replicate 12 0, FSI_TrailSig = 0xAA550000\<rparr>)"

section \<open>The state of the driver\<close>

text \<open>
  The disk system extended with the driver's globals: the disk number of diskio.c, the boot
  sector (NULL until a volume is mounted or created), the mounted partition's first sector,
  the current directory's cluster and path, the allocator's hint, and the FAT cache.
  \<open>malloc\<close> clears the block it returns and refuses the size 0; whether the heap has room for
  \<open>n\<close> bytes is the parameter \<open>disk_malloc_ok\<close>.
\<close>

record fat32 = disk_sys +
  cur_disk_no :: int
  bpb :: "BPB option"
  fat32_base_lba :: u32
  fat32_cwd_cluster :: u32
  fat32_cwd_path :: bytes
  fat32_free_cluster_no :: u32
  fat_buffer :: "bytes option"
  fat_size_bytes :: u32

definition malloc :: "nat \<Rightarrow> fat32 \<Rightarrow> bytes option" where
  "malloc n s = (if n \<noteq> 0 \<and> disk_malloc_ok s n then Some (replicate n 0) else None)"

definition set_disk_no :: "int \<Rightarrow> fat32 \<Rightarrow> fat32" where
  "set_disk_no no s = s\<lparr>cur_disk_no := no\<rparr>"

definition get_current_disk_no :: "fat32 \<Rightarrow> int" where
  "get_current_disk_no s = cur_disk_no s"

definition disk_read :: "u64 \<Rightarrow> u32 \<Rightarrow> bytes \<Rightarrow> fat32 \<Rightarrow> (bool \<times> bytes) option" where
  "disk_read lba count buf s = kebla_disk_read (cur_disk_no s) lba count buf s"

definition disk_write :: "u64 \<Rightarrow> u32 \<Rightarrow> bytes \<Rightarrow> fat32 \<Rightarrow> (bool \<times> fat32) option" where
  "disk_write lba count buf s = kebla_disk_write (cur_disk_no s) lba count buf s"

definition fat32_read_sector :: "u64 \<Rightarrow> bytes \<Rightarrow> fat32 \<Rightarrow> (bool \<times> bytes) option" where
  "fat32_read_sector lba buf s = disk_read lba 1 buf s"

definition fat32_write_sector :: "u64 \<Rightarrow> bytes \<Rightarrow> fat32 \<Rightarrow> (bool \<times> fat32) option" where
  "fat32_write_sector lba buf s = disk_write lba 1 buf s"

definition fat32_read_sectors :: "u64 \<Rightarrow> u32 \<Rightarrow> bytes \<Rightarrow> fat32 \<Rightarrow> (bool \<times> bytes) option" where
  "fat32_read_sectors lba count buf s = disk_read lba count buf s"

definition fat32_write_sectors :: "u64 \<Rightarrow> u32 \<Rightarrow> bytes \<Rightarrow> fat32 \<Rightarrow> (bool \<times> fat32) option" where
  "fat32_write_sectors lba count buf s = disk_write lba count buf s"

section \<open>Geometry helpers\<close>

definition get_total_clusters :: "fat32 \<Rightarrow> u32 option" where
  "get_total_clusters s = (case bpb s of None \<Rightarrow> Some 0
     | Some b \<Rightarrow>
         let total_sectors = BPB_TotSec32 b;
             first_data_sector = ucast (BPB_RsvdSecCnt b) + ucast (BPB_NumFATs b) * BPB_FATSz32 b;
             data_sectors = total_sectors - first_data_sector
         in if BPB_SecPerClus b = 0 then None else Some (data_sectors div ucast (BPB_SecPerClus b)))"

definition get_root_dir_cluster :: "fat32 \<Rightarrow> u32" where
  "get_root_dir_cluster s = (case bpb s of None \<Rightarrow> 0 | Some b \<Rightarrow> BPB_RootClus b)"

definition get_sectors_per_cluster :: "fat32 \<Rightarrow> u8" where
  "get_sectors_per_cluster s = (case bpb s of None \<Rightarrow> 0 | Some b \<Rightarrow> BPB_SecPerClus b)"

definition get_bytes_per_sector :: "fat32 \<Rightarrow> u16" where
  "get_bytes_per_sector s = (case bpb s of None \<Rightarrow> 0 | Some b \<Rightarrow> BPB_BytsPerSec b)"

definition get_fat_size_in_sectors :: "fat32 \<Rightarrow> u32" where
  "get_fat_size_in_sectors s = (case bpb s of None \<Rightarrow> 0 | Some b \<Rightarrow> BPB_FATSz32 b)"

definition get_total_sectors :: "fat32 \<Rightarrow> u32" where
  "get_total_sectors s = (case bpb s of None \<Rightarrow> 0 | Some b \<Rightarrow> BPB_TotSec32 b)"

definition get_first_data_sector :: "fat32 \<Rightarrow> u32" where
  "get_first_data_sector s = (case bpb s of None \<Rightarrow> 0
     | Some b \<Rightarrow> BPB_HiddSec b + ucast (BPB_RsvdSecCnt b) + ucast (BPB_NumFATs b) * BPB_FATSz32 b)"

definition get_cluster_size_bytes :: "fat32 \<Rightarrow> u32" where
  "get_cluster_size_bytes s = (case bpb s of None \<Rightarrow> 0
     | Some b \<Rightarrow> ucast (BPB_BytsPerSec b) * ucast (BPB_SecPerClus b))"

definition get_reserved_sector_count :: "fat32 \<Rightarrow> u16" where
  "get_reserved_sector_count s = (case bpb s of None \<Rightarrow> 0 | Some b \<Rightarrow> BPB_RsvdSecCnt b)"

text \<open>The next two functions read the boot sector without checking that there is one.\<close>

definition get_first_fat_sector :: "fat32 \<Rightarrow> u32 option" where
  "get_first_fat_sector s = map_option (\<lambda>b. BPB_HiddSec b + ucast (BPB_RsvdSecCnt b)) (bpb s)"

definition get_total_no_fat :: "fat32 \<Rightarrow> u8 option" where
  "get_total_no_fat s = map_option BPB_NumFATs (bpb s)"

definition get_first_sector_of_cluster :: "u32 \<Rightarrow> fat32 \<Rightarrow> u32" where
  "get_first_sector_of_cluster cluster_number s = (case bpb s of None \<Rightarrow> 0
     | Some b \<Rightarrow> get_first_data_sector s + (cluster_number - 2) * ucast (BPB_SecPerClus b))"

definition get_root_dir_sect_num :: "fat32 \<Rightarrow> u32" where
  "get_root_dir_sect_num s = (case bpb s of None \<Rightarrow> 0
     | Some b \<Rightarrow> get_first_sector_of_cluster (BPB_RootClus b) s)"

definition is_end_of_cluster_chain :: "u32 \<Rightarrow> fat32 \<Rightarrow> bool" where
  "is_end_of_cluster_chain cluster_value s \<longleftrightarrow> bpb s \<noteq> None \<and> cluster_value \<ge> 0x0FFFFFF8"

definition is_valid_cluster :: "u32 \<Rightarrow> fat32 \<Rightarrow> bool" where
  "is_valid_cluster cluster_value s \<longleftrightarrow>
     bpb s \<noteq> None \<and> cluster_value \<ge> 2 \<and> cluster_value \<le> 0x0FFFFFEF"

section \<open>A well-formed volume\<close>

text \<open>
  The layout in natural numbers: hidden sectors, reserved sectors, the FAT copies, the data
  clusters. \<open>wf_bpb\<close> says that a boot sector describes a FAT32 volume of 512-byte sectors
  with at most 128 sectors per cluster, that no quantity wraps, and that each FAT has an
  entry for every cluster.
\<close>

definition fat0 :: "BPB \<Rightarrow> nat" where
  "fat0 b = unat (BPB_HiddSec b) + unat (BPB_RsvdSecCnt b)"

definition fatsz :: "BPB \<Rightarrow> nat" where "fatsz b = unat (BPB_FATSz32 b)"

definition nfats :: "BPB \<Rightarrow> nat" where "nfats b = unat (BPB_NumFATs b)"

definition spc :: "BPB \<Rightarrow> nat" where "spc b = unat (BPB_SecPerClus b)"

definition data0 :: "BPB \<Rightarrow> nat" where "data0 b = fat0 b + nfats b * fatsz b"

definition nclus :: "BPB \<Rightarrow> nat" where
  "nclus b = (unat (BPB_TotSec32 b) - unat (BPB_RsvdSecCnt b) - nfats b * fatsz b) div spc b"

definition wf_bpb :: "BPB \<Rightarrow> bool" where
  "wf_bpb b \<longleftrightarrow> BPB_BytsPerSec b = 512 \<and> 0 < spc b \<and> spc b \<le> 128 \<and> 0 < nfats b
     \<and> unat (BPB_RsvdSecCnt b) + nfats b * fatsz b \<le> unat (BPB_TotSec32 b)
     \<and> unat (BPB_HiddSec b) + unat (BPB_TotSec32 b) < 2 ^ 32
     \<and> (nclus b + 2) * 4 \<le> fatsz b * 512 \<and> nclus b + 2 \<le> 0x0FFFFFF0"

definition clus_sec :: "BPB \<Rightarrow> nat \<Rightarrow> nat" where
  "clus_sec b c = data0 b + (c - 2) * spc b"

definition in_vol :: "BPB \<Rightarrow> u32 \<Rightarrow> bool" where
  "in_vol b c \<longleftrightarrow> 2 \<le> unat c \<and> unat c < nclus b + 2"

lemma wf_bpbD:
  assumes "wf_bpb b"
  shows "BPB_BytsPerSec b = 512" "0 < spc b" "spc b \<le> 128" "0 < nfats b"
    "(nclus b + 2) * 4 \<le> fatsz b * 512" "nclus b + 2 \<le> 0x0FFFFFF0"
  using assms by (auto simp: wf_bpb_def)

lemma wf_end:
  assumes "wf_bpb b"
  shows "data0 b + nclus b * spc b \<le> unat (BPB_HiddSec b) + unat (BPB_TotSec32 b)"
proof -
  have "nclus b * spc b \<le> unat (BPB_TotSec32 b) - unat (BPB_RsvdSecCnt b) - nfats b * fatsz b"
    unfolding nclus_def by simp
  moreover have "unat (BPB_RsvdSecCnt b) + nfats b * fatsz b \<le> unat (BPB_TotSec32 b)"
    using assms by (simp add: wf_bpb_def)
  ultimately show ?thesis unfolding data0_def fat0_def by linarith
qed

lemma clus_sec_end:
  assumes "wf_bpb b" "in_vol b c"
  shows "clus_sec b (unat c) + spc b \<le> unat (BPB_HiddSec b) + unat (BPB_TotSec32 b)"
proof -
  have "Suc (unat c - 2) * spc b \<le> nclus b * spc b"
    using assms(2) unfolding in_vol_def by (intro mult_le_mono1) linarith
  then show ?thesis using wf_end [OF assms(1)] by (simp add: clus_sec_def)
qed

lemma unat_ucast_up:
  "LENGTH('a::len) \<le> LENGTH('b::len) \<Longrightarrow> unat (ucast (w :: 'a word) :: 'b word) = unat w"
proof -
  assume "LENGTH('a) \<le> LENGTH('b)"
  then have "(2::nat) ^ LENGTH('a) \<le> 2 ^ LENGTH('b)" by (simp add: power_increasing)
  then have "unat w < 2 ^ LENGTH('b)" using unsigned_less [of w, where 'a = nat] by linarith
  then show ?thesis by (simp add: unsigned_ucast_eq take_bit_nat_eq_self)
qed

lemma unat_fats_sectors:
  assumes "wf_bpb b"
  shows "unat (ucast (BPB_NumFATs b) * BPB_FATSz32 b :: u32) = nfats b * fatsz b"
proof -
  have "nfats b * fatsz b < 2 ^ 32" using assms by (simp add: wf_bpb_def)
  then show ?thesis by (simp add: unat_times_u32 unat_ucast_up nfats_def fatsz_def)
qed

lemma first_fat_sector:
  assumes "wf_bpb b"
  shows "unat (BPB_HiddSec b + ucast (BPB_RsvdSecCnt b) :: u32) = fat0 b"
  using assms by (subst unat_plus_u32) (auto simp: wf_bpb_def fat0_def unat_ucast_up)

lemma first_data_sector:
  assumes "wf_bpb b" "bpb s = Some b"
  shows "unat (get_first_data_sector s) = data0 b"
proof -
  have "data0 b < 2 ^ 32" using wf_end [OF assms(1)] assms(1) by (simp add: wf_bpb_def)
  then show ?thesis
    unfolding get_first_data_sector_def using assms
    by (simp add: unat_plus_u32 first_fat_sector unat_fats_sectors data0_def)
qed

lemma first_sector_of_cluster:
  assumes "wf_bpb b" "bpb s = Some b" "in_vol b c"
  shows "unat (get_first_sector_of_cluster c s) = clus_sec b (unat c)"
proof -
  have lt: "clus_sec b (unat c) + spc b < 2 ^ 32"
    using clus_sec_end [OF assms(1,3)] assms(1) by (simp add: wf_bpb_def)
  have "unat (c - 2) = unat c - 2" using assms(3) by (subst unat_minus_u32) (auto simp: in_vol_def)
  then have m: "unat ((c - 2) * ucast (BPB_SecPerClus b) :: u32) = (unat c - 2) * spc b"
    using lt by (subst unat_times_u32) (auto simp: clus_sec_def spc_def unat_ucast_up)
  then show ?thesis
    unfolding get_first_sector_of_cluster_def using assms lt
    by (simp add: unat_plus_u32 first_data_sector m clus_sec_def)
qed

lemma total_clusters:
  assumes "wf_bpb b" "bpb s = Some b"
  shows "\<exists>n. get_total_clusters s = Some n \<and> unat n = nclus b"
proof -
  have nz: "BPB_SecPerClus b \<noteq> 0" using wf_bpbD [OF assms(1)] by (auto simp: spc_def)
  have le: "unat (BPB_RsvdSecCnt b) + nfats b * fatsz b \<le> unat (BPB_TotSec32 b)"
    using assms(1) by (simp add: wf_bpb_def)
  then have "unat (ucast (BPB_RsvdSecCnt b) + ucast (BPB_NumFATs b) * BPB_FATSz32 b :: u32)
      = unat (BPB_RsvdSecCnt b) + nfats b * fatsz b"
    using assms(1) unat_u32_lt [of "BPB_TotSec32 b"]
    by (subst unat_plus_u32) (auto simp: unat_fats_sectors unat_ucast_up)
  then show ?thesis using nz assms le
    by (simp add: get_total_clusters_def Let_def unat_div unat_minus_u32 unat_ucast_up nclus_def spc_def)
qed

lemma cluster_size_bytes:
  assumes "wf_bpb b" "bpb s = Some b"
  shows "unat (get_cluster_size_bytes s) = 512 * spc b"
  using wf_bpbD [OF assms(1)] assms(2)
  by (simp add: get_cluster_size_bytes_def unat_times_u32 unat_ucast_up spc_def)

end
