(* ===== verification/FatTable.thy ===== *)
theory FatTable
  imports FatBpb
begin

text \<open>
  Clusters and the file allocation table: reading, writing and clearing one cluster,
  \<open>fat32_get_next_cluster\<close> and \<open>fat32_set_next_cluster\<close>
  (kernel/src/fs/fat32_fs/src/cluster_manager.c).

  Abstractly a volume is a map from cluster numbers to FAT entries (\<open>fat_entry\<close>) and a map
  from cluster numbers to contents (\<open>cluster_data\<close>). The lemmas say what each operation does
  to the two maps; the chain and file theories use only those.
\<close>

section \<open>One cluster\<close>

text \<open>Reading into \<open>buf + off\<close>.\<close>

definition fat32_read_sector_at :: "u64 \<Rightarrow> bytes \<Rightarrow> nat \<Rightarrow> fat32 \<Rightarrow> (bool \<times> bytes) option" where
  "fat32_read_sector_at lba buf off s =
     (if off \<le> length buf
      then map_option (\<lambda>(ok, b). (ok, take off buf @ b)) (fat32_read_sector lba (drop off buf) s)
      else None)"

definition fat32_zero_cluster :: "u32 \<Rightarrow> fat32 \<Rightarrow> (bool \<times> fat32) option" where
  "fat32_zero_cluster cluster_no s =
     (let first_sector = get_first_sector_of_cluster cluster_no s;
          n_bytes = unat (get_sectors_per_cluster s) * unat (get_bytes_per_sector s)
      in case malloc n_bytes s of
           None \<Rightarrow> Some (False, s)
         | Some _ \<Rightarrow> fat32_write_sectors (ucast first_sector) (ucast (get_sectors_per_cluster s))
                      (replicate n_bytes 0) s)"

text \<open>The loop of \<open>fat32_read_cluster\<close>: \<open>i\<close> is the sector index, \<open>n\<close> the iterations left.\<close>

fun read_cluster_loop :: "u32 \<Rightarrow> nat \<Rightarrow> nat \<Rightarrow> bytes \<Rightarrow> nat \<Rightarrow> fat32 \<Rightarrow> (bool \<times> bytes) option" where
  "read_cluster_loop first_sector i 0 buf off s = Some (True, buf)"
| "read_cluster_loop first_sector i (Suc n) buf off s =
     do { (ok, buf') \<leftarrow> fat32_read_sector_at (ucast (first_sector + of_nat i)) buf
                          (off + i * unat (get_bytes_per_sector s)) s;
          if \<not> ok then Some (False, buf')
          else read_cluster_loop first_sector (Suc i) n buf' off s }"

definition fat32_read_cluster :: "u32 \<Rightarrow> bytes \<Rightarrow> nat \<Rightarrow> fat32 \<Rightarrow> (bool \<times> bytes) option" where
  "fat32_read_cluster cluster_number buf off s =
     read_cluster_loop (get_first_sector_of_cluster cluster_number s) 0
       (unat (get_sectors_per_cluster s)) buf off s"

definition fat32_write_cluster :: "u32 \<Rightarrow> bytes \<Rightarrow> fat32 \<Rightarrow> (bool \<times> fat32) option" where
  "fat32_write_cluster cluster_number buf s =
     fat32_write_sectors (ucast (get_first_sector_of_cluster cluster_number s))
       (ucast (get_sectors_per_cluster s)) buf s"

definition fat32_clear_cluster :: "u32 \<Rightarrow> fat32 \<Rightarrow> (bool \<times> fat32) option" where
  "fat32_clear_cluster cluster s =
     (let cluster_size = unat (get_bytes_per_sector s) * unat (get_sectors_per_cluster s)
      in case malloc cluster_size s of
           None \<Rightarrow> Some (False, s)
         | Some _ \<Rightarrow> fat32_write_cluster cluster (replicate cluster_size 0) s)"

section \<open>FAT entries\<close>

definition ld32 :: "bytes \<Rightarrow> nat \<Rightarrow> u32 option" where
  "ld32 b off = (if off + 4 \<le> length b then Some (rd32 b off) else None)"

definition CLUSTER_END_OF_CHAIN :: u32 where "CLUSTER_END_OF_CHAIN = 0x0FFFFFFF"

definition fat_position :: "u32 \<Rightarrow> fat32 \<Rightarrow> (u32 \<times> nat) option" where
  "fat_position cluster s =
     (let fat_offset = cluster * 4; bps = ucast (get_bytes_per_sector s) :: u32
      in do { first \<leftarrow> get_first_fat_sector s;
              if bps = 0 then None
              else Some (first + fat_offset div bps, unat (fat_offset mod bps)) })"

definition fat32_get_next_cluster :: "u32 \<Rightarrow> fat32 \<Rightarrow> u32 option" where
  "fat32_get_next_cluster current_cluster s =
     do { (fat_sector_number, ent_offset) \<leftarrow> fat_position current_cluster s;
          (ok, sector_buffer) \<leftarrow> fat32_read_sector (ucast fat_sector_number)
             (replicate (unat (get_bytes_per_sector s)) 0) s;
          if \<not> ok then Some 0
          else do { next_cluster \<leftarrow> ld32 sector_buffer ent_offset;
                    Some (next_cluster AND 0x0FFFFFFF) } }"

text \<open>The loop over the FAT copies: \<open>i\<close> is the copy, \<open>n\<close> the iterations left.\<close>

fun set_fat_copies :: "u32 \<Rightarrow> bytes \<Rightarrow> nat \<Rightarrow> nat \<Rightarrow> fat32 \<Rightarrow> (bool \<times> fat32) option" where
  "set_fat_copies fat_sector_number buf i 0 s = Some (True, s)"
| "set_fat_copies fat_sector_number buf i (Suc n) s =
     (let target_sector = fat_sector_number + of_nat i * get_fat_size_in_sectors s
      in do { (ok, s') \<leftarrow> fat32_write_sector (ucast target_sector) buf s;
              if \<not> ok then Some (False, s')
              else set_fat_copies fat_sector_number buf (Suc i) n s' })"

definition fat32_set_next_cluster :: "u32 \<Rightarrow> u32 \<Rightarrow> fat32 \<Rightarrow> (bool \<times> fat32) option" where
  "fat32_set_next_cluster current_cluster next_cluster s =
     (if \<not> is_valid_cluster current_cluster s then Some (False, s)
      else do {
        (fat_sector_number, ent_offset) \<leftarrow> fat_position current_cluster s;
        (ok, sector_buffer) \<leftarrow> fat32_read_sector (ucast fat_sector_number) (replicate 512 0) s;
        if \<not> ok then Some (False, s)
        else do {
          entry \<leftarrow> ld32 sector_buffer ent_offset;
          n \<leftarrow> get_total_no_fat s;
          set_fat_copies fat_sector_number
            (wr32 sector_buffer ent_offset ((entry AND 0xF0000000) OR (next_cluster AND 0x0FFFFFFF)))
            0 (unat n) s } })"

section \<open>The two maps\<close>

abbreviation sec :: "fat32 \<Rightarrow> nat \<Rightarrow> bytes" where
  "sec s \<equiv> dev_sector (cur_disk_no s) s"

definition vol_ok :: "BPB \<Rightarrow> fat32 \<Rightarrow> bool" where
  "vol_ok b s \<longleftrightarrow> bpb s = Some b \<and> wf_bpb b \<and> dev_ok (cur_disk_no s) s
     \<and> unat (BPB_HiddSec b) + unat (BPB_TotSec32 b) \<le> dev_cap (cur_disk_no s) s"

definition fat_entry :: "BPB \<Rightarrow> fat32 \<Rightarrow> u32 \<Rightarrow> u32" where
  "fat_entry b s c = rd32 (sec s (fat0 b + 4 * unat c div 512)) (4 * unat c mod 512) AND 0x0FFFFFFF"

definition cluster_data :: "BPB \<Rightarrow> fat32 \<Rightarrow> u32 \<Rightarrow> bytes" where
  "cluster_data b s c = dev_sectors (cur_disk_no s) s (clus_sec b (unat c)) (spc b)"

text \<open>Every FAT copy equals the first one.\<close>

definition fats_mirrored :: "BPB \<Rightarrow> fat32 \<Rightarrow> bool" where
  "fats_mirrored b s \<longleftrightarrow>
     (\<forall>i<nfats b. \<forall>k<fatsz b. sec s (fat0 b + k + i * fatsz b) = sec s (fat0 b + k))"

fun put_copies :: "nat list \<Rightarrow> bytes \<Rightarrow> fat32 \<Rightarrow> fat32" where
  "put_copies [] d s = s"
| "put_copies (j # js) d s = put_copies js d (dev_put (cur_disk_no s) j 1 d s)"

definition upd_fat :: "BPB \<Rightarrow> u32 \<Rightarrow> u32 \<Rightarrow> fat32 \<Rightarrow> fat32" where
  "upd_fat b c v s =
     (let k = fat0 b + 4 * unat c div 512; off = 4 * unat c mod 512
      in put_copies (map (\<lambda>i. k + i * fatsz b) [0..<nfats b])
           (wr32 (sec s k) off ((rd32 (sec s k) off AND 0xF0000000) OR (v AND 0x0FFFFFFF))) s)"

definition upd_cluster :: "BPB \<Rightarrow> u32 \<Rightarrow> bytes \<Rightarrow> fat32 \<Rightarrow> fat32" where
  "upd_cluster b c data s = dev_put (cur_disk_no s) (clus_sec b (unat c)) (spc b) data s"

section \<open>What device writes keep\<close>

lemma fat32_dev_put [simp]:
  "cur_disk_no (dev_put no j n d s) = cur_disk_no s"
  "bpb (dev_put no j n d s) = bpb s"
  "fat32_base_lba (dev_put no j n d s) = fat32_base_lba s"
  "fat32_cwd_cluster (dev_put no j n d s) = fat32_cwd_cluster s"
  "fat32_cwd_path (dev_put no j n d s) = fat32_cwd_path s"
  "fat32_free_cluster_no (dev_put no j n d s) = fat32_free_cluster_no s"
  "disk_malloc_ok (dev_put no j n d s) = disk_malloc_ok s"
  "fat_buffer (dev_put no j n d s) = fat_buffer s"
  "fat_size_bytes (dev_put no j n d s) = fat_size_bytes s"
  by (simp_all add: dev_put_def)

lemma fat32_put_copies [simp]:
  "cur_disk_no (put_copies js d s) = cur_disk_no s"
  "bpb (put_copies js d s) = bpb s"
  "fat32_base_lba (put_copies js d s) = fat32_base_lba s"
  "fat32_cwd_cluster (put_copies js d s) = fat32_cwd_cluster s"
  "fat32_cwd_path (put_copies js d s) = fat32_cwd_path s"
  "fat32_free_cluster_no (put_copies js d s) = fat32_free_cluster_no s"
  "disk_malloc_ok (put_copies js d s) = disk_malloc_ok s"
  "fat_buffer (put_copies js d s) = fat_buffer s"
  "fat_size_bytes (put_copies js d s) = fat_size_bytes s"
  by (induction js arbitrary: s) simp_all

lemma dev_cap_put_copies [simp]:
  "dev_cap (cur_disk_no s) (put_copies js d s) = dev_cap (cur_disk_no s) s"
proof (induction js arbitrary: s)
  case (Cons j js)
  show ?case using Cons.IH [of "dev_put (cur_disk_no s) j 1 d s"] by simp
qed simp

lemma put_copies_ok:
  "length d = 512 \<Longrightarrow> dev_ok (cur_disk_no s) s \<Longrightarrow> dev_ok (cur_disk_no s) (put_copies js d s)"
proof (induction js arbitrary: s)
  case (Cons j js)
  have "dev_ok (cur_disk_no s) (dev_put (cur_disk_no s) j 1 d s)" using Cons.prems by (simp add: dev_ok_put)
  then show ?case using Cons.IH [of "dev_put (cur_disk_no s) j 1 d s"] Cons.prems by simp
qed simp

lemma sec_put_copies:
  "length d = 512 \<Longrightarrow> dev_sector (cur_disk_no s) (put_copies js d s) j = (if j \<in> set js then d else sec s j)"
proof (induction js arbitrary: s)
  case (Cons i js)
  show ?case using Cons.IH [of "dev_put (cur_disk_no s) i 1 d s"] Cons.prems
    by (auto simp: dev_sector_put)
qed simp

section \<open>Sector and cluster transfers on a sound volume\<close>

lemma fat32_read_sector_ok:
  assumes "dev_ok (cur_disk_no s) s" "unat lba < dev_cap (cur_disk_no s) s" "512 \<le> length buf"
  shows "fat32_read_sector lba buf s = Some (True, overwrite buf 0 (sec s (unat lba)))"
  using kebla_disk_read_ok [OF assms(1), of 1 lba buf] assms(2,3)
  by (simp add: fat32_read_sector_def disk_read_def dev_sectors_def)

lemma fat32_write_sectors_ok:
  assumes "dev_ok (cur_disk_no s) s" "unat lba + unat n \<le> dev_cap (cur_disk_no s) s"
    "0 < unat n" "unat n \<le> 256" "unat n * 512 \<le> length buf"
  shows "fat32_write_sectors lba n buf s
     = Some (True, dev_put (cur_disk_no s) (unat lba) (unat n) buf s)"
  using kebla_disk_write_ok [OF assms(1,3,2,5,4)] by (simp add: fat32_write_sectors_def disk_write_def)

lemma fat32_write_sector_ok:
  assumes "dev_ok (cur_disk_no s) s" "unat lba < dev_cap (cur_disk_no s) s" "512 \<le> length buf"
  shows "fat32_write_sector lba buf s = Some (True, dev_put (cur_disk_no s) (unat lba) 1 buf s)"
  using fat32_write_sectors_ok [of s lba 1 buf] assms
  by (simp add: fat32_write_sector_def fat32_write_sectors_def)

lemma fat32_read_sector_at_ok:
  assumes "dev_ok (cur_disk_no s) s" "unat lba < dev_cap (cur_disk_no s) s" "off + 512 \<le> length buf"
  shows "fat32_read_sector_at lba buf off s = Some (True, overwrite buf off (sec s (unat lba)))"
proof -
  have "fat32_read_sector lba (drop off buf) s = Some (True, overwrite (drop off buf) 0 (sec s (unat lba)))"
    using assms by (intro fat32_read_sector_ok) auto
  then show ?thesis using assms
    by (simp add: fat32_read_sector_at_def overwrite_def add.commute)
qed

lemma dev_sectors_Suc:
  "dev_sectors no s lba (Suc n) = dev_sector no s lba @ dev_sectors no s (Suc lba) n"
  by (simp add: dev_sectors_def upt_conv_Cons map_Suc_upt [symmetric] comp_def del: upt_Suc)

lemma read_cluster_loop_ok:
  assumes "dev_ok (cur_disk_no s) s" "get_bytes_per_sector s = 512"
  shows "unat first + i + n \<le> dev_cap (cur_disk_no s) s \<Longrightarrow> unat first + i + n < 2 ^ 32 \<Longrightarrow>
    off + (i + n) * 512 \<le> length buf \<Longrightarrow>
    read_cluster_loop first i n buf off s =
      Some (True, overwrite buf (off + i * 512) (dev_sectors (cur_disk_no s) s (unat first + i) n))"
proof (induction n arbitrary: i buf)
  case 0
  then show ?case by (simp add: dev_sectors_def)
next
  case (Suc n)
  have "unat (of_nat i :: u32) = i" using Suc.prems by (simp add: unat_of_nat_le)
  then have lba: "unat (ucast (first + of_nat i) :: u64) = unat first + i"
    using Suc.prems by (simp add: unat_ucast_up unat_plus_u32)
  define buf' where "buf' = overwrite buf (off + i * 512) (sec s (unat first + i))"
  have l: "length (sec s (unat first + i)) = 512" using assms(1) by simp
  have r: "fat32_read_sector_at (ucast (first + of_nat i)) buf (off + i * 512) s = Some (True, buf')"
    using Suc.prems assms(1) lba by (subst fat32_read_sector_at_ok) (simp_all add: buf'_def)
  have "read_cluster_loop first i (Suc n) buf off s = read_cluster_loop first (Suc i) n buf' off s"
    using r assms(2) by simp
  also have "\<dots> = Some (True, overwrite buf' (off + Suc i * 512)
      (dev_sectors (cur_disk_no s) s (unat first + Suc i) n))"
    using Suc.IH [of "Suc i" buf'] Suc.prems l by (simp add: buf'_def)
  also have "overwrite buf' (off + Suc i * 512) (dev_sectors (cur_disk_no s) s (unat first + Suc i) n)
      = overwrite buf (off + i * 512) (dev_sectors (cur_disk_no s) s (unat first + i) (Suc n))"
    using overwrite_adj [of "off + i * 512" "sec s (unat first + i)"
        "dev_sectors (cur_disk_no s) s (unat first + Suc i) n" buf] l Suc.prems assms(1)
    by (simp add: buf'_def dev_sectors_Suc add.commute add.left_commute)
  finally show ?case .
qed

lemma vol_okD:
  assumes "vol_ok b s"
  shows "bpb s = Some b" "wf_bpb b" "dev_ok (cur_disk_no s) s"
    "get_bytes_per_sector s = 512" "unat (get_sectors_per_cluster s) = spc b"
    "unat (get_cluster_size_bytes s) = 512 * spc b"
    "data0 b + nclus b * spc b \<le> dev_cap (cur_disk_no s) s" "dev_cap (cur_disk_no s) s \<le> 2 ^ 48"
  using assms wf_end [of b] cluster_size_bytes [of b s]
  by (auto simp: vol_ok_def wf_bpb_def get_bytes_per_sector_def get_sectors_per_cluster_def spc_def dev_ok_def)

lemma vol_ok_clus:
  assumes "vol_ok b s" "in_vol b c"
  shows "unat (get_first_sector_of_cluster c s) = clus_sec b (unat c)"
    "clus_sec b (unat c) + spc b \<le> dev_cap (cur_disk_no s) s" "clus_sec b (unat c) + spc b < 2 ^ 32"
  using first_sector_of_cluster [of b s c] clus_sec_end [of b c] assms vol_okD [OF assms(1)]
  by (auto simp: vol_ok_def wf_bpb_def)

lemma length_cluster_data [simp]: "vol_ok b s \<Longrightarrow> length (cluster_data b s c) = 512 * spc b"
  by (simp add: cluster_data_def vol_ok_def)

lemma read_cluster_ok:
  assumes "vol_ok b s" "in_vol b c" "off + 512 * spc b \<le> length buf"
  shows "fat32_read_cluster c buf off s = Some (True, overwrite buf off (cluster_data b s c))"
  using read_cluster_loop_ok [of s "get_first_sector_of_cluster c s" 0 "spc b" off buf]
    vol_okD [OF assms(1)] vol_ok_clus [OF assms(1,2)] assms(3)
  by (simp add: fat32_read_cluster_def cluster_data_def mult.commute)

lemma write_cluster_ok:
  assumes "vol_ok b s" "in_vol b c" "512 * spc b \<le> length buf"
  shows "fat32_write_cluster c buf s = Some (True, upd_cluster b c buf s)"
proof -
  have n: "unat (ucast (get_sectors_per_cluster s) :: u32) = spc b"
    using vol_okD [OF assms(1)] by (simp add: unat_ucast_up)
  show ?thesis
    using vol_okD [OF assms(1)] wf_bpbD [of b] vol_ok_clus [OF assms(1,2)] assms(3) n
    by (simp add: fat32_write_cluster_def fat32_write_sectors_ok unat_ucast_up upd_cluster_def mult.commute)
qed

lemma clear_cluster_ok:
  assumes "vol_ok b s" "in_vol b c"
  shows "fat32_clear_cluster c s = Some (if disk_malloc_ok s (512 * spc b)
     then (True, upd_cluster b c (replicate (512 * spc b) 0) s) else (False, s))"
  using vol_okD [OF assms(1)] write_cluster_ok [OF assms] wf_bpbD(2) [of b]
  by (simp add: fat32_clear_cluster_def malloc_def Let_def)

lemma zero_cluster_ok:
  assumes "vol_ok b s" "in_vol b c"
  shows "fat32_zero_cluster c s = Some (if disk_malloc_ok s (512 * spc b)
     then (True, upd_cluster b c (replicate (512 * spc b) 0) s) else (False, s))"
  using vol_okD [OF assms(1)] write_cluster_ok [OF assms] wf_bpbD(2) [of b]
  by (simp add: fat32_zero_cluster_def malloc_def Let_def fat32_write_cluster_def mult.commute)

section \<open>FAT entries on a sound volume\<close>

text \<open>A cluster number with an entry in the FAT.\<close>

definition has_entry :: "BPB \<Rightarrow> u32 \<Rightarrow> bool" where
  "has_entry b c \<longleftrightarrow> unat c < nclus b + 2"

lemma in_vol_entry: "in_vol b c \<Longrightarrow> has_entry b c"
  by (simp add: in_vol_def has_entry_def)

lemma entry_sector:
  assumes "wf_bpb b" "has_entry b c"
  shows "4 * unat c div 512 < fatsz b"
proof -
  have "4 * unat c < fatsz b * 512" using wf_bpbD(5) [OF assms(1)] assms(2) by (simp add: has_entry_def)
  then show ?thesis by (simp add: div_less_iff_less_mult)
qed

lemma entry_offset: "4 * unat (c :: u32) mod 512 + 4 \<le> 512"
proof -
  have "4 * unat c mod 512 = 4 * (unat c mod 128)" by (simp add: mult_mod_right)
  moreover have "unat c mod 128 < 128" by simp
  ultimately show ?thesis by linarith
qed

lemma fat_area:
  assumes "wf_bpb b" "i < nfats b" "k < fatsz b"
  shows "fat0 b + k + i * fatsz b < data0 b"
proof -
  have "Suc i * fatsz b \<le> nfats b * fatsz b" using assms(2) by (intro mult_le_mono1) simp
  then show ?thesis using assms(3) by (simp add: data0_def)
qed

lemma fat_area_bounds:
  assumes "vol_ok b s" "i < nfats b" "k < fatsz b"
  shows "fat0 b + k + i * fatsz b < dev_cap (cur_disk_no s) s" "fat0 b + k + i * fatsz b < 2 ^ 32"
  using fat_area [of b i k] vol_okD [OF assms(1)] assms wf_end [of b]
  by (auto simp: vol_ok_def wf_bpb_def)

lemma fat_position_ok:
  assumes "vol_ok b s" "has_entry b c"
  shows "\<exists>k. fat_position c s = Some (k, 4 * unat c mod 512) \<and> unat k = fat0 b + 4 * unat c div 512"
proof -
  have c4: "unat (c * 4) = 4 * unat c"
    using assms vol_okD [OF assms(1)] wf_bpbD(6) [of b]
    by (subst unat_times_u32) (auto simp: has_entry_def)
  have d: "4 * unat c div 512 < fatsz b" using entry_sector assms vol_okD by blast
  have lt: "fat0 b + 4 * unat c div 512 < 2 ^ 32"
    using fat_area_bounds(2) [OF assms(1) _ d, of 0] vol_okD [OF assms(1)] wf_bpbD(4) [of b] by simp
  have div: "unat (c * 4 div 512) = 4 * unat c div 512" by (simp add: unat_div c4)
  then have "unat (BPB_HiddSec b + ucast (BPB_RsvdSecCnt b) + c * 4 div 512) = fat0 b + 4 * unat c div 512"
    using lt vol_okD [OF assms(1)] by (subst unat_plus_u32) (auto simp: first_fat_sector)
  moreover have "unat (c * 4 mod 512) = 4 * unat c mod 512" by (simp add: unat_mod c4)
  ultimately show ?thesis
    using vol_okD [OF assms(1)]
    by (simp add: fat_position_def get_first_fat_sector_def Let_def)
qed

lemma get_next_cluster_ok:
  assumes "vol_ok b s" "has_entry b c"
  shows "fat32_get_next_cluster c s = Some (fat_entry b s c)"
proof -
  obtain k where k: "fat_position c s = Some (k, 4 * unat c mod 512)"
    "unat k = fat0 b + 4 * unat c div 512" using fat_position_ok [OF assms] by blast
  note v = vol_okD [OF assms(1)]
  have "unat k < dev_cap (cur_disk_no s) s"
    using fat_area_bounds(1) [OF assms(1), of 0] k wf_bpbD(4) [OF v(2)] entry_sector [OF v(2) assms(2)] by simp
  then show ?thesis
    using k v entry_offset [of c]
    by (simp add: fat32_get_next_cluster_def fat32_read_sector_ok unat_ucast_up ld32_def fat_entry_def)
qed

lemma set_fat_copies_ok:
  assumes "vol_ok b s" "k < fatsz b" "unat fsec = fat0 b + k" "length buf = 512"
  shows "i + n \<le> nfats b \<Longrightarrow> set_fat_copies fsec buf i n s
     = Some (True, put_copies (map (\<lambda>j. fat0 b + k + j * fatsz b) [i..<i + n]) buf s)"
  using assms(1)
proof (induction n arbitrary: i s)
  case (Suc n)
  note v = vol_okD [OF Suc.prems(2)]
  have i: "i < nfats b" using Suc.prems by simp
  have nf: "nfats b < 256" using unat_u8_lt [of "BPB_NumFATs b"] by (simp add: nfats_def)
  note bnd = fat_area_bounds [OF Suc.prems(2) i assms(2)]
  have "unat (of_nat i :: u32) = i" using i nf by (simp add: unat_of_nat_le)
  then have "unat (of_nat i * get_fat_size_in_sectors s) = i * fatsz b"
    using bnd v by (subst unat_times_u32) (auto simp: get_fat_size_in_sectors_def fatsz_def)
  then have t: "unat (fsec + of_nat i * get_fat_size_in_sectors s) = fat0 b + k + i * fatsz b"
    using bnd assms(3) by (subst unat_plus_u32) auto
  define s' where "s' = dev_put (cur_disk_no s) (fat0 b + k + i * fatsz b) 1 buf s"
  have w: "fat32_write_sector (ucast (fsec + of_nat i * get_fat_size_in_sectors s)) buf s = Some (True, s')"
    using v bnd t assms(4) by (subst fat32_write_sector_ok) (auto simp: unat_ucast_up s'_def)
  have "vol_ok b s'" using Suc.prems(2) assms(4) by (simp add: vol_ok_def s'_def dev_ok_put)
  then show ?case
    using Suc.IH [of "Suc i" s'] Suc.prems(1) w
    by (simp add: Let_def s'_def upt_conv_Cons del: upt_Suc)
qed simp

lemma set_next_cluster_ok:
  assumes "vol_ok b s" "in_vol b c"
  shows "fat32_set_next_cluster c v s = Some (True, upd_fat b c v s)"
proof -
  have e: "has_entry b c" using assms(2) by (rule in_vol_entry)
  note V = vol_okD [OF assms(1)]
  obtain k where k: "fat_position c s = Some (k, 4 * unat c mod 512)"
    "unat k = fat0 b + 4 * unat c div 512" using fat_position_ok [OF assms(1) e] by blast
  note d = entry_sector [OF V(2) e]
  have "unat k < dev_cap (cur_disk_no s) s"
    using fat_area_bounds(1) [OF assms(1) _ d, of 0] k wf_bpbD(4) [OF V(2)] by simp
  then have r: "fat32_read_sector (ucast k) (replicate 512 0) s = Some (True, sec s (unat k))"
    using V by (simp add: fat32_read_sector_ok unat_ucast_up)
  have val: "is_valid_cluster c s"
    using assms(2) V wf_bpbD(6) [OF V(2)]
    by (auto simp: is_valid_cluster_def in_vol_def word_le_nat_alt)
  show ?thesis
    using val k r entry_offset [of c] V
      set_fat_copies_ok [OF assms(1) d k(2), of _ 0 "nfats b"]
    by (simp add: fat32_set_next_cluster_def ld32_def upd_fat_def Let_def get_total_no_fat_def nfats_def)
qed

subsection \<open>The effect of an update on the two maps\<close>

lemma upd_fat_fields [simp]:
  "cur_disk_no (upd_fat b c v s) = cur_disk_no s" "bpb (upd_fat b c v s) = bpb s"
  "fat32_base_lba (upd_fat b c v s) = fat32_base_lba s"
  "fat32_cwd_cluster (upd_fat b c v s) = fat32_cwd_cluster s"
  "fat32_cwd_path (upd_fat b c v s) = fat32_cwd_path s"
  "fat32_free_cluster_no (upd_fat b c v s) = fat32_free_cluster_no s"
  "disk_malloc_ok (upd_fat b c v s) = disk_malloc_ok s"
  "fat_buffer (upd_fat b c v s) = fat_buffer s" "fat_size_bytes (upd_fat b c v s) = fat_size_bytes s"
  "dev_cap (cur_disk_no s) (upd_fat b c v s) = dev_cap (cur_disk_no s) s"
  by (simp_all add: upd_fat_def Let_def)

lemma upd_cluster_fields [simp]:
  "cur_disk_no (upd_cluster b c d s) = cur_disk_no s" "bpb (upd_cluster b c d s) = bpb s"
  "fat32_base_lba (upd_cluster b c d s) = fat32_base_lba s"
  "fat32_cwd_cluster (upd_cluster b c d s) = fat32_cwd_cluster s"
  "fat32_cwd_path (upd_cluster b c d s) = fat32_cwd_path s"
  "fat32_free_cluster_no (upd_cluster b c d s) = fat32_free_cluster_no s"
  "disk_malloc_ok (upd_cluster b c d s) = disk_malloc_ok s"
  "fat_buffer (upd_cluster b c d s) = fat_buffer s" "fat_size_bytes (upd_cluster b c d s) = fat_size_bytes s"
  "dev_cap (cur_disk_no s) (upd_cluster b c d s) = dev_cap (cur_disk_no s) s"
  by (simp_all add: upd_cluster_def)

lemma sec_upd_fat:
  assumes "vol_ok b s"
  shows "dev_sector (cur_disk_no s) (upd_fat b c v s) j =
    (if \<exists>i<nfats b. j = fat0 b + 4 * unat c div 512 + i * fatsz b
     then let w = sec s (fat0 b + 4 * unat c div 512); off = 4 * unat c mod 512
          in wr32 w off ((rd32 w off AND 0xF0000000) OR (v AND 0x0FFFFFFF))
     else sec s j)"
proof -
  have "length (sec s (fat0 b + 4 * unat c div 512)) = 512" using vol_okD [OF assms] by simp
  then show ?thesis
    unfolding upd_fat_def Let_def by (subst sec_put_copies) (auto simp: entry_offset)
qed

lemma vol_ok_upd_fat [simp]: "vol_ok b s \<Longrightarrow> vol_ok b (upd_fat b c v s)"
proof -
  assume a: "vol_ok b s"
  then have "dev_ok (cur_disk_no s) (upd_fat b c v s)"
    unfolding upd_fat_def Let_def
    by (intro put_copies_ok) (auto simp: vol_ok_def entry_offset)
  then show ?thesis using a by (simp add: vol_ok_def)
qed

lemma vol_ok_upd_cluster [simp]:
  "vol_ok b s \<Longrightarrow> 512 * spc b \<le> length d \<Longrightarrow> vol_ok b (upd_cluster b c d s)"
  by (simp add: vol_ok_def upd_cluster_def dev_ok_put)

lemma masks28: "(0x0FFFFFFF :: u32) = mask 28" "(0xF0000000 :: u32) = NOT (mask 28)"
  by (simp_all add: mask_eq_exp_minus_1)

lemma entry_word: "((e AND 0xF0000000) OR (v AND 0x0FFFFFFF)) AND 0x0FFFFFFF = (v AND 0x0FFFFFFF :: u32)"
  unfolding masks28 by (rule bit_word_eqI) (auto simp: bit_simps)

lemma fat_entry_upd_fat:
  assumes "vol_ok b s" "has_entry b c" "has_entry b d"
  shows "fat_entry b (upd_fat b c v s) d = (if d = c then v AND 0x0FFFFFFF else fat_entry b s d)"
proof -
  note V = vol_okD [OF assms(1)]
  have len: "length (sec s (fat0 b + 4 * unat c div 512)) = 512" using V by simp
  have no: "\<not> (\<exists>i<nfats b. fat0 b + 4 * unat d div 512 = fat0 b + 4 * unat c div 512 + i * fatsz b)"
    if "4 * unat d div 512 \<noteq> 4 * unat c div 512"
  proof
    assume "\<exists>i<nfats b. fat0 b + 4 * unat d div 512 = fat0 b + 4 * unat c div 512 + i * fatsz b"
    then obtain i where i: "4 * unat d div 512 = 4 * unat c div 512 + i * fatsz b" by auto
    then have "i \<noteq> 0" using that by auto
    then have "fatsz b \<le> i * fatsz b" by simp
    then show False using i entry_sector [OF V(2) assms(3)] by linarith
  qed
  have yes: "\<exists>i<nfats b. fat0 b + 4 * unat c div 512 = fat0 b + 4 * unat c div 512 + i * fatsz b"
    using wf_bpbD(4) [OF V(2)] by (intro exI [of _ 0]) simp
  show ?thesis
  proof (cases "4 * unat d div 512 = 4 * unat c div 512")
    case False
    then show ?thesis using no by (auto simp: fat_entry_def sec_upd_fat [OF assms(1)])
  next
    case True
    show ?thesis
    proof (cases "d = c")
      case True
      then show ?thesis
        using yes entry_offset [of c] len
        by (simp add: fat_entry_def sec_upd_fat [OF assms(1)] Let_def rd32_wr32 entry_word)
    next
      case False
      have neq: "4 * unat d mod 512 \<noteq> 4 * unat c mod 512"
        using True False by (metis div_mult_mod_eq mult_left_cancel unsigned_word_eqI zero_neq_numeral)
      have m: "4 * unat d mod 512 = 4 * (unat d mod 128)" "4 * unat c mod 512 = 4 * (unat c mod 128)"
        by (simp_all add: mult_mod_right)
      have "unat d mod 128 \<noteq> unat c mod 128" using neq m by auto
      then have "Suc (unat d mod 128) \<le> unat c mod 128 \<or> Suc (unat c mod 128) \<le> unat d mod 128"
        by linarith
      then have "4 * unat d mod 512 + 4 \<le> 4 * unat c mod 512 \<or> 4 * unat c mod 512 + 4 \<le> 4 * unat d mod 512"
        unfolding m by linarith
      then have "rd32 (wr32 (sec s (fat0 b + 4 * unat c div 512)) (4 * unat c mod 512) x) (4 * unat d mod 512)
          = rd32 (sec s (fat0 b + 4 * unat c div 512)) (4 * unat d mod 512)" for x
        using entry_offset [of c] entry_offset [of d] len by (intro rd32_wr32_other) auto
      then show ?thesis
        using yes True False by (simp add: fat_entry_def sec_upd_fat [OF assms(1)] Let_def)
    qed
  qed
qed

lemma cluster_data_upd_fat [simp]:
  assumes "vol_ok b s" "has_entry b c" "in_vol b d"
  shows "cluster_data b (upd_fat b c v s) d = cluster_data b s d"
proof -
  note V = vol_okD [OF assms(1)]
  have "\<not> (\<exists>i<nfats b. clus_sec b (unat d) + j = fat0 b + 4 * unat c div 512 + i * fatsz b)" for j
    using fat_area [OF V(2) _ entry_sector [OF V(2) assms(2)]] by (fastforce simp: clus_sec_def)
  then have "dev_sector (cur_disk_no s) (upd_fat b c v s) (clus_sec b (unat d) + j)
      = sec s (clus_sec b (unat d) + j)" for j
    by (simp only: sec_upd_fat [OF assms(1)] if_False)
  then show ?thesis by (simp add: cluster_data_def dev_sectors_def)
qed

lemma clus_sec_disjoint:
  assumes "in_vol b c" "in_vol b d" "c \<noteq> d"
  shows "clus_sec b (unat d) + spc b \<le> clus_sec b (unat c) \<or> clus_sec b (unat c) + spc b \<le> clus_sec b (unat d)"
proof -
  have "unat c \<noteq> unat d" using assms(3) unat_eqI by blast
  then consider "Suc (unat d - 2) \<le> unat c - 2" | "Suc (unat c - 2) \<le> unat d - 2"
    using assms(1,2) unfolding in_vol_def by linarith
  then show ?thesis
  proof cases
    case 1
    then have "Suc (unat d - 2) * spc b \<le> (unat c - 2) * spc b" by (rule mult_le_mono1)
    then show ?thesis by (simp add: clus_sec_def)
  next
    case 2
    then have "Suc (unat c - 2) * spc b \<le> (unat d - 2) * spc b" by (rule mult_le_mono1)
    then show ?thesis by (simp add: clus_sec_def)
  qed
qed

lemma concat_bslices: "n * 512 \<le> length d \<Longrightarrow> concat (map (\<lambda>i. bslice (i * 512) 512 d) [0..<n]) = take (n * 512) d"
  by (rule sata_blk.concat_written)

lemma cluster_data_upd_cluster:
  assumes "vol_ok b s" "in_vol b c" "in_vol b d" "512 * spc b \<le> length data"
  shows "cluster_data b (upd_cluster b c data s) d =
    (if d = c then take (512 * spc b) data else cluster_data b s d)"
proof (cases "d = c")
  case True
  have "dev_sectors (cur_disk_no s) (upd_cluster b c data s) (clus_sec b (unat c)) (spc b)
      = concat (map (\<lambda>i. bslice (i * 512) 512 data) [0..<spc b])"
    unfolding dev_sectors_def upd_cluster_def
    by (intro arg_cong [where f = concat] map_cong) (auto simp: dev_sector_put)
  then show ?thesis using True assms(4) concat_bslices [of "spc b" data]
    by (simp add: cluster_data_def mult.commute)
next
  case False
  have "\<not> (clus_sec b (unat c) \<le> clus_sec b (unat d) + i \<and> clus_sec b (unat d) + i < clus_sec b (unat c) + spc b)"
    if "i < spc b" for i
    using clus_sec_disjoint [OF assms(2,3) False [symmetric]] that by linarith
  then have "map (\<lambda>i. dev_sector (cur_disk_no s) (upd_cluster b c data s) (clus_sec b (unat d) + i)) [0..<spc b]
      = map (\<lambda>i. sec s (clus_sec b (unat d) + i)) [0..<spc b]"
    by (intro map_cong) (auto simp: upd_cluster_def dev_sector_put)
  then have "concat (map (\<lambda>i. dev_sector (cur_disk_no s) (upd_cluster b c data s) (clus_sec b (unat d) + i)) [0..<spc b])
      = concat (map (\<lambda>i. sec s (clus_sec b (unat d) + i)) [0..<spc b])" by (rule arg_cong)
  then show ?thesis using False unfolding cluster_data_def dev_sectors_def by simp
qed

lemma sec_fat_upd_cluster:
  assumes "j < data0 b"
  shows "dev_sector (cur_disk_no s) (upd_cluster b c data s) j = sec s j"
  using assms by (auto simp: upd_cluster_def dev_sector_put clus_sec_def)

lemma fat_entry_upd_cluster [simp]:
  assumes "vol_ok b s" "has_entry b d"
  shows "fat_entry b (upd_cluster b c data s) d = fat_entry b s d"
proof -
  note V = vol_okD [OF assms(1)]
  have "fat0 b + 4 * unat d div 512 < data0 b"
    using fat_area [OF V(2) wf_bpbD(4) [OF V(2)] entry_sector [OF V(2) assms(2)]] by simp
  then show ?thesis by (simp add: fat_entry_def sec_fat_upd_cluster)
qed

lemma mirrored_upd_cluster:
  assumes "vol_ok b s" "fats_mirrored b s"
  shows "fats_mirrored b (upd_cluster b c data s)"
proof -
  note V = vol_okD [OF assms(1)]
  have "fat0 b + k + i * fatsz b < data0 b \<and> fat0 b + k < data0 b" if "i < nfats b" "k < fatsz b" for i k
    using fat_area [OF V(2) that] by linarith
  then show ?thesis using assms(2) by (simp add: fats_mirrored_def sec_fat_upd_cluster)
qed

lemma mirrored_upd_fat:
  assumes "vol_ok b s" "fats_mirrored b s" "has_entry b c"
  shows "fats_mirrored b (upd_fat b c v s)"
proof -
  note V = vol_okD [OF assms(1)]
  define e where "e = 4 * unat c div 512"
  have e: "e < fatsz b" unfolding e_def by (rule entry_sector [OF V(2) assms(3)])
  have hit: "(\<exists>j<nfats b. fat0 b + k + i * fatsz b = fat0 b + e + j * fatsz b) \<longleftrightarrow> k = e"
    if i: "i < nfats b" and k: "k < fatsz b" for i k
  proof
    assume "\<exists>j<nfats b. fat0 b + k + i * fatsz b = fat0 b + e + j * fatsz b"
    then obtain j where "k + i * fatsz b = e + j * fatsz b" by auto
    then have "(k + i * fatsz b) mod fatsz b = (e + j * fatsz b) mod fatsz b" by simp
    then show "k = e" using k e by simp
  qed (use i in auto)
  have hit0: "(\<exists>j<nfats b. fat0 b + k = fat0 b + e + j * fatsz b) \<longleftrightarrow> k = e" if k: "k < fatsz b" for k
    using hit [OF wf_bpbD(4) [OF V(2)] k] by simp
  show ?thesis
    unfolding fats_mirrored_def upd_fat_fields
  proof (intro allI impI)
    fix i k assume i: "i < nfats b" and k: "k < fatsz b"
    then show "dev_sector (cur_disk_no s) (upd_fat b c v s) (fat0 b + k + i * fatsz b)
        = dev_sector (cur_disk_no s) (upd_fat b c v s) (fat0 b + k)"
      unfolding sec_upd_fat [OF assms(1)] e_def [symmetric] hit [OF i k] hit0 [OF k]
      using assms(2) unfolding fats_mirrored_def by metis
  qed
qed

lemmas fat_simps = fat_entry_upd_fat cluster_data_upd_cluster get_next_cluster_ok set_next_cluster_ok
  read_cluster_ok write_cluster_ok in_vol_entry

section \<open>A small volume\<close>

text \<open>
  A volume of 200 one-sector clusters on the 300-sector disk: one reserved sector, two
  FATs of two sectors, the chains 2 and 3, 4 (and their end), everything else free. Data sector
  \<open>j\<close> holds the byte \<open>j\<close>.
\<close>

definition sample_bpb :: BPB where
  "sample_bpb = (the (the (create_bpb_fat32 True 200 1 0)))\<lparr>BPB_RsvdSecCnt := 1, BPB_FATSz32 := 2\<rparr>"

definition sample_fat_sector :: bytes where
  "sample_fat_sector = concat (map le32 [0x0FFFFFF8, 0x0FFFFFFF, 0x0FFFFFFF, 4, 0x0FFFFFFF]) @ replicate 492 0"

definition sample_fs :: fat32 where
  "sample_fs = \<lparr>disks = Some [sample_disk True], disk_count = 1,
     drives = (\<lambda>_. sample_drive\<lparr>platter := (\<lambda>j. if j = 1 \<or> j = 3 then sample_fat_sector
        else if j = 2 \<or> j = 4 then replicate 512 0 else replicate 512 (of_nat j))\<rparr>),
     optical = (\<lambda>_. \<lparr>packet_in = (\<lambda>_ _. None), packet_out = (\<lambda>_ _. False)\<rparr>), disk_malloc_ok = (\<lambda>_. True),
     cur_disk_no = 0, bpb = Some sample_bpb, fat32_base_lba = 0, fat32_cwd_cluster = 2,
     fat32_cwd_path = [47], fat32_free_cluster_no = 2, fat_buffer = None, fat_size_bytes = 0\<rparr>"

lemma sample_bpb_simps [simp]:
  "BPB_BytsPerSec sample_bpb = 512" "BPB_SecPerClus sample_bpb = 1" "BPB_RsvdSecCnt sample_bpb = 1"
  "BPB_NumFATs sample_bpb = 2" "BPB_HiddSec sample_bpb = 0" "BPB_TotSec32 sample_bpb = 200"
  "BPB_FATSz32 sample_bpb = 2" "BPB_RootClus sample_bpb = 2"
  by (simp_all add: sample_bpb_def create_bpb_fat32_def)

lemma sample_geometry [simp]:
  "spc sample_bpb = 1" "nfats sample_bpb = 2" "fatsz sample_bpb = 2" "fat0 sample_bpb = 1"
  "data0 sample_bpb = 5" "nclus sample_bpb = 195"
  by (simp_all add: spc_def nfats_def fatsz_def fat0_def data0_def nclus_def)

lemma sample_wf [simp]: "wf_bpb sample_bpb"
  by (simp add: wf_bpb_def)

lemma sample_fs_simps [simp]:
  "cur_disk_no sample_fs = 0" "bpb sample_fs = Some sample_bpb" "fat32_free_cluster_no sample_fs = 2"
  "disk_malloc_ok sample_fs n" "fat32_cwd_cluster sample_fs = 2" "fat32_cwd_path sample_fs = [47]"
  by (simp_all add: sample_fs_def)

lemma sample_fs_disk: "get_disk 0 sample_fs = Some (sample_disk True)"
  by (simp add: get_disk_def sample_fs_def)

lemma sample_fs_dev: "sata_dev 0 sample_fs = Some 0"
  unfolding sata_dev_def sample_fs_disk by (simp add: sample_disk_def sample_fs_def)

lemma sample_fs_total: "sata_get_total_sectors (dev_drive 0 sample_fs) = 300"
  using sample_total
  unfolding dev_drive_def sample_fs_dev by (simp add: sample_fs_def sata_get_total_sectors_def)

lemma length_sample_fat_sector [simp]: "length sample_fat_sector = 512"
  by (simp add: sample_fat_sector_def)

lemma sample_sec:
  "dev_sector 0 sample_fs j = (if j = 1 \<or> j = 3 then sample_fat_sector
     else if j = 2 \<or> j = 4 then replicate 512 0 else replicate 512 (of_nat j))"
  unfolding dev_sector_def dev_drive_def sample_fs_dev by (simp add: sample_fs_def)

lemma sample_drive_ok: "drive_ok (dev_drive 0 sample_fs)"
  unfolding drive_ok_def dev_drive_def sample_fs_dev
  by (simp add: sample_fs_def sample_drive_def MAX_BATCH_SIZE_def)

lemma sample_vol_ok [simp]: "vol_ok sample_bpb sample_fs"
  unfolding vol_ok_def dev_ok_def dev_cap_def
  by (simp add: sample_drive_ok sample_fs_total sample_fs_dev sample_fs_disk sample_disk_def)

lemma sample_mirrored [simp]: "fats_mirrored sample_bpb sample_fs"
  by (auto simp: fats_mirrored_def sample_sec less_2_cases_iff numeral_2_eq_2)

lemma sample_entry:
  "fat_entry sample_bpb sample_fs 2 = 0x0FFFFFFF" "fat_entry sample_bpb sample_fs 3 = 4"
  "fat_entry sample_bpb sample_fs 4 = 0x0FFFFFFF" "fat_entry sample_bpb sample_fs 5 = 0"
  "fat_entry sample_bpb sample_fs 6 = 0"
  unfolding fat_entry_def by (simp_all add: sample_sec) code_simp+

section \<open>Properties\<close>

text \<open>
  FAT entries: on a sound volume \<open>fat32_set_next_cluster\<close> succeeds for every data cluster;
  afterwards \<open>fat32_get_next_cluster\<close> returns the low 28 bits of the new value for that cluster
  and the old value for every other one, all FAT copies are still identical, and no
  cluster's contents have changed.
\<close>

theorem set_next_cluster_correct:
  assumes "vol_ok b s" "in_vol b c" "fats_mirrored b s"
  shows "\<exists>s'. fat32_set_next_cluster c v s = Some (True, s') \<and> vol_ok b s' \<and> fats_mirrored b s'
     \<and> (\<forall>d. has_entry b d \<longrightarrow> fat32_get_next_cluster d s' =
            (if d = c then Some (v AND 0x0FFFFFFF) else fat32_get_next_cluster d s))
     \<and> (\<forall>d. in_vol b d \<longrightarrow> cluster_data b s' d = cluster_data b s d)"
  using assms by (auto simp: fat_simps mirrored_upd_fat get_next_cluster_ok [OF vol_ok_upd_fat [OF assms(1)]])

theorem set_next_cluster_correct_witness:
  "\<exists>s'. fat32_set_next_cluster 6 9 sample_fs = Some (True, s') \<and> fat32_get_next_cluster 6 s' = Some 9
     \<and> fat32_get_next_cluster 3 s' = Some 4"
proof -
  have "in_vol sample_bpb 6" by (simp add: in_vol_def)
  from set_next_cluster_correct [OF sample_vol_ok this sample_mirrored, of 9]
  obtain s' where "fat32_set_next_cluster 6 9 sample_fs = Some (True, s')"
    "\<forall>d. has_entry sample_bpb d \<longrightarrow> fat32_get_next_cluster d s' =
       (if d = 6 then Some (9 AND 0x0FFFFFFF) else fat32_get_next_cluster d sample_fs)" by blast
  moreover have "has_entry sample_bpb 6" "has_entry sample_bpb 3" by (simp_all add: has_entry_def)
  ultimately show ?thesis by (simp add: get_next_cluster_ok [OF sample_vol_ok] sample_entry)
qed

text \<open>
  Cluster contents: what \<open>fat32_write_cluster\<close> stores is what \<open>fat32_read_cluster\<close> later
  copies into the caller's buffer at the given position, every other cluster reads as before, and
  every FAT entry is unchanged.
\<close>

theorem write_cluster_then_read:
  assumes "vol_ok b s" "in_vol b c" "length data = 512 * spc b" "off + 512 * spc b \<le> length buf"
  shows "\<exists>s'. fat32_write_cluster c data s = Some (True, s') \<and> vol_ok b s'
     \<and> fat32_read_cluster c buf off s' = Some (True, overwrite buf off data)
     \<and> (\<forall>d. in_vol b d \<and> d \<noteq> c \<longrightarrow> fat32_read_cluster d buf off s' = fat32_read_cluster d buf off s)
     \<and> (\<forall>d. has_entry b d \<longrightarrow> fat32_get_next_cluster d s' = fat32_get_next_cluster d s)"
proof -
  have v: "vol_ok b (upd_cluster b c data s)" using assms by simp
  show ?thesis using assms read_cluster_ok [OF v] get_next_cluster_ok [OF v] by (simp add: fat_simps)
qed

theorem write_cluster_then_read_witness:
  "\<exists>s'. fat32_write_cluster 7 (replicate 512 42) sample_fs = Some (True, s')
     \<and> fat32_read_cluster 7 (replicate 512 0) 0 s' = Some (True, replicate 512 42)"
  using write_cluster_then_read [OF sample_vol_ok, of 7 "replicate 512 42" 0 "replicate 512 0"]
  by (auto simp: in_vol_def)

end
