(* ===== verification/FatChain.thy ===== *)
theory FatChain
  imports FatTable
begin

text \<open>
  Cluster chains (kernel/src/fs/fat32_fs/src/cluster_manager.c): validating, freeing,
  allocating, reading, writing, counting and extending a chain.

  The loops that follow FAT entries need not end on a damaged FAT and are partial functions;
  on a sound chain they are shown to return. Abstractly a chain is the list of its clusters
  (\<open>chain\<close>) and the allocator hands out the clusters of \<open>free_list\<close> in order.
\<close>

section \<open>The operations\<close>

partial_function (option) fat32_validate_cluster_chain :: "u32 \<Rightarrow> fat32 \<Rightarrow> bool option" where
  "fat32_validate_cluster_chain cur s =
     (if is_valid_cluster cur s
      then Option.bind (fat32_get_next_cluster cur s) (\<lambda>nxt.
             if nxt = 0 then Some False
             else if is_end_of_cluster_chain nxt s then Some True
             else fat32_validate_cluster_chain nxt s)
      else Some False)"

partial_function (option) fat32_free_cluster_chain :: "u32 \<Rightarrow> fat32 \<Rightarrow> (bool \<times> fat32) option" where
  "fat32_free_cluster_chain current_cluster s =
     (if is_valid_cluster current_cluster s
      then Option.bind (fat32_get_next_cluster current_cluster s) (\<lambda>next_cluster.
             if next_cluster = 0 then Some (False, s)
             else Option.bind (fat32_set_next_cluster current_cluster 0 s) (\<lambda>(ok, s').
               if \<not> ok then Some (False, s')
               else if is_end_of_cluster_chain next_cluster s' then Some (True, s')
               else fat32_free_cluster_chain next_cluster s'))
      else Some (True, s))"

text \<open>
  \<open>fat32_allocate_cluster\<close> stores the cluster through its argument exactly when it returns true:
  the two are one option here.
\<close>

partial_function (option) alloc_loop :: "u32 \<Rightarrow> u32 \<Rightarrow> fat32 \<Rightarrow> (u32 option \<times> fat32) option" where
  "alloc_loop limit cluster s =
     (if cluster < limit
      then Option.bind (fat_position cluster s) (\<lambda>(fat_sector_number, ent_offset).
             Option.bind (fat32_read_sector (ucast fat_sector_number)
                            (replicate (unat (get_bytes_per_sector s)) 0) s) (\<lambda>(ok, sector_buffer).
               if \<not> ok then Some (None, s)
               else Option.bind (ld32 sector_buffer ent_offset) (\<lambda>e.
                 if e AND 0x0FFFFFFF = 0
                 then Option.bind (fat32_set_next_cluster cluster CLUSTER_END_OF_CHAIN s) (\<lambda>(_, s').
                        Some (Some cluster, s'\<lparr>fat32_free_cluster_no := cluster + 1\<rparr>))
                 else alloc_loop limit (cluster + 1) s)))
      else Some (None, s))"

definition fat32_allocate_cluster :: "fat32 \<Rightarrow> (u32 option \<times> fat32) option" where
  "fat32_allocate_cluster s =
     do { total_clusters \<leftarrow> get_total_clusters s;
          alloc_loop (total_clusters + 1) (fat32_free_cluster_no s) s }"

text \<open>The loop of \<open>fat32_allocate_cluster_chain\<close> with \<open>n\<close> clusters left, and what follows it.\<close>

fun alloc_chain_loop :: "nat \<Rightarrow> u32 \<Rightarrow> u32 \<Rightarrow> fat32 \<Rightarrow> (bool \<times> u32 \<times> fat32) option" where
  "alloc_chain_loop 0 prev_cluster first_cluster s =
     do { (ok, s') \<leftarrow> fat32_set_next_cluster prev_cluster CLUSTER_END_OF_CHAIN s;
          Some (ok, first_cluster, s') }"
| "alloc_chain_loop (Suc n) prev_cluster first_cluster s =
     do { (r, s1) \<leftarrow> fat32_allocate_cluster s;
          case r of
            None \<Rightarrow> Some (False, first_cluster, s1)
          | Some new_cluster \<Rightarrow>
              if prev_cluster \<noteq> 0
              then do { (ok, s2) \<leftarrow> fat32_set_next_cluster prev_cluster new_cluster s1;
                        if \<not> ok then Some (False, first_cluster, s2)
                        else alloc_chain_loop n new_cluster first_cluster s2 }
              else alloc_chain_loop n new_cluster new_cluster s1 }"

definition fat32_allocate_cluster_chain :: "u32 \<Rightarrow> fat32 \<Rightarrow> (bool \<times> u32 \<times> fat32) option" where
  "fat32_allocate_cluster_chain count s = alloc_chain_loop (unat count) 0 0 s"

partial_function (option) read_chain_loop ::
  "u32 \<Rightarrow> bytes \<Rightarrow> u32 \<Rightarrow> u32 \<Rightarrow> u32 \<Rightarrow> fat32 \<Rightarrow> (bool \<times> bytes) option" where
  "read_chain_loop current buf bytes_read cluster_size max_bytes s =
     (if is_valid_cluster current s
      then if bytes_read + cluster_size > max_bytes then Some (False, buf)
           else Option.bind (fat32_read_cluster current buf (unat bytes_read) s) (\<lambda>(ok, buf').
             if \<not> ok then Some (False, buf')
             else Option.bind (fat32_get_next_cluster current s) (\<lambda>nxt.
               if is_end_of_cluster_chain nxt s then Some (True, buf')
               else read_chain_loop nxt buf' (bytes_read + cluster_size) cluster_size max_bytes s))
      else Some (True, buf))"

definition fat32_read_cluster_chain :: "u32 \<Rightarrow> bytes \<Rightarrow> u32 \<Rightarrow> fat32 \<Rightarrow> (bool \<times> bytes) option" where
  "fat32_read_cluster_chain start_cluster buf max_bytes s =
     read_chain_loop start_cluster buf 0 (get_cluster_size_bytes s) max_bytes s"

text \<open>
  The loop of \<open>fat32_write_cluster_chain\<close>. A full cluster is written straight from the caller's
  buffer, the last partial one through a zero-filled copy.
\<close>

definition chunk_buffer :: "bytes \<Rightarrow> nat \<Rightarrow> nat \<Rightarrow> nat \<Rightarrow> bytes option" where
  "chunk_buffer buf written to_write cluster_size =
     (if to_write = cluster_size then if written \<le> length buf then Some (drop written buf) else None
      else if written + to_write \<le> length buf
      then Some (take to_write (drop written buf) @ replicate (cluster_size - to_write) 0)
      else None)"

partial_function (option) write_chain_loop ::
  "bytes \<Rightarrow> u32 \<Rightarrow> u32 \<Rightarrow> u32 \<Rightarrow> u32 \<Rightarrow> u32 \<Rightarrow> fat32 \<Rightarrow> (bool \<times> u32 \<times> fat32) option" where
  "write_chain_loop buf size_n cluster_size written prev_cluster first_cluster s =
     (if written < size_n
      then Option.bind (fat32_allocate_cluster s) (\<lambda>(r, s1).
             case r of
               None \<Rightarrow> Some (False, first_cluster, s1)
             | Some curr_cluster \<Rightarrow>
                 Option.bind (if prev_cluster \<noteq> 0
                     then map_option (\<lambda>(ok, s2). (first_cluster, s2))
                            (fat32_set_next_cluster prev_cluster curr_cluster s1)
                     else Some (curr_cluster, s1)) (\<lambda>(first', s2).
                 let to_write = (if size_n - written > cluster_size then cluster_size else size_n - written)
                 in Option.bind (chunk_buffer buf (unat written) (unat to_write) (unat cluster_size)) (\<lambda>d.
                    Option.bind (fat32_write_cluster curr_cluster d s2) (\<lambda>(ok, s3).
                      if \<not> ok then Some (False, first', s3)
                      else write_chain_loop buf size_n cluster_size (written + to_write) curr_cluster first' s3))))
      else Option.bind (fat32_set_next_cluster prev_cluster CLUSTER_END_OF_CHAIN s) (\<lambda>(ok, s').
             Some (True, first_cluster, s')))"

definition fat32_write_cluster_chain ::
  "bytes \<Rightarrow> u32 \<Rightarrow> u32 \<Rightarrow> fat32 \<Rightarrow> (bool \<times> u32 \<times> fat32) option" where
  "fat32_write_cluster_chain buf size_n first_cluster s =
     (let cluster_size = get_cluster_size_bytes s
      in case malloc (unat cluster_size) s of
           None \<Rightarrow> Some (False, first_cluster, s)
         | Some _ \<Rightarrow> write_chain_loop buf size_n cluster_size 0 0 first_cluster s)"

partial_function (option) count_chain_loop :: "u32 \<Rightarrow> u32 \<Rightarrow> fat32 \<Rightarrow> u32 option" where
  "count_chain_loop count cur s =
     (if is_valid_cluster cur s
      then Option.bind (fat32_get_next_cluster cur s) (\<lambda>nxt.
             if is_end_of_cluster_chain nxt s then Some (count + 1)
             else count_chain_loop (count + 1) nxt s)
      else Some count)"

definition fat32_count_cluster_chain :: "u32 \<Rightarrow> fat32 \<Rightarrow> u32 option" where
  "fat32_count_cluster_chain start_cluster s = count_chain_loop 0 start_cluster s"

partial_function (option) last_cluster_loop :: "u32 \<Rightarrow> fat32 \<Rightarrow> u32 option" where
  "last_cluster_loop cur s =
     Option.bind (fat32_get_next_cluster cur s) (\<lambda>nxt.
       if is_end_of_cluster_chain nxt s then Some cur else last_cluster_loop nxt s)"

definition fat32_append_cluster :: "u32 \<Rightarrow> fat32 \<Rightarrow> (u32 option \<times> fat32) option" where
  "fat32_append_cluster start_cluster s =
     do { cur \<leftarrow> last_cluster_loop start_cluster s;
          (r, s1) \<leftarrow> fat32_allocate_cluster s;
          case r of
            None \<Rightarrow> Some (None, s1)
          | Some new_cluster \<Rightarrow>
              do { (_, s2) \<leftarrow> fat32_set_next_cluster cur new_cluster s1;
                   (_, s3) \<leftarrow> fat32_set_next_cluster new_cluster CLUSTER_END_OF_CHAIN s2;
                   Some (Some new_cluster, s3) } }"

section \<open>Chains\<close>

fun chain :: "BPB \<Rightarrow> fat32 \<Rightarrow> u32 list \<Rightarrow> bool" where
  "chain b s [] \<longleftrightarrow> False"
| "chain b s [c] \<longleftrightarrow> in_vol b c \<and> 0x0FFFFFF8 \<le> fat_entry b s c"
| "chain b s (c # d # cs) \<longleftrightarrow> in_vol b c \<and> fat_entry b s c = d \<and> chain b s (d # cs)"

lemma in_vol_range:
  assumes "vol_ok b s" "in_vol b c"
  shows "is_valid_cluster c s" "\<not> is_end_of_cluster_chain c s" "c \<noteq> 0" "\<not> 0x0FFFFFF8 \<le> c"
proof -
  have "unat c < 0x0FFFFFF0" "2 \<le> unat c"
    using assms(2) wf_bpbD(6) [OF vol_okD(2) [OF assms(1)]] by (auto simp: in_vol_def)
  then show "is_valid_cluster c s" "\<not> is_end_of_cluster_chain c s" "c \<noteq> 0" "\<not> 0x0FFFFFF8 \<le> c"
    using vol_okD(1) [OF assms(1)]
    by (auto simp: is_valid_cluster_def is_end_of_cluster_chain_def word_le_nat_alt)
qed

lemma chain_in_vol: "chain b s cs \<Longrightarrow> c \<in> set cs \<Longrightarrow> in_vol b c"
  by (induction b s cs rule: chain.induct) auto

lemma chain_all_in_vol: "chain b s cs \<Longrightarrow> \<forall>c\<in>set cs. in_vol b c"
  using chain_in_vol by blast

lemma chain_unique:
  "vol_ok b s \<Longrightarrow> chain b s (c # xs) \<Longrightarrow> chain b s (c # ys) \<Longrightarrow> xs = ys"
proof (induction xs arbitrary: c ys)
  case Nil
  show ?case
  proof (cases ys)
    case (Cons y ys')
    then have "in_vol b y" using Nil.prems(3) chain_in_vol [of b s ys y] by simp
    then show ?thesis using in_vol_range(4) [OF Nil.prems(1)] Nil.prems Cons by simp
  qed simp
next
  case (Cons x xs)
  then show ?case
  proof (cases ys)
    case Nil
    with Cons.prems show ?thesis using in_vol_range(4) [OF Cons.prems(1), of x] chain_in_vol [of b s "x # xs" x] by simp
  next
    case (Cons y ys')
    with Cons.prems Cons.IH show ?thesis by auto
  qed
qed

lemma chain_suffix: "chain b s (xs @ ys) \<Longrightarrow> ys \<noteq> [] \<Longrightarrow> chain b s ys"
proof (induction xs)
  case (Cons x xs)
  then show ?case by (cases "xs @ ys") auto
qed simp

lemma chain_distinct: "vol_ok b s \<Longrightarrow> chain b s cs \<Longrightarrow> distinct cs"
proof (induction cs)
  case (Cons c cs)
  have "c \<notin> set cs"
  proof
    assume "c \<in> set cs"
    then obtain xs ys where "cs = xs @ c # ys" by (auto simp: in_set_conv_decomp)
    moreover then have "chain b s (c # ys)" using Cons.prems(2) chain_suffix [of b s "c # xs" "c # ys"] by simp
    ultimately show False using chain_unique [OF Cons.prems(1), of c cs ys] Cons.prems(2) by simp
  qed
  moreover have "distinct cs" using Cons by (cases cs) auto
  ultimately show ?case by simp
qed simp

lemma chain_cong:
  "(\<And>c. c \<in> set cs \<Longrightarrow> fat_entry b s' c = fat_entry b s c) \<Longrightarrow> chain b s' cs = chain b s cs"
  by (induction b s cs rule: chain.induct) auto

lemma chain_entry_nonzero:
  assumes "vol_ok b s"
  shows "chain b s cs \<Longrightarrow> c \<in> set cs \<Longrightarrow> fat_entry b s c \<noteq> 0"
proof (induction cs)
  case (Cons x xs)
  show ?case
  proof (cases xs)
    case Nil
    then show ?thesis using Cons.prems by auto
  next
    case (Cons d ds)
    then have "in_vol b d" using Cons.prems chain_in_vol [of b s "d # ds" d] by simp
    then have "fat_entry b s x \<noteq> 0" using in_vol_range(3) [OF assms] Cons Cons.prems by auto
    then show ?thesis using Cons Cons.prems Cons.IH by auto
  qed
qed simp

section \<open>Walking a sound chain\<close>

lemma end_iff: "vol_ok b s \<Longrightarrow> is_end_of_cluster_chain v s \<longleftrightarrow> 0x0FFFFFF8 \<le> v"
  using vol_okD(1) by (simp add: is_end_of_cluster_chain_def)

lemma chain_Cons_cases:
  assumes "vol_ok b s" "chain b s (c # cs)"
  shows "in_vol b c" "is_valid_cluster c s" "fat32_get_next_cluster c s = Some (fat_entry b s c)"
    "fat_entry b s c \<noteq> 0" "cs = [] \<Longrightarrow> is_end_of_cluster_chain (fat_entry b s c) s"
    "cs \<noteq> [] \<Longrightarrow> fat_entry b s c = hd cs" "cs \<noteq> [] \<Longrightarrow> chain b s cs"
    "cs \<noteq> [] \<Longrightarrow> \<not> is_end_of_cluster_chain (hd cs) s"
proof -
  show iv: "in_vol b c" using chain_in_vol assms(2) by fastforce
  show "is_valid_cluster c s" using in_vol_range(1) [OF assms(1) iv] .
  show "fat32_get_next_cluster c s = Some (fat_entry b s c)"
    using get_next_cluster_ok [OF assms(1)] iv by (simp add: in_vol_entry)
  show "fat_entry b s c \<noteq> 0" using chain_entry_nonzero [OF assms] by simp
  show "cs = [] \<Longrightarrow> is_end_of_cluster_chain (fat_entry b s c) s"
    using assms by (simp add: end_iff)
  show "cs \<noteq> [] \<Longrightarrow> fat_entry b s c = hd cs" "cs \<noteq> [] \<Longrightarrow> chain b s cs"
    using assms(2) by (cases cs; simp)+
  show "\<not> is_end_of_cluster_chain (hd cs) s" if ne: "cs \<noteq> []"
  proof -
    have "chain b s cs" using assms(2) ne by (cases cs) simp_all
    then have "in_vol b (hd cs)" using chain_in_vol ne by fastforce
    then show ?thesis by (rule in_vol_range(2) [OF assms(1)])
  qed
qed

lemma validate_chain_ok:
  assumes "vol_ok b s"
  shows "chain b s (c # cs) \<Longrightarrow> fat32_validate_cluster_chain c s = Some True"
proof (induction cs arbitrary: c)
  case Nil
  note f = chain_Cons_cases [OF assms Nil]
  show ?case using f by (subst fat32_validate_cluster_chain.simps) simp
next
  case (Cons d ds)
  note f = chain_Cons_cases [OF assms Cons.prems]
  show ?case using f Cons.IH by (subst fat32_validate_cluster_chain.simps) simp
qed

lemma count_chain_ok:
  assumes "vol_ok b s"
  shows "chain b s (c # cs) \<Longrightarrow> count_chain_loop n c s = Some (n + of_nat (length (c # cs)))"
proof (induction cs arbitrary: c n)
  case Nil
  note f = chain_Cons_cases [OF assms Nil]
  show ?case using f by (subst count_chain_loop.simps) simp
next
  case (Cons d ds)
  note f = chain_Cons_cases [OF assms Cons.prems]
  show ?case using f Cons.IH [of d "n + 1"] by (subst count_chain_loop.simps) (simp add: add.assoc)
qed

lemma last_cluster_ok:
  assumes "vol_ok b s"
  shows "chain b s (c # cs) \<Longrightarrow> last_cluster_loop c s = Some (last (c # cs))"
proof (induction cs arbitrary: c)
  case Nil
  note f = chain_Cons_cases [OF assms Nil]
  show ?case using f by (subst last_cluster_loop.simps) simp
next
  case (Cons d ds)
  note f = chain_Cons_cases [OF assms Cons.prems]
  show ?case using f Cons.IH [of d] by (subst last_cluster_loop.simps) simp
qed

lemma read_chain_ok:
  assumes "vol_ok b s"
  shows "chain b s (c # cs) \<Longrightarrow> unat off + length (c # cs) * (512 * spc b) \<le> unat max_bytes \<Longrightarrow>
    unat max_bytes \<le> length buf \<Longrightarrow>
    read_chain_loop c buf off (get_cluster_size_bytes s) max_bytes s =
      Some (True, overwrite buf (unat off) (concat (map (cluster_data b s) (c # cs))))"
proof (induction cs arbitrary: c buf off)
  case (Nil c buf off)
  note f = chain_Cons_cases [OF assms Nil(1)]
  note V = vol_okD [OF assms]
  have sum: "unat (off + get_cluster_size_bytes s) = unat off + 512 * spc b"
    using V Nil(2) unat_u32_lt [of max_bytes] by (subst unat_plus_u32) auto
  then have "\<not> off + get_cluster_size_bytes s > max_bytes" using Nil(2) by (simp add: word_less_nat_alt)
  moreover have "fat32_read_cluster c buf (unat off) s = Some (True, overwrite buf (unat off) (cluster_data b s c))"
    using read_cluster_ok [OF assms f(1)] Nil(2,3) by simp
  ultimately show ?case using f by (subst read_chain_loop.simps) simp
next
  case (Cons d ds c buf off)
  note f = chain_Cons_cases [OF assms Cons.prems(1)]
  note V = vol_okD [OF assms]
  have sum: "unat (off + get_cluster_size_bytes s) = unat off + 512 * spc b"
    using V Cons.prems(2) unat_u32_lt [of max_bytes] by (subst unat_plus_u32) auto
  have nb: "\<not> off + get_cluster_size_bytes s > max_bytes" using sum Cons.prems(2) by (simp add: word_less_nat_alt)
  define buf' where "buf' = overwrite buf (unat off) (cluster_data b s c)"
  have l: "length buf' = length buf" using Cons.prems assms by (simp add: buf'_def)
  have r: "fat32_read_cluster c buf (unat off) s = Some (True, buf')"
    using read_cluster_ok [OF assms f(1)] Cons.prems by (simp add: buf'_def)
  have "read_chain_loop c buf off (get_cluster_size_bytes s) max_bytes s
      = read_chain_loop d buf' (off + get_cluster_size_bytes s) (get_cluster_size_bytes s) max_bytes s"
    using f nb r by (subst read_chain_loop.simps) simp
  also have "\<dots> = Some (True, overwrite buf' (unat off + 512 * spc b) (concat (map (cluster_data b s) (d # ds))))"
    using Cons.IH [of d "off + get_cluster_size_bytes s" buf'] f sum Cons.prems l by simp
  also have "overwrite buf' (unat off + 512 * spc b) (concat (map (cluster_data b s) (d # ds)))
      = overwrite buf (unat off) (concat (map (cluster_data b s) (c # d # ds)))"
  proof -
    have "length (concat (map (cluster_data b s) (d # ds))) = length (d # ds) * (512 * spc b)"
      using assms by (induction "d # ds" arbitrary: d ds) (auto simp: length_concat sum_list_triv comp_def)
    then show ?thesis
      using overwrite_adj [of "unat off" "cluster_data b s c" "concat (map (cluster_data b s) (d # ds))" buf]
        Cons.prems assms by (simp add: buf'_def)
  qed
  finally show ?case .
qed

subsection \<open>Freeing\<close>

fun free_upd :: "BPB \<Rightarrow> u32 list \<Rightarrow> fat32 \<Rightarrow> fat32" where
  "free_upd b [] s = s"
| "free_upd b (c # cs) s = free_upd b cs (upd_fat b c 0 s)"

lemma free_chain_ok:
  "vol_ok b s \<Longrightarrow> chain b s (c # cs) \<Longrightarrow>
   fat32_free_cluster_chain c s = Some (True, free_upd b (c # cs) s)"
proof (induction cs arbitrary: c s)
  case (Nil c s)
  note f = chain_Cons_cases [OF Nil]
  have v: "vol_ok b (upd_fat b c 0 s)" using Nil(1) by simp
  have "is_end_of_cluster_chain (fat_entry b s c) (upd_fat b c 0 s)"
    using f(5) end_iff [OF v] end_iff [OF Nil(1)] by simp
  then show ?case
    using f set_next_cluster_ok [OF Nil(1) f(1), of 0] by (subst fat32_free_cluster_chain.simps) simp
next
  case (Cons d ds c s)
  note f = chain_Cons_cases [OF Cons.prems]
  define s' where "s' = upd_fat b c 0 s"
  have v: "vol_ok b s'" using Cons.prems(1) by (simp add: s'_def)
  have dist: "c \<notin> set (d # ds)" using chain_distinct [OF Cons.prems] by simp
  have "chain b s' (d # ds) = chain b s (d # ds)"
  proof (rule chain_cong)
    fix x assume x: "x \<in> set (d # ds)"
    then have "has_entry b x" using chain_in_vol [OF Cons.prems(2)] in_vol_entry by fastforce
    then show "fat_entry b s' x = fat_entry b s x"
      using fat_entry_upd_fat [OF Cons.prems(1) in_vol_entry [OF f(1)]] x dist by (auto simp: s'_def)
  qed
  then have ch: "chain b s' (d # ds)" using f by simp
  have "\<not> is_end_of_cluster_chain d s'" using f(8) end_iff [OF v] end_iff [OF Cons.prems(1)] by simp
  then show ?case
    using f set_next_cluster_ok [OF Cons.prems(1) f(1), of 0] Cons.IH [OF v ch]
    by (subst fat32_free_cluster_chain.simps) (simp add: s'_def)
qed

lemma free_upd_ok:
  "vol_ok b s \<Longrightarrow> \<forall>c\<in>set cs. in_vol b c \<Longrightarrow>
   vol_ok b (free_upd b cs s) \<and>
   (\<forall>d. has_entry b d \<longrightarrow> fat_entry b (free_upd b cs s) d = (if d \<in> set cs then 0 else fat_entry b s d)) \<and>
   (\<forall>d. in_vol b d \<longrightarrow> cluster_data b (free_upd b cs s) d = cluster_data b s d) \<and>
   (fats_mirrored b s \<longrightarrow> fats_mirrored b (free_upd b cs s))"
proof (induction cs arbitrary: s)
  case (Cons c cs)
  have e: "has_entry b c" using Cons.prems(2) in_vol_entry by simp
  have "vol_ok b (upd_fat b c 0 s)" using Cons.prems(1) by simp
  then show ?case
    using Cons.IH [of "upd_fat b c 0 s"] Cons.prems e
    by (auto simp: fat_entry_upd_fat mirrored_upd_fat)
qed simp

lemma free_upd_fields [simp]:
  "fat32_free_cluster_no (free_upd b cs s) = fat32_free_cluster_no s"
  "cur_disk_no (free_upd b cs s) = cur_disk_no s" "bpb (free_upd b cs s) = bpb s"
  "disk_malloc_ok (free_upd b cs s) = disk_malloc_ok s"
  "fat32_cwd_cluster (free_upd b cs s) = fat32_cwd_cluster s" "fat32_cwd_path (free_upd b cs s) = fat32_cwd_path s"
  by (induction cs arbitrary: s) simp_all

section \<open>Allocation\<close>

text \<open>
  The clusters the allocator can still reach, in the order in which it hands them out: those from
  the hint on whose entry is zero. The loop's bound leaves out the last cluster of the volume.
\<close>

definition free_list :: "BPB \<Rightarrow> fat32 \<Rightarrow> u32 list" where
  "free_list b s = map of_nat (filter (\<lambda>d. fat_entry b s (of_nat d) = 0)
     [unat (fat32_free_cluster_no s)..<nclus b + 1])"

definition alloc_upd :: "BPB \<Rightarrow> u32 \<Rightarrow> fat32 \<Rightarrow> fat32" where
  "alloc_upd b c s = (upd_fat b c CLUSTER_END_OF_CHAIN s)\<lparr>fat32_free_cluster_no := c + 1\<rparr>"

lemma hint_upd [simp]:
  "dev_sector no (s\<lparr>fat32_free_cluster_no := h\<rparr>) = dev_sector no s"
  "dev_ok no (s\<lparr>fat32_free_cluster_no := h\<rparr>) = dev_ok no s"
  "dev_cap no (s\<lparr>fat32_free_cluster_no := h\<rparr>) = dev_cap no s"
proof -
  have g: "get_disk no (s\<lparr>fat32_free_cluster_no := h\<rparr>) = get_disk no s" by (simp add: get_disk_def)
  then have d: "sata_dev no (s\<lparr>fat32_free_cluster_no := h\<rparr>) = sata_dev no s"
    by (simp add: sata_dev_def split: option.split)
  then have dd: "dev_drive no (s\<lparr>fat32_free_cluster_no := h\<rparr>) = dev_drive no s" by (simp add: dev_drive_def)
  show "dev_sector no (s\<lparr>fat32_free_cluster_no := h\<rparr>) = dev_sector no s" using dd by (simp add: dev_sector_def)
  show c: "dev_cap no (s\<lparr>fat32_free_cluster_no := h\<rparr>) = dev_cap no s" using dd by (simp add: dev_cap_def)
  show "dev_ok no (s\<lparr>fat32_free_cluster_no := h\<rparr>) = dev_ok no s" using dd d g c by (simp add: dev_ok_def)
qed

lemma hint_upd_maps [simp]:
  "fat_entry b (s\<lparr>fat32_free_cluster_no := h\<rparr>) = fat_entry b s"
  "cluster_data b (s\<lparr>fat32_free_cluster_no := h\<rparr>) = cluster_data b s"
  "vol_ok b (s\<lparr>fat32_free_cluster_no := h\<rparr>) = vol_ok b s"
  "fats_mirrored b (s\<lparr>fat32_free_cluster_no := h\<rparr>) = fats_mirrored b s"
  by (simp_all add: fun_eq_iff fat_entry_def cluster_data_def dev_sectors_def vol_ok_def fats_mirrored_def)

lemma alloc_upd_fields [simp]:
  "cur_disk_no (alloc_upd b c s) = cur_disk_no s" "bpb (alloc_upd b c s) = bpb s"
  "fat32_cwd_cluster (alloc_upd b c s) = fat32_cwd_cluster s" "fat32_cwd_path (alloc_upd b c s) = fat32_cwd_path s"
  "fat32_free_cluster_no (alloc_upd b c s) = c + 1" "disk_malloc_ok (alloc_upd b c s) = disk_malloc_ok s"
  by (simp_all add: alloc_upd_def)

lemma vol_ok_alloc_upd [simp]: "vol_ok b s \<Longrightarrow> vol_ok b (alloc_upd b c s)"
  by (simp add: alloc_upd_def)

lemma alloc_upd_maps:
  assumes "vol_ok b s" "in_vol b c"
  shows "has_entry b d \<Longrightarrow> fat_entry b (alloc_upd b c s) d = (if d = c then CLUSTER_END_OF_CHAIN else fat_entry b s d)"
    "in_vol b d \<Longrightarrow> cluster_data b (alloc_upd b c s) d = cluster_data b s d"
    "fats_mirrored b s \<Longrightarrow> fats_mirrored b (alloc_upd b c s)"
  using assms by (simp_all add: alloc_upd_def fat_entry_upd_fat in_vol_entry mirrored_upd_fat CLUSTER_END_OF_CHAIN_def)

lemma nclus_lt: "vol_ok b s \<Longrightarrow> nclus b + 2 \<le> 0x0FFFFFF0"
  using wf_bpbD(6) vol_okD(2) by blast

lemma alloc_loop_step:
  assumes "vol_ok b s" "unat c \<le> nclus b" "unat limit = nclus b + 1"
  shows "alloc_loop limit c s =
    (if fat_entry b s c = 0
     then Option.bind (fat32_set_next_cluster c CLUSTER_END_OF_CHAIN s) (\<lambda>(_, s').
        Some (Some c, s'\<lparr>fat32_free_cluster_no := c + 1\<rparr>))
     else alloc_loop limit (c + 1) s)"
proof -
  have e: "has_entry b c" using assms(2) by (simp add: has_entry_def)
  note V = vol_okD [OF assms(1)]
  obtain k where k: "fat_position c s = Some (k, 4 * unat c mod 512)"
    "unat k = fat0 b + 4 * unat c div 512" using fat_position_ok [OF assms(1) e] by blast
  have "unat k < dev_cap (cur_disk_no s) s"
    using fat_area_bounds(1) [OF assms(1), of 0] k wf_bpbD(4) [OF V(2)] entry_sector [OF V(2) e] by simp
  moreover have "c < limit" using assms(2,3) by (simp add: word_less_nat_alt)
  ultimately show ?thesis
    using k V entry_offset [of c]
    by (subst alloc_loop.simps)
       (simp add: fat32_read_sector_ok unat_ucast_up ld32_def fat_entry_def)
qed

lemma alloc_loop_ok:
  assumes "vol_ok b s" "unat limit = nclus b + 1"
  shows "2 \<le> unat c \<Longrightarrow> unat c \<le> nclus b + 1 \<Longrightarrow>
    alloc_loop limit c s =
      (case filter (\<lambda>d. fat_entry b s (of_nat d) = 0) [unat c..<nclus b + 1] of
         [] \<Rightarrow> Some (None, s)
       | d # _ \<Rightarrow> Some (Some (of_nat d), alloc_upd b (of_nat d) s))"
proof (induction "nclus b + 1 - unat c" arbitrary: c)
  case 0
  then have "\<not> c < limit" using assms(2) by (simp add: word_less_nat_alt)
  then show ?case using 0 by (subst alloc_loop.simps) simp
next
  case (Suc m)
  then have le: "unat c \<le> nclus b" by simp
  have iv: "in_vol b c" using Suc.prems le by (simp add: in_vol_def)
  have s1: "unat (c + 1) = unat c + 1"
    using nclus_lt [OF assms(1)] le by (subst unat_plus_u32) auto
  have upt: "[unat c..<nclus b + 1] = unat c # [unat (c + 1)..<nclus b + 1]"
    using le s1 by (simp add: upt_conv_Cons)
  show ?case
  proof (cases "fat_entry b s c = 0")
    case True
    then show ?thesis
      unfolding alloc_loop_step [OF assms(1) le assms(2)] upt
      using set_next_cluster_ok [OF assms(1) iv] by (simp add: alloc_upd_def)
  next
    case False
    then show ?thesis
      unfolding alloc_loop_step [OF assms(1) le assms(2)] upt
      using Suc.hyps(1) [of "c + 1"] Suc.hyps(2) Suc.prems s1 by simp
  qed
qed

definition hint_ok :: "BPB \<Rightarrow> fat32 \<Rightarrow> bool" where
  "hint_ok b s \<longleftrightarrow> 2 \<le> unat (fat32_free_cluster_no s) \<and> unat (fat32_free_cluster_no s) \<le> nclus b + 1"

lemma filter_upt_Cons:
  assumes "filter P [m..<n] = d # ds"
  shows "filter P [Suc d..<n] = ds \<and> m \<le> d \<and> d < n \<and> P d"
proof -
  have d: "d \<in> set (filter P [m..<n])" using assms by simp
  then have r: "m \<le> d" "d < n" "P d" by auto
  have "[m..<n] = [m..<d] @ d # [Suc d..<n]"
    using r by (metis le_add_diff_inverse less_or_eq_imp_le upt_add_eq_append upt_conv_Cons)
  moreover have "filter P [m..<d] = []"
  proof (rule ccontr)
    assume "filter P [m..<d] \<noteq> []"
    then obtain y ys where y: "filter P [m..<d] = y # ys" by (cases "filter P [m..<d]") auto
    then have "y \<in> set (filter P [m..<d])" by simp
    then have "y < d" by simp
    moreover have "y = d" using assms y \<open>[m..<n] = [m..<d] @ d # [Suc d..<n]\<close> by simp
    ultimately show False by simp
  qed
  ultimately show ?thesis using assms r by simp
qed

lemma allocate_cluster_ok:
  assumes "vol_ok b s" "hint_ok b s"
  shows "fat32_allocate_cluster s = (case free_list b s of
      [] \<Rightarrow> Some (None, s) | c # _ \<Rightarrow> Some (Some c, alloc_upd b c s))"
proof -
  obtain n where n: "get_total_clusters s = Some n" "unat n = nclus b"
    using total_clusters vol_okD [OF assms(1)] by blast
  then have "unat (n + 1) = nclus b + 1"
    using nclus_lt [OF assms(1)] by (subst unat_plus_u32) auto
  then show ?thesis
    using alloc_loop_ok [OF assms(1), of "n + 1" "fat32_free_cluster_no s"] assms(2) n
    by (auto simp: fat32_allocate_cluster_def hint_ok_def free_list_def split: list.splits)
qed

lemma free_list_Cons:
  assumes "vol_ok b s" "hint_ok b s" "free_list b s = c # cs"
  shows "in_vol b c" "fat_entry b s c = 0" "free_list b (alloc_upd b c s) = cs" "hint_ok b (alloc_upd b c s)"
    "c \<notin> set cs"
proof -
  obtain d ds where f: "filter (\<lambda>d. fat_entry b s (of_nat d) = 0) [unat (fat32_free_cluster_no s)..<nclus b + 1] = d # ds"
    and c: "c = of_nat d" "cs = map of_nat ds"
    using assms(3) by (auto simp: free_list_def)
  note fd = filter_upt_Cons [OF f]
  have n: "nclus b + 2 \<le> 0x0FFFFFF0" by (rule nclus_lt [OF assms(1)])
  have u: "unat c = d" using fd n c by (simp add: unat_of_nat_le)
  have small: "unat (of_nat x :: u32) = x" if "x < nclus b + 1" for x
    using that n by (simp add: unat_of_nat_le)
  show iv: "in_vol b c" using fd u assms(2) by (simp add: in_vol_def hint_ok_def)
  show "fat_entry b s c = 0" using fd c by simp
  have u1: "unat (c + 1) = Suc d" using u fd n by (subst unat_plus_u32) auto
  have "filter (\<lambda>x. fat_entry b (alloc_upd b c s) (of_nat x) = 0) [Suc d..<nclus b + 1]
      = filter (\<lambda>x. fat_entry b s (of_nat x) = 0) [Suc d..<nclus b + 1]"
  proof (rule filter_cong)
    fix x assume "x \<in> set [Suc d..<nclus b + 1]"
    then have x: "Suc d \<le> x" "x < nclus b + 1" by auto
    then have "has_entry b (of_nat x)" "of_nat x \<noteq> c" using small [of x] u by (auto simp: has_entry_def)
    then show "(fat_entry b (alloc_upd b c s) (of_nat x) = 0) = (fat_entry b s (of_nat x) = 0)"
      using alloc_upd_maps(1) [OF assms(1) iv] by simp
  qed simp
  then show "free_list b (alloc_upd b c s) = cs" using u1 fd c by (simp add: free_list_def)
  show "hint_ok b (alloc_upd b c s)" using u1 fd assms(2) by (simp add: hint_ok_def)
  show "c \<notin> set cs"
  proof
    assume "c \<in> set cs"
    then obtain x where x: "x \<in> set ds" "c = of_nat x" using c by auto
    then have "x \<in> set (filter (\<lambda>x. fat_entry b s (of_nat x) = 0) [Suc d..<nclus b + 1])" using fd by simp
    then have "Suc d \<le> x" "x < nclus b + 1" by auto
    then show False using small [of x] u x by simp
  qed
qed

lemma free_list_mem:
  assumes "vol_ok b s" "hint_ok b s" "c \<in> set (free_list b s)"
  shows "in_vol b c" "fat_entry b s c = 0"
proof -
  obtain d where d: "c = of_nat d" "unat (fat32_free_cluster_no s) \<le> d" "d < nclus b + 1"
    "fat_entry b s (of_nat d) = 0" using assms(3) by (auto simp: free_list_def)
  moreover then have "unat c = d" using nclus_lt [OF assms(1)] by (simp add: unat_of_nat_le)
  ultimately show "in_vol b c" "fat_entry b s c = 0" using assms(2) by (auto simp: in_vol_def hint_ok_def)
qed

lemma free_list_distinct: "vol_ok b s \<Longrightarrow> distinct (free_list b s)"
proof -
  assume a: "vol_ok b s"
  have "inj_on (of_nat :: nat \<Rightarrow> u32) {x. x < nclus b + 1}"
    using nclus_lt [OF a] by (intro inj_on_inverseI [of _ unat]) (simp add: unat_of_nat_le)
  then have "inj_on (of_nat :: nat \<Rightarrow> u32) (set (filter (\<lambda>d. fat_entry b s (of_nat d) = 0)
      [unat (fat32_free_cluster_no s)..<nclus b + 1]))" by (rule inj_on_subset) auto
  then show ?thesis unfolding free_list_def distinct_map by simp
qed

section \<open>Growing a chain\<close>

lemma chain_snoc:
  "chain b s cs \<Longrightarrow> in_vol b n \<Longrightarrow> fat_entry b s' (last cs) = n \<Longrightarrow> 0x0FFFFFF8 \<le> fat_entry b s' n \<Longrightarrow>
   (\<And>c. c \<in> set (butlast cs) \<Longrightarrow> fat_entry b s' c = fat_entry b s c) \<Longrightarrow> chain b s' (cs @ [n])"
proof (induction cs)
  case (Cons c cs)
  show ?case
  proof (cases cs)
    case Nil
    then show ?thesis using Cons.prems by simp
  next
    case (Cons d ds)
    then have "chain b s' (cs @ [n])" using Cons.prems Cons.IH by auto
    then show ?thesis using Cons Cons.prems by auto
  qed
qed simp

lemma free_list_cong:
  "fat32_free_cluster_no s' = fat32_free_cluster_no s \<Longrightarrow>
   (\<And>d. has_entry b d \<Longrightarrow> (fat_entry b s' d = 0) = (fat_entry b s d = 0)) \<Longrightarrow> vol_ok b s \<Longrightarrow>
   free_list b s' = free_list b s"
proof -
  assume a: "fat32_free_cluster_no s' = fat32_free_cluster_no s"
    "\<And>d. has_entry b d \<Longrightarrow> (fat_entry b s' d = 0) = (fat_entry b s d = 0)" "vol_ok b s"
  have "filter (\<lambda>d. fat_entry b s' (of_nat d) = 0) [unat (fat32_free_cluster_no s)..<nclus b + 1]
      = filter (\<lambda>d. fat_entry b s (of_nat d) = 0) [unat (fat32_free_cluster_no s)..<nclus b + 1]"
  proof (rule filter_cong)
    fix x assume "x \<in> set [unat (fat32_free_cluster_no s)..<nclus b + 1]"
    then have "x < nclus b + 1" by auto
    then have "has_entry b (of_nat x)"
      using nclus_lt [OF a(3)] by (simp add: has_entry_def unat_of_nat_le)
    then show "(fat_entry b s' (of_nat x) = 0) = (fat_entry b s (of_nat x) = 0)" by (rule a(2))
  qed simp
  then show ?thesis using a(1) by (simp add: free_list_def)
qed

lemma hint_ok_cong: "fat32_free_cluster_no s' = fat32_free_cluster_no s \<Longrightarrow> hint_ok b s' = hint_ok b s"
  by (simp add: hint_ok_def)

lemma free_list_upd_cluster:
  assumes "vol_ok b s"
  shows "free_list b (upd_cluster b c d s) = free_list b s"
  using assms by (intro free_list_cong) simp_all

text \<open>A step on the current volume leaves the table of disks and every other drive alone.\<close>

definition other_disks :: "fat32 \<Rightarrow> fat32 \<Rightarrow> bool" where
  "other_disks s s' \<longleftrightarrow> disks s' = disks s \<and> disk_count s' = disk_count s
     \<and> (\<forall>p. sata_dev (cur_disk_no s) s \<noteq> Some p \<longrightarrow> drives s' p = drives s p)"

lemma other_disks_refl [simp]: "other_disks s s"
  by (simp add: other_disks_def)

lemma other_disks_trans:
  "other_disks s s' \<Longrightarrow> other_disks s' s'' \<Longrightarrow> cur_disk_no s' = cur_disk_no s \<Longrightarrow> other_disks s s''"
proof -
  assume a: "other_disks s s'" "other_disks s' s''" "cur_disk_no s' = cur_disk_no s"
  then have "sata_dev (cur_disk_no s') s' = sata_dev (cur_disk_no s) s"
    by (auto simp: other_disks_def sata_dev_def get_disk_def split: option.splits)
  then show ?thesis using a by (simp add: other_disks_def)
qed

lemma other_disks_put:
  "dev_ok (cur_disk_no s) s \<Longrightarrow> other_disks s (dev_put (cur_disk_no s) j n d s)"
  by (auto simp: other_disks_def dev_put_def dev_ok_def)

lemma other_disks_put_copies:
  "length d = 512 \<Longrightarrow> dev_ok (cur_disk_no s) s \<Longrightarrow> other_disks s (put_copies js d s)"
proof (induction js arbitrary: s)
  case (Cons j js)
  define s1 where "s1 = dev_put (cur_disk_no s) j 1 d s"
  have c: "cur_disk_no s1 = cur_disk_no s" by (simp add: s1_def)
  have "dev_ok (cur_disk_no s) s1" using Cons.prems by (simp add: s1_def dev_ok_put)
  then have "other_disks s1 (put_copies js d s1)" using Cons.IH [of s1] Cons.prems c by simp
  with other_disks_put [OF Cons.prems(2), of j 1 d] show ?case
    using other_disks_trans c by (simp add: s1_def)
qed simp

lemma other_disks_upd:
  assumes "vol_ok b s"
  shows "other_disks s (upd_fat b c v s)" "other_disks s (upd_cluster b c d s)" "other_disks s (alloc_upd b c s)"
proof -
  have dev: "dev_ok (cur_disk_no s) s" using assms by (simp add: vol_ok_def)
  then have "length (sec s k) = 512" for k by simp
  then show 1: "other_disks s (upd_fat b c v s)" for v
    unfolding upd_fat_def Let_def using entry_offset [of c] by (intro other_disks_put_copies dev) simp
  show "other_disks s (upd_cluster b c d s)" unfolding upd_cluster_def by (rule other_disks_put [OF dev])
  show "other_disks s (alloc_upd b c s)" using 1 [of CLUSTER_END_OF_CHAIN] by (simp add: alloc_upd_def other_disks_def)
qed

text \<open>What an operation that only grows chains keeps: \<open>A\<close> are the clusters whose entries it may
  change, \<open>B\<close> those whose contents it may change.\<close>

definition frame :: "BPB \<Rightarrow> u32 set \<Rightarrow> u32 set \<Rightarrow> fat32 \<Rightarrow> fat32 \<Rightarrow> bool" where
  "frame b A B s s' \<longleftrightarrow> vol_ok b s' \<and> cur_disk_no s' = cur_disk_no s \<and> bpb s' = bpb s
     \<and> fat32_cwd_cluster s' = fat32_cwd_cluster s \<and> fat32_cwd_path s' = fat32_cwd_path s
     \<and> disk_malloc_ok s' = disk_malloc_ok s
     \<and> (\<forall>d. has_entry b d \<and> d \<notin> A \<longrightarrow> fat_entry b s' d = fat_entry b s d)
     \<and> (\<forall>d. in_vol b d \<and> d \<notin> B \<longrightarrow> cluster_data b s' d = cluster_data b s d)
     \<and> (fats_mirrored b s \<longrightarrow> fats_mirrored b s') \<and> other_disks s s'"

lemma frame_refl: "vol_ok b s \<Longrightarrow> frame b A B s s"
  by (simp add: frame_def)

lemma frame_trans: "frame b A B s s' \<Longrightarrow> frame b C D s' s'' \<Longrightarrow> frame b (A \<union> C) (B \<union> D) s s''"
  using other_disks_trans [of s s' s''] by (simp add: frame_def)

lemma frame_mono: "frame b A B s s' \<Longrightarrow> A \<subseteq> A' \<Longrightarrow> B \<subseteq> B' \<Longrightarrow> frame b A' B' s s'"
  unfolding frame_def by blast

lemma frame_upd_fat: "vol_ok b s \<Longrightarrow> in_vol b c \<Longrightarrow> frame b {c} {} s (upd_fat b c v s)"
  by (simp add: frame_def fat_entry_upd_fat in_vol_entry mirrored_upd_fat other_disks_upd)

lemma frame_upd_cluster:
  "vol_ok b s \<Longrightarrow> in_vol b c \<Longrightarrow> 512 * spc b \<le> length d \<Longrightarrow> frame b {} {c} s (upd_cluster b c d s)"
  by (simp add: frame_def cluster_data_upd_cluster mirrored_upd_cluster other_disks_upd)

lemma frame_alloc_upd: "vol_ok b s \<Longrightarrow> in_vol b c \<Longrightarrow> frame b {c} {} s (alloc_upd b c s)"
  by (simp add: frame_def alloc_upd_maps other_disks_upd)

lemma other_disks_free:
  "vol_ok b s \<Longrightarrow> \<forall>c\<in>set cs. in_vol b c \<Longrightarrow> other_disks s (free_upd b cs s)"
proof (induction cs arbitrary: s)
  case (Cons c cs)
  have "vol_ok b (upd_fat b c 0 s)" using frame_upd_fat [OF Cons.prems(1), of c 0] Cons.prems(2) by (simp add: frame_def)
  then show ?case using Cons.IH [of "upd_fat b c 0 s"] Cons.prems other_disks_upd(1) [OF Cons.prems(1), of c 0]
    by (auto intro: other_disks_trans)
qed simp

lemma frame_free_upd:
  "vol_ok b s \<Longrightarrow> \<forall>c\<in>set cs. in_vol b c \<Longrightarrow> frame b (set cs) {} s (free_upd b cs s)"
  using free_upd_ok [of b s cs] other_disks_free [of b s cs] by (simp add: frame_def)

lemma frame_chain:
  assumes "frame b A B s s'" "chain b s cs" "set cs \<inter> A = {}"
  shows "chain b s' cs"
proof -
  have "fat_entry b s' c = fat_entry b s c" if "c \<in> set cs" for c
    using assms chain_in_vol [OF assms(2) that] that in_vol_entry unfolding frame_def by blast
  then show ?thesis using chain_cong [of cs b s' s] assms(2) by simp
qed

lemma free_not_in_chain:
  assumes "vol_ok b s" "hint_ok b s" "chain b s cs"
  shows "set cs \<inter> set (free_list b s) = {}"
  using chain_entry_nonzero [OF assms(1,3)] free_list_mem(2) [OF assms(1,2)] by auto

definition link_upd :: "BPB \<Rightarrow> u32 list \<Rightarrow> u32 \<Rightarrow> fat32 \<Rightarrow> fat32" where
  "link_upd b acc n s = (if acc = [] then alloc_upd b n s else upd_fat b (last acc) n (alloc_upd b n s))"

lemma link_upd_ok:
  assumes V: "vol_ok b s" and H: "hint_ok b s" and F: "free_list b s = n # ns"
    and C: "acc = [] \<or> chain b s acc"
  shows "frame b (set (n # acc)) {} s (link_upd b acc n s)" "hint_ok b (link_upd b acc n s)"
    "free_list b (link_upd b acc n s) = ns" "chain b (link_upd b acc n s) (acc @ [n])"
proof -
  note f = free_list_Cons [OF V H F]
  note va = vol_ok_alloc_upd [OF V, of n]
  have nacc: "n \<notin> set acc"
    using C free_not_in_chain [OF V H, of acc] F by auto
  have lin: "in_vol b (last acc)" if "acc \<noteq> []" using C that chain_in_vol by fastforce
  show "frame b (set (n # acc)) {} s (link_upd b acc n s)"
  proof (cases "acc = []")
    case True
    then show ?thesis using frame_alloc_upd [OF V f(1)] by (simp add: link_upd_def)
  next
    case False
    then have "last acc \<in> set acc" by simp
    then show ?thesis
      using frame_trans [OF frame_alloc_upd [OF V f(1)] frame_upd_fat [OF va lin [OF False], of n]] False
      by (auto simp: link_upd_def elim: frame_mono)
  qed
  show "hint_ok b (link_upd b acc n s)"
    using f(4) hint_ok_cong [of "upd_fat b (last acc) n (alloc_upd b n s)" "alloc_upd b n s" b]
    by (simp add: link_upd_def)
  have nz: "n AND 0x0FFFFFFF = n"
  proof -
    have "unat n < 2 ^ 28" using f(1) nclus_lt [OF V] by (simp add: in_vol_def)
    then have "unat (n AND mask 28) = unat n"
      by (simp only: take_bit_eq_mask [symmetric] unsigned_take_bit_eq take_bit_nat_eq_self)
    then show ?thesis unfolding masks28 by (rule unat_eqI)
  qed
  have n0: "n \<noteq> 0" using in_vol_range(3) [OF V f(1)] .
  have upd: "fat_entry b (link_upd b acc n s) d =
      (if acc \<noteq> [] \<and> d = last acc then n else if d = n then CLUSTER_END_OF_CHAIN else fat_entry b s d)"
    if "has_entry b d" for d
    using that nz fat_entry_upd_fat [OF va in_vol_entry [OF lin] that] alloc_upd_maps(1) [OF V f(1) that]
    by (auto simp: link_upd_def)
  show "free_list b (link_upd b acc n s) = ns"
  proof (cases "acc = []")
    case True
    then show ?thesis using f(3) by (simp add: link_upd_def)
  next
    case False
    have "last acc \<noteq> n" using nacc False by auto
    then have "fat_entry b (alloc_upd b n s) (last acc) \<noteq> 0"
      using alloc_upd_maps(1) [OF V f(1) in_vol_entry [OF lin [OF False]]]
        chain_entry_nonzero [OF V _ last_in_set [OF False]] C False by auto
    then have "free_list b (upd_fat b (last acc) n (alloc_upd b n s)) = free_list b (alloc_upd b n s)"
      using nz n0 by (intro free_list_cong [OF _ _ va])
        (simp_all add: fat_entry_upd_fat [OF va in_vol_entry [OF lin [OF False]]])
    then show ?thesis using f(3) False by (simp add: link_upd_def)
  qed
  show "chain b (link_upd b acc n s) (acc @ [n])"
  proof (cases "acc = []")
    case True
    then show ?thesis using f(1) upd [OF in_vol_entry [OF f(1)]] by (simp add: CLUSTER_END_OF_CHAIN_def)
  next
    case False
    then have C: "chain b s acc" using C by simp
    show ?thesis
    proof (rule chain_snoc [OF C f(1)])
      show "fat_entry b (link_upd b acc n s) (last acc) = n"
        using upd [OF in_vol_entry [OF lin [OF False]]] False by simp
      have "n \<noteq> last acc" using nacc False by auto
      then show "0x0FFFFFF8 \<le> fat_entry b (link_upd b acc n s) n"
        using upd [OF in_vol_entry [OF f(1)]] by (simp add: CLUSTER_END_OF_CHAIN_def)
      fix c assume c: "c \<in> set (butlast acc)"
      have "distinct acc" using chain_distinct [OF V C] .
      then have "c \<noteq> last acc" using c False by (metis append_butlast_last_id distinct_append disjoint_insert(1) list.set(2))
      moreover have "c \<in> set acc" using c by (rule in_set_butlastD)
      ultimately show "fat_entry b (link_upd b acc n s) c = fat_entry b s c"
        using upd [of c] chain_in_vol [OF C] in_vol_entry nacc by auto
    qed
  qed
qed

section \<open>Appending, writing and allocating whole chains\<close>

lemma allocate_Cons:
  "vol_ok b s \<Longrightarrow> hint_ok b s \<Longrightarrow> free_list b s = n # ns \<Longrightarrow>
   fat32_allocate_cluster s = Some (Some n, alloc_upd b n s)"
  by (simp add: allocate_cluster_ok)

lemma upd_fat_last:
  assumes "vol_ok b s" "chain b s cs"
  shows "frame b {last cs} {} s (upd_fat b (last cs) CLUSTER_END_OF_CHAIN s)"
    "chain b (upd_fat b (last cs) CLUSTER_END_OF_CHAIN s) cs"
    "free_list b (upd_fat b (last cs) CLUSTER_END_OF_CHAIN s) = free_list b s"
    "hint_ok b (upd_fat b (last cs) CLUSTER_END_OF_CHAIN s) = hint_ok b s"
proof -
  have ne: "cs \<noteq> []" using assms(2) by auto
  have iv: "in_vol b (last cs)" using chain_in_vol [OF assms(2)] ne by simp
  show "frame b {last cs} {} s (upd_fat b (last cs) CLUSTER_END_OF_CHAIN s)"
    by (rule frame_upd_fat [OF assms(1) iv])
  have e: "fat_entry b (upd_fat b (last cs) CLUSTER_END_OF_CHAIN s) d =
      (if d = last cs then CLUSTER_END_OF_CHAIN else fat_entry b s d)" if "has_entry b d" for d
    using fat_entry_upd_fat [OF assms(1) in_vol_entry [OF iv] that] by (simp add: CLUSTER_END_OF_CHAIN_def)
  show "free_list b (upd_fat b (last cs) CLUSTER_END_OF_CHAIN s) = free_list b s"
    using chain_entry_nonzero [OF assms last_in_set [OF ne]] e
    by (intro free_list_cong [OF _ _ assms(1)]) (auto simp: CLUSTER_END_OF_CHAIN_def)
  show "hint_ok b (upd_fat b (last cs) CLUSTER_END_OF_CHAIN s) = hint_ok b s" by (simp add: hint_ok_def)
  have "chain b s cs \<Longrightarrow> distinct cs \<Longrightarrow> cs \<noteq> [] \<Longrightarrow> (\<And>d. d \<in> set cs \<Longrightarrow> fat_entry b s' d =
      (if d = last cs then CLUSTER_END_OF_CHAIN else fat_entry b s d)) \<Longrightarrow> chain b s' cs" for s'
  proof (induction cs)
    case (Cons c cs)
    show ?case
    proof (cases cs)
      case Nil
      then show ?thesis using Cons.prems by (simp add: CLUSTER_END_OF_CHAIN_def)
    next
      case (Cons d ds)
      then have "chain b s' cs" using Cons.prems Cons.IH by auto
      moreover have "fat_entry b s' c = d"
        using Cons.prems Cons last_in_set [of "d # ds"] by (auto split: if_splits)
      ultimately show ?thesis using Cons Cons.prems by simp
    qed
  qed simp
  then show "chain b (upd_fat b (last cs) CLUSTER_END_OF_CHAIN s) cs"
    using assms(2) chain_distinct [OF assms] ne e chain_in_vol [OF assms(2)] in_vol_entry by blast
qed

lemma append_cluster_ok:
  assumes V: "vol_ok b s" and H: "hint_ok b s" and C: "chain b s cs" and c: "c = hd cs"
    and F: "free_list b s = n # ns"
  shows "\<exists>s'. fat32_append_cluster c s = Some (Some n, s') \<and> frame b {n, last cs} {} s s'
    \<and> hint_ok b s' \<and> free_list b s' = ns \<and> chain b s' (cs @ [n])"
proof -
  have ne: "cs \<noteq> []" using C by auto
  then obtain ds where cs: "cs = c # ds" using c by (cases cs) auto
  have last: "last_cluster_loop c s = Some (last cs)" using last_cluster_ok [OF V] C cs by simp
  note f = free_list_Cons [OF V H F]
  define s2 where "s2 = link_upd b cs n s"
  note l = link_upd_ok [OF V H F disjI2 [OF C], folded s2_def]
  have V2: "vol_ok b s2" using l(1) by (simp add: frame_def)
  have iv: "in_vol b (last cs)" using chain_in_vol [OF C] ne by simp
  have set1: "fat32_set_next_cluster (last cs) n (alloc_upd b n s) = Some (True, s2)"
    using set_next_cluster_ok [OF vol_ok_alloc_upd [OF V] iv] ne by (simp add: s2_def link_upd_def)
  define s3 where "s3 = upd_fat b n CLUSTER_END_OF_CHAIN s2"
  have set2: "fat32_set_next_cluster n CLUSTER_END_OF_CHAIN s2 = Some (True, s3)"
    using set_next_cluster_ok [OF V2 f(1)] by (simp add: s3_def)
  note u = upd_fat_last [OF V2 l(4), simplified, folded s3_def]
  have "frame b ({n} \<union> {last cs}) {} s s2"
    using frame_trans [OF frame_alloc_upd [OF V f(1)] frame_upd_fat [OF vol_ok_alloc_upd [OF V] iv]] ne
    by (simp add: s2_def link_upd_def)
  from frame_trans [OF this u(1)] have "frame b {n, last cs} {} s s3" by (simp add: insert_commute)
  then show ?thesis
    using last allocate_Cons [OF V H F] set1 set2 l u by (simp add: fat32_append_cluster_def)
qed

lemma append_cluster_full:
  assumes "vol_ok b s" "hint_ok b s" "chain b s (c # cs)" "free_list b s = []"
  shows "fat32_append_cluster c s = Some (None, s)"
  using last_cluster_ok [OF assms(1,3)] allocate_cluster_ok [OF assms(1,2)] assms(4)
  by (simp add: fat32_append_cluster_def)

lemma alloc_chain_loop_ok:
  "vol_ok b s \<Longrightarrow> hint_ok b s \<Longrightarrow> n \<le> length (free_list b s) \<Longrightarrow> acc = [] \<or> chain b s acc \<Longrightarrow>
   0 < n + length acc \<Longrightarrow>
   \<exists>s'. alloc_chain_loop n (if acc = [] then 0 else last acc) first s =
       Some (True, (if acc = [] then hd (free_list b s) else first), s')
     \<and> frame b (set (acc @ take n (free_list b s))) {} s s' \<and> hint_ok b s'
     \<and> free_list b s' = drop n (free_list b s) \<and> chain b s' (acc @ take n (free_list b s))"
proof (induction n arbitrary: acc first s)
  case 0
  then have C: "chain b s acc" and ne: "acc \<noteq> []" by auto
  have iv: "in_vol b (last acc)" using chain_in_vol [OF C] ne by simp
  note u = upd_fat_last [OF 0(1) C]
  have "frame b (set acc) {} s (upd_fat b (last acc) CLUSTER_END_OF_CHAIN s)"
    using ne by (intro frame_mono [OF u(1)]) auto
  then show ?case using set_next_cluster_ok [OF 0(1) iv] ne u 0(2) by simp
next
  case (Suc n)
  obtain c cs where F: "free_list b s = c # cs" using Suc.prems(3) by (cases "free_list b s") auto
  note f = free_list_Cons [OF Suc.prems(1,2) F]
  define s2 where "s2 = link_upd b acc c s"
  note l = link_upd_ok [OF Suc.prems(1,2) F Suc.prems(4), folded s2_def]
  have V2: "vol_ok b s2" using l(1) by (simp add: frame_def)
  have c0: "c \<noteq> 0" using in_vol_range(3) [OF Suc.prems(1) f(1)] .
  have step: "alloc_chain_loop (Suc n) (if acc = [] then 0 else last acc) first s =
      alloc_chain_loop n c (if acc = [] then c else first) s2"
  proof (cases "acc = []")
    case True
    then show ?thesis using allocate_Cons [OF Suc.prems(1,2) F] by (simp add: s2_def link_upd_def)
  next
    case False
    then have C: "chain b s acc" using Suc.prems(4) by simp
    have iv: "in_vol b (last acc)" using chain_in_vol [OF C] False by simp
    have "last acc \<noteq> 0" using in_vol_range(3) [OF Suc.prems(1) iv] .
    then show ?thesis
      using allocate_Cons [OF Suc.prems(1,2) F] False
        set_next_cluster_ok [OF vol_ok_alloc_upd [OF Suc.prems(1)] iv]
      by (simp add: s2_def link_upd_def)
  qed
  obtain s' where s': "alloc_chain_loop n c (if acc = [] then c else first) s2 =
       Some (True, (if acc = [] then c else first), s')"
    "frame b (set ((acc @ [c]) @ take n cs)) {} s2 s'" "hint_ok b s'"
    "free_list b s' = drop n cs" "chain b s' ((acc @ [c]) @ take n cs)"
    using Suc.IH [OF V2 l(2), of "acc @ [c]" "if acc = [] then c else first"] l Suc.prems(3) F by auto
  have "frame b (set (acc @ take (Suc n) (free_list b s))) {} s s'"
    using frame_trans [OF l(1) s'(2)] F by (auto elim!: frame_mono)
  then show ?case using step s' F by simp
qed

text \<open>The number of clusters of \<open>m\<close> bytes that \<open>r\<close> bytes take.\<close>

definition clusters_for :: "nat \<Rightarrow> nat \<Rightarrow> nat" where
  "clusters_for m r = (r + m - 1) div m"

lemma clusters_for_0 [simp]: "0 < m \<Longrightarrow> clusters_for m 0 = 0"
  by (simp add: clusters_for_def)

lemma clusters_for_step:
  assumes "0 < m" "0 < r"
  shows "clusters_for m r = Suc (clusters_for m (r - min m r))"
proof (cases "m \<le> r")
  case True
  have "r + m - 1 = (r - m + m - 1) + m" using True assms by simp
  then have "(r + m - 1) div m = ((r - m + m - 1) + m) div m" by (rule arg_cong)
  then have "(r + m - 1) div m = Suc ((r - m + m - 1) div m)" using assms(1) by (subst (asm) div_add_self2) auto
  then show ?thesis using True by (simp add: clusters_for_def min_def)
next
  case False
  have "r + m - 1 = (r - 1) + m" using assms by simp
  then have "(r + m - 1) div m = ((r - 1) + m) div m" by (rule arg_cong)
  then have "(r + m - 1) div m = Suc ((r - 1) div m)" using assms(1) by (subst (asm) div_add_self2) auto
  then show ?thesis using False assms by (simp add: clusters_for_def min_def)
qed

lemma clusters_for_ge: "0 < m \<Longrightarrow> r \<le> clusters_for m r * m"
proof -
  assume m: "0 < m"
  have "(r + m - 1) mod m < m" using m by simp
  moreover have "(r + m - 1) div m * m + (r + m - 1) mod m = r + m - 1" by (rule div_mult_mod_eq)
  ultimately show ?thesis unfolding clusters_for_def by linarith
qed

lemma chunk_buffer_ok:
  assumes "w + tw \<le> length buf" "tw \<le> m"
  shows "\<exists>d. chunk_buffer buf w tw m = Some d \<and> m \<le> length d
     \<and> take m d = take tw (drop w buf) @ replicate (m - tw) 0"
  using assms by (auto simp: chunk_buffer_def)

lemma write_chain_done:
  assumes "vol_ok b s" "hint_ok b s" "acc = [] \<or> chain b s acc" "\<not> written < size_n"
  shows "\<exists>s'. write_chain_loop buf size_n csz written (if acc = [] then 0 else last acc) first s =
       Some (True, first, s')
     \<and> frame b (set acc) {} s s' \<and> hint_ok b s' \<and> free_list b s' = free_list b s \<and> (acc \<noteq> [] \<longrightarrow> chain b s' acc)"
proof (cases "acc = []")
  case True
  have "fat32_set_next_cluster 0 CLUSTER_END_OF_CHAIN s = Some (False, s)"
    by (simp add: fat32_set_next_cluster_def is_valid_cluster_def)
  then show ?thesis using True assms by (subst write_chain_loop.simps) (simp add: frame_refl)
next
  case False
  then have C: "chain b s acc" using assms(3) by simp
  have iv: "in_vol b (last acc)" using chain_in_vol [OF C] False by simp
  note u = upd_fat_last [OF assms(1) C]
  have "frame b (set acc) {} s (upd_fat b (last acc) CLUSTER_END_OF_CHAIN s)"
    using False by (intro frame_mono [OF u(1)]) auto
  then show ?thesis
    using False assms(2,4) set_next_cluster_ok [OF assms(1) iv] u by (subst write_chain_loop.simps) simp
qed

lemma write_chain_step:
  assumes V: "vol_ok b s" and H: "hint_ok b s" and C: "acc = [] \<or> chain b s acc"
    and F: "free_list b s = c # cs" and lt: "written < size_n" and sz: "unat size_n \<le> length buf"
    and m: "unat csz = 512 * spc b"
  shows "\<exists>s3 tw. write_chain_loop buf size_n csz written (if acc = [] then 0 else last acc) first s =
       write_chain_loop buf size_n csz (written + tw) c (if acc = [] then c else first) s3
     \<and> unat (written + tw) = unat written + unat tw \<and> unat tw = min (512 * spc b) (unat size_n - unat written)
     \<and> frame b (set (c # acc)) {c} s s3 \<and> hint_ok b s3 \<and> free_list b s3 = cs \<and> chain b s3 (acc @ [c])
     \<and> cluster_data b s3 c = take (unat tw) (drop (unat written) buf) @ replicate (512 * spc b - unat tw) 0"
proof -
  note f = free_list_Cons [OF V H F]
  define s2 where "s2 = link_upd b acc c s"
  note l = link_upd_ok [OF V H F C, folded s2_def]
  have V2: "vol_ok b s2" using l(1) by (simp add: frame_def)
  have lt': "unat written < unat size_n" using lt by (simp add: word_less_nat_alt)
  define tw where "tw = (if size_n - written > csz then csz else size_n - written)"
  have sub: "unat (size_n - written) = unat size_n - unat written" using lt' by (simp add: unat_minus_u32)
  have tw: "unat tw = min (512 * spc b) (unat size_n - unat written)"
    using sub m by (auto simp: tw_def word_less_nat_alt)
  have sum: "unat (written + tw) = unat written + unat tw"
    using tw lt' unat_u32_lt [of size_n] by (intro unat_plus_u32) auto
  obtain d where d: "chunk_buffer buf (unat written) (unat tw) (512 * spc b) = Some d" "512 * spc b \<le> length d"
    "take (512 * spc b) d = take (unat tw) (drop (unat written) buf) @ replicate (512 * spc b - unat tw) 0"
  proof -
    have "unat written + unat tw \<le> length buf" "unat tw \<le> 512 * spc b" using tw lt' sz by linarith+
    then show ?thesis using chunk_buffer_ok that by blast
  qed
  define s3 where "s3 = upd_cluster b c d s2"
  have w: "fat32_write_cluster c d s2 = Some (True, s3)"
    using write_cluster_ok [OF V2 f(1) d(2)] by (simp add: s3_def)
  have fr3: "frame b {} {c} s2 s3" using frame_upd_cluster [OF V2 f(1) d(2)] by (simp add: s3_def)
  have V3: "vol_ok b s3" using fr3 by (simp add: frame_def)
  have lnk: "(if (if acc = [] then 0 else last acc) \<noteq> 0
      then map_option (\<lambda>(ok, s2). (first, s2)) (fat32_set_next_cluster (if acc = [] then 0 else last acc) c (alloc_upd b c s))
      else Some (c, alloc_upd b c s)) = Some (if acc = [] then c else first, s2)"
  proof (cases "acc = []")
    case False
    then have iv: "in_vol b (last acc)" using C chain_in_vol by fastforce
    have "last acc \<noteq> 0" using in_vol_range(3) [OF V iv] .
    then show ?thesis using False set_next_cluster_ok [OF vol_ok_alloc_upd [OF V] iv] by (simp add: s2_def link_upd_def)
  qed (simp add: s2_def link_upd_def)
  have "write_chain_loop buf size_n csz written (if acc = [] then 0 else last acc) first s =
      write_chain_loop buf size_n csz (written + tw) c (if acc = [] then c else first) s3"
    using lt allocate_Cons [OF V H F] lnk d(1) w m
    by (subst write_chain_loop.simps) (simp add: Let_def tw_def [symmetric] del: if_split_asm)
  moreover have "frame b (set (c # acc)) {c} s s3" using frame_trans [OF l(1) fr3] by simp
  moreover have "hint_ok b s3" using l(2) by (simp add: s3_def hint_ok_def)
  moreover have "free_list b s3 = cs" using l(3) free_list_upd_cluster [OF V2] by (simp add: s3_def)
  moreover have "chain b s3 (acc @ [c])" using frame_chain [OF fr3 l(4)] by simp
  moreover have "cluster_data b s3 c = take (unat tw) (drop (unat written) buf) @ replicate (512 * spc b - unat tw) 0"
    using cluster_data_upd_cluster [OF V2 f(1) f(1) d(2)] d(3) by (simp add: s3_def)
  ultimately show ?thesis using sum tw by blast
qed

lemma write_chain_ok:
  assumes sz: "unat size_n \<le> length buf" and m: "unat csz = 512 * spc b"
  shows "vol_ok b s \<Longrightarrow> hint_ok b s \<Longrightarrow> acc = [] \<or> chain b s acc \<Longrightarrow> unat written \<le> unat size_n \<Longrightarrow>
    k = clusters_for (512 * spc b) (unat size_n - unat written) \<Longrightarrow> k \<le> length (free_list b s) \<Longrightarrow>
    \<exists>s'. write_chain_loop buf size_n csz written (if acc = [] then 0 else last acc) first s =
        Some (True, (if acc = [] \<and> k \<noteq> 0 then hd (free_list b s) else first), s')
      \<and> frame b (set (acc @ take k (free_list b s))) (set (take k (free_list b s))) s s'
      \<and> hint_ok b s' \<and> free_list b s' = drop k (free_list b s)
      \<and> (acc @ take k (free_list b s) \<noteq> [] \<longrightarrow> chain b s' (acc @ take k (free_list b s)))
      \<and> concat (map (cluster_data b s') (take k (free_list b s)))
        = drop (unat written) (take (unat size_n) buf) @ replicate (k * (512 * spc b) - (unat size_n - unat written)) 0"
proof (induction k arbitrary: acc written first s)
  case 0
  have p: "0 < 512 * spc b" using wf_bpbD(2) [OF vol_okD(2) [OF 0(1)]] by simp
  have "unat size_n = unat written"
    using clusters_for_ge [OF p, of "unat size_n - unat written"] 0(4,5) by simp
  then have "\<not> written < size_n" by (simp add: word_less_nat_alt)
  from write_chain_done [OF 0(1,2,3) this, of buf csz first]
  show ?case using \<open>unat size_n = unat written\<close> by auto
next
  case (Suc k)
  have p: "0 < 512 * spc b" using wf_bpbD(2) [OF vol_okD(2) [OF Suc.prems(1)]] by simp
  have lt': "unat written < unat size_n"
    using Suc.prems(4,5) p by (metis clusters_for_0 diff_is_0_eq nat.distinct(1) not_less)
  then have lt: "written < size_n" by (simp add: word_less_nat_alt)
  obtain c cs where F: "free_list b s = c # cs" using Suc.prems(6) by (cases "free_list b s") auto
  obtain s3 tw where st: "write_chain_loop buf size_n csz written (if acc = [] then 0 else last acc) first s =
       write_chain_loop buf size_n csz (written + tw) c (if acc = [] then c else first) s3"
     "unat (written + tw) = unat written + unat tw" "unat tw = min (512 * spc b) (unat size_n - unat written)"
     "frame b (set (c # acc)) {c} s s3" "hint_ok b s3" "free_list b s3 = cs" "chain b s3 (acc @ [c])"
     "cluster_data b s3 c = take (unat tw) (drop (unat written) buf) @ replicate (512 * spc b - unat tw) 0"
    using write_chain_step [OF Suc.prems(1-3) F lt sz m, of first] by (elim exE conjE) (rule that; assumption)
  have V3: "vol_ok b s3" using st(4) by (simp add: frame_def)
  have k: "k = clusters_for (512 * spc b) (unat size_n - unat (written + tw))"
    using Suc.prems(5) clusters_for_step [OF p, of "unat size_n - unat written"] lt' st(2,3)
    by (simp add: diff_diff_left)
  have le: "unat (written + tw) \<le> unat size_n" using st(2,3) lt' by simp
  obtain s' where s': "write_chain_loop buf size_n csz (written + tw) c (if acc = [] then c else first) s3 =
        Some (True, (if acc = [] then c else first), s')"
      "frame b (set ((acc @ [c]) @ take k cs)) (set (take k cs)) s3 s'" "hint_ok b s'" "free_list b s' = drop k cs"
      "chain b s' ((acc @ [c]) @ take k cs)"
      "concat (map (cluster_data b s') (take k cs))
        = drop (unat (written + tw)) (take (unat size_n) buf)
          @ replicate (k * (512 * spc b) - (unat size_n - unat (written + tw))) 0"
    using Suc.IH [OF V3 st(5) disjI2 [OF st(7)] le k, of "if acc = [] then c else first"] st(6) Suc.prems(6) F
    by auto
  note f = free_list_Cons [OF Suc.prems(1,2) F]
  have "c \<notin> set (take k cs)" using f(5) by (meson in_set_takeD)
  then have cd: "cluster_data b s' c = cluster_data b s3 c" using s'(2) f(1) by (simp add: frame_def)
  have cat: "take (unat tw) (drop (unat written) buf) @ replicate (512 * spc b - unat tw) 0
      @ drop (unat (written + tw)) (take (unat size_n) buf)
      @ replicate (k * (512 * spc b) - (unat size_n - unat (written + tw))) 0
    = drop (unat written) (take (unat size_n) buf)
      @ replicate (Suc k * (512 * spc b) - (unat size_n - unat written)) (0 :: u8)"
  proof (cases "unat size_n - unat written < 512 * spc b")
    case True
    then have e: "unat tw = unat size_n - unat written" using st(3) by simp
    then have "k = 0" using k st(2) lt' p by simp
    then show ?thesis using e st(2) lt' by (simp add: drop_take)
  next
    case False
    then have e: "unat tw = 512 * spc b" using st(3) by simp
    have "take (unat tw) (drop (unat written) (take (unat size_n) buf)) = take (unat tw) (drop (unat written) buf)"
      using e False by (simp add: drop_take min_def)
    then have "drop (unat written) (take (unat size_n) buf)
        = take (unat tw) (drop (unat written) buf) @ drop (unat (written + tw)) (take (unat size_n) buf)"
      using append_take_drop_id [of "unat tw" "drop (unat written) (take (unat size_n) buf)"] st(2)
      by (simp add: add.commute)
    then show ?thesis using e st(2) False by (simp add: diff_diff_left)
  qed
  have "frame b (set (acc @ take (Suc k) (free_list b s))) (set (take (Suc k) (free_list b s))) s s'"
    using frame_trans [OF st(4) s'(2)] F by (auto elim!: frame_mono)
  then show ?case using st(1,8) s' F cd cat by simp
qed

section \<open>Properties\<close>

lemma chain_data_kept:
  assumes F: "frame b A B s s'" and C: "chain b s ds" and A: "set ds \<inter> A = {}" and B: "set ds \<inter> B = {}"
  shows "chain b s' ds \<and> map (cluster_data b s') ds = map (cluster_data b s) ds"
proof
  show "chain b s' ds" by (rule frame_chain [OF F C A])
  show "map (cluster_data b s') ds = map (cluster_data b s) ds"
    using F B chain_in_vol [OF C] by (auto simp: frame_def)
qed

lemma length_concat_clusters: "vol_ok b s \<Longrightarrow> length (concat (map (cluster_data b s) cs)) = length cs * (512 * spc b)"
  by (induction cs) auto

text \<open>
  C14. Files are stored and read back: when the volume has enough reachable free clusters,
  \<open>fat32_write_cluster_chain\<close> returns true and the first cluster of a new chain made of the first
  free clusters; \<open>fat32_read_cluster_chain\<close> on it then returns exactly the bytes written, padded with
  zeros to whole clusters. Every chain the volume had is still there with its contents.
\<close>

theorem write_chain_then_read_chain:
  assumes V: "vol_ok b s" and H: "hint_ok b s" and M: "disk_malloc_ok s (512 * spc b)"
    and n: "0 < unat n" "unat n \<le> length data"
    and k: "k = clusters_for (512 * spc b) (unat n)" "k \<le> length (free_list b s)"
    and buf: "length buf = k * (512 * spc b)" "k * (512 * spc b) < 2 ^ 32"
  shows "\<exists>first s'. fat32_write_cluster_chain data n x s = Some (True, first, s') \<and> vol_ok b s'
     \<and> chain b s' (take k (free_list b s)) \<and> first = hd (free_list b s)
     \<and> fat32_read_cluster_chain first buf (of_nat (k * (512 * spc b))) s'
         = Some (True, take (unat n) data @ replicate (k * (512 * spc b) - unat n) 0)
     \<and> (\<forall>ds. chain b s ds \<longrightarrow> chain b s' ds \<and> map (cluster_data b s') ds = map (cluster_data b s) ds)"
proof -
  note V' = vol_okD [OF V]
  have p: "0 < 512 * spc b" using wf_bpbD(2) [OF V'(2)] by simp
  have "unat n \<le> k * (512 * spc b)" unfolding k(1) by (rule clusters_for_ge [OF p])
  then have k0: "k \<noteq> 0" using n(1) by (cases k) auto
  let ?fl = "take k (free_list b s)"
  obtain s' where s': "write_chain_loop data n (get_cluster_size_bytes s) 0 0 x s = Some (True, hd (free_list b s), s')"
    "frame b (set ?fl) (set ?fl) s s'" "chain b s' ?fl"
    "concat (map (cluster_data b s') ?fl) = take (unat n) data @ replicate (k * (512 * spc b) - unat n) 0"
    using write_chain_ok [OF n(2) V'(6) V H, of "[]" 0 k x] k k0 by auto
  have w: "fat32_write_cluster_chain data n x s = Some (True, hd (free_list b s), s')"
    using s'(1) M V'(6) p by (simp add: fat32_write_cluster_chain_def malloc_def Let_def)
  have V2: "vol_ok b s'" using s'(2) by (simp add: frame_def)
  obtain c cs where fl: "?fl = c # cs" using k k0 by (cases ?fl) auto
  have hd: "hd (free_list b s) = c" using fl k0 by (metis hd_take list.sel(1) neq0_conv)
  have len: "length (c # cs) = k" using k fl by (metis length_take min.absorb2)
  define mb :: u32 where "mb = of_nat (k * (512 * spc b))"
  have mb: "unat mb = k * (512 * spc b)" using buf(2) unfolding mb_def by (intro unat_of_nat_le) simp
  have "unat (0 :: u32) + length (c # cs) * (512 * spc b) \<le> unat mb" using len mb by simp
  then have "fat32_read_cluster_chain c buf mb s' = Some (True, overwrite buf 0 (concat (map (cluster_data b s') ?fl)))"
    using read_chain_ok [OF V2, of c cs 0 mb buf] s'(3) fl buf(1) mb
    by (simp add: fat32_read_cluster_chain_def)
  moreover have "length (concat (map (cluster_data b s') ?fl)) = length buf"
    unfolding fl length_concat_clusters [OF V2] buf(1) len by simp
  moreover have "chain b s' ds \<and> map (cluster_data b s') ds = map (cluster_data b s) ds" if "chain b s ds" for ds
  proof -
    have "set ds \<inter> set ?fl = {}" using free_not_in_chain [OF V H that] set_take_subset [of k "free_list b s"] by blast
    then show ?thesis by (intro chain_data_kept [OF s'(2) that])
  qed
  ultimately show ?thesis unfolding mb_def using w V2 s'(3,4) hd by simp
qed

lemma sample_hint [simp]: "hint_ok sample_bpb sample_fs"
  by (simp add: hint_ok_def)

lemma sample_chain: "chain sample_bpb sample_fs [3, 4]" "chain sample_bpb sample_fs [2]"
  by (simp_all add: sample_entry in_vol_def)

lemma sample_free_list: "\<exists>r. free_list sample_bpb sample_fs = 5 # 6 # r"
proof -
  have "[2..<196] = 2 # 3 # 4 # 5 # 6 # [7..<196]" by (simp add: upt_rec)
  then show ?thesis by (simp add: free_list_def sample_entry)
qed

theorem write_chain_then_read_chain_witness:
  "\<exists>s'. fat32_write_cluster_chain (replicate 700 9) 700 0 sample_fs = Some (True, 5, s')
     \<and> fat32_read_cluster_chain 5 (replicate 1024 0) 1024 s' = Some (True, replicate 700 9 @ replicate 324 0)
     \<and> chain sample_bpb s' [3, 4]"
proof -
  obtain r where r: "free_list sample_bpb sample_fs = 5 # 6 # r" using sample_free_list by blast
  have "2 = clusters_for (512 * spc sample_bpb) (unat (700 :: u32))" by (simp add: clusters_for_def)
  from write_chain_then_read_chain [OF sample_vol_ok sample_hint _ _ _ this, of "replicate 700 9" "replicate 1024 0" 0]
  obtain first s' where "fat32_write_cluster_chain (replicate 700 9) 700 0 sample_fs = Some (True, first, s')"
    "first = 5" "fat32_read_cluster_chain first (replicate 1024 0) 1024 s' = Some (True, replicate 700 9 @ replicate 324 0)"
    "\<forall>ds. chain sample_bpb sample_fs ds \<longrightarrow> chain sample_bpb s' ds
       \<and> (\<forall>x\<in>set ds. cluster_data sample_bpb s' x = cluster_data sample_bpb sample_fs x)"
    by (simp add: r) (elim exE conjE, rule that, (assumption | rule refl)+)
  then show ?thesis using sample_chain(1) by blast
qed

text \<open>
  Freeing: on a sound chain \<open>fat32_free_cluster_chain\<close> terminates and returns true; afterwards
  exactly the clusters of that chain have become free, in every FAT copy, and no other entry and
  no cluster's contents have changed.
\<close>

theorem free_chain_frees_exactly:
  assumes "vol_ok b s" "fats_mirrored b s" "chain b s (c # cs)"
  shows "\<exists>s'. fat32_free_cluster_chain c s = Some (True, s') \<and> vol_ok b s' \<and> fats_mirrored b s'
     \<and> (\<forall>d. has_entry b d \<longrightarrow> fat32_get_next_cluster d s' =
           (if d \<in> set (c # cs) then Some 0 else fat32_get_next_cluster d s))
     \<and> (\<forall>d. in_vol b d \<longrightarrow> cluster_data b s' d = cluster_data b s d)"
proof -
  note f = free_upd_ok [OF assms(1) chain_all_in_vol [OF assms(3)]]
  have g: "fat32_get_next_cluster d (free_upd b (c # cs) s) = Some (fat_entry b (free_upd b (c # cs) s) d)"
    if "has_entry b d" for d
    using f that get_next_cluster_ok by blast
  show ?thesis using free_chain_ok [OF assms(1,3)] f g get_next_cluster_ok [OF assms(1)] assms(2) by simp
qed

theorem free_chain_frees_exactly_witness:
  "\<exists>s'. fat32_free_cluster_chain 3 sample_fs = Some (True, s') \<and> fat32_get_next_cluster 3 s' = Some 0
     \<and> fat32_get_next_cluster 4 s' = Some 0 \<and> fat32_get_next_cluster 2 s' = Some 0x0FFFFFFF"
proof -
  from free_chain_frees_exactly [OF sample_vol_ok sample_mirrored sample_chain(1)]
  obtain s' where s': "fat32_free_cluster_chain 3 sample_fs = Some (True, s')"
    "\<forall>d. has_entry sample_bpb d \<longrightarrow> fat32_get_next_cluster d s' =
       (if d \<in> set [3, 4] then Some 0 else fat32_get_next_cluster d sample_fs)" by blast
  have "has_entry sample_bpb 3" "has_entry sample_bpb 4" "has_entry sample_bpb 2" by (simp_all add: has_entry_def)
  then show ?thesis using s' by (simp add: get_next_cluster_ok [OF sample_vol_ok] sample_entry)
qed

text \<open>
  Allocation: \<open>fat32_allocate_cluster\<close> always returns; it fails only when no cluster from the hint on
  is free, changing nothing, and otherwise returns the lowest such cluster, now an end of chain, with
  every other entry and all contents unchanged. A cluster of an existing chain is never returned.
\<close>

theorem allocate_cluster_correct:
  assumes "vol_ok b s" "hint_ok b s"
  shows "case free_list b s of
       [] \<Rightarrow> fat32_allocate_cluster s = Some (None, s)
     | c # cs \<Rightarrow> \<exists>s'. fat32_allocate_cluster s = Some (Some c, s') \<and> in_vol b c \<and> fat_entry b s c = 0
         \<and> frame b {c} {} s s' \<and> fat_entry b s' c = CLUSTER_END_OF_CHAIN \<and> hint_ok b s' \<and> free_list b s' = cs
         \<and> (\<forall>ds. chain b s ds \<longrightarrow> c \<notin> set ds)"
proof (cases "free_list b s")
  case Nil
  then show ?thesis using allocate_cluster_ok [OF assms] by simp
next
  case (Cons c cs)
  note f = free_list_Cons [OF assms Cons]
  have "\<forall>ds. chain b s ds \<longrightarrow> c \<notin> set ds" using free_not_in_chain [OF assms] Cons by auto
  then show ?thesis
    using allocate_cluster_ok [OF assms] Cons f frame_alloc_upd [OF assms(1) f(1)]
      alloc_upd_maps(1) [OF assms(1) f(1) in_vol_entry [OF f(1)]] by simp
qed

theorem allocate_cluster_correct_witness:
  "\<exists>s'. fat32_allocate_cluster sample_fs = Some (Some 5, s') \<and> fat_entry sample_bpb s' 5 = CLUSTER_END_OF_CHAIN"
proof -
  obtain r where "free_list sample_bpb sample_fs = 5 # 6 # r" using sample_free_list by blast
  then show ?thesis using allocate_cluster_correct [OF sample_vol_ok sample_hint] by auto
qed

text \<open>
  Growing a file: \<open>fat32_append_cluster\<close> on the head of a sound chain returns and either adds one
  free cluster at its end, keeping all contents and every other chain, or fails because no reachable
  cluster is free, changing nothing.
\<close>

theorem append_cluster_correct:
  assumes V: "vol_ok b s" and H: "hint_ok b s" and C: "chain b s (c # cs)"
  shows "case free_list b s of
       [] \<Rightarrow> fat32_append_cluster c s = Some (None, s)
     | n # ns \<Rightarrow> \<exists>s'. fat32_append_cluster c s = Some (Some n, s') \<and> vol_ok b s' \<and> hint_ok b s'
         \<and> chain b s' (c # cs @ [n]) \<and> free_list b s' = ns
         \<and> (\<forall>d. in_vol b d \<longrightarrow> cluster_data b s' d = cluster_data b s d)
         \<and> (\<forall>ds. chain b s ds \<and> set ds \<inter> set (c # cs) = {} \<longrightarrow> chain b s' ds)"
proof (cases "free_list b s")
  case Nil
  then show ?thesis using append_cluster_full [OF V H C] by simp
next
  case (Cons n ns)
  obtain s' where s': "fat32_append_cluster c s = Some (Some n, s')" "frame b {n, last (c # cs)} {} s s'"
    "hint_ok b s'" "free_list b s' = ns" "chain b s' ((c # cs) @ [n])"
    using append_cluster_ok [OF V H C _ Cons] by auto
  have "chain b s' ds" if "chain b s ds" "set ds \<inter> set (c # cs) = {}" for ds
  proof -
    have "n \<notin> set ds" using free_not_in_chain [OF V H that(1)] Cons by auto
    moreover have "last (c # cs) \<in> set (c # cs)" by (rule last_in_set) simp
    ultimately show ?thesis using that by (intro frame_chain [OF s'(2) that(1)]) blast
  qed
  then show ?thesis using Cons s' by (auto simp: frame_def)
qed

theorem append_cluster_correct_witness:
  "\<exists>s'. fat32_append_cluster 3 sample_fs = Some (Some 5, s') \<and> chain sample_bpb s' [3, 4, 5]"
proof -
  obtain r where "free_list sample_bpb sample_fs = 5 # 6 # r" using sample_free_list by blast
  then show ?thesis using append_cluster_correct [OF sample_vol_ok sample_hint sample_chain(1)] by auto
qed

text \<open>
  Allocating a chain of \<open>n\<close> clusters, when that many are reachable, returns true and the first
  of them, and links exactly the first \<open>n\<close> free clusters in order into one terminated chain.
\<close>

theorem allocate_chain_correct:
  assumes "vol_ok b s" "hint_ok b s" "0 < unat n" "unat n \<le> length (free_list b s)"
  shows "\<exists>s'. fat32_allocate_cluster_chain n s = Some (True, hd (free_list b s), s')
     \<and> frame b (set (take (unat n) (free_list b s))) {} s s'
     \<and> chain b s' (take (unat n) (free_list b s)) \<and> free_list b s' = drop (unat n) (free_list b s)"
  using alloc_chain_loop_ok [OF assms(1,2,4), of "[]" 0] assms(3)
  by (auto simp: fat32_allocate_cluster_chain_def)

theorem allocate_chain_correct_witness:
  "\<exists>s'. fat32_allocate_cluster_chain 2 sample_fs = Some (True, 5, s') \<and> chain sample_bpb s' [5, 6]"
proof -
  obtain r where r: "free_list sample_bpb sample_fs = 5 # 6 # r" using sample_free_list by blast
  from allocate_chain_correct [OF sample_vol_ok sample_hint, of 2] show ?thesis by (auto simp: r)
qed

text \<open>
  Walking a sound chain: \<open>fat32_validate_cluster_chain\<close> accepts it and
  \<open>fat32_count_cluster_chain\<close> returns the number of its clusters; both loops end.
\<close>

theorem chain_walks_correct:
  assumes "vol_ok b s" "chain b s (c # cs)"
  shows "fat32_validate_cluster_chain c s = Some True
     \<and> fat32_count_cluster_chain c s = Some (of_nat (length (c # cs)))"
  using validate_chain_ok [OF assms] count_chain_ok [OF assms, of 0] by (simp add: fat32_count_cluster_chain_def)

theorem chain_walks_correct_witness:
  "fat32_validate_cluster_chain 3 sample_fs = Some True \<and> fat32_count_cluster_chain 3 sample_fs = Some 2"
  using chain_walks_correct [OF sample_vol_ok sample_chain(1)] by simp

text \<open>
  A cluster that is freed below the allocator's hint is never handed out again, and neither is the
  last cluster of the volume: whatever \<open>fat32_allocate_cluster\<close> returns lies at or above the hint and
  below the volume's last cluster.
\<close>

theorem freed_clusters_not_reused:
  assumes V: "vol_ok b s" and H: "hint_ok b s" and C: "chain b s (c # cs)"
    and low: "\<forall>d\<in>set (c # cs). unat d < unat (fat32_free_cluster_no s)"
  shows "\<exists>s'. fat32_free_cluster_chain c s = Some (True, s') \<and> free_list b s' = free_list b s
     \<and> (\<forall>d s''. fat32_allocate_cluster s' = Some (Some d, s'') \<longrightarrow> d \<notin> set (c # cs) \<and> unat d \<noteq> nclus b + 1)"
proof -
  define s' where "s' = free_upd b (c # cs) s"
  note f = free_upd_ok [OF V chain_all_in_vol [OF C], folded s'_def]
  have h: "fat32_free_cluster_no s' = fat32_free_cluster_no s" unfolding s'_def by (rule free_upd_fields)
  have H': "hint_ok b s'" using H h by (simp add: hint_ok_def)
  have "filter (\<lambda>d. fat_entry b s' (of_nat d) = 0) [unat (fat32_free_cluster_no s)..<nclus b + 1]
      = filter (\<lambda>d. fat_entry b s (of_nat d) = 0) [unat (fat32_free_cluster_no s)..<nclus b + 1]"
  proof (rule filter_cong)
    fix x assume "x \<in> set [unat (fat32_free_cluster_no s)..<nclus b + 1]"
    then have x: "unat (fat32_free_cluster_no s) \<le> x" "x < nclus b + 1" by auto
    then have u: "unat (of_nat x :: u32) = x" using nclus_lt [OF V] by (simp add: unat_of_nat_le)
    then have "has_entry b (of_nat x)" "of_nat x \<notin> set (c # cs)" using x low by (auto simp: has_entry_def)
    then show "(fat_entry b s' (of_nat x) = 0) = (fat_entry b s (of_nat x) = 0)" using f by simp
  qed simp
  then have fl: "free_list b s' = free_list b s" using h by (simp add: free_list_def)
  have "d \<notin> set (c # cs) \<and> unat d \<noteq> nclus b + 1" if al: "fat32_allocate_cluster s' = Some (Some d, s'')" for d s''
  proof -
    have V': "vol_ok b s'" using f by blast
    obtain ds where ds: "free_list b s' = d # ds"
      using al allocate_cluster_ok [OF V' H'] by (auto split: list.splits)
    then have "d \<in> set (free_list b s)" using fl by simp
    then obtain x where x: "d = of_nat x" "unat (fat32_free_cluster_no s) \<le> x" "x < nclus b + 1"
      by (auto simp: free_list_def)
    then have "unat d = x" using nclus_lt [OF V] by (simp add: unat_of_nat_le)
    then show ?thesis using x low by auto
  qed
  then show ?thesis using free_chain_ok [OF V C] fl by (auto simp: s'_def)
qed

theorem freed_clusters_not_reused_witness:
  "\<exists>s'. fat32_free_cluster_chain 3 (sample_fs\<lparr>fat32_free_cluster_no := 5\<rparr>) = Some (True, s')
     \<and> (\<forall>d s''. fat32_allocate_cluster s' = Some (Some d, s'') \<longrightarrow> d \<noteq> 3 \<and> d \<noteq> 4)"
proof -
  let ?s = "sample_fs\<lparr>fat32_free_cluster_no := 5\<rparr>"
  have "vol_ok sample_bpb ?s" "hint_ok sample_bpb ?s" by (simp_all add: hint_ok_def)
  moreover have "chain sample_bpb ?s [3, 4]" by (simp add: sample_entry in_vol_def)
  moreover have "\<forall>d\<in>set [3, 4 :: u32]. unat d < unat (fat32_free_cluster_no ?s)" by simp
  ultimately show ?thesis using freed_clusters_not_reused [of sample_bpb ?s 3 "[4]"] by auto
qed

end
