(* ===== verification/FatDir.thy ===== *)
theory FatDir
  imports FatChain
begin

text \<open>
  Directories (kernel/src/fs/fat32_fs/src/cluster_manager.c from
  \<open>fat32_find_contiguous_free_entries\<close> on, and lfn.c): 8.3 and long names, directory
  entries, searching a directory, creating entries and directories, path resolution.

  A C string is the list of its bytes before the terminating zero. A directory entry is the
  32 bytes it has on disk; \<open>DirEntry\<close> is the structure the code reads from them. Stores outside
  a buffer (a cluster buffer, the 256-byte long-name buffer, the 256-byte path buffer) have
  no result.
\<close>

section \<open>Characters and names\<close>

definition toupper_b :: "u8 \<Rightarrow> u8" where
  "toupper_b c = (if 97 \<le> c \<and> c \<le> 122 then c - 32 else c)"

definition islower_b :: "u8 \<Rightarrow> bool" where
  "islower_b c \<longleftrightarrow> 97 \<le> c \<and> c \<le> 122"

text \<open>The first loop of \<open>fat32_format_83_name\<close>: at most \<open>n\<close> characters, up to a dot.\<close>

fun copy_base :: "nat \<Rightarrow> bytes \<Rightarrow> bytes \<times> bytes" where
  "copy_base 0 cs = ([], cs)"
| "copy_base (Suc n) [] = ([], [])"
| "copy_base (Suc n) (c # cs) =
     (if c = 46 then ([], c # cs)
      else let (a, r) = copy_base n cs in (toupper_b c # a, r))"

definition fat32_format_83_name :: "bytes \<Rightarrow> bytes" where
  "fat32_format_83_name name =
     (let (base, rest) = copy_base 8 name;
          out = overwrite (replicate 11 32) 0 base
      in case dropWhile (\<lambda>c. c \<noteq> 46) rest of
           [] \<Rightarrow> out
         | _ # ext \<Rightarrow> overwrite out 8 (map toupper_b (take 3 ext)))"

definition fat32_lfn_checksum :: "bytes \<Rightarrow> u8" where
  "fat32_lfn_checksum short_name =
     foldl (\<lambda>sum c. (if sum AND 1 \<noteq> 0 then 0x80 else 0) + drop_bit 1 sum + c) 0 (take 11 short_name)"

definition fat32_needs_lfn :: "bytes \<Rightarrow> bool" where
  "fat32_needs_lfn name \<longleftrightarrow> length name > 12 \<or> (\<exists>c\<in>set name. islower_b c \<or> c = 32)"

section \<open>Directory entries\<close>

definition ATTR_VOLUME_ID :: u8 where "ATTR_VOLUME_ID = 0x08"
definition ATTR_DIRECTORY :: u8 where "ATTR_DIRECTORY = 0x10"
definition ATTR_ARCHIVE :: u8 where "ATTR_ARCHIVE = 0x20"
definition ATTR_LONG_NAME :: u8 where "ATTR_LONG_NAME = 0x0F"
definition LONG_FILENAME_SIZE :: nat where "LONG_FILENAME_SIZE = 256"

record DirEntry =
  DIR_Name :: bytes
  DIR_Attr :: u8
  DIR_NTRes :: u8
  DIR_CrtTimeTenth :: u8
  DIR_CrtTime :: u16
  DIR_CrtDate :: u16
  DIR_LstAccDate :: u16
  DIR_FstClusHI :: u16
  DIR_WrtTime :: u16
  DIR_WrtDate :: u16
  DIR_FstClusLO :: u16
  DIR_FileSize :: u32

definition entry_bytes :: "DirEntry \<Rightarrow> bytes" where
  "entry_bytes e = concat [DIR_Name e, [DIR_Attr e], [DIR_NTRes e], [DIR_CrtTimeTenth e],
     le16 (DIR_CrtTime e), le16 (DIR_CrtDate e), le16 (DIR_LstAccDate e), le16 (DIR_FstClusHI e),
     le16 (DIR_WrtTime e), le16 (DIR_WrtDate e), le16 (DIR_FstClusLO e), le32 (DIR_FileSize e)]"

definition entry_of_bytes :: "bytes \<Rightarrow> DirEntry" where
  "entry_of_bytes d = \<lparr>DIR_Name = bslice 0 11 d, DIR_Attr = rd8 d 11, DIR_NTRes = rd8 d 12,
     DIR_CrtTimeTenth = rd8 d 13, DIR_CrtTime = rd16 d 14, DIR_CrtDate = rd16 d 16,
     DIR_LstAccDate = rd16 d 18, DIR_FstClusHI = rd16 d 20, DIR_WrtTime = rd16 d 22,
     DIR_WrtDate = rd16 d 24, DIR_FstClusLO = rd16 d 26, DIR_FileSize = rd32 d 28\<rparr>"

definition new_entry :: "bytes \<Rightarrow> u8 \<Rightarrow> u32 \<Rightarrow> u32 \<Rightarrow> DirEntry" where
  "new_entry short_name attr first_cluster file_size =
     \<lparr>DIR_Name = short_name, DIR_Attr = attr, DIR_NTRes = 0, DIR_CrtTimeTenth = 0, DIR_CrtTime = 0,
      DIR_CrtDate = 0, DIR_LstAccDate = 0, DIR_FstClusHI = ucast (drop_bit 16 first_cluster),
      DIR_WrtTime = 0, DIR_WrtDate = 0, DIR_FstClusLO = ucast first_cluster, DIR_FileSize = file_size\<rparr>"

definition entry_cluster :: "DirEntry \<Rightarrow> u32" where
  "entry_cluster e = push_bit 16 (ucast (DIR_FstClusHI e)) OR ucast (DIR_FstClusLO e)"

record LFNEntry =
  LDIR_Ord :: u8
  LDIR_Name1 :: "u16 list"
  LDIR_Attr :: u8
  LDIR_Type :: u8
  LDIR_Chksum :: u8
  LDIR_Name2 :: "u16 list"
  LDIR_FstClusLO :: u16
  LDIR_Name3 :: "u16 list"

definition lfn_bytes :: "LFNEntry \<Rightarrow> bytes" where
  "lfn_bytes l = concat [[LDIR_Ord l], concat (map le16 (LDIR_Name1 l)), [LDIR_Attr l], [LDIR_Type l],
     [LDIR_Chksum l], concat (map le16 (LDIR_Name2 l)), le16 (LDIR_FstClusLO l),
     concat (map le16 (LDIR_Name3 l))]"

text \<open>The thirteen characters of an entry on disk, in the order the code reads them.\<close>

definition lfn_chars :: "bytes \<Rightarrow> u16 list" where
  "lfn_chars d = map (rd16 d) [1, 3, 5, 7, 9, 14, 16, 18, 20, 22, 24, 28, 30]"

text \<open>
  The entry that \<open>fat32_create_dir_entry\<close> writes for part \<open>order\<close> (counted from 1) of a name. A
  character is a signed \<open>char\<close> and is sign-extended.
\<close>

definition lfn_char :: "bytes \<Rightarrow> nat \<Rightarrow> u16" where
  "lfn_char name idx = (if idx < length name then scast (name ! idx)
     else if idx = length name then 0 else 0xFFFF)"

definition lfn_entry :: "bytes \<Rightarrow> u8 \<Rightarrow> nat \<Rightarrow> nat \<Rightarrow> LFNEntry" where
  "lfn_entry name checksum lfn_count order =
     (let st = (order - 1) * 13
      in \<lparr>LDIR_Ord = (if order = lfn_count then of_nat order OR 0x40 else of_nat order),
          LDIR_Name1 = map (\<lambda>j. lfn_char name (st + j)) [0..<5], LDIR_Attr = ATTR_LONG_NAME,
          LDIR_Type = 0, LDIR_Chksum = checksum,
          LDIR_Name2 = map (\<lambda>j. lfn_char name (st + j)) [5..<11], LDIR_FstClusLO = 0,
          LDIR_Name3 = map (\<lambda>j. lfn_char name (st + j)) [11..<13]\<rparr>)"

section \<open>Bounded stores and loads\<close>

definition st_bytes :: "bytes \<Rightarrow> nat \<Rightarrow> bytes \<Rightarrow> bytes option" where
  "st_bytes buf off d = (if off + length d \<le> length buf then Some (overwrite buf off d) else None)"

definition ld_entry :: "bytes \<Rightarrow> nat \<Rightarrow> bytes option" where
  "ld_entry buf off = (if off + 32 \<le> length buf then Some (bslice off 32 buf) else None)"

definition entry_offsets :: "nat \<Rightarrow> nat list" where
  "entry_offsets cluster_size = map (\<lambda>i. 32 * i) [0..<(cluster_size + 31) div 32]"

section \<open>Free slots\<close>

text \<open>
  One cluster of \<open>fat32_find_contiguous_free_entries\<close>: the offset just found, if the count reaches
  \<open>needed\<close>. The subtraction is 32-bit.
\<close>

fun free_run :: "u32 \<Rightarrow> bytes \<Rightarrow> u32 \<Rightarrow> nat list \<Rightarrow> u32 option option" where
  "free_run needed buf free_count [] = Some None"
| "free_run needed buf free_count (off # offs) =
     (if off < length buf
      then if buf ! off = 0 \<or> buf ! off = 0xE5
           then if free_count + 1 = needed then Some (Some (of_nat off - (needed - 1) * 32))
                else free_run needed buf (free_count + 1) offs
           else free_run needed buf 0 offs
      else None)"

partial_function (option) contiguous_loop ::
  "u32 \<Rightarrow> nat \<Rightarrow> u32 \<Rightarrow> bytes \<Rightarrow> fat32 \<Rightarrow> (bool \<times> (u32 \<times> u32) option) option" where
  "contiguous_loop needed cluster_size cur buf s =
     (if is_valid_cluster cur s
      then Option.bind (fat32_read_cluster cur buf 0 s) (\<lambda>(ok, buf').
             if \<not> ok then Some (False, None)
             else Option.bind (free_run needed buf' 0 (entry_offsets cluster_size)) (\<lambda>r.
               case r of
                 Some off \<Rightarrow> Some (True, Some (cur, off))
               | None \<Rightarrow> Option.bind (fat32_get_next_cluster cur s) (\<lambda>nxt.
                   if is_end_of_cluster_chain nxt s then Some (True, None)
                   else contiguous_loop needed cluster_size nxt buf' s)))
      else Some (True, None))"

text \<open>
  \<open>None\<close> as the first component: false was returned. The result of clearing the new cluster is
  not checked.
\<close>

definition extend_directory :: "u32 \<Rightarrow> fat32 \<Rightarrow> ((u32 \<times> u32) option \<times> fat32) option" where
  "extend_directory dir_cluster s =
     do { (r, s1) \<leftarrow> fat32_append_cluster dir_cluster s;
          case r of
            None \<Rightarrow> Some (None, s1)
          | Some new_cluster \<Rightarrow>
              do { (_, s2) \<leftarrow> fat32_clear_cluster new_cluster s1;
                   Some (Some (new_cluster, 0), s2) } }"

definition fat32_find_contiguous_free_entries ::
  "u32 \<Rightarrow> u32 \<Rightarrow> fat32 \<Rightarrow> ((u32 \<times> u32) option \<times> fat32) option" where
  "fat32_find_contiguous_free_entries dir_cluster needed s =
     (let cluster_size = unat (get_cluster_size_bytes s)
      in case malloc cluster_size s of
           None \<Rightarrow> Some (None, s)
         | Some buf \<Rightarrow>
             do { (ok, r) \<leftarrow> contiguous_loop needed cluster_size dir_cluster buf s;
                  if \<not> ok then Some (None, s)
                  else case r of Some p \<Rightarrow> Some (Some p, s)
                       | None \<Rightarrow> extend_directory dir_cluster s })"

text \<open>\<open>fat32_find_free_dir_entry\<close> looks for a single slot.\<close>

fun first_free :: "bytes \<Rightarrow> nat list \<Rightarrow> nat option option" where
  "first_free buf [] = Some None"
| "first_free buf (off # offs) =
     (if off < length buf
      then if buf ! off = 0 \<or> buf ! off = 0xE5 then Some (Some off) else first_free buf offs
      else None)"

partial_function (option) free_entry_loop ::
  "nat \<Rightarrow> u32 \<Rightarrow> bytes \<Rightarrow> fat32 \<Rightarrow> (bool \<times> (u32 \<times> u32) option) option" where
  "free_entry_loop cluster_size cur buf s =
     (if is_valid_cluster cur s
      then Option.bind (fat32_read_cluster cur buf 0 s) (\<lambda>(ok, buf').
             if \<not> ok then Some (False, None)
             else Option.bind (first_free buf' (entry_offsets cluster_size)) (\<lambda>r.
               case r of
                 Some off \<Rightarrow> Some (True, Some (cur, of_nat off))
               | None \<Rightarrow> Option.bind (fat32_get_next_cluster cur s) (\<lambda>nxt.
                   if is_end_of_cluster_chain nxt s then Some (True, None)
                   else free_entry_loop cluster_size nxt buf' s)))
      else Some (True, None))"

definition fat32_find_free_dir_entry :: "u32 \<Rightarrow> fat32 \<Rightarrow> ((u32 \<times> u32) option \<times> fat32) option" where
  "fat32_find_free_dir_entry dir_cluster s =
     (let cluster_size = unat (get_cluster_size_bytes s)
      in case malloc cluster_size s of
           None \<Rightarrow> Some (None, s)
         | Some buf \<Rightarrow>
             do { (ok, r) \<leftarrow> free_entry_loop cluster_size dir_cluster buf s;
                  if \<not> ok then Some (None, s)
                  else case r of Some p \<Rightarrow> Some (Some p, s)
                       | None \<Rightarrow> extend_directory dir_cluster s })"

section \<open>Creating entries\<close>

text \<open>The loop that writes the long-name entries: \<open>i\<close> is the index, \<open>n\<close> the iterations left.\<close>

fun write_lfn_entries :: "bytes \<Rightarrow> u8 \<Rightarrow> nat \<Rightarrow> nat \<Rightarrow> nat \<Rightarrow> nat \<Rightarrow> bytes \<Rightarrow> bytes option" where
  "write_lfn_entries name checksum lfn_count entry_offset i 0 buf = Some buf"
| "write_lfn_entries name checksum lfn_count entry_offset i (Suc n) buf =
     do { buf' \<leftarrow> st_bytes buf (entry_offset + i * 32)
                   (lfn_bytes (lfn_entry name checksum lfn_count (lfn_count - i)));
          write_lfn_entries name checksum lfn_count entry_offset (Suc i) n buf' }"

definition fat32_create_dir_entry ::
  "u32 \<Rightarrow> bytes \<Rightarrow> u8 \<Rightarrow> u32 \<Rightarrow> u32 \<Rightarrow> fat32 \<Rightarrow> (bool \<times> fat32) option" where
  "fat32_create_dir_entry parent_cluster name attr first_cluster file_size s =
     (let cluster_size = unat (get_cluster_size_bytes s);
          short_name = fat32_format_83_name name;
          checksum = fat32_lfn_checksum short_name;
          lfn_count = (if fat32_needs_lfn name then (length name + 12) div 13 else 0)
      in do {
        (p, s1) \<leftarrow> fat32_find_contiguous_free_entries parent_cluster (of_nat (lfn_count + 1)) s;
        case p of
          None \<Rightarrow> Some (False, s1)
        | Some (ent_cluster, entry_offset) \<Rightarrow>
            (case malloc cluster_size s1 of
               None \<Rightarrow> Some (False, s1)
             | Some buf \<Rightarrow> do {
                 (ok, buf) \<leftarrow> fat32_read_cluster ent_cluster buf 0 s1;
                 if \<not> ok then Some (False, s1)
                 else do {
                   buf \<leftarrow> write_lfn_entries name checksum lfn_count (unat entry_offset) 0 lfn_count buf;
                   buf \<leftarrow> st_bytes buf (unat entry_offset + lfn_count * 32)
                           (entry_bytes (new_entry short_name attr first_cluster file_size));
                   fat32_write_cluster ent_cluster buf s1 } }) })"

definition dot_name :: bytes where "dot_name = 46 # replicate 10 32"
definition dotdot_name :: bytes where "dotdot_name = 46 # 46 # replicate 9 32"

definition fat32_init_directory :: "u32 \<Rightarrow> u32 \<Rightarrow> fat32 \<Rightarrow> (bool \<times> fat32) option" where
  "fat32_init_directory dir_cluster parent_cluster s =
     (let cluster_size = unat (get_cluster_size_bytes s)
      in case malloc cluster_size s of
           None \<Rightarrow> Some (False, s)
         | Some _ \<Rightarrow> do {
             buf \<leftarrow> st_bytes (replicate cluster_size 0) 0
                     (entry_bytes (new_entry dot_name ATTR_DIRECTORY dir_cluster 0));
             buf \<leftarrow> st_bytes buf 32
                     (entry_bytes (new_entry dotdot_name ATTR_DIRECTORY parent_cluster 0));
             fat32_write_cluster dir_cluster buf s })"

definition fat32_mkdir_internal :: "u32 \<Rightarrow> bytes \<Rightarrow> fat32 \<Rightarrow> (bool \<times> fat32) option" where
  "fat32_mkdir_internal parent_cluster name s =
     do { (r, s1) \<leftarrow> fat32_allocate_cluster s;
          case r of
            None \<Rightarrow> Some (False, s1)
          | Some new_cluster \<Rightarrow>
              do { (_, s2) \<leftarrow> fat32_clear_cluster new_cluster s1;
                   (ok, s3) \<leftarrow> fat32_init_directory new_cluster parent_cluster s2;
                   if \<not> ok then Some (False, s3)
                   else fat32_create_dir_entry parent_cluster name ATTR_DIRECTORY new_cluster 0 s3 } }"

definition fat32_create_file_in_dir ::
  "u32 \<Rightarrow> bytes \<Rightarrow> bytes \<Rightarrow> u32 \<Rightarrow> fat32 \<Rightarrow> (bool \<times> fat32) option" where
  "fat32_create_file_in_dir parent_cluster filename content size_n s =
     do { (ok, first_cluster, s1) \<leftarrow> fat32_write_cluster_chain content size_n 0 s;
          if \<not> ok then Some (False, s1)
          else fat32_create_dir_entry parent_cluster filename ATTR_ARCHIVE first_cluster size_n s1 }"

section \<open>Searching\<close>

text \<open>Storing one character at a signed index of the long-name buffer.\<close>

definition st_char :: "bytes \<Rightarrow> int \<Rightarrow> u8 \<Rightarrow> bytes option" where
  "st_char b pos c = (if 0 \<le> pos \<and> nat pos < length b then Some (b[nat pos := c]) else None)"

fun lfn_store_all :: "u16 list \<Rightarrow> int \<Rightarrow> bytes \<Rightarrow> bytes option" where
  "lfn_store_all [] pos long_name = Some long_name"
| "lfn_store_all (c # cs) pos long_name =
     do { long_name \<leftarrow> st_char long_name pos (ucast c); lfn_store_all cs (pos + 1) long_name }"

fun lfn_store_some :: "u16 list \<Rightarrow> int \<Rightarrow> bytes \<Rightarrow> bytes option" where
  "lfn_store_some [] pos long_name = Some long_name"
| "lfn_store_some (c # cs) pos long_name =
     (if c \<noteq> 0xFFFF \<and> c \<noteq> 0
      then do { long_name \<leftarrow> st_char long_name pos (ucast c); lfn_store_some cs (pos + 1) long_name }
      else lfn_store_some cs pos long_name)"

definition lfn_pos :: "bytes \<Rightarrow> int" where
  "lfn_pos e = (uint (rd8 e 0 AND 0x1F) - 1) * 13"

text \<open>\<open>strcmp(long_name, name) == 0\<close>; running over the end of the buffer has no result.\<close>

definition strcmp_eq :: "bytes \<Rightarrow> bytes \<Rightarrow> bool option" where
  "strcmp_eq long_name name =
     (if length long_name \<le> length name \<and> take (length long_name) name = long_name then None
      else Some (take (Suc (length name)) long_name = name @ [0]))"

abbreviation no_long_name :: bytes where "no_long_name \<equiv> replicate LONG_FILENAME_SIZE 0"

fun find_file_scan ::
  "bytes \<Rightarrow> bytes \<Rightarrow> bytes \<Rightarrow> nat list \<Rightarrow> bytes \<Rightarrow> (nat option \<times> bytes) option" where
  "find_file_scan name short_name buf [] long_name = Some (None, long_name)"
| "find_file_scan name short_name buf (off # offs) long_name =
     do { e \<leftarrow> ld_entry buf off;
          if rd8 e 0 = 0 then Some (None, long_name)
          else if rd8 e 0 = 0xE5 then find_file_scan name short_name buf offs long_name
          else if rd8 e 11 = ATTR_LONG_NAME
          then do { long_name \<leftarrow> lfn_store_all (lfn_chars e) (lfn_pos e) long_name;
                    find_file_scan name short_name buf offs long_name }
          else do { eq \<leftarrow> strcmp_eq long_name name;
                    if eq \<or> bslice 0 11 e = short_name then Some (Some off, long_name)
                    else find_file_scan name short_name buf offs no_long_name } }"

partial_function (option) find_file_loop ::
  "bytes \<Rightarrow> bytes \<Rightarrow> nat \<Rightarrow> u32 \<Rightarrow> bytes \<Rightarrow> bytes \<Rightarrow> fat32 \<Rightarrow> (DirEntry \<times> u32 \<times> u32) option option" where
  "find_file_loop name short_name cluster_size cur buf long_name s =
     (if is_valid_cluster cur s
      then Option.bind (fat32_read_cluster cur buf 0 s) (\<lambda>(_, buf').
             Option.bind (find_file_scan name short_name buf' (entry_offsets cluster_size) long_name)
               (\<lambda>(r, long_name').
               case r of
                 Some off \<Rightarrow> Some (Some (entry_of_bytes (bslice off 32 buf'), cur, of_nat off))
               | None \<Rightarrow> Option.bind (fat32_get_next_cluster cur s) (\<lambda>nxt.
                   if is_end_of_cluster_chain nxt s then Some None
                   else find_file_loop name short_name cluster_size nxt buf' long_name' s)))
      else Some None)"

definition fat32_find_file :: "u32 \<Rightarrow> bytes \<Rightarrow> fat32 \<Rightarrow> (DirEntry \<times> u32 \<times> u32) option option" where
  "fat32_find_file dir_cluster name s =
     (let cluster_size = unat (get_cluster_size_bytes s)
      in case malloc cluster_size s of
           None \<Rightarrow> Some None
         | Some buf \<Rightarrow> find_file_loop name (fat32_format_83_name name) cluster_size dir_cluster buf
                        no_long_name s)"

text \<open>
  \<open>fat32_dir_exists\<close>. A scan of one cluster returns \<open>Some r\<close> when the function returns \<open>r\<close>.
\<close>

fun dir_exists_scan ::
  "bytes \<Rightarrow> bytes \<Rightarrow> bytes \<Rightarrow> nat list \<Rightarrow> bytes \<Rightarrow> (bool option \<times> bytes) option" where
  "dir_exists_scan name short_name buf [] long_name = Some (None, long_name)"
| "dir_exists_scan name short_name buf (off # offs) long_name =
     do { e \<leftarrow> ld_entry buf off;
          if rd8 e 0 = 0 then Some (Some False, long_name)
          else if rd8 e 0 = 0xE5 then dir_exists_scan name short_name buf offs no_long_name
          else if rd8 e 11 = ATTR_LONG_NAME
          then do { long_name \<leftarrow> lfn_store_some (take 5 (lfn_chars e)) (lfn_pos e) long_name;
                    let n1 = length (filter (\<lambda>c. c \<noteq> 0xFFFF \<and> c \<noteq> 0) (take 5 (lfn_chars e)));
                    long_name \<leftarrow> lfn_store_some (drop 5 (lfn_chars e)) (lfn_pos e + int n1) long_name;
                    dir_exists_scan name short_name buf offs long_name }
          else if rd8 e 11 AND ATTR_DIRECTORY \<noteq> 0
          then do { eq \<leftarrow> (if rd8 long_name 0 \<noteq> 0 then strcmp_eq long_name name else Some False);
                    if eq \<or> bslice 0 11 e = short_name then Some (Some True, long_name)
                    else dir_exists_scan name short_name buf offs no_long_name }
          else dir_exists_scan name short_name buf offs no_long_name }"

partial_function (option) dir_exists_loop ::
  "bytes \<Rightarrow> bytes \<Rightarrow> nat \<Rightarrow> u32 \<Rightarrow> bytes \<Rightarrow> bytes \<Rightarrow> fat32 \<Rightarrow> bool option" where
  "dir_exists_loop name short_name cluster_size cur buf long_name s =
     (if is_valid_cluster cur s
      then Option.bind (fat32_read_cluster cur buf 0 s) (\<lambda>(ok, buf').
             if \<not> ok then Some False
             else Option.bind (dir_exists_scan name short_name buf' (entry_offsets cluster_size) long_name)
               (\<lambda>(r, long_name').
               case r of
                 Some v \<Rightarrow> Some v
               | None \<Rightarrow> Option.bind (fat32_get_next_cluster cur s) (\<lambda>nxt.
                   if is_end_of_cluster_chain nxt s then Some False
                   else dir_exists_loop name short_name cluster_size nxt buf' long_name' s)))
      else Some False)"

definition fat32_dir_exists :: "u32 \<Rightarrow> bytes \<Rightarrow> fat32 \<Rightarrow> bool option" where
  "fat32_dir_exists dir_cluster name s =
     (let cluster_size = unat (get_cluster_size_bytes s)
      in case malloc cluster_size s of
           None \<Rightarrow> Some False
         | Some buf \<Rightarrow> dir_exists_loop name (fat32_format_83_name name) cluster_size dir_cluster buf
                        no_long_name s)"

text \<open>\<open>fat32_find_dir\<close>; a scan of one cluster returns \<open>Some r\<close> when the function returns.\<close>

fun find_dir_scan :: "bytes \<Rightarrow> bytes \<Rightarrow> nat list \<Rightarrow> u32 option option option" where
  "find_dir_scan name83 buf [] = Some None"
| "find_dir_scan name83 buf (off # offs) =
     do { e \<leftarrow> ld_entry buf off;
          if rd8 e 0 = 0 then Some (Some None)
          else if rd8 e 0 = 0xE5 then find_dir_scan name83 buf offs
          else if rd8 e 11 AND ATTR_DIRECTORY \<noteq> 0 \<and> bslice 0 11 e = name83
          then Some (Some (Some (entry_cluster (entry_of_bytes e))))
          else find_dir_scan name83 buf offs }"

partial_function (option) find_dir_loop ::
  "bytes \<Rightarrow> nat \<Rightarrow> u32 \<Rightarrow> bytes \<Rightarrow> fat32 \<Rightarrow> u32 option option" where
  "find_dir_loop name83 cluster_size cur buf s =
     (if is_valid_cluster cur s
      then Option.bind (fat32_read_cluster cur buf 0 s) (\<lambda>(ok, buf').
             if \<not> ok then Some None
             else Option.bind (find_dir_scan name83 buf' (map (\<lambda>i. 32 * i) [0..<cluster_size div 32])) (\<lambda>r.
               case r of
                 Some v \<Rightarrow> Some v
               | None \<Rightarrow> Option.bind (fat32_get_next_cluster cur s) (\<lambda>nxt.
                   if is_end_of_cluster_chain nxt s then Some None
                   else find_dir_loop name83 cluster_size nxt buf' s)))
      else Some None)"

definition fat32_find_dir :: "u32 \<Rightarrow> bytes \<Rightarrow> fat32 \<Rightarrow> u32 option option" where
  "fat32_find_dir dir_cluster name s =
     do { total \<leftarrow> get_total_clusters s;
          if dir_cluster < get_root_dir_cluster s \<or> dir_cluster > total + 2 then Some None
          else let cluster_size = unat (get_bytes_per_sector s) * unat (get_sectors_per_cluster s)
               in case malloc cluster_size s of
                    None \<Rightarrow> Some None
                  | Some buf \<Rightarrow> find_dir_loop (fat32_format_83_name name) cluster_size dir_cluster buf s }"

section \<open>Paths\<close>

text \<open>The tokens of successive \<open>strtok(\<dots>, "/")\<close> calls.\<close>

function path_tokens :: "bytes \<Rightarrow> bytes list" where
  "path_tokens p =
     (case dropWhile (\<lambda>c. c = 47) p of
        [] \<Rightarrow> []
      | c # cs \<Rightarrow> (c # takeWhile (\<lambda>c. c \<noteq> 47) cs) # path_tokens (dropWhile (\<lambda>c. c \<noteq> 47) cs))"
  by pat_completeness auto
termination
proof (relation "measure length", simp)
  fix p c and cs :: bytes
  assume "dropWhile (\<lambda>c. c = 47) p = c # cs"
  then have "Suc (length cs) \<le> length p" using length_dropWhile_le [of "\<lambda>c. c = 47" p] by simp
  then have "length (dropWhile (\<lambda>c. c \<noteq> 47) cs) < length p"
    using length_dropWhile_le [of "\<lambda>c. c \<noteq> 47" cs] by linarith
  then show "(dropWhile (\<lambda>c. c \<noteq> 47) cs, p) \<in> measure length" by simp
qed

declare path_tokens.simps [simp del]

text \<open>
  The loop of \<open>fat32_path_to_cluster\<close>. Its branch for \<open>".."\<close> and its last branch do the same: look
  the token up and go on from the cluster found.
\<close>

fun walk_path :: "bytes list \<Rightarrow> u32 \<Rightarrow> fat32 \<Rightarrow> u32 option option" where
  "walk_path [] cluster s = Some (Some cluster)"
| "walk_path (token # tokens) cluster s =
     (if token = [46] then walk_path tokens cluster s
      else do { r \<leftarrow> fat32_find_dir cluster token s;
                case r of None \<Rightarrow> Some None | Some next_cluster \<Rightarrow> walk_path tokens next_cluster s })"

definition fat32_path_to_cluster :: "bytes \<Rightarrow> fat32 \<Rightarrow> u32 option option" where
  "fat32_path_to_cluster path s =
     (if bpb s = None then Some None
      else case malloc (length path + 1) s of
        None \<Rightarrow> Some None
      | Some _ \<Rightarrow>
          let cluster = (if path \<noteq> [] \<and> hd path = 47 then get_root_dir_cluster s else fat32_cwd_cluster s)
          in walk_path (path_tokens path) cluster s)"

definition last_slash :: "bytes \<Rightarrow> nat option" where
  "last_slash p = (let is = filter (\<lambda>i. p ! i = 47) [0..<length p] in if is = [] then None else Some (last is))"

definition fat32_split_path :: "bytes \<Rightarrow> fat32 \<Rightarrow> (u32 \<times> bytes) option option" where
  "fat32_split_path path s =
     (if length path \<ge> 256 then None
      else case last_slash path of
        None \<Rightarrow> Some (Some (fat32_cwd_cluster s, path))
      | Some i \<Rightarrow>
          if i = 0 then Some (Some (get_root_dir_cluster s, drop 1 path))
          else map_option (map_option (\<lambda>parent. (parent, drop (Suc i) path)))
                 (fat32_path_to_cluster (take i path) s))"

definition fat32_mkdir_root :: "bytes \<Rightarrow> fat32 \<Rightarrow> (bool \<times> fat32) option" where
  "fat32_mkdir_root name s =
     (let root = get_root_dir_cluster s
      in do { e \<leftarrow> fat32_dir_exists root name s;
              if e then Some (False, s) else fat32_mkdir_internal root name s })"

end
