(* ===== verification/FatFile.thy ===== *)
theory FatFile
  imports FatDir
begin

text \<open>
  The file functions (kernel/src/fs/fat32_fs/src/file_manager.c): \<open>f_open\<close>, \<open>f_close\<close>, \<open>f_read\<close>,
  \<open>f_write\<close>, \<open>f_lseek\<close>, \<open>f_truncate\<close>, \<open>f_sync\<close>, \<open>f_forward\<close>, \<open>f_expand\<close>, \<open>f_gets\<close>,
  \<open>f_putc\<close>, \<open>f_puts\<close>, \<open>f_printf\<close>, \<open>f_tell\<close>, \<open>f_size\<close>, \<open>f_eof\<close>, \<open>f_stat\<close>, \<open>f_unlink\<close>
  and \<open>f_error\<close>.

  Pointer arguments are not NULL (each function returns at once when one is). Out-parameters
  are results. The callback of \<open>f_forward\<close> and \<open>vsnprintf\<close> are parameters.

  The abstract view of an open file is its byte list: \<open>file_on\<close> relates a \<open>FAT32_FILE\<close> to the
  chain that holds it, \<open>file_bytes\<close> is its contents.
\<close>

section \<open>Open files\<close>

record FAT32_FILE =
  first_cluster :: u32
  current_cluster :: u32
  fsize :: u32
  pos :: u32
  parent_cluster :: u32
  dir_entry_cluster :: u32
  dir_entry_offset :: u32
  fname :: bytes
  fmode :: u8
  ferror :: int

record FAT32_STAT =
  st_name :: bytes
  st_attr :: u8
  st_size :: u32
  st_first_cluster :: u32

text \<open>The code that \<open>f_open\<close>, \<open>f_stat\<close> and \<open>f_unlink\<close> share: parent directory and file name.\<close>

definition resolve_parent :: "bytes \<Rightarrow> fat32 \<Rightarrow> (u32 \<times> bytes) option option" where
  "resolve_parent path s = (case last_slash path of
       None \<Rightarrow> Some (Some (fat32_cwd_cluster s, path))
     | Some i \<Rightarrow>
         if i = 0 then Some (Some (get_root_dir_cluster s, drop 1 path))
         else map_option (map_option (\<lambda>parent. (parent, drop (Suc i) path)))
                (fat32_path_to_cluster (take i path) s))"

definition fill_file :: "FAT32_FILE \<Rightarrow> u32 \<Rightarrow> bytes \<Rightarrow> u32 \<Rightarrow> DirEntry \<times> u32 \<times> u32 \<Rightarrow> FAT32_FILE" where
  "fill_file fp parent filename mode found = (case found of (entry, ent_cluster, ent_offset) \<Rightarrow>
     fp\<lparr>first_cluster := entry_cluster entry, current_cluster := entry_cluster entry,
        fsize := DIR_FileSize entry, pos := 0, parent_cluster := parent,
        dir_entry_cluster := ent_cluster, dir_entry_offset := ent_offset,
        fname := take 255 filename, fmode := ucast mode\<rparr>)"

text \<open>The result of the first \<open>malloc\<close> in \<open>f_open\<close> is used without a check.\<close>

definition f_open :: "FAT32_FILE \<Rightarrow> bytes \<Rightarrow> u32 \<Rightarrow> fat32 \<Rightarrow> (bool \<times> FAT32_FILE \<times> fat32) option" where
  "f_open fp path mode s =
     (if malloc (length path + 1) s = None then None
      else do {
        r \<leftarrow> resolve_parent path s;
        case r of
          None \<Rightarrow> Some (False, fp, s)
        | Some (parent, filename) \<Rightarrow> do {
            found \<leftarrow> fat32_find_file parent filename s;
            case found of
              Some f \<Rightarrow> Some (True, fill_file fp parent filename mode f, s)
            | None \<Rightarrow>
                if mode AND 0x0C = 0 then Some (False, fp, s)
                else do {
                  (ok, s1) \<leftarrow> fat32_create_dir_entry parent filename 0x20 0 0 s;
                  if \<not> ok then Some (False, fp, s1)
                  else do {
                    found \<leftarrow> fat32_find_file parent filename s1;
                    case found of
                      Some f \<Rightarrow> Some (True, fill_file fp parent filename mode f, s1)
                    | None \<Rightarrow> Some (False, fp, s1) } } } })"

text \<open>The update of the directory entry that \<open>f_close\<close> and \<open>f_sync\<close> make in the cluster buffer.\<close>

definition update_entry :: "FAT32_FILE \<Rightarrow> bytes \<Rightarrow> bytes option" where
  "update_entry fp buf =
     (let off = unat (dir_entry_offset fp)
      in do { buf \<leftarrow> st_bytes buf (off + 28) (le32 (fsize fp));
              buf \<leftarrow> st_bytes buf (off + 20) (le16 (ucast (drop_bit 16 (first_cluster fp))));
              st_bytes buf (off + 26) (le16 (ucast (first_cluster fp))) })"

definition f_sync :: "FAT32_FILE \<Rightarrow> fat32 \<Rightarrow> (bool \<times> fat32) option" where
  "f_sync fp s =
     (case malloc (unat (get_cluster_size_bytes s)) s of
        None \<Rightarrow> Some (False, s)
      | Some buf \<Rightarrow> do {
          (ok, buf) \<leftarrow> fat32_read_cluster (dir_entry_cluster fp) buf 0 s;
          if \<not> ok then Some (False, s)
          else do { buf \<leftarrow> update_entry fp buf; fat32_write_cluster (dir_entry_cluster fp) buf s } })"

definition f_close :: "FAT32_FILE \<Rightarrow> fat32 \<Rightarrow> (bool \<times> FAT32_FILE \<times> fat32) option" where
  "f_close fp s =
     (case malloc (unat (get_cluster_size_bytes s)) s of
        None \<Rightarrow> Some (False, fp, s)
      | Some buf \<Rightarrow> do {
          (ok, buf) \<leftarrow> fat32_read_cluster (dir_entry_cluster fp) buf 0 s;
          if \<not> ok then Some (False, fp, s)
          else do {
            buf \<leftarrow> update_entry fp buf;
            (ok, s1) \<leftarrow> fat32_write_cluster (dir_entry_cluster fp) buf s;
            if \<not> ok then Some (False, fp, s1)
            else Some (True, fp\<lparr>first_cluster := 0, current_cluster := 0, fsize := 0, pos := 0,
                   parent_cluster := 0, dir_entry_cluster := 0, dir_entry_offset := 0,
                   fname := [], fmode := 0\<rparr>, s1) } })"

section \<open>Reading\<close>

text \<open>The loop that moves from the first cluster to the one holding an offset.\<close>

partial_function (option) seek_loop :: "u32 \<Rightarrow> u32 \<Rightarrow> u32 \<Rightarrow> fat32 \<Rightarrow> (u32 \<times> u32) option" where
  "seek_loop cluster_size cur offset s =
     (if offset \<ge> cluster_size \<and> cur \<noteq> 0
      then Option.bind (fat32_get_next_cluster cur s) (\<lambda>nxt.
             seek_loop cluster_size nxt (offset - cluster_size) s)
      else Some (cur, offset))"

definition copy_from :: "bytes \<Rightarrow> nat \<Rightarrow> nat \<Rightarrow> bytes option" where
  "copy_from buf off n = (if off + n \<le> length buf then Some (bslice off n buf) else None)"

partial_function (option) read_loop ::
  "u32 \<Rightarrow> u32 \<Rightarrow> u32 \<Rightarrow> u32 \<Rightarrow> u32 \<Rightarrow> bytes \<Rightarrow> bytes \<Rightarrow> fat32 \<Rightarrow> (bool \<times> bytes \<times> u32) option" where
  "read_loop cluster_size btr cur offset br cluster_buf buff s =
     (if br < btr \<and> cur \<noteq> 0
      then Option.bind (fat32_read_cluster cur cluster_buf 0 s) (\<lambda>(ok, cluster_buf').
             if \<not> ok then Some (False, buff, br)
             else let copy_size = (if cluster_size - offset > btr - br then btr - br else cluster_size - offset)
                  in Option.bind (copy_from cluster_buf' (unat offset) (unat copy_size)) (\<lambda>d.
                     Option.bind (st_bytes buff (unat br) d) (\<lambda>buff'.
                     Option.bind (fat32_get_next_cluster cur s) (\<lambda>nxt.
                       read_loop cluster_size btr nxt 0 (br + copy_size) cluster_buf' buff' s))))
      else Some (True, buff, br))"

definition f_read :: "FAT32_FILE \<Rightarrow> bytes \<Rightarrow> u32 \<Rightarrow> fat32 \<Rightarrow> (bool \<times> bytes \<times> u32 \<times> FAT32_FILE) option" where
  "f_read fp buff btr s =
     (if pos fp \<ge> fsize fp then Some (True, buff, 0, fp)
      else let cluster_size = get_cluster_size_bytes s
           in case malloc (unat cluster_size) s of
                None \<Rightarrow> Some (False, buff, 0, fp)
              | Some cluster_buf \<Rightarrow>
                  let remaining = fsize fp - pos fp;
                      btr = (if btr > remaining then remaining else btr)
                  in do { (cur, offset) \<leftarrow> seek_loop cluster_size (first_cluster fp) (pos fp) s;
                          (ok, buff, br) \<leftarrow> read_loop cluster_size btr cur offset 0 cluster_buf buff s;
                          Some (ok, buff, br, if ok then fp\<lparr>pos := pos fp + br\<rparr> else fp) })"

section \<open>Writing\<close>

text \<open>The next cluster of a chain, appending one at its end; \<open>None\<close> when that fails.\<close>

definition next_or_append :: "u32 \<Rightarrow> fat32 \<Rightarrow> (u32 option \<times> fat32) option" where
  "next_or_append cur s =
     do { nxt \<leftarrow> fat32_get_next_cluster cur s;
          if nxt \<ge> 0x0FFFFFF8 then fat32_append_cluster cur s else Some (Some nxt, s) }"

partial_function (option) write_seek_loop ::
  "u32 \<Rightarrow> u32 \<Rightarrow> u32 \<Rightarrow> fat32 \<Rightarrow> ((u32 \<times> u32) option \<times> fat32) option" where
  "write_seek_loop cluster_size cur offset s =
     (if offset \<ge> cluster_size \<and> cur \<noteq> 0
      then Option.bind (next_or_append cur s) (\<lambda>(r, s').
             case r of
               None \<Rightarrow> Some (None, s')
             | Some nxt \<Rightarrow> write_seek_loop cluster_size nxt (offset - cluster_size) s')
      else Some (Some (cur, offset), s))"

partial_function (option) write_loop ::
  "u32 \<Rightarrow> bytes \<Rightarrow> u32 \<Rightarrow> u32 \<Rightarrow> u32 \<Rightarrow> u32 \<Rightarrow> bytes \<Rightarrow> fat32 \<Rightarrow> (u32 option \<times> u32 \<times> fat32) option" where
  "write_loop cluster_size buff btw cur offset bw cluster_buf s =
     (if bw < btw
      then Option.bind (fat32_read_cluster cur cluster_buf 0 s) (\<lambda>(ok, cluster_buf').
             if \<not> ok then Some (None, bw, s)
             else let write_bytes = (if cluster_size - offset > btw - bw then btw - bw else cluster_size - offset)
                  in Option.bind (copy_from buff (unat bw) (unat write_bytes)) (\<lambda>d.
                     Option.bind (st_bytes cluster_buf' (unat offset) d) (\<lambda>cluster_buf2.
                     Option.bind (fat32_write_cluster cur cluster_buf2 s) (\<lambda>(ok, s1).
                       if \<not> ok then Some (None, bw, s1)
                       else if bw + write_bytes \<ge> btw then Some (Some cur, bw + write_bytes, s1)
                       else Option.bind (next_or_append cur s1) (\<lambda>(r, s2).
                         case r of
                           None \<Rightarrow> Some (None, bw + write_bytes, s2)
                         | Some nxt \<Rightarrow> write_loop cluster_size buff btw nxt 0 (bw + write_bytes) cluster_buf2 s2)))))
      else Some (Some cur, bw, s))"

definition f_write :: "FAT32_FILE \<Rightarrow> bytes \<Rightarrow> u32 \<Rightarrow> fat32 \<Rightarrow> (bool \<times> u32 \<times> FAT32_FILE \<times> fat32) option" where
  "f_write fp buff btw s =
     (let cluster_size = get_cluster_size_bytes s
      in case malloc (unat cluster_size) s of
           None \<Rightarrow> Some (False, 0, fp, s)
         | Some cluster_buf \<Rightarrow> do {
             (start, s1) \<leftarrow> (if first_cluster fp = 0 then fat32_allocate_cluster s
                             else Some (Some (first_cluster fp), s));
             case start of
               None \<Rightarrow> Some (False, 0, fp, s1)
             | Some c0 \<Rightarrow>
                 let fp1 = (if first_cluster fp = 0 then fp\<lparr>first_cluster := c0, current_cluster := c0\<rparr> else fp)
                 in do {
                   (r, s2) \<leftarrow> write_seek_loop cluster_size c0 (pos fp) s1;
                   case r of
                     None \<Rightarrow> Some (False, 0, fp1, s2)
                   | Some (cur, offset) \<Rightarrow> do {
                       (fin, bw, s3) \<leftarrow> write_loop cluster_size buff btw cur offset 0 cluster_buf s2;
                       case fin of
                         None \<Rightarrow> Some (False, bw, fp1, s3)
                       | Some cur' \<Rightarrow>
                           let p = pos fp1 + bw
                           in Some (True, bw, fp1\<lparr>pos := p, fsize := (if p > fsize fp1 then p else fsize fp1),
                                current_cluster := cur'\<rparr>, s3) } } })"

section \<open>Position, size and length changes\<close>

definition f_lseek :: "FAT32_FILE \<Rightarrow> u32 \<Rightarrow> fat32 \<Rightarrow> (bool \<times> FAT32_FILE) option" where
  "f_lseek fp ofs s =
     (let cluster_size = get_cluster_size_bytes s;
          ofs = (if ofs > fsize fp then fsize fp else ofs)
      in do { (cluster, _) \<leftarrow> seek_loop cluster_size (first_cluster fp) ofs s;
              Some (True, fp\<lparr>pos := ofs, current_cluster := cluster\<rparr>) })"

definition f_truncate :: "FAT32_FILE \<Rightarrow> fat32 \<Rightarrow> (bool \<times> FAT32_FILE \<times> fat32) option" where
  "f_truncate fp s =
     (if pos fp = 0
      then do { (_, s1) \<leftarrow> (if first_cluster fp \<noteq> 0 then fat32_free_cluster_chain (first_cluster fp) s
                            else Some (True, s));
                Some (True, fp\<lparr>first_cluster := 0, current_cluster := 0, fsize := 0\<rparr>, s1) }
      else do {
        (cluster, _) \<leftarrow> seek_loop (get_cluster_size_bytes s) (first_cluster fp) (pos fp) s;
        if cluster = 0 then Some (False, fp, s)
        else do {
          nxt \<leftarrow> fat32_get_next_cluster cluster s;
          (_, s1) \<leftarrow> fat32_set_next_cluster cluster 0x0FFFFFFF s;
          (_, s2) \<leftarrow> (if nxt \<noteq> 0 then fat32_free_cluster_chain nxt s1 else Some (True, s1));
          Some (True, fp\<lparr>fsize := pos fp, current_cluster := cluster\<rparr>, s2) } })"

text \<open>\<open>func\<close> is the callback: given the data, the number of bytes it has taken.\<close>

partial_function (option) forward_loop ::
  "(bytes \<Rightarrow> u32) \<Rightarrow> u32 \<Rightarrow> u32 \<Rightarrow> u32 \<Rightarrow> u32 \<Rightarrow> u32 \<Rightarrow> bytes \<Rightarrow> fat32 \<Rightarrow> (bool \<times> u32) option" where
  "forward_loop func cluster_size btf cluster offset bf cluster_buf s =
     (if bf < btf \<and> cluster \<noteq> 0
      then Option.bind (fat32_read_cluster cluster cluster_buf 0 s) (\<lambda>(ok, cluster_buf').
             if \<not> ok then Some (False, bf)
             else let forward_size = (if cluster_size - offset > btf - bf then btf - bf else cluster_size - offset)
                  in Option.bind (copy_from cluster_buf' (unat offset) (unat forward_size)) (\<lambda>d.
                     let sent = func d
                     in if sent < forward_size then Some (True, bf + sent)
                        else Option.bind (fat32_get_next_cluster cluster s) (\<lambda>nxt.
                          forward_loop func cluster_size btf nxt 0 (bf + sent) cluster_buf' s)))
      else Some (True, bf))"

definition f_forward :: "FAT32_FILE \<Rightarrow> (bytes \<Rightarrow> u32) \<Rightarrow> u32 \<Rightarrow> fat32 \<Rightarrow> (bool \<times> u32 \<times> FAT32_FILE) option" where
  "f_forward fp func btf s =
     (if pos fp \<ge> fsize fp then Some (True, 0, fp)
      else let cluster_size = get_cluster_size_bytes s
           in case malloc (unat cluster_size) s of
                None \<Rightarrow> Some (False, 0, fp)
              | Some cluster_buf \<Rightarrow>
                  let remaining = fsize fp - pos fp;
                      btf = (if btf > remaining then remaining else btf)
                  in do { (cluster, offset) \<leftarrow> seek_loop cluster_size (first_cluster fp) (pos fp) s;
                          (ok, bf) \<leftarrow> forward_loop func cluster_size btf cluster offset 0 cluster_buf s;
                          Some (ok, bf, if ok then fp\<lparr>pos := pos fp + bf\<rparr> else fp) })"

text \<open>The walk at the end of \<open>f_expand\<close> goes on while the next entry is not zero.\<close>

partial_function (option) expand_last_loop :: "u32 \<Rightarrow> fat32 \<Rightarrow> u32 option" where
  "expand_last_loop lst s =
     Option.bind (fat32_get_next_cluster lst s) (\<lambda>nxt.
       if nxt \<noteq> 0 then expand_last_loop nxt s else Some lst)"

definition f_expand :: "FAT32_FILE \<Rightarrow> u32 \<Rightarrow> fat32 \<Rightarrow> (bool \<times> FAT32_FILE \<times> fat32) option" where
  "f_expand fp size_n s =
     (let cluster_size = get_cluster_size_bytes s
      in if cluster_size = 0 then None
         else let needed = (size_n + cluster_size - 1) div cluster_size
         in do {
           current \<leftarrow> (if first_cluster fp \<noteq> 0 then fat32_count_cluster_chain (first_cluster fp) s else Some 0);
           if current \<ge> needed then Some (True, fp, s)
           else do {
             (ok, first_new, s1) \<leftarrow> fat32_allocate_cluster_chain (needed - current) s;
             if \<not> ok then Some (False, fp, s1)
             else if first_cluster fp = 0
             then Some (True, fp\<lparr>first_cluster := first_new, current_cluster := first_new\<rparr>, s1)
             else do {
               lst \<leftarrow> expand_last_loop (first_cluster fp) s1;
               (_, s2) \<leftarrow> fat32_set_next_cluster lst first_new s1;
               Some (True, fp, s2) } } })"

section \<open>Characters and strings\<close>

text \<open>
  The loop of \<open>f_gets\<close> with room for \<open>n\<close> more characters, \<open>i\<close> of them read so far; the result is the
  characters read, or \<open>None\<close> for NULL.
\<close>

fun gets_loop :: "nat \<Rightarrow> nat \<Rightarrow> FAT32_FILE \<Rightarrow> fat32 \<Rightarrow> (bytes option \<times> FAT32_FILE) option" where
  "gets_loop 0 i fp s = Some (Some [], fp)"
| "gets_loop (Suc n) i fp s =
     do { (ok, c, br, fp1) \<leftarrow> f_read fp [0] 1 s;
          if \<not> ok \<or> br = 0 then Some (if i = 0 then None else Some [], fp1)
          else if hd c = 10 then Some (Some [hd c], fp1)
          else do { (rest, fp2) \<leftarrow> gets_loop n (Suc i) fp1 s;
                    Some (map_option (\<lambda>r. hd c # r) rest, fp2) } }"

definition f_gets :: "int \<Rightarrow> FAT32_FILE \<Rightarrow> fat32 \<Rightarrow> (bytes option \<times> FAT32_FILE) option" where
  "f_gets len fp s = (if len \<le> 0 then Some (None, fp) else gets_loop (nat (len - 1)) 0 fp s)"

definition f_putc :: "u8 \<Rightarrow> FAT32_FILE \<Rightarrow> fat32 \<Rightarrow> (int \<times> FAT32_FILE \<times> fat32) option" where
  "f_putc c fp s =
     do { (ok, bw, fp1, s1) \<leftarrow> f_write fp [c] 1 s;
          Some (if \<not> ok \<or> bw \<noteq> 1 then -1 else uint c, fp1, s1) }"

definition f_puts :: "bytes \<Rightarrow> FAT32_FILE \<Rightarrow> fat32 \<Rightarrow> (int \<times> FAT32_FILE \<times> fat32) option" where
  "f_puts str fp s =
     (let len = of_nat (length str)
      in do { (ok, bw, fp1, s1) \<leftarrow> f_write fp str len s;
              Some (if \<not> ok \<or> bw \<noteq> len then -1 else uint bw, fp1, s1) })"

text \<open>
  \<open>f_printf\<close> for what \<open>vsnprintf\<close> did with the 1024-byte buffer: its result (negative on error, the
  length of the full text otherwise) and the buffer.
\<close>

definition f_printf :: "int \<times> bytes \<Rightarrow> FAT32_FILE \<Rightarrow> fat32 \<Rightarrow> (int \<times> FAT32_FILE \<times> fat32) option" where
  "f_printf fmt fp s = (case fmt of (len, buffer) \<Rightarrow>
     if len < 0 then Some (-1, fp, s)
     else do { (ok, bw, fp1, s1) \<leftarrow> f_write fp buffer (of_int len) s;
               Some (if \<not> ok \<or> bw \<noteq> of_int len then -1 else len, fp1, s1) })"

definition f_tell :: "FAT32_FILE \<Rightarrow> u32" where "f_tell fp = pos fp"
definition f_size :: "FAT32_FILE \<Rightarrow> u32" where "f_size fp = fsize fp"
definition f_eof :: "FAT32_FILE \<Rightarrow> bool" where "f_eof fp \<longleftrightarrow> pos fp \<ge> fsize fp"
definition f_error :: "FAT32_FILE \<Rightarrow> int" where "f_error fp = ferror fp"

section \<open>Status and removal\<close>

text \<open>
  \<open>f_stat\<close> and \<open>f_unlink\<close> copy the path into a 256-byte array and, when the directory is not found, pass
  that array to \<open>free\<close>: neither a longer path nor that call has a result.
\<close>

definition f_stat :: "bytes \<Rightarrow> fat32 \<Rightarrow> FAT32_STAT option option" where
  "f_stat path s =
     (if length path \<ge> 256 then None
      else do {
        r \<leftarrow> resolve_parent path s;
        (parent, filename) \<leftarrow> r;
        found \<leftarrow> fat32_find_file parent filename s;
        Some (map_option (\<lambda>(entry, _, _). \<lparr>st_name = filename, st_attr = DIR_Attr entry,
            st_size = DIR_FileSize entry, st_first_cluster = entry_cluster entry\<rparr>) found) })"

definition f_unlink :: "bytes \<Rightarrow> fat32 \<Rightarrow> (bool \<times> fat32) option" where
  "f_unlink path s =
     (if length path \<ge> 256 then None
      else do {
        r \<leftarrow> resolve_parent path s;
        (parent, filename) \<leftarrow> r;
        found \<leftarrow> fat32_find_file parent filename s;
        case found of
          None \<Rightarrow> Some (False, s)
        | Some (entry, ent_cluster, ent_offset) \<Rightarrow>
            let first = entry_cluster entry
            in do {
              (_, s1) \<leftarrow> (if first \<noteq> 0 then fat32_free_cluster_chain first s else Some (True, s));
              case malloc (unat (get_cluster_size_bytes s1)) s1 of
                None \<Rightarrow> Some (False, s1)
              | Some buf \<Rightarrow> do {
                  (ok, buf) \<leftarrow> fat32_read_cluster ent_cluster buf 0 s1;
                  if \<not> ok then Some (False, s1)
                  else do { buf \<leftarrow> st_bytes buf (unat ent_offset) [0xE5];
                            fat32_write_cluster ent_cluster buf s1 } } } })"

section \<open>Contents of a chain\<close>

definition chain_data :: "BPB \<Rightarrow> fat32 \<Rightarrow> u32 list \<Rightarrow> bytes" where
  "chain_data b s cs = concat (map (cluster_data b s) cs)"

definition file_on :: "BPB \<Rightarrow> fat32 \<Rightarrow> FAT32_FILE \<Rightarrow> u32 list \<Rightarrow> bool" where
  "file_on b s fp cs \<longleftrightarrow> vol_ok b s
     \<and> (if cs = [] then first_cluster fp = 0 else chain b s cs \<and> first_cluster fp = hd cs)
     \<and> unat (fsize fp) \<le> length cs * (512 * spc b) \<and> unat (pos fp) \<le> unat (fsize fp)"

definition file_bytes :: "BPB \<Rightarrow> fat32 \<Rightarrow> FAT32_FILE \<Rightarrow> u32 list \<Rightarrow> bytes" where
  "file_bytes b s fp cs = take (unat (fsize fp)) (chain_data b s cs)"

lemma length_chain_data: "vol_ok b s \<Longrightarrow> length (chain_data b s cs) = length cs * (512 * spc b)"
  unfolding chain_data_def by (rule length_concat_clusters)

lemma length_file_bytes: "file_on b s fp cs \<Longrightarrow> length (file_bytes b s fp cs) = unat (fsize fp)"
  by (simp add: file_on_def file_bytes_def length_chain_data)

lemma chain_nth:
  "chain b s cs \<Longrightarrow> Suc i < length cs \<Longrightarrow> fat_entry b s (cs ! i) = cs ! Suc i"
proof (induction cs arbitrary: i)
  case (Cons c cs)
  then obtain d ds where cs: "cs = d # ds" by (cases cs) auto
  then show ?case using Cons by (cases i) auto
qed simp

lemma chain_last: "chain b s cs \<Longrightarrow> 0x0FFFFFF8 \<le> fat_entry b s (last cs)"
  by (induction b s cs rule: chain.induct) auto

lemma chain_drop: "chain b s cs \<Longrightarrow> i < length cs \<Longrightarrow> chain b s (drop i cs)"
  using chain_suffix [of b s "take i cs" "drop i cs"] by simp

lemma bslice_concat:
  assumes "\<forall>x\<in>set xs. length x = w" "i < length xs" "off + n \<le> w"
  shows "bslice (i * w + off) n (concat xs) = bslice off n (xs ! i)"
  using assms
proof (induction xs arbitrary: i)
  case (Cons x xs)
  show ?case
  proof (cases i)
    case 0
    then show ?thesis using Cons.prems by (simp add: bslice_append1)
  next
    case (Suc j)
    then show ?thesis using Cons.prems Cons.IH [of j] by (simp add: bslice_append2 add.assoc)
  qed
qed simp

lemma concat_overwrite:
  assumes "\<forall>x\<in>set xs. length x = w" "i < length xs" "off + length d \<le> w"
  shows "concat (xs[i := overwrite (xs ! i) off d]) = overwrite (concat xs) (i * w + off) d"
  using assms
proof (induction xs arbitrary: i)
  case (Cons x xs)
  show ?case
  proof (cases i)
    case 0
    then show ?thesis using Cons.prems by (simp add: overwrite_def)
  next
    case (Suc j)
    then show ?thesis using Cons.prems Cons.IH [of j] by (simp add: overwrite_def add.assoc)
  qed
qed simp

section \<open>Reading refines the byte list\<close>

lemma seek_loop_ok:
  assumes V: "vol_ok b s" and C: "chain b s cs" and m: "unat m = 512 * spc b"
  shows "i + unat off div (512 * spc b) < length cs \<Longrightarrow>
    \<exists>o'. seek_loop m (cs ! i) off s = Some (cs ! (i + unat off div (512 * spc b)), o')
       \<and> unat o' = unat off mod (512 * spc b)"
proof (induction "unat off div (512 * spc b)" arbitrary: i off)
  case 0
  have p: "0 < 512 * spc b" using wf_bpbD(2) [OF vol_okD(2) [OF V]] by simp
  then have "unat off < 512 * spc b" using 0(1) by (metis div_eq_0_iff not_less0)
  moreover then have "\<not> off \<ge> m" using m by (simp add: word_le_nat_alt)
  ultimately show ?case using 0 by (subst seek_loop.simps) simp
next
  case (Suc k)
  have p: "0 < 512 * spc b" using wf_bpbD(2) [OF vol_okD(2) [OF V]] by simp
  have ge: "512 * spc b \<le> unat off" using Suc.hyps(2) by (metis div_less not_less old.nat.distinct(2))
  then have geq: "off \<ge> m" using m by (simp add: word_le_nat_alt)
  have sub: "unat (off - m) = unat off - 512 * spc b" using m ge by (simp add: unat_minus_u32)
  have d: "unat off div (512 * spc b) = Suc (unat (off - m) div (512 * spc b))"
    using sub ge p by (simp add: le_div_geq)
  have md: "unat (off - m) mod (512 * spc b) = unat off mod (512 * spc b)"
    using sub ge by (simp add: le_mod_geq)
  have i: "i < length cs" "Suc i < length cs" using Suc.prems d by auto
  have iv: "in_vol b (cs ! i)" using chain_in_vol [OF C] i by simp
  have nz: "cs ! i \<noteq> 0" using in_vol_range(3) [OF V iv] .
  have nx: "fat32_get_next_cluster (cs ! i) s = Some (cs ! Suc i)"
    using get_next_cluster_ok [OF V in_vol_entry [OF iv]] chain_nth [OF C i(2)] by simp
  have "\<exists>o'. seek_loop m (cs ! Suc i) (off - m) s = Some (cs ! (Suc i + unat (off - m) div (512 * spc b)), o')
       \<and> unat o' = unat (off - m) mod (512 * spc b)"
    using Suc.hyps(1) [of "off - m" "Suc i"] Suc.hyps(2) d Suc.prems by simp
  then show ?case using geq nz nx d md by (subst seek_loop.simps) simp
qed

lemma chunk_bytes:
  assumes V: "vol_ok b s" and "i < length cs" "off + n \<le> 512 * spc b"
  shows "bslice off n (cluster_data b s (cs ! i)) = bslice (i * (512 * spc b) + off) n (chain_data b s cs)"
  using bslice_concat [of "map (cluster_data b s) cs" "512 * spc b" i off n] assms by (simp add: chain_data_def)

lemma read_loop_ok:
  assumes V: "vol_ok b s" and C: "chain b s cs" and m: "unat m = 512 * spc b"
  shows "i < length cs \<Longrightarrow> unat off < 512 * spc b \<Longrightarrow> unat br < unat btr \<Longrightarrow>
    i * (512 * spc b) + unat off + (unat btr - unat br) \<le> length cs * (512 * spc b) \<Longrightarrow>
    unat btr \<le> length buff \<Longrightarrow> length cbuf = 512 * spc b \<Longrightarrow>
    read_loop m btr (cs ! i) off br cbuf buff s = Some (True, overwrite buff (unat br)
      (bslice (i * (512 * spc b) + unat off) (unat btr - unat br) (chain_data b s cs)), btr)"
proof (induction "unat btr - unat br" arbitrary: i off br cbuf buff rule: less_induct)
  case less
  let ?w = "512 * spc b"
  note W = length_chain_data [OF V, of cs]
  have iv: "in_vol b (cs ! i)" using chain_in_vol [OF C] less.prems by simp
  have nz: "cs ! i \<noteq> 0" using in_vol_range(3) [OF V iv] .
  have rd: "fat32_read_cluster (cs ! i) cbuf 0 s = Some (True, cluster_data b s (cs ! i))"
    using read_cluster_ok [OF V iv, of 0 cbuf] less.prems V by simp
  have nx: "fat32_get_next_cluster (cs ! i) s = Some (fat_entry b s (cs ! i))"
    using get_next_cluster_ok [OF V in_vol_entry [OF iv]] .
  have brlt: "br < btr" using less.prems by (simp add: word_less_nat_alt)
  define n where "n = (if m - off > btr - br then btr - br else m - off)"
  have u: "unat (m - off) = ?w - unat off" "unat (btr - br) = unat btr - unat br"
    using less.prems m by (simp_all add: unat_minus_u32)
  have n: "unat n = min (?w - unat off) (unat btr - unat br)" using u by (auto simp: n_def word_less_nat_alt)
  have n0: "0 < unat n" using n less.prems by simp
  have brn: "unat (br + n) = unat br + unat n"
    using n less.prems unat_u32_lt [of btr] by (intro unat_plus_u32) auto
  define d where "d = bslice (i * ?w + unat off) (unat n) (chain_data b s cs)"
  have d: "bslice (unat off) (unat n) (cluster_data b s (cs ! i)) = d"
    unfolding d_def by (rule chunk_bytes [OF V]) (use less.prems n in auto)
  have nle: "unat off + unat n \<le> ?w" using n less.prems by simp
  have ld: "length d = unat n" unfolding d_def using n less.prems W by simp
  have bn: "unat br + unat n \<le> length buff" using n less.prems by linarith
  then have st: "st_bytes buff (unat br) d = Some (overwrite buff (unat br) d)"
    using ld by (simp add: st_bytes_def)
  have step: "read_loop m btr (cs ! i) off br cbuf buff s
      = read_loop m btr (fat_entry b s (cs ! i)) 0 (br + n) (cluster_data b s (cs ! i)) (overwrite buff (unat br) d) s"
    using brlt nz rd nx st nle d V
    by (subst read_loop.simps) (simp add: Let_def n_def [symmetric] copy_from_def)
  show ?case
  proof (cases "unat n = unat btr - unat br")
    case True
    then have "br + n = btr" using brn less.prems by (intro unat_eqI) simp
    then show ?thesis using step True by (subst (asm) (2) read_loop.simps) (simp add: d_def)
  next
    case False
    then have full: "unat n = ?w - unat off" "unat n < unat btr - unat br" using n by auto
    have lt: "Suc i * ?w < length cs * ?w" using less.prems full by simp
    then have si: "Suc i < length cs" by (simp only: mult_less_cancel2)
    have pos: "Suc i * ?w = i * ?w + unat off + unat n" using full less.prems by simp
    have "read_loop m btr (cs ! Suc i) 0 (br + n) (cluster_data b s (cs ! i)) (overwrite buff (unat br) d) s
        = Some (True, overwrite (overwrite buff (unat br) d) (unat br + unat n)
            (bslice (Suc i * ?w) (unat btr - (unat br + unat n)) (chain_data b s cs)), btr)"
      using less.hyps [of "br + n" "Suc i" 0 "overwrite buff (unat br) d" "cluster_data b s (cs ! i)"]
        less.prems full brn n0 si pos ld V by simp
    also have "overwrite (overwrite buff (unat br) d) (unat br + unat n)
            (bslice (Suc i * ?w) (unat btr - (unat br + unat n)) (chain_data b s cs))
        = overwrite buff (unat br) (d @ bslice (Suc i * ?w) (unat btr - (unat br + unat n)) (chain_data b s cs))"
      using overwrite_adj [of "unat br" d "bslice (Suc i * ?w) (unat btr - (unat br + unat n)) (chain_data b s cs)" buff]
        ld less.prems full by simp
    also have "d @ bslice (Suc i * ?w) (unat btr - (unat br + unat n)) (chain_data b s cs)
        = bslice (i * ?w + unat off) (unat btr - unat br) (chain_data b s cs)"
      unfolding d_def pos bslice_append_adj using full by simp
    finally show ?thesis using step chain_nth [OF C si] by simp
  qed
qed

lemma f_read_ok:
  assumes F: "file_on b s fp cs" and M: "disk_malloc_ok s (512 * spc b)"
    and n: "n = min (unat btr) (unat (fsize fp) - unat (pos fp))" and L: "n \<le> length buff"
  shows "f_read fp buff btr s = Some (True, overwrite buff 0 (bslice (unat (pos fp)) n (file_bytes b s fp cs)),
     of_nat n, fp\<lparr>pos := pos fp + of_nat n\<rparr>)"
proof (cases "pos fp < fsize fp")
  case False
  then have "n = 0" using n by (simp add: word_less_nat_alt)
  then show ?thesis using False by (simp add: f_read_def not_less)
next
  case True
  note V = vol_okD [of b s]
  have v: "vol_ok b s" using F by (simp add: file_on_def)
  let ?w = "512 * spc b"
  have p: "0 < ?w" using wf_bpbD(2) [OF V(2) [OF v]] by simp
  have lt: "unat (pos fp) < unat (fsize fp)" using True by (simp add: word_less_nat_alt)
  have sz: "unat (fsize fp) \<le> length cs * ?w" using F by (simp add: file_on_def)
  then have ne: "cs \<noteq> []" using lt by auto
  then have C: "chain b s cs" "first_cluster fp = hd cs" using F by (auto simp: file_on_def)
  define j where "j = unat (pos fp) div ?w"
  have j: "j < length cs" using lt sz p by (simp add: j_def div_less_iff_less_mult)
  define r where "r = (if btr > fsize fp - pos fp then fsize fp - pos fp else btr)"
  have "unat (fsize fp - pos fp) = unat (fsize fp) - unat (pos fp)" using lt by (simp add: unat_minus_u32)
  then have r: "unat r = n" by (auto simp: r_def n word_less_nat_alt)
  have m: "unat (get_cluster_size_bytes s) = ?w" using V(6) [OF v] .
  obtain o' where o': "seek_loop (get_cluster_size_bytes s) (cs ! 0) (pos fp) s = Some (cs ! j, o')"
    "unat o' = unat (pos fp) mod ?w"
    using seek_loop_ok [OF v C(1) m, of 0 "pos fp"] j by (auto simp: j_def)
  have pj: "j * ?w + unat o' = unat (pos fp)" unfolding o' j_def by (rule div_mult_mod_eq)
  have o2: "unat o' < ?w" using o' p by simp
  have rl: "read_loop (get_cluster_size_bytes s) r (cs ! j) o' 0 (replicate ?w 0) buff s
      = Some (True, overwrite buff 0 (bslice (unat (pos fp)) n (chain_data b s cs)), r)"
  proof (cases "n = 0")
    case True
    then have "r = 0" using r by (intro unat_eqI) simp
    then show ?thesis using True by (subst read_loop.simps) simp
  next
    case False
    then show ?thesis
      using read_loop_ok [OF v C(1) m j o2, of 0 r buff "replicate ?w 0"] r pj n lt sz L by simp
  qed
  have "bslice (unat (pos fp)) n (file_bytes b s fp cs) = bslice (unat (pos fp)) n (chain_data b s cs)"
    using n lt by (simp add: file_bytes_def bslice_def drop_take min_def)
  moreover have "r = of_nat n" unfolding r [symmetric] by simp
  moreover have "\<not> fsize fp \<le> pos fp" using True by simp
  ultimately show ?thesis
    using o' rl M p m ne C(2) by (simp add: f_read_def Let_def malloc_def r_def [symmetric] hd_conv_nth)
qed

section \<open>Writing refines the byte list\<close>

lemma clusters_for_gt: "0 < w \<Longrightarrow> x * w < r \<Longrightarrow> x < clusters_for w r"
proof -
  assume "0 < w" "x * w < r"
  then have "x * w < clusters_for w r * w" using clusters_for_ge [of w r] by linarith
  then show ?thesis by (simp only: mult_less_cancel2)
qed

lemma clusters_for_le: "0 < w \<Longrightarrow> r \<le> x * w \<Longrightarrow> clusters_for w r \<le> x"
proof -
  assume w: "0 < w" and r: "r \<le> x * w"
  have "r + w - 1 < Suc x * w" using w r by simp
  then have "(r + w - 1) div w < Suc x" using w by (simp only: div_less_iff_less_mult)
  then show ?thesis by (simp add: clusters_for_def)
qed

lemma next_in_chain:
  assumes V: "vol_ok b s" and C: "chain b s cs" and i: "Suc i < length cs"
  shows "next_or_append (cs ! i) s = Some (Some (cs ! Suc i), s)"
proof -
  have iv: "in_vol b (cs ! i)" "in_vol b (cs ! Suc i)" using chain_in_vol [OF C] i by auto
  show ?thesis
    using get_next_cluster_ok [OF V in_vol_entry [OF iv(1)]] chain_nth [OF C i] in_vol_range(4) [OF V iv(2)]
    by (simp add: next_or_append_def)
qed

lemma next_at_end:
  assumes V: "vol_ok b s" and H: "hint_ok b s" and C: "chain b s cs" and F: "free_list b s = n # ns"
  shows "\<exists>s'. next_or_append (last cs) s = Some (Some n, s') \<and> frame b {n, last cs} {} s s'
     \<and> hint_ok b s' \<and> free_list b s' = ns \<and> chain b s' (cs @ [n])"
proof -
  have ne: "cs \<noteq> []" using C by auto
  have iv: "in_vol b (last cs)" using chain_in_vol [OF C] ne by simp
  have C1: "chain b s [last cs]" using iv chain_last [OF C] by simp
  obtain s' where s': "fat32_append_cluster (last cs) s = Some (Some n, s')" "frame b {n, last cs} {} s s'"
    "hint_ok b s'" "free_list b s' = ns" "chain b s' [last cs, n]"
    using append_cluster_ok [OF V H C1 _ F] by auto
  have nin: "n \<notin> set cs" using free_not_in_chain [OF V H C] F by auto
  have "chain b s' (cs @ [n])"
  proof (rule chain_snoc [OF C])
    show "in_vol b n" "fat_entry b s' (last cs) = n" "0x0FFFFFF8 \<le> fat_entry b s' n" using s'(5) by auto
    fix c assume c: "c \<in> set (butlast cs)"
    then have "c \<in> set cs" by (rule in_set_butlastD)
    moreover have "c \<noteq> last cs"
      using c ne chain_distinct [OF V C] by (metis append_butlast_last_id distinct_append disjoint_insert(1) list.set(2))
    ultimately show "fat_entry b s' c = fat_entry b s c"
      using s'(2) nin chain_in_vol [OF C] in_vol_entry unfolding frame_def by blast
  qed
  then show ?thesis
    using get_next_cluster_ok [OF V in_vol_entry [OF iv]] chain_last [OF C] s'
    by (simp add: next_or_append_def)
qed

lemma write_seek_ok:
  assumes m: "unat m = 512 * spc b"
  shows "vol_ok b s \<Longrightarrow> hint_ok b s \<Longrightarrow> chain b s cs \<Longrightarrow> i < length cs \<Longrightarrow>
    j = i + unat off div (512 * spc b) \<Longrightarrow> k = Suc j - length cs \<Longrightarrow> k \<le> length (free_list b s) \<Longrightarrow>
    \<exists>o' s'. write_seek_loop m (cs ! i) off s = Some (Some ((cs @ take k (free_list b s)) ! j, o'), s')
       \<and> unat o' = unat off mod (512 * spc b) \<and> frame b (set (cs @ take k (free_list b s))) {} s s'
       \<and> hint_ok b s' \<and> free_list b s' = drop k (free_list b s) \<and> chain b s' (cs @ take k (free_list b s))"
proof (induction "unat off div (512 * spc b)" arbitrary: i off s cs j k)
  case 0
  have p: "0 < 512 * spc b" using wf_bpbD(2) [OF vol_okD(2) [OF 0(2)]] by simp
  then have lt: "unat off < 512 * spc b" using 0(1) by (metis div_eq_0_iff not_less0)
  then have "\<not> off \<ge> m" using m by (simp add: word_le_nat_alt)
  moreover have "j = i" "k = 0" using 0 by auto
  ultimately show ?case using 0 lt by (subst write_seek_loop.simps) (simp add: frame_refl)
next
  case (Suc q)
  let ?w = "512 * spc b"
  have p: "0 < ?w" using wf_bpbD(2) [OF vol_okD(2) [OF Suc.prems(1)]] by simp
  have ge: "?w \<le> unat off" using Suc.hyps(2) by (metis div_less not_less old.nat.distinct(2))
  then have geq: "off \<ge> m" using m by (simp add: word_le_nat_alt)
  have sub: "unat (off - m) = unat off - ?w" using m ge by (simp add: unat_minus_u32)
  have d: "unat off div ?w = Suc (unat (off - m) div ?w)" using sub ge p by (simp add: le_div_geq)
  have md: "unat (off - m) mod ?w = unat off mod ?w" using sub ge by (simp add: le_mod_geq)
  have q: "q = unat (off - m) div ?w" using Suc.hyps(2) d by simp
  have j: "j = Suc i + unat (off - m) div ?w" using Suc.prems(5) d by simp
  have iv: "in_vol b (cs ! i)" using chain_in_vol [OF Suc.prems(3)] Suc.prems(4) by simp
  have nz: "cs ! i \<noteq> 0" using in_vol_range(3) [OF Suc.prems(1) iv] .
  show ?case
  proof (cases "Suc i < length cs")
    case True
    note nx = next_in_chain [OF Suc.prems(1,3) True]
    from Suc.hyps(1) [OF q Suc.prems(1,2,3) True j Suc.prems(6,7)]
    show ?thesis using geq nz nx md by (subst write_seek_loop.simps) simp
  next
    case False
    then have il: "Suc i = length cs" using Suc.prems(4) by simp
    then have la: "cs ! i = last cs" by (metis diff_Suc_1 last_conv_nth length_0_conv nat.distinct(1))
    have "0 < k" using Suc.prems(6) j il by simp
    then obtain n ns where F: "free_list b s = n # ns" using Suc.prems(7) by (cases "free_list b s") auto
    obtain s1 where s1: "next_or_append (last cs) s = Some (Some n, s1)" "frame b {n, last cs} {} s s1"
      "hint_ok b s1" "free_list b s1 = ns" "chain b s1 (cs @ [n])"
      using next_at_end [OF Suc.prems(1,2,3) F] by blast
    have V1: "vol_ok b s1" using s1(2) by (simp add: frame_def)
    have c1: "(cs @ [n]) ! Suc i = n" using il by (simp add: nth_append)
    obtain k' where k': "k = Suc k'" using \<open>0 < k\<close> by (cases k) auto
    have tk: "take k (free_list b s) = n # take k' ns" "drop k (free_list b s) = drop k' ns" using F k' by auto
    have k2: "k' = Suc j - length (cs @ [n])" "k' \<le> length (free_list b s1)"
      using Suc.prems(6,7) k' F s1(4) by auto
    obtain o' s' where r: "write_seek_loop m n (off - m) s1 = Some (Some (((cs @ [n]) @ take k' ns) ! j, o'), s')"
      "unat o' = unat (off - m) mod ?w" "frame b (set ((cs @ [n]) @ take k' ns)) {} s1 s'"
      "hint_ok b s'" "free_list b s' = drop k' ns" "chain b s' ((cs @ [n]) @ take k' ns)"
      using Suc.hyps(1) [OF q V1 s1(3,5) _ j k2] c1 il s1(4) by auto
    have "last cs \<in> set cs" using Suc.prems(4) by (metis last_in_set length_greater_0_conv less_nat_zero_code not_gr_zero)
    then have "frame b (set (cs @ n # take k' ns)) {} s s'"
      using frame_trans [OF s1(2) r(3)] by (auto elim!: frame_mono)
    then show ?thesis using geq nz s1(1) la md r tk by (subst write_seek_loop.simps) simp
  qed
qed

lemma chain_data_cong:
  "(\<And>c. c \<in> set cs \<Longrightarrow> cluster_data b s' c = cluster_data b s c) \<Longrightarrow> chain_data b s' cs = chain_data b s cs"
  unfolding chain_data_def by (metis map_cong)

lemma chain_data_upd:
  assumes V: "vol_ok b s" and iv: "\<forall>c\<in>set cs. in_vol b c" and dst: "distinct cs" and i: "i < length cs"
    and o: "off + length d \<le> 512 * spc b"
  shows "chain_data b (upd_cluster b (cs ! i) (overwrite (cluster_data b s (cs ! i)) off d) s) cs
     = overwrite (chain_data b s cs) (i * (512 * spc b) + off) d"
proof -
  let ?x = "overwrite (cluster_data b s (cs ! i)) off d"
  have l: "length ?x = 512 * spc b" using V o by simp
  have "map (cluster_data b (upd_cluster b (cs ! i) ?x s)) cs = (map (cluster_data b s) cs)[i := ?x]"
  proof (rule nth_equalityI)
    fix j assume "j < length (map (cluster_data b (upd_cluster b (cs ! i) ?x s)) cs)"
    then have j: "j < length cs" by simp
    have "cluster_data b (upd_cluster b (cs ! i) ?x s) (cs ! j)
        = (if cs ! j = cs ! i then take (512 * spc b) ?x else cluster_data b s (cs ! j))"
      using iv i j l by (intro cluster_data_upd_cluster [OF V]) auto
    then show "map (cluster_data b (upd_cluster b (cs ! i) ?x s)) cs ! j = (map (cluster_data b s) cs)[i := ?x] ! j"
      using j i dst l by (auto simp: nth_list_update nth_eq_iff_index_eq)
  qed simp
  then show ?thesis
    using concat_overwrite [of "map (cluster_data b s) cs" "512 * spc b" i off d] i o V
    by (simp add: chain_data_def)
qed

end
