(* ===== verification/FatWrite.thy ===== *)
theory FatWrite
  imports FatFile
begin

text \<open>
  What the file functions of FatFile do to the contents of an open file: reading returns a slice of
  the byte list, writing replaces or extends it, seeking and truncating change position and length.
  Each refinement says that the function returns, names the clusters the chain gains, and bounds what
  the rest of the volume can see.
\<close>

section \<open>The write loop\<close>

lemma fresh_chain:
  assumes V: "vol_ok b s" and H: "hint_ok b s" and C: "chain b s cs"
  shows "\<forall>c\<in>set (cs @ take k (free_list b s)). in_vol b c" "distinct (cs @ take k (free_list b s))"
proof -
  have sub: "set (take k (free_list b s)) \<subseteq> set (free_list b s)" by (rule set_take_subset)
  show "\<forall>c\<in>set (cs @ take k (free_list b s)). in_vol b c"
    using chain_in_vol [OF C] free_list_mem(1) [OF V H] sub by auto
  show "distinct (cs @ take k (free_list b s))"
    using chain_distinct [OF V C] free_list_distinct [OF V] free_not_in_chain [OF V H C] sub
    by (auto simp: distinct_take)
qed

lemma write_loop_step:
  assumes V: "vol_ok b s" and C: "chain b s cs" and m: "unat m = 512 * spc b"
    and i: "i < length cs" and o: "unat off < 512 * spc b" and lt: "unat bw < unat btw"
    and B: "unat btw \<le> length buff" and cb: "length cbuf = 512 * spc b"
  shows "\<exists>n x. unat n = min (512 * spc b - unat off) (unat btw - unat bw) \<and> unat (bw + n) = unat bw + unat n
    \<and> x = overwrite (cluster_data b s (cs ! i)) (unat off) (bslice (unat bw) (unat n) buff)
    \<and> write_loop m buff btw (cs ! i) off bw cbuf s =
       (if unat bw + unat n \<ge> unat btw then Some (Some (cs ! i), bw + n, upd_cluster b (cs ! i) x s)
        else Option.bind (next_or_append (cs ! i) (upd_cluster b (cs ! i) x s)) (\<lambda>(r, s2).
               case r of
                 None \<Rightarrow> Some (None, bw + n, s2)
               | Some nxt \<Rightarrow> write_loop m buff btw nxt 0 (bw + n) x s2))"
proof -
  let ?w = "512 * spc b"
  have iv: "in_vol b (cs ! i)" using chain_in_vol [OF C] i by simp
  have rd: "fat32_read_cluster (cs ! i) cbuf 0 s = Some (True, cluster_data b s (cs ! i))"
    using read_cluster_ok [OF V iv, of 0 cbuf] cb V by simp
  have lt': "bw < btw" using lt by (simp add: word_less_nat_alt)
  define n where "n = (if m - off > btw - bw then btw - bw else m - off)"
  have u: "unat (m - off) = ?w - unat off" "unat (btw - bw) = unat btw - unat bw"
    using o lt m by (simp_all add: unat_minus_u32)
  have n: "unat n = min (?w - unat off) (unat btw - unat bw)" using u by (auto simp: n_def word_less_nat_alt)
  have bn: "unat (bw + n) = unat bw + unat n"
    using n lt unat_u32_lt [of btw] by (intro unat_plus_u32) auto
  define d where "d = bslice (unat bw) (unat n) buff"
  have le: "unat bw + unat n \<le> length buff" using n lt B by linarith
  have ld: "length d = unat n" using le by (simp add: d_def)
  define x where "x = overwrite (cluster_data b s (cs ! i)) (unat off) d"
  have on: "unat off + unat n \<le> ?w" using n o by linarith
  have st: "st_bytes (cluster_data b s (cs ! i)) (unat off) d = Some x"
    using on ld V by (simp add: st_bytes_def x_def)
  have lx: "length x = ?w" using on ld V by (simp add: x_def)
  have wr: "fat32_write_cluster (cs ! i) x s = Some (True, upd_cluster b (cs ! i) x s)"
    using write_cluster_ok [OF V iv] lx by simp
  have cf: "copy_from buff (unat bw) (unat n) = Some d" using le by (simp add: copy_from_def d_def)
  have cmp: "(bw + n \<ge> btw) = (unat bw + unat n \<ge> unat btw)" using bn by (simp add: word_le_nat_alt)
  have "write_loop m buff btw (cs ! i) off bw cbuf s =
       (if bw + n \<ge> btw then Some (Some (cs ! i), bw + n, upd_cluster b (cs ! i) x s)
        else Option.bind (next_or_append (cs ! i) (upd_cluster b (cs ! i) x s)) (\<lambda>(r, s2).
               case r of
                 None \<Rightarrow> Some (None, bw + n, s2)
               | Some nxt \<Rightarrow> write_loop m buff btw nxt 0 (bw + n) x s2))"
    using lt' rd cf st wr by (subst write_loop.simps) (simp add: Let_def n_def [symmetric])
  then show ?thesis unfolding cmp using n bn x_def d_def by blast
qed

lemma write_loop_ok:
  assumes m: "unat m = 512 * spc b" and B: "unat btw \<le> length buff"
  shows "vol_ok b s \<Longrightarrow> hint_ok b s \<Longrightarrow> chain b s cs \<Longrightarrow> i < length cs \<Longrightarrow> unat off < 512 * spc b \<Longrightarrow>
    unat bw < unat btw \<Longrightarrow> length cbuf = 512 * spc b \<Longrightarrow>
    k = clusters_for (512 * spc b) (i * (512 * spc b) + unat off + (unat btw - unat bw)) - length cs \<Longrightarrow>
    k \<le> length (free_list b s) \<Longrightarrow>
    \<exists>c s'. write_loop m buff btw (cs ! i) off bw cbuf s = Some (Some c, btw, s')
      \<and> frame b (set (cs @ take k (free_list b s))) (set (cs @ take k (free_list b s))) s s'
      \<and> hint_ok b s' \<and> free_list b s' = drop k (free_list b s) \<and> chain b s' (cs @ take k (free_list b s))
      \<and> chain_data b s' (cs @ take k (free_list b s)) = overwrite (chain_data b s (cs @ take k (free_list b s)))
          (i * (512 * spc b) + unat off) (bslice (unat bw) (unat btw - unat bw) buff)"
proof (induction "unat btw - unat bw" arbitrary: i off bw cbuf s cs k rule: less_induct)
  case less
  let ?w = "512 * spc b" and ?R = "unat btw - unat bw"
  let ?P = "i * ?w + unat off"
  have p: "0 < ?w" using wf_bpbD(2) [OF vol_okD(2) [OF less.prems(1)]] by simp
  obtain n x where nx: "unat n = min (?w - unat off) ?R" "unat (bw + n) = unat bw + unat n"
    "x = overwrite (cluster_data b s (cs ! i)) (unat off) (bslice (unat bw) (unat n) buff)"
    "write_loop m buff btw (cs ! i) off bw cbuf s =
       (if unat bw + unat n \<ge> unat btw then Some (Some (cs ! i), bw + n, upd_cluster b (cs ! i) x s)
        else Option.bind (next_or_append (cs ! i) (upd_cluster b (cs ! i) x s)) (\<lambda>(r, s2).
               case r of
                 None \<Rightarrow> Some (None, bw + n, s2)
               | Some nxt \<Rightarrow> write_loop m buff btw nxt 0 (bw + n) x s2))"
    using write_loop_step [OF less.prems(1,3) m less.prems(4-6) B less.prems(7)] by blast
  define d where "d = bslice (unat bw) (unat n) buff"
  have ld: "length d = unat n" using nx(1) less.prems(6) B by (simp add: d_def)
  have on: "unat off + unat n \<le> ?w" using nx(1) less.prems(5) by linarith
  have lx: "length x = ?w" using on ld less.prems(1) by (simp add: nx(3) d_def [symmetric])
  have iv: "in_vol b (cs ! i)" using chain_in_vol [OF less.prems(3)] less.prems(4) by simp
  define s1 where "s1 = upd_cluster b (cs ! i) x s"
  let ?X = "cs @ take k (free_list b s)"
  note fr = fresh_chain [OF less.prems(1-3), of k]
  have fr1: "frame b {} {cs ! i} s s1"
    using frame_upd_cluster [OF less.prems(1) iv] lx by (simp add: s1_def)
  have V1: "vol_ok b s1" using fr1 by (simp add: frame_def)
  have H1: "hint_ok b s1" using less.prems(2) by (simp add: s1_def hint_ok_def)
  have F1: "free_list b s1 = free_list b s" using free_list_upd_cluster [OF less.prems(1)] by (simp add: s1_def)
  have C1: "chain b s1 cs" using frame_chain [OF fr1 less.prems(3)] by simp
  have D1: "chain_data b s1 ?X = overwrite (chain_data b s ?X) ?P d"
    using chain_data_upd [OF less.prems(1) fr(1,2), of i "unat off" d] less.prems(4) on ld
    by (simp add: s1_def nx(3) d_def [symmetric] nth_append)
  have LD: "length (chain_data b s ?X) = length ?X * ?w" by (rule length_chain_data [OF less.prems(1)])
  have n0: "0 < unat n" using nx(1) less.prems(5,6) by simp
  show ?case
  proof (cases "unat bw + unat n \<ge> unat btw")
    case True
    then have nR: "unat n = ?R" using nx(1) by simp
    have "?P + ?R \<le> Suc i * ?w" using on nR by simp
    then have "clusters_for ?w (?P + ?R) \<le> Suc i" by (rule clusters_for_le [OF p])
    then have k0: "k = 0" using less.prems(4,8) by simp
    have "bw + n = btw" using nx(2) nR less.prems(6) by (intro unat_eqI) simp
    moreover have "frame b (set cs) (set cs) s s1"
      using less.prems(4) by (intro frame_mono [OF fr1]) auto
    ultimately show ?thesis using nx(4) True H1 F1 C1 D1 k0 nR by (simp add: s1_def d_def)
  next
    case False
    then have full: "unat n = ?w - unat off" "unat n < ?R" using nx(1) by auto
    have P': "Suc i * ?w = ?P + unat n" using full less.prems(5) by simp
    define R' where "R' = unat btw - unat (bw + n)"
    have R': "R' = ?R - unat n" "R' < ?R" "unat (bw + n) < unat btw" using nx(2) full n0 by (auto simp: R'_def)
    have tot: "Suc i * ?w + unat (0 :: u32) + R' = ?P + ?R" using P' R' full by simp
    have z: "unat (0 :: u32) < ?w" using p by simp
    have adj: "overwrite (overwrite D ?P d) (Suc i * ?w) (bslice (unat (bw + n)) R' buff)
        = overwrite D ?P (bslice (unat bw) ?R buff)" if "?P + ?R \<le> length D" for D
    proof -
      have lb: "length (bslice (unat (bw + n)) R' buff) = R'" using R' B by (simp add: R'_def)
      have "?P + length d + length (bslice (unat (bw + n)) R' buff) \<le> length D"
        unfolding lb ld using that R'(1) full(2) by linarith
      then have "overwrite (overwrite D ?P d) (?P + length d) (bslice (unat (bw + n)) R' buff)
          = overwrite D ?P (d @ bslice (unat (bw + n)) R' buff)"
        by (rule overwrite_adj)
      moreover have "d @ bslice (unat (bw + n)) R' buff = bslice (unat bw) ?R buff"
        unfolding d_def nx(2) bslice_append_adj using R' full by simp
      ultimately show ?thesis unfolding P' ld by simp
    qed
    have step: "write_loop m buff btw (cs ! i) off bw cbuf s = Option.bind (next_or_append (cs ! i) s1) (\<lambda>(r, s2).
               case r of
                 None \<Rightarrow> Some (None, bw + n, s2)
               | Some nxt \<Rightarrow> write_loop m buff btw nxt 0 (bw + n) x s2)"
      using nx(4) False by (simp add: s1_def)
    show ?thesis
    proof (cases "Suc i < length cs")
      case True
      have kk: "k = clusters_for ?w (Suc i * ?w + unat (0 :: u32) + (unat btw - unat (bw + n))) - length cs"
        unfolding R'_def [symmetric] tot by (rule less.prems(8))
      have kl: "k \<le> length (free_list b s1)" using less.prems(9) F1 by simp
      note IH = less.hyps [OF R'(2) [unfolded R'_def] V1 H1 C1 True z R'(3) lx kk kl]
      have "\<exists>c s'. write_loop m buff btw (cs ! Suc i) 0 (bw + n) x s1 = Some (Some c, btw, s')
        \<and> frame b (set ?X) (set ?X) s1 s' \<and> hint_ok b s' \<and> free_list b s' = drop k (free_list b s) \<and> chain b s' ?X
        \<and> chain_data b s' ?X = overwrite (chain_data b s1 ?X) (Suc i * ?w) (bslice (unat (bw + n)) R' buff)"
        using IH unfolding F1 R'_def [symmetric] unsigned_0 add_0_right .
      then obtain c s' where r: "write_loop m buff btw (cs ! Suc i) 0 (bw + n) x s1 = Some (Some c, btw, s')"
        "frame b (set ?X) (set ?X) s1 s'" "hint_ok b s'" "free_list b s' = drop k (free_list b s)" "chain b s' ?X"
        "chain_data b s' ?X = overwrite (chain_data b s1 ?X) (Suc i * ?w) (bslice (unat (bw + n)) R' buff)" by blast
      have "?P + ?R \<le> length ?X * ?w"
      proof -
        have "?P + ?R \<le> clusters_for ?w (?P + ?R) * ?w" by (rule clusters_for_ge [OF p])
        also have "\<dots> \<le> length ?X * ?w" using less.prems(8,9) by (intro mult_le_mono1) simp
        finally show ?thesis .
      qed
      then have "chain_data b s' ?X = overwrite (chain_data b s ?X) ?P (bslice (unat bw) ?R buff)"
        unfolding r(6) D1 using LD by (intro adj) simp
      moreover have "frame b (set ?X) (set ?X) s s'"
        using frame_trans [OF fr1 r(2)] less.prems(4) by (auto elim!: frame_mono)
      ultimately show ?thesis
        using step next_in_chain [OF V1 C1 True] r by simp
    next
      case False
      then have il: "Suc i = length cs" using less.prems(4) by simp
      then have la: "cs ! i = last cs" by (metis diff_Suc_1 last_conv_nth length_0_conv nat.distinct(1))
      have "length cs * ?w < ?P + ?R" using P' R' full il by simp
      then have "length cs < clusters_for ?w (?P + ?R)" by (rule clusters_for_gt [OF p])
      then have "0 < k" using less.prems(8) by linarith
      then obtain k' where k': "k = Suc k'" using gr0_conv_Suc by auto
      then obtain c0 ns where F: "free_list b s = c0 # ns" using less.prems(9) by (cases "free_list b s") auto
      obtain s2 where s2: "next_or_append (last cs) s1 = Some (Some c0, s2)" "frame b {c0, last cs} {} s1 s2"
        "hint_ok b s2" "free_list b s2 = ns" "chain b s2 (cs @ [c0])"
        using next_at_end [OF V1 H1 C1] F1 F by auto
      have V2: "vol_ok b s2" using s2(2) by (simp add: frame_def)
      have X: "?X = (cs @ [c0]) @ take k' ns" using F k' by simp
      have c1: "(cs @ [c0]) ! Suc i = c0" using il by (simp add: nth_append)
      have kk: "k' = clusters_for ?w (Suc i * ?w + unat (0 :: u32) + (unat btw - unat (bw + n))) - length (cs @ [c0])"
        unfolding R'_def [symmetric] tot using less.prems(8) k' by simp
      have kl: "k' \<le> length (free_list b s2)" using less.prems(9) F k' s2(4) by simp
      have si: "Suc i < length (cs @ [c0])" using il by simp
      note IH = less.hyps [OF R'(2) [unfolded R'_def] V2 s2(3,5) si z R'(3) lx kk kl]
      have "\<exists>c s'. write_loop m buff btw ((cs @ [c0]) ! Suc i) 0 (bw + n) x s2 = Some (Some c, btw, s')
        \<and> frame b (set ?X) (set ?X) s2 s' \<and> hint_ok b s' \<and> free_list b s' = drop k' ns \<and> chain b s' ?X
        \<and> chain_data b s' ?X = overwrite (chain_data b s2 ?X) (Suc i * ?w) (bslice (unat (bw + n)) R' buff)"
        using IH unfolding X s2(4) R'_def [symmetric] unsigned_0 add_0_right .
      then obtain c s' where r: "write_loop m buff btw c0 0 (bw + n) x s2 = Some (Some c, btw, s')"
        "frame b (set ?X) (set ?X) s2 s'" "hint_ok b s'" "free_list b s' = drop k' ns" "chain b s' ?X"
        "chain_data b s' ?X = overwrite (chain_data b s2 ?X) (Suc i * ?w) (bslice (unat (bw + n)) R' buff)"
        unfolding c1 by blast
      have D2: "chain_data b s2 ?X = chain_data b s1 ?X"
        using s2(2) fr(1) by (intro chain_data_cong) (auto simp: frame_def)
      have "?P + ?R \<le> length ?X * ?w"
      proof -
        have "?P + ?R \<le> clusters_for ?w (?P + ?R) * ?w" by (rule clusters_for_ge [OF p])
        also have "\<dots> \<le> length ?X * ?w" using less.prems(8,9) by (intro mult_le_mono1) simp
        finally show ?thesis .
      qed
      then have "chain_data b s' ?X = overwrite (chain_data b s ?X) ?P (bslice (unat bw) ?R buff)"
        unfolding r(6) D2 D1 using LD by (intro adj) simp
      moreover have "frame b (set ?X) (set ?X) s s'"
      proof -
        have "cs ! i \<in> set cs" using less.prems(4) by simp
        then have "last cs \<in> set ?X" "cs ! i \<in> set ?X" "c0 \<in> set ?X" using F k' la by auto
        then show ?thesis using frame_trans [OF frame_trans [OF fr1 s2(2)] r(2)] by (auto elim!: frame_mono)
      qed
      ultimately show ?thesis using step s2(1) la r F k' by simp
    qed
  qed
qed

section \<open>Writing a file\<close>

lemma take_overwrite_file:
  assumes "p \<le> z" "z \<le> length D0" "p + length d \<le> length D0 + length E"
  shows "take (max (p + length d) z) (overwrite (D0 @ E) p d)
     = take p (take z D0) @ d @ drop (p + length d) (take z D0)"
proof (cases "p + length d \<le> z")
  case True
  then have "max (p + length d) z = z" "min p z = p" "min z p = p" by simp_all
  then show ?thesis using assms True
    by (simp add: overwrite_def drop_take)
next
  case False
  then show ?thesis using assms by (auto simp: overwrite_def max_def min_def)
qed

lemma f_write_chain:
  assumes V: "vol_ok b s" and H: "hint_ok b s" and C: "chain b s cs" and M: "disk_malloc_ok s (512 * spc b)"
    and n: "0 < unat btw" "unat btw \<le> length buff"
    and P: "unat p \<le> length cs * (512 * spc b)"
    and k: "k = clusters_for (512 * spc b) (unat p + unat btw) - length cs" "k \<le> length (free_list b s)"
  shows "\<exists>cur o' s2 c s'. write_seek_loop (get_cluster_size_bytes s) (hd cs) p s = Some (Some (cur, o'), s2)
     \<and> write_loop (get_cluster_size_bytes s) buff btw cur o' 0 (replicate (512 * spc b) 0) s2 = Some (Some c, btw, s')
     \<and> frame b (set (cs @ take k (free_list b s))) (set (cs @ take k (free_list b s))) s s'
     \<and> hint_ok b s' \<and> free_list b s' = drop k (free_list b s) \<and> chain b s' (cs @ take k (free_list b s))
     \<and> chain_data b s' (cs @ take k (free_list b s))
       = overwrite (chain_data b s (cs @ take k (free_list b s))) (unat p) (take (unat btw) buff)"
proof -
  let ?w = "512 * spc b"
  have p0: "0 < ?w" using wf_bpbD(2) [OF vol_okD(2) [OF V]] by simp
  have m: "unat (get_cluster_size_bytes s) = ?w" using vol_okD(6) [OF V] .
  have ne: "cs \<noteq> []" using C by auto
  define j where "j = unat p div ?w"
  define k1 where "k1 = Suc j - length cs"
  have jt: "j < clusters_for ?w (unat p + unat btw)"
  proof (rule clusters_for_gt [OF p0])
    have "j * ?w \<le> unat p" unfolding j_def by simp
    then show "j * ?w < unat p + unat btw" using n by simp
  qed
  have k1: "k1 \<le> k" using jt k by (simp add: k1_def)
  obtain o' s2 where sk: "write_seek_loop (get_cluster_size_bytes s) (cs ! 0) p s
        = Some (Some ((cs @ take k1 (free_list b s)) ! j, o'), s2)"
      "unat o' = unat p mod ?w" "frame b (set (cs @ take k1 (free_list b s))) {} s s2"
      "hint_ok b s2" "free_list b s2 = drop k1 (free_list b s)" "chain b s2 (cs @ take k1 (free_list b s))"
    using write_seek_ok [OF m V H C, of 0 j p k1] ne k1 k(2) by (auto simp: j_def k1_def)
  have V2: "vol_ok b s2" using sk(3) by (simp add: frame_def)
  define cs2 where "cs2 = cs @ take k1 (free_list b s)"
  have l2: "length cs2 = length cs + k1" using k1 k(2) by (simp add: cs2_def)
  have j2: "j < length cs2" using l2 by (simp add: k1_def)
  have pj: "j * ?w + unat o' = unat p" unfolding sk(2) j_def by (rule div_mult_mod_eq)
  have o2: "unat o' < ?w" using sk(2) p0 by simp
  define k2 where "k2 = k - k1"
  have k2: "k2 = clusters_for ?w (j * ?w + unat o' + (unat btw - unat (0 :: u32))) - length cs2"
    using k(1) l2 pj by (simp add: k2_def)
  have X: "cs2 @ take k2 (free_list b s2) = cs @ take k (free_list b s)"
    using k1 sk(5) take_add [of k1 k2 "free_list b s"] by (simp add: cs2_def k2_def)
  have dr: "drop k2 (free_list b s2) = drop k (free_list b s)" using k1 sk(5) by (simp add: k2_def)
  have kl: "k2 \<le> length (free_list b s2)" using k(2) k1 sk(5) by (simp add: k2_def)
  obtain c s' where wl: "write_loop (get_cluster_size_bytes s) buff btw (cs2 ! j) o' 0 (replicate ?w 0) s2 = Some (Some c, btw, s')"
    "frame b (set (cs @ take k (free_list b s))) (set (cs @ take k (free_list b s))) s2 s'"
    "hint_ok b s'" "free_list b s' = drop k (free_list b s)" "chain b s' (cs @ take k (free_list b s))"
    "chain_data b s' (cs @ take k (free_list b s)) = overwrite (chain_data b s2 (cs @ take k (free_list b s)))
       (unat p) (take (unat btw) buff)"
    using write_loop_ok [OF m n(2) V2 sk(4) sk(6) [folded cs2_def] j2 o2 _ _ k2 kl, of "replicate ?w 0"] n(1)
    unfolding X dr pj by (auto simp: bslice_def)
  have "chain_data b s2 (cs @ take k (free_list b s)) = chain_data b s (cs @ take k (free_list b s))"
    using sk(3) fresh_chain(1) [OF V H C, of k] by (intro chain_data_cong) (auto simp: frame_def)
  moreover have "frame b (set (cs @ take k (free_list b s))) (set (cs @ take k (free_list b s))) s s'"
  proof -
    have "set (take k1 (free_list b s)) \<subseteq> set (take k (free_list b s))" using k1 by (rule set_take_subset_set_take)
    then show ?thesis using frame_trans [OF sk(3) wl(2)] by (auto elim!: frame_mono)
  qed
  ultimately show ?thesis using sk(1) wl ne by (simp add: cs2_def hd_conv_nth)
qed

text \<open>The file after a write of \<open>d\<close> at position \<open>p\<close>.\<close>

definition write_at :: "bytes \<Rightarrow> nat \<Rightarrow> bytes \<Rightarrow> bytes" where
  "write_at xs p d = take p xs @ d @ drop (p + length d) xs"

lemma f_write_body:
  assumes V: "vol_ok b s1" and H: "hint_ok b s1" and C: "chain b s1 cs" and M: "disk_malloc_ok s1 (512 * spc b)"
    and n: "0 < unat btw" "unat btw \<le> length buff"
    and Z: "unat z \<le> length cs * (512 * spc b)" "unat p \<le> unat z" "unat p + unat btw < 2 ^ 32"
    and k: "k = clusters_for (512 * spc b) (unat p + unat btw) - length cs" "k \<le> length (free_list b s1)"
    and fp: "pos fp1 = p" "fsize fp1 = z" "first_cluster fp1 = hd cs"
  shows "\<exists>cur o' s2 c s' fp'. write_seek_loop (get_cluster_size_bytes s1) (hd cs) p s1 = Some (Some (cur, o'), s2)
     \<and> write_loop (get_cluster_size_bytes s1) buff btw cur o' 0 (replicate (512 * spc b) 0) s2 = Some (Some c, btw, s')
     \<and> fp' = fp1\<lparr>pos := p + btw, fsize := (if p + btw > z then p + btw else z), current_cluster := c\<rparr>
     \<and> file_on b s' fp' (cs @ take k (free_list b s1)) \<and> hint_ok b s'
     \<and> frame b (set (cs @ take k (free_list b s1))) (set (cs @ take k (free_list b s1))) s1 s'
     \<and> file_bytes b s' fp' (cs @ take k (free_list b s1))
       = write_at (take (unat z) (chain_data b s1 cs)) (unat p) (take (unat btw) buff)"
proof -
  let ?w = "512 * spc b" and ?X = "cs @ take k (free_list b s1)"
  have p0: "0 < ?w" using wf_bpbD(2) [OF vol_okD(2) [OF V]] by simp
  have ne: "cs \<noteq> []" using C by auto
  have P: "unat p \<le> length cs * ?w" using Z by simp
  obtain cur o' s2 c s' where w: "write_seek_loop (get_cluster_size_bytes s1) (hd cs) p s1 = Some (Some (cur, o'), s2)"
    "write_loop (get_cluster_size_bytes s1) buff btw cur o' 0 (replicate ?w 0) s2 = Some (Some c, btw, s')"
    "frame b (set ?X) (set ?X) s1 s'" "hint_ok b s'" "chain b s' ?X"
    "chain_data b s' ?X = overwrite (chain_data b s1 ?X) (unat p) (take (unat btw) buff)"
    using f_write_chain [OF V H C M n P k] by blast
  define fp' where "fp' = fp1\<lparr>pos := p + btw, fsize := (if p + btw > z then p + btw else z), current_cluster := c\<rparr>"
  have sum: "unat (p + btw) = unat p + unat btw" using Z(3) by (rule unat_plus_u32)
  have fz: "unat (fsize fp') = max (unat p + unat btw) (unat z)"
    using sum by (auto simp: fp'_def word_less_nat_alt)
  have lX: "length ?X = length cs + k" using k(2) by simp
  have cap: "unat p + unat btw \<le> length ?X * ?w"
  proof -
    have "unat p + unat btw \<le> clusters_for ?w (unat p + unat btw) * ?w" by (rule clusters_for_ge [OF p0])
    also have "\<dots> \<le> length ?X * ?w" using k(1) lX by (intro mult_le_mono1) simp
    finally show ?thesis .
  qed
  have cap2: "unat z \<le> length ?X * ?w"
    using Z(1) lX by (metis add_mult_distrib trans_le_add1)
  have "vol_ok b s'" using w(3) by (simp add: frame_def)
  then have "file_on b s' fp' ?X"
    using w(5) ne fp sum fz cap cap2 by (simp add: file_on_def) (simp add: fp'_def sum)
  moreover have "file_bytes b s' fp' ?X = write_at (take (unat z) (chain_data b s1 cs)) (unat p) (take (unat btw) buff)"
  proof -
    define E where "E = chain_data b s1 (take k (free_list b s1))"
    have cat: "chain_data b s1 ?X = chain_data b s1 cs @ E" by (simp add: chain_data_def E_def)
    have L: "length (chain_data b s1 cs) + length E = length ?X * ?w"
      using length_chain_data [OF V, of ?X] cat by simp
    have "take (max (unat p + length (take (unat btw) buff)) (unat z)) (overwrite (chain_data b s1 cs @ E) (unat p) (take (unat btw) buff))
        = take (unat p) (take (unat z) (chain_data b s1 cs)) @ take (unat btw) buff
          @ drop (unat p + length (take (unat btw) buff)) (take (unat z) (chain_data b s1 cs))"
      using Z length_chain_data [OF V, of cs] L cap n(2) by (intro take_overwrite_file) simp_all
    then show ?thesis using w(6) cat fz n(2) by (simp add: file_bytes_def write_at_def)
  qed
  ultimately show ?thesis using w fp'_def by blast
qed

lemma f_write_ok:
  assumes F: "file_on b s fp cs" and H: "hint_ok b s" and M: "disk_malloc_ok s (512 * spc b)"
    and n: "0 < unat btw" "unat btw \<le> length buff" and Z: "unat (pos fp) + unat btw < 2 ^ 32"
    and k: "k = clusters_for (512 * spc b) (unat (pos fp) + unat btw) - length cs" "k \<le> length (free_list b s)"
  shows "\<exists>fp' s'. f_write fp buff btw s = Some (True, btw, fp', s')
     \<and> file_on b s' fp' (cs @ take k (free_list b s)) \<and> hint_ok b s' \<and> pos fp' = pos fp + btw
     \<and> frame b (set (cs @ take k (free_list b s))) (set (cs @ take k (free_list b s))) s s'
     \<and> file_bytes b s' fp' (cs @ take k (free_list b s))
       = write_at (file_bytes b s fp cs) (unat (pos fp)) (take (unat btw) buff)"
proof -
  let ?w = "512 * spc b"
  have V: "vol_ok b s" using F by (simp add: file_on_def)
  have p0: "0 < ?w" using wf_bpbD(2) [OF vol_okD(2) [OF V]] by simp
  have m: "unat (get_cluster_size_bytes s) = ?w" using vol_okD(6) [OF V] .
  show ?thesis
  proof (cases "cs = []")
    case False
    then have C: "chain b s cs" "first_cluster fp = hd cs" using F by (auto simp: file_on_def)
    have "in_vol b (hd cs)" using chain_in_vol [OF C(1)] False by simp
    then have nz: "hd cs \<noteq> 0" using in_vol_range(3) [OF V] by simp
    from f_write_body [OF V H C(1) M n _ _ Z k refl refl C(2)] F
    obtain cur o' s2 c s' fp' where "write_seek_loop (get_cluster_size_bytes s) (hd cs) (pos fp) s = Some (Some (cur, o'), s2)"
      "write_loop (get_cluster_size_bytes s) buff btw cur o' 0 (replicate ?w 0) s2 = Some (Some c, btw, s')"
      "fp' = fp\<lparr>pos := pos fp + btw, fsize := (if pos fp + btw > fsize fp then pos fp + btw else fsize fp), current_cluster := c\<rparr>"
      "file_on b s' fp' (cs @ take k (free_list b s))" "hint_ok b s'"
      "frame b (set (cs @ take k (free_list b s))) (set (cs @ take k (free_list b s))) s s'"
      "file_bytes b s' fp' (cs @ take k (free_list b s))
        = write_at (file_bytes b s fp cs) (unat (pos fp)) (take (unat btw) buff)"
      by (auto simp: file_on_def file_bytes_def)
    then show ?thesis using C(2) nz M p0 m
      by (simp add: f_write_def Let_def malloc_def)
  next
    case True
    have z: "first_cluster fp = 0" "fsize fp = 0" "pos fp = 0"
      using F True by (auto simp: file_on_def unat_eq_0)
    have "0 * ?w < unat btw" using n by simp
    then have "0 < clusters_for ?w (unat (pos fp) + unat btw)" using clusters_for_gt [OF p0] z by simp
    then have "0 < k" using k(1) True by simp
    then obtain k' where k': "k = Suc k'" using gr0_conv_Suc by auto
    then obtain c0 ns where FL: "free_list b s = c0 # ns" using k(2) by (cases "free_list b s") auto
    note f = free_list_Cons [OF V H FL]
    define s1 where "s1 = alloc_upd b c0 s"
    have V1: "vol_ok b s1" using V by (simp add: s1_def)
    have C1: "chain b s1 [c0]"
      using f(1) alloc_upd_maps(1) [OF V f(1) in_vol_entry [OF f(1)]] by (simp add: s1_def CLUSTER_END_OF_CHAIN_def)
    have F1: "free_list b s1 = ns" "hint_ok b s1" using f by (simp_all add: s1_def)
    have M1: "disk_malloc_ok s1 ?w" using M by (simp add: s1_def)
    have g1: "get_cluster_size_bytes s1 = get_cluster_size_bytes s" by (simp add: s1_def get_cluster_size_bytes_def)
    define fp1 where "fp1 = fp\<lparr>first_cluster := c0, current_cluster := c0\<rparr>"
    have kk: "k' = clusters_for ?w (unat (0 :: u32) + unat btw) - length [c0]" "k' \<le> length (free_list b s1)"
      using k k' True z FL F1 by auto
    have zz: "unat (0 :: u32) \<le> length [c0] * ?w" "unat (0 :: u32) \<le> unat (0 :: u32)" "unat (0 :: u32) + unat btw < 2 ^ 32"
      using Z z by auto
    have X: "cs @ take k (free_list b s) = [c0] @ take k' ns" using True FL k' by simp
    obtain cur o' s2 c s' fp' where w: "write_seek_loop (get_cluster_size_bytes s) c0 0 s1 = Some (Some (cur, o'), s2)"
      "write_loop (get_cluster_size_bytes s) buff btw cur o' 0 (replicate ?w 0) s2 = Some (Some c, btw, s')"
      "fp' = fp1\<lparr>pos := btw, fsize := (if btw > 0 then btw else 0), current_cluster := c\<rparr>"
      "file_on b s' fp' ([c0] @ take k' ns)" "hint_ok b s'"
      "frame b (set ([c0] @ take k' ns)) (set ([c0] @ take k' ns)) s1 s'"
      "file_bytes b s' fp' ([c0] @ take k' ns) = write_at [] 0 (take (unat btw) buff)"
      using f_write_body [OF V1 F1(2) C1 M1 n zz kk, of fp1] z unfolding F1(1) g1 add_0_left
      by (auto simp: fp1_def)
    have "frame b (set ([c0] @ take k' ns)) (set ([c0] @ take k' ns)) s s'"
      using frame_trans [OF frame_alloc_upd [OF V f(1), folded s1_def] w(6)] by (auto elim!: frame_mono)
    moreover have "file_bytes b s fp cs = []" using z by (simp add: file_bytes_def)
    moreover have "fat32_allocate_cluster s = Some (Some c0, s1)"
      using allocate_Cons [OF V H FL] by (simp add: s1_def)
    moreover have bt: "0 < btw" using n(1) by (simp add: word_less_nat_alt)
    ultimately show ?thesis using w(1,2,4,5,7) z M p0 m unfolding X w(3) if_P [OF bt]
      by (simp add: f_write_def Let_def malloc_def fp1_def)
  qed
qed

section \<open>Properties\<close>

text \<open>
  Reading a file: on a sound open file \<open>f_read\<close> returns true with the number of bytes the request and
  the rest of the file allow, puts exactly those bytes of the file at the front of the buffer, and
  advances the position by that number. In particular it reads nothing at the end of the file.
\<close>

theorem f_read_returns_file_bytes:
  assumes "file_on b s fp cs" "disk_malloc_ok s (512 * spc b)"
    "n = min (unat btr) (unat (fsize fp) - unat (pos fp))" "n \<le> length buff"
  shows "f_read fp buff btr s = Some (True,
     overwrite buff 0 (bslice (unat (pos fp)) n (file_bytes b s fp cs)), of_nat n, fp\<lparr>pos := pos fp + of_nat n\<rparr>)"
  by (rule f_read_ok [OF assms])

definition sample_file :: FAT32_FILE where
  "sample_file = \<lparr>first_cluster = 3, current_cluster = 3, fsize = 600, pos = 500, parent_cluster = 2,
     dir_entry_cluster = 2, dir_entry_offset = 0, fname = [70], fmode = 3, ferror = 0\<rparr>"

lemma sample_file_on: "file_on sample_bpb sample_fs sample_file [3, 4]"
  unfolding file_on_def using sample_chain(1) by (simp add: sample_file_def)

lemma sample_chain_data: "chain_data sample_bpb sample_fs [3, 4] = replicate 512 6 @ replicate 512 7"
  by (simp add: chain_data_def cluster_data_def dev_sectors_def clus_sec_def sample_sec)

theorem f_read_returns_file_bytes_witness:
  "f_read sample_file (replicate 40 0) 20 sample_fs
     = Some (True, replicate 12 6 @ replicate 8 7 @ replicate 20 0, 20, sample_file\<lparr>pos := 520\<rparr>)"
  using f_read_returns_file_bytes [OF sample_file_on, of 20 20 "replicate 40 0"]
  by (simp add: file_bytes_def sample_chain_data sample_file_def bslice_def overwrite_def)

text \<open>
  C12. Writing a file: on a sound open file, with the clusters it takes free and reachable,
  \<open>f_write\<close> returns true and the full count; the file then consists of the old bytes before the position,
  the bytes written, and the old bytes after them, its chain has gained exactly the missing clusters
  from the front of the free list, the position is after the bytes written, and every chain of
  another file is unchanged with its contents.
\<close>

theorem f_write_updates_file_bytes:
  assumes F: "file_on b s fp cs" and H: "hint_ok b s" and M: "disk_malloc_ok s (512 * spc b)"
    and n: "0 < unat btw" "unat btw \<le> length buff" and Z: "unat (pos fp) + unat btw < 2 ^ 32"
    and k: "k = clusters_for (512 * spc b) (unat (pos fp) + unat btw) - length cs" "k \<le> length (free_list b s)"
  shows "\<exists>fp' s'. f_write fp buff btw s = Some (True, btw, fp', s')
     \<and> file_on b s' fp' (cs @ take k (free_list b s)) \<and> pos fp' = pos fp + btw
     \<and> file_bytes b s' fp' (cs @ take k (free_list b s))
       = write_at (file_bytes b s fp cs) (unat (pos fp)) (take (unat btw) buff)
     \<and> (\<forall>ds. chain b s ds \<and> set ds \<inter> set cs = {} \<longrightarrow>
          chain b s' ds \<and> map (cluster_data b s') ds = map (cluster_data b s) ds)"
proof -
  obtain fp' s' where w: "f_write fp buff btw s = Some (True, btw, fp', s')"
    "file_on b s' fp' (cs @ take k (free_list b s))" "pos fp' = pos fp + btw"
    "frame b (set (cs @ take k (free_list b s))) (set (cs @ take k (free_list b s))) s s'"
    "file_bytes b s' fp' (cs @ take k (free_list b s))
       = write_at (file_bytes b s fp cs) (unat (pos fp)) (take (unat btw) buff)"
    using f_write_ok [OF F H M n Z k] by blast
  have V: "vol_ok b s" using F by (simp add: file_on_def)
  have "chain b s' ds \<and> map (cluster_data b s') ds = map (cluster_data b s) ds"
    if ds: "chain b s ds" "set ds \<inter> set cs = {}" for ds
  proof -
    have "set ds \<inter> set (cs @ take k (free_list b s)) = {}"
      using ds(2) free_not_in_chain [OF V H ds(1)] set_take_subset [of k "free_list b s"] by auto
    then show ?thesis by (intro chain_data_kept [OF w(4) ds(1)])
  qed
  then show ?thesis using w by blast
qed

theorem f_write_updates_file_bytes_witness:
  "\<exists>fp' s'. f_write sample_file (replicate 600 9) 600 sample_fs = Some (True, 600, fp', s')
     \<and> file_bytes sample_bpb s' fp' [3, 4, 5] = replicate 500 6 @ replicate 600 9"
proof -
  obtain r where r: "free_list sample_bpb sample_fs = 5 # 6 # r" using sample_free_list by blast
  have "1 = clusters_for (512 * spc sample_bpb) (unat (pos sample_file) + unat (600 :: u32)) - length [3, 4 :: u32]"
    by (simp add: clusters_for_def sample_file_def)
  from f_write_updates_file_bytes [OF sample_file_on sample_hint _ _ _ _ this, of "replicate 600 9"]
  obtain fp' s' where "f_write sample_file (replicate 600 9) 600 sample_fs = Some (True, 600, fp', s')"
    "file_bytes sample_bpb s' fp' [3, 4, 5] = write_at (file_bytes sample_bpb sample_fs sample_file [3, 4]) 500 (replicate 600 9)"
    by (auto simp: r sample_file_def)
  then show ?thesis by (simp add: file_bytes_def sample_chain_data sample_file_def write_at_def)
qed

text \<open>
  C13. Write then read back: after writing \<open>n\<close> bytes and seeking to where they were written, \<open>f_read\<close> of \<open>n\<close>
  bytes returns exactly the bytes written.
\<close>

theorem f_write_lseek_read_roundtrip:
  assumes F: "file_on b s fp cs" and H: "hint_ok b s" and M: "disk_malloc_ok s (512 * spc b)"
    and n: "0 < unat btw" "unat btw = length data" "length buff = length data" and Z: "unat (pos fp) + unat btw < 2 ^ 32"
    and k: "clusters_for (512 * spc b) (unat (pos fp) + unat btw) - length cs \<le> length (free_list b s)"
  shows "\<exists>fp1 fp2 fp3 s'. f_write fp data btw s = Some (True, btw, fp1, s')
     \<and> f_lseek fp1 (pos fp) s' = Some (True, fp2) \<and> f_read fp2 buff btw s' = Some (True, data, btw, fp3)
     \<and> f_tell fp3 = f_tell fp1"
proof -
  define X where "X = cs @ take (clusters_for (512 * spc b) (unat (pos fp) + unat btw) - length cs) (free_list b s)"
  obtain fp1 s' where w: "f_write fp data btw s = Some (True, btw, fp1, s')" "file_on b s' fp1 X"
    "pos fp1 = pos fp + btw" "frame b (set X) (set X) s s'"
    "file_bytes b s' fp1 X = write_at (file_bytes b s fp cs) (unat (pos fp)) data"
    using f_write_ok [OF F H M n(1) _ Z refl k] n unfolding X_def by fastforce
  have V: "vol_ok b s'" using w(2) by (simp add: file_on_def)
  let ?w = "512 * spc b"
  have p0: "0 < ?w" using wf_bpbD(2) [OF vol_okD(2) [OF V]] by simp
  have m: "unat (get_cluster_size_bytes s') = ?w" using vol_okD(6) [OF V] .
  have sum: "unat (pos fp + btw) = unat (pos fp) + unat btw" using Z by (rule unat_plus_u32)
  have sz: "unat (pos fp) + unat btw \<le> unat (fsize fp1)" using w(2,3) sum by (simp add: file_on_def)
  then have ne: "X \<noteq> []" and C: "chain b s' X" "first_cluster fp1 = hd X"
    using w(2) n(1) by (auto simp: file_on_def split: if_splits)
  have le: "unat (fsize fp1) \<le> length X * ?w" using w(2) by (simp add: file_on_def)
  have "unat (pos fp) div ?w < length X" using sz le n(1) p0 by (simp add: div_less_iff_less_mult)
  then obtain o' where sk: "seek_loop (get_cluster_size_bytes s') (hd X) (pos fp) s' = Some (X ! (unat (pos fp) div ?w), o')"
    using seek_loop_ok [OF V C(1) m, of 0 "pos fp"] ne by (auto simp: hd_conv_nth)
  define fp2 where "fp2 = fp1\<lparr>pos := pos fp, current_cluster := X ! (unat (pos fp) div ?w)\<rparr>"
  have "\<not> pos fp > fsize fp1" using sz by (simp add: word_less_nat_alt)
  then have ls: "f_lseek fp1 (pos fp) s' = Some (True, fp2)"
    using sk C(2) by (simp add: f_lseek_def Let_def fp2_def)
  have F2: "file_on b s' fp2 X" using w(2) sz by (simp add: file_on_def fp2_def)
  have fb: "file_bytes b s' fp2 X = file_bytes b s' fp1 X" by (simp add: file_bytes_def fp2_def)
  have "length (file_bytes b s fp cs) = unat (fsize fp)" by (rule length_file_bytes [OF F])
  moreover have "unat (pos fp) \<le> unat (fsize fp)" using F by (simp add: file_on_def)
  ultimately have "bslice (unat (pos fp)) (unat btw) (file_bytes b s' fp2 X) = data"
    unfolding fb w(5) using n(2) by (simp add: write_at_def bslice_def)
  moreover have "unat btw = min (unat btw) (unat (fsize fp2) - unat (pos fp2))" using sz by (simp add: fp2_def)
  moreover have "disk_malloc_ok s' ?w" using M w(4) by (simp add: frame_def)
  moreover have "of_nat (length data) = btw" using n(2) by (metis of_nat_unat ucast_id)
  ultimately have "f_read fp2 buff btw s' = Some (True, data, btw, fp2\<lparr>pos := pos fp + btw\<rparr>)"
    using f_read_ok [OF F2, of "unat btw" btw buff] n by (simp add: fp2_def)
  then show ?thesis using w(1,3) ls by (auto simp: f_tell_def)
qed

theorem f_write_lseek_read_roundtrip_witness:
  "\<exists>fp1 fp2 fp3 s'. f_write sample_file (replicate 600 9) 600 sample_fs = Some (True, 600, fp1, s')
     \<and> f_lseek fp1 500 s' = Some (True, fp2) \<and> f_read fp2 (replicate 600 0) 600 s' = Some (True, replicate 600 9, 600, fp3)"
proof -
  obtain r where r: "free_list sample_bpb sample_fs = 5 # 6 # r" using sample_free_list by blast
  have "clusters_for (512 * spc sample_bpb) (unat (pos sample_file) + unat (600 :: u32)) - length [3, 4 :: u32]
      \<le> length (free_list sample_bpb sample_fs)"
    by (simp add: clusters_for_def sample_file_def r)
  from f_write_lseek_read_roundtrip [OF sample_file_on sample_hint _ _ _ _ _ this, of "replicate 600 9" "replicate 600 0"]
  show ?thesis by (auto simp: sample_file_def)
qed

end
