(* ===== verification/FatEntry.thy ===== *)
theory FatEntry
  imports FatDir
begin

text \<open>
  What the directory code of FatDir promises: entries survive the trip through their 32
  bytes on disk, a long name survives the trip through its entries, the free-slot search
  returns the first run of free slots, and an entry that \<open>fat32_create_dir_entry\<close> made is the one
  that \<open>fat32_find_file\<close> finds afterwards.
\<close>

section \<open>Entries and names\<close>

lemma length_entry_bytes: "length (DIR_Name e) = 11 \<Longrightarrow> length (entry_bytes e) = 32"
  by (simp add: entry_bytes_def)

lemma bslice_append: "bslice o2 n (a @ b) = (if o2 + n \<le> length a then bslice o2 n a else if length a \<le> o2 then bslice (o2 - length a) n b
   else bslice o2 n (a @ b))"
  by (auto simp: bslice_def)

lemma entry_roundtrip: "length (DIR_Name e) = 11 \<Longrightarrow> entry_of_bytes (entry_bytes e) = e"
  by (cases e) (simp add: entry_of_bytes_def entry_bytes_def rd8_def rd16_def rd32_def bslice_def nth_append)

lemma clus_halves: "push_bit 16 (ucast (ucast (drop_bit 16 c :: u32) :: u16)) OR ucast (ucast c :: u16) = (c :: u32)"
  by (rule bit_word_eqI) (auto simp: bit_simps not_less)

lemma new_entry_cluster [simp]: "entry_cluster (new_entry n a c z) = c"
  by (simp add: entry_cluster_def new_entry_def clus_halves)

lemma new_entry_fields [simp]:
  "DIR_Name (new_entry n a c z) = n" "DIR_Attr (new_entry n a c z) = a" "DIR_FileSize (new_entry n a c z) = z"
  by (simp_all add: new_entry_def)

lemma length_copy_base: "length (fst (copy_base n cs)) \<le> n"
  by (induction n cs rule: copy_base.induct) (auto split: prod.splits)

lemma length_format_83 [simp]: "length (fat32_format_83_name name) = 11"
  using length_copy_base [of 8 name]
  by (auto simp: fat32_format_83_name_def Let_def split: prod.splits list.splits)

lemma length_concat_le16 [simp]: "length (concat (map le16 cs)) = 2 * length cs"
  by (induction cs) auto

lemma length_lfn_bytes [simp]: "length (lfn_bytes (lfn_entry name k n ord)) = 32"
  by (simp add: lfn_bytes_def lfn_entry_def Let_def upt_rec)

lemma lfn_chars_entry:
  "lfn_chars (lfn_bytes (lfn_entry name k n ord)) = map (\<lambda>j. lfn_char name ((ord - 1) * 13 + j)) [0..<13]"
  by (simp add: lfn_chars_def lfn_bytes_def lfn_entry_def Let_def upt_rec rd16_def bslice_def eval_nat_numeral)

lemma lfn_header:
  "rd8 (lfn_bytes (lfn_entry name k n ord)) 0 = (if ord = n then of_nat ord OR 0x40 else of_nat ord)"
  "rd8 (lfn_bytes (lfn_entry name k n ord)) 11 = ATTR_LONG_NAME"
  by (simp_all add: lfn_bytes_def lfn_entry_def Let_def upt_rec rd8_def nth_append)

section \<open>Slots\<close>

text \<open>The 32-byte slots of a directory cluster.\<close>

definition slot :: "bytes \<Rightarrow> nat \<Rightarrow> bytes" where
  "slot buf i = bslice (32 * i) 32 buf"

abbreviation slots :: "nat \<Rightarrow> nat \<Rightarrow> nat list" where
  "slots i n \<equiv> map (\<lambda>i. 32 * i) [i..<n]"

definition free_slot :: "bytes \<Rightarrow> bool" where
  "free_slot e \<longleftrightarrow> rd8 e 0 = 0 \<or> rd8 e 0 = 0xE5"

lemma slots_Cons: "i < n \<Longrightarrow> slots i n = 32 * i # slots (Suc i) n"
  by (simp add: upt_conv_Cons)

lemma slot_first: "32 * i < length buf \<Longrightarrow> rd8 (slot buf i) 0 = buf ! (32 * i)"
  by (simp add: slot_def rd8_def bslice_def)

lemma ld_slot: "32 * n \<le> length buf \<Longrightarrow> i < n \<Longrightarrow> ld_entry buf (32 * i) = Some (slot buf i)"
  by (simp add: ld_entry_def slot_def)

lemma st_slot:
  assumes "32 * n \<le> length buf" "i < n" "length d = 32"
  shows "\<exists>buf'. st_bytes buf (32 * i) d = Some buf' \<and> length buf' = length buf
     \<and> (\<forall>k<n. slot buf' k = (if k = i then d else slot buf k))"
proof -
  have le: "32 * i + length d \<le> length buf" using assms by simp
  have "slot (overwrite buf (32 * i) d) k = slot buf k" if "k < n" "k \<noteq> i" for k
    unfolding slot_def using that assms by (intro bslice_overwrite_other) auto
  then show ?thesis using le assms(3) by (auto simp: st_bytes_def slot_def bslice_overwrite_same)
qed

lemma entry_offsets_slots: "32 dvd w \<Longrightarrow> entry_offsets w = slots 0 (w div 32)"
  by (auto simp: entry_offsets_def)

text \<open>The free-slot search finds the first run of free slots that is long enough.\<close>

lemma free_run_found:
  assumes L: "32 * n \<le> length buf" "n < 2 ^ 27" and nd: "unat needed = nd"
  shows "free_run needed buf (of_nat k) (slots i n) = Some r \<Longrightarrow> k < nd \<Longrightarrow> k \<le> i \<Longrightarrow> i \<le> n \<Longrightarrow>
     (\<forall>m. i - k \<le> m \<and> m < i \<longrightarrow> free_slot (slot buf m)) \<Longrightarrow> (i = k \<or> \<not> free_slot (slot buf (i - k - 1))) \<Longrightarrow>
     case r of
       None \<Rightarrow> True
     | Some off \<Rightarrow> \<exists>j. unat off = 32 * j \<and> j + nd \<le> n \<and> (\<forall>m. j \<le> m \<and> m < j + nd \<longrightarrow> free_slot (slot buf m))
         \<and> (j = 0 \<or> \<not> free_slot (slot buf (j - 1)))"
proof (induction "n - i" arbitrary: i k)
  case 0
  then show ?case by auto
next
  case (Suc x)
  then have lt: "i < n" by simp
  have k1: "(of_nat k + 1 :: u32) = of_nat (Suc k)" by simp
  have bi: "32 * i < length buf" using L lt by simp
  show ?case
  proof (cases "free_slot (slot buf i)")
    case True
    then have fr: "buf ! (32 * i) = 0 \<or> buf ! (32 * i) = 0xE5" using slot_first [OF bi] by (simp add: free_slot_def)
    show ?thesis
    proof (cases "Suc k = nd")
      case eq: True
      have ne: "(of_nat k + 1 :: u32) = needed"
        unfolding k1 using eq nd by (metis of_nat_unat ucast_id)
      have r: "r = Some (of_nat (32 * i) - (needed - 1) * 32)"
        using Suc.prems(1) fr bi ne unfolding slots_Cons [OF lt] by simp
      have "needed - 1 = of_nat k" using ne by (metis add_diff_cancel_right')
      then have "of_nat (32 * i) - (needed - 1) * 32 = (of_nat (32 * (i - k)) :: u32)"
        using Suc.prems(3) by (simp add: algebra_simps of_nat_diff)
      moreover have "unat (of_nat (32 * (i - k)) :: u32) = 32 * (i - k)"
        using lt L(2) by (simp add: unat_of_nat del: of_nat_mult)
      ultimately have "unat (of_nat (32 * i) - (needed - 1) * 32) = 32 * (i - k)" by simp
      moreover have "i - k + nd \<le> n" using eq Suc.prems(3) lt by simp
      moreover have "\<forall>m. i - k \<le> m \<and> m < i - k + nd \<longrightarrow> free_slot (slot buf m)"
        using Suc.prems(3,5) True eq by (auto simp: less_Suc_eq)
      ultimately show ?thesis using r Suc.prems(6) by auto
    next
      case False
      have "unat (of_nat (Suc k) :: u32) = Suc k" using Suc.prems(2) nd unat_u32_lt [of needed] by (simp add: unat_of_nat del: of_nat_Suc)
      then have "(of_nat k + 1 :: u32) \<noteq> needed" unfolding k1 using False nd by metis
      then have "free_run needed buf (of_nat (Suc k)) (slots (Suc i) n) = Some r"
        using Suc.prems(1) fr bi unfolding slots_Cons [OF lt] k1 by (simp add: k1 del: of_nat_Suc)
      moreover have "\<forall>m. Suc i - Suc k \<le> m \<and> m < Suc i \<longrightarrow> free_slot (slot buf m)"
        using Suc.prems(5) True by (auto simp: less_Suc_eq)
      ultimately show ?thesis using Suc.hyps(1) [of "Suc i" "Suc k"] Suc.hyps(2) Suc.prems False by auto
    qed
  next
    case False
    then have "\<not> (buf ! (32 * i) = 0 \<or> buf ! (32 * i) = 0xE5)" using slot_first [OF bi] by (simp add: free_slot_def)
    then have "free_run needed buf (of_nat 0) (slots (Suc i) n) = Some r"
      using Suc.prems(1) bi unfolding slots_Cons [OF lt] by simp
    then show ?thesis using Suc.hyps(1) [of "Suc i" 0] Suc.hyps(2) Suc.prems False by auto
  qed
qed

lemma free_run_total:
  "32 * n \<le> length buf \<Longrightarrow> \<exists>r. free_run needed buf k (slots i n) = Some r"
proof (induction "n - i" arbitrary: i k)
  case (Suc x)
  then have lt: "i < n" "32 * i < length buf" by auto
  show ?case using Suc.hyps(1) [of "Suc i"] Suc.hyps(2) Suc.prems lt
    unfolding slots_Cons [OF lt(1)] by auto
qed simp

text \<open>Writing the long-name entries fills consecutive slots.\<close>

lemma write_lfn_ok:
  "32 * n \<le> length buf \<Longrightarrow> j + i + m \<le> n \<Longrightarrow>
   \<exists>buf'. write_lfn_entries name ck cnt (32 * j) i m buf = Some buf' \<and> length buf' = length buf
     \<and> (\<forall>k<n. slot buf' k = (if j + i \<le> k \<and> k < j + i + m then lfn_bytes (lfn_entry name ck cnt (cnt - (k - j)))
                else slot buf k))"
proof (induction m arbitrary: i buf)
  case (Suc m)
  obtain b1 where b1: "st_bytes buf (32 * (j + i)) (lfn_bytes (lfn_entry name ck cnt (cnt - i))) = Some b1"
    "length b1 = length buf"
    "\<forall>k<n. slot b1 k = (if k = j + i then lfn_bytes (lfn_entry name ck cnt (cnt - i)) else slot buf k)"
    using st_slot [of n buf "j + i" "lfn_bytes (lfn_entry name ck cnt (cnt - i))"] Suc.prems by auto
  have e: "32 * j + i * 32 = 32 * (j + i)" by simp
  obtain b2 where b2: "write_lfn_entries name ck cnt (32 * j) (Suc i) m b1 = Some b2" "length b2 = length b1"
    "\<forall>k<n. slot b2 k = (if j + Suc i \<le> k \<and> k < j + Suc i + m then lfn_bytes (lfn_entry name ck cnt (cnt - (k - j)))
                else slot b1 k)"
    using Suc.IH [of b1 "Suc i"] b1(2) Suc.prems by auto
  have "slot b2 k = (if j + i \<le> k \<and> k < j + i + Suc m then lfn_bytes (lfn_entry name ck cnt (cnt - (k - j)))
                else slot buf k)" if "k < n" for k
    using b2(3) b1(3) that by auto
  then show ?case using b1 b2(1,2) unfolding write_lfn_entries.simps e by simp
qed auto

section \<open>Scanning\<close>

lemma lfn_store_all_ok:
  "0 \<le> p \<Longrightarrow> nat p + length cs \<le> length ln \<Longrightarrow>
   lfn_store_all cs p ln = Some (overwrite ln (nat p) (map ucast cs))"
proof (induction cs arbitrary: p ln)
  case (Cons c cs)
  have e: "nat (p + 1) = Suc (nat p)" using Cons.prems by simp
  have "overwrite (ln[nat p := ucast c]) (Suc (nat p)) (map ucast cs) = overwrite ln (nat p) (ucast c # map ucast cs)"
    by (rule nth_equalityI) (use Cons.prems in \<open>auto simp: nth_overwrite nth_Cons' nth_list_update\<close>)
  then show ?case using Cons.IH [of "p + 1" "ln[nat p := ucast c]"] Cons.prems e by (simp add: st_char_def)
qed simp

lemma lfn_store_all_length: "lfn_store_all cs p ln = Some ln' \<Longrightarrow> length ln' = length ln"
  by (induction cs p ln rule: lfn_store_all.induct) (auto simp: st_char_def split: bind_splits if_splits)

text \<open>
  One slot of the scan: go on with the long name collected so far (\<open>Inl\<close>), or stop there, with or
  without a match.
\<close>

definition scan_one :: "bytes \<Rightarrow> bytes \<Rightarrow> bytes \<Rightarrow> bytes \<Rightarrow> (bytes + bool) option" where
  "scan_one name short e ln =
     (if rd8 e 0 = 0 then Some (Inr False)
      else if rd8 e 0 = 0xE5 then Some (Inl ln)
      else if rd8 e 11 = ATTR_LONG_NAME then map_option Inl (lfn_store_all (lfn_chars e) (lfn_pos e) ln)
      else map_option (\<lambda>eq. if eq \<or> bslice 0 11 e = short then Inr True else Inl no_long_name) (strcmp_eq ln name))"

lemma scan_step:
  assumes "32 * n \<le> length buf" "i < n"
  shows "find_file_scan name short buf (slots i n) ln =
     (case scan_one name short (slot buf i) ln of
        None \<Rightarrow> None
      | Some (Inl ln') \<Rightarrow> find_file_scan name short buf (slots (Suc i) n) ln'
      | Some (Inr m) \<Rightarrow> Some (if m then Some (32 * i) else None, ln))"
  using ld_slot [OF assms] unfolding slots_Cons [OF assms(2)]
  by (auto simp: scan_one_def split: option.splits)

lemma scan_one_length:
  "scan_one name short e ln = Some (Inl ln') \<Longrightarrow> length ln = LONG_FILENAME_SIZE \<Longrightarrow> length ln' = LONG_FILENAME_SIZE"
  by (auto simp: scan_one_def lfn_store_all_length split: if_splits)

lemma scan_one_end: "scan_one name short e ln = Some (Inr False) \<Longrightarrow> rd8 e 0 = 0"
  by (auto simp: scan_one_def split: if_splits)

lemma find_file_scan_length:
  "32 * n \<le> length buf \<Longrightarrow> find_file_scan name short buf (slots i n) ln = Some (r, ln') \<Longrightarrow>
   length ln = LONG_FILENAME_SIZE \<Longrightarrow> length ln' = LONG_FILENAME_SIZE"
proof (induction "n - i" arbitrary: i ln)
  case (Suc x)
  then have i: "i < n" "x = n - Suc i" by auto
  show ?case using Suc.prems Suc.hyps(1) [OF i(2)] unfolding scan_step [OF Suc.prems(1) i(1)]
    by (auto split: option.splits sum.splits dest: scan_one_length)
qed simp

lemma strcmp_eq_total:
  "length name < length ln \<Longrightarrow> strcmp_eq ln name = Some (take (Suc (length name)) ln = name @ [0])"
  by (simp add: strcmp_eq_def)

lemma scan_prefix:
  assumes L: "32 * n \<le> length buf" "32 * n \<le> length buf'" and j: "j \<le> n"
    and same: "\<forall>k<j. slot buf' k = slot buf k" and live: "\<forall>k<j. rd8 (slot buf k) 0 \<noteq> 0"
  shows "find_file_scan name short buf (slots i n) ln = Some (None, ln') \<Longrightarrow> length ln = LONG_FILENAME_SIZE \<Longrightarrow>
    i \<le> j \<Longrightarrow> \<exists>ln1. length ln1 = LONG_FILENAME_SIZE \<and>
      find_file_scan name short buf' (slots i n) ln = find_file_scan name short buf' (slots j n) ln1"
proof (induction "j - i" arbitrary: i ln)
  case 0
  then have "i = j" by simp
  then show ?case using 0 by blast
next
  case (Suc x)
  then have ij: "i < j" "i < n" "x = j - Suc i" using j by auto
  have eq: "slot buf' i = slot buf i" using same ij(1) by simp
  obtain ln2 where o: "scan_one name short (slot buf i) ln = Some (Inl ln2)"
    "find_file_scan name short buf (slots (Suc i) n) ln2 = Some (None, ln')"
    using Suc.prems(1) live ij(1) scan_one_end unfolding scan_step [OF L(1) ij(2)]
    by (fastforce split: option.splits sum.splits if_splits)
  have "length ln2 = LONG_FILENAME_SIZE" using scan_one_length [OF o(1) Suc.prems(2)] .
  then show ?case using Suc.hyps(1) [OF ij(3) o(2)] ij(1) o(1) unfolding scan_step [OF L(2) ij(2)] eq by simp
qed

lemma overwrite_front:
  "length d = off \<Longrightarrow> off + length e \<le> length b \<Longrightarrow> overwrite (overwrite b off e) 0 d = overwrite b 0 (d @ e)"
  by (simp add: overwrite_def)

lemma lfn_order:
  assumes "0 < k" "k \<le> 19"
  shows "lfn_pos (lfn_bytes (lfn_entry name ck n k)) = int ((k - 1) * 13)"
    "\<not> free_slot (lfn_bytes (lfn_entry name ck n k))"
proof -
  have "\<forall>k\<in>set [1..<20]. uint ((of_nat k OR 0x40 :: u8) AND 0x1F) = int k \<and> uint ((of_nat k :: u8) AND 0x1F) = int k
      \<and> of_nat k OR 0x40 \<noteq> (0 :: u8) \<and> of_nat k OR 0x40 \<noteq> (0xE5 :: u8) \<and> of_nat k \<noteq> (0 :: u8) \<and> of_nat k \<noteq> (0xE5 :: u8)"
    by code_simp
  moreover have "k \<in> set [1..<20]" using assms by simp
  ultimately have k: "uint ((of_nat k OR 0x40 :: u8) AND 0x1F) = int k" "uint ((of_nat k :: u8) AND 0x1F) = int k"
    "of_nat k OR 0x40 \<noteq> (0 :: u8)" "of_nat k OR 0x40 \<noteq> (0xE5 :: u8)" "of_nat k \<noteq> (0 :: u8)" "of_nat k \<noteq> (0xE5 :: u8)"
    by blast+
  have h: "rd8 (lfn_bytes (lfn_entry name ck n k)) 0 \<in> {of_nat k OR 0x40, of_nat k}" using lfn_header(1) by simp
  then show "lfn_pos (lfn_bytes (lfn_entry name ck n k)) = int ((k - 1) * 13)"
    using k assms by (auto simp: lfn_pos_def of_nat_diff)
  show "\<not> free_slot (lfn_bytes (lfn_entry name ck n k))" using h k by (auto simp: free_slot_def)
qed

definition lfn_text :: "bytes \<Rightarrow> nat \<Rightarrow> bytes" where
  "lfn_text name k = map (\<lambda>t. ucast (lfn_char name t)) [0..<13 * k]"

lemma scan_lfn_run:
  assumes L: "32 * n \<le> length buf" and j: "j + cnt \<le> n" "cnt \<le> 19"
    and run: "\<forall>k<cnt. slot buf (j + k) = lfn_bytes (lfn_entry name ck cnt (cnt - k))"
  shows "length ln = LONG_FILENAME_SIZE \<Longrightarrow> i \<le> cnt \<Longrightarrow>
    find_file_scan nm short buf (slots (j + i) n) ln =
    find_file_scan nm short buf (slots (j + cnt) n) (overwrite ln 0 (lfn_text name (cnt - i)))"
proof (induction "cnt - i" arbitrary: i ln)
  case 0
  then show ?case by (simp add: lfn_text_def)
next
  case (Suc x)
  then have lt: "i < cnt" "j + i < n" "x = cnt - Suc i" using j by auto
  define e where "e = lfn_bytes (lfn_entry name ck cnt (cnt - i))"
  have sl: "slot buf (j + i) = e" using run lt(1) by (simp add: e_def)
  have o: "lfn_pos e = int (x * 13)" "\<not> free_slot e" "rd8 e 11 = ATTR_LONG_NAME"
    using lfn_order [of "cnt - i" name ck cnt] lfn_header(2) lt j(2) by (simp_all add: e_def)
  have ch: "lfn_chars e = map (\<lambda>t. lfn_char name (x * 13 + t)) [0..<13]"
    using lt by (simp add: e_def lfn_chars_entry)
  have le: "x * 13 + 13 \<le> 256" using lt j(2) by simp
  define ln1 where "ln1 = overwrite ln (x * 13) (map ucast (lfn_chars e))"
  have st: "lfn_store_all (lfn_chars e) (lfn_pos e) ln = Some ln1"
    using lfn_store_all_ok [of "lfn_pos e" "lfn_chars e" ln] o(1) le Suc.prems(1)
    by (simp add: ln1_def ch LONG_FILENAME_SIZE_def nat_mult_distrib)
  have l1: "length ln1 = LONG_FILENAME_SIZE" using lfn_store_all_length [OF st] Suc.prems(1) by simp
  have "lfn_text name x @ map ucast (lfn_chars e) = lfn_text name (cnt - i)"
  proof -
    have "[0..<13 * (cnt - i)] = [0..<13 * x] @ map (\<lambda>t. x * 13 + t) [0..<13]"
      using upt_add_eq_append [of 0 "13 * x" 13] unfolding Suc.hyps(2) [symmetric]
      by (simp add: map_add_upt mult.commute add.commute)
    then show ?thesis by (simp add: lfn_text_def ch)
  qed
  then have "overwrite ln1 0 (lfn_text name x) = overwrite ln 0 (lfn_text name (cnt - i))"
    unfolding ln1_def using le Suc.prems(1)
    by (subst overwrite_front) (simp_all add: lfn_text_def ch LONG_FILENAME_SIZE_def)
  moreover have "find_file_scan nm short buf (slots (j + i) n) ln = find_file_scan nm short buf (slots (j + Suc i) n) ln1"
    using o st unfolding scan_step [OF L lt(2)] sl by (simp add: scan_one_def free_slot_def)
  ultimately show ?case using Suc.hyps(1) [OF lt(3) l1] lt by simp
qed

lemma scan_match:
  assumes "32 * n \<le> length buf" "j < n" "length name < length ln"
    "\<not> free_slot (slot buf j)" "rd8 (slot buf j) 11 \<noteq> ATTR_LONG_NAME"
    "take (Suc (length name)) ln = name @ [0] \<or> bslice 0 11 (slot buf j) = short"
  shows "find_file_scan name short buf (slots j n) ln = Some (Some (32 * j), ln)"
  using assms(3-) unfolding scan_step [OF assms(1,2)] scan_one_def
  by (auto simp: strcmp_eq_total free_slot_def)

section \<open>Walking a directory\<close>

abbreviation csize :: "BPB \<Rightarrow> nat" where "csize b \<equiv> 512 * spc b"
abbreviation nslots :: "BPB \<Rightarrow> nat" where "nslots b \<equiv> 16 * spc b"

lemma csize_slots [simp]: "entry_offsets (csize b) = slots 0 (nslots b)"
  using entry_offsets_slots [of "csize b"] by simp

lemma length_dir_slots: "vol_ok b s \<Longrightarrow> 32 * nslots b \<le> length (cluster_data b s d)"
  by simp

lemma dir_read:
  "vol_ok b s \<Longrightarrow> in_vol b c \<Longrightarrow> length buf = csize b \<Longrightarrow>
   fat32_read_cluster c buf 0 s = Some (True, cluster_data b s c)"
  using read_cluster_ok [of b s c 0 buf] by simp

lemma contiguous_loop_ok:
  assumes V: "vol_ok b s"
  shows "chain b s (c # cs) \<Longrightarrow> length buf = csize b \<Longrightarrow>
    \<exists>r. contiguous_loop needed (csize b) c buf s = Some (True, r) \<and>
      (case r of None \<Rightarrow> True | Some (d, off) \<Rightarrow> d \<in> set (c # cs) \<and>
         free_run needed (cluster_data b s d) 0 (slots 0 (nslots b)) = Some (Some off))"
proof (induction cs arbitrary: c buf)
  case (Nil c buf)
  note f = chain_Cons_cases [OF V Nil(1)]
  obtain r where r: "free_run needed (cluster_data b s c) 0 (slots 0 (nslots b)) = Some r"
    using free_run_total [OF length_dir_slots [OF V]] by blast
  show ?case using f r dir_read [OF V _ Nil(2), of c]
    by (subst contiguous_loop.simps) (auto split: option.splits)
next
  case (Cons d cs c buf)
  note f = chain_Cons_cases [OF V Cons.prems(1)]
  obtain r where r: "free_run needed (cluster_data b s c) 0 (slots 0 (nslots b)) = Some r"
    using free_run_total [OF length_dir_slots [OF V]] by blast
  have "chain b s (d # cs)" using Cons.prems(1) by simp
  from Cons.IH [OF this length_cluster_data [OF V, of c]] obtain r2 where
    "contiguous_loop needed (csize b) d (cluster_data b s c) s = Some (True, r2)"
    "case r2 of None \<Rightarrow> True | Some (d', off) \<Rightarrow> d' \<in> set (d # cs) \<and>
       free_run needed (cluster_data b s d') 0 (slots 0 (nslots b)) = Some (Some off)" by blast
  then show ?case using f r dir_read [OF V _ Cons.prems(2), of c]
    by (subst contiguous_loop.simps) (cases r; cases r2; auto)
qed

lemma find_file_step:
  assumes V: "vol_ok b s" and C: "chain b s (c # cs)" and L: "length buf = csize b"
  shows "find_file_loop name short (csize b) c buf ln s =
    (case find_file_scan name short (cluster_data b s c) (slots 0 (nslots b)) ln of
       None \<Rightarrow> None
     | Some (Some off, ln') \<Rightarrow> Some (Some (entry_of_bytes (bslice off 32 (cluster_data b s c)), c, of_nat off))
     | Some (None, ln') \<Rightarrow> (case cs of [] \<Rightarrow> Some None
          | d # _ \<Rightarrow> find_file_loop name short (csize b) d (cluster_data b s c) ln' s))"
  using chain_Cons_cases [OF V C] dir_read [OF V _ L, of c]
  by (subst find_file_loop.simps) (auto split: option.splits list.splits)

text \<open>
  A directory that is searched without success is searched again after one of its clusters, or a
  cluster appended to it, has changed: when a scan of the new contents succeeds, so does the search.
\<close>

lemma find_after_change:
  assumes V: "vol_ok b s" and V': "vol_ok b s'" and E: "E = [] \<or> E = [d]"
    and hit: "\<And>ln. length ln = LONG_FILENAME_SIZE \<Longrightarrow>
      E = [] \<longrightarrow> (\<exists>ln'. find_file_scan name short (cluster_data b s d) (slots 0 (nslots b)) ln = Some (None, ln')) \<Longrightarrow>
      \<exists>ln''. find_file_scan name short (cluster_data b s' d) (slots 0 (nslots b)) ln = Some (Some off, ln'')"
  shows "chain b s (c # cs) \<Longrightarrow> chain b s' (c # cs @ E) \<Longrightarrow> d \<in> set (c # cs @ E) \<Longrightarrow>
    (E = [d] \<longrightarrow> d \<notin> set (c # cs)) \<Longrightarrow>
    (\<forall>x\<in>set (c # cs). x \<noteq> d \<longrightarrow> cluster_data b s' x = cluster_data b s x) \<Longrightarrow>
    length buf = csize b \<Longrightarrow> length buf' = csize b \<Longrightarrow> length ln = LONG_FILENAME_SIZE \<Longrightarrow>
    find_file_loop name short (csize b) c buf ln s = Some None \<Longrightarrow>
    find_file_loop name short (csize b) c buf' ln s' =
      Some (Some (entry_of_bytes (bslice off 32 (cluster_data b s' d)), d, of_nat off))"
proof (induction cs arbitrary: c buf buf' ln)
  case (Nil c buf buf' ln)
  obtain ln' where o: "find_file_scan name short (cluster_data b s c) (slots 0 (nslots b)) ln = Some (None, ln')"
    using Nil.prems(9) unfolding find_file_step [OF V Nil.prems(1,6)]
    by (auto split: option.splits prod.splits)
  note st = find_file_step [OF V' Nil.prems(2)[unfolded append_Nil] Nil.prems(7)]
  show ?case
  proof (cases "E = []")
    case True
    then have "c = d" using Nil.prems(3) by simp
    then show ?thesis using hit [of ln] o Nil.prems(8) True unfolding st by auto
  next
    case False
    then have Ed: "E = [d]" "c \<noteq> d" using E Nil.prems(4) by auto
    have "chain b s' [d]" using Nil.prems(2) Ed by simp
    note st2 = find_file_step [OF V' this length_cluster_data [OF V'], of _ _ c]
    have "find_file_scan name short (cluster_data b s' c) (slots 0 (nslots b)) ln = Some (None, ln')"
      using o Nil.prems(5) Ed by simp
    moreover have "length ln' = LONG_FILENAME_SIZE" using find_file_scan_length [OF _ o Nil.prems(8)] V by simp
    ultimately show ?thesis using hit [of ln'] Ed unfolding st by (auto simp: st2)
  qed
next
  case (Cons c2 cs c buf buf' ln)
  obtain ln' where o: "find_file_scan name short (cluster_data b s c) (slots 0 (nslots b)) ln = Some (None, ln')"
    and nx: "c \<noteq> d \<Longrightarrow> find_file_loop name short (csize b) c2 (cluster_data b s c) ln' s = Some None"
    using Cons.prems(9) unfolding find_file_step [OF V Cons.prems(1,6)]
    by (auto split: option.splits prod.splits)
  note st = find_file_step [OF V' Cons.prems(2)[unfolded append_Cons] Cons.prems(7)]
  show ?case
  proof (cases "c = d")
    case True
    then have "E = []" using Cons.prems(4) E by auto
    then show ?thesis using hit [of ln] o Cons.prems(8) True unfolding st by auto
  next
    case False
    have l: "length ln' = LONG_FILENAME_SIZE" using find_file_scan_length [OF _ o Cons.prems(8)] V by simp
    have "find_file_scan name short (cluster_data b s' c) (slots 0 (nslots b)) ln = Some (None, ln')"
      using o Cons.prems(5) False by simp
    moreover have "find_file_loop name short (csize b) c2 (cluster_data b s' c) ln' s' =
      Some (Some (entry_of_bytes (bslice off 32 (cluster_data b s' d)), d, of_nat off))"
      by (rule Cons.IH [of c2 "cluster_data b s c"]) (use Cons.prems False nx l V V' in auto)
    ultimately show ?thesis unfolding st by simp
  qed
qed

section \<open>Creating an entry\<close>

text \<open>In a sound directory cluster nothing follows a slot that was never used.\<close>

definition zero_tail :: "nat \<Rightarrow> bytes \<Rightarrow> bool" where
  "zero_tail n buf \<longleftrightarrow> (\<forall>i<n. \<forall>k<n. i \<le> k \<and> rd8 (slot buf i) 0 = 0 \<longrightarrow> rd8 (slot buf k) 0 = 0)"

definition dir_wf :: "BPB \<Rightarrow> fat32 \<Rightarrow> u32 list \<Rightarrow> bool" where
  "dir_wf b s cs \<longleftrightarrow> vol_ok b s \<and> chain b s cs \<and> (\<forall>d\<in>set cs. zero_tail (nslots b) (cluster_data b s d))"

definition lfn_count_of :: "bytes \<Rightarrow> nat" where
  "lfn_count_of name = (if fat32_needs_lfn name then (length name + 12) div 13 else 0)"

text \<open>What the code stores in the slots of a cluster for a new name.\<close>

definition entry_slots :: "bytes \<Rightarrow> DirEntry \<Rightarrow> nat \<Rightarrow> bytes \<Rightarrow> bytes \<Rightarrow> nat \<Rightarrow> bool" where
  "entry_slots name e j buf buf' n \<longleftrightarrow> length buf' = length buf
     \<and> (\<forall>k<n. slot buf' k =
          (if j \<le> k \<and> k < j + lfn_count_of name
           then lfn_bytes (lfn_entry name (fat32_lfn_checksum (fat32_format_83_name name)) (lfn_count_of name)
                  (lfn_count_of name - (k - j)))
           else if k = j + lfn_count_of name then entry_bytes e else slot buf k))"

lemma entry_slots_written:
  assumes "32 * n \<le> length buf" "j + lfn_count_of name < n" "length (DIR_Name e) = 11"
  shows "\<exists>b1 b2. write_lfn_entries name (fat32_lfn_checksum (fat32_format_83_name name)) (lfn_count_of name)
       (32 * j) 0 (lfn_count_of name) buf = Some b1
     \<and> st_bytes b1 (32 * j + lfn_count_of name * 32) (entry_bytes e) = Some b2 \<and> entry_slots name e j buf b2 n"
proof -
  define ck m where "ck = fat32_lfn_checksum (fat32_format_83_name name)" and "m = lfn_count_of name"
  have m: "j + 0 + m \<le> n" "j + m < n" "32 * j + m * 32 = 32 * (j + m)" using assms(2) by (simp_all add: m_def)
  obtain b1 where b1: "write_lfn_entries name ck m (32 * j) 0 m buf = Some b1" "length b1 = length buf"
    "\<forall>k<n. slot b1 k = (if j + 0 \<le> k \<and> k < j + 0 + m then lfn_bytes (lfn_entry name ck m (m - (k - j))) else slot buf k)"
    using write_lfn_ok [OF assms(1) m(1), of name ck m] by blast
  obtain b2 where b2: "st_bytes b1 (32 * (j + m)) (entry_bytes e) = Some b2" "length b2 = length b1"
    "\<forall>k<n. slot b2 k = (if k = j + m then entry_bytes e else slot b1 k)"
    using st_slot [of n b1 "j + m" "entry_bytes e"] assms(1) b1(2) m(2) length_entry_bytes [OF assms(3)] by auto
  have "entry_slots name e j buf b2 n"
    unfolding entry_slots_def using b1(2,3) b2(2,3) by (auto simp: ck_def m_def)
  then show ?thesis using b1(1) b2(1) m(3) unfolding ck_def m_def by metis
qed

text \<open>Names that can be stored: not longer than 19 long-name entries, no deletion mark.\<close>

definition storable :: "bytes \<Rightarrow> bool" where
  "storable name \<longleftrightarrow> name \<noteq> [] \<and> length name \<le> 247 \<and> 0 \<notin> set name \<and> hd name \<noteq> 0xE5"

lemma lfn_count_le: "length name \<le> 247 \<Longrightarrow> lfn_count_of name \<le> 19"
  using div_le_mono [of "length name + 12" 259 13] by (simp add: lfn_count_of_def)

lemma format_83_first:
  assumes "storable name"
  shows "fat32_format_83_name name ! 0 \<noteq> 0" "fat32_format_83_name name ! 0 \<noteq> 0xE5"
proof -
  obtain c cs where n: "name = c # cs" using assms by (cases name) (auto simp: storable_def)
  have c: "c \<noteq> 0" "c \<noteq> 0xE5" using assms n by (auto simp: storable_def)
  have t: "toupper_b c \<noteq> 0" "toupper_b c \<noteq> 0xE5" using c
    by (auto simp: toupper_b_def word_le_nat_alt unat_sub_if_size dest!: arg_cong [of _ _ unat])
  obtain a r where ar: "copy_base 7 cs = (a, r)" by force
  have "length a \<le> 7" using length_copy_base [of 7 cs] ar by simp
  then have "fat32_format_83_name name ! 0 = (if c = 46 then 32 else toupper_b c)"
    using ar by (auto simp: n fat32_format_83_name_def eval_nat_numeral overwrite_def Let_def nth_append split: list.splits)
  then show "fat32_format_83_name name ! 0 \<noteq> 0" "fat32_format_83_name name ! 0 \<noteq> 0xE5" using t by auto
qed

lemma entry_slots_hit:
  assumes S: "entry_slots name e j buf buf' n" "32 * n \<le> length buf" "j + lfn_count_of name < n"
    and N: "storable name" "DIR_Name e = fat32_format_83_name name" "DIR_Attr e \<noteq> ATTR_LONG_NAME"
    and nm: "fat32_format_83_name nm = fat32_format_83_name name" "length nm < LONG_FILENAME_SIZE"
    and ln: "length ln = LONG_FILENAME_SIZE"
    and P: "j = 0 \<or> (find_file_scan nm (fat32_format_83_name name) buf (slots 0 n) ln = Some (None, ln')
              \<and> (\<forall>k<j. rd8 (slot buf k) 0 \<noteq> 0))"
  shows "\<exists>ln''. find_file_scan nm (fat32_format_83_name name) buf' (slots 0 n) ln
      = Some (Some (32 * (j + lfn_count_of name)), ln'')"
proof -
  define m ck short where "m = lfn_count_of name" and "ck = fat32_lfn_checksum (fat32_format_83_name name)"
    and "short = fat32_format_83_name name"
  have L: "32 * n \<le> length buf'" using S by (simp add: entry_slots_def)
  have "\<exists>ln1. length ln1 = LONG_FILENAME_SIZE \<and> find_file_scan nm short buf' (slots 0 n) ln =
      find_file_scan nm short buf' (slots j n) ln1"
  proof (cases "j = 0")
    case False
    show ?thesis
      by (rule scan_prefix [where buf = buf and i = 0 and ln' = ln'])
        (use S L P ln False in \<open>auto simp: entry_slots_def short_def\<close>)
  qed (use ln in auto)
  then obtain ln1 where ln1: "length ln1 = LONG_FILENAME_SIZE"
    "find_file_scan nm short buf' (slots 0 n) ln = find_file_scan nm short buf' (slots j n) ln1" by blast
  define ln2 where "ln2 = overwrite ln1 0 (lfn_text name m)"
  have m19: "m \<le> 19" using lfn_count_le N(1) by (simp add: m_def storable_def)
  have "\<forall>k<m. slot buf' (j + k) = lfn_bytes (lfn_entry name ck m (m - k))"
    using S by (auto simp: entry_slots_def m_def ck_def)
  then have run: "find_file_scan nm short buf' (slots j n) ln1 = find_file_scan nm short buf' (slots (j + m) n) ln2"
    using scan_lfn_run [OF L _ m19, of j name ck ln1 0 nm short] S(3) ln1(1) by (simp add: m_def ln2_def)
  have l2: "length ln2 = LONG_FILENAME_SIZE"
    using ln1(1) m19 by (simp add: ln2_def lfn_text_def LONG_FILENAME_SIZE_def)
  have e: "slot buf' (j + m) = entry_bytes e" using S by (simp add: entry_slots_def m_def)
  have len: "length (DIR_Name e) = 11" using N(2) by simp
  have "rd8 (entry_bytes e) 0 = DIR_Name e ! 0" "rd8 (entry_bytes e) 11 = DIR_Attr e" "bslice 0 11 (entry_bytes e) = DIR_Name e"
    using len by (simp_all add: entry_bytes_def rd8_def nth_append bslice_def)
  then have "find_file_scan nm short buf' (slots (j + m) n) ln2 = Some (Some (32 * (j + m)), ln2)"
    using format_83_first [OF N(1)] N l2 S(3) nm(2)
    by (intro scan_match [OF L]) (auto simp: e [unfolded m_def] free_slot_def short_def m_def storable_def LONG_FILENAME_SIZE_def)
  then show ?thesis using ln1(2) run by (simp add: short_def m_def)
qed

lemma entry_slots_zero_tail:
  assumes S: "entry_slots name e j buf buf' n" and N: "storable name" "DIR_Name e = fat32_format_83_name name"
    and Z: "zero_tail n buf" and live: "\<forall>k<j. rd8 (slot buf k) 0 \<noteq> 0"
  shows "zero_tail n buf'"
proof -
  have m19: "lfn_count_of name \<le> 19" using lfn_count_le N(1) by (simp add: storable_def)
  have e0: "rd8 (entry_bytes e) 0 \<noteq> 0"
    using format_83_first(1) [OF N(1)] N(2) by (simp add: entry_bytes_def rd8_def nth_append)
  have l0: "rd8 (lfn_bytes (lfn_entry name ck m k)) 0 \<noteq> 0" if "0 < k" "k \<le> 19" for k ck m
    using lfn_order(2) [OF that, of name ck m] by (simp add: free_slot_def)
  have late: "j + lfn_count_of name < k" "slot buf' k = slot buf k" if "k < n" "rd8 (slot buf' k) 0 = 0" for k
    using that S e0 l0 [of "lfn_count_of name - (k - j)"] m19 live unfolding entry_slots_def
    by (auto simp: not_less split: if_splits)
  show ?thesis unfolding zero_tail_def
  proof (intro allI impI)
    fix i k assume a: "i < n" "k < n" "i \<le> k \<and> rd8 (slot buf' i) 0 = 0"
    note li = late [OF a(1) conjunct2 [OF a(3)]]
    have "rd8 (slot buf k) 0 = 0" using Z a li unfolding zero_tail_def by metis
    moreover have "slot buf' k = slot buf k" using S a li(1) by (auto simp: entry_slots_def)
    ultimately show "rd8 (slot buf' k) 0 = 0" by simp
  qed
qed

text \<open>
  Where \<open>fat32_create_dir_entry\<close> puts the entries: cluster \<open>d\<close> of the directory, which may just have been
  appended (\<open>E\<close>), from slot \<open>j\<close> on.
\<close>

lemma find_contiguous_ok:
  assumes D: "dir_wf b s cs" and H: "hint_ok b s" and M: "disk_malloc_ok s (csize b)" and c: "c = hd cs"
    and n: "0 < nd" "nd \<le> nslots b" "unat needed = nd" and F: "free_list b s \<noteq> []"
  shows "\<exists>d off j E s1. fat32_find_contiguous_free_entries c needed s = Some (Some (d, off), s1)
     \<and> unat off = 32 * j \<and> j + nd \<le> nslots b \<and> dir_wf b s1 (cs @ E) \<and> hint_ok b s1 \<and> d \<in> set (cs @ E)
     \<and> frame b (set (last cs # E)) (set E) s s1
     \<and> (\<forall>k<j. rd8 (slot (cluster_data b s1 d) k) 0 \<noteq> 0)
     \<and> ((E = [] \<and> s1 = s) \<or> (E = [d] \<and> j = 0 \<and> d = hd (free_list b s) \<and> d \<notin> set cs
          \<and> free_list b s1 = tl (free_list b s)))"
proof -
  have V: "vol_ok b s" and C: "chain b s cs" using D by (simp_all add: dir_wf_def)
  obtain cs' where cs: "cs = c # cs'" using C c by (cases cs) auto
  have w: "unat (get_cluster_size_bytes s) = csize b" "0 < csize b"
    using vol_okD(6) [OF V] wf_bpbD(2) [OF vol_okD(2) [OF V]] by simp_all
  obtain r where r: "contiguous_loop needed (csize b) c (replicate (csize b) 0) s = Some (True, r)"
    "case r of None \<Rightarrow> True | Some (d, off) \<Rightarrow> d \<in> set cs \<and>
         free_run needed (cluster_data b s d) 0 (slots 0 (nslots b)) = Some (Some off)"
    using contiguous_loop_ok [OF V C [unfolded cs], of "replicate (csize b) 0" needed] unfolding cs by auto
  show ?thesis
  proof (cases r)
    case (Some p)
    obtain d off where p: "p = (d, off)" by force
    have run: "d \<in> set cs" "free_run needed (cluster_data b s d) 0 (slots 0 (nslots b)) = Some (Some off)"
      using r(2) Some p by simp_all
    have "nslots b < 2 ^ 27" using wf_bpbD(3) [OF vol_okD(2) [OF V]] by simp
    from free_run_found [OF length_dir_slots [OF V] this n(3), where k = 0 and i = 0 and r = "Some off"] run(2) n(1)
    obtain j where j: "unat off = 32 * j" "j + nd \<le> nslots b" "j = 0 \<or> \<not> free_slot (slot (cluster_data b s d) (j - 1))"
      by auto
    have z: "zero_tail (nslots b) (cluster_data b s d)" using D run(1) by (simp add: dir_wf_def)
    have "\<forall>k<j. rd8 (slot (cluster_data b s d) k) 0 \<noteq> 0"
    proof (intro allI impI notI)
      fix k assume k: "k < j" "rd8 (slot (cluster_data b s d) k) 0 = 0"
      then have "k \<le> j - 1" "j - 1 < nslots b" "k < nslots b" using j(2) n(1) by auto
      then have "rd8 (slot (cluster_data b s d) (j - 1)) 0 = 0" using z k(2) unfolding zero_tail_def by blast
      then show False using j(3) k(1) by (simp add: free_slot_def)
    qed
    moreover have "fat32_find_contiguous_free_entries c needed s = Some (Some (d, off), s)"
      using r(1) Some p w M by (simp add: fat32_find_contiguous_free_entries_def malloc_def)
    ultimately show ?thesis using j(1,2) D H run(1) frame_refl [OF V]
      by (intro exI [of _ d] exI [of _ off] exI [of _ j] exI [of _ "[]"] exI [of _ s]) auto
  next
    case None
    obtain d ns where fl: "free_list b s = d # ns" using F by (cases "free_list b s") auto
    obtain s0 where s0: "fat32_append_cluster c s = Some (Some d, s0)" "frame b {d, last cs} {} s s0"
      "hint_ok b s0" "free_list b s0 = ns" "chain b s0 (cs @ [d])"
      using append_cluster_ok [OF V H C c fl] by blast
    have V0: "vol_ok b s0" and M0: "disk_malloc_ok s0 (csize b)" using s0(2) M by (simp_all add: frame_def)
    have iv: "in_vol b d" using free_list_Cons(1) [OF V H fl] .
    define s1 where "s1 = upd_cluster b d (replicate (csize b) 0) s0"
    have F1: "frame b {} {d} s0 s1" unfolding s1_def using frame_upd_cluster [OF V0 iv] by simp
    have F2: "frame b (set [last cs, d]) (set [d]) s s1"
      using frame_trans [OF s0(2) F1] by (simp add: insert_commute)
    have V1: "vol_ok b s1" using F1 by (simp add: frame_def)
    have dn: "d \<notin> set cs" using free_not_in_chain [OF V H C] fl by auto
    have z1: "cluster_data b s1 d = replicate (csize b) 0"
      using cluster_data_upd_cluster [OF V0 iv iv, of "replicate (csize b) 0"] by (simp add: s1_def)
    have "zero_tail (nslots b) (cluster_data b s1 d)"
      by (simp add: z1 zero_tail_def slot_def rd8_def bslice_def)
    moreover have "cluster_data b s1 x = cluster_data b s x" if "x \<in> set cs" for x
      using F2 that dn chain_in_vol [OF C that] by (auto simp: frame_def)
    moreover have "chain b s1 (cs @ [d])" using frame_chain [OF F1 s0(5)] by simp
    ultimately have D1: "dir_wf b s1 (cs @ [d])" using D V1 by (simp add: dir_wf_def)
    have "fat32_find_contiguous_free_entries c needed s = Some (Some (d, 0), s1)"
      using r(1) None w M s0(1) clear_cluster_ok [OF V0 iv] M0
      by (simp add: fat32_find_contiguous_free_entries_def malloc_def extend_directory_def s1_def)
    moreover have "hint_ok b s1" "free_list b s1 = ns"
      using s0(3,4) V0 by (simp_all add: s1_def hint_ok_def free_list_upd_cluster)
    ultimately show ?thesis using D1 F2 dn fl n(2)
      by (intro exI [of _ d] exI [of _ 0] exI [of _ "0 :: nat"] exI [of _ "[d]"] exI [of _ s1]) auto
  qed
qed

lemma find_file_loop_of:
  assumes "vol_ok b s" "disk_malloc_ok s (csize b)"
  shows "fat32_find_file c name s = find_file_loop name (fat32_format_83_name name) (csize b) c
     (replicate (csize b) 0) no_long_name s"
  using assms vol_okD(6) [OF assms(1)] wf_bpbD(2) [OF vol_okD(2) [OF assms(1)]]
  by (simp add: fat32_find_file_def malloc_def Let_def)

lemma slot_bslice: "bslice (32 * j) 32 buf = slot buf j"
  by (simp add: slot_def)

lemma create_entry_ok:
  fixes name attr fc sz
  defines "e \<equiv> new_entry (fat32_format_83_name name) attr fc sz"
  assumes D: "dir_wf b s cs" and H: "hint_ok b s" and M: "disk_malloc_ok s (csize b)" and c: "c = hd cs"
    and N: "storable name" "attr \<noteq> ATTR_LONG_NAME" "lfn_count_of name < nslots b" and F: "free_list b s \<noteq> []"
    and nm: "fat32_format_83_name nm = fat32_format_83_name name" "length nm < LONG_FILENAME_SIZE"
    and A: "fat32_find_file c nm s = Some None"
  shows "\<exists>d j E s'. fat32_create_dir_entry c name attr fc sz s = Some (True, s')
     \<and> fat32_find_file c nm s' = Some (Some (e, d, of_nat (32 * j))) \<and> j < nslots b \<and> d \<in> set (cs @ E)
     \<and> dir_wf b s' (cs @ E) \<and> hint_ok b s' \<and> frame b (set (last cs # E)) (set (d # E)) s s'
     \<and> ((E = [] \<and> free_list b s' = free_list b s) \<or> (E = [d] \<and> d = hd (free_list b s) \<and> free_list b s' = tl (free_list b s)))"
proof -
  define m where "m = lfn_count_of name"
  have m: "m \<le> 19" using lfn_count_le N(1) by (simp add: m_def storable_def)
  have nd: "unat (of_nat (m + 1) :: u32) = m + 1" using m by (simp add: unat_of_nat del: of_nat_add of_nat_Suc)
  have nd0: "0 < m + 1" "m + 1 \<le> nslots b" using N(3) by (simp_all add: m_def)
  obtain d off j E s1 where P: "fat32_find_contiguous_free_entries c (of_nat (m + 1)) s = Some (Some (d, off), s1)"
    "unat off = 32 * j" "j + (m + 1) \<le> nslots b" "dir_wf b s1 (cs @ E)" "hint_ok b s1" "d \<in> set (cs @ E)"
    "frame b (set (last cs # E)) (set E) s s1" "\<forall>k<j. rd8 (slot (cluster_data b s1 d) k) 0 \<noteq> 0"
    and Q: "(E = [] \<and> s1 = s) \<or> (E = [d] \<and> j = 0 \<and> d = hd (free_list b s) \<and> d \<notin> set cs \<and> free_list b s1 = tl (free_list b s))"
    using find_contiguous_ok [OF D H M c nd0 nd F] by (elim exE conjE) (rule that; assumption)
  have V: "vol_ok b s" and C: "chain b s cs" using D by (simp_all add: dir_wf_def)
  have V1: "vol_ok b s1" and C1: "chain b s1 (cs @ E)" using P(4) by (simp_all add: dir_wf_def)
  have M1: "disk_malloc_ok s1 (csize b)" using P(7) M by (simp add: frame_def)
  have w: "unat (get_cluster_size_bytes s) = csize b" "0 < csize b"
    using vol_okD(6) [OF V] wf_bpbD(2) [OF vol_okD(2) [OF V]] by simp_all
  have iv: "in_vol b d" using chain_in_vol [OF C1 P(6)] .
  define old where "old = cluster_data b s1 d"
  have L: "32 * nslots b \<le> length old" "length old = csize b" using V1 by (simp_all add: old_def)
  have jm: "j + lfn_count_of name < nslots b" using P(3) by (simp add: m_def)
  have ne: "length (DIR_Name e) = 11" "DIR_Name e = fat32_format_83_name name" "DIR_Attr e \<noteq> ATTR_LONG_NAME"
    using N(2) by (simp_all add: e_def)
  obtain b1 b2 where wr: "write_lfn_entries name (fat32_lfn_checksum (fat32_format_83_name name)) m (32 * j) 0 m old = Some b1"
    "st_bytes b1 (32 * j + m * 32) (entry_bytes e) = Some b2" "entry_slots name e j old b2 (nslots b)"
    using entry_slots_written [OF L(1) jm ne(1)] unfolding m_def by blast
  have l2: "length b2 = csize b" using wr(3) L(2) by (simp add: entry_slots_def)
  define s' where "s' = upd_cluster b d b2 s1"
  have cr: "fat32_create_dir_entry c name attr fc sz s = Some (True, s')"
    unfolding fat32_create_dir_entry_def Let_def lfn_count_of_def [symmetric] m_def [symmetric] P(1)
    using P(2) w dir_read [OF V1 iv, of "replicate (csize b) 0"] wr(1,2) write_cluster_ok [OF V1 iv, of b2] l2 M1
    by (simp add: malloc_def e_def old_def s'_def)
  have F': "frame b {} {d} s1 s'" unfolding s'_def using frame_upd_cluster [OF V1 iv, of b2] l2 by simp
  then have V': "vol_ok b s'" by (simp add: frame_def)
  have dd: "cluster_data b s' d = b2"
    using cluster_data_upd_cluster [OF V1 iv iv, of b2] l2 by (simp add: s'_def)
  have do: "cluster_data b s' x = cluster_data b s1 x" if "x \<in> set (cs @ E)" "x \<noteq> d" for x
    using F' that chain_in_vol [OF C1 that(1)] by (simp add: frame_def)
  have "zero_tail (nslots b) b2"
    by (rule entry_slots_zero_tail [OF wr(3) N(1) ne(2)]) (use P(4,6,8) in \<open>auto simp: dir_wf_def old_def\<close>)
  then have D': "dir_wf b s' (cs @ E)"
    using P(4) V' frame_chain [OF F' C1] dd do unfolding dir_wf_def by (metis inf_bot_right)
  have FR: "frame b (set (last cs # E)) (set (d # E)) s s'" using frame_trans [OF P(7) F'] by simp
  have hit: "\<exists>ln''. find_file_scan nm (fat32_format_83_name name) (cluster_data b s' d) (slots 0 (nslots b)) ln
      = Some (Some (32 * (j + m)), ln'')"
    if l: "length ln = LONG_FILENAME_SIZE" and o: "E = [] \<longrightarrow> (\<exists>ln'. find_file_scan nm (fat32_format_83_name name)
        (cluster_data b s d) (slots 0 (nslots b)) ln = Some (None, ln'))" for ln
  proof -
    obtain ln' where "j = 0 \<or> (find_file_scan nm (fat32_format_83_name name) old (slots 0 (nslots b)) ln = Some (None, ln')
          \<and> (\<forall>k<j. rd8 (slot old k) 0 \<noteq> 0))" using o Q P(8) by (auto simp: old_def)
    then show ?thesis using entry_slots_hit [OF wr(3) L(1) jm N(1) ne(2,3) nm l] unfolding dd m_def by blast
  qed
  obtain cs' where cs: "cs = c # cs'" using C c by (cases cs) auto
  have "find_file_loop nm (fat32_format_83_name name) (csize b) c (replicate (csize b) 0) no_long_name s' =
      Some (Some (entry_of_bytes (bslice (32 * (j + m)) 32 (cluster_data b s' d)), d, of_nat (32 * (j + m))))"
  proof (rule find_after_change [OF V V' _ hit, where cs = cs'])
    show "\<forall>x\<in>set (c # cs'). x \<noteq> d \<longrightarrow> cluster_data b s' x = cluster_data b s x"
    proof (intro ballI impI)
      fix x assume x: "x \<in> set (c # cs')" "x \<noteq> d"
      then have "cluster_data b s' x = cluster_data b s1 x" using do by (auto simp: cs)
      moreover have "x \<notin> set E" using Q x by auto
      then have "cluster_data b s1 x = cluster_data b s x"
        using P(7) chain_in_vol [OF C] x(1) by (simp add: frame_def cs)
      ultimately show "cluster_data b s' x = cluster_data b s x" by simp
    qed
    show "find_file_loop nm (fat32_format_83_name name) (csize b) c (replicate (csize b) 0) no_long_name s = Some None"
      using A find_file_loop_of [OF V M] nm(1) by simp
  qed (use C D' Q P(6) in \<open>auto simp: cs dir_wf_def LONG_FILENAME_SIZE_def\<close>)
  moreover have "bslice (32 * (j + m)) 32 b2 = entry_bytes e"
    using wr(3) jm unfolding slot_bslice by (simp add: entry_slots_def m_def)
  moreover have "disk_malloc_ok s' (csize b)" using FR M by (simp add: frame_def)
  ultimately have "fat32_find_file c nm s' = Some (Some (e, d, of_nat (32 * (j + m))))"
    using find_file_loop_of [OF V'] entry_roundtrip [OF ne(1)] nm(1) by (simp add: dd)
  moreover have "hint_ok b s'" "free_list b s' = free_list b s1"
    using P(5) V1 by (simp_all add: s'_def hint_ok_def free_list_upd_cluster)
  ultimately show ?thesis using cr jm P(6) D' FR Q unfolding m_def
    by (intro exI [of _ d] exI [of _ "j + lfn_count_of name"] exI [of _ E] exI [of _ s']) auto
qed

section \<open>Looking up \<open>".."\<close>\<close>

lemma format_83_dotdot: "fat32_format_83_name [46, 46] = replicate 8 32 @ [46, 32, 32]"
  by code_simp

lemma dot_names_differ:
  "dot_name \<noteq> fat32_format_83_name [46, 46]" "dotdot_name \<noteq> fat32_format_83_name [46, 46]"
  "bslice 0 11 (replicate 32 0) \<noteq> fat32_format_83_name [46, 46]"
  unfolding format_83_dotdot by code_simp+

lemma find_dir_scan_no:
  "(\<forall>i<n. bslice 0 11 (slot buf i) \<noteq> name83) \<Longrightarrow> 32 * n \<le> length buf \<Longrightarrow>
   find_dir_scan name83 buf (slots i n) \<in> {Some None, Some (Some None)}"
proof (induction "n - i" arbitrary: i)
  case (Suc x)
  then have i: "i < n" "x = n - Suc i" by auto
  show ?case using Suc.hyps(1) [OF i(2)] Suc.prems i(1) ld_slot [OF Suc.prems(2) i(1)]
    unfolding slots_Cons [OF i(1)] by auto
qed simp

lemma find_dir_loop_no:
  assumes V: "vol_ok b s"
  shows "chain b s (c # cs) \<Longrightarrow> length buf = csize b \<Longrightarrow>
    \<forall>d\<in>set (c # cs). \<forall>i<nslots b. bslice 0 11 (slot (cluster_data b s d) i) \<noteq> name83 \<Longrightarrow>
    find_dir_loop name83 (csize b) c buf s = Some None"
proof (induction cs arbitrary: c buf)
  case (Nil c buf)
  note f = chain_Cons_cases [OF V Nil(1)]
  have "find_dir_scan name83 (cluster_data b s c) (slots 0 (nslots b)) \<in> {Some None, Some (Some None)}"
    using Nil.prems(3) V by (intro find_dir_scan_no) auto
  then show ?case using f dir_read [OF V _ Nil(2), of c] by (subst find_dir_loop.simps) auto
next
  case (Cons d cs c buf)
  note f = chain_Cons_cases [OF V Cons.prems(1)]
  have "find_dir_scan name83 (cluster_data b s c) (slots 0 (nslots b)) \<in> {Some None, Some (Some None)}"
    using Cons.prems(3) V by (intro find_dir_scan_no) auto
  moreover have "find_dir_loop name83 (csize b) d (cluster_data b s c) s = Some None"
    using Cons.IH [of d "cluster_data b s c"] Cons.prems V by simp
  ultimately show ?case using f dir_read [OF V _ Cons.prems(2), of c]
    by (subst find_dir_loop.simps) auto
qed

section \<open>Properties\<close>

lemma ucast_scast_u8 [simp]: "ucast (scast (c :: u8) :: u16) = c"
  by (rule bit_word_eqI) (auto simp: bit_simps)

lemma lfn_text_name:
  assumes "length name \<le> 13 * m" "length name < 256" "13 * m \<le> 256"
  shows "take (Suc (length name)) (overwrite no_long_name 0 (lfn_text name m)) = name @ [0]"
proof (rule nth_equalityI)
  fix i assume i: "i < length (take (Suc (length name)) (overwrite no_long_name 0 (lfn_text name m)))"
  then show "take (Suc (length name)) (overwrite no_long_name 0 (lfn_text name m)) ! i = (name @ [0]) ! i"
    using assms by (auto simp: nth_overwrite lfn_text_def lfn_char_def nth_append LONG_FILENAME_SIZE_def less_Suc_eq)
qed (use assms in \<open>simp add: lfn_text_def LONG_FILENAME_SIZE_def\<close>)

text \<open>
  Directory entries survive the disk: the 32 bytes that \<open>fat32_create_dir_entry\<close> writes for a name
  decode to the same entry, and the first cluster split over its two halves and the file size read
  back as they were given.
\<close>

theorem dir_entry_roundtrip:
  "length (entry_bytes (new_entry (fat32_format_83_name name) attr first_cluster file_size)) = 32
   \<and> entry_of_bytes (entry_bytes (new_entry (fat32_format_83_name name) attr first_cluster file_size))
       = new_entry (fat32_format_83_name name) attr first_cluster file_size
   \<and> entry_cluster (new_entry (fat32_format_83_name name) attr first_cluster file_size) = first_cluster"
  by (simp add: length_entry_bytes entry_roundtrip)

text \<open>
  C18. A long name survives its entries: when the entries of a name of at most 247 bytes stand in
  consecutive slots, followed by a live short entry with whatever alias, the search for that name started
  there stops at that short entry, because the text collected from the entries is the name.
\<close>

theorem long_name_roundtrip:
  assumes L: "32 * n \<le> length buf" and j: "j + (length name + 12) div 13 < n" and len: "length name \<le> 247"
    and w: "write_lfn_entries name ck ((length name + 12) div 13) (32 * j) 0 ((length name + 12) div 13) buf = Some buf'"
    and e: "\<not> free_slot (slot buf (j + (length name + 12) div 13))"
      "rd8 (slot buf (j + (length name + 12) div 13)) 11 \<noteq> ATTR_LONG_NAME"
  shows "\<exists>ln. find_file_scan name short buf' (slots j n) no_long_name = Some (Some (32 * (j + (length name + 12) div 13)), ln)"
proof -
  define m where "m = (length name + 12) div 13"
  have m: "m \<le> 19" using div_le_mono [of "length name + 12" 259 13] len by (simp add: m_def)
  have "length name + 12 < 13 * (m + 1)" unfolding m_def using dividend_less_div_times [of 13 "length name + 12"] by simp
  then have ml: "length name \<le> 13 * m" by simp
  have jm: "j + 0 + m \<le> n" "j + m < n" using j by (simp_all add: m_def)
  obtain b2 where b2: "write_lfn_entries name ck m (32 * j) 0 m buf = Some b2" "length b2 = length buf"
    "\<forall>k<n. slot b2 k = (if j + 0 \<le> k \<and> k < j + 0 + m then lfn_bytes (lfn_entry name ck m (m - (k - j))) else slot buf k)"
    using write_lfn_ok [OF L jm(1), of name ck m] by blast
  have bb: "buf' = b2" using w b2(1) by (simp add: m_def)
  have L2: "32 * n \<le> length b2" using L b2(2) by simp
  define ln where "ln = overwrite no_long_name 0 (lfn_text name m)"
  have "find_file_scan name short b2 (slots j n) no_long_name = find_file_scan name short b2 (slots (j + m) n) ln"
    using scan_lfn_run [OF L2 _ m, of j name ck no_long_name 0 name short] b2(3) jm by (simp add: ln_def)
  also have "\<dots> = Some (Some (32 * (j + m)), ln)"
    using lfn_text_name [OF ml] len m e b2(3) jm
    by (intro scan_match [OF L2 jm(2)]) (auto simp: ln_def m_def LONG_FILENAME_SIZE_def lfn_text_def)
  finally show ?thesis unfolding bb m_def by blast
qed

theorem long_name_roundtrip_witness:
  "\<exists>buf' ln. write_lfn_entries [110, 111, 116, 101] 7 1 0 0 1 (replicate 64 1) = Some buf'
     \<and> find_file_scan [110, 111, 116, 101] [] buf' (slots 0 2) no_long_name = Some (Some 32, ln)"
proof -
  obtain buf' where b: "write_lfn_entries [110, 111, 116, 101] 7 1 (32 * 0) 0 1 (replicate 64 1) = Some buf'"
    using write_lfn_ok [of 2 "replicate 64 1" 0 0 1 "[110, 111, 116, 101]" 7 1] by auto
  have "\<exists>ln. find_file_scan [110, 111, 116, 101] [] buf' (slots 0 2) no_long_name
      = Some (Some (32 * (0 + (length [110, 111, 116, 101 :: u8] + 12) div 13)), ln)"
    by (rule long_name_roundtrip [where buf = "replicate 64 1" and ck = 7])
      (use b in \<open>simp_all add: free_slot_def slot_def rd8_def bslice_def ATTR_LONG_NAME_def\<close>)
  then show ?thesis using b by auto
qed

text \<open>
  A created entry is found: in a sound directory where the search for a storable name fails, and
  with room in a cluster for its entries, \<open>fat32_create_dir_entry\<close> returns true; the search for the name
  then returns exactly the entry that was asked for, at a slot of the directory. The directory stays
  sound, extended by at most one cluster, and no other chain and no other cluster's contents change.
\<close>

theorem create_entry_then_find:
  assumes "dir_wf b s cs" "hint_ok b s" "disk_malloc_ok s (csize b)" "c = hd cs" "storable name"
    "attr \<noteq> ATTR_LONG_NAME" "lfn_count_of name < nslots b" "free_list b s \<noteq> []"
    "fat32_find_file c name s = Some None"
  shows "\<exists>d j E s'. fat32_create_dir_entry c name attr fc sz s = Some (True, s')
     \<and> fat32_find_file c name s' = Some (Some (new_entry (fat32_format_83_name name) attr fc sz, d, of_nat (32 * j)))
     \<and> j < nslots b \<and> d \<in> set (cs @ E) \<and> dir_wf b s' (cs @ E) \<and> E \<in> {[], [hd (free_list b s)]}
     \<and> frame b (set (last cs # E)) (set (d # E)) s s'"
proof -
  have "length name < LONG_FILENAME_SIZE" using assms(5) by (simp add: storable_def LONG_FILENAME_SIZE_def)
  from create_entry_ok [OF assms(1-8) refl this assms(9), of fc sz]
  show ?thesis by (elim exE conjE) (intro exI conjI; (assumption | blast))
qed

text \<open>A volume with an empty root directory.\<close>

definition sample_dir :: fat32 where
  "sample_dir = upd_cluster sample_bpb 2 (replicate 512 0) sample_fs"

lemma sample_dir_frame: "frame sample_bpb {} {2} sample_fs sample_dir"
  unfolding sample_dir_def by (rule frame_upd_cluster) (simp_all add: in_vol_def)

lemma sample_dir_data: "cluster_data sample_bpb sample_dir 2 = replicate 512 0"
  unfolding sample_dir_def by (simp add: cluster_data_upd_cluster in_vol_def)

lemma sample_dir_wf: "dir_wf sample_bpb sample_dir [2]"
proof -
  have "chain sample_bpb sample_dir [2]" using frame_chain [OF sample_dir_frame sample_chain(2)] by simp
  moreover have "zero_tail 16 (replicate 512 0)" by (simp add: zero_tail_def slot_def rd8_def bslice_def)
  ultimately show ?thesis using sample_dir_frame by (simp add: dir_wf_def frame_def sample_dir_data)
qed

lemma sample_dir_facts:
  "vol_ok sample_bpb sample_dir" "hint_ok sample_bpb sample_dir" "disk_malloc_ok sample_dir n"
  "\<exists>r. free_list sample_bpb sample_dir = 5 # 6 # r" "fat32_cwd_cluster sample_dir = 2"
  using sample_dir_frame sample_hint sample_free_list
  by (auto simp: frame_def sample_dir_def hint_ok_def free_list_upd_cluster)

lemma sample_dir_empty: "fat32_find_file 2 name sample_dir = Some None"
proof -
  have "chain sample_bpb sample_dir [2]" using sample_dir_wf by (simp add: dir_wf_def)
  note st = find_file_step [OF sample_dir_facts(1) this, of "replicate 512 0"]
  have "scan_one name (fat32_format_83_name name) (slot (replicate 512 0) 0) no_long_name = Some (Inr False)"
    by (simp add: scan_one_def slot_def rd8_def bslice_def)
  then have "find_file_scan name (fat32_format_83_name name) (replicate 512 0) (slots 0 16) no_long_name = Some (None, no_long_name)"
    by (subst scan_step) simp_all
  then show ?thesis using find_file_loop_of [OF sample_dir_facts(1)] sample_dir_facts(3)
    by (simp add: st [simplified] sample_dir_data)
qed

theorem create_entry_then_find_witness:
  "\<exists>d off s'. fat32_create_dir_entry 2 [97, 32, 98] 0x20 0 0 sample_dir = Some (True, s')
     \<and> fat32_find_file 2 [97, 32, 98] s' =
         Some (Some (new_entry (fat32_format_83_name [97, 32, 98]) 0x20 0 0, d, off))"
proof -
  have "storable [97, 32, 98]" "lfn_count_of [97, 32, 98] < 16"
    by (simp_all add: storable_def lfn_count_of_def)
  then show ?thesis
    using create_entry_then_find [OF sample_dir_wf sample_dir_facts(2) sample_dir_facts(3) _ _ _ _ _ sample_dir_empty,
        of "[97, 32, 98]" "0x20" 0 0] sample_dir_facts(4)
    by (auto simp: ATTR_LONG_NAME_def)
qed

text \<open>
  Short-name collisions: when two names share their 8.3 form, creating the first makes the search for
  the second find it, although the long name stored with it differs. (Long names get no distinguishing
  short alias.)
\<close>

theorem short_name_collision:
  assumes "dir_wf b s cs" "hint_ok b s" "disk_malloc_ok s (csize b)" "c = hd cs" "storable name"
    "attr \<noteq> ATTR_LONG_NAME" "lfn_count_of name < nslots b" "free_list b s \<noteq> []"
    "fat32_format_83_name other = fat32_format_83_name name" "length other < LONG_FILENAME_SIZE"
    "fat32_find_file c other s = Some None"
  shows "\<exists>d off s'. fat32_create_dir_entry c name attr fc sz s = Some (True, s')
     \<and> fat32_find_file c other s' = Some (Some (new_entry (fat32_format_83_name name) attr fc sz, d, off))"
  using create_entry_ok [OF assms, of fc sz] by blast

theorem short_name_collision_witness:
  "\<exists>d off s'. fat32_create_dir_entry 2 (str_bytes ''holiday1.png'') 0x20 9 70 sample_dir = Some (True, s')
     \<and> fat32_find_file 2 (str_bytes ''holiday12.png'') s' =
         Some (Some (new_entry (str_bytes ''HOLIDAY1PNG'') 0x20 9 70, d, off))"
proof -
  have a: "storable (str_bytes ''holiday1.png'')" "lfn_count_of (str_bytes ''holiday1.png'') < 16" by code_simp+
  have f: "fat32_format_83_name (str_bytes ''holiday1.png'') = str_bytes ''HOLIDAY1PNG''"
    "fat32_format_83_name (str_bytes ''holiday12.png'') = str_bytes ''HOLIDAY1PNG''"
    "length (str_bytes ''holiday12.png'') < LONG_FILENAME_SIZE" by code_simp+
  show ?thesis
    using short_name_collision [OF sample_dir_wf sample_dir_facts(2) sample_dir_facts(3) _ a(1) _ _ _ _ f(3) sample_dir_empty,
        of "0x20" 9 70] sample_dir_facts(4) a(2) f
    by (auto simp: ATTR_LONG_NAME_def)
qed

lemma init_directory_ok:
  assumes "vol_ok b s" "in_vol b c" "disk_malloc_ok s (csize b)"
  shows "\<exists>s'. fat32_init_directory c p s = Some (True, s') \<and> frame b {} {c} s s'
     \<and> cluster_data b s' c = entry_bytes (new_entry dot_name ATTR_DIRECTORY c 0)
          @ entry_bytes (new_entry dotdot_name ATTR_DIRECTORY p 0) @ replicate (csize b - 64) 0"
proof -
  let ?d = "entry_bytes (new_entry dot_name ATTR_DIRECTORY c 0)" and ?p = "entry_bytes (new_entry dotdot_name ATTR_DIRECTORY p 0)"
  define buf where "buf = ?d @ ?p @ replicate (csize b - 64) 0"
  have l: "length ?d = 32" "length ?p = 32" by (simp_all add: length_entry_bytes dot_name_def dotdot_name_def)
  have w: "unat (get_cluster_size_bytes s) = csize b" "0 < spc b"
    using vol_okD(6) [OF assms(1)] wf_bpbD(2) [OF vol_okD(2) [OF assms(1)]] by simp_all
  have lb: "length buf = csize b" using l w(2) by (simp add: buf_def)
  have "fat32_init_directory c p s = fat32_write_cluster c buf s"
    using w assms(3) l
    by (simp add: fat32_init_directory_def malloc_def Let_def st_bytes_def overwrite_def buf_def)
  then show ?thesis
    using write_cluster_ok [OF assms(1,2), of buf] frame_upd_cluster [OF assms(1,2), of buf]
      cluster_data_upd_cluster [OF assms(1,2,2), of buf] lb
    by (auto simp: buf_def [symmetric])
qed

lemma init_directory_slots:
  assumes "length d = 32" "length p = 32" "i < n" "2 \<le> n"
  shows "slot (d @ p @ replicate (32 * n - 64) z) i = (if i = 0 then d else if i = 1 then p else replicate 32 z)"
proof -
  consider "i = 0" | "i = 1" | k where "i = Suc (Suc k)" by (metis One_nat_def not0_implies_Suc)
  then show ?thesis using assms by cases (auto simp: slot_def bslice_def)
qed

text \<open>
  The parent link of a directory cannot be followed: \<open>fat32_init_directory\<close> stores the parent's cluster
  under the name \<open>".."\<close> padded with blanks, but \<open>fat32_find_dir\<close> looks for the 8.3 form of \<open>".."\<close>, which is
  eight blanks and a dot, and finds nothing; so neither \<open>fat32_path_to_cluster\<close> nor \<open>f_chdir\<close> can go up.
\<close>

theorem dotdot_not_found:
  assumes V: "vol_ok b s" and C: "chain b s [c]" and M: "disk_malloc_ok s (csize b)"
    and g: "get_total_clusters s = Some n" "get_root_dir_cluster s \<le> c" "c \<le> n + 2"
  shows "\<exists>s'. fat32_init_directory c p s = Some (True, s')
     \<and> entry_of_bytes (slot (cluster_data b s' c) 1) = new_entry dotdot_name ATTR_DIRECTORY p 0
     \<and> fat32_find_dir c [46, 46] s' = Some None"
proof -
  have iv: "in_vol b c" using C by simp
  obtain s' where s': "fat32_init_directory c p s = Some (True, s')" "frame b {} {c} s s'"
    "cluster_data b s' c = entry_bytes (new_entry dot_name ATTR_DIRECTORY c 0)
          @ entry_bytes (new_entry dotdot_name ATTR_DIRECTORY p 0) @ replicate (csize b - 64) 0"
    using init_directory_ok [OF V iv M] by blast
  have V': "vol_ok b s'" and C': "chain b s' [c]" using s'(2) frame_chain [OF s'(2) C] by (simp_all add: frame_def)
  have sp: "0 < spc b" using wf_bpbD(2) [OF vol_okD(2) [OF V]] .
  have l: "length (entry_bytes (new_entry dot_name ATTR_DIRECTORY c 0)) = 32"
    "length (entry_bytes (new_entry dotdot_name ATTR_DIRECTORY p 0)) = 32"
    by (simp_all add: length_entry_bytes dot_name_def dotdot_name_def)
  have sl: "slot (cluster_data b s' c) i = (if i = 0 then entry_bytes (new_entry dot_name ATTR_DIRECTORY c 0)
      else if i = 1 then entry_bytes (new_entry dotdot_name ATTR_DIRECTORY p 0) else replicate 32 0)" if "i < nslots b" for i
    using init_directory_slots [OF l that, of 0] sp s'(3) by simp
  have nm: "bslice 0 11 (entry_bytes (new_entry dot_name ATTR_DIRECTORY c 0)) = dot_name"
    "bslice 0 11 (entry_bytes (new_entry dotdot_name ATTR_DIRECTORY p 0)) = dotdot_name"
    by (simp_all add: entry_bytes_def bslice_def dot_name_def dotdot_name_def)
  have "\<forall>d\<in>set [c]. \<forall>i<nslots b. bslice 0 11 (slot (cluster_data b s' d) i) \<noteq> fat32_format_83_name [46, 46]"
    using dot_names_differ by (auto simp: sl nm)
  from find_dir_loop_no [OF V' C' _ this, of "replicate (csize b) 0"]
  have "find_dir_loop (fat32_format_83_name [46, 46]) (csize b) c (replicate (csize b) 0) s' = Some None" by simp
  moreover have "get_total_clusters s' = Some n" "get_root_dir_cluster s' = get_root_dir_cluster s"
    "disk_malloc_ok s' (csize b)"
    using s'(2) g(1) M by (simp_all add: frame_def get_total_clusters_def get_root_dir_cluster_def)
  ultimately have "fat32_find_dir c [46, 46] s' = Some None"
    using g vol_okD(4,5) [OF V'] sp by (simp add: fat32_find_dir_def malloc_def Let_def)
  moreover have "entry_of_bytes (slot (cluster_data b s' c) 1) = new_entry dotdot_name ATTR_DIRECTORY p 0"
    using sl [of 1] sp entry_roundtrip [of "new_entry dotdot_name ATTR_DIRECTORY p 0"] by (simp add: dotdot_name_def)
  ultimately show ?thesis using s'(1) by blast
qed

theorem dotdot_not_found_witness:
  "\<exists>s'. fat32_init_directory 2 7 sample_fs = Some (True, s') \<and> fat32_find_dir 2 [46, 46] s' = Some None"
proof -
  have "get_total_clusters sample_fs = Some 195" "get_root_dir_cluster sample_fs \<le> 2"
    by (simp_all add: get_total_clusters_def get_root_dir_cluster_def)
  from dotdot_not_found [OF sample_vol_ok sample_chain(2) _ this, of 7] show ?thesis by auto
qed

end
