(* ===== verification/FatSession.thy ===== *)
theory FatSession
  imports FatWrite FatEntry
begin

text \<open>
  The file operations together: a file that is created, written and closed has its length and its first
  cluster in its directory entry, and opening it again and reading it returns the bytes written.
  The lemmas follow one directory slot through \<open>f_close\<close> and show that the search does not depend on the
  fields \<open>f_close\<close> changes.
\<close>

section \<open>Updating an entry in place\<close>

lemma slot_overwrite:
  assumes "32 * n \<le> length buf" "j < n" "off + length d \<le> 32"
  shows "st_bytes buf (32 * j + off) d = Some (overwrite buf (32 * j + off) d)"
    "length (overwrite buf (32 * j + off) d) = length buf"
    "k < n \<Longrightarrow> slot (overwrite buf (32 * j + off) d) k = (if k = j then overwrite (slot buf j) off d else slot buf k)"
proof -
  have le: "32 * j + off + length d \<le> length buf" using assms by simp
  then show "st_bytes buf (32 * j + off) d = Some (overwrite buf (32 * j + off) d)"
    "length (overwrite buf (32 * j + off) d) = length buf" by (simp_all add: st_bytes_def)
  assume k: "k < n"
  show "slot (overwrite buf (32 * j + off) d) k = (if k = j then overwrite (slot buf j) off d else slot buf k)"
  proof (cases "k = j")
    case True
    have "bslice (32 * j) 32 (overwrite buf (32 * j + off) d) = overwrite (bslice (32 * j) 32 buf) off d"
      by (rule nth_equalityI) (use assms le in \<open>auto simp: nth_bslice nth_overwrite\<close>)
    then show ?thesis using True by (simp add: slot_def)
  next
    case False
    then have "32 * k + 32 \<le> 32 * j + off \<or> 32 * j + off + length d \<le> 32 * k" using assms(3) by arith
    then show ?thesis using False k assms le by (simp add: slot_def bslice_overwrite_other)
  qed
qed

lemma update_entry_slot:
  assumes L: "32 * n \<le> length buf" "j < n" and o: "unat (dir_entry_offset fp) = 32 * j"
  shows "\<exists>buf'. update_entry fp buf = Some buf' \<and> length buf' = length buf
    \<and> (\<forall>k<n. k \<noteq> j \<longrightarrow> slot buf' k = slot buf k) \<and> bslice 0 20 (slot buf' j) = bslice 0 20 (slot buf j)
    \<and> DIR_FileSize (entry_of_bytes (slot buf' j)) = fsize fp
    \<and> entry_cluster (entry_of_bytes (slot buf' j)) = first_cluster fp"
proof -
  define hi lo where "hi = le16 (ucast (drop_bit 16 (first_cluster fp)))" and "lo = le16 (ucast (first_cluster fp))"
  define b1 where "b1 = overwrite buf (32 * j + 28) (le32 (fsize fp))"
  define b2 where "b2 = overwrite b1 (32 * j + 20) hi"
  define b3 where "b3 = overwrite b2 (32 * j + 26) lo"
  have l: "length hi = 2" "length lo = 2" by (simp_all add: hi_def lo_def)
  note o1 = slot_overwrite [OF L, of 28 "le32 (fsize fp)", folded b1_def]
  have L1: "32 * n \<le> length b1" "j < n" using o1(2) L by simp_all
  note o2 = slot_overwrite [OF L1, of 20 hi, folded b2_def]
  have L2: "32 * n \<le> length b2" "j < n" using o2(2) L1 l by simp_all
  note o3 = slot_overwrite [OF L2, of 26 lo, folded b3_def]
  have u: "update_entry fp buf = Some b3"
    using o1(1) o2(1) o3(1) l o by (simp add: update_entry_def hi_def [symmetric] lo_def [symmetric])
  have ls: "length (slot buf j) = 32" using L by (simp add: slot_def)
  have sj: "slot b3 j = overwrite (overwrite (overwrite (slot buf j) 28 (le32 (fsize fp))) 20 hi) 26 lo"
    using o1(3) [of j] o2(3) [of j] o3(3) [of j] l L(2) by simp
  have "bslice 0 20 (slot b3 j) = bslice 0 20 (slot buf j)"
    "bslice 28 4 (slot b3 j) = le32 (fsize fp)" "bslice 20 2 (slot b3 j) = hi" "bslice 26 2 (slot b3 j) = lo"
    unfolding sj using ls l by (simp_all add: bslice_overwrite_other bslice_overwrite_same)
  then show ?thesis using u o1(2,3) o2(2,3) o3(2,3) l
    by (auto simp: entry_of_bytes_def rd32_def rd16_def entry_cluster_def hi_def lo_def clus_halves)
qed

section \<open>The search after an update\<close>

lemma scan_cong:
  assumes "32 * n \<le> length buf" "32 * n \<le> length buf'"
    "\<forall>k<n. \<forall>ln. scan_one name short (slot buf' k) ln = scan_one name short (slot buf k) ln"
  shows "find_file_scan name short buf' (slots i n) ln = find_file_scan name short buf (slots i n) ln"
proof (induction "n - i" arbitrary: i ln)
  case (Suc x)
  then have i: "i < n" "x = n - Suc i" by auto
  show ?case using Suc.hyps(1) [OF i(2)] assms(3) i(1)
    unfolding scan_step [OF assms(1) i(1)] scan_step [OF assms(2) i(1)] by (simp split: option.splits sum.splits)
qed simp

lemma scan_found_lt:
  "32 * n \<le> length buf \<Longrightarrow> find_file_scan name short buf (slots i n) ln = Some (Some off, ln') \<Longrightarrow> off < 32 * n"
proof (induction "n - i" arbitrary: i ln)
  case (Suc x)
  then have i: "i < n" "x = n - Suc i" by auto
  show ?case using Suc.prems Suc.hyps(1) [OF i(2)] i(1) unfolding scan_step [OF Suc.prems(1) i(1)]
    by (auto split: option.splits sum.splits if_splits)
qed simp

lemma find_file_cong:
  assumes V: "vol_ok b s" and V': "vol_ok b s'"
  shows "chain b s (c # cs) \<Longrightarrow> chain b s' (c # cs) \<Longrightarrow> length buf = csize b \<Longrightarrow> length buf' = csize b \<Longrightarrow>
    \<forall>x\<in>set (c # cs). \<forall>ln. find_file_scan name short (cluster_data b s' x) (slots 0 (nslots b)) ln
       = find_file_scan name short (cluster_data b s x) (slots 0 (nslots b)) ln \<Longrightarrow>
    find_file_loop name short (csize b) c buf' ln s' =
      map_option (map_option (\<lambda>(e, d, off). (entry_of_bytes (bslice (unat off) 32 (cluster_data b s' d)), d, off)))
        (find_file_loop name short (csize b) c buf ln s)"
proof (induction cs arbitrary: c buf buf' ln)
  have sp: "spc b \<le> 128" using wf_bpbD(3) [OF vol_okD(2) [OF V]] .
  have off: "unat (of_nat off :: u32) = off"
    if "find_file_scan name short (cluster_data b s c) (slots 0 (nslots b)) ln = Some (Some off, ln')" for c ln off ln'
    using scan_found_lt [OF length_dir_slots [OF V] that] sp by (simp add: unat_of_nat)
  {
    case (Nil c buf buf' ln)
    show ?case
      unfolding find_file_step [OF V Nil(1,3)] find_file_step [OF V' Nil(2,4)]
      using Nil(5) off by (auto split: option.splits)
  next
    case (Cons d cs c buf buf' ln)
    have IH: "find_file_loop name short (csize b) d (cluster_data b s' c) ln' s' =
        map_option (map_option (\<lambda>(e, d, off). (entry_of_bytes (bslice (unat off) 32 (cluster_data b s' d)), d, off)))
          (find_file_loop name short (csize b) d (cluster_data b s c) ln' s)" for ln'
      using Cons.IH [of d "cluster_data b s c" "cluster_data b s' c" ln'] Cons.prems V V' by simp
    show ?case
      unfolding find_file_step [OF V Cons.prems(1,3)] find_file_step [OF V' Cons.prems(2,4)]
      using Cons.prems(5) off IH by (auto split: option.splits)
  }
qed

lemma scan_one_prefix:
  assumes "bslice 0 20 e' = bslice 0 20 e" "length e = 32" "length e' = 32" "rd8 e 11 \<noteq> ATTR_LONG_NAME"
  shows "scan_one name short e' ln = scan_one name short e ln"
proof -
  have n: "e' ! i = e ! i" if "i < 20" for i
    using nth_bslice [of i 20 0 e] nth_bslice [of i 20 0 e'] assms that by simp
  have "bslice 0 11 e' = bslice 0 11 e"
    using bslice_bslice [of 0 11 20 0 e] bslice_bslice [of 0 11 20 0 e'] assms(1) by simp
  then show ?thesis using assms(4) n [of 0] n [of 11] by (simp add: scan_one_def rd8_def)
qed

lemma find_file_in_chain:
  assumes V: "vol_ok b s"
  shows "chain b s (c # cs) \<Longrightarrow> find_file_loop name short (csize b) c buf ln s = Some (Some (e, d, off)) \<Longrightarrow>
    length buf = csize b \<Longrightarrow> d \<in> set (c # cs)"
proof (induction cs arbitrary: c buf ln)
  case (Nil c buf ln)
  show ?case using Nil(2) unfolding find_file_step [OF V Nil(1,3)] by (auto split: option.splits)
next
  case (Cons x cs c buf ln)
  have "chain b s (x # cs)" using Cons.prems(1) by simp
  note IH = Cons.IH [OF this _ length_cluster_data [OF V, of c]]
  show ?case using Cons.prems(2) IH unfolding find_file_step [OF V Cons.prems(1,3)]
    by (auto split: option.splits)
qed

lemma find_file_update:
  assumes D: "dir_wf b s cs" and D': "dir_wf b s' cs" and M: "disk_malloc_ok s (csize b)" "disk_malloc_ok s' (csize b)"
    and c: "c = hd cs" and S: "\<forall>x\<in>set cs. \<forall>ln. find_file_scan name (fat32_format_83_name name) (cluster_data b s' x) (slots 0 (nslots b)) ln
       = find_file_scan name (fat32_format_83_name name) (cluster_data b s x) (slots 0 (nslots b)) ln"
  shows "fat32_find_file c name s' =
      map_option (map_option (\<lambda>(e, d, off). (entry_of_bytes (bslice (unat off) 32 (cluster_data b s' d)), d, off)))
        (fat32_find_file c name s)"
proof -
  have V: "vol_ok b s" "vol_ok b s'" and C: "chain b s cs" "chain b s' cs" using D D' by (simp_all add: dir_wf_def)
  obtain cs' where cs: "cs = c # cs'" using C c by (cases cs) auto
  show ?thesis unfolding find_file_loop_of [OF V(1) M(1)] find_file_loop_of [OF V(2) M(2)]
    by (rule find_file_cong [OF V, where cs = cs']) (use C S in \<open>auto simp: cs\<close>)
qed

lemma find_file_slot:
  assumes D: "dir_wf b s cs" and M: "disk_malloc_ok s (csize b)" and c: "c = hd cs"
    and R: "fat32_find_file c name s = Some (Some (e, d, off))"
  shows "d \<in> set cs" "e = entry_of_bytes (bslice (unat off) 32 (cluster_data b s d))"
proof -
  have V: "vol_ok b s" and C: "chain b s cs" using D by (simp_all add: dir_wf_def)
  obtain cs' where cs: "cs = c # cs'" using C c by (cases cs) auto
  show "d \<in> set cs"
    using find_file_in_chain [OF V C [unfolded cs], of name] R unfolding find_file_loop_of [OF V M] cs by fastforce
  show "e = entry_of_bytes (bslice (unat off) 32 (cluster_data b s d))"
    using find_file_update [OF D D M M c, of name] R by simp
qed

lemma find_file_kept:
  assumes D: "dir_wf b s cs" and F: "frame b A B s s'" and X: "set cs \<inter> A = {}" "set cs \<inter> B = {}"
    and M: "disk_malloc_ok s (csize b)" and c: "c = hd cs"
  shows "dir_wf b s' cs" "fat32_find_file c name s' = fat32_find_file c name s"
proof -
  have C: "chain b s cs" and V': "vol_ok b s'" and M': "disk_malloc_ok s' (csize b)"
    using D F M by (simp_all add: dir_wf_def frame_def)
  have data: "cluster_data b s' x = cluster_data b s x" if "x \<in> set cs" for x
    using F X(2) that chain_in_vol [OF C that] by (auto simp: frame_def)
  show D': "dir_wf b s' cs" using D V' frame_chain [OF F C X(1)] data by (simp add: dir_wf_def)
  have u: "fat32_find_file c name s' =
      map_option (map_option (\<lambda>(e, d, off). (entry_of_bytes (bslice (unat off) 32 (cluster_data b s' d)), d, off)))
        (fat32_find_file c name s)" using find_file_update [OF D D' M M' c] data by simp
  show "fat32_find_file c name s' = fat32_find_file c name s"
  proof (cases "fat32_find_file c name s")
    case (Some r)
    show ?thesis
    proof (cases r)
      case (Some p)
      obtain e d off where p: "p = (e, d, off)" by (cases p)
      have R: "fat32_find_file c name s = Some (Some (e, d, off))" using \<open>fat32_find_file c name s = Some r\<close> Some p by simp
      show ?thesis using u find_file_slot [OF D M c R] data unfolding R by simp
    qed (use u Some in simp)
  qed (use u in simp)
qed

section \<open>Closing\<close>

lemma zero_tail_cong:
  assumes "\<And>k. k < n \<Longrightarrow> rd8 (slot buf k) 0 = rd8 (slot buf' k) 0"
  shows "zero_tail n buf = zero_tail n buf'"
  unfolding zero_tail_def using assms by auto

lemma close_ok:
  assumes D: "dir_wf b s cs" and M: "disk_malloc_ok s (csize b)" and c: "c = hd cs"
    and R: "fat32_find_file c name s = Some (Some (e, dir_entry_cluster fp, dir_entry_offset fp))"
    and j: "unat (dir_entry_offset fp) = 32 * j" "j < nslots b" and A: "DIR_Attr e \<noteq> ATTR_LONG_NAME"
  shows "\<exists>fp' s' e'. f_close fp s = Some (True, fp', s') \<and> frame b {} {dir_entry_cluster fp} s s' \<and> dir_wf b s' cs
     \<and> fat32_find_file c name s' = Some (Some (e', dir_entry_cluster fp, dir_entry_offset fp))
     \<and> entry_cluster e' = first_cluster fp \<and> DIR_FileSize e' = fsize fp
     \<and> fat32_free_cluster_no s' = fat32_free_cluster_no s"
proof -
  define d where "d = dir_entry_cluster fp"
  have V: "vol_ok b s" and C: "chain b s cs" using D by (simp_all add: dir_wf_def)
  note sl = find_file_slot [OF D M c R, folded d_def]
  have iv: "in_vol b d" using chain_in_vol [OF C sl(1)] .
  define old where "old = cluster_data b s d"
  have L: "32 * nslots b \<le> length old" "length old = csize b" using V by (simp_all add: old_def)
  obtain new where new: "update_entry fp old = Some new" "length new = length old"
    "\<forall>k<nslots b. k \<noteq> j \<longrightarrow> slot new k = slot old k" "bslice 0 20 (slot new j) = bslice 0 20 (slot old j)"
    "DIR_FileSize (entry_of_bytes (slot new j)) = fsize fp" "entry_cluster (entry_of_bytes (slot new j)) = first_cluster fp"
    using update_entry_slot [OF L(1) j(2,1)] by blast
  define s' where "s' = upd_cluster b d new s"
  have w: "unat (get_cluster_size_bytes s) = csize b" "0 < csize b"
    using vol_okD(6) [OF V] wf_bpbD(2) [OF vol_okD(2) [OF V]] by simp_all
  have cl: "\<exists>fp'. f_close fp s = Some (True, fp', s')"
    using w M dir_read [OF V iv, of "replicate (csize b) 0"] new(1,2) L(2) write_cluster_ok [OF V iv, of new]
    by (simp add: f_close_def malloc_def d_def [symmetric] old_def [symmetric] s'_def)
  have F: "frame b {} {d} s s'" unfolding s'_def using frame_upd_cluster [OF V iv, of new] new(2) L(2) by simp
  then have V': "vol_ok b s'" and M': "disk_malloc_ok s' (csize b)" using M by (simp_all add: frame_def)
  have dd: "cluster_data b s' d = new"
    using cluster_data_upd_cluster [OF V iv iv, of new] new(2) L(2) by (simp add: s'_def)
  have do: "cluster_data b s' x = cluster_data b s x" if "x \<in> set cs" "x \<noteq> d" for x
    using F that chain_in_vol [OF C that(1)] by (simp add: frame_def)
  have e: "e = entry_of_bytes (slot old j)" using sl(2) j(1) by (simp add: slot_def old_def)
  have ls: "length (slot old j) = 32" "length (slot new j) = 32" using L new(2) j(2) by (simp_all add: slot_def)
  have n0: "slot new j ! 0 = slot old j ! 0"
    using nth_bslice [of 0 20 0 "slot old j"] nth_bslice [of 0 20 0 "slot new j"] new(4) ls by simp
  have "zero_tail (nslots b) old" using D sl(1) by (simp add: dir_wf_def old_def)
  moreover have "rd8 (slot new k) 0 = rd8 (slot old k) 0" if "k < nslots b" for k
    using new(3) n0 that by (cases "k = j") (simp_all add: rd8_def)
  ultimately have "zero_tail (nslots b) new" using zero_tail_cong [of "nslots b" new old] by blast
  then have D': "dir_wf b s' cs"
    using D V' frame_chain [OF F C] dd do unfolding dir_wf_def by (metis inf_bot_right)
  have "scan_one name short (slot new k) ln = scan_one name short (slot old k) ln" if "k < nslots b" for k short ln
    using scan_one_prefix [OF new(4) ls] new(3) that A by (cases "k = j") (auto simp: e entry_of_bytes_def)
  then have sc: "find_file_scan name short new (slots 0 (nslots b)) ln = find_file_scan name short old (slots 0 (nslots b)) ln"
    for short ln using scan_cong [of "nslots b" old new] L new(2) by simp
  have "find_file_scan name short (cluster_data b s' x) (slots 0 (nslots b)) ln
       = find_file_scan name short (cluster_data b s x) (slots 0 (nslots b)) ln" if "x \<in> set cs" for x short ln
    using that do sc by (cases "x = d") (simp_all add: dd old_def [symmetric])
  then have "\<forall>x\<in>set cs. \<forall>ln. find_file_scan name (fat32_format_83_name name) (cluster_data b s' x) (slots 0 (nslots b)) ln
       = find_file_scan name (fat32_format_83_name name) (cluster_data b s x) (slots 0 (nslots b)) ln" by blast
  from find_file_update [OF D D' M M' c this]
  have "fat32_find_file c name s' = Some (Some (entry_of_bytes (slot new j), d, dir_entry_offset fp))"
    unfolding R d_def [symmetric] using j(1) dd by (simp add: slot_def)
  moreover have "fat32_free_cluster_no s' = fat32_free_cluster_no s" by (simp add: s'_def)
  ultimately show ?thesis using cl F D' new(5,6) unfolding d_def by blast
qed

section \<open>Opening\<close>

lemma last_slash_None: "47 \<notin> set p \<Longrightarrow> last_slash p = None"
  by (auto simp: last_slash_def Let_def filter_empty_conv in_set_conv_nth)

lemma resolve_plain: "47 \<notin> set name \<Longrightarrow> resolve_parent name s = Some (Some (fat32_cwd_cluster s, name))"
  by (simp add: resolve_parent_def last_slash_None)

lemma open_found:
  assumes "47 \<notin> set name" "disk_malloc_ok s (length name + 1)" "fat32_find_file (fat32_cwd_cluster s) name s = Some (Some r)"
  shows "f_open fp name mode s = Some (True, fill_file fp (fat32_cwd_cluster s) name mode r, s)"
  using assms by (simp add: f_open_def resolve_plain malloc_def)

lemma open_created:
  assumes "47 \<notin> set name" "disk_malloc_ok s (length name + 1)" "fat32_find_file (fat32_cwd_cluster s) name s = Some None"
    "mode AND 0x0C \<noteq> 0" "fat32_create_dir_entry (fat32_cwd_cluster s) name 0x20 0 0 s = Some (True, s')"
    "fat32_find_file (fat32_cwd_cluster s) name s' = Some (Some r)"
  shows "f_open fp name mode s = Some (True, fill_file fp (fat32_cwd_cluster s) name mode r, s')"
  using assms by (simp add: f_open_def resolve_plain malloc_def)

lemma f_write_keeps_entry:
  "f_write fp buff btw s = Some (ok, bw, fp', s') \<Longrightarrow>
   dir_entry_cluster fp' = dir_entry_cluster fp \<and> dir_entry_offset fp' = dir_entry_offset fp"
  unfolding f_write_def Let_def by (auto split: option.splits bind_splits if_splits prod.splits)

section \<open>A whole session\<close>

lemma chain_data_frame:
  assumes "frame b A B s s'" "chain b s ds" "set ds \<inter> A = {}" "set ds \<inter> B = {}"
  shows "chain b s' ds" "chain_data b s' ds = chain_data b s ds"
  using chain_data_kept [OF assms] unfolding chain_data_def by (auto intro: arg_cong)

text \<open>What a step on the volume keeps of the machine: the other disks, the current disk and the allocator.\<close>

definition same_machine :: "fat32 \<Rightarrow> fat32 \<Rightarrow> bool" where
  "same_machine s s' \<longleftrightarrow> other_disks s s' \<and> cur_disk_no s' = cur_disk_no s \<and> disk_malloc_ok s' = disk_malloc_ok s"

lemma same_machine_frame: "frame b A B s s' \<Longrightarrow> same_machine s s'"
  by (simp add: same_machine_def frame_def)

lemma same_machine_trans: "same_machine s s' \<Longrightarrow> same_machine s' s'' \<Longrightarrow> same_machine s s''"
  unfolding same_machine_def using other_disks_trans by metis

lemma write_close_reopen:
  assumes D: "dir_wf b s1 ds" and H: "hint_ok b s1" and M: "\<forall>n. disk_malloc_ok s1 n" "fat32_cwd_cluster s1 = hd ds"
    and N: "47 \<notin> set name" and F1: "file_on b s1 fp1 []" "fsize fp1 = 0"
    and R: "fat32_find_file (hd ds) name s1 = Some (Some (e, dir_entry_cluster fp1, dir_entry_offset fp1))"
    and A: "DIR_Attr e \<noteq> ATTR_LONG_NAME" and j: "unat (dir_entry_offset fp1) = 32 * j" "j < nslots b"
    and n: "0 < unat btw" "unat btw = length data" "length buff = length data"
    and k: "clusters_for (csize b) (length data) \<le> length (free_list b s1)"
  shows "\<exists>fp2 s2 fp3 s3 fp4 fp5. f_write fp1 data btw s1 = Some (True, btw, fp2, s2)
     \<and> f_close fp2 s2 = Some (True, fp3, s3) \<and> f_open fp name mode' s3 = Some (True, fp4, s3)
     \<and> f_size fp4 = btw \<and> f_tell fp4 = 0 \<and> f_read fp4 buff btw s3 = Some (True, data, btw, fp5) \<and> dir_wf b s3 ds
     \<and> (\<forall>es. chain b s1 es \<and> set es \<inter> set ds = {} \<longrightarrow> chain b s3 es \<and> chain_data b s3 es = chain_data b s1 es)
     \<and> same_machine s1 s2 \<and> same_machine s1 s3"
proof -
  define X where "X = take (clusters_for (csize b) (length data)) (free_list b s1)"
  have V1: "vol_ok b s1" and C1: "chain b s1 ds" using D by (simp_all add: dir_wf_def)
  have p: "pos fp1 = 0" using F1 by (simp add: file_on_def unat_eq_0)
  have k1: "clusters_for (csize b) (length data) = clusters_for (csize b) (unat (pos fp1) + unat btw) - length []"
    using p n by simp
  obtain fp2 s2 where w: "f_write fp1 data btw s1 = Some (True, btw, fp2, s2)" "file_on b s2 fp2 X"
    "frame b (set X) (set X) s1 s2" "file_bytes b s2 fp2 X = data"
    using f_write_ok [OF F1(1) H _ n(1) _ _ k1 k, of data] M n p F1(2) unat_u32_lt [of btw]
    by (auto simp: X_def write_at_def file_bytes_def)
  have sz: "fsize fp2 = btw" using length_file_bytes [OF w(2)] w(4) n(2) unat_eqI by metis
  have Xf: "set X \<subseteq> set (free_list b s1)" by (simp add: X_def set_take_subset)
  then have dX: "set ds \<inter> set X = {}" using free_not_in_chain [OF V1 H C1] by auto
  note kept = find_file_kept [OF D w(3) dX dX spec [OF M(1)] refl]
  have M2: "\<forall>n. disk_malloc_ok s2 n" "fat32_cwd_cluster s2 = hd ds" using w(3) M by (simp_all add: frame_def)
  have de: "dir_entry_cluster fp2 = dir_entry_cluster fp1" "dir_entry_offset fp2 = dir_entry_offset fp1"
    using f_write_keeps_entry [OF w(1)] by simp_all
  obtain fp3 s3 e' where cl: "f_close fp2 s2 = Some (True, fp3, s3)" "frame b {} {dir_entry_cluster fp1} s2 s3" "dir_wf b s3 ds"
    "fat32_find_file (hd ds) name s3 = Some (Some (e', dir_entry_cluster fp1, dir_entry_offset fp1))"
    "entry_cluster e' = first_cluster fp2" "DIR_FileSize e' = btw"
    using close_ok [OF kept(1) spec [OF M2(1)] refl, of name e fp2 j] kept(2) R A j unfolding de sz by auto
  define fp4 where "fp4 = fill_file fp (hd ds) name mode' (e', dir_entry_cluster fp1, dir_entry_offset fp1)"
  have M3: "\<forall>n. disk_malloc_ok s3 n" "fat32_cwd_cluster s3 = hd ds" using cl(2) M2 by (simp_all add: frame_def)
  have o4: "f_open fp name mode' s3 = Some (True, fp4, s3)"
    using open_found [OF N, of s3 _ fp mode'] M3 cl(4) by (simp add: fp4_def)
  have f4: "first_cluster fp4 = first_cluster fp2" "fsize fp4 = btw" "pos fp4 = 0"
    using cl(5,6) by (simp_all add: fp4_def fill_file_def)
  have X0: "X \<noteq> []" using w(2) n(1) sz by (auto simp: file_on_def)
  then have CX: "chain b s2 X" using w(2) by (simp add: file_on_def)
  have dn: "dir_entry_cluster fp1 \<in> set ds" using find_file_slot(1) [OF D spec [OF M(1)] refl R] .
  then have "set X \<inter> {dir_entry_cluster fp1} = {}" using dX by auto
  note kx = chain_data_frame [OF cl(2) CX Int_empty_right this]
  have F4: "file_on b s3 fp4 X" using w(2) kx X0 f4 sz cl(3) by (simp add: file_on_def dir_wf_def)
  have "file_bytes b s3 fp4 X = data" using w(4) kx(2) f4 sz by (simp add: file_bytes_def)
  moreover have "of_nat (length data) = btw" using n(2) by (metis of_nat_unat ucast_id)
  ultimately have rd: "f_read fp4 buff btw s3 = Some (True, data, btw, fp4\<lparr>pos := btw\<rparr>)"
    using f_read_ok [OF F4 spec [OF M3(1)], of "unat btw" btw buff] n f4 by (simp add: bslice_def)
  have other: "chain b s3 es \<and> chain_data b s3 es = chain_data b s1 es" if es: "chain b s1 es" "set es \<inter> set ds = {}" for es
  proof -
    have dj: "set es \<inter> set X = {}" "set es \<inter> {dir_entry_cluster fp1} = {}"
      using Xf free_not_in_chain [OF V1 H es(1)] es(2) dn by auto
    note k2 = chain_data_frame [OF w(3) es(1) dj(1,1)]
    show ?thesis using k2 chain_data_frame [OF cl(2) k2(1) Int_empty_right dj(2)] by simp
  qed
  have sm: "same_machine s1 s2" "same_machine s1 s3"
    using same_machine_frame [OF w(3)] same_machine_trans [OF same_machine_frame [OF w(3)] same_machine_frame [OF cl(2)]] by simp_all
  show ?thesis using w(1) cl(1,3) o4 rd f4 other sm unfolding f_size_def f_tell_def
    by (intro exI [of _ fp2] exI [of _ s2] exI [of _ fp3] exI [of _ s3] exI [of _ fp4]
        exI [of _ "fp4\<lparr>pos := btw\<rparr>"]) simp
qed

lemma file_session:
  assumes D: "dir_wf b s cs" and c: "fat32_cwd_cluster s = hd cs" and H: "hint_ok b s" and M: "\<forall>n. disk_malloc_ok s n"
    and N: "storable name" "47 \<notin> set name" "lfn_count_of name < nslots b" "fat32_find_file (hd cs) name s = Some None"
    and mode: "mode AND 0x0C \<noteq> 0"
    and n: "0 < unat btw" "unat btw = length data" "length buff = length data"
    and k: "Suc (clusters_for (csize b) (length data)) \<le> length (free_list b s)"
  shows "\<exists>fp1 s1 fp2 s2 fp3 s3 fp4 fp5 cs'.
     f_open fp name mode s = Some (True, fp1, s1) \<and> f_write fp1 data btw s1 = Some (True, btw, fp2, s2)
     \<and> f_close fp2 s2 = Some (True, fp3, s3) \<and> f_open fp name mode' s3 = Some (True, fp4, s3)
     \<and> f_size fp4 = btw \<and> f_tell fp4 = 0 \<and> f_read fp4 buff btw s3 = Some (True, data, btw, fp5)
     \<and> dir_wf b s3 (cs @ cs')
     \<and> (\<forall>ds. chain b s ds \<and> set ds \<inter> set cs = {} \<longrightarrow> chain b s3 ds \<and> chain_data b s3 ds = chain_data b s ds)
     \<and> same_machine s s1 \<and> same_machine s s2 \<and> same_machine s s3"
proof -
  have V: "vol_ok b s" and C: "chain b s cs" using D by (simp_all add: dir_wf_def)
  have Mc: "disk_malloc_ok s (csize b)" using M by simp
  have fl: "free_list b s \<noteq> []" using k by auto
  have ln: "length name < LONG_FILENAME_SIZE" using N(1) by (simp add: storable_def LONG_FILENAME_SIZE_def)
  have at: "(0x20 :: u8) \<noteq> ATTR_LONG_NAME" by (simp add: ATTR_LONG_NAME_def)
  obtain d j E s1 where P: "fat32_create_dir_entry (hd cs) name 0x20 0 0 s = Some (True, s1)"
    "fat32_find_file (hd cs) name s1 = Some (Some (new_entry (fat32_format_83_name name) 0x20 0 0, d, of_nat (32 * j)))"
    "j < nslots b" "d \<in> set (cs @ E)" "dir_wf b s1 (cs @ E)" "hint_ok b s1"
    "frame b (set (last cs # E)) (set (d # E)) s s1"
    and Q: "(E = [] \<and> free_list b s1 = free_list b s) \<or> (E = [d] \<and> d = hd (free_list b s) \<and> free_list b s1 = tl (free_list b s))"
    using create_entry_ok [OF D H Mc refl N(1) at N(3) fl refl ln N(4), of 0 0]
    by (elim exE conjE) (rule that; assumption)
  define fp1 where "fp1 = fill_file fp (hd cs) name mode (new_entry (fat32_format_83_name name) 0x20 0 0, d, of_nat (32 * j))"
  have o1: "f_open fp name mode s = Some (True, fp1, s1)"
    using open_created [OF N(2) _ _ mode, of s s1] M N(4) P(1,2) c by (simp add: fp1_def)
  have f1: "first_cluster fp1 = 0" "fsize fp1 = 0" "pos fp1 = 0" "dir_entry_cluster fp1 = d"
    "dir_entry_offset fp1 = of_nat (32 * j)" by (simp_all add: fp1_def fill_file_def)
  have F1: "file_on b s1 fp1 []" using P(5) f1 by (simp add: file_on_def dir_wf_def)
  have hd': "hd (cs @ E) = hd cs" using C by (cases cs) auto
  have M1: "\<forall>n. disk_malloc_ok s1 n" "fat32_cwd_cluster s1 = hd (cs @ E)" using P(7) M c hd' by (simp_all add: frame_def)
  have "spc b \<le> 128" using wf_bpbD(3) [OF vol_okD(2) [OF V]] .
  then have uo: "unat (dir_entry_offset fp1) = 32 * j" unfolding f1 using P(3) by (simp add: unat_of_nat del: of_nat_mult)
  have R: "fat32_find_file (hd (cs @ E)) name s1
     = Some (Some (new_entry (fat32_format_83_name name) 0x20 0 0, dir_entry_cluster fp1, dir_entry_offset fp1))"
    unfolding hd' P(2) f1 ..
  have "length (free_list b s) \<le> Suc (length (free_list b s1))" using Q by (cases "free_list b s") auto
  then have k1: "clusters_for (csize b) (length data) \<le> length (free_list b s1)" using k by simp
  have other: "chain b s1 ds \<and> chain_data b s1 ds = chain_data b s ds \<and> set ds \<inter> set (cs @ E) = {}"
    if ds: "chain b s ds" "set ds \<inter> set cs = {}" for ds
  proof -
    have "cs \<noteq> []" using C by auto
    then have "set E \<subseteq> set (free_list b s)" "last cs \<in> set cs" "d \<in> set cs \<union> set E" using Q fl P(4) by auto
    then have dj: "set ds \<inter> set (last cs # E) = {}" "set ds \<inter> set (d # E) = {}" "set ds \<inter> set E = {}"
      using free_not_in_chain [OF V H ds(1)] ds(2) by auto
    then show ?thesis using chain_data_frame [OF P(7) ds(1) dj(1,2)] ds(2) by auto
  qed
  have "DIR_Attr (new_entry (fat32_format_83_name name) 0x20 0 0) \<noteq> ATTR_LONG_NAME" using at by simp
  from write_close_reopen [OF P(5,6) M1 N(2) F1 f1(2) R this uo P(3) n k1, of fp mode']
  obtain fp2 s2 fp3 s3 fp4 fp5 where W: "f_write fp1 data btw s1 = Some (True, btw, fp2, s2)"
    "f_close fp2 s2 = Some (True, fp3, s3)" "f_open fp name mode' s3 = Some (True, fp4, s3)"
    "f_size fp4 = btw" "f_tell fp4 = 0" "f_read fp4 buff btw s3 = Some (True, data, btw, fp5)" "dir_wf b s3 (cs @ E)"
    and K: "\<forall>es. chain b s1 es \<and> set es \<inter> set (cs @ E) = {} \<longrightarrow> chain b s3 es \<and> chain_data b s3 es = chain_data b s1 es"
    and SM: "same_machine s1 s2" "same_machine s1 s3"
    by (elim exE conjE) (rule that; assumption)
  have "\<forall>ds. chain b s ds \<and> set ds \<inter> set cs = {} \<longrightarrow> chain b s3 ds \<and> chain_data b s3 ds = chain_data b s ds"
  proof (intro allI impI)
    fix ds assume ds: "chain b s ds \<and> set ds \<inter> set cs = {}"
    from other [OF conjunct1 [OF ds] conjunct2 [OF ds]] K
    show "chain b s3 ds \<and> chain_data b s3 ds = chain_data b s ds" by metis
  qed
  moreover have "same_machine s s1" "same_machine s s2" "same_machine s s3"
    using same_machine_frame [OF P(7)] SM same_machine_trans by blast+
  ultimately show ?thesis using o1 W by blast
qed

text \<open>
  C2. A file lives on after it is closed: in a sound current directory without the name, creating the file
  with \<open>f_open\<close>, writing bytes to it and closing it all succeed (given the clusters this takes); opening
  the name again then yields a file of exactly that size at position 0, and reading it returns exactly
  the bytes written. The directory is still sound, and every chain of the volume that is neither the
  directory nor the file is unchanged.
\<close>

theorem create_write_close_reopen_read:
  assumes D: "dir_wf b s cs" and c: "fat32_cwd_cluster s = hd cs" and H: "hint_ok b s" and M: "\<forall>n. disk_malloc_ok s n"
    and N: "storable name" "47 \<notin> set name" "lfn_count_of name < nslots b" "fat32_find_file (hd cs) name s = Some None"
    and mode: "mode AND 0x0C \<noteq> 0"
    and n: "0 < unat btw" "unat btw = length data" "length buff = length data"
    and k: "Suc (clusters_for (csize b) (length data)) \<le> length (free_list b s)"
  shows "\<exists>fp1 s1 fp2 s2 fp3 s3 fp4 fp5 cs'.
     f_open fp name mode s = Some (True, fp1, s1) \<and> f_write fp1 data btw s1 = Some (True, btw, fp2, s2)
     \<and> f_close fp2 s2 = Some (True, fp3, s3) \<and> f_open fp name mode' s3 = Some (True, fp4, s3)
     \<and> f_size fp4 = btw \<and> f_tell fp4 = 0 \<and> f_read fp4 buff btw s3 = Some (True, data, btw, fp5)
     \<and> dir_wf b s3 (cs @ cs')
     \<and> (\<forall>ds. chain b s ds \<and> set ds \<inter> set cs = {} \<longrightarrow> chain b s3 ds \<and> chain_data b s3 ds = chain_data b s ds)"
  using file_session [OF assms, of fp mode'] by blast

definition closed_file :: FAT32_FILE where
  "closed_file = \<lparr>first_cluster = 0, current_cluster = 0, fsize = 0, pos = 0, parent_cluster = 0,
     dir_entry_cluster = 0, dir_entry_offset = 0, fname = [], fmode = 0, ferror = 0\<rparr>"

lemma sample_dir_room: "3 \<le> length (free_list sample_bpb sample_dir)"
proof -
  have "[2..<196] = 2 # 3 # 4 # 5 # 6 # 7 # [8..<196]" by (simp add: upt_rec)
  moreover have "fat_entry sample_bpb sample_fs 7 = 0" unfolding fat_entry_def by (simp add: sample_sec) code_simp
  ultimately have "3 \<le> length (free_list sample_bpb sample_fs)" by (simp add: free_list_def sample_entry)
  then show ?thesis by (simp add: sample_dir_def free_list_upd_cluster)
qed

theorem create_write_close_reopen_read_witness:
  "\<exists>fp1 s1 fp2 s2 fp3 s3 fp4 fp5. f_open closed_file (str_bytes ''notes'') 6 sample_dir = Some (True, fp1, s1)
     \<and> f_write fp1 (replicate 600 9) 600 s1 = Some (True, 600, fp2, s2) \<and> f_close fp2 s2 = Some (True, fp3, s3)
     \<and> f_open closed_file (str_bytes ''notes'') 1 s3 = Some (True, fp4, s3) \<and> f_size fp4 = 600
     \<and> f_read fp4 (replicate 600 0) 600 s3 = Some (True, replicate 600 9, 600, fp5)"
proof -
  have N: "storable (str_bytes ''notes'')" "47 \<notin> set (str_bytes ''notes'')" "lfn_count_of (str_bytes ''notes'') < nslots sample_bpb"
    unfolding sample_geometry by code_simp+
  have e: "fat32_find_file (hd [2]) (str_bytes ''notes'') sample_dir = Some None" by (simp add: sample_dir_empty)
  have c: "fat32_cwd_cluster sample_dir = hd [2]" by (simp add: sample_dir_facts)
  have M: "\<forall>n. disk_malloc_ok sample_dir n" by (simp add: sample_dir_facts)
  have k: "Suc (clusters_for (csize sample_bpb) (length (replicate 600 (9::u8)))) \<le> length (free_list sample_bpb sample_dir)"
    using sample_dir_room by (simp add: clusters_for_def)
  from create_write_close_reopen_read [OF sample_dir_wf c sample_dir_facts(2) M N e, of 6 600 "replicate 600 9" "replicate 600 0" closed_file 1]
  show ?thesis using k by auto
qed

section \<open>Removing\<close>

lemma unlink_ok:
  assumes D: "dir_wf b s cs" and M: "\<forall>n. disk_malloc_ok s n"
    and P: "length path < 256" "resolve_parent path s = Some (Some (hd cs, name))"
    and R: "fat32_find_file (hd cs) name s = Some (Some (e, d, off))" and j: "unat off = 32 * j" "j < nslots b"
    and C: "if fs = [] then entry_cluster e = 0 else chain b s fs \<and> entry_cluster e = hd fs" "set fs \<inter> set cs = {}"
  shows "\<exists>s'. f_unlink path s = Some (True, s') \<and> frame b (set fs) {d} s s' \<and> (\<forall>x\<in>set fs. fat_entry b s' x = 0)
     \<and> cluster_data b s' d = overwrite (cluster_data b s d) (32 * j) [0xE5]"
proof -
  have V: "vol_ok b s" and Cd: "chain b s cs" using D by (simp_all add: dir_wf_def)
  define s1 where "s1 = free_upd b fs s"
  have iv: "\<forall>x\<in>set fs. in_vol b x" using C(1) chain_in_vol by (auto split: if_splits)
  note f = free_upd_ok [OF V iv, folded s1_def]
  have nz: "fs \<noteq> [] \<Longrightarrow> hd fs \<noteq> 0" using iv by (cases fs) (auto simp: in_vol_def)
  have fr: "(if entry_cluster e \<noteq> 0 then fat32_free_cluster_chain (entry_cluster e) s else Some (True, s)) = Some (True, s1)"
    using C(1) nz free_chain_ok [OF V, of "hd fs" "tl fs"] by (cases fs) (auto simp: s1_def)
  have d: "d \<in> set cs" using find_file_slot(1) [OF D spec [OF M] refl R] .
  then have ivd: "in_vol b d" using chain_in_vol [OF Cd] by simp
  have V1: "vol_ok b s1" and M1: "disk_malloc_ok s1 (csize b)" using f M by (simp_all add: s1_def)
  have w: "unat (get_cluster_size_bytes s1) = csize b" "0 < csize b"
    using vol_okD(6) [OF V1] wf_bpbD(2) [OF vol_okD(2) [OF V]] by simp_all
  define new where "new = overwrite (cluster_data b s d) (32 * j) [0xE5]"
  have st: "st_bytes (cluster_data b s1 d) (unat off) [0xE5] = Some new" "length new = csize b"
    using f ivd j V by (simp_all add: st_bytes_def new_def)
  define s' where "s' = upd_cluster b d new s1"
  have "f_unlink path s = Some (True, s')"
    using P R fr w M1 dir_read [OF V1 ivd, of "replicate (csize b) 0"] st write_cluster_ok [OF V1 ivd, of new]
    by (simp add: f_unlink_def Let_def malloc_def s'_def)
  moreover have "frame b (set fs) {d} s s'"
    using frame_trans [OF frame_free_upd [OF V iv, folded s1_def] frame_upd_cluster [OF V1 ivd, of new]] st(2)
    by (simp add: s'_def)
  moreover have "\<forall>x\<in>set fs. fat_entry b s' x = 0"
    using f iv V1 in_vol_entry by (auto simp: s'_def)
  moreover have "cluster_data b s' d = new"
    using cluster_data_upd_cluster [OF V1 ivd ivd, of new] st(2) by (simp add: s'_def)
  ultimately show ?thesis unfolding new_def by blast
qed

text \<open>
  C15. Removing a file: \<open>f_unlink\<close> on a name of the current directory returns true, frees exactly the
  clusters of the file, marks its directory slot deleted and changes nothing else of the directory.
  Every chain that shares no cluster with the file and the directory keeps its links and contents.
\<close>

theorem unlink_frees_file:
  assumes D: "dir_wf b s cs" and c: "fat32_cwd_cluster s = hd cs" and M: "\<forall>n. disk_malloc_ok s n"
    and N: "length name < 256" "47 \<notin> set name"
    and R: "fat32_find_file (hd cs) name s = Some (Some (e, d, off))" and j: "unat off = 32 * j" "j < nslots b"
    and C: "if fs = [] then entry_cluster e = 0 else chain b s fs \<and> entry_cluster e = hd fs" "set fs \<inter> set cs = {}"
  shows "\<exists>s'. f_unlink name s = Some (True, s') \<and> vol_ok b s' \<and> chain b s' cs \<and> (\<forall>x\<in>set fs. fat_entry b s' x = 0)
     \<and> rd8 (slot (cluster_data b s' d) j) 0 = 0xE5 \<and> (\<forall>k<nslots b. k \<noteq> j \<longrightarrow> slot (cluster_data b s' d) k = slot (cluster_data b s d) k)
     \<and> (\<forall>x\<in>set cs. x \<noteq> d \<longrightarrow> cluster_data b s' x = cluster_data b s x)
     \<and> (\<forall>ds. chain b s ds \<and> set ds \<inter> set fs = {} \<and> set ds \<inter> set cs = {} \<longrightarrow> chain b s' ds \<and> chain_data b s' ds = chain_data b s ds)"
proof -
  have V: "vol_ok b s" and Cd: "chain b s cs" using D by (simp_all add: dir_wf_def)
  have P: "resolve_parent name s = Some (Some (hd cs, name))" using resolve_plain [OF N(2)] c by simp
  obtain s' where s': "f_unlink name s = Some (True, s')" "frame b (set fs) {d} s s'" "\<forall>x\<in>set fs. fat_entry b s' x = 0"
    "cluster_data b s' d = overwrite (cluster_data b s d) (32 * j + 0) [0xE5]"
    using unlink_ok [OF D M N(1) P R j C] by auto
  have d: "d \<in> set cs" using find_file_slot(1) [OF D spec [OF M] refl R] .
  have L: "32 * nslots b \<le> length (cluster_data b s d)" using V by simp
  note sl = slot_overwrite(3) [OF L j(2), of 0 "[0xE5]"]
  have "rd8 (slot (cluster_data b s' d) j) 0 = 0xE5"
    using sl [of j] j(2) s'(4) by (simp add: rd8_def overwrite_def)
  moreover have "\<forall>k<nslots b. k \<noteq> j \<longrightarrow> slot (cluster_data b s' d) k = slot (cluster_data b s d) k"
    using sl s'(4) by simp
  moreover have "\<forall>x\<in>set cs. x \<noteq> d \<longrightarrow> cluster_data b s' x = cluster_data b s x"
    using s'(2) chain_in_vol [OF Cd] by (simp add: frame_def)
  moreover have "chain b s' ds \<and> chain_data b s' ds = chain_data b s ds"
    if "chain b s ds" "set ds \<inter> set fs = {}" "set ds \<inter> set cs = {}" for ds
    using chain_data_frame [OF s'(2) that(1,2)] that(3) d by auto
  moreover have "chain b s' cs" using frame_chain [OF s'(2) Cd] C(2) by (simp add: Int_commute)
  ultimately show ?thesis using s'(1,2,3) by (auto simp: frame_def)
qed

text \<open>
  An empty name matches any file: the comparison of an empty long name with an empty name succeeds, so
  \<open>f_unlink\<close> of the path \<open>"/"\<close> deletes whatever file has the first slot of the root directory, and frees its
  clusters.
\<close>

theorem unlink_root_path_deletes_first_file:
  assumes D: "dir_wf b s cs" and c: "get_root_dir_cluster s = hd cs" and M: "\<forall>n. disk_malloc_ok s n"
    and e: "\<not> free_slot (slot (cluster_data b s (hd cs)) 0)" "rd8 (slot (cluster_data b s (hd cs)) 0) 11 \<noteq> ATTR_LONG_NAME"
    and C: "chain b s fs" "entry_cluster (entry_of_bytes (slot (cluster_data b s (hd cs)) 0)) = hd fs" "set fs \<inter> set cs = {}"
  shows "\<exists>s'. f_unlink (str_bytes ''/'') s = Some (True, s') \<and> (\<forall>x\<in>set fs. fat_entry b s' x = 0)
     \<and> rd8 (slot (cluster_data b s' (hd cs)) 0) 0 = 0xE5"
proof -
  have V: "vol_ok b s" and Cd: "chain b s cs" using D by (simp_all add: dir_wf_def)
  have sp: "0 < nslots b" using wf_bpbD(2) [OF vol_okD(2) [OF V]] by simp
  obtain cs' where cs: "cs = hd cs # cs'" using Cd by (cases cs) auto
  have P: "resolve_parent (str_bytes ''/'') s = Some (Some (hd cs, []))"
    by (simp add: resolve_parent_def str_bytes_def last_slash_def c)
  have "find_file_scan [] short (cluster_data b s (hd cs)) (slots 0 (nslots b)) no_long_name = Some (Some 0, no_long_name)" for short
    using scan_match [OF length_dir_slots [OF V] sp, of "[]" no_long_name "hd cs" short] e by (simp add: LONG_FILENAME_SIZE_def)
  then have R: "fat32_find_file (hd cs) [] s = Some (Some (entry_of_bytes (slot (cluster_data b s (hd cs)) 0), hd cs, 0))"
    using find_file_loop_of [OF V spec [OF M], of "hd cs" "[]"] find_file_step [OF V, of "hd cs" cs'] Cd cs
    by (simp add: slot_def)
  have ne: "fs \<noteq> []" using C(1) by auto
  obtain s' where s': "f_unlink (str_bytes ''/'') s = Some (True, s')" "\<forall>x\<in>set fs. fat_entry b s' x = 0"
    "cluster_data b s' (hd cs) = overwrite (cluster_data b s (hd cs)) (32 * 0 + 0) [0xE5]"
    using unlink_ok [OF D M _ P R, of 0 fs] C ne sp by (auto simp: str_bytes_def)
  have L: "32 * nslots b \<le> length (cluster_data b s (hd cs))" using V by simp
  show ?thesis using s' slot_overwrite(3) [OF L sp, of 0 "[0xE5]" 0] sp by (auto simp: rd8_def overwrite_def)
qed

text \<open>A root directory with one file of 600 bytes on the clusters 3 and 4.\<close>

definition sample_entry_of_file :: DirEntry where
  "sample_entry_of_file = new_entry (fat32_format_83_name (str_bytes ''FILE.TXT'')) 0x20 3 600"

definition sample_home :: fat32 where
  "sample_home = upd_cluster sample_bpb 2 (entry_bytes sample_entry_of_file @ replicate 480 0) sample_fs"

lemma length_sample_entry [simp]: "length (entry_bytes sample_entry_of_file) = 32"
  by (simp add: length_entry_bytes sample_entry_of_file_def)

lemma sample_home_frame: "frame sample_bpb {} {2} sample_fs sample_home"
  unfolding sample_home_def by (rule frame_upd_cluster) (simp_all add: in_vol_def)

lemma sample_home_data: "cluster_data sample_bpb sample_home 2 = entry_bytes sample_entry_of_file @ replicate 480 0"
  unfolding sample_home_def by (simp add: cluster_data_upd_cluster in_vol_def)

lemma sample_home_slot:
  "i < 16 \<Longrightarrow> slot (entry_bytes sample_entry_of_file @ replicate 480 0) i = (if i = 0 then entry_bytes sample_entry_of_file else replicate 32 0)"
  by (auto simp: slot_def bslice_def)

lemma sample_home_first: "rd8 (entry_bytes sample_entry_of_file) 0 = 70" "rd8 (entry_bytes sample_entry_of_file) 11 = 0x20"
  by code_simp+

lemma sample_home_wf: "dir_wf sample_bpb sample_home [2]"
proof -
  have "chain sample_bpb sample_home [2]" using frame_chain [OF sample_home_frame sample_chain(2)] by simp
  moreover have "zero_tail 16 (entry_bytes sample_entry_of_file @ replicate 480 0)"
    by (auto simp: zero_tail_def sample_home_slot sample_home_first rd8_def)
  ultimately show ?thesis using sample_home_frame by (simp add: dir_wf_def frame_def sample_home_data)
qed

lemma sample_home_facts:
  "vol_ok sample_bpb sample_home" "disk_malloc_ok sample_home n" "fat32_cwd_cluster sample_home = 2"
  "get_root_dir_cluster sample_home = 2" "chain sample_bpb sample_home [3, 4]"
  using sample_home_frame frame_chain [OF sample_home_frame sample_chain(1)]
  by (auto simp: frame_def get_root_dir_cluster_def)

lemma sample_entry_found:
  assumes V: "vol_ok sample_bpb s" and C: "chain sample_bpb s [2]" and M: "disk_malloc_ok s 512"
    and D: "cluster_data sample_bpb s 2 = entry_bytes sample_entry_of_file @ replicate 480 0"
  shows "fat32_find_file 2 (str_bytes ''FILE.TXT'') s = Some (Some (sample_entry_of_file, 2, 0))"
proof -
  note st = find_file_step [OF V C, of "replicate 512 0", simplified]
  have "bslice 0 11 (entry_bytes sample_entry_of_file) = fat32_format_83_name (str_bytes ''FILE.TXT'')" by code_simp
  then have "find_file_scan (str_bytes ''FILE.TXT'') (fat32_format_83_name (str_bytes ''FILE.TXT''))
      (entry_bytes sample_entry_of_file @ replicate 480 0) (slots 0 16) no_long_name = Some (Some (32 * 0), no_long_name)"
    by (intro scan_match)
      (auto simp: sample_home_slot sample_home_first free_slot_def ATTR_LONG_NAME_def LONG_FILENAME_SIZE_def str_bytes_def)
  moreover have "entry_of_bytes (entry_bytes sample_entry_of_file) = sample_entry_of_file"
    by (simp add: entry_roundtrip sample_entry_of_file_def)
  ultimately show ?thesis using find_file_loop_of [OF V] M by (simp add: st D bslice_def)
qed

lemma sample_home_found:
  "fat32_find_file 2 (str_bytes ''FILE.TXT'') sample_home = Some (Some (sample_entry_of_file, 2, 0))"
  using sample_entry_found [OF sample_home_facts(1) _ sample_home_facts(2) sample_home_data] sample_home_wf by (simp add: dir_wf_def)

theorem unlink_frees_file_witness:
  "\<exists>s'. f_unlink (str_bytes ''FILE.TXT'') sample_home = Some (True, s') \<and> fat_entry sample_bpb s' 3 = 0
     \<and> fat_entry sample_bpb s' 4 = 0 \<and> rd8 (slot (cluster_data sample_bpb s' 2) 0) 0 = 0xE5"
proof -
  have N: "length (str_bytes ''FILE.TXT'') < 256" "47 \<notin> set (str_bytes ''FILE.TXT'')" by code_simp+
  have c: "fat32_cwd_cluster sample_home = hd [2]" by (simp add: sample_home_facts)
  have R: "fat32_find_file (hd [2]) (str_bytes ''FILE.TXT'') sample_home = Some (Some (sample_entry_of_file, 2, 0))"
    by (simp add: sample_home_found)
  have C: "if [3, 4] = ([] :: u32 list) then entry_cluster sample_entry_of_file = 0
      else chain sample_bpb sample_home [3, 4] \<and> entry_cluster sample_entry_of_file = hd [3, 4]"
    using sample_home_facts(5) by (simp add: sample_entry_of_file_def)
  have M: "\<forall>n. disk_malloc_ok sample_home n" by (simp add: sample_home_facts)
  from unlink_frees_file [OF sample_home_wf c M N R _ _ C, of 0] show ?thesis by auto
qed

theorem unlink_root_path_deletes_first_file_witness:
  "\<exists>s'. f_unlink (str_bytes ''/'') sample_home = Some (True, s') \<and> fat_entry sample_bpb s' 3 = 0
     \<and> rd8 (slot (cluster_data sample_bpb s' 2) 0) 0 = 0xE5"
proof -
  have M: "\<forall>n. disk_malloc_ok sample_home n" by (simp add: sample_home_facts)
  have c: "get_root_dir_cluster sample_home = hd [2]" by (simp add: sample_home_facts)
  have e: "entry_cluster (entry_of_bytes (entry_bytes sample_entry_of_file)) = 3"
    using entry_roundtrip [of sample_entry_of_file] by (simp add: sample_entry_of_file_def)
  show ?thesis
    using unlink_root_path_deletes_first_file [OF sample_home_wf c M _ _ sample_home_facts(5)]
    by (auto simp: sample_home_data sample_home_slot sample_home_first free_slot_def ATTR_LONG_NAME_def e)
qed

end
