(* ===== verification/FatDirOps.thy ===== *)
theory FatDirOps
  imports FatSession
begin

text \<open>
  The directory interface of the FAT32 driver (kernel/src/fs/fat32_fs/src/dir_manager.c): changing and
  listing directories, making and renaming entries, and the wildcard search. The handle \<open>FAT32_DIR\<close> and
  the record \<open>FAT32_DIRENT\<close> that listing fills are values passed in and returned.
\<close>

section \<open>Handles\<close>

record FAT32_DIR =
  d_first_cluster :: u32
  d_current_cluster :: u32
  d_pos :: u32
  d_parent_cluster :: u32
  d_name :: bytes

record FAT32_DIRENT =
  de_name :: bytes
  de_attr :: u8
  de_size :: u32
  de_first_cluster :: u32

section \<open>Current directory\<close>

text \<open>The loop of \<open>f_cwd\<close>: a failed lookup of \<open>".."\<close> is ignored.\<close>

fun cwd_walk :: "bytes list \<Rightarrow> u32 \<Rightarrow> fat32 \<Rightarrow> u32 option option" where
  "cwd_walk [] current s = Some (Some current)"
| "cwd_walk (token # tokens) current s =
     (if token = [46] then cwd_walk tokens current s
      else if token = [46, 46]
      then do { r \<leftarrow> fat32_find_dir current token s;
                cwd_walk tokens (case r of Some parent \<Rightarrow> parent | None \<Rightarrow> current) s }
      else do { r \<leftarrow> fat32_find_dir current token s;
                case r of None \<Rightarrow> Some None | Some next_cluster \<Rightarrow> cwd_walk tokens next_cluster s })"

definition f_cwd :: "bytes \<Rightarrow> fat32 \<Rightarrow> (bool \<times> fat32) option" where
  "f_cwd path s =
     (if path = [] then Some (False, s)
      else let current = (if hd path = 47 then get_root_dir_cluster s else fat32_cwd_cluster s)
           in if path = [47] then Some (True, s\<lparr>fat32_cwd_cluster := get_root_dir_cluster s\<rparr>)
              else if length path \<ge> 256 then None
              else do { r \<leftarrow> cwd_walk (path_tokens path) current s;
                        case r of None \<Rightarrow> Some (False, s)
                        | Some c \<Rightarrow> Some (True, s\<lparr>fat32_cwd_cluster := c\<rparr>) })"

definition f_chdir :: "bytes \<Rightarrow> fat32 \<Rightarrow> (bool \<times> fat32) option" where
  "f_chdir path s =
     do { r \<leftarrow> fat32_path_to_cluster path s;
          case r of None \<Rightarrow> Some (False, s)
          | Some cluster \<Rightarrow>
              if cluster = 0 then Some (False, s) else Some (True, s\<lparr>fat32_cwd_cluster := cluster\<rparr>) }"

text \<open>The buffer has \<open>size\<close> bytes; the result is the string stored in it.\<close>

definition f_getcwd :: "u32 \<Rightarrow> fat32 \<Rightarrow> bytes option" where
  "f_getcwd sz s =
     (if sz = 0 then None
      else if length (fat32_cwd_path s) + 1 > unat sz then None
      else Some (fat32_cwd_path s))"

section \<open>Listing\<close>

definition f_opendir :: "FAT32_DIR \<Rightarrow> bytes \<Rightarrow> fat32 \<Rightarrow> (bool \<times> FAT32_DIR) option" where
  "f_opendir dp path s =
     do { r \<leftarrow> (if path = [47] then Some (Some (get_root_dir_cluster s)) else fat32_path_to_cluster path s);
          case r of
            None \<Rightarrow> Some (False, dp)
          | Some cluster \<Rightarrow> do {
              parent \<leftarrow> (if path \<noteq> [] \<and> hd path = 47
                 then if length path \<ge> 256 then None
                      else (case last_slash path of
                              None \<Rightarrow> Some (get_root_dir_cluster s)
                            | Some i \<Rightarrow> if i = 0 then Some (get_root_dir_cluster s)
                                else map_option (\<lambda>r. case r of Some p \<Rightarrow> p | None \<Rightarrow> d_parent_cluster dp)
                                       (fat32_path_to_cluster (take i path) s))
                 else Some (fat32_cwd_cluster s));
              Some (True, dp\<lparr>d_first_cluster := cluster, d_current_cluster := cluster, d_pos := 0,
                             d_parent_cluster := parent, d_name := take 255 path\<rparr>) } }"

definition f_closedir :: "FAT32_DIR \<Rightarrow> bool \<times> FAT32_DIR" where
  "f_closedir dp = (True, dp\<lparr>d_first_cluster := 0, d_current_cluster := 0, d_pos := 0,
                             d_parent_cluster := 0, d_name := []\<rparr>)"

text \<open>The name that \<open>f_readdir\<close> builds from an 8.3 name.\<close>

definition strip_blanks :: "bytes \<Rightarrow> bytes" where
  "strip_blanks xs = rev (dropWhile (\<lambda>c. c = 32) (rev xs))"

definition dirent_name :: "bytes \<Rightarrow> bytes" where
  "dirent_name n =
     (let base = takeWhile (\<lambda>c. c \<noteq> 0) (strip_blanks (take 8 n))
      in if n ! 8 \<noteq> 32 then base @ [46] @ takeWhile (\<lambda>c. c \<noteq> 0) (strip_blanks (bslice 8 3 n)) else base)"

definition dirent_of :: "bytes \<Rightarrow> FAT32_DIRENT" where
  "dirent_of e = \<lparr>de_name = dirent_name (bslice 0 11 e), de_attr = rd8 e 11,
     de_size = DIR_FileSize (entry_of_bytes e), de_first_cluster = entry_cluster (entry_of_bytes e)\<rparr>"

text \<open>
  The inner loop of \<open>f_readdir\<close> and the position it leaves: the cluster is exhausted (\<open>None\<close>), the end of the
  directory is reached (\<open>Some None\<close>), or an entry is found.
\<close>

partial_function (option) readdir_scan ::
  "u32 \<Rightarrow> bytes \<Rightarrow> u32 \<Rightarrow> (FAT32_DIRENT option option \<times> u32) option" where
  "readdir_scan cluster_size buf p =
     (if p < cluster_size
      then Option.bind (ld_entry buf (unat p)) (\<lambda>e.
             if rd8 e 0 = 0 then Some (Some None, p + 32)
             else if rd8 e 0 = 0xE5 then readdir_scan cluster_size buf (p + 32)
             else if rd8 e 11 = 0x0F then readdir_scan cluster_size buf (p + 32)
             else if rd8 e 11 AND 0x08 \<noteq> 0 then readdir_scan cluster_size buf (p + 32)
             else Some (Some (Some (dirent_of e)), p + 32))
      else Some (None, p))"

partial_function (option) readdir_loop ::
  "u32 \<Rightarrow> u32 \<Rightarrow> u32 \<Rightarrow> bytes \<Rightarrow> fat32 \<Rightarrow> (FAT32_DIRENT option \<times> u32 \<times> u32) option" where
  "readdir_loop cluster_size cur p buf s =
     (if is_valid_cluster cur s
      then Option.bind (fat32_read_cluster cur buf 0 s) (\<lambda>(ok, buf').
             if \<not> ok then Some (None, cur, p)
             else Option.bind (readdir_scan cluster_size buf' p) (\<lambda>(r, p').
               case r of
                 Some d \<Rightarrow> Some (d, cur, p')
               | None \<Rightarrow> Option.bind (fat32_get_next_cluster cur s) (\<lambda>nxt.
                   readdir_loop cluster_size nxt 0 buf' s)))
      else Some (None, cur, p))"

definition f_readdir :: "FAT32_DIR \<Rightarrow> fat32 \<Rightarrow> (FAT32_DIRENT option \<times> FAT32_DIR) option" where
  "f_readdir dp s =
     (let cluster_size = get_cluster_size_bytes s
      in case malloc (unat cluster_size) s of
           None \<Rightarrow> Some (None, dp)
         | Some buf \<Rightarrow> do {
             (r, cur, p) \<leftarrow> readdir_loop cluster_size (d_current_cluster dp) (d_pos dp) buf s;
             Some (r, dp\<lparr>d_current_cluster := cur, d_pos := p\<rparr>) })"

section \<open>Making and renaming\<close>

definition f_mkdir :: "bytes \<Rightarrow> fat32 \<Rightarrow> (bool \<times> fat32) option" where
  "f_mkdir path s =
     (if length path \<ge> 256 then None
      else do {
        r \<leftarrow> resolve_parent path s;
        case r of
          None \<Rightarrow> Some (False, s)
        | Some (parent, dirname) \<Rightarrow>
            if dirname = [] then Some (False, s)
            else do { e \<leftarrow> fat32_dir_exists parent dirname s;
                      if e then Some (False, s) else fat32_mkdir_internal parent dirname s } })"

definition f_rename :: "bytes \<Rightarrow> bytes \<Rightarrow> fat32 \<Rightarrow> (bool \<times> fat32) option" where
  "f_rename oldpath newpath s =
     do { r \<leftarrow> fat32_split_path oldpath s;
          case r of None \<Rightarrow> Some (False, s)
          | Some (old_parent, oldname) \<Rightarrow> do {
              found \<leftarrow> fat32_find_file old_parent oldname s;
              case found of None \<Rightarrow> Some (False, s)
              | Some (entry, ent_cluster, ent_offset) \<Rightarrow> do {
                  r \<leftarrow> fat32_split_path newpath s;
                  case r of None \<Rightarrow> Some (False, s)
                  | Some (new_parent, newname) \<Rightarrow> do {
                      e \<leftarrow> fat32_dir_exists new_parent newname s;
                      if e then Some (False, s)
                      else do {
                        (ok, s1) \<leftarrow> fat32_create_dir_entry new_parent newname (DIR_Attr entry)
                                     (entry_cluster entry) (DIR_FileSize entry) s;
                        if \<not> ok then Some (False, s1)
                        else do {
                          (ok, buf) \<leftarrow> fat32_read_cluster ent_cluster
                                         (replicate (unat (get_cluster_size_bytes s1)) 0) 0 s1;
                          if \<not> ok then Some (False, s1)
                          else do { buf \<leftarrow> st_bytes buf (unat ent_offset) [0xE5];
                                    fat32_write_cluster ent_cluster buf s1 } } } } } } }"

section \<open>Wildcards\<close>

definition tolower_b :: "u8 \<Rightarrow> u8" where
  "tolower_b c = (if 65 \<le> c \<and> c \<le> 90 then c + 32 else c)"

text \<open>\<open>match_star\<close> is the loop that tries the rest of the pattern at every remaining character.\<close>

fun fat32_match_pattern :: "bytes \<Rightarrow> bytes \<Rightarrow> bool" and match_star :: "bytes \<Rightarrow> bytes \<Rightarrow> bool" where
  "fat32_match_pattern [] name = (name = [])"
| "fat32_match_pattern (p # ps) [] = ((if p = 42 then ps else p # ps) = [])"
| "fat32_match_pattern (p # ps) (c # cs) =
     (if p = 42 then if ps = [] then True else match_star ps (c # cs)
      else if p \<noteq> 63 \<and> tolower_b p \<noteq> tolower_b c then False
      else fat32_match_pattern ps cs)"
| "match_star ps [] = False"
| "match_star ps (c # cs) = (fat32_match_pattern ps (c # cs) \<or> match_star ps cs)"

partial_function (option) f_findnext ::
  "FAT32_DIR \<Rightarrow> bytes \<Rightarrow> fat32 \<Rightarrow> (FAT32_DIRENT option \<times> FAT32_DIR) option" where
  "f_findnext dp pattern s =
     Option.bind (f_readdir dp s) (\<lambda>(r, dp').
       case r of
         None \<Rightarrow> Some (None, dp')
       | Some entry \<Rightarrow> if fat32_match_pattern pattern (de_name entry) then Some (Some entry, dp')
           else f_findnext dp' pattern s)"

definition f_findfirst :: "FAT32_DIR \<Rightarrow> bytes \<Rightarrow> bytes \<Rightarrow> fat32 \<Rightarrow> (FAT32_DIRENT option \<times> FAT32_DIR) option" where
  "f_findfirst dp path pattern s =
     do { (ok, dp1) \<leftarrow> f_opendir dp path s;
          if \<not> ok then Some (None, dp1) else f_findnext dp1 pattern s }"

text \<open>The loop \<open>while (f_readdir(&dir, &entry))\<close> with which a directory is listed (fat32.c): the entries it sees.\<close>

partial_function (option) list_dir :: "FAT32_DIR \<Rightarrow> fat32 \<Rightarrow> FAT32_DIRENT list option" where
  "list_dir dp s =
     Option.bind (f_readdir dp s) (\<lambda>(r, dp').
       case r of None \<Rightarrow> Some [] | Some e \<Rightarrow> Option.bind (list_dir dp' s) (\<lambda>es. Some (e # es)))"

section \<open>What listing returns\<close>

definition visible :: "bytes \<Rightarrow> bool" where
  "visible e \<longleftrightarrow> \<not> free_slot e \<and> rd8 e 11 \<noteq> 0x0F \<and> rd8 e 11 AND 0x08 = 0"

definition dir_slots :: "BPB \<Rightarrow> fat32 \<Rightarrow> u32 list \<Rightarrow> bytes list" where
  "dir_slots b s cs = concat (map (\<lambda>c. map (slot (cluster_data b s c)) [0..<nslots b]) cs)"

definition listing :: "bytes list \<Rightarrow> FAT32_DIRENT list" where
  "listing es = map dirent_of (filter visible (takeWhile (\<lambda>e. rd8 e 0 \<noteq> 0) es))"

text \<open>The next visible slot and those after it.\<close>

fun nextv :: "bytes list \<Rightarrow> (bytes \<times> bytes list) option" where
  "nextv [] = None"
| "nextv (e # es) = (if rd8 e 0 = 0 then None else if visible e then Some (e, es) else nextv es)"

lemma listing_nextv:
  "listing es = (case nextv es of None \<Rightarrow> [] | Some (e, es') \<Rightarrow> dirent_of e # listing es')"
  by (induction es) (auto simp: listing_def visible_def free_slot_def)

lemma nextv_length: "nextv es = Some (e, es') \<Longrightarrow> length es' < length es"
  by (induction es) (auto split: if_splits)

lemma readdir_scan_ok:
  assumes L: "length buf = 32 * n" "32 * n < 2 ^ 32" and w: "unat cluster_size = 32 * n"
  shows "j \<le> n \<Longrightarrow> \<exists>r p. readdir_scan cluster_size buf (of_nat (32 * j)) = Some (r, p) \<and>
    (case r of
       None \<Rightarrow> \<forall>xs. nextv (map (slot buf) [j..<n] @ xs) = nextv xs
     | Some None \<Rightarrow> \<forall>xs. nextv (map (slot buf) [j..<n] @ xs) = None
     | Some (Some d) \<Rightarrow> \<exists>e k. k \<le> n \<and> p = of_nat (32 * k) \<and> d = dirent_of e \<and>
         (\<forall>xs. nextv (map (slot buf) [j..<n] @ xs) = Some (e, map (slot buf) [k..<n] @ xs)))"
proof (induction "n - j" arbitrary: j)
  case 0
  then have "\<not> (of_nat (32 * j) :: u32) < cluster_size"
    using w L(2) by (simp add: word_less_nat_alt unat_of_nat del: of_nat_mult)
  then show ?case using 0 by (subst readdir_scan.simps) auto
next
  case (Suc x)
  then have j: "j < n" "x = n - Suc j" by auto
  have u: "unat (of_nat (32 * j) :: u32) = 32 * j" using j L(2) by (simp add: unat_of_nat del: of_nat_mult)
  have lt: "(of_nat (32 * j) :: u32) < cluster_size" using u j w by (simp add: word_less_nat_alt)
  have nx: "(of_nat (32 * j) + 32 :: u32) = of_nat (32 * Suc j)" by simp
  have ld: "ld_entry buf (32 * j) = Some (slot buf j)" using ld_slot [of n buf j] L j by simp
  have up: "map (slot buf) [j..<n] = slot buf j # map (slot buf) [Suc j..<n]" using j by (simp add: upt_conv_Cons)
  let ?e = "slot buf j"
  have st: "readdir_scan cluster_size buf (of_nat (32 * j)) =
     (if rd8 ?e 0 = 0 then Some (Some None, of_nat (32 * Suc j))
      else if visible ?e then Some (Some (Some (dirent_of ?e)), of_nat (32 * Suc j))
      else readdir_scan cluster_size buf (of_nat (32 * Suc j)))"
    using lt ld unfolding nx [symmetric]
    by (subst readdir_scan.simps) (auto simp: u visible_def free_slot_def simp del: of_nat_mult)
  show ?case
  proof (cases "rd8 ?e 0 = 0 \<or> visible ?e")
    case True
    show ?thesis
    proof (cases "rd8 ?e 0 = 0")
      case False
      then have v: "visible ?e" using True by simp
      show ?thesis unfolding st up using False v j
        by (intro exI [of _ "Some (Some (dirent_of ?e))"] exI [of _ "of_nat (32 * Suc j)"]) (auto intro!: exI [of _ "Suc j"])
    qed (simp add: st up del: of_nat_mult)
  next
    case False
    then have nv: "nextv (map (slot buf) [j..<n] @ xs) = nextv (map (slot buf) [Suc j..<n] @ xs)" for xs
      unfolding up by simp
    have sj: "readdir_scan cluster_size buf (of_nat (32 * j)) = readdir_scan cluster_size buf (of_nat (32 * Suc j))"
      using st False by simp
    show ?thesis unfolding sj nv by (rule Suc.hyps(1) [OF j(2) Suc_leI [OF j(1)]])
  qed
qed

lemma dir_slots_Cons: "dir_slots b s (c # cs) = map (slot (cluster_data b s c)) [0..<nslots b] @ dir_slots b s cs"
  by (simp add: dir_slots_def)

text \<open>The slots still to be seen by a handle at slot \<open>j\<close> of the first cluster of a chain.\<close>

definition rest_slots :: "BPB \<Rightarrow> fat32 \<Rightarrow> u32 list \<Rightarrow> nat \<Rightarrow> bytes list" where
  "rest_slots b s cs j = (case cs of [] \<Rightarrow> [] | c # cs' \<Rightarrow>
     map (slot (cluster_data b s c)) [j..<nslots b] @ dir_slots b s cs')"

lemma rest_slots_Cons: "rest_slots b s (c # cs) j = map (slot (cluster_data b s c)) [j..<nslots b] @ rest_slots b s cs 0"
  by (cases cs) (simp_all add: rest_slots_def dir_slots_def)

lemma readdir_step:
  assumes V: "vol_ok b s" and C: "chain b s (c # cs)" and j: "j \<le> nslots b" and L: "length buf = csize b"
  shows "\<exists>r p. readdir_loop (get_cluster_size_bytes s) c (of_nat (32 * j)) buf s =
      (case r of
         Some d \<Rightarrow> Some (d, c, p)
       | None \<Rightarrow> (case cs of [] \<Rightarrow> Some (None, fat_entry b s c, 0)
            | d # _ \<Rightarrow> readdir_loop (get_cluster_size_bytes s) d (of_nat (32 * 0)) (cluster_data b s c) s)) \<and>
    (case r of
       None \<Rightarrow> nextv (rest_slots b s (c # cs) j) = nextv (rest_slots b s cs 0)
     | Some None \<Rightarrow> nextv (rest_slots b s (c # cs) j) = None
     | Some (Some d) \<Rightarrow> \<exists>e k. k \<le> nslots b \<and> p = of_nat (32 * k) \<and> d = dirent_of e \<and>
         nextv (rest_slots b s (c # cs) j) = Some (e, rest_slots b s (c # cs) k))"
proof -
  have w: "unat (get_cluster_size_bytes s) = 32 * nslots b" using vol_okD(6) [OF V] by simp
  have lt: "32 * nslots b < 2 ^ 32" using wf_bpbD(3) [OF vol_okD(2) [OF V]] by simp
  have lc: "length (cluster_data b s c) = 32 * nslots b" using V by simp
  note f = chain_Cons_cases [OF V C]
  obtain r p where rp: "readdir_scan (get_cluster_size_bytes s) (cluster_data b s c) (of_nat (32 * j)) = Some (r, p)"
    "case r of None \<Rightarrow> \<forall>xs. nextv (map (slot (cluster_data b s c)) [j..<nslots b] @ xs) = nextv xs
     | Some None \<Rightarrow> \<forall>xs. nextv (map (slot (cluster_data b s c)) [j..<nslots b] @ xs) = None
     | Some (Some d) \<Rightarrow> \<exists>e k. k \<le> nslots b \<and> p = of_nat (32 * k) \<and> d = dirent_of e \<and>
       (\<forall>xs. nextv (map (slot (cluster_data b s c)) [j..<nslots b] @ xs) = Some (e, map (slot (cluster_data b s c)) [k..<nslots b] @ xs))"
    using readdir_scan_ok [OF lc lt w j] by blast
  have e: "readdir_loop (get_cluster_size_bytes s) (fat_entry b s c) 0 (cluster_data b s c) s = Some (None, fat_entry b s c, 0)"
    if "cs = []"
    using f(5) [OF that] by (subst readdir_loop.simps) (auto simp: is_end_of_cluster_chain_def is_valid_cluster_def word_le_nat_alt)
  have "readdir_loop (get_cluster_size_bytes s) c (of_nat (32 * j)) buf s =
      (case r of
         Some d \<Rightarrow> Some (d, c, p)
       | None \<Rightarrow> (case cs of [] \<Rightarrow> Some (None, fat_entry b s c, 0)
            | d # _ \<Rightarrow> readdir_loop (get_cluster_size_bytes s) d (of_nat (32 * 0)) (cluster_data b s c) s))"
    using rp(1) f(1-4,6) e dir_read [OF V _ L, of c]
    by (subst readdir_loop.simps) (auto simp del: of_nat_mult split: option.splits list.splits)
  then show ?thesis using rp(2)
    by (intro exI [of _ r] exI [of _ p]) (auto simp: rest_slots_Cons simp del: of_nat_mult split: option.splits)
qed

lemma readdir_loop_ok:
  assumes V: "vol_ok b s"
  shows "chain b s (c # cs) \<Longrightarrow> j \<le> nslots b \<Longrightarrow> length buf = csize b \<Longrightarrow>
    \<exists>r c' p. readdir_loop (get_cluster_size_bytes s) c (of_nat (32 * j)) buf s = Some (r, c', p) \<and>
      (case nextv (rest_slots b s (c # cs) j) of
         None \<Rightarrow> r = None
       | Some (e, es) \<Rightarrow> r = Some (dirent_of e) \<and>
           (\<exists>cs' k. chain b s (c' # cs') \<and> k \<le> nslots b \<and> p = of_nat (32 * k) \<and> es = rest_slots b s (c' # cs') k))"
proof (induction cs arbitrary: c j buf)
  case (Nil c j buf)
  show ?case using readdir_step [OF V Nil] Nil(1)
    by (elim exE conjE) (auto simp: rest_slots_def simp del: of_nat_mult chain.simps split: option.splits; metis)
next
  case (Cons d cs c j buf)
  obtain r p where rp: "readdir_loop (get_cluster_size_bytes s) c (of_nat (32 * j)) buf s =
      (case r of Some d \<Rightarrow> Some (d, c, p)
       | None \<Rightarrow> readdir_loop (get_cluster_size_bytes s) d (of_nat (32 * 0)) (cluster_data b s c) s)"
    "case r of
       None \<Rightarrow> nextv (rest_slots b s (c # d # cs) j) = nextv (rest_slots b s (d # cs) 0)
     | Some None \<Rightarrow> nextv (rest_slots b s (c # d # cs) j) = None
     | Some (Some x) \<Rightarrow> \<exists>e k. k \<le> nslots b \<and> p = of_nat (32 * k) \<and> x = dirent_of e \<and>
         nextv (rest_slots b s (c # d # cs) j) = Some (e, rest_slots b s (c # d # cs) k)"
    using readdir_step [OF V Cons.prems] unfolding list.case by blast
  have C2: "chain b s (d # cs)" using Cons.prems(1) by simp
  show ?case
  proof (cases r)
    case None
    have lc: "length (cluster_data b s c) = csize b" using V by simp
    show ?thesis using Cons.IH [OF C2 _ lc, of 0] rp None by simp
  next
    case (Some x)
    show ?thesis
    proof (cases x)
      case (Some a)
      then obtain e k where k: "k \<le> nslots b" "p = of_nat (32 * k)" "a = dirent_of e"
        "nextv (rest_slots b s (c # d # cs) j) = Some (e, rest_slots b s (c # d # cs) k)"
        using rp(2) \<open>r = Some x\<close> by auto
      show ?thesis using rp(1) k Cons.prems(1) unfolding \<open>r = Some x\<close> Some k(2,3,4)
        by (intro exI [of _ "Some (dirent_of e)"] exI [of _ c] exI [of _ "of_nat (32 * k)"])
          (auto simp del: of_nat_mult chain.simps)
    qed (use rp Some in \<open>simp del: of_nat_mult\<close>)
  qed
qed

lemma readdir_ok:
  assumes V: "vol_ok b s" and M: "disk_malloc_ok s (csize b)" and C: "chain b s (c # cs)" and j: "j \<le> nslots b"
    and dp: "d_current_cluster dp = c" "d_pos dp = of_nat (32 * j)"
  shows "case nextv (rest_slots b s (c # cs) j) of
      None \<Rightarrow> \<exists>dp'. f_readdir dp s = Some (None, dp')
    | Some (e, es) \<Rightarrow> \<exists>dp' c' cs' k. f_readdir dp s = Some (Some (dirent_of e), dp') \<and> chain b s (c' # cs') \<and> k \<le> nslots b
        \<and> d_current_cluster dp' = c' \<and> d_pos dp' = of_nat (32 * k) \<and> es = rest_slots b s (c' # cs') k"
proof -
  have w: "unat (get_cluster_size_bytes s) = csize b" "0 < csize b"
    using vol_okD(6) [OF V] wf_bpbD(2) [OF vol_okD(2) [OF V]] by simp_all
  obtain r c' p where r: "readdir_loop (get_cluster_size_bytes s) c (of_nat (32 * j)) (replicate (csize b) 0) s = Some (r, c', p)"
    "case nextv (rest_slots b s (c # cs) j) of
         None \<Rightarrow> r = None
       | Some (e, es) \<Rightarrow> r = Some (dirent_of e) \<and>
           (\<exists>cs' k. chain b s (c' # cs') \<and> k \<le> nslots b \<and> p = of_nat (32 * k) \<and> es = rest_slots b s (c' # cs') k)"
    using readdir_loop_ok [OF V C j, of "replicate (csize b) 0"] by auto
  have "f_readdir dp s = Some (r, dp\<lparr>d_current_cluster := c', d_pos := p\<rparr>)"
    using w M r(1) dp by (simp add: f_readdir_def malloc_def Let_def del: of_nat_mult)
  then show ?thesis using r(2) by (auto simp del: of_nat_mult chain.simps split: option.splits)
qed

lemma list_dir_ok:
  assumes V: "vol_ok b s" and M: "disk_malloc_ok s (csize b)"
  shows "chain b s (c # cs) \<Longrightarrow> j \<le> nslots b \<Longrightarrow> d_current_cluster dp = c \<Longrightarrow> d_pos dp = of_nat (32 * j) \<Longrightarrow>
    list_dir dp s = Some (listing (rest_slots b s (c # cs) j))"
proof (induction "length (rest_slots b s (c # cs) j)" arbitrary: c cs j dp rule: less_induct)
  case less
  note R = readdir_ok [OF V M less.prems]
  show ?case
  proof (cases "nextv (rest_slots b s (c # cs) j)")
    case None
    then show ?thesis using R by (subst list_dir.simps) (auto simp: listing_nextv [of "rest_slots b s (c # cs) j"])
  next
    case (Some q)
    obtain e es where q: "q = (e, es)" by force
    obtain dp' c' cs' k where n: "f_readdir dp s = Some (Some (dirent_of e), dp')" "chain b s (c' # cs')" "k \<le> nslots b"
      "d_current_cluster dp' = c'" "d_pos dp' = of_nat (32 * k)" "es = rest_slots b s (c' # cs') k"
      using R unfolding Some q by (simp del: of_nat_mult chain.simps) blast
    have "list_dir dp' s = Some (listing es)"
      using less.hyps [OF _ n(2-5)] nextv_length [OF Some [unfolded q]] n(6) by simp
    then show ?thesis using n(1) Some q
      by (subst list_dir.simps) (simp add: listing_nextv [of "rest_slots b s (c # cs) j"])
  qed
qed

section \<open>Wildcards match like globs\<close>

text \<open>
  The reference meaning of a pattern: \<open>*\<close> stands for any run of characters, \<open>?\<close> for any one character, and
  letters match regardless of case.
\<close>

fun glob :: "bytes \<Rightarrow> bytes \<Rightarrow> bool" where
  "glob [] name \<longleftrightarrow> name = []"
| "glob (p # ps) name \<longleftrightarrow>
     (if p = 42 then list_ex (\<lambda>k. glob ps (drop k name)) [0..<Suc (length name)]
      else (case name of [] \<Rightarrow> False | c # cs \<Rightarrow> (p = 63 \<or> tolower_b p = tolower_b c) \<and> glob ps cs))"

fun stars_apart :: "bytes \<Rightarrow> bool" where
  "stars_apart (p # q # ps) \<longleftrightarrow> \<not> (p = 42 \<and> q = 42) \<and> stars_apart (q # ps)"
| "stars_apart ps \<longleftrightarrow> True"

lemma list_ex_upt: "list_ex P [0..<n] \<longleftrightarrow> (\<exists>k<n. P k)"
  by (auto simp: list_ex_iff)

lemma match_star_iff: "match_star ps name \<longleftrightarrow> (\<exists>k<length name. fat32_match_pattern ps (drop k name))"
proof (induction name)
  case (Cons c cs)
  have "(\<exists>k<length (c # cs). fat32_match_pattern ps (drop k (c # cs)))
      \<longleftrightarrow> fat32_match_pattern ps (c # cs) \<or> (\<exists>k<length cs. fat32_match_pattern ps (drop k cs))"
    by (auto simp: Ex_less_Suc2)
  then show ?case using Cons by simp
qed simp

lemma glob_nil: "ps \<noteq> [] \<Longrightarrow> hd ps \<noteq> 42 \<Longrightarrow> \<not> glob ps []"
  by (cases ps) auto

lemma glob_star: "glob (42 # ps) name \<longleftrightarrow> (\<exists>k\<le>length name. glob ps (drop k name))"
  by (simp add: list_ex_upt less_Suc_eq_le del: upt_Suc)

lemma match_is_glob: "stars_apart ps \<Longrightarrow> fat32_match_pattern ps name = glob ps name"
proof (induction ps arbitrary: name)
  case (Cons p ps)
  have sa: "stars_apart ps" using Cons.prems by (cases ps) auto
  note IH = Cons.IH [OF sa]
  show ?case
  proof (cases "p = 42")
    case star: True
    have hd: "ps \<noteq> [] \<Longrightarrow> hd ps \<noteq> 42" using Cons.prems star by (cases ps) auto
    have g: "glob (p # ps) name \<longleftrightarrow> (\<exists>k\<le>length name. glob ps (drop k name))" using glob_star star by simp
    show ?thesis
    proof (cases "ps = []")
      case True
      then show ?thesis unfolding g using star by (cases name) auto
    next
      case False
      note nn = glob_nil [OF False hd [OF False]]
      have "(\<exists>k\<le>length name. glob ps (drop k name)) \<longleftrightarrow> (\<exists>k<length name. glob ps (drop k name))"
        using nn by (metis drop_all le_less order_refl)
      then show ?thesis unfolding g using star False by (cases name) (auto simp: match_star_iff IH simp del: match_star.simps)
    qed
  qed (cases name, auto simp: IH)
qed simp

section \<open>8.3 names\<close>

definition plain_char :: "u8 \<Rightarrow> bool" where
  "plain_char c \<longleftrightarrow> c \<noteq> 0 \<and> c \<noteq> 32 \<and> c \<noteq> 46 \<and> \<not> islower_b c"

lemma toupper_plain: "plain_char c \<Longrightarrow> toupper_b c = c"
  by (auto simp: plain_char_def toupper_b_def islower_b_def)

lemma map_toupper_plain: "\<forall>c\<in>set xs. plain_char c \<Longrightarrow> map toupper_b xs = xs"
  by (induction xs) (auto simp: toupper_plain)

lemma copy_base_plain:
  "\<forall>c\<in>set base. plain_char c \<Longrightarrow> length base \<le> n \<Longrightarrow> r = [] \<or> hd r = 46 \<Longrightarrow> copy_base n (base @ r) = (base, r)"
proof (induction base arbitrary: n)
  case Nil
  then show ?case by (cases n; cases r) auto
next
  case (Cons c cs)
  then obtain m where n: "n = Suc m" by (cases n) auto
  have "copy_base m (cs @ r) = (cs, r)" using Cons n by auto
  moreover have "c \<noteq> 46" "toupper_b c = c" using Cons.prems(1) toupper_plain by (auto simp: plain_char_def)
  ultimately show ?case by (simp add: n)
qed

lemma strip_plain: "\<forall>c\<in>set xs. plain_char c \<Longrightarrow> strip_blanks (xs @ replicate k 32) = xs"
proof -
  assume a: "\<forall>c\<in>set xs. plain_char c"
  have "dropWhile (\<lambda>c. c = 32) (replicate k 32 @ rev xs) = rev xs"
    using a by (induction k) (auto simp: dropWhile_eq_self_iff plain_char_def hd_rev)
  then show ?thesis by (simp add: strip_blanks_def)
qed

lemma plain_takeWhile: "\<forall>c\<in>set xs. plain_char c \<Longrightarrow> takeWhile (\<lambda>c. c \<noteq> 0) xs = xs"
  by (auto simp: takeWhile_eq_all_conv plain_char_def)

lemma format_83_plain:
  assumes "\<forall>c\<in>set base. plain_char c" "\<forall>c\<in>set ext. plain_char c" "length base \<le> 8" "length ext \<le> 3"
  shows "fat32_format_83_name (base @ (if ext = [] then [] else 46 # ext))
    = base @ replicate (8 - length base) 32 @ ext @ replicate (3 - length ext) 32"
proof -
  have "copy_base 8 (base @ (if ext = [] then [] else 46 # ext)) = (base, if ext = [] then [] else 46 # ext)"
    using assms by (intro copy_base_plain) auto
  then show ?thesis using assms map_toupper_plain [OF assms(2)]
    by (auto simp: fat32_format_83_name_def Let_def overwrite_def drop_replicate replicate_add [symmetric])
qed

section \<open>Properties\<close>

text \<open>
  Short names survive the directory: an upper-case name of at most eight characters with an extension of
  at most three is listed by \<open>f_readdir\<close> exactly as it was given when the entry was made.
\<close>

theorem short_name_roundtrip:
  assumes "\<forall>c\<in>set base. plain_char c" "\<forall>c\<in>set ext. plain_char c" "length base \<le> 8" "length ext \<le> 3"
    and n: "name = base @ (if ext = [] then [] else 46 # ext)"
  shows "dirent_name (fat32_format_83_name name) = name"
proof -
  define f where "f = fat32_format_83_name name"
  have f: "f = base @ replicate (8 - length base) 32 @ ext @ replicate (3 - length ext) 32"
    unfolding f_def n by (rule format_83_plain [OF assms(1-4)])
  have "take 8 f = base @ replicate (8 - length base) 32" "bslice 8 3 f = ext @ replicate (3 - length ext) 32"
    unfolding f bslice_def using assms(3,4) by simp_all
  moreover have "f ! 8 = (if ext = [] then 32 else hd ext)"
    unfolding f using assms(3) by (cases ext) (auto simp: nth_append)
  moreover have "ext \<noteq> [] \<Longrightarrow> hd ext \<noteq> 32" using assms(2) by (cases ext) (auto simp: plain_char_def)
  ultimately show ?thesis unfolding f_def [symmetric]
    by (simp add: dirent_name_def Let_def n strip_plain [OF assms(1)] strip_plain [OF assms(2)]
        plain_takeWhile [OF assms(1)] plain_takeWhile [OF assms(2)])
qed

theorem short_name_roundtrip_witness:
  "dirent_name (fat32_format_83_name (str_bytes ''README.MD'')) = str_bytes ''README.MD''"
proof -
  have "\<forall>c\<in>set (str_bytes ''README''). plain_char c" "\<forall>c\<in>set (str_bytes ''MD''). plain_char c"
    "length (str_bytes ''README'') \<le> 8" "length (str_bytes ''MD'') \<le> 3"
    "str_bytes ''README.MD'' = str_bytes ''README'' @ (if str_bytes ''MD'' = [] then [] else 46 # str_bytes ''MD'')"
    by code_simp+
  then show ?thesis by (rule short_name_roundtrip)
qed

text \<open>
  C17. Wildcard search: for every pattern without two adjacent stars \<open>fat32_match_pattern\<close> accepts exactly
  the names the pattern describes, although it never tries a star against the empty rest of a name.
\<close>

theorem match_pattern_is_glob:
  assumes "stars_apart pattern"
  shows "fat32_match_pattern pattern name \<longleftrightarrow> glob pattern name"
  by (rule match_is_glob [OF assms])

theorem match_pattern_is_glob_witness:
  "fat32_match_pattern (str_bytes ''*.t?t'') (str_bytes ''NOTES.TXT'') \<and> glob (str_bytes ''*.t?t'') (str_bytes ''NOTES.TXT'')"
proof -
  have "stars_apart (str_bytes ''*.t?t'')" "glob (str_bytes ''*.t?t'') (str_bytes ''NOTES.TXT'')" by code_simp+
  then show ?thesis using match_pattern_is_glob [of "str_bytes ''*.t?t''" "str_bytes ''NOTES.TXT''"] by simp
qed

text \<open>
  C16. Listing a directory terminates and is exact: opening \<open>"/"\<close> and calling \<open>f_readdir\<close> until it returns false
  yields, in order, one record per live short entry of the root directory's clusters up to the first unused
  slot; deleted slots, long-name entries and the volume label are skipped.
\<close>

theorem readdir_lists_directory:
  assumes V: "vol_ok b s" and M: "disk_malloc_ok s (csize b)" and C: "chain b s cs" "get_root_dir_cluster s = hd cs"
  shows "\<exists>dp'. f_opendir dp (str_bytes ''/'') s = Some (True, dp')
     \<and> list_dir dp' s = Some (map dirent_of (filter visible (takeWhile (\<lambda>e. rd8 e 0 \<noteq> 0) (dir_slots b s cs))))"
proof -
  obtain c cs' where cs: "cs = c # cs'" using C(1) by (cases cs) auto
  have r: "rest_slots b s (c # cs') 0 = dir_slots b s cs" by (simp add: rest_slots_def cs dir_slots_def)
  obtain dp' where o: "f_opendir dp (str_bytes ''/'') s = Some (True, dp')" "d_current_cluster dp' = c" "d_pos dp' = of_nat (32 * 0)"
    using C(2) by (auto simp: f_opendir_def str_bytes_def last_slash_def cs)
  have "list_dir dp' s = Some (listing (dir_slots b s cs))"
    using list_dir_ok [OF V M C(1) [unfolded cs] _ o(2,3)] r by simp
  then show ?thesis using o(1) by (simp add: listing_def)
qed

theorem readdir_lists_directory_witness:
  "\<exists>dp'. f_opendir \<lparr>d_first_cluster = 0, d_current_cluster = 0, d_pos = 0, d_parent_cluster = 0, d_name = []\<rparr>
       (str_bytes ''/'') sample_home = Some (True, dp')
     \<and> list_dir dp' sample_home = Some [\<lparr>de_name = str_bytes ''FILE.TXT'', de_attr = 0x20, de_size = 600, de_first_cluster = 3\<rparr>]"
proof -
  have C: "chain sample_bpb sample_home [2]" using sample_home_wf by (simp add: dir_wf_def)
  have sl: "dir_slots sample_bpb sample_home [2] = entry_bytes sample_entry_of_file # replicate 15 (replicate 32 0)"
  proof -
    have "map (slot (cluster_data sample_bpb sample_home 2)) [0..<16]
        = map (\<lambda>i. if i = 0 then entry_bytes sample_entry_of_file else replicate 32 0) [0..<16]"
      unfolding sample_home_data by (rule map_cong) (simp_all add: sample_home_slot)
    also have "\<dots> = entry_bytes sample_entry_of_file # replicate 15 (replicate 32 0)"
      by (simp add: upt_rec replicate_app_Cons_same eval_nat_numeral)
    finally show ?thesis by (simp add: dir_slots_def)
  qed
  have v: "map dirent_of (filter visible (takeWhile (\<lambda>e. rd8 e 0 \<noteq> 0) (entry_bytes sample_entry_of_file # replicate 15 (replicate 32 0))))
      = [\<lparr>de_name = str_bytes ''FILE.TXT'', de_attr = 0x20, de_size = 600, de_first_cluster = 3\<rparr>]"
    by code_simp
  show ?thesis
    using readdir_lists_directory [OF sample_home_facts(1) sample_home_facts(2) C] sample_home_facts(4)
    unfolding sl v by simp
qed

lemma chdir_keeps_path: "f_chdir path s = Some (ok, s') \<Longrightarrow> fat32_cwd_path s' = fat32_cwd_path s"
  by (auto simp: f_chdir_def Option.bind_eq_Some_conv split: option.splits if_splits)

lemma cwd_keeps_path: "f_cwd path s = Some (ok, s') \<Longrightarrow> fat32_cwd_path s' = fat32_cwd_path s"
  by (auto simp: f_cwd_def Let_def Option.bind_eq_Some_conv split: option.splits if_splits)

text \<open>
  The path of the current directory is never recorded: whatever \<open>f_chdir\<close> or \<open>f_cwd\<close> do to the current
  directory, \<open>f_getcwd\<close> returns the same string before and after.
\<close>

theorem getcwd_ignores_chdir:
  "(f_chdir path s = Some (ok, s') \<longrightarrow> f_getcwd n s' = f_getcwd n s)
   \<and> (f_cwd path s = Some (ok, s') \<longrightarrow> f_getcwd n s' = f_getcwd n s)"
  using chdir_keeps_path [of path s ok s'] cwd_keeps_path [of path s ok s'] by (simp add: f_getcwd_def)

theorem getcwd_ignores_chdir_witness:
  "\<exists>s'. f_chdir (str_bytes ''/.'') sample_home = Some (True, s') \<and> f_getcwd 10 s' = f_getcwd 10 sample_home"
proof -
  have t: "path_tokens (str_bytes ''/.'') = [[46]]" by (simp add: str_bytes_def path_tokens.simps)
  have "bpb sample_home = Some sample_bpb" using sample_home_frame by (simp add: frame_def)
  then have "f_chdir (str_bytes ''/.'') sample_home = Some (True, sample_home\<lparr>fat32_cwd_cluster := 2\<rparr>)"
    using t sample_home_facts by (simp add: f_chdir_def fat32_path_to_cluster_def malloc_def str_bytes_def)
  then show ?thesis using getcwd_ignores_chdir [of "str_bytes ''/.''" sample_home True] by blast
qed

end
