(* ===== verification/PhysMem.thy ===== *)
theory PhysMem
  imports Prelude
begin

text \<open>
  Physical memory of the kernel: choosing the usable region from the boot loader's memory
  map (kernel/src/memory/detect_memory.c), the placement allocator \<open>kmalloc\<close> that moves
  \<open>phys_mem_head\<close> through it (kernel/src/memory/kmalloc.c) and the bitmap of 4 KiB frames
  (kernel/src/memory/pmm.c) with its two clients \<open>alloc_frame\<close> and \<open>free_frame\<close>
  (kernel/src/memory/paging.c).

  The globals of the three files are one record. Addresses and sizes are 64 bit words; bit
  numbers of the bitmap are natural numbers (every one the code computes is below
  \<open>nframes\<close>, a 64 bit value). An \<open>assert\<close> that fails is \<open>Inl Halted\<close>.
\<close>

section \<open>State\<close>

datatype mem_type = USABLE | RESERVED | ACPI_RECLAIMABLE | ACPI_NVS | BAD_MEMORY
  | BOOTLOADER_RECLAIMABLE | KERNEL_AND_MODULES | FRAMEBUFFER

record memmap_entry =
  me_base :: u64
  me_length :: u64
  me_type :: mem_type

record phys_mem =
  USABLE_START_PHYS_MEM :: u64
  USABLE_END_PHYS_MEM :: u64
  USABLE_LENGTH_PHYS_MEM :: u64
  TOTAL_PHYS_MEMORY :: u64
  phys_mem_head :: u64
  frames :: "u64 list option"
  frames_addr :: u64
  nframes :: nat

text \<open>The globals at boot, before \<open>get_set_memory\<close> runs: zero-initialised.\<close>

definition phys_mem_boot :: phys_mem where
  "phys_mem_boot = \<lparr>USABLE_START_PHYS_MEM = 0, USABLE_END_PHYS_MEM = 0, USABLE_LENGTH_PHYS_MEM = 0,
     TOTAL_PHYS_MEMORY = 0, phys_mem_head = 0, frames = None, frames_addr = 0, nframes = 0\<rparr>"

section \<open>Choosing the usable region\<close>

fun usable_loop :: "memmap_entry list \<Rightarrow> phys_mem \<Rightarrow> phys_mem" where
  "usable_loop [] s = s"
| "usable_loop (e # es) s =
     usable_loop es
       (if me_type e = USABLE \<and> me_length e > USABLE_LENGTH_PHYS_MEM s
        then s\<lparr>USABLE_START_PHYS_MEM := me_base e, USABLE_LENGTH_PHYS_MEM := me_length e,
               USABLE_END_PHYS_MEM := me_base e + me_length e\<rparr>
        else s)"

definition set_usable_mem :: "memmap_entry list option \<Rightarrow> phys_mem \<Rightarrow> phys_mem" where
  "set_usable_mem mem_entries s =
     (case mem_entries of None \<Rightarrow> s
      | Some es \<Rightarrow>
          let s1 = usable_loop es s;
              s2 = s1\<lparr>USABLE_START_PHYS_MEM := USABLE_START_PHYS_MEM s1 AND 0xFFFFFFFFFFFFF000\<rparr>;
              s3 = s2\<lparr>phys_mem_head := USABLE_START_PHYS_MEM s2\<rparr>
          in s3\<lparr>USABLE_LENGTH_PHYS_MEM := USABLE_END_PHYS_MEM s3 - USABLE_START_PHYS_MEM s3\<rparr>)"

fun total_loop :: "nat \<Rightarrow> memmap_entry list \<Rightarrow> phys_mem \<Rightarrow> phys_mem" where
  "total_loop i [] s = s"
| "total_loop i (e # es) s =
     (let s' = (if i = 0 then s\<lparr>TOTAL_PHYS_MEMORY := me_base e\<rparr> else s)
      in total_loop (Suc i) es (s'\<lparr>TOTAL_PHYS_MEMORY := TOTAL_PHYS_MEMORY s' + me_length e\<rparr>))"

definition get_total_phys_memory :: "memmap_entry list option \<Rightarrow> phys_mem \<Rightarrow> phys_mem" where
  "get_total_phys_memory mem_entries s =
     (case mem_entries of None \<Rightarrow> s | Some es \<Rightarrow> total_loop 0 es s)"

section \<open>The placement allocator\<close>

definition FRAME_SIZE :: u64 where "FRAME_SIZE = 4096"

definition kmalloc :: "u64 \<Rightarrow> phys_mem \<Rightarrow> u64 \<times> phys_mem" where
  "kmalloc sz s =
     (if phys_mem_head s \<ge> USABLE_END_PHYS_MEM s then (0, s)
      else (phys_mem_head s, s\<lparr>phys_mem_head := phys_mem_head s + sz\<rparr>))"

text \<open>The page alignment both \<open>kmalloc_a\<close> and \<open>kmalloc_ap\<close> apply to the head.\<close>

definition page_align_head :: "int \<Rightarrow> phys_mem \<Rightarrow> phys_mem" where
  "page_align_head align s =
     (if align = 1 \<and> phys_mem_head s AND 0xFFF \<noteq> 0
      then s\<lparr>phys_mem_head := (phys_mem_head s AND 0xFFFFFFFFFFFFF000) + FRAME_SIZE\<rparr> else s)"

definition kmalloc_a :: "u64 \<Rightarrow> int \<Rightarrow> phys_mem \<Rightarrow> u64 \<times> phys_mem" where
  "kmalloc_a sz align s =
     (if phys_mem_head s \<ge> USABLE_END_PHYS_MEM s then (0, s)
      else let s1 = page_align_head align s
           in (phys_mem_head s1, s1\<lparr>phys_mem_head := phys_mem_head s1 + sz\<rparr>))"

text \<open>\<open>phys\<close> is the out-parameter: NULL, or the location that receives the address.\<close>

definition kmalloc_p :: "u64 \<Rightarrow> u64 option \<Rightarrow> phys_mem \<Rightarrow> u64 \<times> u64 option \<times> phys_mem" where
  "kmalloc_p sz phys s =
     (phys_mem_head s + sz, map_option (\<lambda>_. phys_mem_head s) phys, s)"

definition kmalloc_ap :: "u64 \<Rightarrow> int \<Rightarrow> u64 option \<Rightarrow> phys_mem \<Rightarrow> u64 \<times> u64 option \<times> phys_mem" where
  "kmalloc_ap sz align phys s =
     (let s1 = page_align_head align s
      in if phys_mem_head s1 \<ge> USABLE_END_PHYS_MEM s1 then (0, phys, s1)
         else (phys_mem_head s1, map_option (\<lambda>_. phys_mem_head s1) phys,
               s1\<lparr>phys_mem_head := phys_mem_head s1 + sz\<rparr>))"

definition kmalloc_aligned :: "u64 \<Rightarrow> u64 \<Rightarrow> phys_mem \<Rightarrow> u64 \<times> phys_mem" where
  "kmalloc_aligned sz alignment s =
     (if phys_mem_head s \<ge> USABLE_END_PHYS_MEM s then (0, s)
      else let s1 = (if phys_mem_head s AND (alignment - 1) \<noteq> 0
                     then s\<lparr>phys_mem_head := (phys_mem_head s + alignment - 1) AND NOT (alignment - 1)\<rparr>
                     else s)
           in (phys_mem_head s1, s1\<lparr>phys_mem_head := phys_mem_head s1 + sz\<rparr>))"

definition kfree :: "u64 \<Rightarrow> u64 \<Rightarrow> phys_mem \<Rightarrow> phys_mem" where
  "kfree ptr sz s =
     (if ptr = 0 then s
      else if ptr + sz = phys_mem_head s then s\<lparr>phys_mem_head := ptr\<rparr>
      else s)"

definition check_mem_alloc :: "u64 \<Rightarrow> u64 \<Rightarrow> bool" where
  "check_mem_alloc addr sz = (if addr = 0 then False else addr AND (sz - 1) = 0)"

section \<open>The frame bitmap\<close>

definition BITMAP_SIZE :: nat where "BITMAP_SIZE = 64"

definition INDEX_FROM_BIT_NO :: "nat \<Rightarrow> nat" where "INDEX_FROM_BIT_NO x = x div BITMAP_SIZE"
definition OFFSET_FROM_BIT_NO :: "nat \<Rightarrow> nat" where "OFFSET_FROM_BIT_NO x = x mod BITMAP_SIZE"
definition CONVERT_BIT_NO :: "nat \<Rightarrow> nat \<Rightarrow> nat" where
  "CONVERT_BIT_NO idx off = idx * BITMAP_SIZE + off"

definition BIT_NO_TO_ADDR :: "phys_mem \<Rightarrow> nat \<Rightarrow> u64" where
  "BIT_NO_TO_ADDR s bit_no = USABLE_START_PHYS_MEM s + of_nat (bit_no * 4096)"

definition PHYS_ADDR_TO_BIT_NO :: "phys_mem \<Rightarrow> u64 \<Rightarrow> nat" where
  "PHYS_ADDR_TO_BIT_NO s phy_addr =
     (if phy_addr \<le> USABLE_START_PHYS_MEM s then 0
      else unat ((phy_addr - USABLE_START_PHYS_MEM s) div FRAME_SIZE))"

text \<open>
  \<open>0x1 << bitmap_off\<close> in \<open>set_frame\<close> shifts an \<open>int\<close>: the shift is undefined from 32 on, and
  the \<open>int\<close> is sign-extended when it is or-ed into the 64 bit word.
\<close>

definition int_one_shl :: "nat \<Rightarrow> kfault + u64" where
  "int_one_shl off = (if off < 32 then Inr (scast (push_bit off (1 :: u32))) else Inl UndefinedShift)"

definition with_frame_word :: "nat \<Rightarrow> phys_mem \<Rightarrow> (u64 \<Rightarrow> kfault + 'a) \<Rightarrow> kfault + 'a" where
  "with_frame_word bit_no s f =
     (case frames s of None \<Rightarrow> Inl NullDeref
      | Some fs \<Rightarrow> if INDEX_FROM_BIT_NO bit_no < length fs then f (fs ! INDEX_FROM_BIT_NO bit_no)
                  else Inl BadAccess)"

definition put_frame_word :: "nat \<Rightarrow> u64 \<Rightarrow> phys_mem \<Rightarrow> phys_mem" where
  "put_frame_word bit_no w s =
     s\<lparr>frames := map_option (\<lambda>fs. fs[INDEX_FROM_BIT_NO bit_no := w]) (frames s)\<rparr>"

definition set_frame :: "nat \<Rightarrow> phys_mem \<Rightarrow> kfault + phys_mem" where
  "set_frame bit_no s =
     (if bit_no < nframes s
      then with_frame_word bit_no s (\<lambda>w.
             sum_bind (int_one_shl (OFFSET_FROM_BIT_NO bit_no)) (\<lambda>m.
               Inr ((put_frame_word bit_no (w OR m) s)\<lparr>phys_mem_head := phys_mem_head s + FRAME_SIZE\<rparr>)))
      else Inl Halted)"

definition clear_frame :: "nat \<Rightarrow> phys_mem \<Rightarrow> kfault + phys_mem" where
  "clear_frame bit_no s =
     (if bit_no < nframes s
      then if frames s = None then Inr s
           else with_frame_word bit_no s (\<lambda>w.
                  Inr (put_frame_word bit_no (w AND NOT (push_bit (OFFSET_FROM_BIT_NO bit_no) 1)) s))
      else Inl Halted)"

definition test_frame :: "nat \<Rightarrow> phys_mem \<Rightarrow> kfault + u64" where
  "test_frame bit_no s =
     (if bit_no < nframes s
      then with_frame_word bit_no s (\<lambda>w. Inr (w AND push_bit (OFFSET_FROM_BIT_NO bit_no) 1))
      else Inl Halted)"

text \<open>The inner loop of \<open>free_frame_bit_no\<close>: the first clear bit of a word, from \<open>off\<close> on.\<close>

function first_clear :: "u64 \<Rightarrow> nat \<Rightarrow> nat option" where
  "first_clear w off =
     (if off < BITMAP_SIZE
      then if w AND push_bit off 1 = 0 then Some off else first_clear w (off + 1)
      else None)"
  by pat_completeness auto
termination
  by (relation "measure (\<lambda>(w, off). BITMAP_SIZE - off)") auto

declare first_clear.simps [simp del]

function scan_frames :: "u64 list \<Rightarrow> nat \<Rightarrow> nat \<Rightarrow> kfault + nat option" where
  "scan_frames fs idx lst =
     (if idx \<le> lst
      then if idx < length fs
           then if fs ! idx \<noteq> 0xFFFFFFFFFFFFFFFF
                then case first_clear (fs ! idx) 0 of
                       Some off \<Rightarrow> Inr (Some (CONVERT_BIT_NO idx off))
                     | None \<Rightarrow> scan_frames fs (idx + 1) lst
                else scan_frames fs (idx + 1) lst
           else Inl BadAccess
      else Inr None)"
  by pat_completeness auto
termination
  by (relation "measure (\<lambda>(fs, idx, lst). Suc lst - idx)") auto

declare scan_frames.simps [simp del]

text \<open>
  \<open>assert(free_bit < nframes)\<close> compares \<open>free_bit = -1\<close> as an unsigned value, so the machine
  also stops when no bit is clear.
\<close>

definition free_frame_bit_no :: "phys_mem \<Rightarrow> kfault + nat" where
  "free_frame_bit_no s =
     (case frames s of None \<Rightarrow> Inl NullDeref
      | Some fs \<Rightarrow>
          sum_bind (scan_frames fs 0 (INDEX_FROM_BIT_NO ((nframes s + (2 ^ 64 - 1)) mod 2 ^ 64)))
            (\<lambda>r. case r of None \<Rightarrow> Inl Halted
                 | Some b \<Rightarrow> if b < nframes s then Inr b else Inl Halted))"

definition init_pmm :: "phys_mem \<Rightarrow> phys_mem" where
  "init_pmm s =
     (let n = unat (USABLE_LENGTH_PHYS_MEM s div FRAME_SIZE);
          bytes = 8 * (n + 63) div BITMAP_SIZE;
          (p, s1) = kmalloc_a (of_nat bytes) 1 (s\<lparr>nframes := n\<rparr>)
      in if p = 0 then s1\<lparr>frames := None\<rparr>
         else s1\<lparr>frames := Some (replicate (bytes div 8) 0), frames_addr := p\<rparr>)"

section \<open>Frames of page table entries\<close>

record page =
  pg_present :: bool
  pg_rw :: bool
  pg_user :: bool
  pg_frame :: "40 word"
  pg_nx :: bool

definition alloc_frame :: "page \<Rightarrow> bool \<Rightarrow> bool \<Rightarrow> phys_mem \<Rightarrow> kfault + (page \<times> phys_mem)" where
  "alloc_frame pg user is_writeable s =
     sum_bind (free_frame_bit_no s) (\<lambda>bit_no.
       sum_bind (set_frame bit_no s) (\<lambda>s1.
         Inr (pg\<lparr>pg_present := True, pg_rw := is_writeable, pg_user := user,
                 pg_frame := ucast (drop_bit 12 (USABLE_START_PHYS_MEM s1 + of_nat bit_no * FRAME_SIZE))\<rparr>,
              s1)))"

definition free_frame :: "page \<Rightarrow> phys_mem \<Rightarrow> kfault + (page \<times> phys_mem)" where
  "free_frame pg s =
     (if pg_frame pg = 0 then Inr (pg, s)
      else let frame_addr = push_bit 12 (ucast (pg_frame pg)) :: u64
           in if frame_addr \<ge> USABLE_END_PHYS_MEM s then Inr (pg\<lparr>pg_frame := 0\<rparr>, s)
              else sum_bind (clear_frame (PHYS_ADDR_TO_BIT_NO s frame_addr) s)
                     (\<lambda>s1. Inr (pg\<lparr>pg_frame := 0\<rparr>, s1)))"

section \<open>Facts about the usable region\<close>

lemma usable_loop_spec:
  defines "len \<equiv> USABLE_LENGTH_PHYS_MEM"
  shows "len s \<le> len (usable_loop es s) \<and>
    (\<forall>e \<in> set es. me_type e = USABLE \<longrightarrow> me_length e \<le> len (usable_loop es s)) \<and>
    (usable_loop es s = s \<or> (\<exists>e \<in> set es. me_type e = USABLE \<and>
       usable_loop es s = s\<lparr>USABLE_START_PHYS_MEM := me_base e, USABLE_LENGTH_PHYS_MEM := me_length e,
         USABLE_END_PHYS_MEM := me_base e + me_length e\<rparr>))"
  unfolding len_def
proof (induction es arbitrary: s)
  case (Cons e es)
  let ?s' = "if me_type e = USABLE \<and> me_length e > USABLE_LENGTH_PHYS_MEM s
        then s\<lparr>USABLE_START_PHYS_MEM := me_base e, USABLE_LENGTH_PHYS_MEM := me_length e,
               USABLE_END_PHYS_MEM := me_base e + me_length e\<rparr> else s"
  have "USABLE_LENGTH_PHYS_MEM s \<le> USABLE_LENGTH_PHYS_MEM ?s'"
    and "me_type e = USABLE \<Longrightarrow> me_length e \<le> USABLE_LENGTH_PHYS_MEM ?s'" by auto
  then show ?case using Cons.IH [of ?s'] by (auto intro: order_trans split: if_splits)
qed simp

section \<open>Facts about the placement allocator\<close>

lemma page_mask_bits: "x AND 0xFFFFFFFFFFFFF000 = x AND NOT (mask 12)" for x :: u64
proof -
  have "(0xFFFFFFFFFFFFF000 :: u64) = NOT (mask 12)" by (simp add: mask_eq_exp_minus_1)
  then show ?thesis by simp
qed

lemma unat_page_mask: "unat (x AND NOT (mask 12)) = unat x div 4096 * 4096" for x :: u64
proof -
  have eq: "x AND NOT (mask 12) = push_bit 12 (drop_bit 12 x)"
    by (rule bit_word_eqI) (auto simp: bit_simps)
  have "unat (push_bit 12 (drop_bit 12 x)) = unat x div 4096 * 4096"
  proof -
    have "unat x div 4096 * 4096 \<le> unat x" by simp
    also have "unat x < 2 ^ 64" using unat_u64_lt [of x] by simp
    finally have lt: "unat x div 4096 * 4096 < 2 ^ 64" .
    show ?thesis using lt
      by (simp only: unsigned_push_bit_eq unsigned_drop_bit_eq)
         (simp add: push_bit_eq_mult drop_bit_eq_div take_bit_eq_mod)
  qed
  then show ?thesis by (simp add: eq)
qed

lemma unat_low12: "unat (x AND 0xFFF) = unat x mod 4096" for x :: u64
proof -
  have "x AND 0xFFF = take_bit 12 x" by (simp add: take_bit_eq_mask mask_eq_exp_minus_1)
  then show ?thesis by (simp only: unsigned_take_bit_eq) (simp add: take_bit_eq_mod)
qed

lemma low12_zero_iff: "x AND 0xFFF = 0 \<longleftrightarrow> unat x mod 4096 = 0" for x :: u64
  using unat_low12 [of x] by (metis unat_0 unat_eq_zero)

lemma page_align_head_spec:
  assumes "unat (phys_mem_head s) + 4096 < 2 ^ 64"
  shows "unat (phys_mem_head (page_align_head 1 s)) = (unat (phys_mem_head s) + 4095) div 4096 * 4096"
proof (cases "phys_mem_head s AND 0xFFF = 0")
  case True
  then have "unat (phys_mem_head s) mod 4096 = 0" by (simp add: low12_zero_iff)
  then show ?thesis using True round_up_div [of 4096 "unat (phys_mem_head s)"]
    by (simp add: page_align_head_def mod_eq_0_iff_dvd)
next
  case False
  then have ne: "unat (phys_mem_head s) mod 4096 \<noteq> 0" by (simp add: low12_zero_iff)
  have "unat (phys_mem_head s) div 4096 * 4096 \<le> unat (phys_mem_head s)" by simp
  then have "unat ((phys_mem_head s AND NOT (mask 12)) + FRAME_SIZE) =
      unat (phys_mem_head s) div 4096 * 4096 + 4096"
    using assms by (subst unat_add_lem [THEN iffD1]) (auto simp: unat_page_mask FRAME_SIZE_def)
  moreover have "(unat (phys_mem_head s) + 4095) div 4096 * 4096 =
      unat (phys_mem_head s) div 4096 * 4096 + 4096"
    using ne round_up_div [of 4096 "unat (phys_mem_head s)"] by simp
  ultimately show ?thesis using False by (simp add: page_align_head_def page_mask_bits)
qed

lemma page_align_head_frame [simp]:
  "USABLE_END_PHYS_MEM (page_align_head a s) = USABLE_END_PHYS_MEM s"
  "USABLE_START_PHYS_MEM (page_align_head a s) = USABLE_START_PHYS_MEM s"
  "frames (page_align_head a s) = frames s" "nframes (page_align_head a s) = nframes s"
  by (simp_all add: page_align_head_def)

text \<open>
  A placement allocator hands out blocks at or above its head and moves the head to the end
  of the block; blocks of any run of allocations then lie one after the other.
\<close>

fun run_allocs :: "(u64 \<Rightarrow> 's \<Rightarrow> u64 \<times> 's) \<Rightarrow> u64 list \<Rightarrow> 's \<Rightarrow> (u64 \<times> u64) list \<times> 's" where
  "run_allocs alloc [] s = ([], s)"
| "run_allocs alloc (sz # szs) s =
     (let (p, s1) = alloc sz s; (ps, s2) = run_allocs alloc szs s1 in ((p, sz) # ps, s2))"

fun blocks_in_order :: "nat \<Rightarrow> (u64 \<times> u64) list \<Rightarrow> bool" where
  "blocks_in_order lo [] = True"
| "blocks_in_order lo ((p, sz) # ps) =
     (lo \<le> unat p \<and> blocks_in_order (unat p + unat sz) ps)"

locale placement_alloc =
  fixes alloc :: "u64 \<Rightarrow> 's \<Rightarrow> u64 \<times> 's" and head :: "'s \<Rightarrow> u64" and limit :: "'s \<Rightarrow> u64"
    and slack :: nat and aligned :: "u64 \<Rightarrow> bool"
  assumes alloc_block: "alloc sz s = (p, s') \<Longrightarrow> head s < limit s \<Longrightarrow>
      unat (head s) + slack + unat sz < 2 ^ 64 \<Longrightarrow>
      unat (head s) \<le> unat p \<and> unat p \<le> unat (head s) + slack \<and> unat (head s') = unat p + unat sz \<and> aligned p"
    and alloc_limit: "alloc sz s = (p, s') \<Longrightarrow> limit s' = limit s"
begin

lemma run_in_order:
  assumes "run_allocs alloc szs s = (ps, s')"
    and "unat (head s) + (\<Sum>sz\<leftarrow>szs. slack + unat sz) < unat (limit s)"
  shows "blocks_in_order (unat (head s)) ps \<and> list_all (\<lambda>(p, _). aligned p) ps \<and>
    unat (head s') \<le> unat (head s) + (\<Sum>sz\<leftarrow>szs. slack + unat sz)"
  using assms
proof (induction szs arbitrary: s ps)
  case (Cons sz szs)
  obtain p s1 where a: "alloc sz s = (p, s1)" by force
  obtain qs where q: "run_allocs alloc szs s1 = (qs, s')" and ps: "ps = (p, sz) # qs"
    using Cons.prems(1) a by (auto split: prod.splits)
  have lt: "head s < limit s" using Cons.prems(2) by (simp add: word_less_nat_alt)
  have "unat (head s) + slack + unat sz < 2 ^ 64"
    using Cons.prems(2) unat_u64_lt [of "limit s"] by simp
  note blk = alloc_block [OF a lt this] and lim = alloc_limit [OF a]
  have "unat (head s1) + (\<Sum>sz\<leftarrow>szs. slack + unat sz) < unat (limit s1)"
    using Cons.prems(2) blk lim by simp
  then have "blocks_in_order (unat (head s1)) qs \<and> list_all (\<lambda>(p, _). aligned p) qs \<and>
      unat (head s') \<le> unat (head s1) + (\<Sum>sz\<leftarrow>szs. slack + unat sz)"
    using Cons.IH [OF q] by simp
  then show ?case using blk ps by auto
qed simp

end

interpretation kmalloc_placement: placement_alloc kmalloc phys_mem_head USABLE_END_PHYS_MEM 0 "\<lambda>_. True"
  by unfold_locales (auto simp: kmalloc_def unat_word_ariths split: if_splits)

lemma kmalloc_a_spec:
  assumes "kmalloc_a sz 1 s = (p, s')" "phys_mem_head s < USABLE_END_PHYS_MEM s"
    "unat (phys_mem_head s) + 4096 + unat sz < 2 ^ 64"
  shows "unat p = (unat (phys_mem_head s) + 4095) div 4096 * 4096 \<and>
    unat (phys_mem_head s') = unat p + unat sz"
proof -
  let ?s1 = "page_align_head 1 s"
  have p: "p = phys_mem_head ?s1" "s' = ?s1\<lparr>phys_mem_head := phys_mem_head ?s1 + sz\<rparr>"
    using assms(1,2) by (auto simp: kmalloc_a_def Let_def split: if_splits)
  have al: "unat (phys_mem_head ?s1) = (unat (phys_mem_head s) + 4095) div 4096 * 4096"
    using assms(3) by (intro page_align_head_spec) simp
  moreover have "(unat (phys_mem_head s) + 4095) div 4096 * 4096 \<le> unat (phys_mem_head s) + 4095"
    by simp
  ultimately have "unat (phys_mem_head ?s1) + unat sz < 2 ^ 64"
    using assms(3) by linarith
  then have "unat (phys_mem_head ?s1 + sz) = unat (phys_mem_head ?s1) + unat sz"
    by (simp add: unat_word_ariths)
  then show ?thesis using p al by simp
qed

interpretation kmalloc_a_placement:
  placement_alloc "\<lambda>sz. kmalloc_a sz 1" phys_mem_head USABLE_END_PHYS_MEM 4096
    "\<lambda>p. unat p mod 4096 = 0"
proof
  fix sz s p s'
  assume a: "kmalloc_a sz 1 s = (p, s')"
  show "USABLE_END_PHYS_MEM s' = USABLE_END_PHYS_MEM s"
    using a by (auto simp: kmalloc_a_def Let_def split: if_splits)
  assume h: "phys_mem_head s < USABLE_END_PHYS_MEM s"
    "unat (phys_mem_head s) + 4096 + unat sz < 2 ^ 64"
  have "n \<le> (n + 4095) div 4096 * 4096" for n :: nat
    using round_up_div [of 4096 n] div_mult_mod_eq [of n 4096] mod_less_divisor [of 4096 n]
    by (auto split: if_splits)
  moreover have "(n + 4095) div 4096 * 4096 \<le> n + 4096" for n :: nat
    using div_times_less_eq_dividend [of "n + 4095" 4096] by linarith
  ultimately show "unat (phys_mem_head s) \<le> unat p \<and> unat p \<le> unat (phys_mem_head s) + 4096 \<and>
      unat (phys_mem_head s') = unat p + unat sz \<and> unat p mod 4096 = 0"
    using kmalloc_a_spec [OF a h] by simp
qed

section \<open>Facts about the frame bitmap\<close>

definition frame_used :: "phys_mem \<Rightarrow> nat \<Rightarrow> bool" where
  "frame_used s k \<longleftrightarrow> (case frames s of None \<Rightarrow> False
     | Some fs \<Rightarrow> k div 64 < length fs \<and> bit (fs ! (k div 64)) (k mod 64))"

text \<open>
  The words of the bitmap that \<open>set_frame\<close> and \<open>clear_frame\<close> produce: since setting bit 31
  sets all of the bits 31 to 63, either the upper half is set or it is untouched and bit 31
  is clear.
\<close>

definition half_word :: "u64 \<Rightarrow> bool" where
  "half_word w \<longleftrightarrow> (\<forall>j. 32 \<le> j \<and> j < 64 \<longrightarrow> bit w j) \<or> (\<forall>j. 31 \<le> j \<and> j < 64 \<longrightarrow> \<not> bit w j)"

definition pmm_wf :: "phys_mem \<Rightarrow> bool" where
  "pmm_wf s \<longleftrightarrow> 0 < nframes s \<and> nframes s < 2 ^ 64 \<and>
     (case frames s of None \<Rightarrow> False
      | Some fs \<Rightarrow> nframes s \<le> 64 * length fs \<and> (\<forall>w \<in> set fs. half_word w))"

lemma and_one_shl_zero:
  "w AND push_bit off 1 = 0 \<longleftrightarrow> \<not> bit w off" "w AND 2 ^ off = 0 \<longleftrightarrow> \<not> bit w off" for w :: u64
  unfolding bit_iff_and_push_bit_not_eq_0 by simp_all

lemma first_clear_Some:
  "first_clear w off = Some k \<Longrightarrow>
     off \<le> k \<and> k < 64 \<and> \<not> bit w k \<and> (\<forall>j. off \<le> j \<and> j < k \<longrightarrow> bit w j)"
proof (induction w off rule: first_clear.induct)
  case (1 w off)
  show ?case
  proof (cases "off < BITMAP_SIZE \<and> bit w off")
    case True
    then have "first_clear w (off + 1) = Some k"
      using "1.prems" by (simp add: first_clear.simps [of w off] and_one_shl_zero)
    then have "off + 1 \<le> k \<and> k < 64 \<and> \<not> bit w k \<and> (\<forall>j. off + 1 \<le> j \<and> j < k \<longrightarrow> bit w j)"
      using "1.IH" True by (simp add: and_one_shl_zero)
    then show ?thesis using True by (metis Suc_eq_plus1 Suc_leD le_antisym not_less_eq_eq)
  next
    case False
    then show ?thesis using "1.prems"
      by (auto simp: first_clear.simps [of w off] and_one_shl_zero BITMAP_SIZE_def split: if_splits)
  qed
qed

lemma first_clear_None: "first_clear w off = None \<Longrightarrow> off \<le> j \<Longrightarrow> j < 64 \<Longrightarrow> bit w j"
proof (induction w off rule: first_clear.induct)
  case (1 w off)
  then have "off < BITMAP_SIZE" by (simp add: BITMAP_SIZE_def)
  then have "bit w off" and "first_clear w (off + 1) = None"
    using "1.prems" by (auto simp: first_clear.simps [of w off] and_one_shl_zero split: if_splits)
  then show ?case using "1.IH" "1.prems" \<open>off < BITMAP_SIZE\<close>
    by (cases "j = off") (auto simp: and_one_shl_zero)
qed

lemma all_ones_bit: "j < 64 \<Longrightarrow> bit (0xFFFFFFFFFFFFFFFF :: u64) j"
proof -
  have "(0xFFFFFFFFFFFFFFFF :: u64) = - 1" by simp
  then show "j < 64 \<Longrightarrow> bit (0xFFFFFFFFFFFFFFFF :: u64) j" by (simp only: bit_minus_1_iff) simp
qed

lemma scan_frames_step:
  assumes "idx \<le> lst" "idx < length fs"
  shows "scan_frames fs idx lst =
    (case first_clear (fs ! idx) 0 of Some off \<Rightarrow> Inr (Some (idx * 64 + off))
     | None \<Rightarrow> scan_frames fs (idx + 1) lst)"
proof (cases "fs ! idx = 0xFFFFFFFFFFFFFFFF")
  case True
  have "first_clear (fs ! idx) 0 = None"
    using first_clear_Some [of "fs ! idx" 0] all_ones_bit True by (cases "first_clear (fs ! idx) 0") auto
  then show ?thesis using assms True by (simp add: scan_frames.simps [of fs idx])
next
  case False
  then show ?thesis using assms
    by (simp add: scan_frames.simps [of fs idx] CONVERT_BIT_NO_def BITMAP_SIZE_def
        cong: option.case_cong)
qed

lemma scan_frames_spec:
  assumes "lst < length fs" "idx \<le> Suc lst"
  shows "\<exists>r. scan_frames fs idx lst = Inr r \<and>
    (case r of
       None \<Rightarrow> (\<forall>k. idx * 64 \<le> k \<and> k < Suc lst * 64 \<longrightarrow> bit (fs ! (k div 64)) (k mod 64))
     | Some b \<Rightarrow> idx * 64 \<le> b \<and> b < Suc lst * 64 \<and> \<not> bit (fs ! (b div 64)) (b mod 64) \<and>
         (\<forall>k. idx * 64 \<le> k \<and> k < b \<longrightarrow> bit (fs ! (k div 64)) (k mod 64)))"
  using assms
proof (induction "Suc lst - idx" arbitrary: idx)
  case 0
  then show ?case by (auto simp: scan_frames.simps [of fs idx])
next
  case (Suc n)
  then have idx: "idx \<le> lst" "idx < length fs" by simp_all
  have split64: "idx * 64 \<le> k \<and> k < idx * 64 + 64 \<longleftrightarrow> k div 64 = idx" for k by linarith
  show ?case
  proof (cases "first_clear (fs ! idx) 0")
    case None
    have ones: "bit (fs ! (k div 64)) (k mod 64)" if "k div 64 = idx" for k
      using first_clear_None [OF None, of "k mod 64"] that by simp
    have n: "n = Suc lst - (idx + 1)" "idx + 1 \<le> Suc lst" using Suc.hyps(2) idx by linarith+
    obtain r where r: "scan_frames fs (idx + 1) lst = Inr r"
      "case r of
       None \<Rightarrow> (\<forall>k. (idx + 1) * 64 \<le> k \<and> k < Suc lst * 64 \<longrightarrow> bit (fs ! (k div 64)) (k mod 64))
     | Some b \<Rightarrow> (idx + 1) * 64 \<le> b \<and> b < Suc lst * 64 \<and> \<not> bit (fs ! (b div 64)) (b mod 64) \<and>
         (\<forall>k. (idx + 1) * 64 \<le> k \<and> k < b \<longrightarrow> bit (fs ! (k div 64)) (k mod 64))"
      using Suc.hyps(1) [OF n(1) Suc.prems(1) n(2)] by blast
    have "bit (fs ! (k div 64)) (k mod 64)" if "idx * 64 \<le> k" "k < (idx + 1) * 64" for k
      using ones [of k] split64 [of k] that by simp
    then have "(\<forall>k. (idx + 1) * 64 \<le> k \<and> k < m \<longrightarrow> bit (fs ! (k div 64)) (k mod 64)) \<Longrightarrow>
      (\<forall>k. idx * 64 \<le> k \<and> k < m \<longrightarrow> bit (fs ! (k div 64)) (k mod 64))" for m
      by (meson not_le)
    then show ?thesis using r None scan_frames_step [OF idx]
      by (auto split: option.splits)
  next
    case (Some off)
    note spec = first_clear_Some [OF Some]
    have "idx * 64 + off < Suc lst * 64" using spec idx by simp
    moreover have "bit (fs ! (k div 64)) (k mod 64)" if "idx * 64 \<le> k" "k < idx * 64 + off" for k
    proof -
      have "k div 64 = idx" using split64 [of k] that spec by linarith
      moreover have "k mod 64 < off" using \<open>k div 64 = idx\<close> that div_mult_mod_eq [of k 64] by linarith
      ultimately show ?thesis using spec by simp
    qed
    moreover have "(idx * 64 + off) div 64 = idx" "(idx * 64 + off) mod 64 = off"
      using spec by simp_all
    ultimately show ?thesis using Some scan_frames_step [OF idx] spec by simp
  qed
qed

lemma last_index:
  assumes "0 < n" "n < 2 ^ 64" "n \<le> 64 * length fs"
  shows "INDEX_FROM_BIT_NO ((n + (2 ^ 64 - 1)) mod 2 ^ 64) = (n - 1) div 64"
    and "(n - 1) div 64 < length fs" and "n \<le> Suc ((n - 1) div 64) * 64"
proof -
  have "(n + (2 ^ 64 - 1)) mod 2 ^ 64 = n - 1"
    using assms(1,2) by (simp add: mod_if)
  then show "INDEX_FROM_BIT_NO ((n + (2 ^ 64 - 1)) mod 2 ^ 64) = (n - 1) div 64"
    by (simp add: INDEX_FROM_BIT_NO_def BITMAP_SIZE_def)
  show "(n - 1) div 64 < length fs" using assms by linarith
  show "n \<le> Suc ((n - 1) div 64) * 64"
    using assms(1) div_mult_mod_eq [of "n - 1" 64] mod_less_divisor [of 64 "n - 1"] by simp
qed

lemma free_frame_bit_no_spec:
  assumes "pmm_wf s"
  shows "free_frame_bit_no s =
    (if \<exists>k < nframes s. \<not> frame_used s k then Inr (LEAST k. \<not> frame_used s k) else Inl Halted)"
proof -
  obtain fs where fs: "frames s = Some fs" "0 < nframes s" "nframes s < 2 ^ 64"
    "nframes s \<le> 64 * length fs"
    using assms by (auto simp: pmm_wf_def split: option.splits)
  note li = last_index [OF fs(2,3,4)]
  have used: "frame_used s k \<longleftrightarrow> bit (fs ! (k div 64)) (k mod 64)"
    if "k < Suc ((nframes s - 1) div 64) * 64" for k
    using that li(2) by (auto simp: frame_used_def fs)
  obtain r where r0: "scan_frames fs 0 ((nframes s - 1) div 64) = Inr r"
    "case r of None \<Rightarrow> \<forall>k. k < Suc ((nframes s - 1) div 64) * 64 \<longrightarrow> bit (fs ! (k div 64)) (k mod 64)
     | Some b \<Rightarrow> b < Suc ((nframes s - 1) div 64) * 64 \<and> \<not> bit (fs ! (b div 64)) (b mod 64) \<and>
        (\<forall>k < b. bit (fs ! (k div 64)) (k mod 64))"
    using scan_frames_spec [OF li(2), of 0] unfolding mult_0 by (auto simp only: le0 simp_thms)
  have r: "scan_frames fs 0 ((nframes s - 1) div 64) = Inr r"
    "case r of None \<Rightarrow> \<forall>k. k < Suc ((nframes s - 1) div 64) * 64 \<longrightarrow> frame_used s k
     | Some b \<Rightarrow> \<not> frame_used s b \<and> (\<forall>k < b. frame_used s k)"
    using r0 used by (auto split: option.splits simp del: mult_Suc)
  show ?thesis
  proof (cases r)
    case None
    then have "\<forall>k < nframes s. frame_used s k" using r(2) li(3) by auto
    then show ?thesis using None r(1) fs(1) li(1) by (auto simp: free_frame_bit_no_def)
  next
    case (Some b)
    then have b: "\<not> frame_used s b" "\<forall>k < b. frame_used s k" using r(2) by auto
    then have "(LEAST k. \<not> frame_used s k) = b"
      by (intro Least_equality) (auto intro: leI)
    moreover have "(\<exists>k < nframes s. \<not> frame_used s k) \<longleftrightarrow> b < nframes s"
      using b by (meson leI order_less_le_trans)
    ultimately show ?thesis using Some r(1) fs(1) li(1) by (simp add: free_frame_bit_no_def)
  qed
qed

lemma int_one_shl_bits:
  assumes "off < 32"
  shows "\<exists>m. int_one_shl off = Inr m \<and>
    (\<forall>j < 64. bit m j \<longleftrightarrow> j = off \<or> off = 31 \<and> 31 \<le> j)"
  using assms
  by (auto simp: int_one_shl_def bit_signed_iff bit_push_bit_iff bit_1_iff bit_exp_iff min_def)

lemma frame_used_put:
  assumes "frames s = Some fs" "k div 64 < length fs"
  shows "frame_used (put_frame_word k w s) j =
    (if j div 64 = k div 64 then bit w (j mod 64) else frame_used s j)"
  using assms by (auto simp: frame_used_def put_frame_word_def INDEX_FROM_BIT_NO_def BITMAP_SIZE_def)

lemma pmm_wf_put:
  assumes "pmm_wf s" "frames s = Some fs" "k div 64 < length fs" "half_word w"
  shows "pmm_wf (put_frame_word k w s)"
  using assms set_update_subset_insert [of fs "k div 64" w]
  by (auto simp: pmm_wf_def put_frame_word_def INDEX_FROM_BIT_NO_def BITMAP_SIZE_def)

lemma pmm_wf_word:
  assumes "pmm_wf s" "k < nframes s"
  obtains fs where "frames s = Some fs" "k div 64 < length fs" "half_word (fs ! (k div 64))"
    "\<And>j. j div 64 = k div 64 \<Longrightarrow> frame_used s j = bit (fs ! (k div 64)) (j mod 64)"
proof -
  obtain fs where fs: "frames s = Some fs" "nframes s \<le> 64 * length fs" "\<forall>w \<in> set fs. half_word w"
    using assms by (auto simp: pmm_wf_def split: option.splits)
  then have "k div 64 < length fs" using assms(2) by linarith
  then show thesis using that [of fs] fs by (auto simp: frame_used_def)
qed

text \<open>Setting the first free bit of a word never shifts by 32 or more.\<close>

lemma least_free_offset:
  assumes "pmm_wf s" "k < nframes s" "\<not> frame_used s k" "\<forall>j < k. frame_used s j"
  shows "k mod 64 < 32"
proof (rule ccontr)
  assume ge: "\<not> k mod 64 < 32"
  obtain fs where fs: "half_word (fs ! (k div 64))"
    "\<And>j. j div 64 = k div 64 \<Longrightarrow> frame_used s j = bit (fs ! (k div 64)) (j mod 64)"
    using pmm_wf_word [OF assms(1,2)] by blast
  have "\<not> bit (fs ! (k div 64)) (k mod 64)" using fs(2) [of k] assms(3) by simp
  then have "\<not> bit (fs ! (k div 64)) 31" using fs(1) ge by (auto simp: half_word_def)
  moreover define j where "j = k div 64 * 64 + 31"
  have "j div 64 = k div 64" "j mod 64 = 31" by (simp_all add: j_def)
  moreover have "j < k" using ge div_mult_mod_eq [of k 64] unfolding j_def by linarith
  ultimately show False using fs(2) [of j] assms(4) by auto
qed

lemma set_frame_spec:
  assumes wf: "pmm_wf s" and k: "k < nframes s" "k mod 64 < 32"
    and low: "k mod 64 < 31 \<longrightarrow> \<not> frame_used s k"
  shows "\<exists>s'. set_frame k s = Inr s' \<and> pmm_wf s' \<and> nframes s' = nframes s \<and>
    USABLE_START_PHYS_MEM s' = USABLE_START_PHYS_MEM s \<and> USABLE_END_PHYS_MEM s' = USABLE_END_PHYS_MEM s \<and>
    (\<forall>j. frame_used s' j \<longleftrightarrow> frame_used s j \<or> j = k \<or>
        k mod 64 = 31 \<and> j div 64 = k div 64 \<and> 31 \<le> j mod 64)"
proof -
  obtain fs where fs: "frames s = Some fs" "k div 64 < length fs" "half_word (fs ! (k div 64))"
    "\<And>j. j div 64 = k div 64 \<Longrightarrow> frame_used s j = bit (fs ! (k div 64)) (j mod 64)"
    using pmm_wf_word [OF wf k(1)] by blast
  obtain m where m: "int_one_shl (k mod 64) = Inr m"
    "\<forall>j < 64. bit m j \<longleftrightarrow> j = k mod 64 \<or> k mod 64 = 31 \<and> 31 \<le> j"
    using int_one_shl_bits [OF k(2)] by blast
  define w where "w = fs ! (k div 64) OR m"
  define s' where "s' = (put_frame_word k w s)\<lparr>phys_mem_head := phys_mem_head s + FRAME_SIZE\<rparr>"
  have eq: "set_frame k s = Inr s'"
    using k fs m by (simp add: set_frame_def with_frame_word_def INDEX_FROM_BIT_NO_def
        OFFSET_FROM_BIT_NO_def BITMAP_SIZE_def w_def s'_def)
  have half: "half_word w"
  proof (cases "k mod 64 = 31")
    case True
    then show ?thesis using m(2) by (auto simp: half_word_def w_def bit_or_iff)
  next
    case False
    then have "\<forall>j < 64. 31 \<le> j \<longrightarrow> bit w j = bit (fs ! (k div 64)) j"
      using m(2) k(2) by (auto simp: w_def bit_or_iff)
    then show ?thesis using fs(3) by (auto simp: half_word_def)
  qed
  have wf': "pmm_wf s'" using pmm_wf_put [OF wf fs(1,2) half]
    by (auto simp: s'_def pmm_wf_def split: option.splits)
  have same: "j div 64 = k div 64 \<Longrightarrow> j mod 64 = k mod 64 \<Longrightarrow> j = k" for j :: nat
    by (metis div_mult_mod_eq)
  have "frame_used s' j \<longleftrightarrow> frame_used s j \<or> j = k \<or>
        k mod 64 = 31 \<and> j div 64 = k div 64 \<and> 31 \<le> j mod 64" for j
  proof -
    have "frame_used s' j = frame_used (put_frame_word k w s) j" by (simp add: s'_def frame_used_def)
    then show ?thesis using frame_used_put [OF fs(1,2), of w j] fs(4) [of j] m(2) same [of j]
      by (auto simp: w_def bit_or_iff)
  qed
  then show ?thesis using eq wf' by (auto simp: s'_def put_frame_word_def)
qed

lemma clear_frame_spec:
  assumes wf: "pmm_wf s" and k: "k < nframes s"
  shows "\<exists>s'. clear_frame k s = Inr s' \<and> nframes s' = nframes s \<and>
    USABLE_START_PHYS_MEM s' = USABLE_START_PHYS_MEM s \<and> USABLE_END_PHYS_MEM s' = USABLE_END_PHYS_MEM s \<and>
    (k mod 64 < 32 \<longrightarrow> pmm_wf s') \<and> (\<forall>j. frame_used s' j \<longleftrightarrow> frame_used s j \<and> j \<noteq> k)"
proof -
  obtain fs where fs: "frames s = Some fs" "k div 64 < length fs" "half_word (fs ! (k div 64))"
    "\<And>j. j div 64 = k div 64 \<Longrightarrow> frame_used s j = bit (fs ! (k div 64)) (j mod 64)"
    using pmm_wf_word [OF wf k] by blast
  define w where "w = fs ! (k div 64) AND NOT (push_bit (k mod 64) 1)"
  have eq: "clear_frame k s = Inr (put_frame_word k w s)"
    using k fs by (simp add: clear_frame_def with_frame_word_def INDEX_FROM_BIT_NO_def
        OFFSET_FROM_BIT_NO_def BITMAP_SIZE_def w_def)
  have w_bit: "j < 64 \<Longrightarrow> bit w j \<longleftrightarrow> bit (fs ! (k div 64)) j \<and> j \<noteq> k mod 64" for j
    by (auto simp: w_def bit_simps)
  then have "k mod 64 < 32 \<Longrightarrow> half_word w" using fs(3) by (auto simp: half_word_def)
  then have "k mod 64 < 32 \<longrightarrow> pmm_wf (put_frame_word k w s)"
    using pmm_wf_put [OF wf fs(1,2)] by blast
  moreover have "frame_used (put_frame_word k w s) j \<longleftrightarrow> frame_used s j \<and> j \<noteq> k" for j
    using frame_used_put [OF fs(1,2), of w j] fs(4) [of j] w_bit [of "j mod 64"]
    by (auto, metis div_mult_mod_eq)
  ultimately show ?thesis using eq by (auto simp: put_frame_word_def)
qed

section \<open>Frames and page table entries\<close>

definition frame_no :: "phys_mem \<Rightarrow> nat \<Rightarrow> 40 word" where
  "frame_no s k = ucast (drop_bit 12 (USABLE_START_PHYS_MEM s + of_nat k * FRAME_SIZE))"

text \<open>The managed region: page aligned, not at address 0, within the 52 bit physical space.\<close>

definition region_ok :: "phys_mem \<Rightarrow> bool" where
  "region_ok s \<longleftrightarrow> unat (USABLE_START_PHYS_MEM s) mod 4096 = 0 \<and> 0 < unat (USABLE_START_PHYS_MEM s) \<and>
     unat (USABLE_START_PHYS_MEM s) + nframes s * 4096 \<le> unat (USABLE_END_PHYS_MEM s) \<and>
     unat (USABLE_END_PHYS_MEM s) \<le> 2 ^ 52"

lemma unat_frame_addr:
  assumes "region_ok s" "k < nframes s"
  shows "unat (USABLE_START_PHYS_MEM s + of_nat k * FRAME_SIZE) = unat (USABLE_START_PHYS_MEM s) + k * 4096"
    and "unat (USABLE_START_PHYS_MEM s) + k * 4096 < 2 ^ 52"
proof -
  have le: "unat (USABLE_START_PHYS_MEM s) + k * 4096 < 2 ^ 52"
    using assms unfolding region_ok_def by linarith
  then show "unat (USABLE_START_PHYS_MEM s) + k * 4096 < 2 ^ 52" .
  have "unat (of_nat k * FRAME_SIZE) = k * 4096"
    using le by (simp add: FRAME_SIZE_def unat_word_ariths unat_of_nat take_bit_nat_eq_self mod_simps)
  then show "unat (USABLE_START_PHYS_MEM s + of_nat k * FRAME_SIZE) =
      unat (USABLE_START_PHYS_MEM s) + k * 4096"
    using le by (subst unat_plus_u64) auto
qed

lemma unat_frame_no:
  assumes "region_ok s" "k < nframes s"
  shows "unat (frame_no s k) = unat (USABLE_START_PHYS_MEM s) div 4096 + k"
proof -
  have "unat (frame_no s k) = take_bit 40 ((unat (USABLE_START_PHYS_MEM s) + k * 4096) div 4096)"
    unfolding frame_no_def unsigned_ucast_eq unsigned_drop_bit_eq unat_frame_addr(1) [OF assms]
    using unat_frame_addr(2) [OF assms] by (simp add: drop_bit_eq_div take_bit_nat_eq_self)
  moreover have "(unat (USABLE_START_PHYS_MEM s) + k * 4096) div 4096 < 2 ^ 40"
    using unat_frame_addr(2) [OF assms] by simp
  ultimately show ?thesis by (simp add: take_bit_nat_eq_self)
qed

lemma frame_no_inject:
  assumes "region_ok s" "j < nframes s" "k < nframes s" "frame_no s j = frame_no s k"
  shows "j = k"
proof -
  have "unat (USABLE_START_PHYS_MEM s) div 4096 + j = unat (USABLE_START_PHYS_MEM s) div 4096 + k"
    unfolding unat_frame_no [OF assms(1,2), symmetric] unat_frame_no [OF assms(1,3), symmetric]
    by (rule arg_cong [OF assms(4)])
  then show ?thesis by (rule add_left_imp_eq)
qed

lemma frame_no_addr:
  assumes "region_ok s" "k < nframes s"
  shows "unat (push_bit 12 (ucast (frame_no s k)) :: u64) = unat (USABLE_START_PHYS_MEM s) + k * 4096"
proof -
  have "unat (frame_no s k) < 2 ^ 40" using unsigned_less [of "frame_no s k"] by simp
  then have "unat (push_bit 12 (ucast (frame_no s k)) :: u64) = unat (frame_no s k) * 4096"
    unfolding unsigned_push_bit_eq unsigned_ucast_eq
    by (simp add: push_bit_eq_mult take_bit_nat_eq_self)
  moreover have "unat (USABLE_START_PHYS_MEM s) div 4096 * 4096 = unat (USABLE_START_PHYS_MEM s)"
    using assms(1) by (auto simp: region_ok_def)
  ultimately show ?thesis using unat_frame_no [OF assms] by (simp add: add_mult_distrib)
qed

lemma frame_no_to_bit:
  assumes "region_ok s" "k < nframes s"
  shows "PHYS_ADDR_TO_BIT_NO s (push_bit 12 (ucast (frame_no s k))) = k"
    and "\<not> (push_bit 12 (ucast (frame_no s k)) :: u64) \<ge> USABLE_END_PHYS_MEM s"
    and "frame_no s k \<noteq> 0"
proof -
  note addr = frame_no_addr [OF assms]
  let ?a = "push_bit 12 (ucast (frame_no s k)) :: u64"
  show "\<not> ?a \<ge> USABLE_END_PHYS_MEM s"
    using addr assms unfolding region_ok_def by (simp add: word_le_nat_alt)
  show "frame_no s k \<noteq> 0" using addr assms by (auto simp: region_ok_def)
  show "PHYS_ADDR_TO_BIT_NO s ?a = k"
  proof (cases "k = 0")
    case True
    then show ?thesis using addr by (simp add: PHYS_ADDR_TO_BIT_NO_def word_le_nat_alt)
  next
    case False
    then have gt: "\<not> ?a \<le> USABLE_START_PHYS_MEM s" using addr by (simp add: word_le_nat_alt)
    have "unat (?a - USABLE_START_PHYS_MEM s) = k * 4096"
      using addr by (simp add: unat_sub_if_size)
    then have "unat ((?a - USABLE_START_PHYS_MEM s) div FRAME_SIZE) = k"
      by (simp add: unat_div FRAME_SIZE_def)
    then show ?thesis using gt by (simp add: PHYS_ADDR_TO_BIT_NO_def)
  qed
qed

section \<open>Allocation and release as a transition system\<close>

text \<open>
  The state is the memory manager and the set of frames the page tables own: a step takes a
  frame with \<open>alloc_frame\<close> or returns an owned one with \<open>free_frame\<close>.
\<close>

inductive frame_step :: "phys_mem \<times> nat set \<Rightarrow> phys_mem \<times> nat set \<Rightarrow> bool" where
  take_frame: "free_frame_bit_no s = Inr k \<Longrightarrow> alloc_frame pg user rw s = Inr (pg', s') \<Longrightarrow>
     frame_step (s, Own) (s', insert k Own)"
| return_frame: "k \<in> Own \<Longrightarrow> pg_frame pg = frame_no s k \<Longrightarrow> free_frame pg s = Inr (pg', s') \<Longrightarrow>
     frame_step (s, Own) (s', Own - {k})"

inductive_cases frame_stepE: "frame_step (s, Own) (s', Own')"

definition frames_inv :: "phys_mem \<times> nat set \<Rightarrow> bool" where
  "frames_inv x \<longleftrightarrow> (case x of (s, Own) \<Rightarrow> pmm_wf s \<and> region_ok s \<and>
     (\<forall>k \<in> Own. k < nframes s \<and> frame_used s k \<and> k mod 64 < 32))"

lemma alloc_frame_spec:
  assumes "pmm_wf s"
  shows "(if \<exists>k < nframes s. \<not> frame_used s k
    then \<exists>k s'. free_frame_bit_no s = Inr k \<and>
      alloc_frame pg user rw s = Inr (pg\<lparr>pg_present := True, pg_rw := rw, pg_user := user,
        pg_frame := frame_no s k\<rparr>, s') \<and>
      k < nframes s \<and> k mod 64 < 32 \<and> \<not> frame_used s k \<and> pmm_wf s' \<and> nframes s' = nframes s \<and>
      USABLE_START_PHYS_MEM s' = USABLE_START_PHYS_MEM s \<and> USABLE_END_PHYS_MEM s' = USABLE_END_PHYS_MEM s \<and>
      frame_used s' k \<and> (\<forall>j. frame_used s j \<longrightarrow> frame_used s' j) \<and>
      (\<forall>j. frame_used s' j \<longrightarrow> frame_used s j \<or> j div 64 = k div 64)
    else alloc_frame pg user rw s = Inl Halted)"
proof (cases "\<exists>k < nframes s. \<not> frame_used s k")
  case True
  define k where "k = (LEAST k. \<not> frame_used s k)"
  have fr: "free_frame_bit_no s = Inr k" using free_frame_bit_no_spec [OF assms] True by (simp add: k_def)
  obtain b where b: "b < nframes s" "\<not> frame_used s b" using True by blast
  have k1: "\<not> frame_used s k" 
    using LeastI [of "\<lambda>k. \<not> frame_used s k", OF b(2)] unfolding k_def .
  have k2: "\<forall>j < k. frame_used s j" unfolding k_def using not_less_Least by blast
  have k3: "k < nframes s" using Least_le [of "\<lambda>k. \<not> frame_used s k", OF b(2)] b(1)
    unfolding k_def by (rule le_less_trans)
  note k = k1 k2 k3
  have off: "k mod 64 < 32" using least_free_offset [OF assms k(3,1,2)] .
  obtain s' where "set_frame k s = Inr s'" "pmm_wf s'" "nframes s' = nframes s"
    "USABLE_START_PHYS_MEM s' = USABLE_START_PHYS_MEM s" "USABLE_END_PHYS_MEM s' = USABLE_END_PHYS_MEM s"
    "\<forall>j. frame_used s' j \<longleftrightarrow> frame_used s j \<or> j = k \<or>
        k mod 64 = 31 \<and> j div 64 = k div 64 \<and> 31 \<le> j mod 64"
    using set_frame_spec [OF assms k(3) off] k(1) by blast
  note sp = this
  have "alloc_frame pg user rw s = Inr (pg\<lparr>pg_present := True, pg_rw := rw, pg_user := user,
      pg_frame := frame_no s k\<rparr>, s')"
    by (simp add: alloc_frame_def fr sp(1,4) frame_no_def)
  then show ?thesis using True fr k off sp by (simp only: if_True) blast
next
  case False
  then have "free_frame_bit_no s = Inl Halted" using free_frame_bit_no_spec [OF assms] by simp
  then show ?thesis unfolding if_not_P [OF False] alloc_frame_def by simp
qed

lemma free_frame_spec:
  assumes "pmm_wf s" "region_ok s" "k < nframes s" "k mod 64 < 32" "pg_frame pg = frame_no s k"
  shows "\<exists>s'. free_frame pg s = Inr (pg\<lparr>pg_frame := 0\<rparr>, s') \<and> pmm_wf s' \<and> region_ok s' \<and>
    nframes s' = nframes s \<and> USABLE_START_PHYS_MEM s' = USABLE_START_PHYS_MEM s \<and>
    (\<forall>j. frame_used s' j \<longleftrightarrow> frame_used s j \<and> j \<noteq> k)"
  using clear_frame_spec [OF assms(1,3)] frame_no_to_bit [OF assms(2,3)] assms
  by (auto simp: free_frame_def region_ok_def)

lemma frame_step_inv: "frame_step x y \<Longrightarrow> frames_inv x \<Longrightarrow> frames_inv y"
proof (induction rule: frame_step.induct)
  case (take_frame s k pg user rw pg' s' Own)
  then show ?case using alloc_frame_spec [of s pg user rw]
    by (auto simp: frames_inv_def region_ok_def split: if_splits)
next
  case (return_frame k Own pg s pg' s')
  then have k: "pmm_wf s" "region_ok s" "k < nframes s" "k mod 64 < 32"
    by (auto simp: frames_inv_def)
  show ?case using free_frame_spec [OF k return_frame(2)] return_frame by (auto simp: frames_inv_def)
qed

lemma frame_steps_inv: "frame_step\<^sup>*\<^sup>* x y \<Longrightarrow> frames_inv x \<Longrightarrow> frames_inv y"
  by (induction rule: rtranclp_induct) (auto intro: frame_step_inv)

lemma init_pmm_inv:
  assumes "unat (USABLE_START_PHYS_MEM s) mod 4096 = 0" "0 < USABLE_START_PHYS_MEM s"
    "unat (USABLE_START_PHYS_MEM s) + unat (USABLE_LENGTH_PHYS_MEM s) = unat (USABLE_END_PHYS_MEM s)"
    "unat (USABLE_END_PHYS_MEM s) \<le> 2 ^ 52" "4096 \<le> unat (USABLE_LENGTH_PHYS_MEM s)"
    "phys_mem_head s = USABLE_START_PHYS_MEM s"
  shows "frames_inv (init_pmm s, {})" "frames_addr (init_pmm s) = USABLE_START_PHYS_MEM s"
    "USABLE_START_PHYS_MEM (init_pmm s) = USABLE_START_PHYS_MEM s"
    "\<not> frame_used (init_pmm s) k"
proof -
  define n where "n = unat (USABLE_LENGTH_PHYS_MEM s) div 4096"
  have n: "unat (USABLE_LENGTH_PHYS_MEM s div FRAME_SIZE) = n"
    by (simp add: unat_div FRAME_SIZE_def n_def)
  have lt: "phys_mem_head s < USABLE_END_PHYS_MEM s"
    using assms(3,5,6) by (simp add: word_less_nat_alt)
  have al: "phys_mem_head s AND 0xFFF = 0" using assms(1,6) by (simp add: low12_zero_iff)
  have nz: "USABLE_START_PHYS_MEM s \<noteq> 0" using assms(2) by auto
  have eq: "init_pmm s = s\<lparr>nframes := n, frames := Some (replicate ((8 * (n + 63) div 64) div 8) 0),
      frames_addr := USABLE_START_PHYS_MEM s,
      phys_mem_head := phys_mem_head s + of_nat (8 * (n + 63) div 64)\<rparr>"
    using lt al nz assms(6)
    by (simp add: init_pmm_def n kmalloc_a_def page_align_head_def BITMAP_SIZE_def Let_def)
  have "(8 * (n + 63) div 64) div 8 = (n + 63) div 64"
    by (simp add: div_mult2_eq [symmetric] mult.commute)
  then have len: "n \<le> 64 * ((8 * (n + 63) div 64) div 8)" by linarith
  have n4: "n * 4096 \<le> unat (USABLE_LENGTH_PHYS_MEM s)" by (simp add: n_def)
  have "0 < n" using assms(5) by (simp add: n_def)
  moreover have "n < 2 ^ 64" using n4 unat_u64_lt [of "USABLE_LENGTH_PHYS_MEM s"] by linarith
  ultimately have "pmm_wf (init_pmm s)" using len by (auto simp: eq pmm_wf_def half_word_def)
  moreover have "region_ok (init_pmm s)"
    using assms n4 by (auto simp: eq region_ok_def word_less_nat_alt)
  ultimately show "frames_inv (init_pmm s, {})" by (simp add: frames_inv_def)
  show "frames_addr (init_pmm s) = USABLE_START_PHYS_MEM s" by (simp add: eq)
  show "USABLE_START_PHYS_MEM (init_pmm s) = USABLE_START_PHYS_MEM s" by (simp add: eq)
  show "\<not> frame_used (init_pmm s) k"
    by (auto simp: eq frame_used_def)
qed

section \<open>From the memory map to the frame allocator\<close>

text \<open>
  What the boot protocol guarantees of the memory map: usable regions are page aligned and
  lie in the 52 bit physical address space; one of them holds at least a page, and none
  starts at address 0.
\<close>

definition boot_map_ok :: "memmap_entry list \<Rightarrow> bool" where
  "boot_map_ok es \<longleftrightarrow>
     list_all (\<lambda>e. me_type e = USABLE \<longrightarrow> unat (me_base e) mod 4096 = 0 \<and> 0 < me_base e \<and>
       unat (me_base e) + unat (me_length e) \<le> 2 ^ 52) es \<and>
     list_ex (\<lambda>e. me_type e = USABLE \<and> 4096 \<le> me_length e) es"

definition boot_mem :: "memmap_entry list \<Rightarrow> phys_mem" where
  "boot_mem es = set_usable_mem (Some es) phys_mem_boot"

lemma boot_mem_spec:
  assumes "boot_map_ok es"
  shows "\<exists>e \<in> set es. me_type e = USABLE \<and>
    USABLE_START_PHYS_MEM (boot_mem es) = me_base e \<and> USABLE_LENGTH_PHYS_MEM (boot_mem es) = me_length e \<and>
    USABLE_END_PHYS_MEM (boot_mem es) = me_base e + me_length e \<and>
    phys_mem_head (boot_mem es) = me_base e \<and> 4096 \<le> me_length e \<and>
    (\<forall>e' \<in> set es. me_type e' = USABLE \<longrightarrow> me_length e' \<le> me_length e)"
proof -
  obtain e0 where e0: "e0 \<in> set es" "me_type e0 = USABLE" "4096 \<le> me_length e0"
    using assms by (auto simp: boot_map_ok_def list_ex_iff)
  let ?s = "usable_loop es phys_mem_boot"
  note sp = usable_loop_spec [of phys_mem_boot es]
  have "4096 \<le> USABLE_LENGTH_PHYS_MEM ?s" using sp e0 by (auto intro: order_trans)
  then have "?s \<noteq> phys_mem_boot" by (auto simp: phys_mem_boot_def)
  then obtain e where e: "e \<in> set es" "me_type e = USABLE"
    "?s = phys_mem_boot\<lparr>USABLE_START_PHYS_MEM := me_base e, USABLE_LENGTH_PHYS_MEM := me_length e,
       USABLE_END_PHYS_MEM := me_base e + me_length e\<rparr>" using sp by blast
  have al: "me_base e AND 0xFFFFFFFFFFFFF000 = me_base e"
  proof (rule unat_eqI)
    have "unat (me_base e) mod 4096 = 0" using assms e by (auto simp: boot_map_ok_def list_all_iff)
    then have "unat (me_base e) div 4096 * 4096 = unat (me_base e)" by auto
    then show "unat (me_base e AND 0xFFFFFFFFFFFFF000) = unat (me_base e)"
      by (simp add: page_mask_bits unat_page_mask)
  qed
  have fields: "USABLE_START_PHYS_MEM (boot_mem es) = me_base e"
      "USABLE_LENGTH_PHYS_MEM (boot_mem es) = me_length e"
      "USABLE_END_PHYS_MEM (boot_mem es) = me_base e + me_length e"
      "phys_mem_head (boot_mem es) = me_base e"
    by (simp_all add: boot_mem_def set_usable_mem_def e(3) Let_def al)
  have len: "USABLE_LENGTH_PHYS_MEM ?s = me_length e" by (simp add: e(3))
  have "4096 \<le> me_length e" using \<open>4096 \<le> USABLE_LENGTH_PHYS_MEM ?s\<close> len by simp
  moreover have "\<forall>e' \<in> set es. me_type e' = USABLE \<longrightarrow> me_length e' \<le> me_length e"
    using sp len by simp
  ultimately show ?thesis using e fields by blast
qed

lemma boot_pmm_inv:
  assumes "boot_map_ok es"
  shows "frames_inv (init_pmm (boot_mem es), {})"
    and "frames_addr (init_pmm (boot_mem es)) = USABLE_START_PHYS_MEM (init_pmm (boot_mem es))"
    and "\<not> frame_used (init_pmm (boot_mem es)) k"
proof -
  obtain e where e: "e \<in> set es" "me_type e = USABLE" "4096 \<le> me_length e"
    "USABLE_START_PHYS_MEM (boot_mem es) = me_base e" "USABLE_LENGTH_PHYS_MEM (boot_mem es) = me_length e"
    "USABLE_END_PHYS_MEM (boot_mem es) = me_base e + me_length e" "phys_mem_head (boot_mem es) = me_base e"
    using boot_mem_spec [OF assms] by blast
  have b: "unat (me_base e) mod 4096 = 0" "0 < me_base e" "unat (me_base e) + unat (me_length e) \<le> 2 ^ 52"
    using assms e by (auto simp: boot_map_ok_def list_all_iff)
  have sum: "unat (me_base e + me_length e) = unat (me_base e) + unat (me_length e)"
    using b(3) by (intro unat_plus_u64) simp
  have "4096 \<le> unat (me_length e)" using e(3) by (simp add: word_le_nat_alt)
  note inv = init_pmm_inv [of "boot_mem es", unfolded e(4-7) sum, OF b(1,2) refl b(3) this refl]
  show "frames_inv (init_pmm (boot_mem es), {})" using inv(1) .
  show "frames_addr (init_pmm (boot_mem es)) = USABLE_START_PHYS_MEM (init_pmm (boot_mem es))"
    using inv(2,3) by simp
  show "\<not> frame_used (init_pmm (boot_mem es)) k" using inv(4) .
qed

section \<open>Properties\<close>

abbreviation sample_map :: "memmap_entry list" where
  "sample_map \<equiv> [\<lparr>me_base = 0x1000, me_length = 0x9E000, me_type = USABLE\<rparr>,
     \<lparr>me_base = 0x9F000, me_length = 0x61000, me_type = RESERVED\<rparr>,
     \<lparr>me_base = 0x100000, me_length = 0x200000, me_type = USABLE\<rparr>]"

lemma sample_map_ok: "boot_map_ok sample_map"
  by (simp add: boot_map_ok_def word_less_nat_alt word_le_nat_alt)

text \<open>C29. From boot on, through any sequence of frame allocations and releases, a frame handed
  out by \<open>alloc_frame\<close> is inside the managed region and is not one the page tables already own:
  the entry it writes differs from the frame number of every owned frame.\<close>

theorem frames_never_shared:
  assumes "boot_map_ok es"
    and "frame_step\<^sup>*\<^sup>* (init_pmm (boot_mem es), {}) (s, Own)"
    and "alloc_frame pg user rw s = Inr (pg', s')"
  shows "\<exists>k < nframes s. k \<notin> Own \<and> pg_frame pg' = frame_no s k \<and>
    (\<forall>j \<in> Own. frame_no s j \<noteq> pg_frame pg')"
proof -
  have inv: "frames_inv (s, Own)"
    using frame_steps_inv [OF assms(2)] boot_pmm_inv [OF assms(1)] by blast
  then have wf: "pmm_wf s" "region_ok s" "\<forall>j \<in> Own. j < nframes s \<and> frame_used s j"
    by (auto simp: frames_inv_def)
  obtain k where k: "k < nframes s" "\<not> frame_used s k" "pg_frame pg' = frame_no s k"
    using alloc_frame_spec [OF wf(1), of pg user rw] assms(3) by (auto split: if_splits)
  then show ?thesis using wf frame_no_inject [OF wf(2)] by metis
qed

theorem frames_never_shared_witness:
  "\<exists>pg' s' k. alloc_frame \<lparr>pg_present = False, pg_rw = False, pg_user = False, pg_frame = 0, pg_nx = False\<rparr>
      True True (init_pmm (boot_mem sample_map)) = Inr (pg', s') \<and>
    k < nframes (init_pmm (boot_mem sample_map)) \<and> pg_frame pg' = frame_no (init_pmm (boot_mem sample_map)) k"
proof -
  let ?pg = "\<lparr>pg_present = False, pg_rw = False, pg_user = False, pg_frame = 0, pg_nx = False\<rparr>"
  let ?s = "init_pmm (boot_mem sample_map)"
  have wf: "pmm_wf ?s" using boot_pmm_inv(1) [OF sample_map_ok] by (simp add: frames_inv_def)
  have "0 < nframes ?s" using wf by (simp add: pmm_wf_def)
  then have "\<exists>k < nframes ?s. \<not> frame_used ?s k" using boot_pmm_inv(3) [OF sample_map_ok] by blast
  then obtain pg' s' where "alloc_frame ?pg True True ?s = Inr (pg', s')"
    using alloc_frame_spec [OF wf, of ?pg True True] by auto
  then show ?thesis
    using frames_never_shared [OF sample_map_ok rtranclp.rtrancl_refl] by blast
qed

text \<open>The frame allocator is total: from boot on, \<open>alloc_frame\<close> succeeds as long as some
  managed frame is marked free, and otherwise it stops the machine in the assertion of
  \<open>free_frame_bit_no\<close>. In particular it never reaches the undefined shift of \<open>set_frame\<close>.\<close>

theorem alloc_frame_total:
  assumes "boot_map_ok es"
    and "frame_step\<^sup>*\<^sup>* (init_pmm (boot_mem es), {}) (s, Own)"
  shows "if \<exists>k < nframes s. \<not> frame_used s k
    then \<exists>pg' s'. alloc_frame pg user rw s = Inr (pg', s') \<and> pg_present pg' \<and> pg_rw pg' = rw \<and> pg_user pg' = user
    else alloc_frame pg user rw s = Inl Halted"
proof -
  have "pmm_wf s"
    using frame_steps_inv [OF assms(2)] boot_pmm_inv [OF assms(1)] by (auto simp: frames_inv_def)
  from alloc_frame_spec [OF this, of pg user rw] show ?thesis by (auto split: if_splits)
qed

theorem alloc_frame_total_witness:
  "\<exists>pg' s'. alloc_frame \<lparr>pg_present = False, pg_rw = False, pg_user = False, pg_frame = 0, pg_nx = False\<rparr>
      True False (init_pmm (boot_mem sample_map)) = Inr (pg', s') \<and> pg_present pg'"
proof -
  let ?s = "init_pmm (boot_mem sample_map)"
  have wf: "pmm_wf ?s" using boot_pmm_inv(1) [OF sample_map_ok] by (simp add: frames_inv_def)
  then have "\<exists>k < nframes ?s. \<not> frame_used ?s k"
    using boot_pmm_inv(3) [OF sample_map_ok] by (auto simp: pmm_wf_def)
  then show ?thesis
    using alloc_frame_total [OF sample_map_ok rtranclp.rtrancl_refl, of
      "\<lparr>pg_present = False, pg_rw = False, pg_user = False, pg_frame = 0, pg_nx = False\<rparr>" True False]
    by (auto split: if_splits)
qed

text \<open>
  C40. Half of the managed memory is out of reach. In every state reachable from boot by allocating and freeing frames, no frame whose number
  is 32 or more modulo 64 is owned or chosen by \<open>free_frame_bit_no\<close>. The reason is the shift of an \<open>int\<close> in \<open>set_frame\<close>: for the frame the
  search chooses it marks that frame alone, except that bit 31 of a word, sign-extended, marks all of the frames 31 to 63
  of the word with it; and for a frame of the upper half of a word the shift is undefined.
\<close>

theorem upper_half_frames_never_allocated:
  assumes "boot_map_ok es"
    and "frame_step\<^sup>*\<^sup>* (init_pmm (boot_mem es), {}) (s, Own)"
  shows "(\<forall>k \<in> Own. k < nframes s \<and> k mod 64 < 32)
    \<and> (\<forall>k. free_frame_bit_no s = Inr k \<longrightarrow> k mod 64 < 32 \<and> (\<exists>s'. set_frame k s = Inr s'
        \<and> (\<forall>j. frame_used s' j \<longleftrightarrow> frame_used s j \<or> j = k \<or> k mod 64 = 31 \<and> j div 64 = k div 64 \<and> 31 \<le> j mod 64)))
    \<and> (\<forall>k < nframes s. 32 \<le> k mod 64 \<longrightarrow> set_frame k s = Inl UndefinedShift)"
proof (intro conjI allI impI)
  have inv: "frames_inv (s, Own)"
    using frame_steps_inv [OF assms(2)] boot_pmm_inv [OF assms(1)] by blast
  then have wf: "pmm_wf s" by (simp add: frames_inv_def)
  show "\<forall>k \<in> Own. k < nframes s \<and> k mod 64 < 32" using inv by (auto simp: frames_inv_def)
  show "k mod 64 < 32" if "free_frame_bit_no s = Inr k" for k
    using that wf alloc_frame_spec [of s undefined True True] free_frame_bit_no_spec [of s] by (auto split: if_splits)
  show "\<exists>s'. set_frame k s = Inr s'
      \<and> (\<forall>j. frame_used s' j \<longleftrightarrow> frame_used s j \<or> j = k \<or> k mod 64 = 31 \<and> j div 64 = k div 64 \<and> 31 \<le> j mod 64)"
    if "free_frame_bit_no s = Inr k" for k
  proof -
    have "k < nframes s" "k mod 64 < 32" "\<not> frame_used s k"
      using that wf alloc_frame_spec [of s undefined True True] free_frame_bit_no_spec [of s] by (auto split: if_splits)
    then show ?thesis using set_frame_spec [OF wf, of k] by blast
  qed
  show "set_frame k s = Inl UndefinedShift" if k: "k < nframes s" "32 \<le> k mod 64" for k
  proof -
    obtain fs where "frames s = Some fs" "k div 64 < length fs" using pmm_wf_word [OF wf k(1)] by blast
    then show ?thesis using k
      by (simp add: set_frame_def with_frame_word_def int_one_shl_def OFFSET_FROM_BIT_NO_def INDEX_FROM_BIT_NO_def BITMAP_SIZE_def)
  qed
qed

lemma search_from_start:
  assumes "pmm_wf s" "\<forall>j. frame_used s j \<longleftrightarrow> j < n" "n < nframes s"
  shows "free_frame_bit_no s = Inr n"
proof -
  have "(LEAST k. \<not> frame_used s k) = n" using assms(2) by (intro Least_equality) auto
  then show ?thesis using free_frame_bit_no_spec [OF assms(1)] assms(2,3) by auto
qed

text \<open>The first 31 allocations after boot take the frames in order.\<close>

lemma first_frames_taken:
  assumes "boot_map_ok es" "n \<le> 31" "31 < nframes (init_pmm (boot_mem es))"
  shows "\<exists>s Own. frame_step\<^sup>*\<^sup>* (init_pmm (boot_mem es), {}) (s, Own) \<and> pmm_wf s \<and> nframes s = nframes (init_pmm (boot_mem es))
    \<and> (\<forall>j. frame_used s j \<longleftrightarrow> j < n)"
  using assms(2)
proof (induction n)
  case 0
  have "pmm_wf (init_pmm (boot_mem es))" using boot_pmm_inv(1) [OF assms(1)] by (simp add: frames_inv_def)
  then show ?case using boot_pmm_inv(3) [OF assms(1)] by auto
next
  case (Suc n)
  then obtain s Own where s: "frame_step\<^sup>*\<^sup>* (init_pmm (boot_mem es), {}) (s, Own)" "pmm_wf s"
    "nframes s = nframes (init_pmm (boot_mem es))" "\<forall>j. frame_used s j \<longleftrightarrow> j < n" by auto
  have f: "free_frame_bit_no s = Inr n" using s(3) Suc.prems assms(3) by (intro search_from_start [OF s(2,4)]) simp
  have m: "n mod 64 = n" "n < 31" "n < nframes s" using Suc.prems s(3) assms(3) by simp_all
  obtain s' where s': "set_frame n s = Inr s'" "pmm_wf s'" "nframes s' = nframes s" "\<forall>j. frame_used s' j \<longleftrightarrow> frame_used s j \<or> j = n"
    using set_frame_spec [OF s(2) m(3)] m s(4) by auto
  have "\<exists>pg'. alloc_frame pg True True s = Inr (pg', s')" for pg using f s'(1) by (simp add: alloc_frame_def)
  then have "frame_step (s, Own) (s', insert n Own)" using frame_step.take_frame [OF f] by blast
  then have "frame_step\<^sup>*\<^sup>* (init_pmm (boot_mem es), {}) (s', insert n Own)" using s(1) by (rule rtranclp.rtrancl_into_rtrancl [rotated])
  then show ?case using s' s(3,4) by (intro exI [of _ s'] exI [of _ "insert n Own"]) (auto simp: less_Suc_eq)
qed

text \<open>After 31 frames the search chooses frame 31; taking it marks the rest of the word, and the next one is frame 64.\<close>

theorem upper_half_frames_never_allocated_witness:
  "\<exists>s Own s'. frame_step\<^sup>*\<^sup>* (init_pmm (boot_mem sample_map), {}) (s, Own) \<and> free_frame_bit_no s = Inr 31
     \<and> set_frame 31 s = Inr s' \<and> frame_used s' 40 \<and> free_frame_bit_no s' = Inr 64 \<and> set_frame 40 s = Inl UndefinedShift"
proof -
  have n: "nframes (init_pmm (boot_mem sample_map)) = 512" by code_simp
  obtain s Own where s: "frame_step\<^sup>*\<^sup>* (init_pmm (boot_mem sample_map), {}) (s, Own)" "pmm_wf s" "nframes s = 512" "\<forall>j. frame_used s j \<longleftrightarrow> j < 31"
    using first_frames_taken [OF sample_map_ok, of 31] n by auto
  have f: "free_frame_bit_no s = Inr 31" using s(3) by (intro search_from_start [OF s(2,4)]) simp
  note T = upper_half_frames_never_allocated [OF sample_map_ok s(1)]
  obtain s' where s': "set_frame 31 s = Inr s'" "\<forall>j. frame_used s' j \<longleftrightarrow> frame_used s j \<or> j = 31 \<or> j div 64 = 0 \<and> 31 \<le> j mod 64"
    using T f by fastforce
  have w: "pmm_wf s'" "nframes s' = 512" using set_frame_spec [OF s(2), of 31] s'(1) s(3) by auto
  have "frame_used s' j \<longleftrightarrow> j < 64" for j
  proof (cases "j < 64")
    case True
    then have "j div 64 = 0" "j mod 64 = j" "j < 31 \<or> 31 \<le> j" by auto
    then show ?thesis using s'(2) s(4) True by metis
  next
    case False
    then have "j div 64 \<noteq> 0" "\<not> j < 31" "j \<noteq> 31" by (simp_all add: div_eq_0_iff)
    then show ?thesis using s'(2) s(4) False by simp
  qed
  then have u: "\<forall>j. frame_used s' j \<longleftrightarrow> j < 64" by blast
  have "frame_used s' 40" using u by simp
  moreover have "free_frame_bit_no s' = Inr 64" using w(2) by (intro search_from_start [OF w(1) u]) simp
  moreover have "set_frame 40 s = Inl UndefinedShift" using T s(3) by simp
  ultimately show ?thesis using s(1) f s'(1) by blast
qed

text \<open>The frame allocator and the placement allocator are not disjoint: the first frame
  that \<open>alloc_frame\<close> hands out after \<open>init_pmm\<close> is the page that holds the frame bitmap itself.\<close>

theorem first_frame_is_the_bitmap:
  assumes "boot_map_ok es" and "alloc_frame pg user rw (init_pmm (boot_mem es)) = Inr (pg', s')"
  shows "push_bit 12 (ucast (pg_frame pg')) = frames_addr (init_pmm (boot_mem es))"
proof -
  let ?s = "init_pmm (boot_mem es)"
  have wf: "pmm_wf ?s" "region_ok ?s" using boot_pmm_inv(1) [OF assms(1)] by (auto simp: frames_inv_def)
  then have n: "0 < nframes ?s" by (simp add: pmm_wf_def)
  have least: "(LEAST k. \<not> frame_used ?s k) = 0"
    using boot_pmm_inv(3) [OF assms(1)] by (intro Least_equality) auto
  obtain k where "free_frame_bit_no ?s = Inr k" "pg_frame pg' = frame_no ?s k"
    using alloc_frame_spec [OF wf(1), of pg user rw] assms(2) by (auto split: if_splits)
  then have "pg_frame pg' = frame_no ?s 0"
    using free_frame_bit_no_spec [OF wf(1)] least by (auto split: if_splits)
  then have "unat (push_bit 12 (ucast (pg_frame pg')) :: u64) = unat (USABLE_START_PHYS_MEM ?s)"
    using frame_no_addr [OF wf(2) n] by simp
  then have "push_bit 12 (ucast (pg_frame pg')) = USABLE_START_PHYS_MEM ?s" by (rule unat_eqI)
  then show ?thesis using boot_pmm_inv(2) [OF assms(1)] by simp
qed

theorem first_frame_is_the_bitmap_witness:
  "\<exists>pg' s'. alloc_frame \<lparr>pg_present = False, pg_rw = False, pg_user = False, pg_frame = 0, pg_nx = False\<rparr>
      True True (init_pmm (boot_mem sample_map)) = Inr (pg', s') \<and>
    push_bit 12 (ucast (pg_frame pg')) = frames_addr (init_pmm (boot_mem sample_map))"
proof -
  let ?pg = "\<lparr>pg_present = False, pg_rw = False, pg_user = False, pg_frame = 0, pg_nx = False\<rparr>"
  let ?s = "init_pmm (boot_mem sample_map)"
  have wf: "pmm_wf ?s" using boot_pmm_inv(1) [OF sample_map_ok] by (simp add: frames_inv_def)
  then have "\<exists>k < nframes ?s. \<not> frame_used ?s k"
    using boot_pmm_inv(3) [OF sample_map_ok] by (auto simp: pmm_wf_def)
  then obtain pg' s' where "alloc_frame ?pg True True ?s = Inr (pg', s')"
    using alloc_frame_spec [OF wf, of ?pg True True] by auto
  then show ?thesis using first_frame_is_the_bitmap [OF sample_map_ok] by blast
qed

text \<open>\<open>set_usable_mem\<close> selects the largest usable region of the memory map: the managed range,
  its length and the placement head are those of a usable entry that no usable entry exceeds.\<close>

theorem set_usable_mem_selects_largest:
  assumes "boot_map_ok es"
  shows "\<exists>e \<in> set es. me_type e = USABLE \<and>
    (let s = set_usable_mem (Some es) phys_mem_boot in
      USABLE_START_PHYS_MEM s = me_base e \<and> USABLE_END_PHYS_MEM s = me_base e + me_length e \<and>
      USABLE_LENGTH_PHYS_MEM s = me_length e \<and> phys_mem_head s = me_base e) \<and>
    (\<forall>e' \<in> set es. me_type e' = USABLE \<longrightarrow> me_length e' \<le> me_length e)"
  using boot_mem_spec [OF assms] unfolding boot_mem_def Let_def by blast

theorem set_usable_mem_selects_largest_witness:
  "\<exists>e \<in> set sample_map. me_type e = USABLE \<and>
    USABLE_START_PHYS_MEM (set_usable_mem (Some sample_map) phys_mem_boot) = me_base e \<and>
    me_length e \<ge> 0x200000"
  using set_usable_mem_selects_largest [OF sample_map_ok] unfolding Let_def by fastforce

text \<open>Page-aligned placement allocation: every block \<open>kmalloc_a\<close> returns starts on a page
  boundary at or above the head, and the blocks of any run that fits below the end of the
  usable region follow one another without overlap.\<close>

theorem kmalloc_a_blocks_disjoint:
  assumes "run_allocs (\<lambda>sz. kmalloc_a sz 1) szs s = (ps, s')"
    and "unat (phys_mem_head s) + (\<Sum>sz\<leftarrow>szs. 4096 + unat sz) < unat (USABLE_END_PHYS_MEM s)"
  shows "blocks_in_order (unat (phys_mem_head s)) ps \<and> list_all (\<lambda>(p, _). unat p mod 4096 = 0) ps \<and>
    unat (phys_mem_head s') \<le> unat (phys_mem_head s) + (\<Sum>sz\<leftarrow>szs. 4096 + unat sz)"
  by (rule kmalloc_a_placement.run_in_order [OF assms])

theorem kmalloc_a_blocks_disjoint_witness:
  "\<exists>ps s'. run_allocs (\<lambda>sz. kmalloc_a sz 1) [24, 8192, 1] (boot_mem sample_map) = (ps, s') \<and>
    blocks_in_order 0x100000 ps"
proof -
  obtain ps s' where r: "run_allocs (\<lambda>sz. kmalloc_a sz 1) [24, 8192, 1] (boot_mem sample_map) = (ps, s')"
    by force
  have "unat (phys_mem_head (boot_mem sample_map)) = 0x100000"
    "unat (USABLE_END_PHYS_MEM (boot_mem sample_map)) = 0x300000"
    by (simp_all add: boot_mem_def set_usable_mem_def phys_mem_boot_def Let_def word_less_nat_alt)
  then show ?thesis using kmalloc_a_blocks_disjoint [OF r] r by simp
qed

end
