(* ===== verification/FatMount.thy ===== *)
theory FatMount
  imports FatDirOps PhysMem
begin

text \<open>
  Formatting and mounting a FAT32 volume (kernel/src/fs/fat32_fs/src/fat.c and fat32_mount.c):
  \<open>create_fat32_volume\<close> writes the boot sector, its backup, the FSInfo sector and the two file allocation
  tables; \<open>fat32_mount\<close> reads the boot sector back, validates it, writes the volume label and loads the FAT
  cache into memory of the placement allocator.

  The theorems connect the two with the invariants on which the theories of chains, directories and files
  rest: on a formatted and mounted volume \<open>vol_ok\<close> holds, the tables are mirrored, the root directory is the
  one-cluster chain at cluster 2 and all other clusters are free.
\<close>

section \<open>Formatting\<close>

definition MAX_BATCH_SECTORS :: nat where "MAX_BATCH_SECTORS = 64"

text \<open>The first sector of a table: the entries 0 and 1 and the end mark of the root directory.\<close>

definition fat_head :: bytes where
  "fat_head = [0xF8, 0xFF, 0xFF, 0x0F, 0xFF, 0xFF, 0xFF, 0x0F, 0xFF, 0xFF, 0xFF, 0x0F] @ replicate 500 0"

text \<open>
  The loop that clears the rest of a table. \<open>sectors_written\<close> never exceeds the 32-bit \<open>fat_sector_size\<close>, so
  its natural number value is the value of the C variable.
\<close>

function init_fat_loop :: "u64 \<Rightarrow> nat \<Rightarrow> nat \<Rightarrow> bytes \<Rightarrow> fat32 \<Rightarrow> (bool \<times> fat32) option" where
  "init_fat_loop fat_start fat_sector_size sectors_written zeros s =
     (if sectors_written < fat_sector_size
      then let sectors_to_write = (if fat_sector_size - sectors_written > MAX_BATCH_SECTORS
                                   then MAX_BATCH_SECTORS else fat_sector_size - sectors_written)
           in do { (ok, s') \<leftarrow> fat32_write_sectors (fat_start + of_nat sectors_written) (of_nat sectors_to_write) zeros s;
                   if \<not> ok then Some (False, s')
                   else init_fat_loop fat_start fat_sector_size (sectors_written + sectors_to_write) zeros s' }
      else Some (True, s))"
  by pat_completeness auto
termination
  by (relation "measure (\<lambda>(fat_start, n, w, zeros, s). n - w)") (auto simp: MAX_BATCH_SECTORS_def)

declare init_fat_loop.simps [simp del]

text \<open>
  \<open>initialize_fat_tables\<close> leaves the global \<open>fat_buffer\<close> pointing to the block it has freed; nothing reads it
  before \<open>fat32_load_fat_cache\<close> sets it again.
\<close>

definition initialize_fat_tables :: "u64 \<Rightarrow> u32 \<Rightarrow> fat32 \<Rightarrow> (bool \<times> fat32) option" where
  "initialize_fat_tables fat_start fat_sector_size s =
     (case malloc (unat SECTOR_SIZE) s of
        None \<Rightarrow> Some (False, s\<lparr>fat_buffer := None\<rparr>)
      | Some _ \<Rightarrow> do {
          (ok, s1) \<leftarrow> fat32_write_sector fat_start fat_head (s\<lparr>fat_buffer := Some fat_head\<rparr>);
          if \<not> ok then Some (False, s1)
          else case malloc (MAX_BATCH_SECTORS * unat SECTOR_SIZE) s1 of
            None \<Rightarrow> Some (False, s1)
          | Some zeros \<Rightarrow> init_fat_loop fat_start (unat fat_sector_size) 1 zeros s1 })"

definition volume_spc :: "u32 \<Rightarrow> u8" where
  "volume_spc sectors = (if sectors < 65536 then 1 else if sectors < 262144 then 2
     else if sectors < 524288 then 4 else 16)"

text \<open>The loop over the FAT copies; the start of a copy is computed in 32 bits.\<close>

fun init_fats :: "u32 \<Rightarrow> BPB \<Rightarrow> nat \<Rightarrow> nat \<Rightarrow> fat32 \<Rightarrow> (bool \<times> fat32) option" where
  "init_fats start_lba b fat_num 0 s = Some (True, s)"
| "init_fats start_lba b fat_num (Suc n) s =
     (let fat_start = start_lba + ucast (BPB_RsvdSecCnt b) + of_nat fat_num * BPB_FATSz32 b
      in do { (ok, s') \<leftarrow> initialize_fat_tables (ucast fat_start) (BPB_FATSz32 b) s;
              if \<not> ok then Some (False, s') else init_fats start_lba b (Suc fat_num) n s' })"

definition create_fat32_volume :: "u32 \<Rightarrow> u32 \<Rightarrow> fat32 \<Rightarrow> (bool \<times> fat32) option" where
  "create_fat32_volume start_lba sectors s =
     do { ob \<leftarrow> create_bpb_fat32 (disk_malloc_ok s 512) sectors (volume_spc sectors) start_lba;
          case ob of
            None \<Rightarrow> Some (False, s\<lparr>bpb := None\<rparr>)
          | Some b \<Rightarrow> do {
              (ok, s1) \<leftarrow> fat32_write_sector (ucast start_lba) (bpb_bytes b) (s\<lparr>bpb := Some b\<rparr>);
              if \<not> ok then Some (False, s1)
              else do {
                (ok, s2) \<leftarrow> fat32_write_sector (ucast (start_lba + 6)) (bpb_bytes b) s1;
                if \<not> ok then Some (False, s2)
                else case create_fsinfo_sector (disk_malloc_ok s2 512) of
                  None \<Rightarrow> Some (False, s2)
                | Some fsinfo \<Rightarrow> do {
                    (ok, s3) \<leftarrow> fat32_write_sector (ucast (start_lba + 1)) (fsinfo_bytes fsinfo) s2;
                    if \<not> ok then Some (False, s3)
                    else do {
                      (ok, s4) \<leftarrow> init_fats start_lba b 0 (unat (BPB_NumFATs b)) s3;
                      if \<not> ok then Some (False, s4)
                      else fat32_write_sectors (ucast (start_lba + BPB_RootClus b)) (ucast (BPB_SecPerClus b))
                             (replicate (512 * unat (BPB_SecPerClus b)) 0) s4 } } } } }"

definition fat32_reset :: "fat32 \<Rightarrow> fat32" where
  "fat32_reset s = s\<lparr>fat32_base_lba := 0, fat32_cwd_cluster := 0, bpb := None\<rparr>"

section \<open>The volume label\<close>

fun label_slot :: "bytes \<Rightarrow> nat list \<Rightarrow> nat option" where
  "label_slot buf [] = None"
| "label_slot buf (off # offs) =
     (if rd8 buf (off + 11) = ATTR_VOLUME_ID \<or> rd8 buf off = 0 \<or> rd8 buf off = 0xE5 then Some off
      else label_slot buf offs)"

definition label_entry :: "bytes \<Rightarrow> bytes" where
  "label_entry label = map (\<lambda>c. if c \<noteq> 0 \<and> c \<noteq> 46 then toupper_b c else 32) (take 11 label)
     @ [ATTR_VOLUME_ID] @ replicate 20 0"

text \<open>
  \<open>label\<close> is the memory at the pointer: the loop reads eleven characters of it whether or not the string ends
  earlier, so a shorter block is overrun (\<open>None\<close>).
\<close>

definition fat32_set_volume_label :: "bytes \<Rightarrow> fat32 \<Rightarrow> (bool \<times> fat32) option" where
  "fat32_set_volume_label label s =
     (let root_cluster = get_root_dir_cluster s; cluster_size = unat (get_cluster_size_bytes s)
      in case malloc cluster_size s of
           None \<Rightarrow> Some (False, s)
         | Some buf0 \<Rightarrow> do {
             (ok, buf) \<leftarrow> fat32_read_cluster root_cluster buf0 0 s;
             if \<not> ok then Some (False, s)
             else case label_slot buf (entry_offsets cluster_size) of
               None \<Rightarrow> Some (False, s)
             | Some off \<Rightarrow>
                 if length label < 11 then None
                 else fat32_write_cluster root_cluster (overwrite buf off (label_entry label)) s })"

section \<open>Mounting\<close>

text \<open>
  The cache is taken from the placement allocator and reached through the direct map at \<open>hhdm\<close> (HHDM_OFFSET
  of the boot loader). An exhausted allocator answers 0, which the direct map turns into a valid-looking
  pointer to physical address 0, and the allocator does not look at the end of the region: clearing the
  cache then writes over memory that is not its own (\<open>None\<close>).
\<close>

definition fat32_load_fat_cache :: "u64 \<Rightarrow> phys_mem \<Rightarrow> fat32 \<Rightarrow> (bool \<times> phys_mem \<times> fat32) option" where
  "fat32_load_fat_cache hhdm m s =
     do { fat_start_lba \<leftarrow> get_first_fat_sector s;
          let fat_sectors = get_fat_size_in_sectors s;
              n = fat_sectors * ucast (get_bytes_per_sector s);
              (p, m1) = kmalloc_a (ucast n) 1 m
          in if p + hhdm = 0 then Some (False, m1, s\<lparr>fat_size_bytes := n, fat_buffer := None\<rparr>)
             else if p = 0 \<or> unat p + unat n > unat (USABLE_END_PHYS_MEM m) then None
             else do {
               (ok, buf) \<leftarrow> kebla_disk_read (cur_disk_no s) (ucast fat_start_lba) fat_sectors (replicate (unat n) 0) s;
               if \<not> ok then Some (False, m1, s\<lparr>fat_size_bytes := n, fat_buffer := None\<rparr>)
               else Some (True, m1, s\<lparr>fat_size_bytes := n, fat_buffer := Some buf\<rparr>) } }"

definition fat32_mount :: "u64 \<Rightarrow> int \<Rightarrow> u64 \<Rightarrow> bytes \<Rightarrow> phys_mem \<Rightarrow> fat32 \<Rightarrow> (bool \<times> phys_mem \<times> fat32) option" where
  "fat32_mount hhdm disk_no start_lba vol_label m s =
     (let s0 = (set_disk_no disk_no s)\<lparr>fat32_base_lba := ucast start_lba\<rparr>
      in case malloc 512 s0 of
           None \<Rightarrow> Some (False, m, s0)
         | Some buf \<Rightarrow> do {
             (ok, sector) \<leftarrow> fat32_read_sector start_lba buf s0;
             if \<not> ok then Some (False, m, s0)
             else if bpb s0 = None \<and> malloc 512 s0 = None then Some (False, m, s0)
             else let s1 = s0\<lparr>bpb := Some (bpb_of_bytes sector)\<rparr>;
                      s2 = s1\<lparr>fat32_cwd_cluster := get_root_dir_cluster s1\<rparr>
                  in if get_bytes_per_sector s2 \<noteq> 512 then Some (False, m, s2)
                     else if get_fat_size_in_sectors s2 = 0 then Some (False, m, s2)
                     else do {
                       nf \<leftarrow> get_total_no_fat s2;
                       if nf = 0 then Some (False, m, s2)
                       else if get_sectors_per_cluster s2 = 0 then Some (False, m, s2)
                       else if get_total_sectors s2 = 0 then Some (False, m, s2)
                       else do {
                         (ok, s3) \<leftarrow> fat32_set_volume_label vol_label s2;
                         if \<not> ok then Some (False, m, s3)
                         else fat32_load_fat_cache hhdm m
                                (s3\<lparr>fat32_cwd_cluster := get_root_dir_cluster s3\<rparr>) } } })"

section \<open>What formatting writes\<close>

text \<open>A step that changes sectors of the current disk and the FAT cache, and nothing else.\<close>

definition disk_step :: "fat32 \<Rightarrow> fat32 \<Rightarrow> bool" where
  "disk_step s s' \<longleftrightarrow> cur_disk_no s' = cur_disk_no s \<and> dev_ok (cur_disk_no s) s'
     \<and> dev_cap (cur_disk_no s) s' = dev_cap (cur_disk_no s) s \<and> bpb s' = bpb s
     \<and> disk_malloc_ok s' = disk_malloc_ok s \<and> fat32_free_cluster_no s' = fat32_free_cluster_no s
     \<and> fat32_cwd_path s' = fat32_cwd_path s"

lemma disk_step_trans: "disk_step s1 s2 \<Longrightarrow> disk_step s2 s3 \<Longrightarrow> disk_step s1 s3"
  by (auto simp: disk_step_def)

lemma disk_step_put:
  "dev_ok (cur_disk_no s) s \<Longrightarrow> n * 512 \<le> length d \<Longrightarrow> disk_step s (dev_put (cur_disk_no s) j n d s)"
  by (simp add: disk_step_def dev_ok_put)

lemma dev_vars [simp]:
  "dev_ok no (s\<lparr>fat_buffer := x\<rparr>) = dev_ok no s" "dev_cap no (s\<lparr>fat_buffer := x\<rparr>) = dev_cap no s"
  "dev_sector no (s\<lparr>fat_buffer := x\<rparr>) = dev_sector no s"
  "dev_ok no (s\<lparr>bpb := y\<rparr>) = dev_ok no s" "dev_cap no (s\<lparr>bpb := y\<rparr>) = dev_cap no s"
  "dev_sector no (s\<lparr>bpb := y\<rparr>) = dev_sector no s"
  "dev_ok no (s\<lparr>fat_size_bytes := n\<rparr>) = dev_ok no s" "dev_cap no (s\<lparr>fat_size_bytes := n\<rparr>) = dev_cap no s"
  "dev_sector no (s\<lparr>fat_size_bytes := n\<rparr>) = dev_sector no s"
  "dev_ok no (s\<lparr>fat32_cwd_cluster := c\<rparr>) = dev_ok no s" "dev_cap no (s\<lparr>fat32_cwd_cluster := c\<rparr>) = dev_cap no s"
  "dev_sector no (s\<lparr>fat32_cwd_cluster := c\<rparr>) = dev_sector no s"
  "dev_ok no (s\<lparr>fat32_base_lba := c\<rparr>) = dev_ok no s" "dev_cap no (s\<lparr>fat32_base_lba := c\<rparr>) = dev_cap no s"
  "dev_sector no (s\<lparr>fat32_base_lba := c\<rparr>) = dev_sector no s"
  "dev_ok no (s\<lparr>cur_disk_no := k\<rparr>) = dev_ok no s" "dev_cap no (s\<lparr>cur_disk_no := k\<rparr>) = dev_cap no s"
  "dev_sector no (s\<lparr>cur_disk_no := k\<rparr>) = dev_sector no s"
  by (auto simp: dev_ok_def dev_cap_def dev_sector_def [abs_def] dev_drive_def sata_dev_def get_disk_def
      split: option.splits)

lemma bslice_zeros: "i * 512 + 512 \<le> n \<Longrightarrow> bslice (i * 512) 512 (replicate n (0 :: u8)) = replicate 512 0"
  by (simp add: bslice_def)

lemma init_fat_loop_ok:
  assumes "unat start + sz \<le> dev_cap (cur_disk_no s) s" "dev_ok (cur_disk_no s) s" "w \<le> sz"
  shows "\<exists>s'. init_fat_loop start sz w (replicate 32768 0) s = Some (True, s') \<and> disk_step s s'
    \<and> (\<forall>j. sec s' j = (if unat start + w \<le> j \<and> j < unat start + sz then replicate 512 0 else sec s j))"
  using assms
proof (induction "sz - w" arbitrary: w s rule: less_induct)
  case less
  show ?case
  proof (cases "w < sz")
    case False
    then show ?thesis using less.prems by (subst init_fat_loop.simps) (auto simp: disk_step_def)
  next
    case True
    define n where "n = (if sz - w > MAX_BATCH_SECTORS then MAX_BATCH_SECTORS else sz - w)"
    have n: "0 < n" "n \<le> 64" "w + n \<le> sz" using True by (auto simp: n_def MAX_BATCH_SECTORS_def)
    define s1 where "s1 = dev_put (cur_disk_no s) (unat start + w) n (replicate 32768 0) s"
    have cap: "dev_cap (cur_disk_no s) s \<le> 2 ^ 48" using less.prems by (simp add: dev_ok_def)
    have "unat (start + of_nat w :: u64) = unat start + w"
      using less.prems True cap by (subst unat_plus_u64) (auto simp: unat_of_nat_le)
    moreover have "unat (of_nat n :: u32) = n" using n by (simp add: unat_of_nat_le)
    ultimately have wr: "fat32_write_sectors (start + of_nat w) (of_nat n) (replicate 32768 0) s = Some (True, s1)"
      unfolding s1_def using n less.prems by (subst fat32_write_sectors_ok) auto
    have st: "disk_step s s1" unfolding s1_def using less.prems n by (intro disk_step_put) auto
    have "sz - (w + n) < sz - w" using True n by simp
    then obtain s' where r: "init_fat_loop start sz (w + n) (replicate 32768 0) s1 = Some (True, s')" "disk_step s1 s'"
      and sec: "\<And>j. sec s' j = (if unat start + (w + n) \<le> j \<and> j < unat start + sz then replicate 512 0 else sec s1 j)"
      using less.hyps [of "w + n" s1] less.prems st n by (auto simp: disk_step_def)
    have "sec s' j = (if unat start + w \<le> j \<and> j < unat start + sz then replicate 512 0 else sec s j)" for j
    proof -
      have z: "bslice ((j - (unat start + w)) * 512) 512 (replicate 32768 (0 :: u8)) = replicate 512 0"
        if "unat start + w \<le> j" "j < unat start + w + n" using that n by (intro bslice_zeros) simp
      show ?thesis unfolding sec using st n z by (auto simp: s1_def dev_sector_put)
    qed
    then show ?thesis
      using True wr r disk_step_trans [OF st r(2)]
      by (subst init_fat_loop.simps) (simp add: n_def [symmetric])
  qed
qed

lemma length_fat_head [simp]: "length fat_head = 512" by (simp add: fat_head_def)

lemma sec_disk_step: "disk_step s s' \<Longrightarrow> sec s' = dev_sector (cur_disk_no s) s'"
  by (simp add: disk_step_def)

text \<open>The contents of one copy of a fresh table, by the sector inside it.\<close>

definition fresh_fat :: "nat \<Rightarrow> bytes" where
  "fresh_fat k = (if k = 0 then fat_head else replicate 512 0)"

lemma initialize_fat_tables_ok:
  assumes "unat start + unat sz \<le> dev_cap (cur_disk_no s) s" "dev_ok (cur_disk_no s) s" "0 < unat sz"
    "disk_malloc_ok s 512" "disk_malloc_ok s 32768"
  shows "\<exists>s'. initialize_fat_tables start sz s = Some (True, s') \<and> disk_step s s'
    \<and> (\<forall>j. sec s' j = (if unat start \<le> j \<and> j < unat start + unat sz then fresh_fat (j - unat start) else sec s j))"
proof -
  define s0 where "s0 = s\<lparr>fat_buffer := Some fat_head\<rparr>"
  have s0: "cur_disk_no s0 = cur_disk_no s" "dev_ok (cur_disk_no s0) s0" "dev_cap (cur_disk_no s0) s0 = dev_cap (cur_disk_no s) s"
    "disk_step s s0" "sec s0 = sec s"
    using assms(2) by (auto simp: s0_def disk_step_def)
  define s1 where "s1 = dev_put (cur_disk_no s0) (unat start) 1 fat_head s0"
  have wr: "fat32_write_sector start fat_head s0 = Some (True, s1)"
    unfolding s1_def using s0 assms(1,3) by (intro fat32_write_sector_ok) auto
  have st: "disk_step s0 s1" unfolding s1_def by (intro disk_step_put s0) simp
  obtain s' where r: "init_fat_loop start (unat sz) 1 (replicate 32768 0) s1 = Some (True, s')" "disk_step s1 s'"
    and sec: "\<And>j. sec s' j = (if unat start + 1 \<le> j \<and> j < unat start + unat sz then replicate 512 0 else sec s1 j)"
    using init_fat_loop_ok [of start "unat sz" s1 1] st s0 assms by (auto simp: disk_step_def)
  have "sec s1 j = (if j = unat start then fat_head else sec s j)" for j
    using s0 by (auto simp: s1_def dev_sector_put)
  moreover have "disk_malloc_ok s1 32768" using st s0 assms(5) by (auto simp: disk_step_def)
  ultimately show ?thesis
    using wr r sec disk_step_trans [OF s0(4) disk_step_trans [OF st r(2)]] assms(3,4)
    by (auto simp: initialize_fat_tables_def malloc_def SECTOR_SIZE_def MAX_BATCH_SECTORS_def fresh_fat_def
        s0_def [symmetric])
qed

text \<open>The boot sector of a new volume.\<close>

definition volume_bpb :: "u32 \<Rightarrow> u32 \<Rightarrow> BPB" where
  "volume_bpb start_lba sectors = the (the (create_bpb_fat32 True sectors (volume_spc sectors) start_lba))"

lemma volume_spc_cases: "volume_spc n = 1 \<or> volume_spc n = 2 \<or> volume_spc n = 4 \<or> volume_spc n = 16"
  by (simp add: volume_spc_def)

lemma create_bpb_volume:
  "create_bpb_fat32 True sectors (volume_spc sectors) start_lba = Some (Some (volume_bpb start_lba sectors))"
  using volume_spc_cases [of sectors] by (auto simp: volume_bpb_def create_bpb_fat32_def)

lemma volume_bpb_simps [simp]:
  "BPB_BytsPerSec (volume_bpb a n) = 512" "BPB_SecPerClus (volume_bpb a n) = volume_spc n"
  "BPB_RsvdSecCnt (volume_bpb a n) = 32" "BPB_NumFATs (volume_bpb a n) = 2" "BPB_HiddSec (volume_bpb a n) = a"
  "BPB_TotSec32 (volume_bpb a n) = n" "BPB_FATSz32 (volume_bpb a n) = bpb_fat_size n (volume_spc n)"
  "BPB_RootClus (volume_bpb a n) = 2"
  using volume_spc_cases [of n] by (auto simp: volume_bpb_def create_bpb_fat32_def)

lemma volume_bpb_sized: "bpb_sized (volume_bpb a n)"
  using volume_spc_cases [of n] by (auto simp: volume_bpb_def create_bpb_fat32_def bpb_sized_def str_bytes_def)

lemma volume_geometry:
  "fat0 (volume_bpb a n) = unat a + 32" "nfats (volume_bpb a n) = 2" "spc (volume_bpb a n) = unat (volume_spc n)"
  "fatsz (volume_bpb a n) = unat (bpb_fat_size n (volume_spc n))"
  by (simp_all add: fat0_def nfats_def spc_def fatsz_def)

lemma length_fsinfo: "create_fsinfo_sector ok = Some f \<Longrightarrow> length (fsinfo_bytes f) = 512"
  by (auto simp: create_fsinfo_sector_def fsinfo_bytes_def split: if_splits)

text \<open>
  The image of a formatted disk. The sectors cleared last are not those of the root directory's cluster: the
  code adds the cluster number 2 to the first sector of the volume.
\<close>

definition format_image :: "u32 \<Rightarrow> u32 \<Rightarrow> (nat \<Rightarrow> bytes) \<Rightarrow> nat \<Rightarrow> bytes" where
  "format_image start_lba sectors old j =
     (let b = volume_bpb start_lba sectors; v = unat start_lba
      in if v + 2 \<le> j \<and> j < v + 2 + spc b then replicate 512 0
         else if fat0 b + fatsz b \<le> j \<and> j < fat0 b + 2 * fatsz b then fresh_fat (j - (fat0 b + fatsz b))
         else if fat0 b \<le> j \<and> j < fat0 b + fatsz b then fresh_fat (j - fat0 b)
         else if j = v + 1 then fsinfo_bytes (the (create_fsinfo_sector True))
         else if j = v \<or> j = v + 6 then bpb_bytes b
         else old j)"

lemma write_sector_step:
  assumes "dev_ok (cur_disk_no s) s" "unat lba < dev_cap (cur_disk_no s) s" "length d = 512"
  shows "\<exists>s'. fat32_write_sector lba d s = Some (True, s') \<and> disk_step s s'
    \<and> sec s' = (sec s)(unat lba := d)"
  using fat32_write_sector_ok [of s lba d] disk_step_put [of s 1 d "unat lba"] assms
  by (auto simp: dev_sector_put)

lemma write_sectors_step:
  assumes "dev_ok (cur_disk_no s) s" "unat lba + unat n \<le> dev_cap (cur_disk_no s) s" "0 < unat n" "unat n \<le> 256"
  shows "\<exists>s'. fat32_write_sectors lba n (replicate (512 * unat n) 0) s = Some (True, s') \<and> disk_step s s'
    \<and> sec s' = (\<lambda>j. if unat lba \<le> j \<and> j < unat lba + unat n then replicate 512 0 else sec s j)"
proof -
  have "bslice ((j - unat lba) * 512) 512 (replicate (512 * unat n) (0 :: u8)) = replicate 512 0"
    if "unat lba \<le> j" "j < unat lba + unat n" for j using that by (intro bslice_zeros) simp
  then show ?thesis
    using fat32_write_sectors_ok [of s lba n "replicate (512 * unat n) 0"] assms
      disk_step_put [of s "unat n" "replicate (512 * unat n) 0" "unat lba"]
    by (auto simp: dev_sector_put)
qed

lemma unat_ucast_u64 [simp]: "unat (ucast (w :: u32) :: u64) = unat w"
  by (rule unat_ucast_up) simp

lemma ucast_u32_u64: "ucast (ucast (w :: u32) :: u64) = w"
  by (rule bit_word_eqI) (simp add: bit_simps)

definition formattable :: "u32 \<Rightarrow> u32 \<Rightarrow> fat32 \<Rightarrow> bool" where
  "formattable start_lba sectors s \<longleftrightarrow> dev_ok (cur_disk_no s) s
     \<and> unat start_lba + unat sectors \<le> dev_cap (cur_disk_no s) s
     \<and> wf_bpb (volume_bpb start_lba sectors) \<and> disk_malloc_ok s 512 \<and> disk_malloc_ok s 32768"

lemma formattableD:
  assumes "formattable a n s"
  shows "dev_ok (cur_disk_no s) s" "unat a + unat n \<le> dev_cap (cur_disk_no s) s"
    "32 + 2 * unat (bpb_fat_size n (volume_spc n)) \<le> unat n" "unat a + unat n < 2 ^ 32"
    "0 < unat (bpb_fat_size n (volume_spc n))" "wf_bpb (volume_bpb a n)" "disk_malloc_ok s 512" "disk_malloc_ok s 32768"
  using assms by (auto simp: formattable_def wf_bpb_def volume_geometry)

lemma ucast_32: "(ucast (32 :: u16) :: u32) = 32"
  by simp

lemma init_fats_2:
  assumes "initialize_fat_tables (ucast (a + ucast (BPB_RsvdSecCnt b))) (BPB_FATSz32 b) s = Some (True, s1)"
    "initialize_fat_tables (ucast (a + ucast (BPB_RsvdSecCnt b) + BPB_FATSz32 b)) (BPB_FATSz32 b) s1 = Some (True, s2)"
  shows "init_fats a b 0 2 s = Some (True, s2)"
proof -
  have "init_fats a b 0 (Suc (Suc 0)) s = Some (True, s2)" using assms by simp
  then show ?thesis by (simp only: numeral_2_eq_2)
qed

lemma init_fats_ok:
  assumes F: "formattable a n s"
  shows "\<exists>s'. init_fats a (volume_bpb a n) 0 2 s = Some (True, s') \<and> disk_step s s'
    \<and> (let b = volume_bpb a n in sec s' = (\<lambda>j.
         if fat0 b + fatsz b \<le> j \<and> j < fat0 b + 2 * fatsz b then fresh_fat (j - (fat0 b + fatsz b))
         else if fat0 b \<le> j \<and> j < fat0 b + fatsz b then fresh_fat (j - fat0 b) else sec s j))"
proof -
  note D = formattableD [OF F]
  let ?F = "bpb_fat_size n (volume_spc n)"
  have u: "unat (a + 32) = unat a + 32" "unat (a + 32 + ?F) = unat a + 32 + unat ?F"
    using D by (simp_all add: unat_plus_u32)
  obtain s1 where s1: "initialize_fat_tables (ucast (a + 32)) ?F s = Some (True, s1)" "disk_step s s1"
    and e1: "\<And>j. sec s1 j = (if unat a + 32 \<le> j \<and> j < unat a + 32 + unat ?F then fresh_fat (j - (unat a + 32)) else sec s j)"
    using initialize_fat_tables_ok [of "ucast (a + 32)" ?F s] D u by auto
  have d1: "dev_ok (cur_disk_no s1) s1" "dev_cap (cur_disk_no s1) s1 = dev_cap (cur_disk_no s) s"
    "disk_malloc_ok s1 = disk_malloc_ok s" using s1(2) by (auto simp: disk_step_def)
  obtain s2 where s2: "initialize_fat_tables (ucast (a + 32 + ?F)) ?F s1 = Some (True, s2)" "disk_step s1 s2"
    and e2: "\<And>j. sec s2 j = (if unat a + 32 + unat ?F \<le> j \<and> j < unat a + 32 + unat ?F + unat ?F
        then fresh_fat (j - (unat a + 32 + unat ?F)) else sec s1 j)"
    using initialize_fat_tables_ok [of "ucast (a + 32 + ?F)" ?F s1] D d1 u by auto
  have "init_fats a (volume_bpb a n) 0 2 s = Some (True, s2)"
    using init_fats_2 [of a "volume_bpb a n" s s1 s2] s1(1) s2(1) by (simp only: volume_bpb_simps ucast_32)
  moreover have "sec s2 = (\<lambda>j. if unat a + 32 + unat ?F \<le> j \<and> j < unat a + 32 + 2 * unat ?F
      then fresh_fat (j - (unat a + 32 + unat ?F))
      else if unat a + 32 \<le> j \<and> j < unat a + 32 + unat ?F then fresh_fat (j - (unat a + 32)) else sec s j)"
    by (rule ext) (simp only: e1 e2 mult_2 add.assoc)
  ultimately show ?thesis
    using disk_step_trans [OF s1(2) s2(2)] unfolding volume_geometry Let_def by blast
qed

lemma format_ok:
  assumes F: "formattable a n s"
  shows "\<exists>s'. create_fat32_volume a n s = Some (True, s') \<and> disk_step (s\<lparr>bpb := Some (volume_bpb a n)\<rparr>) s'
    \<and> sec s' = format_image a n (sec s)"
proof -
  note D = formattableD [OF F]
  define b where "b = volume_bpb a n"
  define s0 where "s0 = s\<lparr>bpb := Some b\<rparr>"
  have F0: "formattable a n s0" "sec s0 = sec s" using F by (simp_all add: s0_def formattable_def)
  have keep: "formattable a n t" if "disk_step s0 t" for t
    using F0(1) that by (auto simp: formattable_def disk_step_def)
  have lb: "length (bpb_bytes b) = 512" by (simp add: b_def length_bpb_bytes volume_bpb_sized)
  obtain f where f: "create_fsinfo_sector True = Some f" by (simp add: create_fsinfo_sector_def)
  have u: "unat (a + 6) = unat a + 6" "unat (a + 1) = unat a + 1" "unat (a + 2) = unat a + 2"
    using D by (simp_all add: unat_plus_u32)
  obtain s1 where s1: "fat32_write_sector (ucast a) (bpb_bytes b) s0 = Some (True, s1)" "disk_step s0 s1"
    "sec s1 = (sec s0)(unat a := bpb_bytes b)"
    using write_sector_step [of s0 "ucast a" "bpb_bytes b"] formattableD [OF F0(1)] lb by auto
  obtain s2 where s2: "fat32_write_sector (ucast (a + 6)) (bpb_bytes b) s1 = Some (True, s2)" "disk_step s1 s2"
    "sec s2 = (sec s1)(unat a + 6 := bpb_bytes b)"
    using write_sector_step [of s1 "ucast (a + 6)" "bpb_bytes b"] formattableD [OF keep [OF s1(2)]] lb u by auto
  note t2 = disk_step_trans [OF s1(2) s2(2)]
  obtain s3 where s3: "fat32_write_sector (ucast (a + 1)) (fsinfo_bytes f) s2 = Some (True, s3)" "disk_step s2 s3"
    "sec s3 = (sec s2)(unat a + 1 := fsinfo_bytes f)"
    using write_sector_step [of s2 "ucast (a + 1)" "fsinfo_bytes f"] formattableD [OF keep [OF t2]] length_fsinfo [OF f] u
    by auto
  note t3 = disk_step_trans [OF t2 s3(2)]
  obtain s4 where s4: "init_fats a b 0 2 s3 = Some (True, s4)" "disk_step s3 s4"
    and e4: "sec s4 = (\<lambda>j. if fat0 b + fatsz b \<le> j \<and> j < fat0 b + 2 * fatsz b then fresh_fat (j - (fat0 b + fatsz b))
         else if fat0 b \<le> j \<and> j < fat0 b + fatsz b then fresh_fat (j - fat0 b) else sec s3 j)"
    using init_fats_ok [OF keep [OF t3]] unfolding b_def [symmetric] Let_def by blast
  note t4 = disk_step_trans [OF t3 s4(2)]
  have sp: "unat (ucast (volume_spc n) :: u32) = spc b" by (simp add: unat_ucast_up b_def volume_geometry)
  have spc: "0 < spc b" "spc b \<le> 16" using volume_spc_cases [of n] by (auto simp: b_def volume_geometry)
  obtain s5 where s5: "fat32_write_sectors (ucast (a + 2)) (ucast (volume_spc n)) (replicate (512 * spc b) 0) s4 = Some (True, s5)"
    "disk_step s4 s5" "sec s5 = (\<lambda>j. if unat a + 2 \<le> j \<and> j < unat a + 2 + spc b then replicate 512 0 else sec s4 j)"
    using write_sectors_step [of s4 "ucast (a + 2)" "ucast (volume_spc n)"] formattableD [OF keep [OF t4]] u sp spc by auto
  have "disk_malloc_ok s2 = disk_malloc_ok s" using t2 by (simp add: disk_step_def s0_def)
  then have "create_fat32_volume a n s = Some (True, s5)"
    unfolding create_fat32_volume_def
    using s1(1) s2(1) s3(1) s4(1) s5(1) D(7) f
    by (simp add: create_bpb_volume b_def [symmetric] s0_def [symmetric])
       (simp add: b_def volume_geometry)
  moreover have "sec s5 = format_image a n (sec s)"
    unfolding s5(3) e4 s3(3) s2(3) s1(3) F0(2) by (auto simp: fun_eq_iff format_image_def Let_def f b_def)
  ultimately show ?thesis using disk_step_trans [OF t4 s5(2)] by (auto simp: s0_def b_def)
qed

section \<open>A formatted volume\<close>

lemma rd32_zeros: "off + 4 \<le> length d \<Longrightarrow> (\<And>i. i < 4 \<Longrightarrow> d ! (off + i) = 0) \<Longrightarrow> rd32 d off = 0"
proof -
  assume a: "off + 4 \<le> length d" "\<And>i. i < 4 \<Longrightarrow> d ! (off + i) = 0"
  have "bslice off 4 d = replicate 4 0"
    by (rule nth_equalityI) (use a in \<open>auto simp: bslice_def\<close>)
  moreover have "of_le (replicate 4 0) = (0 :: u32)" by code_simp
  ultimately show ?thesis by (simp add: rd32_def)
qed

lemma fresh_fat_entry:
  assumes "2 \<le> unat (c :: u32)"
  shows "rd32 (fresh_fat (4 * unat c div 512)) (4 * unat c mod 512) = (if c = 2 then 0x0FFFFFFF else 0)"
proof (cases "4 * unat c div 512 = 0")
  case True
  then have c: "unat c < 128" by linarith
  show ?thesis
  proof (cases "c = 2")
    case True
    have "rd32 (fresh_fat 0) 8 = 0x0FFFFFFF" unfolding fresh_fat_def by code_simp
    then show ?thesis using True by simp
  next
    case False
    then have "unat c \<noteq> 2" using unat_eqI [of c 2] by auto
    then have "3 \<le> unat c" using assms by linarith
    then have "rd32 fat_head (4 * unat c) = 0"
      using c by (intro rd32_zeros) (auto simp: fat_head_def nth_append)
    then show ?thesis using False True c by (simp add: fresh_fat_def)
  qed
next
  case False
  then have "c \<noteq> 2" by auto
  moreover have "rd32 (replicate 512 0) (4 * unat c mod 512) = 0"
    using entry_offset [of c] by (intro rd32_zeros) auto
  ultimately show ?thesis using False by (simp add: fresh_fat_def)
qed

lemma image_outside:
  assumes "wf_bpb (volume_bpb a n)" "data0 (volume_bpb a n) \<le> j"
  shows "format_image a n old j = old j"
  using assms volume_spc_cases [of n]
  by (auto simp: format_image_def Let_def data0_def volume_geometry)

lemma image_fat:
  assumes "i < 2" "k < fatsz (volume_bpb a n)"
  shows "format_image a n old (fat0 (volume_bpb a n) + k + i * fatsz (volume_bpb a n)) = fresh_fat k"
proof -
  have "i = 0 \<or> i = 1" using assms(1) by linarith
  then show ?thesis using assms(2) volume_spc_cases [of n]
    by (auto simp: format_image_def Let_def volume_geometry)
qed

lemma formatted_volume:
  assumes F: "formattable a n s" and S: "disk_step (s\<lparr>bpb := Some (volume_bpb a n)\<rparr>) s'"
    and I: "sec s' = format_image a n (sec s)"
  defines "b \<equiv> volume_bpb a n"
  shows "vol_ok b s'" "fats_mirrored b s'"
    "in_vol b c \<Longrightarrow> fat_entry b s' c = (if c = 2 then 0x0FFFFFFF else 0)"
    "in_vol b c \<Longrightarrow> cluster_data b s' c = cluster_data b s c"
proof -
  note D = formattableD [OF F]
  show V: "vol_ok b s'" using S D by (auto simp: vol_ok_def disk_step_def b_def)
  have "sec s' (fat0 b + k + i * fatsz b) = fresh_fat k" if "i < 2" "k < fatsz b" for i k
    unfolding I b_def by (rule image_fat) (use that in \<open>auto simp: b_def\<close>)
  note fat = this
  have f0: "sec s' (fat0 b + k) = fresh_fat k" if "k < fatsz b" for k using fat [of 0 k] that by simp
  show "fats_mirrored b s'" unfolding fats_mirrored_def
    using fat f0 by (simp add: b_def volume_geometry)
  show "fat_entry b s' c = (if c = 2 then 0x0FFFFFFF else 0)" if c: "in_vol b c"
  proof -
    have "4 * unat c div 512 < fatsz b"
      using entry_sector [of b c] in_vol_entry [OF c] D(6) by (simp add: b_def)
    then show ?thesis using fresh_fat_entry [of c] c f0 by (simp add: fat_entry_def in_vol_def)
  qed
  show "cluster_data b s' c = cluster_data b s c" if c: "in_vol b c"
  proof -
    have "sec s' (clus_sec b (unat c) + i) = sec s (clus_sec b (unat c) + i)" for i
      unfolding I b_def using D(6) by (rule image_outside) (simp add: clus_sec_def)
    moreover have "cur_disk_no s' = cur_disk_no s" using S by (simp add: disk_step_def)
    ultimately show ?thesis by (simp add: cluster_data_def dev_sectors_def)
  qed
qed

section \<open>Mounting a sound volume\<close>

text \<open>The block the FAT cache needs is available to the placement allocator.\<close>

definition cache_fits :: "u64 \<Rightarrow> BPB \<Rightarrow> phys_mem \<Rightarrow> bool" where
  "cache_fits hhdm b m \<longleftrightarrow> fatsz b * 512 < 2 ^ 32 \<and> phys_mem_head m < USABLE_END_PHYS_MEM m \<and> 0 < unat (phys_mem_head m)
     \<and> unat (phys_mem_head m) + 4096 + fatsz b * 512 \<le> unat (USABLE_END_PHYS_MEM m)
     \<and> unat (USABLE_END_PHYS_MEM m) + unat hhdm < 2 ^ 64"

lemma load_fat_cache_ok:
  assumes V: "vol_ok b s" and C: "cache_fits hhdm b m" and F: "0 < fatsz b"
  shows "\<exists>m'. fat32_load_fat_cache hhdm m s = Some (True, m', s\<lparr>fat_size_bytes := of_nat (fatsz b * 512),
    fat_buffer := Some (dev_sectors (cur_disk_no s) s (fat0 b) (fatsz b))\<rparr>)"
proof -
  note V' = vol_okD [OF V]
  have wf: "wf_bpb b" "bpb s = Some b" using V' by auto
  define sz :: u32 where "sz = BPB_FATSz32 b * 512"
  have sz: "unat sz = fatsz b * 512" "sz = of_nat (fatsz b * 512)"
    using C by (simp_all add: sz_def cache_fits_def unat_times_u32 fatsz_def)
  obtain p m' where k: "kmalloc_a (ucast sz) 1 m = (p, m')" by fastforce
  have p: "unat p = (unat (phys_mem_head m) + 4095) div 4096 * 4096"
    using kmalloc_a_spec [OF k] C unat_u64_lt [of "USABLE_END_PHYS_MEM m"] sz by (simp add: cache_fits_def)
  have p1: "0 < unat p" "unat p \<le> unat (phys_mem_head m) + 4095"
    using p C by (simp_all add: cache_fits_def div_greater_zero_iff)
  then have "p \<noteq> 0" "unat (p + hhdm) = unat p + unat hhdm" "unat p + unat sz \<le> unat (USABLE_END_PHYS_MEM m)"
    using C sz by (auto simp: cache_fits_def unat_plus_u64)
  moreover from this have "p + hhdm \<noteq> 0" using p1 by auto
  moreover have "kebla_disk_read (cur_disk_no s) (ucast (BPB_HiddSec b + ucast (BPB_RsvdSecCnt b) :: u32)) (BPB_FATSz32 b)
      (replicate (unat sz) 0) s = Some (True, dev_sectors (cur_disk_no s) s (fat0 b) (fatsz b))"
  proof -
    have "fat0 b + fatsz b \<le> dev_cap (cur_disk_no s) s"
      using fat_area_bounds [OF V, of 0 "fatsz b - 1"] wf_bpbD(4) [OF wf(1)] F by simp
    moreover have "unat (ucast (BPB_HiddSec b + ucast (BPB_RsvdSecCnt b) :: u32) :: u64) = fat0 b"
      using first_fat_sector [OF wf(1)] by simp
    ultimately show ?thesis
      using kebla_disk_read_ok [OF V'(3), of "BPB_FATSz32 b" "ucast (BPB_HiddSec b + ucast (BPB_RsvdSecCnt b) :: u32)"
          "replicate (unat sz) 0"] F V'(3) sz
      by (simp add: fatsz_def)
  qed
  ultimately show ?thesis
    using k wf sz wf_bpbD(1) [OF wf(1)]
    by (simp add: fat32_load_fat_cache_def get_first_fat_sector_def get_fat_size_in_sectors_def get_bytes_per_sector_def
        sz_def [symmetric])
qed

lemma label_slot_in: "label_slot buf offs = Some off \<Longrightarrow> off \<in> set offs"
  by (induction offs) (auto split: if_splits)

lemma length_label_entry: "11 \<le> length label \<Longrightarrow> length (label_entry label) = 32"
  by (simp add: label_entry_def)

lemma set_volume_label_ok:
  assumes V: "vol_ok b s" and R: "in_vol b (BPB_RootClus b)" and M: "disk_malloc_ok s (csize b)"
    and L: "label_slot (cluster_data b s (BPB_RootClus b)) (entry_offsets (csize b)) = Some off" "11 \<le> length label"
  shows "fat32_set_volume_label label s =
      Some (True, upd_cluster b (BPB_RootClus b) (overwrite (cluster_data b s (BPB_RootClus b)) off (label_entry label)) s)"
    "off + 32 \<le> csize b"
proof -
  note V' = vol_okD [OF V]
  have r: "get_root_dir_cluster s = BPB_RootClus b" using V'(1) by (simp add: get_root_dir_cluster_def)
  have z: "0 < csize b" using wf_bpbD(2) V'(2) by simp
  show off: "off + 32 \<le> csize b" using label_slot_in [OF L(1)] by auto
  have "fat32_read_cluster (BPB_RootClus b) (replicate (csize b) 0) 0 s = Some (True, cluster_data b s (BPB_RootClus b))"
    using read_cluster_ok [OF V R, of 0 "replicate (csize b) 0"] V by simp
  moreover have "fat32_write_cluster (BPB_RootClus b) (overwrite (cluster_data b s (BPB_RootClus b)) off (label_entry label)) s
     = Some (True, upd_cluster b (BPB_RootClus b) (overwrite (cluster_data b s (BPB_RootClus b)) off (label_entry label)) s)"
    using off L(2) V by (intro write_cluster_ok [OF V R]) (simp add: length_label_entry)
  ultimately show "fat32_set_volume_label label s =
      Some (True, upd_cluster b (BPB_RootClus b) (overwrite (cluster_data b s (BPB_RootClus b)) off (label_entry label)) s)"
    using M L z V'(6) r by (simp add: fat32_set_volume_label_def malloc_def Let_def)
qed

text \<open>The driver state after the boot sector is accepted.\<close>

definition boot_state :: "int \<Rightarrow> BPB \<Rightarrow> fat32 \<Rightarrow> fat32" where
  "boot_state no b s = s\<lparr>cur_disk_no := no, fat32_base_lba := BPB_HiddSec b, bpb := Some b, fat32_cwd_cluster := BPB_RootClus b\<rparr>"

lemma boot_state_vars [simp]:
  "cur_disk_no (boot_state no b s) = no" "bpb (boot_state no b s) = Some b"
  "fat32_cwd_cluster (boot_state no b s) = BPB_RootClus b" "disk_malloc_ok (boot_state no b s) = disk_malloc_ok s"
  "dev_ok k (boot_state no b s) = dev_ok k s" "dev_cap k (boot_state no b s) = dev_cap k s"
  "dev_sector k (boot_state no b s) = dev_sector k s" "fat32_free_cluster_no (boot_state no b s) = fat32_free_cluster_no s"
  by (simp_all add: boot_state_def)

definition mountable :: "int \<Rightarrow> BPB \<Rightarrow> bytes \<Rightarrow> fat32 \<Rightarrow> bool" where
  "mountable no b label s \<longleftrightarrow> dev_ok no s \<and> wf_bpb b \<and> bpb_sized b \<and> in_vol b (BPB_RootClus b)
     \<and> unat (BPB_HiddSec b) + unat (BPB_TotSec32 b) \<le> dev_cap no s
     \<and> dev_sector no s (unat (BPB_HiddSec b)) = bpb_bytes b
     \<and> disk_malloc_ok s 512 \<and> disk_malloc_ok s (csize b) \<and> 11 \<le> length label
     \<and> label_slot (cluster_data b (boot_state no b s) (BPB_RootClus b)) (entry_offsets (csize b)) \<noteq> None"

lemma mountable_vol: "mountable no b label s \<Longrightarrow> vol_ok b (boot_state no b s)"
  by (simp add: mountable_def vol_ok_def)

lemma wf_fatsz: "wf_bpb b \<Longrightarrow> 0 < fatsz b"
  using wf_bpbD(5) [of b] by (cases "fatsz b") auto

lemma vol_ok_cache [simp]:
  "vol_ok b (s\<lparr>fat_size_bytes := x, fat_buffer := y\<rparr>) = vol_ok b s"
  "vol_ok b (s\<lparr>fat32_cwd_cluster := c\<rparr>) = vol_ok b s"
  by (auto simp: vol_ok_def)

lemma mount_ok:
  assumes M: "mountable no b label s" and C: "cache_fits hhdm b m"
  shows "\<exists>m' off. let t = boot_state no b s; r = BPB_RootClus b;
      t' = upd_cluster b r (overwrite (cluster_data b t r) off (label_entry label)) t
    in fat32_mount hhdm no (ucast (BPB_HiddSec b)) label m s = Some (True, m', t'\<lparr>fat_size_bytes := of_nat (fatsz b * 512),
         fat_buffer := Some (dev_sectors no t' (fat0 b) (fatsz b))\<rparr>)
     \<and> label_slot (cluster_data b t r) (entry_offsets (csize b)) = Some off \<and> off + 32 \<le> csize b"
proof -
  define t where "t = boot_state no b s"
  define s0 where "s0 = s\<lparr>cur_disk_no := no, fat32_base_lba := BPB_HiddSec b\<rparr>"
  have D: "dev_ok no s" "wf_bpb b" "bpb_sized b" "in_vol b (BPB_RootClus b)" "disk_malloc_ok s 512"
    "disk_malloc_ok s (csize b)" "11 \<le> length label" "dev_sector no s (unat (BPB_HiddSec b)) = bpb_bytes b"
    "unat (BPB_HiddSec b) + unat (BPB_TotSec32 b) \<le> dev_cap no s"
    using M by (auto simp: mountable_def)
  have V: "vol_ok b t" using mountable_vol [OF M] by (simp add: t_def)
  note V' = vol_okD [OF V]
  obtain off where off: "label_slot (cluster_data b t (BPB_RootClus b)) (entry_offsets (csize b)) = Some off"
    using M by (auto simp: mountable_def t_def)
  have Mt: "disk_malloc_ok t (csize b)" using D by (simp add: t_def)
  note L = set_volume_label_ok [OF V D(4) Mt off D(7)]
  define t' where "t' = upd_cluster b (BPB_RootClus b) (overwrite (cluster_data b t (BPB_RootClus b)) off (label_entry label)) t"
  have V2: "vol_ok b t'" unfolding t'_def using V L(2) D(7) by (simp add: length_label_entry)
  have t': "bpb t' = Some b" "fat32_cwd_cluster t' = BPB_RootClus b" "cur_disk_no t' = no"
    by (simp_all add: t'_def t_def)
  have cw: "t'\<lparr>fat32_cwd_cluster := get_root_dir_cluster t'\<rparr> = t'" using t' by (simp add: get_root_dir_cluster_def)
  obtain m' where lc: "fat32_load_fat_cache hhdm m t' = Some (True, m', t'\<lparr>fat_size_bytes := of_nat (fatsz b * 512),
      fat_buffer := Some (dev_sectors no t' (fat0 b) (fatsz b))\<rparr>)"
    using load_fat_cache_ok [OF V2 C wf_fatsz [OF D(2)]] t'(3) by auto
  have tot: "0 < unat (BPB_TotSec32 b)"
  proof -
    have "0 < nfats b * fatsz b" using wf_fatsz [OF D(2)] wf_bpbD(4) [OF D(2)] by simp
    then show ?thesis using D(2) unfolding wf_bpb_def by linarith
  qed
  have rs: "fat32_read_sector (ucast (BPB_HiddSec b)) (replicate 512 0) s0 = Some (True, bpb_bytes b)"
    using fat32_read_sector_ok [of s0 "ucast (BPB_HiddSec b)" "replicate 512 0"] D tot
    by (simp add: s0_def length_bpb_bytes)
  have t: "s0\<lparr>bpb := Some b, fat32_cwd_cluster := BPB_RootClus b\<rparr> = t" by (simp add: s0_def t_def boot_state_def)
  have nz: "BPB_FATSz32 b \<noteq> 0" "BPB_NumFATs b \<noteq> 0" "BPB_SecPerClus b \<noteq> 0" "BPB_TotSec32 b \<noteq> 0"
    using wf_fatsz [OF D(2)] wf_bpbD(2,4) [OF D(2)] tot by (auto simp: fatsz_def nfats_def spc_def)
  have e: "(set_disk_no no s)\<lparr>fat32_base_lba := ucast (ucast (BPB_HiddSec b) :: u64)\<rparr> = s0"
    by (simp add: s0_def set_disk_no_def ucast_u32_u64)
  have m0: "malloc 512 s0 = Some (replicate 512 0)" using D(5) by (simp add: malloc_def s0_def)
  have "fat32_mount hhdm no (ucast (BPB_HiddSec b)) label m s = fat32_load_fat_cache hhdm m t'"
    using L(1) nz wf_bpbD(1) [OF D(2)] V'(1) cw
    unfolding fat32_mount_def e
    by (simp add: m0 rs bpb_roundtrip [OF D(3)] get_root_dir_cluster_def Let_def t get_bytes_per_sector_def
        get_fat_size_in_sectors_def get_total_no_fat_def get_sectors_per_cluster_def get_total_sectors_def t'_def [symmetric])
  then show ?thesis using lc off L(2) by (auto simp: t_def t'_def Let_def)
qed

section \<open>The geometry of a new volume\<close>

text \<open>The clusters \<open>create_bpb_fat32\<close> counts (the second value of \<open>total_clusters\<close>) and the sectors of a table in natural numbers: the sums and products of \<open>create_bpb_fat32\<close> do not wrap.\<close>

definition bpb_clusters :: "nat \<Rightarrow> nat \<Rightarrow> nat" where
  "bpb_clusters n k = (n - 32 - 2 * (((n - 32) div k * 4 + 511) div 512)) div k"

definition fat_size_nat :: "nat \<Rightarrow> nat \<Rightarrow> nat" where
  "fat_size_nat n k = (bpb_clusters n k * 4 + 511) div 512"

lemma volume_spc_bound: "unat n div unat (volume_spc n) * 4 < 2 ^ 31"
  using unat_u32_lt [of n] by (auto simp: volume_spc_def word_less_nat_alt)

lemma fat_size_first:
  assumes "100 \<le> n" "0 < (k :: nat)"
  shows "48 + 2 * (((n - 32) div k * 4 + 511) div 512) \<le> n"
proof -
  have "(n - 32) div k \<le> n - 32" by (rule div_le_dividend)
  then have "((n - 32) div k * 4 + 511) div 512 \<le> ((n - 32) * 4 + 511) div 512" by (intro div_le_mono) simp
  then show ?thesis using assms(1) by linarith
qed

lemma unat_fat_size:
  assumes "100 \<le> unat n"
  shows "unat (bpb_fat_size n (volume_spc n)) = fat_size_nat (unat n) (unat (volume_spc n))"
proof -
  let ?k = "unat (volume_spc n)" and ?N = "unat n"
  let ?F = "((?N - 32) div ?k * 4 + 511) div 512"
  have k: "0 < ?k" "unat (ucast (volume_spc n) :: u32) = ?k" using volume_spc_cases [of n] by (auto simp: unat_ucast_up)
  have m: "unat ((n - 32) div ucast (volume_spc n) :: u32) = (?N - 32) div ?k"
    using assms k(2) by (simp add: unat_div unat_minus_u32)
  have b: "x div ?k * 4 < 2 ^ 31" if "x \<le> ?N" for x
    using volume_spc_bound [of n] div_le_mono [OF that, of ?k] by linarith
  have fsz: "unat ((x * 4 + (SECTOR_SIZE - 1)) div SECTOR_SIZE :: u32) = (unat x * 4 + 511) div 512"
    if "unat x * 4 < 2 ^ 31" for x :: u32
    using that by (simp add: SECTOR_SIZE_def unat_div unat_plus_u32 unat_times_u32)
  define f1 where "f1 = ((n - 32) div ucast (volume_spc n) * 4 + (SECTOR_SIZE - 1)) div SECTOR_SIZE"
  have f1: "unat f1 = ?F" unfolding f1_def using fsz [of "(n - 32) div ucast (volume_spc n)"] m b [of "?N - 32"] by simp
  have le: "32 + 2 * ?F \<le> ?N" using fat_size_first [OF assms k(1)] by linarith
  have "unat (n - 32 - 2 * f1) = ?N - 32 - 2 * ?F"
    using le f1 unat_u32_lt [of n] assms by (simp add: unat_minus_u32 unat_times_u32)
  then have "unat ((n - 32 - 2 * f1) div ucast (volume_spc n)) = (?N - 32 - 2 * ?F) div ?k"
    using k(2) by (simp add: unat_div)
  moreover have "(?N - 32 - 2 * ?F) div ?k * 4 < 2 ^ 31" by (rule b) simp
  ultimately have "unat (((n - 32 - 2 * f1) div ucast (volume_spc n) * 4 + (SECTOR_SIZE - 1)) div SECTOR_SIZE)
      = ((?N - 32 - 2 * ?F) div ?k * 4 + 511) div 512"
    using fsz [of "(n - 32 - 2 * f1) div ucast (volume_spc n)"] by (simp only:)
  then show ?thesis by (simp only: bpb_fat_size_def Let_def f1_def fat_size_nat_def bpb_clusters_def)
qed

text \<open>
  The boot sector \<open>create_fat32_volume\<close> writes is well formed exactly when its tables have room for all
  entries, which the computation of their size does not ensure.
\<close>

lemma fatsz_bound:
  assumes n: "100 \<le> unat n"
  shows "48 + 2 * fatsz (volume_bpb a n) \<le> unat n"
proof -
  let ?k = "unat (volume_spc n)"
  have "fat_size_nat (unat n) ?k \<le> ((unat n - 32) div ?k * 4 + 511) div 512"
    unfolding fat_size_nat_def bpb_clusters_def by (intro div_le_mono add_le_mono mult_le_mono le_refl) simp
  moreover have "0 < ?k" using volume_spc_cases [of n] by auto
  ultimately show ?thesis
    using fat_size_first [OF n, of ?k] by (simp add: volume_geometry unat_fat_size [OF n])
qed

text \<open>
  The clusters are counted with the table size of the first estimate, but the final tables are smaller, so the volume has
  more clusters than were counted. Up to 128 GiB it has at most 19 more.
\<close>

lemma div_le_add:
  assumes "x \<le> y + k * (d :: nat)" "0 < k"
  shows "x div k \<le> y div k + d"
proof -
  have "x div k \<le> (y + k * d) div k" using assms(1) by (rule div_le_mono)
  then show ?thesis using assms(2) by simp
qed

lemma clusters_above_count:
  assumes k: "0 < (k :: nat)" and F: "((n - 32) div k * 4 + 511) div 512 < 576 * (k * k)"
  shows "(n - 32 - 2 * fat_size_nat n k) div k \<le> bpb_clusters n k + 19"
proof -
  define c1 f1 c2 f2 where d: "c1 = (n - 32) div k" "f1 = (c1 * 4 + 511) div 512" "c2 = bpb_clusters n k" "f2 = fat_size_nat n k"
  have c2: "c2 = (n - 32 - 2 * f1) div k" and f2: "f2 = (c2 * 4 + 511) div 512"
    by (simp_all add: d bpb_clusters_def fat_size_nat_def)
  have F: "f1 < 576 * (k * k)" using F by (simp add: d)
  have "2 * f1 \<le> k * (1152 * k)" using F by (simp add: mult.assoc mult.left_commute)
  then have "n - 32 \<le> (n - 32 - 2 * f1) + k * (1152 * k)" by linarith
  then have c: "c1 \<le> c2 + 1152 * k" unfolding d(1) c2 using k by (rule div_le_add)
  then have "c1 * 4 + 511 \<le> (c2 * 4 + 511) + 512 * (9 * k)" by simp
  then have f: "f1 \<le> f2 + 9 * k" unfolding d(2) f2 by (rule div_le_add) simp
  then have "n - 32 - 2 * f2 \<le> (n - 32 - 2 * f1) + k * 18" by simp
  then have "(n - 32 - 2 * f2) div k \<le> c2 + 18" unfolding c2 using k by (rule div_le_add)
  then show ?thesis by (simp add: d(3,4))
qed

lemma counted_table_has_room:
  assumes n: "100 \<le> unat n" "unat n \<le> 2 ^ 28" and r: "bpb_clusters (unat n) (unat (volume_spc n)) mod 128 \<in> {1..107}"
  shows "nclus (volume_bpb a n) + 2 \<le> 128 * fatsz (volume_bpb a n)"
proof -
  let ?k = "unat (volume_spc n)" and ?c = "bpb_clusters (unat n) (unat (volume_spc n))"
  have "((unat n - 32) div ?k * 4 + 511) div 512 < 576 * (?k * ?k)"
    using n by (auto simp: volume_spc_def word_less_nat_alt div_less_iff_less_mult)
  moreover have "0 < ?k" using volume_spc_cases [of n] by auto
  ultimately have "(unat n - 32 - 2 * fat_size_nat (unat n) ?k) div ?k \<le> ?c + 19" by (rule clusters_above_count [rotated])
  then have "nclus (volume_bpb a n) \<le> ?c + 19" by (simp add: nclus_def volume_geometry unat_fat_size [OF n(1)])
  moreover have "fatsz (volume_bpb a n) = (?c * 4 + 511) div 512"
    by (simp add: volume_geometry unat_fat_size [OF n(1)] fat_size_nat_def)
  moreover have "?c + 21 \<le> 128 * ((?c * 4 + 511) div 512)"
  proof -
    have "?c = 128 * (?c div 128) + ?c mod 128" by simp
    then obtain q m where c: "?c = 128 * q + m" "1 \<le> m" "m \<le> 107" using r by (metis atLeastAtMost_iff)
    then have "(?c * 4 + 511) div 512 = q + 1" by simp
    then show ?thesis using c by simp
  qed
  ultimately show ?thesis by linarith
qed

lemma root_in_vol:
  assumes n: "100 \<le> unat n"
  shows "in_vol (volume_bpb a n) 2"
proof -
  have "unat (volume_spc n) \<le> unat n - 32 - 2 * fatsz (volume_bpb a n)"
    using fatsz_bound [OF n, of a] volume_spc_cases [of n] by auto
  then have "0 < nclus (volume_bpb a n)"
    using volume_spc_cases [of n] by (auto simp: nclus_def volume_geometry div_greater_zero_iff)
  then show ?thesis by (simp add: in_vol_def)
qed

lemma volume_bpb_wf:
  assumes n: "100 \<le> unat n" and a: "unat a + unat n < 2 ^ 32"
    and f: "nclus (volume_bpb a n) + 2 \<le> 128 * fatsz (volume_bpb a n)"
  shows "wf_bpb (volume_bpb a n)"
proof -
  let ?k = "unat (volume_spc n)" and ?N = "unat n" and ?b = "volume_bpb a n"
  have k: "0 < ?k" "?k \<le> 16" using volume_spc_cases [of n] by auto
  have le: "32 + 2 * fatsz ?b \<le> ?N" using fatsz_bound [OF n, of a] by linarith
  have "nclus ?b + 2 \<le> 0x0FFFFFF0"
  proof (cases "fatsz ?b < 200")
    case True
    then show ?thesis using f by linarith
  next
    case False
    have c: "nclus ?b = (?N - 32 - 2 * fatsz ?b) div ?k" by (simp add: nclus_def volume_geometry)
    show ?thesis
    proof (cases "?k = 16")
      case True
      have "?N - 32 - 2 * fatsz ?b \<le> 4294966863" using False unat_u32_lt [of n] by simp
      then have "nclus ?b \<le> 4294966863 div 16" unfolding c True by (rule div_le_mono)
      then show ?thesis by simp
    next
      case False
      then have "?N < 524288" by (auto simp: volume_spc_def word_less_nat_alt split: if_splits)
      moreover have "nclus ?b \<le> ?N" unfolding c by (meson diff_le_self div_le_dividend le_trans)
      ultimately show ?thesis by linarith
    qed
  qed
  then show ?thesis
    using a f k le by (simp add: wf_bpb_def volume_geometry unat_plus_u32)
qed

section \<open>An empty root directory with a label\<close>

lemma label_entry_first: "11 \<le> length label \<Longrightarrow> rd8 (label_entry label) 0 \<noteq> 0"
proof -
  assume a: "11 \<le> length label"
  then obtain c cs where l: "label = c # cs" by (cases label) auto
  have "toupper_b c \<noteq> 0" if "c \<noteq> 0"
  proof (cases "97 \<le> c \<and> c \<le> 122")
    case True
    then have "c \<noteq> 32" by auto
    then show ?thesis using True by (simp add: toupper_b_def)
  qed (use that in \<open>auto simp: toupper_b_def\<close>)
  then show ?thesis by (simp add: l label_entry_def rd8_def)
qed

lemma labelled_root:
  assumes "11 \<le> length label" "0 < spc b"
  defines "buf \<equiv> overwrite (replicate (csize b) 0) 0 (label_entry label)"
  shows "slot buf 0 = label_entry label" "zero_tail (nslots b) buf"
    "label_slot (replicate (csize b) 0) (entry_offsets (csize b)) = Some 0"
proof -
  have l: "length (label_entry label) = 32" using assms(1) by (rule length_label_entry)
  have c: "32 \<le> csize b" using assms(2) by simp
  show s0: "slot buf 0 = label_entry label" using l by (simp add: slot_def buf_def overwrite_def bslice_def)
  have sk: "rd8 (slot buf k) 0 = 0" if "0 < k" "k < nslots b" for k
  proof -
    have "32 * k < length buf" using that l c by (simp add: buf_def)
    then show ?thesis using that l c by (simp add: slot_first buf_def nth_overwrite)
  qed
  show "zero_tail (nslots b) buf" unfolding zero_tail_def
  proof (intro allI impI)
    fix i k assume a: "i < nslots b" "k < nslots b" "i \<le> k \<and> rd8 (slot buf i) 0 = 0"
    then have "i \<noteq> 0" using s0 label_entry_first [OF assms(1)] by metis
    then show "rd8 (slot buf k) 0 = 0" using a sk by simp
  qed
  have "slots 0 (nslots b) = 0 # slots 1 (nslots b)" using assms(2) by (simp add: upt_conv_Cons)
  then show "label_slot (replicate (csize b) 0) (entry_offsets (csize b)) = Some 0"
    using c by (simp add: rd8_def)
qed

lemma concat_replicate_upt: "concat (map (\<lambda>_. replicate k x) [0..<n]) = replicate (k * n) x"
  by (induction n) (simp_all add: replicate_add [symmetric] add.commute)

lemma zero_cluster_data:
  assumes "\<And>i. i < spc b \<Longrightarrow> sec s (clus_sec b (unat c) + i) = replicate 512 0"
  shows "cluster_data b s c = replicate (csize b) 0"
proof -
  have "map (\<lambda>i. sec s (clus_sec b (unat c) + i)) [0..<spc b] = map (\<lambda>_. replicate 512 0) [0..<spc b]"
    using assms by (intro map_cong) auto
  then show ?thesis by (simp only: cluster_data_def dev_sectors_def concat_replicate_upt)
qed

text \<open>The cache variables do not matter to what is on the volume.\<close>

lemma cache_vars:
  fixes s :: fat32 and x :: u32 and y :: "bytes option"
  defines "s' \<equiv> s\<lparr>fat_size_bytes := x, fat_buffer := y\<rparr>"
  shows "cluster_data b s' c = cluster_data b s c" "fat_entry b s' c = fat_entry b s c"
    "fats_mirrored b s' = fats_mirrored b s" "vol_ok b s' = vol_ok b s" "chain b s' cs = chain b s cs"
    "dev_sectors no s' i k = dev_sectors no s i k"
  by (simp_all add: s'_def cluster_data_def fat_entry_def fats_mirrored_def dev_sectors_def)
     (intro chain_cong, simp add: fat_entry_def)

section \<open>Properties\<close>

text \<open>
  C1. Formatting and mounting: on a working disk whose future root cluster is zero (a cleared disk), for a volume of 100
  sectors to 128 GiB for which the number of clusters \<open>create_bpb_fat32\<close> counts has a remainder from 1 to 107 by
  128, \<open>create_fat32_volume\<close> and then \<open>fat32_mount\<close>
  succeed and establish what every file operation relies on: the boot sector read back describes the volume,
  each of the two equal tables has an entry for every cluster, the root directory is a sound one-cluster directory
  holding just the volume label, every other cluster is free, the root is the current directory and the cache holds
  the table. For other remainders the tables can be too short (\<open>volume_fat_too_small\<close> below: 8 GiB). The disk takes the sectors of the
  volume, memory suffices for the buffers and the cache, and the label has its 11 bytes.
\<close>

theorem format_then_mount:
  assumes ok: "dev_ok no s" "cur_disk_no s = no" and n: "100 \<le> unat sectors"
    and fit: "unat start_lba + unat sectors \<le> dev_cap no s" "unat start_lba + unat sectors < 2 ^ 32"
    and size: "unat sectors \<le> 2 ^ 28" "bpb_clusters (unat sectors) (unat (volume_spc sectors)) mod 128 \<in> {1..107}"
    and mem: "disk_malloc_ok s 512" "disk_malloc_ok s 32768" "disk_malloc_ok s (csize (volume_bpb start_lba sectors))"
    and zero: "\<forall>i < spc (volume_bpb start_lba sectors). sec s (data0 (volume_bpb start_lba sectors) + i) = replicate 512 0"
    and label: "11 \<le> length label" and cache: "cache_fits hhdm (volume_bpb start_lba sectors) m"
  shows "\<exists>s1 m' s2. create_fat32_volume start_lba sectors s = Some (True, s1)
     \<and> fat32_mount hhdm no (ucast start_lba) label m s1 = Some (True, m', s2)
     \<and> (let b = volume_bpb start_lba sectors in
          bpb s2 = Some b \<and> dir_wf b s2 [2] \<and> fats_mirrored b s2 \<and> fat32_cwd_cluster s2 = 2
        \<and> slot (cluster_data b s2 2) 0 = label_entry label
        \<and> (\<forall>c. in_vol b c \<and> c \<noteq> 2 \<longrightarrow> fat_entry b s2 c = 0)
        \<and> fat_buffer s2 = Some (dev_sectors no s2 (fat0 b) (fatsz b)))"
proof -
  define b where "b = volume_bpb start_lba sectors"
  have wf: "wf_bpb b" unfolding b_def using n fit(2) counted_table_has_room [OF n size] by (rule volume_bpb_wf)
  have F: "formattable start_lba sectors s" using ok fit mem wf by (simp add: formattable_def b_def)
  have r: "in_vol b 2" unfolding b_def by (rule root_in_vol [OF n])
  have k: "0 < spc b" using wf by (simp add: wf_bpb_def)
  obtain s1 where s1: "create_fat32_volume start_lba sectors s = Some (True, s1)"
    and st: "disk_step (s\<lparr>bpb := Some b\<rparr>) s1" and im: "sec s1 = format_image start_lba sectors (sec s)"
    using format_ok [OF F] by (auto simp: b_def)
  note fv = formatted_volume [OF F st [unfolded b_def] im, folded b_def]
  have d1: "dev_ok no s1" "cur_disk_no s1 = no" "dev_cap no s1 = dev_cap no s" "disk_malloc_ok s1 = disk_malloc_ok s"
    "dev_sector no s1 = sec s1" using st ok by (auto simp: disk_step_def)
  define t where "t = boot_state no b s1"
  have same: "cluster_data b t c = cluster_data b s1 c" "fat_entry b t c = fat_entry b s1 c" for c
    using d1 by (simp_all add: t_def cluster_data_def dev_sectors_def fat_entry_def)
  have z: "cluster_data b t 2 = replicate (csize b) 0"
  proof -
    have "cluster_data b s 2 = replicate (csize b) 0"
      using zero by (intro zero_cluster_data) (simp add: b_def clus_sec_def)
    then show ?thesis using same fv(4) [OF r] by simp
  qed
  note lr = labelled_root [OF label k]
  have im0: "dev_sector no s1 (unat start_lba) = bpb_bytes b"
    unfolding d1(5) im by (simp add: format_image_def Let_def volume_geometry b_def)
  have Mt: "mountable no b label s1"
    using d1 wf r fit mem label z lr(3) im0 volume_bpb_sized by (simp add: mountable_def t_def [symmetric] b_def [symmetric])
       (simp add: b_def)
  obtain m' off where mo: "fat32_mount hhdm no (ucast start_lba) label m s1 = Some (True, m',
      (upd_cluster b 2 (overwrite (cluster_data b t 2) off (label_entry label)) t)\<lparr>fat_size_bytes := of_nat (fatsz b * 512),
       fat_buffer := Some (dev_sectors no (upd_cluster b 2 (overwrite (cluster_data b t 2) off (label_entry label)) t)
         (fat0 b) (fatsz b))\<rparr>)"
    and off: "label_slot (cluster_data b t 2) (entry_offsets (csize b)) = Some off"
    using mount_ok [OF Mt cache [folded b_def]] by (auto simp: Let_def t_def b_def)
  have "off = 0" using off lr(3) z by simp
  define buf where "buf = overwrite (replicate (csize b) 0) 0 (label_entry label)"
  define t' where "t' = upd_cluster b 2 buf t"
  define s2 where "s2 = t'\<lparr>fat_size_bytes := of_nat (fatsz b * 512), fat_buffer := Some (dev_sectors no t' (fat0 b) (fatsz b))\<rparr>"
  have Vt: "vol_ok b t" using mountable_vol [OF Mt] by (simp add: t_def)
  have lb: "length buf = csize b" using label k by (simp add: buf_def length_label_entry)
  have V': "vol_ok b t'" using Vt lb by (simp add: t'_def)
  note obs = cache_vars [where s = t' and x = "of_nat (fatsz b * 512)" and y = "Some (dev_sectors no t' (fat0 b) (fatsz b))",
      folded s2_def]
  have dat: "cluster_data b t' 2 = buf"
    using cluster_data_upd_cluster [OF Vt r r, of buf] lb by (simp add: t'_def)
  have ent: "fat_entry b t' c = (if c = 2 then 0x0FFFFFFF else 0)" if "in_vol b c" for c
    using fat_entry_upd_cluster [OF Vt in_vol_entry [OF that]] same(2) fv(3) [OF that] by (simp add: t'_def)
  have mir: "fats_mirrored b t'"
  proof -
    have "fats_mirrored b t" using fv(2) d1(2) by (simp add: t_def fats_mirrored_def)
    then show ?thesis unfolding t'_def by (rule mirrored_upd_cluster [OF Vt])
  qed
  have "chain b t' [2]" using r ent [OF r] by simp
  then have "dir_wf b s2 [2]"
    using obs V' dat lr(2) by (simp add: dir_wf_def buf_def)
  moreover have "bpb s2 = Some b" "fat32_cwd_cluster s2 = 2"
    by (simp_all add: s2_def t'_def t_def) (simp add: b_def)
  moreover have "fat_buffer s2 = Some (dev_sectors no s2 (fat0 b) (fatsz b))" unfolding obs by (simp add: s2_def)
  moreover have "fat32_mount hhdm no (ucast start_lba) label m s1 = Some (True, m', s2)"
    using mo \<open>off = 0\<close> z by (simp add: s2_def t'_def buf_def)
  ultimately show ?thesis
    using s1 obs mir dat ent lr(1) by (simp add: Let_def b_def [symmetric] buf_def [symmetric])
qed

text \<open>The small machine with a 200-sector volume at sector 50 and memory for the table.\<close>

definition sample_disk_state :: fat32 where
  "sample_disk_state = dev_put 0 86 1 (replicate 512 0) (sample_fs\<lparr>bpb := None\<rparr>)"

definition sample_memory :: phys_mem where
  "sample_memory = phys_mem_boot\<lparr>phys_mem_head := 0x100000, USABLE_START_PHYS_MEM := 0x100000,
     USABLE_END_PHYS_MEM := 0x8000000, USABLE_LENGTH_PHYS_MEM := 0x7F00000\<rparr>"

lemma sample_volume [simp]:
  "bpb_fat_size 200 1 = 2" "volume_spc 200 = 1"
  by code_simp+

lemma sample_disk_state_facts:
  "cur_disk_no sample_disk_state = 0" "dev_ok 0 sample_disk_state" "dev_cap 0 sample_disk_state = 300"
  "disk_malloc_ok sample_disk_state k" "dev_sector 0 sample_disk_state 86 = replicate 512 0"
proof -
  have v: "dev_ok 0 sample_fs" "dev_cap 0 sample_fs = 300"
    using sample_vol_ok unfolding vol_ok_def dev_cap_def sample_fs_total by auto
  show "cur_disk_no sample_disk_state = 0" "dev_ok 0 sample_disk_state" "dev_cap 0 sample_disk_state = 300"
    "disk_malloc_ok sample_disk_state k" "dev_sector 0 sample_disk_state 86 = replicate 512 0"
    using v by (simp_all add: sample_disk_state_def dev_ok_put dev_sector_put bslice_def)
qed

lemma sample_new_geometry:
  "nclus (volume_bpb 50 200) = 164" "fatsz (volume_bpb 50 200) = 2" "spc (volume_bpb 50 200) = 1"
  "data0 (volume_bpb 50 200) = 86" "fat0 (volume_bpb 50 200) = 82"
  by (simp_all add: nclus_def data0_def volume_geometry)

lemma sample_clusters: "bpb_clusters 200 (Suc 0) mod 128 = 36"
  by (simp add: bpb_clusters_def)

lemma sample_cache: "cache_fits 0xFFFF800000000000 (volume_bpb 50 200) sample_memory"
  by (simp add: cache_fits_def sample_new_geometry sample_memory_def phys_mem_boot_def)

theorem format_then_mount_witness:
  "\<exists>s1 m' s2. create_fat32_volume 50 200 sample_disk_state = Some (True, s1)
     \<and> fat32_mount 0xFFFF800000000000 0 50 (str_bytes ''DATA VOLUME'') sample_memory s1 = Some (True, m', s2)
     \<and> dir_wf (volume_bpb 50 200) s2 [2] \<and> fat_entry (volume_bpb 50 200) s2 100 = 0"
proof -
  have "in_vol (volume_bpb 50 200) 100" by (simp add: in_vol_def sample_new_geometry)
  then show ?thesis
    using format_then_mount [of 0 sample_disk_state 200 50 "str_bytes ''DATA VOLUME''" "0xFFFF800000000000" sample_memory]
      sample_disk_state_facts sample_cache
    by (auto simp: sample_new_geometry sample_clusters str_bytes_def Let_def)
qed

text \<open>
  C39. What formatting leaves out: \<open>create_fat32_volume\<close> clears the sectors \<open>start_lba + 2\<close> and following
  instead of those of cluster 2. The root directory of the new volume keeps whatever was stored in its
  cluster before, and from 524288 sectors on, where clusters have 16 sectors, the backup boot sector that was
  just written is erased.
\<close>

theorem format_misses_root_directory:
  assumes F: "formattable start_lba sectors s" and n: "100 \<le> unat sectors"
  shows "\<exists>s'. create_fat32_volume start_lba sectors s = Some (True, s')
     \<and> cluster_data (volume_bpb start_lba sectors) s' 2 = cluster_data (volume_bpb start_lba sectors) s 2
     \<and> sec s' (unat start_lba + 6) =
         (if 524288 \<le> sectors then replicate 512 0 else bpb_bytes (volume_bpb start_lba sectors))"
proof -
  obtain s' where s': "create_fat32_volume start_lba sectors s = Some (True, s')"
    "disk_step (s\<lparr>bpb := Some (volume_bpb start_lba sectors)\<rparr>) s'" "sec s' = format_image start_lba sectors (sec s)"
    using format_ok [OF F] by auto
  have sp: "unat (volume_spc sectors) = (if 524288 \<le> sectors then 16 else unat (volume_spc sectors))"
    "\<not> 524288 \<le> sectors \<Longrightarrow> unat (volume_spc sectors) \<le> 4"
    by (auto simp: volume_spc_def word_less_nat_alt word_le_nat_alt)
  have "sec s' (unat start_lba + 6) =
      (if 524288 \<le> sectors then replicate 512 0 else bpb_bytes (volume_bpb start_lba sectors))"
    unfolding s'(3) using sp by (auto simp: format_image_def Let_def volume_geometry)
  then show ?thesis
    using s' formatted_volume(4) [OF F s'(2,3) root_in_vol [OF n]] by blast
qed

theorem format_misses_root_directory_witness:
  "\<exists>s'. create_fat32_volume 50 200 (sample_fs\<lparr>bpb := None\<rparr>) = Some (True, s')
     \<and> cluster_data (volume_bpb 50 200) s' 2 = replicate 512 86"
proof -
  have v: "dev_ok 0 sample_fs" "dev_cap 0 sample_fs = 300"
    using sample_vol_ok unfolding vol_ok_def dev_cap_def sample_fs_total by auto
  have "wf_bpb (volume_bpb 50 200)" by (rule volume_bpb_wf) (simp_all add: sample_new_geometry)
  then have "formattable 50 200 (sample_fs\<lparr>bpb := None\<rparr>)" using v by (simp add: formattable_def)
  moreover have "cluster_data (volume_bpb 50 200) (sample_fs\<lparr>bpb := None\<rparr>) 2 = replicate 512 86"
    by (simp add: cluster_data_def dev_sectors_def clus_sec_def sample_new_geometry sample_sec)
  ultimately show ?thesis using format_misses_root_directory [of 50 200 "sample_fs\<lparr>bpb := None\<rparr>"] by auto
qed

text \<open>
  Volumes whose tables are too short. With \<open>2 ^ 24\<close> sectors (8 GiB) the entry of the last cluster is not in the table: for
  the first table it is the first entry of the second one. With \<open>2 ^ 31\<close> sectors the tables lack
  128 entries.
\<close>

lemma volume_fat_too_small:
  "nclus (volume_bpb 0 0x1000000) + 2 = 128 * fatsz (volume_bpb 0 0x1000000) + 1"
  "nclus (volume_bpb 0 0x80000000) + 2 = 128 * fatsz (volume_bpb 0 0x80000000) + 128"
proof -
  have "bpb_fat_size 0x1000000 (volume_spc 0x1000000) = 8184" "volume_spc 0x1000000 = 16" by code_simp+
  then show "nclus (volume_bpb 0 0x1000000) + 2 = 128 * fatsz (volume_bpb 0 0x1000000) + 1"
    by (simp add: nclus_def volume_geometry)
  have "bpb_fat_size 0x80000000 (volume_spc 0x80000000) = 1047552" "volume_spc 0x80000000 = 16" by code_simp+
  then show "nclus (volume_bpb 0 0x80000000) + 2 = 128 * fatsz (volume_bpb 0 0x80000000) + 128"
    by (simp add: nclus_def volume_geometry)
qed

end
