(* ===== verification/Gpt.thy ===== *)
theory Gpt
  imports FatMount
begin

text \<open>
  Partition tables (kernel/src/fs/fat32_fs/src/partition): the protective MBR (mbr.c), the CRC and the two
  GPT headers (gpt.c), GUIDs (guid.c) and the partition manager (partition_manager.c) on the disk of the
  FAT32 driver.

  A packed structure is a record with its byte image; an array of 128 entries is its 16384 bytes. A
  \<open>guid_t\<close> is a list of 16 bytes, a C string the bytes from its pointer on. Two effects of the code lie outside its
  variables: the backup header is written as a whole sector from a 92-byte variable, so the sector
  receives the 420 bytes of the stack that follow it (the argument \<open>tail\<close>), and \<open>clock()\<close> is an argument of the
  GUID generator.
\<close>

section \<open>The protective MBR\<close>

record mbr_part =
  mp_status :: u8
  mp_chs_start :: bytes
  mp_type :: u8
  mp_chs_end :: bytes
  mp_lba_start :: u32
  mp_sector_count :: u32

record ProtectiveMBR =
  mbr_boot_code :: bytes
  mbr_disk_signature :: u32
  mbr_reserved :: u16
  mbr_partition :: "mbr_part list"
  mbr_signature :: u16

definition mbr_part_bytes :: "mbr_part \<Rightarrow> bytes" where
  "mbr_part_bytes p = concat [[mp_status p], mp_chs_start p, [mp_type p], mp_chs_end p,
     le32 (mp_lba_start p), le32 (mp_sector_count p)]"

definition mbr_bytes :: "ProtectiveMBR \<Rightarrow> bytes" where
  "mbr_bytes m = concat [mbr_boot_code m, le32 (mbr_disk_signature m), le16 (mbr_reserved m),
     concat (map mbr_part_bytes (mbr_partition m)), le16 (mbr_signature m)]"

definition zero_mbr_part :: mbr_part where
  "zero_mbr_part = \<lparr>mp_status = 0, mp_chs_start = replicate 3 0, mp_type = 0, mp_chs_end = replicate 3 0,
     mp_lba_start = 0, mp_sector_count = 0\<rparr>"

definition create_protective_mbr :: "u64 \<Rightarrow> ProtectiveMBR" where
  "create_protective_mbr tot =
     (let mbr_sectors = (if tot > 0xFFFFFFFF then 0xFFFFFFFF else ucast (tot - 1) :: u32)
      in \<lparr>mbr_boot_code = replicate 440 0, mbr_disk_signature = 0, mbr_reserved = 0,
        mbr_partition = [zero_mbr_part\<lparr>mp_type := 0xEE, mp_lba_start := 1, mp_sector_count := mbr_sectors\<rparr>,
          zero_mbr_part, zero_mbr_part, zero_mbr_part],
        mbr_signature = 0xAA55\<rparr>)"

section \<open>The checksum\<close>

definition crc_bit :: "u32 \<Rightarrow> u32" where
  "crc_bit crc = drop_bit 1 crc XOR (0xEDB88320 AND - (crc AND 1))"

definition crc_byte :: "u32 \<Rightarrow> u8 \<Rightarrow> u32" where
  "crc_byte crc b = (crc_bit ^^ 8) (crc XOR ucast b)"

definition crc32 :: "bytes \<Rightarrow> u32" where
  "crc32 data = NOT (foldl crc_byte 0xFFFFFFFF data)"

section \<open>Partition entries and headers\<close>

record GPTPartitionEntry =
  type_guid :: bytes
  unique_guid :: bytes
  start_lba :: u64
  end_lba :: u64
  attributes :: u64
  entry_name :: bytes

definition gpt_entry_bytes :: "GPTPartitionEntry \<Rightarrow> bytes" where
  "gpt_entry_bytes e = concat [type_guid e, unique_guid e, le64 (start_lba e), le64 (end_lba e),
     le64 (attributes e), entry_name e]"

definition gpt_entry_of :: "bytes \<Rightarrow> GPTPartitionEntry" where
  "gpt_entry_of d = \<lparr>type_guid = bslice 0 16 d, unique_guid = bslice 16 16 d, start_lba = rd64 d 32,
     end_lba = rd64 d 40, attributes = rd64 d 48, entry_name = bslice 56 72 d\<rparr>"

record GPTHeader =
  signature :: bytes
  revision :: u32
  header_size :: u32
  header_crc32 :: u32
  hdr_reserved :: u32
  current_lba :: u64
  backup_lba :: u64
  first_usable_lba :: u64
  last_usable_lba :: u64
  disk_guid :: bytes
  entries_lba :: u64
  entries_count :: u32
  entry_size :: u32
  entries_crc32 :: u32

definition gpt_header_bytes :: "GPTHeader \<Rightarrow> bytes" where
  "gpt_header_bytes h = concat [signature h, le32 (revision h), le32 (header_size h), le32 (header_crc32 h),
     le32 (hdr_reserved h), le64 (current_lba h), le64 (backup_lba h), le64 (first_usable_lba h),
     le64 (last_usable_lba h), disk_guid h, le64 (entries_lba h), le32 (entries_count h),
     le32 (entry_size h), le32 (entries_crc32 h)]"

text \<open>
  The loop that stores an ASCII name in the low bytes of the UTF-16 name field: at most 36 characters, up to the
  terminator. A string that ends in neither way is read past its end.
\<close>

fun name_loop :: "nat \<Rightarrow> nat \<Rightarrow> bytes \<Rightarrow> bytes \<Rightarrow> bytes option" where
  "name_loop 0 i src dst = Some dst"
| "name_loop (Suc n) i src dst =
     (if length src \<le> i then None
      else if src ! i = 0 then Some dst
      else name_loop n (i + 1) src (dst[i * 2 := src ! i]))"

definition create_gpt_partition_entry ::
  "bytes \<Rightarrow> bytes \<Rightarrow> u64 \<Rightarrow> u64 \<Rightarrow> u64 \<Rightarrow> bytes \<Rightarrow> fat32 \<Rightarrow> GPTPartitionEntry option option" where
  "create_gpt_partition_entry tguid uguid start fin attrs name s =
     (case malloc 128 s of None \<Rightarrow> Some None
      | Some _ \<Rightarrow> do {
          nm \<leftarrow> name_loop 36 0 name (replicate 72 0);
          Some (Some \<lparr>type_guid = tguid, unique_guid = uguid, start_lba = start, end_lba = fin,
            attributes = attrs, entry_name = nm\<rparr>) })"

definition GPT_ENTRIES_START_LBA :: u64 where "GPT_ENTRIES_START_LBA = 2"
definition GPT_HEADER_LBA :: u64 where "GPT_HEADER_LBA = 1"
definition GPT_ENTRIES_COUNT :: nat where "GPT_ENTRIES_COUNT = 128"
definition GPT_ENTRY_SIZE :: nat where "GPT_ENTRY_SIZE = 128"

definition entry_sectors :: u64 where
  "entry_sectors = (of_nat GPT_ENTRIES_COUNT * 128 + 512 - 1) div 512"

definition primary_header :: "u64 \<Rightarrow> bytes \<Rightarrow> u32 \<Rightarrow> GPTHeader" where
  "primary_header tot guid ecrc = \<lparr>signature = str_bytes ''EFI PART'', revision = 0x00010000,
     header_size = 92, header_crc32 = 0, hdr_reserved = 0, current_lba = 1, backup_lba = tot - 1,
     first_usable_lba = entry_sectors + 2, last_usable_lba = tot - entry_sectors - 2, disk_guid = guid,
     entries_lba = GPT_ENTRIES_START_LBA, entries_count = of_nat GPT_ENTRIES_COUNT,
     entry_size = of_nat GPT_ENTRY_SIZE, entries_crc32 = ecrc\<rparr>"

definition backup_header :: "u64 \<Rightarrow> bytes \<Rightarrow> u32 \<Rightarrow> GPTHeader" where
  "backup_header tot guid ecrc = (primary_header tot guid ecrc)\<lparr>current_lba := tot - 1, backup_lba := 1,
     entries_lba := tot - entry_sectors - 1\<rparr>"

definition seal_header :: "GPTHeader \<Rightarrow> GPTHeader" where
  "seal_header h = h\<lparr>header_crc32 := crc32 (gpt_header_bytes h)\<rparr>"

text \<open>
  \<open>create_gpt_header\<close>. The header pointers are the caller's variables, NULL is \<open>None\<close>; they are returned with what the
  function leaves in them.
\<close>

definition create_gpt_header ::
  "u64 \<Rightarrow> GPTHeader option \<Rightarrow> GPTHeader option \<Rightarrow> bytes \<Rightarrow> bytes option \<Rightarrow> bytes \<Rightarrow> fat32
     \<Rightarrow> (bool \<times> GPTHeader option \<times> GPTHeader option \<times> fat32) option" where
  "create_gpt_header tot ph bh guid parts tail s =
     (if ph = None \<or> bh = None then Some (False, ph, bh, s)
      else case parts of None \<Rightarrow> Some (False, ph, bh, s)
      | Some entries \<Rightarrow>
        if tot < 128 then Some (False, ph, bh, s)
        else if length entries < GPT_ENTRIES_COUNT * GPT_ENTRY_SIZE then None
        else let ecrc = crc32 (take (GPT_ENTRIES_COUNT * GPT_ENTRY_SIZE) entries);
                 p = seal_header (primary_header tot guid ecrc);
                 b = seal_header (backup_header tot guid ecrc)
             in do {
               (ok, s) \<leftarrow> disk_write GPT_HEADER_LBA 1 (overwrite (replicate 512 0) 0 (gpt_header_bytes p)) s;
               if \<not> ok then Some (False, Some p, Some b, s)
               else do {
                 (ok, s) \<leftarrow> disk_write (tot - 1) 1 (gpt_header_bytes b @ tail) s;
                 Some (ok, Some p, Some b, s) } })"

section \<open>GUIDs\<close>

type_synonym guid_t = bytes

definition DISK_GUID_EXAMPLE :: guid_t where
  "DISK_GUID_EXAMPLE = [0x01,0x23,0x45,0x67,0x89,0xAB,0xCD,0xEF,0x01,0x23,0x45,0x67,0x89,0xAB,0xCD,0xEF]"
definition ESP_TYPE_GUID :: guid_t where
  "ESP_TYPE_GUID = [0x28,0x73,0x2a,0xc1,0x1f,0xf8,0xd2,0x11,0xba,0x4b,0x00,0xa0,0xc9,0x3e,0xc9,0x3b]"
definition LINUX_FS_GUID :: guid_t where
  "LINUX_FS_GUID = [0xaf,0x3d,0xc6,0x0f,0x83,0x84,0x72,0x47,0x8e,0x79,0x3d,0x69,0xd8,0x47,0x7d,0xe4]"
definition MS_RESERVED_GUID :: guid_t where
  "MS_RESERVED_GUID = [0x16,0xE3,0xC9,0xE3,0x5C,0x0B,0xB8,0x4D,0x81,0x7D,0xF9,0x2D,0xF0,0x02,0x15,0xAE]"
definition WINDOWS_MSR_GUID :: guid_t where
  "WINDOWS_MSR_GUID = [0x16,0xE3,0xC9,0xE3,0x5C,0x0B,0xB8,0x4D,0x81,0x7D,0xF9,0x2D,0xF0,0x02,0x15,0xAE]"
definition WINDOWS_RECOVERY_GUID :: guid_t where
  "WINDOWS_RECOVERY_GUID = [0xA4,0xBB,0x94,0xDE,0xD1,0x06,0x40,0x4D,0xA1,0x6A,0xBF,0xD5,0x01,0x79,0xD6,0xAC]"
definition ESP_GUID :: guid_t where
  "ESP_GUID = [0x11,0x22,0x33,0x44,0x55,0x66,0x77,0x88,0x99,0xAA,0xBB,0xCC,0xDD,0xEE,0xFF,0x00]"
definition DATA_PARTITION_GUID :: guid_t where
  "DATA_PARTITION_GUID = [0x00,0xFF,0xEE,0xDD,0xCC,0xBB,0xAA,0x99,0x88,0x77,0x66,0x55,0x44,0x33,0x22,0x11]"

text \<open>One round of the generator: \<open>t3\<close> is the value of \<open>clock()\<close>, \<open>st\<close> is \<open>guid_entropy_state\<close>.\<close>

definition mix_entropy :: "u64 \<Rightarrow> u64 \<Rightarrow> u64" where
  "mix_entropy t3 st =
     (let mix = 100 XOR push_bit 21 10 XOR push_bit 7 t3;
          mix = mix XOR drop_bit 12 mix;
          mix = mix XOR push_bit 25 mix;
          mix = mix XOR drop_bit 27 mix
      in (st XOR mix) * 0x2545F4914F6CDD1D)"

definition generate_guid :: "u64 \<Rightarrow> u64 \<Rightarrow> u64 \<Rightarrow> guid_t \<times> u64" where
  "generate_guid clock1 clock2 st =
     (let r1 = mix_entropy clock1 st; r2 = mix_entropy clock2 r1;
          guid = le64 r1 @ le64 r2;
          guid = guid[6 := (guid ! 6 AND 0x0F) OR 0x40];
          guid = guid[8 := (guid ! 8 AND 0x3F) OR 0x80]
      in (guid, r2))"

section \<open>The partition manager\<close>

definition MAX_PARTITIONS :: nat where "MAX_PARTITIONS = 4"

record PartitionEntry =
  pdrv_no :: u8
  partition_no :: u8
  part_start_lba :: u64
  sectors :: u64
  partition_guid :: guid_t
  partition_type_guid :: guid_t
  gpt_entry :: GPTPartitionEntry

definition zero_gpt_entry :: GPTPartitionEntry where
  "zero_gpt_entry = \<lparr>type_guid = replicate 16 0, unique_guid = replicate 16 0, start_lba = 0, end_lba = 0,
     attributes = 0, entry_name = replicate 72 0\<rparr>"

definition zero_partition :: PartitionEntry where
  "zero_partition = \<lparr>pdrv_no = 0, partition_no = 0, part_start_lba = 0, sectors = 0,
     partition_guid = replicate 16 0, partition_type_guid = replicate 16 0, gpt_entry = zero_gpt_entry\<rparr>"

text \<open>The globals of partition_manager.c beside the disk; \<open>partitions\<close> is NULL until the first partition is created.\<close>

record part_mgr =
  pvol :: fat32
  total_sectors :: u64
  partitions :: "PartitionEntry list option"
  partition_count :: nat

definition total_entries_sectors :: u32 where
  "total_entries_sectors = (of_nat (GPT_ENTRIES_COUNT * GPT_ENTRY_SIZE) + 512 - 1) div 512"

text \<open>
  \<open>create_partition\<close>, in the order of its effects: the total is set to the size of the partition, the protective MBR
  is written (into an unchecked \<open>malloc\<close>), the table in memory gets its entry, the entries on disk are read, completed
  and written twice, the headers follow, and the count grows last.
\<close>

definition new_table :: "part_mgr \<Rightarrow> PartitionEntry list option" where
  "new_table s = (case partitions s of Some ps \<Rightarrow> Some ps
     | None \<Rightarrow> if malloc (MAX_PARTITIONS * 178) (pvol s) = None then None
         else Some (replicate MAX_PARTITIONS zero_partition))"

definition write_tables :: "bytes \<Rightarrow> bytes \<Rightarrow> part_mgr \<Rightarrow> (bool \<times> part_mgr) option" where
  "write_tables entries tail s = do {
     (ok, v) \<leftarrow> disk_write GPT_ENTRIES_START_LBA total_entries_sectors entries (pvol s);
     if \<not> ok then Some (False, s\<lparr>pvol := v\<rparr>)
     else do {
       (ok, v) \<leftarrow> disk_write (total_sectors s - ucast total_entries_sectors - 1) total_entries_sectors entries v;
       if \<not> ok then Some (False, s\<lparr>pvol := v\<rparr>)
       else do {
         (ok, _, _, v) \<leftarrow> create_gpt_header (total_sectors s) (Some (primary_header 0 [] 0)) (Some (primary_header 0 [] 0))
            DISK_GUID_EXAMPLE (Some entries) tail v;
         Some (ok, s\<lparr>pvol := v\<rparr>) } } }"

definition create_partition ::
  "u8 \<Rightarrow> u64 \<Rightarrow> u64 \<Rightarrow> guid_t \<Rightarrow> guid_t \<Rightarrow> bytes \<Rightarrow> bytes \<Rightarrow> part_mgr \<Rightarrow> (bool \<times> part_mgr) option" where
  "create_partition pdrv start sects guid tguid name tail s0 =
     (let idx = partition_count s0; s = s0\<lparr>total_sectors := sects\<rparr>
      in do {
        _ \<leftarrow> malloc 512 (pvol s);
        (ok, v) \<leftarrow> disk_write 0 1 (mbr_bytes (create_protective_mbr sects)) (pvol s);
        let s = s\<lparr>pvol := v\<rparr>;
        if \<not> ok then Some (False, s)
        else case new_table s of None \<Rightarrow> Some (False, s)
        | Some ps \<Rightarrow>
          let s = s\<lparr>partitions := Some ps\<rparr>
          in if partition_count s \<ge> MAX_PARTITIONS then Some (False, s)
          else let e = (ps ! idx)\<lparr>pdrv_no := pdrv, partition_no := of_nat idx, part_start_lba := start,
                     sectors := sects, partition_guid := guid, partition_type_guid := tguid\<rparr>;
                   s = s\<lparr>partitions := Some (ps[idx := e])\<rparr>
          in do {
            (ok, entries) \<leftarrow> disk_read GPT_ENTRIES_START_LBA total_entries_sectors
               (replicate (GPT_ENTRIES_COUNT * GPT_ENTRY_SIZE) 0) (pvol s);
            if \<not> ok then Some (False, s)
            else do {
              ge \<leftarrow> create_gpt_partition_entry tguid guid start (start + sects - 1) 0 name (pvol s);
              case ge of None \<Rightarrow> Some (False, s)
              | Some ge \<Rightarrow> do {
                  let s = s\<lparr>partitions := Some (ps[idx := e\<lparr>gpt_entry := ge\<rparr>])\<rparr>;
                  (ok, s) \<leftarrow> write_tables (overwrite entries (idx * GPT_ENTRY_SIZE) (gpt_entry_bytes ge)) tail s;
                  if \<not> ok then Some (False, s)
                  else Some (True, s\<lparr>partition_count := partition_count s + 1\<rparr>) } } } })"

text \<open>
  \<open>update_partition\<close> rewrites one used entry of the array on disk. \<open>total_sectors\<close> is whatever the last
  \<open>create_partition\<close> left, 0 after a start of the machine.
\<close>

definition update_partition ::
  "int \<Rightarrow> nat \<Rightarrow> u64 \<Rightarrow> u64 \<Rightarrow> bytes \<Rightarrow> u64 \<Rightarrow> bytes \<Rightarrow> part_mgr \<Rightarrow> (bool \<times> part_mgr) option" where
  "update_partition disk_no idx new_start new_sectors new_name new_attrs tail s =
     (if idx \<ge> GPT_ENTRIES_COUNT then Some (False, s)
      else do {
        (ok, entries) \<leftarrow> disk_read GPT_ENTRIES_START_LBA total_entries_sectors
           (replicate (GPT_ENTRIES_COUNT * GPT_ENTRY_SIZE) 0) (pvol s);
        if \<not> ok then Some (False, s)
        else let e = gpt_entry_of (bslice (idx * GPT_ENTRY_SIZE) GPT_ENTRY_SIZE entries)
          in if list_all (\<lambda>b. b = 0) (type_guid e) then Some (False, s)
          else do {
            nm \<leftarrow> name_loop 36 0 new_name (replicate 72 0);
            let e = e\<lparr>start_lba := new_start, end_lba := new_start + new_sectors - 1, attributes := new_attrs,
                  entry_name := nm\<rparr>;
            write_tables (overwrite entries (idx * GPT_ENTRY_SIZE) (gpt_entry_bytes e)) tail s } })"

definition partition_of :: "u8 \<Rightarrow> nat \<Rightarrow> GPTPartitionEntry \<Rightarrow> PartitionEntry" where
  "partition_of pdrv i g = \<lparr>pdrv_no = pdrv, partition_no = of_nat i, part_start_lba = start_lba g,
     sectors = (if end_lba g - start_lba g \<le> 1 then 0 else end_lba g - start_lba g + 1),
     partition_guid = unique_guid g, partition_type_guid = type_guid g, gpt_entry = g\<rparr>"

text \<open>
  \<open>get_partitions\<close> reads the 32 sectors of the entry array into a block of \<open>GPT_ENTRIES_COUNT\<close> (128) bytes.
\<close>

definition get_partitions :: "u8 \<Rightarrow> part_mgr \<Rightarrow> PartitionEntry list option option" where
  "get_partitions pdrv s =
     (case malloc GPT_ENTRIES_COUNT (pvol s) of None \<Rightarrow> Some None
      | Some buf \<Rightarrow> do {
          (ok, entries) \<leftarrow> disk_read GPT_ENTRIES_START_LBA total_entries_sectors buf (pvol s);
          if \<not> ok then Some None
          else if malloc (MAX_PARTITIONS * 178) (pvol s) = None then Some None
          else if length entries < MAX_PARTITIONS * GPT_ENTRY_SIZE then None
          else Some (Some (map (\<lambda>i. partition_of pdrv i
                 (gpt_entry_of (bslice (i * GPT_ENTRY_SIZE) GPT_ENTRY_SIZE entries))) [0..<MAX_PARTITIONS])) })"

section \<open>What the checksum detects\<close>

lemma xor_cancel: "(a :: 'w::len word) XOR c = b XOR c \<longleftrightarrow> a = b"
  by (metis xor.assoc xor.right_neutral xor_self_eq)

lemma xor_cancel2: "c XOR (a :: 'w::len word) = c XOR b \<longleftrightarrow> a = b"
  using xor_cancel [of a c b] by (simp add: xor.commute)

lemma crc_bit_cases: "crc_bit c = drop_bit 1 c XOR (if bit c 0 then 0xEDB88320 else 0)"
  by (auto simp: crc_bit_def and_one_eq mod2_eq_if even_bit_succ_iff bit_0)

lemma crc_bit_xor: "crc_bit (a XOR b) = crc_bit a XOR crc_bit b"
  by (rule bit_word_eqI) (auto simp: crc_bit_cases bit_simps)

lemma crc_bits_xor: "(crc_bit ^^ n) (a XOR b) = (crc_bit ^^ n) a XOR (crc_bit ^^ n) b"
  by (induction n) (simp_all add: crc_bit_xor)

lemma crc_bit_top: "bit (crc_bit c) 31 \<longleftrightarrow> bit c 0"
  by (auto simp: crc_bit_cases bit_simps dest: bit_imp_le_length)

lemma inj_crc_bit: "inj crc_bit"
proof (rule injI)
  fix c d :: u32
  assume e: "crc_bit c = crc_bit d"
  then have z: "bit c 0 = bit d 0" using crc_bit_top by metis
  then have "drop_bit 1 c = drop_bit 1 d" using e by (auto simp: crc_bit_cases xor_cancel)
  then have "bit c (Suc n) = bit d (Suc n)" for n by (metis bit_drop_bit_eq comp_apply plus_1_eq_Suc)
  then show "c = d" using z by (metis bit_eqI not0_implies_Suc)
qed

lemma inj_crc_bits: "inj (crc_bit ^^ n)"
  by (intro inj_fn inj_crc_bit)

lemma inj_crc_bytes: "foldl crc_byte c w = foldl crc_byte d w \<longleftrightarrow> c = d"
proof (induction w arbitrary: c d)
  case (Cons b w)
  have "crc_byte c b = crc_byte d b \<longleftrightarrow> c = d"
    using inj_crc_bits [of 8] by (auto simp: crc_byte_def xor_cancel dest!: injD)
  then show ?case using Cons by simp
qed simp

lemma crc_bits_push:
  assumes "\<And>i. 32 \<le> i + n \<Longrightarrow> \<not> bit (x :: u32) i"
  shows "(crc_bit ^^ n) (push_bit n x) = x"
  using assms
proof (induction n arbitrary: x)
  case (Suc n)
  have "crc_bit (push_bit (Suc n) x) = push_bit n x"
  proof (rule bit_word_eqI)
    fix k assume k: "k < LENGTH(32)"
    have "\<not> bit (push_bit (Suc n) x) 0" by (simp only: bit_push_bit_iff) simp
    moreover have "bit (push_bit (Suc n) x) (Suc k) = bit (push_bit n x) k"
      using k Suc.prems [of "k - n"] by (cases "k = 31") (auto simp only: bit_push_bit_iff, auto)
    ultimately show "bit (crc_bit (push_bit (Suc n) x)) k = bit (push_bit n x) k"
      by (simp only: crc_bit_cases if_False xor.right_neutral bit_drop_bit_eq comp_apply plus_1_eq_Suc)
  qed
  moreover have "(crc_bit ^^ n) (push_bit n x) = x" using Suc.prems by (intro Suc.IH) simp
  ultimately show ?case by (simp only: funpow_Suc_right comp_apply)
qed simp

lemma crc_window: "length w \<le> 4 \<Longrightarrow> foldl crc_byte c w = (crc_bit ^^ (8 * length w)) (c XOR of_le w)"
proof (induction w arbitrary: c)
  case (Cons b w)
  have "of_le (b # w) = ucast b XOR push_bit 8 (of_le w :: u32)"
    by (rule bit_word_eqI) (auto simp: of_le_def bit_simps dest: bit_imp_le_length)
  moreover have "(crc_bit ^^ 8) (push_bit 8 (of_le w)) = of_le w"
    using Cons.prems by (intro crc_bits_push) (auto simp: bit_of_le)
  ultimately have "(crc_bit ^^ 8) (c XOR of_le (b # w)) = crc_byte c b XOR of_le w"
    by (simp add: crc_byte_def crc_bits_xor ac_simps)
  moreover have "foldl crc_byte c (b # w) = (crc_bit ^^ (8 * length w)) (crc_byte c b XOR of_le w)"
    using Cons by simp
  moreover have "8 * length (b # w) = 8 * length w + 8" by simp
  ultimately show ?case by (simp only: funpow_add comp_apply)
qed (simp add: of_le_def)

lemma of_le_inj:
  assumes "length v = length w" "length w \<le> 4" "(of_le v :: u32) = of_le w"
  shows "v = w"
proof (rule nth_equalityI [OF assms(1)])
  fix i assume i: "i < length v"
  show "v ! i = w ! i"
  proof (rule bit_word_eqI)
    fix n assume n: "n < LENGTH(8)"
    have "bit (of_le v :: u32) (8 * i + n) = bit (of_le w :: u32) (8 * i + n)" using assms(3) by simp
    then show "bit (v ! i) n = bit (w ! i) n" using n i assms(1,2) by (simp add: bit_of_le)
  qed
qed

lemma crc32_window:
  assumes "length v = length w" "length w \<le> 4" "v \<noteq> w"
  shows "crc32 (pre @ v @ post) \<noteq> crc32 (pre @ w @ post)"
proof -
  have "(of_le v :: u32) \<noteq> of_le w" using of_le_inj assms by blast
  then have "foldl crc_byte c v \<noteq> foldl crc_byte c w" for c
    using assms inj_crc_bits [of "8 * length w"]
    by (auto simp: crc_window xor_cancel2 dest!: injD)
  then show ?thesis by (simp add: crc32_def inj_crc_bytes)
qed

section \<open>The byte images\<close>

lemma length_gpt_entry_bytes:
  "length (type_guid e) = 16 \<Longrightarrow> length (unique_guid e) = 16 \<Longrightarrow> length (entry_name e) = 72 \<Longrightarrow> length (gpt_entry_bytes e) = 128"
  by (simp add: gpt_entry_bytes_def)

lemma gpt_entry_roundtrip:
  assumes "length (type_guid e) = 16" "length (unique_guid e) = 16" "length (entry_name e) = 72"
  shows "gpt_entry_of (gpt_entry_bytes e) = e"
  using assms by (simp add: gpt_entry_of_def gpt_entry_bytes_def rd64_def bslice_append1 bslice_append2)

lemma length_mbr_bytes: "length (mbr_bytes (create_protective_mbr n)) = 512"
  by (simp add: mbr_bytes_def create_protective_mbr_def Let_def mbr_part_bytes_def zero_mbr_part_def)

lemma length_gpt_header_bytes:
  "length (signature h) = 8 \<Longrightarrow> length (disk_guid h) = 16 \<Longrightarrow> length (gpt_header_bytes h) = 92"
  by (simp add: gpt_header_bytes_def)

text \<open>
  A header sector is valid for an entry array when it has the signature, its checksum is that of the header with
  the checksum field cleared, and the other checksum is that of the array.
\<close>

definition header_valid :: "bytes \<Rightarrow> bytes \<Rightarrow> bool" where
  "header_valid sect entries \<longleftrightarrow> bslice 0 8 sect = str_bytes ''EFI PART''
     \<and> rd32 sect 16 = crc32 (wr32 (bslice 0 92 sect) 16 0) \<and> rd32 sect 88 = crc32 entries"

lemma sealed_header_valid:
  assumes "signature h = str_bytes ''EFI PART''" "length (disk_guid h) = 16" "header_crc32 h = 0" "entries_crc32 h = crc32 es"
  shows "header_valid (gpt_header_bytes (seal_header h) @ rest) es"
proof -
  let ?b = "gpt_header_bytes (seal_header h)"
  have g: "length (signature h) = 8" using assms(1) by (simp add: str_bytes_def)
  then have l: "length ?b = 92" using assms(2) by (intro length_gpt_header_bytes) (simp_all add: seal_header_def)
  then have t: "bslice 0 92 (?b @ rest) = ?b" by (simp add: bslice_def)
  have "wr32 ?b 16 0 = gpt_header_bytes h"
    using assms(2,3) g by (simp add: wr32_def overwrite_def gpt_header_bytes_def seal_header_def)
  moreover have "rd32 (?b @ rest) 16 = crc32 (gpt_header_bytes h)" "rd32 (?b @ rest) 88 = crc32 es"
    "bslice 0 8 (?b @ rest) = str_bytes ''EFI PART''"
    using assms(2-4) g unfolding assms(1) [symmetric]
    by (simp_all add: rd32_def gpt_header_bytes_def seal_header_def bslice_append1 bslice_append2)
  ultimately show ?thesis unfolding header_valid_def t by simp
qed

section \<open>The partition table on disk\<close>

abbreviation entry_array :: "fat32 \<Rightarrow> nat \<Rightarrow> bytes" where
  "entry_array v lba \<equiv> dev_sectors (cur_disk_no v) v lba 32"

text \<open>
  A disk of \<open>tot\<close> sectors carries the table \<open>entries\<close>: both copies of the array are there, and each header is valid for
  it, names its own sector, the other header's sector and the first sector of its array, and bounds the usable range by
  the two copies.
\<close>

definition header_at :: "bytes \<Rightarrow> bytes \<Rightarrow> nat \<Rightarrow> nat \<Rightarrow> nat \<Rightarrow> nat \<Rightarrow> bool" where
  "header_at sect entries cur bak arr tot \<longleftrightarrow> header_valid sect entries
     \<and> unat (rd64 sect 24) = cur \<and> unat (rd64 sect 32) = bak \<and> unat (rd64 sect 72) = arr
     \<and> unat (rd64 sect 40) = 34 \<and> unat (rd64 sect 48) = tot - 34"

definition gpt_ok :: "nat \<Rightarrow> bytes \<Rightarrow> fat32 \<Rightarrow> bool" where
  "gpt_ok tot entries v \<longleftrightarrow> entry_array v 2 = entries \<and> entry_array v (tot - 33) = entries
     \<and> header_at (sec v 1) entries 1 (tot - 1) 2 tot \<and> header_at (sec v (tot - 1)) entries (tot - 1) 1 (tot - 33) tot"

lemma gpt_constants [simp]:
  "entry_sectors = 32" "total_entries_sectors = 32" "GPT_ENTRIES_START_LBA = 2" "GPT_HEADER_LBA = 1"
  "GPT_ENTRIES_COUNT = 128" "GPT_ENTRY_SIZE = 128" "MAX_PARTITIONS = 4"
  by (simp_all add: entry_sectors_def total_entries_sectors_def GPT_ENTRIES_START_LBA_def GPT_HEADER_LBA_def
      GPT_ENTRIES_COUNT_def GPT_ENTRY_SIZE_def MAX_PARTITIONS_def)

lemma disk_write_step:
  assumes u: "unat lba = a" "unat n = k"
    and w: "dev_ok (cur_disk_no v) v" "a + k \<le> dev_cap (cur_disk_no v) v" "0 < k" "k \<le> 256" "k * 512 \<le> length d"
  shows "\<exists>v'. disk_write lba n d v = Some (True, v') \<and> disk_step v v'
    \<and> sec v' = (\<lambda>j. if a \<le> j \<and> j < a + k then bslice ((j - a) * 512) 512 d else sec v j)"
  using fat32_write_sectors_ok [OF w [folded u]] disk_step_put [OF w(1,5), of a] u
  by (auto simp: dev_sector_put fat32_write_sectors_def)

lemma disk_write_sector:
  assumes "unat lba = a" "dev_ok (cur_disk_no v) v" "a < dev_cap (cur_disk_no v) v" "512 \<le> length d"
  shows "\<exists>v'. disk_write lba 1 d v = Some (True, v') \<and> disk_step v v' \<and> sec v' = (sec v)(a := take 512 d)"
proof -
  obtain v' where "disk_write lba 1 d v = Some (True, v')" "disk_step v v'"
    "sec v' = (\<lambda>j. if a \<le> j \<and> j < a + 1 then bslice ((j - a) * 512) 512 d else sec v j)"
    using disk_write_step [OF assms(1) _ assms(2), of 1 1 d] assms(3,4) by auto
  moreover have "(\<lambda>j. if a \<le> j \<and> j < a + 1 then bslice ((j - a) * 512) 512 d else sec v j) = (sec v)(a := take 512 d)"
    by (auto simp: fun_eq_iff bslice_def)
  ultimately show ?thesis by auto
qed

lemma disk_read_array:
  assumes "dev_ok (cur_disk_no v) v" "34 \<le> dev_cap (cur_disk_no v) v"
  shows "disk_read 2 32 (replicate 16384 0) v = Some (True, entry_array v 2)"
  using kebla_disk_read_ok [OF assms(1), of 32 2 "replicate 16384 0"] assms
  by (simp add: disk_read_def)

lemma length_entry_array: "dev_ok (cur_disk_no v) v \<Longrightarrow> length (entry_array v lba) = 16384"
  by simp

lemma array_written:
  assumes "\<And>i. i < 32 \<Longrightarrow> sec v (lba + i) = bslice (i * 512) 512 d" "length d = 16384"
  shows "entry_array v lba = d"
proof -
  have "map (\<lambda>i. sec v (lba + i)) [0..<32] = map (\<lambda>i. bslice (i * 512) 512 d) [0..<32]"
    by (rule map_cong) (simp_all add: assms(1))
  then show ?thesis using sata_blk.concat_written [of 32 d] assms(2) unfolding dev_sectors_def by (simp only:) simp
qed

lemma header_image:
  assumes "length (signature h) = 8" "length (disk_guid h) = 16"
  shows "rd64 (gpt_header_bytes h @ r) 24 = current_lba h" "rd64 (gpt_header_bytes h @ r) 32 = backup_lba h"
    "rd64 (gpt_header_bytes h @ r) 40 = first_usable_lba h" "rd64 (gpt_header_bytes h @ r) 48 = last_usable_lba h"
    "rd64 (gpt_header_bytes h @ r) 72 = entries_lba h"
  using assms by (simp_all add: rd64_def gpt_header_bytes_def bslice_append1 bslice_append2)

lemma unat_minus_u64: "unat (b :: u64) \<le> unat a \<Longrightarrow> unat (a - b) = unat a - unat b"
  by (simp add: unat_sub_if_size)

lemma headers_at:
  assumes "128 \<le> unat tot" "length guid = 16"
  shows "header_at (gpt_header_bytes (seal_header (primary_header tot guid (crc32 es))) @ r) es 1 (unat tot - 1) 2 (unat tot)"
    "header_at (gpt_header_bytes (seal_header (backup_header tot guid (crc32 es))) @ r) es (unat tot - 1) 1 (unat tot - 33) (unat tot)"
proof -
  have u: "unat (tot - 1) = unat tot - 1" "unat (tot - 34) = unat tot - 34" "unat (tot - 33) = unat tot - 33"
    using assms(1) by (subst unat_minus_u64; simp)+
  have h: "signature (primary_header tot guid (crc32 es)) = str_bytes ''EFI PART''" "disk_guid (primary_header tot guid (crc32 es)) = guid"
    "header_crc32 (primary_header tot guid (crc32 es)) = 0" "entries_crc32 (primary_header tot guid (crc32 es)) = crc32 es"
    by (simp_all add: primary_header_def)
  show "header_at (gpt_header_bytes (seal_header (primary_header tot guid (crc32 es))) @ r) es 1 (unat tot - 1) 2 (unat tot)"
    unfolding header_at_def using u assms h
    by (simp add: sealed_header_valid header_image, simp add: seal_header_def primary_header_def header_image str_bytes_def)
  show "header_at (gpt_header_bytes (seal_header (backup_header tot guid (crc32 es))) @ r) es (unat tot - 1) 1 (unat tot - 33) (unat tot)"
    unfolding header_at_def using u assms h
    by (simp add: sealed_header_valid backup_header_def, simp add: seal_header_def primary_header_def header_image str_bytes_def)
qed

text \<open>The sectors after \<open>write_tables\<close>: the arrays first, then the headers.\<close>

definition table_sector :: "u64 \<Rightarrow> bytes \<Rightarrow> bytes \<Rightarrow> (nat \<Rightarrow> bytes) \<Rightarrow> nat \<Rightarrow> bytes" where
  "table_sector tot entries tail old j =
     (if j = unat tot - 1
        then gpt_header_bytes (seal_header (backup_header tot DISK_GUID_EXAMPLE (crc32 entries))) @ take 420 tail
      else if j = 1
        then gpt_header_bytes (seal_header (primary_header tot DISK_GUID_EXAMPLE (crc32 entries))) @ replicate 420 0
      else if unat tot - 33 \<le> j \<and> j < unat tot - 1 then bslice ((j - (unat tot - 33)) * 512) 512 entries
      else if 2 \<le> j \<and> j < 34 then bslice ((j - 2) * 512) 512 entries
      else old j)"

lemma length_sealed:
  "length (gpt_header_bytes (seal_header (primary_header tot DISK_GUID_EXAMPLE c))) = 92"
  "length (gpt_header_bytes (seal_header (backup_header tot DISK_GUID_EXAMPLE c))) = 92"
  by (rule length_gpt_header_bytes; simp add: seal_header_def primary_header_def backup_header_def str_bytes_def DISK_GUID_EXAMPLE_def)+

lemma create_gpt_header_ok:
  assumes v: "dev_ok (cur_disk_no v) v" "128 \<le> unat tot" "unat tot \<le> dev_cap (cur_disk_no v) v"
    and l: "length entries = 16384" "420 \<le> length tail"
  shows "\<exists>p b v'. create_gpt_header tot (Some ph) (Some bh) DISK_GUID_EXAMPLE (Some entries) tail v = Some (True, Some p, Some b, v')
    \<and> disk_step v v' \<and> sec v' = (\<lambda>j. if j = unat tot - 1 \<or> j = 1 then table_sector tot entries tail (sec v) j else sec v j)"
proof -
  let ?p = "gpt_header_bytes (seal_header (primary_header tot DISK_GUID_EXAMPLE (crc32 entries)))"
  let ?b = "gpt_header_bytes (seal_header (backup_header tot DISK_GUID_EXAMPLE (crc32 entries)))"
  obtain v1 where v1: "disk_write 1 1 (overwrite (replicate 512 0) 0 ?p) v = Some (True, v1)" "disk_step v v1"
    "sec v1 = (sec v)(1 := ?p @ replicate 420 0)"
    using disk_write_sector [OF _ v(1), of 1 1 "overwrite (replicate 512 0) 0 ?p"] v(2,3)
    by (auto simp: length_sealed overwrite_def)
  have t: "unat (tot - 1) = unat tot - 1" using v(2) by (subst unat_minus_u64) simp_all
  have d: "dev_ok (cur_disk_no v1) v1" "dev_cap (cur_disk_no v1) v1 = dev_cap (cur_disk_no v) v" using v1(2) by (auto simp: disk_step_def)
  have i: "unat tot - 1 < dev_cap (cur_disk_no v) v" using v(2,3) by simp
  obtain v2 where v2: "disk_write (tot - 1) 1 (?b @ tail) v1 = Some (True, v2)" "disk_step v1 v2"
    "sec v2 = (sec v1)(unat tot - 1 := ?b @ take 420 tail)"
    using disk_write_sector [OF t d(1), of "?b @ tail"] i l(2) d(2) by (auto simp: length_sealed)
  have "sec v2 = (\<lambda>j. if j = unat tot - 1 \<or> j = 1 then table_sector tot entries tail (sec v) j else sec v j)"
    unfolding v2(3) v1(3) using v(2) by (auto simp: table_sector_def fun_eq_iff)
  moreover have "\<not> tot < 128" using v(2) by (simp add: word_less_nat_alt)
  ultimately show ?thesis using v1(1) v2(1) disk_step_trans [OF v1(2) v2(2)] l(1)
    by (simp add: create_gpt_header_def Let_def)
qed

lemma write_tables_ok:
  assumes v: "dev_ok (cur_disk_no (pvol s)) (pvol s)" "128 \<le> unat (total_sectors s)"
      "unat (total_sectors s) \<le> dev_cap (cur_disk_no (pvol s)) (pvol s)"
    and l: "length entries = 16384" "420 \<le> length tail"
  shows "\<exists>v'. write_tables entries tail s = Some (True, s\<lparr>pvol := v'\<rparr>) \<and> disk_step (pvol s) v'
    \<and> sec v' = table_sector (total_sectors s) entries tail (sec (pvol s))"
proof -
  let ?t = "total_sectors s"
  obtain v1 where v1: "disk_write 2 32 entries (pvol s) = Some (True, v1)" "disk_step (pvol s) v1"
    "sec v1 = (\<lambda>j. if 2 \<le> j \<and> j < 34 then bslice ((j - 2) * 512) 512 entries else sec (pvol s) j)"
    using disk_write_step [OF _ _ v(1), of 2 2 32 32 entries] v(2,3) l by auto
  have t: "unat (?t - 32 - 1) = unat ?t - 33" using v(2) by (simp add: unat_minus_u64)
  have d: "dev_ok (cur_disk_no v1) v1" "dev_cap (cur_disk_no v1) v1 = dev_cap (cur_disk_no (pvol s)) (pvol s)"
    using v1(2) by (auto simp: disk_step_def)
  have e: "unat ?t - 33 + 32 = unat ?t - 1" "unat ?t - 1 \<le> dev_cap (cur_disk_no (pvol s)) (pvol s)" using v(2,3) by simp_all
  obtain v2 where v2: "disk_write (?t - 32 - 1) 32 entries v1 = Some (True, v2)" "disk_step v1 v2"
    "sec v2 = (\<lambda>j. if unat ?t - 33 \<le> j \<and> j < unat ?t - 1 then bslice ((j - (unat ?t - 33)) * 512) 512 entries else sec v1 j)"
    using disk_write_step [OF t _ d(1), of 32 32 entries] v(3) l d(2) e by auto
  have d2: "dev_ok (cur_disk_no v2) v2" "unat ?t \<le> dev_cap (cur_disk_no v2) v2" using v2(2) d v(3) by (auto simp: disk_step_def)
  obtain p b v3 where v3: "create_gpt_header ?t (Some (primary_header 0 [] 0)) (Some (primary_header 0 [] 0)) DISK_GUID_EXAMPLE
        (Some entries) tail v2 = Some (True, Some p, Some b, v3)" "disk_step v2 v3"
    "sec v3 = (\<lambda>j. if j = unat ?t - 1 \<or> j = 1 then table_sector ?t entries tail (sec v2) j else sec v2 j)"
    using create_gpt_header_ok [OF d2(1) v(2) d2(2) l, where ph = "primary_header 0 [] 0" and bh = "primary_header 0 [] 0"]
    by (elim exE conjE) (rule that; assumption)
  have "sec v3 = table_sector ?t entries tail (sec (pvol s))"
    unfolding v3(3) v2(3) v1(3) by (auto simp: table_sector_def fun_eq_iff)
  moreover have "ucast (32 :: u32) = (32 :: u64)" by simp
  ultimately show ?thesis using v1(1) v2(1) v3(1) disk_step_trans [OF disk_step_trans [OF v1(2) v2(2)] v3(2)]
    by (intro exI [of _ v3]) (simp add: write_tables_def)
qed

lemma table_gpt_ok:
  assumes "128 \<le> unat tot" "length entries = 16384" "sec v = table_sector tot entries tail old"
  shows "gpt_ok (unat tot) entries v"
  unfolding gpt_ok_def
proof (intro conjI)
  show "entry_array v 2 = entries" "entry_array v (unat tot - 33) = entries"
    by (rule array_written; use assms in \<open>auto simp: table_sector_def\<close>)+
  have "length DISK_GUID_EXAMPLE = 16" "Suc 0 \<noteq> unat tot - Suc 0" using assms(1) by (simp_all add: DISK_GUID_EXAMPLE_def)
  then show "header_at (sec v 1) entries 1 (unat tot - 1) 2 (unat tot)"
    "header_at (sec v (unat tot - 1)) entries (unat tot - 1) 1 (unat tot - 33) (unat tot)"
    unfolding assms(3) using headers_at assms(1) by (simp_all add: table_sector_def)
qed

section \<open>Names\<close>

definition utf16_field :: "bytes \<Rightarrow> bytes" where
  "utf16_field cs = concat (map (\<lambda>c. [c, 0]) cs) @ replicate (72 - 2 * length cs) 0"

lemma length_utf16_chars: "length (concat (map (\<lambda>c. [c, 0]) cs)) = 2 * length cs"
  by (induction cs) simp_all

lemma length_utf16_field: "length cs \<le> 36 \<Longrightarrow> length (utf16_field cs) = 72"
  by (simp add: utf16_field_def length_utf16_chars)

lemma utf16_field_step:
  assumes "length cs < 36"
  shows "(utf16_field cs)[length cs * 2 := c] = utf16_field (cs @ [c])"
proof -
  have "72 - 2 * length cs = Suc (Suc (72 - 2 * Suc (length cs)))" using assms by simp
  then show ?thesis by (simp add: utf16_field_def list_update_append length_utf16_chars mult.commute)
qed

lemma name_loop_ok:
  "i + n = 36 \<Longrightarrow> 0 \<notin> set cs \<Longrightarrow> i \<le> length cs \<Longrightarrow>
   name_loop n i (cs @ 0 # rest) (utf16_field (take i cs)) = Some (utf16_field (take 36 cs))"
proof (induction n arbitrary: i)
  case (Suc n)
  show ?case
  proof (cases "i = length cs")
    case False
    then have i: "i < length cs" using Suc.prems by simp
    then have "(cs @ 0 # rest) ! i \<noteq> 0" using Suc.prems(2) by (metis nth_append nth_mem)
    moreover have "(utf16_field (take i cs))[i * 2 := cs ! i] = utf16_field (take (i + 1) cs)"
      using utf16_field_step [of "take i cs" "cs ! i"] i Suc.prems(1) by (simp add: take_Suc_conv_app_nth)
    moreover have "name_loop n (i + 1) (cs @ 0 # rest) (utf16_field (take (i + 1) cs)) = Some (utf16_field (take 36 cs))"
      using Suc i by (intro Suc.IH) simp_all
    ultimately show ?thesis using i by (simp add: nth_append)
  qed (use Suc.prems in simp)
qed simp

lemma name_stored: "0 \<notin> set cs \<Longrightarrow> name_loop 36 0 (cs @ 0 # rest) (replicate 72 0) = Some (utf16_field (take 36 cs))"
  using name_loop_ok [of 0 36 cs rest] by (simp add: utf16_field_def)

section \<open>Properties\<close>

definition gpt_new_entry :: "guid_t \<Rightarrow> guid_t \<Rightarrow> u64 \<Rightarrow> u64 \<Rightarrow> bytes \<Rightarrow> GPTPartitionEntry" where
  "gpt_new_entry tguid guid start sects cs = \<lparr>type_guid = tguid, unique_guid = guid, start_lba = start,
     end_lba = start + sects - 1, attributes = 0, entry_name = utf16_field (take 36 cs)\<rparr>"

lemma length_gpt_new_entry: "length tguid = 16 \<Longrightarrow> length guid = 16 \<Longrightarrow> length (gpt_entry_bytes (gpt_new_entry tguid guid start sects cs)) = 128"
  by (intro length_gpt_entry_bytes) (simp_all add: gpt_new_entry_def length_utf16_field)

lemma create_partition_ok:
  assumes d: "dev_ok (cur_disk_no (pvol s)) (pvol s)" "128 \<le> unat sects" "unat sects \<le> dev_cap (cur_disk_no (pvol s)) (pvol s)"
    and m: "disk_malloc_ok (pvol s) 128" "disk_malloc_ok (pvol s) 512" "disk_malloc_ok (pvol s) 712" and t: "420 \<le> length tail"
    and g: "length guid = 16" "length tguid = 16" and nm: "0 \<notin> set cs"
    and p: "partition_count s < 4" "\<forall>ps. partitions s = Some ps \<longrightarrow> length ps = 4"
  shows "\<exists>s' ps. create_partition pdrv start sects guid tguid (cs @ 0 # rest) tail s = Some (True, s')
    \<and> partition_count s' = partition_count s + 1
    \<and> gpt_ok (unat sects) (overwrite (entry_array (pvol s) 2) (partition_count s * 128)
         (gpt_entry_bytes (gpt_new_entry tguid guid start sects cs))) (pvol s')
    \<and> (\<forall>j. 34 \<le> j \<and> (j < unat sects - 33 \<or> unat sects \<le> j) \<longrightarrow> sec (pvol s') j = sec (pvol s) j)
    \<and> partitions s' = Some ps \<and> length ps = 4 \<and> part_start_lba (ps ! partition_count s) = start
    \<and> sectors (ps ! partition_count s) = sects \<and> gpt_entry (ps ! partition_count s) = gpt_new_entry tguid guid start sects cs"
proof -
  let ?m = "mbr_bytes (create_protective_mbr sects)" and ?i = "partition_count s"
  let ?e = "gpt_new_entry tguid guid start sects cs"
  obtain v1 where v1: "disk_write 0 1 ?m (pvol s) = Some (True, v1)" "disk_step (pvol s) v1"
    "sec v1 = (sec (pvol s))(0 := ?m)"
    using disk_write_sector [OF _ d(1), of 0 0 ?m] d(2,3) by (auto simp: length_mbr_bytes)
  define s1 where "s1 = s\<lparr>total_sectors := sects, pvol := v1\<rparr>"
  have c: "dev_ok (cur_disk_no v1) v1" "dev_cap (cur_disk_no v1) v1 = dev_cap (cur_disk_no (pvol s)) (pvol s)"
    "disk_malloc_ok v1 = disk_malloc_ok (pvol s)" using v1(2) by (auto simp: disk_step_def)
  obtain ps where ps: "new_table s1 = Some ps" "length ps = 4"
    using p(2) m c(3) by (cases "partitions s") (auto simp: new_table_def s1_def malloc_def)
  have a: "entry_array v1 2 = entry_array (pvol s) 2"
    using v1(2,3) unfolding dev_sectors_def disk_step_def by (intro arg_cong [where f = concat] map_cong) auto
  let ?es = "overwrite (entry_array (pvol s) 2) (?i * 128) (gpt_entry_bytes ?e)"
  have l: "length ?es = 16384" using p(1) d(1) length_gpt_new_entry [OF g(2,1)] by (subst length_overwrite) simp_all
  have ge: "create_gpt_partition_entry tguid guid start (start + sects - 1) 0 (cs @ 0 # rest) v1 = Some (Some ?e)"
    using m c(3) name_stored [OF nm] by (simp add: create_gpt_partition_entry_def malloc_def gpt_new_entry_def)
  let ?ps = "ps[?i := (ps ! ?i)\<lparr>pdrv_no := pdrv, partition_no := of_nat ?i, part_start_lba := start,
       sectors := sects, partition_guid := guid, partition_type_guid := tguid, gpt_entry := ?e\<rparr>]"
  define s2 where "s2 = s1\<lparr>partitions := Some ?ps\<rparr>"
  have s2: "pvol s2 = v1" "total_sectors s2 = sects" by (simp_all add: s2_def s1_def)
  obtain v2 where v2: "write_tables ?es tail s2 = Some (True, s2\<lparr>pvol := v2\<rparr>)"
    "sec v2 = table_sector sects ?es tail (sec v1)"
    using write_tables_ok [of s2 ?es tail] c d(2,3) l t unfolding s2 by auto
  have r: "disk_read 2 32 (replicate 16384 0) v1 = Some (True, entry_array (pvol s) 2)"
    using disk_read_array [OF c(1)] c(2) d(2,3) a by simp
  have "create_partition pdrv start sects guid tguid (cs @ 0 # rest) tail s
      = Some (True, s2\<lparr>pvol := v2, partition_count := ?i + 1\<rparr>)"
    unfolding create_partition_def Let_def using m v1(1) ps(1) p(1) r ge v2(1)
    by (simp add: malloc_def s1_def s2_def)
  moreover have "gpt_ok (unat sects) ?es v2" by (rule table_gpt_ok [OF d(2) l v2(2)])
  moreover have "sec v2 j = sec (pvol s) j" if "34 \<le> j \<and> (j < unat sects - 33 \<or> unat sects \<le> j)" for j
  proof -
    have "j \<noteq> unat sects - 1" "\<not> (unat sects - 33 \<le> j \<and> j < unat sects - 1)" using that d(2) by arith+
    then show ?thesis unfolding v2(2) v1(3) using that by (auto simp: table_sector_def)
  qed
  ultimately show ?thesis using ps(2) p(1)
    by (intro exI [of _ "s2\<lparr>pvol := v2, partition_count := ?i + 1\<rparr>"] exI [of _ ?ps]) (simp add: s2_def s1_def)
qed

text \<open>
  C6. Creating a partition: on a working disk with at least as many sectors as the partition and a free slot,
  \<open>create_partition\<close> succeeds; the disk then carries a table whose two headers and two entry arrays agree and
  pass their checksums, the new entry stands in the slot with its GUIDs, its range and its name, the other 127 entries
  are those that were there, and no sector outside the tables has changed. The partition is also in the table in memory.
\<close>

theorem create_partition_writes_table:
  assumes "dev_ok (cur_disk_no (pvol s)) (pvol s)" "128 \<le> unat sects" "unat sects \<le> dev_cap (cur_disk_no (pvol s)) (pvol s)"
    "disk_malloc_ok (pvol s) 128" "disk_malloc_ok (pvol s) 512" "disk_malloc_ok (pvol s) 712" "420 \<le> length tail"
    "length guid = 16" "length tguid = 16" "0 \<notin> set cs"
    "partition_count s < 4" "\<forall>ps. partitions s = Some ps \<longrightarrow> length ps = 4"
  shows "\<exists>s' ps. create_partition pdrv start sects guid tguid (cs @ 0 # rest) tail s = Some (True, s')
    \<and> partition_count s' = partition_count s + 1
    \<and> gpt_ok (unat sects) (overwrite (entry_array (pvol s) 2) (partition_count s * 128)
         (gpt_entry_bytes (gpt_new_entry tguid guid start sects cs))) (pvol s')
    \<and> (\<forall>j. 34 \<le> j \<and> (j < unat sects - 33 \<or> unat sects \<le> j) \<longrightarrow> sec (pvol s') j = sec (pvol s) j)
    \<and> partitions s' = Some ps \<and> length ps = 4 \<and> part_start_lba (ps ! partition_count s) = start
    \<and> sectors (ps ! partition_count s) = sects \<and> gpt_entry (ps ! partition_count s) = gpt_new_entry tguid guid start sects cs"
  by (rule create_partition_ok [OF assms])

text \<open>The manager before its first partition, on the 300-sector sample disk.\<close>

definition sample_mgr :: part_mgr where
  "sample_mgr = \<lparr>pvol = sample_fs, total_sectors = 0, partitions = None, partition_count = 0\<rparr>"

lemma sample_dev_facts: "dev_ok 0 sample_fs" "dev_cap 0 sample_fs = 300"
  using sample_vol_ok unfolding vol_ok_def dev_cap_def sample_fs_total by simp_all

lemma length_guids [simp]: "length ESP_GUID = 16" "length ESP_TYPE_GUID = 16" "length LINUX_FS_GUID = 16"
  by (simp_all add: ESP_GUID_def ESP_TYPE_GUID_def LINUX_FS_GUID_def)

theorem create_partition_writes_table_witness:
  "\<exists>s' entries. create_partition 0 40 200 ESP_GUID ESP_TYPE_GUID (str_bytes ''ESP'' @ [0]) (replicate 420 5) sample_mgr = Some (True, s')
     \<and> partition_count s' = 1 \<and> gpt_ok 200 entries (pvol s') \<and> sec (pvol s') 100 = sec sample_fs 100"
proof -
  have "0 \<notin> set (str_bytes ''ESP'')" by (simp add: str_bytes_def)
  then have "\<exists>s'. create_partition 0 40 200 ESP_GUID ESP_TYPE_GUID (str_bytes ''ESP'' @ [0]) (replicate 420 5) sample_mgr = Some (True, s')
    \<and> partition_count s' = 1 \<and> gpt_ok 200 (overwrite (entry_array sample_fs 2) 0 (gpt_entry_bytes (gpt_new_entry ESP_TYPE_GUID ESP_GUID 40 200 (str_bytes ''ESP'')))) (pvol s')
    \<and> (\<forall>j. 34 \<le> j \<and> (j < 167 \<or> 200 \<le> j) \<longrightarrow> sec (pvol s') j = sec sample_fs j)"
    using create_partition_writes_table [of sample_mgr 200 "replicate 420 5" ESP_GUID ESP_TYPE_GUID "str_bytes ''ESP''" 0 40 "[]"]
    by (simp add: sample_mgr_def sample_dev_facts) blast
  then show ?thesis by (elim exE conjE, intro exI conjI) (assumption | drule spec [of _ 100], simp)+
qed

text \<open>
  C23. The checksums of the partition table react to small changes: when up to four neighbouring bytes of a valid header sector change
  outside the checksum field itself (bytes 16 to 19), the stored checksum no longer fits the header, and when such a change hits
  the entry array, the array checksum no longer fits. (A change that reaches into the checksum field can be made to fit. No
  code of the repository checks a header it reads; \<open>header_valid\<close> is the test of the GPT format with the \<open>crc32\<close> of the code.)
\<close>

theorem gpt_checksums_detect_changes:
  assumes "header_valid sect es" "length w \<le> 4"
  shows "((off + length w \<le> 16 \<or> 20 \<le> off \<and> off + length w \<le> 92) \<and> length sect = 512 \<and> w \<noteq> bslice off (length w) sect
      \<longrightarrow> \<not> header_valid (overwrite sect off w) es)
    \<and> (off + length w \<le> length es \<and> w \<noteq> bslice off (length w) es \<longrightarrow> \<not> header_valid sect (overwrite es off w))"
proof -
  have split: "b = take off b @ bslice off (length w) b @ drop (off + length w) b" if "off + length w \<le> length b" for b :: bytes
    using that by (metis append_take_drop_id bslice_def drop_drop add.commute)
  have differ: "crc32 (overwrite b off w) \<noteq> crc32 b" if "off + length w \<le> length b" "w \<noteq> bslice off (length w) b" for b
    using crc32_window [of w "bslice off (length w) b" "take off b" "drop (off + length w) b"] split [OF that(1)] that assms(2)
    by (simp add: overwrite_def)
  have "\<not> header_valid sect (overwrite es off w)" if "off + length w \<le> length es" "w \<noteq> bslice off (length w) es"
    using differ [OF that] assms(1) by (simp add: header_valid_def)
  moreover have "\<not> header_valid (overwrite sect off w) es"
    if o: "off + length w \<le> 16 \<or> 20 \<le> off \<and> off + length w \<le> 92" and l: "length sect = 512" and w: "w \<noteq> bslice off (length w) sect"
  proof -
    let ?h = "wr32 (bslice 0 92 sect) 16 0"
    have lh: "length (bslice 0 92 sect) = 92" "length ?h = 92" using l by simp_all
    have "bslice 0 92 (overwrite sect off w) = overwrite (bslice 0 92 sect) off w"
      using o l by (intro nth_equalityI) (auto simp: nth_bslice nth_overwrite)
    then have "wr32 (bslice 0 92 (overwrite sect off w)) 16 0 = overwrite ?h off w"
      using o l by (intro nth_equalityI) (auto simp: wr32_def nth_overwrite)
    moreover have "bslice off (length w) ?h = bslice off (length w) sect"
      using o l by (auto simp: wr32_def bslice_overwrite_other bslice_bslice)
    moreover have "rd32 (overwrite sect off w) 16 = rd32 sect 16" using o l by (intro rd32_overwrite_other) auto
    ultimately show ?thesis using differ [of ?h] o w lh(2) assms(1) by (auto simp: header_valid_def)
  qed
  ultimately show ?thesis by blast
qed

lemma sample_header_valid:
  "header_valid (gpt_header_bytes (seal_header (primary_header 200 ESP_GUID (crc32 [1, 2, 3]))) @ replicate 420 0) [1, 2, 3]"
  by (rule sealed_header_valid) (simp_all add: primary_header_def)

theorem gpt_checksums_detect_changes_witness:
  "\<not> header_valid (overwrite (gpt_header_bytes (seal_header (primary_header 200 ESP_GUID (crc32 [1, 2, 3]))) @ replicate 420 0) 8 [7]) [1, 2, 3]
   \<and> \<not> header_valid (gpt_header_bytes (seal_header (primary_header 200 ESP_GUID (crc32 [1, 2, 3]))) @ replicate 420 0) [1, 9, 3]"
proof -
  let ?s = "gpt_header_bytes (seal_header (primary_header 200 ESP_GUID (crc32 [1, 2, 3]))) @ replicate 420 0"
  have "length ?s = 512" by (simp add: length_gpt_header_bytes seal_header_def primary_header_def str_bytes_def)
  moreover have "le32 65536 = [0, 0, 1, 0]" by code_simp
  then have "bslice 8 1 ?s = [0]"
    by (simp add: gpt_header_bytes_def seal_header_def primary_header_def str_bytes_def bslice_def)
  moreover have "overwrite [1, 2, 3] 1 [9] = [1, 9, 3 :: u8]" "bslice 1 1 [1, 2, 3 :: u8] = [2]" by (simp_all add: overwrite_def bslice_def)
  ultimately show ?thesis
    using gpt_checksums_detect_changes [OF sample_header_valid, of "[7]" 8] gpt_checksums_detect_changes [OF sample_header_valid, of "[9]" 1]
    by simp
qed

text \<open>
  C36. Where \<open>create_partition\<close> takes the size of the partition for the size of the disk: the backup array and the backup
  header, which belong at the end of the disk, are written into the partition itself whenever it starts before
  them (\<open>start < sects - 33\<close>), and the header that is written bounds the usable range below the end of the partition it lists.
\<close>

theorem create_partition_overwrites_partition:
  assumes "dev_ok (cur_disk_no (pvol s)) (pvol s)" "128 \<le> unat sects" "unat sects \<le> dev_cap (cur_disk_no (pvol s)) (pvol s)"
    "disk_malloc_ok (pvol s) 128" "disk_malloc_ok (pvol s) 512" "disk_malloc_ok (pvol s) 712" "420 \<le> length tail"
    "length guid = 16" "length tguid = 16" "0 \<notin> set cs"
    "partition_count s < 4" "\<forall>ps. partitions s = Some ps \<longrightarrow> length ps = 4"
    "34 \<le> unat start" "unat start < unat sects - 33" "unat start + unat sects < 2 ^ 64"
  shows "\<exists>s' e es. create_partition pdrv start sects guid tguid (cs @ 0 # rest) tail s = Some (True, s')
    \<and> gpt_entry_of (bslice (partition_count s * 128) 128 (entry_array (pvol s') 2)) = e \<and> start_lba e = start
    \<and> header_valid (sec (pvol s') (unat sects - 1)) es \<and> entry_array (pvol s') (unat sects - 33) = es
    \<and> unat sects - 1 < unat (end_lba e)
    \<and> unat (rd64 (sec (pvol s') 1) 48) < unat (end_lba e)"
proof -
  let ?e = "gpt_new_entry tguid guid start sects cs"
  let ?es = "overwrite (entry_array (pvol s) 2) (partition_count s * 128) (gpt_entry_bytes ?e)"
  obtain s' where s': "create_partition pdrv start sects guid tguid (cs @ 0 # rest) tail s = Some (True, s')" "gpt_ok (unat sects) ?es (pvol s')"
    using create_partition_ok [OF assms(1-12), of pdrv start rest] by blast
  have l: "partition_count s * 128 + length (gpt_entry_bytes ?e) \<le> length (entry_array (pvol s) 2)"
    using assms(1,11) length_gpt_new_entry [OF assms(9,8)] by simp
  have "bslice (partition_count s * 128) 128 ?es = gpt_entry_bytes ?e"
    by (rule bslice_overwrite_same [OF l]) (simp add: length_gpt_new_entry assms(8,9))
  then have "gpt_entry_of (bslice (partition_count s * 128) 128 (entry_array (pvol s') 2)) = ?e"
    using s'(2) assms(8,9) by (simp add: gpt_ok_def gpt_entry_roundtrip gpt_new_entry_def length_utf16_field)
  moreover have "unat (start + sects - 1) = unat start + unat sects - 1"
    using assms(2,15) by (subst unat_minus_u64) (simp_all add: unat_plus_u64)
  then have "unat sects - 1 < unat (end_lba ?e)" "unat sects - 34 < unat (end_lba ?e)" "start_lba ?e = start"
    using assms(2,13) by (simp_all add: gpt_new_entry_def)
  ultimately show ?thesis using s' by (intro exI [of _ s'] exI [of _ ?e] exI [of _ ?es]) (simp add: gpt_ok_def header_at_def)
qed

theorem create_partition_overwrites_partition_witness:
  "\<exists>s' e. create_partition 0 40 200 ESP_GUID ESP_TYPE_GUID (str_bytes ''ESP'' @ [0]) (replicate 420 5) sample_mgr = Some (True, s')
     \<and> gpt_entry_of (bslice 0 128 (entry_array (pvol s') 2)) = e \<and> start_lba e = 40 \<and> 199 < unat (end_lba e)
     \<and> unat (rd64 (sec (pvol s') 1) 48) < unat (end_lba e)"
proof -
  have "0 \<notin> set (str_bytes ''ESP'')" by (simp add: str_bytes_def)
  then show ?thesis
    using create_partition_overwrites_partition [of sample_mgr 200 "replicate 420 5" ESP_GUID ESP_TYPE_GUID "str_bytes ''ESP''" 40 0 "[]"]
    by (simp add: sample_mgr_def sample_dev_facts) blast
qed

section \<open>Further facts\<close>

definition entry_at :: "bytes \<Rightarrow> nat \<Rightarrow> GPTPartitionEntry" where
  "entry_at es i = gpt_entry_of (bslice (i * 128) 128 es)"

definition updated_entry :: "GPTPartitionEntry \<Rightarrow> u64 \<Rightarrow> u64 \<Rightarrow> bytes \<Rightarrow> u64 \<Rightarrow> GPTPartitionEntry" where
  "updated_entry e start sects cs attrs =
     e\<lparr>start_lba := start, end_lba := start + sects - 1, attributes := attrs, entry_name := utf16_field (take 36 cs)\<rparr>"

lemma update_partition_start:
  assumes "dev_ok (cur_disk_no (pvol s)) (pvol s)" "34 \<le> dev_cap (cur_disk_no (pvol s)) (pvol s)" "i < 128" "0 \<notin> set cs"
    "\<not> list_all (\<lambda>b. b = 0) (type_guid (entry_at (entry_array (pvol s) 2) i))"
  shows "update_partition no i start sects (cs @ 0 # rest) attrs tail s
    = write_tables (overwrite (entry_array (pvol s) 2) (i * 128)
        (gpt_entry_bytes (updated_entry (entry_at (entry_array (pvol s) 2) i) start sects cs attrs))) tail s"
  using assms disk_read_array [OF assms(1,2)] name_stored [OF assms(4)]
  by (simp add: update_partition_def entry_at_def updated_entry_def Let_def)

lemma length_updated_entry:
  "i < 128 \<Longrightarrow> length es = 16384 \<Longrightarrow> length (gpt_entry_bytes (updated_entry (entry_at es i) start sects cs attrs)) = 128"
  by (intro length_gpt_entry_bytes) (simp_all add: updated_entry_def entry_at_def gpt_entry_of_def length_utf16_field)

text \<open>
  Updating a used entry, with \<open>total_sectors\<close> as \<open>create_partition\<close> left it: the tables are rewritten with the entry
  changed and stay valid.
\<close>

lemma update_partition_ok:
  assumes d: "dev_ok (cur_disk_no (pvol s)) (pvol s)" "128 \<le> unat (total_sectors s)"
      "unat (total_sectors s) \<le> dev_cap (cur_disk_no (pvol s)) (pvol s)" "i < 128" "0 \<notin> set cs" "420 \<le> length tail"
    and u: "\<not> list_all (\<lambda>b. b = 0) (type_guid (entry_at (entry_array (pvol s) 2) i))"
  shows "\<exists>s'. update_partition no i start sects (cs @ 0 # rest) attrs tail s = Some (True, s')
    \<and> gpt_ok (unat (total_sectors s)) (overwrite (entry_array (pvol s) 2) (i * 128)
        (gpt_entry_bytes (updated_entry (entry_at (entry_array (pvol s) 2) i) start sects cs attrs))) (pvol s')"
proof -
  let ?es = "overwrite (entry_array (pvol s) 2) (i * 128)
        (gpt_entry_bytes (updated_entry (entry_at (entry_array (pvol s) 2) i) start sects cs attrs))"
  have l: "length ?es = 16384" using d(1,4) length_updated_entry [of i "entry_array (pvol s) 2"]
    by (subst length_overwrite) simp_all
  obtain v where "write_tables ?es tail s = Some (True, s\<lparr>pvol := v\<rparr>)" "sec v = table_sector (total_sectors s) ?es tail (sec (pvol s))"
    using write_tables_ok [OF d(1-3) l d(6)] by auto
  moreover have "34 \<le> dev_cap (cur_disk_no (pvol s)) (pvol s)" using d(2,3) by simp
  ultimately show ?thesis using update_partition_start [OF d(1) _ d(4,5) u] table_gpt_ok [OF d(2) l] by simp
qed

text \<open>
  After a start of the machine \<open>total_sectors\<close> is 0: the primary entry array is rewritten, the backup array would lie
  beyond the disk, and the function returns false with the old header on the changed array.
\<close>

lemma update_partition_before_create:
  assumes d: "dev_ok (cur_disk_no (pvol s)) (pvol s)" "34 \<le> dev_cap (cur_disk_no (pvol s)) (pvol s)" "i < 128" "0 \<notin> set cs"
    and u: "\<not> list_all (\<lambda>b. b = 0) (type_guid (entry_at (entry_array (pvol s) 2) i))" and z: "total_sectors s = 0"
  shows "\<exists>s'. update_partition no i start sects (cs @ 0 # rest) attrs tail s = Some (False, s')
    \<and> entry_array (pvol s') 2 = overwrite (entry_array (pvol s) 2) (i * 128)
        (gpt_entry_bytes (updated_entry (entry_at (entry_array (pvol s) 2) i) start sects cs attrs))
    \<and> sec (pvol s') 1 = sec (pvol s) 1"
proof -
  let ?es = "overwrite (entry_array (pvol s) 2) (i * 128)
        (gpt_entry_bytes (updated_entry (entry_at (entry_array (pvol s) 2) i) start sects cs attrs))"
  have l: "length ?es = 16384" using d(1,3) length_updated_entry [of i "entry_array (pvol s) 2"]
    by (subst length_overwrite) simp_all
  obtain v where v: "disk_write 2 32 ?es (pvol s) = Some (True, v)" "disk_step (pvol s) v"
    "sec v = (\<lambda>j. if 2 \<le> j \<and> j < 34 then bslice ((j - 2) * 512) 512 ?es else sec (pvol s) j)"
    using disk_write_step [OF _ _ d(1), of 2 2 32 32 ?es] d(2) l by auto
  have e: "entry_array v 2 = ?es" by (rule array_written [OF _ l]) (simp add: v(3))
  have "dev_ok (cur_disk_no v) v" using v(2) by (simp add: disk_step_def)
  then obtain ds dd where D: "get_disk (cur_disk_no v) v = Some dd" "disks v = Some ds" "cur_disk_no v < disk_count v"
    "unat (d_total_sectors dd) \<le> 2 ^ 48" by (auto elim!: dev_okE)
  then have "d_total_sectors dd < - 1" by (simp add: word_less_nat_alt unsigned_minus_1_eq_mask mask_eq_exp_minus_1)
  then have "disk_write (- 33) 32 ?es v = Some (False, v)" using D by (simp add: disk_write_def kebla_disk_write_def)
  then have "write_tables ?es tail s = Some (False, s\<lparr>pvol := v\<rparr>)" using v(1) z by (simp add: write_tables_def)
  then show ?thesis using update_partition_start [OF d(1,2,3,4) u] e v(3) by simp
qed

text \<open>\<open>get_partitions\<close> reads 16384 bytes into a block of 128: on a working disk it runs over its buffer.\<close>

lemma get_partitions_overruns_buffer:
  assumes "dev_ok (cur_disk_no (pvol s)) (pvol s)" "34 \<le> dev_cap (cur_disk_no (pvol s)) (pvol s)" "disk_malloc_ok (pvol s) 128"
  shows "get_partitions pdrv s = None"
proof -
  have "kebla_disk_read (cur_disk_no (pvol s)) 2 32 (replicate 128 0) (pvol s) = None"
  proof (rule dev_okE [OF assms(1)])
    fix port d ds
    assume d: "get_disk (cur_disk_no (pvol s)) (pvol s) = Some d" "disks (pvol s) = Some ds" "d_type d = DISK_TYPE_AHCI_SATA"
      "cur_disk_no (pvol s) < disk_count (pvol s)" "d_context d = Some port" "dev_drive (cur_disk_no (pvol s)) (pvol s) = drives (pvol s) port"
    then have "34 \<le> unat (sata_get_total_sectors (drives (pvol s) port))" using assms(2) by (simp add: dev_cap_def)
    then have "\<not> 34 > sata_get_total_sectors (drives (pvol s) port)" "sata_get_total_sectors (drives (pvol s) port) \<noteq> 0"
      by (auto simp: word_less_nat_alt)
    then show ?thesis using d by (simp add: kebla_disk_read_def sata_read_def Let_def)
  qed
  then show ?thesis using assms(3) by (simp add: get_partitions_def malloc_def disk_read_def)
qed

lemma generate_guid_version:
  "generate_guid t1 t2 st = (g, st') \<Longrightarrow> length g = 16 \<and> g ! 6 AND 0xF0 = 0x40 \<and> g ! 8 AND 0xC0 = 0x80"
proof -
  assume "generate_guid t1 t2 st = (g, st')"
  moreover have "(b AND 0xF OR 0x40) AND 0xF0 = (0x40 :: u8)" "(b AND 0x3F OR 0x80) AND 0xC0 = (0x80 :: u8)" for b
    by (rule bit_word_eqI, auto simp: bit_simps numeral_eq_Suc less_Suc_eq)+
  ultimately show ?thesis by (auto simp: generate_guid_def Let_def)
qed

end
