(* ===== verification/Paging.thy ===== *)
theory Paging
  imports PhysMem
begin

text \<open>
  Virtual memory of the kernel: the four-level page tables (kernel/src/memory/paging.c and paging.h), the
  page allocator on top of them (vmm.c) and the two heaps that hand out ranges of virtual pages (kheap.c,
  uheap.c).

  Page tables are 64-bit words of physical memory, addressed by their byte address. The code reaches them
  through two kinds of pointers: through the direct map (\<open>phys_to_vir\<close>) and, with the physical address itself,
  through the identity map the boot loader leaves in place; \<open>ptr_phys\<close> is the physical address either denotes.
  That is right as long as no page of these two maps is mapped anew: nothing in the code prevents it, and the
  kernel heap starts one page above the usual place of the direct map, so the properties
  take the mapped pages to lie outside of it (\<open>off_direct_map\<close>). The walk knows no large pages: the code does not look at
  the PS bit either, and tables that have it set are not sound tables here (\<open>table_tree\<close> holds for trees of 4 KiB pages).
  Bit-fields of the entries are bits of the words. A null pointer result is \<open>None\<close>, \<open>halt_kernel\<close> and failed
  assertions are \<open>Inl\<close>. Flushing the TLB has no effect on the tables.
\<close>

section \<open>State and address arithmetic\<close>

definition LOWER_HALF_START_ADDR :: u64 where "LOWER_HALF_START_ADDR = 0x1000"
definition LOWER_HALF_END_ADDR :: u64 where "LOWER_HALF_END_ADDR = 0x00007FFFFFFFFFFF"
definition HIGHER_HALF_START_ADDR :: u64 where "HIGHER_HALF_START_ADDR = 0xFFFF800000001000"
definition HIGHER_HALF_END_ADDR :: u64 where "HIGHER_HALF_END_ADDR = 0xFFFFFFFFFFFFFFFF"

definition PAGE_SIZE :: u64 where "PAGE_SIZE = 4096"

record vmem =
  pmem :: phys_mem
  word_at :: "u64 \<Rightarrow> u64"
  cr3 :: u64
  HHDM_OFFSET :: u64
  kernel_pml4 :: u64
  bsp_cr3 :: u64
  h_va_head :: u64
  l_va_head :: u64

definition PML4_INDEX :: "u64 \<Rightarrow> u64" where "PML4_INDEX va = drop_bit 39 va AND 0x1FF"
definition PDPT_INDEX :: "u64 \<Rightarrow> u64" where "PDPT_INDEX va = drop_bit 30 va AND 0x1FF"
definition PD_INDEX :: "u64 \<Rightarrow> u64" where "PD_INDEX va = drop_bit 21 va AND 0x1FF"
definition PT_INDEX :: "u64 \<Rightarrow> u64" where "PT_INDEX va = drop_bit 12 va AND 0x1FF"

definition phys_to_vir :: "u64 \<Rightarrow> vmem \<Rightarrow> u64" where
  "phys_to_vir pa s = pa + HHDM_OFFSET s"

definition vir_to_phys :: "u64 \<Rightarrow> vmem \<Rightarrow> u64" where
  "vir_to_phys va s = (if va = 0 then 0 else if va \<le> HHDM_OFFSET s then 0 else va - HHDM_OFFSET s)"

definition is_phys_addr :: "u64 \<Rightarrow> vmem \<Rightarrow> bool" where
  "is_phys_addr addr s = (addr < HHDM_OFFSET s)"

definition is_virt_addr :: "u64 \<Rightarrow> vmem \<Rightarrow> bool" where
  "is_virt_addr addr s = (\<not> addr < HHDM_OFFSET s)"

definition is_user_virt_addr :: "u64 \<Rightarrow> bool" where
  "is_user_virt_addr va = (va \<ge> LOWER_HALF_START_ADDR \<and> va < HIGHER_HALF_START_ADDR)"

definition is_kernel_virt_addr :: "u64 \<Rightarrow> bool" where
  "is_kernel_virt_addr va = (va \<ge> HIGHER_HALF_START_ADDR)"

definition ptr_phys :: "u64 \<Rightarrow> vmem \<Rightarrow> u64" where
  "ptr_phys p s = (if HHDM_OFFSET s \<le> p then p - HHDM_OFFSET s else p)"

text \<open>
  The addresses from \<open>lo\<close> up to \<open>hi\<close> meet no part of the direct map that the tables are reached through.
\<close>

definition off_direct_map :: "nat \<Rightarrow> nat \<Rightarrow> vmem \<Rightarrow> bool" where
  "off_direct_map lo hi s \<longleftrightarrow>
     hi \<le> unat (HHDM_OFFSET s) \<or> unat (HHDM_OFFSET s) + unat (USABLE_END_PHYS_MEM (pmem s)) \<le> lo"

definition page_lo :: "u64 \<Rightarrow> nat" where "page_lo va = unat va div 4096 * 4096"

section \<open>Entries\<close>

definition put_flag :: "nat \<Rightarrow> bool \<Rightarrow> u64 \<Rightarrow> u64" where
  "put_flag n b w = (if b then set_bit n w else unset_bit n w)"

definition ent_present :: "u64 \<Rightarrow> bool" where "ent_present w = bit w 0"

definition base_addr :: "u64 \<Rightarrow> u64" where "base_addr w = drop_bit 12 w AND mask 40"

definition put_base :: "u64 \<Rightarrow> u64 \<Rightarrow> u64" where
  "put_base v w = (w AND NOT (push_bit 12 (mask 40))) OR push_bit 12 (v AND mask 40)"

definition page_of :: "u64 \<Rightarrow> page" where
  "page_of w = \<lparr>pg_present = bit w 0, pg_rw = bit w 1, pg_user = bit w 2, pg_frame = ucast (base_addr w), pg_nx = bit w 63\<rparr>"

definition put_page :: "page \<Rightarrow> u64 \<Rightarrow> u64" where
  "put_page pg w = put_flag 0 (pg_present pg) (put_flag 1 (pg_rw pg) (put_flag 2 (pg_user pg)
     (put_flag 63 (pg_nx pg) (put_base (ucast (pg_frame pg)) w))))"

definition put_word :: "u64 \<Rightarrow> u64 \<Rightarrow> vmem \<Rightarrow> vmem" where
  "put_word a w s = s\<lparr>word_at := (word_at s)(a := w)\<rparr>"

section \<open>Walking and building the tables\<close>

text \<open>\<open>alloc_pdpt\<close>, \<open>alloc_pd\<close> and \<open>alloc_pt\<close> differ in the type of the table only.\<close>

definition zero_block :: "u64 \<Rightarrow> vmem \<Rightarrow> vmem" where
  "zero_block p s = s\<lparr>word_at := (\<lambda>a. if a - p < 4096 then 0 else word_at s a)\<rparr>"

definition alloc_pt :: "vmem \<Rightarrow> u64 \<times> vmem" where
  "alloc_pt s = (let (p, m) = kmalloc_a 4096 1 (pmem s); s1 = s\<lparr>pmem := m\<rparr>
     in if p = 0 then (0, s1) else (p, zero_block p s1))"

definition alloc_pd :: "vmem \<Rightarrow> u64 \<times> vmem" where "alloc_pd s = alloc_pt s"

definition alloc_pdpt :: "vmem \<Rightarrow> u64 \<times> vmem" where "alloc_pdpt s = alloc_pt s"

text \<open>
  One level of \<open>get_page\<close>: the entry at \<open>ea\<close> is made to point to a new table when it is not present and
  \<open>mk\<close> (the C parameter \<open>make\<close>) is set; the result is the address of the table it points to.
\<close>

definition enter_table :: "(vmem \<Rightarrow> u64 \<times> vmem) \<Rightarrow> bool \<Rightarrow> bool \<Rightarrow> u64 \<Rightarrow> vmem \<Rightarrow> u64 option \<times> vmem" where
  "enter_table alloc user mk ea s =
     (let (ok, s1) =
        (if ent_present (word_at s ea) then (True, s)
         else if \<not> mk then (False, s)
         else let (t, s1) = alloc s
              in if t = 0 then (False, s1)
                 else (True, put_word ea (put_base (drop_bit 12 t)
                        (put_flag 2 user (put_flag 1 True (put_flag 0 True (word_at s1 ea))))) s1))
      in if \<not> ok then (None, s1)
         else let e = put_flag 2 user (word_at s1 ea)
              in (Some (push_bit 12 (base_addr e)), put_word ea e s1))"

definition get_page :: "u64 \<Rightarrow> bool \<Rightarrow> u64 \<Rightarrow> vmem \<Rightarrow> kfault + (u64 option \<times> vmem)" where
  "get_page va mk pml4 s =
     (if pml4 = 0 then Inr (None, s)
      else let user = (\<not> va \<ge> HIGHER_HALF_START_ADDR);
               (r, s1) = enter_table alloc_pdpt user mk (ptr_phys (pml4 + 8 * PML4_INDEX va) s) s
           in case r of None \<Rightarrow> Inr (None, s1) | Some pdpt \<Rightarrow>
              let (r, s2) = enter_table alloc_pd user mk (ptr_phys (phys_to_vir (pdpt + 8 * PDPT_INDEX va) s1) s1) s1
              in case r of None \<Rightarrow> Inr (None, s2) | Some pd \<Rightarrow>
                 let (r, s3) = enter_table alloc_pt user mk (ptr_phys (phys_to_vir (pd + 8 * PD_INDEX va) s2) s2) s2
                 in case r of None \<Rightarrow> Inr (None, s3) | Some pt \<Rightarrow>
                    let pge = phys_to_vir (pt + 8 * PT_INDEX va) s3;
                        ea = ptr_phys pge s3;
                        w = word_at s3 ea
                    in if \<not> pg_present (page_of w)
                       then sum_bind (alloc_frame (page_of w) user True (pmem s3)) (\<lambda>(pg, m).
                              let s4 = put_word ea (put_page pg w) (s3\<lparr>pmem := m\<rparr>)
                              in if pg_frame pg = 0 then Inr (None, s4)
                                 else Inr (Some pge, put_word ea (put_flag 2 user (word_at s4 ea)) s4))
                       else Inr (Some pge, s3))"

section \<open>Pages and heaps\<close>

definition ALLOCATE_CODE :: u8 where "ALLOCATE_CODE = 1"
definition ALLOCATE_DATA :: u8 where "ALLOCATE_DATA = 2"
definition ALLOCATE_STACK :: u8 where "ALLOCATE_STACK = 3"

text \<open>
  \<open>vm_alloc\<close> takes a frame of its own although \<open>get_page\<close> has just given the page one, and its user flag is
  the opposite of \<open>get_page\<close>'s.
\<close>

definition vm_alloc :: "u64 \<Rightarrow> u8 \<Rightarrow> vmem \<Rightarrow> kfault + vmem" where
  "vm_alloc va typ s =
     (if cr3 s = 0 then Inr s
      else sum_bind (get_page va True (cr3 s) s) (\<lambda>(r, s1).
        case r of None \<Rightarrow> Inr s1
        | Some pge \<Rightarrow>
            let ea = ptr_phys pge s1; w = word_at s1 ea
            in sum_bind (alloc_frame (page_of w) (va \<ge> HIGHER_HALF_START_ADDR) True (pmem s1)) (\<lambda>(pg, m).
                 let s2 = s1\<lparr>pmem := m\<rparr>;
                     pg' = (if typ = ALLOCATE_CODE then pg\<lparr>pg_rw := False, pg_nx := True\<rparr>
                            else if typ = ALLOCATE_DATA \<or> typ = ALLOCATE_STACK then pg\<lparr>pg_rw := True, pg_nx := True\<rparr>
                            else pg)
                 in Inr (put_word ea (put_page pg' w) s2))))"

definition vm_free :: "u64 \<Rightarrow> vmem \<Rightarrow> kfault + vmem" where
  "vm_free va s =
     (if va = 0 then Inr s
      else if cr3 s = 0 then Inr s
      else sum_bind (get_page va False (cr3 s) s) (\<lambda>(r, s1).
        case r of None \<Rightarrow> Inr s1
        | Some pge \<Rightarrow>
            let ea = ptr_phys pge s1; w = word_at s1 ea
            in if \<not> pg_present (page_of w) then Inr s1
               else sum_bind (free_frame (page_of w) (pmem s1)) (\<lambda>(pg, m).
                      Inr (put_word ea (put_page (pg\<lparr>pg_present := False, pg_rw := False, pg_user := False, pg_frame := 0\<rparr>) w)
                             (s1\<lparr>pmem := m\<rparr>)))))"

text \<open>
  The loop of \<open>kheap_alloc\<close>, one page per round. The size is a multiple of the page size, so
  \<open>while (head < va + size)\<close> runs \<open>size div PAGE_SIZE\<close> rounds, or none when \<open>va + size\<close> wraps around.
\<close>

fun alloc_pages :: "nat \<Rightarrow> u64 \<Rightarrow> u8 \<Rightarrow> vmem \<Rightarrow> kfault + vmem" where
  "alloc_pages 0 va typ s = Inr s"
| "alloc_pages (Suc n) va typ s = sum_bind (vm_alloc va typ s) (\<lambda>s1. alloc_pages n (va + PAGE_SIZE) typ s1)"

definition page_up :: "u64 \<Rightarrow> u64" where "page_up sz = (sz + 0xFFF) AND 0xFFFFFFFFFFFFF000"

definition heap_rounds :: "u64 \<Rightarrow> u64 \<Rightarrow> nat" where
  "heap_rounds va sz = (if va < va + sz then unat (sz div PAGE_SIZE) else 0)"

definition kheap_alloc :: "u64 \<Rightarrow> u8 \<Rightarrow> vmem \<Rightarrow> kfault + (u64 option \<times> vmem)" where
  "kheap_alloc sz0 typ s =
     (let sz = page_up sz0; va = h_va_head s
      in if va + sz > HIGHER_HALF_END_ADDR then Inr (None, s)
         else sum_bind (alloc_pages (heap_rounds va sz) va typ s) (\<lambda>s1.
                Inr (Some va, s1\<lparr>h_va_head := va + of_nat (heap_rounds va sz) * PAGE_SIZE + PAGE_SIZE\<rparr>)))"

fun free_pages :: "nat \<Rightarrow> u64 \<Rightarrow> vmem \<Rightarrow> kfault + vmem" where
  "free_pages 0 va s = Inr s"
| "free_pages (Suc n) va s = sum_bind (vm_free va s) (\<lambda>s1. free_pages n (va + PAGE_SIZE) s1)"

definition kheap_free :: "u64 \<Rightarrow> u64 \<Rightarrow> vmem \<Rightarrow> kfault + vmem" where
  "kheap_free ptr sz0 s =
     (if ptr = 0 \<or> sz0 = 0 then Inr s else free_pages (unat (page_up sz0 div PAGE_SIZE)) ptr s)"

definition uheap_alloc :: "u64 \<Rightarrow> u8 \<Rightarrow> vmem \<Rightarrow> kfault + (u64 option \<times> vmem)" where
  "uheap_alloc sz0 typ s =
     (let sz = page_up sz0; va = l_va_head s
      in if va + sz > LOWER_HALF_END_ADDR then Inr (None, s)
         else sum_bind (alloc_pages (heap_rounds va sz) va typ s) (\<lambda>s1.
                Inr (Some va, s1\<lparr>l_va_head := va + of_nat (heap_rounds va sz) * PAGE_SIZE + PAGE_SIZE\<rparr>)))"

definition uheap_free :: "u64 \<Rightarrow> u64 \<Rightarrow> vmem \<Rightarrow> kfault + vmem" where
  "uheap_free ptr sz0 s =
     (if ptr = 0 \<or> sz0 = 0 then Inr s else free_pages (unat (page_up sz0 div PAGE_SIZE)) ptr s)"

section \<open>Setting up the address space\<close>

text \<open>
  The loops of \<open>init_bs_paging\<close>, \<open>init_bs_paging_with_new_pml4\<close> and \<open>init_ap_paging\<close> over \<open>n\<close> consecutive
  pages: each page is looked up or created, given a frame when it has none (which \<open>get_page\<close> has already done),
  and adjusted by \<open>fix\<close>; a page that cannot be made is skipped.
\<close>

fun init_pages :: "nat \<Rightarrow> u64 \<Rightarrow> u64 \<Rightarrow> bool \<Rightarrow> (bool \<Rightarrow> u64 \<Rightarrow> u64) \<Rightarrow> vmem \<Rightarrow> kfault + vmem" where
  "init_pages 0 addr pml4 user adj s = Inr s"
| "init_pages (Suc n) addr pml4 user adj s =
     sum_bind (get_page addr True pml4 s) (\<lambda>(r, s1).
       case r of None \<Rightarrow> init_pages n (addr + PAGE_SIZE) pml4 user adj s1
       | Some pge \<Rightarrow>
           let ea = ptr_phys pge s1; w = word_at s1 ea
           in if \<not> pg_present (page_of w) \<or> pg_frame (page_of w) = 0
              then sum_bind (alloc_frame (page_of w) user True (pmem s1)) (\<lambda>(pg, m).
                     init_pages n (addr + PAGE_SIZE) pml4 user adj (put_word ea (adj True (put_page pg w)) (s1\<lparr>pmem := m\<rparr>)))
              else init_pages n (addr + PAGE_SIZE) pml4 user adj (put_word ea (adj False w) s1))"

text \<open>The first ten megabytes from \<open>LOWER_HALF_START_ADDR\<close> on are \<open>0xA00\<close> pages.\<close>

definition init_bs_paging :: "vmem \<Rightarrow> kfault + vmem" where
  "init_bs_paging s =
     (let s1 = s\<lparr>bsp_cr3 := cr3 s, kernel_pml4 := phys_to_vir (cr3 s) s\<rparr>
      in if kernel_pml4 s1 = 0 then Inl Halted
         else init_pages 0xA00 LOWER_HALF_START_ADDR (kernel_pml4 s1) True
                (\<lambda>_ w. put_flag 63 False (put_flag 2 True w)) s1)"

definition set_cr3_addr :: "u64 \<Rightarrow> vmem \<Rightarrow> vmem" where
  "set_cr3_addr c s = (if c = 0 then s else s\<lparr>cr3 := c\<rparr>)"

definition init_ap_paging :: "vmem \<Rightarrow> kfault + vmem" where
  "init_ap_paging s =
     (let s1 = set_cr3_addr (bsp_cr3 s) s
      in init_pages 0xA00 LOWER_HALF_START_ADDR (phys_to_vir (cr3 s1) s1) True
           (\<lambda>fresh w. if fresh then put_flag 63 False w else w) s1)"

text \<open>
  One level of \<open>map_virtual_memory\<close>, which works on the raw 64-bit entries. \<open>tab\<close> is a pointer to the table;
  the result is a pointer to the next one. The address of a new table is passed through \<open>vir_to_phys\<close>, which
  answers 0 for an address below the direct map, and that is what \<open>kmalloc_a\<close> returns.
\<close>

definition raw_level :: "u64 \<Rightarrow> u64 \<Rightarrow> u64 \<Rightarrow> vmem \<Rightarrow> kfault + (u64 \<times> vmem)" where
  "raw_level tab idx flags s =
     (let ea = ptr_phys (tab + 8 * idx) s
      in if \<not> bit (word_at s ea) 0
         then let (t, m) = kmalloc_a 4096 1 (pmem s); s1 = s\<lparr>pmem := m\<rparr>
              in if t = 0 then Inl NullDeref
                 else Inr (t, put_word ea (vir_to_phys t s1 OR flags) (zero_block t s1))
         else Inr (phys_to_vir (word_at s ea AND 0xFFFFFFFFFFFFF000) s, s))"

fun map_pages_raw :: "nat \<Rightarrow> u64 \<Rightarrow> u64 \<Rightarrow> u64 \<Rightarrow> vmem \<Rightarrow> kfault + vmem" where
  "map_pages_raw 0 phys virt flags s = Inr s"
| "map_pages_raw (Suc n) phys virt flags s =
     sum_bind (raw_level (cr3 s) (PML4_INDEX virt) flags s) (\<lambda>(pdpt, s1).
     sum_bind (raw_level pdpt (PDPT_INDEX virt) flags s1) (\<lambda>(pd, s2).
     sum_bind (raw_level pd (PD_INDEX virt) flags s2) (\<lambda>(pt, s3).
       map_pages_raw n (phys + PAGE_SIZE) (virt + PAGE_SIZE) flags
         (put_word (ptr_phys (pt + 8 * PT_INDEX virt) s3) (phys OR flags) s3))))"

text \<open>A size within a page of \<open>2 ^ 64\<close>, for which the C loop would not end, is not considered: no caller has one.\<close>

definition map_virtual_memory :: "u64 \<Rightarrow> u64 \<Rightarrow> u64 \<Rightarrow> vmem \<Rightarrow> kfault + vmem" where
  "map_virtual_memory phys_addr sz flags s =
     map_pages_raw ((unat sz + 4095) div 4096) phys_addr (phys_to_vir phys_addr s) flags s"

definition create_new_pml4 :: "vmem \<Rightarrow> kfault + (u64 \<times> vmem)" where
  "create_new_pml4 s =
     (let (p, m) = kmalloc_a 4096 1 (pmem s); s1 = s\<lparr>pmem := m\<rparr>
      in if p = 0 then Inl NullDeref
         else sum_bind (map_virtual_memory p 4096 3 (zero_block p s1)) (\<lambda>s2. Inr (p, s2)))"

definition init_bs_paging_with_new_pml4 :: "vmem \<Rightarrow> kfault + vmem" where
  "init_bs_paging_with_new_pml4 s =
     sum_bind (create_new_pml4 s) (\<lambda>(p, s1).
       let s2 = (set_cr3_addr p (s1\<lparr>bsp_cr3 := p\<rparr>))\<lparr>kernel_pml4 := phys_to_vir p s1\<rparr>
       in sum_bind (init_pages 0x100 HIGHER_HALF_START_ADDR (kernel_pml4 s2) False (\<lambda>_ w. w) s2) (\<lambda>s3.
            init_pages 0x100 LOWER_HALF_START_ADDR (kernel_pml4 s2) True (\<lambda>_ w. w) s3))"

definition map_level :: "bool \<Rightarrow> u64 \<Rightarrow> vmem \<Rightarrow> u64 option \<times> vmem" where
  "map_level user ea s =
     (if ent_present (word_at s ea) then (Some (phys_to_vir (push_bit 12 (base_addr (word_at s ea))) s), s)
      else let (t, s1) = alloc_pt s
           in if t = 0 then (None, s1)
              else let s2 = zero_block t s1;
                       e = put_flag 2 user (put_flag 1 True (put_flag 0 True
                             (put_base (drop_bit 12 (vir_to_phys t s2)) (word_at s2 ea))))
                   in (Some (phys_to_vir (push_bit 12 (base_addr e)) s2), put_word ea e s2))"

definition map_page :: "u64 \<Rightarrow> u64 \<Rightarrow> u64 \<Rightarrow> vmem \<Rightarrow> int \<times> vmem" where
  "map_page phys_page virt_addr flags s =
     (if phys_page AND 0xFFF \<noteq> 0 \<or> virt_addr AND 0xFFF \<noteq> 0 then (-1, s)
      else let pml4 = phys_to_vir (cr3 s AND 0xFFFFFFFFFFFFF000) s; user = virt_addr < HIGHER_HALF_START_ADDR
           in if pml4 = 0 then (-1, s)
              else let (r, s1) = map_level user (ptr_phys (pml4 + 8 * PML4_INDEX virt_addr) s) s
              in case r of None \<Rightarrow> (-1, s1) | Some pdpt \<Rightarrow>
                 let (r, s2) = map_level user (ptr_phys (pdpt + 8 * PDPT_INDEX virt_addr) s1) s1
                 in case r of None \<Rightarrow> (-1, s2) | Some pd \<Rightarrow>
                    let (r, s3) = map_level user (ptr_phys (pd + 8 * PD_INDEX virt_addr) s2) s2
                    in case r of None \<Rightarrow> (-1, s3) | Some pt \<Rightarrow>
                       let ea = ptr_phys (pt + 8 * PT_INDEX virt_addr) s3;
                           pg = (page_of (word_at s3 ea))\<lparr>pg_frame := ucast (drop_bit 12 phys_page), pg_present := bit flags 0,
                                  pg_rw := bit flags 1, pg_user := bit flags 2\<rparr>
                       in (0, put_word ea (put_page pg (word_at s3 ea)) s3))"

fun map_range_loop :: "nat \<Rightarrow> u64 \<Rightarrow> u64 \<Rightarrow> u64 \<Rightarrow> vmem \<Rightarrow> int \<times> vmem" where
  "map_range_loop 0 p v flags s = (0, s)"
| "map_range_loop (Suc n) p v flags s =
     (let (r, s1) = map_page p v flags s
      in if r \<noteq> 0 then (-1, s1) else map_range_loop n (p + PAGE_SIZE) (v + PAGE_SIZE) flags s1)"

definition map_range :: "u64 \<Rightarrow> u64 \<Rightarrow> u64 \<Rightarrow> u64 \<Rightarrow> vmem \<Rightarrow> int \<times> vmem" where
  "map_range phys_start virt_start sz flags s =
     (if phys_start AND 0xFFF \<noteq> 0 \<or> virt_start AND 0xFFF \<noteq> 0 then (-1, s)
      else map_range_loop (unat ((sz + PAGE_SIZE - 1) div PAGE_SIZE)) phys_start virt_start flags s)"

section \<open>Bits of entries\<close>

lemma bit_put_flag: "n < 64 \<Longrightarrow> bit (put_flag n b w) k = (if k = n then b else bit w k)"
  by (auto simp: put_flag_def bit_simps)

lemma bit_put_base: "bit (put_base v w) k = (if 12 \<le> k \<and> k < 52 then bit v (k - 12) else bit w k)" if "k < 64"
  using that by (auto simp: put_base_def bit_simps)

lemma base_put_flag: "n < 12 \<or> 52 \<le> n \<Longrightarrow> n < 64 \<Longrightarrow> base_addr (put_flag n b w) = base_addr w"
  by (rule bit_word_eqI) (auto simp: base_addr_def bit_simps bit_put_flag)

lemma base_put_base: "base_addr (put_base v w) = v AND mask 40"
  by (rule bit_word_eqI) (auto simp: base_addr_def bit_simps bit_put_base)

lemma present_simps [simp]:
  "ent_present (put_flag 0 b w) = b" "0 < n \<Longrightarrow> n < 64 \<Longrightarrow> ent_present (put_flag n b w) = ent_present w"
  "ent_present (put_base v w) = ent_present w" "\<not> ent_present 0"
  by (auto simp: ent_present_def bit_put_flag bit_put_base)

text \<open>
  Page addresses below \<open>2 ^ 46\<close>: they survive in the base field, and the direct map in the upper half of the
  address space, \<open>2 ^ 47\<close> bytes, reaches them.
\<close>

definition page_addr :: "u64 \<Rightarrow> bool" where
  "page_addr a \<longleftrightarrow> unat a mod 4096 = 0 \<and> unat a + 4096 \<le> 2 ^ 46"

lemma page_addr_bits:
  assumes "page_addr a"
  shows "push_bit 12 (drop_bit 12 a AND mask 40) = a"
proof -
  have "a AND 0xFFF = 0" using assms by (simp add: page_addr_def low12_zero_iff)
  then have lo: "take_bit 12 a = 0" by (simp add: take_bit_eq_mask mask_eq_exp_minus_1)
  have "unat a < 2 ^ 52" using assms by (simp add: page_addr_def)
  then have hi: "take_bit 52 a = a"
    by (intro unat_eqI) (simp only: unsigned_take_bit_eq take_bit_nat_eq_self)
  show ?thesis
  proof (rule bit_word_eqI)
    fix k assume "k < LENGTH(64)"
    moreover have "bit a k \<Longrightarrow> 12 \<le> k" using lo by (metis bit_take_bit_iff bit_0_eq bot_apply bot_bool_def not_le)
    moreover have "bit a k \<Longrightarrow> k < 52" using hi by (metis bit_take_bit_iff)
    ultimately show "bit (push_bit 12 (drop_bit 12 a AND mask 40)) k = bit a k"
      by (auto simp: bit_simps)
  qed
qed

lemma slot_inject:
  assumes "page_addr a" "page_addr b" "i < 512" "j < 512" "a + 8 * i = b + 8 * j"
  shows "a = b \<and> i = j"
proof -
  have u: "unat (x + 8 * k) = unat x + 8 * unat k" if "page_addr x" "k < 512" for x k :: u64
  proof -
    have k: "unat k < 512" using that(2) by (simp add: word_less_nat_alt)
    then have "unat (8 * k) = 8 * unat k" by (subst unat_word_ariths) simp
    then show ?thesis using that(1) k by (subst unat_plus_u64) (auto simp: page_addr_def)
  qed
  have e: "unat a + 8 * unat i = unat b + 8 * unat j" using u [OF assms(1,3)] u [OF assms(2,4)] assms(5) by metis
  have "unat i < 512" "unat j < 512" using assms by (simp_all add: word_less_nat_alt)
  then have "(unat a + 8 * unat i) mod 4096 = 8 * unat i" "(unat b + 8 * unat j) mod 4096 = 8 * unat j"
    using assms(1,2) by (auto simp: page_addr_def mod_add_left_eq [symmetric])
  then have "unat i = unat j" using e by simp
  then show ?thesis using e by (auto intro: unat_eqI)
qed

lemma slot_in_block:
  assumes "page_addr a" "j < 512"
  shows "unat (a + 8 * j) = unat a + 8 * unat j" "unat (a + 8 * j) < unat a + 4096"
proof -
  have k: "unat j < 512" using assms(2) by (simp add: word_less_nat_alt)
  then have "unat (8 * j) = 8 * unat j" by (subst unat_word_ariths) simp
  then show "unat (a + 8 * j) = unat a + 8 * unat j" using assms(1) k by (subst unat_plus_u64) (auto simp: page_addr_def)
  then show "unat (a + 8 * j) < unat a + 4096" using k by simp
qed

section \<open>The walk of the memory management unit\<close>

fun walk :: "(u64 \<Rightarrow> u64) \<Rightarrow> u64 \<Rightarrow> u64 list \<Rightarrow> u64 option" where
  "walk W t [] = Some t"
| "walk W t (i # is) = (if ent_present (W (t + 8 * i)) then walk W (push_bit 12 (base_addr (W (t + 8 * i)))) is else None)"

lemma walk_snoc:
  "walk W t (q @ [j]) = Option.bind (walk W t q) (\<lambda>b. if ent_present (W (b + 8 * j))
     then Some (push_bit 12 (base_addr (W (b + 8 * j)))) else None)"
  by (induction q arbitrary: t) auto

lemma walk_append: "walk W t (p @ q) = Option.bind (walk W t p) (\<lambda>b. walk W b q)"
  by (induction p arbitrary: t) auto

definition idxs :: "u64 list \<Rightarrow> bool" where
  "idxs p \<longleftrightarrow> length p \<le> 3 \<and> (\<forall>i\<in>set p. i < 512)"

text \<open>
  The tables below a root form a tree of pages that lie below the head of the placement allocator: two
  different index paths never lead to the same table.
\<close>

definition table_tree :: "(u64 \<Rightarrow> u64) \<Rightarrow> u64 \<Rightarrow> nat \<Rightarrow> bool" where
  "table_tree W root hi \<longleftrightarrow>
     (\<forall>p a. idxs p \<and> walk W root p = Some a \<longrightarrow> page_addr a \<and> unat a + 4096 \<le> hi)
   \<and> (\<forall>p q a. idxs p \<and> idxs q \<and> walk W root p = Some a \<and> walk W root q = Some a \<longrightarrow> p = q)"

text \<open>The leaf entry for a table path and an index; 0 where there is no table.\<close>

definition leaf :: "(u64 \<Rightarrow> u64) \<Rightarrow> u64 \<Rightarrow> u64 list \<Rightarrow> u64 \<Rightarrow> u64" where
  "leaf W root p j = (case walk W root p of None \<Rightarrow> 0 | Some b \<Rightarrow> W (b + 8 * j))"

definition path_of :: "u64 \<Rightarrow> u64 list" where
  "path_of va = [PML4_INDEX va, PDPT_INDEX va, PD_INDEX va]"

definition translate :: "(u64 \<Rightarrow> u64) \<Rightarrow> u64 \<Rightarrow> u64 \<Rightarrow> u64 option" where
  "translate W root va = (let e = leaf W root (path_of va) (PT_INDEX va)
     in if ent_present e then Some (push_bit 12 (base_addr e) + (va AND 0xFFF)) else None)"

lemma index_less:
  "PML4_INDEX va < 512" "PDPT_INDEX va < 512" "PD_INDEX va < 512" "PT_INDEX va < 512"
proof -
  have "x AND 0x1FF < 512" for x :: u64
  proof -
    have "x AND 0x1FF = take_bit 9 x" by (simp add: take_bit_eq_mask mask_eq_exp_minus_1)
    then show ?thesis using take_bit_int_less_exp by (simp add: word_less_nat_alt unsigned_take_bit_eq take_bit_nat_def)
  qed
  then show "PML4_INDEX va < 512" "PDPT_INDEX va < 512" "PD_INDEX va < 512" "PT_INDEX va < 512"
    by (simp_all add: PML4_INDEX_def PDPT_INDEX_def PD_INDEX_def PT_INDEX_def)
qed

lemma idxs_path: "idxs (path_of va)" "idxs [PML4_INDEX va]" "idxs [PML4_INDEX va, PDPT_INDEX va]" "idxs []"
  using index_less [of va] by (auto simp: idxs_def path_of_def)

lemma idxs_prefix: "idxs (p @ q) \<Longrightarrow> idxs p"
  by (auto simp: idxs_def)

lemma treeD:
  assumes "table_tree W root hi" "idxs p" "walk W root p = Some a"
  shows "page_addr a" "unat a + 4096 \<le> hi" "idxs q \<Longrightarrow> walk W root q = Some a \<Longrightarrow> p = q"
  using assms unfolding table_tree_def by blast+

text \<open>Entries that keep their present bit and their base leave every walk as it is.\<close>

lemma walk_cong:
  assumes "\<And>a. ent_present (W' a) = ent_present (W a)" "\<And>a. ent_present (W a) \<Longrightarrow> base_addr (W' a) = base_addr (W a)"
  shows "walk W' t p = walk W t p"
  by (induction p arbitrary: t) (simp_all add: assms)

section \<open>Changing one entry\<close>

text \<open>
  \<open>W'\<close> differs from \<open>W\<close> in the entry \<open>i\<close> of the table at path \<open>p\<close> and above \<open>hi\<close> at most: paths that do not
  go through the entry lead where they led.
\<close>

lemma walk_elsewhere:
  assumes T: "table_tree W root hi" and p: "idxs p" "i < 512" "walk W root p = Some t"
    and W': "\<And>a. a \<noteq> t + 8 * i \<Longrightarrow> unat a < hi \<Longrightarrow> W' a = W a"
    and q: "idxs q" "\<not> (\<exists>r. q = p @ i # r)"
  shows "walk W' root q = walk W root q"
  using q
proof (induction q rule: rev_induct)
  case (snoc j q)
  have iq: "idxs q" "j < 512" using snoc.prems(1) by (auto simp: idxs_def)
  have IH: "walk W' root q = walk W root q" using snoc iq by (metis append.assoc append_Cons)
  show ?case
  proof (cases "walk W root q")
    case (Some b)
    note D = treeD [OF T iq(1) Some]
    have "b + 8 * j \<noteq> t + 8 * i"
    proof
      assume "b + 8 * j = t + 8 * i"
      then have "b = t \<and> j = i" using slot_inject [OF D(1) treeD(1) [OF T p(1,3)] iq(2) p(2)] by blast
      then have "q = p" "j = i" using D(3) [OF p(1)] p(3) by auto
      then show False using snoc.prems(2) by auto
    qed
    then have "W' (b + 8 * j) = W (b + 8 * j)"
      using W' slot_in_block [OF D(1) iq(2)] D(2) by simp
    then show ?thesis by (simp add: walk_snoc IH Some)
  qed (simp add: walk_snoc IH)
qed simp

lemma put_leaf:
  fixes e :: u64
  assumes T: "table_tree W root hi" and p: "idxs p" "length p = 3" "i < 512" "walk W root p = Some t"
  defines "W' \<equiv> W(t + 8 * i := e)"
  shows "table_tree W' root hi" "idxs q \<Longrightarrow> walk W' root q = walk W root q"
    "idxs q \<Longrightarrow> j < 512 \<Longrightarrow> leaf W' root q j = (if q = p \<and> j = i then e else leaf W root q j)"
proof -
  show w: "walk W' root q = walk W root q" if "idxs q" for q
    using that p(2) by (intro walk_elsewhere [OF T p(1,3,4)]) (auto simp: W'_def idxs_def)
  show "table_tree W' root hi" using T w unfolding table_tree_def by metis
  show "leaf W' root q j = (if q = p \<and> j = i then e else leaf W root q j)" if q: "idxs q" "j < 512"
  proof (cases "walk W root q")
    case (Some b)
    have "b + 8 * j = t + 8 * i \<longleftrightarrow> q = p \<and> j = i"
    proof
      assume "b + 8 * j = t + 8 * i"
      then have "b = t \<and> j = i"
        using slot_inject [OF treeD(1) [OF T q(1) Some] treeD(1) [OF T p(1,4)] q(2) p(3)] by blast
      then show "q = p \<and> j = i" using treeD(3) [OF T q(1) Some p(1)] p(4) by auto
    qed (use Some p(4) in auto)
    then have "W' (b + 8 * j) = (if q = p \<and> j = i then e else W (b + 8 * j))" by (simp add: W'_def)
    then show ?thesis using Some w [OF q(1)] by (simp add: leaf_def)
  next
    case None
    then show ?thesis using p(4) w [OF q(1)] by (auto simp: leaf_def)
  qed
qed

text \<open>A new, empty table at \<open>n\<close> is hooked into an entry that was not present.\<close>

lemma hook_table:
  assumes T: "table_tree W root hi" and p: "idxs (p @ [i])" "walk W root p = Some t"
    and np: "\<not> ent_present (W (t + 8 * i))" and n: "page_addr n" "hi \<le> unat n"
    and e: "ent_present e" "push_bit 12 (base_addr e) = n"
    and W': "W' (t + 8 * i) = e" "\<And>a. unat n \<le> unat a \<Longrightarrow> unat a < unat n + 4096 \<Longrightarrow> W' a = 0"
      "\<And>a. a \<noteq> t + 8 * i \<Longrightarrow> unat a < hi \<Longrightarrow> W' a = W a"
  shows "table_tree W' root (unat n + 4096)" "walk W' root (p @ [i]) = Some n"
    "idxs q \<Longrightarrow> j < 512 \<Longrightarrow> length q = 3 \<Longrightarrow> leaf W' root q j = leaf W root q j"
proof -
  have ip: "idxs p" "i < 512" "length p < 3" using p(1) by (auto simp: idxs_def)
  have same: "walk W' root q = walk W root q" if "idxs q" "\<not> (\<exists>r. q = p @ i # r)" for q
    by (rule walk_elsewhere [OF T ip(1,2) p(2) W'(3) that])
  have wp: "walk W' root p = Some t" using same [OF ip(1)] p(2) by auto
  show wi: "walk W' root (p @ [i]) = Some n" by (simp add: walk_snoc wp W'(1) e)
  have fresh: "W' (n + 8 * j) = 0" if "j < 512" for j
    using W'(2) slot_in_block [OF n(1) that] by simp
  have below: "walk W' root (p @ i # r) = None" if "r \<noteq> []" "idxs (p @ i # r)" for r
  proof -
    obtain j r' where r: "r = j # r'" using \<open>r \<noteq> []\<close> by (cases r) auto
    have "walk W' root (p @ i # r) = walk W' n r" using walk_append [of W' root "p @ [i]" r] wi by simp
    moreover have "j < 512" using that(2) r by (simp add: idxs_def)
    ultimately show ?thesis using fresh r by simp
  qed
  have old: "walk W root (p @ i # r) = None" for r
    using np by (simp add: walk_append p(2))
  have char: "walk W' root q = (if q = p @ [i] then Some n else walk W root q)" if "idxs q" for q
  proof (cases "\<exists>r. q = p @ i # r")
    case True
    then obtain r where "q = p @ i # r" by blast
    then show ?thesis using wi below [of r] old [of r] that by auto
  qed (use same that in auto)
  show "table_tree W' root (unat n + 4096)"
    unfolding table_tree_def
  proof (intro conjI allI impI)
    fix q a assume "idxs q \<and> walk W' root q = Some a"
    then show "page_addr a" "unat a + 4096 \<le> unat n + 4096"
      using char [of q] n treeD(1,2) [OF T, of q a] by (auto split: if_splits)
  next
    fix q q' a assume a: "idxs q \<and> idxs q' \<and> walk W' root q = Some a \<and> walk W' root q' = Some a"
    have "walk W root q \<noteq> Some n" if "idxs q" for q
      using treeD(1,2) [OF T that, of n] n(2) by fastforce
    then show "q = q'" using a char [of q] char [of q'] treeD(3) [OF T, of q a q'] by (auto split: if_splits)
  qed
  show "leaf W' root q j = leaf W root q j" if q: "idxs q" "j < 512" "length q = 3"
  proof (cases "q = p @ [i]")
    case True
    then show ?thesis using wi fresh [OF q(2)] old [of "[]"] by (simp add: leaf_def)
  next
    case False
    then have w: "walk W' root q = walk W root q" using char [OF q(1)] by simp
    have "W' (b + 8 * j) = W (b + 8 * j)" if b: "walk W root q = Some b" for b
    proof (rule W'(3))
      note D = treeD [OF T q(1) b]
      show "unat (b + 8 * j) < hi" using slot_in_block [OF D(1) q(2)] D(2) by simp
      show "b + 8 * j \<noteq> t + 8 * i"
        using slot_inject [OF D(1) treeD(1) [OF T ip(1) p(2)] q(2) ip(2)] D(3) [OF ip(1)] p(2) q(3) ip(3) by auto
    qed
    then show ?thesis using w by (auto simp: leaf_def split: option.split)
  qed
qed

lemma set_user:
  fixes user :: bool
  assumes T: "table_tree W root hi" and p: "idxs (p @ [i])" "walk W root p = Some t"
  defines "W' \<equiv> W(t + 8 * i := put_flag 2 user (W (t + 8 * i)))"
  shows "table_tree W' root hi" "walk W' root q = walk W root q"
    "idxs q \<Longrightarrow> j < 512 \<Longrightarrow> length q = 3 \<Longrightarrow> leaf W' root q j = leaf W root q j"
proof -
  have ip: "idxs p" "i < 512" "length p < 3" using p(1) by (auto simp: idxs_def)
  show w: "walk W' root q = walk W root q" for q
    by (rule walk_cong) (auto simp: W'_def base_put_flag)
  show "table_tree W' root hi" using T unfolding table_tree_def w .
  show "leaf W' root q j = leaf W root q j" if q: "idxs q" "j < 512" "length q = 3"
  proof (cases "walk W root q")
    case (Some b)
    note D = treeD [OF T q(1) Some]
    have "b + 8 * j \<noteq> t + 8 * i"
      using slot_inject [OF D(1) treeD(1) [OF T ip(1) p(2)] q(2) ip(2)] D(3) [OF ip(1)] p(2) q(3) ip(3) by auto
    then have "W' (b + 8 * j) = W (b + 8 * j)" by (simp add: W'_def)
    then show ?thesis using Some w [of q] by (simp add: leaf_def)
  qed (use w [of q] in \<open>simp add: leaf_def\<close>)
qed

section \<open>Building the path to a page\<close>

definition pages_ok :: "u64 \<Rightarrow> vmem \<Rightarrow> bool" where
  "pages_ok root s \<longleftrightarrow> table_tree (word_at s) root (unat (phys_mem_head (pmem s)))
     \<and> 2 ^ 46 \<le> unat (HHDM_OFFSET s) \<and> unat (HHDM_OFFSET s) + 2 ^ 46 < 2 ^ 64
     \<and> unat (USABLE_END_PHYS_MEM (pmem s)) \<le> 2 ^ 46"

text \<open>The placement allocator can still hand out \<open>n\<close> tables.\<close>

definition room :: "nat \<Rightarrow> vmem \<Rightarrow> bool" where
  "room n s \<longleftrightarrow> 0 < unat (phys_mem_head (pmem s))
     \<and> unat (phys_mem_head (pmem s)) + n * 8192 \<le> unat (USABLE_END_PHYS_MEM (pmem s))"

definition only_tables :: "vmem \<Rightarrow> vmem \<Rightarrow> bool" where
  "only_tables s s' \<longleftrightarrow> (\<exists>h W. s' = s\<lparr>pmem := (pmem s)\<lparr>phys_mem_head := h\<rparr>, word_at := W\<rparr>)"

lemma only_tables_refl: "only_tables s s"
  unfolding only_tables_def by (rule exI [of _ "phys_mem_head (pmem s)"], rule exI [of _ "word_at s"]) simp

lemma only_tables_trans: "only_tables s1 s2 \<Longrightarrow> only_tables s2 s3 \<Longrightarrow> only_tables s1 s3"
  unfolding only_tables_def by force

lemma only_tables_word: "only_tables s (s\<lparr>word_at := W\<rparr>)"
  unfolding only_tables_def by (rule exI [of _ "phys_mem_head (pmem s)"], rule exI [of _ W]) simp

definition same_leaves :: "u64 \<Rightarrow> vmem \<Rightarrow> vmem \<Rightarrow> bool" where
  "same_leaves root s s' \<longleftrightarrow>
     (\<forall>q j. idxs q \<and> length q = 3 \<and> j < 512 \<longrightarrow> leaf (word_at s') root q j = leaf (word_at s) root q j)"

lemma same_leaves_trans: "same_leaves root s1 s2 \<Longrightarrow> same_leaves root s2 s3 \<Longrightarrow> same_leaves root s1 s3"
  by (simp add: same_leaves_def)

lemma alloc_pt_ok:
  assumes "room (Suc n) s" "unat (USABLE_END_PHYS_MEM (pmem s)) \<le> 2 ^ 46"
  shows "\<exists>t h. alloc_pt s = (t, zero_block t (s\<lparr>pmem := (pmem s)\<lparr>phys_mem_head := h\<rparr>\<rparr>)) \<and> t \<noteq> 0 \<and> page_addr t
    \<and> unat (phys_mem_head (pmem s)) \<le> unat t \<and> unat h = unat t + 4096
    \<and> unat h + n * 8192 \<le> unat (USABLE_END_PHYS_MEM (pmem s))"
proof -
  obtain t m where k: "kmalloc_a 4096 1 (pmem s) = (t, m)" by fastforce
  have r: "unat (phys_mem_head (pmem s)) + 8192 + n * 8192 \<le> unat (USABLE_END_PHYS_MEM (pmem s))"
    "0 < unat (phys_mem_head (pmem s))" using assms(1) by (simp_all add: room_def)
  have lt: "phys_mem_head (pmem s) < USABLE_END_PHYS_MEM (pmem s)" using r by (simp add: word_less_nat_alt)
  have sp: "unat t = (unat (phys_mem_head (pmem s)) + 4095) div 4096 * 4096" "unat (phys_mem_head m) = unat t + 4096"
    using kmalloc_a_spec [OF k lt] r assms(2) by simp_all
  define h where "h = phys_mem_head m"
  have m: "m = (pmem s)\<lparr>phys_mem_head := h\<rparr>"
    using k lt by (auto simp: kmalloc_a_def page_align_head_def Let_def h_def split: if_splits)
  have b: "unat (phys_mem_head (pmem s)) \<le> unat t" "unat t \<le> unat (phys_mem_head (pmem s)) + 4095"
    "unat t mod 4096 = 0" unfolding sp(1) using round_up_div [of 4096 "unat (phys_mem_head (pmem s))"]
      div_mult_mod_eq [of "unat (phys_mem_head (pmem s))" 4096] by (auto split: if_splits)
  then have "t \<noteq> 0" using r by auto
  then have "alloc_pt s = (t, zero_block t (s\<lparr>pmem := (pmem s)\<lparr>phys_mem_head := h\<rparr>\<rparr>))"
    using k m by (simp add: alloc_pt_def)
  then show ?thesis using b sp(2) r assms(2) \<open>t \<noteq> 0\<close> by (auto simp: page_addr_def h_def)
qed

lemma room_Suc: "room (Suc n) s \<Longrightarrow> room n s"
  by (simp add: room_def)

lemma in_block_iff:
  fixes a :: u64
  assumes "page_addr p"
  shows "a - p < 4096 \<longleftrightarrow> unat p \<le> unat a \<and> unat a < unat p + 4096"
proof (cases "p \<le> a")
  case True
  then have "unat (a - p) = unat a - unat p" by (simp add: word_le_nat_alt unat_sub_if_size)
  then show ?thesis using True by (auto simp: word_less_nat_alt word_le_nat_alt)
next
  case False
  then have "unat (a - p) = unat a + 2 ^ 64 - unat p" by (simp add: word_le_nat_alt unat_sub_if_size word_size)
  then show ?thesis using False assms by (auto simp: word_less_nat_alt word_le_nat_alt page_addr_def)
qed

lemma put_zero_word_at:
  "page_addr t \<Longrightarrow> word_at (put_word a e (zero_block t s)) x = (if x = a then e else if unat t \<le> unat x \<and> unat x < unat t + 4096 then 0 else word_at s x)"
  by (simp add: put_word_def zero_block_def in_block_iff)

lemma enter_table_ok:
  assumes P: "pages_ok root s" and p: "idxs (p @ [i])" "walk (word_at s) root p = Some t" and R: "room (Suc n) s"
    and A: "\<And>s. alloc s = alloc_pt s"
  shows "\<exists>t' s'. enter_table alloc user True (t + 8 * i) s = (Some t', s') \<and> pages_ok root s' \<and> room n s'
    \<and> only_tables s s' \<and> same_leaves root s s' \<and> walk (word_at s') root (p @ [i]) = Some t'"
proof -
  have T: "table_tree (word_at s) root (unat (phys_mem_head (pmem s)))" using P by (simp add: pages_ok_def)
  let ?ea = "t + 8 * i"
  have ip: "idxs p" "i < 512" using p(1) by (auto simp: idxs_def)
  have finish: "enter_table alloc user True ?ea s = (Some (push_bit 12 (base_addr (word_at s1 ?ea))),
        put_word ?ea (put_flag 2 user (word_at s1 ?ea)) s1) \<Longrightarrow> ?thesis"
    if s1: "pages_ok root s1" "room n s1" "only_tables s s1" "same_leaves root s s1"
      "walk (word_at s1) root p = Some t" "ent_present (word_at s1 ?ea)" for s1
  proof -
    assume e: "enter_table alloc user True ?ea s = (Some (push_bit 12 (base_addr (word_at s1 ?ea))),
        put_word ?ea (put_flag 2 user (word_at s1 ?ea)) s1)"
    define s2 where "s2 = put_word ?ea (put_flag 2 user (word_at s1 ?ea)) s1"
    have w2: "word_at s2 = (word_at s1)(?ea := put_flag 2 user (word_at s1 ?ea))" by (simp add: s2_def put_word_def)
    have T1: "table_tree (word_at s1) root (unat (phys_mem_head (pmem s1)))" using s1(1) by (simp add: pages_ok_def)
    note U = set_user [OF T1 p(1) s1(5), where user = user, folded w2]
    have "pages_ok root s2" using s1(1) U(1) by (simp add: pages_ok_def s2_def put_word_def)
    moreover have "room n s2" using s1(2) by (simp add: room_def s2_def put_word_def)
    moreover have "only_tables s s2" using only_tables_trans [OF s1(3) only_tables_word] by (simp add: s2_def put_word_def)
    moreover have "same_leaves root s s2" using s1(4) U(3) by (simp add: same_leaves_def)
    moreover have "walk (word_at s2) root (p @ [i]) = Some (push_bit 12 (base_addr (word_at s1 ?ea)))"
      unfolding U(2) by (simp add: walk_snoc s1(5,6))
    ultimately show ?thesis using e unfolding s2_def by blast
  qed
  show ?thesis
  proof (cases "ent_present (word_at s ?ea)")
    case True
    show ?thesis
      by (rule finish [of s]) (use True P p R in \<open>auto simp: room_Suc only_tables_refl same_leaves_def enter_table_def base_put_flag\<close>)
  next
    case False
    obtain n' h where al: "alloc_pt s = (n', zero_block n' (s\<lparr>pmem := (pmem s)\<lparr>phys_mem_head := h\<rparr>\<rparr>))" "n' \<noteq> 0" "page_addr n'"
      "unat (phys_mem_head (pmem s)) \<le> unat n'" "unat h = unat n' + 4096"
      "unat h + n * 8192 \<le> unat (USABLE_END_PHYS_MEM (pmem s))"
      using alloc_pt_ok [OF R] P by (auto simp: pages_ok_def)
    define s0 where "s0 = s\<lparr>pmem := (pmem s)\<lparr>phys_mem_head := h\<rparr>\<rparr>"
    define w where "w = word_at (zero_block n' s0) ?ea"
    define e where "e = put_base (drop_bit 12 n') (put_flag 2 user (put_flag 1 True (put_flag 0 True w)))"
    define s1 where "s1 = put_word ?ea e (zero_block n' s0)"
    have e: "ent_present e" "push_bit 12 (base_addr e) = n'"
      using page_addr_bits [OF al(3)] by (simp_all add: e_def base_put_base)
    have lo: "unat ?ea < unat n'"
      using treeD(1,2) [OF T ip(1) p(2)] slot_in_block [OF _ ip(2), of t] al(4) by fastforce
    have w1: "word_at s1 x = (if x = ?ea then e else if unat n' \<le> unat x \<and> unat x < unat n' + 4096 then 0 else word_at s x)" for x
      unfolding s1_def put_zero_word_at [OF al(3)] by (simp add: s0_def)
    have a1: "word_at s1 ?ea = e" by (simp add: w1)
    have a2: "word_at s1 a = 0" if "unat n' \<le> unat a" "unat a < unat n' + 4096" for a
      using that lo by (auto simp: w1)
    have a3: "word_at s1 a = word_at s a" if "a \<noteq> ?ea" "unat a < unat (phys_mem_head (pmem s))" for a
      using that al(4) by (simp add: w1)
    note H = hook_table [OF T p False al(3,4) e a1 a2 a3]
    show ?thesis
    proof (rule finish [of s1])
      have f: "pmem s1 = (pmem s)\<lparr>phys_mem_head := h\<rparr>" "HHDM_OFFSET s1 = HHDM_OFFSET s"
        by (simp_all add: s1_def put_word_def zero_block_def s0_def)
      show "pages_ok root s1" using P H(1) al(5) f by (simp add: pages_ok_def)
      show "room n s1" using al(5,6) f by (simp add: room_def)
      show "only_tables s s1" unfolding only_tables_def
        by (rule exI [of _ h], rule exI [of _ "word_at s1"]) (simp add: s1_def put_word_def zero_block_def s0_def)
      show "same_leaves root s s1" using H(3) by (simp add: same_leaves_def)
      show "walk (word_at s1) root p = Some t"
        using walk_elsewhere [OF T ip p(2) a3 ip(1)] p(2) by simp
      show "ent_present (word_at s1 ?ea)" using w1 e(1) by simp
      show "enter_table alloc user True ?ea s = (Some (push_bit 12 (base_addr (word_at s1 ?ea))),
          put_word ?ea (put_flag 2 user (word_at s1 ?ea)) s1)"
        using False al(1,2) by (simp add: enter_table_def A s0_def [symmetric] base_put_flag w_def e_def s1_def)
    qed
  qed
qed

lemma present_put_page [simp]: "ent_present (put_page pg w) = pg_present pg"
  by (simp add: put_page_def)

lemma base_put_page: "base_addr (put_page pg w) = ucast (pg_frame pg)"
proof -
  have "ucast f AND mask 40 = (ucast f :: u64)" for f :: "40 word"
    by (rule bit_word_eqI) (auto simp: bit_simps dest: bit_imp_le_length)
  then show ?thesis by (simp add: put_page_def base_put_flag base_put_base)
qed

lemma present_page_of [simp]: "pg_present (page_of w) = ent_present w"
  by (simp add: page_of_def ent_present_def)

lemma ptr_of_phys:
  assumes "pages_ok root s" "unat a < 2 ^ 46"
  shows "ptr_phys (phys_to_vir a s) s = a" "ptr_phys a s = a"
proof -
  have h: "2 ^ 46 \<le> unat (HHDM_OFFSET s)" "unat (HHDM_OFFSET s) + 2 ^ 46 < 2 ^ 64" using assms(1) by (auto simp: pages_ok_def)
  have "unat (a + HHDM_OFFSET s) = unat a + unat (HHDM_OFFSET s)" using h assms(2) by (simp add: unat_plus_u64)
  then show "ptr_phys (phys_to_vir a s) s = a" by (simp add: ptr_phys_def phys_to_vir_def word_le_nat_alt)
  show "ptr_phys a s = a" using h assms(2) by (simp add: ptr_phys_def word_le_nat_alt)
qed

lemma slot_phys:
  assumes "pages_ok root s" "idxs p" "walk (word_at s) root p = Some t" "i < 512"
  shows "ptr_phys (phys_to_vir (t + 8 * i) s) s = t + 8 * i" "ptr_phys (t + 8 * i) s = t + 8 * i"
proof -
  have "table_tree (word_at s) root (unat (phys_mem_head (pmem s)))" using assms(1) by (simp add: pages_ok_def)
  then have "page_addr t" using assms(2,3) by (rule treeD(1))
  then have "unat (t + 8 * i) < 2 ^ 46" using slot_in_block [OF _ assms(4)] by (fastforce simp: page_addr_def)
  then show "ptr_phys (phys_to_vir (t + 8 * i) s) s = t + 8 * i" "ptr_phys (t + 8 * i) s = t + 8 * i"
    using ptr_of_phys [OF assms(1)] by auto
qed

lemma root_slot_phys:
  assumes P: "pages_ok root s" and r: "pml4 = root \<or> pml4 = phys_to_vir root s" and i: "i < 512"
  shows "ptr_phys (pml4 + 8 * i) s = root + 8 * i"
proof -
  have "phys_to_vir root s + 8 * i = phys_to_vir (root + 8 * i) s" by (simp add: phys_to_vir_def)
  then show ?thesis using r slot_phys [OF P idxs_path(4) _ i] by auto
qed

lemma head_irrelevant [simp]:
  "pmm_wf (m\<lparr>phys_mem_head := h\<rparr>) = pmm_wf m" "frame_used (m\<lparr>phys_mem_head := h\<rparr>) = frame_used m"
  "region_ok (m\<lparr>phys_mem_head := h\<rparr>) = region_ok m" "frame_no (m\<lparr>phys_mem_head := h\<rparr>) = frame_no m"
  by (auto simp: pmm_wf_def frame_used_def [abs_def] region_ok_def frame_no_def [abs_def] split: option.splits)

lemma alloc_frame_head:
  "alloc_frame pg u rw m = Inr (pg', m') \<Longrightarrow> phys_mem_head m' = phys_mem_head m + FRAME_SIZE"
  by (auto simp: alloc_frame_def sum_bind_Inr_iff set_frame_def with_frame_word_def put_frame_word_def
      split: if_splits option.splits)

lemma table_tree_mono: "table_tree W root hi \<Longrightarrow> hi \<le> hi' \<Longrightarrow> table_tree W root hi'"
  unfolding table_tree_def by (meson le_trans)

text \<open>What a page mapping operation needs: sound tables and frame bitmap, memory for three tables, a free frame.\<close>

definition can_map :: "u64 \<Rightarrow> vmem \<Rightarrow> bool" where
  "can_map root s \<longleftrightarrow> pages_ok root s \<and> pmm_wf (pmem s) \<and> region_ok (pmem s) \<and> room 3 s \<and> root \<noteq> 0
     \<and> (\<exists>k < nframes (pmem s). \<not> frame_used (pmem s) k)"

definition new_entry_for :: "u64 \<Rightarrow> u64 \<Rightarrow> vmem \<Rightarrow> vmem \<Rightarrow> nat \<Rightarrow> bool" where
  "new_entry_for root va s s' k \<longleftrightarrow> k < nframes (pmem s) \<and> \<not> frame_used (pmem s) k \<and> frame_used (pmem s') k
     \<and> translate (word_at s') root va = Some (push_bit 12 (ucast (frame_no (pmem s) k)) + (va AND 0xFFF))"

lemma get_page_walk:
  assumes C: "can_map root s" and r: "pml4 = root \<or> pml4 = phys_to_vir root s" and R: "room (n + 3) s"
  shows "\<exists>s3 pt. pages_ok root s3 \<and> room n s3 \<and> only_tables s s3 \<and> same_leaves root s s3
    \<and> walk (word_at s3) root (path_of va) = Some pt
    \<and> get_page va True pml4 s = (let user = (\<not> va \<ge> HIGHER_HALF_START_ADDR); ea = pt + 8 * PT_INDEX va; w = word_at s3 ea in
        if \<not> ent_present w
        then sum_bind (alloc_frame (page_of w) user True (pmem s3)) (\<lambda>(pg, m).
               let s4 = put_word ea (put_page pg w) (s3\<lparr>pmem := m\<rparr>)
               in if pg_frame pg = 0 then Inr (None, s4)
                  else Inr (Some (phys_to_vir ea s3), put_word ea (put_flag 2 user (word_at s4 ea)) s4))
        else Inr (Some (phys_to_vir ea s3), s3))"
proof -
  let ?u = "\<not> va \<ge> HIGHER_HALF_START_ADDR"
  have P: "pages_ok root s" "room (Suc (Suc (Suc n))) s" "root \<noteq> 0"
    using C R by (auto simp: can_map_def numeral_3_eq_3)
  have nz: "pml4 \<noteq> 0"
  proof -
    have "page_addr root" using P(1) treeD(1) [OF _ idxs_path(4)] by (auto simp: pages_ok_def)
    then have "unat (phys_to_vir root s) = unat root + unat (HHDM_OFFSET s)"
      using P(1) by (simp add: phys_to_vir_def unat_plus_u64 pages_ok_def page_addr_def)
    then show ?thesis using r P(1,3) by (auto simp: pages_ok_def)
  qed
  obtain t1 s1 where e1: "enter_table alloc_pdpt ?u True (root + 8 * PML4_INDEX va) s = (Some t1, s1)"
    and s1: "pages_ok root s1" "room (Suc (Suc n)) s1" "only_tables s s1" "same_leaves root s s1"
      "walk (word_at s1) root [PML4_INDEX va] = Some t1"
    using enter_table_ok [OF P(1) _ _ P(2), of "[]" "PML4_INDEX va" root alloc_pdpt ?u] idxs_path(2)
    by (auto simp: alloc_pdpt_def)
  obtain t2 s2 where e2: "enter_table alloc_pd ?u True (t1 + 8 * PDPT_INDEX va) s1 = (Some t2, s2)"
    and s2: "pages_ok root s2" "room (Suc n) s2" "only_tables s1 s2" "same_leaves root s1 s2"
      "walk (word_at s2) root [PML4_INDEX va, PDPT_INDEX va] = Some t2"
    using enter_table_ok [OF s1(1) _ s1(5) s1(2), of "PDPT_INDEX va" alloc_pd ?u] idxs_path(3)
    by (auto simp: alloc_pd_def)
  obtain t3 s3 where e3: "enter_table alloc_pt ?u True (t2 + 8 * PD_INDEX va) s2 = (Some t3, s3)"
    and s3: "pages_ok root s3" "room n s3" "only_tables s2 s3" "same_leaves root s2 s3"
      "walk (word_at s3) root (path_of va) = Some t3"
    using enter_table_ok [OF s2(1) _ s2(5) s2(2), of "PD_INDEX va" alloc_pt ?u] idxs_path(1)
    by (auto simp: path_of_def)
  have "get_page va True pml4 s = (let ea = t3 + 8 * PT_INDEX va; w = word_at s3 ea in
        if \<not> ent_present w
        then sum_bind (alloc_frame (page_of w) ?u True (pmem s3)) (\<lambda>(pg, m).
               let s4 = put_word ea (put_page pg w) (s3\<lparr>pmem := m\<rparr>)
               in if pg_frame pg = 0 then Inr (None, s4)
                  else Inr (Some (phys_to_vir ea s3), put_word ea (put_flag 2 ?u (word_at s4 ea)) s4))
        else Inr (Some (phys_to_vir ea s3), s3))"
    using nz e1 e2 e3 root_slot_phys [OF P(1) r index_less(1)]
      slot_phys(1) [OF s1(1) idxs_path(2) s1(5) index_less(2)] slot_phys(1) [OF s2(1) idxs_path(3) s2(5) index_less(3)]
      slot_phys(1) [OF s3(1) idxs_path(1) s3(5) index_less(4)]
    by (simp add: get_page_def Let_def cong: if_cong)
  moreover have "only_tables s s3" "same_leaves root s s3"
    using only_tables_trans [OF only_tables_trans [OF s1(3) s2(3)] s3(3)]
      same_leaves_trans [OF same_leaves_trans [OF s1(4) s2(4)] s3(4)] by auto
  ultimately show ?thesis using s3 unfolding Let_def by blast
qed

text \<open>Replacing one leaf entry of a sound set of tables and the state of the frame allocator.\<close>

lemma write_leaf:
  fixes e :: u64
  assumes P: "pages_ok root s" "unat (phys_mem_head (pmem s)) \<le> 2 ^ 47" and w: "walk (word_at s) root (path_of va) = Some pt"
    and m: "phys_mem_head m = phys_mem_head (pmem s) + FRAME_SIZE" "USABLE_END_PHYS_MEM m = USABLE_END_PHYS_MEM (pmem s)"
  defines "s' \<equiv> put_word (pt + 8 * PT_INDEX va) e (s\<lparr>pmem := m\<rparr>)"
  shows "pages_ok root s'" "walk (word_at s') root (path_of va) = Some pt"
    "\<And>va'. leaf (word_at s') root (path_of va') (PT_INDEX va')
       = (if path_of va' = path_of va \<and> PT_INDEX va' = PT_INDEX va then e else leaf (word_at s) root (path_of va') (PT_INDEX va'))"
proof -
  have T: "table_tree (word_at s) root (unat (phys_mem_head (pmem s)))" using P by (simp add: pages_ok_def)
  have w': "word_at s' = (word_at s)(pt + 8 * PT_INDEX va := e)" by (simp add: s'_def put_word_def)
  note L = put_leaf [OF T idxs_path(1) _ index_less(4) [of va] w, where e = e, folded w']
  have len: "length (path_of va) = 3" by (simp add: path_of_def)
  have "unat (phys_mem_head m) = unat (phys_mem_head (pmem s)) + 4096"
    unfolding m(1) using P(2) by (simp add: unat_plus_u64 FRAME_SIZE_def)
  then have "table_tree (word_at s') root (unat (phys_mem_head m))" using table_tree_mono [OF L(1) [OF len]] by simp
  then show "pages_ok root s'" using P(1) m(2) by (simp add: pages_ok_def s'_def put_word_def)
  show "walk (word_at s') root (path_of va) = Some pt" using L(2) [OF len idxs_path(1)] w by simp
  show "leaf (word_at s') root (path_of va') (PT_INDEX va')
       = (if path_of va' = path_of va \<and> PT_INDEX va' = PT_INDEX va then e else leaf (word_at s) root (path_of va') (PT_INDEX va'))" for va'
    using L(3) [OF len idxs_path(1) index_less(4)] by simp
qed

lemma leaf_at: "walk W root (path_of va) = Some pt \<Longrightarrow> leaf W root (path_of va) (PT_INDEX va) = W (pt + 8 * PT_INDEX va)"
  by (simp add: leaf_def)

lemma same_leaf: "same_leaves root s s' \<Longrightarrow> leaf (word_at s') root (path_of va) (PT_INDEX va) = leaf (word_at s) root (path_of va) (PT_INDEX va)"
  using idxs_path(1) index_less(4) unfolding same_leaves_def path_of_def by auto

lemma get_page_ok:
  assumes C: "can_map root s" and r: "pml4 = root \<or> pml4 = phys_to_vir root s" and R: "room (n + 3) s"
  shows "\<exists>pt s'. get_page va True pml4 s = Inr (Some (phys_to_vir (pt + 8 * PT_INDEX va) s), s')
    \<and> pages_ok root s' \<and> walk (word_at s') root (path_of va) = Some pt \<and> HHDM_OFFSET s' = HHDM_OFFSET s \<and> cr3 s' = cr3 s
    \<and> pmm_wf (pmem s') \<and> region_ok (pmem s') \<and> nframes (pmem s') = nframes (pmem s) \<and> unat (phys_mem_head (pmem s')) \<le> 2 ^ 47
    \<and> (\<forall>k. frame_used (pmem s) k \<longrightarrow> frame_used (pmem s') k) \<and> frame_no (pmem s') = frame_no (pmem s)
    \<and> (\<forall>va'. path_of va' \<noteq> path_of va \<or> PT_INDEX va' \<noteq> PT_INDEX va \<or> translate (word_at s) root va \<noteq> None
          \<longrightarrow> translate (word_at s') root va' = translate (word_at s) root va')
    \<and> (translate (word_at s) root va = None \<longrightarrow> (\<exists>k. new_entry_for root va s s' k))
    \<and> (\<exists>k. \<forall>j. frame_used (pmem s') j \<longrightarrow> frame_used (pmem s) j \<or> j div 64 = k)
    \<and> USABLE_END_PHYS_MEM (pmem s') = USABLE_END_PHYS_MEM (pmem s)
    \<and> unat (phys_mem_head (pmem s')) + n * 8192 \<le> unat (USABLE_END_PHYS_MEM (pmem s)) + 4096"
proof -
  obtain s3 pt where s3: "pages_ok root s3" "room n s3" "only_tables s s3" "same_leaves root s s3"
      "walk (word_at s3) root (path_of va) = Some pt"
    and g: "get_page va True pml4 s = (let user = (\<not> va \<ge> HIGHER_HALF_START_ADDR); ea = pt + 8 * PT_INDEX va; w = word_at s3 ea in
        if \<not> ent_present w
        then sum_bind (alloc_frame (page_of w) user True (pmem s3)) (\<lambda>(pg, m).
               let s4 = put_word ea (put_page pg w) (s3\<lparr>pmem := m\<rparr>)
               in if pg_frame pg = 0 then Inr (None, s4)
                  else Inr (Some (phys_to_vir ea s3), put_word ea (put_flag 2 user (word_at s4 ea)) s4))
        else Inr (Some (phys_to_vir ea s3), s3))"
    using get_page_walk [OF C r R, of va] by blast
  obtain h W where o: "s3 = s\<lparr>pmem := (pmem s)\<lparr>phys_mem_head := h\<rparr>, word_at := W\<rparr>" using s3(3) by (auto simp: only_tables_def)
  have m3: "pmem s3 = (pmem s)\<lparr>phys_mem_head := h\<rparr>" "HHDM_OFFSET s3 = HHDM_OFFSET s" "cr3 s3 = cr3 s" by (simp_all add: o)
  have pv: "phys_to_vir a s3 = phys_to_vir a s" for a by (simp add: phys_to_vir_def m3)
  note sl = same_leaf [OF s3(4)]
  have tr3: "translate (word_at s3) root va' = translate (word_at s) root va'" for va' by (simp add: translate_def sl)
  have lf: "leaf (word_at s) root (path_of va) (PT_INDEX va) = word_at s3 (pt + 8 * PT_INDEX va)"
    using leaf_at [OF s3(5)] sl [of va] by simp
  have W: "pmm_wf (pmem s)" "region_ok (pmem s)" "\<exists>k < nframes (pmem s). \<not> frame_used (pmem s) k" using C by (auto simp: can_map_def)
  have hd3: "unat (phys_mem_head (pmem s3)) \<le> 2 ^ 46" "unat (phys_mem_head (pmem s3)) + n * 8192 \<le> unat (USABLE_END_PHYS_MEM (pmem s))"
    using s3(1,2) m3(1) by (simp_all add: room_def pages_ok_def)
  show ?thesis
  proof (cases "ent_present (word_at s3 (pt + 8 * PT_INDEX va))")
    case True
    then have "translate (word_at s) root va \<noteq> None" by (simp add: translate_def lf)
    then show ?thesis using g True s3(1,5) W m3 tr3 pv hd3 by (auto simp: Let_def)
  next
    case False
    define w u ea where "w = word_at s3 (pt + 8 * PT_INDEX va)" and "u = (\<not> va \<ge> HIGHER_HALF_START_ADDR)" and "ea = pt + 8 * PT_INDEX va"
    have W3: "pmm_wf (pmem s3)" "region_ok (pmem s3)" "\<exists>k < nframes (pmem s3). \<not> frame_used (pmem s3) k" using W m3(1) by auto
    obtain k m pg where a: "alloc_frame (page_of w) u True (pmem s3) = Inr (pg, m)" "pg_present pg"
      "pg_frame pg = frame_no (pmem s3) k" "k < nframes (pmem s3)" "\<not> frame_used (pmem s3) k" "pmm_wf m" "nframes m = nframes (pmem s3)"
      "USABLE_START_PHYS_MEM m = USABLE_START_PHYS_MEM (pmem s3)" "USABLE_END_PHYS_MEM m = USABLE_END_PHYS_MEM (pmem s3)"
      "frame_used m k" "\<forall>j. frame_used (pmem s3) j \<longrightarrow> frame_used m j"
      "\<forall>j. frame_used m j \<longrightarrow> frame_used (pmem s3) j \<or> j div 64 = k div 64"
      using alloc_frame_spec [OF W3(1), of "page_of w" u True] W3(3) by auto
    have nz: "pg_frame pg \<noteq> 0" using frame_no_to_bit(3) [OF W3(2) a(4)] a(3) by simp
    define e where "e = put_flag 2 u (put_page pg w)"
    define s' where "s' = put_word ea e (s3\<lparr>pmem := m\<rparr>)"
    have "get_page va True pml4 s = Inr (Some (phys_to_vir ea s), s')"
      using g False a(1) nz by (simp add: Let_def w_def u_def ea_def pv s'_def e_def put_word_def)
    moreover note L = write_leaf [OF s3(1) _ s3(5) alloc_frame_head [OF a(1)] a(9), where e = e, folded ea_def s'_def]
    have hd: "unat (phys_mem_head (pmem s3)) \<le> 2 ^ 47" using hd3 by simp
    note L = L [OF hd]
    have e: "ent_present e" "base_addr e = ucast (frame_no (pmem s) k)"
      using a(2,3) by (simp_all add: e_def base_put_flag base_put_page m3)
    have f': "pmem s' = m" "HHDM_OFFSET s' = HHDM_OFFSET s" "cr3 s' = cr3 s" by (simp_all add: s'_def put_word_def m3)
    have rg: "region_ok m" "frame_no m = frame_no (pmem s)" using W(2) a(7-9) m3(1) by (auto simp: region_ok_def frame_no_def [abs_def])
    have hm: "unat (phys_mem_head m) = unat (phys_mem_head (pmem s3)) + 4096"
      using alloc_frame_head [OF a(1)] hd3 by (simp add: unat_plus_u64 FRAME_SIZE_def)
    then have "unat (phys_mem_head (pmem s')) + n * 8192 \<le> unat (USABLE_END_PHYS_MEM (pmem s)) + 4096"
      "USABLE_END_PHYS_MEM (pmem s') = USABLE_END_PHYS_MEM (pmem s)" using hd3 a(9) m3(1) f'(1) by simp_all
    moreover have "unat (phys_mem_head m) \<le> 2 ^ 47" using hm hd3(1) by simp
    moreover have tn: "translate (word_at s) root va = None" using False by (simp add: translate_def lf)
    moreover have "translate (word_at s') root va' = translate (word_at s) root va'"
      if "path_of va' \<noteq> path_of va \<or> PT_INDEX va' \<noteq> PT_INDEX va" for va'
      using that L(3) [of va'] sl [of va'] by (auto simp: translate_def)
    moreover have "new_entry_for root va s s' k"
      using a(4,5,10) e L(3) [of va] m3 by (simp add: new_entry_for_def translate_def f')
    moreover have "\<exists>k. \<forall>j. frame_used (pmem s') j \<longrightarrow> frame_used (pmem s) j \<or> j div 64 = k"
      using a(12) m3(1) f'(1) by (intro exI [of _ "k div 64"]) simp
    ultimately show ?thesis using L(1,2) f' a(6,7,11) rg m3 unfolding ea_def by auto
  qed
qed

section \<open>The heaps\<close>

text \<open>Mapping operations never touch the heads of the two heaps.\<close>

definition same_heads :: "vmem \<Rightarrow> vmem \<Rightarrow> bool" where
  "same_heads s s' \<longleftrightarrow> h_va_head s' = h_va_head s \<and> l_va_head s' = l_va_head s"

lemma same_heads_simps [simp]:
  "same_heads s s" "same_heads s (put_word a w s') = same_heads s s'" "same_heads s (s'\<lparr>pmem := m\<rparr>) = same_heads s s'"
  "same_heads s (zero_block p s') = same_heads s s'"
  by (simp_all add: same_heads_def put_word_def zero_block_def)

lemma same_heads_alloc_pt: "alloc_pt s = (t, s') \<Longrightarrow> same_heads s s'"
  by (auto simp: alloc_pt_def Let_def split: prod.splits if_splits)

lemma same_heads_enter:
  assumes "enter_table alloc user mk ea s = (r, s')" "\<And>s. alloc s = alloc_pt s"
  shows "same_heads s s'"
  using assms same_heads_alloc_pt
  by (auto simp: enter_table_def Let_def split: prod.splits if_splits)

lemma same_heads_trans: "same_heads s s1 \<Longrightarrow> same_heads s1 s2 \<Longrightarrow> same_heads s s2"
  by (simp add: same_heads_def)

lemma same_heads_get_page:
  assumes "get_page va mk pml4 s = Inr (r, s')"
  shows "same_heads s s'"
proof -
  have E: "same_heads t t'" if "enter_table alloc_pdpt u k ea t = (x, t') \<or> enter_table alloc_pd u k ea t = (x, t')
      \<or> enter_table alloc_pt u k ea t = (x, t')" for u k ea x t t'
    using that same_heads_enter by (auto simp: alloc_pdpt_def alloc_pd_def)
  show ?thesis using assms
    by (auto simp: get_page_def Let_def sum_bind_Inr_iff split: prod.splits if_splits option.splits
        dest!: E [OF disjI1] E [OF disjI2 [OF disjI1]] E [OF disjI2 [OF disjI2]] intro: same_heads_trans)
qed

lemma same_heads_vm_alloc:
  assumes "vm_alloc va ty s = Inr s'"
  shows "same_heads s s'"
proof (cases "get_page va True (cr3 s) s")
  case (Inr x)
  obtain r s1 where x: "x = (r, s1)" by (cases x)
  have "same_heads s s1" using same_heads_get_page Inr x by blast
  then show ?thesis
    using assms Inr x by (cases r) (auto simp: vm_alloc_def Let_def sum_bind_Inr_iff split: if_splits)
qed (use assms in \<open>auto simp: vm_alloc_def split: if_splits\<close>)

lemma same_heads_alloc_pages: "alloc_pages n va ty s = Inr s' \<Longrightarrow> same_heads s s'"
  by (induction n va ty s rule: alloc_pages.induct)
     (auto simp: sum_bind_Inr_iff dest!: same_heads_vm_alloc intro: same_heads_trans)

lemma same_heads_vm_free:
  assumes "vm_free va s = Inr s'"
  shows "same_heads s s'"
proof (cases "get_page va False (cr3 s) s")
  case (Inr x)
  obtain r s1 where x: "x = (r, s1)" by (cases x)
  have "same_heads s s1" using same_heads_get_page Inr x by blast
  then show ?thesis
    using assms Inr x by (cases r) (auto simp: vm_free_def Let_def sum_bind_Inr_iff split: if_splits)
qed (use assms in \<open>auto simp: vm_free_def split: if_splits\<close>)

lemma same_heads_free_pages: "free_pages n va s = Inr s' \<Longrightarrow> same_heads s s'"
  by (induction n va s rule: free_pages.induct)
     (auto simp: sum_bind_Inr_iff dest!: same_heads_vm_free intro: same_heads_trans)

lemma same_heads_kheap_free: "kheap_free p sz s = Inr s' \<Longrightarrow> same_heads s s'"
  by (auto simp: kheap_free_def split: if_splits dest: same_heads_free_pages)

text \<open>The upper end of the address space is the largest 64-bit number, so the bound check of \<open>kheap_alloc\<close> never fires.\<close>

lemma kheap_alloc_never_null: "kheap_alloc sz typ s \<noteq> Inr (None, s')"
proof -
  have "\<not> x > HIGHER_HALF_END_ADDR" for x :: u64
    unfolding HIGHER_HALF_END_ADDR_def by (simp add: word_less_nat_alt not_less) (use unat_u64_lt [of x] in simp)
  then show ?thesis by (auto simp: kheap_alloc_def Let_def sum_bind_Inr_iff)
qed

lemma unat_page_up: "unat sz + 4095 < 2 ^ 64 \<Longrightarrow> unat (page_up sz) = (unat sz + 4095) div 4096 * 4096"
  unfolding page_up_def page_mask_bits unat_page_mask by (simp add: unat_plus_u64)

lemma kheap_alloc_block:
  assumes "kheap_alloc sz typ s = Inr (r, s')" "unat (h_va_head s) + unat sz + 8192 < 2 ^ 64"
  shows "r = Some (h_va_head s) \<and> unat (h_va_head s') = unat (h_va_head s) + (unat sz + 4095) div 4096 * 4096 + 4096"
proof -
  let ?n = "(unat sz + 4095) div 4096" and ?va = "h_va_head s"
  have pu: "unat (page_up sz) = ?n * 4096" using assms(2) by (intro unat_page_up) simp
  have b: "?n * 4096 \<le> unat sz + 4095" by simp
  have sum: "unat (?va + page_up sz) = unat ?va + ?n * 4096" using assms(2) b pu by (subst unat_plus_u64) simp_all
  have rounds: "heap_rounds ?va (page_up sz) = ?n"
    using sum pu by (auto simp: heap_rounds_def word_less_nat_alt unat_div PAGE_SIZE_def)
  have n: "?n < 2 ^ 64" using b assms(2) by linarith
  have m: "unat (of_nat ?n * PAGE_SIZE) = ?n * 4096"
    using b assms(2) n by (simp add: PAGE_SIZE_def unat_word_ariths unat_of_nat take_bit_nat_eq_self)
  have "unat (?va + of_nat ?n * PAGE_SIZE) = unat ?va + ?n * 4096" using assms(2) b m by (subst unat_plus_u64) simp_all
  then have h: "unat (?va + of_nat ?n * PAGE_SIZE + PAGE_SIZE) = unat ?va + ?n * 4096 + 4096"
    using assms(2) b by (subst unat_plus_u64) (simp_all add: PAGE_SIZE_def)
  have "r \<noteq> None" using kheap_alloc_never_null assms(1) by metis
  then show ?thesis using assms(1) h
    by (auto simp: kheap_alloc_def Let_def sum_bind_Inr_iff rounds split: if_splits)
qed

text \<open>
  \<open>map_page\<close> and \<open>map_range\<close> lose the tables they create: the physical address \<open>alloc_pt\<close> returns lies below the
  direct map, \<open>vir_to_phys\<close> turns it into 0, and the entry points to physical page 0.
\<close>

lemma map_level_loses_table:
  assumes P: "pages_ok root s" and R: "room 1 s" and n: "\<not> ent_present (word_at s ea)"
  shows "\<exists>s'. map_level user ea s = (Some (phys_to_vir 0 s), s') \<and> ent_present (word_at s' ea) \<and> base_addr (word_at s' ea) = 0"
proof -
  have e: "unat (USABLE_END_PHYS_MEM (pmem s)) \<le> 2 ^ 46" "2 ^ 46 \<le> unat (HHDM_OFFSET s)" using P by (simp_all add: pages_ok_def)
  obtain t h where a: "alloc_pt s = (t, zero_block t (s\<lparr>pmem := (pmem s)\<lparr>phys_mem_head := h\<rparr>\<rparr>))" "t \<noteq> 0" "page_addr t"
    using alloc_pt_ok [of 0 s] R e(1) by auto
  have "t \<le> HHDM_OFFSET s" using a(3) e(2) by (simp add: page_addr_def word_le_nat_alt)
  then show ?thesis using a n
    by (simp add: map_level_def Let_def vir_to_phys_def zero_block_def put_word_def base_put_flag base_put_base phys_to_vir_def)
qed

section \<open>Allocating a page\<close>

lemma can_map_room: "can_map root s \<Longrightarrow> room (0 + 3) s"
  by (simp add: can_map_def)

lemma vm_alloc_step:
  assumes C: "can_map (cr3 s) s" and R: "room (n + 3) s"
    and f: "i < nframes (pmem s)" "\<not> frame_used (pmem s) i" "j < nframes (pmem s)" "\<not> frame_used (pmem s) j" "i div 64 \<noteq> j div 64"
  shows "\<exists>s' k2. vm_alloc va typ s = Inr s'
     \<and> (translate (word_at s) (cr3 s) va = None \<longrightarrow> (\<exists>k1. k1 \<noteq> k2 \<and> \<not> frame_used (pmem s) k1 \<and> frame_used (pmem s') k1))
     \<and> \<not> frame_used (pmem s) k2 \<and> frame_used (pmem s') k2
     \<and> translate (word_at s') (cr3 s) va = Some (push_bit 12 (ucast (frame_no (pmem s) k2)) + (va AND 0xFFF))
     \<and> bit (leaf (word_at s') (cr3 s) (path_of va) (PT_INDEX va)) 2 = (va \<ge> HIGHER_HALF_START_ADDR)
     \<and> (typ = ALLOCATE_CODE \<longrightarrow> \<not> bit (leaf (word_at s') (cr3 s) (path_of va) (PT_INDEX va)) 1)
     \<and> (\<forall>va'. path_of va' \<noteq> path_of va \<or> PT_INDEX va' \<noteq> PT_INDEX va
          \<longrightarrow> translate (word_at s') (cr3 s) va' = translate (word_at s) (cr3 s) va')
     \<and> pages_ok (cr3 s) s' \<and> pmm_wf (pmem s') \<and> region_ok (pmem s') \<and> cr3 s' = cr3 s \<and> nframes (pmem s') = nframes (pmem s)
     \<and> USABLE_END_PHYS_MEM (pmem s') = USABLE_END_PHYS_MEM (pmem s) \<and> 0 < unat (phys_mem_head (pmem s'))
     \<and> unat (phys_mem_head (pmem s')) + n * 8192 \<le> unat (USABLE_END_PHYS_MEM (pmem s)) + 8192
     \<and> (\<exists>k0. \<forall>j. frame_used (pmem s') j \<longrightarrow> frame_used (pmem s) j \<or> j div 64 = k0 \<or> j div 64 = k2 div 64)"
proof -
  define root where "root = cr3 s"
  obtain pt s1 k0 where g: "get_page va True root s = Inr (Some (phys_to_vir (pt + 8 * PT_INDEX va) s), s1)"
    and P: "pages_ok root s1" and w: "walk (word_at s1) root (path_of va) = Some pt" and m: "pmm_wf (pmem s1)" "region_ok (pmem s1)"
    and h: "HHDM_OFFSET s1 = HHDM_OFFSET s" "unat (phys_mem_head (pmem s1)) \<le> 2 ^ 47" "cr3 s1 = root"
      "unat (phys_mem_head (pmem s1)) + n * 8192 \<le> unat (USABLE_END_PHYS_MEM (pmem s)) + 4096"
      "USABLE_END_PHYS_MEM (pmem s1) = USABLE_END_PHYS_MEM (pmem s)"
    and mono: "\<forall>k. frame_used (pmem s) k \<longrightarrow> frame_used (pmem s1) k" "frame_no (pmem s1) = frame_no (pmem s)"
      "nframes (pmem s1) = nframes (pmem s)" "\<forall>j. frame_used (pmem s1) j \<longrightarrow> frame_used (pmem s) j \<or> j div 64 = k0"
    and t: "\<forall>va'. path_of va' \<noteq> path_of va \<or> PT_INDEX va' \<noteq> PT_INDEX va \<or> translate (word_at s) root va \<noteq> None
          \<longrightarrow> translate (word_at s1) root va' = translate (word_at s) root va'"
    and nw: "translate (word_at s) root va = None \<longrightarrow> (\<exists>k. new_entry_for root va s s1 k)"
    using get_page_ok [OF C _ R, of root va, folded root_def, OF disjI1 [OF refl]] by (elim exE conjE) (rule that; assumption)
  define ea where "ea = pt + 8 * PT_INDEX va"
  have ea: "ptr_phys (phys_to_vir ea s) s1 = ea"
    using slot_phys(1) [OF P idxs_path(1) w index_less(4)] h(1) by (simp add: phys_to_vir_def ea_def)
  have z: "root \<noteq> 0" using C by (simp add: can_map_def root_def)
  let ?u = "va \<ge> HIGHER_HALF_START_ADDR" and ?w = "word_at s1 ea"
  have "\<exists>k < nframes (pmem s1). \<not> frame_used (pmem s1) k" using f mono(3,4) by metis
  then obtain k2 m2 pg where a: "alloc_frame (page_of ?w) ?u True (pmem s1) = Inr (pg, m2)" "pg_present pg" "pg_user pg = ?u"
      "pg_frame pg = frame_no (pmem s1) k2" "\<not> frame_used (pmem s1) k2"
      "USABLE_END_PHYS_MEM m2 = USABLE_END_PHYS_MEM (pmem s1)" "frame_used m2 k2" "\<forall>j. frame_used (pmem s1) j \<longrightarrow> frame_used m2 j"
    and a2: "pmm_wf m2" "nframes m2 = nframes (pmem s1)" "USABLE_START_PHYS_MEM m2 = USABLE_START_PHYS_MEM (pmem s1)"
      "\<forall>j. frame_used m2 j \<longrightarrow> frame_used (pmem s1) j \<or> j div 64 = k2 div 64"
    using alloc_frame_spec [OF m(1), of "page_of ?w" ?u True] by auto
  define pg' where "pg' = (if typ = ALLOCATE_CODE then pg\<lparr>pg_rw := False, pg_nx := True\<rparr>
                            else if typ = ALLOCATE_DATA \<or> typ = ALLOCATE_STACK then pg\<lparr>pg_rw := True, pg_nx := True\<rparr> else pg)"
  define s' where "s' = put_word ea (put_page pg' ?w) (s1\<lparr>pmem := m2\<rparr>)"
  have v: "vm_alloc va typ s = Inr s'"
    using g ea z a(1) by (simp add: vm_alloc_def root_def [symmetric] Let_def pg'_def s'_def ea_def [symmetric])
  note L = write_leaf [OF P h(2) w alloc_frame_head [OF a(1)] a(6), where e = "put_page pg' ?w", folded ea_def s'_def]
  have e: "pg_present pg'" "pg_user pg' = ?u" "pg_frame pg' = frame_no (pmem s) k2" using a mono(2) by (auto simp: pg'_def)
  have s': "pmem s' = m2" "cr3 s' = root" by (simp_all add: s'_def put_word_def h)
  have k: "\<not> frame_used (pmem s) k2" "frame_used (pmem s') k2" using a(5,7) mono(1) s' by auto
  have k1: "\<exists>k1. k1 \<noteq> k2 \<and> \<not> frame_used (pmem s) k1 \<and> frame_used (pmem s') k1" if "translate (word_at s) root va = None"
    using nw that a(5,8) s' by (metis new_entry_for_def)
  have ub: "bit (put_page pg' ?w) 2 = ?u" by (simp add: put_page_def bit_put_flag e)
  have tv: "translate (word_at s') root va = Some (push_bit 12 (ucast (frame_no (pmem s) k2)) + (va AND 0xFFF))"
    using L(3) [of va] e by (simp add: translate_def base_put_page)
  have lb: "bit (leaf (word_at s') root (path_of va) (PT_INDEX va)) 2 = ?u" using L(3) [of va] ub by simp
  have rb: "typ = ALLOCATE_CODE \<longrightarrow> \<not> bit (leaf (word_at s') root (path_of va) (PT_INDEX va)) 1"
    using L(3) [of va] by (simp add: put_page_def bit_put_flag pg'_def)
  have tr: "translate (word_at s') root va' = translate (word_at s) root va'"
    if "path_of va' \<noteq> path_of va \<or> PT_INDEX va' \<noteq> PT_INDEX va" for va'
  proof -
    have "translate (word_at s') root va' = translate (word_at s1) root va'" using that L(3) [of va'] by (auto simp: translate_def)
    then show ?thesis using t [THEN spec, of va'] that by argo
  qed
  have hd: "unat (phys_mem_head m2) = unat (phys_mem_head (pmem s1)) + 4096"
    using alloc_frame_head [OF a(1)] h(2) by (simp add: unat_plus_u64 FRAME_SIZE_def)
  have rg: "region_ok m2" using m(2) a2(2,3) a(6) by (simp add: region_ok_def)
  have fr: "\<forall>j. frame_used (pmem s') j \<longrightarrow> frame_used (pmem s) j \<or> j div 64 = k0 \<or> j div 64 = k2 div 64" using a2(4) mono(4) s' by auto
  have num: "USABLE_END_PHYS_MEM (pmem s') = USABLE_END_PHYS_MEM (pmem s)" "0 < unat (phys_mem_head (pmem s'))"
    "unat (phys_mem_head (pmem s')) + n * 8192 \<le> unat (USABLE_END_PHYS_MEM (pmem s)) + 8192" "nframes (pmem s') = nframes (pmem s)"
    using s' hd h(4,5) a(6) a2(2) mono(3) by simp_all
  show ?thesis unfolding root_def [symmetric]
    using v k k1 tv lb rb tr L(1) a2(1) rg s' num fr root_def by (intro exI [of _ s'] exI [of _ k2]) blast
qed

lemma vm_alloc_ok:
  assumes C: "can_map (cr3 s) s" and u: "translate (word_at s) (cr3 s) va = None"
    and f: "i < nframes (pmem s)" "\<not> frame_used (pmem s) i" "j < nframes (pmem s)" "\<not> frame_used (pmem s) j" "i div 64 \<noteq> j div 64"
  shows "\<exists>s' k1 k2. vm_alloc va typ s = Inr s' \<and> k1 \<noteq> k2
     \<and> \<not> frame_used (pmem s) k1 \<and> \<not> frame_used (pmem s) k2 \<and> frame_used (pmem s') k1 \<and> frame_used (pmem s') k2
     \<and> translate (word_at s') (cr3 s) va = Some (push_bit 12 (ucast (frame_no (pmem s) k2)) + (va AND 0xFFF))
     \<and> bit (leaf (word_at s') (cr3 s) (path_of va) (PT_INDEX va)) 2 = (va \<ge> HIGHER_HALF_START_ADDR)
     \<and> (\<forall>va'. path_of va' \<noteq> path_of va \<or> PT_INDEX va' \<noteq> PT_INDEX va
          \<longrightarrow> translate (word_at s') (cr3 s) va' = translate (word_at s) (cr3 s) va')"
  using vm_alloc_step [OF C can_map_room [OF C] f, of va "typ"] u by blast

section \<open>Properties\<close>

text \<open>
  C3. Mapping a page: on sound page tables, with memory for three tables and a free frame, \<open>get_page\<close> with
  \<open>make\<close> set succeeds. It returns the address of the entry the processor's own walk reaches for the address.
  An address that was mapped keeps its translation; one that was not is mapped to a frame of the usable region that was
  free before and is marked as used afterwards. Every other virtual page translates as
  before, and the tables and the frame bitmap stay sound. The page is not one of the direct map and,
  where the top table is passed by its physical address, not the one the identity map has for that table.
\<close>

theorem get_page_maps_one_page:
  assumes C: "can_map root s" and d: "off_direct_map (page_lo va) (page_lo va + 4096) s"
    and r: "pml4 = root \<and> page_lo va \<noteq> unat root \<or> pml4 = phys_to_vir root s"
  shows "\<exists>pte s'. get_page va True pml4 s = Inr (Some (phys_to_vir pte s), s')
    \<and> pages_ok root s' \<and> pmm_wf (pmem s') \<and> region_ok (pmem s')
    \<and> word_at s' pte = leaf (word_at s') root (path_of va) (PT_INDEX va)
    \<and> (case translate (word_at s) root va of
         Some pa \<Rightarrow> translate (word_at s') root va = Some pa
       | None \<Rightarrow> \<exists>k < nframes (pmem s). \<not> frame_used (pmem s) k \<and> frame_used (pmem s') k
           \<and> translate (word_at s') root va = Some (push_bit 12 (ucast (frame_no (pmem s) k)) + (va AND 0xFFF)))
    \<and> (\<forall>va'. path_of va' \<noteq> path_of va \<or> PT_INDEX va' \<noteq> PT_INDEX va
          \<longrightarrow> translate (word_at s') root va' = translate (word_at s) root va')"
proof -
  have r: "pml4 = root \<or> pml4 = phys_to_vir root s" using r by blast
  obtain pt s' where g: "get_page va True pml4 s = Inr (Some (phys_to_vir (pt + 8 * PT_INDEX va) s), s')"
    and P: "pages_ok root s'" and w: "walk (word_at s') root (path_of va) = Some pt" and m: "pmm_wf (pmem s')" "region_ok (pmem s')"
    and t: "\<forall>va'. path_of va' \<noteq> path_of va \<or> PT_INDEX va' \<noteq> PT_INDEX va \<or> translate (word_at s) root va \<noteq> None
          \<longrightarrow> translate (word_at s') root va' = translate (word_at s) root va'"
    and n: "translate (word_at s) root va = None \<longrightarrow> (\<exists>k. new_entry_for root va s s' k)"
    using get_page_ok [OF C r can_map_room [OF C], of va] by (elim exE conjE) (rule that; assumption)
  have "case translate (word_at s) root va of
         Some pa \<Rightarrow> translate (word_at s') root va = Some pa
       | None \<Rightarrow> \<exists>k < nframes (pmem s). \<not> frame_used (pmem s) k \<and> frame_used (pmem s') k
           \<and> translate (word_at s') root va = Some (push_bit 12 (ucast (frame_no (pmem s) k)) + (va AND 0xFFF))"
    using t n by (auto simp: new_entry_for_def split: option.split)
  then show ?thesis using g P m t leaf_at [OF w] by (intro exI [of _ "pt + 8 * PT_INDEX va"] exI [of _ s']) auto
qed

definition sample_vm :: vmem where
  "sample_vm = \<lparr>pmem = init_pmm (boot_mem sample_map), word_at = (\<lambda>_. 0), cr3 = 0x1000, HHDM_OFFSET = 0xFFFF900000000000,
     kernel_pml4 = 0xFFFF900000001000, bsp_cr3 = 0x1000, h_va_head = HIGHER_HALF_START_ADDR, l_va_head = 0x501000\<rparr>"

lemma sample_vm_frames: "nframes (pmem sample_vm) = 512"
proof -
  have "USABLE_LENGTH_PHYS_MEM (boot_mem sample_map) div FRAME_SIZE = 512" by code_simp
  then have "unat (USABLE_LENGTH_PHYS_MEM (boot_mem sample_map) div FRAME_SIZE) = 512" by simp
  then show ?thesis by (simp add: sample_vm_def init_pmm_def Let_def kmalloc_a_def page_align_head_def)
qed

lemma sample_vm_can_map: "can_map 0x1000 sample_vm"
proof -
  have W: "pmm_wf (pmem sample_vm)" "region_ok (pmem sample_vm)" "\<not> frame_used (pmem sample_vm) 0"
    using boot_pmm_inv [OF sample_map_ok] by (simp_all add: sample_vm_def frames_inv_def)
  have "phys_mem_head (pmem sample_vm) = 1048647" "USABLE_END_PHYS_MEM (pmem sample_vm) = 3145728" by code_simp+
  then have v: "unat (phys_mem_head (pmem sample_vm)) = 1048647" "unat (USABLE_END_PHYS_MEM (pmem sample_vm)) = 3145728"
    "nframes (pmem sample_vm) = 512" using sample_vm_frames by simp_all
  have wk: "walk (word_at sample_vm) 0x1000 p = Some a \<longleftrightarrow> p = [] \<and> a = 0x1000" for p a
    by (cases p) (auto simp: sample_vm_def)
  have "table_tree (word_at sample_vm) 0x1000 1048647"
    unfolding table_tree_def wk by (auto simp: page_addr_def)
  moreover have "HHDM_OFFSET sample_vm = 0xFFFF900000000000" by (simp add: sample_vm_def)
  moreover have "\<exists>k < nframes (pmem sample_vm). \<not> frame_used (pmem sample_vm) k"
    using W(3) v(3) by (intro exI [of _ 0]) simp
  ultimately show ?thesis using W v by (simp add: can_map_def pages_ok_def room_def)
qed

theorem get_page_maps_one_page_witness:
  "\<exists>pte s' k. get_page 0x400000 True 0x1000 sample_vm = Inr (Some (phys_to_vir pte sample_vm), s')
     \<and> \<not> frame_used (pmem sample_vm) k \<and> frame_used (pmem s') k
     \<and> translate (word_at s') 0x1000 0x400000 = Some (push_bit 12 (ucast (frame_no (pmem sample_vm) k)))
     \<and> translate (word_at s') 0x1000 0x401000 = None"
proof -
  have "PT_INDEX 0x401000 \<noteq> PT_INDEX 0x400000" "translate (word_at sample_vm) 0x1000 0x401000 = None"
    "translate (word_at sample_vm) 0x1000 0x400000 = None" by code_simp+
  moreover have "off_direct_map (page_lo 0x400000) (page_lo 0x400000 + 4096) sample_vm" "page_lo 0x400000 \<noteq> unat (0x1000 :: u64)"
    by (simp_all add: off_direct_map_def page_lo_def sample_vm_def)
  ultimately show ?thesis using get_page_maps_one_page [OF sample_vm_can_map, of "0x400000" "0x1000"] by auto
qed

text \<open>
  Allocating a page costs two frames: for an address that is not mapped, with free frames in two words of
  the bitmap, \<open>vm_alloc\<close> takes two free frames. Only the second one is mapped; the first, which \<open>get_page\<close> had
  mapped, is overwritten in the entry and never freed. The entry's user flag is set exactly for kernel addresses.
\<close>

theorem vm_alloc_takes_two_frames:
  assumes C: "can_map (cr3 s) s" and u: "translate (word_at s) (cr3 s) va = None"
    and f: "i < nframes (pmem s)" "\<not> frame_used (pmem s) i" "j < nframes (pmem s)" "\<not> frame_used (pmem s) j" "i div 64 \<noteq> j div 64"
  shows "\<exists>s' k1 k2. vm_alloc va typ s = Inr s' \<and> k1 \<noteq> k2
     \<and> \<not> frame_used (pmem s) k1 \<and> \<not> frame_used (pmem s) k2 \<and> frame_used (pmem s') k1 \<and> frame_used (pmem s') k2
     \<and> translate (word_at s') (cr3 s) va = Some (push_bit 12 (ucast (frame_no (pmem s) k2)) + (va AND 0xFFF))
     \<and> bit (leaf (word_at s') (cr3 s) (path_of va) (PT_INDEX va)) 2 = (va \<ge> HIGHER_HALF_START_ADDR)
     \<and> (\<forall>va'. path_of va' \<noteq> path_of va \<or> PT_INDEX va' \<noteq> PT_INDEX va
          \<longrightarrow> translate (word_at s') (cr3 s) va' = translate (word_at s) (cr3 s) va')"
  using assms by (rule vm_alloc_ok)

theorem vm_alloc_takes_two_frames_witness:
  "\<exists>s' k1 k2. vm_alloc 0xFFFFA00000000000 ALLOCATE_DATA sample_vm = Inr s' \<and> k1 \<noteq> k2
     \<and> \<not> frame_used (pmem sample_vm) k1 \<and> \<not> frame_used (pmem sample_vm) k2 \<and> frame_used (pmem s') k1 \<and> frame_used (pmem s') k2"
proof -
  have c: "cr3 sample_vm = 0x1000" by (simp add: sample_vm_def)
  have u: "translate (word_at sample_vm) 0x1000 0xFFFFA00000000000 = None" by code_simp
  have "\<not> frame_used (pmem sample_vm) k" for k
    using boot_pmm_inv(3) [OF sample_map_ok] by (simp add: sample_vm_def)
  then show ?thesis
    using vm_alloc_takes_two_frames [of sample_vm "0xFFFFA00000000000" 0 64 ALLOCATE_DATA, unfolded c sample_vm_frames,
        OF sample_vm_can_map u] by auto
qed

end
