(* ===== verification/KHeap.thy ===== *)
theory KHeap
  imports Paging
begin

text \<open>
  What the two page heaps of \<open>kheap.c\<close> and \<open>uheap.c\<close> promise: with enough memory for tables and frames an
  allocation succeeds, every address of the block is mapped afterwards, no other page changes its translation,
  and the heap can go on. The promise is stated as a locale, which the two heaps interpret.
\<close>

section \<open>Pages\<close>

text \<open>Two addresses with the same indices are in the same page, up to the sixteen bits above bit 47.\<close>

lemma index_take_bit:
  "PML4_INDEX va = take_bit 9 (drop_bit 39 va)" "PDPT_INDEX va = take_bit 9 (drop_bit 30 va)"
  "PD_INDEX va = take_bit 9 (drop_bit 21 va)" "PT_INDEX va = take_bit 9 (drop_bit 12 va)"
proof -
  have "(0x1FF :: u64) = mask 9" by (simp add: mask_eq_exp_minus_1)
  then show "PML4_INDEX va = take_bit 9 (drop_bit 39 va)" "PDPT_INDEX va = take_bit 9 (drop_bit 30 va)"
    "PD_INDEX va = take_bit 9 (drop_bit 21 va)" "PT_INDEX va = take_bit 9 (drop_bit 12 va)"
    by (simp_all only: PML4_INDEX_def PDPT_INDEX_def PD_INDEX_def PT_INDEX_def take_bit_eq_mask)
qed

lemma same_page_bits:
  assumes "path_of a = path_of b" "PT_INDEX a = PT_INDEX b"
  shows "take_bit 36 (drop_bit 12 a) = take_bit 36 (drop_bit 12 b)"
proof (rule bit_word_eqI)
  fix n :: nat
  have e: "take_bit 9 (drop_bit k a) = take_bit 9 (drop_bit k b)" if "k \<in> {12, 21, 30, 39}" for k
    using assms that by (auto simp: path_of_def index_take_bit)
  have "bit a (12 + n) = bit b (12 + n)" if "n < 36"
  proof -
    define k where "k = 12 + 9 * (n div 9)"
    have "n div 9 < 4" using that by simp
    then have "n div 9 = 0 \<or> n div 9 = 1 \<or> n div 9 = 2 \<or> n div 9 = 3" by linarith
    then have "k \<in> {12, 21, 30, 39}" by (auto simp: k_def)
    then have "bit (take_bit 9 (drop_bit k a)) (n mod 9) = bit (take_bit 9 (drop_bit k b)) (n mod 9)" using e by simp
    moreover have "k + n mod 9 = 12 + n" by (simp add: k_def)
    ultimately show ?thesis by (simp add: bit_simps)
  qed
  then show "bit (take_bit 36 (drop_bit 12 a)) n = bit (take_bit 36 (drop_bit 12 b)) n" by (auto simp: bit_simps)
qed

lemma other_page:
  assumes "unat b div 4096 \<noteq> unat a div 4096" "\<bar>int (unat b div 4096) - int (unat a div 4096)\<bar> < 2 ^ 36"
  shows "path_of b \<noteq> path_of a \<or> PT_INDEX b \<noteq> PT_INDEX a"
proof (rule ccontr)
  assume "\<not> ?thesis"
  then have "take_bit 36 (drop_bit 12 b) = take_bit 36 (drop_bit 12 a)" by (intro same_page_bits) auto
  then have "unat (take_bit 36 (drop_bit 12 b)) = unat (take_bit 36 (drop_bit 12 a))" by simp
  then have "unat b div 4096 mod 2 ^ 36 = unat a div 4096 mod 2 ^ 36"
    by (simp add: unsigned_take_bit_eq unsigned_drop_bit_eq take_bit_eq_mod drop_bit_eq_div unat_div unat_mod)
  then have "int (unat b div 4096 mod 2 ^ 36) = int (unat a div 4096 mod 2 ^ 36)" by (rule arg_cong)
  then have "int (unat b div 4096) mod 2 ^ 36 = int (unat a div 4096) mod 2 ^ 36" by (simp only: of_nat_mod of_nat_power of_nat_numeral)
  then have "(2 ^ 36 :: int) dvd \<bar>int (unat b div 4096) - int (unat a div 4096)\<bar>" by (simp only: dvd_abs_iff mod_eq_dvd_iff)
  moreover have "0 < \<bar>int (unat b div 4096) - int (unat a div 4096)\<bar>" using assms(1) by linarith
  ultimately show False using zdvd_imp_le assms(2) by fastforce
qed

lemma same_page:
  assumes "unat a div 4096 = unat b div 4096"
  shows "path_of a = path_of b \<and> PT_INDEX a = PT_INDEX b"
proof -
  have "unat (drop_bit 12 a) = unat (drop_bit 12 b)" using assms by (simp add: unsigned_drop_bit_eq drop_bit_eq_div unat_div)
  then have d: "drop_bit 12 a = drop_bit 12 b" by (rule unat_eqI)
  have "drop_bit 21 x = drop_bit 9 (drop_bit 12 x)" "drop_bit 30 x = drop_bit 18 (drop_bit 12 x)"
    "drop_bit 39 x = drop_bit 27 (drop_bit 12 x)" for x :: u64 by simp_all
  then have "drop_bit 21 a = drop_bit 21 b" "drop_bit 30 a = drop_bit 30 b" "drop_bit 39 a = drop_bit 39 b" using d by metis+
  then show ?thesis using d by (simp add: path_of_def PML4_INDEX_def PDPT_INDEX_def PD_INDEX_def PT_INDEX_def)
qed

lemma mapped_same_page: "unat a div 4096 = unat b div 4096 \<Longrightarrow> translate W root a \<noteq> None \<longleftrightarrow> translate W root b \<noteq> None"
  using same_page [of a b] by (auto simp: translate_def Let_def split: if_splits)

section \<open>Memory for pages\<close>

definition free_words :: "phys_mem \<Rightarrow> nat set" where
  "free_words m = (\<lambda>k. k div 64) ` {k. k < nframes m \<and> \<not> frame_used m k}"

text \<open>There are tables and frames for \<open>n\<close> more pages: four blocks of the placement allocator and two words of the
  bitmap with a free frame for each.\<close>

definition can_map_pages :: "nat \<Rightarrow> vmem \<Rightarrow> bool" where
  "can_map_pages n s \<longleftrightarrow> pages_ok (cr3 s) s \<and> pmm_wf (pmem s) \<and> region_ok (pmem s) \<and> cr3 s \<noteq> 0 \<and> room (4 * n) s
     \<and> 2 * n \<le> card (free_words (pmem s))"

lemma free_words_finite [simp]: "finite (free_words m)"
  by (simp add: free_words_def)

lemma room_mono: "room n s \<Longrightarrow> k \<le> n \<Longrightarrow> room k s"
proof -
  assume "room n s" "k \<le> n"
  moreover from \<open>k \<le> n\<close> have "k * 8192 \<le> n * 8192" by (rule mult_le_mono1)
  ultimately show ?thesis unfolding room_def by linarith
qed

lemma can_map_pages_mono: "can_map_pages n s \<Longrightarrow> k \<le> n \<Longrightarrow> can_map_pages k s"
  unfolding can_map_pages_def using room_mono [of "4 * n" s "4 * k"] by auto

lemma vm_alloc_page:
  assumes C: "can_map_pages (Suc n) s"
  shows "\<exists>s'. vm_alloc va typ s = Inr s' \<and> can_map_pages n s' \<and> cr3 s' = cr3 s \<and> translate (word_at s') (cr3 s) va \<noteq> None
    \<and> (typ = ALLOCATE_CODE \<longrightarrow> \<not> bit (leaf (word_at s') (cr3 s) (path_of va) (PT_INDEX va)) 1)
    \<and> (\<forall>a. path_of a \<noteq> path_of va \<or> PT_INDEX a \<noteq> PT_INDEX va \<longrightarrow> translate (word_at s') (cr3 s) a = translate (word_at s) (cr3 s) a)"
proof -
  have R: "room ((4 * n + 1) + 3) s" and P: "pages_ok (cr3 s) s" "pmm_wf (pmem s)" "region_ok (pmem s)" "cr3 s \<noteq> 0"
    and c: "2 * n + 2 \<le> card (free_words (pmem s))" using C by (simp_all add: can_map_pages_def add.commute)
  have "\<exists>x y. x \<in> free_words (pmem s) \<and> y \<in> free_words (pmem s) \<and> x \<noteq> y"
    by (rule ccontr) (use c card_le_Suc0_iff_eq [OF free_words_finite, of "pmem s"] in auto)
  then obtain i j where f: "i < nframes (pmem s)" "\<not> frame_used (pmem s) i" "j < nframes (pmem s)" "\<not> frame_used (pmem s) j" "i div 64 \<noteq> j div 64"
    by (auto simp: free_words_def)
  have cm: "can_map (cr3 s) s" using P room_mono [OF R, of 3] f by (auto simp: can_map_def)
  obtain s' k2 k0 where s': "vm_alloc va typ s = Inr s'"
      "translate (word_at s') (cr3 s) va = Some (push_bit 12 (ucast (frame_no (pmem s) k2)) + (va AND 0xFFF))"
      "\<forall>va'. path_of va' \<noteq> path_of va \<or> PT_INDEX va' \<noteq> PT_INDEX va \<longrightarrow> translate (word_at s') (cr3 s) va' = translate (word_at s) (cr3 s) va'"
      "pages_ok (cr3 s) s'" "pmm_wf (pmem s')" "region_ok (pmem s')" "cr3 s' = cr3 s" "nframes (pmem s') = nframes (pmem s)"
      "USABLE_END_PHYS_MEM (pmem s') = USABLE_END_PHYS_MEM (pmem s)" "0 < unat (phys_mem_head (pmem s'))"
      "unat (phys_mem_head (pmem s')) + (4 * n + 1) * 8192 \<le> unat (USABLE_END_PHYS_MEM (pmem s)) + 8192"
    and u: "\<forall>j. frame_used (pmem s') j \<longrightarrow> frame_used (pmem s) j \<or> j div 64 = k0 \<or> j div 64 = k2 div 64"
    and ro: "typ = ALLOCATE_CODE \<longrightarrow> \<not> bit (leaf (word_at s') (cr3 s) (path_of va) (PT_INDEX va)) 1"
    using vm_alloc_step [OF cm R f, of va "typ"] by (elim exE conjE) (rule that; assumption)
  have "free_words (pmem s) \<subseteq> free_words (pmem s') \<union> {k0, k2 div 64}"
    using u s'(8) by (auto simp: free_words_def)
  then have "card (free_words (pmem s)) \<le> card (free_words (pmem s') \<union> {k0, k2 div 64})" by (intro card_mono) auto
  also have "\<dots> \<le> card (free_words (pmem s')) + card {k0, k2 div 64}" by (rule card_Un_le)
  also have "\<dots> \<le> card (free_words (pmem s')) + 2" by (simp add: card_insert_if)
  finally have "2 * n \<le> card (free_words (pmem s'))" using c by linarith
  moreover have "room (4 * n) s'" using s'(9-11) by (simp add: room_def)
  ultimately have "can_map_pages n s'" using s' P(4) by (simp add: can_map_pages_def)
  then show ?thesis using s'(1,2,3,7) ro by auto
qed

lemma alloc_pages_ok:
  assumes "can_map_pages (n + k) s" "unat va + n * 4096 < 2 ^ 64" "unat va mod 4096 = 0" "n < 2 ^ 36"
  shows "\<exists>s'. alloc_pages n va typ s = Inr s' \<and> can_map_pages k s' \<and> cr3 s' = cr3 s
    \<and> (\<forall>a. unat va \<le> unat a \<and> unat a < unat va + n * 4096 \<longrightarrow> translate (word_at s') (cr3 s) a \<noteq> None)
    \<and> (\<forall>a. (\<forall>i < n. path_of a \<noteq> path_of (va + of_nat i * PAGE_SIZE) \<or> PT_INDEX a \<noteq> PT_INDEX (va + of_nat i * PAGE_SIZE))
        \<longrightarrow> translate (word_at s') (cr3 s) a = translate (word_at s) (cr3 s) a)"
  using assms
proof (induction n arbitrary: s va)
  case 0
  then show ?case by auto
next
  case (Suc n)
  obtain s1 where s1: "vm_alloc va typ s = Inr s1" "can_map_pages (n + k) s1" "cr3 s1 = cr3 s" "translate (word_at s1) (cr3 s) va \<noteq> None"
    "\<forall>a. path_of a \<noteq> path_of va \<or> PT_INDEX a \<noteq> PT_INDEX va \<longrightarrow> translate (word_at s1) (cr3 s) a = translate (word_at s) (cr3 s) a"
    using vm_alloc_page [of "n + k" s va "typ"] Suc.prems(1) by auto
  define va1 where "va1 = va + PAGE_SIZE"
  have v1: "unat va1 = unat va + 4096" using Suc.prems(2) by (simp add: va1_def PAGE_SIZE_def unat_plus_u64)
  have pg: "va + of_nat (Suc i) * PAGE_SIZE = va1 + of_nat i * PAGE_SIZE" for i by (simp add: va1_def algebra_simps)
  obtain s' where s': "alloc_pages n va1 typ s1 = Inr s'" "can_map_pages k s'" "cr3 s' = cr3 s1"
    "\<forall>a. unat va1 \<le> unat a \<and> unat a < unat va1 + n * 4096 \<longrightarrow> translate (word_at s') (cr3 s1) a \<noteq> None"
    "\<forall>a. (\<forall>i < n. path_of a \<noteq> path_of (va1 + of_nat i * PAGE_SIZE) \<or> PT_INDEX a \<noteq> PT_INDEX (va1 + of_nat i * PAGE_SIZE))
        \<longrightarrow> translate (word_at s') (cr3 s1) a = translate (word_at s1) (cr3 s1) a"
    using Suc.IH [OF s1(2), of va1] Suc.prems v1 by auto
  have far: "path_of va \<noteq> path_of (va1 + of_nat i * PAGE_SIZE) \<or> PT_INDEX va \<noteq> PT_INDEX (va1 + of_nat i * PAGE_SIZE)" if "i < n" for i
  proof (rule other_page)
    have i: "i < 2 ^ 36" "Suc i * 4096 < 2 ^ 64" using that Suc.prems(4) by simp_all
    have "unat (of_nat i * PAGE_SIZE) = i * 4096" using i by (simp add: PAGE_SIZE_def unat_word_ariths unat_of_nat take_bit_nat_eq_self)
    then have "unat (va1 + of_nat i * PAGE_SIZE) = unat va + Suc i * 4096"
      using Suc.prems(2) that v1 by (subst unat_plus_u64) auto
    then have "unat (va1 + of_nat i * PAGE_SIZE) div 4096 = unat va div 4096 + Suc i" by simp
    then show "unat va div 4096 \<noteq> unat (va1 + of_nat i * PAGE_SIZE) div 4096"
      "\<bar>int (unat va div 4096) - int (unat (va1 + of_nat i * PAGE_SIZE) div 4096)\<bar> < 2 ^ 36" using that Suc.prems(4) by simp_all
  qed
  have first: "translate (word_at s') (cr3 s) va \<noteq> None" using s'(5) far s1(3,4) by simp
  have "translate (word_at s') (cr3 s) a \<noteq> None" if "unat va \<le> unat a \<and> unat a < unat va + Suc n * 4096" for a
  proof (cases "unat a < unat va1")
    case True
    have "unat a = unat va + (unat a - unat va)" "unat a - unat va < 4096" "unat va = unat va div 4096 * 4096"
      using that True v1 Suc.prems(3) by auto
    then have "unat a div 4096 = unat va div 4096" by (metis div_mult_self3 div_less add.commute add_0 zero_neq_numeral)
    then show ?thesis using mapped_same_page first by blast
  next
    case False
    then show ?thesis using s'(4) that v1 s1(3) by auto
  qed
  moreover have "translate (word_at s') (cr3 s) a = translate (word_at s) (cr3 s) a"
    if A: "\<forall>i < Suc n. path_of a \<noteq> path_of (va + of_nat i * PAGE_SIZE) \<or> PT_INDEX a \<noteq> PT_INDEX (va + of_nat i * PAGE_SIZE)" for a
  proof -
    have "\<forall>i < n. path_of a \<noteq> path_of (va1 + of_nat i * PAGE_SIZE) \<or> PT_INDEX a \<noteq> PT_INDEX (va1 + of_nat i * PAGE_SIZE)"
      using A [rule_format, OF Suc_mono] unfolding pg by blast
    moreover have "path_of a \<noteq> path_of va \<or> PT_INDEX a \<noteq> PT_INDEX va" using A [rule_format, of 0] by simp
    ultimately show ?thesis using s'(5) s1(3,5) by simp
  qed
  ultimately show ?case using s1(1,3) s'(1-3) unfolding va1_def by auto
qed

section \<open>The interface of a page heap\<close>

definition pages_of :: "u64 \<Rightarrow> nat" where "pages_of sz = (unat sz + 4095) div 4096"

text \<open>
  A heap hands out blocks of whole pages at its head, which moves up and leaves an unmapped page between two
  blocks. \<open>lo\<close> and \<open>hi\<close> bound its part of the address space.
\<close>

locale page_heap =
  fixes head :: "vmem \<Rightarrow> u64" and alloc :: "u64 \<Rightarrow> u8 \<Rightarrow> vmem \<Rightarrow> kfault + (u64 option \<times> vmem)" and lo hi :: nat
  assumes alloc_ok: "\<lbrakk>can_map_pages (pages_of sz + k) s; lo \<le> unat (head s); unat (head s) mod 4096 = 0;
      unat (head s) + (pages_of sz + 1) * 4096 \<le> hi\<rbrakk> \<Longrightarrow>
      \<exists>s'. alloc sz ty s = Inr (Some (head s), s') \<and> can_map_pages k s' \<and> cr3 s' = cr3 s
        \<and> unat (head s') = unat (head s) + (pages_of sz + 1) * 4096
        \<and> (\<forall>a. unat (head s) \<le> unat a \<and> unat a < unat (head s) + pages_of sz * 4096 \<longrightarrow> translate (word_at s') (cr3 s) a \<noteq> None)
        \<and> (\<forall>a. lo \<le> unat a \<and> unat a < unat (head s) \<longrightarrow> translate (word_at s') (cr3 s) a = translate (word_at s) (cr3 s) a)"

fun alloc_seq :: "(u64 \<Rightarrow> u8 \<Rightarrow> vmem \<Rightarrow> kfault + (u64 option \<times> vmem)) \<Rightarrow> (u64 \<times> u8) list \<Rightarrow> vmem \<Rightarrow> kfault + (u64 option list \<times> vmem)" where
  "alloc_seq alloc [] s = Inr ([], s)"
| "alloc_seq alloc ((sz, ty) # rs) s =
     sum_bind (alloc sz ty s) (\<lambda>(r, s1). sum_bind (alloc_seq alloc rs s1) (\<lambda>(ps, s2). Inr (r # ps, s2)))"

text \<open>A list of blocks: each request got one, in ascending order, with a gap of a page.\<close>

fun blocks_from :: "nat \<Rightarrow> (u64 \<times> u8) list \<Rightarrow> u64 list \<Rightarrow> bool" where
  "blocks_from h [] ps \<longleftrightarrow> ps = []"
| "blocks_from h ((sz, ty) # rs) ps \<longleftrightarrow> (\<exists>p qs. ps = p # qs \<and> unat p = h \<and> blocks_from (h + (pages_of sz + 1) * 4096) rs qs)"

definition pages_for :: "(u64 \<times> u8) list \<Rightarrow> nat" where
  "pages_for rs = (\<Sum>(sz, ty) \<leftarrow> rs. pages_of sz)"

definition mapped :: "vmem \<Rightarrow> nat \<Rightarrow> nat \<Rightarrow> bool" where
  "mapped s h n \<longleftrightarrow> (\<forall>a. h \<le> unat a \<and> unat a < h + n \<longrightarrow> translate (word_at s) (cr3 s) a \<noteq> None)"

context page_heap
begin

lemma alloc_seq_ok:
  assumes "can_map_pages (pages_for rs + k) s" "lo \<le> unat (head s)" "unat (head s) mod 4096 = 0"
    "unat (head s) + (pages_for rs + length rs) * 4096 \<le> hi"
  shows "\<exists>ps s'. alloc_seq alloc rs s = Inr (map Some ps, s') \<and> can_map_pages k s' \<and> cr3 s' = cr3 s
    \<and> blocks_from (unat (head s)) rs ps \<and> (\<forall>i < length rs. mapped s' (unat (ps ! i)) (pages_of (fst (rs ! i)) * 4096))
    \<and> (\<forall>a. lo \<le> unat a \<and> unat a < unat (head s) \<longrightarrow> translate (word_at s') (cr3 s) a = translate (word_at s) (cr3 s) a)"
  using assms
proof (induction rs arbitrary: s)
  case Nil
  then show ?case by (simp add: pages_for_def)
next
  case (Cons r rs)
  obtain sz ty where r: "r = (sz, ty)" by fastforce
  have n: "pages_for (r # rs) = pages_of sz + pages_for rs" by (simp add: r pages_for_def)
  have hi: "unat (head s) + (pages_of sz + 1) * 4096 \<le> hi" using Cons.prems(4) n by simp
  obtain s1 where s1: "alloc sz ty s = Inr (Some (head s), s1)" "can_map_pages (pages_for rs + k) s1" "cr3 s1 = cr3 s"
    "unat (head s1) = unat (head s) + (pages_of sz + 1) * 4096"
    "\<forall>a. unat (head s) \<le> unat a \<and> unat a < unat (head s) + pages_of sz * 4096 \<longrightarrow> translate (word_at s1) (cr3 s) a \<noteq> None"
    "\<forall>a. lo \<le> unat a \<and> unat a < unat (head s) \<longrightarrow> translate (word_at s1) (cr3 s) a = translate (word_at s) (cr3 s) a"
    using alloc_ok [of sz "pages_for rs + k" s ty] Cons.prems hi unfolding n add.assoc by blast
  obtain ps s' where s': "alloc_seq alloc rs s1 = Inr (map Some ps, s')" "can_map_pages k s'" "cr3 s' = cr3 s1"
    "blocks_from (unat (head s1)) rs ps" "\<forall>i < length rs. mapped s' (unat (ps ! i)) (pages_of (fst (rs ! i)) * 4096)"
    "\<forall>a. lo \<le> unat a \<and> unat a < unat (head s1) \<longrightarrow> translate (word_at s') (cr3 s1) a = translate (word_at s1) (cr3 s1) a"
    using Cons.IH [OF s1(2)] Cons.prems s1(4) n by fastforce
  have "mapped s' (unat (head s)) (pages_of sz * 4096)"
    unfolding mapped_def using s1(3-5) s'(3,6) Cons.prems(2) by auto
  then have "\<forall>i < length (r # rs). mapped s' (unat ((head s # ps) ! i)) (pages_of (fst ((r # rs) ! i)) * 4096)"
    using s'(5) r by (auto simp: less_Suc_eq_0_disj)
  moreover have "translate (word_at s') (cr3 s) a = translate (word_at s) (cr3 s) a" if "lo \<le> unat a \<and> unat a < unat (head s)" for a
    using s1(3,4,6) s'(6) that by auto
  moreover have "blocks_from (unat (head s)) (r # rs) (head s # ps)" using s'(4) s1(4) r by simp
  moreover have "alloc_seq alloc (r # rs) s = Inr (map Some (head s # ps), s')" using r s1(1) s'(1) by simp
  ultimately show ?case using s'(2,3) s1(3) by (intro exI [of _ "head s # ps"] exI [of _ s']) simp
qed

end

section \<open>The two heaps\<close>

lemma heap_block:
  assumes "unat va + (pages_of sz + 1) * 4096 < 2 ^ 64"
  shows "unat (va + page_up sz) = unat va + pages_of sz * 4096" "heap_rounds va (page_up sz) = pages_of sz"
    "unat (va + of_nat (pages_of sz) * PAGE_SIZE + PAGE_SIZE) = unat va + (pages_of sz + 1) * 4096"
proof -
  let ?n = "pages_of sz"
  have b: "unat sz \<le> ?n * 4096" "?n * 4096 \<le> unat sz + 4095" unfolding pages_of_def by linarith+
  have pu: "unat (page_up sz) = ?n * 4096" unfolding pages_of_def using assms b by (intro unat_page_up) simp
  show sum: "unat (va + page_up sz) = unat va + ?n * 4096" using assms b pu by (subst unat_plus_u64) simp_all
  show "heap_rounds va (page_up sz) = ?n"
    using sum pu by (auto simp: heap_rounds_def word_less_nat_alt unat_div PAGE_SIZE_def)
  have n: "?n < 2 ^ 64" using assms by simp
  have m: "unat (of_nat ?n * PAGE_SIZE) = ?n * 4096"
    using assms n by (simp add: PAGE_SIZE_def unat_word_ariths unat_of_nat take_bit_nat_eq_self)
  have "unat (va + of_nat ?n * PAGE_SIZE) = unat va + ?n * 4096" using assms m by (subst unat_plus_u64) simp_all
  then show "unat (va + of_nat ?n * PAGE_SIZE + PAGE_SIZE) = unat va + (?n + 1) * 4096"
    using assms by (subst unat_plus_u64) (simp_all add: PAGE_SIZE_def)
qed

text \<open>The pages of a block are different from every page below it in the same quarter of the address space.\<close>

lemma below_block:
  assumes "lo \<le> unat a" "unat a < unat va" "unat va mod 4096 = 0" "unat va + n * 4096 < 2 ^ 64" "unat va + n * 4096 \<le> lo + 2 ^ 47" "i < n"
  shows "path_of a \<noteq> path_of (va + of_nat i * PAGE_SIZE) \<or> PT_INDEX a \<noteq> PT_INDEX (va + of_nat i * PAGE_SIZE)"
proof (rule other_page)
  have i: "i * 4096 < n * 4096" "i < 2 ^ 64" using assms(4,6) by simp_all
  have "unat (of_nat i * PAGE_SIZE) = i * 4096" using i assms(4) by (simp add: PAGE_SIZE_def unat_word_ariths unat_of_nat take_bit_nat_eq_self)
  then have v: "unat (va + of_nat i * PAGE_SIZE) = unat va + i * 4096" using assms(4) i by (subst unat_plus_u64) linarith+
  then have d: "unat (va + of_nat i * PAGE_SIZE) div 4096 = unat va div 4096 + i" by simp
  have "unat a div 4096 < unat va div 4096" using assms(2,3) by (metis div_mult_mod_eq add.right_neutral div_less_iff_less_mult zero_less_numeral)
  moreover have "unat va div 4096 + i < unat a div 4096 + 2 ^ 36"
  proof -
    have "unat va + i * 4096 < unat a + 2 ^ 47" using assms(1,5) i by linarith
    moreover have "unat va div 4096 * 4096 \<le> unat va" "unat a < (unat a div 4096 + 1) * 4096" by simp_all
    ultimately show ?thesis by simp
  qed
  ultimately show "unat a div 4096 \<noteq> unat (va + of_nat i * PAGE_SIZE) div 4096"
    "\<bar>int (unat a div 4096) - int (unat (va + of_nat i * PAGE_SIZE) div 4096)\<bar> < 2 ^ 36" unfolding d by simp_all
qed

lemma can_map_pages_heads [simp]:
  "can_map_pages n (s\<lparr>h_va_head := h\<rparr>) = can_map_pages n s" "can_map_pages n (s\<lparr>l_va_head := h\<rparr>) = can_map_pages n s"
  by (simp_all add: can_map_pages_def pages_ok_def room_def)

lemma heap_pages_ok:
  assumes C: "can_map_pages (pages_of sz + k) s" and va: "lo \<le> unat va" "unat va mod 4096 = 0"
    and hi: "unat va + (pages_of sz + 1) * 4096 \<le> hi" "hi < 2 ^ 64" "hi \<le> lo + 2 ^ 47"
  shows "\<exists>s'. alloc_pages (pages_of sz) va ty s = Inr s' \<and> can_map_pages k s' \<and> cr3 s' = cr3 s \<and> same_heads s s'
    \<and> (\<forall>a. unat va \<le> unat a \<and> unat a < unat va + pages_of sz * 4096 \<longrightarrow> translate (word_at s') (cr3 s) a \<noteq> None)
    \<and> (\<forall>a. lo \<le> unat a \<and> unat a < unat va \<longrightarrow> translate (word_at s') (cr3 s) a = translate (word_at s) (cr3 s) a)"
proof -
  have b: "unat va + pages_of sz * 4096 < 2 ^ 64" "unat va + pages_of sz * 4096 \<le> lo + 2 ^ 47" "pages_of sz < 2 ^ 36"
    using hi va(1) by simp_all
  obtain s' where s': "alloc_pages (pages_of sz) va ty s = Inr s'" "can_map_pages k s'" "cr3 s' = cr3 s"
    "\<forall>a. unat va \<le> unat a \<and> unat a < unat va + pages_of sz * 4096 \<longrightarrow> translate (word_at s') (cr3 s) a \<noteq> None"
    "\<forall>a. (\<forall>i < pages_of sz. path_of a \<noteq> path_of (va + of_nat i * PAGE_SIZE) \<or> PT_INDEX a \<noteq> PT_INDEX (va + of_nat i * PAGE_SIZE))
        \<longrightarrow> translate (word_at s') (cr3 s) a = translate (word_at s) (cr3 s) a"
    using alloc_pages_ok [OF C b(1) va(2) b(3), of ty] by (elim exE conjE) (rule that; assumption)
  then show ?thesis using below_block [OF _ _ va(2) b(1,2)] same_heads_alloc_pages [OF s'(1)] by blast
qed

definition KHEAP_LO :: nat where "KHEAP_LO = 0xFFFF800000000000"
definition UHEAP_LO :: nat where "UHEAP_LO = 0"

interpretation kh: page_heap h_va_head kheap_alloc KHEAP_LO "2 ^ 64 - 1"
proof
  fix sz k ty and s :: vmem
  let ?va = "h_va_head s"
  assume C: "can_map_pages (pages_of sz + k) s" "KHEAP_LO \<le> unat ?va" "unat ?va mod 4096 = 0"
    "unat ?va + (pages_of sz + 1) * 4096 \<le> 2 ^ 64 - 1"
  have hb: "(2 ^ 64 - 1 :: nat) < 2 ^ 64" "2 ^ 64 - 1 \<le> KHEAP_LO + 2 ^ 47" by (simp_all add: KHEAP_LO_def)
  have b: "unat ?va + (pages_of sz + 1) * 4096 < 2 ^ 64" using C(4) by simp
  obtain s' where s': "alloc_pages (pages_of sz) ?va ty s = Inr s'" "can_map_pages k s'" "cr3 s' = cr3 s"
    "\<forall>a. unat ?va \<le> unat a \<and> unat a < unat ?va + pages_of sz * 4096 \<longrightarrow> translate (word_at s') (cr3 s) a \<noteq> None"
    "\<forall>a. KHEAP_LO \<le> unat a \<and> unat a < unat ?va \<longrightarrow> translate (word_at s') (cr3 s) a = translate (word_at s) (cr3 s) a"
    using heap_pages_ok [OF C hb, of ty] by (elim exE conjE) (rule that; assumption)
  have "\<not> ?va + page_up sz > HIGHER_HALF_END_ADDR"
    unfolding HIGHER_HALF_END_ADDR_def by (simp add: word_less_nat_alt not_less) (use unat_u64_lt [of "?va + page_up sz"] in simp)
  then have k: "kheap_alloc sz ty s = Inr (Some ?va, s'\<lparr>h_va_head := ?va + of_nat (pages_of sz) * PAGE_SIZE + PAGE_SIZE\<rparr>)"
    using s'(1) by (simp add: kheap_alloc_def Let_def heap_block(2) [OF b])
  show "\<exists>s'. kheap_alloc sz ty s = Inr (Some ?va, s') \<and> can_map_pages k s' \<and> cr3 s' = cr3 s
        \<and> unat (h_va_head s') = unat ?va + (pages_of sz + 1) * 4096
        \<and> (\<forall>a. unat ?va \<le> unat a \<and> unat a < unat ?va + pages_of sz * 4096 \<longrightarrow> translate (word_at s') (cr3 s) a \<noteq> None)
        \<and> (\<forall>a. KHEAP_LO \<le> unat a \<and> unat a < unat ?va \<longrightarrow> translate (word_at s') (cr3 s) a = translate (word_at s) (cr3 s) a)"
    using s' heap_block(3) [OF b] by (intro exI [of _ "s'\<lparr>h_va_head := ?va + of_nat (pages_of sz) * PAGE_SIZE + PAGE_SIZE\<rparr>"]) (simp add: k)
qed

interpretation uh: page_heap l_va_head uheap_alloc UHEAP_LO "2 ^ 47 - 1"
proof
  fix sz k ty and s :: vmem
  let ?va = "l_va_head s"
  assume C: "can_map_pages (pages_of sz + k) s" "UHEAP_LO \<le> unat ?va" "unat ?va mod 4096 = 0"
    "unat ?va + (pages_of sz + 1) * 4096 \<le> 2 ^ 47 - 1"
  have hb: "(2 ^ 47 - 1 :: nat) < 2 ^ 64" "2 ^ 47 - 1 \<le> UHEAP_LO + 2 ^ 47" by (simp_all add: UHEAP_LO_def)
  have b: "unat ?va + (pages_of sz + 1) * 4096 < 2 ^ 64" using C(4) by simp
  obtain s' where s': "alloc_pages (pages_of sz) ?va ty s = Inr s'" "can_map_pages k s'" "cr3 s' = cr3 s"
    "\<forall>a. unat ?va \<le> unat a \<and> unat a < unat ?va + pages_of sz * 4096 \<longrightarrow> translate (word_at s') (cr3 s) a \<noteq> None"
    "\<forall>a. UHEAP_LO \<le> unat a \<and> unat a < unat ?va \<longrightarrow> translate (word_at s') (cr3 s) a = translate (word_at s) (cr3 s) a"
    using heap_pages_ok [OF C hb, of ty] by (elim exE conjE) (rule that; assumption)
  have "\<not> ?va + page_up sz > LOWER_HALF_END_ADDR"
    using heap_block(1) [OF b] C(4) by (simp add: LOWER_HALF_END_ADDR_def word_less_nat_alt)
  then have k: "uheap_alloc sz ty s = Inr (Some ?va, s'\<lparr>l_va_head := ?va + of_nat (pages_of sz) * PAGE_SIZE + PAGE_SIZE\<rparr>)"
    using s'(1) by (simp add: uheap_alloc_def Let_def heap_block(2) [OF b])
  show "\<exists>s'. uheap_alloc sz ty s = Inr (Some ?va, s') \<and> can_map_pages k s' \<and> cr3 s' = cr3 s
        \<and> unat (l_va_head s') = unat ?va + (pages_of sz + 1) * 4096
        \<and> (\<forall>a. unat ?va \<le> unat a \<and> unat a < unat ?va + pages_of sz * 4096 \<longrightarrow> translate (word_at s') (cr3 s) a \<noteq> None)
        \<and> (\<forall>a. UHEAP_LO \<le> unat a \<and> unat a < unat ?va \<longrightarrow> translate (word_at s') (cr3 s) a = translate (word_at s) (cr3 s) a)"
    using s' heap_block(3) [OF b] by (intro exI [of _ "s'\<lparr>l_va_head := ?va + of_nat (pages_of sz) * PAGE_SIZE + PAGE_SIZE\<rparr>"]) (simp add: k)
qed

text \<open>A block of at most a page for code: its page is mapped, and read-only.\<close>

lemma kheap_alloc_code_page:
  assumes C: "can_map_pages (Suc n) s" and va: "unat (h_va_head s) + 8192 < 2 ^ 64" and sz: "0 < unat sz" "unat sz \<le> 4096"
  shows "\<exists>s'. kheap_alloc sz ALLOCATE_CODE s = Inr (Some (h_va_head s), s') \<and> cr3 s' = cr3 s \<and> can_map_pages n s'
    \<and> translate (word_at s') (cr3 s) (h_va_head s) \<noteq> None
    \<and> \<not> bit (leaf (word_at s') (cr3 s) (path_of (h_va_head s)) (PT_INDEX (h_va_head s))) 1"
proof -
  let ?va = "h_va_head s"
  have n: "pages_of sz = Suc 0"
  proof -
    have "(unat sz + 4095) div 4096 = 1" using sz by (intro div_nat_eqI) simp_all
    then show ?thesis by (simp add: pages_of_def)
  qed
  have "unat ?va + (pages_of sz + 1) * 4096 < 2 ^ 64" using va n by simp
  note b = heap_block(2) [OF this]
  obtain s' where s': "vm_alloc ?va ALLOCATE_CODE s = Inr s'" "can_map_pages n s'" "cr3 s' = cr3 s" "translate (word_at s') (cr3 s) ?va \<noteq> None"
    "\<not> bit (leaf (word_at s') (cr3 s) (path_of ?va) (PT_INDEX ?va)) 1"
    using vm_alloc_page [OF C, of ?va ALLOCATE_CODE] by auto
  have "\<not> ?va + page_up sz > HIGHER_HALF_END_ADDR"
    unfolding HIGHER_HALF_END_ADDR_def by (simp add: word_less_nat_alt not_less) (use unat_u64_lt [of "?va + page_up sz"] in simp)
  then show ?thesis using s' by (simp add: kheap_alloc_def Let_def b n)
qed

lemma pages_cover: "unat sz \<le> pages_of sz * 4096"
  unfolding pages_of_def by linarith

lemma blocks_from_disjoint:
  "blocks_from h rs ps \<Longrightarrow> length ps = length rs \<and> (\<forall>i < length rs. h \<le> unat (ps ! i))
    \<and> (\<forall>j < length rs. \<forall>i < j. unat (ps ! i) + unat (fst (rs ! i)) < unat (ps ! j))"
proof (induction h rs ps rule: blocks_from.induct)
  case (2 h sz ty rs ps)
  then obtain p qs where q: "ps = p # qs" "unat p = h" "blocks_from (h + (pages_of sz + 1) * 4096) rs qs" by auto
  note I = "2.IH" [OF q(3)]
  have "unat p + unat sz < unat (qs ! j)" if "j < length rs" for j
    using I that q(2) pages_cover [of sz] by (meson order_less_le_trans add_left_mono) (use I that q(2) pages_cover [of sz] in fastforce)
  then have "\<forall>j < length ((sz, ty) # rs). \<forall>i < j. unat (ps ! i) + unat (fst (((sz, ty) # rs) ! i)) < unat (ps ! j)"
    using I q(1) by (auto simp: less_Suc_eq_0_disj)
  moreover have "\<forall>i < length ((sz, ty) # rs). h \<le> unat (ps ! i)" using I q(1,2) by (auto simp: less_Suc_eq_0_disj)
  ultimately show ?case using I q(1) by simp
qed simp

section \<open>Properties\<close>

text \<open>
  C19. The kernel heap: with page tables and frames for all of them, and a direct map that the heap does not run into, any
  sequence of \<open>kheap_alloc\<close> calls succeeds;
  the blocks lie behind each other without overlap, at the end of the sequence every address of every block is
  mapped, and no address below the first block has changed its translation. The condition on the direct map is needed: at the
  boot loader's usual offset \<open>0xFFFF800000000000\<close> the heap starts in the second page of the direct map
  (\<open>heap_in_direct_map\<close>) and remaps the pages through which the tables are reached.
\<close>

theorem kheap_blocks_mapped_and_disjoint:
  assumes "can_map_pages (pages_for rs + k) s" "KHEAP_LO \<le> unat (h_va_head s)" "unat (h_va_head s) mod 4096 = 0"
    "unat (h_va_head s) + (pages_for rs + length rs) * 4096 < 2 ^ 64"
    "off_direct_map (unat (h_va_head s)) (unat (h_va_head s) + (pages_for rs + length rs) * 4096) s"
  shows "\<exists>ps s'. alloc_seq kheap_alloc rs s = Inr (map Some ps, s') \<and> length ps = length rs \<and> can_map_pages k s'
    \<and> (\<forall>j < length rs. \<forall>i < j. unat (ps ! i) + unat (fst (rs ! i)) < unat (ps ! j))
    \<and> (\<forall>i < length rs. mapped s' (unat (ps ! i)) (unat (fst (rs ! i))))
    \<and> (\<forall>a. KHEAP_LO \<le> unat a \<and> unat a < unat (h_va_head s) \<longrightarrow> translate (word_at s') (cr3 s) a = translate (word_at s) (cr3 s) a)"
proof -
  have hi: "unat (h_va_head s) + (pages_for rs + length rs) * 4096 \<le> 2 ^ 64 - 1" using assms(4) by simp
  obtain ps s' where p: "alloc_seq kheap_alloc rs s = Inr (map Some ps, s')" "can_map_pages k s'"
    "blocks_from (unat (h_va_head s)) rs ps" "\<forall>i < length rs. mapped s' (unat (ps ! i)) (pages_of (fst (rs ! i)) * 4096)"
    "\<forall>a. KHEAP_LO \<le> unat a \<and> unat a < unat (h_va_head s) \<longrightarrow> translate (word_at s') (cr3 s) a = translate (word_at s) (cr3 s) a"
    using kh.alloc_seq_ok [OF assms(1-3) hi] by (elim exE conjE) (rule that; assumption)
  have "mapped s' (unat (ps ! i)) (unat (fst (rs ! i)))" if "i < length rs" for i
    using p(4) that pages_cover [of "fst (rs ! i)"] unfolding mapped_def by (meson add_left_mono order_less_le_trans)
  then show ?thesis using p blocks_from_disjoint [OF p(3)] by blast
qed

lemma sample_can_map_pages: "can_map_pages 4 sample_vm"
proof -
  have W: "pmm_wf (pmem sample_vm)" "region_ok (pmem sample_vm)" "\<And>k. \<not> frame_used (pmem sample_vm) k"
    using boot_pmm_inv [OF sample_map_ok] by (simp_all add: sample_vm_def frames_inv_def)
  have v: "unat (phys_mem_head (pmem sample_vm)) = 1048647" "unat (USABLE_END_PHYS_MEM (pmem sample_vm)) = 3145728"
  proof -
    have "phys_mem_head (pmem sample_vm) = 1048647" "USABLE_END_PHYS_MEM (pmem sample_vm) = 3145728" by code_simp+
    then show "unat (phys_mem_head (pmem sample_vm)) = 1048647" "unat (USABLE_END_PHYS_MEM (pmem sample_vm)) = 3145728" by simp_all
  qed
  have "(\<lambda>w. 64 * w) ` {..<8} \<subseteq> {k. k < nframes (pmem sample_vm) \<and> \<not> frame_used (pmem sample_vm) k}"
    using W(3) by (auto simp: sample_vm_frames)
  then have "(\<lambda>k. k div 64) ` (\<lambda>w. 64 * w) ` {..<8} \<subseteq> free_words (pmem sample_vm)" unfolding free_words_def by (rule image_mono)
  then have "{..<8} \<subseteq> free_words (pmem sample_vm)" by (simp add: image_image)
  then have "card {..<8 :: nat} \<le> card (free_words (pmem sample_vm))" by (intro card_mono) simp_all
  moreover have c: "cr3 sample_vm = 0x1000" by (simp add: sample_vm_def)
  moreover have "pages_ok 0x1000 sample_vm" using sample_vm_can_map by (simp add: can_map_def)
  ultimately show ?thesis using W v by (simp add: can_map_pages_def room_def)
qed

theorem kheap_blocks_mapped_and_disjoint_witness:
  "\<exists>p q s'. alloc_seq kheap_alloc [(100, ALLOCATE_DATA), (5000, ALLOCATE_CODE)] sample_vm = Inr ([Some p, Some q], s')
     \<and> unat p + 100 < unat q \<and> mapped s' (unat p) 100 \<and> mapped s' (unat q) 5000"
proof -
  let ?rs = "[(100, ALLOCATE_DATA), (5000, ALLOCATE_CODE)] :: (u64 \<times> u8) list"
  have h: "unat (h_va_head sample_vm) = 0xFFFF800000001000" by (simp add: sample_vm_def HIGHER_HALF_START_ADDR_def)
  have n: "pages_for ?rs + 1 = 4" by (simp add: pages_for_def pages_of_def)
  obtain ps s' where p: "alloc_seq kheap_alloc ?rs sample_vm = Inr (map Some ps, s')" "length ps = length ?rs"
    "\<forall>j < length ?rs. \<forall>i < j. unat (ps ! i) + unat (fst (?rs ! i)) < unat (ps ! j)"
    "\<forall>i < length ?rs. mapped s' (unat (ps ! i)) (unat (fst (?rs ! i)))"
    using kheap_blocks_mapped_and_disjoint [of ?rs 1 sample_vm, unfolded n h] sample_can_map_pages
    by (auto simp: KHEAP_LO_def pages_for_def pages_of_def off_direct_map_def sample_vm_def)
  obtain p q where "ps = [p, q]" using p(2) by (auto simp: length_Suc_conv)
  then show ?thesis using p(1,3,4) by (auto simp: less_Suc_eq_0_disj)
qed

text \<open>The direct map at the usual offset and the first page of the heap.\<close>

lemma heap_in_direct_map:
  assumes "HHDM_OFFSET s = 0xFFFF800000000000" "h_va_head s = HIGHER_HALF_START_ADDR" "0x2000 \<le> unat (USABLE_END_PHYS_MEM (pmem s))" "0 < n"
  shows "\<not> off_direct_map (unat (h_va_head s)) (unat (h_va_head s) + n * 4096) s"
  using assms by (simp add: off_direct_map_def HIGHER_HALF_START_ADDR_def)

end
