(* ===== verification/Process.thy ===== *)
theory Process
  imports KHeap "HOL-Library.Monad_Syntax"
begin

text \<open>
  Processes, threads and the scheduler (kernel/src/process/process.c and thread.c).

  The process and thread structures live in the kernel heap; \<open>procs\<close> and \<open>thrs\<close> give the structure a pointer
  refers to, if any, and the pointer 0 is NULL. Their memory comes from \<open>kheap_alloc\<close> and goes back with
  \<open>kheap_free\<close>. A new structure can be stored only where its page is mapped and, when the processor's write protection
  for the kernel is on (CR0.WP, which the boot loader leaves behind and no code here changes), writable at every level of
  the tables. A result \<open>None\<close> is a memory fault, a stopped machine or a loop that does not end. Names are
  C strings without their terminator.

  Both lists are singly linked through the structures; the locale \<open>linked_list\<close> has the facts about such lists
  that the proofs need and is interpreted for the process list and for the thread lists.
\<close>

section \<open>Data\<close>

definition THREAD_NAME_MAX_LEN :: nat where "THREAD_NAME_MAX_LEN = 64"
definition THREAD_STACK_SIZE :: u64 where "THREAD_STACK_SIZE = 0x4000"
definition KERNEL_CS :: u64 where "KERNEL_CS = 0x08"
definition KERNEL_SS :: u64 where "KERNEL_SS = 0x10"
definition FLAGS :: u64 where "FLAGS = 0x202"

datatype status_t = READY | RUNNING | DEAD | SLEEPING

record registers_t =
  gs :: u64
  fs :: u64
  es :: u64
  ds :: u64
  rax :: u64
  rbx :: u64
  rcx :: u64
  rdx :: u64
  rbp :: u64
  rdi :: u64
  rsi :: u64
  r8 :: u64
  r9 :: u64
  r10 :: u64
  r11 :: u64
  r12 :: u64
  r13 :: u64
  r14 :: u64
  r15 :: u64
  int_no :: u64
  err_code :: u64
  iret_rip :: u64
  iret_cs :: u64
  iret_rflags :: u64
  iret_rsp :: u64
  iret_ss :: u64

record process_t =
  pid :: u64
  p_status :: status_t
  p_name :: bytes
  p_next :: u64
  threads :: u64
  current_thread :: u64
  p_cpu_time :: u64

record thread_t =
  tid :: u64
  t_status :: status_t
  t_name :: bytes
  parent :: u64
  t_next :: u64
  t_cpu_time :: u64
  registers :: registers_t

record psys =
  procs :: "u64 \<Rightarrow> process_t option"
  thrs :: "u64 \<Rightarrow> thread_t option"
  next_free_pid :: u64
  next_free_tid :: u64
  current_process :: u64
  processes_list :: u64
  vm :: vmem
  cr0_wp :: bool

text \<open>The sizes of the two structures in memory.\<close>

definition sizeof_process_t :: u64 where "sizeof_process_t = 112"
definition sizeof_thread_t :: u64 where "sizeof_thread_t = 312"

definition zero_registers :: registers_t where
  "zero_registers = \<lparr>gs = 0, fs = 0, es = 0, ds = 0, rax = 0, rbx = 0, rcx = 0, rdx = 0, rbp = 0, rdi = 0, rsi = 0,
     r8 = 0, r9 = 0, r10 = 0, r11 = 0, r12 = 0, r13 = 0, r14 = 0, r15 = 0, int_no = 0, err_code = 0,
     iret_rip = 0, iret_cs = 0, iret_rflags = 0, iret_rsp = 0, iret_ss = 0\<rparr>"

definition no_fault :: "kfault + 'a \<Rightarrow> 'a option" where
  "no_fault r = (case r of Inl _ \<Rightarrow> None | Inr x \<Rightarrow> Some x)"

text \<open>A store of \<open>n\<close> bytes, at most a page: the pages of its first and its last byte take it.\<close>

fun walk_rw :: "(u64 \<Rightarrow> u64) \<Rightarrow> u64 \<Rightarrow> u64 list \<Rightarrow> bool" where
  "walk_rw W t [] \<longleftrightarrow> True"
| "walk_rw W t (i # is) \<longleftrightarrow> bit (W (t + 8 * i)) 1 \<and> walk_rw W (push_bit 12 (base_addr (W (t + 8 * i)))) is"

definition writable_at :: "bool \<Rightarrow> u64 \<Rightarrow> vmem \<Rightarrow> bool" where
  "writable_at wp a v \<longleftrightarrow> translate (word_at v) (cr3 v) a \<noteq> None
     \<and> (wp \<longrightarrow> walk_rw (word_at v) (cr3 v) (path_of a @ [PT_INDEX a]))"

definition can_store :: "bool \<Rightarrow> u64 \<Rightarrow> u64 \<Rightarrow> vmem \<Rightarrow> bool" where
  "can_store wp p n v \<longleftrightarrow> writable_at wp p v \<and> writable_at wp (p + n - 1) v"

definition put_proc :: "u64 \<Rightarrow> process_t \<Rightarrow> psys \<Rightarrow> psys" where
  "put_proc p x s = s\<lparr>procs := (procs s)(p := Some x)\<rparr>"

definition put_thr :: "u64 \<Rightarrow> thread_t \<Rightarrow> psys \<Rightarrow> psys" where
  "put_thr t x s = s\<lparr>thrs := (thrs s)(t := Some x)\<rparr>"

section \<open>The process list\<close>


partial_function (option) remove_loop :: "u64 \<Rightarrow> u64 \<Rightarrow> u64 \<Rightarrow> psys \<Rightarrow> psys option" where
  "remove_loop proc prev current s =
     (if current = 0 then Some s
      else Option.bind (procs s current) (\<lambda>c.
        if current = proc
        then if prev \<noteq> 0
             then Option.bind (procs s prev) (\<lambda>q. Some (put_proc prev (q\<lparr>p_next := p_next c\<rparr>) s))
             else Some (s\<lparr>processes_list := p_next c\<rparr>)
        else remove_loop proc current (p_next c) s))"

definition remove_process :: "u64 \<Rightarrow> psys \<Rightarrow> psys option" where
  "remove_process proc s = (if proc = 0 then Some s else remove_loop proc 0 (processes_list s) s)"


partial_function (option) find_pid :: "u64 \<Rightarrow> u64 \<Rightarrow> psys \<Rightarrow> u64 option" where
  "find_pid k current s =
     (if current = 0 then Some 0
      else Option.bind (procs s current) (\<lambda>c. if pid c = k then Some current else find_pid k (p_next c) s))"

definition get_process_by_pid :: "u64 \<Rightarrow> psys \<Rightarrow> u64 option" where
  "get_process_by_pid k s = find_pid k (processes_list s) s"

definition get_current_process :: "psys \<Rightarrow> u64" where
  "get_current_process s = processes_list s"

section \<open>Threads\<close>

partial_function (option) last_thread :: "u64 \<Rightarrow> psys \<Rightarrow> u64 option" where
  "last_thread t s = Option.bind (thrs s t) (\<lambda>x. if t_next x = 0 then Some t else last_thread (t_next x) s)"

definition add_thread :: "u64 \<Rightarrow> psys \<Rightarrow> psys option" where
  "add_thread t s =
     (if t = 0 then Some s
      else do { x \<leftarrow> thrs s t;
                if parent x = 0 then Some s
                else do { p \<leftarrow> procs s (parent x);
                          if threads p = 0
                          then Some (put_proc (parent x) (p\<lparr>threads := t, current_thread := t\<rparr>) s)
                          else do { l \<leftarrow> last_thread (threads p) s;
                                    y \<leftarrow> thrs s l;
                                    Some (put_proc (parent x) (p\<lparr>current_thread := t\<rparr>) (put_thr l (y\<lparr>t_next := t\<rparr>) s)) } } })"

partial_function (option) unlink_thread :: "u64 \<Rightarrow> u64 \<Rightarrow> u64 \<Rightarrow> psys \<Rightarrow> psys option" where
  "unlink_thread t nxt current s =
     (if current = 0 then Some s
      else Option.bind (thrs s current) (\<lambda>c.
        if t_next c = t then Some (put_thr current (c\<lparr>t_next := nxt\<rparr>) s)
        else unlink_thread t nxt (t_next c) s))"

definition remove_thread :: "u64 \<Rightarrow> psys \<Rightarrow> psys option" where
  "remove_thread t s =
     (if t = 0 then Some s
      else do { x \<leftarrow> thrs s t;
                if parent x = 0 then Some s
                else do { p \<leftarrow> procs s (parent x);
                          s1 \<leftarrow> (if threads p = t then Some (put_proc (parent x) (p\<lparr>threads := t_next x\<rparr>) s)
                                 else unlink_thread t (t_next x) (threads p) s);
                          x1 \<leftarrow> thrs s1 t;
                          Some (put_thr t (x1\<lparr>t_next := 0, parent := 0\<rparr>) s1) } })"

text \<open>\<open>fn\<close> and \<open>arg\<close> are the addresses of the thread's function and its argument.\<close>

definition create_thread :: "u64 \<Rightarrow> bytes \<Rightarrow> u64 \<Rightarrow> u64 \<Rightarrow> psys \<Rightarrow> (u64 \<times> psys) option" where
  "create_thread par name fn arg s =
     do { (r, v) \<leftarrow> no_fault (kheap_alloc sizeof_thread_t ALLOCATE_CODE (vm s));
          case r of None \<Rightarrow> Some (0, s\<lparr>vm := v\<rparr>)
          | Some t \<Rightarrow> if \<not> can_store (cr0_wp s) t sizeof_thread_t v then None else do {
              (r, v) \<leftarrow> no_fault (kheap_alloc THREAD_STACK_SIZE ALLOCATE_STACK v);
              case r of
                None \<Rightarrow> do { v \<leftarrow> no_fault (kheap_free t sizeof_thread_t v); Some (0, s\<lparr>vm := v\<rparr>) }
              | Some stack \<Rightarrow>
                  let x = \<lparr>tid = next_free_tid s, t_status = READY, t_name = take (THREAD_NAME_MAX_LEN - 1) name,
                           parent = par, t_next = 0, t_cpu_time = 0,
                           registers = zero_registers\<lparr>iret_ss := KERNEL_SS, iret_rsp := stack + THREAD_STACK_SIZE,
                             iret_rflags := FLAGS, iret_cs := KERNEL_CS, iret_rip := fn, rdi := arg, rbp := 0\<rparr>\<rparr>
                  in do { s1 \<leftarrow> add_thread t (put_thr t x (s\<lparr>vm := v, next_free_tid := next_free_tid s + 1\<rparr>));
                          Some (t, s1) } } }"

text \<open>
  \<open>delete_thread\<close> copies the name to an uninitialised pointer. \<open>wild_ok\<close> says that the address it happens to
  hold can be written without harm to the structures; otherwise the behaviour is undefined.
\<close>

definition delete_thread :: "bool \<Rightarrow> u64 \<Rightarrow> psys \<Rightarrow> psys option" where
  "delete_thread wild_ok t s =
     (if t = 0 then Some s
      else do { _ \<leftarrow> thrs s t;
                s1 \<leftarrow> remove_thread t s;
                x \<leftarrow> thrs s1 t;
                if \<not> wild_ok then None
                else do { v \<leftarrow> no_fault (kheap_free (iret_rsp (registers x) - THREAD_STACK_SIZE) THREAD_STACK_SIZE (vm s1));
                          v \<leftarrow> no_fault (kheap_free t sizeof_thread_t v);
                          Some (s1\<lparr>vm := v, thrs := (thrs s1)(t := None)\<rparr>) } })"

partial_function (option) delete_threads :: "bool \<Rightarrow> u64 \<Rightarrow> psys \<Rightarrow> psys option" where
  "delete_threads wild_ok proc s =
     Option.bind (procs s proc) (\<lambda>p.
       if threads p = 0 then Some s
       else Option.bind (thrs s (threads p)) (\<lambda>x.
         Option.bind (delete_thread wild_ok (threads p) (put_proc proc (p\<lparr>threads := t_next x\<rparr>) s)) (\<lambda>s1.
           delete_threads wild_ok proc s1)))"

text \<open>The process is printed before the test for NULL.\<close>

definition delete_process :: "bool \<Rightarrow> u64 \<Rightarrow> psys \<Rightarrow> psys option" where
  "delete_process wild_ok proc s =
     (if proc = 0 then None
      else do { _ \<leftarrow> procs s proc;
                s1 \<leftarrow> remove_process proc s;
                s2 \<leftarrow> delete_threads wild_ok proc s1;
                v \<leftarrow> no_fault (kheap_free proc sizeof_process_t (vm s2));
                Some (s2\<lparr>vm := v, procs := (procs s2)(proc := None)\<rparr>) })"

section \<open>The scheduler\<close>

text \<open>The result is the saved state of the next thread, \<open>None\<close> for a null pointer.\<close>

definition schedule :: "registers_t \<Rightarrow> psys \<Rightarrow> (registers_t option \<times> psys) option" where
  "schedule regs s =
     (if current_process s = 0 then Some (None, s)
      else do {
        p \<leftarrow> procs s (current_process s);
        if current_thread p = 0 then Some (None, s)
        else do {
          c \<leftarrow> thrs s (current_thread p);
          let s1 = put_thr (current_thread p) (c\<lparr>registers := regs, t_status := READY\<rparr>) s;
              nxt = (if t_next c = 0 then threads p else t_next c)
          in do { n \<leftarrow> thrs s1 nxt;
                  Some (Some (registers n),
                        put_proc (current_process s) (p\<lparr>current_thread := nxt\<rparr>) (put_thr nxt (n\<lparr>t_status := RUNNING\<rparr>) s1)) } } })"

section \<open>Linked lists in the heap\<close>

text \<open>\<open>lpath nxt p xs\<close>: following the next pointers from \<open>p\<close> one meets exactly \<open>xs\<close> and then NULL.\<close>

fun lpath :: "(u64 \<Rightarrow> u64 option) \<Rightarrow> u64 \<Rightarrow> u64 list \<Rightarrow> bool" where
  "lpath nxt p [] \<longleftrightarrow> p = 0"
| "lpath nxt p (x # xs) \<longleftrightarrow> p = x \<and> x \<noteq> 0 \<and> (case nxt x of None \<Rightarrow> False | Some q \<Rightarrow> lpath nxt q xs)"

lemma lpath_cong: "(\<And>x. x \<in> set xs \<Longrightarrow> nxt' x = nxt x) \<Longrightarrow> lpath nxt' p xs = lpath nxt p xs"
  by (induction xs arbitrary: p) (auto split: option.splits)

lemma lpath_unique: "lpath nxt p xs \<Longrightarrow> lpath nxt p ys \<Longrightarrow> xs = ys"
proof (induction xs arbitrary: p ys)
  case Nil
  then show ?case by (cases ys) auto
next
  case (Cons x xs)
  then show ?case by (cases ys) (auto split: option.splits)
qed

lemma lpath_suffix: "lpath nxt p (xs @ y # ys) \<Longrightarrow> lpath nxt y (y # ys)"
proof (induction xs arbitrary: p)
  case (Cons x xs)
  then obtain q where "lpath nxt q (xs @ y # ys)" by (auto split: option.splits)
  then show ?case by (rule Cons.IH)
qed simp

lemma lpath_distinct: "lpath nxt p xs \<Longrightarrow> distinct xs"
proof (induction xs arbitrary: p)
  case (Cons x xs)
  then obtain q where q: "nxt x = Some q" "lpath nxt q xs" by (auto split: option.splits)
  have "x \<notin> set xs"
  proof
    assume "x \<in> set xs"
    then obtain as bs where xs: "xs = as @ x # bs" by (auto simp: in_set_conv_decomp)
    have "lpath nxt x (x # bs)" using lpath_suffix q(2) unfolding xs by blast
    moreover have "lpath nxt x (x # xs)" using Cons.prems by simp
    ultimately show False using lpath_unique xs by fastforce
  qed
  then show ?case using Cons.IH [OF q(2)] by simp
qed simp

lemma lpath_nonzero: "lpath nxt p xs \<Longrightarrow> x \<in> set xs \<Longrightarrow> x \<noteq> 0 \<and> nxt x \<noteq> None"
  by (induction xs arbitrary: p) (auto split: option.splits)

lemma lpath_nth:
  "lpath nxt p xs \<Longrightarrow> i < length xs \<Longrightarrow> nxt (xs ! i) = Some (if Suc i < length xs then xs ! Suc i else 0)"
proof (induction xs arbitrary: p i)
  case (Cons x xs)
  then obtain q where q: "nxt x = Some q" "lpath nxt q xs" by (auto split: option.splits)
  show ?case
  proof (cases i)
    case 0
    then show ?thesis using q by (cases xs) auto
  next
    case (Suc j)
    then show ?thesis using Cons.IH [OF q(2), of j] Cons.prems(2) by simp
  qed
qed simp

lemma lpath_hd: "lpath nxt p xs \<Longrightarrow> xs \<noteq> [] \<Longrightarrow> p = xs ! 0"
  by (cases xs) auto

text \<open>
  Structures of a kind that are linked through a field: \<open>link x q\<close> stores \<open>q\<close> in the next field of \<open>x\<close>. What
  insertion at the end and removal do to a list follows from what \<open>link\<close> does to the next pointers.
\<close>

locale linked_list =
  fixes next_of :: "'s \<Rightarrow> u64 \<Rightarrow> u64 option" and link :: "u64 \<Rightarrow> u64 \<Rightarrow> 's \<Rightarrow> 's"
  assumes next_link: "next_of s x \<noteq> None \<Longrightarrow> next_of (link x q s) = (next_of s)(x := Some q)"
begin

lemma link_elsewhere: "next_of s x \<noteq> None \<Longrightarrow> x \<notin> set xs \<Longrightarrow> lpath (next_of (link x q s)) p xs = lpath (next_of s) p xs"
  by (rule lpath_cong) (auto simp: next_link)

lemma unlink_after:
  assumes "lpath (next_of s) p (xs @ a # x # ys)" "next_of s x = Some q"
  shows "lpath (next_of (link a q s)) p (xs @ a # ys)"
  using assms(1)
proof (induction xs arbitrary: p)
  case Nil
  then have a: "p = a" "a \<noteq> 0" "next_of s a = Some x" "lpath (next_of s) x (x # ys)" by (auto split: option.splits)
  have "a \<notin> set (x # ys)" using lpath_distinct [OF Nil] by simp
  moreover have "lpath (next_of s) q ys" using a(4) assms(2) by simp
  ultimately have "lpath (next_of (link a q s)) q ys" using link_elsewhere [of s a ys q q] a(3) by simp
  then show ?case using a by (simp add: next_link fun_upd_same del: fun_upd_apply)
next
  case (Cons z xs)
  then obtain r where r: "next_of s z = Some r" "lpath (next_of s) r (xs @ a # x # ys)" "p = z" "z \<noteq> 0" by (auto split: option.splits)
  have "z \<noteq> a" using lpath_distinct [OF Cons.prems] by auto
  moreover have "next_of s a \<noteq> None" using lpath_nonzero [OF Cons.prems, of a] by simp
  ultimately show ?case using r Cons.IH [OF r(2)] by (simp add: next_link)
qed

lemma append_last:
  assumes "lpath (next_of s) p (xs @ [a])" "next_of s x = Some 0" "x \<noteq> 0" "x \<notin> set (xs @ [a])"
  shows "lpath (next_of (link a x s)) p (xs @ [a, x])"
  using assms(1,4)
proof (induction xs arbitrary: p)
  case Nil
  then have "p = a" "a \<noteq> 0" "next_of s a = Some 0" by (auto split: option.splits)
  then show ?case using Nil assms(2,3) by (simp add: next_link)
next
  case (Cons z xs)
  then obtain r where r: "next_of s z = Some r" "lpath (next_of s) r (xs @ [a])" "p = z" "z \<noteq> 0" by (auto split: option.splits)
  have "z \<noteq> a" using lpath_distinct [OF Cons.prems(1)] by auto
  moreover have "next_of s a \<noteq> None" using lpath_nonzero [OF Cons.prems(1), of a] by simp
  ultimately show ?case using r Cons.IH [OF r(2)] Cons.prems(2) by (simp add: next_link)
qed

end

definition proc_next :: "psys \<Rightarrow> u64 \<Rightarrow> u64 option" where
  "proc_next s p = map_option p_next (procs s p)"

definition link_proc :: "u64 \<Rightarrow> u64 \<Rightarrow> psys \<Rightarrow> psys" where
  "link_proc p q s = (case procs s p of None \<Rightarrow> s | Some x \<Rightarrow> put_proc p (x\<lparr>p_next := q\<rparr>) s)"

definition thr_next :: "psys \<Rightarrow> u64 \<Rightarrow> u64 option" where
  "thr_next s t = map_option t_next (thrs s t)"

definition link_thr :: "u64 \<Rightarrow> u64 \<Rightarrow> psys \<Rightarrow> psys" where
  "link_thr t q s = (case thrs s t of None \<Rightarrow> s | Some x \<Rightarrow> put_thr t (x\<lparr>t_next := q\<rparr>) s)"

interpretation pl: linked_list proc_next link_proc
  by unfold_locales (auto simp: proc_next_def link_proc_def put_proc_def fun_eq_iff split: option.splits)

interpretation tl: linked_list thr_next link_thr
  by unfold_locales (auto simp: thr_next_def link_thr_def put_thr_def fun_eq_iff split: option.splits)

section \<open>Round robin\<close>

text \<open>The current process has the threads \<open>ts\<close>, and the \<open>i\<close>-th of them is running.\<close>

definition running :: "psys \<Rightarrow> u64 list \<Rightarrow> nat \<Rightarrow> bool" where
  "running s ts i \<longleftrightarrow> current_process s \<noteq> 0 \<and> i < length ts \<and> (case procs s (current_process s) of None \<Rightarrow> False
     | Some p \<Rightarrow> lpath (thr_next s) (threads p) ts \<and> current_thread p = ts ! i)"

definition stat :: "psys \<Rightarrow> u64 \<Rightarrow> status_t" where
  "stat s t = t_status (the (thrs s t))"

text \<open>All threads can run: the current one is \<open>READY\<close> or \<open>RUNNING\<close>, the others are \<open>READY\<close>.\<close>

definition runnable :: "psys \<Rightarrow> u64 list \<Rightarrow> nat \<Rightarrow> bool" where
  "runnable s ts i \<longleftrightarrow> running s ts i \<and> (\<forall>j<length ts. stat s (ts ! j) = READY \<or> j = i \<and> stat s (ts ! j) = RUNNING)"

definition saved :: "psys \<Rightarrow> u64 \<Rightarrow> registers_t" where
  "saved s t = registers (the (thrs s t))"

text \<open>
  A run of the scheduler: calls of \<open>schedule\<close> one after the other, each with the registers the running thread has at that
  point. (No code of the repository calls \<open>schedule\<close>; process.h only declares it.)
\<close>

fun schedule_calls :: "registers_t list \<Rightarrow> psys \<Rightarrow> (registers_t option list \<times> psys) option" where
  "schedule_calls [] s = Some ([], s)"
| "schedule_calls (r # rs) s = do { (out, s1) \<leftarrow> schedule r s; (outs, s2) \<leftarrow> schedule_calls rs s1; Some (out # outs, s2) }"

lemma schedule_calls_snoc:
  "schedule_calls (rs @ [r]) s = do { (outs, s1) \<leftarrow> schedule_calls rs s; (out, s2) \<leftarrow> schedule r s1; Some (outs @ [out], s2) }"
proof (induction rs arbitrary: s)
  case Nil
  show ?case by (cases "schedule r s") auto
next
  case (Cons a rs)
  show ?case
  proof (cases "schedule a s")
    case (Some x)
    obtain out s1 where x: "x = (out, s1)" by (cases x)
    show ?thesis
    proof (cases "schedule_calls rs s1")
      case (Some y)
      obtain outs s2 where y: "y = (outs, s2)" by (cases y)
      show ?thesis using Some x y \<open>schedule a s = Some x\<close> Cons.IH by (cases "schedule r s2") auto
    qed (use Some x Cons.IH in simp)
  qed simp
qed

lemma lpath_threads: "lpath (thr_next s) p ts \<Longrightarrow> t \<in> set ts \<Longrightarrow> t \<noteq> 0 \<and> (\<exists>x. thrs s t = Some x)"
  using lpath_nonzero [of "thr_next s" p ts t] by (auto simp: thr_next_def)

lemma Suc_mod_cases: "i < n \<Longrightarrow> Suc i mod n = (if Suc i < n then Suc i else 0)"
  by auto (metis Suc_lessI mod_self)

lemma schedule_step:
  assumes R: "running s ts i"
  shows "\<exists>s'. schedule r s = Some (Some (saved s' (ts ! (Suc i mod length ts))), s')
    \<and> running s' ts (Suc i mod length ts)
    \<and> (\<forall>t. saved s' t = (if t = ts ! i then r else saved s t))
    \<and> (\<forall>t. stat s' t = (if t = ts ! (Suc i mod length ts) then RUNNING else if t = ts ! i then READY else stat s t))"
proof -
  obtain p where p: "procs s (current_process s) = Some p" "lpath (thr_next s) (threads p) ts" "current_thread p = ts ! i"
    "current_process s \<noteq> 0" "i < length ts" using R by (auto simp: running_def split: option.splits)
  define n c where "n = ts ! (Suc i mod length ts)" and "c = ts ! i"
  have mem: "c \<in> set ts" "n \<in> set ts" using p(5) by (auto simp: n_def c_def intro!: nth_mem mod_less_divisor)
  obtain x y where x: "c \<noteq> 0" "thrs s c = Some x" and y: "n \<noteq> 0" "thrs s n = Some y"
    using lpath_threads [OF p(2) mem(1)] lpath_threads [OF p(2) mem(2)] by auto
  have nx: "(if t_next x = 0 then threads p else t_next x) = n"
  proof -
    have "t_next x = (if Suc i < length ts then ts ! Suc i else 0)"
      using lpath_nth [OF p(2,5)] x(2) by (simp add: thr_next_def c_def)
    moreover have "threads p = ts ! 0" by (rule lpath_hd [OF p(2)]) (use p(5) in auto)
    moreover have "Suc i < length ts \<Longrightarrow> ts ! Suc i \<noteq> 0" using lpath_nonzero [OF p(2)] by auto
    ultimately show ?thesis by (auto simp: n_def Suc_mod_cases [OF p(5)])
  qed
  define s1 where "s1 = put_thr c (x\<lparr>registers := r, t_status := READY\<rparr>) s"
  obtain z where z: "thrs s1 n = Some z" "registers z = (if n = c then r else registers y)" "t_next z = t_next y"
    using x y by (cases "n = c") (auto simp: s1_def put_thr_def)
  define s' where "s' = put_proc (current_process s) (p\<lparr>current_thread := n\<rparr>) (put_thr n (z\<lparr>t_status := RUNNING\<rparr>) s1)"
  have sch: "schedule r s = Some (Some (registers z), s')"
    using p x nx z(1) by (simp add: schedule_def c_def [symmetric] s1_def s'_def)
  have nxt: "thr_next s' = thr_next s"
    using x y z by (auto simp: fun_eq_iff thr_next_def s'_def put_proc_def put_thr_def s1_def)
  have pr: "procs s' (current_process s') = Some (p\<lparr>current_thread := n\<rparr>)" "current_process s' = current_process s"
    by (simp_all add: s'_def s1_def put_proc_def put_thr_def)
  have "running s' ts (Suc i mod length ts)"
    using p pr nxt by (auto simp: running_def n_def intro!: mod_less_divisor)
  moreover have sv: "saved s' t = (if t = c then r else saved s t)" for t
    using x y z by (auto simp: saved_def s'_def s1_def put_proc_def put_thr_def)
  moreover have "stat s' t = (if t = n then RUNNING else if t = c then READY else stat s t)" for t
    using x by (auto simp: stat_def s'_def s1_def put_proc_def put_thr_def)
  moreover have "registers z = saved s' n" using sv [of n] z(2) y by (simp add: saved_def)
  ultimately show ?thesis using sch by (auto simp: n_def c_def)
qed

text \<open>
  After \<open>m\<close> calls, the thread \<open>e\<close> places ahead of the running one was suspended \<open>n - e\<close> calls ago, if
  there were that many, and its saved registers are those of that call.
\<close>

lemma schedule_calls_invariant:
  assumes R: "running s ts i"
  defines "n \<equiv> length ts"
  shows "\<exists>outs s'. schedule_calls rs s = Some (outs, s') \<and> length outs = length rs \<and> running s' ts ((i + length rs) mod n)
    \<and> (\<forall>e<n. saved s' (ts ! ((i + length rs + e) mod n))
         = (if n \<le> length rs + e then rs ! (length rs + e - n) else saved s (ts ! ((i + length rs + e) mod n))))
    \<and> (\<forall>k<length rs. outs ! k = Some (if n \<le> Suc k then rs ! (Suc k - n) else saved s (ts ! ((i + Suc k) mod n))))"
proof (induction rs rule: rev_induct)
  case Nil
  have "i < n" using R by (simp add: running_def n_def)
  then show ?case using R by simp
next
  case (snoc r rs)
  let ?m = "length rs"
  obtain outs s1 where IH: "schedule_calls rs s = Some (outs, s1)" "length outs = ?m" "running s1 ts ((i + ?m) mod n)"
    "\<And>e. e < n \<Longrightarrow> saved s1 (ts ! ((i + ?m + e) mod n))
         = (if n \<le> ?m + e then rs ! (?m + e - n) else saved s (ts ! ((i + ?m + e) mod n)))"
    "\<And>k. k < ?m \<Longrightarrow> outs ! k = Some (if n \<le> Suc k then rs ! (Suc k - n) else saved s (ts ! ((i + Suc k) mod n)))"
    using snoc by auto
  have n: "0 < n" using R by (auto simp: running_def n_def)
  have D: "distinct ts" using R lpath_distinct by (auto simp: running_def split: option.splits)
  have su: "Suc ((i + ?m) mod n) mod n = (i + Suc ?m) mod n" by (simp add: mod_Suc_eq)
  obtain s2 where s2: "schedule r s1 = Some (Some (saved s2 (ts ! ((i + Suc ?m) mod n))), s2)"
    "running s2 ts ((i + Suc ?m) mod n)" "\<And>t. saved s2 t = (if t = ts ! ((i + ?m) mod n) then r else saved s1 t)"
    using schedule_step [OF IH(3), of r] su by (auto simp: n_def)
  have sv: "saved s2 (ts ! ((i + Suc ?m + e) mod n))
      = (if n \<le> Suc ?m + e then (rs @ [r]) ! (Suc ?m + e - n) else saved s (ts ! ((i + Suc ?m + e) mod n)))" if e: "e < n" for e
  proof (cases "Suc e = n")
    case True
    have "i + Suc ?m + e = i + ?m + n" using True by simp
    then have "(i + Suc ?m + e) mod n = (i + ?m) mod n" by (simp only: mod_add_self2)
    moreover have "Suc ?m + e - n = ?m" "n \<le> Suc ?m + e" using True by auto
    ultimately show ?thesis by (simp add: s2(3) nth_append)
  next
    case False
    then have e1: "Suc e < n" using e by simp
    have "(i + ?m + Suc e) mod n \<noteq> (i + ?m) mod n"
    proof
      assume "(i + ?m + Suc e) mod n = (i + ?m) mod n"
      then have "n dvd Suc e" using mod_eq_dvd_iff_nat [of "i + ?m" "i + ?m + Suc e" n] by simp
      then show False using e1 by (auto dest: dvd_imp_le)
    qed
    then have ne: "ts ! ((i + ?m + Suc e) mod n) \<noteq> ts ! ((i + ?m) mod n)"
      using D n by (simp add: nth_eq_iff_index_eq n_def)
    have "saved s2 (ts ! ((i + ?m + Suc e) mod n)) = (if n \<le> ?m + Suc e then rs ! (?m + Suc e - n)
        else saved s (ts ! ((i + ?m + Suc e) mod n)))"
      using s2(3) ne IH(4) [OF e1] by simp
    then show ?thesis using e1 by (auto simp: nth_append)
  qed
  have out: "(outs @ [Some (saved s2 (ts ! ((i + Suc ?m) mod n)))]) ! k
      = Some (if n \<le> Suc k then (rs @ [r]) ! (Suc k - n) else saved s (ts ! ((i + Suc k) mod n)))" if k: "k < Suc ?m" for k
  proof (cases "k < ?m")
    case True
    then show ?thesis using IH(5) [OF True] IH(2) n by (auto simp: nth_append)
  next
    case False
    then have "k = ?m" using k by simp
    then show ?thesis using sv [of 0] n IH(2) by (simp add: nth_append)
  qed
  show ?case
    using IH(1,2) s2(1,2) sv out by (auto simp: schedule_calls_snoc)
qed

lemma schedule_runnable:
  assumes R: "runnable s ts i"
  shows "\<exists>out s'. schedule r s = Some (out, s') \<and> runnable s' ts (Suc i mod length ts) \<and> stat s' (ts ! (Suc i mod length ts)) = RUNNING"
proof -
  have r: "running s ts i" using R by (simp add: runnable_def)
  obtain s' where s': "schedule r s = Some (Some (saved s' (ts ! (Suc i mod length ts))), s')" "running s' ts (Suc i mod length ts)"
    "\<And>t. stat s' t = (if t = ts ! (Suc i mod length ts) then RUNNING else if t = ts ! i then READY else stat s t)"
    using schedule_step [OF r, of r] by blast
  have D: "distinct ts" using r lpath_distinct by (auto simp: running_def split: option.splits)
  have m: "Suc i mod length ts < length ts" using s'(2) by (simp add: running_def)
  have "stat s' (ts ! j) = READY \<or> j = Suc i mod length ts \<and> stat s' (ts ! j) = RUNNING" if "j < length ts" for j
    using that m D R s'(3) [of "ts ! j"] by (auto simp: runnable_def nth_eq_iff_index_eq)
  then show ?thesis using s' by (auto simp: runnable_def)
qed

lemma schedule_calls_runnable:
  assumes R: "runnable s ts i"
  shows "\<exists>outs s'. schedule_calls rs s = Some (outs, s') \<and> runnable s' ts ((i + length rs) mod length ts)
    \<and> (rs \<noteq> [] \<longrightarrow> stat s' (ts ! ((i + length rs) mod length ts)) = RUNNING)"
proof (induction rs rule: rev_induct)
  case Nil
  have "i < length ts" using R by (simp add: runnable_def running_def)
  then show ?case using R by simp
next
  case (snoc r rs)
  obtain outs s1 where s1: "schedule_calls rs s = Some (outs, s1)" "runnable s1 ts ((i + length rs) mod length ts)" using snoc by blast
  obtain out s2 where s2: "schedule r s1 = Some (out, s2)" "runnable s2 ts ((i + length (rs @ [r])) mod length ts)"
    "stat s2 (ts ! ((i + length (rs @ [r])) mod length ts)) = RUNNING"
    using schedule_runnable [OF s1(2), of r] by (auto simp: mod_Suc_eq)
  then show ?case using s1(1) by (auto simp: schedule_calls_snoc)
qed

text \<open>
  The search for a thread that is \<open>READY\<close> is commented out in \<open>schedule\<close>: the next thread of the ring is resumed and marked
  \<open>RUNNING\<close> whatever its status is, also when it is \<open>DEAD\<close> or \<open>SLEEPING\<close>.
\<close>

lemma schedule_ignores_status:
  assumes "running s ts i" "length ts \<noteq> 1"
  shows "\<exists>s'. schedule r s = Some (Some (saved s (ts ! (Suc i mod length ts))), s') \<and> stat s' (ts ! (Suc i mod length ts)) = RUNNING"
proof -
  obtain s' where s': "schedule r s = Some (Some (saved s' (ts ! (Suc i mod length ts))), s')"
    "\<And>t. saved s' t = (if t = ts ! i then r else saved s t)"
    "\<And>t. stat s' t = (if t = ts ! (Suc i mod length ts) then RUNNING else if t = ts ! i then READY else stat s t)"
    using schedule_step [OF assms(1), of r] by blast
  have D: "distinct ts" "i < length ts" using assms(1) lpath_distinct by (auto simp: running_def split: option.splits)
  have "Suc i mod length ts \<noteq> i" using D(2) assms(2) by (auto simp: Suc_mod_cases)
  moreover have "Suc i mod length ts < length ts" using D(2) by (intro mod_less_divisor) linarith
  ultimately have "ts ! (Suc i mod length ts) \<noteq> ts ! i" using D nth_eq_iff_index_eq by blast
  then show ?thesis using s' by auto
qed

section \<open>Creating and finding processes\<close>

text \<open>
  The process list is sound: it leads through distinct structures that all lie below the head of the kernel
  heap, and the process identifiers are those handed out so far, newest first.
\<close>

definition proc_list :: "psys \<Rightarrow> u64 list \<Rightarrow> bool" where
  "proc_list s ps \<longleftrightarrow> lpath (proc_next s) (processes_list s) ps
     \<and> (\<forall>p. procs s p \<noteq> None \<longrightarrow> unat p < unat (h_va_head (vm s)))
     \<and> (\<forall>p\<in>set ps. pid (the (procs s p)) < next_free_pid s) \<and> distinct (map (\<lambda>p. pid (the (procs s p))) ps)"

lemma proc_lpath_Cons:
  "lpath (proc_next s) p (x # xs) \<longleftrightarrow> p = x \<and> x \<noteq> 0 \<and> (\<exists>y. procs s x = Some y \<and> lpath (proc_next s) (p_next y) xs)"
  using proc_next_def [of s x] by (auto split: option.splits)

lemma find_pid_ok:
  "lpath (proc_next s) p ps \<Longrightarrow> find_pid k p s = Some (case find (\<lambda>x. pid (the (procs s x)) = k) ps of None \<Rightarrow> 0 | Some x \<Rightarrow> x)"
proof (induction ps arbitrary: p)
  case Nil
  then show ?case by (subst find_pid.simps) simp
next
  case (Cons x xs)
  then obtain y where y: "procs s x = Some y" "lpath (proc_next s) (p_next y) xs" "p = x" "x \<noteq> 0"
    by (auto simp: proc_lpath_Cons simp del: lpath.simps)
  then show ?case using Cons.IH [OF y(2)] by (subst find_pid.simps) simp
qed

lemma remove_loop_ok:
  assumes "lpath (proc_next s) cur (xs @ proc # ys)" "prev \<noteq> 0 \<Longrightarrow> procs s prev \<noteq> None"
  shows "\<exists>q. proc_next s proc = Some q \<and> remove_loop proc prev cur s
    = Some (if xs @ [proc] = [proc] then if prev = 0 then s\<lparr>processes_list := q\<rparr> else link_proc prev q s
            else link_proc (last xs) q s)"
  using assms
proof (induction xs arbitrary: cur prev)
  case Nil
  then obtain y where y: "procs s proc = Some y" "cur = proc" "proc \<noteq> 0" by (auto simp: proc_next_def split: option.splits)
  then show ?case using Nil.prems(2)
    by (subst remove_loop.simps) (auto simp: proc_next_def link_proc_def)
next
  case (Cons x xs)
  then obtain y where y: "procs s x = Some y" "lpath (proc_next s) (p_next y) (xs @ proc # ys)" "cur = x" "x \<noteq> 0"
    using proc_lpath_Cons by (auto simp del: lpath.simps)
  have "x \<noteq> proc" using lpath_distinct [OF Cons.prems(1)] by auto
  then have "remove_loop proc prev cur s = remove_loop proc x (p_next y) s"
    using y by (subst remove_loop.simps) simp
  then show ?case using Cons.IH [OF y(2), of x] y(1,4) by auto
qed




lemma find_pid_other:
  assumes "\<And>x. x \<in> set ps \<Longrightarrow> pid (the (procs s' x)) = pid (the (procs s x))"
  shows "find (\<lambda>x. pid (the (procs s' x)) = k) ps = find (\<lambda>x. pid (the (procs s x)) = k) ps"
  using assms by (induction ps) auto


section \<open>Removing processes, adding and removing threads\<close>

lemma link_proc_fields [simp]:
  "next_free_pid (link_proc p q s) = next_free_pid s" "vm (link_proc p q s) = vm s" "processes_list (link_proc p q s) = processes_list s"
  "map_option pid (procs (link_proc p q s) x) = map_option pid (procs s x)"
  by (auto simp: link_proc_def put_proc_def split: option.splits)

lemma remove_process_list:
  assumes L: "lpath (proc_next s) (processes_list s) (xs @ proc # ys)"
  shows "\<exists>s'. remove_process proc s = Some s' \<and> lpath (proc_next s') (processes_list s') (xs @ ys)
    \<and> (\<forall>p. map_option pid (procs s' p) = map_option pid (procs s p)) \<and> vm s' = vm s \<and> next_free_pid s' = next_free_pid s"
proof -
  have nz: "proc \<noteq> 0" using lpath_nonzero [OF L] by simp
  obtain q where q: "proc_next s proc = Some q" and r: "remove_loop proc 0 (processes_list s) s
    = Some (if xs @ [proc] = [proc] then s\<lparr>processes_list := q\<rparr> else link_proc (last xs) q s)"
    using remove_loop_ok [OF L, of 0] by auto
  show ?thesis
  proof (cases xs rule: rev_cases)
    case Nil
    have "lpath (proc_next s) q ys" using L q Nil by simp
    moreover have "proc_next (s\<lparr>processes_list := q\<rparr>) = proc_next s" by (simp add: proc_next_def fun_eq_iff)
    ultimately show ?thesis using r nz Nil by (simp add: remove_process_def)
  next
    case (snoc zs a)
    have "lpath (proc_next (link_proc a q s)) (processes_list s) (zs @ a # ys)"
      by (rule pl.unlink_after [OF _ q]) (use L snoc in simp)
    then show ?thesis using r nz snoc by (simp add: remove_process_def)
  qed
qed

lemma thr_lpath_Cons:
  "lpath (thr_next s) p (x # xs) \<longleftrightarrow> p = x \<and> x \<noteq> 0 \<and> (\<exists>y. thrs s x = Some y \<and> lpath (thr_next s) (t_next y) xs)"
  using thr_next_def [of s x] by (auto split: option.splits)

lemma last_thread_ok: "lpath (thr_next s) p (xs @ [a]) \<Longrightarrow> last_thread p s = Some a"
proof (induction xs arbitrary: p)
  case Nil
  then obtain y where "thrs s a = Some y" "t_next y = 0" "p = a" using thr_lpath_Cons [of s p a "[]"] by auto
  then show ?case by (subst last_thread.simps) simp
next
  case (Cons x xs)
  then obtain y where y: "thrs s x = Some y" "lpath (thr_next s) (t_next y) (xs @ [a])" "p = x"
    using thr_lpath_Cons by (metis append_Cons)
  then have "t_next y \<noteq> 0" by (cases xs) auto
  then show ?case using y Cons.IH [OF y(2)] by (subst last_thread.simps) simp
qed

lemma thr_next_put_proc [simp]: "thr_next (put_proc p x s) = thr_next s"
  by (simp add: thr_next_def put_proc_def fun_eq_iff)

lemma unlink_thread_ok:
  "lpath (thr_next s) cur (xs @ a # t # ys) \<Longrightarrow> unlink_thread t q cur s = Some (link_thr a q s)"
proof (induction xs arbitrary: cur)
  case Nil
  then obtain y where y: "thrs s a = Some y" "lpath (thr_next s) (t_next y) (t # ys)" "cur = a" "a \<noteq> 0"
    using thr_lpath_Cons by (metis append_Nil)
  then show ?case by (subst unlink_thread.simps) (simp add: link_thr_def)
next
  case (Cons x xs)
  then obtain y where y: "thrs s x = Some y" "lpath (thr_next s) (t_next y) (xs @ a # t # ys)" "cur = x" "x \<noteq> 0"
    using thr_lpath_Cons by (metis append_Cons)
  have "t_next y \<noteq> t"
  proof
    assume "t_next y = t"
    then have "hd (xs @ a # t # ys) = t" using y(2) by (cases xs) auto
    then show False using lpath_distinct [OF y(2)] by (cases xs) auto
  qed
  then show ?case using y Cons.IH [OF y(2)] by (subst unlink_thread.simps) simp
qed

text \<open>The threads of a process.\<close>

definition thread_list :: "psys \<Rightarrow> u64 \<Rightarrow> u64 list \<Rightarrow> bool" where
  "thread_list s p ts \<longleftrightarrow> (case procs s p of None \<Rightarrow> False | Some x \<Rightarrow> lpath (thr_next s) (threads x) ts)"

lemma add_thread_list:
  assumes L: "thread_list s p ts" and t: "t \<noteq> 0" "thrs s t = Some x" "parent x = p" "p \<noteq> 0" "t_next x = 0" "t \<notin> set ts"
  shows "\<exists>s'. add_thread t s = Some s' \<and> thread_list s' p (ts @ [t]) \<and> map_option current_thread (procs s' p) = Some t"
proof -
  obtain y where y: "procs s p = Some y" "lpath (thr_next s) (threads y) ts" using L by (auto simp: thread_list_def split: option.splits)
  show ?thesis
  proof (cases ts rule: rev_cases)
    case Nil
    then have "threads y = 0" using y(2) by simp
    define s' where "s' = put_proc p (y\<lparr>threads := t, current_thread := t\<rparr>) s"
    have "add_thread t s = Some s'" using t y(1) \<open>threads y = 0\<close> by (simp add: add_thread_def s'_def)
    moreover have "lpath (thr_next s') t [t]" using t by (simp add: thr_lpath_Cons s'_def del: lpath.simps) simp
    moreover have "procs s' p = Some (y\<lparr>threads := t, current_thread := t\<rparr>)" by (simp add: s'_def put_proc_def)
    ultimately show ?thesis using Nil by (simp add: thread_list_def del: lpath.simps)
  next
    case (snoc zs a)
    have nz: "threads y \<noteq> 0" using y(2) snoc by (cases zs) auto
    have l: "last_thread (threads y) s = Some a" using y(2) snoc by (simp add: last_thread_ok)
    obtain z where z: "thrs s a = Some z" using lpath_threads [OF y(2), of a] snoc by auto
    define s1 where "s1 = link_thr a t s"
    have s1: "s1 = put_thr a (z\<lparr>t_next := t\<rparr>) s" using z by (simp add: s1_def link_thr_def)
    define s' where "s' = put_proc p (y\<lparr>current_thread := t\<rparr>) s1"
    have "add_thread t s = Some s'" using t y(1) nz l z by (simp add: add_thread_def s'_def s1)
    moreover have "lpath (thr_next s1) (threads y) (zs @ [a, t])"
      unfolding s1_def using tl.append_last [of s "threads y" zs a t] y(2) snoc t by (simp add: thr_next_def [of s t])
    moreover have "procs s' p = Some (y\<lparr>current_thread := t\<rparr>)" "thr_next s' = thr_next s1" by (simp_all add: s'_def) (simp add: put_proc_def)
    ultimately show ?thesis using snoc by (simp add: thread_list_def)
  qed
qed

lemma remove_thread_list:
  assumes L: "thread_list s p (xs @ t # ys)" and t: "thrs s t = Some x" "parent x = p" "p \<noteq> 0"
  shows "\<exists>s'. remove_thread t s = Some s' \<and> thread_list s' p (xs @ ys) \<and> map_option parent (thrs s' t) = Some 0"
proof -
  obtain y where y: "procs s p = Some y" "lpath (thr_next s) (threads y) (xs @ t # ys)"
    using L by (auto simp: thread_list_def split: option.splits)
  have nz: "t \<noteq> 0" using lpath_nonzero [OF y(2)] by simp
  have D: "distinct (xs @ t # ys)" by (rule lpath_distinct [OF y(2)])
  define fin where "fin s1 = put_thr t ((the (thrs s1 t))\<lparr>t_next := 0, parent := 0\<rparr>) s1" for s1
  have keep: "lpath (thr_next (fin s1)) q zs = lpath (thr_next s1) q zs" if "t \<notin> set zs" for s1 q zs
    using that by (intro lpath_cong) (auto simp: thr_next_def fin_def put_thr_def)
  have fin: "map_option parent (thrs (fin s1) t) = Some 0" "procs (fin s1) = procs s1" for s1 by (simp_all add: fin_def put_thr_def)
  show ?thesis
  proof (cases xs rule: rev_cases)
    case Nil
    have h: "threads y = t" using y(2) Nil by simp
    have q: "lpath (thr_next s) (t_next x) ys" using y(2) Nil t(1) by (simp add: thr_lpath_Cons del: lpath.simps)
    define s1 where "s1 = put_proc p (y\<lparr>threads := t_next x\<rparr>) s"
    have s1: "thrs s1 t = Some x" "procs s1 p = Some (y\<lparr>threads := t_next x\<rparr>)" "thr_next s1 = thr_next s" using t(1) by (simp_all add: s1_def) (simp_all add: put_proc_def)
    have "remove_thread t s = Some (fin s1)"
      using nz t y(1) h s1(1) by (simp add: remove_thread_def s1_def [symmetric] fin_def)
    then show ?thesis using Nil fin s1 keep [of ys s1] q D by (simp add: thread_list_def)
  next
    case (snoc zs a)
    have tn: "thr_next s t = Some (t_next x)" using t(1) by (simp add: thr_next_def)
    have ne: "threads y \<noteq> t" using lpath_hd [OF y(2)] snoc D by (cases zs) auto
    have an: "a \<noteq> t" using D snoc by auto
    obtain z where z: "thrs s a = Some z" using lpath_threads [OF y(2), of a] snoc by auto
    have u: "unlink_thread t (t_next x) (threads y) s = Some (link_thr a (t_next x) s)"
      by (rule unlink_thread_ok) (use y(2) snoc in simp)
    define s1 where "s1 = link_thr a (t_next x) s"
    have s1: "thrs s1 t = Some x" "procs s1 p = Some y" using t(1) z an y(1) by (simp_all add: s1_def link_thr_def put_thr_def)
    have "remove_thread t s = Some (fin s1)"
      using nz t y(1) ne u s1(1) by (simp add: remove_thread_def s1_def [symmetric] fin_def)
    moreover have "lpath (thr_next s1) (threads y) (zs @ a # ys)"
      unfolding s1_def by (rule tl.unlink_after [OF _ tn]) (use y(2) snoc in simp)
    ultimately show ?thesis using fin s1(2) keep [of "zs @ a # ys" s1] an D snoc by (auto simp: thread_list_def)
  qed
qed

lemma add_thread_parent: "add_thread t s = Some s' \<Longrightarrow> map_option parent (thrs s' u) = map_option parent (thrs s u)"
  by (auto simp: add_thread_def put_proc_def put_thr_def bind_eq_Some_conv split: if_splits option.splits)

lemma find_skip: "\<not> P x \<Longrightarrow> find P (xs @ x # ys) = find P (xs @ ys)"
  by (induction xs) auto

section \<open>Properties\<close>

text \<open>
  C4. Round robin over runnable threads: when all \<open>n\<close> threads of the current process can run (the current one \<open>READY\<close> or
  \<open>RUNNING\<close>, the others \<open>READY\<close>), each call of \<open>schedule\<close> returns the saved registers of the next thread of the ring, so
  each thread is the current one within \<open>n\<close> calls, and a suspended thread gets back, \<open>n\<close> calls later, exactly
  the registers it had. All threads stay runnable, and after the first call exactly the current one is \<open>RUNNING\<close>.
\<close>

theorem round_robin_runs_every_thread:
  assumes R: "runnable s ts i" and n: "n = length ts"
  shows "(\<exists>outs s'. schedule_calls rs s = Some (outs, s') \<and> runnable s' ts ((i + length rs) mod n)
      \<and> (rs \<noteq> [] \<longrightarrow> stat s' (ts ! ((i + length rs) mod n)) = RUNNING)
      \<and> (\<forall>k<length rs. outs ! k = Some (if n \<le> Suc k then rs ! (Suc k - n) else saved s (ts ! ((i + Suc k) mod n)))))
    \<and> (n \<le> length rs \<longrightarrow> (\<forall>j<n. \<exists>k<n. \<exists>outs s'. schedule_calls (take k rs) s = Some (outs, s') \<and> runnable s' ts j))"
proof -
  have r: "running s ts i" and i: "i < n" using R n by (simp_all add: runnable_def running_def)
  have "\<exists>k<n. \<exists>outs s'. schedule_calls (take k rs) s = Some (outs, s') \<and> runnable s' ts j" if "n \<le> length rs" "j < n" for j
  proof -
    define k where "k = (j + n - i) mod n"
    have "(i + k) mod n = (i + (j + n - i)) mod n" by (simp add: k_def mod_add_right_eq)
    also have "\<dots> = j" using i that(2) by simp
    finally have "(i + k) mod n = j" .
    moreover have "k < n" using i by (simp add: k_def)
    ultimately show ?thesis using schedule_calls_runnable [OF R, of "take k rs"] that(1) n by auto
  qed
  moreover obtain outs s' where "schedule_calls rs s = Some (outs, s')"
    "\<forall>k<length rs. outs ! k = Some (if n \<le> Suc k then rs ! (Suc k - n) else saved s (ts ! ((i + Suc k) mod n)))"
    using schedule_calls_invariant [OF r, of rs] n by blast
  ultimately show ?thesis using schedule_calls_runnable [OF R, of rs] n by auto
qed

definition sample_thread :: "u64 \<Rightarrow> u64 \<Rightarrow> thread_t" where
  "sample_thread k nxt = \<lparr>tid = k, t_status = READY, t_name = [], parent = 0x1000, t_next = nxt, t_cpu_time = 0,
     registers = zero_registers\<lparr>iret_rip := k\<rparr>\<rparr>"

definition sample_psys :: psys where
  "sample_psys = \<lparr>procs = [0x1000 \<mapsto> \<lparr>pid = 0, p_status = READY, p_name = [], p_next = 0, threads = 0x3000, current_thread = 0x3000,
     p_cpu_time = 0\<rparr>], thrs = [0x3000 \<mapsto> sample_thread 1 0x5000, 0x5000 \<mapsto> sample_thread 2 0], next_free_pid = 1, next_free_tid = 3,
     current_process = 0x1000, processes_list = 0x1000, vm = sample_vm, cr0_wp = False\<rparr>"

lemma sample_runnable: "runnable sample_psys [0x3000, 0x5000] 0"
  by (simp add: runnable_def running_def stat_def less_Suc_eq_0_disj) (simp add: sample_psys_def sample_thread_def thr_next_def less_Suc_eq)

theorem round_robin_runs_every_thread_witness:
  "\<exists>outs s'. schedule_calls [zero_registers\<lparr>iret_rip := 7\<rparr>, zero_registers\<lparr>iret_rip := 8\<rparr>, zero_registers\<lparr>iret_rip := 9\<rparr>] sample_psys = Some (outs, s')
     \<and> runnable s' [0x3000, 0x5000] 1 \<and> stat s' 0x5000 = RUNNING \<and> outs ! 1 = Some (zero_registers\<lparr>iret_rip := 7\<rparr>)"
proof -
  let ?rs = "[zero_registers\<lparr>iret_rip := 7\<rparr>, zero_registers\<lparr>iret_rip := 8\<rparr>, zero_registers\<lparr>iret_rip := 9\<rparr>]"
  obtain outs s' where o: "schedule_calls ?rs sample_psys = Some (outs, s')" "runnable s' [0x3000, 0x5000] ((0 + length ?rs) mod 2)"
    "stat s' ([0x3000, 0x5000] ! ((0 + length ?rs) mod 2)) = RUNNING"
    "\<forall>k<length ?rs. outs ! k = Some (if 2 \<le> Suc k then ?rs ! (Suc k - 2) else saved sample_psys ([0x3000, 0x5000] ! ((0 + Suc k) mod 2)))"
    using round_robin_runs_every_thread [OF sample_runnable, of 2 ?rs] by auto
  then show ?thesis by auto
qed



text \<open>
  Threads of a process: \<open>add_thread\<close> appends a fresh thread to its parent's list and makes it the current
  one, \<open>remove_thread\<close> unlinks any thread of the list (first, middle or last) and clears its parent; the list of
  the parent is the old one with exactly that thread added or taken away, and adding then removing restores it.
\<close>

theorem thread_list_add_remove:
  assumes L: "thread_list s p ts" and t: "t \<noteq> 0" "thrs s t = Some x" "parent x = p" "p \<noteq> 0" "t_next x = 0" "t \<notin> set ts"
  shows "(\<exists>s1 s2. add_thread t s = Some s1 \<and> thread_list s1 p (ts @ [t]) \<and> map_option current_thread (procs s1 p) = Some t
      \<and> remove_thread t s1 = Some s2 \<and> thread_list s2 p ts \<and> map_option parent (thrs s2 t) = Some 0)
    \<and> (\<forall>us u vs y. ts = us @ u # vs \<and> thrs s u = Some y \<and> parent y = p \<longrightarrow>
        (\<exists>s1. remove_thread u s = Some s1 \<and> thread_list s1 p (us @ vs) \<and> map_option parent (thrs s1 u) = Some 0))"
proof -
  obtain s1 where s1: "add_thread t s = Some s1" "thread_list s1 p (ts @ [t])" "map_option current_thread (procs s1 p) = Some t"
    using add_thread_list [OF L t] by blast
  have "map_option parent (thrs s1 t) = Some p" using add_thread_parent [OF s1(1)] t(2,3) by simp
  then obtain z where "thrs s1 t = Some z" "parent z = p" by auto
  then obtain s2 where "remove_thread t s1 = Some s2" "thread_list s2 p ts" "map_option parent (thrs s2 t) = Some 0"
    using remove_thread_list [of s1 p ts t "[]" z] s1(2) t(4) by auto
  moreover have "\<exists>s1. remove_thread u s = Some s1 \<and> thread_list s1 p (us @ vs) \<and> map_option parent (thrs s1 u) = Some 0"
    if "ts = us @ u # vs \<and> thrs s u = Some y \<and> parent y = p" for us u vs y
    using remove_thread_list [of s p us u vs y] that L t(4) by simp
  ultimately show ?thesis using s1 by blast
qed

definition spare_psys :: psys where
  "spare_psys = sample_psys\<lparr>thrs := (thrs sample_psys)(0x7000 \<mapsto> sample_thread 3 0)\<rparr>"

theorem thread_list_add_remove_witness:
  "(\<exists>s1 s2. add_thread 0x7000 spare_psys = Some s1 \<and> thread_list s1 0x1000 [0x3000, 0x5000, 0x7000]
      \<and> remove_thread 0x7000 s1 = Some s2 \<and> thread_list s2 0x1000 [0x3000, 0x5000])
    \<and> (\<exists>s1. remove_thread 0x3000 spare_psys = Some s1 \<and> thread_list s1 0x1000 [0x5000])"
proof -
  have L: "thread_list spare_psys 0x1000 [0x3000, 0x5000]"
    by (simp add: thread_list_def thr_next_def spare_psys_def sample_psys_def sample_thread_def)
  have t: "thrs spare_psys 0x7000 = Some (sample_thread 3 0)" "thrs spare_psys 0x3000 = Some (sample_thread 1 0x5000)"
    by (simp_all add: spare_psys_def sample_psys_def)
  have f: "parent (sample_thread k n) = 0x1000" "t_next (sample_thread k n) = n" for k n by (simp_all add: sample_thread_def)
  note T = thread_list_add_remove [OF L _ t(1) f(1) _ f(2)]
  have "\<exists>s1. remove_thread 0x3000 spare_psys = Some s1 \<and> thread_list s1 0x1000 ([] @ [0x5000])"
    using T [THEN conjunct2, THEN spec [of _ "[]"], THEN spec [of _ "0x3000"], THEN spec [of _ "[0x5000]"]] t(2) f by auto
  then show ?thesis using T [THEN conjunct1] by auto
qed

text \<open>
  Removing a process: \<open>remove_process\<close> unlinks exactly the given process, wherever it stands in the list; the
  list stays sound, its number is no longer found, and every other number finds the process it found before.
\<close>

theorem remove_process_unlinks:
  assumes L: "proc_list s (xs @ proc # ys)"
  shows "\<exists>s'. remove_process proc s = Some s' \<and> proc_list s' (xs @ ys)
     \<and> get_process_by_pid (pid (the (procs s proc))) s' = Some 0
     \<and> (\<forall>q. q \<noteq> pid (the (procs s proc)) \<longrightarrow> get_process_by_pid q s' = get_process_by_pid q s)"
proof -
  have lp: "lpath (proc_next s) (processes_list s) (xs @ proc # ys)" using L by (simp add: proc_list_def)
  obtain s' where s': "remove_process proc s = Some s'" "lpath (proc_next s') (processes_list s') (xs @ ys)"
    "\<And>p. map_option pid (procs s' p) = map_option pid (procs s p)" "vm s' = vm s" "next_free_pid s' = next_free_pid s"
    using remove_process_list [OF lp] by blast
  have pids: "pid (the (procs s' p)) = pid (the (procs s p))" if "p \<in> set (xs @ proc # ys)" for p
    using s'(3) [of p] lpath_nonzero [OF lp that] by (auto simp: proc_next_def split: option.splits)
  have dom: "procs s' p \<noteq> None \<longleftrightarrow> procs s p \<noteq> None" for p using s'(3) [of p] by (metis map_option_is_None)
  have m: "map (\<lambda>p. pid (the (procs s' p))) (xs @ ys) = map (\<lambda>p. pid (the (procs s p))) (xs @ ys)"
    using pids by auto
  have pl: "proc_list s' (xs @ ys)"
    unfolding proc_list_def m using L s' pids dom by (auto simp: proc_list_def)
  have d: "distinct (map (\<lambda>p. pid (the (procs s p))) (xs @ proc # ys))" using L by (simp add: proc_list_def)
  have g: "get_process_by_pid q s' = Some (case find (\<lambda>p. pid (the (procs s' p)) = q) (xs @ ys) of None \<Rightarrow> 0 | Some p \<Rightarrow> p)" for q
    unfolding get_process_by_pid_def by (rule find_pid_ok [OF s'(2)])
  have g0: "get_process_by_pid q s = Some (case find (\<lambda>p. pid (the (procs s p)) = q) (xs @ proc # ys) of None \<Rightarrow> 0 | Some p \<Rightarrow> p)" for q
    unfolding get_process_by_pid_def by (rule find_pid_ok [OF lp])
  have "find (\<lambda>p. pid (the (procs s' p)) = pid (the (procs s proc))) (xs @ ys) = None"
  proof -
    have "pid (the (procs s' p)) \<noteq> pid (the (procs s proc))" if "p \<in> set (xs @ ys)" for p
    proof -
      have "pid (the (procs s' p)) = pid (the (procs s p))" using pids that by auto
      then show ?thesis using d that by force
    qed
    then show ?thesis by (auto simp: find_None_iff)
  qed
  moreover have "find (\<lambda>p. pid (the (procs s' p)) = q) (xs @ ys) = find (\<lambda>p. pid (the (procs s p)) = q) (xs @ proc # ys)"
    if "q \<noteq> pid (the (procs s proc))" for q
    using that find_pid_other [of "xs @ ys" s' s q] pids by (simp add: find_skip)
  ultimately have "get_process_by_pid (pid (the (procs s proc))) s' = Some 0"
    "\<forall>q. q \<noteq> pid (the (procs s proc)) \<longrightarrow> get_process_by_pid q s' = get_process_by_pid q s" unfolding g g0 by simp_all
  then show ?thesis using s'(1) pl by blast
qed

theorem remove_process_unlinks_witness:
  "\<exists>s'. remove_process 0x1000 sample_psys = Some s' \<and> proc_list s' [] \<and> get_process_by_pid 0 s' = Some 0"
proof -
  have v: "vm sample_psys = sample_vm" "next_free_pid sample_psys = 1" "h_va_head sample_vm = 0xFFFF800000001000"
    by (simp_all add: sample_psys_def sample_vm_def HIGHER_HALF_START_ADDR_def)
  have L: "proc_list sample_psys ([] @ [0x1000])"
    by (simp add: proc_list_def v) (simp add: sample_psys_def proc_next_def)
  have "pid (the (procs sample_psys 0x1000)) = 0" by (simp add: sample_psys_def)
  then show ?thesis using remove_process_unlinks [OF L] by auto
qed

end
