(* ===== verification/LibSort.thy ===== *)
theory LibSort
  imports LibString "HOL-Library.Multiset"
begin

text \<open>
  \<open>qsort\<close> and \<open>bsearch\<close> of \<open>lib/stdlib.c\<close> on the memory model of the string library. \<open>qsort\<close> is a bubble sort
  that always makes as many passes as there are elements; it is related to a bubble pass on lists, which is
  shown to sort. The comparison function of the caller is a parameter; the theorems ask of it that it depends
  on the bytes of the two elements only and orders them consistently.
\<close>

section \<open>The functions\<close>

text \<open>\<open>compar\<close> is the caller's comparison function, which may read the memory its arguments point to.\<close>

fun swap_loop :: "nat \<Rightarrow> ptr \<Rightarrow> ptr \<Rightarrow> cmem \<Rightarrow> cmem option" where
  "swap_loop 0 a b m = Some m"
| "swap_loop (Suc n) a b m =
     do { tmp \<leftarrow> ld m a; y \<leftarrow> ld m b; m \<leftarrow> st m a y; m \<leftarrow> st m b tmp; swap_loop n (padd a 1) (padd b 1) m }"

fun bubble_loop :: "nat \<Rightarrow> ptr \<Rightarrow> nat \<Rightarrow> (cmem \<Rightarrow> ptr \<Rightarrow> ptr \<Rightarrow> int option) \<Rightarrow> cmem \<Rightarrow> cmem option" where
  "bubble_loop 0 a sz compar m = Some m"
| "bubble_loop (Suc n) a sz compar m =
     do { c \<leftarrow> compar m a (padd a sz);
          m \<leftarrow> (if c > 0 then swap_loop sz a (padd a sz) m else Some m);
          bubble_loop n (padd a sz) sz compar m }"

fun qsort_loop :: "nat \<Rightarrow> ptr \<Rightarrow> nat \<Rightarrow> nat \<Rightarrow> (cmem \<Rightarrow> ptr \<Rightarrow> ptr \<Rightarrow> int option) \<Rightarrow> cmem \<Rightarrow> cmem option" where
  "qsort_loop 0 arr nmemb sz compar m = Some m"
| "qsort_loop (Suc i) arr nmemb sz compar m =
     do { m \<leftarrow> bubble_loop (nmemb - 1) arr sz compar m; qsort_loop i arr nmemb sz compar m }"

definition qsort :: "ptr \<Rightarrow> nat \<Rightarrow> nat \<Rightarrow> (cmem \<Rightarrow> ptr \<Rightarrow> ptr \<Rightarrow> int option) \<Rightarrow> cmem \<Rightarrow> cmem option" where
  "qsort base nmemb sz compar m = qsort_loop nmemb base nmemb sz compar m"

function bsearch_loop :: "nat \<Rightarrow> nat \<Rightarrow> ptr \<Rightarrow> ptr \<Rightarrow> nat \<Rightarrow> (cmem \<Rightarrow> ptr \<Rightarrow> ptr \<Rightarrow> int option) \<Rightarrow> cmem \<Rightarrow> ptr option option" where
  "bsearch_loop low high key base sz compar m =
     (if low < high
      then let mid = (low + high) div 2; elem = padd base (mid * sz)
           in do { cmp \<leftarrow> compar m key elem;
                   if cmp < 0 then bsearch_loop low mid key base sz compar m
                   else if cmp > 0 then bsearch_loop (mid + 1) high key base sz compar m
                   else Some (Some elem) }
      else Some None)"
  by pat_completeness auto
termination
  by (relation "measure (\<lambda>(low, high, key, base, sz, compar, m). high - low)") auto

definition bsearch :: "ptr \<Rightarrow> ptr \<Rightarrow> nat \<Rightarrow> nat \<Rightarrow> (cmem \<Rightarrow> ptr \<Rightarrow> ptr \<Rightarrow> int option) \<Rightarrow> cmem \<Rightarrow> ptr option option" where
  "bsearch key base nmemb sz compar m = bsearch_loop 0 nmemb key base sz compar m"

declare bsearch_loop.simps [simp del]

section \<open>A bubble pass on lists\<close>

definition consistent :: "('a \<Rightarrow> 'a \<Rightarrow> int) \<Rightarrow> 'a set \<Rightarrow> bool" where
  "consistent cmp S \<longleftrightarrow> (\<forall>x \<in> S. \<forall>y \<in> S. (cmp x y > 0 \<longleftrightarrow> cmp y x < 0))
     \<and> (\<forall>x \<in> S. \<forall>y \<in> S. \<forall>z \<in> S. cmp x y \<le> 0 \<longrightarrow> cmp y z \<le> 0 \<longrightarrow> cmp x z \<le> 0)"

fun bubble :: "('a \<Rightarrow> 'a \<Rightarrow> int) \<Rightarrow> 'a list \<Rightarrow> 'a list" where
  "bubble cmp (x # y # xs) = (if cmp x y > 0 then y # bubble cmp (x # xs) else x # bubble cmp (y # xs))"
| "bubble cmp xs = xs"

lemma bubble_length [simp]: "length (bubble cmp xs) = length xs"
  by (induction cmp xs rule: bubble.induct) auto

lemma bubble_mset [simp]: "mset (bubble cmp xs) = mset xs"
  by (induction cmp xs rule: bubble.induct) auto

lemma bubble_set [simp]: "set (bubble cmp xs) = set xs"
  by (metis bubble_mset set_mset_mset)

lemma consistent_total: "consistent cmp S \<Longrightarrow> x \<in> S \<Longrightarrow> y \<in> S \<Longrightarrow> cmp x y \<le> 0 \<or> cmp y x \<le> 0"
  unfolding consistent_def by (meson linorder_not_less order_less_imp_le)

lemma consistent_trans: "consistent cmp S \<Longrightarrow> x \<in> S \<Longrightarrow> y \<in> S \<Longrightarrow> z \<in> S \<Longrightarrow> cmp x y \<le> 0 \<Longrightarrow> cmp y z \<le> 0 \<Longrightarrow> cmp x z \<le> 0"
  unfolding consistent_def by blast

lemma bubble_fixed: "sorted_wrt (\<lambda>x y. cmp x y \<le> 0) xs \<Longrightarrow> bubble cmp xs = xs"
  by (induction cmp xs rule: bubble.induct) auto

text \<open>A pass carries the greatest of the unsettled elements to their end and leaves the settled ones in place.\<close>

lemma bubble_settles:
  assumes "consistent cmp S" "set (ys @ zs) \<subseteq> S" "ys \<noteq> []" "sorted_wrt (\<lambda>x y. cmp x y \<le> 0) zs" "\<forall>y \<in> set ys. \<forall>z \<in> set zs. cmp y z \<le> 0"
  shows "\<exists>us w. bubble cmp (ys @ zs) = us @ w # zs \<and> mset (us @ [w]) = mset ys \<and> (\<forall>u \<in> set us. cmp u w \<le> 0)"
  using assms(2,3,5)
proof (induction "length ys" arbitrary: ys rule: less_induct)
  case less
  show ?case
  proof (cases ys)
    case (Cons x xs)
    show ?thesis
    proof (cases xs)
      case Nil
      have "bubble cmp (ys @ zs) = x # zs" using less.prems assms(4) Cons Nil by (simp add: bubble_fixed)
      then show ?thesis using Cons Nil by (intro exI [of _ "[]"] exI [of _ x]) simp
    next
      case (Cons y xs')
      note ys = \<open>ys = x # xs\<close> [unfolded Cons]
      define g l where "g = (if cmp x y > 0 then x else y)" and "l = (if cmp x y > 0 then y else x)"
      have S: "x \<in> S" "y \<in> S" using less.prems(1) ys by auto
      have gl: "cmp l g \<le> 0" using consistent_total [OF assms(1) S] by (auto simp: g_def l_def)
      have "g = x \<or> g = y" by (simp add: g_def)
      then have gh: "length (g # xs') < length ys" "set ((g # xs') @ zs) \<subseteq> S" "\<forall>v \<in> set (g # xs'). \<forall>z \<in> set zs. cmp v z \<le> 0"
        using less.prems ys by auto
      obtain us w where u: "bubble cmp ((g # xs') @ zs) = us @ w # zs" "mset (us @ [w]) = mset (g # xs')" "\<forall>u \<in> set us. cmp u w \<le> 0"
        using less.hyps [OF gh(1,2) _ gh(3)] by blast
      have b: "bubble cmp (ys @ zs) = l # us @ w # zs" using u(1) ys by (auto simp: g_def l_def)
      have m: "mset ((l # us) @ [w]) = mset ys" using u(2) ys by (auto simp: g_def l_def)
      have "g \<in> set (us @ [w])" using mset_eq_setD [OF u(2)] by auto
      moreover have w: "w \<in> S" "g \<in> S" "l \<in> S" using mset_eq_setD [OF m] less.prems(1) S by (auto simp: g_def l_def)
      ultimately have "cmp g w \<le> 0" using u(3) consistent_total [OF assms(1) w(1) w(1)] by auto
      then have "cmp l w \<le> 0" using consistent_trans [OF assms(1) w(3,2,1) gl] by simp
      then show ?thesis using b m u(3) by (intro exI [of _ "l # us"] exI [of _ w]) auto
    qed
  qed (use less.prems in simp)
qed

lemma bubble_passes:
  assumes c: "consistent cmp (set xs)"
  shows "k \<le> length xs \<Longrightarrow> \<exists>ys zs. (bubble cmp ^^ k) xs = ys @ zs \<and> length zs = k \<and> mset (ys @ zs) = mset xs
    \<and> sorted_wrt (\<lambda>x y. cmp x y \<le> 0) zs \<and> (\<forall>y \<in> set ys. \<forall>z \<in> set zs. cmp y z \<le> 0)"
proof (induction k)
  case 0
  then show ?case by (intro exI [of _ xs] exI [of _ "[]"]) simp
next
  case (Suc k)
  then obtain ys zs where I: "(bubble cmp ^^ k) xs = ys @ zs" "length zs = k" "mset (ys @ zs) = mset xs"
    "sorted_wrt (\<lambda>x y. cmp x y \<le> 0) zs" "\<forall>y \<in> set ys. \<forall>z \<in> set zs. cmp y z \<le> 0" by auto
  have "length (ys @ zs) = length xs" using I(3) by (metis size_mset)
  then have "ys \<noteq> []" using I(2) Suc.prems by auto
  moreover have "set (ys @ zs) \<subseteq> set xs" using mset_eq_setD [OF I(3)] by simp
  ultimately obtain us w where u: "bubble cmp (ys @ zs) = us @ w # zs" "mset (us @ [w]) = mset ys" "\<forall>u \<in> set us. cmp u w \<le> 0"
    using bubble_settles [OF c _ _ I(4,5)] by blast
  have "set ys = set (us @ [w])" using mset_eq_setD [OF u(2)] by simp
  moreover have "mset xs = mset (us @ [w]) + mset zs" using I(3) u(2) by simp
  ultimately have "(bubble cmp ^^ Suc k) xs = us @ (w # zs) \<and> length (w # zs) = Suc k \<and> mset (us @ (w # zs)) = mset xs
    \<and> sorted_wrt (\<lambda>x y. cmp x y \<le> 0) (w # zs) \<and> (\<forall>y \<in> set us. \<forall>z \<in> set (w # zs). cmp y z \<le> 0)"
    using u I by auto
  then show ?case by blast
qed

lemma bubble_sorts:
  assumes "consistent cmp (set xs)"
  shows "sorted_wrt (\<lambda>x y. cmp x y \<le> 0) ((bubble cmp ^^ length xs) xs) \<and> mset ((bubble cmp ^^ length xs) xs) = mset xs"
proof -
  obtain ys zs where z: "(bubble cmp ^^ length xs) xs = ys @ zs" "length zs = length xs" "mset (ys @ zs) = mset xs" "sorted_wrt (\<lambda>x y. cmp x y \<le> 0) zs"
    using bubble_passes [OF assms, of "length xs"] by auto
  have "length (ys @ zs) = length xs" using z(3) by (metis size_mset)
  then show ?thesis using z by simp
qed

section \<open>Arrays in memory\<close>

lemma area_Cons: "area m p (x # xs) \<longleftrightarrow> ld m p = Some x \<and> area m (padd p 1) xs"
  using area_append [of m p "[x]" xs] by (simp add: area_def [of m p "[x]"])

lemma area_cong: "(\<And>i. i < length xs \<Longrightarrow> ld m' (padd p i) = ld m (padd p i)) \<Longrightarrow> area m' p xs = area m p xs"
  by (simp add: area_def)

lemma swap_loop_ok:
  "area m a x \<Longrightarrow> area m b y \<Longrightarrow> length x = n \<Longrightarrow> length y = n \<Longrightarrow> apart a n b n \<Longrightarrow>
   \<exists>m'. swap_loop n a b m = Some m' \<and> area m' a y \<and> area m' b x \<and> same_objects m m'
     \<and> (\<forall>q. apart q 1 a n \<and> apart q 1 b n \<longrightarrow> ld m' q = ld m q)"
proof (induction n arbitrary: a b m x y)
  case 0
  then show ?case by (simp add: area_def)
next
  case (Suc n)
  obtain u x' v y' where xy: "x = u # x'" "y = v # y'" "length x' = n" "length y' = n"
    using Suc.prems(3,4) by (auto simp: length_Suc_conv)
  have l: "ld m a = Some u" "ld m b = Some v" "area m (padd a 1) x'" "area m (padd b 1) y'" "a \<noteq> b"
    using Suc.prems(1,2,5) xy(1,2) by (auto simp: area_Cons apart_def)
  obtain m1 where m1: "st m a v = Some m1" using st_exists [OF l(1)] by blast
  have "ld m1 b = Some v" using ld_st [OF m1] l(2,5) by simp
  then obtain m2 where m2: "st m1 b u = Some m2" using st_exists by blast
  have ld2: "ld m2 q = (if q = b then Some u else if q = a then Some v else ld m q)" for q
    by (simp add: ld_st [OF m2] ld_st [OF m1])
  have ne: "padd a (Suc i) \<noteq> a \<and> padd a (Suc i) \<noteq> b \<and> padd b (Suc i) \<noteq> a \<and> padd b (Suc i) \<noteq> b" if "i < n" for i
    using that Suc.prems(5) by (cases a; cases b) (auto simp: apart_def padd_def)
  have A: "area m2 (padd a 1) x'" "area m2 (padd b 1) y'"
    using l(3,4) xy(3,4) ne area_cong [of x' m2 "padd a 1" m] area_cong [of y' m2 "padd b 1" m] by (simp_all add: ld2)
  have ap: "apart (padd a 1) n (padd b 1) n" using Suc.prems(5) by (auto simp: apart_def)
  obtain m' where I: "swap_loop n (padd a 1) (padd b 1) m2 = Some m'" "area m' (padd a 1) y'" "area m' (padd b 1) x'" "same_objects m2 m'"
    "\<forall>q. apart q 1 (padd a 1) n \<and> apart q 1 (padd b 1) n \<longrightarrow> ld m' q = ld m2 q"
    using Suc.IH [OF A xy(3,4) ap] by (elim exE conjE) (rule that; assumption)
  have "ld m' a = ld m2 a" "ld m' b = ld m2 b" using I(5) Suc.prems(5) by (auto simp: apart_def simp del: split_paired_All)
  then have "area m' a y" "area m' b x" using I(2,3) xy(1,2) l(5) by (simp_all add: area_Cons ld2)
  moreover have "ld m' q = ld m q" if "apart q 1 a (Suc n) \<and> apart q 1 b (Suc n)" for q
  proof -
    have "q \<noteq> a" "q \<noteq> b" "apart q 1 (padd a 1) n \<and> apart q 1 (padd b 1) n" using that by (auto simp: apart_def)
    then show ?thesis using I(5) by (simp add: ld2 del: split_paired_All)
  qed
  moreover have "same_objects m m'" using st_keeps [OF m1] st_keeps [OF m2] I(4) by (meson same_objects_trans)
  ultimately show ?case using I(1) m1 m2 l(1,2) by auto
qed

text \<open>An array of elements of \<open>sz\<close> bytes each, and a comparison function that looks at such elements only.\<close>

definition arr :: "cmem \<Rightarrow> ptr \<Rightarrow> nat \<Rightarrow> bytes list \<Rightarrow> bool" where
  "arr m p sz xs \<longleftrightarrow> (\<forall>x \<in> set xs. length x = sz) \<and> area m p (concat xs)"

definition compares :: "(cmem \<Rightarrow> ptr \<Rightarrow> ptr \<Rightarrow> int option) \<Rightarrow> (bytes \<Rightarrow> bytes \<Rightarrow> int) \<Rightarrow> nat \<Rightarrow> bool" where
  "compares compar cmp sz \<longleftrightarrow> (\<forall>m a b x y. area m a x \<and> area m b y \<and> length x = sz \<and> length y = sz \<longrightarrow> compar m a b = Some (cmp x y))"

lemma comparesD: "compares compar cmp sz \<Longrightarrow> area m a x \<Longrightarrow> area m b y \<Longrightarrow> length x = sz \<Longrightarrow> length y = sz \<Longrightarrow> compar m a b = Some (cmp x y)"
  unfolding compares_def by blast

lemma arr_Cons: "arr m p sz (x # xs) \<longleftrightarrow> length x = sz \<and> area m p x \<and> arr m (padd p sz) sz xs"
  by (auto simp: arr_def area_append)

lemma concat_length: "\<forall>x \<in> set xs. length x = sz \<Longrightarrow> length (concat xs) = sz * length xs"
  by (induction xs) auto

lemma arr_bytes: "arr m p sz xs \<Longrightarrow> length (concat xs) = sz * length xs"
  by (simp add: arr_def concat_length)

lemma area_only_changed: "only_changed p n m m' \<Longrightarrow> apart q (length xs) p n \<Longrightarrow> area m' q xs = area m q xs"
  by (rule area_cong, rule only_changed_ld) (auto simp: apart_def)

lemma arr_only_changed: "only_changed p n m m' \<Longrightarrow> arr m q sz xs \<Longrightarrow> apart q (sz * length xs) p n \<Longrightarrow> arr m' q sz xs"
  using area_only_changed [of p n m m' q "concat xs"] arr_bytes [of m q sz xs] by (simp add: arr_def)

lemma swap_elements:
  assumes "length x = sz" "length y = sz" "area m p x" "area m (padd p sz) y"
  shows "\<exists>m'. swap_loop sz p (padd p sz) m = Some m' \<and> area m' p y \<and> area m' (padd p sz) x \<and> only_changed p (2 * sz) m m'"
proof -
  obtain m' where "swap_loop sz p (padd p sz) m = Some m'" "area m' p y" "area m' (padd p sz) x" "same_objects m m'"
    and u: "\<forall>q. apart q 1 p sz \<and> apart q 1 (padd p sz) sz \<longrightarrow> ld m' q = ld m q"
    using swap_loop_ok [OF assms(3,4,1,2)] by (auto simp: apart_def)
  moreover have "ld m' q = ld m q" if "apart q 1 p (2 * sz)" for q
  proof -
    have "apart q 1 p sz \<and> apart q 1 (padd p sz) sz" using that by (auto simp: apart_def)
    then show ?thesis using u by blast
  qed
  ultimately show ?thesis unfolding only_changed_def by blast
qed

lemma bubble_loop_ok:
  assumes C: "compares compar cmp sz"
  shows "arr m p sz (x # xs) \<Longrightarrow>
    \<exists>m'. bubble_loop (length xs) p sz compar m = Some m' \<and> arr m' p sz (bubble cmp (x # xs)) \<and> only_changed p (sz * Suc (length xs)) m m'"
proof (induction xs arbitrary: p m x)
  case Nil
  then show ?case by (simp add: only_changed_def)
next
  case (Cons y xs)
  have e: "length x = sz" "length y = sz" "area m p x" "area m (padd p sz) y" "arr m (padd p (sz + sz)) sz xs"
    using Cons.prems by (simp_all add: arr_Cons)
  define l g where "l = (if cmp x y > 0 then y else x)" and "g = (if cmp x y > 0 then x else y)"
  obtain m1 where m1: "(if cmp x y > 0 then swap_loop sz p (padd p sz) m else Some m) = Some m1" "area m1 p l" "area m1 (padd p sz) g" "only_changed p (2 * sz) m m1"
    using swap_elements [OF e(1-4)] e(3,4) by (cases "cmp x y > 0") (auto simp: l_def g_def only_changed_def)
  have lg: "length l = sz" "length g = sz" using e(1,2) by (simp_all add: l_def g_def)
  have "arr m1 (padd p (sz + sz)) sz xs" by (rule arr_only_changed [OF m1(4) e(5)]) (simp add: apart_def)
  then have "arr m1 (padd p sz) sz (g # xs)" using m1(3) lg by (simp add: arr_Cons)
  then obtain m' where I: "bubble_loop (length xs) (padd p sz) sz compar m1 = Some m'" "arr m' (padd p sz) sz (bubble cmp (g # xs))"
    "only_changed (padd p sz) (sz * Suc (length xs)) m1 m'" using Cons.IH by blast
  have "area m' p l" using area_only_changed [OF I(3), of p l] m1(2) lg by (simp add: apart_def)
  then have "arr m' p sz (bubble cmp (x # y # xs))" using I(2) lg by (auto simp: arr_Cons l_def g_def)
  moreover have "only_changed p (sz * Suc (length (y # xs))) m m'"
    using only_changed_trans [OF only_changed_mono [OF m1(4)] only_changed_sub [OF I(3)]] by simp
  moreover have "bubble_loop (length (y # xs)) p sz compar m = Some m'"
    using comparesD [OF C e(3,4,1,2)] m1(1) I(1) by (cases "cmp x y > 0") simp_all
  ultimately show ?case by blast
qed

lemma qsort_loop_ok:
  assumes C: "compares compar cmp sz"
  shows "arr m p sz xs \<Longrightarrow> xs \<noteq> [] \<Longrightarrow>
    \<exists>m'. qsort_loop k p (length xs) sz compar m = Some m' \<and> arr m' p sz ((bubble cmp ^^ k) xs) \<and> only_changed p (sz * length xs) m m'"
proof (induction k arbitrary: m xs)
  case 0
  then show ?case by (simp add: only_changed_def)
next
  case (Suc k)
  obtain y ys where xs: "xs = y # ys" using Suc.prems(2) by (cases xs) auto
  obtain m1 where m1: "bubble_loop (length xs - 1) p sz compar m = Some m1" "arr m1 p sz (bubble cmp xs)" "only_changed p (sz * length xs) m m1"
    using bubble_loop_ok [OF C, of m p y ys] Suc.prems(1) xs by auto
  have ne: "bubble cmp xs \<noteq> []" using Suc.prems(2) by (metis bubble_length length_0_conv)
  obtain m' where "qsort_loop k p (length xs) sz compar m1 = Some m'" "arr m' p sz ((bubble cmp ^^ k) (bubble cmp xs))" "only_changed p (sz * length xs) m1 m'"
    using Suc.IH [OF m1(2) ne] by auto
  then show ?case using m1 only_changed_trans [OF m1(3)] by (auto simp: funpow_swap1)
qed

lemma qsort_ok:
  assumes "compares compar cmp sz" "consistent cmp (set xs)" "arr m p sz xs"
  shows "\<exists>m' ys. qsort p (length xs) sz compar m = Some m' \<and> arr m' p sz ys \<and> mset ys = mset xs \<and> sorted_wrt (\<lambda>x y. cmp x y \<le> 0) ys
     \<and> only_changed p (sz * length xs) m m'"
proof (cases "xs = []")
  case True
  then show ?thesis using assms(3) by (auto simp: qsort_def only_changed_def)
next
  case False
  then show ?thesis using qsort_loop_ok [OF assms(1,3), of "length xs"] bubble_sorts [OF assms(2)] by (auto simp: qsort_def)
qed

section \<open>Searching\<close>

lemma arr_nth: "arr m p sz xs \<Longrightarrow> i < length xs \<Longrightarrow> area m (padd p (i * sz)) (xs ! i) \<and> length (xs ! i) = sz"
proof (induction xs arbitrary: p i)
  case (Cons x xs)
  then show ?case using Cons.IH [of "padd p sz" "i - 1"] by (cases i) (simp_all add: arr_Cons add.commute)
qed simp

lemma bsearch_loop_ok:
  assumes C: "compares compar cmp sz" and K: "consistent cmp (insert k (set xs))" and S: "sorted_wrt (\<lambda>x y. cmp x y \<le> 0) xs"
    and A: "arr m p sz xs" "area m key k" "length k = sz"
  shows "low \<le> high \<Longrightarrow> high \<le> length xs \<Longrightarrow> (\<And>i. i < low \<Longrightarrow> cmp k (xs ! i) > 0) \<Longrightarrow> (\<And>i. high \<le> i \<Longrightarrow> i < length xs \<Longrightarrow> cmp k (xs ! i) < 0) \<Longrightarrow>
    \<exists>r. bsearch_loop low high key p sz compar m = Some r \<and> (case r of None \<Rightarrow> \<forall>x \<in> set xs. cmp k x \<noteq> 0
         | Some q \<Rightarrow> \<exists>i < length xs. q = padd p (i * sz) \<and> cmp k (xs ! i) = 0)"
proof (induction "high - low" arbitrary: low high rule: less_induct)
  case less
  show ?case
  proof (cases "low < high")
    case False
    then have "cmp k x \<noteq> 0" if x: "x \<in> set xs" for x
    proof -
      obtain i where i: "i < length xs" "x = xs ! i" using x by (auto simp: in_set_conv_nth)
      have "i < low \<or> high \<le> i" using False by linarith
      then show ?thesis using less.prems(3) [of i] less.prems(4) [of i] i by auto
    qed
    then show ?thesis using False by (subst bsearch_loop.simps) simp
  next
    case True
    define mid where "mid = (low + high) div 2"
    have mid: "low \<le> mid" "mid < high" "mid < length xs" using True less.prems(2) by (auto simp: mid_def)
    have c: "compar m key (padd p (mid * sz)) = Some (cmp k (xs ! mid))"
      using comparesD [OF C A(2) _ A(3)] arr_nth [OF A(1) mid(3)] by blast
    have in_xs: "xs ! i \<in> insert k (set xs)" if "i < length xs" for i using that by simp
    have mono: "cmp (xs ! i) (xs ! j) \<le> 0" if "i < j" "j < length xs" for i j using S that by (simp add: sorted_wrt_iff_nth_less)
    note tr = consistent_trans [OF K] and sym = K [unfolded consistent_def, THEN conjunct1, rule_format]
    consider "cmp k (xs ! mid) < 0" | "cmp k (xs ! mid) > 0" | "cmp k (xs ! mid) = 0" by linarith
    then show ?thesis
    proof cases
      case 1
      have "cmp k (xs ! i) < 0" if "mid \<le> i" "i < length xs" for i
      proof (rule ccontr)
        assume a: "\<not> cmp k (xs ! i) < 0"
        then have "cmp (xs ! i) k \<le> 0" using sym [of "xs ! i" k] in_xs [OF that(2)] by auto
        then have "cmp (xs ! mid) k \<le> 0" using tr [of "xs ! mid" "xs ! i" k] mono [of mid i] in_xs that mid(3) a 1 by (cases "i = mid") auto
        then show False using sym [of "xs ! mid" k] in_xs [OF mid(3)] 1 by auto
      qed
      then have "\<exists>r. bsearch_loop low mid key p sz compar m = Some r \<and> (case r of None \<Rightarrow> \<forall>x \<in> set xs. cmp k x \<noteq> 0
         | Some q \<Rightarrow> \<exists>i < length xs. q = padd p (i * sz) \<and> cmp k (xs ! i) = 0)"
        using less.hyps [of mid low] mid less.prems by auto
      then show ?thesis using True c 1 by (subst bsearch_loop.simps) (simp add: mid_def [symmetric])
    next
      case 2
      have "cmp k (xs ! i) > 0" if "i \<le> mid" for i
      proof (rule ccontr)
        assume a: "\<not> cmp k (xs ! i) > 0"
        then have "cmp k (xs ! mid) \<le> 0" using tr [of k "xs ! i" "xs ! mid"] mono [of i mid] in_xs that mid(3) 2 by (cases "i = mid") auto
        then show False using 2 by simp
      qed
      then have "\<exists>r. bsearch_loop (mid + 1) high key p sz compar m = Some r \<and> (case r of None \<Rightarrow> \<forall>x \<in> set xs. cmp k x \<noteq> 0
         | Some q \<Rightarrow> \<exists>i < length xs. q = padd p (i * sz) \<and> cmp k (xs ! i) = 0)"
        using less.hyps [of high "mid + 1"] mid less.prems by auto
      then show ?thesis using True c 2 by (subst bsearch_loop.simps) (simp add: mid_def [symmetric])
    next
      case 3
      then show ?thesis using True c mid(3) by (subst bsearch_loop.simps) (auto simp: mid_def [symmetric])
    qed
  qed
qed

section \<open>Properties\<close>

text \<open>
  C31. Sorting and searching: for a comparison that depends on the elements' bytes only and orders them
  consistently, \<open>qsort\<close> terminates with a sorted permutation of the array and changes nothing outside it; and
  \<open>bsearch\<close> on the result finds an element that compares equal to the key exactly when there is one.
\<close>

theorem qsort_then_bsearch:
  assumes C: "compares compar cmp sz" and K: "consistent cmp (insert k (set xs))"
    and A: "arr m p sz xs" "area m key k" "length k = sz" "apart key sz p (sz * length xs)"
  shows "\<exists>m' ys r. qsort p (length xs) sz compar m = Some m' \<and> arr m' p sz ys \<and> mset ys = mset xs
     \<and> sorted_wrt (\<lambda>x y. cmp x y \<le> 0) ys \<and> only_changed p (sz * length xs) m m'
     \<and> bsearch key p (length xs) sz compar m' = Some r
     \<and> (case r of None \<Rightarrow> \<forall>x \<in> set xs. cmp k x \<noteq> 0
        | Some q \<Rightarrow> \<exists>i < length xs. q = padd p (i * sz) \<and> cmp k (ys ! i) = 0)"
proof -
  have K': "consistent cmp (set xs)" using K unfolding consistent_def by blast
  obtain m' ys where q: "qsort p (length xs) sz compar m = Some m'" "arr m' p sz ys" "mset ys = mset xs" "sorted_wrt (\<lambda>x y. cmp x y \<le> 0) ys"
    "only_changed p (sz * length xs) m m'" using qsort_ok [OF C K' A(1)] by blast
  have s: "set ys = set xs" "length ys = length xs" using q(3) mset_eq_setD mset_eq_length by blast+
  have "area m' key k" using area_only_changed [OF q(5), of key k] A(2-4) by simp
  then obtain r where "bsearch_loop 0 (length ys) key p sz compar m' = Some r" "case r of None \<Rightarrow> \<forall>x \<in> set ys. cmp k x \<noteq> 0
         | Some q \<Rightarrow> \<exists>i < length ys. q = padd p (i * sz) \<and> cmp k (ys ! i) = 0"
    using bsearch_loop_ok [OF C _ q(4,2) _ A(3), of key 0 "length ys"] K s by auto
  then show ?thesis using q s by (intro exI [of _ m'] exI [of _ ys] exI [of _ r]) (cases r; simp add: bsearch_def)
qed

text \<open>A comparison of single bytes, as a caller would write it.\<close>

definition byte_compar :: "cmem \<Rightarrow> ptr \<Rightarrow> ptr \<Rightarrow> int option" where
  "byte_compar m a b = do { x \<leftarrow> ld m a; y \<leftarrow> ld m b; Some (uint x - uint y) }"

lemma byte_compar_compares: "compares byte_compar (\<lambda>x y. uint (hd x) - uint (hd y)) 1"
  unfolding compares_def by (auto simp: byte_compar_def area_Cons length_Suc_conv)

theorem qsort_then_bsearch_witness:
  "\<exists>m' ys r. qsort (0, 0) 3 1 byte_compar [0 \<mapsto> [9, 2, 5], 1 \<mapsto> [5]] = Some m' \<and> arr m' (0, 0) 1 ys
     \<and> mset ys = mset [[9], [2], [5]] \<and> sorted_wrt (\<lambda>x y. uint (hd x) - uint (hd y) \<le> 0) ys
     \<and> bsearch (1, 0) (0, 0) 3 1 byte_compar m' = Some (Some r)"
proof -
  let ?m = "[0 \<mapsto> [9, 2, 5], 1 \<mapsto> [5]] :: cmem" and ?cmp = "\<lambda>x (y :: bytes). uint (hd (x :: bytes)) - uint (hd y) :: int"
  have A: "arr ?m (0, 0) 1 [[9], [2], [5]]" "area ?m (1, 0) [5]"
    by (simp_all add: arr_Cons area_Cons) (simp_all add: arr_def area_def ld_def padd_def)
  have K: "consistent ?cmp S" for S by (auto simp: consistent_def)
  have n: "length [[9], [2], [5 :: u8]] = 3" and l: "length [5 :: u8] = 1" and ap: "apart (1, 0) 1 (0, 0) (1 * length [[9], [2], [5 :: u8]])"
    by (simp_all add: apart_def)
  obtain m' ys r where r: "qsort (0, 0) 3 1 byte_compar ?m = Some m'" "arr m' (0, 0) 1 ys" "mset ys = mset [[9], [2], [5]]"
    "sorted_wrt (\<lambda>x y. ?cmp x y \<le> 0) ys" "bsearch (1, 0) (0, 0) 3 1 byte_compar m' = Some r"
    "case r of None \<Rightarrow> \<forall>x \<in> set [[9], [2], [5]]. ?cmp [5] x \<noteq> 0 | Some q \<Rightarrow> \<exists>i < 3. q = padd (0, 0) (i * 1) \<and> ?cmp [5] (ys ! i) = 0"
    using qsort_then_bsearch [OF byte_compar_compares K A l ap, unfolded n] by (elim exE conjE) (rule that; assumption)
  moreover have "r \<noteq> None" using r(6) by (cases r) auto
  ultimately show ?thesis by auto
qed

end
