(* ===== verification/LibTime.thy ===== *)
theory LibTime
  imports LibFormat "HOL-Library.Signed_Division"
begin

text \<open>
  Calendar time (kernel/src/lib/time.c) and the real-time clock it is read from (kernel/src/sys/timer/rtc.c).

  The clock chip is the function \<open>cmos\<close> from register numbers to bytes. \<open>time_t\<close> and \<open>int\<close> values are integers in the
  range of their type; division and remainder truncate towards zero (\<open>sdiv\<close>, \<open>smod\<close>). A signed overflow and an array
  index outside an array give \<open>None\<close>. The static buffers and string tables of the code are addresses in the memory of the
  string library.
\<close>

section \<open>The clock chip\<close>

record rtc_time =
  rt_seconds :: u8
  rt_minutes :: u8
  rt_hours :: u8
  rt_days :: u8
  rt_months :: u8
  rt_years :: u8

definition bcd_to_bin :: "u8 \<Rightarrow> u8" where
  "bcd_to_bin v = drop_bit 4 v * 10 + (v AND 0x0F)"

definition get_rtc_time :: "(u8 \<Rightarrow> u8) \<Rightarrow> rtc_time" where
  "get_rtc_time cmos = \<lparr>rt_seconds = bcd_to_bin (cmos 0x00), rt_minutes = bcd_to_bin (cmos 0x02),
     rt_hours = bcd_to_bin (cmos 0x04), rt_days = bcd_to_bin (cmos 0x07), rt_months = bcd_to_bin (cmos 0x08),
     rt_years = bcd_to_bin (cmos 0x09)\<rparr>"

section \<open>Seconds since 1970\<close>

definition days_in_month :: "int list" where
  "days_in_month = [31, 28, 31, 30, 31, 30, 31, 31, 30, 31, 30, 31]"

definition is_leap :: "int \<Rightarrow> bool" where
  "is_leap y \<longleftrightarrow> y smod 4 = 0 \<and> (y smod 100 \<noteq> 0 \<or> y smod 400 = 0)"

function years_loop :: "int \<Rightarrow> int \<Rightarrow> int \<Rightarrow> int" where
  "years_loop y stop t = (if y < stop
     then years_loop (y + 1) stop (t + 365 * 24 * 3600 + (if is_leap y then 24 * 3600 else 0)) else t)"
  by pat_completeness auto
termination
  by (relation "measure (\<lambda>(y, stop, t). nat (stop - y))") auto

text \<open>\<open>year\<close> is the two-digit year of the chip, as in the code.\<close>

function months_loop :: "nat \<Rightarrow> nat \<Rightarrow> int \<Rightarrow> int \<Rightarrow> int option" where
  "months_loop m stop year t = (if m < stop
     then if m - 1 < length days_in_month
       then months_loop (m + 1) stop year (t + days_in_month ! (m - 1) * 24 * 3600 + (if m = 2 \<and> is_leap year then 24 * 3600 else 0))
       else None
     else Some t)"
  by pat_completeness auto
termination
  by (relation "measure (\<lambda>(m, stop, y, t). stop - m)") auto

declare years_loop.simps [simp del] months_loop.simps [simp del]

definition rtc_to_time_t :: "rtc_time option \<Rightarrow> int option" where
  "rtc_to_time_t rt = (case rt of None \<Rightarrow> Some 0
     | Some r \<Rightarrow> do {
         let t = years_loop 1970 (uint (rt_years r) + 2000) 0;
         t \<leftarrow> months_loop 1 (unat (rt_months r)) (uint (rt_years r)) t;
         Some (t + (uint (rt_days r) - 1) * 24 * 3600 + uint (rt_hours r) * 3600 + uint (rt_minutes r) * 60 + uint (rt_seconds r)) })"

definition get_time :: "(u8 \<Rightarrow> u8) \<Rightarrow> int option" where
  "get_time cmos = rtc_to_time_t (Some (get_rtc_time cmos))"

text \<open>\<open>time\<close> with its optional result pointer: the value is returned and stored if there is a pointer.\<close>

definition time_c :: "bool \<Rightarrow> (u8 \<Rightarrow> u8) \<Rightarrow> (int \<times> int option) option" where
  "time_c store cmos = do { current \<leftarrow> get_time cmos; Some (current, if store then Some current else None) }"

definition get_uptime_seconds :: "u8 \<Rightarrow> (u8 \<Rightarrow> u8) \<Rightarrow> u64 option" where
  "get_uptime_seconds cpu_id cmos = map_option of_int (get_time cmos)"

definition clock :: "(u8 \<Rightarrow> u8) \<Rightarrow> int option" where
  "clock cmos = map_option (\<lambda>u. sint (u * 1000000)) (get_uptime_seconds 0 cmos)"

section \<open>Broken-down time\<close>

record tm =
  tm_sec :: int
  tm_min :: int
  tm_hour :: int
  tm_mday :: int
  tm_mon :: int
  tm_year :: int
  tm_wday :: int
  tm_yday :: int
  tm_isdst :: int

function gm_years :: "int \<Rightarrow> int \<Rightarrow> (int \<times> int) option" where
  "gm_years secs year =
     (let days_in_year = (if is_leap year then 366 else 365)
      in if secs \<ge> days_in_year
         then if int_ok (year + 1) then gm_years (secs - days_in_year) (year + 1) else None
         else Some (secs, year))"
  by pat_completeness auto
termination
  by (relation "measure (\<lambda>(s, y). nat s)") (auto split: if_splits)

function gm_months :: "int \<Rightarrow> nat \<Rightarrow> int \<Rightarrow> (int \<times> nat) option" where
  "gm_months secs month year =
     (if month < length days_in_month
      then let days = days_in_month ! month + (if month = 1 \<and> is_leap year then 1 else 0)
           in if secs \<ge> days then gm_months (secs - days) (month + 1) year else Some (secs, month)
      else None)"
  by pat_completeness auto
termination
  by (relation "measure (\<lambda>(s, m, y). 12 - m)") (auto simp: days_in_month_def)

declare gm_years.simps [simp del] gm_months.simps [simp del]

definition gmtime :: "int \<Rightarrow> tm option" where
  "gmtime t = do {
     let secs = t;
     let sec = secs smod 60; let secs = secs sdiv 60;
     let mn = secs smod 60; let secs = secs sdiv 60;
     let hour = secs smod 24; let secs = secs sdiv 24;
     (secs, year) \<leftarrow> gm_years secs 1970;
     let yday = secs;
     (secs, month) \<leftarrow> gm_months secs 0 year;
     Some \<lparr>tm_sec = sec, tm_min = mn, tm_hour = hour, tm_mday = secs + 1, tm_mon = int month, tm_year = year - 1900,
       tm_wday = (4 + t sdiv 86400) smod 7, tm_yday = yday, tm_isdst = 0\<rparr> }"

definition LOCAL_TZ_OFFSET :: int where "LOCAL_TZ_OFFSET = 19800"

definition localtime :: "int \<Rightarrow> tm option" where
  "localtime t = (if width_ok 64 (t + LOCAL_TZ_OFFSET) then gmtime (t + LOCAL_TZ_OFFSET) else None)"

definition wday_name :: "string list" where
  "wday_name = [''Sun'', ''Mon'', ''Tue'', ''Wed'', ''Thu'', ''Fri'', ''Sat'']"

definition mon_name :: "string list" where
  "mon_name = [''Jan'', ''Feb'', ''Mar'', ''Apr'', ''May'', ''Jun'', ''Jul'', ''Aug'', ''Sep'', ''Oct'', ''Nov'', ''Dec'']"

text \<open>\<open>ctime\<close>: \<open>buf\<close> is the static buffer, \<open>wday_at\<close> and \<open>mon_at\<close> are the addresses of the names.\<close>

definition ctime_format :: bytes where
  "ctime_format = map of_char ''%s %s %d %d:%d:%d %d'' @ [10, 0]"

definition tm_int :: "int \<Rightarrow> 'd varg" where "tm_int i = AInt i"

definition ctime_args :: "(nat \<Rightarrow> ptr) \<Rightarrow> (nat \<Rightarrow> ptr) \<Rightarrow> tm \<Rightarrow> 'd varg list" where
  "ctime_args wday_at mon_at tm = [AStr (Some (wday_at (nat (tm_wday tm)))), AStr (Some (mon_at (nat (tm_mon tm)))),
     tm_int (tm_mday tm), tm_int (tm_hour tm), tm_int (tm_min tm), tm_int (tm_sec tm), tm_int (1900 + tm_year tm)]"

definition ctime :: "ptr \<Rightarrow> (nat \<Rightarrow> ptr) \<Rightarrow> (nat \<Rightarrow> ptr) \<Rightarrow> int \<Rightarrow> cmem \<Rightarrow> cmem option" where
  "ctime buf wday_at mon_at t m = do {
     tm \<leftarrow> localtime t;
     if 0 \<le> tm_wday tm \<and> tm_wday tm < 7 \<and> 0 \<le> tm_mon tm \<and> tm_mon tm < 12
     then snprintf buf 26 ctime_format (ctime_args wday_at mon_at tm :: unit varg list) m
     else None }"

text \<open>
  \<open>strftime\<close>. A number is formatted by \<open>snprintf\<close> into a local buffer of 32 bytes; \<open>piece\<close> is the replacement of one conversion.
\<close>

definition local_text :: "string \<Rightarrow> int list \<Rightarrow> bytes option" where
  "local_text fmt is = do {
     m \<leftarrow> snprintf (0, 0) 32 (map of_char fmt @ [0]) (map tm_int is :: unit varg list) [0 \<mapsto> replicate 32 0];
     str_text (0, 0) m }"

definition piece :: "u8 \<Rightarrow> tm \<Rightarrow> bytes option" where
  "piece c tm =
     (if c = of_char (CHR ''Y'') then local_text ''%d'' [1900 + tm_year tm]
      else if c = of_char (CHR ''m'') then local_text ''%d'' [tm_mon tm + 1]
      else if c = of_char (CHR ''d'') then local_text ''%d'' [tm_mday tm]
      else if c = of_char (CHR ''H'') then local_text ''%d'' [tm_hour tm]
      else if c = of_char (CHR ''M'') then local_text ''%d'' [tm_min tm]
      else if c = of_char (CHR ''S'') then local_text ''%d'' [tm_sec tm]
      else if c = of_char (CHR ''a'') then (if 0 \<le> tm_wday tm smod 7 then Some (map of_char (wday_name ! nat (tm_wday tm smod 7))) else None)
      else if c = of_char (CHR ''b'') then (if 0 \<le> tm_mon tm smod 12 then Some (map of_char (mon_name ! nat (tm_mon tm smod 12))) else None)
      else if c = of_char (CHR ''F'') then local_text ''%d-%d-%d'' [1900 + tm_year tm, tm_mon tm + 1, tm_mday tm]
      else if c = of_char (CHR ''T'') then local_text ''%d:%d:%d'' [tm_hour tm, tm_min tm, tm_sec tm]
      else if c = 37 then Some [37]
      else Some (if c = 0 then [37] else [37, c]))"

function strftime_loop :: "bytes \<Rightarrow> nat \<Rightarrow> ptr \<Rightarrow> tm \<Rightarrow> cmem \<Rightarrow> (ptr \<times> cmem) option" where
  "strftime_loop fmt remaining out tm m =
     (case fmt of [] \<Rightarrow> None
      | c # cs \<Rightarrow>
        if c = 0 \<or> remaining \<le> 1 then Some (out, m)
        else if c = 37 then (case cs of [] \<Rightarrow> None
          | d # ds \<Rightarrow> do {
              t \<leftarrow> piece d tm;
              if length t \<ge> remaining then Some (out, m)
              else do { (out, m) \<leftarrow> sputs t out m; strftime_loop ds (remaining - length t) out tm m } })
        else do { (out, m) \<leftarrow> sput c out m; strftime_loop cs (remaining - 1) out tm m })"
  by pat_completeness auto
termination
  by (relation "measure (\<lambda>(fmt, _). length fmt)") auto

declare strftime_loop.simps [simp del]

definition strftime :: "ptr \<Rightarrow> nat \<Rightarrow> bytes \<Rightarrow> tm \<Rightarrow> cmem \<Rightarrow> (nat \<times> cmem) option" where
  "strftime s mx fmt tm m = do {
     (out, m) \<leftarrow> strftime_loop fmt mx s tm m;
     m \<leftarrow> st m out 0;
     Some (snd out - snd s, m) }"

section \<open>The calendar\<close>

definition year_len :: "int \<Rightarrow> int" where "year_len y = (if is_leap y then 366 else 365)"

definition month_len :: "int \<Rightarrow> nat \<Rightarrow> int" where
  "month_len y i = days_in_month ! i + (if i = 1 \<and> is_leap y then 1 else 0)"

definition day_number :: "int \<Rightarrow> nat \<Rightarrow> int \<Rightarrow> int" where
  "day_number y i d = (\<Sum>k \<in> {1970..<y}. year_len k) + (\<Sum>k < i. month_len y k) + d - 1"

definition epoch :: "int \<Rightarrow> nat \<Rightarrow> int \<Rightarrow> int \<Rightarrow> int \<Rightarrow> int \<Rightarrow> int" where
  "epoch y i d h mi s = ((day_number y i d * 24 + h) * 60 + mi) * 60 + s"

definition valid_time :: "int \<Rightarrow> nat \<Rightarrow> int \<Rightarrow> int \<Rightarrow> int \<Rightarrow> int \<Rightarrow> bool" where
  "valid_time y i d h mi s \<longleftrightarrow> 1970 \<le> y \<and> y < 2 ^ 31 \<and> i < 12 \<and> 1 \<le> d \<and> d \<le> month_len y i
     \<and> 0 \<le> h \<and> h < 24 \<and> 0 \<le> mi \<and> mi < 60 \<and> 0 \<le> s \<and> s < 60"

lemma sdiv_nonneg: "0 \<le> a \<Longrightarrow> 0 < b \<Longrightarrow> a sdiv b = a div (b :: int)"
  by (auto simp: signed_divide_int_def sgn_if)

lemma smod_nonneg: "0 \<le> a \<Longrightarrow> 0 < b \<Longrightarrow> a smod b = a mod (b :: int)"
  by (auto simp: signed_modulo_int_def sgn_if)

lemma is_leap_mod: "0 \<le> y \<Longrightarrow> is_leap y \<longleftrightarrow> y mod 4 = 0 \<and> (y mod 100 \<noteq> 0 \<or> y mod 400 = 0)"
  by (simp add: is_leap_def smod_nonneg)

lemma is_leap_2000: "0 \<le> y \<Longrightarrow> is_leap (y + 2000) = is_leap y"
  using mod_mult_self1 [of y 500 4] mod_mult_self1 [of y 20 100] mod_mult_self1 [of y 5 400] by (simp add: is_leap_mod)

lemma year_len_pos: "365 \<le> year_len y" "year_len y \<le> 366" by (simp_all add: year_len_def)

lemma sum_int_head: "a < b \<Longrightarrow> (\<Sum>k \<in> {a..<b}. f k) = f a + (\<Sum>k \<in> {a + 1..<b}. f k)" for a b :: int
proof -
  assume "a < b"
  then have "{a..<b} = insert a {a + 1..<b}" by auto
  then show ?thesis by simp
qed

lemma years_loop_sum: "y \<le> stop \<Longrightarrow> years_loop y stop t = t + 86400 * (\<Sum>k \<in> {y..<stop}. year_len k)"
proof (induction y stop t rule: years_loop.induct)
  case (1 y stop t)
  show ?case
  proof (cases "y < stop")
    case True
    then show ?thesis using 1 by (subst years_loop.simps) (simp add: sum_int_head year_len_def algebra_simps)
  qed (use 1 in \<open>subst years_loop.simps, simp\<close>)
qed

lemma months_loop_sum:
  "1 \<le> m \<Longrightarrow> m \<le> stop \<Longrightarrow> stop \<le> 12 \<Longrightarrow> 0 \<le> y \<Longrightarrow>
   months_loop m stop y t = Some (t + 86400 * (\<Sum>k \<in> {m - 1..<stop - 1}. month_len (y + 2000) k))"
proof (induction m stop y t rule: months_loop.induct)
  case (1 m stop y t)
  show ?case
  proof (cases "m < stop")
    case True
    have "{m - 1..<stop - 1} = insert (m - 1) {m..<stop - 1}" using True 1(2) by auto
    then have "(\<Sum>k \<in> {m - 1..<stop - 1}. month_len (y + 2000) k) = month_len (y + 2000) (m - 1) + (\<Sum>k \<in> {m..<stop - 1}. month_len (y + 2000) k)"
      using 1(2) by simp
    moreover have "86400 * month_len (y + 2000) (m - 1) = days_in_month ! (m - 1) * 24 * 3600 + (if m = 2 \<and> is_leap y then 24 * 3600 else 0)"
      using 1(2,5) by (auto simp: month_len_def is_leap_2000 algebra_simps)
    moreover have "m - 1 < length days_in_month" using True 1(4) by (simp add: days_in_month_def)
    ultimately show ?thesis using True 1 by (subst months_loop.simps) (simp add: algebra_simps)
  qed (use 1 in \<open>subst months_loop.simps, simp\<close>)
qed

lemma gm_years_ok:
  "0 \<le> r \<Longrightarrow> r < year_len y \<Longrightarrow> int_ok y \<Longrightarrow> y0 \<le> y \<Longrightarrow> - (2 ^ 31) \<le> y0 \<Longrightarrow> gm_years ((\<Sum>k \<in> {y0..<y}. year_len k) + r) y0 = Some (r, y)"
proof (induction "nat (y - y0)" arbitrary: y0)
  case 0
  then show ?case by (subst gm_years.simps) (simp add: year_len_def Let_def)
next
  case (Suc n)
  then have lt: "y0 < y" by simp
  have "0 \<le> (\<Sum>k \<in> {y0 + 1..<y}. year_len k)" by (rule sum_nonneg) (simp add: year_len_def)
  then have "year_len y0 \<le> (\<Sum>k \<in> {y0..<y}. year_len k) + r" using Suc.prems(1) lt by (simp add: sum_int_head)
  moreover have "gm_years ((\<Sum>k \<in> {y0 + 1..<y}. year_len k) + r) (y0 + 1) = Some (r, y)"
    using Suc lt by (intro Suc.hyps(1)) auto
  moreover have "int_ok (y0 + 1)" using Suc.prems lt by (simp add: int_ok_def)
  ultimately show ?case using lt by (subst gm_years.simps) (simp add: Let_def sum_int_head year_len_def)
qed

lemma month_len_bounds: "i < 12 \<Longrightarrow> 28 \<le> month_len y i \<and> month_len y i \<le> 31"
  by (auto simp: month_len_def days_in_month_def less_Suc_eq numeral_eq_Suc)

lemma month_len_pos: "i < 12 \<Longrightarrow> 0 \<le> month_len y i"
  using month_len_bounds [of i y] by linarith

lemma length_days [simp]: "length days_in_month = 12"
  by (simp add: days_in_month_def)

lemma gm_months_step:
  "gm_months d i y = (if i < 12 then if month_len y i \<le> d then gm_months (d - month_len y i) (Suc i) y else Some (d, i) else None)"
  by (subst gm_months.simps) (simp add: month_len_def Let_def)

lemma gm_months_ok:
  "j \<le> i \<Longrightarrow> i < 12 \<Longrightarrow> 0 \<le> r \<Longrightarrow> r < month_len y i \<Longrightarrow> gm_months ((\<Sum>k \<in> {j..<i}. month_len y k) + r) j y = Some (r, i)"
proof (induction "i - j" arbitrary: j)
  case 0
  then show ?case by (subst gm_months_step) simp
next
  case (Suc n)
  then have lt: "j < i" by simp
  have s: "(\<Sum>k \<in> {j..<i}. month_len y k) = month_len y j + (\<Sum>k \<in> {Suc j..<i}. month_len y k)" using lt by (rule sum.atLeast_Suc_lessThan)
  have "0 \<le> (\<Sum>k \<in> {Suc j..<i}. month_len y k)" using Suc.prems(2) by (intro sum_nonneg month_len_pos) simp
  moreover have "gm_months ((\<Sum>k \<in> {Suc j..<i}. month_len y k) + r) (Suc j) y = Some (r, i)" using Suc by (intro Suc.hyps(1)) auto
  ultimately show ?case using Suc.prems lt by (subst gm_months_step) (simp add: s)
qed

lemma months_year: "(\<Sum>k < 12. month_len y k) = year_len y"
  by (simp add: month_len_def year_len_def days_in_month_def numeral_eq_Suc)

lemma day_of_year_less:
  assumes "i < 12" "r < month_len y i"
  shows "(\<Sum>k < i. month_len y k) + r < year_len y"
proof -
  have "(\<Sum>k < 12. month_len y k) = (\<Sum>k < i. month_len y k) + (\<Sum>k \<in> {i..<12}. month_len y k)"
    using assms(1) by (metis less_imp_le lessThan_atLeast0 sum.atLeastLessThan_concat zero_le)
  moreover have "(\<Sum>k \<in> {i..<12}. month_len y k) = month_len y i + (\<Sum>k \<in> {Suc i..<12}. month_len y k)"
    using assms(1) by (rule sum.atLeast_Suc_lessThan)
  moreover have "0 \<le> (\<Sum>k \<in> {Suc i..<12}. month_len y k)" by (intro sum_nonneg month_len_pos) simp
  ultimately show ?thesis using assms(2) months_year [of y] by linarith
qed

lemma months_before_nonneg: "i < 12 \<Longrightarrow> 0 \<le> (\<Sum>k < i. month_len y k)"
  by (intro sum_nonneg month_len_pos) simp

lemma years_before_nonneg: "0 \<le> (\<Sum>k \<in> {a..<b}. year_len k)"
  by (rule sum_nonneg) (simp add: year_len_def)

text \<open>The fields that \<open>gmtime\<close> computes for a time.\<close>

definition broken_down :: "int \<Rightarrow> nat \<Rightarrow> int \<Rightarrow> int \<Rightarrow> int \<Rightarrow> int \<Rightarrow> tm" where
  "broken_down y i d h mi s = \<lparr>tm_sec = s, tm_min = mi, tm_hour = h, tm_mday = d, tm_mon = int i, tm_year = y - 1900,
     tm_wday = (4 + day_number y i d) mod 7, tm_yday = (\<Sum>k < i. month_len y k) + d - 1, tm_isdst = 0\<rparr>"

lemma clock_digits:
  assumes "0 \<le> D" "0 \<le> h" "h < 24" "0 \<le> mi" "mi < 60" "0 \<le> s" "s < (60 :: int)"
  shows "((D * 24 + h) * 60 + mi) * 60 + s \<ge> 0" "(((D * 24 + h) * 60 + mi) * 60 + s) mod 60 = s"
    "(((D * 24 + h) * 60 + mi) * 60 + s) div 60 = (D * 24 + h) * 60 + mi" "((D * 24 + h) * 60 + mi) mod 60 = mi"
    "((D * 24 + h) * 60 + mi) div 60 = D * 24 + h" "(D * 24 + h) mod 24 = h" "(D * 24 + h) div 24 = D"
    "(((D * 24 + h) * 60 + mi) * 60 + s) div 86400 = D"
proof -
  show d: "(((D * 24 + h) * 60 + mi) * 60 + s) div 60 = (D * 24 + h) * 60 + mi" "((D * 24 + h) * 60 + mi) div 60 = D * 24 + h"
    "(D * 24 + h) div 24 = D" using assms by simp_all
  have "x div 86400 = x div 60 div 60 div 24" for x :: int by (simp add: zdiv_zmult2_eq [symmetric])
  then show "(((D * 24 + h) * 60 + mi) * 60 + s) div 86400 = D" by (simp only: d)
  have "(x * 60 + r) mod 60 = r" if "0 \<le> r" "r < 60" for x r :: int using that by simp
  then show "(((D * 24 + h) * 60 + mi) * 60 + s) mod 60 = s" "((D * 24 + h) * 60 + mi) mod 60 = mi" using assms by blast+
qed (use assms in simp_all)

lemma gmtime_epoch:
  assumes v: "valid_time y i d h mi s"
  shows "gmtime (epoch y i d h mi s) = Some (broken_down y i d h mi s)"
proof -
  note v' = v [unfolded valid_time_def]
  let ?D = "day_number y i d" and ?r = "(\<Sum>k < i. month_len y k) + (d - 1)"
  have D: "?D = (\<Sum>k \<in> {1970..<y}. year_len k) + ?r" by (simp add: day_number_def)
  have r: "0 \<le> ?r" "?r < year_len y" using v' months_before_nonneg [of i y] day_of_year_less [of i "d - 1" y] by auto
  then have "0 \<le> ?D" using years_before_nonneg [of 1970 y] D by simp
  have hms: "0 \<le> h" "h < 24" "0 \<le> mi" "mi < 60" "0 \<le> s" "s < 60" using v' by auto
  define A B T where "A = (?D * 24 + h) * 60 + mi" and "B = ?D * 24 + h" and "T = epoch y i d h mi s"
  have n: "0 \<le> T" "0 \<le> A" "0 \<le> B" using \<open>0 \<le> ?D\<close> v' by (simp_all add: A_def B_def T_def epoch_def)
  have t: "T mod 60 = s" "T div 60 = A" "A mod 60 = mi" "A div 60 = B" "B mod 24 = h" "B div 24 = ?D" "T div 86400 = ?D"
    unfolding A_def B_def T_def epoch_def by (rule clock_digits [OF \<open>0 \<le> ?D\<close> hms])+
  have m: "(4 + ?D) smod 7 = (4 + ?D) mod 7" using \<open>0 \<le> ?D\<close> by (simp add: smod_nonneg)
  have "gm_years ?D 1970 = Some (?r, y)" unfolding D using v' r by (intro gm_years_ok) (auto simp: int_ok_def)
  moreover have "gm_months ?r 0 y = Some (d - 1, i)" using v' gm_months_ok [of 0 i "d - 1" y] by (simp add: lessThan_atLeast0)
  ultimately have "gmtime T = Some \<lparr>tm_sec = s, tm_min = mi, tm_hour = h, tm_mday = d - 1 + 1, tm_mon = int i, tm_year = y - 1900,
      tm_wday = (4 + ?D) mod 7, tm_yday = ?r, tm_isdst = 0\<rparr>"
    unfolding gmtime_def Let_def using n by (simp only: sdiv_nonneg smod_nonneg t zero_less_numeral m bind.simps prod.case)
  then show ?thesis unfolding T_def broken_down_def by simp
qed

text \<open>Every non-negative time below \<open>2 ^ 47\<close> seconds is the time of a date.\<close>

lemma year_exists: "0 \<le> n \<Longrightarrow> \<exists>y r. y0 \<le> y \<and> y \<le> y0 + n \<and> n = (\<Sum>k \<in> {y0..<y}. year_len k) + r \<and> 0 \<le> r \<and> r < year_len y"
proof (induction "nat n" arbitrary: n y0 rule: less_induct)
  case less
  show ?case
  proof (cases "n < year_len y0")
    case True
    then show ?thesis using less.prems by (intro exI [of _ y0] exI [of _ n]) simp
  next
    case False
    have "nat (n - year_len y0) < nat n" "0 \<le> n - year_len y0" using False year_len_pos [of y0] by simp_all
    then obtain y r where y: "y0 + 1 \<le> y" "y \<le> y0 + 1 + (n - year_len y0)" "n - year_len y0 = (\<Sum>k \<in> {y0 + 1..<y}. year_len k) + r" "0 \<le> r" "r < year_len y"
      using less.hyps [of "n - year_len y0" "y0 + 1"] by blast
    then show ?thesis using year_len_pos [of y0] by (intro exI [of _ y] exI [of _ r]) (simp add: sum_int_head)
  qed
qed

lemma month_exists:
  assumes "0 \<le> r" "r < year_len y"
  shows "\<exists>i d. i < 12 \<and> r = (\<Sum>k < i. month_len y k) + d \<and> 0 \<le> d \<and> d < month_len y i"
proof -
  have "n \<le> 12 \<Longrightarrow> r < (\<Sum>k < n. month_len y k) \<Longrightarrow> \<exists>i d. i < n \<and> r = (\<Sum>k < i. month_len y k) + d \<and> 0 \<le> d \<and> d < month_len y i" for n
  proof (induction n)
    case (Suc n)
    show ?case
    proof (cases "r < (\<Sum>k < n. month_len y k)")
      case True
      then show ?thesis using Suc less_SucI by (metis Suc_leD)
    next
      case False
      then show ?thesis using Suc.prems by (intro exI [of _ n] exI [of _ "r - (\<Sum>k < n. month_len y k)"]) simp
    qed
  qed (use assms(1) in simp)
  from this [of 12] show ?thesis using assms(2) months_year [of y] by simp
qed

lemma epoch_exists:
  assumes "0 \<le> t" "t < 2 ^ 47"
  shows "\<exists>y i d h mi s. valid_time y i d h mi s \<and> epoch y i d h mi s = t"
proof -
  let ?D = "t div 60 div 60 div 24"
  have D: "0 \<le> ?D" "?D < 2 ^ 31 - 1970" using assms by simp_all
  obtain y r where y: "1970 \<le> y" "y \<le> 1970 + ?D" "?D = (\<Sum>k \<in> {1970..<y}. year_len k) + r" "0 \<le> r" "r < year_len y"
    using year_exists [OF D(1), of 1970] by blast
  obtain i d where i: "i < 12" "r = (\<Sum>k < i. month_len y k) + d" "0 \<le> d" "d < month_len y i" using month_exists [OF y(4,5)] by blast
  have "valid_time y i (d + 1) (t div 60 div 60 mod 24) (t div 60 mod 60) (t mod 60)"
    using y(1,2) D(2) i by (simp add: valid_time_def)
  moreover have "epoch y i (d + 1) (t div 60 div 60 mod 24) (t div 60 mod 60) (t mod 60) = t"
  proof -
    have "day_number y i (d + 1) = ?D" using y(3) i(2) by (simp add: day_number_def)
    moreover have "?D * 24 + t div 60 div 60 mod 24 = t div 60 div 60" "t div 60 div 60 * 60 + t div 60 mod 60 = t div 60"
      "t div 60 * 60 + t mod 60 = t" by (rule div_mult_mod_eq)+
    ultimately show ?thesis unfolding epoch_def by (simp only:)
  qed
  ultimately show ?thesis by blast
qed

section \<open>Properties\<close>

text \<open>The calendar date that the clock chip shows.\<close>

definition rtc_valid :: "rtc_time \<Rightarrow> bool" where
  "rtc_valid r \<longleftrightarrow> 1 \<le> unat (rt_months r) \<and> valid_time (uint (rt_years r) + 2000) (unat (rt_months r) - 1) (uint (rt_days r))
     (uint (rt_hours r)) (uint (rt_minutes r)) (uint (rt_seconds r))"

lemma rtc_to_time_t_epoch:
  assumes "rtc_valid r"
  shows "rtc_to_time_t (Some r) = Some (epoch (uint (rt_years r) + 2000) (unat (rt_months r) - 1) (uint (rt_days r))
     (uint (rt_hours r)) (uint (rt_minutes r)) (uint (rt_seconds r)))"
proof -
  have v: "1 \<le> unat (rt_months r)" "unat (rt_months r) \<le> 12" using assms by (auto simp: rtc_valid_def valid_time_def)
  show ?thesis
    using years_loop_sum [of 1970 "uint (rt_years r) + 2000" 0] months_loop_sum [OF order_refl v, of "uint (rt_years r)"]
    by (simp add: rtc_to_time_t_def Let_def epoch_def day_number_def lessThan_atLeast0 algebra_simps)
qed

text \<open>
  C24. Time conversions are inverse to each other: every date the clock chip can show is converted to seconds since 1970 and
  back by \<open>gmtime\<close> without loss, with the right weekday and day of the year, and every time from 1970 on below
  \<open>2 ^ 47\<close> seconds is broken down into the fields of a valid date whose seconds since 1970 it is.
\<close>

theorem gmtime_inverts_rtc_to_time_t:
  "(\<forall>r. rtc_valid r \<longrightarrow> (\<exists>t. rtc_to_time_t (Some r) = Some t
      \<and> gmtime t = Some (broken_down (uint (rt_years r) + 2000) (unat (rt_months r) - 1) (uint (rt_days r))
          (uint (rt_hours r)) (uint (rt_minutes r)) (uint (rt_seconds r)))))
   \<and> (\<forall>t. 0 \<le> t \<and> t < 2 ^ 47 \<longrightarrow> (\<exists>y i d h mi s. valid_time y i d h mi s \<and> epoch y i d h mi s = t
      \<and> gmtime t = Some (broken_down y i d h mi s)))"
proof (intro conjI allI impI)
  fix r assume r: "rtc_valid r"
  show "\<exists>t. rtc_to_time_t (Some r) = Some t
      \<and> gmtime t = Some (broken_down (uint (rt_years r) + 2000) (unat (rt_months r) - 1) (uint (rt_days r))
          (uint (rt_hours r)) (uint (rt_minutes r)) (uint (rt_seconds r)))"
    unfolding rtc_to_time_t_epoch [OF r] using gmtime_epoch r by (auto simp: rtc_valid_def)
next
  fix t :: int
  assume "0 \<le> t \<and> t < 2 ^ 47"
  then show "\<exists>y i d h mi s. valid_time y i d h mi s \<and> epoch y i d h mi s = t \<and> gmtime t = Some (broken_down y i d h mi s)"
    using epoch_exists [of t] gmtime_epoch by blast
qed

text \<open>29 February 2024, 23:59:58.\<close>

definition sample_rtc :: rtc_time where
  "sample_rtc = \<lparr>rt_seconds = 58, rt_minutes = 59, rt_hours = 23, rt_days = 29, rt_months = 2, rt_years = 24\<rparr>"

theorem gmtime_inverts_rtc_to_time_t_witness:
  "(\<exists>t. rtc_to_time_t (Some sample_rtc) = Some t \<and> gmtime t = Some (broken_down 2024 1 29 23 59 58))
   \<and> (\<exists>y i d h mi s. valid_time y i d h mi s \<and> epoch y i d h mi s = 1709251198 \<and> gmtime 1709251198 = Some (broken_down y i d h mi s))"
proof -
  have "rtc_valid sample_rtc" by (simp add: rtc_valid_def sample_rtc_def valid_time_def month_len_def days_in_month_def is_leap_mod)
  then show ?thesis using gmtime_inverts_rtc_to_time_t [THEN conjunct1, THEN spec, of sample_rtc]
      gmtime_inverts_rtc_to_time_t [THEN conjunct2, THEN spec, of 1709251198]
    by (simp add: sample_rtc_def)
qed

end
