(* ===== verification/Ahci.thy ===== *)
theory Ahci
  imports Paging
begin

text \<open>
  The AHCI host controller driver: device detection, the command engine, the rebasing of a port and the
  execution of one ATA command (kernel/src/driver/disk/ahci/ahci.c).

  A port is the record of its registers. The physical memory is a function from addresses to bytes: the command
  list, the command tables and the data buffers lie in it, at the addresses the driver computes, with the layout of
  the packed structures of ahci.h. The CPU reaches it through the direct map, so an access through
  \<open>phys_to_vir pa\<close> is an access at \<open>pa\<close>.

  The controller and the drive behind it are the parameter \<open>hw\<close>: \<open>hw k\<close> is what the hardware has done to the
  registers and the memory when the driver polls a volatile register for the \<open>k\<close>-th time. The busy loops of the
  driver are loops over these polls; the ones without a bound are partial functions.
\<close>

section \<open>Physical memory\<close>

type_synonym pmem = "u64 \<Rightarrow> u8"

definition mput :: "u64 \<Rightarrow> bytes \<Rightarrow> pmem \<Rightarrow> pmem" where
  "mput a bs m = (\<lambda>x. if unat (x - a) < length bs then bs ! unat (x - a) else m x)"

definition mget :: "pmem \<Rightarrow> u64 \<Rightarrow> nat \<Rightarrow> bytes" where
  "mget m a n = map (\<lambda>i. m (a + of_nat i)) [0..<n]"

definition mget32 :: "pmem \<Rightarrow> u64 \<Rightarrow> u32" where "mget32 m a = of_le (mget m a 4)"

text \<open>\<open>phys_to_vir\<close> and \<open>vir_to_phys\<close> for a given direct-map offset.\<close>

definition hhdm_phys :: "u64 \<Rightarrow> u64 \<Rightarrow> u64" where
  "hhdm_phys hhdm va = (if va = 0 then 0 else if va \<le> hhdm then 0 else va - hhdm)"

lemma hhdm_phys_is_vir_to_phys: "vir_to_phys va s = hhdm_phys (HHDM_OFFSET s) va"
  by (simp add: vir_to_phys_def hhdm_phys_def)

section \<open>Ports\<close>

record HBA_PORT =
  p_clb :: u32
  p_clbu :: u32
  p_fb :: u32
  p_fbu :: u32
  p_is :: u32
  p_cmd :: u32
  p_tfd :: u32
  p_sig :: u32
  p_ssts :: u32
  p_sact :: u32
  p_ci :: u32

type_synonym hw = "nat \<Rightarrow> HBA_PORT \<times> pmem \<Rightarrow> HBA_PORT \<times> pmem"

record ahci =
  port :: HBA_PORT
  pm :: pmem
  polls :: nat

definition poll :: "hw \<Rightarrow> ahci \<Rightarrow> ahci" where
  "poll hw st = (let (p, m) = hw (polls st) (port st, pm st)
     in st\<lparr>port := p, pm := m, polls := polls st + 1\<rparr>)"

datatype AHCI_DEVICE_TYPE = AHCI_DEV_NULL | AHCI_DEV_SATA | AHCI_DEV_SEMB | AHCI_DEV_PM | AHCI_DEV_SATAPI

definition checkType :: "HBA_PORT option \<Rightarrow> AHCI_DEVICE_TYPE" where
  "checkType prt = (case prt of None \<Rightarrow> AHCI_DEV_NULL
   | Some p \<Rightarrow>
       let ssts = p_ssts p; ipm = drop_bit 8 ssts AND 0x0F; det = ssts AND 0x0F
       in if det \<noteq> 3 then AHCI_DEV_NULL
          else if ipm \<noteq> 1 then AHCI_DEV_NULL
          else if p_sig p = 0x00000101 then AHCI_DEV_SATA
          else if p_sig p = 0xEB140101 then AHCI_DEV_SATAPI
          else if p_sig p = 0xC33C0101 then AHCI_DEV_SEMB
          else if p_sig p = 0x96690101 then AHCI_DEV_PM
          else AHCI_DEV_NULL)"

text \<open>
  The lines \<open>probePort\<close> prints, as pairs of the name and the port: the cases of its \<open>switch\<close> have no \<open>break\<close>,
  so each falls through to all that follow it.
\<close>

definition probe_lines :: "AHCI_DEVICE_TYPE \<Rightarrow> nat \<Rightarrow> (string \<times> nat) list" where
  "probe_lines t i = map (\<lambda>n. (n, i)) (drop (case t of AHCI_DEV_SATA \<Rightarrow> 0 | AHCI_DEV_SATAPI \<Rightarrow> 1
     | AHCI_DEV_SEMB \<Rightarrow> 2 | AHCI_DEV_PM \<Rightarrow> 3 | AHCI_DEV_NULL \<Rightarrow> 4) [''SATA'', ''SATAPI'', ''SEMB'', ''PM'', ''No''])"

fun probe_loop :: "nat \<Rightarrow> nat \<Rightarrow> u32 \<Rightarrow> (nat \<Rightarrow> HBA_PORT) \<Rightarrow> (string \<times> nat) list" where
  "probe_loop 0 i pi ports = []"
| "probe_loop (Suc n) i pi ports =
     (if pi AND 1 \<noteq> 0 then probe_lines (checkType (Some (ports i))) i else []) @ probe_loop n (i + 1) (drop_bit 1 pi) ports"

definition probePort :: "u32 \<Rightarrow> (nat \<Rightarrow> HBA_PORT) \<Rightarrow> (string \<times> nat) list" where
  "probePort pi ports = probe_loop 32 0 pi ports"

section \<open>The command engine\<close>

definition HBA_PxCMD_ST :: u32 where "HBA_PxCMD_ST = 0x0001"
definition HBA_PxCMD_FRE :: u32 where "HBA_PxCMD_FRE = 0x0010"
definition HBA_PxCMD_FR :: u32 where "HBA_PxCMD_FR = 0x4000"
definition HBA_PxCMD_CR :: u32 where "HBA_PxCMD_CR = 0x8000"
definition HBA_PxIS_TFES :: u32 where "HBA_PxIS_TFES = 0x40000000"

definition set_cmd :: "u32 \<Rightarrow> ahci \<Rightarrow> ahci" where
  "set_cmd v st = st\<lparr>port := (port st)\<lparr>p_cmd := v\<rparr>\<rparr>"

partial_function (option) wait_cr :: "hw \<Rightarrow> ahci \<Rightarrow> ahci option" where
  "wait_cr hw st = (let st = poll hw st
     in if p_cmd (port st) AND HBA_PxCMD_CR \<noteq> 0 then wait_cr hw st else Some st)"

definition startCMD :: "hw \<Rightarrow> ahci \<Rightarrow> ahci option" where
  "startCMD hw st = do {
     st \<leftarrow> wait_cr hw st;
     let st = set_cmd (p_cmd (port st) OR HBA_PxCMD_FRE) st;
     Some (set_cmd (p_cmd (port st) OR HBA_PxCMD_ST) st) }"

partial_function (option) wait_stopped :: "hw \<Rightarrow> ahci \<Rightarrow> ahci option" where
  "wait_stopped hw st = (let st = poll hw st
     in if p_cmd (port st) AND HBA_PxCMD_FR \<noteq> 0 then wait_stopped hw st
        else let st = poll hw st
             in if p_cmd (port st) AND HBA_PxCMD_CR \<noteq> 0 then wait_stopped hw st else Some st)"

definition stopCMD :: "hw \<Rightarrow> ahci \<Rightarrow> ahci option" where
  "stopCMD hw st =
     (let st = set_cmd (p_cmd (port st) AND NOT HBA_PxCMD_FRE) st;
          st = set_cmd (p_cmd (port st) AND NOT HBA_PxCMD_ST) st
      in wait_stopped hw st)"

section \<open>Rebasing a port\<close>

text \<open>
  A command header has 32 bytes: flags and FIS length in the first, \<open>prdtl\<close> at 2, \<open>ctba\<close> at 8, \<open>ctbau\<close> at 12.
  \<open>kheap_alloc\<close> is the parameter \<open>base_virt\<close> (0 when it fails).
\<close>

definition hdr_addr :: "u64 \<Rightarrow> nat \<Rightarrow> u64" where "hdr_addr clb slot = clb + of_nat (32 * slot)"

fun rebase_loop :: "nat \<Rightarrow> nat \<Rightarrow> u64 \<Rightarrow> u64 \<Rightarrow> pmem \<Rightarrow> pmem" where
  "rebase_loop 0 i clb ctba_base m = m"
| "rebase_loop (Suc n) i clb ctba_base m =
     (let phys_ctba = ctba_base + of_nat (i * 0x100);
          m = mput (hdr_addr clb i + 8) (le32 (ucast phys_ctba)) m;
          m = mput (hdr_addr clb i + 12) (le32 (ucast (drop_bit 32 phys_ctba))) m;
          m = mput (hdr_addr clb i + 2) (le16 8) m;
          m = mput phys_ctba (replicate 0x100 0) m
      in rebase_loop n (i + 1) clb ctba_base m)"

definition portRebase :: "hw \<Rightarrow> u64 \<Rightarrow> u64 \<Rightarrow> ahci \<Rightarrow> ahci option" where
  "portRebase hw hhdm base_virt st = do {
     st \<leftarrow> stopCMD hw st;
     if base_virt = 0 then Some st
     else let base_phys = hhdm_phys hhdm base_virt in
       if base_phys = 0 then Some st
       else let clb = base_phys; fb = base_phys + 0x1000; ctba_base = base_phys + 0x2000;
              m = mput clb (replicate 0x400 0) (pm st);
              m = mput fb (replicate 0x100 0) m;
              m = mput ctba_base (replicate 0x2000 0) m;
              st = st\<lparr>port := (port st)\<lparr>p_clb := ucast clb, p_clbu := ucast (drop_bit 32 clb),
                                          p_fb := ucast fb, p_fbu := ucast (drop_bit 32 fb)\<rparr>,
                      pm := rebase_loop 32 0 clb ctba_base m\<rparr>
            in startCMD hw st }"

section \<open>One command\<close>

fun find_slot :: "nat \<Rightarrow> nat \<Rightarrow> u32 \<Rightarrow> int" where
  "find_slot 0 i slots = -1"
| "find_slot (Suc n) i slots = (if slots AND 1 = 0 then int i else find_slot n (i + 1) (drop_bit 1 slots))"

definition findCMDSlot :: "HBA_PORT \<Rightarrow> nat \<Rightarrow> int" where
  "findCMDSlot p cmd_slots = find_slot cmd_slots 0 (p_sact p OR p_ci p)"

definition MAX_PRDT_ENTRIES :: nat where "MAX_PRDT_ENTRIES = 256"

text \<open>
  The physical region table starts at offset 0x80 of the command table; an entry has 16 bytes: the address in two
  words, a reserved word, and a word with the byte count less one in its low 22 bits and the interrupt flag in bit
  31. The assignments to the bit fields keep the reserved bits between them.
\<close>

definition prdt_addr :: "u64 \<Rightarrow> nat \<Rightarrow> u64" where "prdt_addr cmd_tbl i = cmd_tbl + 0x80 + of_nat (16 * i)"

definition prdt_put :: "u64 \<Rightarrow> u64 \<Rightarrow> u32 \<Rightarrow> pmem \<Rightarrow> pmem" where
  "prdt_put a phys chunk m =
     (let m = mput a (le32 (ucast phys)) m;
          m = mput (a + 4) (le32 (ucast (drop_bit 32 phys))) m;
          dw3 = mget32 m (a + 12)
      in mput (a + 12) (le32 ((dw3 AND 0x7FC00000) OR ((chunk - 1) AND 0x3FFFFF) OR 0x80000000)) m)"

function prdt_loop :: "u64 \<Rightarrow> u64 \<Rightarrow> u64 \<Rightarrow> u32 \<Rightarrow> u32 \<Rightarrow> nat \<Rightarrow> pmem \<Rightarrow> nat option \<times> pmem" where
  "prdt_loop hhdm cmd_tbl virt total_bytes offset i m =
     (if total_bytes > 0
      then if i \<ge> MAX_PRDT_ENTRIES then (None, m)
           else let phys = hhdm_phys hhdm (virt + ucast offset);
                    page_offset = ucast (phys AND 0xFFF) :: u32;
                    chunk = (if total_bytes < 4096 - page_offset then total_bytes else 4096 - page_offset)
                in prdt_loop hhdm cmd_tbl virt (total_bytes - chunk) (offset + chunk) (i + 1)
                     (prdt_put (prdt_addr cmd_tbl i) phys chunk m)
      else (Some i, m))"
  by pat_completeness auto
termination
  by (relation "measure (\<lambda>(hhdm, ct, v, t, off, i, m). MAX_PRDT_ENTRIES - i)") auto

declare prdt_loop.simps [simp del]

text \<open>The 20-byte register FIS that carries the command to the drive.\<close>

definition cmd_fis :: "u8 \<Rightarrow> u32 \<Rightarrow> u32 \<Rightarrow> u32 \<Rightarrow> bytes" where
  "cmd_fis ty start_l start_h count =
     [0x27, 0x80, ty, 0,
      ucast start_l, ucast (drop_bit 8 start_l), ucast (drop_bit 16 start_l), 0x40,
      ucast (drop_bit 24 start_l), ucast start_h, ucast (drop_bit 8 start_h), 0,
      ucast (count AND 0xFF), ucast (drop_bit 8 count AND 0xFF), 0, 0,
      0, 0, 0, 0]"

function wait_ready :: "hw \<Rightarrow> nat \<Rightarrow> ahci \<Rightarrow> nat \<times> ahci" where
  "wait_ready hw spin st = (let st = poll hw st
     in if p_tfd (port st) AND 0x88 \<noteq> 0 \<and> spin < 1000000 then wait_ready hw (spin + 1) st else (spin, st))"
  by pat_completeness auto
termination
  by (relation "measure (\<lambda>(hw, spin, st). 1000000 - spin)") auto

declare wait_ready.simps [simp del]

text \<open>
  The completion loop \<open>while ((port->ci & (1 << slot)) && timeout--)\<close>: the answer is the value of \<open>timeout\<close> after
  the loop, or \<open>None\<close> when the loop is left by the return for a task file error. The decrement also happens when
  the counter was 0, so a loop that runs out leaves -1.
\<close>

fun wait_done :: "hw \<Rightarrow> nat \<Rightarrow> nat \<Rightarrow> ahci \<Rightarrow> int option \<times> ahci" where
  "wait_done hw slot timeout st = (let st = poll hw st
     in if \<not> bit (p_ci (port st)) slot then (Some (int timeout), st)
        else case timeout of 0 \<Rightarrow> (Some (-1), st)
          | Suc t \<Rightarrow> let st = poll hw st
              in if p_is (port st) AND HBA_PxIS_TFES \<noteq> 0 then (None, st) else wait_done hw slot t st)"

declare wait_done.simps [simp del]

text \<open>
  \<open>runCommand\<close>. Writing all ones to \<open>is\<close> clears it; the flags of the header are the bit fields of its first byte
  (\<open>cfl\<close> in the low five, \<open>w\<close> bit 6).
\<close>

definition issue_command :: "hw \<Rightarrow> nat \<Rightarrow> ahci \<Rightarrow> bool \<times> ahci" where
  "issue_command hw slot st =
     (case wait_ready hw 0 st of (spin, st) \<Rightarrow>
        if spin = 1000000 then (False, st)
        else let st = st\<lparr>port := (port st)\<lparr>p_ci := p_ci (port st) OR push_bit slot 1\<rparr>\<rparr>
             in case wait_done hw slot 1000000 st of
                  (None, st) \<Rightarrow> (False, st)
                | (Some timeout, st) \<Rightarrow>
                    if timeout = 0 then (False, st)
                    else let st = poll hw st
                         in (p_is (port st) AND HBA_PxIS_TFES = 0, st))"

definition port_clb :: "HBA_PORT \<Rightarrow> u64" where
  "port_clb p = push_bit 32 (ucast (p_clbu p)) OR ucast (p_clb p)"

definition hdr_ctba :: "pmem \<Rightarrow> u64 \<Rightarrow> u64" where
  "hdr_ctba m h = push_bit 32 (ucast (mget32 m (h + 12))) OR ucast (mget32 m (h + 8))"

definition runCommand :: "hw \<Rightarrow> u64 \<Rightarrow> u8 \<Rightarrow> bool \<Rightarrow> u32 \<Rightarrow> u32 \<Rightarrow> u32 \<Rightarrow> u64 \<Rightarrow> ahci \<Rightarrow> bool \<times> ahci" where
  "runCommand hw hhdm ty wr start_l start_h count phys_buf st =
     (let st = st\<lparr>port := (port st)\<lparr>p_is := 0\<rparr>\<rparr>;
          slot = findCMDSlot (port st) 32
      in if slot = -1 then (False, st)
         else let clb = port_clb (port st); h = hdr_addr clb (nat slot)
           in if clb + hhdm = 0 then (False, st)
              else let b0 = pm st h;
                  m = mput h [(b0 AND 0xA0) OR 5 OR (if wr then 0x40 else 0)] (pm st);
                  cmd_tbl = hdr_ctba m h
                in if cmd_tbl + hhdm = 0 then (False, st\<lparr>pm := m\<rparr>)
                   else let m = mput cmd_tbl (replicate 4096 0) m
                     in case prdt_loop hhdm cmd_tbl (phys_buf + hhdm) (push_bit 9 count) 0 0 m of
                          (None, m) \<Rightarrow> (False, st\<lparr>pm := m\<rparr>)
                        | (Some i, m) \<Rightarrow>
                            let m = mput (h + 2) (le16 (of_nat i)) m;
                                m = mput cmd_tbl (cmd_fis ty start_l start_h count) m
                            in issue_command hw (nat slot) (st\<lparr>pm := m\<rparr>))"

section \<open>Reading back what was written\<close>

definition mdisj :: "u64 \<Rightarrow> nat \<Rightarrow> u64 \<Rightarrow> nat \<Rightarrow> bool" where
  "mdisj a n b k \<longleftrightarrow> (\<forall>i<n. \<forall>j<k. a + of_nat i \<noteq> b + of_nat j)"

lemma length_mget [simp]: "length (mget m a n) = n" by (simp add: mget_def)

lemma unat_of_nat_u64: "i < 2 ^ 64 \<Longrightarrow> unat (of_nat i :: u64) = i"
  by (simp add: unat_of_nat take_bit_nat_eq_self)

lemma mput_at: "i < length bs \<Longrightarrow> length bs \<le> 2 ^ 64 \<Longrightarrow> mput a bs m (a + of_nat i) = bs ! i"
  by (simp add: mput_def unat_of_nat_u64)

lemma mput_outside: "(\<And>j. j < length bs \<Longrightarrow> x \<noteq> a + of_nat j) \<Longrightarrow> mput a bs m x = m x"
proof -
  assume a: "\<And>j. j < length bs \<Longrightarrow> x \<noteq> a + of_nat j"
  have "\<not> unat (x - a) < length bs"
  proof
    assume "unat (x - a) < length bs"
    from a [OF this] show False by simp
  qed
  then show ?thesis by (simp add: mput_def)
qed

lemma mput_other_offset:
  assumes "i < q \<or> q + length bs \<le> i" "i < 2 ^ 64" "q + length bs \<le> 2 ^ 64"
  shows "mput (a + of_nat q) bs m (a + of_nat i) = m (a + of_nat i)"
proof (rule mput_outside)
  fix j assume "j < length bs"
  then have "unat (of_nat i :: u64) \<noteq> unat (of_nat (q + j) :: u64)"
    using assms by (subst (1 2) unat_of_nat_u64) linarith+
  then have "(of_nat i :: u64) \<noteq> of_nat (q + j)" by metis
  then show "a + of_nat i \<noteq> a + of_nat q + of_nat j" by (simp add: add.assoc)
qed

lemma mget_mput_same: "length bs \<le> 2 ^ 64 \<Longrightarrow> n = length bs \<Longrightarrow> mget (mput a bs m) a n = bs"
  by (rule nth_equalityI) (simp_all add: mget_def mput_at)

lemma mget_mput_mdisj: "mdisj b n a (length bs) \<Longrightarrow> mget (mput a bs m) b n = mget m b n"
  unfolding mget_def by (intro map_cong) (auto simp: mdisj_def intro!: mput_outside)

lemma mdisj_sym: "mdisj a n b k \<Longrightarrow> mdisj b k a n"
  by (force simp: mdisj_def)

lemma mdisj_sub:
  assumes "mdisj a n b k" "o1 + n1 \<le> n" "o2 + k2 \<le> k"
  shows "mdisj (a + of_nat o1) n1 (b + of_nat o2) k2"
  unfolding mdisj_def
proof (intro allI impI)
  fix i j
  assume "i < n1" "j < k2"
  then have "o1 + i < n" "o2 + j < k" using assms by linarith+
  then have "a + of_nat (o1 + i) \<noteq> b + of_nat (o2 + j)" using assms(1) unfolding mdisj_def by blast
  then show "a + of_nat o1 + of_nat i \<noteq> b + of_nat o2 + of_nat j" by (simp add: add.assoc)
qed

lemma mdisj_offsets:
  assumes "o1 + n \<le> o2 \<or> o2 + k \<le> o1" "o1 + n \<le> 2 ^ 64" "o2 + k \<le> 2 ^ 64"
  shows "mdisj (b + of_nat o1) n (b + of_nat o2) k"
  unfolding mdisj_def
proof (intro allI impI)
  fix i j
  assume "i < n" "j < k"
  then have "unat (of_nat (o1 + i) :: u64) \<noteq> unat (of_nat (o2 + j) :: u64)"
    using assms by (subst (1 2) unat_of_nat_u64) linarith+
  then have "(of_nat (o1 + i) :: u64) \<noteq> of_nat (o2 + j)" by metis
  then show "b + of_nat o1 + of_nat i \<noteq> b + of_nat o2 + of_nat j" by (simp add: add.assoc)
qed

lemma mget_cong: "(\<And>i. i < n \<Longrightarrow> m (a + of_nat i) = m' (a + of_nat i)) \<Longrightarrow> mget m a n = mget m' a n"
  by (simp add: mget_def)

lemma mget32_at:
  assumes "\<And>i. i < k + 4 \<Longrightarrow> m (a + of_nat i) = m' (a + of_nat i)"
  shows "mget32 m (a + of_nat k) = mget32 m' (a + of_nat k)"
proof -
  have "m (a + of_nat k + of_nat i) = m' (a + of_nat k + of_nat i)" if "i < 4" for i
    using assms [of "k + i"] that by (simp add: add.assoc)
  then have "mget m (a + of_nat k) 4 = mget m' (a + of_nat k) 4" by (rule mget_cong)
  then show ?thesis by (simp only: mget32_def)
qed

lemma mget32_mput_same [simp]: "mget32 (mput a (le32 v) m) a = v"
  by (simp add: mget32_def mget_mput_same)

lemma mget32_mput_off:
  assumes "o1 + 4 \<le> o2 \<or> o2 + length bs \<le> o1" "o1 + 4 \<le> 2 ^ 64" "o2 + length bs \<le> 2 ^ 64"
  shows "mget32 (mput (a + of_nat o2) bs m) (a + of_nat o1) = mget32 m (a + of_nat o1)"
  using assms by (simp add: mget32_def mget_mput_mdisj mdisj_offsets)

section \<open>The physical region table\<close>

text \<open>A region as the controller reads it: its address and its length.\<close>

definition prdt_region :: "pmem \<Rightarrow> u64 \<Rightarrow> u64 \<times> nat" where
  "prdt_region m a = (push_bit 32 (ucast (mget32 m (a + 4))) OR ucast (mget32 m a),
                      unat (mget32 m (a + 12) AND 0x3FFFFF) + 1)"

lemma u64_halves: "push_bit 32 (ucast (ucast (drop_bit 32 x) :: u32)) OR ucast (ucast x :: u32) = (x :: u64)"
  by (rule bit_word_eqI) (auto simp: bit_simps)

lemma dbc_field:
  "((d AND 0x7FC00000) OR ((chunk - 1) AND 0x3FFFFF) OR 0x80000000) AND (0x3FFFFF :: u32) = (chunk - 1) AND 0x3FFFFF"
  by (simp add: bit.conj_disj_distrib2 and.assoc)

lemma prdt_put_fields:
  "prdt_region (prdt_put a phys chunk m) a = (phys, unat ((chunk - 1) AND 0x3FFFFF) + 1)"
proof -
  note off = mget32_mput_off [where a = a and ?o1.0 = 0 and ?o2.0 = 12] mget32_mput_off [where a = a and ?o1.0 = 4 and ?o2.0 = 12]
    mget32_mput_off [where a = a and ?o1.0 = 0 and ?o2.0 = 4]
  show ?thesis
    using off by (simp add: prdt_region_def prdt_put_def Let_def u64_halves dbc_field)
qed

lemma prdt_put_region:
  assumes "1 \<le> unat chunk" "unat chunk \<le> 4096"
  shows "prdt_region (prdt_put a phys chunk m) a = (phys, unat chunk)"
proof -
  have "(chunk - 1) AND 0x3FFFFF = take_bit 22 (chunk - 1)" by (simp add: take_bit_eq_mask mask_numeral)
  moreover have "unat (chunk - 1) = unat chunk - 1" using assms by (simp add: unat_minus_u32)
  ultimately show ?thesis using assms by (simp add: prdt_put_fields unsigned_take_bit_eq take_bit_nat_eq_self)
qed

lemma prdt_put_outside:
  assumes "\<And>j. j < 16 \<Longrightarrow> x \<noteq> a + of_nat j"
  shows "prdt_put a phys chunk m x = m x"
proof -
  have "mput (a + of_nat k) (le32 v) m x = m x" if "k \<le> 12" for k v and m :: pmem
  proof (rule mput_outside)
    fix j assume "j < length (le32 v)"
    then show "x \<noteq> a + of_nat k + of_nat j" using assms [of "k + j"] that by (simp add: add.assoc)
  qed
  from this [of 0] this [of 4] this [of 12] show ?thesis by (simp add: prdt_put_def Let_def)
qed

lemma prdt_region_cong:
  assumes "\<And>j. j < 16 \<Longrightarrow> m (a + of_nat j) = m' (a + of_nat j)"
  shows "prdt_region m a = prdt_region m' a"
  using mget32_at [of 0 m a m'] mget32_at [of 4 m a m'] mget32_at [of 12 m a m'] assms
  by (simp add: prdt_region_def)

text \<open>The pages a range of addresses spans, as regions that do not cross a page boundary.\<close>

function page_split :: "nat \<Rightarrow> nat \<Rightarrow> (nat \<times> nat) list" where
  "page_split p n = (if n = 0 then [] else
     let c = min n (4096 - p mod 4096) in (p, c) # page_split (p + c) (n - c))"
  by pat_completeness auto
termination
  by (relation "measure snd") (auto simp: min_def)

declare page_split.simps [simp del]

lemma page_split_addresses: "concat (map (\<lambda>(a, c). [a..<a + c]) (page_split p n)) = [p..<p + n]"
proof (induction p n rule: page_split.induct)
  case (1 p n)
  show ?case
  proof (cases "n = 0")
    case False
    define c where "c = min n (4096 - p mod 4096)"
    have "concat (map (\<lambda>(a, c). [a..<a + c]) (page_split p n)) = [p..<p + c] @ [p + c..<p + c + (n - c)]"
      using 1 [OF False c_def] False by (subst page_split.simps) (simp add: c_def Let_def)
    also have "\<dots> = [p..<p + n]"
      using upt_add_eq_append [of p "p + c" "n - c"] by (simp add: c_def)
    finally show ?thesis .
  qed (simp add: page_split.simps)
qed


lemma hhdm_phys_offset:
  assumes "n + unat hhdm < 2 ^ 64"
  shows "hhdm_phys hhdm (of_nat n + hhdm) = of_nat n"
proof -
  have n: "unat (of_nat n :: u64) = n" using assms by (intro unat_of_nat_u64) linarith
  have "unat (of_nat n + hhdm) = n + unat hhdm" using assms n by (simp add: unat_plus_u64)
  then have le: "of_nat n + hhdm \<le> hhdm \<longleftrightarrow> n = 0" by (simp add: word_le_nat_alt)
  have "hhdm = 0 \<Longrightarrow> of_nat n + hhdm = 0 \<Longrightarrow> (of_nat n :: u64) = 0" by simp
  then show ?thesis using le by (auto simp: hhdm_phys_def)
qed

lemma page_offset_unat:
  assumes "n < 2 ^ 64"
  shows "unat (ucast ((of_nat n :: u64) AND 0xFFF) :: u32) = n mod 4096"
proof -
  have "unat ((of_nat n :: u64) AND 0xFFF) = n mod 4096"
  proof -
    have "(of_nat n :: u64) AND 0xFFF = take_bit 12 (of_nat n)" by (simp add: take_bit_eq_mask mask_numeral)
    then show ?thesis
      using unat_of_nat_u64 [OF assms] by (simp add: unsigned_take_bit_eq) (simp add: take_bit_eq_mod)
  qed
  moreover have "n mod 4096 < 2 ^ 32" by (rule order_less_trans [of _ 4096]) simp_all
  ultimately show ?thesis by (simp add: unsigned_ucast_eq take_bit_nat_eq_self)
qed

lemma prdt_chunk_unat:
  assumes "p < 2 ^ 64" "po = ucast ((of_nat p :: u64) AND 0xFFF)"
  shows "unat (if (t :: u32) < 4096 - po then t else 4096 - po) = min (unat t) (4096 - p mod 4096)"
proof -
  have "unat po = p mod 4096" using assms page_offset_unat by simp
  moreover have "p mod 4096 \<le> 4096" by (rule less_imp_le) simp
  ultimately have "unat (4096 - po) = 4096 - p mod 4096" by (subst unat_minus_u32) simp_all
  then show ?thesis by (auto simp: word_less_nat_alt)
qed

lemma prdt_addr_mdisj:
  assumes "i < j" "j < 256" "k < 16"
  shows "prdt_addr ct i + of_nat k \<noteq> prdt_addr ct j + of_nat l \<or> l \<ge> 16"
proof (cases "l < 16")
  case True
  then have "mdisj (ct + 0x80 + of_nat (16 * i)) 16 (ct + 0x80 + of_nat (16 * j)) 16"
    using assms by (intro mdisj_offsets) auto
  then show ?thesis using True assms unfolding mdisj_def prdt_addr_def by blast
qed simp

definition in_prdt :: "u64 \<Rightarrow> nat \<Rightarrow> nat \<Rightarrow> u64 \<Rightarrow> bool" where
  "in_prdt ct i n x \<longleftrightarrow> (\<exists>j k. i \<le> j \<and> j < n \<and> k < 16 \<and> x = prdt_addr ct j + of_nat k)"

definition prdt_built :: "u64 \<Rightarrow> nat \<Rightarrow> (nat \<times> nat) list \<Rightarrow> pmem \<Rightarrow> pmem \<Rightarrow> bool" where
  "prdt_built ct i rs m m' \<longleftrightarrow>
     (\<forall>j<length rs. prdt_region m' (prdt_addr ct (i + j)) = (of_nat (fst (rs ! j)), snd (rs ! j))) \<and>
     (\<forall>x. \<not> in_prdt ct i (i + length rs) x \<longrightarrow> m' x = m x)"

lemma prdt_built_Cons:
  assumes "prdt_built ct (i + 1) rs (prdt_put (prdt_addr ct i) (of_nat a) c m) m'" "1 \<le> unat c" "unat c \<le> 4096"
    "i + 1 + length rs \<le> 256"
  shows "prdt_built ct i ((a, unat c) # rs) m m'"
proof -
  have "m' (prdt_addr ct i + of_nat k) = prdt_put (prdt_addr ct i) (of_nat a) c m (prdt_addr ct i + of_nat k)" if "k < 16" for k
  proof -
    have "\<not> in_prdt ct (i + 1) (i + 1 + length rs) (prdt_addr ct i + of_nat k)"
    proof
      assume "in_prdt ct (i + 1) (i + 1 + length rs) (prdt_addr ct i + of_nat k)"
      then obtain j l where "i + 1 \<le> j" "j < i + 1 + length rs" "l < 16" "prdt_addr ct i + of_nat k = prdt_addr ct j + of_nat l"
        unfolding in_prdt_def by blast
      then show False using prdt_addr_mdisj [of i j k ct l] assms(4) that by simp
    qed
    then show ?thesis using assms(1) unfolding prdt_built_def by blast
  qed
  then have "prdt_region m' (prdt_addr ct i) = prdt_region (prdt_put (prdt_addr ct i) (of_nat a) c m) (prdt_addr ct i)"
    by (rule prdt_region_cong)
  then have head: "prdt_region m' (prdt_addr ct i) = (of_nat a, unat c)" using assms by (simp add: prdt_put_region)
  have regs: "prdt_region m' (prdt_addr ct (i + j)) = (of_nat (fst (((a, unat c) # rs) ! j)), snd (((a, unat c) # rs) ! j))"
    if "j < length ((a, unat c) # rs)" for j
    using head assms(1) that unfolding prdt_built_def by (cases j) auto
  have frame: "m' x = m x" if "\<not> in_prdt ct i (i + length ((a, unat c) # rs)) x" for x
  proof -
    have "\<not> in_prdt ct (i + 1) (i + 1 + length rs) x" using that unfolding in_prdt_def by fastforce
    moreover have "x \<noteq> prdt_addr ct i + of_nat k" if "k < 16" for k
      using \<open>\<not> in_prdt ct i (i + length ((a, unat c) # rs)) x\<close> that unfolding in_prdt_def
      by (metis add_strict_increasing2 length_greater_0_conv less_add_same_cancel1 list.distinct(1) order_refl)
    ultimately show ?thesis using assms(1) prdt_put_outside unfolding prdt_built_def by metis
  qed
  show ?thesis unfolding prdt_built_def using regs frame by blast
qed

lemma prdt_loop_spec:
  assumes "p + unat off + unat tb + unat hhdm \<le> 2 ^ 64" "unat off + unat tb < 2 ^ 32" "i \<le> 256"
  shows "case prdt_loop hhdm ct (of_nat p + hhdm) tb off i m of
      (None, _) \<Rightarrow> 256 < i + length (page_split (p + unat off) (unat tb))
    | (Some n, m') \<Rightarrow> n \<le> 256 \<and> n = i + length (page_split (p + unat off) (unat tb)) \<and>
        prdt_built ct i (page_split (p + unat off) (unat tb)) m m'"
  using assms
proof (induction "256 - i" arbitrary: i off tb m rule: less_induct)
  case less
  show ?case
  proof (cases "tb > 0")
    case False
    then have "tb = 0" by (simp add: word_gt_0)
    then show ?thesis using less.prems
      by (subst prdt_loop.simps) (simp add: page_split.simps prdt_built_def)
  next
    case True
    then have t: "0 < unat tb" by (simp add: word_less_nat_alt)
    define a where "a = p + unat off"
    define c where "c = (if tb < 4096 - ucast ((of_nat a :: u64) AND 0xFFF) then tb else 4096 - ucast ((of_nat a :: u64) AND 0xFFF))"
    have a64: "a < 2 ^ 64" "a + unat hhdm < 2 ^ 64" using less.prems t by (auto simp: a_def)
    have "of_nat p + hhdm + ucast off = of_nat a + hhdm"
      by (simp add: a_def unsigned_ucast_eq of_nat_unat add.commute add.left_commute)
    then have ph: "hhdm_phys hhdm (of_nat p + hhdm + ucast off) = of_nat a" using hhdm_phys_offset [OF a64(2)] by (simp only:)
    have cu: "unat c = min (unat tb) (4096 - a mod 4096)" unfolding c_def by (rule prdt_chunk_unat [OF a64(1) refl])
    have cb: "1 \<le> unat c" "unat c \<le> 4096" "unat c \<le> unat tb" using t by (auto simp: cu min_def)
    have split: "page_split a (unat tb) = (a, unat c) # page_split (a + unat c) (unat tb - unat c)"
      using t by (subst page_split.simps) (simp add: cu Let_def)
    have tb': "unat (tb - c) = unat tb - unat c" using cb by (simp add: unat_minus_u32)
    have off': "unat (off + c) = unat off + unat c" using cb less.prems by (simp add: unat_plus_u32)
    show ?thesis
    proof (cases "i \<ge> 256")
      case True
      then show ?thesis using \<open>tb > 0\<close> less.prems(3)
        by (subst prdt_loop.simps) (simp add: MAX_PRDT_ENTRIES_def a_def [symmetric] split)
    next
      case False
      define m1 where "m1 = prdt_put (prdt_addr ct i) (of_nat a) c m"
      have step: "prdt_loop hhdm ct (of_nat p + hhdm) tb off i m = prdt_loop hhdm ct (of_nat p + hhdm) (tb - c) (off + c) (i + 1) m1"
        using True False by (subst prdt_loop.simps) (simp only: ph c_def m1_def MAX_PRDT_ENTRIES_def if_True if_False Let_def)
      have ih: "case prdt_loop hhdm ct (of_nat p + hhdm) (tb - c) (off + c) (i + 1) m1 of
          (None, _) \<Rightarrow> 256 < i + 1 + length (page_split (p + unat (off + c)) (unat (tb - c)))
        | (Some n, m') \<Rightarrow> n \<le> 256 \<and> n = i + 1 + length (page_split (p + unat (off + c)) (unat (tb - c))) \<and>
            prdt_built ct (i + 1) (page_split (p + unat (off + c)) (unat (tb - c))) m1 m'"
        by (rule less.hyps) (use less.prems False cb in \<open>simp_all add: tb' off'\<close>)
      have eq: "p + unat (off + c) = a + unat c" by (simp add: off' a_def)
      show ?thesis using ih prdt_built_Cons [of ct i "page_split (a + unat c) (unat tb - unat c)" a c m] cb
        unfolding step eq tb' a_def [symmetric] split m1_def
        by (auto split: prod.splits option.splits)
    qed
  qed
qed

lemma length_page_split: "length (page_split p n) * 4096 \<le> p mod 4096 + n + 4095"
proof (induction p n rule: page_split.induct)
  case (1 p n)
  show ?case
  proof (cases "n = 0")
    case False
    define c where "c = min n (4096 - p mod 4096)"
    have ih: "length (page_split (p + c) (n - c)) * 4096 \<le> (p + c) mod 4096 + (n - c) + 4095" using 1 [OF False c_def] .
    have sp: "page_split p n = (p, c) # page_split (p + c) (n - c)" using False by (subst page_split.simps) (simp add: c_def Let_def)
    show ?thesis
    proof (cases "n \<le> 4096 - p mod 4096")
      case True
      then have "c = n" by (simp add: c_def)
      then show ?thesis using False by (simp add: sp page_split.simps [of "p + n" 0])
    next
      case False
      have "p mod 4096 < 4096" by simp
      then have c: "c = 4096 - p mod 4096" "c \<le> n" using False by (simp_all add: c_def)
      have "p + c = p div 4096 * 4096 + 4096" using c \<open>p mod 4096 < 4096\<close> div_mult_mod_eq [of p 4096] by linarith
      then have "(p + c) mod 4096 = 0" by simp
      then have "length (page_split p n) * 4096 \<le> 4096 + ((n - c) + 4095)" using ih by (simp add: sp)
      then show ?thesis using c \<open>p mod 4096 < 4096\<close> by linarith
    qed
  qed (simp add: page_split.simps)
qed

lemma page_split_fits: "count \<le> 2040 \<Longrightarrow> length (page_split p (512 * count)) \<le> 256"
proof -
  assume "count \<le> 2040"
  moreover have "p mod 4096 \<le> 4095" using mod_less_divisor [of 4096 p] by linarith
  ultimately have "length (page_split p (512 * count)) * 4096 < 257 * 4096" using length_page_split [of p "512 * count"] by linarith
  then show ?thesis by simp
qed

section \<open>The command a controller finds\<close>

lemma find_slot_spec:
  "case find_slot n i slots of k \<Rightarrow>
     (k = -1 \<and> (\<forall>j<n. bit slots j)) \<or> (\<exists>j<n. k = int (i + j) \<and> \<not> bit slots j \<and> (\<forall>l<j. bit slots l))"
proof (induction n arbitrary: i slots)
  case (Suc n)
  have b0: "slots AND 1 = 0 \<longleftrightarrow> \<not> bit slots 0" by (simp add: and_one_eq bit_0 odd_iff_mod_2_eq_one)
  have sh: "bit (drop_bit 1 slots) j = bit slots (Suc j)" "bit (drop_bit (Suc 0) slots) j = bit slots (Suc j)" for j
    by (simp_all add: bit_drop_bit_eq)
  show ?case
  proof (cases "bit slots 0")
    case False
    then show ?thesis using b0 by auto
  next
    case True
    then have eq: "find_slot (Suc n) i slots = find_slot n (i + 1) (drop_bit 1 slots)" using b0 by simp
    from Suc.IH [of "i + 1" "drop_bit 1 slots"]
    consider "find_slot n (i + 1) (drop_bit 1 slots) = -1" "\<forall>j<n. bit slots (Suc j)"
      | j where "j < n" "find_slot n (i + 1) (drop_bit 1 slots) = int (i + 1 + j)" "\<not> bit slots (Suc j)" "\<forall>l<j. bit slots (Suc l)"
      by (auto simp: sh)
    then show ?thesis
    proof cases
      case 1
      then have "\<forall>j<Suc n. bit slots j" using True by (auto simp: less_Suc_eq_0_disj)
      then show ?thesis using 1 eq by simp
    next
      case 2
      then have "\<forall>l<Suc j. bit slots l" using True by (auto simp: less_Suc_eq_0_disj)
      then show ?thesis using 2 eq by (intro disjI2 exI [of _ "Suc j"]) auto
    qed
  qed
qed simp

lemma findCMDSlot_lowest_free:
  "findCMDSlot p n = int k \<longleftrightarrow> k < n \<and> \<not> bit (p_sact p OR p_ci p) k \<and> (\<forall>l<k. bit (p_sact p OR p_ci p) l)"
  using find_slot_spec [of n 0 "p_sact p OR p_ci p"] unfolding findCMDSlot_def
  by (auto simp: not_less_iff_gr_or_eq) (metis linorder_neqE_nat)+

lemma findCMDSlot_idle [simp]: "p_sact p = 0 \<Longrightarrow> p_ci p = 0 \<Longrightarrow> findCMDSlot p 32 = 0"
  using findCMDSlot_lowest_free [of p 32 0] by simp

text \<open>
  \<open>command_at m clb slot ct fis rs\<close>: what the controller reads when the command in \<open>slot\<close> is issued: a command table
  at \<open>ct\<close> that starts with \<open>fis\<close> and whose physical region table is \<open>rs\<close>.
\<close>

definition command_at :: "pmem \<Rightarrow> u64 \<Rightarrow> nat \<Rightarrow> bytes \<times> (u64 \<times> nat) list" where
  "command_at m clb slot =
     (let h = hdr_addr clb slot; ct = hdr_ctba m h
      in (mget m ct 20, map (\<lambda>j. prdt_region m (prdt_addr ct j)) [0..<unat (of_le (mget m (h + 2) 2) :: u16)]))"

lemma hdr_ctba_cong:
  assumes "\<And>i. 8 \<le> i \<Longrightarrow> i < 16 \<Longrightarrow> m (h + of_nat i) = m' (h + of_nat i)"
  shows "hdr_ctba m h = hdr_ctba m' h"
proof -
  have "mget32 m (h + of_nat k) = mget32 m' (h + of_nat k)" if "8 \<le> k" "k \<le> 12" for k
  proof -
    have "mget m (h + of_nat k) 4 = mget m' (h + of_nat k) 4"
    proof (rule mget_cong)
      fix i :: nat assume "i < 4"
      then show "m (h + of_nat k + of_nat i) = m' (h + of_nat k + of_nat i)"
        using assms [of "k + i"] that by (simp add: add.assoc)
    qed
    then show ?thesis by (simp only: mget32_def)
  qed
  from this [of 8] this [of 12] show ?thesis by (simp add: hdr_ctba_def)
qed

lemma in_prdt_offset:
  assumes "in_prdt ct 0 n x" "n \<le> 256"
  obtains q where "128 \<le> q" "q < 4224" "x = ct + of_nat q"
proof -
  obtain j k where jk: "j < n" "k < 16" "x = prdt_addr ct j + of_nat k" using assms(1) unfolding in_prdt_def by blast
  have "x = ct + of_nat (128 + 16 * j + k)" using jk(3) by (simp add: prdt_addr_def add.assoc)
  then show ?thesis using that [of "128 + 16 * j + k"] jk assms(2) by simp
qed

lemma mdisjD: "mdisj a n b k \<Longrightarrow> i < n \<Longrightarrow> j < k \<Longrightarrow> a + of_nat i \<noteq> b + of_nat j"
  by (simp add: mdisj_def)

text \<open>
  The memory \<open>runCommand\<close> leaves when it issues a command: the header \<open>h\<close> and the command table \<open>ct\<close> do not
  overlap, the rest of the memory is as before.
\<close>

lemma command_built:
  assumes dj: "mdisj h 32 ct 4224" and h: "h = hdr_addr clb slot" and ct: "hdr_ctba m0 h = ct"
    and m1: "m1 = mput h [b] m0" and m2: "m2 = mput ct (replicate 4096 0) m1"
    and m3: "prdt_built ct 0 rs m2 m3" and n: "length rs \<le> 256"
    and m4: "m4 = mput (h + 2) (le16 (of_nat (length rs))) m3" and m5: "m5 = mput ct fis m4" and f: "length fis = 20"
  shows "command_at m5 clb slot = (fis, map (\<lambda>(a, c). (of_nat a, c)) rs)"
    and "(\<And>i. i < 32 \<Longrightarrow> x \<noteq> h + of_nat i) \<Longrightarrow> (\<And>i. i < 4224 \<Longrightarrow> x \<noteq> ct + of_nat i) \<Longrightarrow> m5 x = m0 x"
    and "hdr_ctba m5 h = ct" "m5 h = b" "m5 (h + 1) = m0 (h + 1)"
proof -
  have p0: "m2 x = m3 x" if "\<And>q. 128 \<le> q \<Longrightarrow> q < 4224 \<Longrightarrow> x \<noteq> ct + of_nat q" for x
    using m3 that n in_prdt_offset [of ct "length rs" x] unfolding prdt_built_def by (metis add_0)
  have p1: "m1 x = m0 x" if "\<And>i. i < 32 \<Longrightarrow> x \<noteq> h + of_nat i" for x
    using that [of 0] unfolding m1 by (intro mput_outside) simp
  have p2: "m2 x = m1 x" if "\<And>i. i < 4224 \<Longrightarrow> x \<noteq> ct + of_nat i" for x
    unfolding m2 by (rule mput_outside) (use that in auto)
  have p4: "m4 x = m3 x" if "\<And>i. i < 32 \<Longrightarrow> x \<noteq> h + of_nat i" for x
    unfolding m4
  proof (rule mput_outside)
    fix j assume "j < length (le16 (of_nat (length rs)))"
    then show "x \<noteq> h + 2 + of_nat j" using that [of "2 + j"] by (simp add: add.assoc)
  qed
  have p5: "m5 x = m4 x" if "\<And>i. i < 20 \<Longrightarrow> x \<noteq> ct + of_nat i" for x
    unfolding m5 by (rule mput_outside) (use that f in simp)
  show "m5 x = m0 x" if "\<And>i. i < 32 \<Longrightarrow> x \<noteq> h + of_nat i" "\<And>i. i < 4224 \<Longrightarrow> x \<noteq> ct + of_nat i"
    using p0 [of x] p1 [OF that(1)] p2 [OF that(2)] p4 [OF that(1)] p5 [of x] that(2) by simp
  have hx: "h + of_nat i \<noteq> ct + of_nat q" if "i < 32" "q < 4224" for i q using mdisjD [OF dj that] .
  have hm: "m5 (h + of_nat i) = m0 (h + of_nat i)" if "8 \<le> i" "i < 16" for i
  proof -
    have "m4 (h + of_nat i) = m3 (h + of_nat i)" "m1 (h + of_nat i) = m0 (h + of_nat i)"
      unfolding m4 m1 using mput_other_offset [of i 2 "le16 (of_nat (length rs))" h m3] mput_other_offset [of i 0 "[b]" h m0] that
      by simp_all
    then show ?thesis using p0 [of "h + of_nat i"] p2 [of "h + of_nat i"] p5 [of "h + of_nat i"] hx that by simp
  qed
  have hb: "m5 (h + of_nat i) = m1 (h + of_nat i)" if "i < 2" for i
  proof -
    have "m4 (h + of_nat i) = m3 (h + of_nat i)"
      unfolding m4 using mput_other_offset [of i 2 "le16 (of_nat (length rs))" h m3] that by simp
    then show ?thesis using p0 [of "h + of_nat i"] p2 [of "h + of_nat i"] p5 [of "h + of_nat i"] hx that by simp
  qed
  show "m5 h = b" using hb [of 0] mput_at [of 0 "[b]" h m0] by (simp add: m1)
  show "m5 (h + 1) = m0 (h + 1)" using hb [of 1] mput_other_offset [of 1 0 "[b]" h m0] by (simp add: m1)
  show ct5: "hdr_ctba m5 h = ct" using ct hdr_ctba_cong [of m5 h m0] hm by simp
  have fis: "mget m5 ct 20 = fis" using f by (simp add: m5 mget_mput_same)
  have "mget m5 (h + 2) 2 = mget m4 (h + 2) 2"
  proof (rule mget_cong)
    fix i :: nat assume "i < 2"
    then show "m5 (h + 2 + of_nat i) = m4 (h + 2 + of_nat i)"
      using hx [of "2 + i"] p5 [of "h + 2 + of_nat i"] by (simp add: add.assoc)
  qed
  then have "mget m5 (h + 2) 2 = le16 (of_nat (length rs))" by (simp add: m4 mget_mput_same)
  then have len: "unat (of_le (mget m5 (h + 2) 2) :: u16) = length rs"
    using n by (simp add: unat_of_nat take_bit_nat_eq_self)
  have "prdt_region m5 (prdt_addr ct j) = (of_nat (fst (rs ! j)), snd (rs ! j))" if "j < length rs" for j
  proof -
    have "prdt_region m5 (prdt_addr ct j) = prdt_region m3 (prdt_addr ct j)"
    proof (rule prdt_region_cong)
      fix k :: nat assume k: "k < 16"
      have a: "prdt_addr ct j + of_nat k = ct + of_nat (128 + 16 * j + k)" by (simp add: prdt_addr_def add.assoc)
      have b: "128 + 16 * j + k < 4224" using that n k by simp
      have "m5 (ct + of_nat (128 + 16 * j + k)) = m4 (ct + of_nat (128 + 16 * j + k))"
        unfolding m5 using mput_other_offset [of "128 + 16 * j + k" 0 fis ct m4] b f by simp
      moreover have "m4 (ct + of_nat (128 + 16 * j + k)) = m3 (ct + of_nat (128 + 16 * j + k))"
        by (rule p4) (use hx [OF _ b] in metis)
      ultimately show "m5 (prdt_addr ct j + of_nat k) = m3 (prdt_addr ct j + of_nat k)" unfolding a by simp
    qed
    then show ?thesis using m3 that unfolding prdt_built_def by simp
  qed
  then show "command_at m5 clb slot = (fis, map (\<lambda>(a, c). (of_nat a, c)) rs)"
    by (auto simp: command_at_def Let_def h [symmetric] ct5 fis len intro!: nth_equalityI split: prod.splits)
qed

text \<open>
  \<open>cmd_ready hhdm phys n st\<close>: the port is idle and ready, and its command list entry 0, the table it points to and
  the \<open>n\<close> bytes of the buffer at \<open>phys\<close> are apart from each other.
\<close>

definition cmd_ready :: "u64 \<Rightarrow> u64 \<Rightarrow> nat \<Rightarrow> ahci \<Rightarrow> bool" where
  "cmd_ready hhdm phys n st \<longleftrightarrow>
     (let h = port_clb (port st); ct = hdr_ctba (pm st) h
      in p_sact (port st) = 0 \<and> p_ci (port st) = 0 \<and> p_tfd (port st) AND 0x88 = 0
         \<and> h + hhdm \<noteq> 0 \<and> ct + hhdm \<noteq> 0
         \<and> mdisj h 32 ct 4224 \<and> mdisj phys n h 32 \<and> mdisj phys n ct 4224)"

lemma hdr_addr_0 [simp]: "hdr_addr clb 0 = clb" by (simp add: hdr_addr_def)

lemma unat_sectors: "unat (count :: u32) \<le> 2040 \<Longrightarrow> unat (push_bit 9 count) = 512 * unat count"
  using unat_times_u32 [of count 512] by (simp add: push_bit_eq_mult)

lemma length_cmd_fis [simp]: "length (cmd_fis ty sl sh c) = 20" by (simp add: cmd_fis_def)

lemma runCommand_issues:
  assumes r: "cmd_ready hhdm phys (512 * unat count) st" and c: "unat count \<le> 2040"
    and fits: "unat phys + 512 * unat count + unat hhdm \<le> 2 ^ 64"
  shows "\<exists>m. runCommand hw hhdm ty wr sl sh count phys st
        = issue_command hw 0 (st\<lparr>port := (port st)\<lparr>p_is := 0\<rparr>, pm := m\<rparr>)
      \<and> command_at m (port_clb (port st)) 0
        = (cmd_fis ty sl sh count, map (\<lambda>(a, c). (of_nat a, c)) (page_split (unat phys) (512 * unat count)))
      \<and> hdr_ctba m (port_clb (port st)) = hdr_ctba (pm st) (port_clb (port st))
      \<and> m (port_clb (port st)) = (pm st (port_clb (port st)) AND 0xA0) OR 5 OR (if wr then 0x40 else 0)
      \<and> m (port_clb (port st) + 1) = pm st (port_clb (port st) + 1)
      \<and> mget m phys (512 * unat count) = mget (pm st) phys (512 * unat count)"
proof -
  define h where "h = port_clb (port st)"
  define ct where "ct = hdr_ctba (pm st) h"
  define m1 where "m1 = mput h [(pm st h AND 0xA0) OR 5 OR (if wr then 0x40 else 0)] (pm st)"
  define m2 where "m2 = mput ct (replicate 4096 0) m1"
  define rs where "rs = page_split (unat phys) (512 * unat count)"
  have st: "p_sact (port st) = 0" "p_ci (port st) = 0" "h + hhdm \<noteq> 0" "ct + hhdm \<noteq> 0"
      "mdisj h 32 ct 4224" "mdisj phys (512 * unat count) h 32" "mdisj phys (512 * unat count) ct 4224"
    using r by (simp_all add: cmd_ready_def Let_def h_def ct_def)
  have ct1: "hdr_ctba m1 h = ct"
  proof -
    have "m1 (h + of_nat i) = pm st (h + of_nat i)" if "8 \<le> i" "i < 16" for i
      using that mput_other_offset [of i 0 _ h "pm st"] by (simp add: m1_def)
    from hdr_ctba_cong [of m1 h "pm st", OF this] show ?thesis by (simp add: ct_def)
  qed
  have rs: "length rs \<le> 256" unfolding rs_def by (rule page_split_fits [OF c])
  have e: "page_split (unat phys + unat (0 :: u32)) (unat (push_bit 9 count)) = rs" using c by (simp add: unat_sectors rs_def)
  have "unat phys + unat (0 :: u32) + unat (push_bit 9 count) + unat hhdm \<le> 2 ^ 64" "unat (0 :: u32) + unat (push_bit 9 count) < 2 ^ 32"
    using fits c by (simp_all add: unat_sectors)
  from prdt_loop_spec [OF this, of 0 ct m2]
  have "case prdt_loop hhdm ct (phys + hhdm) (push_bit 9 count) 0 0 m2 of
      (None, _) \<Rightarrow> 256 < length rs | (Some n, m') \<Rightarrow> n \<le> 256 \<and> n = length rs \<and> prdt_built ct 0 rs m2 m'"
    unfolding e add_0 by simp
  then obtain m3 where m3: "prdt_loop hhdm ct (phys + hhdm) (push_bit 9 count) 0 0 m2 = (Some (length rs), m3)" "prdt_built ct 0 rs m2 m3"
    using rs by (auto split: prod.splits option.splits)
  define m4 where "m4 = mput (h + 2) (le16 (of_nat (length rs))) m3"
  define m5 where "m5 = mput ct (cmd_fis ty sl sh count) m4"
  have run: "runCommand hw hhdm ty wr sl sh count phys st
      = issue_command hw 0 (st\<lparr>port := (port st)\<lparr>p_is := 0\<rparr>, pm := m5\<rparr>)"
    using st(1-4) ct1 m3(1) by (simp add: runCommand_def port_clb_def [of "p_is_update _ _"] Let_def
        h_def [symmetric, unfolded port_clb_def] m1_def [symmetric] m2_def [symmetric] m4_def [symmetric] m5_def [symmetric])
  note built = command_built [OF st(5) hdr_addr_0 [symmetric, of h] ct_def [symmetric] m1_def m2_def m3(2) rs m4_def m5_def length_cmd_fis]
  have "mget m5 phys (512 * unat count) = mget (pm st) phys (512 * unat count)"
  proof (rule mget_cong)
    fix i assume "i < 512 * unat count"
    then show "m5 (phys + of_nat i) = pm st (phys + of_nat i)"
      using st(6,7) by (intro built(2)) (simp_all add: mdisjD)
  qed
  then show ?thesis using run built(1,3-5) unfolding h_def rs_def ct_def by blast
qed

text \<open>A controller that no longer answers: its registers and the memory stay as the driver leaves them.\<close>

lemma wait_done_dead:
  "hw = (\<lambda>k x. x) \<Longrightarrow> bit (p_ci (port st)) slot \<Longrightarrow> p_is (port st) = 0 \<Longrightarrow>
   \<exists>k. wait_done hw slot n st = (Some (-1), st\<lparr>polls := k\<rparr>)"
proof (induction n arbitrary: st)
  case 0
  then show ?case by (subst wait_done.simps) (auto simp: poll_def)
next
  case (Suc n)
  then show ?case using Suc.IH [of "st\<lparr>polls := Suc (Suc (polls st))\<rparr>"]
    by (subst wait_done.simps) (auto simp: poll_def Let_def)
qed

lemma issue_dead:
  assumes "hw = (\<lambda>k x. x)" "p_tfd (port st) AND 0x88 = 0" "p_is (port st) = 0" "slot < 32"
  shows "\<exists>st'. issue_command hw slot st = (True, st') \<and> pm st' = pm st"
proof -
  have r: "wait_ready hw 0 st = (0, st\<lparr>polls := polls st + 1\<rparr>)"
    using assms by (subst wait_ready.simps) (simp add: poll_def Let_def)
  define st1 where "st1 = st\<lparr>port := (port st)\<lparr>p_ci := p_ci (port st) OR push_bit slot 1\<rparr>\<rparr>\<lparr>polls := polls st + 1\<rparr>"
  have e: "st\<lparr>polls := polls st + 1\<rparr>\<lparr>port := (port st)\<lparr>p_ci := p_ci (port st) OR push_bit slot 1\<rparr>\<rparr> = st1" by (simp add: st1_def)
  have "bit (p_ci (port st1)) slot" using assms(4) by (simp add: st1_def bit_or_iff push_bit_eq_mult bit_exp_iff)
  moreover have "p_is (port st1) = 0" using assms(3) by (simp add: st1_def)
  ultimately obtain k where "wait_done hw slot 1000000 st1 = (Some (-1), st1\<lparr>polls := k\<rparr>)"
    using wait_done_dead [OF assms(1)] by blast
  then show ?thesis using assms r e by (simp add: issue_command_def Let_def poll_def) (simp add: st1_def)
qed

section \<open>What a conforming controller does\<close>

text \<open>
  A port that is started, with the flags of command header 0 clear and with the command list, the command table and the buffer
  aligned as the controller needs them; \<open>portRebase\<close> establishes this on a block of memory that is aligned.
\<close>

definition port_armed :: "u64 \<Rightarrow> ahci \<Rightarrow> bool" where
  "port_armed phys st \<longleftrightarrow>
     (let h = port_clb (port st)
      in p_cmd (port st) AND HBA_PxCMD_ST \<noteq> 0 \<and> p_cmd (port st) AND HBA_PxCMD_FRE \<noteq> 0
         \<and> pm st h AND 0x7F = 0 \<and> pm st (h + 1) = 0
         \<and> 1024 dvd unat h \<and> 128 dvd unat (hdr_ctba (pm st) h) \<and> even (unat phys))"























section \<open>Properties of the command path\<close>






text \<open>
  C37. A timeout is reported as success. When the controller never answers (its registers and the memory stay as they
  are), \<open>runCommand\<close> still returns true after its million polls, and the data buffer has its old contents: the
  test for the timeout compares the counter with 0, but the post-decrement has left -1.
\<close>

theorem runCommand_timeout_succeeds:
  assumes "cmd_ready hhdm phys (512 * unat count) st" "unat count \<le> 2040"
    and "unat phys + 512 * unat count + unat hhdm \<le> 2 ^ 64"
  shows "\<exists>st'. runCommand (\<lambda>k x. x) hhdm ty wr sl sh count phys st = (True, st')
     \<and> mget (pm st') phys (512 * unat count) = mget (pm st) phys (512 * unat count)"
proof -
  obtain m where m: "runCommand (\<lambda>k x. x) hhdm ty wr sl sh count phys st
      = issue_command (\<lambda>k x. x) 0 (st\<lparr>port := (port st)\<lparr>p_is := 0\<rparr>, pm := m\<rparr>)"
    "mget m phys (512 * unat count) = mget (pm st) phys (512 * unat count)"
    using runCommand_issues [OF assms] by blast
  then show ?thesis
    using issue_dead [OF refl, of "st\<lparr>port := (port st)\<lparr>p_is := 0\<rparr>, pm := m\<rparr>" 0] assms(1)
    by (auto simp: cmd_ready_def Let_def)
qed

text \<open>A port with its command list at 0x1000, its command table at 0x4000 and a drive that executes what it is given.\<close>

definition sample_port :: HBA_PORT where
  "sample_port = \<lparr>p_clb = 0x1000, p_clbu = 0, p_fb = 0, p_fbu = 0, p_is = 0, p_cmd = 0x11, p_tfd = 0x50,
     p_sig = 0x101, p_ssts = 0x113, p_sact = 0, p_ci = 0\<rparr>"

definition sample_ahci :: ahci where
  "sample_ahci = \<lparr>port = sample_port, pm = mput 0x1008 (le32 0x4000) (\<lambda>_. 0), polls = 0\<rparr>"



lemma sample_ctba: "hdr_ctba (mput 0x1008 (le32 0x4000) (\<lambda>_. 0)) 0x1000 = 0x4000"
proof -
  have "mget32 (mput 0x1008 (le32 0x4000) (\<lambda>_. 0)) (0x1000 + of_nat 12) = 0"
  proof -
    have "mget32 (mput (0x1000 + of_nat 8) (le32 0x4000) (\<lambda>_. 0)) (0x1000 + of_nat 12) = mget32 (\<lambda>_. 0) (0x1000 + of_nat 12)"
      by (rule mget32_mput_off) simp_all
    also have "\<dots> = 0" by (simp add: mget32_def mget_def upt_rec of_le_def)
    finally show ?thesis by simp
  qed
  then show ?thesis by (simp add: hdr_ctba_def)
qed


lemma sample_ready: "cmd_ready 0xFFFF800000000000 0x20F00 1024 sample_ahci"
proof -
  have clb: "port_clb sample_port = 0x1000" by (simp add: port_clb_def sample_port_def)
  note ct = sample_ctba
  show ?thesis
    using mdisj_offsets [of "0x1000" 32 "0x4000" 4224 0] mdisj_offsets [of "0x20F00" 1024 "0x1000" 32 0]
      mdisj_offsets [of "0x20F00" 1024 "0x4000" 4224 0] clb ct
    by (simp add: cmd_ready_def sample_ahci_def Let_def) (simp add: sample_port_def)
qed


theorem runCommand_timeout_succeeds_witness:
  "\<exists>st'. runCommand (\<lambda>k x. x) 0xFFFF800000000000 0x35 True 7 0 2 0x20F00 sample_ahci = (True, st')
     \<and> mget (pm st') 0x20F00 (512 * unat (2 :: u32)) = mget (pm sample_ahci) 0x20F00 (512 * unat (2 :: u32))"
  by (rule runCommand_timeout_succeeds) (use sample_ready in simp_all)

section \<open>A rebased port\<close>

text \<open>
  The part of the block \<open>portRebase\<close> allocates that holds the command list: headers below \<open>i\<close> keep what they have,
  and every header the loop passes points to its own 256 bytes of the command table area.
\<close>

lemma rebase_loop_frame:
  "i + n \<le> 32 \<Longrightarrow> q < 32 * i \<Longrightarrow> rebase_loop n i clb (clb + 0x2000) m (clb + of_nat q) = m (clb + of_nat q)"
proof (induction n arbitrary: i m)
  case (Suc n)
  have "mput (clb + of_nat k) bs m' (clb + of_nat q) = m' (clb + of_nat q)"
    if "32 * i \<le> k" "k + length bs \<le> 0x4000" for k bs and m' :: pmem
    using that Suc.prems(2) by (intro mput_other_offset) simp_all
  note out = this
  have "hdr_addr clb i + 8 = clb + of_nat (32 * i + 8)" "hdr_addr clb i + 12 = clb + of_nat (32 * i + 12)"
    "hdr_addr clb i + 2 = clb + of_nat (32 * i + 2)" "clb + 0x2000 + of_nat (i * 0x100) = clb + of_nat (0x2000 + i * 0x100)"
    by (simp_all add: hdr_addr_def)
  note a = this
  have "rebase_loop (Suc n) i clb (clb + 0x2000) m (clb + of_nat q) =
      rebase_loop n (i + 1) clb (clb + 0x2000) (mput (clb + of_nat (0x2000 + i * 0x100)) (replicate 0x100 0)
        (mput (clb + of_nat (32 * i + 2)) (le16 8) (mput (clb + of_nat (32 * i + 12)) (le32 (ucast (drop_bit 32 (clb + 0x2000 + of_nat (i * 0x100)))))
          (mput (clb + of_nat (32 * i + 8)) (le32 (ucast (clb + 0x2000 + of_nat (i * 0x100)))) m)))) (clb + of_nat q)"
    by (simp only: rebase_loop.simps Let_def a)
  also have "\<dots> = m (clb + of_nat q)"
  proof -
    have "mput (clb + of_nat (0x2000 + i * 0x100)) (replicate 0x100 0) m' (clb + of_nat q) = m' (clb + of_nat q)"
      "mput (clb + of_nat (32 * i + 2)) (le16 w) m' (clb + of_nat q) = m' (clb + of_nat q)"
      "mput (clb + of_nat (32 * i + 8)) (le32 v) m' (clb + of_nat q) = m' (clb + of_nat q)"
      "mput (clb + of_nat (32 * i + 12)) (le32 v) m' (clb + of_nat q) = m' (clb + of_nat q)" for w v and m' :: pmem
      using Suc.prems by (intro out; simp)+
    moreover have "rebase_loop n (i + 1) clb (clb + 0x2000) m' (clb + of_nat q) = m' (clb + of_nat q)" for m'
      using Suc.prems by (intro Suc.IH) simp_all
    ultimately show ?thesis by (simp only:)
  qed
  finally show ?case .
qed simp

lemma rebase_loop_ctba:
  "i + n \<le> 32 \<Longrightarrow> i \<le> j \<Longrightarrow> j < i + n \<Longrightarrow>
   hdr_ctba (rebase_loop n i clb (clb + 0x2000) m) (hdr_addr clb j) = clb + 0x2000 + of_nat (j * 0x100)"
proof (induction n arbitrary: i m)
  case (Suc n)
  define ct where "ct = clb + 0x2000 + of_nat (i * 0x100)"
  define m1 where "m1 = mput (hdr_addr clb i + 8) (le32 (ucast ct)) m"
  define m2 where "m2 = mput (hdr_addr clb i + 12) (le32 (ucast (drop_bit 32 ct))) m1"
  define m3 where "m3 = mput (hdr_addr clb i + 2) (le16 8) m2"
  define m4 where "m4 = mput ct (replicate 0x100 0) m3"
  have step: "rebase_loop (Suc n) i clb (clb + 0x2000) m = rebase_loop n (i + 1) clb (clb + 0x2000) m4"
    by (simp add: Let_def ct_def m1_def m2_def m3_def m4_def)
  show ?case
  proof (cases "j = i")
    case False
    then show ?thesis using Suc.IH [of "i + 1" m4] Suc.prems by (simp only: step)
  next
    case True
    have b: "32 * i + 16 \<le> 0x400" using Suc.prems by simp
    have a: "hdr_addr clb i + of_nat k = clb + of_nat (32 * i + k)" for k by (simp add: hdr_addr_def add.assoc)
    have ct: "ct = clb + of_nat (0x2000 + i * 0x100)" by (simp add: ct_def)
    have m4: "m4 (clb + of_nat q) = m3 (clb + of_nat q)" if "q < 0x400" for q
      unfolding m4_def ct using that Suc.prems by (intro mput_other_offset) simp_all
    have m3: "m3 (hdr_addr clb i + of_nat k) = m2 (hdr_addr clb i + of_nat k)" if "8 \<le> k" "k < 16" for k
      using mput_other_offset [of k 2 "le16 8" "hdr_addr clb i" m2] that unfolding m3_def by simp
    have "hdr_ctba (rebase_loop n (i + 1) clb (clb + 0x2000) m4) (hdr_addr clb i) = hdr_ctba m2 (hdr_addr clb i)"
    proof (rule hdr_ctba_cong)
      fix k :: nat assume k: "8 \<le> k" "k < 16"
      have "rebase_loop n (i + 1) clb (clb + 0x2000) m4 (clb + of_nat (32 * i + k)) = m4 (clb + of_nat (32 * i + k))"
        using Suc.prems k by (intro rebase_loop_frame) simp_all
      then show "rebase_loop n (i + 1) clb (clb + 0x2000) m4 (hdr_addr clb i + of_nat k) = m2 (hdr_addr clb i + of_nat k)"
        using m4 [of "32 * i + k"] m3 [OF k] k b by (simp add: a del: of_nat_add)
    qed
    also have "\<dots> = ct"
      using mget32_mput_off [of 8 12 "le32 (ucast (drop_bit 32 ct))" "hdr_addr clb i" m1]
      by (simp add: hdr_ctba_def m2_def) (simp add: m1_def u64_halves)
    finally show ?thesis using True by (simp only: step ct_def)
  qed
qed simp

lemma poll_idle: "poll (\<lambda>k x. x) st = st\<lparr>polls := polls st + 1\<rparr>"
  by (simp add: poll_def)

lemma rebase_loop_flags:
  assumes "q < 2" "\<And>i. i < 0x400 \<Longrightarrow> m (clb + of_nat i) = 0"
  shows "rebase_loop 32 0 clb (clb + 0x2000) m (clb + of_nat q) = 0"
proof -
  have out: "mput (clb + of_nat k) bs m' (clb + of_nat q) = m' (clb + of_nat q)"
    if "2 \<le> k" "k + length bs \<le> 0x4000" for k bs and m' :: pmem
    using that assms(1) by (intro mput_other_offset) simp_all
  note o = out [of 8 "le32 _"] out [of 12 "le32 _"] out [of 2 "le16 _"] out [of "0x2000" "replicate 0x100 0"]
  have "rebase_loop (Suc 31) 0 clb (clb + 0x2000) m (clb + of_nat q) = m (clb + of_nat q)"
    using o assms(1) by (simp only: rebase_loop.simps Let_def) (simp add: rebase_loop_frame hdr_addr_def)
  then show ?thesis using assms by simp
qed

text \<open>
  On a port whose engine is stopped, \<open>portRebase\<close> returns with the command list at the start of the new block, with
  each of the 32 headers pointing to its own command table, and with the command engine started.
\<close>

lemma portRebase_slots:
  assumes "p_cmd (port st) AND HBA_PxCMD_FR = 0" "p_cmd (port st) AND HBA_PxCMD_CR = 0"
    and "0 < n" "n + unat hhdm < 2 ^ 64" "of_nat n + hhdm \<noteq> (0 :: u64)"
  shows "\<exists>st'. portRebase (\<lambda>k x. x) hhdm (of_nat n + hhdm) st = Some st' \<and> port_clb (port st') = of_nat n
     \<and> p_cmd (port st') AND HBA_PxCMD_ST \<noteq> 0 \<and> p_cmd (port st') AND HBA_PxCMD_FRE \<noteq> 0
     \<and> (\<forall>j<32. hdr_ctba (pm st') (hdr_addr (of_nat n) j) = of_nat n + 0x2000 + of_nat (j * 0x100))
     \<and> pm st' (of_nat n) = 0 \<and> pm st' (of_nat n + 1) = 0"
proof -
  define c where "c = p_cmd (port st) AND NOT HBA_PxCMD_FRE AND NOT HBA_PxCMD_ST"
  have masked: "(p_cmd (port st) AND x AND y) AND z = 0" if "p_cmd (port st) AND z = 0" for x y z
    using that by (metis and.assoc and.commute and_zero_eq)
  have c0: "c AND HBA_PxCMD_FR = 0" "c AND HBA_PxCMD_CR = 0" unfolding c_def by (rule masked, rule assms)+
  have stop: "\<exists>k. stopCMD (\<lambda>k x. x) st = Some (st\<lparr>port := (port st)\<lparr>p_cmd := c\<rparr>, polls := k\<rparr>)"
    using c0 by (auto simp: stopCMD_def wait_stopped.simps set_cmd_def poll_idle Let_def c_def and.assoc)
  have start: "\<exists>k. startCMD (\<lambda>k x. x) s1 = Some (s1\<lparr>polls := k, port := (port s1)\<lparr>p_cmd := c OR HBA_PxCMD_FRE OR HBA_PxCMD_ST\<rparr>\<rparr>)"
    if "p_cmd (port s1) = c" for s1
    using that c0 by (auto simp: startCMD_def wait_cr.simps set_cmd_def poll_idle Let_def or.assoc)
  have n0: "(of_nat n :: u64) \<noteq> 0" using assms(3,4) unat_of_nat_u64 [of n] by (metis add_lessD1 neq0_conv unsigned_0)
  have bits: "(c OR HBA_PxCMD_FRE OR HBA_PxCMD_ST) AND HBA_PxCMD_ST \<noteq> 0" "(c OR HBA_PxCMD_FRE OR HBA_PxCMD_ST) AND HBA_PxCMD_FRE \<noteq> 0"
    by (simp_all add: HBA_PxCMD_FRE_def HBA_PxCMD_ST_def bit.conj_disj_distrib2)
  obtain k where k: "stopCMD (\<lambda>k x. x) st = Some (st\<lparr>port := (port st)\<lparr>p_cmd := c\<rparr>, polls := k\<rparr>)" using stop by blast
  define m where "m = rebase_loop 32 0 (of_nat n) (of_nat n + 0x2000) (mput (of_nat n + 0x2000) (replicate 0x2000 0)
      (mput (of_nat n + 0x1000) (replicate 0x100 0) (mput (of_nat n) (replicate 0x400 0) (pm st))))"
  define s1 where "s1 = st\<lparr>polls := k, port := (port st)\<lparr>p_cmd := c, p_clb := ucast (of_nat n :: u64), p_clbu := ucast (drop_bit 32 (of_nat n :: u64)),
      p_fb := ucast (of_nat n + 0x1000 :: u64), p_fbu := ucast (drop_bit 32 (of_nat n + 0x1000 :: u64))\<rparr>, pm := m\<rparr>"
  have "portRebase (\<lambda>k x. x) hhdm (of_nat n + hhdm) st = startCMD (\<lambda>k x. x) s1"
    using assms(5) n0 by (simp add: portRebase_def k hhdm_phys_offset [OF assms(4)] Let_def s1_def m_def)
  moreover obtain k' where "startCMD (\<lambda>k x. x) s1 = Some (s1\<lparr>polls := k', port := (port s1)\<lparr>p_cmd := c OR HBA_PxCMD_FRE OR HBA_PxCMD_ST\<rparr>\<rparr>)"
    using start [of s1] by (auto simp: s1_def)
  moreover have "hdr_ctba m (hdr_addr (of_nat n) j) = of_nat n + 0x2000 + of_nat (j * 0x100)" if "j < 32" for j
    unfolding m_def using rebase_loop_ctba [of 0 32 j "of_nat n"] that by simp
  moreover have "m (of_nat n + of_nat q) = 0" if "q < 2" for q
    unfolding m_def
  proof (rule rebase_loop_flags [OF that])
    fix i :: nat assume i: "i < 0x400"
    have "mput (of_nat n + of_nat k) bs m' (of_nat n + of_nat i) = m' (of_nat n + of_nat i)"
      if "0x400 \<le> k" "k + length bs \<le> 0x4000" for k bs and m' :: pmem
      using that i by (intro mput_other_offset) simp_all
    from this [of "0x2000" "replicate 0x2000 0"] this [of "0x1000" "replicate 0x100 0"]
    show "mput (of_nat n + 0x2000) (replicate 0x2000 0) (mput (of_nat n + 0x1000) (replicate 0x100 0)
        (mput (of_nat n) (replicate 0x400 0) (pm st))) (of_nat n + of_nat i) = 0"
      using i mput_at [of i "replicate 0x400 0" "of_nat n" "pm st"] by simp
  qed
  from this [of 0] this [of 1] have "m (of_nat n) = 0" "m (of_nat n + 1) = 0" by simp_all
  ultimately show ?thesis using bits by (auto simp: s1_def port_clb_def u64_halves)
qed

text \<open>A port that was rebased to an aligned block is armed.\<close>

lemma portRebase_armed:
  assumes "p_cmd (port st) AND HBA_PxCMD_FR = 0" "p_cmd (port st) AND HBA_PxCMD_CR = 0"
    and "0 < n" "n + unat hhdm < 2 ^ 64" "of_nat n + hhdm \<noteq> (0 :: u64)" "1024 dvd n" "n + 0x2000 < 2 ^ 64" "even (unat phys)"
  shows "\<exists>st'. portRebase (\<lambda>k x. x) hhdm (of_nat n + hhdm) st = Some st' \<and> port_armed phys st'"
proof -
  obtain st' where st': "portRebase (\<lambda>k x. x) hhdm (of_nat n + hhdm) st = Some st'" "port_clb (port st') = of_nat n"
    "p_cmd (port st') AND HBA_PxCMD_ST \<noteq> 0" "p_cmd (port st') AND HBA_PxCMD_FRE \<noteq> 0"
    "hdr_ctba (pm st') (hdr_addr (of_nat n) 0) = of_nat n + 0x2000 + of_nat (0 * 0x100)" "pm st' (of_nat n) = 0" "pm st' (of_nat n + 1) = 0"
    using portRebase_slots [OF assms(1-5)] by (metis zero_less_numeral)
  have u: "unat (of_nat n :: u64) = n" "unat (of_nat n + 0x2000 :: u64) = n + 0x2000"
    using assms(7) unat_of_nat_u64 [of n] unat_of_nat_u64 [of "n + 0x2000"] by simp_all
  have "128 dvd n + 0x2000" using dvd_trans [of 128 1024 n] assms(6) by simp
  then show ?thesis using st' u assms(6,8) by (auto simp: port_armed_def Let_def)
qed

end
