(* ===== verification/Pci.thy ===== *)
theory Pci
  imports Prelude
begin

text \<open>
  The PCI scan (kernel/src/driver/pci/pci.c) and the tables of controllers it fills (kernel/src/sys/controllers).

  The configuration mechanism is the parameter \<open>cfg\<close>: the double word that the data port delivers after an address has
  been written to the address port. \<open>decodes cfg cs\<close> says that it answers as the mechanism is documented, with the
  register of the function the address names; \<open>cs\<close> are the configuration spaces of the machine. Whether the n-th
  allocation of a table succeeds is the parameter \<open>heap_ok\<close>. \<open>None\<close> is a store through NULL or past the end of a table.
\<close>

section \<open>Configuration space\<close>

type_synonym pci_cfg = "u32 \<Rightarrow> u32"

definition pci_address :: "u8 \<Rightarrow> u8 \<Rightarrow> u8 \<Rightarrow> u8 \<Rightarrow> u32" where
  "pci_address bus dev fn offset = push_bit 31 1 OR push_bit 16 (ucast bus) OR push_bit 11 (ucast dev)
     OR push_bit 8 (ucast fn) OR (ucast offset AND 0xFC)"

definition pci_read :: "pci_cfg \<Rightarrow> u8 \<Rightarrow> u8 \<Rightarrow> u8 \<Rightarrow> u8 \<Rightarrow> u32" where
  "pci_read cfg bus dev fn offset = cfg (pci_address bus dev fn offset)"

text \<open>A write changes what the register it names reads as; what else it does is up to the device.\<close>

definition pci_write :: "u8 \<Rightarrow> u8 \<Rightarrow> u8 \<Rightarrow> u8 \<Rightarrow> u32 \<Rightarrow> (u32 \<Rightarrow> u32 \<Rightarrow> 'd \<Rightarrow> 'd) \<Rightarrow> 'd \<Rightarrow> 'd" where
  "pci_write bus dev fn offset v port_write d = port_write (pci_address bus dev fn offset) v d"

definition pci_exists :: "pci_cfg \<Rightarrow> bool" where
  "pci_exists cfg \<longleftrightarrow> pci_read cfg 0 0 0 0 AND 0xFFFF \<noteq> 0xFFFF"

section \<open>Devices\<close>

record pci_device =
  pci_bus :: u8
  pci_dev :: u8
  pci_fn :: u8
  vendor_id :: u16
  device_id :: u16
  class_code :: u8
  subclass_code :: u8
  prog_if :: u8
  revision_id :: u8
  bist :: u8
  cache_line_size :: u8
  latency_timer :: u8
  header_type :: u8
  base_address_registers :: "u32 list"

definition no_device :: pci_device where
  "no_device = \<lparr>pci_bus = 0, pci_dev = 0, pci_fn = 0, vendor_id = 0, device_id = 0, class_code = 0, subclass_code = 0,
     prog_if = 0, revision_id = 0, bist = 0, cache_line_size = 0, latency_timer = 0, header_type = 0,
     base_address_registers = replicate 6 0\<rparr>"

definition STANDARD_HEADER_SINGLE_FUNCTION :: u8 where "STANDARD_HEADER_SINGLE_FUNCTION = 0x0"
definition STANDARD_HEADER_MULTI_FUNCTION :: u8 where "STANDARD_HEADER_MULTI_FUNCTION = 0x80"

text \<open>The two loops over the base address registers are the same; bridges keep the zeros.\<close>

definition read_bars :: "pci_cfg \<Rightarrow> u8 \<Rightarrow> u8 \<Rightarrow> u8 \<Rightarrow> u32 list" where
  "read_bars cfg bus dev fn =
     map (\<lambda>i. let r = pci_read cfg bus dev fn (0x10 + of_nat (i * 4)) in if i = 5 then r AND 0xFFFFFFF0 else r) [0..<6]"

definition pci_device_detect :: "pci_cfg \<Rightarrow> u8 \<Rightarrow> u8 \<Rightarrow> u8 \<Rightarrow> pci_device" where
  "pci_device_detect cfg bus dev fn =
     (let dv = pci_read cfg bus dev fn 0x0;
          cl = pci_read cfg bus dev fn 0x8;
          bh = pci_read cfg bus dev fn 0xC;
          d = no_device\<lparr>vendor_id := ucast dv, device_id := ucast (drop_bit 16 dv),
                class_code := ucast (drop_bit 24 cl), subclass_code := ucast (drop_bit 16 cl), prog_if := ucast (drop_bit 8 cl),
                revision_id := ucast cl,
                bist := ucast (drop_bit 24 bh), cache_line_size := ucast bh, latency_timer := ucast (drop_bit 8 bh),
                header_type := ucast (drop_bit 16 bh)\<rparr>
      in if header_type d = STANDARD_HEADER_SINGLE_FUNCTION \<or> header_type d = STANDARD_HEADER_MULTI_FUNCTION
         then d\<lparr>base_address_registers := read_bars cfg bus dev fn\<rparr> else d)"

section \<open>Tables of devices\<close>

text \<open>An array on the heap and its counter. \<open>put_device\<close> is \<open>table[count++] = device\<close>.\<close>

record dev_table =
  tab :: "pci_device list option"
  cnt :: nat

definition put_device :: "pci_device \<Rightarrow> dev_table \<Rightarrow> dev_table option" where
  "put_device d t = (case tab t of
     None \<Rightarrow> None
   | Some a \<Rightarrow> if cnt t < length a then Some (t\<lparr>tab := Some (a[cnt t := d]), cnt := cnt t + 1\<rparr>) else None)"

definition alloc_table :: "bool \<Rightarrow> nat \<Rightarrow> dev_table \<Rightarrow> dev_table" where
  "alloc_table ok n t = t\<lparr>tab := (if ok then Some (replicate n no_device) else None)\<rparr>"

definition table_get :: "dev_table \<Rightarrow> int \<Rightarrow> pci_device option" where
  "table_get t index = (if index < 0 \<or> index \<ge> int (cnt t) then None else map_option (\<lambda>a. a ! nat index) (tab t))"

section \<open>The scan\<close>

fun scan_loop :: "pci_cfg \<Rightarrow> nat list \<Rightarrow> dev_table \<Rightarrow> dev_table option" where
  "scan_loop cfg [] t = Some t"
| "scan_loop cfg (i # is) t =
     (let index = of_nat i :: u32;
          bus = ucast (drop_bit 8 index AND 0xFF) :: u8;
          dev = ucast (drop_bit 3 index AND 0x1F) :: u8;
          fn = ucast (index AND 0x07) :: u8;
          dv = pci_read cfg bus dev fn 0;
          did = ucast (drop_bit 16 dv) :: u16;
          vid = ucast dv :: u16
      in if did = 0xFFFF \<or> did = 0 \<or> vid = 0xFFFF \<or> vid = 0 then scan_loop cfg is t
         else Option.bind (put_device (pci_device_detect cfg bus dev fn) t) (scan_loop cfg is))"

definition pci_scan :: "pci_cfg \<Rightarrow> dev_table \<Rightarrow> dev_table option" where
  "pci_scan cfg t = (if \<not> pci_exists cfg then Some t else scan_loop cfg [0..<256 * 32 * 8] t)"

section \<open>Controllers by class\<close>

datatype ctrl_class = MASS_STORAGE | NETWORK | WIRELESS | DISPLAY | MEMORY | INPUT_DEVICE | SERIAL_BUS | BRIDGE

definition class_no :: "ctrl_class \<Rightarrow> u8" where
  "class_no c = (case c of MASS_STORAGE \<Rightarrow> 0x1 | NETWORK \<Rightarrow> 0x2 | WIRELESS \<Rightarrow> 0xD | DISPLAY \<Rightarrow> 0x3 | MEMORY \<Rightarrow> 0x5
     | INPUT_DEVICE \<Rightarrow> 0x9 | SERIAL_BUS \<Rightarrow> 0xC | BRIDGE \<Rightarrow> 0x6)"

record controllers =
  pci_devices :: dev_table
  by_class :: "ctrl_class \<Rightarrow> dev_table"

definition MAX_PCI_CONTROLLERS :: nat where "MAX_PCI_CONTROLLERS = 256"

text \<open>Each class has a table of 32 entries of its own; \<open>heap_ok\<close> numbers the allocations in the order of the calls.\<close>

definition alloc_class :: "(nat \<Rightarrow> bool) \<Rightarrow> nat \<Rightarrow> ctrl_class \<Rightarrow> controllers \<Rightarrow> controllers" where
  "alloc_class heap_ok i c st = st\<lparr>by_class := (by_class st)(c := alloc_table (heap_ok i) 32 (by_class st c))\<rparr>"

definition alloc_controllers_memory :: "(nat \<Rightarrow> bool) \<Rightarrow> controllers \<Rightarrow> controllers" where
  "alloc_controllers_memory heap_ok st =
     (let st = st\<lparr>pci_devices := alloc_table (heap_ok 0) MAX_PCI_CONTROLLERS (pci_devices st)\<rparr>
      in if tab (pci_devices st) = None then st
         else alloc_class heap_ok 8 BRIDGE (alloc_class heap_ok 7 SERIAL_BUS (alloc_class heap_ok 6 INPUT_DEVICE
               (alloc_class heap_ok 5 MEMORY (alloc_class heap_ok 4 DISPLAY (alloc_class heap_ok 3 WIRELESS
               (alloc_class heap_ok 2 NETWORK (alloc_class heap_ok 1 MASS_STORAGE st))))))))"

definition get_pci_controllers_count :: "controllers \<Rightarrow> int" where
  "get_pci_controllers_count st = int (cnt (pci_devices st))"

definition get_pci_controller :: "controllers \<Rightarrow> int \<Rightarrow> pci_device option" where
  "get_pci_controller st index = table_get (pci_devices st) index"

definition get_class_count :: "ctrl_class \<Rightarrow> controllers \<Rightarrow> int" where
  "get_class_count c st = int (cnt (by_class st c))"

definition get_class_controller :: "ctrl_class \<Rightarrow> controllers \<Rightarrow> int \<Rightarrow> pci_device option" where
  "get_class_controller c st index = table_get (by_class st c) index"

text \<open>One of the eight tests of the loop body, and the loop.\<close>

definition sort_into :: "ctrl_class \<Rightarrow> pci_device \<Rightarrow> controllers \<Rightarrow> controllers option" where
  "sort_into c d st =
     (if class_code d = class_no c
      then map_option (\<lambda>t. st\<lparr>by_class := (by_class st)(c := t)\<rparr>) (put_device d (by_class st c)) else Some st)"

fun sort_tests :: "ctrl_class list \<Rightarrow> pci_device \<Rightarrow> controllers \<Rightarrow> controllers option" where
  "sort_tests [] d st = Some st"
| "sort_tests (c # cs) d st = Option.bind (sort_into c d st) (sort_tests cs d)"

fun sort_loop :: "int list \<Rightarrow> controllers \<Rightarrow> controllers option" where
  "sort_loop [] st = Some st"
| "sort_loop (i # is) st =
     (case get_pci_controller st i of
        None \<Rightarrow> sort_loop is st
      | Some d \<Rightarrow> Option.bind (sort_tests [MASS_STORAGE, NETWORK, WIRELESS, DISPLAY, MEMORY, INPUT_DEVICE, SERIAL_BUS, BRIDGE] d st)
          (sort_loop is))"

definition init_controllers :: "(nat \<Rightarrow> bool) \<Rightarrow> pci_cfg \<Rightarrow> controllers \<Rightarrow> controllers option" where
  "init_controllers heap_ok cfg st =
     (let st = alloc_controllers_memory heap_ok st
      in Option.bind (pci_scan cfg (pci_devices st)) (\<lambda>t.
           let st = st\<lparr>pci_devices := t\<rparr>
           in if tab t = None then Some st
              else if cnt t = 0 then Some st
              else sort_loop (map int [0..<cnt t]) st))"

section \<open>Addresses name their registers\<close>

text \<open>The configuration mechanism: bits 23-16, 15-11, 10-8 and 7-2 of an enabled address select the register.\<close>

definition decodes :: "pci_cfg \<Rightarrow> (u8 \<Rightarrow> u8 \<Rightarrow> u8 \<Rightarrow> u8 \<Rightarrow> u32) \<Rightarrow> bool" where
  "decodes cfg cs \<longleftrightarrow> (\<forall>a. bit a 31 \<longrightarrow>
     cfg a = cs (ucast (drop_bit 16 a)) (ucast (drop_bit 11 a) AND 0x1F) (ucast (drop_bit 8 a) AND 7) (ucast a AND 0xFC))"

lemma masked_bits: "w AND mask k = w \<Longrightarrow> bit w n \<Longrightarrow> n < k" for w :: u8
  by (metis bit_and_iff bit_mask_iff)

lemma bit_enable: "bit (push_bit 31 1 :: u32) n \<longleftrightarrow> n = 31"
  by (auto simp only: bit_push_bit_iff bit_1_iff possible_bit_word len_of_numeral_defs)

lemma bit_pci_address:
  "bit (pci_address bus dev fn off) n \<longleftrightarrow> n < 32 \<and> (n = 31 \<or> 16 \<le> n \<and> bit bus (n - 16) \<or> 11 \<le> n \<and> bit dev (n - 11)
     \<or> 8 \<le> n \<and> bit fn (n - 8) \<or> bit off n \<and> bit (0xFC :: u32) n)"
  unfolding pci_address_def bit_or_iff bit_enable by (auto simp: bit_simps dest: bit_imp_le_length)

lemma pci_address_fields:
  assumes "dev AND mask 5 = dev" "fn AND mask 3 = fn"
  shows "bit (pci_address bus dev fn off) 31" "ucast (drop_bit 16 (pci_address bus dev fn off)) = bus"
    "ucast (drop_bit 11 (pci_address bus dev fn off)) AND (mask 5 :: u8) = dev"
    "ucast (drop_bit 8 (pci_address bus dev fn off)) AND (mask 3 :: u8) = fn"
    "ucast (pci_address bus dev fn off) AND (0xFC :: u8) = off AND 0xFC"
proof -
  have d: "bit dev n \<Longrightarrow> n < 5" and f: "bit fn n \<Longrightarrow> n < 3" for n using masked_bits assms by blast+
  have b8: "bit w n \<Longrightarrow> n < 8" for w :: u8 and n using bit_imp_le_length [of w n] by simp
  have fc: "bit (0xFC :: u32) n \<Longrightarrow> n < 8" "bit (0xFC :: u32) n = bit (0xFC :: u8) n" for n
  proof -
    have "bit (ucast w :: u32) n = bit w n" for w :: u8 using b8 [of w n] by (auto simp: bit_ucast_iff)
    from this [of "0xFC"] show e: "bit (0xFC :: u32) n = bit (0xFC :: u8) n" by simp
    then show "bit (0xFC :: u32) n \<Longrightarrow> n < 8" using b8 by blast
  qed
  show "bit (pci_address bus dev fn off) 31" by (simp add: bit_pci_address)
  show "ucast (drop_bit 16 (pci_address bus dev fn off)) = bus"
    by (rule bit_word_eqI) (auto simp: bit_ucast_iff bit_drop_bit_eq bit_pci_address dest: d f b8 fc(1))
  show "ucast (drop_bit 11 (pci_address bus dev fn off)) AND (mask 5 :: u8) = dev"
    by (rule bit_word_eqI) (auto simp: bit_ucast_iff bit_drop_bit_eq bit_and_iff bit_mask_iff bit_pci_address dest: d f b8 fc(1))
  show "ucast (drop_bit 8 (pci_address bus dev fn off)) AND (mask 3 :: u8) = fn"
    by (rule bit_word_eqI) (auto simp: bit_ucast_iff bit_drop_bit_eq bit_and_iff bit_mask_iff bit_pci_address dest: d f b8 fc(1))
  show "ucast (pci_address bus dev fn off) AND (0xFC :: u8) = off AND 0xFC"
    by (rule bit_word_eqI) (auto simp: bit_ucast_iff bit_and_iff bit_pci_address fc(2) dest: d f b8)
qed

lemma pci_read_reg:
  assumes "decodes cfg cs" "dev AND mask 5 = dev" "fn AND mask 3 = fn"
  shows "pci_read cfg bus dev fn off = cs bus dev fn (off AND 0xFC)"
proof -
  have m: "(0x1F :: u8) = mask 5" "(7 :: u8) = mask 3" by (simp_all add: mask_eq_exp_minus_1)
  note a = pci_address_fields [OF assms(2,3), of bus off]
  show ?thesis using assms(1) a unfolding decodes_def pci_read_def m by metis
qed

section \<open>What the scan finds\<close>

text \<open>The functions in the order of the scan, and the device a function is, from its configuration space.\<close>

definition location :: "nat \<Rightarrow> u8 \<times> u8 \<times> u8" where
  "location i = (of_nat (i div 256), of_nat (i div 8 mod 32), of_nat (i mod 8))"

definition present :: "(u8 \<Rightarrow> u8 \<Rightarrow> u8 \<Rightarrow> u8 \<Rightarrow> u32) \<Rightarrow> u8 \<times> u8 \<times> u8 \<Rightarrow> bool" where
  "present cs l = (case l of (b, d, f) \<Rightarrow> (ucast (cs b d f 0) :: u16) \<notin> {0, 0xFFFF} \<and> (ucast (drop_bit 16 (cs b d f 0)) :: u16) \<notin> {0, 0xFFFF})"

definition device_at :: "(u8 \<Rightarrow> u8 \<Rightarrow> u8 \<Rightarrow> u8 \<Rightarrow> u32) \<Rightarrow> u8 \<times> u8 \<times> u8 \<Rightarrow> pci_device" where
  "device_at cs l = (case l of (b, d, f) \<Rightarrow>
     let r = cs b d f; hdr = ucast (drop_bit 16 (r 0xC)) :: u8 in
     \<lparr>pci_bus = 0, pci_dev = 0, pci_fn = 0, vendor_id = ucast (r 0), device_id = ucast (drop_bit 16 (r 0)),
      class_code = ucast (drop_bit 24 (r 8)), subclass_code = ucast (drop_bit 16 (r 8)), prog_if = ucast (drop_bit 8 (r 8)),
      revision_id = ucast (r 8), bist = ucast (drop_bit 24 (r 0xC)), cache_line_size = ucast (r 0xC),
      latency_timer = ucast (drop_bit 8 (r 0xC)), header_type = hdr,
      base_address_registers = (if hdr AND 0x7F = 0
        then [r 0x10, r 0x14, r 0x18, r 0x1C, r 0x20, r 0x24 AND NOT 0xF] else replicate 6 0)\<rparr>)"

definition found :: "(u8 \<Rightarrow> u8 \<Rightarrow> u8 \<Rightarrow> u8 \<Rightarrow> u32) \<Rightarrow> nat list \<Rightarrow> pci_device list" where
  "found cs is = map (device_at cs) (filter (present cs) (map location is))"

lemma location_words:
  assumes "i < 65536"
  shows "location i = (ucast (drop_bit 8 (of_nat i :: u32) AND 0xFF), ucast (drop_bit 3 (of_nat i :: u32) AND 0x1F), ucast ((of_nat i :: u32) AND 7))"
proof -
  have m: "(0xFF :: u32) = mask 8" "(0x1F :: u32) = mask 5" "(7 :: u32) = mask 3" by (simp_all add: mask_eq_exp_minus_1)
  have u: "unat (of_nat i :: u32) = i" using assms by (simp add: unat_of_nat)
  show ?thesis
    unfolding location_def m take_bit_eq_mask [symmetric]
    by (simp add: word_unat_eq_iff unsigned_ucast_eq unsigned_take_bit_eq unsigned_drop_bit_eq u)
       (use assms in \<open>simp add: take_bit_eq_mod drop_bit_eq_div unat_of_nat\<close>)
qed

lemma location_masked:
  "location i = (b, d, f) \<Longrightarrow> d AND mask 5 = d" "location i = (b, d, f) \<Longrightarrow> f AND mask 3 = f"
proof -
  have m: "(of_nat k :: u8) AND mask n = of_nat k" if "k < 2 ^ n" for k n
    using that unfolding take_bit_eq_mask [symmetric]
    by (metis of_nat_take_bit take_bit_nat_eq_self)
  show "location i = (b, d, f) \<Longrightarrow> d AND mask 5 = d" "location i = (b, d, f) \<Longrightarrow> f AND mask 3 = f"
    using m [of "i div 8 mod 32" 5] m [of "i mod 8" 3] by (auto simp: location_def)
qed

text \<open>\<open>put_device\<close> for each of a list of devices.\<close>

fun put_all :: "pci_device list \<Rightarrow> dev_table \<Rightarrow> dev_table option" where
  "put_all [] t = Some t"
| "put_all (d # ds) t = Option.bind (put_device d t) (put_all ds)"

lemma and_exp_cases: "(h :: u8) AND 2 ^ n \<in> {0, 2 ^ n}"
proof (cases "bit h n")
  case True
  then have "h AND 2 ^ n = 2 ^ n" by (intro bit_word_eqI) (auto simp: bit_and_iff bit_exp_iff)
  then show ?thesis by simp
qed (simp add: and_exp_eq_0_iff_not_bit)

lemma masked_header: "(h :: u8) AND 0x7F = 0 \<longleftrightarrow> h = 0 \<or> h = 0x80"
proof
  assume a: "h AND 0x7F = 0"
  have e: "(0x7F OR 0x80 :: u8) = - 1" by simp
  have "h = h AND (0x7F OR 0x80)" unfolding e by simp
  then have "h = (h AND 0x7F) OR (h AND 0x80)" by (simp only: bit.conj_disj_distrib)
  then have "h = h AND 0x80" using a by simp
  moreover have "h AND 0x80 \<in> {0, 0x80}" using and_exp_cases [of h 7] by simp
  ultimately show "h = 0 \<or> h = 0x80" by auto
qed auto

lemma detect_device:
  assumes "decodes cfg cs" "location i = (b, d, f)"
  shows "pci_device_detect cfg b d f = device_at cs (b, d, f)"
proof -
  note r = pci_read_reg [OF assms(1) location_masked [OF assms(2)], of b]
  have "read_bars cfg b d f = [cs b d f 0x10, cs b d f 0x14, cs b d f 0x18, cs b d f 0x1C, cs b d f 0x20, cs b d f 0x24 AND NOT 0xF]"
  proof -
    have e: "(0xFFFFFFF0 :: u32) = - 16" by simp
    have m: "w AND 0xFFFFFFF0 = w AND - 16" for w :: u32 unfolding e ..
    show ?thesis by (simp add: read_bars_def r upt_rec m)
  qed
  then show ?thesis
    by (simp add: pci_device_detect_def device_at_def r no_device_def Let_def masked_header
        STANDARD_HEADER_SINGLE_FUNCTION_def STANDARD_HEADER_MULTI_FUNCTION_def)
qed

lemma scan_loop_put_all:
  assumes "decodes cfg cs" "\<forall>i\<in>set is. i < 65536"
  shows "scan_loop cfg is t = put_all (found cs is) t"
  using assms(2)
proof (induction "is" arbitrary: t)
  case (Cons i "is")
  obtain b d f where l: "location i = (b, d, f)" by (cases "location i")
  have w: "ucast (drop_bit 8 (of_nat i :: u32) AND 0xFF) = b" "ucast (drop_bit 3 (of_nat i :: u32) AND 0x1F) = d"
    "ucast ((of_nat i :: u32) AND 7) = f" using location_words [of i] Cons.prems l by simp_all
  note r = pci_read_reg [OF assms(1) location_masked [OF l], of b 0]
  have "scan_loop cfg (i # is) t = (if present cs (b, d, f)
      then Option.bind (put_device (device_at cs (b, d, f)) t) (scan_loop cfg is) else scan_loop cfg is t)"
    using r detect_device [OF assms(1) l] by (auto simp: w present_def Let_def)
  moreover have "scan_loop cfg is = put_all (found cs is)" using Cons by (intro ext) simp
  ultimately show ?case using l by (simp add: found_def)
qed (simp add: found_def)

section \<open>Tables as lists\<close>

text \<open>A table of \<open>n\<close> entries of which the first ones are in use.\<close>

definition table_holds :: "nat \<Rightarrow> pci_device list \<Rightarrow> dev_table \<Rightarrow> bool" where
  "table_holds n xs t \<longleftrightarrow> cnt t = length xs \<and> (\<exists>a. tab t = Some a \<and> length a = n \<and> take (length xs) a = xs)"

lemma put_device_holds:
  assumes "table_holds n xs t"
  shows "length xs < n \<Longrightarrow> \<exists>t'. put_device d t = Some t' \<and> table_holds n (xs @ [d]) t'"
    and "n \<le> length xs \<Longrightarrow> put_device d t = None"
  using assms by (auto simp: table_holds_def put_device_def take_Suc_conv_app_nth)

lemma put_all_holds:
  assumes "table_holds n xs t"
  shows "length xs + length ds \<le> n \<Longrightarrow> \<exists>t'. put_all ds t = Some t' \<and> table_holds n (xs @ ds) t'"
    and "length xs \<le> n \<Longrightarrow> n < length xs + length ds \<Longrightarrow> put_all ds t = None"
  using assms
proof (induction ds arbitrary: xs t)
  case (Cons d ds)
  {
    case 1
    obtain t1 where "put_device d t = Some t1" "table_holds n (xs @ [d]) t1" using put_device_holds(1) [OF 1(2), of d] 1(1) by auto
    then show ?case using Cons.IH(1) [of "xs @ [d]" t1] 1(1) by auto
  next
    case 2
    show ?case
    proof (cases "length xs < n")
      case True
      then obtain t1 where "put_device d t = Some t1" "table_holds n (xs @ [d]) t1" using put_device_holds(1) [OF 2(3), of d] by auto
      then show ?thesis using Cons.IH(2) [of "xs @ [d]" t1] 2(2) True by auto
    next
      case False
      then show ?thesis using put_device_holds(2) [OF 2(3), of d] by simp
    qed
  }
qed auto

lemma table_get_holds: "table_holds n xs t \<Longrightarrow> k < length xs \<Longrightarrow> table_get t (int k) = Some (xs ! k)"
proof -
  assume a: "table_holds n xs t" "k < length xs"
  then obtain b where "tab t = Some b" "take (length xs) b = xs" "cnt t = length xs" by (auto simp: table_holds_def)
  then show ?thesis using a(2) nth_take [of k "length xs" b] by (simp add: table_get_def)
qed

section \<open>Sorting by class\<close>

definition of_class :: "ctrl_class \<Rightarrow> pci_device \<Rightarrow> bool" where
  "of_class c d \<longleftrightarrow> class_code d = class_no c"

definition sorted_tables :: "pci_device list \<Rightarrow> controllers \<Rightarrow> bool" where
  "sorted_tables ds st \<longleftrightarrow> (\<forall>c. table_holds 32 (filter (of_class c) ds) (by_class st c))"

lemma sort_tests_ok:
  assumes "\<forall>c. table_holds 32 (xs c) (by_class st c)" "\<forall>c\<in>set cl. of_class c d \<longrightarrow> length (xs c) < 32" "distinct cl"
  shows "\<exists>st'. sort_tests cl d st = Some st' \<and> pci_devices st' = pci_devices st
     \<and> (\<forall>c. table_holds 32 (if c \<in> set cl \<and> of_class c d then xs c @ [d] else xs c) (by_class st' c))"
  using assms
proof (induction cl arbitrary: st xs)
  case (Cons k cl)
  show ?case
  proof (cases "of_class k d")
    case False
    then have "sort_into k d st = Some st" by (simp add: sort_into_def of_class_def)
    moreover obtain st' where st': "sort_tests cl d st = Some st'" "pci_devices st' = pci_devices st"
      "\<forall>c. table_holds 32 (if c \<in> set cl \<and> of_class c d then xs c @ [d] else xs c) (by_class st' c)"
      using Cons.IH [OF Cons.prems(1)] Cons.prems(2,3) by auto
    moreover have "table_holds 32 (if c \<in> set (k # cl) \<and> of_class c d then xs c @ [d] else xs c) (by_class st' c)" for c
      using spec [OF st'(3), of c] False by (auto split: if_splits)
    ultimately show ?thesis by auto
  next
    case True
    then obtain t where t: "put_device d (by_class st k) = Some t" "table_holds 32 (xs k @ [d]) t"
      using put_device_holds(1) [of 32 "xs k" "by_class st k" d] Cons.prems by auto
    define st1 where "st1 = st\<lparr>by_class := (by_class st)(k := t)\<rparr>"
    have s1: "sort_into k d st = Some st1" using True t(1) by (simp add: sort_into_def of_class_def st1_def)
    have h: "\<forall>c. table_holds 32 ((xs(k := xs k @ [d])) c) (by_class st1 c)" using Cons.prems(1) t(2) by (simp add: st1_def)
    have l: "\<forall>c\<in>set cl. of_class c d \<longrightarrow> length ((xs(k := xs k @ [d])) c) < 32" using Cons.prems(2,3) by auto
    obtain st' where st': "sort_tests cl d st1 = Some st'" "pci_devices st' = pci_devices st1"
      "\<forall>c. table_holds 32 (if c \<in> set cl \<and> of_class c d then (xs(k := xs k @ [d])) c @ [d] else (xs(k := xs k @ [d])) c) (by_class st' c)"
      using Cons.IH [OF h l] Cons.prems(3) by auto
    have "table_holds 32 (if c \<in> set (k # cl) \<and> of_class c d then xs c @ [d] else xs c) (by_class st' c)" for c
      using spec [OF st'(3), of c] Cons.prems(3) True by (cases "c = k") auto
    then show ?thesis using s1 st'(1,2) by (auto simp: st1_def)
  qed
qed auto

lemma all_classes: "c \<in> set [MASS_STORAGE, NETWORK, WIRELESS, DISPLAY, MEMORY, INPUT_DEVICE, SERIAL_BUS, BRIDGE]"
  by (cases c) auto

lemma sort_loop_ok:
  assumes "table_holds 256 ds (pci_devices st)" "sorted_tables (take k ds) st" "k + n = length ds"
    and "\<forall>c. length (filter (of_class c) ds) \<le> 32"
  shows "\<exists>st'. sort_loop (map int [k..<k + n]) st = Some st' \<and> pci_devices st' = pci_devices st \<and> sorted_tables ds st'"
  using assms(1-3)
proof (induction n arbitrary: k st)
  case (Suc n)
  define d where "d = ds ! k"
  have k: "k < length ds" using Suc.prems(3) by simp
  then have tk: "take (Suc k) ds = take k ds @ [d]" by (simp add: d_def take_Suc_conv_app_nth)
  have g: "get_pci_controller st (int k) = Some d" using table_get_holds [OF Suc.prems(1) k] by (simp add: get_pci_controller_def d_def)
  have room: "of_class c d \<longrightarrow> length (filter (of_class c) (take k ds)) < 32" for c
  proof
    assume "of_class c d"
    then have "length (filter (of_class c) (take (Suc k) ds)) = Suc (length (filter (of_class c) (take k ds)))" by (simp add: tk)
    moreover have "filter (of_class c) ds = filter (of_class c) (take (Suc k) ds) @ filter (of_class c) (drop (Suc k) ds)"
      by (metis append_take_drop_id filter_append)
    then have "length (filter (of_class c) (take (Suc k) ds)) \<le> length (filter (of_class c) ds)" by simp
    ultimately show "length (filter (of_class c) (take k ds)) < 32" using spec [OF assms(4), of c] by simp
  qed
  obtain st1 where st1: "sort_tests [MASS_STORAGE, NETWORK, WIRELESS, DISPLAY, MEMORY, INPUT_DEVICE, SERIAL_BUS, BRIDGE] d st = Some st1"
    "pci_devices st1 = pci_devices st"
    "\<forall>c. table_holds 32 (if c \<in> set [MASS_STORAGE, NETWORK, WIRELESS, DISPLAY, MEMORY, INPUT_DEVICE, SERIAL_BUS, BRIDGE] \<and> of_class c d
        then filter (of_class c) (take k ds) @ [d] else filter (of_class c) (take k ds)) (by_class st1 c)"
    using sort_tests_ok [of "\<lambda>c. filter (of_class c) (take k ds)" st
        "[MASS_STORAGE, NETWORK, WIRELESS, DISPLAY, MEMORY, INPUT_DEVICE, SERIAL_BUS, BRIDGE]" d] Suc.prems(2) room
    by (auto simp: sorted_tables_def simp del: sort_tests.simps)
  have "table_holds 32 (filter (of_class c) (take (Suc k) ds)) (by_class st1 c)" for c
    using spec [OF st1(3), of c] all_classes [of c] by (simp add: tk split: if_splits)
  then have "sorted_tables (take (Suc k) ds) st1" by (simp add: sorted_tables_def)
  then obtain st' where "sort_loop (map int [Suc k..<Suc k + n]) st1 = Some st'" "pci_devices st' = pci_devices st1" "sorted_tables ds st'"
    using Suc.IH [of st1 "Suc k"] Suc.prems(1,3) st1(2) by auto
  moreover have "[k..<k + Suc n] = k # [Suc k..<Suc k + n]" by (simp add: upt_conv_Cons)
  ultimately show ?case using g st1(1,2) by (simp del: sort_tests.simps)
qed simp

section \<open>The scan as a whole\<close>

definition functions_of :: "(u8 \<Rightarrow> u8 \<Rightarrow> u8 \<Rightarrow> u8 \<Rightarrow> u32) \<Rightarrow> pci_device list" where
  "functions_of cs = found cs [0..<65536]"

definition no_controllers :: controllers where
  "no_controllers = \<lparr>pci_devices = \<lparr>tab = None, cnt = 0\<rparr>, by_class = (\<lambda>_. \<lparr>tab = None, cnt = 0\<rparr>)\<rparr>"

lemma pci_scan_put_all:
  assumes "decodes cfg cs" "pci_exists cfg"
  shows "pci_scan cfg t = put_all (functions_of cs) t"
  using scan_loop_put_all [OF assms(1), of "[0..<65536]" t] assms(2) by (simp add: pci_scan_def functions_of_def)

lemma alloc_tables:
  assumes "\<forall>i. heap_ok i"
  shows "table_holds 256 [] (pci_devices (alloc_controllers_memory heap_ok no_controllers))"
    and "sorted_tables [] (alloc_controllers_memory heap_ok no_controllers)"
proof -
  show "table_holds 256 [] (pci_devices (alloc_controllers_memory heap_ok no_controllers))"
    using assms by (simp add: alloc_controllers_memory_def no_controllers_def alloc_table_def alloc_class_def
        MAX_PCI_CONTROLLERS_def table_holds_def Let_def)
  have "table_holds 32 [] (by_class (alloc_controllers_memory heap_ok no_controllers) c)" for c
    using assms by (cases c) (simp_all add: alloc_controllers_memory_def no_controllers_def alloc_table_def alloc_class_def
        MAX_PCI_CONTROLLERS_def table_holds_def Let_def)
  then show "sorted_tables [] (alloc_controllers_memory heap_ok no_controllers)" by (simp add: sorted_tables_def)
qed

lemma init_controllers_sorts:
  assumes "decodes cfg cs" "pci_exists cfg" "\<forall>i. heap_ok i"
    and "length (functions_of cs) \<le> 256" "\<forall>c. length (filter (of_class c) (functions_of cs)) \<le> 32"
  shows "\<exists>st. init_controllers heap_ok cfg no_controllers = Some st \<and> table_holds 256 (functions_of cs) (pci_devices st)
     \<and> sorted_tables (functions_of cs) st"
proof -
  define st0 where "st0 = alloc_controllers_memory heap_ok no_controllers"
  note al = alloc_tables [OF assms(3), folded st0_def]
  obtain t where t: "put_all (functions_of cs) (pci_devices st0) = Some t" "table_holds 256 (functions_of cs) t"
    using put_all_holds(1) [OF al(1), of "functions_of cs"] assms(4) by auto
  define st1 where "st1 = st0\<lparr>pci_devices := t\<rparr>"
  have h1: "table_holds 256 (functions_of cs) (pci_devices st1)" "sorted_tables (take 0 (functions_of cs)) st1"
    using t(2) al(2) by (simp_all add: st1_def sorted_tables_def)
  have tt: "tab t \<noteq> None" "cnt t = length (functions_of cs)" using t(2) by (auto simp: table_holds_def)
  have run: "init_controllers heap_ok cfg no_controllers = (if cnt t = 0 then Some st1 else sort_loop (map int [0..<cnt t]) st1)"
    using pci_scan_put_all [OF assms(1,2)] t(1) tt(1) by (auto simp: init_controllers_def Let_def st0_def [symmetric] st1_def)
  show ?thesis
  proof (cases "functions_of cs = []")
    case True
    then show ?thesis using run tt(2) h1 by simp
  next
    case False
    then show ?thesis using run tt(2) h1(1) sort_loop_ok [OF h1 _ assms(5), of "length (functions_of cs)"] by auto
  qed
qed

text \<open>
  A machine with more than 256 functions overruns the table of devices; so does one without memory for the table as soon as
  one function answers, since the pointer is tested after the scan.
\<close>

lemma pci_scan_overruns:
  assumes "decodes cfg cs" "pci_exists cfg"
  shows "heap_ok 0 \<Longrightarrow> 256 < length (functions_of cs) \<Longrightarrow> init_controllers heap_ok cfg no_controllers = None"
    and "\<not> heap_ok 0 \<Longrightarrow> functions_of cs \<noteq> [] \<Longrightarrow> init_controllers heap_ok cfg no_controllers = None"
proof -
  assume h: "heap_ok 0" "256 < length (functions_of cs)"
  then have "table_holds 256 [] (pci_devices (alloc_controllers_memory heap_ok no_controllers))"
    by (simp add: alloc_controllers_memory_def no_controllers_def alloc_table_def alloc_class_def MAX_PCI_CONTROLLERS_def
        table_holds_def Let_def)
  then show "init_controllers heap_ok cfg no_controllers = None"
    using put_all_holds(2) [of 256 "[]"] h(2) by (simp add: init_controllers_def pci_scan_put_all [OF assms] Let_def)
next
  assume h: "\<not> heap_ok 0" "functions_of cs \<noteq> []"
  then show "init_controllers heap_ok cfg no_controllers = None"
    by (cases "functions_of cs") (simp_all add: init_controllers_def pci_scan_put_all [OF assms] Let_def alloc_controllers_memory_def
        no_controllers_def alloc_table_def put_device_def)
qed

end
