(* ===== verification/DiskScan.thy ===== *)
theory DiskScan
  imports Ahci Disk Pci
begin

text \<open>
  The detection of disks: \<open>kebla_get_disks\<close> (kernel/src/driver/disk/disk.c) walks the mass storage controllers the PCI
  scan has found and the ports of every AHCI controller and fills the table of disks.

  The registers of the controllers are a parameter: the implemented-ports mask and the ports of the controller mapped at
  a virtual address. The controllers are the entries in use of the table of mass storage controllers. A disk's context is the address of its port. The rebasing of a port is the subject of the
  controller theory and does not change what the disk stack sees of a drive. \<open>None\<close> is an access past the end
  of an array.
\<close>

record hba =
  hba_pi :: "u64 \<Rightarrow> u32"
  hba_port :: "u64 \<Rightarrow> nat \<Rightarrow> HBA_PORT"

definition port_addr :: "u64 \<Rightarrow> nat \<Rightarrow> nat" where
  "port_addr abar i = unat (abar + 0x100 + of_nat (0x80 * i))"

definition no_disk :: Disk where
  "no_disk = \<lparr>d_initialized = False, d_type = DISK_TYPE_UNKNOWN, d_bytes_per_sector = 0, d_total_sectors = 0,
     d_root_directory_sector = 0, d_root_directory_size = 0, d_pvd_sector = 0, d_context = None\<rparr>"

text \<open>The assignments to \<open>disks[disk_count]\<close> for a drive of a given type and geometry.\<close>

definition enter_disk :: "DiskType \<Rightarrow> nat \<Rightarrow> u16 \<Rightarrow> u64 \<Rightarrow> 'a disk_sys_scheme \<Rightarrow> (int \<times> 'a disk_sys_scheme + 'a disk_sys_scheme) option" where
  "enter_disk ty ctx bps tot s =
     Option.bind (get_disk (disk_count s) s) (\<lambda>d.
       let d = d\<lparr>d_type := ty, d_context := Some ctx, d_bytes_per_sector := bps, d_total_sectors := tot\<rparr>
       in if bps = 0 \<or> tot = 0 then Some (Inr (put_disk (disk_count s) d s))
          else let s' = put_disk (disk_count s) (d\<lparr>d_initialized := True\<rparr>) s
               in if disk_count s \<ge> MAX_TOTAL_DISKS then Some (Inl (disk_count s, s'))
                  else Some (Inr (s'\<lparr>disk_count := disk_count s + 1\<rparr>)))"

definition port_live :: "HBA_PORT \<Rightarrow> bool" where
  "port_live p \<longleftrightarrow> (p_ssts p AND 0x0F) = 3 \<and> (drop_bit 8 (p_ssts p) AND 0x0F) = 1"

definition scan_port :: "hba \<Rightarrow> u64 \<Rightarrow> nat \<Rightarrow> 'a disk_sys_scheme \<Rightarrow> (int \<times> 'a disk_sys_scheme + 'a disk_sys_scheme) option" where
  "scan_port h abar i s =
     (if \<not> bit (hba_pi h abar) i then Some (Inr s)
      else let p = hba_port h abar i; ctx = port_addr abar i
        in if \<not> port_live p then Some (Inr s)
           else case checkType (Some p) of
             AHCI_DEV_SATA \<Rightarrow> enter_disk DISK_TYPE_AHCI_SATA ctx (sata_get_bytes_per_sector (drives s ctx)) (sata_get_total_sectors (drives s ctx)) s
           | AHCI_DEV_SATAPI \<Rightarrow> enter_disk DISK_TYPE_SATAPI ctx
               (satapi_get_bytes_per_sector (optical s ctx) (disk_malloc_ok s)) (satapi_get_total_sectors (optical s ctx) (disk_malloc_ok s)) s
           | _ \<Rightarrow> Some (Inr s))"

fun scan_ports :: "hba \<Rightarrow> u64 \<Rightarrow> nat list \<Rightarrow> 'a disk_sys_scheme \<Rightarrow> (int \<times> 'a disk_sys_scheme + 'a disk_sys_scheme) option" where
  "scan_ports h abar [] s = Some (Inr s)"
| "scan_ports h abar (i # is) s =
     (case scan_port h abar i s of
        None \<Rightarrow> None
      | Some (Inl r) \<Rightarrow> Some (Inl r)
      | Some (Inr s) \<Rightarrow> scan_ports h abar is s)"

text \<open>One controller; BAR 5 of a 64-bit region is completed with the register after the last of the array.\<close>

definition scan_controller :: "hba \<Rightarrow> u64 \<Rightarrow> pci_device \<Rightarrow> 'a disk_sys_scheme \<Rightarrow> (int \<times> 'a disk_sys_scheme + 'a disk_sys_scheme) option" where
  "scan_controller h hhdm dev s =
     (if class_code dev = 0x01 \<and> subclass_code dev = 0x6 \<and> prog_if dev = 0x01
      then let bar5_val = base_address_registers dev ! 5
        in if bar5_val AND 0x6 = 0x4 then None
           else let bar5 = (ucast bar5_val :: u64) AND NOT 0xF
             in if bar5 = 0 then Some (Inl (-1, s))
                else let abar = bar5 + hhdm
                  in if abar = 0 then Some (Inl (-1, s))
                     else if disk_count s \<ge> MAX_TOTAL_DISKS then Some (Inl (disk_count s, s))
                     else scan_ports h abar [0..<32] s
      else Some (Inr s))"

fun scan_controllers :: "hba \<Rightarrow> u64 \<Rightarrow> pci_device list \<Rightarrow> 'a disk_sys_scheme \<Rightarrow> (int \<times> 'a disk_sys_scheme) option" where
  "scan_controllers h hhdm [] s = Some (disk_count s, s)"
| "scan_controllers h hhdm (d # ds) s =
     (case scan_controller h hhdm d s of
        None \<Rightarrow> None
      | Some (Inl r) \<Rightarrow> Some r
      | Some (Inr s) \<Rightarrow> scan_controllers h hhdm ds s)"

text \<open>\<open>sizeof(Disk)\<close> is 48.\<close>

definition kebla_get_disks :: "hba \<Rightarrow> u64 \<Rightarrow> pci_device list \<Rightarrow> 'a disk_sys_scheme \<Rightarrow> (int \<times> 'a disk_sys_scheme) option" where
  "kebla_get_disks h hhdm controllers s =
     (let s = s\<lparr>disk_count := 0\<rparr>
      in if disks s = None \<and> \<not> disk_malloc_ok s (48 * 2) then Some (-1, s)
         else scan_controllers h hhdm controllers (s\<lparr>disks := Some [no_disk, no_disk]\<rparr>))"

section \<open>What the scan finds\<close>

text \<open>The drive at a port as a table entry, \<open>None\<close> for a port without a disk.\<close>

definition port_entry :: "hba \<Rightarrow> u64 \<Rightarrow> 'a disk_sys_scheme \<Rightarrow> nat \<Rightarrow> Disk option" where
  "port_entry h abar s i =
     (let p = hba_port h abar i; ctx = port_addr abar i;
          e = (\<lambda>ty bps tot. Some (no_disk\<lparr>d_initialized := True, d_type := ty, d_bytes_per_sector := bps, d_total_sectors := tot, d_context := Some ctx\<rparr>))
      in if \<not> bit (hba_pi h abar) i \<or> \<not> port_live p then None
         else case checkType (Some p) of
           AHCI_DEV_SATA \<Rightarrow> e DISK_TYPE_AHCI_SATA (sata_get_bytes_per_sector (drives s ctx)) (sata_get_total_sectors (drives s ctx))
         | AHCI_DEV_SATAPI \<Rightarrow> e DISK_TYPE_SATAPI (satapi_get_bytes_per_sector (optical s ctx) (disk_malloc_ok s))
             (satapi_get_total_sectors (optical s ctx) (disk_malloc_ok s))
         | _ \<Rightarrow> None)"

definition usable :: "Disk \<Rightarrow> bool" where
  "usable d \<longleftrightarrow> d_bytes_per_sector d \<noteq> 0 \<and> d_total_sectors d \<noteq> 0"

definition found_disks :: "hba \<Rightarrow> u64 \<Rightarrow> 'a disk_sys_scheme \<Rightarrow> nat list \<Rightarrow> Disk list" where
  "found_disks h abar s is = filter usable (List.map_filter (port_entry h abar s) is)"

text \<open>The table during the scan: the disks found so far, then entries that no usable drive has claimed.\<close>

definition table_is :: "Disk list \<Rightarrow> 'a disk_sys_scheme \<Rightarrow> bool" where
  "table_is fs s \<longleftrightarrow> disk_count s = int (length fs) \<and> length fs \<le> 2 \<and>
     (\<exists>rest. disks s = Some (fs @ rest) \<and> length (fs @ rest) = 2 \<and>
        (\<forall>d \<in> set rest. d_initialized d = False \<and> d_root_directory_sector d = 0 \<and> d_root_directory_size d = 0 \<and> d_pvd_sector d = 0))"

definition same_hw :: "'a disk_sys_scheme \<Rightarrow> 'a disk_sys_scheme \<Rightarrow> bool" where
  "same_hw s s' \<longleftrightarrow> drives s' = drives s \<and> optical s' = optical s \<and> disk_malloc_ok s' = disk_malloc_ok s"

lemma scan_port_entry:
  assumes t: "table_is fs s" and hw: "same_hw s0 s"
  shows "case port_entry h abar s0 i of
      None \<Rightarrow> scan_port h abar i s = Some (Inr s)
    | Some e \<Rightarrow> if length fs = 2 then scan_port h abar i s = None
        else \<exists>s'. scan_port h abar i s = Some (Inr s') \<and> same_hw s0 s' \<and> table_is (if usable e then fs @ [e] else fs) s'"
proof (cases "port_entry h abar s0 i")
  case None
  then show ?thesis
    by (auto simp: port_entry_def scan_port_def Let_def split: if_splits AHCI_DEVICE_TYPE.splits)
next
  case (Some e)
  obtain ty bps tot where e: "e = no_disk\<lparr>d_initialized := True, d_type := ty, d_bytes_per_sector := bps, d_total_sectors := tot, d_context := Some (port_addr abar i)\<rparr>"
    and run: "scan_port h abar i s = enter_disk ty (port_addr abar i) bps tot s"
    using Some hw by (auto simp: port_entry_def scan_port_def Let_def same_hw_def split: if_splits AHCI_DEVICE_TYPE.splits)
  obtain rest where c: "disk_count s = int (length fs)" "length fs \<le> 2" "disks s = Some (fs @ rest)" "length (fs @ rest) = 2"
      and clean: "\<forall>d \<in> set rest. d_initialized d = False \<and> d_root_directory_sector d = 0 \<and> d_root_directory_size d = 0 \<and> d_pvd_sector d = 0"
    using t unfolding table_is_def by blast
  show ?thesis
  proof (cases "length fs = 2")
    case True
    then have "scan_port h abar i s = None" using c by (simp add: run enter_disk_def get_disk_def)
    then show ?thesis using Some True by simp
  next
    case False
    then obtain d r where r: "rest = d # r" using c(2,4) by (cases rest) auto
    then have d: "get_disk (disk_count s) s = Some d" using c by (simp add: get_disk_def nth_append)
    have cl: "d_initialized d = False" "d_root_directory_sector d = 0" "d_root_directory_size d = 0" "d_pvd_sector d = 0"
      using clean r by simp_all
    have put: "disks (put_disk (disk_count s) x s) = Some (fs @ x # r)" for x
      using c r by (simp add: put_disk_def)
    have rest': "disk_count (put_disk (disk_count s) x s) = disk_count s" "same_hw s0 (put_disk (disk_count s) x s)" for x
      using hw by (simp_all add: put_disk_def same_hw_def)
    define d1 where "d1 = d\<lparr>d_type := ty, d_context := Some (port_addr abar i), d_bytes_per_sector := bps, d_total_sectors := tot\<rparr>"
    have e1: "d1\<lparr>d_initialized := True\<rparr> = e" using cl by (simp add: d1_def e no_disk_def)
    have us: "usable e \<longleftrightarrow> bps \<noteq> 0 \<and> tot \<noteq> 0" by (simp add: e usable_def)
    show ?thesis
    proof (cases "usable e")
      case True
      then have "scan_port h abar i s = Some (Inr ((put_disk (disk_count s) e s)\<lparr>disk_count := disk_count s + 1\<rparr>))"
        using us c(1,2) False d e1 by (simp add: run enter_disk_def d1_def [symmetric] MAX_TOTAL_DISKS_def Let_def)
      moreover have "table_is (fs @ [e]) ((put_disk (disk_count s) e s)\<lparr>disk_count := disk_count s + 1\<rparr>)"
        using c False r clean put by (auto simp: table_is_def)
      moreover have "same_hw s0 ((put_disk (disk_count s) e s)\<lparr>disk_count := disk_count s + 1\<rparr>)" using rest'(2) by (simp add: same_hw_def)
      ultimately show ?thesis using Some False True by simp
    next
      case False
      then have "scan_port h abar i s = Some (Inr (put_disk (disk_count s) d1 s))"
        using us d by (auto simp: run enter_disk_def d1_def [symmetric] Let_def)
      moreover have "table_is fs (put_disk (disk_count s) d1 s)"
      proof -
        have "d_initialized d1 = False \<and> d_root_directory_sector d1 = 0 \<and> d_root_directory_size d1 = 0 \<and> d_pvd_sector d1 = 0"
          using cl by (simp add: d1_def)
        then show ?thesis using c r clean put rest'(1) by (auto simp: table_is_def intro!: exI [of _ "d1 # r"])
      qed
      ultimately show ?thesis using Some False \<open>length fs \<noteq> 2\<close> rest'(2) by simp
    qed
  qed
qed

lemma found_disks_Cons:
  "found_disks h abar s (i # is) = (case port_entry h abar s i of
     None \<Rightarrow> found_disks h abar s is
   | Some e \<Rightarrow> if usable e then e # found_disks h abar s is else found_disks h abar s is)"
  by (simp add: found_disks_def map_filter_simps split: option.split)

lemma scan_ports_found:
  assumes "table_is fs s" "same_hw s0 s" "length fs + length (List.map_filter (port_entry h abar s0) is) \<le> 2"
  shows "\<exists>s'. scan_ports h abar is s = Some (Inr s') \<and> same_hw s0 s' \<and> table_is (fs @ found_disks h abar s0 is) s'"
  using assms
proof (induction "is" arbitrary: fs s)
  case Nil
  then show ?case by (simp add: found_disks_def map_filter_simps)
next
  case (Cons i "is")
  show ?case
  proof (cases "port_entry h abar s0 i")
    case None
    then show ?thesis using scan_port_entry [OF Cons.prems(1,2), of h abar i] Cons.IH [OF Cons.prems(1,2)] Cons.prems(3)
      by (simp add: found_disks_Cons map_filter_simps)
  next
    case (Some e)
    then have "length fs \<noteq> 2" using Cons.prems(3) by (simp add: map_filter_simps)
    then obtain s' where s': "scan_port h abar i s = Some (Inr s')" "same_hw s0 s'" "table_is (if usable e then fs @ [e] else fs) s'"
      using scan_port_entry [OF Cons.prems(1,2), of h abar i] Some by auto
    show ?thesis using Cons.IH [OF s'(3,2)] Cons.prems(3) Some s'(1)
      by (cases "usable e") (simp_all add: found_disks_Cons map_filter_simps)
  qed
qed

lemma scan_ports_overrun:
  assumes "table_is fs s" "same_hw s0 s" "2 < length fs + length (found_disks h abar s0 is)"
  shows "scan_ports h abar is s = None"
  using assms
proof (induction "is" arbitrary: fs s)
  case Nil
  then show ?case by (simp add: table_is_def found_disks_def map_filter_simps)
next
  case (Cons i "is")
  show ?case
  proof (cases "port_entry h abar s0 i")
    case None
    then show ?thesis using scan_port_entry [OF Cons.prems(1,2), of h abar i] Cons.IH [OF Cons.prems(1,2)] Cons.prems(3)
      by (simp add: found_disks_Cons)
  next
    case (Some e)
    show ?thesis
    proof (cases "length fs = 2")
      case True
      then show ?thesis using scan_port_entry [OF Cons.prems(1,2), of h abar i] Some by simp
    next
      case False
      then obtain s' where s': "scan_port h abar i s = Some (Inr s')" "same_hw s0 s'" "table_is (if usable e then fs @ [e] else fs) s'"
        using scan_port_entry [OF Cons.prems(1,2), of h abar i] Some by auto
      show ?thesis using Cons.IH [OF s'(3,2)] Cons.prems(3) Some s'(1)
        by (cases "usable e") (simp_all add: found_disks_Cons)
    qed
  qed
qed

definition is_ahci :: "pci_device \<Rightarrow> bool" where
  "is_ahci dev \<longleftrightarrow> class_code dev = 0x01 \<and> subclass_code dev = 0x6 \<and> prog_if dev = 0x01"

text \<open>The virtual address at which the registers of a controller with a 32-bit BAR 5 are mapped.\<close>

definition abar_of :: "u64 \<Rightarrow> pci_device \<Rightarrow> u64" where
  "abar_of hhdm dev = ((ucast (base_address_registers dev ! 5) :: u64) AND NOT 0xF) + hhdm"

definition bar5_ok :: "u64 \<Rightarrow> pci_device \<Rightarrow> bool" where
  "bar5_ok hhdm dev \<longleftrightarrow> base_address_registers dev ! 5 AND 0x6 \<noteq> 0x4
     \<and> (ucast (base_address_registers dev ! 5) :: u64) AND NOT 0xF \<noteq> 0 \<and> abar_of hhdm dev \<noteq> 0"

lemma scan_controllers_skip:
  "\<not> is_ahci d \<Longrightarrow> scan_controllers h hhdm (d # ds) s = scan_controllers h hhdm ds s"
  by (auto simp: scan_controller_def is_ahci_def)

lemma scan_controllers_none: "filter is_ahci ds = [] \<Longrightarrow> scan_controllers h hhdm ds s = Some (disk_count s, s)"
  by (induction ds) (auto simp: scan_controllers_skip simp del: scan_controllers.simps(2) split: if_splits)

lemma scan_controllers_one:
  assumes "filter is_ahci ds = [dev]" "bar5_ok hhdm dev" "disk_count s < MAX_TOTAL_DISKS"
  shows "scan_controllers h hhdm ds s = (case scan_ports h (abar_of hhdm dev) [0..<32] s of
      None \<Rightarrow> None | Some (Inl r) \<Rightarrow> Some r | Some (Inr s') \<Rightarrow> Some (disk_count s', s'))"
  using assms(1)
proof (induction ds)
  case (Cons d ds)
  show ?case
  proof (cases "is_ahci d")
    case True
    then have d: "d = dev" "filter is_ahci ds = []" using Cons.prems by simp_all
    have "scan_controller h hhdm dev s = scan_ports h (abar_of hhdm dev) [0..<32] s"
      using True d assms(2,3) by (simp add: scan_controller_def is_ahci_def bar5_ok_def abar_of_def Let_def)
    then show ?thesis using d scan_controllers_none [OF d(2)] by (auto split: option.splits sum.splits)
  next
    case False
    then show ?thesis using Cons by (simp add: scan_controllers_skip del: scan_controllers.simps(2))
  qed
qed simp

lemma table_start: "table_is [] (s\<lparr>disk_count := 0, disks := Some [no_disk, no_disk]\<rparr>)"
  by (simp add: table_is_def no_disk_def)

lemma get_disks_scan:
  assumes "filter is_ahci controllers = [dev]" "bar5_ok hhdm dev" "disks s \<noteq> None \<or> disk_malloc_ok s 96"
  shows "kebla_get_disks h hhdm controllers s =
    (case scan_ports h (abar_of hhdm dev) [0..<32] (s\<lparr>disk_count := 0, disks := Some [no_disk, no_disk]\<rparr>) of
      None \<Rightarrow> None | Some (Inl r) \<Rightarrow> Some r | Some (Inr s') \<Rightarrow> Some (disk_count s', s'))"
proof -
  have e: "s\<lparr>disk_count := 0\<rparr>\<lparr>disks := Some [no_disk, no_disk]\<rparr> = s\<lparr>disk_count := 0, disks := Some [no_disk, no_disk]\<rparr>" by simp
  have "kebla_get_disks h hhdm controllers s = scan_controllers h hhdm controllers (s\<lparr>disk_count := 0, disks := Some [no_disk, no_disk]\<rparr>)"
    using assms(3) by (auto simp: kebla_get_disks_def Let_def)
  then show ?thesis
    using scan_controllers_one [OF assms(1,2), of "s\<lparr>disk_count := 0, disks := Some [no_disk, no_disk]\<rparr>" h]
    by (simp add: MAX_TOTAL_DISKS_def)
qed

lemma port_entry_sata:
  "port_entry h abar s i = Some d \<Longrightarrow> d_type d = DISK_TYPE_AHCI_SATA \<Longrightarrow> d_context d = Some p \<Longrightarrow>
   d_total_sectors d = sata_get_total_sectors (drives s p)"
  by (auto simp: port_entry_def Let_def split: if_splits AHCI_DEVICE_TYPE.splits)

section \<open>Properties of the detection\<close>

lemma get_disks_found:
  assumes "filter is_ahci controllers = [dev]" "bar5_ok hhdm dev" "disks s \<noteq> None \<or> disk_malloc_ok s 96"
    and "fs = found_disks h (abar_of hhdm dev) s [0..<32]"
    and "length (List.map_filter (port_entry h (abar_of hhdm dev) s) [0..<32]) \<le> 2"
  shows "\<exists>s'. kebla_get_disks h hhdm controllers s = Some (int (length fs), s') \<and> drives s' = drives s
     \<and> disk_count s' = int (length fs) \<and> (\<forall>k<length fs. get_disk (int k) s' = Some (fs ! k))
     \<and> (\<forall>k<length fs. d_type (fs ! k) = DISK_TYPE_AHCI_SATA \<longrightarrow> (\<forall>p. d_context (fs ! k) = Some p \<longrightarrow> drive_ok (drives s p) \<longrightarrow>
          unat (sata_get_total_sectors (drives s p)) \<le> 2 ^ 48 \<longrightarrow> dev_ok (int k) s'))"
proof -
  define s1 where "s1 = s\<lparr>disk_count := 0, disks := Some [no_disk, no_disk]\<rparr>"
  have "same_hw s s1" by (simp add: s1_def same_hw_def)
  then obtain s' where s': "scan_ports h (abar_of hhdm dev) [0..<32] s1 = Some (Inr s')" "same_hw s s'" "table_is fs s'"
    using scan_ports_found [OF table_start [of s, folded s1_def], of s h "abar_of hhdm dev" "[0..<32]"] assms(4,5) by auto
  then have run: "kebla_get_disks h hhdm controllers s = Some (int (length fs), s')"
    using get_disks_scan [OF assms(1-3), of h] by (simp add: s1_def table_is_def)
  have get: "get_disk (int k) s' = Some (fs ! k)" if "k < length fs" for k
    using s'(3) that by (auto simp: table_is_def get_disk_def nth_append)
  have dev: "dev_ok (int k) s'" if k: "k < length fs" and ty: "d_type (fs ! k) = DISK_TYPE_AHCI_SATA" and p: "d_context (fs ! k) = Some p"
    and ok: "drive_ok (drives s p)" "unat (sata_get_total_sectors (drives s p)) \<le> 2 ^ 48" for k p
  proof -
    have "fs ! k \<in> set fs" using k by simp
    then obtain i where "port_entry h (abar_of hhdm dev) s i = Some (fs ! k)"
      unfolding assms(4) found_disks_def by (auto simp: List.map_filter_def)
    then have tot: "d_total_sectors (fs ! k) = sata_get_total_sectors (drives s p)"
      using ty p by (rule port_entry_sata)
    have "sata_dev (int k) s' = Some p"
      using get [OF k] ty p s'(3) k by (simp add: sata_dev_def table_is_def)
    then show ?thesis using get [OF k] ok tot s'(2) by (simp add: dev_ok_def dev_drive_def dev_cap_def same_hw_def)
  qed
  show ?thesis using run get dev s'(2,3) by (auto simp: same_hw_def table_is_def)
qed

text \<open>
  With a third usable drive on the controller, the scan writes \<open>disks[2]\<close>, past the end of the table of two entries:
  the test of the count comes after the assignments.
\<close>

lemma get_disks_third_drive_overruns:
  assumes "filter is_ahci controllers = [dev]" "bar5_ok hhdm dev" "disks s \<noteq> None \<or> disk_malloc_ok s 96"
    and "2 < length (found_disks h (abar_of hhdm dev) s [0..<32])"
  shows "kebla_get_disks h hhdm controllers s = None"
  using scan_ports_overrun [OF table_start [of s], of s h "abar_of hhdm dev" "[0..<32]"] get_disks_scan [OF assms(1-3), of h] assms(4)
  by (simp add: same_hw_def)

lemma clear_low_ucast: "(ucast (r AND NOT (mask k) :: u32) :: u64) AND NOT (mask k) = ucast (r AND NOT (mask k))"
  by (rule bit_word_eqI) (auto simp: bit_simps)

lemma ucast_up_0: "(ucast (x :: u32) :: u64) = 0 \<longleftrightarrow> x = 0"
proof -
  have "unat x < 2 ^ 64" by (rule order_less_le_trans [OF unsigned_less]) simp
  then have "unat (ucast x :: u64) = unat x" by (simp add: unsigned_ucast_eq take_bit_nat_eq_self)
  then show ?thesis by (metis unat_eq_zero)
qed

text \<open>
  The scan clears the low four bits of BAR 5, so the test for a 64-bit register never succeeds and its upper half is
  never read: a controller is found at the lower half of its address.
\<close>

lemma scanned_bar5:
  assumes "dev \<in> set (functions_of cs)" "base_address_registers dev ! 5 \<noteq> 0" "abar_of hhdm dev \<noteq> 0"
  shows "bar5_ok hhdm dev"
proof -
  obtain l where l: "dev = device_at cs l" using assms(1) by (auto simp: functions_of_def found_def)
  obtain b d f where "l = (b, d, f)" by (cases l)
  then obtain r where r: "base_address_registers dev ! 5 = r AND NOT 0xF"
    using l assms(2) by (auto simp: device_at_def Let_def split: if_splits)
  have m: "(0xF :: u32) = mask 4" "(0xF :: u64) = mask 4" by (simp_all add: mask_eq_exp_minus_1)
  have "(r AND NOT 0xF) AND 0x6 = 0" by (simp add: and.assoc)
  moreover have "(ucast (r AND NOT 0xF) :: u64) AND NOT 0xF = ucast (r AND NOT 0xF)" unfolding m by (rule clear_low_ucast)
  ultimately show ?thesis using assms(2,3) ucast_up_0 [of "r AND NOT 0xF"] unfolding bar5_ok_def r by simp
qed

text \<open>
  C8. From the bus to the block devices. On a machine whose configuration space answers as documented, with at most 256
  functions, 32 per class, one AHCI controller and at most two drives on it, \<open>init_controllers\<close> enters every
  function into the tables, and \<open>kebla_get_disks\<close> over the table of mass storage controllers returns the number of
  drives that report a geometry. The table of disks lists them in port order with their type, geometry and
  port, and each SATA disk in it whose drive works is a block device that satisfies the contract the file
  systems are proved against.
\<close>

theorem boot_lists_disks:
  assumes "decodes cfg cs" "pci_exists cfg" "\<forall>i. heap_ok i"
    and "length (functions_of cs) \<le> 256" "\<forall>c. length (filter (of_class c) (functions_of cs)) \<le> 32"
    and dev: "filter is_ahci (functions_of cs) = [dev]" "base_address_registers dev ! 5 \<noteq> 0" "abar_of hhdm dev \<noteq> 0"
    and "disks s \<noteq> None \<or> disk_malloc_ok s 96"
    and "fs = found_disks h (abar_of hhdm dev) s [0..<32]"
    and "length (List.map_filter (port_entry h (abar_of hhdm dev) s) [0..<32]) \<le> 2"
  shows "\<exists>st a s'. init_controllers heap_ok cfg no_controllers = Some st \<and> tab (by_class st MASS_STORAGE) = Some a
     \<and> table_holds 256 (functions_of cs) (pci_devices st)
     \<and> kebla_get_disks h hhdm (take (cnt (by_class st MASS_STORAGE)) a) s = Some (int (length fs), s') \<and> drives s' = drives s
     \<and> disk_count s' = int (length fs) \<and> (\<forall>k<length fs. get_disk (int k) s' = Some (fs ! k))
     \<and> (\<forall>k<length fs. d_type (fs ! k) = DISK_TYPE_AHCI_SATA \<longrightarrow> (\<forall>p. d_context (fs ! k) = Some p \<longrightarrow> drive_ok (drives s p) \<longrightarrow>
          unat (sata_get_total_sectors (drives s p)) \<le> 2 ^ 48 \<longrightarrow> dev_ok (int k) s'))"
proof -
  define ms where "ms = filter (of_class MASS_STORAGE) (functions_of cs)"
  obtain st where st: "init_controllers heap_ok cfg no_controllers = Some st" "table_holds 256 (functions_of cs) (pci_devices st)"
    "table_holds 32 ms (by_class st MASS_STORAGE)"
    using init_controllers_sorts [OF assms(1-5)] by (auto simp: sorted_tables_def ms_def)
  obtain a where a: "tab (by_class st MASS_STORAGE) = Some a" "take (cnt (by_class st MASS_STORAGE)) a = ms"
    using st(3) by (auto simp: table_holds_def)
  have "is_ahci d \<Longrightarrow> of_class MASS_STORAGE d" for d by (simp add: is_ahci_def of_class_def class_no_def)
  then have "filter is_ahci ms = filter is_ahci (functions_of cs)"
    unfolding ms_def filter_filter by (intro filter_cong) auto
  then have one: "filter is_ahci ms = [dev]" using dev(1) by simp
  have "dev \<in> set (filter is_ahci (functions_of cs))" using dev(1) by simp
  then have "dev \<in> set (functions_of cs)" by simp
  then have "bar5_ok hhdm dev" using dev(2,3) by (rule scanned_bar5)
  from get_disks_found [OF one this assms(9-11)] show ?thesis using st(1,2) a by auto
qed

text \<open>A machine with a host bridge and one controller, a SATA disk at its port 0 and an empty port 1.\<close>

definition sample_hba :: hba where
  "sample_hba = \<lparr>hba_pi = (\<lambda>_. 3), hba_port = (\<lambda>_ i. if i = 0 then sample_port else sample_port\<lparr>p_ssts := 0\<rparr>)\<rparr>"

definition sample_ctrl :: pci_device where
  "sample_ctrl = no_device\<lparr>vendor_id := 0x8086, device_id := 0x2922, class_code := 1, subclass_code := 6, prog_if := 1,
     base_address_registers := [0, 0, 0, 0, 0, 0xFEBF1000]\<rparr>"

lemma sample_entries:
  "List.map_filter (port_entry sample_hba abar (sample_sys True)) [0..<32] =
     [no_disk\<lparr>d_initialized := True, d_type := DISK_TYPE_AHCI_SATA, d_bytes_per_sector := 512, d_total_sectors := 300,
        d_context := Some (port_addr abar 0)\<rparr>]"
proof -
  have e0: "port_entry sample_hba abar (sample_sys True) 0 = Some (no_disk\<lparr>d_initialized := True, d_type := DISK_TYPE_AHCI_SATA,
      d_bytes_per_sector := 512, d_total_sectors := 300, d_context := Some (port_addr abar 0)\<rparr>)"
    by (simp add: port_entry_def sample_hba_def Let_def port_live_def checkType_def sample_port_def sample_sys_def sample_total sample_bps)
  have "port_entry sample_hba abar (sample_sys True) i = None" if "0 < i" for i
    using that by (simp add: port_entry_def sample_hba_def Let_def port_live_def)
  then have "List.map_filter (port_entry sample_hba abar (sample_sys True)) [1..<32] = []"
    by (auto simp: List.map_filter_def filter_empty_conv)
  then show ?thesis using e0 by (simp add: upt_conv_Cons map_filter_simps)
qed

definition sample_cs :: "u8 \<Rightarrow> u8 \<Rightarrow> u8 \<Rightarrow> u8 \<Rightarrow> u32" where
  "sample_cs b d f r =
     (if (b, d, f) = (0, 0, 0) then (if r = 0 then 0x29C08086 else if r = 8 then 0x06000000 else 0)
      else if (b, d, f) = (0, 31, 2)
      then (if r = 0 then 0x29228086 else if r = 8 then 0x01060100 else if r = 0x24 then 0xFEBF1000 else 0)
      else 0xFFFFFFFF)"

definition sample_cfg :: pci_cfg where
  "sample_cfg a = sample_cs (ucast (drop_bit 16 a)) (ucast (drop_bit 11 a) AND 0x1F) (ucast (drop_bit 8 a) AND 7) (ucast a AND 0xFC)"

lemma sample_decodes: "decodes sample_cfg sample_cs"
  by (simp add: decodes_def sample_cfg_def)

lemma sample_exists: "pci_exists sample_cfg"
  by (simp add: pci_exists_def pci_read_reg [OF sample_decodes] sample_cs_def)

lemma sample_locations:
  assumes "i < 65536"
  shows "present sample_cs (location i) \<longleftrightarrow> i = 0 \<or> i = 250"
proof -
  have "location i = (0, 0, 0) \<longleftrightarrow> i div 256 = 0 \<and> i div 8 mod 32 = 0 \<and> i mod 8 = 0"
    "location i = (0, 31, 2) \<longleftrightarrow> i div 256 = 0 \<and> i div 8 mod 32 = 31 \<and> i mod 8 = 2"
    using assms by (simp_all add: location_def word_unat_eq_iff unat_of_nat)
  moreover have "i = 256 * (i div 256) + 8 * (i div 8 mod 32) + i mod 8"
  proof -
    have "i div 8 div 32 = i div 256" by (simp flip: div_mult2_eq)
    then show ?thesis using div_mult_mod_eq [of i 8] div_mult_mod_eq [of "i div 8" 32] by linarith
  qed
  ultimately have "location i = (0, 0, 0) \<longleftrightarrow> i = 0" "location i = (0, 31, 2) \<longleftrightarrow> i = 250" by auto
  then show ?thesis by (auto simp: present_def sample_cs_def split: prod.splits)
qed

lemma filter_two: "(a :: nat) < b \<Longrightarrow> b < n \<Longrightarrow> filter (\<lambda>i. i = a \<or> i = b) [0..<n] = [a, b]"
  by (rule sorted_distinct_set_unique) (auto simp: sorted_wrt_filter)

lemma sample_functions:
  "functions_of sample_cs = [no_device\<lparr>vendor_id := 0x8086, device_id := 0x29C0, class_code := 6\<rparr>, sample_ctrl]"
proof -
  have "filter (present sample_cs) (map location [0..<65536]) = map location (filter (\<lambda>i. i = 0 \<or> i = 250) [0..<65536])"
    unfolding filter_map o_def by (rule arg_cong [where f = "map location"], rule filter_cong) (simp_all add: sample_locations)
  also have "filter (\<lambda>i. i = 0 \<or> i = 250) [0..<65536] = [0, 250]"
    by (rule filter_two) simp_all
  finally have e: "filter (present sample_cs) (map location [0..<65536]) = map location [0, 250]" .
  have r: "replicate 6 (0 :: u32) = [0, 0, 0, 0, 0, 0]" by (simp add: eval_nat_numeral)
  show ?thesis unfolding functions_of_def found_def e
    by (simp add: location_def device_at_def sample_cs_def no_device_def sample_ctrl_def r)
qed

theorem boot_lists_disks_witness:
  "\<exists>st a s'. init_controllers (\<lambda>_. True) sample_cfg no_controllers = Some st \<and> tab (by_class st MASS_STORAGE) = Some a
     \<and> kebla_get_disks sample_hba 0xFFFF800000000000 (take (cnt (by_class st MASS_STORAGE)) a) (sample_sys True) = Some (1, s')
     \<and> disk_count s' = 1 \<and> dev_ok 0 s'"
proof -
  define fs where "fs = found_disks sample_hba (abar_of 0xFFFF800000000000 sample_ctrl) (sample_sys True) [0..<32]"
  have fs: "fs = [no_disk\<lparr>d_initialized := True, d_type := DISK_TYPE_AHCI_SATA, d_bytes_per_sector := 512, d_total_sectors := 300,
        d_context := Some (port_addr (abar_of 0xFFFF800000000000 sample_ctrl) 0)\<rparr>]"
    by (simp add: fs_def found_disks_def sample_entries usable_def)
  have F: "length (functions_of sample_cs) \<le> 256" "\<forall>c. length (filter (of_class c) (functions_of sample_cs)) \<le> 32"
    "filter is_ahci (functions_of sample_cs) = [sample_ctrl]"
    by (simp_all add: sample_functions is_ahci_def sample_ctrl_def)
  have B: "base_address_registers sample_ctrl ! 5 \<noteq> 0" "abar_of 0xFFFF800000000000 sample_ctrl \<noteq> 0"
    by (simp_all add: abar_of_def sample_ctrl_def)
  have D: "disks (sample_sys True) \<noteq> None \<or> disk_malloc_ok (sample_sys True) 96" by (simp add: sample_sys_def)
  have L: "length (List.map_filter (port_entry sample_hba (abar_of 0xFFFF800000000000 sample_ctrl) (sample_sys True)) [0..<32]) \<le> 2"
    by (simp add: sample_entries)
  have "drive_ok (drives (sample_sys True) p)" "sata_get_total_sectors (drives (sample_sys True) p) = 300" for p
    using sample_total by (simp_all add: sample_sys_def drive_ok_def sample_drive_def MAX_BATCH_SIZE_def)
  then show ?thesis
    using boot_lists_disks [OF sample_decodes sample_exists _ F B D fs_def L, of "\<lambda>_. True"] by (fastforce simp: fs)
qed

end
