(* ===== verification/Iso9660.thy ===== *)
theory Iso9660
  imports Disk LibString
begin

text \<open>
  The ISO 9660 file system on optical disks (kernel/src/fs/iso9660/iso9660.c): volume detection, path lookup in
  directories, files and directory iteration.

  Buffers are lists of bytes; a directory record is read at its offset in the buffer of its directory, and a field outside
  the buffer makes the result \<open>None\<close>, as does a transfer that overruns its buffer. C strings are their bytes
  without the terminating 0. \<open>malloc\<close> refuses the size 0, and otherwise asks the allocation predicate of the disk system; its blocks are
  modelled as zeros. \<open>strtok\<close> on a copy of the path gives the tokens of the string library; an exhausted heap in
  \<open>strdup\<close>, after which \<open>strtok\<close> would go on in an older string, has no result.
\<close>

section \<open>Reading records\<close>

definition byte_at :: "bytes \<Rightarrow> nat \<Rightarrow> u8 option" where
  "byte_at b i = (if i < length b then Some (b ! i) else None)"

definition bytes_at :: "bytes \<Rightarrow> nat \<Rightarrow> nat \<Rightarrow> bytes option" where
  "bytes_at b i n = (if i + n \<le> length b then Some (bslice i n b) else None)"

definition read_u32_le :: "bytes \<Rightarrow> nat \<Rightarrow> u32 option" where
  "read_u32_le b i = do { d \<leftarrow> bytes_at b i 4;
     Some (ucast (d ! 0) OR push_bit 8 (ucast (d ! 1)) OR push_bit 16 (ucast (d ! 2)) OR push_bit 24 (ucast (d ! 3))) }"

definition read_u16_le :: "bytes \<Rightarrow> nat \<Rightarrow> u16 option" where
  "read_u16_le b i = do { d \<leftarrow> bytes_at b i 2; Some (ucast (d ! 0) OR push_bit 8 (ucast (d ! 1))) }"

text \<open>The test for the entries of the directory itself and its parent.\<close>

definition is_dot_entry :: "bytes \<Rightarrow> nat \<Rightarrow> bool option" where
  "is_dot_entry b p = do { n \<leftarrow> byte_at b (p + 32);
     if n = 1 then do { c \<leftarrow> byte_at b (p + 33); Some (c = 0 \<or> c = 1) } else Some False }"

definition upper :: "u8 \<Rightarrow> u8" where "upper c = of_int (toupper (sint c))"

definition parse_filename :: "bytes \<Rightarrow> nat \<Rightarrow> nat \<Rightarrow> bytes option" where
  "parse_filename b p output_size = do {
     name_len \<leftarrow> byte_at b (p + 32);
     dot \<leftarrow> is_dot_entry b p;
     if dot then Some []
     else do {
       name_len \<leftarrow> (if name_len \<ge> 2
         then do { c \<leftarrow> byte_at b (p + 33 + unat name_len - 2); Some (if c = 59 then name_len - 2 else name_len) }
         else Some name_len);
       let copy_len = (if unat name_len < output_size - 1 then unat name_len else output_size - 1);
       raw \<leftarrow> bytes_at b (p + 33) copy_len;
       let output = takeWhile (\<lambda>c. c \<noteq> 0) raw;
       let output = takeWhile (\<lambda>c. c \<noteq> 59) output;
       Some (map upper output) } }"

section \<open>Volumes\<close>

text \<open>\<open>read_iso_block\<close> keeps the product in a byte, and asks for 2048 sectors.\<close>

definition read_iso_block :: "int \<Rightarrow> u32 \<Rightarrow> bytes \<Rightarrow> 'a disk_sys_scheme \<Rightarrow> (bool \<times> bytes) option" where
  "read_iso_block disk_no block_no buffer s =
     (let lba = ucast (block_no * 2048) :: u8 in kebla_disk_read disk_no (ucast lba) 2048 buffer s)"

definition disk_malloc :: "nat \<Rightarrow> 'a disk_sys_scheme \<Rightarrow> bytes option" where
  "disk_malloc n s = (if n \<noteq> 0 \<and> disk_malloc_ok s n then Some (replicate n 0) else None)"

text \<open>
  The loop over sectors 16 to 31 of \<open>iso9660_init\<close>. It goes round once: the three outcomes of a sector
  that was read are the two returns and \<open>break\<close>.
\<close>

definition init_sector :: "int \<Rightarrow> nat \<Rightarrow> bytes \<Rightarrow> 'a disk_sys_scheme \<Rightarrow> (int \<times> 'a disk_sys_scheme) option" where
  "init_sector disk_no i sector_buffer s = do {
     (ok, b) \<leftarrow> kebla_disk_read disk_no (of_nat i) 4 sector_buffer s;
     if \<not> ok then Some (-1, s)
     else if rd8 b 0 = 0x01
     then if bslice 1 5 b \<noteq> [67, 68, 48, 48, 49] then Some (-1, s)
          else do {
            disk \<leftarrow> get_disk disk_no s;
            bps \<leftarrow> read_u16_le b 128;
            total_n \<leftarrow> read_u32_le b 80;
            root \<leftarrow> read_u32_le b 158;
            root_size \<leftarrow> read_u32_le b 166;
            Some (0, put_disk disk_no (disk\<lparr>d_bytes_per_sector := bps, d_total_sectors := ucast total_n,
              d_root_directory_sector := root, d_root_directory_size := root_size, d_pvd_sector := of_nat i\<rparr>) s) }
     else Some (-1, s) }"

definition iso9660_init :: "int \<Rightarrow> 'a disk_sys_scheme \<Rightarrow> (int \<times> 'a disk_sys_scheme) option" where
  "iso9660_init disk_no s =
     (if disk_no \<ge> disk_count s \<or> disks s = None then Some (-1, s)
      else do {
        disk \<leftarrow> get_disk disk_no s;
        if d_context disk = None \<or> d_type disk \<noteq> DISK_TYPE_SATAPI then Some (-1, s)
        else case disk_malloc 2048 s of
               None \<Rightarrow> Some (-1, s)
             | Some sector_buffer \<Rightarrow> init_sector disk_no 16 sector_buffer s })"

definition iso9660_mount :: "int \<Rightarrow> 'a disk_sys_scheme \<Rightarrow> (int \<times> 'a disk_sys_scheme) option" where
  "iso9660_mount disk_no s =
     (if disk_no \<ge> disk_count s \<or> disks s = None then Some (-1, s)
      else do {
        disk \<leftarrow> get_disk disk_no s;
        if d_type disk \<noteq> DISK_TYPE_SATAPI then Some (-1, s)
        else do {
          (r, s) \<leftarrow> iso9660_init disk_no s;
          if r \<noteq> 0 then Some (-1, s)
          else case d_context disk of
                 None \<Rightarrow> Some (-1, s)
               | Some port \<Rightarrow> if \<not> satapi_load (optical s port) then Some (-1, s) else Some (0, s) } })"

definition iso9660_unmount :: "int \<Rightarrow> 'a disk_sys_scheme \<Rightarrow> int option" where
  "iso9660_unmount disk_no s =
     (if disk_no \<ge> disk_count s \<or> disks s = None then Some (-1)
      else do {
        disk \<leftarrow> get_disk disk_no s;
        if d_type disk \<noteq> DISK_TYPE_SATAPI then Some (-1)
        else case d_context disk of
               None \<Rightarrow> Some (-1)
             | Some port \<Rightarrow> let ejected = satapi_eject (optical s port) in Some 0 })"

definition iso9660_check_media :: "u32 option \<Rightarrow> bool" where
  "iso9660_check_media port_ssts = (case port_ssts of None \<Rightarrow> False | Some ssts \<Rightarrow> (ssts AND 0x0F) = 3)"

section \<open>Lookup\<close>

record iso9660_file =
  iso_name :: bytes
  iso_sector :: u32
  iso_size :: u32
  iso_disk_no :: int
  iso_is_dir :: bool

definition record_file :: "int \<Rightarrow> bytes \<Rightarrow> bytes \<Rightarrow> nat \<Rightarrow> iso9660_file option" where
  "record_file disk_no name b p = do {
     sec \<leftarrow> read_u32_le b (p + 2);
     sz \<leftarrow> read_u32_le b (p + 10);
     flags \<leftarrow> byte_at b (p + 25);
     Some \<lparr>iso_name = name, iso_sector = sec, iso_size = sz, iso_disk_no = disk_no, iso_is_dir = (flags AND 0x02 \<noteq> 0)\<rparr> }"

text \<open>
  The scan of a directory: \<open>p\<close> is the distance of \<open>ptr\<close> from the start of the buffer, \<open>processed\<close> the 32-bit
  counter. Every turn moves \<open>ptr\<close> forward, and it cannot leave the buffer without ending the scan
  (\<open>skip\<close> is not 0 for a sector size other than 0).
\<close>

function find_loop :: "int \<Rightarrow> bytes \<Rightarrow> u32 \<Rightarrow> u32 \<Rightarrow> bytes \<Rightarrow> nat \<Rightarrow> u32 \<Rightarrow> iso9660_file option option" where
  "find_loop disk_no b dir_size sector_size filename p processed =
     (if processed < dir_size
      then case byte_at b p of
          None \<Rightarrow> None
        | Some len \<Rightarrow>
            if len = 0
            then let skip = sector_size - processed mod sector_size
                 in if skip = 0 then None
                    else find_loop disk_no b dir_size sector_size filename (p + unat skip) (processed + skip)
            else (case is_dot_entry b p of
                None \<Rightarrow> None
              | Some True \<Rightarrow> find_loop disk_no b dir_size sector_size filename (p + unat len) (processed + ucast len)
              | Some False \<Rightarrow>
                  (case parse_filename b p 256 of
                     None \<Rightarrow> None
                   | Some current \<Rightarrow>
                       if current = filename then map_option Some (record_file disk_no current b p)
                       else find_loop disk_no b dir_size sector_size filename (p + unat len) (processed + ucast len)))
      else Some None)"
  by pat_completeness auto
termination
proof (relation "measure (\<lambda>(n, b, ds, ss, f, p, q). length b - p)", goal_cases)
  case (2 n b ds ss f p q len skip)
  then have "0 < unat skip" by (simp add: unat_gt_0)
  then show ?case using 2 by (auto simp: byte_at_def split: if_splits)
next
  case (3 n b ds ss f p q len x)
  then have "0 < unat len" by (simp add: unat_gt_0)
  then show ?case using 3 by (auto simp: byte_at_def split: if_splits)
next
  case (4 n b ds ss f p q len x y)
  then have "0 < unat len" by (simp add: unat_gt_0)
  then show ?case using 4 by (auto simp: byte_at_def split: if_splits)
qed simp

declare find_loop.simps [simp del]

definition iso9660_find_file :: "int \<Rightarrow> u32 \<Rightarrow> u32 \<Rightarrow> bytes \<Rightarrow> 'a disk_sys_scheme \<Rightarrow> iso9660_file option option" where
  "iso9660_find_file disk_no dir_sector dir_size filename s =
     (if disk_no \<ge> disk_count s \<or> disks s = None \<or> dir_size = 0 then Some None
      else case disk_malloc (unat dir_size) s of
        None \<Rightarrow> Some None
      | Some buffer \<Rightarrow> do {
          disk \<leftarrow> get_disk disk_no s;
          let sector_size = (ucast (d_bytes_per_sector disk) :: u32);
          if sector_size = 0 then Some None
          else do {
            let sector_count = (dir_size + sector_size - 1) div sector_size;
            (ok, buffer) \<leftarrow> kebla_disk_read disk_no (ucast dir_sector) sector_count buffer s;
            if \<not> ok then Some None
            else find_loop disk_no buffer dir_size sector_size filename 0 0 } })"

text \<open>
  \<open>iso9660_stat\<close> fills the caller's structure at every component, also when it fails later; with no component left
  after the leading slash the structure keeps its old contents.
\<close>

fun stat_loop :: "int \<Rightarrow> bytes list \<Rightarrow> u32 \<Rightarrow> u32 \<Rightarrow> iso9660_file \<Rightarrow> 'a disk_sys_scheme \<Rightarrow> (int \<times> iso9660_file) option" where
  "stat_loop disk_no [] sec sz fno s = Some (0, fno)"
| "stat_loop disk_no (token # ts) sec sz fno s =
     (case iso9660_find_file disk_no sec sz token s of
        None \<Rightarrow> None
      | Some None \<Rightarrow> Some (-1, fno)
      | Some (Some f) \<Rightarrow>
          if ts \<noteq> [] \<and> \<not> iso_is_dir f then Some (-1, f)
          else stat_loop disk_no ts (iso_sector f) (iso_size f) f s)"

definition skip_slash :: "bytes \<Rightarrow> bytes" where
  "skip_slash path = (if path \<noteq> [] \<and> hd path = 47 then tl path else path)"

definition iso9660_stat :: "int \<Rightarrow> bytes \<Rightarrow> iso9660_file \<Rightarrow> 'a disk_sys_scheme \<Rightarrow> (int \<times> iso9660_file) option" where
  "iso9660_stat disk_no path fno s =
     (if disk_no \<ge> disk_count s \<or> disks s = None then Some (-1, fno)
      else do {
        disk \<leftarrow> get_disk disk_no s;
        let path = skip_slash path;
        if path = [] then Some (-1, fno)
        else if \<not> disk_malloc_ok s (length path + 1) then None
        else stat_loop disk_no (tokens [47] path) (d_root_directory_sector disk) (d_root_directory_size disk) fno s })"

text \<open>\<open>iso9660_open\<close> returns the first component that is a file, whatever follows it.\<close>

fun open_loop :: "int \<Rightarrow> bytes list \<Rightarrow> u32 \<Rightarrow> u32 \<Rightarrow> 'a disk_sys_scheme \<Rightarrow> iso9660_file option option" where
  "open_loop disk_no [] sec sz s = Some None"
| "open_loop disk_no (token # ts) sec sz s =
     (case iso9660_find_file disk_no sec sz token s of
        None \<Rightarrow> None
      | Some None \<Rightarrow> Some None
      | Some (Some f) \<Rightarrow>
          if iso_is_dir f then open_loop disk_no ts (iso_sector f) (iso_size f) s
          else if disk_malloc_ok s 272 then Some (Some (f\<lparr>iso_disk_no := disk_no\<rparr>)) else Some None)"

definition iso9660_open :: "int \<Rightarrow> bytes \<Rightarrow> 'a disk_sys_scheme \<Rightarrow> iso9660_file option option" where
  "iso9660_open disk_no path s =
     (if disk_no \<ge> disk_count s \<or> disks s = None then Some None
      else do {
        disk \<leftarrow> get_disk disk_no s;
        if d_type disk \<noteq> DISK_TYPE_SATAPI then Some None
        else let path = skip_slash path in
          if path = [] then Some None
          else if \<not> disk_malloc_ok s (length path + 1) then None
          else open_loop disk_no (tokens [47] path) (d_root_directory_sector disk) (d_root_directory_size disk) s })"

section \<open>Files\<close>

text \<open>
  The read loop. The sector buffer has the size of a sector; a sector size of 0 would make the loop run for ever.
  \<open>out\<close> is the caller's buffer.
\<close>

partial_function (option) iso_read_loop ::
  "int \<Rightarrow> u32 \<Rightarrow> u32 \<Rightarrow> u32 \<Rightarrow> u32 \<Rightarrow> bytes \<Rightarrow> bytes \<Rightarrow> 'a disk_sys_scheme \<Rightarrow> (u32 \<times> bytes) option" where
  "iso_read_loop disk_no bps total_read remaining cur_sector sector_buf out s =
     (if remaining > 0
      then Option.bind (kebla_disk_read disk_no (ucast cur_sector) 1 sector_buf s) (\<lambda>(ok, sector_buf).
        if \<not> ok then Some (total_read, out)
        else let copy = (if remaining < bps then remaining else bps)
             in if unat total_read + unat copy \<le> length out
                then iso_read_loop disk_no bps (total_read + copy) (remaining - copy) (cur_sector + 1) sector_buf
                       (overwrite out (unat total_read) (take (unat copy) sector_buf)) s
                else None)
      else Some (total_read, out))"

definition iso9660_read :: "iso9660_file \<Rightarrow> bytes \<Rightarrow> int \<Rightarrow> 'a disk_sys_scheme \<Rightarrow> (int \<times> bytes) option" where
  "iso9660_read file buff len s =
     (if len \<le> 0 \<or> disks s = None then Some (-1, buff)
      else do {
        disk \<leftarrow> get_disk (iso_disk_no file) s;
        let n = (of_int len :: u32);
        let n = (if n > iso_size file then iso_size file else n);
        case disk_malloc (unat (d_bytes_per_sector disk)) s of
          None \<Rightarrow> Some (-1, buff)
        | Some sector_buf \<Rightarrow> do {
            (total_read, out) \<leftarrow> iso_read_loop (iso_disk_no file) (ucast (d_bytes_per_sector disk)) 0 n (iso_sector file) sector_buf buff s;
            Some (sint total_read, out) } })"

definition iso9660_get_fsize :: "iso9660_file option \<Rightarrow> int" where
  "iso9660_get_fsize fp = (case fp of None \<Rightarrow> -1 | Some file \<Rightarrow> sint (iso_size file))"

definition iso9660_close :: "iso9660_file option \<Rightarrow> int" where
  "iso9660_close fp = (case fp of None \<Rightarrow> -1 | Some file \<Rightarrow> 0)"

section \<open>Directory iteration\<close>

record iso9660_dir =
  dir_buffer :: bytes
  dir_sz :: u32
  dir_offset :: u32

text \<open>The whole path is looked up as one name in the root directory; the result of the read is not tested.\<close>

definition iso9660_opendir :: "int \<Rightarrow> bytes \<Rightarrow> 'a disk_sys_scheme \<Rightarrow> iso9660_dir option option" where
  "iso9660_opendir disk_no path s =
     (if disk_no \<ge> disk_count s \<or> disks s = None then Some None
      else do {
        disk \<leftarrow> get_disk disk_no s;
        r \<leftarrow> (if length path > 0 \<and> path \<noteq> [47]
              then do { f \<leftarrow> iso9660_find_file disk_no (d_root_directory_sector disk) (d_root_directory_size disk) path s;
                        Some (case f of None \<Rightarrow> None
                              | Some dir_info \<Rightarrow> if \<not> iso_is_dir dir_info then None else Some (iso_sector dir_info, iso_size dir_info)) }
              else Some (Some (d_root_directory_sector disk, d_root_directory_size disk)));
        case r of
          None \<Rightarrow> Some None
        | Some (sec, sz) \<Rightarrow>
            if \<not> disk_malloc_ok s 24 then Some None
            else case disk_malloc (unat sz) s of
                None \<Rightarrow> Some None
              | Some buffer \<Rightarrow> do {
                  (ok, buffer) \<leftarrow> kebla_disk_read disk_no (ucast sec) ((sz + 2047) div 2048) buffer s;
                  Some (Some \<lparr>dir_buffer = buffer, dir_sz = sz, dir_offset = 0\<rparr>) } })"

partial_function (option) iso9660_readdir :: "iso9660_dir \<Rightarrow> iso9660_file \<Rightarrow> (int \<times> iso9660_dir \<times> iso9660_file) option" where
  "iso9660_readdir dir entry =
     (if dir_offset dir < dir_sz dir
      then let p = unat (dir_offset dir)
        in Option.bind (byte_at (dir_buffer dir) p) (\<lambda>len.
             if len = 0
             then iso9660_readdir (dir\<lparr>dir_offset := dir_offset dir + (2048 - dir_offset dir mod 2048)\<rparr>) entry
             else let dir' = dir\<lparr>dir_offset := dir_offset dir + ucast len\<rparr>
               in Option.bind (is_dot_entry (dir_buffer dir) p) (\<lambda>dot.
                    if dot then iso9660_readdir dir' entry
                    else Option.bind (parse_filename (dir_buffer dir) p 256) (\<lambda>name.
                           Option.bind (record_file (iso_disk_no entry) name (dir_buffer dir) p) (\<lambda>f.
                             Some (1, dir', f)))))
      else Some (0, dir, entry))"

definition iso9660_closedir :: "iso9660_dir option \<Rightarrow> int" where
  "iso9660_closedir dirp = (case dirp of None \<Rightarrow> -1 | Some dir \<Rightarrow> 0)"

section \<open>Directories on a disc\<close>

text \<open>
  A directory record as a list of bytes, read by the layout the standard ECMA-119 gives it: the first byte is
  the length of the record, at least 34 and enough for the identifier, which starts at offset 33 and whose length is at
  offset 32; the extent is the 32-bit number at offset 2, the data length the one at offset 10, and bit 1 of the
  flags at offset 25 marks a directory. The identifiers 00 and 01 stand for the directory itself and its
  parent; any other has no zero byte, and the file name is what comes before the semicolon of the version, in upper case. A directory
  is a list of sectors, each with its records and padded with zeros to 2048 bytes.
\<close>

definition rec_ident :: "bytes \<Rightarrow> bytes" where "rec_ident r = bslice 33 (unat (r ! 32)) r"

definition rec_dot :: "bytes \<Rightarrow> bool" where "rec_dot r \<longleftrightarrow> rec_ident r = [0] \<or> rec_ident r = [1]"

definition ascii_upper :: "u8 \<Rightarrow> u8" where "ascii_upper c = (if 97 \<le> c \<and> c \<le> 122 then c - 32 else c)"

definition rec_name :: "bytes \<Rightarrow> bytes" where "rec_name r = map ascii_upper (takeWhile (\<lambda>c. c \<noteq> 59) (rec_ident r))"

definition rec_file :: "int \<Rightarrow> bytes \<Rightarrow> iso9660_file" where
  "rec_file n r = \<lparr>iso_name = rec_name r, iso_sector = rd32 r 2, iso_size = rd32 r 10, iso_disk_no = n, iso_is_dir = bit (r ! 25) 1\<rparr>"

definition wf_rec :: "bytes \<Rightarrow> bool" where
  "wf_rec r \<longleftrightarrow> 34 \<le> length r \<and> length r = unat (r ! 0) \<and> 33 + unat (r ! 32) \<le> length r \<and> (rec_dot r \<or> 0 \<notin> set (rec_ident r))"

definition sector_of :: "bytes list \<Rightarrow> bytes" where
  "sector_of rs = concat rs @ replicate (2048 - length (concat rs)) 0"

definition dir_bytes :: "bytes list list \<Rightarrow> bytes" where
  "dir_bytes secs = concat (map sector_of secs)"

definition wf_dir :: "bytes list list \<Rightarrow> bool" where
  "wf_dir secs \<longleftrightarrow> (\<forall>rs \<in> set secs. (\<forall>r \<in> set rs. wf_rec r) \<and> length (concat rs) \<le> 2048)"

definition rec_matches :: "bytes \<Rightarrow> bytes \<Rightarrow> bool" where
  "rec_matches name r \<longleftrightarrow> \<not> rec_dot r \<and> rec_name r = name"

definition dir_lookup :: "int \<Rightarrow> bytes \<Rightarrow> bytes list list \<Rightarrow> iso9660_file option" where
  "dir_lookup n name secs = map_option (rec_file n) (List.find (rec_matches name) (concat secs))"

lemma byte_at_mid: "i < length r \<Longrightarrow> byte_at (pre @ r @ post) (length pre + i) = byte_at r i"
  by (simp add: byte_at_def nth_append)

lemma bytes_at_mid: "i + n \<le> length r \<Longrightarrow> bytes_at (pre @ r @ post) (length pre + i) n = bytes_at r i n"
  by (simp add: bytes_at_def bslice_def)

lemma length_rec_ident: "wf_rec r \<Longrightarrow> length (rec_ident r) = unat (r ! 32)"
  by (auto simp: wf_rec_def rec_ident_def bslice_def)

lemma rec_ident_nth: "wf_rec r \<Longrightarrow> i < unat (r ! 32) \<Longrightarrow> rec_ident r ! i = r ! (33 + i)"
  by (simp add: wf_rec_def rec_ident_def bslice_def)

lemma single_word_iff: "xs = [c] \<longleftrightarrow> length xs = 1 \<and> xs ! 0 = c"
  by (cases xs) auto

lemma unat_one_iff: "unat (n :: u8) = Suc 0 \<longleftrightarrow> n = 1"
  by (simp add: word_unat_eq_iff)

lemma is_dot_mid:
  assumes "wf_rec r"
  shows "is_dot_entry (pre @ r @ post) (length pre) = Some (rec_dot r)"
proof -
  have b: "byte_at (pre @ r @ post) (length pre + i) = byte_at r i" if "i < length r" for i using that by (rule byte_at_mid)
  have l: "32 < length r" "33 < length r" using assms by (auto simp: wf_rec_def)
  have "rec_dot r \<longleftrightarrow> r ! 32 = 1 \<and> (r ! 33 = 0 \<or> r ! 33 = 1)"
    using length_rec_ident [OF assms] rec_ident_nth [OF assms, of 0]
    by (auto simp: rec_dot_def single_word_iff unat_one_iff)
  then show ?thesis using l b [OF l(1)] b [OF l(2)] by (simp add: is_dot_entry_def) (simp add: byte_at_def)
qed

lemma upper_ascii: "upper = ascii_upper"
proof (rule ext)
  fix c :: u8
  show "upper c = ascii_upper c"
  proof (cases "97 \<le> sint c \<and> sint c \<le> 122")
    case True
    then have "uint c = sint c" using uint_sint [of c] by (simp add: take_bit_int_eq_self)
    then show ?thesis using True by (simp add: upper_def toupper_def ascii_upper_def word_le_def)
  next
    case False
    have "sint c = uint c" if "uint c \<le> 122"
      using that signed_take_bit_int_eq_self [of 7 "uint c"] uint_ge_0 [of c] by (simp add: sint_uint)
    then have "\<not> (97 \<le> c \<and> c \<le> 122)" using False by (auto simp: word_le_def)
    then show ?thesis using False by (auto simp: upper_def toupper_def ascii_upper_def)
  qed
qed

lemma takeWhile_cut:
  assumes "k < length xs" "xs ! k = c"
  shows "takeWhile (\<lambda>x. x \<noteq> c) (take k xs) = takeWhile (\<lambda>x. x \<noteq> c) xs"
proof -
  have "xs = take k xs @ c # drop (Suc k) xs" using id_take_nth_drop [OF assms(1)] assms(2) by simp
  then have "takeWhile (\<lambda>x. x \<noteq> c) xs = takeWhile (\<lambda>x. x \<noteq> c) (take k xs @ c # drop (Suc k) xs)" by (rule arg_cong)
  also have "\<dots> = takeWhile (\<lambda>x. x \<noteq> c) (take k xs)" by (rule takeWhile_tail) simp
  finally show ?thesis by (rule sym)
qed

text \<open>\<open>parse_filename\<close> drops a version of one digit before the copy, and any other at the semicolon in the copy.\<close>

lemma parse_mid:
  assumes "wf_rec r" "\<not> rec_dot r"
  shows "parse_filename (pre @ r @ post) (length pre) 256 = Some (rec_name r)"
proof -
  have b: "byte_at (pre @ r @ post) (length pre + i) = byte_at r i" if "i < length r" for i using that by (rule byte_at_mid)
  have l: "32 < length r" "33 + unat (r ! 32) \<le> length r" "length r \<le> 255" "0 \<notin> set (rec_ident r)"
    using assms unsigned_less [of "r ! 0", where ?'a = nat] by (auto simp: wf_rec_def)
  define nl where "nl = (if r ! 32 \<ge> 2 \<and> r ! (33 + unat (r ! 32) - 2) = 59 then r ! 32 - 2 else r ! 32)"
  have ge: "2 \<le> unat (r ! 32)" if "r ! 32 \<ge> 2" using that by (simp add: word_le_nat_alt)
  have nl: "unat nl \<le> unat (r ! 32)" using ge by (auto simp: nl_def unat_sub_if_size word_le_nat_alt split: if_splits)
  have len: "(if r ! 32 \<ge> 2 then Option.bind (byte_at (pre @ r @ post) (length pre + 33 + unat (r ! 32) - 2))
       (\<lambda>c. Some (if c = 59 then r ! 32 - 2 else r ! 32)) else Some (r ! 32)) = Some nl"
  proof (cases "r ! 32 \<ge> 2")
    case True
    then have "length pre + 33 + unat (r ! 32) - 2 = length pre + (33 + unat (r ! 32) - 2)" using ge by simp
    then have "byte_at (pre @ r @ post) (length pre + 33 + unat (r ! 32) - 2) = Some (r ! (33 + unat (r ! 32) - 2))"
      using b [of "33 + unat (r ! 32) - 2"] True ge l(2) by (simp only:) (simp add: byte_at_def)
    then show ?thesis using True by (simp add: nl_def)
  qed (simp add: nl_def)
  have raw: "bytes_at (pre @ r @ post) (length pre + 33) (unat nl) = Some (take (unat nl) (rec_ident r))"
    using bytes_at_mid [of 33 "unat nl" r pre post] nl l(2) by (simp add: bytes_at_def rec_ident_def bslice_def)
  have "0 \<notin> set (take (unat nl) (rec_ident r))" using l(4) by (meson in_set_takeD)
  then have nz: "takeWhile (\<lambda>c. c \<noteq> 0) (take (unat nl) (rec_ident r)) = take (unat nl) (rec_ident r)"
    by (auto simp: takeWhile_eq_all_conv)
  have "takeWhile (\<lambda>c. c \<noteq> 59) (take (unat nl) (rec_ident r)) = takeWhile (\<lambda>c. c \<noteq> 59) (rec_ident r)"
  proof (cases "r ! 32 \<ge> 2 \<and> r ! (33 + unat (r ! 32) - 2) = 59")
    case True
    then have "unat nl = unat (r ! 32) - 2" using ge by (simp add: nl_def unat_sub word_le_nat_alt)
    then show ?thesis using True ge length_rec_ident [OF assms(1)] rec_ident_nth [OF assms(1), of "unat (r ! 32) - 2"]
      by (intro takeWhile_cut) simp_all
  next
    case False
    then have "nl = r ! 32" unfolding nl_def by (simp only: if_False)
    then show ?thesis using length_rec_ident [OF assms(1)] by simp
  qed
  moreover have "byte_at (pre @ r @ post) (length pre + 32) = Some (r ! 32)" using b [OF l(1)] l(1) by (simp add: byte_at_def)
  moreover have "unat nl < 255" using nl l by simp
  ultimately show ?thesis
    using is_dot_mid [OF assms(1), of pre post] assms(2) raw
    by (simp add: parse_filename_def len nz Let_def rec_name_def upper_ascii)
qed

lemma u32_mid: "i + 4 \<le> length r \<Longrightarrow> read_u32_le (pre @ r @ post) (length pre + i) = read_u32_le r i"
  by (simp add: read_u32_le_def bytes_at_mid)

lemma read_u32_le_rd32: "i + 4 \<le> length b \<Longrightarrow> read_u32_le b i = Some (rd32 b i)"
proof -
  assume l: "i + 4 \<le> length b"
  then have "length (bslice i 4 b) = 4" by (simp add: bslice_def)
  then obtain x y z w where "bslice i 4 b = [x, y, z, w]"
    by (auto simp: length_Suc_conv eval_nat_numeral simp del: length_bslice)
  then show ?thesis using l by (simp add: read_u32_le_def bytes_at_def rd32_def of_le_def push_bit_or or.assoc)
qed

lemma and_2_bit: "(x AND 0x02 \<noteq> 0) \<longleftrightarrow> bit (x :: u8) 1"
  using bit_iff_and_push_bit_not_eq_0 [of x 1] by simp

lemma record_mid:
  assumes "wf_rec r"
  shows "record_file n (rec_name r) (pre @ r @ post) (length pre) = Some (rec_file n r)"
proof -
  have l: "34 \<le> length r" using assms by (simp add: wf_rec_def)
  then show ?thesis
    using u32_mid [of 2 r pre post] u32_mid [of 10 r pre post] byte_at_mid [of 25 r pre post]
    by (simp add: record_file_def rec_file_def read_u32_le_rd32 byte_at_def and_2_bit del: add_2_eq_Suc add_2_eq_Suc')
qed

text \<open>The scan over one record and over the records of a sector.\<close>

lemma find_loop_record:
  assumes "wf_rec r" "length pre < 2 ^ 32" "length pre < unat dir_size"
  shows "find_loop n (pre @ r @ post) dir_size ss name (length pre) (of_nat (length pre)) =
    (if rec_matches name r then Some (Some (rec_file n r))
     else find_loop n (pre @ r @ post) dir_size ss name (length pre + length r) (of_nat (length pre + length r)))"
proof -
  have l: "r ! 0 \<noteq> 0" "0 < length r" "length r = unat (r ! 0)" using assms(1) by (auto simp: wf_rec_def)
  have "(of_nat (length pre) :: u32) < dir_size"
    using assms(2,3) by (simp add: word_less_nat_alt unat_of_nat take_bit_nat_eq_self)
  moreover have "byte_at (pre @ r @ post) (length pre) = Some (r ! 0)"
    using byte_at_mid [OF l(2), of pre post] l(2) by (simp add: byte_at_def)
  moreover have "(ucast (r ! 0) :: u32) = of_nat (length r)" using l(3) by (simp add: unsigned_ucast_eq)
  ultimately show ?thesis
    using l(1,3) is_dot_mid [OF assms(1)] parse_mid [OF assms(1)] record_mid [OF assms(1)]
    by (subst find_loop.simps) (cases "rec_dot r"; auto simp: rec_matches_def)
qed

lemma find_loop_records:
  assumes "\<forall>r \<in> set rs. wf_rec r" "length pre + length (concat rs) \<le> unat dir_size"
  shows "find_loop n (pre @ concat rs @ post) dir_size ss name (length pre) (of_nat (length pre)) =
    (case List.find (rec_matches name) rs of
       Some r \<Rightarrow> Some (Some (rec_file n r))
     | None \<Rightarrow> find_loop n (pre @ concat rs @ post) dir_size ss name (length pre + length (concat rs)) (of_nat (length pre + length (concat rs))))"
  using assms
proof (induction rs arbitrary: pre)
  case (Cons r rs)
  have r: "wf_rec r" "0 < length r" using Cons.prems by (auto simp: wf_rec_def)
  have "length (concat (r # rs)) = length r + length (concat rs)" by simp
  then have lt: "length pre < unat dir_size" using Cons.prems(2) r(2) by linarith
  then have "length pre < 2 ^ 32" using unat_u32_lt [of dir_size] by linarith
  note step = find_loop_record [OF r(1) this lt, of n "concat rs @ post" ss name]
  note ih = Cons.IH [of "pre @ r"]
  show ?case using step ih Cons.prems by (auto simp: add.assoc split: option.split)
qed simp

lemma find_append: "List.find P (xs @ ys) = (case List.find P xs of None \<Rightarrow> List.find P ys | Some x \<Rightarrow> Some x)"
  by (induction xs) simp_all

lemma length_sector_of: "length (concat rs) \<le> 2048 \<Longrightarrow> length (sector_of rs) = 2048"
  by (simp add: sector_of_def)

lemma length_dir_bytes: "wf_dir secs \<Longrightarrow> length (dir_bytes secs) = 2048 * length secs"
  by (induction secs) (auto simp: dir_bytes_def wf_dir_def length_sector_of simp del: length_concat)

lemma pad_skip:
  assumes "k * 2048 + j < 2 ^ 32" "0 < j" "j < 2048"
  shows "(2048 :: u32) - of_nat (k * 2048 + j) mod 2048 = of_nat (2048 - j)"
proof (rule unat_eqI)
  have "unat (of_nat (k * 2048 + j) mod (2048 :: u32)) = j"
    using assms by (simp add: unat_mod_distrib unat_of_nat take_bit_nat_eq_self del: of_nat_add of_nat_mult)
  then have "unat ((2048 :: u32) - of_nat (k * 2048 + j) mod 2048) = 2048 - j"
    using assms by (subst unat_minus_u32) (simp_all del: of_nat_add of_nat_mult)
  moreover have "unat (of_nat (2048 - j) :: u32) = 2048 - j" by (simp add: unat_of_nat take_bit_nat_eq_self del: of_nat_diff)
  ultimately show "unat ((2048 :: u32) - of_nat (k * 2048 + j) mod 2048) = unat (of_nat (2048 - j) :: u32)" by simp
qed

text \<open>At the padding of a sector the scan goes to the next sector.\<close>

lemma find_loop_padding:
  assumes "length pre = k * 2048 + j" "j \<le> 2048" "length pre + (2048 - j) \<le> unat dir_size"
  shows "find_loop n (pre @ replicate (2048 - j) 0 @ post) dir_size 2048 name (length pre) (of_nat (length pre)) =
    find_loop n (pre @ replicate (2048 - j) 0 @ post) dir_size 2048 name (length pre + (2048 - j)) (of_nat (length pre + (2048 - j)))"
proof (cases "j = 2048")
  case False
  then have j: "j < 2048" using assms(2) by simp
  have b32: "length pre < 2 ^ 32" using assms(3) j unat_u32_lt [of dir_size] by linarith
  then have lt: "(of_nat (length pre) :: u32) < dir_size"
    using assms(3) j by (simp add: word_less_nat_alt unat_of_nat take_bit_nat_eq_self)
  have z: "byte_at (pre @ replicate (2048 - j) 0 @ post) (length pre) = Some 0"
    using byte_at_mid [of 0 "replicate (2048 - j) 0" pre post] j by (simp add: byte_at_def)
  have sk: "(2048 :: u32) - of_nat (length pre) mod 2048 = of_nat (2048 - j)"
  proof (cases "j = 0")
    case True
    have "unat (of_nat (k * 2048) mod (2048 :: u32)) = 0"
      using b32 True assms(1) by (simp add: unat_mod_distrib unat_of_nat take_bit_nat_eq_self del: of_nat_mult)
    then have "of_nat (k * 2048) mod (2048 :: u32) = 0" by (metis unat_eq_zero)
    then show ?thesis using True assms(1) by simp
  next
    case False
    then show ?thesis using pad_skip [of k j] b32 j assms(1) by (simp del: of_nat_add of_nat_mult)
  qed
  have u: "unat (of_nat (2048 - j) :: u32) = 2048 - j" by (simp add: unat_of_nat take_bit_nat_eq_self)
  have nz: "(of_nat (2048 - j) :: u32) \<noteq> 0" using u j by (metis unsigned_0 zero_less_diff less_irrefl)
  show ?thesis
    using lt z sk nz u by (subst find_loop.simps) (simp add: Let_def)
qed simp

lemma find_loop_sectors:
  assumes "wf_dir secs" "length pre = k * 2048" "length pre + 2048 * length secs = unat dir_size"
  shows "find_loop n (pre @ dir_bytes secs) dir_size 2048 name (length pre) (of_nat (length pre)) = Some (dir_lookup n name secs)"
  using assms
proof (induction secs arbitrary: pre k)
  case Nil
  then have "length pre = unat dir_size" by simp
  then have "(of_nat (length pre) :: u32) = dir_size" by simp
  then show ?case by (subst find_loop.simps) (simp add: dir_lookup_def)
next
  case (Cons rs secs)
  have w: "\<forall>r \<in> set rs. wf_rec r" "length (concat rs) \<le> 2048" "wf_dir secs" using Cons.prems(1) by (auto simp: wf_dir_def)
  define pad :: bytes where "pad = replicate (2048 - length (concat rs)) 0"
  have b: "pre @ dir_bytes (rs # secs) = pre @ concat rs @ pad @ dir_bytes secs" by (simp add: dir_bytes_def sector_of_def pad_def)
  have fit: "length pre + 2048 \<le> unat dir_size" using Cons.prems(3) by simp
  have 1: "find_loop n (pre @ concat rs @ pad @ dir_bytes secs) dir_size 2048 name (length pre) (of_nat (length pre)) =
    (case List.find (rec_matches name) rs of
       Some r \<Rightarrow> Some (Some (rec_file n r))
     | None \<Rightarrow> find_loop n (pre @ concat rs @ pad @ dir_bytes secs) dir_size 2048 name (length pre + length (concat rs)) (of_nat (length pre + length (concat rs))))"
    by (rule find_loop_records [OF w(1)]) (use fit w(2) in linarith)
  have 2: "find_loop n ((pre @ concat rs) @ pad @ dir_bytes secs) dir_size 2048 name (length (pre @ concat rs)) (of_nat (length (pre @ concat rs))) =
      find_loop n ((pre @ concat rs) @ pad @ dir_bytes secs) dir_size 2048 name (length (pre @ concat rs) + (2048 - length (concat rs)))
        (of_nat (length (pre @ concat rs) + (2048 - length (concat rs))))"
    unfolding pad_def by (rule find_loop_padding [of _ k]) (use Cons.prems(2) w(2) fit in \<open>simp_all del: length_concat\<close>)
  have e: "length (pre @ concat rs) + (2048 - length (concat rs)) = length (pre @ concat rs @ pad)" by (simp add: pad_def)
  have 3: "find_loop n ((pre @ concat rs @ pad) @ dir_bytes secs) dir_size 2048 name (length (pre @ concat rs @ pad)) (of_nat (length (pre @ concat rs @ pad)))
      = Some (dir_lookup n name secs)"
    by (rule Cons.IH [OF w(3), of _ "k + 1"]) (use Cons.prems(2,3) w(2) in \<open>simp_all add: pad_def del: length_concat\<close>)
  show ?case
    unfolding b 1 using 2 3 unfolding e
    by (simp add: dir_lookup_def find_append del: length_concat split: option.split)
qed

section \<open>A disc in the drive\<close>

text \<open>
  \<open>iso_dev n disc s\<close>: disk \<open>n\<close> is an optical disk with 2048-byte sectors whose drive delivers the sectors of \<open>disc\<close>,
  and the heap is not exhausted.
\<close>

definition iso_dev :: "int \<Rightarrow> (nat \<Rightarrow> bytes) \<Rightarrow> 'a disk_sys_scheme \<Rightarrow> bool" where
  "iso_dev n disc s \<longleftrightarrow> n < disk_count s \<and> (\<forall>k. disk_malloc_ok s k) \<and>
     (case get_disk n s of None \<Rightarrow> False
      | Some d \<Rightarrow> d_type d = DISK_TYPE_SATAPI \<and> d_bytes_per_sector d = 2048 \<and>
          (case d_context d of None \<Rightarrow> False | Some port \<Rightarrow> reads_disc (optical s port) disc))"

lemma iso_devE:
  assumes "iso_dev n disc s"
  obtains d port where "n < disk_count s" "\<And>k. disk_malloc_ok s k" "get_disk n s = Some d" "d_type d = DISK_TYPE_SATAPI"
    "d_bytes_per_sector d = 2048" "d_context d = Some port" "reads_disc (optical s port) disc" "disks s \<noteq> None"
  using assms by (auto simp: iso_dev_def get_disk_def split: option.splits if_splits)

lemma ucast_ucast_u32: "ucast (ucast (x :: u32) :: u64) = x"
  by (rule bit_word_eqI) (auto simp: bit_simps)

lemma iso_disk_read:
  assumes "iso_dev n disc s" "0 < unat cnt" "unat cnt \<le> 2048" "unat cnt * 2048 \<le> length buf"
  shows "kebla_disk_read n (ucast (sec :: u32)) cnt buf s = Some (True, overwrite buf 0 (disc_sectors disc (unat sec) (unat cnt)))"
proof -
  obtain d port where d: "n < disk_count s" "get_disk n s = Some d" "d_type d = DISK_TYPE_SATAPI"
      "d_context d = Some port" "reads_disc (optical s port) disc" "disks s \<noteq> None"
    using assms(1) by (rule iso_devE)
  have "cnt \<noteq> 0" using assms(2) by auto
  then show ?thesis using d satapi_read_disc [OF d(5) assms(2-4), of sec]
    by (simp add: kebla_disk_read_def ucast_ucast_u32)
qed

definition dir_on :: "(nat \<Rightarrow> bytes) \<Rightarrow> u32 \<Rightarrow> u32 \<Rightarrow> bytes list list \<Rightarrow> bool" where
  "dir_on disc sec sz secs \<longleftrightarrow> wf_dir secs \<and> 0 < length secs \<and> length secs \<le> 2048 \<and> unat sz = 2048 * length secs
     \<and> disc_sectors disc (unat sec) (length secs) = dir_bytes secs"

lemma find_file_lookup:
  assumes dev: "iso_dev n disc s" and dir: "dir_on disc sec sz secs"
  shows "iso9660_find_file n sec sz name s = Some (dir_lookup n name secs)"
proof -
  obtain d where d: "n < disk_count s" "\<And>k. disk_malloc_ok s k" "get_disk n s = Some d" "d_bytes_per_sector d = 2048" "disks s \<noteq> None"
    using dev by (rule iso_devE) blast
  have l: "wf_dir secs" "0 < length secs" "length secs \<le> 2048" "unat sz = 2048 * length secs"
      "disc_sectors disc (unat sec) (length secs) = dir_bytes secs"
    using dir by (simp_all add: dir_on_def)
  have nz: "sz \<noteq> 0" "unat sz \<noteq> 0" using l by auto
  define cnt where "cnt = (sz + 2048 - 1) div (2048 :: u32)"
  have "unat (sz + 2047) = 2048 * length secs + 2047" using l(3,4) by (subst unat_plus_u32) simp_all
  moreover have "cnt = (sz + 2047) div 2048" by (simp add: cnt_def add.commute)
  ultimately have "unat cnt = (2048 * length secs + 2047) div unat (2048 :: u32)" by (simp only: unat_div_distrib)
  then have cnt: "unat cnt = length secs" by simp
  have rd: "kebla_disk_read n (ucast sec) cnt (replicate (unat sz) 0) s = Some (True, dir_bytes secs)"
    using iso_disk_read [OF dev, of cnt "replicate (unat sz) 0" sec] l cnt length_dir_bytes [OF l(1)] by simp
  have "find_loop n (dir_bytes secs) sz 2048 name 0 0 = Some (dir_lookup n name secs)"
    using find_loop_sectors [OF l(1), of "[]" 0 sz n name] l(4) by simp
  then show ?thesis
    using d nz rd by (auto simp: iso9660_find_file_def disk_malloc_def Let_def cnt_def)
qed

text \<open>A path of directories that ends in a file.\<close>

inductive path_to :: "int \<Rightarrow> (nat \<Rightarrow> bytes) \<Rightarrow> u32 \<Rightarrow> u32 \<Rightarrow> bytes list \<Rightarrow> iso9660_file \<Rightarrow> bool" for n disc where
  path_file: "dir_on disc sec sz secs \<Longrightarrow> dir_lookup n t secs = Some f \<Longrightarrow> \<not> iso_is_dir f \<Longrightarrow> path_to n disc sec sz [t] f"
| path_dir: "dir_on disc sec sz secs \<Longrightarrow> dir_lookup n t secs = Some d \<Longrightarrow> iso_is_dir d \<Longrightarrow>
    path_to n disc (iso_sector d) (iso_size d) ts f \<Longrightarrow> path_to n disc sec sz (t # ts) f"

lemma lookup_disk_no: "dir_lookup n t secs = Some f \<Longrightarrow> iso_disk_no f = n"
  by (auto simp: dir_lookup_def rec_file_def)

lemma open_loop_path:
  assumes "iso_dev n disc s" "path_to n disc sec sz ts f"
  shows "open_loop n ts sec sz s = Some (Some f)" "iso_disk_no f = n"
  using assms(2)
proof (induction rule: path_to.induct)
  case (path_file sec sz secs t f)
  have no: "iso_disk_no f = n" using path_file by (auto simp: dir_on_def intro: lookup_disk_no)
  have m: "disk_malloc_ok s 272" using assms(1) by (simp add: iso_dev_def)
  have e: "f\<lparr>iso_disk_no := n\<rparr> = f" using no by simp
  {
    case 1
    show ?case using find_file_lookup [OF assms(1) path_file(1)] path_file(2,3) m e by simp
  next
    case 2
    show ?case by (rule no)
  }
next
  case (path_dir sec sz secs t d ts f)
  {
    case 1
    show ?case using find_file_lookup [OF assms(1) path_dir(1)] path_dir by simp
  next
    case 2
    show ?case using path_dir by simp
  }
qed

lemma disc_sectors_Suc: "disc_sectors disc a (Suc k) = disc a @ disc_sectors disc (a + 1) k"
proof -
  have "[0..<Suc k] = 0 # map Suc [0..<k]" by (simp add: upt_conv_Cons map_Suc_upt)
  then show ?thesis by (simp add: disc_sectors_def comp_def del: upt_Suc)
qed

lemma iso_read_loop_spec:
  assumes dev: "iso_dev n disc s"
  shows "length sbuf = 2048 \<Longrightarrow> unat tot + r \<le> length out \<Longrightarrow> unat tot + r < 2 ^ 32 \<Longrightarrow> unat sec + (r + 2047) div 2048 \<le> 2 ^ 32 \<Longrightarrow>
    iso_read_loop n 2048 tot (of_nat r) sec sbuf out s
      = Some (tot + of_nat r, overwrite out (unat tot) (take r (disc_sectors disc (unat sec) ((r + 2047) div 2048))))"
proof (induction r arbitrary: tot sec sbuf out rule: less_induct)
  case (less r)
  have ur: "unat (of_nat r :: u32) = r" using less.prems(3) by (simp add: unat_of_nat take_bit_nat_eq_self)
  show ?case
  proof (cases "r = 0")
    case True
    then show ?thesis by (subst iso_read_loop.simps) simp
  next
    case False
    define c where "c = min r 2048"
    define k where "k = (r - c + 2047) div 2048"
    have c: "0 < c" "c \<le> r" "c \<le> 2048" using False by (auto simp: c_def)
    have k: "(r + 2047) div 2048 = Suc k"
    proof (cases "r \<le> 2048")
      case True
      then have "k = 0" "(r + 2047) div 2048 = 1" using False by (auto simp: k_def c_def)
      then show ?thesis by simp
    next
      case False
      then have "r + 2047 - 2048 = r - c + 2047" "\<not> r + 2047 < 2048" by (simp_all add: c_def)
      then show ?thesis using le_div_geq [of 2048 "r + 2047"] by (simp only: k_def)
    qed
    have ld: "length (disc i) = 2048" for i using dev by (auto simp: iso_dev_def reads_disc_def split: option.splits)
    have read: "kebla_disk_read n (ucast sec) 1 sbuf s = Some (True, disc (unat sec))"
      using iso_disk_read [OF dev, of 1 sbuf sec] less.prems(1) ld by (simp add: disc_sectors_def)
    have cw: "(if of_nat r < (2048 :: u32) then of_nat r else 2048) = (of_nat c :: u32)"
      using ur by (auto simp: c_def word_less_nat_alt)
    have uc: "unat (of_nat c :: u32) = c" using c by (simp add: unat_of_nat take_bit_nat_eq_self)
    have ut: "unat (tot + of_nat c) = unat tot + c" using less.prems(3) c uc by (subst unat_plus_u32) simp_all
    have ih: "iso_read_loop n 2048 (tot + of_nat c) (of_nat (r - c)) (sec + 1) (disc (unat sec)) (overwrite out (unat tot) (take c (disc (unat sec)))) s
        = Some (tot + of_nat c + of_nat (r - c), overwrite (overwrite out (unat tot) (take c (disc (unat sec)))) (unat tot + c)
            (take (r - c) (disc_sectors disc (unat (sec + 1)) k)))"
      unfolding k_def ut [symmetric]
    proof (rule less.IH)
      show "unat (sec + 1) + (r - c + 2047) div 2048 \<le> 2 ^ 32"
      proof (cases "unat sec + 1 < 2 ^ 32")
        case True
        then have "unat (sec + 1) = unat sec + 1" using unat_plus_u32 [of sec 1] by simp
        then show ?thesis using less.prems(4) k by (simp add: k_def)
      next
        case False
        then have "k = 0" using less.prems(4) k by simp
        then show ?thesis using unat_u32_lt [of "sec + 1"] by (simp add: k_def)
      qed
    qed (use less.prems c ld ut in simp_all)
    have tail: "take c (disc (unat sec)) @ take (r - c) (disc_sectors disc (unat (sec + 1)) k) = take r (disc_sectors disc (unat sec) (Suc k))"
    proof (cases "r \<le> 2048")
      case True
      then show ?thesis using ld by (simp add: c_def disc_sectors_Suc)
    next
      case False
      then have "0 < k" by (simp add: k_def c_def div_greater_zero_iff)
      then have "unat (sec + 1) = unat sec + 1" using less.prems(4) k unat_plus_u32 [of sec 1] by simp
      then show ?thesis using False ld by (simp add: c_def disc_sectors_Suc)
    qed
    have "iso_read_loop n 2048 tot (of_nat r) sec sbuf out s
        = iso_read_loop n 2048 (tot + of_nat c) (of_nat r - of_nat c) (sec + 1) (disc (unat sec)) (overwrite out (unat tot) (take c (disc (unat sec)))) s"
      using False ur read cw uc less.prems(2) c
      by (subst iso_read_loop.simps) (simp add: word_gt_0 unat_eq_zero [symmetric] Let_def)
    also have "of_nat r - of_nat c = (of_nat (r - c) :: u32)" using c by (simp add: of_nat_diff)
    also note ih
    also have "overwrite (overwrite out (unat tot) (take c (disc (unat sec)))) (unat tot + c) (take (r - c) (disc_sectors disc (unat (sec + 1)) k))
        = overwrite out (unat tot) (take r (disc_sectors disc (unat sec) (Suc k)))"
      using overwrite_adj [of "unat tot" "take c (disc (unat sec))" "take (r - c) (disc_sectors disc (unat (sec + 1)) k)" out] less.prems(2) c ld
      unfolding tail by simp
    also have "tot + of_nat c + of_nat (r - c) = tot + (of_nat r :: u32)" using c by (simp add: of_nat_diff)
    finally show ?thesis by (simp only: k)
  qed
qed

definition file_bytes :: "(nat \<Rightarrow> bytes) \<Rightarrow> iso9660_file \<Rightarrow> bytes" where
  "file_bytes disc f = take (unat (iso_size f)) (disc_sectors disc (unat (iso_sector f)) ((unat (iso_size f) + 2047) div 2048))"

lemma take_disc_sectors:
  assumes "\<And>i. length (disc i) = 2048" "r \<le> n"
  shows "take r (disc_sectors disc a ((r + 2047) div 2048)) = take r (disc_sectors disc a ((n + 2047) div 2048))"
proof -
  have "(r + 2047) div 2048 \<le> (n + 2047) div 2048" using assms(2) by (intro div_le_mono) simp
  then obtain e where e: "(n + 2047) div 2048 = (r + 2047) div 2048 + e" using le_Suc_ex by blast
  have "disc_sectors disc a (x + e) = disc_sectors disc a x @ disc_sectors disc (a + x) e" for x
    by (induction e) (simp_all add: disc_sectors_def add.assoc)
  moreover have "r \<le> (r + 2047) div 2048 * 2048" using div_mult_mod_eq [of "r + 2047" 2048] mod_less_divisor [of 2048 "r + 2047"] by linarith
  ultimately show ?thesis using assms(1) by (simp add: e length_disc_sectors)
qed

section \<open>Properties of the file system\<close>

lemma iso9660_read_bytes:
  assumes "iso_dev n disc s" "iso_disk_no f = n" "0 < len" "len < 2 ^ 31" "m = min (nat len) (unat (iso_size f))" "m \<le> length buff"
    and "unat (iso_sector f) + (unat (iso_size f) + 2047) div 2048 \<le> 2 ^ 32"
  shows "iso9660_read f buff len s = Some (int m, overwrite buff 0 (take m (file_bytes disc f)))"
proof -
  obtain d where d: "\<And>k. disk_malloc_ok s k" "get_disk n s = Some d" "d_bytes_per_sector d = 2048" "disks s \<noteq> None"
    using assms(1) by (rule iso_devE) blast
  have ul: "unat (of_int len :: u32) = nat len"
    using assms(3,4) by (simp add: unsigned_of_int take_bit_int_eq_self)
  have m: "(if (of_int len :: u32) > iso_size f then iso_size f else of_int len) = of_nat m"
    using ul assms(3) by (auto simp: assms(5) word_less_nat_alt min_def of_nat_nat)
  have m31: "m < 2 ^ 31" using assms(3-5) by auto
  have ld: "length (disc i) = 2048" for i using assms(1) by (auto simp: iso_dev_def reads_disc_def split: option.splits)
  have "(m + 2047) div 2048 \<le> (unat (iso_size f) + 2047) div 2048" by (intro div_le_mono) (simp add: assms(5))
  then have "iso_read_loop n 2048 0 (of_nat m) (iso_sector f) (replicate 2048 0) buff s
      = Some (0 + of_nat m, overwrite buff (unat (0 :: u32)) (take m (disc_sectors disc (unat (iso_sector f)) ((m + 2047) div 2048))))"
    using m31 assms(6,7) by (intro iso_read_loop_spec [OF assms(1)]) simp_all
  moreover have "take m (disc_sectors disc (unat (iso_sector f)) ((m + 2047) div 2048)) = take m (file_bytes disc f)"
    using take_disc_sectors [where disc = disc and r = m and n = "unat (iso_size f)" and a = "unat (iso_sector f)", OF ld] by (simp add: assms(5) file_bytes_def)
  moreover have "sint (of_nat m :: u32) = int m" using m31 by (simp add: signed_of_nat signed_take_bit_int_eq_self)
  ultimately show ?thesis
    using d assms(2,3) m by (simp add: iso9660_read_def disk_malloc_def Let_def)
qed

text \<open>
  C10. A file on the disc can be opened by its path and read back. The directories are lists of records in the layout
  of ECMA-119 (\<open>rec_ident\<close>, \<open>rec_name\<close>, \<open>rec_file\<close>: extent at offset 2, data length at offset 10, directory flag in bit 1
  of offset 25, name before the semicolon in upper case), in sectors padded with zeros, of at most 2048 sectors. With such a
  disc in the drive, its root directory the one the disk table names and memory not exhausted, a path whose
  components are found in turn opens the file of the last record, and reading its
  whole size, from 1 byte to 2 GiB, returns exactly the bytes of its extent: across the records, the padding at sector
  ends, the entries of the directory itself and its parent, and names with version suffixes or lower-case letters on the disc.
\<close>

theorem iso_open_then_read:
  assumes "iso_dev n disc s" "get_disk n s = Some d"
    and "path_to n disc (d_root_directory_sector d) (d_root_directory_size d) (tokens [47] (skip_slash path)) f"
    and "0 < iso_size f" "iso_size f < 0x80000000"
    and "unat (iso_sector f) + (unat (iso_size f) + 2047) div 2048 \<le> 2 ^ 32"
  shows "iso9660_open n path s = Some (Some f) \<and>
    iso9660_read f (replicate (unat (iso_size f)) 0) (iso9660_get_fsize (Some f)) s = Some (int (unat (iso_size f)), file_bytes disc f)"
proof -
  have dev: "n < disk_count s" "\<And>k. disk_malloc_ok s k" "d_type d = DISK_TYPE_SATAPI" "disks s \<noteq> None"
    using assms(1,2) by (auto elim!: iso_devE)
  have ne: "skip_slash path \<noteq> []"
    using assms(3) by (auto simp: tokens.simps elim: path_to.cases)
  have "iso9660_open n path s = Some (Some f)"
    using dev assms(2) ne open_loop_path(1) [OF assms(1,3)] by (auto simp: iso9660_open_def Let_def)
  moreover have "iso9660_read f (replicate (unat (iso_size f)) 0) (iso9660_get_fsize (Some f)) s = Some (int (unat (iso_size f)), file_bytes disc f)"
  proof -
    define m where "m = unat (iso_size f)"
    have m: "0 < m" "m < 2 ^ 31" using assms(4,5) by (auto simp: m_def word_less_nat_alt unat_gt_0)
    have f: "iso_size f = of_nat m" by (simp add: m_def)
    have "sint (iso_size f) = int m" unfolding f using m by (simp add: signed_of_nat signed_take_bit_int_eq_self)
    then have sz: "iso9660_get_fsize (Some f) = int m" by (simp add: iso9660_get_fsize_def)
    have ld: "length (disc i) = 2048" for i using assms(1) by (auto simp: iso_dev_def reads_disc_def split: option.splits)
    have "m \<le> (m + 2047) div 2048 * 2048"
      using div_mult_mod_eq [of "m + 2047" 2048] mod_less_divisor [of 2048 "m + 2047"] by linarith
    then have len: "length (file_bytes disc f) = m" using ld by (simp add: file_bytes_def m_def [symmetric] length_disc_sectors)
    then show ?thesis
      using iso9660_read_bytes [OF assms(1) open_loop_path(2) [OF assms(1,3)], of "int m" m "replicate m 0"] m assms(6)
      by (simp add: sz m_def [symmetric])
  qed
  ultimately show ?thesis ..
qed

text \<open>
  \<open>iso9660_init\<close> overruns its buffer. With a working drive it reads four sectors of 2048 bytes into a block of 2048
  bytes, so its result is undefined before any descriptor is looked at, and so is that of \<open>iso9660_mount\<close>.
\<close>

theorem iso_init_overruns:
  assumes "iso_dev n disc s"
  shows "iso9660_init n s = None \<and> iso9660_mount n s = None"
proof -
  obtain d port where d: "n < disk_count s" "\<And>k. disk_malloc_ok s k" "get_disk n s = Some d" "d_type d = DISK_TYPE_SATAPI"
    "d_context d = Some port" "reads_disc (optical s port) disc" "disks s \<noteq> None"
    using assms by (rule iso_devE) blast
  have "region_len (4 * 2048) = 8192" using region_len_sectors [of 4] by simp
  then have "satapi_read (optical s port) 16 4 (replicate 2048 0) = None"
    using d(6) rw12_fields [of "0xA8" 16 4] by (simp add: satapi_read_def atapi_in_def reads_disc_def)
  then have "kebla_disk_read n 16 4 (replicate 2048 0) s = None" using d by (simp add: kebla_disk_read_def)
  then have "iso9660_init n s = None" using d by (auto simp: iso9660_init_def init_sector_def disk_malloc_def)
  then show ?thesis using d by (auto simp: iso9660_mount_def)
qed

text \<open>A disc with one file, \<open>A.TXT;1\<close>, of five bytes in sector 19.\<close>

definition sample_rec :: "u8 \<Rightarrow> u8 \<Rightarrow> u8 \<Rightarrow> u8 \<Rightarrow> bytes \<Rightarrow> bytes" where
  "sample_rec len sec sz flags nm =
     [len, 0, sec, 0, 0, 0, 0, 0, 0, sec, sz, 0, 0, 0, 0, 0, 0, sz, 0, 0, 0, 0, 0, 0, 0, flags, 0, 0, 1, 0, 0, 1, of_nat (length nm)] @ nm"

definition sample_root :: "bytes list list" where
  "sample_root = [[sample_rec 34 18 0 2 [0], sample_rec 34 18 0 2 [1], sample_rec 40 19 5 0 [97, 46, 84, 88, 84, 59, 49]]]"

definition sample_disc :: "nat \<Rightarrow> bytes" where
  "sample_disc i = (if i = 18 then dir_bytes sample_root else replicate 2048 (of_nat i))"

definition sample_optical :: atapi_drive where
  "sample_optical = \<lparr>packet_in = (\<lambda>cdb n. Some (take n (disc_sectors sample_disc (unat (be32 cdb 2)) (unat (be32 cdb 6))))),
     packet_out = (\<lambda>_ _. False)\<rparr>"

definition sample_iso :: disk_sys where
  "sample_iso = (sample_sys True)\<lparr>disks := Some [(sample_disk True)\<lparr>d_type := DISK_TYPE_SATAPI, d_bytes_per_sector := 2048,
       d_root_directory_sector := 18, d_root_directory_size := 2048\<rparr>], optical := (\<lambda>_. sample_optical)\<rparr>"

definition sample_file :: iso9660_file where
  "sample_file = \<lparr>iso_name = [65, 46, 84, 88, 84], iso_sector = 19, iso_size = 5, iso_disk_no = 0, iso_is_dir = False\<rparr>"

lemma sample_root_wf: "wf_dir sample_root"
  by (simp add: wf_dir_def sample_root_def wf_rec_def sample_rec_def rec_dot_def rec_ident_def bslice_def)

lemma sample_lookup: "dir_lookup 0 [65, 46, 84, 88, 84] sample_root = Some sample_file"
  by code_simp

lemma sample_iso_dev: "iso_dev 0 sample_disc sample_iso"
proof -
  have "length (sample_disc i) = 2048" for i
    using length_dir_bytes [OF sample_root_wf] by (simp add: sample_disc_def sample_root_def)
  then have "reads_disc sample_optical sample_disc" by (simp add: reads_disc_def sample_optical_def)
  then show ?thesis by (simp add: iso_dev_def get_disk_def sample_iso_def sample_sys_def sample_disk_def)
qed

lemma sample_path: "path_to 0 sample_disc 18 2048 [[65, 46, 84, 88, 84]] sample_file"
proof (rule path_file)
  show "dir_on sample_disc 18 2048 sample_root"
    using sample_root_wf by (simp add: dir_on_def disc_sectors_def sample_disc_def) (simp add: sample_root_def)
  show "dir_lookup 0 [65, 46, 84, 88, 84] sample_root = Some sample_file" by (rule sample_lookup)
  show "\<not> iso_is_dir sample_file" by (simp add: sample_file_def)
qed

theorem iso_open_then_read_witness:
  "iso9660_open 0 [47, 65, 46, 84, 88, 84] sample_iso = Some (Some sample_file) \<and>
   iso9660_read sample_file (replicate 5 0) 5 sample_iso = Some (5, replicate 5 19)"
proof -
  have d: "get_disk 0 sample_iso = Some ((sample_disk True)\<lparr>d_type := DISK_TYPE_SATAPI, d_bytes_per_sector := 2048,
       d_root_directory_sector := 18, d_root_directory_size := 2048\<rparr>)" by (simp add: get_disk_def sample_iso_def)
  have t: "tokens [47] (skip_slash [47, 65, 46, 84, 88, 84]) = [[65, 46, 84, 88, 84]]"
    by (simp add: skip_slash_def tokens.simps Let_def)
  have s: "iso9660_get_fsize (Some sample_file) = 5" "iso_size sample_file = 5" "iso_sector sample_file = 19"
    by (simp_all add: iso9660_get_fsize_def sample_file_def)
  have "file_bytes sample_disc sample_file = replicate 5 19"
    by (simp add: file_bytes_def s disc_sectors_def sample_disc_def)
  then show ?thesis
    using iso_open_then_read [OF sample_iso_dev d, of "[47, 65, 46, 84, 88, 84]" sample_file] sample_path
    by (simp add: t s)
qed

theorem iso_init_overruns_witness: "iso9660_init 0 sample_iso = None \<and> iso9660_mount 0 sample_iso = None"
  by (rule iso_init_overruns [OF sample_iso_dev])

end
