(* ===== verification/Vfs.thy ===== *)
theory Vfs
  imports Iso9660 FatMount FatDirOps
begin

text \<open>
  The virtual file system (kernel/src/vfs/vfs.c): one set of calls that goes to the FAT32 driver on SATA disks and to the
  ISO9660 driver on optical ones.

  An open file is the object the underlying driver allocates, passed in and returned by value; NULL is \<open>None\<close>. A
  handle given to the driver it was not made by, and every use of a pointer to a dead local, is undefined
  (\<open>None\<close> as a result), as is an access to \<open>disks[disk_no]\<close> outside the table. Messages are dropped.

  The calls that read a file are an interface with two implementations; its contract is the locale \<open>whole_file\<close>.
\<close>

section \<open>Types\<close>

datatype VFS_TYPE = VFS_UNKNOWN | VFS_FAT12 | VFS_FAT16 | VFS_FAT32 | VFS_EXFAT | VFS_EXT2 | VFS_EXT3 | VFS_EXT4
  | VFS_NTFS | VFS_UDF | VFS_NFS | VFS_SMB | VFS_SSHFS | VFS_WEBDEV | VFS_APFS | VFS_ISO9660 | VFS_TEMPFS | VFS_RAW

definition VFS_READ :: int where "VFS_READ = 0x01"
definition VFS_WRITE :: int where "VFS_WRITE = 0x02"
definition VFS_CREATE :: int where "VFS_CREATE = 0x04"
definition VFS_CREATE_ALWAYS :: int where "VFS_CREATE_ALWAYS = 0x08"

datatype vfs_file = FatFp FAT32_FILE | IsoFp iso9660_file

text \<open>\<open>DeadLocal\<close> is the address of a local of a function that has returned.\<close>

datatype vfs_dir = DeadLocal | IsoDp iso9660_dir

datatype vfs_info = FatStat FAT32_STAT | FatEnt FAT32_DIRENT | IsoEnt iso9660_file

text \<open>The switch over the type of a disk that every call makes.\<close>

definition by_type :: "int \<Rightarrow> fat32 \<Rightarrow> 'r option \<Rightarrow> 'r option \<Rightarrow> 'r option \<Rightarrow> 'r option" where
  "by_type disk_no s on_iso on_fat on_other =
     Option.bind (get_disk disk_no s) (\<lambda>d.
       if d_type d = DISK_TYPE_SATAPI then on_iso else if d_type d = DISK_TYPE_AHCI_SATA then on_fat else on_other)"

definition vstatus :: "bool \<Rightarrow> int" where "vstatus ok = (if ok then 0 else -1)"

section \<open>Which file system is on a disk\<close>

definition is_gpt_disk :: "int \<Rightarrow> fat32 \<Rightarrow> bool option" where
  "is_gpt_disk disk_no s =
     Option.bind (kebla_disk_read disk_no 0 1 (replicate 512 0) s) (\<lambda>(ok, sector). if \<not> ok then Some False else None)"

definition fat_name :: "bytes \<Rightarrow> VFS_TYPE option" where
  "fat_name b =
     (if bslice 0x52 5 b = str_bytes ''FAT32'' \<or> bslice 0x36 5 b = str_bytes ''FAT32'' then Some VFS_FAT32
      else if bslice 0x36 5 b = str_bytes ''FAT16'' then Some VFS_FAT16
      else if bslice 0x36 5 b = str_bytes ''FAT12'' then Some VFS_FAT12
      else None)"

text \<open>\<open>extbuf\<close> is what the stack holds where the local of that name is; it is 1536 bytes long and two sectors are read into it.\<close>

definition detect_filesystem :: "int \<Rightarrow> bytes \<Rightarrow> fat32 \<Rightarrow> VFS_TYPE option" where
  "detect_filesystem disk_no extbuf s =
     do { (ok, sector) \<leftarrow> kebla_disk_read disk_no 0 1 (replicate 512 0) s;
          if \<not> ok then Some VFS_UNKNOWN
          else do {
            part \<leftarrow> (if rd8 sector 510 = 0x55 \<and> rd8 sector 511 = 0xAA \<and> rd8 sector (0x1BE + 4) \<noteq> 0
                     then do { (ok, pboot) \<leftarrow> kebla_disk_read disk_no (ucast (rd32 sector (0x1BE + 8))) 1 (replicate 512 0) s;
                               Some (if ok then fat_name pboot else None) }
                     else Some None);
            case part of
              Some t \<Rightarrow> Some t
            | None \<Rightarrow>
                case fat_name sector of
                  Some t \<Rightarrow> Some t
                | None \<Rightarrow>
                    if bslice 0x03 8 sector = str_bytes ''EXFAT   '' then Some VFS_EXFAT
                    else if bslice 0x03 8 sector = str_bytes ''NTFS    '' then Some VFS_NTFS
                    else do {
                      (ok, extbuf) \<leftarrow> kebla_disk_read disk_no 2 2 extbuf s;
                      if ok \<and> rd16 extbuf (1024 + 0x38) = 0xEF53 then Some VFS_EXT2
                      else do {
                        (ok, sector16) \<leftarrow> kebla_disk_read disk_no 16 1 (replicate 512 0) s;
                        Some (if ok \<and> bslice 0x01 5 sector16 = str_bytes ''CD001'' then VFS_ISO9660 else VFS_RAW) } } } }"

section \<open>Volumes\<close>

definition vfs_init :: "int \<Rightarrow> fat32 \<Rightarrow> (int \<times> fat32) option" where
  "vfs_init disk_no s =
     (if disk_no \<ge> disk_count s \<or> disks s = None then Some (-1, s)
      else by_type disk_no s
        (do { (r, s) \<leftarrow> iso9660_init disk_no s; Some (vstatus (r = 0), s) })
        (Some (0, s))
        (Some (-1, s)))"

definition vfs_disk_status :: "int \<Rightarrow> fat32 \<Rightarrow> int option" where
  "vfs_disk_status disk_no s = map_option vstatus (kebla_disk_status disk_no s)"

definition vfs_mount :: "u64 \<Rightarrow> int \<Rightarrow> u32 \<Rightarrow> VFS_TYPE \<Rightarrow> phys_mem \<Rightarrow> fat32 \<Rightarrow> (int \<times> phys_mem \<times> fat32) option" where
  "vfs_mount hhdm disk_no lba ty m s =
     (if disk_no \<ge> disk_count s \<or> disks s = None then Some (-1, m, s)
      else let fat = do { (ok, m, s) \<leftarrow> fat32_mount hhdm disk_no (ucast lba) (str_bytes ''DATA VOLUME'') m
                                          (fat32_reset (set_disk_no disk_no s));
                          Some (vstatus ok, m, s) }
        in by_type disk_no s
             (do { (r, s) \<leftarrow> iso9660_mount disk_no s; Some (r, m, s) })
             fat
             (if ty = VFS_FAT32 then fat else Some (-1, m, s)))"

definition vfs_unmount :: "int \<Rightarrow> int \<Rightarrow> fat32 \<Rightarrow> int option" where
  "vfs_unmount disk_no logical_drive s =
     (if disk_no \<ge> disk_count s \<or> disks s = None then Some (-1)
      else by_type disk_no s (iso9660_unmount disk_no s) (Some 0) (Some (-1)))"

definition vfs_mkfs :: "int \<Rightarrow> u32 \<Rightarrow> u32 \<Rightarrow> VFS_TYPE \<Rightarrow> fat32 \<Rightarrow> (int \<times> fat32) option" where
  "vfs_mkfs pd start_lba sectors fs_type s =
     (if pd \<ge> disk_count s \<or> sectors \<le> 0 \<or> disks s = None then Some (-1, s)
      else do {
        disk \<leftarrow> get_disk pd s;
        if d_type disk = DISK_TYPE_SATAPI then Some (-1, s)
        else case fs_type of
          VFS_FAT12 \<Rightarrow> Some (0, s)
        | VFS_FAT16 \<Rightarrow> Some (0, s)
        | VFS_FAT32 \<Rightarrow> do { (ok, s) \<leftarrow> create_fat32_volume start_lba sectors (set_disk_no pd s); Some (vstatus ok, s) }
        | VFS_EXFAT \<Rightarrow> Some (0, s)
        | _ \<Rightarrow> Some (-1, s) })"

definition vfs_setcp :: "int \<Rightarrow> int \<Rightarrow> fat32 \<Rightarrow> int option" where
  "vfs_setcp disk_no cp s =
     (if disk_no \<ge> disk_count s then Some (-1) else by_type disk_no s (Some (-1)) (Some 0) (Some (-1)))"

section \<open>Files\<close>

text \<open>The block that \<open>vfs_open\<close> allocates (292 bytes) and clears.\<close>

definition new_file :: FAT32_FILE where
  "new_file = \<lparr>first_cluster = 0, current_cluster = 0, fsize = 0, pos = 0, parent_cluster = 0,
     dir_entry_cluster = 0, dir_entry_offset = 0, fname = [], fmode = 0, ferror = 0\<rparr>"

definition vfs_open :: "int \<Rightarrow> bytes option \<Rightarrow> int \<Rightarrow> fat32 \<Rightarrow> (vfs_file option \<times> fat32) option" where
  "vfs_open pd_no path mode s =
     (if pd_no \<ge> disk_count s \<or> disks s = None \<or> path = None \<or> mode < VFS_READ then Some (None, s)
      else by_type pd_no s
        (do { f \<leftarrow> iso9660_open pd_no (the path) s; Some (map_option IsoFp f, s) })
        (if \<not> disk_malloc_ok s 292 then Some (None, s)
         else do { (ok, fp, s) \<leftarrow> f_open new_file (the path) (of_int mode) s;
                   Some (if ok then Some (FatFp fp) else None, s) })
        (Some (None, s)))"

definition vfs_close :: "int \<Rightarrow> vfs_file option \<Rightarrow> fat32 \<Rightarrow> (int \<times> fat32) option" where
  "vfs_close disk_no fp s =
     (case fp of
        None \<Rightarrow> Some (-1, s)
      | Some f \<Rightarrow> by_type disk_no s
          (case f of IsoFp i \<Rightarrow> Some (iso9660_close (Some i), s) | _ \<Rightarrow> None)
          (case f of FatFp p \<Rightarrow> do { (ok, p, s) \<leftarrow> f_close p s; Some (vstatus ok, s) } | _ \<Rightarrow> None)
          (Some (-1, s)))"

definition vfs_read :: "int \<Rightarrow> vfs_file option \<Rightarrow> bytes \<Rightarrow> int \<Rightarrow> fat32 \<Rightarrow> (int \<times> bytes \<times> vfs_file option) option" where
  "vfs_read disk_no fp buff n s =
     by_type disk_no s
       (case fp of None \<Rightarrow> Some (-1, buff, fp)
        | Some (IsoFp f) \<Rightarrow> do { (r, buff) \<leftarrow> iso9660_read f buff n s; Some (r, buff, fp) }
        | Some (FatFp _) \<Rightarrow> None)
       (case fp of None \<Rightarrow> Some (-1, buff, fp)
        | Some (FatFp p) \<Rightarrow> do { (ok, buff, br, p) \<leftarrow> f_read p buff (of_int n) s; Some (vstatus ok, buff, Some (FatFp p)) }
        | Some (IsoFp _) \<Rightarrow> None)
       (Some (-1, buff, fp))"

definition vfs_write :: "int \<Rightarrow> vfs_file option \<Rightarrow> bytes \<Rightarrow> int \<Rightarrow> fat32 \<Rightarrow> (int \<times> vfs_file option \<times> fat32) option" where
  "vfs_write disk_no fp buff filesize s =
     (if fp = None \<or> filesize \<le> 0 then Some (-1, fp, s)
      else by_type disk_no s
        (Some (-1, fp, s))
        (case the fp of
           FatFp p \<Rightarrow> do { (ok, bw, p, s) \<leftarrow> f_write p buff (of_int filesize) s; Some (vstatus ok, Some (FatFp p), s) }
         | IsoFp _ \<Rightarrow> None)
        (Some (-1, fp, s)))"

definition vfs_lseek :: "int \<Rightarrow> vfs_file option \<Rightarrow> int \<Rightarrow> fat32 \<Rightarrow> (int \<times> vfs_file option) option" where
  "vfs_lseek disk_no fp offset s =
     by_type disk_no s
       (Some (-1, fp))
       (case fp of None \<Rightarrow> Some (-1, fp)
        | Some (FatFp p) \<Rightarrow> do { (ok, p) \<leftarrow> f_lseek p (of_int offset) s; Some (vstatus ok, Some (FatFp p)) }
        | Some (IsoFp _) \<Rightarrow> None)
       (Some (-1, fp))"

definition vfs_truncate :: "int \<Rightarrow> vfs_file option \<Rightarrow> fat32 \<Rightarrow> (int \<times> vfs_file option \<times> fat32) option" where
  "vfs_truncate disk_no fp s =
     by_type disk_no s
       (Some (-1, fp, s))
       (case fp of None \<Rightarrow> Some (-1, fp, s)
        | Some (FatFp p) \<Rightarrow> do { (ok, p, s) \<leftarrow> f_truncate p s; Some (vstatus ok, Some (FatFp p), s) }
        | Some (IsoFp _) \<Rightarrow> None)
       (Some (-1, fp, s))"

definition vfs_sync :: "int \<Rightarrow> vfs_file option \<Rightarrow> fat32 \<Rightarrow> (int \<times> fat32) option" where
  "vfs_sync disk_no fp s =
     by_type disk_no s
       (Some (-1, s))
       (case fp of None \<Rightarrow> Some (-1, s)
        | Some (FatFp p) \<Rightarrow> do { (ok, s) \<leftarrow> f_sync p s; Some (vstatus ok, s) }
        | Some (IsoFp _) \<Rightarrow> None)
       (Some (-1, s))"

definition vfs_get_fsize :: "int \<Rightarrow> vfs_file option \<Rightarrow> fat32 \<Rightarrow> int option" where
  "vfs_get_fsize disk_no fp s =
     by_type disk_no s
       (case fp of None \<Rightarrow> Some (-1) | Some (IsoFp f) \<Rightarrow> Some (iso9660_get_fsize (Some f)) | Some (FatFp _) \<Rightarrow> None)
       (case fp of None \<Rightarrow> Some 0 | Some (FatFp p) \<Rightarrow> Some (sint (f_size p)) | Some (IsoFp _) \<Rightarrow> None)
       (Some (-1))"

section \<open>Directories and paths\<close>

text \<open>\<open>dir0\<close> is what the stack holds where the local directory object is.\<close>

definition vfs_opendir :: "int \<Rightarrow> FAT32_DIR \<Rightarrow> bytes \<Rightarrow> fat32 \<Rightarrow> vfs_dir option option" where
  "vfs_opendir disk_no dir0 path s =
     (if disk_no \<ge> disk_count s then Some None
      else by_type disk_no s
        (map_option (map_option IsoDp) (iso9660_opendir disk_no path s))
        (do { (ok, dir) \<leftarrow> f_opendir dir0 path s; Some (if ok then Some DeadLocal else None) })
        (Some None))"

definition vfs_closedir :: "int \<Rightarrow> vfs_dir option \<Rightarrow> fat32 \<Rightarrow> int option" where
  "vfs_closedir disk_no dp s =
     (case dp of
        None \<Rightarrow> Some (-1)
      | Some d \<Rightarrow> by_type disk_no s
          (case d of IsoDp i \<Rightarrow> Some (iso9660_closedir (Some i)) | DeadLocal \<Rightarrow> None)
          None
          (Some (-1)))"

text \<open>Every directory handle that a SATA disk yields is dead, and one of the other driver is of the wrong type.\<close>

definition vfs_readdir :: "int \<Rightarrow> vfs_dir option \<Rightarrow> vfs_info option \<Rightarrow> fat32 \<Rightarrow> (int \<times> vfs_dir option \<times> vfs_info option) option" where
  "vfs_readdir disk_no dp fno s =
     (if dp = None \<or> fno = None then Some (-1, dp, fno)
      else by_type disk_no s
        (case (the dp, the fno) of
           (IsoDp d, IsoEnt e) \<Rightarrow> do { (r, d, e) \<leftarrow> iso9660_readdir d e; Some (r, Some (IsoDp d), Some (IsoEnt e)) }
         | _ \<Rightarrow> None)
        None
        (Some (-1, dp, fno)))"

text \<open>The records that \<open>vfs_listdir\<close> prints, with its result.\<close>

definition vfs_listdir :: "int \<Rightarrow> FAT32_DIR \<Rightarrow> bytes \<Rightarrow> fat32 \<Rightarrow> (u64 \<times> FAT32_DIRENT list) option" where
  "vfs_listdir disk_no dir0 path s =
     (if disk_no \<ge> disk_count s then Some (-1, [])
      else by_type disk_no s
        (Some (-1, []))
        (do { (ok, dir) \<leftarrow> f_opendir dir0 path s;
              if \<not> ok then Some (-1, []) else do { es \<leftarrow> list_dir dir s; Some (-1, es) } })
        (Some (-1, [])))"

definition vfs_mkdir :: "int \<Rightarrow> bytes option \<Rightarrow> fat32 \<Rightarrow> int option" where
  "vfs_mkdir disk_no path s =
     (if path = None \<or> disks s = None then Some (-1)
      else by_type disk_no s (Some (-1)) (Some 0) (Some (-1)))"

definition vfs_unlink :: "int \<Rightarrow> bytes option \<Rightarrow> fat32 \<Rightarrow> (int \<times> fat32) option" where
  "vfs_unlink disk_no path s =
     (case path of
        None \<Rightarrow> Some (-1, s)
      | Some p \<Rightarrow> by_type disk_no s
          (Some (-1, s))
          (do { (ok, s) \<leftarrow> f_unlink p s; Some (vstatus ok, s) })
          (Some (-1, s)))"

definition vfs_rename :: "int \<Rightarrow> bytes option \<Rightarrow> bytes option \<Rightarrow> fat32 \<Rightarrow> (int \<times> fat32) option" where
  "vfs_rename disk_no old_path new_path s =
     (if old_path = None \<or> new_path = None then Some (-1, s)
      else by_type disk_no s
        (Some (-1, s))
        (do { (ok, s) \<leftarrow> f_rename (the old_path) (the new_path) s; Some (vstatus ok, s) })
        (Some (-1, s)))"

definition vfs_stat :: "int \<Rightarrow> bytes option \<Rightarrow> vfs_info option \<Rightarrow> fat32 \<Rightarrow> (int \<times> vfs_info option) option" where
  "vfs_stat disk_no path fno s =
     (case path of
        None \<Rightarrow> Some (-1, fno)
      | Some p \<Rightarrow> by_type disk_no s
          (case fno of
             None \<Rightarrow> Some (-1, fno)
           | Some (IsoEnt e) \<Rightarrow> do { (r, e) \<leftarrow> iso9660_stat disk_no p e s; Some (r, Some (IsoEnt e)) }
           | _ \<Rightarrow> None)
          (case fno of
             None \<Rightarrow> Some (-1, fno)
           | Some (FatStat info) \<Rightarrow> do { r \<leftarrow> f_stat p s;
               Some (case r of None \<Rightarrow> (-1, fno) | Some info \<Rightarrow> (0, Some (FatStat info))) }
           | _ \<Rightarrow> None)
          (Some (-1, fno)))"

definition vfs_chmod :: "int \<Rightarrow> bytes option \<Rightarrow> int \<Rightarrow> int \<Rightarrow> fat32 \<Rightarrow> int option" where
  "vfs_chmod disk_no path attr msk s =
     (if path = None then Some (-1) else by_type disk_no s (Some (-1)) (Some 0) (Some (-1)))"

definition vfs_utime :: "int \<Rightarrow> bytes option \<Rightarrow> vfs_info option \<Rightarrow> fat32 \<Rightarrow> int option" where
  "vfs_utime disk_no path fno s =
     (if path = None \<or> fno = None then Some (-1) else by_type disk_no s (Some (-1)) (Some 0) (Some (-1)))"

definition vfs_chdir :: "int \<Rightarrow> bytes option \<Rightarrow> fat32 \<Rightarrow> (int \<times> fat32) option" where
  "vfs_chdir disk_no path s =
     by_type disk_no s
       (Some (-1, s))
       (case path of None \<Rightarrow> Some (-1, s) | Some p \<Rightarrow> do { (ok, s) \<leftarrow> f_chdir p s; Some (vstatus ok, s) })
       (Some (-1, s))"

definition vfs_getcwd :: "int \<Rightarrow> int \<Rightarrow> fat32 \<Rightarrow> (int \<times> bytes option) option" where
  "vfs_getcwd disk_no len s =
     by_type disk_no s
       (Some (-1, None))
       (let r = f_getcwd (of_int len) s in Some (vstatus (r \<noteq> None), r))
       (Some (-1, None))"

text \<open>The bodies of these five calls are the same.\<close>

definition vfs_getfree :: "int \<Rightarrow> bytes option \<Rightarrow> fat32 \<Rightarrow> int option" where
  "vfs_getfree disk_no path s = by_type disk_no s (Some (-1)) (Some 0) (Some (-1))"

definition vfs_getlabel :: "int \<Rightarrow> bytes option \<Rightarrow> bytes \<Rightarrow> fat32 \<Rightarrow> int option" where
  "vfs_getlabel disk_no path label s = by_type disk_no s (Some (-1)) (Some 0) (Some (-1))"

definition vfs_setlabel :: "int \<Rightarrow> bytes \<Rightarrow> fat32 \<Rightarrow> int option" where
  "vfs_setlabel disk_no label s = by_type disk_no s (Some (-1)) (Some 0) (Some (-1))"

definition vfs_forward :: "int \<Rightarrow> fat32 \<Rightarrow> int option" where
  "vfs_forward disk_no s = by_type disk_no s (Some (-1)) (Some 0) (Some (-1))"

definition vfs_expand :: "int \<Rightarrow> fat32 \<Rightarrow> int option" where
  "vfs_expand disk_no s = by_type disk_no s (Some (-1)) (Some 0) (Some (-1))"

definition vfs_error_string :: "int \<Rightarrow> string" where
  "vfs_error_string result = (if result = 0 then ''OK'' else if result = -1 then ''DISK_ERR'' else ''UNKNOWN_ERROR'')"

section \<open>The self test\<close>

text \<open>When every step succeeds the end of \<open>vfs_test\<close> is reached without a return value (\<open>None\<close> in the first component).\<close>

definition vfs_test :: "u64 \<Rightarrow> int \<Rightarrow> u32 \<Rightarrow> VFS_TYPE \<Rightarrow> phys_mem \<Rightarrow> fat32 \<Rightarrow> (bool option \<times> phys_mem \<times> fat32) option" where
  "vfs_test hhdm disk_no lba ty m s =
     (if disk_no \<ge> disk_count s \<or> disks s = None then Some (Some False, m, s)
      else do {
        (r, m, s) \<leftarrow> vfs_mount hhdm disk_no lba ty m s;
        (testfile, s) \<leftarrow> vfs_open disk_no (Some (str_bytes ''/testfile.txt'')) 0xB s;
        if testfile = None then Some (Some False, m, s)
        else do {
          let text_data = str_bytes ''This is a test text data written from vfs test.'' @ [10];
          (r, testfile, s) \<leftarrow> vfs_write disk_no testfile text_data (int (length text_data)) s;
          if r \<noteq> 0 then Some (Some False, m, s)
          else do {
            (r, s) \<leftarrow> vfs_close disk_no testfile s;
            if r \<noteq> 0 then Some (Some False, m, s) else Some (None, m, s) } } })"

section \<open>Reading a file as a whole\<close>

text \<open>
  What a caller relies on: \<open>holds f c s\<close> says that the open file \<open>f\<close> has the contents \<open>c\<close> and is at its start. Asking
  for the size and reading that many bytes then gives the contents. What a successful read returns is left to the
  implementation: the two differ.
\<close>

locale whole_file =
  fixes size_of :: "'f \<Rightarrow> 's \<Rightarrow> int option"
    and read_of :: "'f \<Rightarrow> bytes \<Rightarrow> int \<Rightarrow> 's \<Rightarrow> (int \<times> bytes \<times> 'f) option"
    and holds :: "'f \<Rightarrow> bytes \<Rightarrow> 's \<Rightarrow> bool"
    and code :: "nat \<Rightarrow> int"
  assumes sized: "holds f c s \<Longrightarrow> size_of f s = Some (int (length c))"
    and reads: "holds f c s \<Longrightarrow> length buf = length c \<Longrightarrow> \<exists>f'. read_of f buf (int (length c)) s = Some (code (length c), c, f')"
begin

lemma slurp:
  assumes "holds f c s"
  shows "\<exists>n f'. size_of f s = Some n \<and> read_of f (replicate (nat n) x) n s = Some (code (length c), c, f')"
  using sized [OF assms] reads [OF assms, of "replicate (length c) x"] by simp

lemma contents_unique: "holds f c s \<Longrightarrow> holds f c' s \<Longrightarrow> c = c'"
  using sized [of f c s] sized [of f c' s] reads [of f c s "replicate (length c) 0"] reads [of f c' s "replicate (length c) 0"]
  by auto

end

definition on_sata :: "int \<Rightarrow> fat32 \<Rightarrow> bool" where
  "on_sata n s \<longleftrightarrow> (\<exists>d. get_disk n s = Some d \<and> d_type d = DISK_TYPE_AHCI_SATA)"

lemma by_type_sata [simp]: "on_sata n s \<Longrightarrow> by_type n s i f oth = f"
  by (auto simp: on_sata_def by_type_def)

lemma by_type_iso: "iso_dev n disc s \<Longrightarrow> by_type n s i f oth = i"
  by (auto simp: by_type_def elim!: iso_devE)

text \<open>A file of the mounted FAT32 volume, whose size is an \<open>int\<close>.\<close>

definition fat_holds :: "int \<Rightarrow> vfs_file option \<Rightarrow> bytes \<Rightarrow> fat32 \<Rightarrow> bool" where
  "fat_holds n f c s \<longleftrightarrow> on_sata n s \<and> length c < 2 ^ 31 \<and> (\<exists>p b cs. f = Some (FatFp p) \<and> file_on b s p cs
     \<and> disk_malloc_ok s (csize b) \<and> pos p = 0 \<and> c = FatFile.file_bytes b s p cs)"

definition iso_holds :: "int \<Rightarrow> vfs_file option \<Rightarrow> bytes \<Rightarrow> fat32 \<Rightarrow> bool" where
  "iso_holds n f c s \<longleftrightarrow> 0 < length c \<and> length c < 2 ^ 31 \<and> (\<exists>p disc. f = Some (IsoFp p) \<and> iso_dev n disc s \<and> iso_disk_no p = n
     \<and> unat (iso_sector p) + (unat (iso_size p) + 2047) div 2048 \<le> 2 ^ 32 \<and> c = Iso9660.file_bytes disc p)"

lemma unat_int_size: "n < 2 ^ 31 \<Longrightarrow> unat (of_int (int n) :: u32) = n"
  by (simp add: unat_of_nat)

lemma sint_size: "unat (w :: u32) < 2 ^ 31 \<Longrightarrow> sint w = int (unat w)"
proof -
  assume a: "unat w < 2 ^ 31"
  define m where "m = unat w"
  have "w = of_nat m" "m < 2 ^ 31" using a by (simp_all add: m_def)
  then show ?thesis by (simp add: unat_of_nat signed_of_nat signed_take_bit_int_eq_self)
qed

lemma length_iso_bytes: "(\<And>i. length (disc i) = 2048) \<Longrightarrow> length (Iso9660.file_bytes disc f) = unat (iso_size f)"
proof -
  assume a: "\<And>i. length (disc i) = 2048"
  have "m \<le> (m + 2047) div 2048 * 2048" for m :: nat
    using div_mult_mod_eq [of "m + 2047" 2048] mod_less_divisor [of 2048 "m + 2047"] by linarith
  then show ?thesis using a by (simp add: Iso9660.file_bytes_def length_disc_sectors)
qed

interpretation vfs_fat: whole_file "vfs_get_fsize n" "vfs_read n" "fat_holds n" "\<lambda>_. 0"
proof
  fix f c s assume h: "fat_holds n f c s"
  then obtain p b cs where p: "f = Some (FatFp p)" "file_on b s p cs" "disk_malloc_ok s (csize b)" "pos p = 0"
    "c = FatFile.file_bytes b s p cs" and n: "on_sata n s" "length c < 2 ^ 31" by (auto simp: fat_holds_def)
  have l: "unat (fsize p) = length c" using length_file_bytes [OF p(2)] p(5) by simp
  show "vfs_get_fsize n f s = Some (int (length c))"
    using p(1) n l sint_size [of "fsize p"] by (simp add: vfs_get_fsize_def f_size_def)
  fix buf :: bytes assume b: "length buf = length c"
  have "f_read p buf (of_int (int (length c))) s = Some (True, c, of_nat (length c), p\<lparr>pos := pos p + of_nat (length c)\<rparr>)"
    using f_read_ok [OF p(2), of "length c" "of_int (int (length c))" buf] p(3,4,5) l b unat_int_size [OF n(2)]
    by (simp add: bslice_def)
  then show "\<exists>f'. vfs_read n f buf (int (length c)) s = Some (0, c, f')"
    using p(1) n by (simp add: vfs_read_def vstatus_def)
qed

interpretation vfs_iso: whole_file "vfs_get_fsize n" "vfs_read n" "iso_holds n" int
proof
  fix f c s assume h: "iso_holds n f c s"
  then obtain p disc where p: "f = Some (IsoFp p)" "iso_dev n disc s" "iso_disk_no p = n"
    "unat (iso_sector p) + (unat (iso_size p) + 2047) div 2048 \<le> 2 ^ 32" "c = Iso9660.file_bytes disc p"
    and n: "0 < length c" "length c < 2 ^ 31" by (auto simp: iso_holds_def)
  have "length (disc i) = 2048" for i using p(2) by (auto simp: iso_dev_def reads_disc_def split: option.splits)
  then have l: "unat (iso_size p) = length c" using length_iso_bytes p(5) by simp
  show "vfs_get_fsize n f s = Some (int (length c))"
    using p(1) n l sint_size [of "iso_size p"] by (simp add: vfs_get_fsize_def by_type_iso [OF p(2)] iso9660_get_fsize_def)
  fix buf :: bytes assume b: "length buf = length c"
  have "iso9660_read p buf (int (length c)) s = Some (int (length c), c)"
    using iso9660_read_bytes [OF p(2,3) _ _ _ _ p(4), of "int (length c)" "length c" buf] n l b p(5) by simp
  then show "\<exists>f'. vfs_read n f buf (int (length c)) s = Some (int (length c), c, f')"
    using p(1) by (simp add: vfs_read_def by_type_iso [OF p(2)])
qed

section \<open>Properties of the virtual file system\<close>

lemma on_sata_machine: "same_machine s s' \<Longrightarrow> on_sata n s' = on_sata n s"
  by (simp add: same_machine_def other_disks_def on_sata_def get_disk_def)

lemma vfs_session:
  assumes "dir_wf b s cs" "fat32_cwd_cluster s = hd cs" "hint_ok b s" "\<forall>n. disk_malloc_ok s n"
    and "storable name" "47 \<notin> set name" "lfn_count_of name < nslots b" "fat32_find_file (hd cs) name s = Some None"
    and mode: "VFS_READ \<le> mode" "(of_int mode :: u32) AND 0x0C \<noteq> 0"
    and len: "0 < length data" "length data < 2 ^ 31" "length buff = length data"
    and "Suc (clusters_for (csize b) (length data)) \<le> length (free_list b s)"
    and n: "n < disk_count s" "on_sata n s"
  shows "\<exists>f1 s1 f2 s2 s3 f4 f5. vfs_open n (Some name) mode s = Some (Some f1, s1)
     \<and> vfs_write n (Some f1) data (int (length data)) s1 = Some (0, f2, s2) \<and> vfs_close n f2 s2 = Some (0, s3)
     \<and> vfs_open n (Some name) VFS_READ s3 = Some (Some f4, s3) \<and> vfs_get_fsize n (Some f4) s3 = Some (int (length data))
     \<and> vfs_read n (Some f4) buff (int (length data)) s3 = Some (0, data, f5) \<and> other_disks s s3
     \<and> f2 \<noteq> None \<and> same_machine s s1 \<and> same_machine s s2 \<and> same_machine s s3"
proof -
  define btw :: u32 where "btw = of_int (int (length data))"
  have u: "unat btw = length data" using unat_int_size [OF len(2)] by (simp add: btw_def)
  obtain fp1 s1 fp2 s2 fp3 s3 fp4 fp5 where
    o: "f_open new_file name (of_int mode) s = Some (True, fp1, s1)" and w: "f_write fp1 data btw s1 = Some (True, btw, fp2, s2)"
    and c: "f_close fp2 s2 = Some (True, fp3, s3)" and r: "f_open new_file name (of_int VFS_READ) s3 = Some (True, fp4, s3)"
    and z: "f_size fp4 = btw" and rd: "f_read fp4 buff btw s3 = Some (True, data, btw, fp5)"
    and k: "same_machine s s1" "same_machine s s2" "same_machine s s3"
    using file_session [OF assms(1-8) mode(2) _ u len(3) assms(14), of new_file "of_int VFS_READ"] len(1) u by auto
  note on = on_sata_machine [OF k(1), of n] on_sata_machine [OF k(2), of n] on_sata_machine [OF k(3), of n]
  have tab: "disks s \<noteq> None" using n(2) by (auto simp: on_sata_def get_disk_def split: option.splits)
  have k3: "disk_count s3 = disk_count s" "disks s3 = disks s" "disk_malloc_ok s3 = disk_malloc_ok s" "other_disks s s3"
    using k(3) by (simp_all add: same_machine_def other_disks_def)
  have "vfs_open n (Some name) mode s = Some (Some (FatFp fp1), s1)"
    using n tab mode(1) assms(4) o by (simp add: vfs_open_def)
  moreover have "vfs_write n (Some (FatFp fp1)) data (int (length data)) s1 = Some (0, Some (FatFp fp2), s2)"
    using len(1) on n(2) w by (simp add: vfs_write_def vstatus_def btw_def)
  moreover have "vfs_close n (Some (FatFp fp2)) s2 = Some (0, s3)"
    using on n(2) c by (simp add: vfs_close_def vstatus_def)
  moreover have "vfs_open n (Some name) VFS_READ s3 = Some (Some (FatFp fp4), s3)"
    using n tab assms(4) k3 on r by (simp add: vfs_open_def)
  moreover have "vfs_get_fsize n (Some (FatFp fp4)) s3 = Some (int (length data))"
    using on n(2) z u sint_size [of btw] len(2) by (simp add: vfs_get_fsize_def)
  moreover have "vfs_read n (Some (FatFp fp4)) buff (int (length data)) s3 = Some (0, data, Some (FatFp fp5))"
    using on n(2) rd by (simp add: vfs_read_def vstatus_def btw_def)
  ultimately show ?thesis using k3(4) k by blast
qed

text \<open>
  C5. A file survives its handle. On a SATA disk with a sound current directory that lacks the name, \<open>vfs_open\<close>
  with a creating mode, \<open>vfs_write\<close> and \<open>vfs_close\<close> succeed; \<open>vfs_open\<close> for reading then yields a handle whose
  \<open>vfs_get_fsize\<close> is the number of bytes written, and \<open>vfs_read\<close> delivers exactly these bytes. The drives that
  the volume is not on are unchanged.
\<close>

theorem vfs_file_survives_close:
  assumes "dir_wf b s cs" "fat32_cwd_cluster s = hd cs" "hint_ok b s" "\<forall>n. disk_malloc_ok s n"
    and "storable name" "47 \<notin> set name" "lfn_count_of name < nslots b" "fat32_find_file (hd cs) name s = Some None"
    and mode: "VFS_READ \<le> mode" "(of_int mode :: u32) AND 0x0C \<noteq> 0"
    and len: "0 < length data" "length data < 2 ^ 31" "length buff = length data"
    and "Suc (clusters_for (csize b) (length data)) \<le> length (free_list b s)"
    and n: "n < disk_count s" "on_sata n s"
  shows "\<exists>f1 s1 f2 s2 s3 f4 f5. vfs_open n (Some name) mode s = Some (Some f1, s1)
     \<and> vfs_write n (Some f1) data (int (length data)) s1 = Some (0, f2, s2) \<and> vfs_close n f2 s2 = Some (0, s3)
     \<and> vfs_open n (Some name) VFS_READ s3 = Some (Some f4, s3) \<and> vfs_get_fsize n (Some f4) s3 = Some (int (length data))
     \<and> vfs_read n (Some f4) buff (int (length data)) s3 = Some (0, data, f5) \<and> other_disks s s3"
  using vfs_session [OF assms] by blast

text \<open>
  C21. One way to read a file on both file systems: for an open file with the contents \<open>c\<close>, on a FAT32 volume or on an
  ISO9660 disc, \<open>vfs_get_fsize\<close> tells how long it is and \<open>vfs_read\<close> of that length fills the buffer with \<open>c\<close>. The
  results of a successful read do not agree: 0 on SATA disks, the number of bytes on optical ones.
\<close>

theorem vfs_read_whole_file:
  assumes "fat_holds n f c s" "iso_holds m g c' s'"
  shows "(\<exists>k f'. vfs_get_fsize n f s = Some k \<and> vfs_read n f (replicate (nat k) 0) k s = Some (0, c, f'))
     \<and> (\<exists>k g'. vfs_get_fsize m g s' = Some k \<and> vfs_read m g (replicate (nat k) 0) k s' = Some (int (length c'), c', g'))"
  using vfs_fat.slurp [OF assms(1)] vfs_iso.slurp [OF assms(2)] by blast

text \<open>
  C35. The disk number is ignored on SATA disks. With the volume of one disk mounted, removing a name on another SATA disk
  \<open>n\<close> reports success and deletes the file of that name from the mounted volume: its clusters are freed and
  its directory slot is marked deleted, while the sectors of disk \<open>n\<close> stay as they are.
\<close>

theorem vfs_unlink_wrong_disk:
  assumes D: "dir_wf b s cs" and c: "fat32_cwd_cluster s = hd cs" and M: "\<forall>n. disk_malloc_ok s n"
    and N: "length name < 256" "47 \<notin> set name"
    and R: "fat32_find_file (hd cs) name s = Some (Some (e, d, off))" and j: "unat off = 32 * j" "j < nslots b"
    and C: "if fs = [] then entry_cluster e = 0 else chain b s fs \<and> entry_cluster e = hd fs" "set fs \<inter> set cs = {}"
    and n: "on_sata n s" "sata_dev n s = Some p" "sata_dev (cur_disk_no s) s \<noteq> Some p"
  shows "\<exists>s'. vfs_unlink n (Some name) s = Some (0, s') \<and> (\<forall>x\<in>set fs. fat_entry b s' x = 0)
     \<and> rd8 (slot (cluster_data b s' d) j) 0 = 0xE5 \<and> dev_sector n s' = dev_sector n s"
proof -
  have P: "resolve_parent name s = Some (Some (hd cs, name))" using resolve_plain [OF N(2)] c by simp
  obtain s' where s': "f_unlink name s = Some (True, s')" "frame b (set fs) {d} s s'" "\<forall>x\<in>set fs. fat_entry b s' x = 0"
    "cluster_data b s' d = overwrite (cluster_data b s d) (32 * j + 0) [0xE5]"
    using unlink_ok [OF D M N(1) P R j C] by auto
  have L: "32 * nslots b \<le> length (cluster_data b s d)" using D by (simp add: dir_wf_def)
  have "rd8 (slot (cluster_data b s' d) j) 0 = 0xE5"
    using slot_overwrite(3) [OF L j(2), of 0 "[0xE5]" j] j(2) s'(4) by (simp add: rd8_def overwrite_def)
  moreover have "vfs_unlink n (Some name) s = Some (0, s')" using n(1) s'(1) by (simp add: vfs_unlink_def vstatus_def)
  moreover have "dev_sector n s' = dev_sector n s"
  proof -
    have o: "other_disks s s'" using s'(2) by (simp add: frame_def)
    then have "sata_dev n s' = sata_dev n s" by (auto simp: other_disks_def sata_dev_def get_disk_def split: option.splits)
    then show ?thesis using o n(2,3) by (simp add: dev_sector_def dev_drive_def other_disks_def)
  qed
  ultimately show ?thesis using s'(3) by blast
qed

text \<open>
  Detection of EXT2 looks at the stack instead of the disk. \<open>detect_filesystem\<close> reads the superblock to the start of its
  buffer but looks for the magic number 1080 bytes into it, past the two sectors read: for a disk whose first sector
  carries no other file system and no partition, the answer is EXT2 exactly when those two bytes of the
  stack happen to hold the magic number, whatever the disk contains.
\<close>

lemma detect_ext2_reads_stack:
  assumes "dev_ok n s" "17 \<le> dev_cap n s" "length extbuf = 1536"
    and "rd8 (dev_sector n s 0) 0x1C2 = 0" "fat_name (dev_sector n s 0) = None"
    and "bslice 3 8 (dev_sector n s 0) \<noteq> str_bytes ''EXFAT   ''" "bslice 3 8 (dev_sector n s 0) \<noteq> str_bytes ''NTFS    ''"
  shows "(detect_filesystem n extbuf s = Some VFS_EXT2) = (rd16 extbuf 1080 = 0xEF53)"
proof -
  have len: "length (dev_sector n s i) = 512" for i using assms(1) by (simp add: dev_sector_def dev_ok_def drive_ok_def)
  have one: "kebla_disk_read n lba 1 (replicate 512 0) s = Some (True, dev_sector n s (unat lba))" if "unat lba \<le> 16" for lba
    using kebla_disk_read_ok [OF assms(1), of 1 lba "replicate 512 0"] that assms(2) len
    by (simp add: dev_sectors_def overwrite_def)
  have two: "kebla_disk_read n 2 2 extbuf s = Some (True, overwrite extbuf 0 (dev_sectors n s 2 2))"
    using kebla_disk_read_ok [OF assms(1), of 2 2 extbuf] assms(2,3) by simp
  have "length (dev_sectors n s 2 2) = 1024" using len by (simp add: dev_sectors_def eval_nat_numeral)
  then have "rd16 (overwrite extbuf 0 (dev_sectors n s 2 2)) 1080 = rd16 extbuf 1080"
    using assms(3) by (simp add: rd16_def bslice_def overwrite_def)
  then show ?thesis
    using one [of 0] one [of 16] two assms(4-7) by (simp add: detect_filesystem_def)
qed

text \<open>On an optical drive the first read already overruns the buffer of one 512-byte sector.\<close>

lemma detect_overruns_optical:
  assumes "iso_dev n disc s"
  shows "detect_filesystem n extbuf s = None"
proof -
  obtain d port where d: "n < disk_count s" "get_disk n s = Some d" "d_type d = DISK_TYPE_SATAPI"
    "d_context d = Some port" "reads_disc (optical s port) disc" "disks s \<noteq> None"
    using assms by (rule iso_devE) blast
  have "region_len (1 * 2048) = 2048" using region_len_sectors [of 1] by simp
  then have "satapi_read (optical s port) 0 1 (replicate 512 0) = None"
    using d(5) rw12_fields [of "0xA8" 0 1] by (simp add: satapi_read_def atapi_in_def reads_disc_def)
  then have "kebla_disk_read n 0 1 (replicate 512 0) s = None" using d by (simp add: kebla_disk_read_def)
  then show ?thesis by (simp add: detect_filesystem_def)
qed

text \<open>A directory opened on a SATA disk cannot be read or closed: the handle points to a local that is gone.\<close>

lemma vfs_opendir_handle_dead:
  assumes "vfs_opendir n dir0 path s = Some (Some dp)" "on_sata n s"
  shows "vfs_readdir n (Some dp) (Some fno) s = None" "vfs_closedir n (Some dp) s = None"
  using assms by (simp_all add: vfs_readdir_def vfs_closedir_def)

section \<open>Sample machines\<close>

lemma sample_dir_machine: "disks sample_dir = disks sample_fs" "disk_count sample_dir = disk_count sample_fs"
  using sample_dir_frame by (simp_all add: frame_def other_disks_def)

lemma sample_fs_sata: "on_sata 0 sample_fs" "disk_count sample_fs = 1"
  by (simp_all add: on_sata_def sample_fs_disk sample_disk_def) (simp add: sample_fs_def)

theorem vfs_file_survives_close_witness:
  "\<exists>f1 s1 f2 s2 s3 f4 f5. vfs_open 0 (Some (str_bytes ''notes'')) 6 sample_dir = Some (Some f1, s1)
     \<and> vfs_write 0 (Some f1) (replicate 600 9) 600 s1 = Some (0, f2, s2) \<and> vfs_close 0 f2 s2 = Some (0, s3)
     \<and> vfs_open 0 (Some (str_bytes ''notes'')) VFS_READ s3 = Some (Some f4, s3) \<and> vfs_get_fsize 0 (Some f4) s3 = Some 600
     \<and> vfs_read 0 (Some f4) (replicate 600 0) 600 s3 = Some (0, replicate 600 9, f5)"
proof -
  have N: "storable (str_bytes ''notes'')" "47 \<notin> set (str_bytes ''notes'')" "lfn_count_of (str_bytes ''notes'') < nslots sample_bpb"
    unfolding sample_geometry by code_simp+
  have e: "fat32_find_file (hd [2]) (str_bytes ''notes'') sample_dir = Some None" by (simp add: sample_dir_empty)
  have c: "fat32_cwd_cluster sample_dir = hd [2]" by (simp add: sample_dir_facts)
  have M: "\<forall>n. disk_malloc_ok sample_dir n" by (simp add: sample_dir_facts)
  have k: "Suc (clusters_for (csize sample_bpb) (length (replicate 600 (9::u8)))) \<le> length (free_list sample_bpb sample_dir)"
    using sample_dir_room by (simp add: clusters_for_def)
  have n: "on_sata 0 sample_dir" "(0::int) < disk_count sample_dir"
    using sample_fs_sata by (simp_all add: on_sata_def get_disk_def sample_dir_machine)
  have m: "VFS_READ \<le> 6" "(of_int 6 :: u32) AND 0x0C \<noteq> 0" by (simp_all add: VFS_READ_def)
  from vfs_file_survives_close [OF sample_dir_wf c sample_dir_facts(2) M N e m, of "replicate 600 9" "replicate 600 0" 0] k n
  show ?thesis by auto
qed

text \<open>The disc of the ISO9660 theory in a machine of this one.\<close>

definition disc_machine :: fat32 where
  "disc_machine = sample_fs\<lparr>disks := Some [(sample_disk True)\<lparr>d_type := DISK_TYPE_SATAPI, d_bytes_per_sector := 2048\<rparr>],
     optical := (\<lambda>_. sample_optical)\<rparr>"

lemma disc_machine_dev: "iso_dev 0 sample_disc disc_machine"
  using sample_iso_dev by (simp add: iso_dev_def get_disk_def disc_machine_def sample_iso_def sample_sys_def sample_disk_def sample_fs_def)

theorem vfs_read_whole_file_witness:
  "\<exists>f' g'. vfs_read 0 (Some (FatFp (FatWrite.sample_file\<lparr>pos := 0\<rparr>))) (replicate 600 0) 600 sample_fs
       = Some (0, replicate 512 6 @ replicate 88 7, f')
     \<and> vfs_read 0 (Some (IsoFp Iso9660.sample_file)) (replicate 5 0) 5 disc_machine = Some (5, replicate 5 19, g')"
proof -
  define p where "p = FatWrite.sample_file\<lparr>pos := 0\<rparr>"
  have p: "file_on sample_bpb sample_fs p [3, 4]" "fsize p = 600"
    using sample_file_on by (simp_all add: p_def file_on_def FatWrite.sample_file_def)
  have c: "FatFile.file_bytes sample_bpb sample_fs p [3, 4] = replicate 512 6 @ replicate 88 7"
    by (simp add: FatFile.file_bytes_def p(2) sample_chain_data)
  have f: "fat_holds 0 (Some (FatFp p)) (replicate 512 6 @ replicate 88 7) sample_fs"
    using p c sample_fs_sata by (auto simp: fat_holds_def p_def intro!: exI [of _ sample_bpb] exI [of _ "[3, 4]"])
  have i: "Iso9660.file_bytes sample_disc Iso9660.sample_file = replicate 5 19"
    by (simp add: Iso9660.file_bytes_def Iso9660.sample_file_def disc_sectors_def sample_disc_def)
  have g: "iso_holds 0 (Some (IsoFp Iso9660.sample_file)) (replicate 5 19) disc_machine"
    using disc_machine_dev i by (auto simp: iso_holds_def Iso9660.sample_file_def intro!: exI [of _ sample_disc])
  have "vfs_get_fsize 0 (Some (FatFp p)) sample_fs = Some 600"
    using sample_fs_sata p(2) by (simp add: vfs_get_fsize_def f_size_def)
  moreover have "vfs_get_fsize 0 (Some (IsoFp Iso9660.sample_file)) disc_machine = Some 5"
    by (simp add: vfs_get_fsize_def by_type_iso [OF disc_machine_dev] iso9660_get_fsize_def Iso9660.sample_file_def)
  ultimately show ?thesis using vfs_read_whole_file [OF f g] by (simp add: p_def)
qed

text \<open>A second SATA disk beside the one that holds the volume.\<close>

definition two_disks :: fat32 where
  "two_disks = sample_home\<lparr>disks := Some [sample_disk True, (sample_disk True)\<lparr>d_context := Some 1\<rparr>], disk_count := 2\<rparr>"

lemma sample_home_table: "disks sample_home = Some [sample_disk True]" "disk_count sample_home = 1"
  using sample_home_frame by (simp_all add: frame_def other_disks_def sample_fs_def)

lemma two_disks_dev:
  "get_disk 0 two_disks = get_disk 0 sample_home" "sata_dev 0 two_disks = sata_dev 0 sample_home" "sata_dev 0 two_disks = Some 0"
  "sata_dev 1 two_disks = Some 1" "on_sata 1 two_disks" "cur_disk_no two_disks = 0" "cur_disk_no sample_home = 0"
  using sample_home_frame
  by (simp_all add: two_disks_def get_disk_def sata_dev_def sample_home_table sample_disk_def on_sata_def frame_def)

lemma two_disks_volume:
  "vol_ok sample_bpb two_disks" "fat_entry sample_bpb two_disks = fat_entry sample_bpb sample_home"
  "cluster_data sample_bpb two_disks = cluster_data sample_bpb sample_home"
proof -
  have "dev_drive 0 two_disks = dev_drive 0 sample_home" by (simp add: dev_drive_def two_disks_dev(2)) (simp add: two_disks_def)
  then have d: "dev_ok 0 two_disks = dev_ok 0 sample_home" "dev_cap 0 two_disks = dev_cap 0 sample_home"
    "dev_sector 0 two_disks = dev_sector 0 sample_home"
    by (simp_all add: dev_ok_def dev_cap_def dev_sector_def two_disks_dev)
  have "bpb two_disks = bpb sample_home" by (simp add: two_disks_def)
  then show "vol_ok sample_bpb two_disks" using sample_home_facts(1) d by (simp add: vol_ok_def two_disks_dev)
  show "fat_entry sample_bpb two_disks = fat_entry sample_bpb sample_home"
    by (rule ext) (simp add: fat_entry_def d two_disks_dev)
  show "cluster_data sample_bpb two_disks = cluster_data sample_bpb sample_home"
    by (rule ext) (simp add: cluster_data_def dev_sectors_def d two_disks_dev)
qed

theorem vfs_unlink_wrong_disk_witness:
  "\<exists>s'. vfs_unlink 1 (Some (str_bytes ''FILE.TXT'')) two_disks = Some (0, s') \<and> fat_entry sample_bpb s' 3 = 0
     \<and> rd8 (slot (cluster_data sample_bpb s' 2) 0) 0 = 0xE5 \<and> dev_sector 1 s' = dev_sector 1 two_disks"
proof -
  note ch = chain_cong [of _ sample_bpb two_disks sample_home]
  have C2: "chain sample_bpb two_disks [2]" using ch [of "[2]"] sample_home_wf by (simp add: dir_wf_def two_disks_volume(2))
  have C3: "chain sample_bpb two_disks [3, 4]" using ch [of "[3, 4]"] sample_home_facts(5) by (simp add: two_disks_volume(2))
  have D: "dir_wf sample_bpb two_disks [2]" using sample_home_wf C2 by (simp add: dir_wf_def two_disks_volume)
  have M: "\<forall>n. disk_malloc_ok two_disks n" by (simp add: two_disks_def sample_home_facts)
  have c: "fat32_cwd_cluster two_disks = hd [2]" by (simp add: two_disks_def sample_home_facts)
  have N: "length (str_bytes ''FILE.TXT'') < 256" "47 \<notin> set (str_bytes ''FILE.TXT'')" by code_simp+
  have R: "fat32_find_file (hd [2]) (str_bytes ''FILE.TXT'') two_disks = Some (Some (sample_entry_of_file, 2, 0))"
    using sample_entry_found [OF two_disks_volume(1) C2] M by (simp add: two_disks_volume sample_home_data)
  have C: "if [3, 4] = ([] :: u32 list) then entry_cluster sample_entry_of_file = 0
      else chain sample_bpb two_disks [3, 4] \<and> entry_cluster sample_entry_of_file = hd [3, 4]"
    using C3 by (simp add: sample_entry_of_file_def)
  have ne: "sata_dev (cur_disk_no two_disks) two_disks \<noteq> Some 1" by (simp add: two_disks_dev(3,6))
  from vfs_unlink_wrong_disk [OF D c M N R _ _ C _ two_disks_dev(5,4) ne, of 0] show ?thesis by auto
qed

lemma detect_ext2_reads_stack_sample:
  "detect_filesystem 0 (replicate 1080 0 @ [0x53, 0xEF] @ replicate 454 0) sample_fs = Some VFS_EXT2
     \<and> detect_filesystem 0 (replicate 1536 0) sample_fs \<noteq> Some VFS_EXT2"
proof -
  have s0: "dev_sector 0 sample_fs 0 = replicate 512 0" by (simp add: sample_sec)
  have d: "dev_ok 0 sample_fs" "17 \<le> dev_cap 0 sample_fs" using vol_okD [OF sample_vol_ok] by (simp_all add: dev_cap_def sample_fs_total)
  have z: "rd8 (dev_sector 0 sample_fs 0) 0x1C2 = 0" "fat_name (dev_sector 0 sample_fs 0) = None"
    "bslice 3 8 (dev_sector 0 sample_fs 0) \<noteq> str_bytes ''EXFAT   ''" "bslice 3 8 (dev_sector 0 sample_fs 0) \<noteq> str_bytes ''NTFS    ''"
    unfolding s0 by code_simp+
  have "rd16 (replicate 1080 0 @ [0x53, 0xEF] @ replicate 454 0) 1080 = 0xEF53" "rd16 (replicate 1536 0) 1080 \<noteq> 0xEF53"
    by code_simp+
  then show ?thesis
    using detect_ext2_reads_stack [OF d _ z, of "replicate 1080 0 @ [0x53, 0xEF] @ replicate 454 0"]
      detect_ext2_reads_stack [OF d _ z, of "replicate 1536 0"] by simp
qed

end
