(* ===== verification/Vsfs.thy ===== *)
theory Vsfs
  imports Disk
begin

text \<open>
  The small file system of kernel/src/fs/vsfs/vsfs.c: block addresses, the two bitmaps with their allocators, and
  \<open>vsfs_mkfs\<close>. State: the disks extended with the two globals of the file.

  \<open>None\<close> is an access outside an object. Allocated memory is cleared; whether \<open>malloc\<close> succeeds is the field
  \<open>disk_malloc_ok\<close>.
\<close>

section \<open>State\<close>

record superblock_t =
  sb_magic :: u32
  sb_name :: bytes
  sb_start_lba :: u32
  sb_byte_per_block :: u32
  sb_total_blocks :: u32
  sb_reserved_blocks :: u32
  sb_total_inodes :: u32
  sb_num_super_block :: u32
  sb_num_inode_bitmap :: u32
  sb_num_inode_table :: u32
  sb_num_data_bitmap :: u32
  sb_inode_bitmap_block :: u32
  sb_data_bitmap_block :: u32
  sb_inode_table_block :: u32
  sb_data_region_block :: u32

text \<open>The superblock as it lies in memory: 64 bytes.\<close>

definition superblock_bytes :: "superblock_t \<Rightarrow> bytes" where
  "superblock_bytes b = concat [le32 (sb_magic b), sb_name b, le32 (sb_start_lba b), le32 (sb_byte_per_block b),
     le32 (sb_total_blocks b), le32 (sb_reserved_blocks b), le32 (sb_total_inodes b), le32 (sb_num_super_block b),
     le32 (sb_num_inode_bitmap b), le32 (sb_num_inode_table b), le32 (sb_num_data_bitmap b), le32 (sb_inode_bitmap_block b),
     le32 (sb_data_bitmap_block b), le32 (sb_inode_table_block b), le32 (sb_data_region_block b)]"

record vsfs = disk_sys +
  lba_offset :: u32
  vsfs_sb :: "superblock_t option"

definition MAX_FILES :: u32 where "MAX_FILES = 256"
definition VSFS_SECTOR_SIZE :: u32 where "VSFS_SECTOR_SIZE = 512"
definition BLOCK_SIZE :: u32 where "BLOCK_SIZE = 4096"
definition FS_MAGIC :: u32 where "FS_MAGIC = 0x20240218"

text \<open>\<open>sizeof(inode_t)\<close>: the packed structure has 116 bytes (the comment in the header says 104).\<close>

definition sizeof_inode :: u64 where "sizeof_inode = 116"

section \<open>Blocks\<close>

definition block_to_lba :: "u32 \<Rightarrow> u32" where
  "block_to_lba block_no = block_no * BLOCK_SIZE div VSFS_SECTOR_SIZE"

definition lba_to_block :: "u32 \<Rightarrow> u32" where
  "lba_to_block lba = lba * VSFS_SECTOR_SIZE div BLOCK_SIZE"

definition read_block :: "int \<Rightarrow> u32 \<Rightarrow> u32 \<Rightarrow> bytes \<Rightarrow> vsfs \<Rightarrow> (bool \<times> bytes) option" where
  "read_block disk_no block_no count buf s =
     kebla_disk_read disk_no (ucast (lba_offset s + block_to_lba block_no)) (count * BLOCK_SIZE div VSFS_SECTOR_SIZE) buf s"

definition write_block :: "int \<Rightarrow> u32 \<Rightarrow> u32 \<Rightarrow> bytes \<Rightarrow> vsfs \<Rightarrow> (bool \<times> vsfs) option" where
  "write_block disk_no block_no count buf s =
     kebla_disk_write disk_no (ucast (lba_offset s + block_to_lba block_no)) (count * BLOCK_SIZE div VSFS_SECTOR_SIZE) buf s"

section \<open>Bitmaps\<close>

definition bitmap_test :: "bytes \<Rightarrow> nat \<Rightarrow> bool option" where
  "bitmap_test bm i = (if i div 8 < length bm then Some (bit (bm ! (i div 8)) (i mod 8)) else None)"

definition bitmap_set :: "bytes \<Rightarrow> nat \<Rightarrow> bytes option" where
  "bitmap_set bm i = (if i div 8 < length bm then Some (bm[i div 8 := bm ! (i div 8) OR push_bit (i mod 8) 1]) else None)"

definition bitmap_clear :: "bytes \<Rightarrow> nat \<Rightarrow> bytes option" where
  "bitmap_clear bm i = (if i div 8 < length bm then Some (bm[i div 8 := bm ! (i div 8) AND NOT (push_bit (i mod 8) 1)]) else None)"

fun bit_alloc_loop :: "nat list \<Rightarrow> bytes \<Rightarrow> (int \<times> bytes) option" where
  "bit_alloc_loop [] bm = Some (-1, bm)"
| "bit_alloc_loop (i # is) bm =
     (case bitmap_test bm i of
        None \<Rightarrow> None
      | Some True \<Rightarrow> bit_alloc_loop is bm
      | Some False \<Rightarrow> map_option (\<lambda>bm'. (int i, bm')) (bitmap_set bm i))"

definition vsfs_alloc_inode :: "bytes \<Rightarrow> (int \<times> bytes) option" where
  "vsfs_alloc_inode inode_bitmap = bit_alloc_loop [0..<unat MAX_FILES] inode_bitmap"

definition vsfs_alloc_block :: "bytes \<Rightarrow> int \<Rightarrow> (int \<times> bytes) option" where
  "vsfs_alloc_block data_bitmap max_blocks = bit_alloc_loop [0..<nat max_blocks] data_bitmap"

section \<open>Formatting\<close>

text \<open>The superblock that \<open>vsfs_mkfs\<close> fills in; the arithmetic is 32 bits wide but for the size of the inode table.\<close>

definition new_superblock :: "u64 \<Rightarrow> u32 \<Rightarrow> superblock_t" where
  "new_superblock start_lba total_sectors =
     (let total_blocks = total_sectors * VSFS_SECTOR_SIZE div BLOCK_SIZE;
          superblock_blocks = 1;
          inode_bitmap_bytes = (MAX_FILES + 7) div 8;
          inode_bitmap_blocks = (inode_bitmap_bytes + BLOCK_SIZE) div BLOCK_SIZE;
          data_bitmap_bytes = (total_blocks - superblock_blocks - inode_bitmap_blocks + 7) div 8;
          data_bitmap_blocks = (data_bitmap_bytes + BLOCK_SIZE) div BLOCK_SIZE;
          inode_table_blocks = ucast ((ucast MAX_FILES * sizeof_inode + ucast BLOCK_SIZE) div ucast BLOCK_SIZE) :: u32
      in \<lparr>sb_magic = FS_MAGIC, sb_name = [86, 83, 70, 83, 32, 32, 32, 0], sb_start_lba = ucast start_lba,
          sb_byte_per_block = BLOCK_SIZE, sb_total_blocks = total_blocks,
          sb_reserved_blocks = superblock_blocks + inode_bitmap_blocks + data_bitmap_blocks + inode_table_blocks,
          sb_total_inodes = MAX_FILES, sb_num_super_block = 1, sb_num_inode_bitmap = inode_bitmap_blocks,
          sb_num_inode_table = inode_table_blocks, sb_num_data_bitmap = data_bitmap_blocks,
          sb_inode_bitmap_block = 1, sb_data_bitmap_block = 1 + inode_bitmap_blocks,
          sb_inode_table_block = 1 + inode_bitmap_blocks + data_bitmap_blocks,
          sb_data_region_block = 1 + inode_bitmap_blocks + data_bitmap_blocks + inode_table_blocks\<rparr>)"

definition clear_blocks :: "int \<Rightarrow> u32 \<Rightarrow> u32 \<Rightarrow> vsfs \<Rightarrow> (bool \<times> vsfs) option" where
  "clear_blocks disk_no block_no n s = write_block disk_no block_no n (replicate (unat (BLOCK_SIZE * n)) 0) s"

text \<open>The test whether the sectors suffice only prints a message.\<close>

definition vsfs_mkfs :: "int \<Rightarrow> u64 \<Rightarrow> u32 \<Rightarrow> vsfs \<Rightarrow> (bool \<times> vsfs) option" where
  "vsfs_mkfs disk_no start_lba total_sectors s =
     (let s = s\<lparr>lba_offset := ucast start_lba\<rparr>;
          b = new_superblock start_lba total_sectors
      in if \<not> disk_malloc_ok s 64 then Some (False, s\<lparr>vsfs_sb := None\<rparr>)
         else do {
           (ok, s) \<leftarrow> write_block disk_no 0 1 (superblock_bytes b) (s\<lparr>vsfs_sb := Some b\<rparr>);
           if \<not> ok then Some (False, s)
           else do {
             (ok, s) \<leftarrow> clear_blocks disk_no (sb_inode_bitmap_block b) (sb_num_inode_bitmap b) s;
             if \<not> ok then Some (False, s)
             else do {
               (ok, s) \<leftarrow> clear_blocks disk_no (sb_data_bitmap_block b) (sb_num_data_bitmap b) s;
               if \<not> ok then Some (False, s)
               else clear_blocks disk_no (sb_inode_table_block b) (sb_num_inode_table b) s } } })"

section \<open>Facts about the bitmaps\<close>

text \<open>The bits in use, as a set.\<close>

definition used_bits :: "bytes \<Rightarrow> nat set" where
  "used_bits bm = {i. i div 8 < length bm \<and> bit (bm ! (i div 8)) (i mod 8)}"

lemma bit_push_one: "j < 8 \<Longrightarrow> bit (2 ^ i :: u8) j \<longleftrightarrow> i = j"
  by (auto simp: bit_exp_iff)

lemma used_bits_set: "bitmap_set bm i = Some bm' \<Longrightarrow> length bm' = length bm \<and> used_bits bm' = insert i (used_bits bm)"
proof -
  assume "bitmap_set bm i = Some bm'"
  then have i: "i div 8 < length bm" "bm' = bm[i div 8 := bm ! (i div 8) OR push_bit (i mod 8) 1]"
    by (auto simp: bitmap_set_def split: if_splits)
  have "j \<in> used_bits bm' \<longleftrightarrow> j = i \<or> j \<in> used_bits bm" for j
  proof (cases "j div 8 = i div 8")
    case True
    then have "j = i \<longleftrightarrow> j mod 8 = i mod 8" by (metis div_mult_mod_eq)
    then show ?thesis using i True by (auto simp: used_bits_def bit_or_iff bit_push_one)
  next
    case False
    then show ?thesis using i by (auto simp: used_bits_def)
  qed
  then show ?thesis using i(2) by auto
qed

lemma used_bits_clear: "bitmap_clear bm i = Some bm' \<Longrightarrow> length bm' = length bm \<and> used_bits bm' = used_bits bm - {i}"
proof -
  assume "bitmap_clear bm i = Some bm'"
  then have i: "i div 8 < length bm" "bm' = bm[i div 8 := bm ! (i div 8) AND NOT (push_bit (i mod 8) 1)]"
    by (auto simp: bitmap_clear_def split: if_splits)
  have "j \<in> used_bits bm' \<longleftrightarrow> j \<noteq> i \<and> j \<in> used_bits bm" for j
  proof (cases "j div 8 = i div 8")
    case True
    then have "j = i \<longleftrightarrow> j mod 8 = i mod 8" by (metis div_mult_mod_eq)
    then show ?thesis using i True by (auto simp: used_bits_def bit_and_iff bit_not_iff bit_push_one)
  next
    case False
    then show ?thesis using i by (auto simp: used_bits_def)
  qed
  then show ?thesis using i(2) by auto
qed

lemma bit_alloc_loop_lowest:
  assumes "m \<le> 8 * length bm" "k \<le> m" "\<forall>j<k. j \<in> used_bits bm"
  shows "bit_alloc_loop [k..<m] bm = (case List.find (\<lambda>i. i \<notin> used_bits bm) [k..<m] of
      None \<Rightarrow> Some (-1, bm) | Some i \<Rightarrow> map_option (\<lambda>bm'. (int i, bm')) (bitmap_set bm i))"
  using assms
proof (induction "m - k" arbitrary: k)
  case (Suc d)
  then have k: "k < m" "[k..<m] = k # [Suc k..<m]" by (simp_all add: upt_conv_Cons)
  have r: "k div 8 < length bm" using k(1) Suc.prems(1) by (auto simp: div_less_iff_less_mult)
  then have t: "bitmap_test bm k = Some (k \<in> used_bits bm)" by (simp add: bitmap_test_def used_bits_def)
  show ?case
  proof (cases "k \<in> used_bits bm")
    case True
    then show ?thesis using Suc.hyps(1) [of "Suc k"] Suc.hyps(2) Suc.prems k t by (simp add: less_Suc_eq)
  next
    case False
    then show ?thesis using k(2) t by simp
  qed
qed simp

lemma alloc_lowest:
  assumes "m \<le> 8 * length bm"
  shows "if {..<m} \<subseteq> used_bits bm then bit_alloc_loop [0..<m] bm = Some (-1, bm)
    else \<exists>i bm'. bit_alloc_loop [0..<m] bm = Some (int i, bm') \<and> i < m \<and> i \<notin> used_bits bm \<and> {..<i} \<subseteq> used_bits bm
      \<and> used_bits bm' = insert i (used_bits bm) \<and> length bm' = length bm"
proof -
  note run = bit_alloc_loop_lowest [OF assms, of 0, simplified]
  show ?thesis
  proof (cases "List.find (\<lambda>i. i \<notin> used_bits bm) [0..<m]")
    case None
    then have "{..<m} \<subseteq> used_bits bm" by (auto simp: find_None_iff)
    then show ?thesis using run None by simp
  next
    case (Some i)
    then obtain n where n: "n < m" "i = n" "i \<notin> used_bits bm" "\<forall>j<n. j \<in> used_bits bm"
      by (auto simp: find_Some_iff)
    then have "i div 8 < length bm" using assms by (auto simp: div_less_iff_less_mult)
    then obtain bm' where b: "bitmap_set bm i = Some bm'" by (simp add: bitmap_set_def)
    have "\<not> {..<m} \<subseteq> used_bits bm" using n by auto
    then show ?thesis using run Some b n used_bits_set [OF b] by auto
  qed
qed

text \<open>
  C22. The allocators of the two bitmaps hand out the lowest free number: \<open>vsfs_alloc_block\<close> on a bitmap with room for
  \<open>max_blocks\<close> bits returns the least number whose bit is clear and sets exactly this bit, or, when all are set,
  returns -1 and leaves the bitmap alone; \<open>vsfs_alloc_inode\<close> does the same for 256 inodes.
\<close>

theorem vsfs_alloc_lowest_free:
  assumes "m \<le> 8 * length bm" "256 \<le> 8 * length im"
  shows "(if {..<m} \<subseteq> used_bits bm then vsfs_alloc_block bm (int m) = Some (-1, bm)
      else \<exists>i bm'. vsfs_alloc_block bm (int m) = Some (int i, bm') \<and> i < m \<and> i \<notin> used_bits bm \<and> {..<i} \<subseteq> used_bits bm
        \<and> used_bits bm' = insert i (used_bits bm) \<and> length bm' = length bm)
    \<and> (if {..<256} \<subseteq> used_bits im then vsfs_alloc_inode im = Some (-1, im)
      else \<exists>i im'. vsfs_alloc_inode im = Some (int i, im') \<and> i < 256 \<and> i \<notin> used_bits im \<and> {..<i} \<subseteq> used_bits im
        \<and> used_bits im' = insert i (used_bits im) \<and> length im' = length im)"
  using alloc_lowest [OF assms(1)] alloc_lowest [OF assms(2)]
  by (simp add: vsfs_alloc_block_def vsfs_alloc_inode_def MAX_FILES_def)

theorem vsfs_alloc_lowest_free_witness:
  "(\<exists>bm'. vsfs_alloc_block [0xFF, 0x05] 16 = Some (9, bm') \<and> used_bits bm' = insert 9 (used_bits [0xFF, 0x05]))
     \<and> vsfs_alloc_inode (replicate 32 0xFF) = Some (-1, replicate 32 0xFF)"
proof -
  have b: "used_bits [0xFF, 0x05] = {0, 1, 2, 3, 4, 5, 6, 7, 8, 10}"
  proof -
    have "i \<in> used_bits [0xFF, 0x05] \<longleftrightarrow> i \<in> {0, 1, 2, 3, 4, 5, 6, 7, 8, 10}" if "i < 16" for i
    proof -
      have "\<forall>i\<in>set [0..<16]. i \<in> used_bits [0xFF, 0x05] \<longleftrightarrow> i \<in> {0, 1, 2, 3, 4, 5, 6, 7, 8, 10}"
        unfolding used_bits_def mem_Collect_eq by code_simp
      then show ?thesis using that by simp
    qed
    moreover have "i < 16" if "i \<in> used_bits [0xFF, 0x05]" for i using that by (auto simp: used_bits_def div_less_iff_less_mult)
    ultimately show ?thesis by force
  qed
  have f: "{..<256} \<subseteq> used_bits (replicate 32 0xFF)"
  proof
    fix i :: nat assume i: "i \<in> {..<256}"
    have "bit (0xFF :: u8) (i mod 8)" using bit_mask_iff [of 8 "i mod 8", where 'a = u8] by (simp add: mask_eq_exp_minus_1)
    moreover have "i div 8 < 32" using i by (simp add: div_less_iff_less_mult)
    ultimately show "i \<in> used_bits (replicate 32 0xFF)" by (simp add: used_bits_def)
  qed
  have n9: "\<not> {..<16} \<subseteq> used_bits [0xFF, 0x05]" unfolding b by (auto dest!: subsetD [of _ _ 9])
  obtain i bm' where i: "vsfs_alloc_block [0xFF, 0x05] 16 = Some (int i, bm')" "i \<notin> used_bits [0xFF, 0x05]"
    "{..<i} \<subseteq> used_bits [0xFF, 0x05]" "used_bits bm' = insert i (used_bits [0xFF, 0x05])"
    and im: "vsfs_alloc_inode (replicate 32 0xFF) = Some (-1, replicate 32 0xFF)"
    using vsfs_alloc_lowest_free [of 16 "[0xFF, 0x05]" "replicate 32 0xFF"] n9 f by auto
  have "i = 9"
  proof (rule ccontr)
    assume "i \<noteq> 9"
    then consider "i < 9" | "9 < i" by linarith
    then show False
    proof cases
      case 1
      then have "i \<in> {0, 1, 2, 3, 4, 5, 6, 7, 8}" by auto
      then show ?thesis using i(2) unfolding b by blast
    next
      case 2
      then show ?thesis using i(3) unfolding b by auto
    qed
  qed
  then show ?thesis using i im by auto
qed

section \<open>Addresses and formatting\<close>

lemma block_lba_roundtrip:
  assumes "unat b < 2 ^ 20"
  shows "unat (block_to_lba b) = 8 * unat b" "lba_to_block (block_to_lba b) = b"
proof -
  have "unat (b * BLOCK_SIZE) = unat b * 4096" using assms by (simp add: BLOCK_SIZE_def unat_word_ariths)
  then show 1: "unat (block_to_lba b) = 8 * unat b" by (simp add: block_to_lba_def VSFS_SECTOR_SIZE_def unat_div_distrib)
  then have "unat (block_to_lba b * VSFS_SECTOR_SIZE) = unat b * 4096" using assms by (simp add: VSFS_SECTOR_SIZE_def unat_word_ariths)
  then show "lba_to_block (block_to_lba b) = b"
    by (simp add: lba_to_block_def BLOCK_SIZE_def word_unat_eq_iff unat_div_distrib)
qed

text \<open>From 4 GiB on, block numbers name blocks at the start of the file system.\<close>

lemma block_to_lba_wraps: "block_to_lba (b + 0x100000) = block_to_lba b"
proof -
  have "(0x100000 * 4096 :: u32) = 0" by simp
  then have "(b + 0x100000) * BLOCK_SIZE = b * BLOCK_SIZE" unfolding BLOCK_SIZE_def distrib_right by (simp only: add_0_right)
  then show ?thesis by (simp add: block_to_lba_def)
qed

text \<open>
  The layout of a file system below 4 GiB: the regions follow each other from block 0, the data region starts after the
  reserved blocks, and the data bitmap has a bit for every block of it. At 4 GiB the number of blocks becomes 0.
\<close>

lemma superblock_layout:
  assumes "unat t < 2 ^ 23" "16 \<le> unat t" and b_def: "b = new_superblock start_lba t"
  shows "unat (sb_total_blocks b) = unat t div 8"
    and "sb_data_bitmap_block b = sb_inode_bitmap_block b + sb_num_inode_bitmap b"
    and "sb_inode_table_block b = sb_data_bitmap_block b + sb_num_data_bitmap b"
    and "sb_data_region_block b = sb_inode_table_block b + sb_num_inode_table b"
    and "sb_data_region_block b = sb_reserved_blocks b" "sb_num_inode_table b = 8"
    and "unat (sb_total_blocks b) \<le> 8 * 4096 * unat (sb_num_data_bitmap b) + 2"
proof -
  have t: "unat (t * 512) = unat t * 512" using assms(1) by (simp add: unat_word_ariths)
  then show tb: "unat (sb_total_blocks b) = unat t div 8"
    by (simp add: b_def new_superblock_def Let_def VSFS_SECTOR_SIZE_def BLOCK_SIZE_def unat_div_distrib)
  show "sb_data_bitmap_block b = sb_inode_bitmap_block b + sb_num_inode_bitmap b"
    "sb_inode_table_block b = sb_data_bitmap_block b + sb_num_data_bitmap b"
    "sb_data_region_block b = sb_inode_table_block b + sb_num_inode_table b"
    "sb_data_region_block b = sb_reserved_blocks b" "sb_num_inode_table b = 8"
    by (simp_all add: b_def new_superblock_def Let_def MAX_FILES_def sizeof_inode_def BLOCK_SIZE_def)
  define k where "k = unat t div 8"
  have k: "2 \<le> k" "k < 2 ^ 20" using assms(1,2) by (simp_all add: k_def div_less_iff_less_mult)
  define w where "w = sb_total_blocks b"
  have w: "unat w = k" using tb by (simp add: w_def k_def)
  have "unat (5 + w) = k + 5" using w k by (simp add: unat_word_ariths)
  then have "unat ((5 + w) div 8 + 4096) = (k + 5) div 8 + 4096" using k by (simp add: unat_word_ariths unat_div_distrib)
  moreover have "sb_num_data_bitmap b = ((5 + w) div 8 + 4096) div 4096"
    by (simp add: b_def w_def new_superblock_def Let_def MAX_FILES_def BLOCK_SIZE_def)
  ultimately have "unat (sb_num_data_bitmap b) = ((k + 5) div 8 + 4096) div 4096" by (simp add: unat_div_distrib)
  moreover have "k \<le> 8 * 4096 * (((k + 5) div 8 + 4096) div 4096) + 2"
    using div_mult_mod_eq [of "(k + 5) div 8 + 4096" 4096] mod_less_divisor [of 4096 "(k + 5) div 8 + 4096"]
      div_mult_mod_eq [of "k + 5" 8] mod_less_divisor [of 8 "k + 5"] by linarith
  ultimately show "unat (sb_total_blocks b) \<le> 8 * 4096 * unat (sb_num_data_bitmap b) + 2" using tb by (simp add: k_def)
qed

lemma superblock_4GiB: "sb_total_blocks (new_superblock start_lba 0x800000) = 0"
  by (simp add: new_superblock_def Let_def VSFS_SECTOR_SIZE_def BLOCK_SIZE_def)

lemma length_superblock: "length (sb_name b) = 8 \<Longrightarrow> length (superblock_bytes b) = 64"
  by (simp add: superblock_bytes_def)

text \<open>
  \<open>vsfs_mkfs\<close> writes the superblock as a whole block of 4096 bytes out of the 64 bytes it has allocated: on a working disk it
  reads past the end of the object.
\<close>

lemma vsfs_mkfs_overreads:
  assumes "dev_ok n s" "disk_malloc_ok s 64" "unat start_lba + 8 \<le> dev_cap n s" "unat start_lba < 2 ^ 32"
  shows "vsfs_mkfs n start_lba total_sectors s = None"
  using assms(1)
proof (rule dev_okE)
  fix port d ds
  assume d: "sata_dev n s = Some port" "get_disk n s = Some d" "disks s = Some ds"
    "d_type d = DISK_TYPE_AHCI_SATA" "n < disk_count s" "d_context d = Some port"
    "drive_ok (drives s port)" "unat (sata_get_total_sectors (drives s port)) \<le> 2 ^ 48"
    "d_total_sectors d = sata_get_total_sectors (drives s port)"
  define b where "b = new_superblock start_lba total_sectors"
  define s1 where "s1 = s\<lparr>lba_offset := ucast start_lba, vsfs_sb := Some b\<rparr>"
  have len: "length (superblock_bytes b) = 64" by (rule length_superblock) (simp add: b_def new_superblock_def Let_def)
  have u: "unat (ucast (ucast start_lba :: u32) :: u64) = unat start_lba"
    using assms(4) by (simp add: unsigned_ucast_eq unsigned_take_bit_eq take_bit_nat_eq_self)
  have cap: "unat start_lba + 8 \<le> unat (sata_get_total_sectors (drives s port))"
    using assms(3) d(1) by (simp add: dev_cap_def dev_drive_def)
  have le: "\<not> ucast (ucast start_lba :: u32) + 8 > sata_get_total_sectors (drives s port)"
    using cap d(8) u by (simp add: not_less word_le_nat_alt unat_word_ariths)
  have "cmd_ok (drives s port) (unat start_lba mod 2 ^ 48) 8" using d(7) by (simp add: drive_ok_def MAX_BATCH_SIZE_def)
  then have "sata_write (drives s port) (ucast (ucast start_lba :: u32)) 8 (superblock_bytes b) = None"
    using le u len by (simp add: sata_write_def)
  then have "write_block n 0 1 (superblock_bytes b) s1 = None"
    using d le by (simp add: write_block_def kebla_disk_write_def s1_def block_to_lba_def BLOCK_SIZE_def VSFS_SECTOR_SIZE_def get_disk_def)
  then show ?thesis using assms(2) by (simp add: vsfs_mkfs_def Let_def b_def s1_def)
qed

end
