(* ===== verification/Ext2.thy ===== *)
theory Ext2
  imports Vsfs
begin

text \<open>
  The EXT2 driver (kernel/src/fs/ext2/ext2.c): formatting, mounting, inodes, file contents, directories and the two
  allocators, whose loop over a bitmap is that of the VSFS. State: the disks extended with the two globals of the file.
  A directory block is specified as a list of records (\<open>dir_block\<close>), a sound file system by \<open>ext2_sound\<close> and
  a directory of it by \<open>dir_at\<close>; shown are that a directory that was made is listed, that files are read block by
  block, and the runs that go wrong.

  Buffers on the stack whose contents a failed read leaves undefined are the parameter \<open>junk\<close>, the bytes that an array of a
  given size holds before it is written. \<open>None\<close> is an access outside an object, a division by zero or a loop that does
  not end. The descriptors of the groups are the bytes of their block on the heap. Allocated memory is cleared.
\<close>

section \<open>Structures on the disk\<close>

record ext2_superblock_t =
  s_inodes_count :: u32
  s_blocks_count :: u32
  s_r_blocks_count :: u32
  s_free_blocks_count :: u32
  s_free_inodes_count :: u32
  s_first_data_block :: u32
  s_log_block_size :: u32
  s_log_frag_size :: u32
  s_blocks_per_group :: u32
  s_frags_per_group :: u32
  s_inodes_per_group :: u32
  s_mtime :: u32
  s_wtime :: u32
  s_mnt_count :: u16
  s_max_mnt_count :: u16
  s_magic :: u16
  s_state :: u16
  s_errors :: u16
  s_minor_rev_level :: u16
  s_lastcheck :: u32
  s_checkinterval :: u32
  s_creator_os :: u32
  s_rev_level :: u32
  s_def_resuid :: u16
  s_def_resgid :: u16
  s_first_ino :: u32
  s_inode_size :: u16

definition super_bytes :: "ext2_superblock_t \<Rightarrow> bytes" where
  "super_bytes b = concat [le32 (s_inodes_count b), le32 (s_blocks_count b), le32 (s_r_blocks_count b), le32 (s_free_blocks_count b),
     le32 (s_free_inodes_count b), le32 (s_first_data_block b), le32 (s_log_block_size b), le32 (s_log_frag_size b),
     le32 (s_blocks_per_group b), le32 (s_frags_per_group b), le32 (s_inodes_per_group b), le32 (s_mtime b), le32 (s_wtime b),
     le16 (s_mnt_count b), le16 (s_max_mnt_count b), le16 (s_magic b), le16 (s_state b), le16 (s_errors b), le16 (s_minor_rev_level b),
     le32 (s_lastcheck b), le32 (s_checkinterval b), le32 (s_creator_os b), le32 (s_rev_level b), le16 (s_def_resuid b),
     le16 (s_def_resgid b), le32 (s_first_ino b), le16 (s_inode_size b)]"

definition super_of :: "bytes \<Rightarrow> ext2_superblock_t" where
  "super_of b = \<lparr>s_inodes_count = rd32 b 0, s_blocks_count = rd32 b 4, s_r_blocks_count = rd32 b 8, s_free_blocks_count = rd32 b 12,
     s_free_inodes_count = rd32 b 16, s_first_data_block = rd32 b 20, s_log_block_size = rd32 b 24, s_log_frag_size = rd32 b 28,
     s_blocks_per_group = rd32 b 32, s_frags_per_group = rd32 b 36, s_inodes_per_group = rd32 b 40, s_mtime = rd32 b 44,
     s_wtime = rd32 b 48, s_mnt_count = rd16 b 52, s_max_mnt_count = rd16 b 54, s_magic = rd16 b 56, s_state = rd16 b 58,
     s_errors = rd16 b 60, s_minor_rev_level = rd16 b 62, s_lastcheck = rd32 b 64, s_checkinterval = rd32 b 68,
     s_creator_os = rd32 b 72, s_rev_level = rd32 b 76, s_def_resuid = rd16 b 80, s_def_resgid = rd16 b 82, s_first_ino = rd32 b 84,
     s_inode_size = rd16 b 88\<rparr>"

record ext2_group_desc_t =
  bg_block_bitmap :: u32
  bg_inode_bitmap :: u32
  bg_inode_table :: u32
  bg_free_blocks_count :: u16
  bg_free_inodes_count :: u16
  bg_used_dirs_count :: u16

text \<open>The padding and the reserved words are zero in what the driver writes, and it never looks at them.\<close>

definition group_bytes :: "ext2_group_desc_t \<Rightarrow> bytes" where
  "group_bytes g = concat [le32 (bg_block_bitmap g), le32 (bg_inode_bitmap g), le32 (bg_inode_table g),
     le16 (bg_free_blocks_count g), le16 (bg_free_inodes_count g), le16 (bg_used_dirs_count g), replicate 14 0]"

definition group_of :: "bytes \<Rightarrow> ext2_group_desc_t" where
  "group_of b = \<lparr>bg_block_bitmap = rd32 b 0, bg_inode_bitmap = rd32 b 4, bg_inode_table = rd32 b 8,
     bg_free_blocks_count = rd16 b 12, bg_free_inodes_count = rd16 b 14, bg_used_dirs_count = rd16 b 16\<rparr>"

record ext2_inode_t =
  i_mode :: u16
  i_uid :: u16
  i_size :: u32
  i_atime :: u32
  i_ctime :: u32
  i_mtime :: u32
  i_dtime :: u32
  i_gid :: u16
  i_links_count :: u16
  i_blocks :: u32
  i_flags :: u32
  i_osd1 :: u32
  i_block :: "u32 list"
  i_rest :: bytes

definition inode_bytes :: "ext2_inode_t \<Rightarrow> bytes" where
  "inode_bytes n = concat [le16 (i_mode n), le16 (i_uid n), le32 (i_size n), le32 (i_atime n), le32 (i_ctime n), le32 (i_mtime n),
     le32 (i_dtime n), le16 (i_gid n), le16 (i_links_count n), le32 (i_blocks n), le32 (i_flags n), le32 (i_osd1 n),
     concat (map le32 (i_block n)), i_rest n]"

definition inode_of :: "bytes \<Rightarrow> ext2_inode_t" where
  "inode_of b = \<lparr>i_mode = rd16 b 0, i_uid = rd16 b 2, i_size = rd32 b 4, i_atime = rd32 b 8, i_ctime = rd32 b 12, i_mtime = rd32 b 16,
     i_dtime = rd32 b 20, i_gid = rd16 b 24, i_links_count = rd16 b 26, i_blocks = rd32 b 28, i_flags = rd32 b 32, i_osd1 = rd32 b 36,
     i_block = map (\<lambda>k. rd32 b (40 + 4 * k)) [0..<15], i_rest = bslice 100 28 b\<rparr>"

definition dirent_bytes :: "u32 \<Rightarrow> u16 \<Rightarrow> u8 \<Rightarrow> bytes \<Rightarrow> bytes" where
  "dirent_bytes ino rec_len ftype name = le32 ino @ le16 rec_len @ [of_nat (length name), ftype] @ name"

section \<open>State\<close>

record ext2_fs_t =
  fs_disk_no :: int
  fs_start_lba :: u64
  fs_block_size :: u32
  fs_super :: ext2_superblock_t
  fs_groups :: "bytes option"

record ext2_sys = disk_sys +
  EXT2_START_LBA :: u64
  ext2 :: "ext2_fs_t option"

definition EXT2_BLOCK_SIZE :: nat where "EXT2_BLOCK_SIZE = 4096"
definition INODES_PER_GROUP :: u32 where "INODES_PER_GROUP = 8192"
definition INODE_TABLE_BLOCKS :: u32 where "INODE_TABLE_BLOCKS = 256"
definition BLOCKS_PER_GROUP :: u32 where "BLOCKS_PER_GROUP = 32768"
definition EXT2_SUPER_MAGIC :: u16 where "EXT2_SUPER_MAGIC = 0xEF53"
definition EXT2_ROOT_INO :: u32 where "EXT2_ROOT_INO = 2"

section \<open>Formatting\<close>

definition total_groups :: "u32 \<Rightarrow> u32" where
  "total_groups blocks = (blocks + BLOCKS_PER_GROUP - 1) div BLOCKS_PER_GROUP"

definition zero_super :: ext2_superblock_t where
  "zero_super = super_of (replicate 90 0)"

definition new_super :: "u32 \<Rightarrow> ext2_superblock_t" where
  "new_super total_blocks =
     (let groups = total_groups total_blocks;
          total_inodes = groups * INODES_PER_GROUP;
          metadata_per_group = 1 + 1 + INODE_TABLE_BLOCKS;
          total_metadata_blocks = groups * metadata_per_group + 2
      in zero_super\<lparr>s_inodes_count := total_inodes, s_blocks_count := total_blocks, s_r_blocks_count := 0,
           s_free_blocks_count := total_blocks - total_metadata_blocks, s_free_inodes_count := total_inodes - 1,
           s_first_data_block := 0, s_log_block_size := 2, s_blocks_per_group := BLOCKS_PER_GROUP,
           s_inodes_per_group := INODES_PER_GROUP, s_magic := EXT2_SUPER_MAGIC, s_rev_level := 0,
           s_first_ino := EXT2_ROOT_INO, s_inode_size := 128\<rparr>)"

definition new_group :: "u32 \<Rightarrow> ext2_group_desc_t" where
  "new_group total_blocks = \<lparr>bg_block_bitmap = 3, bg_inode_bitmap = 4, bg_inode_table = 5,
     bg_free_blocks_count = ucast (total_blocks - 10),
     bg_free_inodes_count = ucast (total_groups total_blocks * INODES_PER_GROUP - 1), bg_used_dirs_count = 1\<rparr>"

definition zero_inode :: ext2_inode_t where
  "zero_inode = \<lparr>i_mode = 0, i_uid = 0, i_size = 0, i_atime = 0, i_ctime = 0, i_mtime = 0, i_dtime = 0, i_gid = 0, i_links_count = 0,
     i_blocks = 0, i_flags = 0, i_osd1 = 0, i_block = replicate 15 0, i_rest = replicate 28 0\<rparr>"

definition dir_inode :: "u32 \<Rightarrow> u32 \<Rightarrow> ext2_inode_t" where
  "dir_inode sz block = zero_inode\<lparr>i_mode := 0x41ED, i_size := sz, i_links_count := 2, i_blocks := 2,
     i_block := (replicate 15 0)[0 := block]\<rparr>"

text \<open>The two records of an empty directory in a block of the given size.\<close>

definition dot_entries :: "u32 \<Rightarrow> u32 \<Rightarrow> u32 \<Rightarrow> bytes" where
  "dot_entries self parent block_size = dirent_bytes self 12 2 [46] @ replicate 3 0 @ dirent_bytes parent (ucast (block_size - 12)) 2 [46, 46]"

definition block_of :: "bytes \<Rightarrow> bytes" where
  "block_of d = d @ replicate (EXT2_BLOCK_SIZE - length d) 0"

definition format_blocks :: "u32 \<Rightarrow> (u64 \<times> bytes) list" where
  "format_blocks total_blocks =
     [(2, block_of (super_bytes (new_super total_blocks))),
      (4, block_of (group_bytes (new_group total_blocks))),
      (6, block_of [0xFF, 0x03]),
      (8, block_of [0x06]),
      (10, block_of (replicate 128 0 @ inode_bytes (dir_inode (of_nat EXT2_BLOCK_SIZE) (5 + INODE_TABLE_BLOCKS)))),
      (18, block_of (dot_entries EXT2_ROOT_INO EXT2_ROOT_INO (of_nat EXT2_BLOCK_SIZE)))]"

text \<open>The six writes, each of two sectors; the first that fails ends the formatting.\<close>

fun write_blocks :: "int \<Rightarrow> u64 \<Rightarrow> (u64 \<times> bytes) list \<Rightarrow> ext2_sys \<Rightarrow> (bool \<times> ext2_sys) option" where
  "write_blocks disk_no start_lba [] s = Some (True, s)"
| "write_blocks disk_no start_lba ((off, block) # bs) s =
     do { (ok, s) \<leftarrow> kebla_disk_write disk_no (start_lba + off) 2 block s;
          if \<not> ok then Some (False, s) else write_blocks disk_no start_lba bs s }"

definition create_ext2_fs :: "int \<Rightarrow> u64 \<Rightarrow> u64 \<Rightarrow> ext2_sys \<Rightarrow> (bool \<times> ext2_sys) option" where
  "create_ext2_fs disk_no start_lba total_sectors s =
     (if total_sectors < 100 then Some (False, s)
      else write_blocks disk_no start_lba (format_blocks (ucast (total_sectors div 8))) (s\<lparr>EXT2_START_LBA := start_lba\<rparr>))"

section \<open>Blocks and mounting\<close>

definition ext2_read_block :: "u32 \<Rightarrow> bytes \<Rightarrow> ext2_sys \<Rightarrow> (bool \<times> bytes) option" where
  "ext2_read_block block buf s = (case ext2 s of
     None \<Rightarrow> Some (False, buf)
   | Some fs \<Rightarrow>
       if block \<ge> s_blocks_count (fs_super fs) then Some (False, buf)
       else kebla_disk_read (fs_disk_no fs) (EXT2_START_LBA s + ucast block * ucast (fs_block_size fs div 512))
              (fs_block_size fs div 512) buf s)"

definition ext2_write_block :: "u32 \<Rightarrow> bytes \<Rightarrow> ext2_sys \<Rightarrow> (bool \<times> ext2_sys) option" where
  "ext2_write_block block buf s = (case ext2 s of
     None \<Rightarrow> Some (False, s)
   | Some fs \<Rightarrow>
       if block \<ge> s_blocks_count (fs_super fs) then Some (False, s)
       else kebla_disk_write (fs_disk_no fs) (EXT2_START_LBA s + ucast block * ucast (fs_block_size fs div 512))
              (fs_block_size fs div 512) buf s)"

definition zero_fs :: ext2_fs_t where
  "zero_fs = \<lparr>fs_disk_no = 0, fs_start_lba = 0, fs_block_size = 0, fs_super = zero_super, fs_groups = None\<rparr>"

definition ext2_malloc :: "nat \<Rightarrow> ext2_sys \<Rightarrow> bytes option" where
  "ext2_malloc n s = (if n \<noteq> 0 \<and> disk_malloc_ok s n then Some (replicate n 0) else None)"

text \<open>The result of reading the descriptors is not looked at.\<close>

definition ext2_mount :: "int \<Rightarrow> ext2_sys \<Rightarrow> (bool \<times> ext2_sys) option" where
  "ext2_mount disk_no s =
     (case (case ext2 s of Some fs \<Rightarrow> Some fs | None \<Rightarrow> if disk_malloc_ok s 120 then Some zero_fs else None) of
        None \<Rightarrow> Some (False, s)
      | Some fs \<Rightarrow>
          let fs = fs\<lparr>fs_disk_no := disk_no, fs_start_lba := EXT2_START_LBA s\<rparr>
          in do {
            (ok, buffer) \<leftarrow> kebla_disk_read disk_no (EXT2_START_LBA s + 2) 2 (replicate 1024 0) s;
            if \<not> ok then Some (False, s\<lparr>ext2 := Some fs\<rparr>)
            else let fs = fs\<lparr>fs_super := super_of buffer\<rparr>
              in if s_magic (fs_super fs) \<noteq> 0xEF53 then Some (False, s\<lparr>ext2 := Some fs\<rparr>)
                 else if s_log_block_size (fs_super fs) > 20 \<or> s_blocks_per_group (fs_super fs) = 0 then None
                 else let fs = fs\<lparr>fs_block_size := push_bit (unat (s_log_block_size (fs_super fs))) 1024\<rparr>;
                          group_count = (s_blocks_count (fs_super fs) + s_blocks_per_group (fs_super fs) - 1) div s_blocks_per_group (fs_super fs)
                   in case ext2_malloc (unat group_count * 32) s of
                        None \<Rightarrow> Some (False, s\<lparr>ext2 := Some (fs\<lparr>fs_groups := None\<rparr>)\<rparr>)
                      | Some groups \<Rightarrow> do {
                          (ok, groups) \<leftarrow> ext2_read_block (if fs_block_size fs = 1024 then 2 else 1) groups
                                             (s\<lparr>ext2 := Some (fs\<lparr>fs_groups := Some groups\<rparr>)\<rparr>);
                          Some (True, s\<lparr>ext2 := Some (fs\<lparr>fs_groups := Some groups\<rparr>)\<rparr>) } })"

section \<open>Inodes\<close>

definition group_desc :: "ext2_fs_t \<Rightarrow> nat \<Rightarrow> ext2_group_desc_t option" where
  "group_desc fs g = (case fs_groups fs of None \<Rightarrow> None
     | Some b \<Rightarrow> if 32 * g + 32 \<le> length b then Some (group_of (bslice (32 * g) 32 b)) else None)"

text \<open>The block and the offset in it of an inode, as both \<open>ext2_read_inode\<close> and \<open>ext2_create_dir\<close> compute them.\<close>

definition inode_place :: "ext2_fs_t \<Rightarrow> u32 \<Rightarrow> (u32 \<times> u32) option" where
  "inode_place fs inode_no =
     (if s_inodes_per_group (fs_super fs) = 0 \<or> fs_block_size fs = 0 then None
      else let group = (inode_no - 1) div s_inodes_per_group (fs_super fs);
               index = (inode_no - 1) mod s_inodes_per_group (fs_super fs);
               isz = ucast (s_inode_size (fs_super fs)) :: u32
        in map_option (\<lambda>g. (bg_inode_table g + index * isz div fs_block_size fs, index * isz mod fs_block_size fs))
             (group_desc fs (unat group)))"

definition ext2_read_inode :: "(nat \<Rightarrow> bytes) \<Rightarrow> u32 \<Rightarrow> ext2_inode_t \<Rightarrow> ext2_sys \<Rightarrow> (bool \<times> ext2_inode_t) option" where
  "ext2_read_inode junk inode_no inode s =
     Option.bind (ext2 s) (\<lambda>fs.
       do { (block, off) \<leftarrow> inode_place fs inode_no;
            (ok, buf) \<leftarrow> ext2_read_block block (junk (unat (fs_block_size fs))) s;
            if \<not> ok then Some (False, inode)
            else if unat off + 128 \<le> length buf then Some (True, inode_of (bslice (unat off) 128 buf)) else None })"

section \<open>Contents of a file\<close>

text \<open>A read to the place \<open>off\<close> of a buffer; its result is ignored.\<close>

definition read_block_at :: "u32 \<Rightarrow> nat \<Rightarrow> bytes \<Rightarrow> ext2_sys \<Rightarrow> bytes option" where
  "read_block_at block off buf s =
     (if off \<le> length buf
      then do { (ok, part) \<leftarrow> ext2_read_block block (drop off buf) s; Some (overwrite buf off part) } else None)"

text \<open>The loop over the direct blocks, and the one over the pointers of the indirect block.\<close>

fun block_loop :: "u32 list \<Rightarrow> u32 \<Rightarrow> u32 \<Rightarrow> u32 \<Rightarrow> bytes \<Rightarrow> ext2_sys \<Rightarrow> (u32 \<times> u32 \<times> bytes) option" where
  "block_loop [] block_size remaining off buf s = Some (remaining, off, buf)"
| "block_loop (b # bs) block_size remaining off buf s =
     (if remaining = 0 \<or> b = 0 then Some (remaining, off, buf)
      else do { buf \<leftarrow> read_block_at b (unat off) buf s;
                block_loop bs block_size (remaining - block_size) (off + block_size) buf s })"

definition ext2_read_file :: "(nat \<Rightarrow> bytes) \<Rightarrow> ext2_inode_t \<Rightarrow> bytes \<Rightarrow> ext2_sys \<Rightarrow> (bool \<times> bytes) option" where
  "ext2_read_file junk inode buffer s =
     Option.bind (ext2 s) (\<lambda>fs. do {
       (remaining, off, buf) \<leftarrow> block_loop (take 12 (i_block inode)) (fs_block_size fs) (i_size inode) 0 buffer s;
       if remaining > 0 \<and> i_block inode ! 12 \<noteq> 0
       then do {
         let n = unat (fs_block_size fs div 4);
         (ok, pointers) \<leftarrow> ext2_read_block (i_block inode ! 12) (junk (4 * n)) s;
         (remaining, off, buf) \<leftarrow> block_loop (map (\<lambda>i. rd32 pointers (4 * i)) [0..<n]) (fs_block_size fs) remaining off buf s;
         Some (True, buf) }
       else Some (True, buf) })"

section \<open>Directories\<close>

text \<open>The names and inode numbers that \<open>ext2_list_dir\<close> prints. A record of length 0 keeps the loop in place.\<close>

partial_function (option) list_entries :: "bytes \<Rightarrow> u32 \<Rightarrow> u32 \<Rightarrow> (bytes \<times> u32) list option" where
  "list_entries buf sz offset =
     (if offset < sz
      then if unat offset + 8 \<le> length buf
        then let p = unat offset; ino = rd32 buf p; nl = unat (rd8 buf (p + 6))
          in if ino \<noteq> 0 \<and> length buf < p + 8 + nl then None
             else Option.bind (list_entries buf sz (offset + ucast (rd16 buf (p + 4)))) (\<lambda>es.
                    Some (if ino \<noteq> 0 then (bslice (p + 8) nl buf, ino) # es else es))
        else None
      else Some [])"

definition ext2_list_dir :: "(nat \<Rightarrow> bytes) \<Rightarrow> ext2_inode_t \<Rightarrow> u32 \<Rightarrow> ext2_sys \<Rightarrow> (bytes \<times> u32) list option" where
  "ext2_list_dir junk inode0 inode_no s =
     Option.bind (ext2 s) (\<lambda>fs. do {
       (ok, inode) \<leftarrow> ext2_read_inode junk inode_no inode0 s;
       (ok, buf) \<leftarrow> ext2_read_block (i_block inode ! 0) (junk (unat (fs_block_size fs))) s;
       list_entries buf (i_size inode) 0 })"

section \<open>Allocation\<close>

definition ext2_alloc_inode :: "(nat \<Rightarrow> bytes) \<Rightarrow> ext2_sys \<Rightarrow> (u32 \<times> ext2_sys) option" where
  "ext2_alloc_inode junk s =
     Option.bind (ext2 s) (\<lambda>fs. do {
       g \<leftarrow> group_desc fs 0;
       (ok, bitmap) \<leftarrow> ext2_read_block (bg_inode_bitmap g) (junk (unat (fs_block_size fs))) s;
       (i, bitmap) \<leftarrow> bit_alloc_loop [0..<unat (s_inodes_count (fs_super fs))] bitmap;
       if i = -1 then Some (0, s)
       else do { (ok, s) \<leftarrow> ext2_write_block (bg_inode_bitmap g) bitmap s; Some (of_int i + 1, s) } })"

definition ext2_alloc_block :: "(nat \<Rightarrow> bytes) \<Rightarrow> ext2_sys \<Rightarrow> (u32 \<times> ext2_sys) option" where
  "ext2_alloc_block junk s =
     Option.bind (ext2 s) (\<lambda>fs. do {
       g \<leftarrow> group_desc fs 0;
       (ok, bitmap) \<leftarrow> ext2_read_block (bg_block_bitmap g) (junk (unat (fs_block_size fs))) s;
       (i, bitmap) \<leftarrow> bit_alloc_loop [0..<unat (s_blocks_count (fs_super fs))] bitmap;
       if i = -1 then Some (0, s)
       else do { (ok, s) \<leftarrow> ext2_write_block (bg_block_bitmap g) bitmap s; Some (of_int i, s) } })"

section \<open>Making a directory\<close>

definition put_bytes :: "bytes \<Rightarrow> nat \<Rightarrow> bytes \<Rightarrow> bytes option" where
  "put_bytes buf off d = (if off + length d \<le> length buf then Some (overwrite buf off d) else None)"

text \<open>
  The search for a record with more room than it needs, which is split in two; \<open>Some None\<close> is a full block. The new record
  is not checked against the room there is.
\<close>

partial_function (option) add_entry :: "u32 \<Rightarrow> u32 \<Rightarrow> bytes \<Rightarrow> u32 \<Rightarrow> bytes \<Rightarrow> bytes option option" where
  "add_entry block_size ino name offset buf =
     (if offset < block_size
      then if unat offset + 8 \<le> length buf
        then let p = unat offset; rl = rd16 buf (p + 4);
                 actual_len = 8 + ((ucast (rd8 buf (p + 6)) + 3) AND NOT 3) :: u32
          in if ucast rl > actual_len
             then Option.bind (put_bytes buf (p + unat actual_len)
                      (dirent_bytes ino (ucast (ucast rl - actual_len)) 2 (take (length name mod 256) name))) (\<lambda>buf.
                    map_option Some (put_bytes buf (p + 4) (le16 (ucast actual_len))))
             else add_entry block_size ino name (offset + ucast rl) buf
        else None
      else Some None)"

definition ext2_create_dir :: "(nat \<Rightarrow> bytes) \<Rightarrow> ext2_inode_t \<Rightarrow> u32 \<Rightarrow> bytes \<Rightarrow> ext2_sys \<Rightarrow> (bool \<times> ext2_sys) option" where
  "ext2_create_dir junk inode0 parent_no name s =
     do { (ino, s) \<leftarrow> ext2_alloc_inode junk s;
          (new_block, s) \<leftarrow> ext2_alloc_block junk s;
          if ino = 0 \<or> new_block = 0 then Some (False, s)
          else Option.bind (ext2 s) (\<lambda>fs. do {
            let n = unat (fs_block_size fs);
            (block, off) \<leftarrow> inode_place fs ino;
            (ok, buf) \<leftarrow> ext2_read_block block (junk n) s;
            buf \<leftarrow> put_bytes buf (unat off) (inode_bytes (dir_inode (fs_block_size fs) new_block));
            (ok, s) \<leftarrow> ext2_write_block block buf s;
            block_buf \<leftarrow> put_bytes (replicate n 0) 0 (dot_entries ino parent_no (fs_block_size fs));
            (ok, s) \<leftarrow> ext2_write_block new_block block_buf s;
            (ok, parent) \<leftarrow> ext2_read_inode junk parent_no inode0 s;
            (ok, parent_buf) \<leftarrow> ext2_read_block (i_block parent ! 0) (junk n) s;
            r \<leftarrow> add_entry (fs_block_size fs) ino name 0 parent_buf;
            case r of
              None \<Rightarrow> Some (False, s)
            | Some parent_buf \<Rightarrow> do { (ok, s) \<leftarrow> ext2_write_block (i_block parent ! 0) parent_buf s; Some (True, s) } }) }"

section \<open>Structures survive their round trips\<close>

lemma super_roundtrip: "super_of (super_bytes b @ r) = b"
  by (cases b) (simp add: super_of_def super_bytes_def rd32_def rd16_def bslice_def)

lemma length_super_bytes [simp]: "length (super_bytes b) = 90"
  by (simp add: super_bytes_def)

lemma group_roundtrip: "group_of (group_bytes g @ r) = g"
  by (cases g) (simp add: group_of_def group_bytes_def rd32_def rd16_def bslice_def)

lemma length_group_bytes [simp]: "length (group_bytes g) = 32"
  by (simp add: group_bytes_def)

lemma length_concat_le32 [simp]: "length (concat (map le32 bs)) = 4 * length bs"
  by (induction bs) auto

lemma rd32_concat: "k < length bs \<Longrightarrow> rd32 (concat (map le32 bs) @ r) (4 * k) = bs ! k"
proof (induction bs arbitrary: k)
  case (Cons b bs)
  then show ?case by (cases k) (simp_all add: rd32_def bslice_def)
qed simp

lemma length_inode_bytes: "length (i_block n) = 15 \<Longrightarrow> length (i_rest n) = 28 \<Longrightarrow> length (inode_bytes n) = 128"
  by (simp add: inode_bytes_def)

lemma inode_roundtrip:
  assumes "length (i_block n) = 15" "length (i_rest n) = 28"
  shows "inode_of (inode_bytes n) = n"
proof -
  define h where "h = concat [le16 (i_mode n), le16 (i_uid n), le32 (i_size n), le32 (i_atime n), le32 (i_ctime n), le32 (i_mtime n),
     le32 (i_dtime n), le16 (i_gid n), le16 (i_links_count n), le32 (i_blocks n), le32 (i_flags n), le32 (i_osd1 n)]"
  have h: "length h = 40" by (simp add: h_def)
  have b: "inode_bytes n = h @ concat (map le32 (i_block n)) @ i_rest n" by (simp add: inode_bytes_def h_def)
  have "rd32 (h @ x) (40 + 4 * k) = rd32 x (4 * k)" for x k using h by (simp add: rd32_def bslice_def)
  then have "map (\<lambda>k. rd32 (inode_bytes n) (40 + 4 * k)) [0..<15] = map (\<lambda>k. i_block n ! k) [0..<15]"
    unfolding b using assms(1) by (intro map_cong) (simp_all add: rd32_concat)
  also have "\<dots> = i_block n" using assms(1) by (metis map_nth)
  finally have blk: "map (\<lambda>k. rd32 (inode_bytes n) (40 + 4 * k)) [0..<15] = i_block n" .
  have "bslice 100 28 (inode_bytes n) = i_rest n" unfolding b using assms h by (simp add: bslice_def)
  then show ?thesis unfolding inode_of_def blk
    by (cases n) (simp add: inode_bytes_def rd32_def rd16_def bslice_def)
qed

section \<open>Blocks of a mounted file system\<close>

definition mounted :: "ext2_fs_t \<Rightarrow> ext2_sys \<Rightarrow> bool" where
  "mounted fs s \<longleftrightarrow> ext2 s = Some fs \<and> fs_block_size fs = 4096 \<and> dev_ok (fs_disk_no fs) s
     \<and> unat (EXT2_START_LBA s) + 8 * unat (s_blocks_count (fs_super fs)) \<le> dev_cap (fs_disk_no fs) s"

definition eblk :: "ext2_fs_t \<Rightarrow> ext2_sys \<Rightarrow> u32 \<Rightarrow> bytes" where
  "eblk fs s k = dev_sectors (fs_disk_no fs) s (unat (EXT2_START_LBA s) + 8 * unat k) 8"

definition put_eblk :: "ext2_fs_t \<Rightarrow> u32 \<Rightarrow> bytes \<Rightarrow> ext2_sys \<Rightarrow> ext2_sys" where
  "put_eblk fs k d s = dev_put (fs_disk_no fs) (unat (EXT2_START_LBA s) + 8 * unat k) 8 d s"

lemma ext2_put [simp]:
  "ext2 (dev_put no lba n d s) = ext2 s" "EXT2_START_LBA (dev_put no lba n d s) = EXT2_START_LBA s"
  "disk_malloc_ok (dev_put no lba n d s) = disk_malloc_ok s"
  by (simp_all add: dev_put_def)

lemma dev_sectors_put:
  assumes "dev_ok no s" "n * 512 \<le> length d"
  shows "dev_sectors no (dev_put no lba n d s) lba n = take (n * 512) d"
    and "lba + n \<le> lba' \<or> lba' + m \<le> lba \<Longrightarrow> dev_sectors no (dev_put no lba n d s) lba' m = dev_sectors no s lba' m"
proof -
  have e: "map (\<lambda>i. dev_sector no (dev_put no lba n d s) (lba + i)) [0..<n] = map (\<lambda>i. bslice (i * 512) 512 d) [0..<n]"
    using assms by (intro map_cong) (simp_all add: dev_sector_put)
  show "dev_sectors no (dev_put no lba n d s) lba n = take (n * 512) d"
    unfolding dev_sectors_def e using sata_blk.concat_written [of n d] assms(2) by simp
  show "dev_sectors no (dev_put no lba n d s) lba' m = dev_sectors no s lba' m" if "lba + n \<le> lba' \<or> lba' + m \<le> lba"
    unfolding dev_sectors_def using that assms by (intro arg_cong [where f = concat] map_cong) (auto simp: dev_sector_put)
qed

lemma block_address:
  assumes "mounted fs s" "k < s_blocks_count (fs_super fs)"
  shows "unat (EXT2_START_LBA s + ucast k * 8) = unat (EXT2_START_LBA s) + 8 * unat k"
    and "unat (EXT2_START_LBA s) + 8 * unat k + 8 \<le> dev_cap (fs_disk_no fs) s"
proof -
  have k: "unat k < unat (s_blocks_count (fs_super fs))" using assms(2) by (simp add: word_less_nat_alt)
  then show c: "unat (EXT2_START_LBA s) + 8 * unat k + 8 \<le> dev_cap (fs_disk_no fs) s" using assms(1) by (simp add: mounted_def)
  have d: "dev_cap (fs_disk_no fs) s \<le> 2 ^ 48" using assms(1) by (simp add: mounted_def dev_ok_def)
  have "unat (ucast k :: u64) = unat k" using unat_u32_lt [of k] by (simp add: unsigned_ucast_eq take_bit_nat_eq_self)
  then show "unat (EXT2_START_LBA s + ucast k * 8) = unat (EXT2_START_LBA s) + 8 * unat k"
    using c d by (simp add: unat_word_ariths)
qed

lemma length_eblk [simp]: "mounted fs s \<Longrightarrow> length (eblk fs s k) = 4096"
  by (simp add: eblk_def mounted_def)

lemma ext2_read_block_ok:
  assumes "mounted fs s" "k < s_blocks_count (fs_super fs)" "4096 \<le> length buf"
  shows "ext2_read_block k buf s = Some (True, overwrite buf 0 (eblk fs s k))"
proof -
  have m: "ext2 s = Some fs" "fs_block_size fs = 4096" "dev_ok (fs_disk_no fs) s" using assms(1) by (simp_all add: mounted_def)
  show ?thesis
    using kebla_disk_read_ok [OF m(3), of 8 "EXT2_START_LBA s + ucast k * 8" buf] block_address [OF assms(1,2)] m assms(2,3)
    by (simp add: ext2_read_block_def eblk_def not_le)
qed

lemma ext2_write_block_ok:
  assumes "mounted fs s" "k < s_blocks_count (fs_super fs)" "length d = 4096"
  shows "ext2_write_block k d s = Some (True, put_eblk fs k d s)"
proof -
  have m: "ext2 s = Some fs" "fs_block_size fs = 4096" "dev_ok (fs_disk_no fs) s" using assms(1) by (simp_all add: mounted_def)
  show ?thesis
    using kebla_disk_write_ok [OF m(3), of 8 "EXT2_START_LBA s + ucast k * 8" d] block_address [OF assms(1,2)] m assms(2,3)
    by (simp add: ext2_write_block_def put_eblk_def not_le)
qed

lemma put_eblk_ok:
  assumes "mounted fs s" "length d = 4096"
  shows "mounted fs (put_eblk fs k d s)" "EXT2_START_LBA (put_eblk fs k d s) = EXT2_START_LBA s"
    "eblk fs (put_eblk fs k d s) j = (if j = k then d else eblk fs s j)"
proof -
  have m: "dev_ok (fs_disk_no fs) s" using assms(1) by (simp add: mounted_def)
  show "mounted fs (put_eblk fs k d s)" using assms dev_ok_put [OF m] by (simp add: mounted_def put_eblk_def)
  show "EXT2_START_LBA (put_eblk fs k d s) = EXT2_START_LBA s" by (simp add: put_eblk_def)
  show "eblk fs (put_eblk fs k d s) j = (if j = k then d else eblk fs s j)"
  proof (cases "j = k")
    case True
    then show ?thesis using dev_sectors_put(1) [OF m, of 8 d] assms(2) by (simp add: eblk_def put_eblk_def)
  next
    case False
    then have "unat j < unat k \<or> unat k < unat j" by (metis linorder_neqE_nat word_unat_eq_iff)
    then have "unat (EXT2_START_LBA s) + 8 * unat k + 8 \<le> unat (EXT2_START_LBA s) + 8 * unat j
      \<or> unat (EXT2_START_LBA s) + 8 * unat j + 8 \<le> unat (EXT2_START_LBA s) + 8 * unat k" by linarith
    then show ?thesis using dev_sectors_put(2) [OF m, of 8 d] assms(2) False by (simp add: eblk_def put_eblk_def)
  qed
qed

section \<open>Directory blocks as lists of records\<close>

text \<open>A record with the bytes behind its name; its length covers both.\<close>

record drec =
  r_ino :: u32
  r_type :: u8
  r_name :: bytes
  r_pad :: bytes

definition rec_len :: "drec \<Rightarrow> nat" where "rec_len e = 8 + length (r_name e) + length (r_pad e)"

definition rec_need :: "drec \<Rightarrow> nat" where "rec_need e = 8 + (length (r_name e) + 3) div 4 * 4"

definition rec_bytes :: "drec \<Rightarrow> bytes" where
  "rec_bytes e = dirent_bytes (r_ino e) (of_nat (rec_len e)) (r_type e) (r_name e) @ r_pad e"

definition dir_block :: "drec list \<Rightarrow> bytes" where "dir_block es = concat (map rec_bytes es)"

definition rec_ok :: "drec \<Rightarrow> bool" where "rec_ok e \<longleftrightarrow> length (r_name e) < 256 \<and> rec_need e \<le> rec_len e"

definition dir_ok :: "drec list \<Rightarrow> bool" where "dir_ok es \<longleftrightarrow> (\<forall>e\<in>set es. rec_ok e) \<and> length (dir_block es) = 4096"

definition dir_names :: "drec list \<Rightarrow> (bytes \<times> u32) list" where
  "dir_names es = map (\<lambda>e. (r_name e, r_ino e)) (filter (\<lambda>e. r_ino e \<noteq> 0) es)"

lemma length_rec_bytes [simp]: "length (rec_bytes e) = rec_len e"
  by (simp add: rec_bytes_def dirent_bytes_def rec_len_def)

lemma dir_block_Cons: "dir_block (e # es) = rec_bytes e @ dir_block es"
  by (simp add: dir_block_def)

lemma rec_fields:
  assumes "rec_ok e" "rec_len e < 2 ^ 16"
  shows "rd32 (pre @ rec_bytes e @ post) (length pre) = r_ino e"
    and "unat (rd16 (pre @ rec_bytes e @ post) (length pre + 4)) = rec_len e"
    and "unat (rd8 (pre @ rec_bytes e @ post) (length pre + 6)) = length (r_name e)"
    and "bslice (length pre + 8) (length (r_name e)) (pre @ rec_bytes e @ post) = r_name e"
proof -
  show "rd32 (pre @ rec_bytes e @ post) (length pre) = r_ino e"
    by (simp add: rd32_def bslice_def rec_bytes_def dirent_bytes_def)
  have "rd16 (pre @ rec_bytes e @ post) (length pre + 4) = of_nat (rec_len e)"
    by (simp add: rd16_def bslice_def rec_bytes_def dirent_bytes_def)
  then show "unat (rd16 (pre @ rec_bytes e @ post) (length pre + 4)) = rec_len e" using assms(2) by (simp add: unat_of_nat)
  have "rd8 (pre @ rec_bytes e @ post) (length pre + 6) = of_nat (length (r_name e))"
    by (simp add: rd8_def nth_append rec_bytes_def dirent_bytes_def)
  then show "unat (rd8 (pre @ rec_bytes e @ post) (length pre + 6)) = length (r_name e)"
    using assms(1) by (simp add: unat_of_nat rec_ok_def)
  show "bslice (length pre + 8) (length (r_name e)) (pre @ rec_bytes e @ post) = r_name e"
    by (simp add: bslice_def rec_bytes_def dirent_bytes_def)
qed

lemma rec_len_ge: "8 \<le> rec_len e" by (simp add: rec_len_def)

lemma list_entries_ok:
  assumes "length pre + length (dir_block es) = 4096" "\<forall>e\<in>set es. rec_ok e"
  shows "list_entries (pre @ dir_block es) 4096 (of_nat (length pre)) = Some (dir_names es)"
  using assms
proof (induction es arbitrary: pre)
  case Nil
  then have "pre @ dir_block [] = pre" "length pre = 4096" by (simp_all add: dir_block_def)
  then show ?case by (subst list_entries.simps) (simp add: dir_names_def)
next
  case (Cons e es)
  define buf where "buf = pre @ rec_bytes e @ dir_block es"
  have l: "length pre + rec_len e + length (dir_block es) = 4096" using Cons.prems(1) by (simp add: dir_block_Cons)
  have p: "length pre < 4096" "rec_len e < 2 ^ 16" using l rec_len_ge [of e] by simp_all
  have u: "unat (of_nat (length pre) :: u32) = length pre" using p by (simp add: unat_of_nat)
  have lt: "(of_nat (length pre) :: u32) < 4096" using p u by (simp add: word_less_nat_alt)
  have ok: "rec_ok e" using Cons.prems(2) by simp
  note f = rec_fields [OF ok p(2), of pre "dir_block es", folded buf_def]
  have "(ucast (rd16 buf (length pre + 4)) :: u32) = of_nat (rec_len e)"
    using f(2) p(2) by (simp add: word_unat_eq_iff unsigned_ucast_eq take_bit_nat_eq_self unat_of_nat)
  then have nxt: "(of_nat (length pre) :: u32) + ucast (rd16 buf (length pre + 4)) = of_nat (length (pre @ rec_bytes e))" by simp
  have b: "buf = (pre @ rec_bytes e) @ dir_block es" by (simp add: buf_def)
  have IH: "list_entries buf 4096 (of_nat (length (pre @ rec_bytes e))) = Some (dir_names es)"
    unfolding b using Cons.IH [of "pre @ rec_bytes e"] l Cons.prems(2) by simp
  have len: "length buf = 4096" using l by (simp add: buf_def)
  have r: "length pre + 8 \<le> 4096" "length pre + 8 + length (r_name e) \<le> 4096" using l by (simp_all add: rec_len_def)
  have "list_entries buf 4096 (of_nat (length pre)) = Some (dir_names (e # es))"
    by (subst list_entries.simps) (use lt u len r f nxt IH in \<open>simp add: dir_names_def Let_def\<close>)
  then show ?case by (simp add: buf_def dir_block_Cons)
qed


text \<open>
  The search of \<open>ext2_create_dir\<close> splits the first record that has more than it needs: it keeps its name, and the record
  behind it takes the rest.
\<close>

definition rec_shrunk :: "drec \<Rightarrow> drec" where
  "rec_shrunk e = e\<lparr>r_pad := take (rec_need e - 8 - length (r_name e)) (r_pad e)\<rparr>"

definition rec_added :: "drec \<Rightarrow> u32 \<Rightarrow> bytes \<Rightarrow> drec" where
  "rec_added e ino name = \<lparr>r_ino = ino, r_type = 2, r_name = name,
     r_pad = drop (rec_need e - 8 - length (r_name e) + 8 + length name) (r_pad e)\<rparr>"

definition rec_room :: "drec \<Rightarrow> bytes \<Rightarrow> bool" where
  "rec_room e name \<longleftrightarrow> rec_need e + 8 + (length name + 3) div 4 * 4 \<le> rec_len e"

lemma rec_need_ge: "8 + length (r_name e) \<le> rec_need e"
  unfolding rec_need_def by linarith

lemma rec_split:
  assumes "rec_ok e" "rec_room e name" "length name < 256"
  shows "rec_len (rec_shrunk e) = rec_need e" "rec_len (rec_added e ino name) = rec_len e - rec_need e"
    "rec_ok (rec_shrunk e)" "rec_ok (rec_added e ino name)"
proof -
  have n: "8 + length (r_name e) \<le> rec_need e" by (rule rec_need_ge)
  have l: "rec_need e + 8 + length name \<le> rec_len e" "rec_need e \<le> rec_len e"
    using assms(2) unfolding rec_room_def by linarith+
  show s: "rec_len (rec_shrunk e) = rec_need e" using n l by (simp add: rec_len_def rec_shrunk_def)
  show a: "rec_len (rec_added e ino name) = rec_len e - rec_need e" using n l by (simp add: rec_len_def rec_added_def)
  show "rec_ok (rec_shrunk e)" using s assms(1) by (simp add: rec_ok_def rec_need_def rec_shrunk_def)
  have "rec_need (rec_added e ino name) = 8 + (length name + 3) div 4 * 4" by (simp add: rec_need_def rec_added_def)
  then show "rec_ok (rec_added e ino name)"
    using a assms(2,3) l unfolding rec_ok_def rec_room_def by (simp add: rec_added_def)
qed

lemma actual_len_eq:
  fixes b :: u8
  shows "unat (8 + ((ucast b + 3) AND NOT 3) :: u32) = 8 + (unat b + 3) div 4 * 4"
proof -
  have b: "unat (ucast b :: u32) = unat b" using unat_u8_lt [of b] by (simp add: unsigned_ucast_eq take_bit_nat_eq_self)
  then have b3: "unat (ucast b + 3 :: u32) = unat b + 3" using unat_u8_lt [of b] by (simp add: unat_word_ariths)
  have m: "(3 :: u32) = mask 2" by (simp add: mask_eq_exp_minus_1)
  have "w AND NOT (mask k) = push_bit k (drop_bit k w)" for w :: u32 and k
    by (rule bit_eqI) (auto simp: bit_simps)
  then have "(ucast b + 3 :: u32) AND NOT 3 = push_bit 2 (drop_bit 2 (ucast b + 3))" unfolding m .
  then have "unat ((ucast b + 3 :: u32) AND NOT 3) = (unat b + 3) div 4 * 4"
    using b3 unat_u8_lt [of b] by (simp add: push_bit_eq_mult drop_bit_eq_div unat_word_ariths unat_div_distrib)
  then show ?thesis using unat_u8_lt [of b] by (simp add: unat_word_ariths)
qed


lemma split_three: "xs = take k xs @ bslice k n xs @ drop (k + n) xs"
  by (metis append_take_drop_id bslice_def drop_drop add.commute)

lemma overwrite_at: "overwrite (a @ b @ c) (length a) d = a @ d @ c" if "length d = length b"
  using that by (simp add: overwrite_def)

lemma add_entry_split:
  assumes "rec_ok e" "rec_room e name" "length name < 256" "rec_len e < 2 ^ 16" and p: "p = length pre"
    and buf: "buf = pre @ rec_bytes e @ post"
  shows "put_bytes buf (p + rec_need e) (dirent_bytes ino (of_nat (rec_len e - rec_need e)) 2 name) =
      Some (pre @ dirent_bytes (r_ino e) (of_nat (rec_len e)) (r_type e) (r_name e) @ r_pad (rec_shrunk e) @
        rec_bytes (rec_added e ino name) @ post)"
    and "put_bytes (pre @ dirent_bytes (r_ino e) l (r_type e) (r_name e) @ r_pad (rec_shrunk e) @ rest) (p + 4) (le16 (of_nat (rec_need e)))
      = Some (pre @ rec_bytes (rec_shrunk e) @ rest)"
proof -
  note split = rec_split [OF assms(1-3)]
  define k where "k = rec_need e - 8 - length (r_name e)"
  have n: "rec_need e = 8 + length (r_name e) + k" using rec_need_ge [of e] by (simp add: k_def)
  have l: "k + 8 + length name \<le> length (r_pad e)" using assms(2) n unfolding rec_room_def rec_len_def by linarith
  define h where "h = dirent_bytes (r_ino e) (of_nat (rec_len e)) (r_type e) (r_name e)"
  have h: "length h = 8 + length (r_name e)" by (simp add: h_def dirent_bytes_def)
  have e: "buf = (pre @ h @ take k (r_pad e)) @ bslice k (8 + length name) (r_pad e) @ drop (k + 8 + length name) (r_pad e) @ post"
    using split_three [of "r_pad e" k "8 + length name"] unfolding buf rec_bytes_def h_def by (simp add: add.assoc)
  have len: "length (pre @ h @ take k (r_pad e)) = p + rec_need e" using h n l p by simp
  have "overwrite buf (p + rec_need e) (dirent_bytes ino (of_nat (rec_len e - rec_need e)) 2 name) =
    (pre @ h @ take k (r_pad e)) @ dirent_bytes ino (of_nat (rec_len e - rec_need e)) 2 name @ drop (k + 8 + length name) (r_pad e) @ post"
    unfolding e len [symmetric] by (rule overwrite_at) (use l in \<open>simp add: dirent_bytes_def bslice_def\<close>)
  moreover have "p + rec_need e + length (dirent_bytes ino (of_nat (rec_len e - rec_need e)) 2 name) \<le> length buf"
    using n l p by (simp add: buf dirent_bytes_def rec_len_def)
  ultimately show "put_bytes buf (p + rec_need e) (dirent_bytes ino (of_nat (rec_len e - rec_need e)) 2 name) =
      Some (pre @ dirent_bytes (r_ino e) (of_nat (rec_len e)) (r_type e) (r_name e) @ r_pad (rec_shrunk e) @
        rec_bytes (rec_added e ino name) @ post)"
    using split(2) by (simp add: put_bytes_def rec_bytes_def rec_shrunk_def rec_added_def k_def h_def)
  have "overwrite ((pre @ le32 (r_ino e)) @ le16 l @ x) (length (pre @ le32 (r_ino e))) (le16 m) = (pre @ le32 (r_ino e)) @ le16 m @ x" for l m x
    by (rule overwrite_at) simp
  then show "put_bytes (pre @ dirent_bytes (r_ino e) l (r_type e) (r_name e) @ r_pad (rec_shrunk e) @ rest) (p + 4) (le16 (of_nat (rec_need e)))
      = Some (pre @ rec_bytes (rec_shrunk e) @ rest)"
    unfolding put_bytes_def rec_bytes_def split(1) using p by (simp add: dirent_bytes_def rec_shrunk_def)
qed


lemma add_entry_here:
  assumes "rec_ok e" "rec_room e name" "length name < 256" "length (pre @ rec_bytes e @ post) = 4096"
  shows "add_entry 4096 ino name (of_nat (length pre)) (pre @ rec_bytes e @ post)
    = Some (Some (pre @ rec_bytes (rec_shrunk e) @ rec_bytes (rec_added e ino name) @ post))"
proof -
  define buf where "buf = pre @ rec_bytes e @ post"
  have l: "length pre + rec_len e + length post = 4096" using assms(4) by simp
  have p: "length pre < 4096" "rec_len e < 2 ^ 16" using l rec_len_ge [of e] by simp_all
  have u: "unat (of_nat (length pre) :: u32) = length pre" using p by (simp add: unat_of_nat)
  have lt: "(of_nat (length pre) :: u32) < 4096" using p u by (simp add: word_less_nat_alt)
  note f = rec_fields [OF assms(1) p(2), of pre post, folded buf_def]
  note step = add_entry_split [OF assms(1-3) p(2) refl buf_def]
  define a :: u32 where "a = 8 + ((ucast (rd8 buf (length pre + 6)) + 3) AND NOT 3)"
  define rl where "rl = rd16 buf (length pre + 4)"
  have a: "unat a = rec_need e" unfolding a_def actual_len_eq f(3) by (simp add: rec_need_def)
  have need: "rec_need e \<le> rec_len e" "rec_need e < rec_len e" using assms(2) by (simp_all add: rec_room_def)
  have rl: "unat (ucast rl :: u32) = rec_len e" using f(2) p(2) by (simp add: rl_def unsigned_ucast_eq take_bit_nat_eq_self)
  have gt: "ucast rl > a" using need rl a by (simp add: word_less_nat_alt)
  have "unat (ucast rl - a) = rec_len e - rec_need e" using need(1) rl a by (simp add: unat_sub word_le_nat_alt)
  then have n: "(ucast (ucast rl - a) :: u16) = of_nat (rec_len e - rec_need e)" "(ucast a :: u16) = of_nat (rec_need e)"
    using a by (simp_all add: word_unat_eq_iff unsigned_ucast_eq unat_of_nat take_bit_eq_mod)
  have len: "length pre + 8 \<le> length buf" using l by (simp add: buf_def rec_len_def)
  have t: "take (length name mod 256) name = name" using assms(3) by simp
  have "add_entry 4096 ino name (of_nat (length pre)) buf
      = Option.bind (put_bytes buf (length pre + unat a) (dirent_bytes ino (ucast (ucast rl - a)) 2 (take (length name mod 256) name)))
          (\<lambda>buf. map_option Some (put_bytes buf (length pre + 4) (le16 (ucast a))))"
    by (subst add_entry.simps) (use lt u len gt in \<open>simp add: Let_def a_def rl_def\<close>)
  also have "\<dots> = Some (Some (pre @ rec_bytes (rec_shrunk e) @ rec_bytes (rec_added e ino name) @ post))"
    unfolding n t a step(1) bind.bind_lunit step(2) by simp
  finally show ?thesis by (simp add: buf_def)
qed

text \<open>Records that are full are passed over.\<close>

definition rec_full :: "drec \<Rightarrow> bool" where "rec_full e \<longleftrightarrow> rec_len e = rec_need e"

lemma add_entry_ok:
  assumes "length pre + length (dir_block (es1 @ e # es2)) = 4096" "\<forall>e\<in>set (es1 @ [e]). rec_ok e" "\<forall>e\<in>set es1. rec_full e"
    "rec_room e name" "length name < 256"
  shows "add_entry 4096 ino name (of_nat (length pre)) (pre @ dir_block (es1 @ e # es2))
    = Some (Some (pre @ dir_block (es1 @ rec_shrunk e # rec_added e ino name # es2)))"
  using assms(1-3)
proof (induction es1 arbitrary: pre)
  case Nil
  then show ?case using add_entry_here [of e name pre "dir_block es2" ino] assms(4,5) by (simp add: dir_block_Cons)
next
  case (Cons x es1)
  define post where "post = dir_block (es1 @ e # es2)"
  define buf where "buf = pre @ rec_bytes x @ post"
  have l: "length pre + rec_len x + length post = 4096" using Cons.prems(1) by (simp add: dir_block_Cons post_def)
  have p: "length pre < 4096" "rec_len x < 2 ^ 16" using l rec_len_ge [of x] by simp_all
  have u: "unat (of_nat (length pre) :: u32) = length pre" using p by (simp add: unat_of_nat)
  have lt: "(of_nat (length pre) :: u32) < 4096" using p u by (simp add: word_less_nat_alt)
  have x: "rec_ok x" "rec_len x = rec_need x" using Cons.prems(2,3) by (simp_all add: rec_full_def)
  note f = rec_fields [OF x(1) p(2), of pre post, folded buf_def]
  define a :: u32 where "a = 8 + ((ucast (rd8 buf (length pre + 6)) + 3) AND NOT 3)"
  define rl where "rl = rd16 buf (length pre + 4)"
  have a: "unat a = rec_len x" unfolding a_def actual_len_eq f(3) by (simp add: x(2) rec_need_def)
  have rl: "unat (ucast rl :: u32) = rec_len x" using f(2) p(2) by (simp add: rl_def unsigned_ucast_eq take_bit_nat_eq_self)
  have gt: "\<not> ucast rl > a" using rl a by (simp add: word_less_nat_alt)
  have "(ucast rl :: u32) = of_nat (rec_len x)" using rl p(2) by (simp add: word_unat_eq_iff unat_of_nat)
  then have nxt: "(of_nat (length pre) :: u32) + ucast rl = of_nat (length (pre @ rec_bytes x))" by simp
  have len: "length pre + 8 \<le> length buf" using l by (simp add: buf_def rec_len_def)
  have b: "buf = (pre @ rec_bytes x) @ post" by (simp add: buf_def)
  have "add_entry 4096 ino name (of_nat (length pre)) buf = add_entry 4096 ino name (of_nat (length (pre @ rec_bytes x))) buf"
    unfolding nxt [symmetric] by (subst add_entry.simps) (use lt u len gt in \<open>simp add: Let_def a_def rl_def\<close>)
  also have "\<dots> = Some (Some ((pre @ rec_bytes x) @ dir_block (es1 @ rec_shrunk e # rec_added e ino name # es2)))"
    unfolding b post_def using Cons.IH [of "pre @ rec_bytes x"] l Cons.prems(2,3) by (simp add: post_def)
  finally show ?case by (simp add: buf_def post_def dir_block_Cons)
qed


section \<open>A sound file system of one group\<close>

definition itab_block :: "ext2_group_desc_t \<Rightarrow> u32 \<Rightarrow> u32" where
  "itab_block g ino = bg_inode_table g + of_nat ((unat ino - 1) div 32)"

definition itab_off :: "u32 \<Rightarrow> nat" where "itab_off ino = (unat ino - 1) mod 32 * 128"

definition inode_at :: "ext2_fs_t \<Rightarrow> ext2_group_desc_t \<Rightarrow> ext2_sys \<Rightarrow> u32 \<Rightarrow> ext2_inode_t" where
  "inode_at fs g s ino = inode_of (bslice (itab_off ino) 128 (eblk fs s (itab_block g ino)))"

definition in_table :: "ext2_fs_t \<Rightarrow> ext2_group_desc_t \<Rightarrow> u32 \<Rightarrow> bool" where
  "in_table fs g k \<longleftrightarrow> unat (bg_inode_table g) \<le> unat k
     \<and> unat k < unat (bg_inode_table g) + (unat (s_inodes_per_group (fs_super fs)) + 31) div 32"

definition meta_block :: "ext2_fs_t \<Rightarrow> ext2_group_desc_t \<Rightarrow> u32 \<Rightarrow> bool" where
  "meta_block fs g k \<longleftrightarrow> k = bg_block_bitmap g \<or> k = bg_inode_bitmap g \<or> in_table fs g k"

definition geometry_ok :: "ext2_fs_t \<Rightarrow> ext2_group_desc_t \<Rightarrow> bool" where
  "geometry_ok fs g \<longleftrightarrow> group_desc fs 0 = Some g \<and> s_inode_size (fs_super fs) = 128
     \<and> unat (s_blocks_count (fs_super fs)) \<le> 32768
     \<and> unat (s_inodes_count (fs_super fs)) \<le> unat (s_inodes_per_group (fs_super fs))
     \<and> unat (s_inodes_per_group (fs_super fs)) \<le> 32768
     \<and> bg_block_bitmap g < s_blocks_count (fs_super fs) \<and> bg_inode_bitmap g < s_blocks_count (fs_super fs)
     \<and> unat (bg_inode_table g) + (unat (s_inodes_per_group (fs_super fs)) + 31) div 32 \<le> unat (s_blocks_count (fs_super fs))
     \<and> bg_block_bitmap g \<noteq> bg_inode_bitmap g \<and> \<not> in_table fs g (bg_block_bitmap g) \<and> \<not> in_table fs g (bg_inode_bitmap g)"

abbreviation used_blocks :: "ext2_fs_t \<Rightarrow> ext2_group_desc_t \<Rightarrow> ext2_sys \<Rightarrow> nat set" where
  "used_blocks fs g s \<equiv> used_bits (eblk fs s (bg_block_bitmap g))"

abbreviation used_inodes :: "ext2_fs_t \<Rightarrow> ext2_group_desc_t \<Rightarrow> ext2_sys \<Rightarrow> nat set" where
  "used_inodes fs g s \<equiv> used_bits (eblk fs s (bg_inode_bitmap g))"

text \<open>Bit \<open>i\<close> of the inode bitmap stands for inode \<open>i + 1\<close>.\<close>

definition ext2_sound :: "ext2_fs_t \<Rightarrow> ext2_group_desc_t \<Rightarrow> ext2_sys \<Rightarrow> bool" where
  "ext2_sound fs g s \<longleftrightarrow> mounted fs s \<and> geometry_ok fs g \<and> 0 \<in> used_blocks fs g s
     \<and> (\<forall>k. meta_block fs g k \<longrightarrow> unat k \<in> used_blocks fs g s)"

definition valid_ino :: "ext2_fs_t \<Rightarrow> u32 \<Rightarrow> bool" where
  "valid_ino fs ino \<longleftrightarrow> 1 \<le> unat ino \<and> unat ino \<le> unat (s_inodes_count (fs_super fs))"

definition dir_at :: "ext2_fs_t \<Rightarrow> ext2_group_desc_t \<Rightarrow> ext2_sys \<Rightarrow> u32 \<Rightarrow> u32 \<Rightarrow> drec list \<Rightarrow> bool" where
  "dir_at fs g s ino b es \<longleftrightarrow> valid_ino fs ino \<and> unat ino - 1 \<in> used_inodes fs g s
     \<and> i_block (inode_at fs g s ino) ! 0 = b \<and> i_size (inode_at fs g s ino) = 4096
     \<and> b < s_blocks_count (fs_super fs) \<and> unat b \<in> used_blocks fs g s \<and> \<not> meta_block fs g b
     \<and> eblk fs s b = dir_block es \<and> dir_ok es"

lemma inode_place_ok:
  assumes "mounted fs s" "geometry_ok fs g" "valid_ino fs ino"
  shows "inode_place fs ino = Some (itab_block g ino, of_nat (itab_off ino))" "in_table fs g (itab_block g ino)"
    "itab_block g ino < s_blocks_count (fs_super fs)" "itab_off ino + 128 \<le> 4096"
    "unat (itab_block g ino) = unat (bg_inode_table g) + (unat ino - 1) div 32"
proof -
  define n where "n = unat ino - 1"
  define ipg where "ipg = unat (s_inodes_per_group (fs_super fs))"
  have v: "1 \<le> unat ino" "unat ino \<le> ipg" "ipg \<le> 32768" "unat (bg_inode_table g) + (ipg + 31) div 32 \<le> unat (s_blocks_count (fs_super fs))"
    "unat (s_blocks_count (fs_super fs)) \<le> 32768" "fs_block_size fs = 4096" "s_inode_size (fs_super fs) = 128" "group_desc fs 0 = Some g"
    using assms by (auto simp: geometry_ok_def valid_ino_def ipg_def mounted_def)
  have n: "unat (ino - 1) = n" using v(1) by (simp add: n_def unat_sub word_le_nat_alt)
  have lt: "n < ipg" using v n_def by linarith
  have d: "n div 32 < (ipg + 31) div 32" using lt by (auto simp: less_eq_div_iff_mult_less_eq Suc_le_eq [symmetric])
  then have "unat (of_nat (n div 32) :: u32) = n div 32" using v(3) lt by (simp add: unat_of_nat)
  then show t: "unat (itab_block g ino) = unat (bg_inode_table g) + (unat ino - 1) div 32"
    unfolding itab_block_def n_def [symmetric] using v(4,5) d by (simp add: unat_word_ariths)
  show "in_table fs g (itab_block g ino)" using t d by (simp add: in_table_def ipg_def n_def)
  show "itab_block g ino < s_blocks_count (fs_super fs)" using t d v(4) by (simp add: word_less_nat_alt n_def)
  have g0: "unat ((ino - 1) div s_inodes_per_group (fs_super fs)) = 0" using n lt by (simp add: unat_div_distrib ipg_def)
  have i: "(ino - 1) mod s_inodes_per_group (fs_super fs) = ino - 1"
    using n lt by (simp add: word_unat_eq_iff unat_mod_distrib ipg_def)
  have "unat (w * 128) = n * 128" if "unat w = n" for w :: u32 using that lt v(3) by (simp add: unat_word_ariths)
  note m = this [OF n]
  have "n * 128 div 4096 = n div 32" "n * 128 mod 4096 = n mod 32 * 128"
    using div_mult2_eq [of "n * 128" 128 32] mult_mod_left [of n 32 128] by simp_all
  then have "x div 4096 = of_nat (n div 32)" "x mod 4096 = of_nat (n mod 32 * 128)" if "unat x = n * 128" for x :: u32
    using that lt v(3) mod_less_divisor [of 32 n] by (simp_all add: word_unat_eq_iff unat_div_distrib unat_mod_distrib unat_word_ariths unat_of_nat del: mod_less_divisor)
  note bo = this [OF m]
  have "s_inodes_per_group (fs_super fs) \<noteq> 0" using lt ipg_def by auto
  then show "inode_place fs ino = Some (itab_block g ino, of_nat (itab_off ino))"
    using g0 i bo v(6-8) by (simp add: inode_place_def Let_def itab_block_def itab_off_def n_def)
  show "itab_off ino + 128 \<le> 4096" using mod_less_divisor [of 32 "unat ino - 1"] by (simp add: itab_off_def del: mod_less_divisor)
qed


lemma ext2_soundD:
  assumes "ext2_sound fs g s"
  shows "mounted fs s" "geometry_ok fs g" "ext2 s = Some fs" "fs_block_size fs = 4096" "group_desc fs 0 = Some g"
    "bg_block_bitmap g < s_blocks_count (fs_super fs)" "bg_inode_bitmap g < s_blocks_count (fs_super fs)"
    "bg_block_bitmap g \<noteq> bg_inode_bitmap g"
  using assms by (simp_all add: ext2_sound_def geometry_ok_def mounted_def)

lemma read_whole_block:
  assumes "mounted fs s" "k < s_blocks_count (fs_super fs)" "length buf = 4096"
  shows "ext2_read_block k buf s = Some (True, eblk fs s k)"
  using ext2_read_block_ok [OF assms(1,2), of buf] assms by (simp add: overwrite_def)

lemma ext2_read_inode_ok:
  assumes "mounted fs s" "geometry_ok fs g" "valid_ino fs ino" "\<And>n. length (junk n) = n"
  shows "ext2_read_inode junk ino inode0 s = Some (True, inode_at fs g s ino)"
proof -
  note pl = inode_place_ok [OF assms(1-3)]
  have "unat (of_nat (itab_off ino) :: u32) = itab_off ino" using pl(4) by (simp add: unat_of_nat)
  then show ?thesis
    using pl read_whole_block [OF assms(1) pl(3), of "junk 4096"] assms(1,4)
    by (simp add: ext2_read_inode_def inode_at_def mounted_def)
qed

text \<open>What \<open>ext2_list_dir\<close> prints for a directory: the name and the number of each of its records in use.\<close>

lemma ext2_list_dir_ok:
  assumes "ext2_sound fs g s" "dir_at fs g s ino b es" "\<And>n. length (junk n) = n"
  shows "ext2_list_dir junk inode0 ino s = Some (dir_names es)"
proof -
  note m = ext2_soundD [OF assms(1)]
  have d: "valid_ino fs ino" "i_block (inode_at fs g s ino) ! 0 = b" "i_size (inode_at fs g s ino) = 4096"
    "b < s_blocks_count (fs_super fs)" "eblk fs s b = dir_block es" "dir_ok es" using assms(2) by (simp_all add: dir_at_def)
  have "list_entries (dir_block es) 4096 0 = Some (dir_names es)"
    using list_entries_ok [of "[]" es] d(6) by (simp add: dir_ok_def)
  then show ?thesis
    using ext2_read_inode_ok [OF m(1,2) d(1) assms(3), of inode0] read_whole_block [OF m(1) d(4), of "junk 4096"] d m(3,4) assms(3)
    by (simp add: ext2_list_dir_def)
qed

lemma sound_put:
  assumes "ext2_sound fs g s" "length d = 4096" "k = bg_block_bitmap g \<Longrightarrow> used_blocks fs g s \<subseteq> used_bits d"
  shows "ext2_sound fs g (put_eblk fs k d s)"
  using assms put_eblk_ok(1) [of fs s d k] put_eblk_ok(3) [of fs s d k "bg_block_bitmap g"] by (auto simp: ext2_sound_def)

lemma ext2_alloc_inode_ok:
  assumes "ext2_sound fs g s" "\<And>n. length (junk n) = n" "\<not> {..<unat (s_inodes_count (fs_super fs))} \<subseteq> used_inodes fs g s"
  obtains i bm where "ext2_alloc_inode junk s = Some (of_nat i + 1, put_eblk fs (bg_inode_bitmap g) bm s)" "length bm = 4096"
    "i < unat (s_inodes_count (fs_super fs))" "i \<notin> used_inodes fs g s" "{..<i} \<subseteq> used_inodes fs g s" "used_bits bm = insert i (used_inodes fs g s)"
proof -
  note m = ext2_soundD [OF assms(1)]
  have "unat (s_inodes_count (fs_super fs)) \<le> 8 * length (eblk fs s (bg_inode_bitmap g))" using m(1,2) by (simp add: geometry_ok_def)
  from alloc_lowest [OF this] assms(3) obtain i bm
    where a: "bit_alloc_loop [0..<unat (s_inodes_count (fs_super fs))] (eblk fs s (bg_inode_bitmap g)) = Some (int i, bm)"
      "i < unat (s_inodes_count (fs_super fs))" "i \<notin> used_inodes fs g s" "{..<i} \<subseteq> used_inodes fs g s"
      "used_bits bm = insert i (used_inodes fs g s)" "length bm = 4096" using m(1) by auto
  have "ext2_alloc_inode junk s = Some (of_nat i + 1, put_eblk fs (bg_inode_bitmap g) bm s)"
    using m read_whole_block [OF m(1,7), of "junk 4096"] assms(2) a ext2_write_block_ok [OF m(1,7) a(6)]
    by (simp add: ext2_alloc_inode_def)
  then show ?thesis using that a by blast
qed

lemma ext2_alloc_block_ok:
  assumes "ext2_sound fs g s" "\<And>n. length (junk n) = n" "\<not> {..<unat (s_blocks_count (fs_super fs))} \<subseteq> used_blocks fs g s"
  obtains i bm where "ext2_alloc_block junk s = Some (of_nat i, put_eblk fs (bg_block_bitmap g) bm s)" "length bm = 4096"
    "i < unat (s_blocks_count (fs_super fs))" "i \<notin> used_blocks fs g s" "{..<i} \<subseteq> used_blocks fs g s" "used_bits bm = insert i (used_blocks fs g s)"
proof -
  note m = ext2_soundD [OF assms(1)]
  have "unat (s_blocks_count (fs_super fs)) \<le> 8 * length (eblk fs s (bg_block_bitmap g))" using m(1,2) by (simp add: geometry_ok_def)
  from alloc_lowest [OF this] assms(3) obtain i bm
    where a: "bit_alloc_loop [0..<unat (s_blocks_count (fs_super fs))] (eblk fs s (bg_block_bitmap g)) = Some (int i, bm)"
      "i < unat (s_blocks_count (fs_super fs))" "i \<notin> used_blocks fs g s" "{..<i} \<subseteq> used_blocks fs g s"
      "used_bits bm = insert i (used_blocks fs g s)" "length bm = 4096" using m(1) by auto
  have "ext2_alloc_block junk s = Some (of_nat i, put_eblk fs (bg_block_bitmap g) bm s)"
    using m read_whole_block [OF m(1,6), of "junk 4096"] assms(2) a ext2_write_block_ok [OF m(1,6) a(6)]
    by (simp add: ext2_alloc_block_def)
  then show ?thesis using that a by blast
qed


section \<open>Making a directory in a sound file system\<close>

definition dot_recs :: "u32 \<Rightarrow> u32 \<Rightarrow> drec list" where
  "dot_recs ino parent = [\<lparr>r_ino = ino, r_type = 2, r_name = [46], r_pad = replicate 3 0\<rparr>,
     \<lparr>r_ino = parent, r_type = 2, r_name = [46, 46], r_pad = replicate 4074 0\<rparr>]"

lemma dot_block: "put_bytes (replicate 4096 0) 0 (dot_entries ino parent 4096) = Some (dir_block (dot_recs ino parent))"
proof -
  have "length (dot_entries ino parent 4096) = 22" by (simp add: dot_entries_def dirent_bytes_def)
  then show ?thesis
    by (simp add: put_bytes_def overwrite_def dot_entries_def dir_block_def dot_recs_def rec_bytes_def rec_len_def)
qed

lemma dot_recs_ok: "dir_ok (dot_recs ino parent)"
  by (simp add: dir_ok_def dot_recs_def rec_ok_def rec_need_def rec_len_def dir_block_def)

lemma dir_ok_split:
  assumes "dir_ok (es1 @ e # es2)" "rec_room e name" "length name < 256"
  shows "dir_ok (es1 @ rec_shrunk e # rec_added e ino name # es2)"
proof -
  have e: "rec_ok e" using assms(1) by (simp add: dir_ok_def)
  have "rec_need e \<le> rec_len e" using e by (simp add: rec_ok_def)
  then have "length (rec_bytes (rec_shrunk e)) + length (rec_bytes (rec_added e ino name)) = length (rec_bytes e)"
    using rec_split(1,2) [OF e assms(2,3)] by simp
  then show ?thesis using assms(1) rec_split(3,4) [OF e assms(2,3)] by (auto simp: dir_ok_def dir_block_def)
qed

lemma dir_names_split:
  "ino \<noteq> 0 \<Longrightarrow> dir_names (es1 @ rec_shrunk e # rec_added e ino name # es2) = dir_names (es1 @ [e]) @ (name, ino) # dir_names es2"
  by (simp add: dir_names_def rec_shrunk_def rec_added_def)

lemma itab_distinct:
  assumes "mounted fs s" "geometry_ok fs g" "valid_ino fs i" "valid_ino fs j" "i \<noteq> j" "itab_block g i = itab_block g j"
  shows "itab_off i + 128 \<le> itab_off j \<or> itab_off j + 128 \<le> itab_off i"
proof -
  have "unat (itab_block g i) = unat (bg_inode_table g) + (unat i - 1) div 32"
    "unat (itab_block g j) = unat (bg_inode_table g) + (unat j - 1) div 32"
    using inode_place_ok(5) [OF assms(1,2)] assms(3,4) by blast+
  then have d: "(unat i - 1) div 32 = (unat j - 1) div 32" using assms(6) by simp
  have "unat i - 1 \<noteq> unat j - 1" using assms(3-5) by (auto simp: valid_ino_def word_unat_eq_iff)
  then have "(unat i - 1) mod 32 \<noteq> (unat j - 1) mod 32" using d by (metis div_mult_mod_eq)
  then consider "(unat i - 1) mod 32 + 1 \<le> (unat j - 1) mod 32" | "(unat j - 1) mod 32 + 1 \<le> (unat i - 1) mod 32" by linarith
  then show ?thesis unfolding itab_off_def by cases linarith+
qed

lemma inode_written:
  assumes "mounted fs s" "mounted fs s'" "geometry_ok fs g" "valid_ino fs ino" "length (i_block n) = 15" "length (i_rest n) = 28"
    and w: "eblk fs s' (itab_block g ino) = overwrite (eblk fs s (itab_block g ino)) (itab_off ino) (inode_bytes n)"
    and o: "\<And>k. in_table fs g k \<Longrightarrow> k \<noteq> itab_block g ino \<Longrightarrow> eblk fs s' k = eblk fs s k"
  shows "inode_at fs g s' ino = n" "valid_ino fs d \<Longrightarrow> d \<noteq> ino \<Longrightarrow> inode_at fs g s' d = inode_at fs g s d"
proof -
  note pl = inode_place_ok [OF assms(1,3,4)]
  have len: "length (inode_bytes n) = 128" using assms(5,6) by (rule length_inode_bytes)
  show "inode_at fs g s' ino = n"
    using pl(4) len assms(1,5,6) inode_roundtrip [of n] by (simp add: inode_at_def w bslice_overwrite_same)
  assume d: "valid_ino fs d" "d \<noteq> ino"
  note pd = inode_place_ok [OF assms(1,3) d(1)]
  show "inode_at fs g s' d = inode_at fs g s d"
  proof (cases "itab_block g d = itab_block g ino")
    case True
    have "itab_off d + 128 \<le> itab_off ino \<or> itab_off ino + 128 \<le> itab_off d"
      using itab_distinct [OF assms(1,3) d(1) assms(4) d(2) True] .
    then have "bslice (itab_off d) 128 (overwrite (eblk fs s (itab_block g ino)) (itab_off ino) (inode_bytes n))
      = bslice (itab_off d) 128 (eblk fs s (itab_block g ino))"
      using pl(4) pd(4) len assms(1) by (intro bslice_overwrite_other) auto
    then show ?thesis by (simp add: inode_at_def True w)
  next
    case False
    then show ?thesis using o [OF pd(2)] by (simp add: inode_at_def)
  qed
qed

lemma dir_at_keep:
  assumes "dir_at fs g s d b es" "used_inodes fs g s \<subseteq> used_inodes fs g s'" "used_blocks fs g s \<subseteq> used_blocks fs g s'"
    "inode_at fs g s' d = inode_at fs g s d" "eblk fs s' b = dir_block es'" "dir_ok es'"
  shows "dir_at fs g s' d b es'"
  using assms by (auto simp: dir_at_def)


lemma eblk_put: "mounted fs s \<Longrightarrow> length d = 4096 \<Longrightarrow> eblk fs (put_eblk fs k d s) = (eblk fs s)(k := d)"
  using put_eblk_ok(3) by fastforce

lemma length_dir_inode [simp]:
  "length (i_block (dir_inode sz nb)) = 15" "length (i_rest (dir_inode sz nb)) = 28" "i_block (dir_inode sz nb) ! 0 = nb"
  "i_size (dir_inode sz nb) = sz"
  by (simp_all add: dir_inode_def zero_inode_def)

text \<open>The blocks after a run: the two bitmaps, the inode, the block of the new directory and the one of its parent.\<close>

definition created :: "ext2_fs_t \<Rightarrow> ext2_group_desc_t \<Rightarrow> ext2_sys \<Rightarrow> bytes \<Rightarrow> bytes \<Rightarrow> u32 \<Rightarrow> u32 \<Rightarrow> u32 \<Rightarrow> u32 \<Rightarrow> drec list
    \<Rightarrow> u32 \<Rightarrow> bytes" where
  "created fs g s bi bk ino nb parent b es =
     (eblk fs s)(bg_inode_bitmap g := bi, bg_block_bitmap g := bk,
        itab_block g ino := overwrite (eblk fs s (itab_block g ino)) (itab_off ino) (inode_bytes (dir_inode 4096 nb)),
        nb := dir_block (dot_recs ino parent), b := dir_block es)"

lemma alloc_both:
  assumes S: "ext2_sound fs g s" and J: "\<And>n. length (junk n) = n"
    and free: "\<not> {..<unat (s_inodes_count (fs_super fs))} \<subseteq> used_inodes fs g s"
      "\<not> {..<unat (s_blocks_count (fs_super fs))} \<subseteq> used_blocks fs g s"
  obtains ino nb bi bk s1 s2 where "ext2_alloc_inode junk s = Some (ino, s1)" "ext2_alloc_block junk s1 = Some (nb, s2)"
    "valid_ino fs ino" "unat ino - 1 \<notin> used_inodes fs g s" "used_bits bi = insert (unat ino - 1) (used_inodes fs g s)"
    "nb < s_blocks_count (fs_super fs)" "unat nb \<notin> used_blocks fs g s" "used_bits bk = insert (unat nb) (used_blocks fs g s)"
    "ext2_sound fs g s2" "eblk fs s2 = (eblk fs s)(bg_inode_bitmap g := bi, bg_block_bitmap g := bk)"
proof -
  note m = ext2_soundD [OF S]
  obtain i bi where A: "ext2_alloc_inode junk s = Some (of_nat i + 1, put_eblk fs (bg_inode_bitmap g) bi s)" "length bi = 4096"
    "i < unat (s_inodes_count (fs_super fs))" "i \<notin> used_inodes fs g s" "{..<i} \<subseteq> used_inodes fs g s"
    "used_bits bi = insert i (used_inodes fs g s)" by (rule ext2_alloc_inode_ok [OF S J free(1)])
  define s1 where "s1 = put_eblk fs (bg_inode_bitmap g) bi s"
  have S1: "ext2_sound fs g s1" unfolding s1_def using sound_put [OF S A(2)] m(8) by simp
  have E1: "eblk fs s1 = (eblk fs s)(bg_inode_bitmap g := bi)" unfolding s1_def using eblk_put [OF m(1) A(2)] .
  have "\<not> {..<unat (s_blocks_count (fs_super fs))} \<subseteq> used_blocks fs g s1" using free(2) m(8) by (simp add: E1)
  then obtain k bk where B: "ext2_alloc_block junk s1 = Some (of_nat k, put_eblk fs (bg_block_bitmap g) bk s1)" "length bk = 4096"
    "k < unat (s_blocks_count (fs_super fs))" "k \<notin> used_blocks fs g s1" "{..<k} \<subseteq> used_blocks fs g s1"
    "used_bits bk = insert k (used_blocks fs g s1)" by (rule ext2_alloc_block_ok [OF S1 J])
  define s2 where "s2 = put_eblk fs (bg_block_bitmap g) bk s1"
  have "ext2_sound fs g s2" unfolding s2_def by (rule sound_put [OF S1 B(2)]) (use B(6) in blast)
  moreover have "eblk fs s2 = (eblk fs s)(bg_inode_bitmap g := bi, bg_block_bitmap g := bk)"
    unfolding s2_def using eblk_put [OF _ B(2)] ext2_soundD(1) [OF S1] E1 by simp
  moreover have lim: "unat (s_blocks_count (fs_super fs)) \<le> 32768" "unat (s_inodes_count (fs_super fs)) \<le> 32768"
    using m(2) by (simp_all add: geometry_ok_def)
  moreover have ino: "unat (of_nat i + 1 :: u32) = i + 1" using A(3) lim by (simp add: unat_word_ariths unat_of_nat)
  moreover have nb: "unat (of_nat k :: u32) = k" using B(3) lim by (simp add: unat_of_nat)
  moreover have "valid_ino fs (of_nat i + 1)" using ino A(3) by (simp add: valid_ino_def)
  ultimately show ?thesis
    using that [of "of_nat i + 1" s1 "of_nat k" s2 bi bk] A(1,4,6) B(1,3,4,6) m(8) by (simp add: s1_def [symmetric] s2_def [symmetric] E1 word_less_nat_alt)
qed

lemma write_new_dir:
  assumes M: "mounted fs s" "geometry_ok fs g" and V: "valid_ino fs ino" and nb: "nb < s_blocks_count (fs_super fs)" "\<not> in_table fs g nb"
    and J: "\<And>n. length (junk n) = n"
  obtains s3 s4 where
    "ext2_read_block (itab_block g ino) (junk 4096) s = Some (True, eblk fs s (itab_block g ino))"
    "put_bytes (eblk fs s (itab_block g ino)) (unat (of_nat (itab_off ino) :: u32)) (inode_bytes (dir_inode 4096 nb))
      = Some (overwrite (eblk fs s (itab_block g ino)) (itab_off ino) (inode_bytes (dir_inode 4096 nb)))"
    "ext2_write_block (itab_block g ino) (overwrite (eblk fs s (itab_block g ino)) (itab_off ino) (inode_bytes (dir_inode 4096 nb))) s
      = Some (True, s3)"
    "ext2_write_block nb (dir_block (dot_recs ino parent)) s3 = Some (True, s4)" "mounted fs s4"
    "eblk fs s4 = (eblk fs s)(itab_block g ino := overwrite (eblk fs s (itab_block g ino)) (itab_off ino) (inode_bytes (dir_inode 4096 nb)),
       nb := dir_block (dot_recs ino parent))"
proof -
  define it where "it = itab_block g ino"
  define ibuf where "ibuf = overwrite (eblk fs s it) (itab_off ino) (inode_bytes (dir_inode 4096 nb))"
  define db where "db = dir_block (dot_recs ino parent)"
  note pl = inode_place_ok [OF M V, folded it_def]
  have li: "length (inode_bytes (dir_inode 4096 nb)) = 128" by (rule length_inode_bytes) simp_all
  have Lb: "length ibuf = 4096" unfolding ibuf_def using pl(4) li M(1) by simp
  have "unat (of_nat (itab_off ino) :: u32) = itab_off ino" using pl(4) by (simp add: unat_of_nat)
  then have P3: "put_bytes (eblk fs s it) (unat (of_nat (itab_off ino) :: u32)) (inode_bytes (dir_inode 4096 nb)) = Some ibuf"
    using pl(4) li M(1) by (simp add: put_bytes_def ibuf_def)
  define s3 where "s3 = put_eblk fs it ibuf s"
  have M3: "mounted fs s3" unfolding s3_def by (rule put_eblk_ok(1) [OF M(1) Lb])
  have Ld: "length db = 4096" using dot_recs_ok by (simp add: db_def dir_ok_def)
  define s4 where "s4 = put_eblk fs nb db s3"
  have E4: "eblk fs s4 = (eblk fs s)(it := ibuf, nb := db)"
    unfolding s4_def s3_def using eblk_put [OF M(1) Lb] eblk_put [OF M3 [unfolded s3_def] Ld] by simp
  have "ext2_read_block it (junk 4096) s = Some (True, eblk fs s it)" using read_whole_block [OF M(1) pl(3)] J by simp
  moreover note P3
  moreover have "ext2_write_block it ibuf s = Some (True, s3)" unfolding s3_def by (rule ext2_write_block_ok [OF M(1) pl(3) Lb])
  moreover have "ext2_write_block nb db s3 = Some (True, s4)" unfolding s4_def by (rule ext2_write_block_ok [OF M3 nb(1) Ld])
  moreover have "mounted fs s4" unfolding s4_def by (rule put_eblk_ok(1) [OF M3 Ld])
  ultimately show ?thesis using E4 unfolding it_def ibuf_def db_def by (rule that)
qed

lemma create_dir_run:
  assumes S: "ext2_sound fs g s" and D: "dir_at fs g s parent b (es1 @ e # es2)" and F: "\<forall>x\<in>set es1. rec_full x"
    and R: "rec_room e name" "length name < 256" and J: "\<And>n. length (junk n) = n"
    and free: "\<not> {..<unat (s_inodes_count (fs_super fs))} \<subseteq> used_inodes fs g s"
      "\<not> {..<unat (s_blocks_count (fs_super fs))} \<subseteq> used_blocks fs g s"
  obtains ino nb bi bk s' where "ext2_create_dir junk inode0 parent name s = Some (True, s')"
    "valid_ino fs ino" "unat ino - 1 \<notin> used_inodes fs g s" "used_bits bi = insert (unat ino - 1) (used_inodes fs g s)"
    "nb < s_blocks_count (fs_super fs)" "unat nb \<notin> used_blocks fs g s" "used_bits bk = insert (unat nb) (used_blocks fs g s)"
    "mounted fs s'" "eblk fs s' = created fs g s bi bk ino nb parent b (es1 @ rec_shrunk e # rec_added e ino name # es2)"
proof -
  note m = ext2_soundD [OF S]
  obtain ino nb bi bk s1 s2 where A: "ext2_alloc_inode junk s = Some (ino, s1)" "ext2_alloc_block junk s1 = Some (nb, s2)"
    "valid_ino fs ino" "unat ino - 1 \<notin> used_inodes fs g s" "used_bits bi = insert (unat ino - 1) (used_inodes fs g s)"
    "nb < s_blocks_count (fs_super fs)" "unat nb \<notin> used_blocks fs g s" "used_bits bk = insert (unat nb) (used_blocks fs g s)"
    "ext2_sound fs g s2" "eblk fs s2 = (eblk fs s)(bg_inode_bitmap g := bi, bg_block_bitmap g := bk)"
    by (rule alloc_both [OF S J free])
  note m2 = ext2_soundD [OF A(9)] and pl = inode_place_ok [OF m(1,2) A(3)]
  have nb: "nb \<noteq> 0" "\<not> meta_block fs g nb" using A(7) S by (auto simp: ext2_sound_def)
  then have nbt: "\<not> in_table fs g nb" by (simp add: meta_block_def)
  have itm: "itab_block g ino \<noteq> bg_inode_bitmap g" "itab_block g ino \<noteq> bg_block_bitmap g" "itab_block g ino \<noteq> nb"
    using pl(2) m(2) nb(2) by (auto simp: geometry_ok_def meta_block_def)
  then have E2i: "eblk fs s2 (itab_block g ino) = eblk fs s (itab_block g ino)" by (simp add: A(10))
  obtain s3 s4 where W: "ext2_read_block (itab_block g ino) (junk 4096) s2 = Some (True, eblk fs s (itab_block g ino))"
    "put_bytes (eblk fs s (itab_block g ino)) (unat (of_nat (itab_off ino) :: u32)) (inode_bytes (dir_inode 4096 nb))
      = Some (overwrite (eblk fs s (itab_block g ino)) (itab_off ino) (inode_bytes (dir_inode 4096 nb)))"
    "ext2_write_block (itab_block g ino) (overwrite (eblk fs s (itab_block g ino)) (itab_off ino) (inode_bytes (dir_inode 4096 nb))) s2
      = Some (True, s3)"
    "ext2_write_block nb (dir_block (dot_recs ino parent)) s3 = Some (True, s4)" "mounted fs s4"
    "eblk fs s4 = (eblk fs s2)(itab_block g ino := overwrite (eblk fs s (itab_block g ino)) (itab_off ino) (inode_bytes (dir_inode 4096 nb)),
       nb := dir_block (dot_recs ino parent))"
    by (rule write_new_dir [OF m2(1,2) A(3,6) nbt J, where parent = parent, unfolded E2i])
  have d: "valid_ino fs parent" "unat parent - 1 \<in> used_inodes fs g s" "i_block (inode_at fs g s parent) ! 0 = b"
    "b < s_blocks_count (fs_super fs)" "unat b \<in> used_blocks fs g s" "\<not> meta_block fs g b"
    "eblk fs s b = dir_block (es1 @ e # es2)" "dir_ok (es1 @ e # es2)" using D by (simp_all add: dir_at_def)
  have pi: "parent \<noteq> ino" using d(2) A(4) by auto
  have "inode_at fs g s4 parent = inode_at fs g s parent"
    by (rule inode_written(2) [OF m(1) W(5) m(2) A(3) _ _ _ _ d(1) pi, where n = "dir_inode 4096 nb"])
      (use itm nb(2) m(2) in \<open>auto simp: W(6) A(10) meta_block_def geometry_ok_def\<close>)
  then have R4: "ext2_read_inode junk parent inode0 s4 = Some (True, inode_at fs g s parent)"
    using ext2_read_inode_ok [OF W(5) m(2) d(1) J, of inode0] by simp
  have "b \<noteq> itab_block g ino" "b \<noteq> nb" "b \<noteq> bg_inode_bitmap g" "b \<noteq> bg_block_bitmap g"
    using d(5,6) A(7) pl(2) by (auto simp: meta_block_def)
  then have R5: "ext2_read_block b (junk 4096) s4 = Some (True, dir_block (es1 @ e # es2))"
    using read_whole_block [OF W(5) d(4), of "junk 4096"] J d(7) by (simp add: W(6) A(10))
  define nd where "nd = dir_block (es1 @ rec_shrunk e # rec_added e ino name # es2)"
  have P5: "add_entry 4096 ino name 0 (dir_block (es1 @ e # es2)) = Some (Some nd)"
    using add_entry_ok [of "[]" es1 e es2 name ino] d(8) F R by (simp add: dir_ok_def nd_def)
  have Ln: "length nd = 4096" using dir_ok_split [OF d(8) R] by (simp add: nd_def dir_ok_def)
  have "ino \<noteq> 0" using A(3) by (auto simp: valid_ino_def)
  then have "ext2_create_dir junk inode0 parent name s = Some (True, put_eblk fs b nd s4)"
    using A(1,2) nb(1) m2(3,4) pl(1) W(1-4) R4 R5 P5 ext2_write_block_ok [OF W(5) d(4) Ln] dot_block [of ino parent] d(3)
    by (simp add: ext2_create_dir_def)
  moreover have "eblk fs (put_eblk fs b nd s4) = created fs g s bi bk ino nb parent b (es1 @ rec_shrunk e # rec_added e ino name # es2)"
    using eblk_put [OF W(5) Ln, of b] by (simp add: created_def W(6) A(10) nd_def)
  ultimately show ?thesis using that A(3-8) put_eblk_ok(1) [OF W(5) Ln] by blast
qed

text \<open>
  C11. A directory that is made is found. In a sound file system of one group with a free inode and a free block, where the
  first record of the parent directory that is not full has room for the new name, \<open>ext2_create_dir\<close> returns true and leaves a
  sound file system. It takes one inode and one block that were free and nothing else; \<open>ext2_list_dir\<close> on the parent
  shows what it showed before and the new name with its number, on the new directory the two entries for itself and for its parent;
  every other directory with a block of its own is as it was.
\<close>

theorem ext2_create_dir_listed:
  assumes "ext2_sound fs g s" "dir_at fs g s parent b (es1 @ e # es2)" "\<forall>x\<in>set es1. rec_full x"
    and "rec_room e name" "length name < 256" "\<And>n. length (junk n) = n"
    and "\<not> {..<unat (s_inodes_count (fs_super fs))} \<subseteq> used_inodes fs g s"
      "\<not> {..<unat (s_blocks_count (fs_super fs))} \<subseteq> used_blocks fs g s"
  shows "\<exists>ino nb s'. ext2_create_dir junk inode0 parent name s = Some (True, s') \<and> ext2_sound fs g s'
    \<and> unat ino - 1 \<notin> used_inodes fs g s \<and> used_inodes fs g s' = insert (unat ino - 1) (used_inodes fs g s)
    \<and> unat nb \<notin> used_blocks fs g s \<and> used_blocks fs g s' = insert (unat nb) (used_blocks fs g s)
    \<and> dir_at fs g s' parent b (es1 @ rec_shrunk e # rec_added e ino name # es2) \<and> dir_at fs g s' ino nb (dot_recs ino parent)
    \<and> ext2_list_dir junk inode0 parent s = Some (dir_names (es1 @ [e]) @ dir_names es2)
    \<and> ext2_list_dir junk inode0 parent s' = Some (dir_names (es1 @ [e]) @ (name, ino) # dir_names es2)
    \<and> ext2_list_dir junk inode0 ino s' = Some [([46], ino), ([46, 46], parent)]
    \<and> (\<forall>d bd ed. dir_at fs g s d bd ed \<and> bd \<noteq> b \<longrightarrow> dir_at fs g s' d bd ed)"
proof -
  note m = ext2_soundD [OF assms(1)]
  define es' where "es' ino = es1 @ rec_shrunk e # rec_added e ino name # es2" for ino
  obtain ino nb bi bk s' where A: "ext2_create_dir junk inode0 parent name s = Some (True, s')"
    "valid_ino fs ino" "unat ino - 1 \<notin> used_inodes fs g s" "used_bits bi = insert (unat ino - 1) (used_inodes fs g s)"
    "nb < s_blocks_count (fs_super fs)" "unat nb \<notin> used_blocks fs g s" "used_bits bk = insert (unat nb) (used_blocks fs g s)"
    "mounted fs s'" "eblk fs s' = created fs g s bi bk ino nb parent b (es' ino)"
    unfolding es'_def by (rule create_dir_run [OF assms])
  note pl = inode_place_ok [OF m(1,2) A(2)]
  have d: "valid_ino fs parent" "unat parent - 1 \<in> used_inodes fs g s" "unat b \<in> used_blocks fs g s" "\<not> meta_block fs g b" "dir_ok (es1 @ e # es2)"
    using assms(2) by (simp_all add: dir_at_def)
  have nb: "\<not> meta_block fs g nb" "nb \<noteq> b" using A(6) assms(1) d(3) by (auto simp: ext2_sound_def)
  have E: "eblk fs s' (bg_inode_bitmap g) = bi" "eblk fs s' (bg_block_bitmap g) = bk"
    "eblk fs s' (itab_block g ino) = overwrite (eblk fs s (itab_block g ino)) (itab_off ino) (inode_bytes (dir_inode 4096 nb))"
    "eblk fs s' nb = dir_block (dot_recs ino parent)" "eblk fs s' b = dir_block (es' ino)"
    "\<And>k. in_table fs g k \<Longrightarrow> k \<noteq> itab_block g ino \<Longrightarrow> eblk fs s' k = eblk fs s k"
    using d(4) nb m(2) pl(2) by (auto simp: A(9) created_def meta_block_def geometry_ok_def)
  have U: "used_inodes fs g s' = insert (unat ino - 1) (used_inodes fs g s)" "used_blocks fs g s' = insert (unat nb) (used_blocks fs g s)"
    using A(4,7) E(1,2) by simp_all
  note I = inode_written [OF m(1) A(8) m(2) A(2) length_dir_inode(1,2) E(3,6)]
  have S': "ext2_sound fs g s'" using assms(1) A(8) U(2) by (simp add: ext2_sound_def)
  have ne: "k \<noteq> ino" if "unat k - 1 \<in> used_inodes fs g s" for k using that A(3) by auto
  have K: "dir_at fs g s' x bx ex'" if "dir_at fs g s x bx ex" "eblk fs s' bx = dir_block ex'" "dir_ok ex'" for x bx ex ex'
    by (rule dir_at_keep [OF that(1) _ _ _ that(2,3)]) (use that(1) I(2) ne U in \<open>auto simp: dir_at_def\<close>)
  have P: "dir_at fs g s' parent b (es' ino)"
    by (rule K [OF assms(2) E(5)]) (use dir_ok_split [OF d(5) assms(4,5)] in \<open>simp add: es'_def\<close>)
  have N: "dir_at fs g s' ino nb (dot_recs ino parent)"
    unfolding dir_at_def using A(2,5) U nb(1) I(1) E(4) dot_recs_ok by simp
  have O: "dir_at fs g s' x bx ex" if "dir_at fs g s x bx ex" "bx \<noteq> b" for x bx ex
  proof (rule K [OF that(1)])
    have "bx \<noteq> nb" "\<not> meta_block fs g bx" "eblk fs s bx = dir_block ex" using that(1) A(6) by (auto simp: dir_at_def)
    then show "eblk fs s' bx = dir_block ex" using that(2) pl(2) by (auto simp: A(9) created_def meta_block_def)
  qed (use that in \<open>simp add: dir_at_def\<close>)
  have z: "ino \<noteq> 0" "parent \<noteq> 0" using A(2) d(1) by (auto simp: valid_ino_def)
  have "dir_names (dot_recs ino parent) = [([46], ino), ([46, 46], parent)]" using z by (simp add: dir_names_def dot_recs_def)
  moreover have "dir_names (es1 @ e # es2) = dir_names (es1 @ [e]) @ dir_names es2" by (simp add: dir_names_def)
  ultimately show ?thesis
    using A(1,3,6) U S' P N O ext2_list_dir_ok [OF assms(1,2,6), of inode0] ext2_list_dir_ok [OF S' P assms(6), of inode0]
      ext2_list_dir_ok [OF S' N assms(6), of inode0] dir_names_split [OF z(1)]
    unfolding es'_def by (intro exI [of _ ino] exI [of _ nb] exI [of _ s']) auto
qed


text \<open>A file system of 8 blocks and 32 inodes on the sample disk, with an empty root directory in block 5.\<close>

definition sample_ext2_fs :: ext2_fs_t where
  "sample_ext2_fs = \<lparr>fs_disk_no = 0, fs_start_lba = 0, fs_block_size = 4096,
     fs_super = zero_super\<lparr>s_inodes_count := 32, s_blocks_count := 8, s_inodes_per_group := 32, s_inode_size := 128\<rparr>,
     fs_groups = Some (group_bytes \<lparr>bg_block_bitmap = 2, bg_inode_bitmap = 3, bg_inode_table = 4, bg_free_blocks_count = 2,
        bg_free_inodes_count = 30, bg_used_dirs_count = 1\<rparr>)\<rparr>"

definition sample_group :: ext2_group_desc_t where
  "sample_group = \<lparr>bg_block_bitmap = 2, bg_inode_bitmap = 3, bg_inode_table = 4, bg_free_blocks_count = 2,
     bg_free_inodes_count = 30, bg_used_dirs_count = 1\<rparr>"

definition sample_empty :: ext2_sys where
  "sample_empty = disk_sys.extend (sample_sys True) \<lparr>EXT2_START_LBA = 0, ext2 = Some sample_ext2_fs\<rparr>"

definition sample_ext2 :: ext2_sys where
  "sample_ext2 = put_eblk sample_ext2_fs 5 (dir_block (dot_recs 2 2))
     (put_eblk sample_ext2_fs 4 (overwrite (replicate 4096 0) 128 (inode_bytes (dir_inode 4096 5)))
     (put_eblk sample_ext2_fs 3 (block_of [0x03]) (put_eblk sample_ext2_fs 2 (block_of [0x3F]) sample_empty)))"

lemma sample_empty_dev: "dev_ok 0 sample_empty" "dev_cap 0 sample_empty = 300" "disk_malloc_ok sample_empty n"
proof -
  have "get_disk 0 sample_empty = Some (sample_disk True)" by (simp add: get_disk_def sample_empty_def sample_sys_def disk_sys.extend_def)
  then have "sata_dev 0 sample_empty = Some 0" unfolding sata_dev_def
    by (simp add: sample_disk_def sample_empty_def sample_sys_def disk_sys.extend_def)
  then have d: "dev_drive 0 sample_empty = sample_drive" "sata_dev 0 sample_empty \<noteq> None"
    unfolding dev_drive_def by (simp_all add: sample_empty_def sample_sys_def disk_sys.extend_def)
  then show "dev_ok 0 sample_empty" "dev_cap 0 sample_empty = 300"
    using \<open>get_disk 0 sample_empty = _\<close> unfolding dev_ok_def dev_cap_def d sample_total
    by (simp_all add: sample_disk_def drive_ok_def sample_drive_def MAX_BATCH_SIZE_def)
  show "disk_malloc_ok sample_empty n" by (simp add: sample_empty_def sample_sys_def disk_sys.extend_def)
qed

lemma sample_empty_mounted: "mounted sample_ext2_fs sample_empty"
  using sample_empty_dev by (simp add: mounted_def) (simp add: sample_empty_def sample_ext2_fs_def disk_sys.extend_def)

lemma sample_ext2_blocks:
  "mounted sample_ext2_fs sample_ext2" "eblk sample_ext2_fs sample_ext2 2 = block_of [0x3F]" "eblk sample_ext2_fs sample_ext2 3 = block_of [0x03]"
  "eblk sample_ext2_fs sample_ext2 4 = overwrite (replicate 4096 0) 128 (inode_bytes (dir_inode 4096 5))"
  "eblk sample_ext2_fs sample_ext2 5 = dir_block (dot_recs 2 2)"
proof -
  have l: "length (block_of [x]) = 4096" for x by (simp add: block_of_def EXT2_BLOCK_SIZE_def)
  have i: "length (overwrite (replicate 4096 0) 128 (inode_bytes (dir_inode 4096 5))) = 4096"
    using length_inode_bytes [of "dir_inode 4096 5"] by simp
  have d: "length (dir_block (dot_recs 2 2)) = 4096" using dot_recs_ok by (simp add: dir_ok_def)
  note m = sample_empty_mounted
  note m1 = put_eblk_ok(1) [OF m l [of "0x3F"], of 2]
  note m2 = put_eblk_ok(1) [OF m1 l [of "0x03"], of 3]
  note m3 = put_eblk_ok(1) [OF m2 i, of 4]
  show "mounted sample_ext2_fs sample_ext2" unfolding sample_ext2_def by (rule put_eblk_ok(1) [OF m3 d])
  show "eblk sample_ext2_fs sample_ext2 2 = block_of [0x3F]" "eblk sample_ext2_fs sample_ext2 3 = block_of [0x03]"
    "eblk sample_ext2_fs sample_ext2 4 = overwrite (replicate 4096 0) 128 (inode_bytes (dir_inode 4096 5))"
    "eblk sample_ext2_fs sample_ext2 5 = dir_block (dot_recs 2 2)"
    unfolding sample_ext2_def eblk_put [OF m3 d] eblk_put [OF m2 i] eblk_put [OF m1 l] eblk_put [OF m l] by simp_all
qed

lemma used_bits_block:
  "k < 8 \<Longrightarrow> k \<in> used_bits (block_of [x]) \<longleftrightarrow> bit x k"
  "8 \<le> k \<Longrightarrow> k \<notin> used_bits (block_of [x])"
  by (auto simp: used_bits_def block_of_def nth_append EXT2_BLOCK_SIZE_def nth_Cons')


lemma sample_ext2_sound: "ext2_sound sample_ext2_fs sample_group sample_ext2"
proof -
  have g: "geometry_ok sample_ext2_fs sample_group"
    using group_roundtrip [of sample_group "[]"]
    by (simp add: geometry_ok_def sample_ext2_fs_def sample_group_def group_desc_def in_table_def bslice_def)
  have b: "bit (0x3F :: u8) k" if "k \<in> {0, 2, 3, 4}" for k using that by auto
  have u: "k \<in> used_bits (block_of [0x3F])" if "k \<in> {0, 2, 3, 4}" for k using used_bits_block(1) [of k "0x3F"] b [OF that] that by auto
  have "unat k \<in> {0, 2, 3, 4}" if "meta_block sample_ext2_fs sample_group k" for k
    using that by (auto simp: meta_block_def in_table_def sample_group_def sample_ext2_fs_def)
  then show ?thesis using sample_ext2_blocks g u by (simp add: ext2_sound_def sample_group_def)
qed

lemma sample_root: "dir_at sample_ext2_fs sample_group sample_ext2 2 5 (dot_recs 2 2)"
proof -
  have "inode_at sample_ext2_fs sample_group sample_ext2 2 = dir_inode 4096 5"
    using length_inode_bytes [of "dir_inode 4096 5"] inode_roundtrip [of "dir_inode 4096 5"] sample_ext2_blocks(4)
    by (simp add: inode_at_def itab_off_def itab_block_def sample_group_def bslice_overwrite_same)
  moreover have "bit (0x3F :: u8) 5" "bit (0x03 :: u8) 1" by simp_all
  ultimately show ?thesis
    using sample_ext2_blocks dot_recs_ok [of 2 2] used_bits_block(1) [of 5 "0x3F"] used_bits_block(1) [of 1 "0x03"]
    by (simp add: dir_at_def valid_ino_def meta_block_def in_table_def sample_group_def sample_ext2_fs_def)
qed

theorem ext2_create_dir_listed_witness:
  "\<exists>ino s'. ext2_create_dir (\<lambda>n. replicate n 0) zero_inode 2 [97] sample_ext2 = Some (True, s')
     \<and> ext2_list_dir (\<lambda>n. replicate n 0) zero_inode 2 s' = Some [([46], 2), ([46, 46], 2), ([97], ino)]
     \<and> ext2_list_dir (\<lambda>n. replicate n 0) zero_inode ino s' = Some [([46], ino), ([46, 46], 2)]"
proof -
  define e1 e2 where "e1 = hd (dot_recs 2 2)" and "e2 = last (dot_recs 2 2)"
  have es: "dot_recs 2 2 = [e1] @ e2 # []" by (simp add: e1_def e2_def dot_recs_def)
  have n: "dir_names ([e1] @ [e2]) = [([46], 2), ([46, 46], 2)]" "dir_names [] = []"
    by (simp_all add: dir_names_def e1_def e2_def dot_recs_def)
  have f: "\<forall>x\<in>set [e1]. rec_full x" "rec_room e2 [97]"
    by (simp_all add: rec_full_def rec_room_def rec_len_def rec_need_def e1_def e2_def dot_recs_def)
  have i: "5 \<notin> used_inodes sample_ext2_fs sample_group sample_ext2" "6 \<notin> used_blocks sample_ext2_fs sample_group sample_ext2"
    using sample_ext2_blocks used_bits_block(1) [of 5 "0x03"] used_bits_block(1) [of 6 "0x3F"] by (simp_all add: sample_group_def)
  have "5 \<in> {..<unat (s_inodes_count (fs_super sample_ext2_fs))}" "6 \<in> {..<unat (s_blocks_count (fs_super sample_ext2_fs))}"
    by (simp_all add: sample_ext2_fs_def)
  with i have "\<not> {..<unat (s_inodes_count (fs_super sample_ext2_fs))} \<subseteq> used_inodes sample_ext2_fs sample_group sample_ext2"
    "\<not> {..<unat (s_blocks_count (fs_super sample_ext2_fs))} \<subseteq> used_blocks sample_ext2_fs sample_group sample_ext2" by blast+
  from ext2_create_dir_listed [OF sample_ext2_sound sample_root [unfolded es] f _ _ this, of "\<lambda>n. replicate n 0" zero_inode] n
  show ?thesis by auto
qed

section \<open>Runs that go wrong\<close>

lemma disk_read_short:
  assumes "dev_ok no s" "0 < unat count" "unat lba + unat count \<le> dev_cap no s" "length buf < unat count * 512"
  shows "kebla_disk_read no lba count buf s = None"
proof (rule dev_okE [OF assms(1)])
  fix port d ds
  assume d: "sata_dev no s = Some port" "get_disk no s = Some d" "disks s = Some ds"
    "d_type d = DISK_TYPE_AHCI_SATA" "no < disk_count s" "d_context d = Some port"
    "unat (sata_get_total_sectors (drives s port)) \<le> 2 ^ 48" "dev_drive no s = drives s port"
  have r: "unat lba + unat count \<le> unat (sata_get_total_sectors (drives s port))" using assms(3) d by (simp add: dev_cap_def)
  then have "\<not> lba + ucast count > sata_get_total_sectors (drives s port)"
    using d by (simp add: unat_lba_count word_less_nat_alt)
  moreover have "sata_get_total_sectors (drives s port) \<noteq> 0" "count \<noteq> 0" using r assms(2) by auto
  ultimately show ?thesis using d assms(4) by (simp add: kebla_disk_read_def sata_read_def Let_def)
qed

text \<open>When no block is free, the inode that was taken for the new directory stays marked.\<close>

lemma create_dir_leaks_inode:
  assumes "ext2_sound fs g s" "\<And>n. length (junk n) = n"
    and "\<not> {..<unat (s_inodes_count (fs_super fs))} \<subseteq> used_inodes fs g s" "{..<unat (s_blocks_count (fs_super fs))} \<subseteq> used_blocks fs g s"
  shows "\<exists>i s'. ext2_create_dir junk inode0 parent name s = Some (False, s') \<and> i \<notin> used_inodes fs g s
    \<and> used_inodes fs g s' = insert i (used_inodes fs g s)"
proof -
  note m = ext2_soundD [OF assms(1)]
  obtain i bi where A: "ext2_alloc_inode junk s = Some (of_nat i + 1, put_eblk fs (bg_inode_bitmap g) bi s)" "length bi = 4096"
    "i < unat (s_inodes_count (fs_super fs))" "i \<notin> used_inodes fs g s" "{..<i} \<subseteq> used_inodes fs g s"
    "used_bits bi = insert i (used_inodes fs g s)" by (rule ext2_alloc_inode_ok [OF assms(1-3)])
  define s1 where "s1 = put_eblk fs (bg_inode_bitmap g) bi s"
  have S1: "ext2_sound fs g s1" unfolding s1_def using sound_put [OF assms(1) A(2)] m(8) by simp
  have E1: "eblk fs s1 = (eblk fs s)(bg_inode_bitmap g := bi)" unfolding s1_def using eblk_put [OF m(1) A(2)] .
  note m1 = ext2_soundD [OF S1]
  have "unat (s_blocks_count (fs_super fs)) \<le> 8 * length (eblk fs s (bg_block_bitmap g))" using m(1,2) by (simp add: geometry_ok_def)
  from alloc_lowest [OF this] assms(4)
  have "bit_alloc_loop [0..<unat (s_blocks_count (fs_super fs))] (eblk fs s (bg_block_bitmap g)) = Some (-1, eblk fs s (bg_block_bitmap g))"
    by simp
  then have "ext2_alloc_block junk s1 = Some (0, s1)"
    using m1 m(8) read_whole_block [OF m1(1,6), of "junk 4096"] assms(2) by (simp add: ext2_alloc_block_def E1)
  then have "ext2_create_dir junk inode0 parent name s = Some (False, s1)" using A(1) by (simp add: ext2_create_dir_def s1_def)
  then show ?thesis using A(4,6) E1 by auto
qed


section \<open>Reading a file\<close>

lemma block_loop_ok:
  assumes "mounted fs s" "\<forall>b\<in>set bs. b \<noteq> 0 \<and> b < s_blocks_count (fs_super fs)" "off + 4096 * length bs \<le> length buf"
    "off + 4096 * length bs < 2 ^ 32"
  shows "block_loop (bs @ rest) 4096 (of_nat (4096 * length bs)) (of_nat off) buf s
    = Some (0, of_nat (off + 4096 * length bs), overwrite buf off (concat (map (eblk fs s) bs)))"
  using assms(2-4)
proof (induction bs arbitrary: off buf)
  case Nil
  then show ?case by (cases rest) simp_all
next
  case (Cons b bs)
  have b: "b \<noteq> 0" "b < s_blocks_count (fs_super fs)" using Cons.prems(1) by simp_all
  have len: "off + 4096 + 4096 * length bs \<le> length buf" using Cons.prems(2) by simp
  have "unat (of_nat (4096 * length (b # bs)) :: u32) = 4096 * length (b # bs)" unfolding unat_of_nat using Cons.prems(3) by simp
  then have nz: "(of_nat (4096 * length (b # bs)) :: u32) \<noteq> 0" by (metis length_greater_0_conv list.distinct(1) mult_eq_0_iff neq0_conv unat_0 zero_neq_numeral)
  have u: "unat (of_nat off :: u32) = off" using Cons.prems(3) by (simp add: unat_of_nat)
  define buf1 where "buf1 = overwrite buf off (eblk fs s b)"
  have "ext2_read_block b (drop off buf) s = Some (True, overwrite (drop off buf) 0 (eblk fs s b))"
    by (rule ext2_read_block_ok [OF assms(1) b(2)]) (use len in simp)
  moreover have "overwrite buf off (overwrite (drop off buf) 0 (eblk fs s b)) = buf1"
    using len assms(1) by (simp add: buf1_def overwrite_def add.commute)
  ultimately have r: "read_block_at b off buf s = Some buf1" using len by (simp add: read_block_at_def)
  have "(of_nat (4096 * length (b # bs)) :: u32) - 4096 = of_nat (4096 * length bs)" "(of_nat off :: u32) + 4096 = of_nat (off + 4096)" by simp_all
  then have "block_loop ((b # bs) @ rest) 4096 (of_nat (4096 * length (b # bs))) (of_nat off) buf s
      = block_loop (bs @ rest) 4096 (of_nat (4096 * length bs)) (of_nat (off + 4096)) buf1 s"
    using nz b(1) u r by (simp del: of_nat_mult of_nat_Suc of_nat_add length_Cons)
  also have "\<dots> = Some (0, of_nat (off + 4096 + 4096 * length bs), overwrite buf1 (off + 4096) (concat (map (eblk fs s) bs)))"
    by (rule Cons.IH) (use Cons.prems len assms(1) in \<open>auto simp: buf1_def\<close>)
  also have "overwrite buf1 (off + 4096) (concat (map (eblk fs s) bs)) = overwrite buf off (concat (map (eblk fs s) (b # bs)))"
  proof -
    have "length (concat (map (eblk fs s) bs)) = 4096 * length bs" using assms(1) by (induction bs) simp_all
    then show ?thesis
      using overwrite_adj [of off "eblk fs s b" "concat (map (eblk fs s) bs)" buf] len assms(1) by (simp add: buf1_def)
  qed
  finally show ?case by (simp add: algebra_simps)
qed

text \<open>A file of at most twelve whole blocks is read as their contents in order.\<close>

lemma ext2_read_file_ok:
  assumes "mounted fs s" "n \<le> 12" "length (i_block inode) = 15" "i_size inode = of_nat (4096 * n)" "4096 * n \<le> length buffer"
    and "\<forall>b\<in>set (take n (i_block inode)). b \<noteq> 0 \<and> b < s_blocks_count (fs_super fs)"
  shows "ext2_read_file junk inode buffer s = Some (True, overwrite buffer 0 (concat (map (eblk fs s) (take n (i_block inode)))))"
proof -
  have t: "take 12 (i_block inode) = take n (i_block inode) @ drop n (take 12 (i_block inode))"
    using assms(2) by (metis append_take_drop_id min.absorb1 take_take)
  have l: "length (take n (i_block inode)) = n" using assms(2,3) by simp
  have "block_loop (take 12 (i_block inode)) 4096 (i_size inode) 0 buffer s
    = Some (0, of_nat (4096 * n), overwrite buffer 0 (concat (map (eblk fs s) (take n (i_block inode)))))"
    using block_loop_ok [OF assms(1,6), of 0 buffer "drop n (take 12 (i_block inode))"] assms(2,4,5) t l by simp
  then show ?thesis using assms(1) by (simp add: ext2_read_file_def mounted_def)
qed

text \<open>A buffer as long as a file that does not fill its block is overrun, since whole blocks are read.\<close>

lemma ext2_read_file_overruns:
  assumes "mounted fs s" "i_block inode = b # bs" "b \<noteq> 0" "b < s_blocks_count (fs_super fs)" "0 < unat (i_size inode)"
    "unat (i_size inode) < 4096" "length buffer = unat (i_size inode)"
  shows "ext2_read_file junk inode buffer s = None"
proof -
  have m: "ext2 s = Some fs" "fs_block_size fs = 4096" "dev_ok (fs_disk_no fs) s" using assms(1) by (simp_all add: mounted_def)
  note a = block_address [OF assms(1,4)]
  have "kebla_disk_read (fs_disk_no fs) (EXT2_START_LBA s + ucast b * 8) 8 buffer s = None"
    by (rule disk_read_short [OF m(3)]) (use a assms(6,7) in simp_all)
  then have "read_block_at b 0 buffer s = None" using m assms(4) by (simp add: read_block_at_def ext2_read_block_def not_le)
  moreover have "i_size inode \<noteq> 0" using assms(5) by auto
  ultimately show ?thesis using m assms(2,3) by (simp add: ext2_read_file_def)
qed

section \<open>Formatting and mounting\<close>

lemma disk_globals:
  "get_disk no (s\<lparr>ext2 := x\<rparr>) = get_disk no s" "get_disk no (s\<lparr>EXT2_START_LBA := a\<rparr>) = get_disk no s"
  "sata_dev no (s\<lparr>ext2 := x\<rparr>) = sata_dev no s" "sata_dev no (s\<lparr>EXT2_START_LBA := a\<rparr>) = sata_dev no s"
  by (simp_all add: get_disk_def sata_dev_def split: option.split)

lemma dev_globals [simp]:
  "dev_ok no (s\<lparr>ext2 := x\<rparr>) = dev_ok no s" "dev_cap no (s\<lparr>ext2 := x\<rparr>) = dev_cap no s"
  "dev_sectors no (s\<lparr>ext2 := x\<rparr>) = dev_sectors no s"
  "dev_ok no (s\<lparr>EXT2_START_LBA := a\<rparr>) = dev_ok no s" "dev_cap no (s\<lparr>EXT2_START_LBA := a\<rparr>) = dev_cap no s"
  by (simp_all add: fun_eq_iff dev_ok_def dev_cap_def dev_drive_def disk_globals dev_sectors_def dev_sector_def)

definition put_two :: "int \<Rightarrow> nat \<Rightarrow> u64 \<times> bytes \<Rightarrow> ext2_sys \<Rightarrow> ext2_sys" where
  "put_two no start = (\<lambda>(off, d). dev_put no (start + unat off) 2 d)"

lemma write_blocks_ok:
  assumes "dev_ok no s" "\<forall>(off, d)\<in>set bs. length d = 4096 \<and> unat start + unat off + 2 \<le> dev_cap no s"
  shows "write_blocks no start bs s = Some (True, fold (put_two no (unat start)) bs s) \<and> dev_ok no (fold (put_two no (unat start)) bs s)"
  using assms
proof (induction bs arbitrary: s)
  case (Cons p bs)
  obtain off d where p: "p = (off, d)" by (cases p)
  have c: "length d = 4096" "unat start + unat off + 2 \<le> dev_cap no s" using Cons.prems(2) p by auto
  have "dev_cap no s \<le> 2 ^ 48" using Cons.prems(1) by (simp add: dev_ok_def)
  then have u: "unat (start + off) = unat start + unat off" using c(2) by (simp add: unat_word_ariths)
  have w: "kebla_disk_write no (start + off) 2 d s = Some (True, put_two no (unat start) p s)"
    using kebla_disk_write_ok [OF Cons.prems(1), of 2 "start + off" d] c u by (simp add: p put_two_def)
  have "dev_ok no (put_two no (unat start) p s)" "dev_cap no (put_two no (unat start) p s) = dev_cap no s"
    using dev_ok_put [OF Cons.prems(1), of 2 d] c(1) by (simp_all add: p put_two_def)
  then show ?case using Cons.IH [of "put_two no (unat start) p s"] Cons.prems(2) w p by simp
qed simp

lemma fold_put_two:
  "EXT2_START_LBA (fold (put_two no start) bs s) = EXT2_START_LBA s" "ext2 (fold (put_two no start) bs s) = ext2 s"
  "disk_malloc_ok (fold (put_two no start) bs s) = disk_malloc_ok s" "dev_cap no (fold (put_two no start) bs s) = dev_cap no s"
  by (induction bs arbitrary: s) (auto simp: put_two_def)

lemma fold_put_two_keeps:
  assumes "dev_ok no s" "\<forall>(off, d)\<in>set bs. length d = 4096 \<and> k + 2 \<le> unat off"
  shows "dev_sectors no (fold (put_two no start) bs s) (start + k) 2 = dev_sectors no s (start + k) 2"
  using assms
proof (induction bs arbitrary: s)
  case (Cons p bs)
  obtain off d where p: "p = (off, d)" by (cases p)
  have c: "length d = 4096" "k + 2 \<le> unat off" using Cons.prems(2) p by auto
  have "dev_ok no (put_two no start p s)" using dev_ok_put [OF Cons.prems(1), of 2 d] c(1) by (simp add: p put_two_def)
  moreover have "dev_sectors no (put_two no start p s) (start + k) 2 = dev_sectors no s (start + k) 2"
    using dev_sectors_put(2) [OF Cons.prems(1), where n = 2 and d = d and lba = "start + unat off" and lba' = "start + k" and m = 2] c by (simp add: p put_two_def)
  ultimately show ?case using Cons.IH [of "put_two no start p s"] Cons.prems(2) by simp
qed simp

lemma fold_put_two_ok:
  assumes "dev_ok no s" "\<forall>(off, d)\<in>set bs. length d = 4096"
  shows "dev_ok no (fold (put_two no start) bs s)"
  using assms by (induction bs arbitrary: s) (auto simp: put_two_def dev_ok_put)

lemma fold_put_two_at:
  assumes "dev_ok no s" "\<forall>(off, d)\<in>set (xs @ (off, d) # ys). length d = 4096" "\<forall>(o', d)\<in>set ys. unat off + 2 \<le> unat o'"
  shows "dev_sectors no (fold (put_two no start) (xs @ (off, d) # ys) s) (start + unat off) 2 = take 1024 d"
proof -
  define t where "t = fold (put_two no start) xs s"
  have t: "dev_ok no t" unfolding t_def by (rule fold_put_two_ok) (use assms in auto)
  have d: "length d = 4096" using assms(2) by simp
  then have "dev_ok no (put_two no start (off, d) t)" using dev_ok_put [OF t, of 2 d] by (simp add: put_two_def)
  then have "dev_sectors no (fold (put_two no start) ys (put_two no start (off, d) t)) (start + unat off) 2
    = dev_sectors no (put_two no start (off, d) t) (start + unat off) 2"
    by (rule fold_put_two_keeps) (use assms(2,3) in auto)
  then show ?thesis using dev_sectors_put(1) [OF t, of 2 d] d by (simp add: t_def put_two_def)
qed

lemma create_ext2_fs_ok:
  assumes "dev_ok no s" "100 \<le> unat total_sectors" "unat start + unat total_sectors \<le> dev_cap no s"
  obtains s' where "create_ext2_fs no start total_sectors s = Some (True, s')" "dev_ok no s'" "dev_cap no s' = dev_cap no s"
    "EXT2_START_LBA s' = start" "ext2 s' = ext2 s" "disk_malloc_ok s' = disk_malloc_ok s"
    "dev_sectors no s' (unat start + 2) 2 = super_bytes (new_super (ucast (total_sectors div 8))) @ replicate 934 0"
    "dev_sectors no s' (unat start + 8) 2 = 0x06 # replicate 1023 0"
proof -
  define blocks where "blocks = (ucast (total_sectors div 8) :: u32)"
  define s0 where "s0 = s\<lparr>EXT2_START_LBA := start\<rparr>"
  have fb: "length d = 4096 \<and> unat off + 2 \<le> 20" if "(off, d) \<in> set (format_blocks blocks)" for off d
    using that length_inode_bytes [of "dir_inode 4096 261"]
    by (auto simp: format_blocks_def block_of_def EXT2_BLOCK_SIZE_def INODE_TABLE_BLOCKS_def dot_entries_def dirent_bytes_def)
  have ok: "dev_ok no s0" "dev_cap no s0 = dev_cap no s" using assms(1) by (simp_all add: s0_def)
  define s' where "s' = fold (put_two no (unat start)) (format_blocks blocks) s0"
  have w: "write_blocks no start (format_blocks blocks) s0 = Some (True, s') \<and> dev_ok no s'"
    unfolding s'_def by (rule write_blocks_ok) (use ok fb assms(2,3) in fastforce)+
  have at: "dev_sectors no s' (unat start + unat off) 2 = take 1024 d"
    if "format_blocks blocks = xs @ (off, d) # ys" "\<forall>(o', d)\<in>set ys. unat off + 2 \<le> unat o'" for xs off d ys
    unfolding s'_def that(1) by (rule fold_put_two_at [OF ok(1) _ that(2)]) (use fb that(1) in auto)
  have "dev_sectors no s' (unat start + unat (2 :: u64)) 2 = take 1024 (block_of (super_bytes (new_super blocks)))"
    by (rule at [where xs = "[]" and ys = "drop 1 (format_blocks blocks)"]) (simp_all add: format_blocks_def)
  moreover have "dev_sectors no s' (unat start + unat (8 :: u64)) 2 = take 1024 (block_of [0x06])"
    by (rule at [where xs = "take 3 (format_blocks blocks)" and ys = "drop 4 (format_blocks blocks)"]) (simp_all add: format_blocks_def)
  moreover have "\<not> total_sectors < 100" using assms(2) by (simp add: word_less_nat_alt)
  then have "create_ext2_fs no start total_sectors s = Some (True, s')" using w by (simp add: create_ext2_fs_def s0_def blocks_def)
  moreover have "take 1024 (block_of (super_bytes (new_super blocks))) = super_bytes (new_super blocks) @ replicate 934 0"
    "take 1024 (block_of [0x06]) = 0x06 # replicate 1023 0" by (simp_all add: block_of_def EXT2_BLOCK_SIZE_def take_Cons')
  ultimately show ?thesis
    using that [of s'] w fold_put_two [where s = s0 and no = no and start = "unat start" and bs = "format_blocks blocks"] ok(2)
    by (simp add: s'_def s0_def blocks_def)
qed

text \<open>
  The formatter places its parts in units of two sectors, the rest of the driver in blocks of eight: block 1, where the
  descriptors are looked for, begins with the inode bitmap. Read as a descriptor, it puts the block bitmap in block 6, and the
  inode bitmap and the inode table in block 0.
\<close>

lemma formatted_descriptor_misplaced:
  assumes "dev_ok no s" "100 \<le> unat total_sectors" "unat start + unat total_sectors \<le> dev_cap no s"
  shows "\<exists>s'. create_ext2_fs no start total_sectors s = Some (True, s')
     \<and> group_of (bslice 0 32 (dev_sectors no s' (unat start + 8) 2)) = \<lparr>bg_block_bitmap = 6, bg_inode_bitmap = 0,
         bg_inode_table = 0, bg_free_blocks_count = 0, bg_free_inodes_count = 0, bg_used_dirs_count = 0\<rparr>"
proof -
  obtain s' where "create_ext2_fs no start total_sectors s = Some (True, s')" "dev_sectors no s' (unat start + 8) 2 = 0x06 # replicate 1023 0"
    using create_ext2_fs_ok [OF assms] by metis
  moreover have "group_of (bslice 0 32 (0x06 # replicate 1023 0)) = \<lparr>bg_block_bitmap = 6, bg_inode_bitmap = 0, bg_inode_table = 0,
      bg_free_blocks_count = 0, bg_free_inodes_count = 0, bg_used_dirs_count = 0\<rparr>" by code_simp
  ultimately show ?thesis by metis
qed

text \<open>In the bitmap of the formatter, inode 1 is free and inode 3 is taken: bit 0 stands for inode 1.\<close>

lemma formatted_bitmap_inodes: "used_bits (block_of [0x06]) = {1, 2}"
proof -
  have "k \<in> used_bits (block_of [0x06]) \<longleftrightarrow> k \<in> {1, 2}" if "k < 8" for k
  proof -
    have "\<forall>k\<in>set [0..<8]. bit (0x06 :: u8) k \<longleftrightarrow> k \<in> {1, 2}" by code_simp
    then show ?thesis using used_bits_block(1) [OF that, of "0x06"] that by simp
  qed
  moreover have "k \<notin> used_bits (block_of [0x06])" if "8 \<le> k" for k using used_bits_block(2) [OF that] .
  moreover have "k < 8" if "k \<in> {1, 2}" for k :: nat using that by auto
  ultimately show ?thesis by (intro set_eqI) (meson linorder_not_le)
qed

text \<open>
  C38. A fresh file system cannot be mounted. On a working disk, for up to 127 groups (about 16 GiB), \<open>create_ext2_fs\<close> succeeds,
  and \<open>ext2_mount\<close> then reads a whole block of 4096 bytes into the 32 bytes per group that it has allocated for the
  descriptors, whatever the state of the driver was: it writes past the end of the object.
\<close>

theorem ext2_mount_after_format_overruns:
  assumes "dev_ok no s" "100 \<le> unat total_sectors" "unat total_sectors \<le> 8 * 127 * 32768"
    and "unat start + unat total_sectors \<le> dev_cap no s" "\<And>n. disk_malloc_ok s n"
  shows "\<exists>s'. create_ext2_fs no start total_sectors s = Some (True, s') \<and> ext2_mount no s' = None"
proof -
  define blocks where "blocks = (ucast (total_sectors div 8) :: u32)"
  define groups where "groups = (blocks + 32768 - 1) div 32768"
  have tb: "unat (total_sectors div 8) = unat total_sectors div 8" by (simp add: unat_div_distrib)
  then have b: "unat blocks = unat total_sectors div 8" "12 \<le> unat blocks" "unat blocks \<le> 127 * 32768"
    using assms(2,3) by (simp_all add: blocks_def unsigned_ucast_eq take_bit_nat_eq_self)
  then have "unat (blocks + 32768 - 1) = unat blocks + 32767" by (simp add: unat_word_ariths)
  then have g: "unat groups = (unat blocks + 32767) div 32768" by (simp add: groups_def unat_div_distrib)
  then have g': "1 \<le> unat groups" "unat groups \<le> 127" using b(2,3) by (linarith, linarith)
  obtain s' where s': "create_ext2_fs no start total_sectors s = Some (True, s')" "dev_ok no s'" "dev_cap no s' = dev_cap no s"
    "EXT2_START_LBA s' = start" "ext2 s' = ext2 s" "disk_malloc_ok s' = disk_malloc_ok s"
    "dev_sectors no s' (unat start + 2) 2 = super_bytes (new_super blocks) @ replicate 934 0"
    "dev_sectors no s' (unat start + 8) 2 = 0x06 # replicate 1023 0"
    unfolding blocks_def by (rule create_ext2_fs_ok [OF assms(1,2,4)])
  have cap: "dev_cap no s' \<le> 2 ^ 48" using s'(2) by (simp add: dev_ok_def)
  then have u: "unat (start + 2) = unat start + 2" "unat (start + 8) = unat start + 8" using assms(2,4) s'(3) by (simp_all add: unat_word_ariths)
  have r: "kebla_disk_read no (start + 2) 2 (replicate 1024 0) s' = Some (True, super_bytes (new_super blocks) @ replicate 934 0)"
    using kebla_disk_read_ok [OF s'(2), of 2 "start + 2" "replicate 1024 0"] u(1) s'(3,7) assms(2,4) by simp
  have f: "s_magic (new_super blocks) = 0xEF53" "s_log_block_size (new_super blocks) = 2" "s_blocks_per_group (new_super blocks) = 32768"
    "s_blocks_count (new_super blocks) = blocks"
    by (simp_all add: new_super_def Let_def EXT2_SUPER_MAGIC_def BLOCKS_PER_GROUP_def)
  have one: "\<not> blocks \<le> 1" using b(2) by (simp add: word_le_nat_alt)
  have "kebla_disk_read no (start + 8) 8 (replicate (unat groups * 32) 0) (s'\<lparr>ext2 := x\<rparr>) = None" for x
    by (rule disk_read_short) (use s'(2,3) u(2) assms(2,4) g' in simp_all)
  moreover have "ext2_malloc (unat groups * 32) s' = Some (replicate (unat groups * 32) 0)" using g'(1) assms(5) s'(6) by (simp add: ext2_malloc_def)
  ultimately have "ext2_mount no s' = None"
    using r f one assms(5) s'(4,6) unfolding ext2_mount_def
    by (cases "ext2 s'") (simp_all add: super_roundtrip ext2_read_block_def Let_def groups_def push_bit_eq_mult)
  then show ?thesis using s'(1) by blast
qed

theorem ext2_mount_after_format_overruns_witness:
  "\<exists>s'. create_ext2_fs 0 0 200 sample_empty = Some (True, s') \<and> ext2_mount 0 s' = None"
  using ext2_mount_after_format_overruns [of 0 sample_empty 200 0] sample_empty_dev by simp

end
