(* ===== verification/Spec2Isabelle.thy ===== *)
theory Spec2Isabelle
  imports Keyboard Gpt Process LibSort KHeap LibTime DiskScan AtapiCmd Vfs Ext2
begin

text \<open>
  A verification development for KeblaOS, a 64-bit hobby operating system in C. Paths below are relative to
  \<open>src/kernel/src\<close>.

  \<^bold>\<open>The program and its model.\<close> The kernel detects the usable memory, hands out physical frames and virtual
  pages, keeps processes and threads, drives disks and keeps FAT32 volumes on them; its own small C library
  serves all of this. Each theory models one part, in the order of the calls:

  \<^item> \<open>Prelude\<close>: C integers as fixed-width words, buffers as byte lists, little-endian fields, the failures of C
    code, and the lemma collections \<open>buf_simps\<close> and \<open>le_simps\<close>.
  \<^item> \<open>PhysMem\<close>: \<open>memory/detect_memory.c\<close> (choice of the usable region), \<open>memory/kmalloc.c\<close> (placement
    allocator), \<open>memory/pmm.c\<close> (frame bitmap). State: the record \<open>phys_mem\<close> of the globals. Interface: locale
    \<open>placement_alloc\<close>, interpreted for \<open>kmalloc\<close> and \<open>kmalloc_a\<close>; frames and their owners as the step relation
    \<open>frame_step\<close> with an invariant over every reachable state.
  \<^item> \<open>Paging\<close>: \<open>memory/paging.c\<close>, \<open>memory/vmm.c\<close>, \<open>memory/kheap.c\<close>, \<open>memory/uheap.c\<close>. State: \<open>vmem\<close>, physical
    memory with the words of the page tables and the two heap pointers. A table tree is sound when no two paths
    share a table (\<open>table_tree\<close>); \<open>translate\<close> is the address translation of the processor for 4 KiB pages (neither the code nor
    the walk looks at the PS bit of large pages). Tables are reached through the direct map; the properties say which
    pages must lie outside of it (\<open>off_direct_map\<close>), since the code would otherwise remap its own access to them.
  \<^item> \<open>KHeap\<close>: what the two page heaps promise, as the locale \<open>page_heap\<close>, interpreted for \<open>kheap_alloc\<close> and
    \<open>uheap_alloc\<close>.
  \<^item> \<open>Process\<close>: \<open>process/process.c\<close> and \<open>process/thread.c\<close>. Structures live in stores indexed by their address,
    links are addresses; the two lists share the locale \<open>linked_list\<close>. A new structure is stored only in a page that takes the
    store (\<open>can_store\<close>, with the write protection bit CR0.WP as part of the state). \<open>schedule\<close> switches between the threads
    of the current process; no code of the repository calls it, so a run is a sequence of calls.
  \<^item> \<open>RingBuffer\<close>: \<open>driver/keyboard/ring_buffer.c\<close>, a refinement of the locale \<open>lossy_queue\<close>.
  \<^item> \<open>Vga\<close>: \<open>driver/vga/vga.c\<close>, drawing into the framebuffer. State: \<open>screen\<close>, the pixels and their geometry.
  \<^item> \<open>Terminal\<close>: \<open>driver/vga/vga_term.c\<close>, the log of \<open>driver/io/serial.c\<close> and \<open>printf\<close>. State: \<open>terminal\<close>, the
    screen with cursor, colours, fonts and log; \<open>term_ok\<close> is its invariant.
  \<^item> \<open>Keyboard\<close>: \<open>driver/keyboard/keyboard.c\<close> and the line reader of \<open>kshell/kshell.c\<close>. State: \<open>keyboard\<close>, the
    terminal, the ring buffer and the modifier keys; the handler refines the rule \<open>typed\<close>.
  \<^item> \<open>LibString\<close>, \<open>LibSort\<close>: \<open>lib/string.c\<close>, \<open>lib/ctype.c\<close> and \<open>lib/stdlib.c\<close> on a memory of objects and
    offsets, where an access outside an object is undefined (\<open>None\<close>).
  \<^item> \<open>LibFormat\<close>: the \<open>printf\<close> family of \<open>lib/stdio.c\<close> over a list of typed arguments, and \<open>guid_to_string\<close>; the
    arithmetic of doubles is the record \<open>fp_ops\<close>.
  \<^item> \<open>LibTime\<close>: \<open>lib/time.c\<close> and \<open>sys/timer/rtc.c\<close>, between clock chip, seconds and calendar.
  \<^item> \<open>Disk\<close>: \<open>driver/disk/disk.c\<close> and the transfers of \<open>driver/disk/ahci/sata_disk.c\<close>; the locale \<open>block_device\<close>
    states what file systems rely on and is interpreted for SATA disks.
  \<^item> \<open>Satapi\<close>: the packet commands of \<open>driver/disk/ahci/satapi.c\<close> (read capacity, read, eject) on the record
    \<open>atapi_drive\<close> of the disc in the drive, in blocks of 2048 bytes; \<open>Disk\<close> dispatches to it.
  \<^item> \<open>Ahci\<close>: \<open>driver/disk/ahci/ahci.c\<close> at the level of port registers and physical memory (record \<open>ahci\<close>): the
    port probe, start and stop of the engine, the command list laid out by \<open>portRebase\<close>, and the building of the
    command header, scatter list and FIS in \<open>runCommand\<close>. The controller is the parameter \<open>hw\<close>; the contract
    \<open>executes_read\<close> promises something for well-formed commands on a started port only (\<open>dma_read_command\<close>: header bits, alignment,
    regions, register FIS), and only that they complete within the polling time, the buffer being arbitrary until then.
  \<^item> \<open>AtapiCmd\<close>: \<open>AtpiPortRebase\<close> and \<open>runAtapiCommand\<close> at the same level; under the contract \<open>executes_packet\<close>, which asks for the
    PACKET command, the ATAPI bit and the layout of the table in the same way, they refine the commands of \<open>Satapi\<close>.
  \<^item> \<open>Pci\<close>: \<open>driver/pci/pci.c\<close> and the tables of \<open>sys/controllers\<close>. The configuration mechanism is the parameter \<open>cfg\<close>, its
    documented behaviour the contract \<open>decodes\<close>; the scan enters exactly the functions that are present.
  \<^item> \<open>DiskScan\<close>: \<open>kebla_get_disks\<close> of \<open>driver/disk/disk.c\<close>, which fills the table of drives from the mass storage
    controllers of the scan and establishes the invariant \<open>dev_ok\<close> that \<open>Disk\<close> relies on.
  \<^item> \<open>Iso9660\<close>: \<open>fs/iso9660/iso9660.c\<close>, volume descriptor, directory records, path walk, open, read, directories and close
    on a disc that satisfies \<open>reads_disc\<close>; \<open>rec_ident\<close>, \<open>rec_name\<close> and \<open>rec_file\<close> read a record by the layout of ECMA-119.
  \<^item> \<open>FatBpb\<close>, \<open>FatTable\<close>, \<open>FatChain\<close>, \<open>FatDir\<close>, \<open>FatEntry\<close>, \<open>FatFile\<close>, \<open>FatWrite\<close>, \<open>FatSession\<close>, \<open>FatDirOps\<close>,
    \<open>FatMount\<close>: the FAT32 driver of \<open>fs/fat32_fs\<close>, from the boot sector and its geometry over clusters, the file
    allocation table, chains, directory entries and long names to files, directories, formatting and mounting.
    State: \<open>fat32\<close>, the disks extended with the globals of the driver.
  \<^item> \<open>Vfs\<close>: \<open>vfs/vfs.c\<close>, the calls that go to the FAT32 or to the ISO9660 driver by the type of a disk. What a reader of a
    file relies on is the locale \<open>whole_file\<close>, interpreted for both drivers.
  \<^item> \<open>Vsfs\<close>: \<open>fs/vsfs/vsfs.c\<close>, block addresses, bitmap allocators and formatting.
  \<^item> \<open>Ext2\<close>: \<open>fs/ext2/ext2.c\<close>, formatting, mounting, inodes, files, directories and allocation. Its allocators run the
    bitmap loop of \<open>Vsfs\<close>; directory blocks are lists of records, a sound file system is \<open>ext2_sound\<close>.
  \<^item> \<open>Gpt\<close>: \<open>mbr.c\<close>, \<open>gpt.c\<close>, \<open>guid.c\<close> and \<open>partition_manager.c\<close> of \<open>fs/fat32_fs/src/partition\<close>.

  \<^bold>\<open>Conventions.\<close> A function that changes globals takes the state last and returns its value with the new state.
  \<open>None\<close> (FAT32, disks, C library) or \<open>Inl\<close> of a \<open>kfault\<close> (memory) stands for what C leaves undefined, a
  fault or a loop that does not end; an error the code reports is a value. NULL is \<open>None\<close> of a pointer option
  or the address 0. Integers keep their width and wrap where the code's do. Messages printed by other components are
  dropped.
  \<open>malloc\<close> in the file systems returns NULL for the size 0 and otherwise a cleared block or NULL, decided by the field
  \<open>disk_malloc_ok\<close>. Hardware is a parameter: the platter of a drive, the memory map of the boot loader. Transfers between a drive and
  a buffer take the buffer where it is: the conversion of its address to a physical one in \<open>kebla_disk_read\<close> and
  \<open>kebla_disk_write\<close>, right for buffers in the direct map, is not part of the disk model.

  \<^bold>\<open>Loops.\<close> A loop with a counter is a structural recursion on the number of its rounds, or a \<open>function\<close> with a
  measure. Loops that follow entries of the file allocation table may not end on a damaged table and are
  \<open>partial_function (option)\<close>: \<open>None\<close> is that they do not return, and every property that speaks of their result
  proves that they do. No model runs on fuel that a caller chooses.

  \<^bold>\<open>What is shown.\<close> Memory: frames are never handed out twice, placement and heap blocks are disjoint and
  mapped, mapping a page changes no other translation. Processes: the lists stay sound, round robin reaches
  every thread when all can run. Library: sorting, searching, copying, conversions, tokens, formatted text
  and its truncation, the calendar. Display: lines are digital lines, printing stays on the screen, what is typed
  without editing is what the shell reads. Disks: detection from the bus to the table of drives, commands at the level of registers,
  round trips, clearing, partition tables. Virtual file system: files written and closed read back, both drivers deliver
  the contents of a file. FAT32: table entries, chains, clusters, names and entries survive their round trips, allocation and
  release change exactly the clusters they should, files are byte lists for reading, writing and seeking, a
  formatted volume mounts, and a file that was written and closed reads back. The properties of kind error state
  where the code departs from its intent; the lemmas behind them name the inputs.

  \<^bold>\<open>Not modelled.\<close> Device registers and port I/O other than those of the AHCI ports and the PCI configuration space (NVMe, PIC, APIC, timers,
  network, mouse, speaker), descriptor tables and ACPI tables: their effect is on hardware the source does not define.
  Third-party code (UGUI, limine), the GUI and installer on top of it and the user-space copies of the library.
  Floating-point code (the math library, the progress bar). The
  switch of the system calls over the registers of the interrupt frame, and the loader of user programs.
\<close>

section \<open>Paths are split by the string library\<close>

lemma tokens_path_tokens: "tokens [47] s = path_tokens s"
proof (induction s rule: path_tokens.induct)
  case (1 s)
  show ?case
  proof (cases "dropWhile (\<lambda>c. c = 47) s")
    case Nil
    then show ?thesis by (subst tokens.simps, subst path_tokens.simps) (simp del: dropWhile_eq_Nil_conv)
  next
    case (Cons c cs)
    have "c \<noteq> 47" using hd_dropWhile [of "\<lambda>c. c = 47" s] Cons by (metis list.distinct(1) list.sel(1))
    then show ?thesis using Cons 1 [OF Cons] by (subst tokens.simps, subst path_tokens.simps) simp
  qed
qed

text \<open>
  C32. The path tokens of the file system are those of the string library: a loop of \<open>strtok(path, "/")\<close> and
  \<open>strtok(NULL, "/")\<close> calls, as \<open>fat32_path_to_cluster\<close> makes it, ends and yields exactly the tokens the model
  of the path walk uses, each a terminated string inside the copy of the path, and changes only that copy.
\<close>

theorem path_walk_tokens_are_strtok_tokens:
  assumes "cstr m p path" "cstr m d [47]" "apart d 2 p (length path + 1)"
  shows "\<exists>ts m'. strtok_all p d next_token m = Some (ts, m') \<and> list_all2 (cstr m') ts (path_tokens path)
     \<and> only_changed p (length path + 1) m m'"
  using strtok_all_tokens [OF assms(1,2), of next_token] assms(3) by (simp add: tokens_path_tokens numeral_2_eq_2)

theorem path_walk_tokens_are_strtok_tokens_witness:
  "\<exists>ts m'. strtok_all (0, 0) (1, 0) None [0 \<mapsto> [47, 97, 98, 47, 47, 99, 0], 1 \<mapsto> [47, 0]] = Some (ts, m')
     \<and> list_all2 (cstr m') ts [[97, 98], [99]]"
proof -
  have "path_tokens [47, 97, 98, 47, 47, 99] = [[97, 98], [99]]" by (simp add: path_tokens.simps)
  then show ?thesis
    using path_walk_tokens_are_strtok_tokens [of "[0 \<mapsto> [47, 97, 98, 47, 47, 99, 0], 1 \<mapsto> [47, 0]]" "(0, 0)" "[47, 97, 98, 47, 47, 99]" "(1, 0)" None]
    by (auto simp: apart_def ld_def padd_def)
qed

end
